(* ===== verification/Prelude.thy ===== *)
theory Prelude
  imports Complex_Main "HOL-Library.Char_ord" "HOL-Library.List_Lexorder"
begin

text \<open>
  Shared vocabulary of the development.

  \<^item> \<open>js_num\<close> is the type of the values of the JavaScript type \<open>number\<close>: a finite value or one of
    the three non-finite values.  Finite arithmetic is exact; the rounding of doubles is not
    modelled, and \<open>-0\<close> is the same value as \<open>0\<close>.
  \<^item> \<open>js_val\<close> is the type of the values the source receives as \<open>unknown\<close>: data trees, with
    \<open>JUndef\<close> for \<open>undefined\<close>.  Strings are lists of code units.
  \<^item> \<open>ms_set\<close>, \<open>ms_del\<close> and the library's \<open>map_of\<close> are the operations of a JavaScript \<open>Map\<close>,
    whose iteration order is the insertion order: an association list, where \<open>set\<close> of a present
    key keeps its place and \<open>set\<close> of a new key appends.
  \<^item> \<open>sort_cmp\<close> is \<open>Array.prototype.sort\<close> with a comparison function: stable insertion sort.
\<close>

named_theorems map_laws
  "laws of the insertion-ordered maps"

subsection \<open>Values\<close>

datatype js_num = Fin real | PInf | NInf | NaN

datatype js_val =
    JUndef
  | JNull
  | JBool bool
  | JNum js_num
  | JStr string
  | JArr "js_val list"
  | JObj "(string \<times> js_val) list"

abbreviation jnum :: "real \<Rightarrow> js_val" where "jnum x \<equiv> JNum (Fin x)"

definition max_safe :: int where "max_safe = 9007199254740991"

subsection \<open>Insertion-ordered maps\<close>

type_synonym ('k, 'v) jsmap = "('k \<times> 'v) list"

abbreviation ms_keys :: "('k, 'v) jsmap \<Rightarrow> 'k list" where "ms_keys m \<equiv> map fst m"

abbreviation ms_vals :: "('k, 'v) jsmap \<Rightarrow> 'v list" where "ms_vals m \<equiv> map snd m"

definition ms_has :: "('k, 'v) jsmap \<Rightarrow> 'k \<Rightarrow> bool" where
  "ms_has m k \<longleftrightarrow> k \<in> set (ms_keys m)"

fun ms_set :: "'k \<Rightarrow> 'v \<Rightarrow> ('k, 'v) jsmap \<Rightarrow> ('k, 'v) jsmap" where
  "ms_set k v [] = [(k, v)]"
| "ms_set k v ((k', v') # m) = (if k' = k then (k, v) # m else (k', v') # ms_set k v m)"

definition ms_del :: "'k \<Rightarrow> ('k, 'v) jsmap \<Rightarrow> ('k, 'v) jsmap" where
  "ms_del k m = filter (\<lambda>e. fst e \<noteq> k) m"

definition ms_wf :: "('k, 'v) jsmap \<Rightarrow> bool" where
  "ms_wf m \<longleftrightarrow> distinct (ms_keys m)"

lemma map_of_ms_set [simp, map_laws]: "map_of (ms_set k v m) = (map_of m)(k \<mapsto> v)"
  by (induction k v m rule: ms_set.induct) auto

lemma map_of_ms_del [simp, map_laws]: "map_of (ms_del k m) = (map_of m)(k := None)"
  by (induction m) (auto simp: ms_del_def fun_eq_iff)

lemma keys_ms_set [simp, map_laws]:
  "ms_keys (ms_set k v m) = (if k \<in> set (ms_keys m) then ms_keys m else ms_keys m @ [k])"
  by (induction k v m rule: ms_set.induct) auto

lemma keys_ms_del [simp, map_laws]: "ms_keys (ms_del k m) = filter (\<lambda>k'. k' \<noteq> k) (ms_keys m)"
  by (induction m) (auto simp: ms_del_def)

lemma ms_wf_Nil [simp]: "ms_wf []"
  by (simp add: ms_wf_def)

lemma ms_wf_set [simp, map_laws]: "ms_wf m \<Longrightarrow> ms_wf (ms_set k v m)"
  unfolding ms_wf_def by (subst keys_ms_set) auto

lemma ms_wf_del [simp, map_laws]: "ms_wf m \<Longrightarrow> ms_wf (ms_del k m)"
  unfolding ms_wf_def by (subst keys_ms_del) (rule distinct_filter)

lemma ms_has_iff: "ms_has m k \<longleftrightarrow> map_of m k \<noteq> None"
  by (simp add: ms_has_def map_of_eq_None_iff image_image)

lemma map_of_in_set_iff: "ms_wf m \<Longrightarrow> map_of m k = Some v \<longleftrightarrow> (k, v) \<in> set m"
  by (simp add: ms_wf_def)

lemma ms_set_new: "k \<notin> set (ms_keys m) \<Longrightarrow> ms_set k v m = m @ [(k, v)]"
  by (induction k v m rule: ms_set.induct) auto

lemma ms_del_absent: "k \<notin> set (ms_keys m) \<Longrightarrow> ms_del k m = m"
  unfolding ms_del_def by (rule filter_True) (metis image_eqI set_map)

lemma length_ms_del:
  assumes "ms_wf m" and "k \<in> set (ms_keys m)"
  shows "length (ms_del k m) = length m - 1"
proof -
  have "ms_keys (ms_del k m) = remove1 k (ms_keys m)"
    using assms(1) by (subst keys_ms_del)
      (simp add: ms_wf_def distinct_remove1_removeAll removeAll_filter_not_eq eq_commute)
  then have "length (ms_keys (ms_del k m)) = length (remove1 k (ms_keys m))"
    by simp
  with assms(2) show ?thesis
    by (metis length_map length_remove1)
qed

lemma set_ms_set: "ms_wf m \<Longrightarrow> set (ms_set k v m) = insert (k, v) {e \<in> set m. fst e \<noteq> k}"
  by (induction k v m rule: ms_set.induct) (auto simp: ms_wf_def rev_image_eqI)

lemma set_ms_del [simp]: "set (ms_del k m) = {e \<in> set m. fst e \<noteq> k}"
  by (auto simp: ms_del_def)

text \<open>The interface the components use of such a map.\<close>

locale keyed_map =
  fixes get :: "'m \<Rightarrow> 'k \<Rightarrow> 'v option"
    and put :: "'k \<Rightarrow> 'v \<Rightarrow> 'm \<Rightarrow> 'm"
    and drop_key :: "'k \<Rightarrow> 'm \<Rightarrow> 'm"
    and key_list :: "'m \<Rightarrow> 'k list"
    and good :: "'m \<Rightarrow> bool"
  assumes get_put: "get (put k v m) k' = (if k' = k then Some v else get m k')"
    and get_drop: "get (drop_key k m) k' = (if k' = k then None else get m k')"
    and get_keys: "get m k \<noteq> None \<longleftrightarrow> k \<in> set (key_list m)"
    and put_keeps_order: "k \<in> set (key_list m) \<Longrightarrow> key_list (put k v m) = key_list m"
    and put_appends: "k \<notin> set (key_list m) \<Longrightarrow> key_list (put k v m) = key_list m @ [k]"
    and good_put: "good m \<Longrightarrow> good (put k v m)"
    and good_drop: "good m \<Longrightarrow> good (drop_key k m)"
    and good_distinct: "good m \<Longrightarrow> distinct (key_list m)"
begin

lemma put_put_same: "get (put k w (put k v m)) = get (put k w m)"
  by (rule ext) (simp add: get_put)

lemma fold_put_get:
  "get (fold (\<lambda>k. put k (f k)) ks m) k' = (if k' \<in> set ks then Some (f k') else get m k')"
  by (induction ks arbitrary: m) (auto simp: get_put)

lemma fold_put_good: "good m \<Longrightarrow> good (fold (\<lambda>k. put k (f k)) ks m)"
  by (induction ks arbitrary: m) (auto simp: good_put)

lemma present_put_keys: "set (key_list (put k v m)) = insert k (set (key_list m))"
  using put_keeps_order [of k m v] put_appends [of k m v] by (cases "k \<in> set (key_list m)") auto

end

interpretation jm: keyed_map "map_of :: ('k \<times> 'v) list \<Rightarrow> 'k \<Rightarrow> 'v option" ms_set ms_del ms_keys ms_wf
proof unfold_locales
qed (auto simp: map_laws ms_wf_def map_of_eq_None_iff simp del: not_None_eq dest: weak_map_of_SomeI
    intro: ms_wf_set[unfolded ms_wf_def] ms_wf_del[unfolded ms_wf_def])

lemma filter_neq_id [simp]: "x \<notin> set xs \<Longrightarrow> filter (\<lambda>v. v \<noteq> x) xs = xs"
  by (auto intro: filter_True)

subsection \<open>Stable sorting with a comparison function\<close>

fun insert_cmp :: "('a \<Rightarrow> 'a \<Rightarrow> int) \<Rightarrow> 'a \<Rightarrow> 'a list \<Rightarrow> 'a list" where
  "insert_cmp c x [] = [x]"
| "insert_cmp c x (y # ys) = (if c x y \<le> 0 then x # y # ys else y # insert_cmp c x ys)"

fun sort_cmp :: "('a \<Rightarrow> 'a \<Rightarrow> int) \<Rightarrow> 'a list \<Rightarrow> 'a list" where
  "sort_cmp c [] = []"
| "sort_cmp c (x # xs) = insert_cmp c x (sort_cmp c xs)"

lemma set_insert_cmp [simp]: "set (insert_cmp c x ys) = insert x (set ys)"
  by (induction c x ys rule: insert_cmp.induct) auto

lemma set_sort_cmp [simp]: "set (sort_cmp c xs) = set xs"
  by (induction xs) auto

lemma length_insert_cmp [simp]: "length (insert_cmp c x ys) = Suc (length ys)"
  by (induction c x ys rule: insert_cmp.induct) auto

lemma length_sort_cmp [simp]: "length (sort_cmp c xs) = length xs"
  by (induction xs) auto

lemma distinct_insert_cmp [simp]: "distinct (insert_cmp c x ys) \<longleftrightarrow> x \<notin> set ys \<and> distinct ys"
  by (induction c x ys rule: insert_cmp.induct) auto

lemma distinct_sort_cmp [simp]: "distinct (sort_cmp c xs) = distinct xs"
  by (induction xs) auto

lemma map_insert_cmp:
  "map f (insert_cmp (\<lambda>a b. c (f a) (f b)) x ys) = insert_cmp c (f x) (map f ys)"
  by (induction ys) auto

lemma map_sort_cmp: "map f (sort_cmp (\<lambda>a b. c (f a) (f b)) xs) = sort_cmp c (map f xs)"
  by (induction xs) (auto simp: map_insert_cmp)

lemma sorted_insert_cmp:
  assumes "\<And>x y. c x y \<le> 0 \<or> c y x \<le> 0" and "\<And>x y z. c x y \<le> 0 \<Longrightarrow> c y z \<le> 0 \<Longrightarrow> c x z \<le> (0::int)"
  shows "sorted_wrt (\<lambda>x y. c x y \<le> 0) ys \<Longrightarrow> sorted_wrt (\<lambda>x y. c x y \<le> 0) (insert_cmp c x ys)"
proof (induction ys)
  case (Cons y ys)
  show ?case
  proof (cases "c x y \<le> 0")
    case True
    with Cons.prems assms(2) show ?thesis by auto
  next
    case False
    with assms(1) [of x y] Cons show ?thesis by auto
  qed
qed simp

lemma sorted_sort_cmp:
  assumes "\<And>x y. c x y \<le> 0 \<or> c y x \<le> 0" and "\<And>x y z. c x y \<le> 0 \<Longrightarrow> c y z \<le> 0 \<Longrightarrow> c x z \<le> (0::int)"
  shows "sorted_wrt (\<lambda>x y. c x y \<le> 0) (sort_cmp c xs)"
  by (induction xs) (auto intro: sorted_insert_cmp [OF assms])

text \<open>A comparison that orders by the key \<open>k\<close> sorts by that key.\<close>

definition cmp_by :: "('a \<Rightarrow> 'b::linorder) \<Rightarrow> 'a \<Rightarrow> 'a \<Rightarrow> int" where
  "cmp_by k x y = (if k x < k y then -1 else if k y < k x then 1 else 0)"

lemma cmp_by_le: "cmp_by k x y \<le> 0 \<longleftrightarrow> k x \<le> k y"
  by (auto simp: cmp_by_def)

lemma sorted_insert_cmp_by:
  "sorted (map k ys) \<Longrightarrow> sorted (map k (insert_cmp (cmp_by k) x ys))"
  by (induction ys) (auto simp: cmp_by_le)

lemma sorted_sort_cmp_by: "sorted (map k (sort_cmp (cmp_by k) xs))"
  by (induction xs) (auto intro: sorted_insert_cmp_by)

lemma insort_eq_insert_cmp: "insort_key k x ys = insert_cmp (cmp_by k) x ys"
  by (induction ys) (auto simp: cmp_by_le)

lemma sort_eq_sort_cmp: "sort_key k xs = sort_cmp (cmp_by k) xs"
  by (induction xs) (auto simp: insort_eq_insert_cmp)

text \<open>The \<open>||\<close> chain of comparison results: the first one that is not zero.\<close>

definition cmp_then :: "int \<Rightarrow> int \<Rightarrow> int" where
  "cmp_then a b = (if a \<noteq> 0 then a else b)"

definition cmp_val :: "'a::linorder \<Rightarrow> 'a \<Rightarrow> int" where
  "cmp_val x y = (if x < y then -1 else if y < x then 1 else 0)"

lemma cmp_val_self [simp]: "cmp_val x x = 0"
  by (simp add: cmp_val_def)

lemma cmp_val_zero [simp]: "cmp_val x y = 0 \<longleftrightarrow> x = y"
  by (auto simp: cmp_val_def)

lemma cmp_val_less [simp]: "cmp_val x y < 0 \<longleftrightarrow> x < y"
  by (auto simp: cmp_val_def)

lemma cmp_val_flip: "cmp_val y x = - cmp_val x y"
  by (auto simp: cmp_val_def)

lemma cmp_then_less: "cmp_then a b < 0 \<longleftrightarrow> a < 0 \<or> a = 0 \<and> b < 0"
  by (auto simp: cmp_then_def)

subsection \<open>Lists without repetition in first-occurrence order\<close>

text \<open>\<open>[...new Set(xs)]\<close>: the elements in the order of their first occurrence.\<close>

definition uniq :: "'a list \<Rightarrow> 'a list" where
  "uniq xs = rev (remdups (rev xs))"

lemma set_uniq [simp]: "set (uniq xs) = set xs"
  by (simp add: uniq_def)

lemma distinct_uniq [simp]: "distinct (uniq xs)"
  by (simp add: uniq_def)

lemma uniq_distinct: "distinct xs \<Longrightarrow> uniq xs = xs"
  by (simp add: uniq_def distinct_remdups_id)

lemma uniq_idem [simp]: "uniq (uniq xs) = uniq xs"
  by (simp add: uniq_distinct)

subsection \<open>Tokens\<close>

text \<open>
  The white space \<open>String.prototype.trim\<close> removes, of the code units below 256; a token is a string
  that is not empty and that trimming leaves alone.
\<close>

definition js_space :: "char \<Rightarrow> bool" where
  "js_space c \<longleftrightarrow> (of_char c :: nat) \<in> set [9, 10, 11, 12, 13, 32, 160]"

definition js_trim :: "string \<Rightarrow> string" where
  "js_trim s = rev (dropWhile js_space (rev (dropWhile js_space s)))"

definition validToken :: "string \<Rightarrow> bool" where
  "validToken s \<longleftrightarrow> s \<noteq> [] \<and> js_trim s = s"

end
