(* ===== verification/Numbers.thy ===== *)
theory Numbers
  imports Prelude
begin

text \<open>
  Validation of numeric evidence (\<open>src/number-utils.ts\<close>), the stored-value parsers and the generic
  settings parser of \<open>src/setting-input.ts\<close>, and the scheduling settings of
  \<open>src/scheduling-settings.ts\<close>.  The parsers take an arbitrary value, so every branch on a
  missing, non-numeric or non-finite value is a branch here.
\<close>

subsection \<open>number-utils.ts\<close>

definition isFiniteNumber :: "js_val \<Rightarrow> bool" where
  "isFiniteNumber v = (case v of JNum (Fin _) \<Rightarrow> True | _ \<Rightarrow> False)"

definition isSafeInteger :: "js_val \<Rightarrow> bool" where
  "isSafeInteger v = (case v of JNum (Fin x) \<Rightarrow> x = of_int \<lfloor>x\<rfloor> \<and> \<bar>\<lfloor>x\<rfloor>\<bar> \<le> max_safe | _ \<Rightarrow> False)"

definition isSafeCount :: "js_val \<Rightarrow> int \<Rightarrow> int \<Rightarrow> bool" where
  "isSafeCount v minimum maximum = (case v of
     JNum (Fin x) \<Rightarrow> isSafeInteger v \<and> of_int minimum \<le> x \<and> x \<le> of_int maximum
   | _ \<Rightarrow> False)"

definition nonNegativeFinite :: "js_val \<Rightarrow> real" where
  "nonNegativeFinite v = (case v of JNum (Fin x) \<Rightarrow> max 0 x | _ \<Rightarrow> 0)"

definition nonNegativeCount :: "js_val \<Rightarrow> nat" where
  "nonNegativeCount v = (case v of JNum (Fin x) \<Rightarrow> nat (max 0 \<lfloor>x\<rfloor>) | _ \<Rightarrow> 0)"

definition positiveCount :: "js_val \<Rightarrow> nat" where
  "positiveCount v = (case v of JNum (Fin x) \<Rightarrow> nat (max 1 \<lfloor>x\<rfloor>) | _ \<Rightarrow> 1)"

definition finiteNumber :: "js_val \<Rightarrow> real option" where
  "finiteNumber v = (case v of JNum (Fin x) \<Rightarrow> Some x | _ \<Rightarrow> None)"

definition clampProbability :: "js_num \<Rightarrow> real" where
  "clampProbability n = max 0 (min 1 (case n of Fin x \<Rightarrow> x | _ \<Rightarrow> 0))"

definition incrementCounts :: "(string \<rightharpoonup> real) \<Rightarrow> string list \<Rightarrow> (string \<rightharpoonup> real)" where
  "incrementCounts target ks =
     fold (\<lambda>k counts. counts(k := map_option (\<lambda>n. n + 1) (counts k))) ks
       (map_of (map (\<lambda>k. (k, 0)) ks) ++ target)"

lemmas number_defs = isFiniteNumber_def isSafeInteger_def isSafeCount_def nonNegativeFinite_def
  nonNegativeCount_def positiveCount_def finiteNumber_def clampProbability_def

lemma clampProbability_range: "0 \<le> clampProbability n" "clampProbability n \<le> 1"
  by (auto simp: clampProbability_def)

lemma clampProbability_id: "0 \<le> x \<Longrightarrow> x \<le> 1 \<Longrightarrow> clampProbability (Fin x) = x"
  by (simp add: clampProbability_def)

lemma nonNegativeFinite_nonneg [simp]: "0 \<le> nonNegativeFinite v"
  by (simp add: nonNegativeFinite_def split: js_val.splits js_num.splits)

lemma nonNegativeFinite_idem [simp]: "nonNegativeFinite (jnum (nonNegativeFinite v)) = nonNegativeFinite v"
  by (simp add: nonNegativeFinite_def split: js_val.splits js_num.splits)

lemma positiveCount_pos [simp]: "1 \<le> positiveCount v"
  by (auto simp: positiveCount_def split: js_val.splits js_num.splits)

lemma isSafeCount_cases:
  assumes "isSafeCount v mn mx"
  obtains n where "v = jnum (of_int n)" "mn \<le> n" "n \<le> mx" "\<bar>n\<bar> \<le> max_safe"
proof -
  from assms obtain x where x: "v = jnum x" "x = of_int \<lfloor>x\<rfloor>" "\<bar>\<lfloor>x\<rfloor>\<bar> \<le> max_safe"
      "of_int mn \<le> x" "x \<le> of_int mx"
    by (auto simp: isSafeCount_def isSafeInteger_def split: js_val.splits js_num.splits)
  from x(2,4) have "mn \<le> \<lfloor>x\<rfloor>" by (simp add: le_floor_iff)
  moreover from x(2,5) have "\<lfloor>x\<rfloor> \<le> mx" by linarith
  ultimately show thesis using that [of "\<lfloor>x\<rfloor>"] x by simp
qed

lemma isSafeCount_of_int [simp]:
  "isSafeCount (jnum (of_int n)) mn mx \<longleftrightarrow> mn \<le> n \<and> n \<le> mx \<and> \<bar>n\<bar> \<le> max_safe"
  by (auto simp: isSafeCount_def isSafeInteger_def)

lemma fold_increment:
  "fold (\<lambda>k counts. counts(k := map_option (\<lambda>n. n + (1::real)) (counts k))) ks m x =
     map_option (\<lambda>n. n + real (count_list ks x)) (m x)"
  by (induction ks arbitrary: m) (auto simp: option.map_comp comp_def algebra_simps option.map_ident)

lemma incrementCounts_apply:
  "incrementCounts target ks x =
     (case target x of
        Some n \<Rightarrow> Some (n + real (count_list ks x))
      | None \<Rightarrow> if x \<in> set ks then Some (real (count_list ks x)) else None)"
proof -
  have "map_of (map (\<lambda>k. (k, 0 :: real)) ks) x = (if x \<in> set ks then Some 0 else None)"
    by (induction ks) auto
  then show ?thesis
    by (auto simp: incrementCounts_def fold_increment map_add_def split: option.splits)
qed

subsection \<open>setting-input.ts: stored-value parsers\<close>

definition safe_floor :: "real \<Rightarrow> bool" where
  "safe_floor x \<longleftrightarrow> \<bar>\<lfloor>x\<rfloor>\<bar> \<le> max_safe"

definition positiveInteger :: "js_val \<Rightarrow> int \<Rightarrow> int" where
  "positiveInteger v fallback = (case v of
     JNum (Fin x) \<Rightarrow> if safe_floor x \<and> 1 \<le> x then \<lfloor>x\<rfloor> else fallback
   | _ \<Rightarrow> fallback)"

definition nonNegativeInteger :: "js_val \<Rightarrow> int \<Rightarrow> int" where
  "nonNegativeInteger v fallback = (case v of
     JNum (Fin x) \<Rightarrow> if safe_floor x \<and> 0 \<le> x then \<lfloor>x\<rfloor> else fallback
   | _ \<Rightarrow> fallback)"

definition milliseconds :: "js_val \<Rightarrow> int \<Rightarrow> int" where
  "milliseconds v fallback =
     (if isSafeCount v 0 2147483647 then (case v of JNum (Fin x) \<Rightarrow> \<lfloor>x\<rfloor> | _ \<Rightarrow> fallback) else fallback)"

definition positiveMilliseconds :: "js_val \<Rightarrow> int \<Rightarrow> int" where
  "positiveMilliseconds v fallback =
     (if milliseconds v fallback \<noteq> 0 then milliseconds v fallback else fallback)"

definition nonNegativeNumber :: "js_val \<Rightarrow> 'f \<Rightarrow> (real \<Rightarrow> 'f) \<Rightarrow> 'f" where
  "nonNegativeNumber v fallback number = (case v of
     JNum (Fin x) \<Rightarrow> if 0 \<le> x then number x else fallback
   | _ \<Rightarrow> fallback)"

definition probability :: "js_val \<Rightarrow> real \<Rightarrow> real" where
  "probability v fallback = (case v of
     JNum (Fin x) \<Rightarrow> if 0 \<le> x \<and> x \<le> 1 then x else fallback
   | _ \<Rightarrow> fallback)"

definition booleanOr :: "js_val \<Rightarrow> bool \<Rightarrow> bool" where
  "booleanOr v fallback = (case v of JBool b \<Rightarrow> b | _ \<Rightarrow> fallback)"

text \<open>
  A field is its name, its default and its parser; \<open>parse\<close> reads every declared field and no other.
\<close>

type_synonym 'v setting_field = "string \<times> 'v \<times> (js_val \<Rightarrow> 'v \<Rightarrow> 'v)"

definition settings_defaults :: "'v setting_field list \<Rightarrow> (string, 'v) jsmap" where
  "settings_defaults fields = map (\<lambda>(k, d, p). (k, d)) fields"

definition settings_parse :: "'v setting_field list \<Rightarrow> (string \<rightharpoonup> js_val) \<Rightarrow> (string, 'v) jsmap" where
  "settings_parse fields input =
     map (\<lambda>(k, d, p). (k, p (case input k of Some v \<Rightarrow> v | None \<Rightarrow> JUndef) d)) fields"

lemma settings_parse_lookup:
  assumes "distinct (map fst fields)" and "(k, d, p) \<in> set fields"
  shows "map_of (settings_parse fields input) k =
    Some (p (case input k of Some v \<Rightarrow> v | None \<Rightarrow> JUndef) d)"
proof -
  have "(k, p (case input k of Some v \<Rightarrow> v | None \<Rightarrow> JUndef) d) \<in> set (settings_parse fields input)"
    using assms(2) by (auto simp: settings_parse_def intro!: rev_image_eqI)
  moreover have "map fst (settings_parse fields input) = map fst fields"
    by (auto simp: settings_parse_def)
  ultimately show ?thesis using assms(1) by (simp add: map_of_is_SomeI)
qed

subsection \<open>scheduling-settings.ts\<close>

definition int_setting :: "(js_val \<Rightarrow> int \<Rightarrow> int) \<Rightarrow> js_val \<Rightarrow> real \<Rightarrow> real" where
  "int_setting p v d = of_int (p v \<lfloor>d\<rfloor>)"

definition scheduling_fields :: "real setting_field list" where
  "scheduling_fields =
    [(''resourcePollIntervalMs'', 250, int_setting positiveMilliseconds),
     (''gpuPollIntervalMs'', 1000, int_setting positiveMilliseconds),
     (''gpuProbeTimeoutMs'', 1000, int_setting positiveMilliseconds),
     (''failureThreshold'', 2, int_setting positiveInteger),
     (''failureRetryDecisions'', 4, int_setting positiveInteger),
     (''heavyCpu'', 2, int_setting positiveInteger),
     (''lightCpu'', 1, int_setting positiveInteger),
     (''heavyMemoryBytes'', 64 * 1024 * 1024, int_setting positiveInteger),
     (''lightMemoryBytes'', 8 * 1024 * 1024, int_setting positiveInteger),
     (''heavyIo'', 0.25, probability),
     (''lightIo'', 0.125, probability)]"

definition normalizeSchedulingSettings :: "(string \<rightharpoonup> js_val) \<Rightarrow> (string, real) jsmap" where
  "normalizeSchedulingSettings = settings_parse scheduling_fields"

definition scheduling_setting :: "(string, real) jsmap \<Rightarrow> string \<Rightarrow> real" where
  "scheduling_setting s k = (case map_of s k of Some x \<Rightarrow> x | None \<Rightarrow> 0)"

text \<open>What each parser guarantees, for a default in its range.\<close>

definition pos_setting :: "real \<Rightarrow> bool" where
  "pos_setting x \<longleftrightarrow> (\<exists>n. x = of_int n \<and> 1 \<le> n \<and> n \<le> max_safe)"

lemma positiveInteger_range:
  "1 \<le> d \<Longrightarrow> d \<le> max_safe \<Longrightarrow> 1 \<le> positiveInteger v d \<and> positiveInteger v d \<le> max_safe"
  by (auto simp: positiveInteger_def safe_floor_def le_floor_iff split: js_val.splits js_num.splits)

lemma positiveMilliseconds_range:
  assumes "1 \<le> d" "d \<le> 2147483647"
  shows "1 \<le> positiveMilliseconds v d \<and> positiveMilliseconds v d \<le> 2147483647"
proof (cases "isSafeCount v 0 2147483647")
  case True
  then obtain n where "v = jnum (of_int n)" "0 \<le> n" "n \<le> 2147483647"
    by (rule isSafeCount_cases)
  with True assms show ?thesis
    by (auto simp: positiveMilliseconds_def milliseconds_def)
next
  case False
  with assms show ?thesis by (auto simp: positiveMilliseconds_def milliseconds_def)
qed

lemma probability_range: "0 \<le> d \<Longrightarrow> d \<le> 1 \<Longrightarrow> 0 \<le> probability v d \<and> probability v d \<le> 1"
  by (auto simp: probability_def split: js_val.splits js_num.splits)

lemma positiveInteger_fix:
  "1 \<le> n \<Longrightarrow> n \<le> max_safe \<Longrightarrow> positiveInteger (jnum (of_int n)) d = n"
  by (auto simp: positiveInteger_def safe_floor_def)

lemma positiveMilliseconds_fix:
  "1 \<le> n \<Longrightarrow> n \<le> 2147483647 \<Longrightarrow> positiveMilliseconds (jnum (of_int n)) d = n"
  by (auto simp: positiveMilliseconds_def milliseconds_def max_safe_def)

lemma probability_fix: "0 \<le> x \<Longrightarrow> x \<le> 1 \<Longrightarrow> probability (jnum x) d = x"
  by (simp add: probability_def)

text \<open>A parser that accepts every value it produces: parsing twice is parsing once.\<close>

definition stable_field :: "real setting_field \<Rightarrow> bool" where
  "stable_field f \<longleftrightarrow> (case f of (k, d, p) \<Rightarrow> \<forall>v. p (jnum (p v d)) d = p v d)"

lemma stable_int_setting:
  assumes "\<And>v. p (jnum (of_int (p v \<lfloor>d\<rfloor>))) \<lfloor>d\<rfloor> = p v \<lfloor>d\<rfloor>"
  shows "stable_field (k, d, int_setting p)"
  using assms by (simp add: stable_field_def int_setting_def)

lemma stable_positiveInteger:
  "1 \<le> \<lfloor>d\<rfloor> \<Longrightarrow> \<lfloor>d\<rfloor> \<le> max_safe \<Longrightarrow> stable_field (k, d, int_setting positiveInteger)"
  by (rule stable_int_setting) (metis positiveInteger_fix positiveInteger_range)

lemma stable_positiveMilliseconds:
  "1 \<le> \<lfloor>d\<rfloor> \<Longrightarrow> \<lfloor>d\<rfloor> \<le> 2147483647 \<Longrightarrow> stable_field (k, d, int_setting positiveMilliseconds)"
  by (rule stable_int_setting) (metis positiveMilliseconds_fix positiveMilliseconds_range)

lemma stable_probability: "0 \<le> d \<Longrightarrow> d \<le> 1 \<Longrightarrow> stable_field (k, d, probability)"
  unfolding stable_field_def prod.case by (metis probability_fix probability_range)

lemma scheduling_fields_stable: "list_all stable_field scheduling_fields"
  by (simp add: scheduling_fields_def stable_positiveInteger stable_positiveMilliseconds
      stable_probability max_safe_def)

lemma settings_parse_idem:
  assumes "distinct (map fst fields)" and "list_all stable_field fields"
  shows "settings_parse fields (map_option jnum \<circ> map_of (settings_parse fields input)) =
    settings_parse fields input"
proof -
  have "p (case map_option jnum (map_of (settings_parse fields input) k) of Some v \<Rightarrow> v | None \<Rightarrow> JUndef) d =
      p (case input k of Some v \<Rightarrow> v | None \<Rightarrow> JUndef) d" if f: "(k, d, p) \<in> set fields" for k d p
    using settings_parse_lookup [OF assms(1) f] assms(2) f
    by (auto simp: list_all_iff stable_field_def)
  then show ?thesis
    unfolding settings_parse_def [of _ "map_option jnum \<circ> map_of (settings_parse fields input)"]
    by (subst settings_parse_def) auto
qed

lemma scheduling_fields_distinct: "distinct (map fst scheduling_fields)"
  by (simp add: scheduling_fields_def)

definition integer_settings :: "string list" where
  "integer_settings = map fst (take 9 scheduling_fields)"

definition fraction_settings :: "string list" where
  "fraction_settings = map fst (drop 9 scheduling_fields)"

lemma pos_setting_int:
  "1 \<le> p v \<lfloor>d\<rfloor> \<Longrightarrow> p v \<lfloor>d\<rfloor> \<le> max_safe \<Longrightarrow> pos_setting (int_setting p v d)"
  by (auto simp: pos_setting_def int_setting_def)

lemma int_setting_ranges:
  "1 \<le> \<lfloor>d\<rfloor> \<Longrightarrow> \<lfloor>d\<rfloor> \<le> max_safe \<Longrightarrow> pos_setting (int_setting positiveInteger v d)"
  "1 \<le> \<lfloor>d\<rfloor> \<Longrightarrow> \<lfloor>d\<rfloor> \<le> 2147483647 \<Longrightarrow> pos_setting (int_setting positiveMilliseconds v d)"
  using positiveInteger_range [of "\<lfloor>d\<rfloor>" v] positiveMilliseconds_range [of "\<lfloor>d\<rfloor>" v]
  by (auto intro!: pos_setting_int simp: max_safe_def)

text \<open>Stored scheduling settings: whatever is stored, the parsed settings have exactly the declared
  fields; every integer field is a positive safe integer and every fraction lies between 0 and 1;
  and parsing the parsed settings again changes nothing.\<close>

theorem normalizeSchedulingSettings_sound:
  "ms_keys (normalizeSchedulingSettings input) = map fst scheduling_fields \<and>
   list_all (\<lambda>k. pos_setting (scheduling_setting (normalizeSchedulingSettings input) k)) integer_settings \<and>
   list_all (\<lambda>k. 0 \<le> scheduling_setting (normalizeSchedulingSettings input) k \<and>
     scheduling_setting (normalizeSchedulingSettings input) k \<le> 1) fraction_settings \<and>
   normalizeSchedulingSettings (map_option jnum \<circ> map_of (normalizeSchedulingSettings input)) =
     normalizeSchedulingSettings input"
proof (intro conjI)
  show "ms_keys (normalizeSchedulingSettings input) = map fst scheduling_fields"
    by (simp add: normalizeSchedulingSettings_def settings_parse_def case_prod_beta comp_def)
  show "list_all (\<lambda>k. pos_setting (scheduling_setting (normalizeSchedulingSettings input) k)) integer_settings"
    by (simp add: integer_settings_def scheduling_fields_def scheduling_setting_def
        normalizeSchedulingSettings_def settings_parse_def int_setting_ranges max_safe_def)
  show "list_all (\<lambda>k. 0 \<le> scheduling_setting (normalizeSchedulingSettings input) k \<and>
      scheduling_setting (normalizeSchedulingSettings input) k \<le> 1) fraction_settings"
    by (simp add: fraction_settings_def scheduling_fields_def scheduling_setting_def
        normalizeSchedulingSettings_def settings_parse_def probability_range)
  show "normalizeSchedulingSettings (map_option jnum \<circ> map_of (normalizeSchedulingSettings input)) =
      normalizeSchedulingSettings input"
    unfolding normalizeSchedulingSettings_def
    by (rule settings_parse_idem [OF scheduling_fields_distinct scheduling_fields_stable])
qed

end
