(* ===== verification/Recency_Map.thy ===== *)
theory Recency_Map
  imports Numbers
begin

text \<open>
  The fixed-entry LRU map of \<open>src/bounded-recency-map.ts\<close>: a \<open>Map\<close> whose iteration order is the
  recency order, oldest entry first.  The capacity stays a JavaScript number, because
  \<open>Math.max(1, Math.floor(capacity))\<close> is \<open>NaN\<close> or infinite for a non-finite argument and the
  eviction test \<open>!(size <= capacity)\<close> treats the two differently.
\<close>

record ('k, 'v) recency_map =
  capacity :: js_num
  entries :: "('k, 'v) jsmap"

definition floor_capacity :: "js_num \<Rightarrow> js_num" where
  "floor_capacity c = (case c of
     Fin x \<Rightarrow> Fin (of_int (max 1 \<lfloor>x\<rfloor>)) | PInf \<Rightarrow> PInf | NInf \<Rightarrow> Fin 1 | NaN \<Rightarrow> NaN)"

definition rm_new :: "js_num \<Rightarrow> ('k, 'v) recency_map" where
  "rm_new c = \<lparr>capacity = floor_capacity c, entries = []\<rparr>"

definition fits :: "nat \<Rightarrow> js_num \<Rightarrow> bool" where
  "fits n c = (case c of Fin x \<Rightarrow> real n \<le> x | PInf \<Rightarrow> True | NInf \<Rightarrow> False | NaN \<Rightarrow> False)"

definition rm_lookup :: "('k, 'v) recency_map \<Rightarrow> 'k \<Rightarrow> 'v option" where
  "rm_lookup m k = map_of (entries m) k"

definition rm_get :: "'k \<Rightarrow> ('k, 'v) recency_map \<Rightarrow> 'v option \<times> ('k, 'v) recency_map" where
  "rm_get k m = (case map_of (entries m) k of
     None \<Rightarrow> (None, m)
   | Some v \<Rightarrow> (Some v, m\<lparr>entries := ms_set k v (ms_del k (entries m))\<rparr>))"

definition rm_set :: "'k \<Rightarrow> 'v \<Rightarrow> ('k, 'v) recency_map \<Rightarrow> ('k, 'v) recency_map \<times> 'v option" where
  "rm_set k v m =
     (let es = ms_set k v (ms_del k (entries m)) in
      if fits (length es) (capacity m) then (m\<lparr>entries := es\<rparr>, None)
      else (case es of
              [] \<Rightarrow> (m\<lparr>entries := es\<rparr>, None)
            | (oldest, removed) # _ \<Rightarrow> (m\<lparr>entries := ms_del oldest es\<rparr>, Some removed)))"

definition rm_delete :: "'k \<Rightarrow> ('k, 'v) recency_map \<Rightarrow> ('k, 'v) recency_map" where
  "rm_delete k m = m\<lparr>entries := ms_del k (entries m)\<rparr>"

definition rm_getOrCreate ::
  "'k \<Rightarrow> 'e + 'v \<Rightarrow> ('k, 'v) recency_map \<Rightarrow> ('e + 'v) \<times> ('k, 'v) recency_map" where
  "rm_getOrCreate k create m = (case rm_get k m of
     (Some v, m') \<Rightarrow> (Inr v, m')
   | (None, m') \<Rightarrow> (case create of
       Inl err \<Rightarrow> (Inl err, m')
     | Inr v \<Rightarrow> (Inr v, fst (rm_set k v m'))))"

subsection \<open>Invariant\<close>

definition rm_inv :: "('k, 'v) recency_map \<Rightarrow> bool" where
  "rm_inv m \<longleftrightarrow> ms_wf (entries m) \<and> (entries m \<noteq> [] \<longrightarrow> fits (length (entries m)) (capacity m))"

lemma fits_mono: "fits n c \<Longrightarrow> m \<le> n \<Longrightarrow> fits m c"
  by (auto simp: fits_def split: js_num.splits)

lemma set_after_del: "ms_set k v (ms_del k es) = ms_del k es @ [(k, v)]"
  by (rule ms_set_new) (simp add: map_laws)

lemma tail_of_moved:
  assumes "ms_wf es" and "ms_del k es @ [(k, v)] = (old, r) # rest"
  shows "ms_del old (ms_del k es @ [(k, v)]) = rest"
proof -
  have "ms_wf (ms_del k es @ [(k, v)])"
    using assms(1) by (metis ms_wf_del ms_wf_set set_after_del)
  then have "old \<notin> set (ms_keys rest)"
    by (simp add: assms(2) ms_wf_def)
  then have "ms_del old ((old, r) # rest) = rest"
    using ms_del_absent [of old rest] by (simp add: ms_del_def)
  then show ?thesis by (simp only: assms(2))
qed

lemma rm_set_entries:
  assumes "ms_wf (entries m)"
  shows "entries (fst (rm_set k v m)) =
    (let es = ms_del k (entries m) @ [(k, v)] in if fits (length es) (capacity m) then es else tl es)"
proof -
  obtain old r rest where eq: "ms_del k (entries m) @ [(k, v)] = (old, r) # rest"
    by (metis append_is_Nil_conv list.exhaust prod.exhaust not_Cons_self)
  with tail_of_moved [OF assms eq] show ?thesis
    by (auto simp: rm_set_def set_after_del Let_def split: list.splits)
qed

lemma rm_get_entries:
  "entries (snd (rm_get k m)) =
    (case map_of (entries m) k of None \<Rightarrow> entries m | Some v \<Rightarrow> ms_del k (entries m) @ [(k, v)])"
  by (auto simp: rm_get_def set_after_del split: option.splits)

lemma capacity_rm_get [simp]: "capacity (snd (rm_get k m)) = capacity m"
  by (simp add: rm_get_def split: option.splits)

lemma capacity_rm_set [simp]: "capacity (fst (rm_set k v m)) = capacity m"
  by (auto simp: rm_set_def Let_def split: list.splits prod.splits)

lemma wf_moved: "ms_wf es \<Longrightarrow> ms_wf (ms_del k es @ [(k, v)])"
  by (metis ms_wf_del ms_wf_set set_after_del)

lemma wf_tl: "ms_wf es \<Longrightarrow> ms_wf (tl es)"
  by (cases es) (auto simp: ms_wf_def)

lemma rm_inv_new [simp]: "rm_inv (rm_new c)"
  by (simp add: rm_inv_def rm_new_def)

lemma rm_inv_get: "rm_inv m \<Longrightarrow> rm_inv (snd (rm_get k m))"
proof (cases "map_of (entries m) k")
  case (Some v)
  assume inv: "rm_inv m"
  from Some have k: "k \<in> set (ms_keys (entries m))" and ne: "entries m \<noteq> []"
    by (auto dest!: map_of_SomeD simp: rev_image_eqI)
  have "length (ms_del k (entries m) @ [(k, v)]) = length (entries m)"
    using inv k ne by (simp add: rm_inv_def length_ms_del)
  with inv Some ne show ?thesis
    using wf_moved [of "entries m" k v] by (simp add: rm_inv_def rm_get_def set_after_del)
qed (simp add: rm_get_def)

lemma rm_inv_delete: "rm_inv m \<Longrightarrow> rm_inv (rm_delete k m)"
  using fits_mono [of "length (entries m)" _ "length (ms_del k (entries m))"]
    ms_wf_del [of "entries m" k] length_filter_le [of _ "entries m"]
  by (auto simp: rm_inv_def rm_delete_def ms_del_def)

lemma length_moved: "length (ms_del k es @ [(k, v)]) \<le> Suc (length es)"
  by (simp add: ms_del_def)

text \<open>A capacity that comes from the constructor admits at least one entry, except \<open>NaN\<close>.\<close>

lemma rm_inv_set:
  assumes "rm_inv m"
  shows "rm_inv (fst (rm_set k v m))"
proof -
  let ?es = "ms_del k (entries m) @ [(k, v)]"
  have wf: "ms_wf ?es" using assms by (simp add: rm_inv_def wf_moved)
  have "tl ?es \<noteq> [] \<Longrightarrow> fits (length (tl ?es)) (capacity m)"
  proof -
    assume "tl ?es \<noteq> []"
    then have "entries m \<noteq> []" by (auto simp: ms_del_def)
    with assms have "fits (length (entries m)) (capacity m)" by (simp add: rm_inv_def)
    then show ?thesis by (rule fits_mono) (use length_moved [of k "entries m" v] in simp)
  qed
  with wf assms show ?thesis
    by (simp add: rm_inv_def rm_set_entries Let_def wf_tl)
qed

lemma rm_inv_getOrCreate: "rm_inv m \<Longrightarrow> rm_inv (snd (rm_getOrCreate k c m))"
  using rm_inv_get [of m k]
  by (auto simp: rm_getOrCreate_def rm_inv_set split: prod.splits option.splits sum.splits)

subsection \<open>Lookup laws\<close>

lemma lookup_rm_get [simp]: "rm_lookup (snd (rm_get k m)) = rm_lookup m"
  by (auto simp: rm_lookup_def rm_get_def fun_eq_iff split: option.splits)

lemma fst_rm_get [simp]: "fst (rm_get k m) = rm_lookup m k"
  by (simp add: rm_lookup_def rm_get_def split: option.splits)

lemma lookup_rm_set:
  assumes "rm_lookup (fst (rm_set k v m)) k' = Some w"
  shows "k' = k \<and> w = v \<or> rm_lookup m k' = Some w"
proof -
  let ?es = "ms_set k v (ms_del k (entries m))"
  from assms have "map_of ?es k' = Some w"
    by (auto simp: rm_lookup_def rm_set_def Let_def simp del: map_of_ms_set
        split: if_splits list.splits prod.splits)
  then show ?thesis by (auto simp: rm_lookup_def map_laws split: if_splits)
qed

lemma lookup_rm_delete: "rm_lookup (rm_delete k m) = (rm_lookup m)(k := None)"
  by (simp add: rm_lookup_def rm_delete_def fun_eq_iff)

text \<open>
  The contract a user of such a cache relies on: a stored value may disappear, and no value appears
  that was not stored.  Every fact about all cached values is therefore kept by the operations.
\<close>

locale lossy_cache =
  fixes look :: "'m \<Rightarrow> 'k \<Rightarrow> 'v option"
    and store :: "'k \<Rightarrow> 'v \<Rightarrow> 'm \<Rightarrow> 'm"
    and touch :: "'k \<Rightarrow> 'm \<Rightarrow> 'm"
    and forget :: "'k \<Rightarrow> 'm \<Rightarrow> 'm"
  assumes look_store: "look (store k v m) k' = Some w \<Longrightarrow> k' = k \<and> w = v \<or> look m k' = Some w"
    and look_touch: "look (touch k m) = look m"
    and look_forget: "look (forget k m) k' = Some w \<Longrightarrow> k' \<noteq> k \<and> look m k' = Some w"
begin

definition all_cached :: "('k \<Rightarrow> 'v \<Rightarrow> bool) \<Rightarrow> 'm \<Rightarrow> bool" where
  "all_cached P m \<longleftrightarrow> (\<forall>k v. look m k = Some v \<longrightarrow> P k v)"

lemma all_cached_store: "all_cached P m \<Longrightarrow> P k v \<Longrightarrow> all_cached P (store k v m)"
  using look_store by (fastforce simp: all_cached_def)

lemma all_cached_touch: "all_cached P (touch k m) = all_cached P m"
  by (simp add: all_cached_def look_touch)

lemma all_cached_forget: "all_cached P m \<Longrightarrow> all_cached P (forget k m)"
  unfolding all_cached_def using look_forget by blast

lemma all_cachedD: "all_cached P m \<Longrightarrow> look m k = Some v \<Longrightarrow> P k v"
  by (simp add: all_cached_def)

end

interpretation rm: lossy_cache rm_lookup "\<lambda>k v m. fst (rm_set k v m)" "\<lambda>k m. snd (rm_get k m)" rm_delete
  by unfold_locales (auto simp: lookup_rm_delete dest: lookup_rm_set split: if_splits)

subsection \<open>Refinement of the abstract least-recently-used policy\<close>

datatype ('k, 'v) cache_op = Get 'k | Put 'k 'v

fun rm_step :: "('k, 'v) recency_map \<Rightarrow> ('k, 'v) cache_op \<Rightarrow> ('k, 'v) recency_map" where
  "rm_step m (Get k) = snd (rm_get k m)"
| "rm_step m (Put k v) = fst (rm_set k v m)"

fun rm_run :: "('k, 'v) recency_map \<Rightarrow> ('k, 'v) cache_op list \<Rightarrow> ('k, 'v) recency_map" where
  "rm_run m [] = m"
| "rm_run m (x # xs) = rm_run (rm_step m x) xs"

text \<open>The keys an execution touches: every key stored and every key found.\<close>

fun touched :: "('k, 'v) recency_map \<Rightarrow> ('k, 'v) cache_op list \<Rightarrow> 'k list" where
  "touched m [] = []"
| "touched m (Get k # xs) =
     (if rm_lookup m k = None then [] else [k]) @ touched (rm_step m (Get k)) xs"
| "touched m (Put k v # xs) = k # touched (rm_step m (Put k v)) xs"

definition last_n :: "nat \<Rightarrow> 'a list \<Rightarrow> 'a list" where
  "last_n n xs = drop (length xs - n) xs"

lemma remdups_snoc: "remdups (xs @ [x]) = filter (\<lambda>y. y \<noteq> x) (remdups xs) @ [x]"
  by (induction xs) auto

lemma last_n_snoc: "last_n (Suc n) (xs @ [x]) = last_n n xs @ [x]"
  by (simp add: last_n_def)

lemma last_n_append: "length ys = n \<Longrightarrow> last_n n (xs @ ys) = ys"
  by (simp add: last_n_def)

lemma in_set_tlD: "x \<in> set (tl xs) \<Longrightarrow> x \<in> set xs"
  by (cases xs) auto

lemma filter_last_n_absent:
  assumes "k \<notin> set (last_n n R)"
  shows "last_n n (filter (\<lambda>y. y \<noteq> k) R) = last_n n R"
proof -
  have eq: "R = take (length R - n) R @ last_n n R" by (simp add: last_n_def)
  have keep: "filter (\<lambda>y. y \<noteq> k) (last_n n R) = last_n n R"
    using assms by (auto intro: filter_True)
  have len: "length (last_n n R) = min n (length R)" by (simp add: last_n_def)
  show ?thesis
  proof (cases "n \<le> length R")
    case True
    have "filter (\<lambda>y. y \<noteq> k) R = filter (\<lambda>y. y \<noteq> k) (take (length R - n) R) @ last_n n R"
      by (subst eq, subst filter_append) (simp only: keep)
    with len True show ?thesis by (simp add: last_n_append)
  next
    case False
    then have all: "last_n n R = R" by (simp add: last_n_def)
    with keep have "filter (\<lambda>y. y \<noteq> k) R = R" by simp
    with all show ?thesis by simp
  qed
qed

lemma length_filter_neq: "distinct K \<Longrightarrow> k \<in> set K \<Longrightarrow> length (filter (\<lambda>y. y \<noteq> k) K) = length K - 1"
proof -
  assume "distinct K" "k \<in> set K"
  moreover from this have "filter (\<lambda>y. y \<noteq> k) K = remove1 k K"
    by (simp add: distinct_remove1_removeAll removeAll_filter_not_eq eq_commute)
  ultimately show ?thesis by (simp add: length_remove1)
qed

lemma last_n_pred: "last_n n R = (if length (last_n (Suc n) R) \<le> n then last_n (Suc n) R else tl (last_n (Suc n) R))"
proof (cases "length R \<le> n")
  case True
  then show ?thesis by (simp add: last_n_def)
next
  case False
  then have "length R - n = Suc (length R - Suc n)" by simp
  with False show ?thesis by (simp add: last_n_def drop_Suc tl_drop)
qed

lemma filter_last_n_present:
  assumes "distinct R" and "k \<in> set (last_n (Suc n) R)"
  shows "last_n n (filter (\<lambda>y. y \<noteq> k) R) = filter (\<lambda>y. y \<noteq> k) (last_n (Suc n) R)"
proof -
  define P where "P = take (length R - Suc n) R"
  define K where "K = last_n (Suc n) R"
  have eq: "R = P @ K" by (simp add: P_def K_def last_n_def)
  have dPK: "distinct (P @ K)" using assms(1) by (simp only: flip: eq)
  have kK: "k \<in> set K" using assms(2) by (simp only: K_def)
  have kP: "k \<notin> set P" and dK: "distinct K" using dPK kK by auto
  have fP: "filter (\<lambda>y. y \<noteq> k) P = P" using kP by (auto intro: filter_True)
  have fK: "length (filter (\<lambda>y. y \<noteq> k) K) = length K - 1"
    using dK kK by (rule length_filter_neq)
  have lenK: "length K = min (Suc n) (length R)" by (simp add: K_def last_n_def)
  have "P = [] \<or> length K = Suc n"
    using lenK by (auto simp: P_def)
  then have "last_n n (P @ filter (\<lambda>y. y \<noteq> k) K) = filter (\<lambda>y. y \<noteq> k) K"
    using fK lenK by (auto simp: last_n_def)
  then have "last_n n (filter (\<lambda>y. y \<noteq> k) (P @ K)) = filter (\<lambda>y. y \<noteq> k) K"
    by (simp only: filter_append fP)
  then show ?thesis using eq K_def by metis
qed

lemma lru_step:
  assumes "rm_inv m" and "capacity m = Fin (real (Suc n))"
    and "ms_keys (entries m) = last_n (Suc n) (remdups ts)"
  shows "ms_keys (entries (fst (rm_set k v m))) = last_n (Suc n) (remdups (ts @ [k]))"
proof -
  let ?K = "last_n (Suc n) (remdups ts)" and ?R = "remdups ts"
  have keys: "ms_keys (ms_del k (entries m) @ [(k, v)]) = filter (\<lambda>y. y \<noteq> k) ?K @ [k]"
    using keys_ms_del [of k "entries m"] by (simp only: map_append assms(3) list.map fst_conv)
  have len: "length (ms_del k (entries m) @ [(k, v)]) = Suc (length (filter (\<lambda>y. y \<noteq> k) ?K))"
    using keys by (metis length_append_singleton length_map)
  have goal: "last_n (Suc n) (remdups (ts @ [k])) = last_n n (filter (\<lambda>y. y \<noteq> k) ?R) @ [k]"
    by (simp add: remdups_snoc last_n_snoc)
  show ?thesis
  proof (cases "k \<in> set ?K")
    case True
    have r: "last_n n (filter (\<lambda>y. y \<noteq> k) ?R) = filter (\<lambda>y. y \<noteq> k) ?K"
      using True by (rule filter_last_n_present [rotated]) simp
    have "length (filter (\<lambda>y. y \<noteq> k) ?K) \<le> n"
      unfolding r [symmetric] by (simp add: last_n_def)
    with assms(1,2) keys len goal r show ?thesis
      by (simp add: rm_set_entries rm_inv_def Let_def fits_def)
  next
    case False
    then have fK: "filter (\<lambda>y. y \<noteq> k) ?K = ?K" by (auto intro: filter_True)
    have r: "last_n n (filter (\<lambda>y. y \<noteq> k) ?R) = last_n n ?R"
      by (rule filter_last_n_absent) (use False in \<open>auto simp: last_n_pred [of n ?R] split: if_splits dest: in_set_tlD\<close>)
    have ne: "length ?K \<le> n \<or> ?K \<noteq> []" by auto
    from assms(1,2) keys len goal r fK last_n_pred [of n ?R] ne show ?thesis
      by (auto simp: rm_set_entries rm_inv_def Let_def fits_def map_tl)
  qed
qed

lemma lru_hit:
  assumes "rm_inv m" and "capacity m = Fin (real (Suc n))"
    and "ms_keys (entries m) = last_n (Suc n) (remdups ts)" and "rm_lookup m k = Some v"
  shows "ms_keys (entries (snd (rm_get k m))) = last_n (Suc n) (remdups (ts @ [k]))"
proof -
  have k: "(k, v) \<in> set (entries m)"
    using assms(4) by (auto simp: rm_lookup_def dest!: map_of_SomeD)
  then have "0 < length (entries m)" by (rule length_pos_if_in_set)
  moreover have "length (ms_del k (entries m)) = length (entries m) - 1"
    using assms(1) k by (intro length_ms_del) (auto simp: rm_inv_def rev_image_eqI)
  ultimately have "length (ms_del k (entries m) @ [(k, v)]) = length (entries m)"
    by simp
  moreover have "fits (length (entries m)) (capacity m)"
    using assms(1,2) by (cases "entries m") (auto simp: rm_inv_def fits_def)
  ultimately have "entries (snd (rm_get k m)) = entries (fst (rm_set k v m))"
    using assms(1,4) by (simp add: rm_get_entries rm_set_entries rm_inv_def rm_lookup_def Let_def)
  with lru_step [OF assms(1-3), of k v] show ?thesis by simp
qed

lemma lru_run:
  assumes "rm_inv m" and "capacity m = Fin (real (Suc n))"
    and "ms_keys (entries m) = last_n (Suc n) (remdups ts)"
  shows "ms_keys (entries (rm_run m xs)) = last_n (Suc n) (remdups (ts @ touched m xs))"
  using assms
proof (induction m xs arbitrary: ts rule: touched.induct)
  case (1 m)
  then show ?case by simp
next
  case (2 m k xs)
  show ?case
  proof (cases "rm_lookup m k")
    case None
    then have "rm_step m (Get k) = m" by (simp add: rm_get_def rm_lookup_def)
    with None 2 show ?thesis by simp
  next
    case (Some v)
    with lru_hit [OF "2.prems" Some] 2 show ?thesis
      by (simp add: rm_inv_get del: append_assoc) simp
  qed
next
  case (3 m k v xs)
  from lru_step [OF "3.prems", of k v] 3 show ?case
    by (simp add: rm_inv_set del: append_assoc) simp
qed

text \<open>C34.
  After any sequence of reads and writes on a freshly constructed map, the keys it holds are the
  most recently touched distinct keys, as many as the capacity admits, in the order in which they
  were last touched: the map refines the abstract LRU policy.\<close>

theorem recency_map_is_lru:
  "ms_keys (entries (rm_run (rm_new (Fin x)) ops)) =
     last_n (nat (max 1 \<lfloor>x\<rfloor>)) (remdups (touched (rm_new (Fin x)) ops))"
proof -
  obtain n where n: "nat (max 1 \<lfloor>x\<rfloor>) = Suc n"
    by (cases "nat (max 1 \<lfloor>x\<rfloor>)") auto
  then have "of_int (max 1 \<lfloor>x\<rfloor>) = real (Suc n)" by linarith
  then have "capacity (rm_new (Fin x)) = Fin (real (Suc n))"
    by (simp add: rm_new_def floor_capacity_def)
  from lru_run [OF rm_inv_new this, of "[]" ops] show ?thesis
    by (simp add: n rm_new_def last_n_def)
qed

end
