(* ===== verification/Scheduler.thy ===== *)
theory Scheduler
  imports Recency_Map "HOL-Library.Extended_Nat" "HOL-Library.Product_Lexorder"
begin

text \<open>
  The scheduler (\<open>src/scheduler.ts\<close>): one physical ledger and one ordering for all speculative
  executions, preparations and Actor calls.  \<open>scheduler\<close> is the state of the class: the ledger
  \<open>entries\<close>, the failure circuits in an LRU map, the two counters and the two capacity vectors.
  A hardware vector maps each resource dimension to an amount or to nothing; owners and jobs are
  object identities, the type parameters \<open>'o\<close> and \<open>'j\<close>.  Timers and the sampling promise of
  \<open>watch\<close> are left out: what a sample does to the state is \<open>updateResources\<close>.
\<close>

datatype resource_dim = Cpu | Memory | Io | Gpu | GpuMemory | Network

definition dimensions :: "resource_dim list" where
  "dimensions = [Cpu, Memory, Io, Gpu, GpuMemory, Network]"

lemma dimensions_all [simp]: "d \<in> set dimensions"
  by (cases d) (simp_all add: dimensions_def)

type_synonym hardware = "resource_dim \<rightharpoonup> real"

record execution_identity =
  id_tool :: string
  id_semanticsEpoch :: "string option"
  id_executionFingerprint :: "string option"
  id_actionKeyHash :: "string option"

datatype resource_demand = Cpu_units js_num | Hardware "resource_dim \<rightharpoonup> js_num"

record forecast =
  f_expectedDurationMs :: "js_num option"
  f_elapsedMs :: js_val
  f_resourceDemand :: "resource_demand option"
  f_decisionBatches :: js_val
  f_criticalPathSteps :: js_val
  f_confidence :: "js_num option"
  f_hitProbability :: "js_num option"
  f_adoptionProbability :: "js_num option"
  f_background :: bool
  f_actorDemand :: bool
  f_actorHint :: bool
  f_dependenciesResolved :: bool

record scheduled_work =
  w_expectedDurationMs :: "real option"
  w_elapsedMs :: real
  w_resources :: hardware
  w_resourceUnits :: real
  w_decisionBatches :: enat
  w_criticalPathSteps :: nat
  w_confidence :: real
  w_background :: bool
  w_actorDemand :: bool
  w_actorHint :: bool
  w_dependenciesResolved :: bool

datatype role = Execution_role | Preparation_role | Actor_role

record 'o scope =
  sc_owner :: 'o
  sc_limit :: real
  sc_scheduling :: "string \<rightharpoonup> js_val"

record ('j, 'o) sched_entry =
  e_job :: 'j
  e_scope :: "'o scope"
  e_role :: role
  e_sequence :: nat
  e_work :: scheduled_work

datatype rejection_reason = Budget_exhausted | Failure_circuit | Outside_launch_window

datatype admission = Admitted scheduled_work | Refused scheduled_work rejection_reason

record circuit_decision =
  d_sequence :: nat
  d_probes :: nat
  d_allowed :: bool

record 'o circuit =
  ci_count :: nat
  ci_decisions :: "'o \<rightharpoonup> circuit_decision"

record ('j, 'o) scheduler =
  sch_entries :: "('j, ('j, 'o) sched_entry) jsmap"
  sch_failures :: "(execution_identity, 'o circuit) recency_map"
  sch_sequence :: nat
  sch_decisionSequence :: nat
  sch_capacity :: hardware
  sch_admission :: hardware

subsection \<open>Evaluating forecasts\<close>

definition amount :: "hardware \<Rightarrow> resource_dim \<Rightarrow> real" where
  "amount h k = (case h k of Some x \<Rightarrow> x | None \<Rightarrow> 0)"

definition finite_num :: "js_num \<Rightarrow> real" where
  "finite_num x = nonNegativeFinite (JNum x)"

definition add_resources :: "hardware \<Rightarrow> hardware \<Rightarrow> hardware" where
  "add_resources target source = (\<lambda>k. case source k of
     None \<Rightarrow> target k | Some x \<Rightarrow> Some (amount target k + max 0 x))"

definition demand_of :: "resource_demand option \<Rightarrow> resource_dim \<rightharpoonup> js_num" where
  "demand_of d = (case d of
     None \<Rightarrow> [Cpu \<mapsto> Fin 1]
   | Some (Cpu_units n) \<Rightarrow> [Cpu \<mapsto> Fin (real (positiveCount (JNum n)))]
   | Some (Hardware h) \<Rightarrow> h)"

definition raise_to :: "hardware \<Rightarrow> (resource_dim \<rightharpoonup> js_num) \<Rightarrow> hardware" where
  "raise_to acc demand = (\<lambda>k. case demand k of
     None \<Rightarrow> acc k | Some x \<Rightarrow> Some (max (amount acc k) (finite_num x)))"

definition js_product :: "js_num \<Rightarrow> js_num \<Rightarrow> js_num" where
  "js_product a b = (case (a, b) of (Fin x, Fin y) \<Rightarrow> Fin (x * y) | _ \<Rightarrow> NaN)"

definition or_one :: "js_num option \<Rightarrow> js_num" where
  "or_one v = (case v of Some x \<Rightarrow> x | None \<Rightarrow> Fin 1)"

definition forecast_confidence :: "forecast \<Rightarrow> real" where
  "forecast_confidence f = min 1 (finite_num (case f_confidence f of
     Some c \<Rightarrow> c
   | None \<Rightarrow> js_product (or_one (f_hitProbability f)) (or_one (f_adoptionProbability f))))"

definition evaluate :: "forecast list \<Rightarrow> scheduled_work" where
  "evaluate fs =
     (let durations = concat (map (\<lambda>f. case f_expectedDurationMs f of None \<Rightarrow> [] | Some d \<Rightarrow> [finite_num d]) fs);
          res = fold (\<lambda>f acc. raise_to acc (demand_of (f_resourceDemand f))) fs Map.empty in
      \<lparr>w_expectedDurationMs = (if durations \<noteq> [] then Some (Max (set durations)) else None),
       w_elapsedMs = fold max (map (\<lambda>f. nonNegativeFinite (f_elapsedMs f)) fs) 0,
       w_resources = res,
       w_resourceUnits = max 1 (amount res Cpu),
       w_decisionBatches = fold min (map (\<lambda>f. enat (nonNegativeCount (f_decisionBatches f))) fs) \<infinity>,
       w_criticalPathSteps = fold max (map (\<lambda>f. positiveCount (f_criticalPathSteps f)) fs) 1,
       w_confidence = fold max (map forecast_confidence fs) 0,
       w_background = (fs \<noteq> [] \<and> list_all f_background fs),
       w_actorDemand = list_ex f_actorDemand fs,
       w_actorHint = list_ex f_actorHint fs,
       w_dependenciesResolved = list_ex f_dependenciesResolved fs\<rparr>)"

definition ready :: "scheduled_work \<Rightarrow> bool" where
  "ready w \<longleftrightarrow> w_actorDemand w \<or> w_dependenciesResolved w \<or>
     w_decisionBatches w \<le> enat (w_criticalPathSteps w)"

subsection \<open>The order of work\<close>

text \<open>
  Only the sign of a comparison is used, so \<open>compare\<close> returns the sign of the first difference that is
  not zero.  \<open>Infinity - Infinity\<close> is \<open>NaN\<close> and falsy: equal infinite distances go on to the next key.
\<close>

definition pressure :: "hardware \<Rightarrow> scheduled_work \<Rightarrow> real" where
  "pressure cap w = fold max (map (\<lambda>k. case cap k of
     None \<Rightarrow> 0
   | Some c \<Rightarrow> amount (w_resources w) k / max (1 / 1000000000) c) dimensions) 0"

definition remaining_ms :: "scheduled_work \<Rightarrow> real option" where
  "remaining_ms w = map_option (\<lambda>d. max 0 (d - w_elapsedMs w)) (w_expectedDurationMs w)"

definition launch_distance :: "scheduled_work \<Rightarrow> enat" where
  "launch_distance w = w_decisionBatches w - enat (w_criticalPathSteps w)"

definition compare_remaining :: "real option \<Rightarrow> real option \<Rightarrow> int" where
  "compare_remaining a b = (case (a, b) of (Some x, Some y) \<Rightarrow> cmp_val x y | _ \<Rightarrow> 0)"

definition compare :: "hardware \<Rightarrow> scheduled_work \<Rightarrow> scheduled_work \<Rightarrow> int" where
  "compare cap l r =
     cmp_then (cmp_val (w_actorDemand r) (w_actorDemand l))
    (cmp_then (cmp_val (launch_distance l) (launch_distance r))
    (cmp_then (cmp_val (w_actorHint r) (w_actorHint l))
    (cmp_then (cmp_val (w_background l) (w_background r))
    (cmp_then (cmp_val (w_decisionBatches l) (w_decisionBatches r))
    (cmp_then (cmp_val (w_confidence r) (w_confidence l))
    (cmp_then (cmp_val (pressure cap l) (pressure cap r))
      (compare_remaining (remaining_ms l) (remaining_ms r))))))))"

subsection \<open>The ledger\<close>

datatype shortage = Scope_limit | Dimension resource_dim

definition ledger :: "('j, 'o) scheduler \<Rightarrow> ('j, 'o) sched_entry list" where
  "ledger s = ms_vals (sch_entries s)"

definition snapshot :: "'o option \<Rightarrow> ('j, 'o) scheduler \<Rightarrow> ('j, 'o) sched_entry list" where
  "snapshot owner s =
     filter (\<lambda>e. case owner of None \<Rightarrow> True | Some p \<Rightarrow> sc_owner (e_scope e) = p) (ledger s)"

definition total_of :: "scheduled_work option \<Rightarrow> ('j, 'o) sched_entry list \<Rightarrow> hardware" where
  "total_of incoming es =
     fold (\<lambda>e t. add_resources t (w_resources (e_work e))) es
       (add_resources Map.empty (case incoming of Some w \<Rightarrow> w_resources w | None \<Rightarrow> Map.empty))"

definition scoped_units :: "scheduled_work option \<Rightarrow> 'o \<Rightarrow> ('j, 'o) sched_entry list \<Rightarrow> real" where
  "scoped_units incoming owner es =
     (case incoming of Some w \<Rightarrow> w_resourceUnits w | None \<Rightarrow> 0) +
     sum_list (map (\<lambda>e. w_resourceUnits (e_work e)) (filter (\<lambda>e. sc_owner (e_scope e) = owner) es))"

definition exceeds :: "hardware \<Rightarrow> hardware \<Rightarrow> resource_dim \<Rightarrow> bool" where
  "exceeds used cap k = (case cap k of
     Some c \<Rightarrow> c < amount used k
   | None \<Rightarrow> (k = Gpu \<or> k = GpuMemory) \<and> 0 < amount used k)"

definition shortages ::
  "('j, 'o) scheduler \<Rightarrow> scheduled_work option \<Rightarrow> 'o scope \<Rightarrow> ('j, 'o) sched_entry list \<Rightarrow> bool \<Rightarrow> shortage list"
where
  "shortages s incoming sc es physical =
     (if sc_limit sc < scoped_units incoming (sc_owner sc) es then [Scope_limit] else []) @
     map Dimension (filter (exceeds (total_of incoming es)
       (if physical then sch_capacity s else sch_admission s)) dimensions)"

subsection \<open>Admission\<close>

definition policy :: "'o scope \<Rightarrow> string \<Rightarrow> nat" where
  "policy sc k = nat \<lfloor>scheduling_setting (normalizeSchedulingSettings (sc_scheduling sc)) k\<rfloor>"

text \<open>
  The failure circuit: looks the identity up (which marks it as recently used) and, when its failures
  reached the threshold, draws this owner's decision, at most one per decision number.  The decision
  is written into the circuit object, in place.
\<close>

definition circuit_check ::
  "('j, 'o) scheduler \<Rightarrow> 'o scope \<Rightarrow> execution_identity option \<Rightarrow> bool \<times> ('j, 'o) scheduler" where
  "circuit_check s sc identity = (case identity of
     None \<Rightarrow> (True, s)
   | Some k \<Rightarrow>
       (let s' = s\<lparr>sch_failures := snd (rm_get k (sch_failures s))\<rparr> in
        case fst (rm_get k (sch_failures s)) of
          None \<Rightarrow> (True, s')
        | Some failed \<Rightarrow>
            if ci_count failed < policy sc ''failureThreshold'' then (True, s')
            else
              let known = ci_decisions failed (sc_owner sc);
                  probes = Suc (case known of Some d \<Rightarrow> d_probes d | None \<Rightarrow> 0);
                  fresh = \<lparr>d_sequence = sch_decisionSequence s, d_probes = probes,
                           d_allowed = (probes mod policy sc ''failureRetryDecisions'' = 0)\<rparr>
              in case known of
                   Some d \<Rightarrow>
                     if d_sequence d = sch_decisionSequence s then (d_allowed d, s')
                     else (d_allowed fresh, s'\<lparr>sch_failures := (sch_failures s')\<lparr>entries := ms_set k
                       (failed\<lparr>ci_decisions := (ci_decisions failed)(sc_owner sc \<mapsto> fresh)\<rparr>)
                       (entries (sch_failures s'))\<rparr>\<rparr>)
                 | None \<Rightarrow>
                     (d_allowed fresh, s'\<lparr>sch_failures := (sch_failures s')\<lparr>entries := ms_set k
                       (failed\<lparr>ci_decisions := (ci_decisions failed)(sc_owner sc \<mapsto> fresh)\<rparr>)
                       (entries (sch_failures s'))\<rparr>\<rparr>)))"

definition enter ::
  "'j \<Rightarrow> scheduled_work \<Rightarrow> 'o scope \<Rightarrow> role \<Rightarrow> ('j, 'o) scheduler \<Rightarrow> ('j, 'o) scheduler" where
  "enter job w sc r s = s\<lparr>
     sch_entries := ms_set job \<lparr>e_job = job, e_scope = sc, e_role = r, e_sequence = sch_sequence s, e_work = w\<rparr>
       (sch_entries s),
     sch_sequence := Suc (sch_sequence s)\<rparr>"

definition admit_work ::
  "'j \<Rightarrow> scheduled_work \<Rightarrow> 'o scope \<Rightarrow> role \<Rightarrow> execution_identity option \<Rightarrow> ('j, 'o) scheduler \<Rightarrow>
     admission \<times> ('j, 'o) scheduler" where
  "admit_work job w sc r identity s =
     (if r \<noteq> Actor_role \<and> \<not> w_actorDemand w then
        if \<not> ready w then (Refused w Outside_launch_window, s)
        else case circuit_check s sc identity of
          (False, s') \<Rightarrow> (Refused w Failure_circuit, s')
        | (True, s') \<Rightarrow>
            if shortages s' (Some w) sc (ledger s') False \<noteq> [] then (Refused w Budget_exhausted, s')
            else (Admitted w, enter job w sc r s')
      else (Admitted w, enter job w sc r s))"

definition admit ::
  "'j \<Rightarrow> forecast list \<Rightarrow> 'o scope \<Rightarrow> role \<Rightarrow> scheduled_work option \<Rightarrow> execution_identity option \<Rightarrow>
     ('j, 'o) scheduler \<Rightarrow> admission \<times> ('j, 'o) scheduler" where
  "admit job fs sc r w identity =
     admit_work job (case w of Some v \<Rightarrow> v | None \<Rightarrow> evaluate fs) sc r identity"

definition refresh ::
  "'j \<Rightarrow> forecast list \<Rightarrow> ('j, 'o) scheduler \<Rightarrow> scheduled_work option \<times> ('j, 'o) scheduler" where
  "refresh job fs s = (case map_of (sch_entries s) job of
     None \<Rightarrow> (None, s)
   | Some e \<Rightarrow>
       let w = (evaluate fs)\<lparr>w_resources := w_resources (e_work e), w_resourceUnits := w_resourceUnits (e_work e)\<rparr>
       in (Some w, s\<lparr>sch_entries := ms_set job (e\<lparr>e_work := w\<rparr>) (sch_entries s)\<rparr>))"

definition complete_job :: "'j \<Rightarrow> ('j, 'o) scheduler \<Rightarrow> bool \<times> ('j, 'o) scheduler" where
  "complete_job job s = (ms_has (sch_entries s) job, s\<lparr>sch_entries := ms_del job (sch_entries s)\<rparr>)"

definition advance :: "('j, 'o) scheduler \<Rightarrow> ('j, 'o) scheduler" where
  "advance s = s\<lparr>sch_decisionSequence := Suc (sch_decisionSequence s)\<rparr>"

definition observe :: "execution_identity \<Rightarrow> bool \<Rightarrow> ('j, 'o) scheduler \<Rightarrow> ('j, 'o) scheduler" where
  "observe k failed s =
     (if \<not> failed then s\<lparr>sch_failures := rm_delete k (sch_failures s)\<rparr>
      else
        let got = rm_get k (sch_failures s);
            n = (case fst got of Some c \<Rightarrow> ci_count c | None \<Rightarrow> 0) in
        s\<lparr>sch_failures := fst (rm_set k \<lparr>ci_count = Suc n, ci_decisions = Map.empty\<rparr> (snd got))\<rparr>)"

subsection \<open>Preemption\<close>

definition wants_from :: "'o scope \<Rightarrow> ('j, 'o) sched_entry \<Rightarrow> shortage \<Rightarrow> bool" where
  "wants_from sc e m = (case m of
     Scope_limit \<Rightarrow> sc_owner (e_scope e) = sc_owner sc
   | Dimension k \<Rightarrow> 0 < amount (w_resources (e_work e)) k)"

definition speculative :: "('j, 'o) sched_entry \<Rightarrow> bool" where
  "speculative e \<longleftrightarrow> e_role e \<noteq> Actor_role \<and> \<not> w_actorDemand (e_work e)"

definition outranks :: "hardware \<Rightarrow> scheduled_work option \<Rightarrow> ('j, 'o) sched_entry \<Rightarrow> bool" where
  "outranks cap incoming e = (case incoming of
     None \<Rightarrow> True
   | Some w \<Rightarrow> w_actorDemand w \<or> compare cap w (e_work e) < 0)"

definition eligible ::
  "('j, 'o) scheduler \<Rightarrow> 'o scope \<Rightarrow> scheduled_work option \<Rightarrow> ('j \<Rightarrow> bool) \<Rightarrow> shortage list \<Rightarrow>
     ('j, 'o) sched_entry \<Rightarrow> bool" where
  "eligible s sc incoming canPreempt missing e \<longleftrightarrow>
     speculative e \<and> canPreempt (e_job e) \<and> list_ex (wants_from sc e) missing \<and>
     outranks (sch_capacity s) incoming e"

definition victim_order :: "hardware \<Rightarrow> ('j, 'o) sched_entry \<Rightarrow> ('j, 'o) sched_entry \<Rightarrow> int" where
  "victim_order cap a b =
     cmp_then (compare cap (e_work b) (e_work a))
    (cmp_then (cmp_val (w_elapsedMs (e_work a)) (w_elapsedMs (e_work b)))
      (cmp_val (e_sequence b) (e_sequence a)))"

fun drop_job :: "'j \<Rightarrow> ('j, 'o) sched_entry list \<Rightarrow> ('j, 'o) sched_entry list" where
  "drop_job j [] = []"
| "drop_job j (e # es) = (if e_job e = j then es else e # drop_job j es)"

lemma length_drop_job: "e \<in> set es \<Longrightarrow> length (drop_job (e_job e) es) < length es"
  by (induction es) auto

definition pick_victim ::
  "('j, 'o) scheduler \<Rightarrow> 'o scope \<Rightarrow> scheduled_work option \<Rightarrow> ('j \<Rightarrow> bool) \<Rightarrow> shortage list \<Rightarrow>
     ('j, 'o) sched_entry list \<Rightarrow> ('j, 'o) sched_entry option" where
  "pick_victim s sc incoming canPreempt missing es =
     (case sort_cmp (victim_order (sch_capacity s)) (filter (eligible s sc incoming canPreempt missing) es) of
        [] \<Rightarrow> None | v # _ \<Rightarrow> Some v)"

lemma pick_victim_Some:
  assumes "pick_victim s sc incoming cp missing es = Some v"
  shows "v \<in> set es" "eligible s sc incoming cp missing v"
proof -
  let ?sorted = "sort_cmp (victim_order (sch_capacity s)) (filter (eligible s sc incoming cp missing) es)"
  have "v \<in> set ?sorted"
    using assms by (cases ?sorted) (simp_all add: pick_victim_def del: set_sort_cmp)
  then show "v \<in> set es" "eligible s sc incoming cp missing v" by simp_all
qed

lemma pick_victim_None:
  "pick_victim s sc incoming cp missing es = None \<longleftrightarrow> (\<forall>e\<in>set es. \<not> eligible s sc incoming cp missing e)"
proof -
  let ?found = "filter (eligible s sc incoming cp missing) es"
  have "sort_cmp (victim_order (sch_capacity s)) ?found = [] \<longleftrightarrow> ?found = []"
    by (metis set_empty2 set_sort_cmp)
  then show ?thesis
    by (auto simp: pick_victim_def filter_empty_conv split: list.splits)
qed

function preempt_loop ::
  "('j, 'o) scheduler \<Rightarrow> 'o scope \<Rightarrow> scheduled_work option \<Rightarrow> ('j \<Rightarrow> bool) \<Rightarrow> bool \<Rightarrow>
     ('j, 'o) sched_entry list \<Rightarrow> 'j list \<Rightarrow> 'j list" where
  "preempt_loop s sc incoming canPreempt physical es victims =
     (if shortages s incoming sc es physical = [] then victims
      else case pick_victim s sc incoming canPreempt (shortages s incoming sc es physical) es of
        None \<Rightarrow> victims
      | Some v \<Rightarrow>
          preempt_loop s sc incoming canPreempt physical (drop_job (e_job v) es) (victims @ [e_job v]))"
  by pat_completeness auto

termination
  by (relation "measure (\<lambda>(_, _, _, _, _, es, _). length es)")
    (auto intro: length_drop_job dest: pick_victim_Some(1))

declare preempt_loop.simps [simp del]

definition physical_mode :: "scheduled_work option \<Rightarrow> bool" where
  "physical_mode incoming = (case incoming of None \<Rightarrow> True | Some w \<Rightarrow> w_actorDemand w)"

definition preemptFor ::
  "'o scope \<Rightarrow> scheduled_work option \<Rightarrow> ('j \<Rightarrow> bool) \<Rightarrow> ('j \<Rightarrow> bool) \<Rightarrow> ('j, 'o) scheduler \<Rightarrow> 'j list" where
  "preemptFor sc incoming canPreempt draining s =
     (let remaining = filter (\<lambda>e. \<not> draining (e_job e)) (ledger s);
          physical = physical_mode incoming in
      if (case incoming of None \<Rightarrow> False
          | Some w \<Rightarrow> \<not> w_actorDemand w \<and> shortages s incoming sc [] physical \<noteq> [])
      then []
      else preempt_loop s sc incoming canPreempt physical remaining [])"

subsection \<open>Hardware samples and world compatibility\<close>

record resource_sample =
  s_cpuCount :: js_num
  s_idleCpuCount :: "js_num option"
  s_capacity :: hardware
  s_available :: "resource_dim \<rightharpoonup> js_num"

definition js_round :: "real \<Rightarrow> real" where
  "js_round x = of_int \<lfloor>x + 1 / 2\<rfloor>"

definition idle_amount :: "resource_sample \<Rightarrow> hardware \<Rightarrow> resource_dim \<Rightarrow> js_num option" where
  "idle_amount sample allocated k =
     (if k = Cpu then Some (case s_idleCpuCount sample of
        Some i \<Rightarrow> i | None \<Rightarrow> Fin (if amount allocated Cpu = 0 then 1 else 0))
      else s_available sample k)"

definition admission_cap :: "hardware \<Rightarrow> hardware \<Rightarrow> js_num option \<Rightarrow> resource_dim \<Rightarrow> real option" where
  "admission_cap cap allocated idle k = (case idle of
     Some (Fin i) \<Rightarrow>
       if 0 \<le> i then
         let room = amount allocated k + (if k = Cpu then js_round i else i) in
         Some (case cap k of Some c \<Rightarrow> min c room | None \<Rightarrow> room)
       else cap k
   | _ \<Rightarrow> cap k)"

definition updateResources :: "resource_sample \<Rightarrow> ('j, 'o) scheduler \<Rightarrow> ('j, 'o) scheduler" where
  "updateResources sample s = (case s_cpuCount sample of
     Fin n \<Rightarrow>
       if n < 1 then s
       else
         let cap = (s_capacity sample)(Cpu \<mapsto> real (positiveCount (jnum n)));
             allocated = fold (\<lambda>e t. add_resources t (w_resources (e_work e))) (ledger s) Map.empty
         in s\<lparr>sch_capacity := cap,
              sch_admission := (\<lambda>k. admission_cap cap allocated (idle_amount sample allocated k) k)\<rparr>
   | _ \<Rightarrow> s)"

definition new_scheduler :: "resource_sample option \<Rightarrow> ('j, 'o) scheduler" where
  "new_scheduler initial =
     (let s = \<lparr>sch_entries = [], sch_failures = rm_new (Fin 1024), sch_sequence = 0,
              sch_decisionSequence = 0, sch_capacity = Map.empty, sch_admission = Map.empty\<rparr> in
      case initial of Some sample \<Rightarrow> updateResources sample s | None \<Rightarrow> s)"

datatype compatibility_evidence =
    Compatible_world string
  | Incompatible_world string "string option"
  | Indeterminate_world string "string option"

datatype compatibility = Compatible | Incompatible string "string option"

definition detail_or :: "string \<Rightarrow> string option \<Rightarrow> string option" where
  "detail_or code detail = Some (case detail of Some d \<Rightarrow> d | None \<Rightarrow> code)"

fun assessCompatibility :: "compatibility_evidence \<Rightarrow> string \<Rightarrow> compatibility" where
  "assessCompatibility (Incompatible_world code detail) _ =
     Incompatible ''backend_incompatible'' (detail_or code detail)"
| "assessCompatibility (Indeterminate_world code detail) _ =
     Incompatible ''backend_indeterminate'' (detail_or code detail)"
| "assessCompatibility (Compatible_world actual) expected =
     (if actual = expected then Compatible else Incompatible ''execution_fingerprint_changed'' None)"

subsection \<open>Amounts of the ledger\<close>

definition allocated :: "resource_dim \<Rightarrow> ('j, 'o) sched_entry list \<Rightarrow> real" where
  "allocated k es = sum_list (map (\<lambda>e. max 0 (amount (w_resources (e_work e)) k)) es)"

lemma amount_empty [simp]: "amount Map.empty k = 0"
  by (simp add: amount_def)

lemma amount_add: "amount (add_resources t u) k = amount t k + max 0 (amount u k)"
  by (simp add: amount_def add_resources_def split: option.splits)

lemma amount_fold:
  "amount (fold (\<lambda>e t. add_resources t (w_resources (e_work e))) es t) k = amount t k + allocated k es"
  by (induction es arbitrary: t) (auto simp: allocated_def amount_add)

lemma amount_total:
  "amount (total_of incoming es) k =
     (case incoming of Some w \<Rightarrow> max 0 (amount (w_resources w) k) | None \<Rightarrow> 0) + allocated k es"
  by (simp add: total_of_def amount_fold amount_add split: option.splits)

lemma allocated_append [simp]: "allocated k (es @ fs) = allocated k es + allocated k fs"
  by (simp add: allocated_def)

lemma allocated_Cons [simp]:
  "allocated k (e # es) = max 0 (amount (w_resources (e_work e)) k) + allocated k es"
  by (simp add: allocated_def)

lemma allocated_Nil [simp]: "allocated k [] = 0"
  by (simp add: allocated_def)

lemma allocated_nonneg: "0 \<le> allocated k es"
  by (induction es) auto

lemma scoped_units_append [simp]:
  "scoped_units None p (es @ [e]) =
     scoped_units None p es + (if sc_owner (e_scope e) = p then w_resourceUnits (e_work e) else 0)"
  by (simp add: scoped_units_def)

definition fits_cap :: "hardware \<Rightarrow> resource_dim \<Rightarrow> real \<Rightarrow> bool" where
  "fits_cap cap k x = (case cap k of Some c \<Rightarrow> x \<le> c | None \<Rightarrow> (k = Gpu \<or> k = GpuMemory) \<longrightarrow> x \<le> 0)"

lemma shortages_Nil:
  "shortages s incoming sc es physical = [] \<longleftrightarrow>
     scoped_units incoming (sc_owner sc) es \<le> sc_limit sc \<and>
     (\<forall>k. fits_cap (if physical then sch_capacity s else sch_admission s) k (amount (total_of incoming es) k))"
proof -
  have "\<not> exceeds h cap k \<longleftrightarrow> fits_cap cap k (amount h k)" for h cap k
    by (auto simp: exceeds_def fits_cap_def not_less split: option.splits)
  then show ?thesis by (auto simp: shortages_def filter_empty_conv)
qed

subsection \<open>What an operation does to the ledger\<close>

lemma circuit_frame [simp]:
  "sch_entries (snd (circuit_check s sc k)) = sch_entries s"
  "sch_admission (snd (circuit_check s sc k)) = sch_admission s"
  "sch_capacity (snd (circuit_check s sc k)) = sch_capacity s"
  "sch_sequence (snd (circuit_check s sc k)) = sch_sequence s"
  "sch_decisionSequence (snd (circuit_check s sc k)) = sch_decisionSequence s"
  by (auto simp: circuit_check_def Let_def split: option.splits)

lemma ledger_enter_new:
  "\<not> ms_has (sch_entries s) job \<Longrightarrow> ledger (enter job w sc r s) =
     ledger s @ [\<lparr>e_job = job, e_scope = sc, e_role = r, e_sequence = sch_sequence s, e_work = w\<rparr>]"
  by (simp add: ledger_def enter_def ms_has_def ms_set_new)

lemma shortages_frame:
  "sch_capacity s' = sch_capacity s \<Longrightarrow> sch_admission s' = sch_admission s \<Longrightarrow>
     shortages s' incoming sc es physical = shortages s incoming sc es physical"
  by (simp add: shortages_def)

lemma admit_refused_ledger: "admit_work job w sc r k s = (Refused v reason, s') \<Longrightarrow> sch_entries s' = sch_entries s"
  by (auto simp: admit_work_def split: if_splits prod.splits bool.splits)
    (metis circuit_frame(1) snd_conv)+

lemma admit_admitted:
  assumes "admit_work job w sc r k s = (Admitted v, s')"
  shows "v = w \<and> (\<exists>s0. s' = enter job w sc r s0 \<and> sch_entries s0 = sch_entries s \<and>
      sch_sequence s0 = sch_sequence s \<and>
      (r \<noteq> Actor_role \<and> \<not> w_actorDemand w \<longrightarrow> ready w \<and> shortages s (Some w) sc (ledger s) False = []))"
proof (cases "r \<noteq> Actor_role \<and> \<not> w_actorDemand w")
  case True
  obtain b s0 where c: "circuit_check s sc k = (b, s0)" by force
  then have "sch_entries s0 = sch_entries s" "sch_sequence s0 = sch_sequence s"
      "sch_capacity s0 = sch_capacity s" "sch_admission s0 = sch_admission s"
    using circuit_frame [of s sc k] by simp_all
  with True assms c show ?thesis
    by (cases b) (auto simp: admit_work_def ledger_def shortages_def split: if_splits)
next
  case False
  with assms show ?thesis by (auto simp: admit_work_def)
qed

text \<open>C5.
  An admitted speculative job was inside its launch window, becomes the last entry of the ledger, and
  with it the allocation of every resource dimension still fits the admission capacity (a dimension
  without a reading admits everything, except that GPU work needs a reading) and the units of the
  session still fit its limit.\<close>

theorem admission_within_capacity:
  assumes "admit job fs sc r wo identity s = (Admitted w, s')"
    and "r \<noteq> Actor_role" and "\<not> w_actorDemand w" and "\<not> ms_has (sch_entries s) job"
  shows "ready w \<and> w = (case wo of Some v \<Rightarrow> v | None \<Rightarrow> evaluate fs) \<and>
    ledger s' = ledger s @
      [\<lparr>e_job = job, e_scope = sc, e_role = r, e_sequence = sch_sequence s, e_work = w\<rparr>] \<and>
    (\<forall>k. fits_cap (sch_admission s) k (allocated k (ledger s'))) \<and>
    scoped_units None (sc_owner sc) (ledger s') \<le> sc_limit sc"
proof -
  let ?w = "case wo of Some v \<Rightarrow> v | None \<Rightarrow> evaluate fs"
  from admit_admitted [of job ?w sc r identity s w s'] assms(1)
  obtain s0 where w: "w = ?w" and s': "s' = enter job w sc r s0" and e: "sch_entries s0 = sch_entries s"
    and q: "sch_sequence s0 = sch_sequence s"
    and ok: "ready w" "shortages s (Some w) sc (ledger s) False = []"
    using assms(2,3) by (auto simp: admit_def)
  have "ledger s0 = ledger s" using e by (simp add: ledger_def)
  then have l: "ledger s' = ledger s @
      [\<lparr>e_job = job, e_scope = sc, e_role = r, e_sequence = sch_sequence s, e_work = w\<rparr>]"
    using ledger_enter_new [of s0 job w sc r] assms(4) by (simp add: s' e q)
  have "amount (total_of (Some w) (ledger s)) k = allocated k (ledger s')" for k
    by (simp add: amount_total l)
  moreover have "scoped_units (Some w) (sc_owner sc) (ledger s) = scoped_units None (sc_owner sc) (ledger s')"
    by (simp add: l) (simp add: scoped_units_def)
  ultimately show ?thesis
    using ok l w by (auto simp: shortages_Nil)
qed

definition demo_work :: scheduled_work where
  "demo_work = \<lparr>w_expectedDurationMs = Some 10, w_elapsedMs = 0, w_resources = [Cpu \<mapsto> 1],
     w_resourceUnits = 1, w_decisionBatches = 0, w_criticalPathSteps = 1, w_confidence = 1,
     w_background = False, w_actorDemand = False, w_actorHint = False, w_dependenciesResolved = False\<rparr>"

definition demo_scope :: "nat scope" where
  "demo_scope = \<lparr>sc_owner = 1, sc_limit = 2, sc_scheduling = Map.empty\<rparr>"

definition demo_scheduler :: "(nat, nat) scheduler" where
  "demo_scheduler = \<lparr>sch_entries = [], sch_failures = rm_new (Fin 1024), sch_sequence = 0,
     sch_decisionSequence = 0, sch_capacity = [Cpu \<mapsto> 4], sch_admission = [Cpu \<mapsto> 4]\<rparr>"

lemma demo_admitted:
  "admit 5 [] demo_scope Execution_role (Some demo_work) None demo_scheduler =
     (Admitted demo_work, enter 5 demo_work demo_scope Execution_role demo_scheduler)"
proof -
  have "amount (w_resources demo_work) k = (if k = Cpu then 1 else 0)" for k
    by (simp add: amount_def demo_work_def)
  then have "shortages demo_scheduler (Some demo_work) demo_scope [] False = []"
    by (simp add: shortages_Nil amount_total fits_cap_def scoped_units_def)
      (simp add: demo_scheduler_def demo_scope_def demo_work_def)
  moreover have "ready demo_work" "ledger demo_scheduler = []"
    by (simp_all add: ready_def demo_work_def demo_scheduler_def ledger_def)
  ultimately show ?thesis
    by (simp add: admit_def admit_work_def circuit_check_def)
qed

theorem admission_within_capacity_witness:
  "allocated Cpu (ledger (enter (5::nat) demo_work demo_scope Execution_role demo_scheduler)) \<le> 4"
proof -
  have "\<not> w_actorDemand demo_work" "\<not> ms_has (sch_entries demo_scheduler) 5"
    by (simp_all add: demo_work_def demo_scheduler_def ms_has_def)
  then have "fits_cap (sch_admission demo_scheduler) Cpu
      (allocated Cpu (ledger (enter 5 demo_work demo_scope Execution_role demo_scheduler)))"
    using admission_within_capacity [OF demo_admitted] by blast
  then show ?thesis by (simp add: fits_cap_def demo_scheduler_def)
qed

subsection \<open>The failure circuit\<close>

definition circuit_of :: "('j, 'o) scheduler \<Rightarrow> execution_identity \<Rightarrow> 'o circuit option" where
  "circuit_of s k = rm_lookup (sch_failures s) k"

lemma circuit_of_enter [simp]: "circuit_of (enter job w sc r s) k = circuit_of s k"
  by (simp add: circuit_of_def enter_def)

lemma decisionSequence_enter [simp]: "sch_decisionSequence (enter job w sc r s) = sch_decisionSequence s"
  by (simp add: enter_def)

lemma advance_simps [simp]:
  "circuit_of (advance s) k = circuit_of s k" "sch_decisionSequence (advance s) = Suc (sch_decisionSequence s)"
  by (simp_all add: circuit_of_def advance_def)

text \<open>Counted failures are at least one, whatever the LRU map evicts.\<close>

definition circuits_ok :: "('j, 'o) scheduler \<Rightarrow> bool" where
  "circuits_ok s \<longleftrightarrow> rm.all_cached (\<lambda>_ c. 1 \<le> ci_count c) (sch_failures s)"

lemma circuits_ok_observe: "circuits_ok s \<Longrightarrow> circuits_ok (observe k failed s)"
  unfolding circuits_ok_def observe_def
  by (cases failed) (auto simp: Let_def rm.all_cached_touch intro!: rm.all_cached_store rm.all_cached_forget)

lemma rm_set_found:
  assumes "fits 1 (capacity m)" and "ms_wf (entries m)"
  shows "rm_lookup (fst (rm_set k v m)) k = Some v"
proof (cases "ms_del k (entries m)")
  case Nil
  then show ?thesis
    using assms rm_set_entries [of m k v] by (simp add: rm_lookup_def Let_def)
next
  case (Cons e es)
  have "k \<notin> fst ` set (e # es)" by (auto simp flip: Cons)
  then have "map_of es k = None" by (simp add: map_of_eq_None_iff)
  then have "map_of (es @ [(k, v)]) k = Some v" by (simp add: map_add_Some_iff)
  with Cons \<open>k \<notin> fst ` set (e # es)\<close> show ?thesis
    using assms rm_set_entries [of m k v]
    by (cases e) (auto simp: rm_lookup_def Let_def)
qed

definition failing :: "('j, 'o) scheduler \<Rightarrow> execution_identity \<Rightarrow> 'o \<Rightarrow> nat \<Rightarrow> nat \<Rightarrow> bool" where
  "failing s k owner threshold probes \<longleftrightarrow> (\<exists>c. circuit_of s k = Some c \<and> threshold \<le> ci_count c \<and>
     (case ci_decisions c owner of
        None \<Rightarrow> probes = 0
      | Some d \<Rightarrow> d_probes d = probes \<and> d_sequence d < sch_decisionSequence s))"

lemma circuit_probe:
  assumes "failing s k (sc_owner sc) (policy sc ''failureThreshold'') n"
  shows "fst (circuit_check s sc (Some k)) \<longleftrightarrow> Suc n mod policy sc ''failureRetryDecisions'' = 0"
    and "failing (advance (snd (circuit_check s sc (Some k)))) k (sc_owner sc)
           (policy sc ''failureThreshold'') (Suc n)"
    and "fst (circuit_check (snd (circuit_check s sc (Some k))) sc (Some k)) =
           fst (circuit_check s sc (Some k))"
proof -
  from assms obtain c where c: "circuit_of s k = Some c" "policy sc ''failureThreshold'' \<le> ci_count c"
    and d: "case ci_decisions c (sc_owner sc) of
        None \<Rightarrow> n = 0 | Some d \<Rightarrow> d_probes d = n \<and> d_sequence d < sch_decisionSequence s"
    by (auto simp: failing_def)
  define fresh where "fresh = \<lparr>d_sequence = sch_decisionSequence s, d_probes = Suc n,
    d_allowed = (Suc n mod policy sc ''failureRetryDecisions'' = 0)\<rparr>"
  define c' where "c' = c\<lparr>ci_decisions := (ci_decisions c)(sc_owner sc \<mapsto> fresh)\<rparr>"
  have found: "fst (rm_get k (sch_failures s)) = Some c"
    using c by (simp add: circuit_of_def)
  define s1 where "s1 = s\<lparr>sch_failures := (snd (rm_get k (sch_failures s)))\<lparr>entries := ms_set k c'
    (entries (snd (rm_get k (sch_failures s))))\<rparr>\<rparr>"
  have check: "circuit_check s sc (Some k) = (d_allowed fresh, s1)"
    using d c(2) found unfolding s1_def c'_def fresh_def
    by (cases "ci_decisions c (sc_owner sc)")
      (auto simp: circuit_check_def Let_def not_less simp del: fst_rm_get)
  have at: "circuit_of s1 k = Some c'"
    by (simp add: circuit_of_def rm_lookup_def s1_def)
  have cnt: "policy sc ''failureThreshold'' \<le> ci_count c'" and
    dec: "ci_decisions c' (sc_owner sc) = Some fresh" and
    sq: "sch_decisionSequence s1 = sch_decisionSequence s"
    using c(2) by (simp_all add: c'_def s1_def)
  show "fst (circuit_check s sc (Some k)) \<longleftrightarrow> Suc n mod policy sc ''failureRetryDecisions'' = 0"
    by (simp add: check fresh_def)
  show "failing (advance (snd (circuit_check s sc (Some k)))) k (sc_owner sc) (policy sc ''failureThreshold'') (Suc n)"
    using at cnt dec sq by (simp add: check failing_def fresh_def)
  have "fst (circuit_check s1 sc (Some k)) = d_allowed fresh"
    using at cnt dec sq
    by (simp add: circuit_check_def circuit_of_def Let_def fresh_def)
  then show "fst (circuit_check (snd (circuit_check s sc (Some k))) sc (Some k)) = fst (circuit_check s sc (Some k))"
    by (simp add: check)
qed

text \<open>An Actor decision, then one attempt to admit a job for the identity.\<close>

definition attempt ::
  "execution_identity \<Rightarrow> 'o scope \<Rightarrow> 'j \<times> scheduled_work \<Rightarrow> ('j, 'o) scheduler \<Rightarrow> admission \<times> ('j, 'o) scheduler"
where
  "attempt k sc jw s = admit_work (fst jw) (snd jw) sc Execution_role (Some k) (advance s)"

fun attempts ::
  "execution_identity \<Rightarrow> 'o scope \<Rightarrow> ('j \<times> scheduled_work) list \<Rightarrow> ('j, 'o) scheduler \<Rightarrow>
     admission list \<times> ('j, 'o) scheduler" where
  "attempts k sc [] s = ([], s)"
| "attempts k sc (jw # jws) s =
     (let (a, s') = attempt k sc jw s; (as, s'') = attempts k sc jws s' in (a # as, s''))"

fun circuit_refused :: "admission \<Rightarrow> bool" where
  "circuit_refused (Refused _ Failure_circuit) = True"
| "circuit_refused _ = False"

definition launchable :: "'j \<times> scheduled_work \<Rightarrow> bool" where
  "launchable jw \<longleftrightarrow> ready (snd jw) \<and> \<not> w_actorDemand (snd jw)"

lemma circuit_of_frame: "sch_failures s' = sch_failures s \<Longrightarrow> circuit_of s' = circuit_of s"
  by (simp add: circuit_of_def fun_eq_iff)

lemma attempt_outcome:
  assumes "launchable jw" and "failing (advance s) k (sc_owner sc) (policy sc ''failureThreshold'') n"
  shows "circuit_refused (fst (attempt k sc jw s)) \<longleftrightarrow> Suc n mod policy sc ''failureRetryDecisions'' \<noteq> 0"
    and "failing (advance (snd (attempt k sc jw s))) k (sc_owner sc) (policy sc ''failureThreshold'') (Suc n)"
proof -
  obtain b s1 where c: "circuit_check (advance s) sc (Some k) = (b, s1)" by force
  note p = circuit_probe [OF assms(2), unfolded c fst_conv snd_conv]
  have a: "attempt k sc jw s = (case circuit_check (advance s) sc (Some k) of
      (False, s') \<Rightarrow> (Refused (snd jw) Failure_circuit, s')
    | (True, s') \<Rightarrow>
        if shortages s' (Some (snd jw)) sc (ledger s') False \<noteq> [] then (Refused (snd jw) Budget_exhausted, s')
        else (Admitted (snd jw), enter (fst jw) (snd jw) sc Execution_role s'))"
    using assms(1) by (simp add: attempt_def admit_work_def launchable_def)
  show "circuit_refused (fst (attempt k sc jw s)) \<longleftrightarrow> Suc n mod policy sc ''failureRetryDecisions'' \<noteq> 0"
    using p(1) by (cases b) (auto simp: a c)
  have "failing (advance (enter j w sc r s1)) k ow t m = failing (advance s1) k ow t m" for j w r ow t m
    by (simp add: failing_def split: option.splits)
  then show "failing (advance (snd (attempt k sc jw s))) k (sc_owner sc) (policy sc ''failureThreshold'') (Suc n)"
    using p(2) by (cases b) (auto simp: a c)
qed

lemma attempts_outcome:
  assumes "list_all launchable jws"
    and "failing (advance s) k (sc_owner sc) (policy sc ''failureThreshold'') n"
  shows "map circuit_refused (fst (attempts k sc jws s)) =
    map (\<lambda>i. (n + Suc i) mod policy sc ''failureRetryDecisions'' \<noteq> 0) [0..<length jws]"
  using assms
proof (induction jws arbitrary: s n)
  case (Cons jw jws)
  obtain a s' where at: "attempt k sc jw s = (a, s')" by force
  obtain as s'' where rest: "attempts k sc jws s' = (as, s'')" by force
  have one: "circuit_refused a \<longleftrightarrow> Suc n mod policy sc ''failureRetryDecisions'' \<noteq> 0"
    and later: "failing (advance s') k (sc_owner sc) (policy sc ''failureThreshold'') (Suc n)"
    using attempt_outcome [of jw s k sc n] Cons.prems by (simp_all add: at)
  have "map circuit_refused as =
      map (\<lambda>i. (Suc n + Suc i) mod policy sc ''failureRetryDecisions'' \<noteq> 0) [0..<length jws]"
    using Cons.IH [OF _ later] Cons.prems(1) by (simp add: rest)
  then show ?case
    using one by (simp add: at rest map_upt_Suc del: upt_Suc)
qed simp

lemma failing_after_observe:
  assumes "fits 1 (capacity (sch_failures s))" and "ms_wf (entries (sch_failures s))"
    and "t \<le> Suc (case circuit_of s k of Some c \<Rightarrow> ci_count c | None \<Rightarrow> 0)"
  shows "failing (advance (observe k True s)) k owner t 0"
proof -
  have wf: "ms_wf (entries (snd (rm_get k (sch_failures s))))"
    using assms(2) wf_moved by (auto simp: rm_get_entries split: option.splits)
  show ?thesis
    using rm_set_found [of "snd (rm_get k (sch_failures s))" k] assms(1,3) wf
    by (simp add: failing_def observe_def circuit_of_def Let_def advance_def del: capacity_rm_set)
qed

text \<open>C28.
  The failure circuit: once the failures of an identity reach the threshold, of the attempts that
  one session makes at successive Actor decisions exactly every \<open>failureRetryDecisions\<close>-th one
  passes the circuit, and all others are refused by it.\<close>

theorem failure_circuit_probes:
  assumes "fits 1 (capacity (sch_failures s))" and "ms_wf (entries (sch_failures s))"
    and "policy sc ''failureThreshold'' \<le> Suc (case circuit_of s k of Some c \<Rightarrow> ci_count c | None \<Rightarrow> 0)"
    and "list_all launchable jws"
  shows "map circuit_refused (fst (attempts k sc jws (observe k True s))) =
    map (\<lambda>i. Suc i mod policy sc ''failureRetryDecisions'' \<noteq> 0) [0..<length jws]"
  using attempts_outcome [OF assms(4) failing_after_observe [OF assms(1-3)]] by simp

definition demo_identity :: execution_identity where
  "demo_identity = \<lparr>id_tool = ''bash'', id_semanticsEpoch = None, id_executionFingerprint = None,
     id_actionKeyHash = None\<rparr>"

lemma demo_policy:
  "policy demo_scope ''failureThreshold'' = 2" "policy demo_scope ''failureRetryDecisions'' = 4"
  by (simp_all add: policy_def scheduling_setting_def normalizeSchedulingSettings_def settings_parse_def
      scheduling_fields_def demo_scope_def int_setting_def positiveInteger_def)

theorem failure_circuit_probes_witness:
  "map circuit_refused (fst (attempts demo_identity demo_scope (replicate 4 (7, demo_work))
     (observe demo_identity True (observe demo_identity True demo_scheduler)))) =
   [True, True, True, False]"
proof -
  let ?s = "observe demo_identity True demo_scheduler"
  have f: "sch_failures ?s =
      \<lparr>capacity = Fin 1024, entries = [(demo_identity, \<lparr>ci_count = 1, ci_decisions = Map.empty\<rparr>)]\<rparr>"
    by (simp add: observe_def demo_scheduler_def rm_get_def rm_set_def rm_new_def ms_del_def
        fits_def floor_capacity_def Let_def)
  have "map circuit_refused (fst (attempts demo_identity demo_scope (replicate 4 (7, demo_work))
     (observe demo_identity True ?s))) =
     map (\<lambda>i. Suc i mod policy demo_scope ''failureRetryDecisions'' \<noteq> 0)
       [0..<length (replicate 4 (7::nat, demo_work))]"
  proof (rule failure_circuit_probes)
    show "fits 1 (capacity (sch_failures ?s))" "ms_wf (entries (sch_failures ?s))"
      by (simp_all add: f fits_def ms_wf_def)
    show "policy demo_scope ''failureThreshold'' \<le>
        Suc (case circuit_of ?s demo_identity of Some c \<Rightarrow> ci_count c | None \<Rightarrow> 0)"
      by (simp add: demo_policy circuit_of_def rm_lookup_def f)
    show "list_all launchable (replicate 4 (7::nat, demo_work))"
      by (simp add: numeral_eq_Suc launchable_def ready_def demo_work_def)
  qed
  then show ?thesis by (simp add: demo_policy upt_rec)
qed

subsection \<open>The order of work is lexicographic\<close>

definition work_key ::
  "hardware \<Rightarrow> scheduled_work \<Rightarrow> bool \<times> enat \<times> bool \<times> bool \<times> enat \<times> real \<times> real \<times> real" where
  "work_key cap w = (\<not> w_actorDemand w, launch_distance w, \<not> w_actorHint w, w_background w,
     w_decisionBatches w, - w_confidence w, pressure cap w,
     (case remaining_ms w of Some x \<Rightarrow> x | None \<Rightarrow> 0))"

lemma cmp_val_pair:
  fixes a a' :: "'a::linorder" and b b' :: "'b::linorder"
  shows "cmp_val (a, b) (a', b') = cmp_then (cmp_val a a') (cmp_val b b')"
  by (auto simp: cmp_val_def cmp_then_def)

lemma cmp_val_bool_flip: "cmp_val (b :: bool) a = cmp_val (\<not> a) (\<not> b)"
  by (auto simp: cmp_val_def)

lemma cmp_val_neg_flip: "cmp_val (b :: real) a = cmp_val (- a) (- b)"
  by (auto simp: cmp_val_def)

lemma compare_as_key:
  assumes "w_expectedDurationMs l \<noteq> None" and "w_expectedDurationMs r \<noteq> None"
  shows "compare cap l r = cmp_by (work_key cap) l r"
proof -
  have d: "compare_remaining (remaining_ms l) (remaining_ms r) =
      cmp_val (case remaining_ms l of Some x \<Rightarrow> x | None \<Rightarrow> 0) (case remaining_ms r of Some x \<Rightarrow> x | None \<Rightarrow> 0)"
    using assms by (auto simp: compare_remaining_def remaining_ms_def)
  have "cmp_by (work_key cap) l r = cmp_val (work_key cap l) (work_key cap r)"
    by (simp add: cmp_by_def cmp_val_def)
  then show ?thesis
    unfolding compare_def work_key_def cmp_val_pair d
    by (simp only: cmp_val_bool_flip [of "w_actorDemand r"] cmp_val_bool_flip [of "w_actorHint r"]
        cmp_val_neg_flip [of "w_confidence r"])
qed

text \<open>On work with known durations \<open>compare\<close> is the comparison by a lexicographic key: sorting a queue
  with it puts real Actor demand first and is sorted by that key, and reversing the arguments negates
  the sign.\<close>

theorem compare_is_lexicographic:
  assumes "list_all (\<lambda>w. w_expectedDurationMs w \<noteq> None) ws"
  shows "sorted (map (work_key cap) (sort_cmp (compare cap) ws)) \<and>
    (\<forall>l\<in>set ws. \<forall>r\<in>set ws. compare cap r l = - compare cap l r)"
proof
  have *: "insert_cmp (compare cap) w vs = insert_cmp (cmp_by (work_key cap)) w vs"
    if "w_expectedDurationMs w \<noteq> None" "list_all (\<lambda>v. w_expectedDurationMs v \<noteq> None) vs" for w vs
    using that by (induction vs) (auto simp: compare_as_key)
  have "sort_cmp (compare cap) ws = sort_cmp (cmp_by (work_key cap)) ws"
    using assms by (induction ws) (auto simp: * list_all_iff)
  then show "sorted (map (work_key cap) (sort_cmp (compare cap) ws))"
    by (simp add: sorted_sort_cmp_by)
  show "\<forall>l\<in>set ws. \<forall>r\<in>set ws. compare cap r l = - compare cap l r"
    using assms by (auto simp: list_all_iff compare_as_key cmp_by_def)
qed

definition demo_hinted :: scheduled_work where
  "demo_hinted = demo_work\<lparr>w_actorHint := True\<rparr>"

theorem compare_is_lexicographic_witness:
  "compare Map.empty demo_work demo_hinted = - compare Map.empty demo_hinted demo_work \<and>
   compare Map.empty demo_hinted demo_work < 0"
proof
  have "list_all (\<lambda>w. w_expectedDurationMs w \<noteq> None) [demo_hinted, demo_work]"
    by (simp add: demo_hinted_def demo_work_def)
  note all = conjunct2 [OF compare_is_lexicographic [OF this, of Map.empty]]
  have "\<forall>r\<in>set [demo_hinted, demo_work]. compare Map.empty r demo_hinted = - compare Map.empty demo_hinted r"
    by (rule bspec [OF all]) simp
  then show "compare Map.empty demo_work demo_hinted = - compare Map.empty demo_hinted demo_work"
    by (rule bspec) simp
  show "compare Map.empty demo_hinted demo_work < 0"
    by (simp add: compare_def cmp_then_less launch_distance_def demo_hinted_def demo_work_def)
qed

text \<open>
  A missing duration compares equal to every duration, so without that hypothesis the comparison is
  no order: the incomparability of three works is not transitive.
\<close>

lemma pressure_cong:
  assumes "w_resources a = w_resources b"
  shows "pressure cap a = pressure cap b"
  unfolding pressure_def assms ..

definition demo_lasting :: "real option \<Rightarrow> scheduled_work" where
  "demo_lasting d = demo_work\<lparr>w_expectedDurationMs := d\<rparr>"

lemma compare_unknown_duration_intransitive:
  "compare cap (demo_lasting (Some 1)) (demo_lasting None) = 0 \<and>
   compare cap (demo_lasting None) (demo_lasting (Some 2)) = 0 \<and>
   compare cap (demo_lasting (Some 1)) (demo_lasting (Some 2)) < 0"
proof -
  have p: "pressure cap (demo_lasting d) = pressure cap demo_work" for d
    by (rule pressure_cong) (simp add: demo_lasting_def)
  have f: "w_actorDemand (demo_lasting d) = False" "launch_distance (demo_lasting d) = 0"
    "w_actorHint (demo_lasting d) = False" "w_background (demo_lasting d) = False"
    "w_decisionBatches (demo_lasting d) = 0" "w_confidence (demo_lasting d) = 1"
    "remaining_ms (demo_lasting d) = map_option (max 0) d" for d
    by (cases d; simp add: demo_lasting_def demo_work_def launch_distance_def remaining_ms_def)+
  show ?thesis
    by (simp add: compare_def p f cmp_then_def compare_remaining_def)
qed

subsection \<open>What preemption selects\<close>

definition without :: "'j list \<Rightarrow> ('j, 'o) sched_entry list \<Rightarrow> ('j, 'o) sched_entry list" where
  "without js es = filter (\<lambda>e. e_job e \<notin> set js) es"

lemma without_Nil [simp]: "without [] es = es"
  by (simp add: without_def)

lemma drop_job_without: "distinct (map e_job es) \<Longrightarrow> drop_job j es = without [j] es"
proof (induction es)
  case (Cons e es)
  have "filter (\<lambda>x. e_job x \<noteq> e_job e) es = es"
    using Cons.prems by (intro filter_True) (auto simp: rev_image_eqI)
  with Cons show ?case by (auto simp: without_def)
qed (simp add: without_def)

lemma without_Cons: "without (j # js) es = without js (without [j] es)"
  by (auto simp: without_def intro: filter_cong)

lemma distinct_without: "distinct (map e_job es) \<Longrightarrow> distinct (map e_job (without js es))"
  by (simp add: without_def distinct_map_filter)

lemma mem_without: "e \<in> set (without js es) \<longleftrightarrow> e \<in> set es \<and> e_job e \<notin> set js"
  by (auto simp: without_def)

definition good_victims ::
  "('j, 'o) scheduler \<Rightarrow> 'o scope \<Rightarrow> scheduled_work option \<Rightarrow> ('j \<Rightarrow> bool) \<Rightarrow> bool \<Rightarrow>
     ('j, 'o) sched_entry list \<Rightarrow> 'j list \<Rightarrow> bool" where
  "good_victims s sc incoming cp physical es ks \<longleftrightarrow>
     distinct ks \<and>
     (\<forall>j\<in>set ks. \<exists>e\<in>set es. e_job e = j \<and> speculative e \<and> cp j \<and> outranks (sch_capacity s) incoming e) \<and>
     (\<forall>n<length ks. shortages s incoming sc (without (take n ks) es) physical \<noteq> []) \<and>
     (shortages s incoming sc (without ks es) physical = [] \<or>
       (\<forall>e\<in>set (without ks es).
          \<not> eligible s sc incoming cp (shortages s incoming sc (without ks es) physical) e))"

lemma good_victims_Nil:
  "good_victims s sc incoming cp physical es [] \<longleftrightarrow>
     shortages s incoming sc es physical = [] \<or>
     (\<forall>e\<in>set es. \<not> eligible s sc incoming cp (shortages s incoming sc es physical) e)"
  by (simp add: good_victims_def)

lemma good_victims_Cons:
  assumes "v \<in> set es" and "shortages s incoming sc es physical \<noteq> []"
    and "eligible s sc incoming cp missing v"
    and "good_victims s sc incoming cp physical (without [e_job v] es) ks"
  shows "good_victims s sc incoming cp physical es (e_job v # ks)"
proof -
  have k: "\<exists>e\<in>set (without [e_job v] es). e_job e = j \<and> speculative e \<and> cp j \<and> outranks (sch_capacity s) incoming e"
    if "j \<in> set ks" for j
    using assms(4) that by (auto simp: good_victims_def)
  then have new: "e_job v \<notin> set ks" by (force simp: mem_without)
  have chosen: "\<exists>e\<in>set es. e_job e = j \<and> speculative e \<and> cp j \<and> outranks (sch_capacity s) incoming e"
    if "j \<in> set (e_job v # ks)" for j
  proof (cases "j = e_job v")
    case True
    with assms(1,3) show ?thesis by (auto simp: eligible_def)
  next
    case False
    with that k [of j] show ?thesis unfolding mem_without Bex_def by auto
  qed
  have prefix: "shortages s incoming sc (without (take n (e_job v # ks)) es) physical \<noteq> []"
    if "n < length (e_job v # ks)" for n
  proof (cases n)
    case 0
    with assms(2) show ?thesis by simp
  next
    case (Suc m)
    with that assms(4) show ?thesis
      by (simp add: good_victims_def without_Cons [of "e_job v" "take m ks"])
  qed
  show ?thesis
    using assms(4) new chosen prefix
    by (simp only: good_victims_def without_Cons [of "e_job v" ks] distinct.simps) blast
qed

lemma preempt_loop_good:
  assumes "distinct (map e_job es)"
  shows "\<exists>ks. preempt_loop s sc incoming cp physical es acc = acc @ ks \<and>
    good_victims s sc incoming cp physical es ks"
  using assms
proof (induction s sc incoming cp physical es acc rule: preempt_loop.induct)
  case (1 s sc incoming cp physical es acc)
  let ?missing = "shortages s incoming sc es physical"
  show ?case
  proof (cases "?missing = []")
    case True
    then show ?thesis
      by (intro exI [of _ "[]"]) (simp add: preempt_loop.simps good_victims_Nil)
  next
    case short: False
    show ?thesis
    proof (cases "pick_victim s sc incoming cp ?missing es")
      case None
      then have "preempt_loop s sc incoming cp physical es acc = acc"
        by (simp add: preempt_loop.simps)
      with None show ?thesis
        by (intro exI [of _ "[]"]) (simp add: good_victims_Nil pick_victim_None)
    next
      case (Some v)
      note v = pick_victim_Some [OF Some]
      have drop: "drop_job (e_job v) es = without [e_job v] es"
        using "1.prems" by (rule drop_job_without)
      obtain ks where ks: "preempt_loop s sc incoming cp physical (without [e_job v] es) (acc @ [e_job v]) =
          (acc @ [e_job v]) @ ks" "good_victims s sc incoming cp physical (without [e_job v] es) ks"
        using "1.IH" [OF short Some] "1.prems" by (auto simp: drop distinct_without)
      then have "preempt_loop s sc incoming cp physical es acc = acc @ e_job v # ks"
        using short Some by (subst preempt_loop.simps) (simp add: drop)
      with good_victims_Cons [OF v(1) short v(2) ks(2)] show ?thesis by blast
    qed
  qed
qed

definition ledger_ok :: "('j, 'o) scheduler \<Rightarrow> bool" where
  "ledger_ok s \<longleftrightarrow> ms_wf (sch_entries s) \<and> list_all (\<lambda>(j, e). e_job e = j) (sch_entries s)"

lemma ledger_ok_jobs: "ledger_ok s \<Longrightarrow> distinct (map e_job (ledger s))"
proof -
  assume ok: "ledger_ok s"
  then have "map e_job (ledger s) = ms_keys (sch_entries s)"
    by (auto simp: ledger_ok_def ledger_def list_all_iff)
  with ok show ?thesis by (simp add: ledger_ok_def ms_wf_def)
qed

definition fits_alone :: "('j, 'o) scheduler \<Rightarrow> 'o scope \<Rightarrow> scheduled_work \<Rightarrow> bool" where
  "fits_alone s sc w \<longleftrightarrow> w_resourceUnits w \<le> sc_limit sc \<and> list_all (\<lambda>k. fits_cap (sch_admission s) k (max 0 (amount (w_resources w) k))) dimensions"

lemma fits_alone_shortages: "fits_alone s sc w \<longleftrightarrow> shortages s (Some w) sc [] False = []"
proof -
  have "set dimensions = UNIV" using resource_dim.exhaust by (auto simp: dimensions_def)
  then show ?thesis by (simp add: shortages_Nil fits_alone_def scoped_units_def amount_total allocated_def list_all_iff)
qed


text \<open>A machine with one core, busy with speculation: hinted work preempts it, work for two cores does not.\<close>

definition demo_busy :: "(nat, nat) scheduler" where
  "demo_busy = (enter 5 demo_work demo_scope Execution_role demo_scheduler)\<lparr>sch_capacity := [Cpu \<mapsto> 1], sch_admission := [Cpu \<mapsto> 1]\<rparr>"

definition demo_urgent :: "real \<Rightarrow> scheduled_work" where
  "demo_urgent cpus = demo_work\<lparr>w_actorHint := True, w_resources := [Cpu \<mapsto> cpus]\<rparr>"


subsection \<open>Capacity returns only with completion\<close>

datatype ('j, 'o) sched_op =
    Admit 'j "forecast list" "'o scope" role "scheduled_work option" "execution_identity option"
  | Refresh 'j "forecast list"
  | Complete 'j
  | Advance
  | Observe execution_identity bool
  | Sample resource_sample

fun sched_step :: "('j, 'o) sched_op \<Rightarrow> ('j, 'o) scheduler \<Rightarrow> ('j, 'o) scheduler" where
  "sched_step (Admit job fs sc r w k) s = snd (admit job fs sc r w k s)"
| "sched_step (Refresh job fs) s = snd (refresh job fs s)"
| "sched_step (Complete job) s = snd (complete_job job s)"
| "sched_step Advance s = advance s"
| "sched_step (Observe k b) s = observe k b s"
| "sched_step (Sample x) s = updateResources x s"

fun completes :: "('j, 'o) sched_op \<Rightarrow> bool" where
  "completes (Complete _) = True"
| "completes _ = False"

fun readmits :: "('j, 'o) sched_op \<Rightarrow> ('j, 'o) scheduler \<Rightarrow> bool" where
  "readmits (Admit job _ _ _ _ _) s = ms_has (sch_entries s) job"
| "readmits _ _ = False"

lemma updateResources_frame [simp]:
  "sch_entries (updateResources x s) = sch_entries s"
  by (auto simp: updateResources_def Let_def split: js_num.splits)

lemma observe_frame [simp]: "sch_entries (observe k b s) = sch_entries s"
  by (simp add: observe_def Let_def)

lemma ledger_ok_enter: "ledger_ok s \<Longrightarrow> ledger_ok (enter job w sc r s)"
  by (auto simp: ledger_ok_def enter_def list_all_iff set_ms_set)

lemma ledger_ok_step: "ledger_ok s \<Longrightarrow> ledger_ok (sched_step op s)"
proof (induction op)
  case (Admit job fs sc r wo k)
  let ?w = "case wo of Some v \<Rightarrow> v | None \<Rightarrow> evaluate fs"
  obtain a s' where a: "admit_work job ?w sc r k s = (a, s')" by force
  show ?case
  proof (cases a)
    case (Admitted v)
    with admit_admitted [of job ?w sc r k s v s'] a obtain s0
      where "s' = enter job ?w sc r s0" "sch_entries s0 = sch_entries s" by blast
    moreover from this Admit have "ledger_ok s0" by (simp add: ledger_ok_def)
    ultimately show ?thesis by (simp add: admit_def a ledger_ok_enter)
  next
    case (Refused v q)
    with admit_refused_ledger [of job ?w sc r k s v q s'] a Admit show ?thesis
      by (simp add: admit_def ledger_ok_def)
  qed
next
  case (Refresh job fs)
  have "\<And>e. map_of (sch_entries s) job = Some e \<Longrightarrow> e_job e = job"
    using Refresh by (auto simp: ledger_ok_def list_all_iff dest: map_of_SomeD)
  with Refresh show ?case
    by (auto simp: refresh_def Let_def ledger_ok_def list_all_iff set_ms_set split: option.splits)
qed (auto simp: ledger_ok_def complete_job_def list_all_iff advance_def)

lemma set_value_split:
  assumes "map_of m j = Some e"
  obtains us vs where "m = us @ (j, e) # vs" "ms_set j e' m = us @ (j, e') # vs"
  using assms
proof (induction m arbitrary: thesis)
  case (Cons p m)
  show ?case
  proof (cases "fst p = j")
    case True
    with Cons.prems(2) have "p = (j, e)" by (cases p) auto
    with Cons.prems(1) [of "[]" m] show ?thesis by simp
  next
    case False
    with Cons.prems(2) have "map_of m j = Some e" by (cases p) auto
    then obtain us vs where "m = us @ (j, e) # vs" "ms_set j e' m = us @ (j, e') # vs"
      using Cons.IH by blast
    with False Cons.prems(1) [of "p # us" vs] show ?thesis by (cases p) auto
  qed
qed simp

lemma set_value_allocated:
  assumes "map_of m j = Some e" and "w_resources (e_work e') = w_resources (e_work e)"
  shows "allocated k (ms_vals (ms_set j e' m)) = allocated k (ms_vals m)"
proof -
  obtain us vs where "m = us @ (j, e) # vs" "ms_set j e' m = us @ (j, e') # vs"
    using assms(1) by (rule set_value_split)
  with assms(2) show ?thesis by simp
qed

lemma set_value_units:
  assumes "map_of m j = Some e" and "e_scope e' = e_scope e"
    and "w_resourceUnits (e_work e') = w_resourceUnits (e_work e)"
  shows "scoped_units None p (ms_vals (ms_set j e' m)) = scoped_units None p (ms_vals m)"
proof -
  obtain us vs where "m = us @ (j, e) # vs" "ms_set j e' m = us @ (j, e') # vs"
    using assms(1) by (rule set_value_split)
  with assms(2,3) show ?thesis by (simp add: scoped_units_def)
qed

lemma refresh_keeps:
  shows "allocated k (ledger (snd (refresh job fs s))) = allocated k (ledger s)"
    and "scoped_units None p (ledger (snd (refresh job fs s))) = scoped_units None p (ledger s)"
proof -
  show "allocated k (ledger (snd (refresh job fs s))) = allocated k (ledger s)"
    by (cases "map_of (sch_entries s) job")
      (simp_all add: refresh_def ledger_def Let_def set_value_allocated)
  show "scoped_units None p (ledger (snd (refresh job fs s))) = scoped_units None p (ledger s)"
    by (cases "map_of (sch_entries s) job")
      (simp_all add: refresh_def ledger_def Let_def set_value_units)
qed

text \<open>Hardware goes back to the machine only when a job completes: no admission of a new job, refreshed
  forecast, new decision, observed outcome or hardware sample lowers the allocation of any resource
  dimension, and the well-formedness of the ledger is kept by every operation.\<close>

theorem capacity_returns_with_completion:
  assumes "ledger_ok s" and "\<not> completes op" and "\<not> readmits op s"
  shows "ledger_ok (sched_step op s) \<and> allocated k (ledger s) \<le> allocated k (ledger (sched_step op s))"
proof -
  have "allocated k (ledger s) \<le> allocated k (ledger (sched_step op s))"
  proof (cases op)
    case (Admit job fs sc r wo ik)
    let ?w = "case wo of Some v \<Rightarrow> v | None \<Rightarrow> evaluate fs"
    obtain a s' where a: "admit_work job ?w sc r ik s = (a, s')" by force
    show ?thesis
    proof (cases a)
      case (Admitted v)
      with admit_admitted [of job ?w sc r ik s v s'] a obtain s0
        where "s' = enter job ?w sc r s0" and e: "sch_entries s0 = sch_entries s" by blast
      then show ?thesis
        using ledger_enter_new [of s0 job ?w sc r] assms(3) Admit
        by (simp add: admit_def a) (simp add: ledger_def)
    next
      case (Refused v q)
      with admit_refused_ledger [of job ?w sc r ik s v q s'] a Admit show ?thesis
        by (simp add: admit_def ledger_def)
    qed
  next
    case (Refresh job fs)
    then show ?thesis by (simp add: refresh_keeps)
  qed (use assms in \<open>auto simp: ledger_def advance_def\<close>)
  with ledger_ok_step [OF assms(1)] show ?thesis by simp
qed

theorem capacity_returns_with_completion_witness:
  "allocated Cpu (ledger (sched_step (Refresh 5 []) demo_busy)) \<ge> allocated Cpu (ledger demo_busy)"
proof -
  have "ledger_ok demo_busy"
    by (simp add: demo_busy_def ledger_ok_def enter_def demo_scheduler_def ms_wf_def)
  from capacity_returns_with_completion [OF this, of "Refresh 5 []" Cpu] show ?thesis by simp
qed

end
