(* ===== verification/Settlement.thy ===== *)
theory Settlement
  imports Numbers
begin

text \<open>
  The vocabulary of outcomes (\<open>src/settlement.ts\<close>): resolution causes, resource validations,
  identities, prediction settlements, source-request settlements and actor settlements, with
  \<open>cause\<close>, \<open>zeroValidationMetrics\<close> and \<open>predictionLearning\<close>; and the timeline interval they carry
  (the two endpoints of \<open>TimelineInterval\<close> in \<open>src/task-timing.ts\<close>).  An optional field is an
  \<open>option\<close>, a union of object types a \<open>datatype\<close>.
\<close>

datatype resolution_stage =
    SourceStage | PlanStage | AdmissionStage | ExecutionStage | MatchingStage | AuthorizationStage
  | FreshnessStage | CompatibilityStage | ProjectionStage | CommitStage | RetentionStage | ControlStage

record resolution_cause =
  c_stage :: resolution_stage
  c_code :: string
  c_detail :: "string option"

definition cause :: "resolution_stage \<Rightarrow> string \<Rightarrow> string option \<Rightarrow> resolution_cause" where
  "cause stage code detail =
     \<lparr>c_stage = stage, c_code = code,
      c_detail = (case detail of Some d \<Rightarrow> if d = [] then None else Some d | None \<Rightarrow> None)\<rparr>"

datatype validation_mode = Watcher | Exact_mode

record validation_metrics =
  bytesRead :: nat
  filesRead :: nat
  mode :: validation_mode

definition zeroValidationMetrics :: "validation_mode \<Rightarrow> validation_metrics" where
  "zeroValidationMetrics m = \<lparr>bytesRead = 0, filesRead = 0, mode = m\<rparr>"

datatype resource_validation =
    Valid validation_metrics
  | Stale resolution_cause bool validation_metrics
  | Indeterminate resolution_cause validation_metrics

fun is_valid :: "resource_validation \<Rightarrow> bool" where
  "is_valid (Valid _) = True"
| "is_valid _ = False"

fun validation_cause :: "resource_validation \<Rightarrow> resolution_cause option" where
  "validation_cause (Valid _) = None"
| "validation_cause (Stale c _ _) = Some c"
| "validation_cause (Indeterminate c _) = Some c"

record plan_action_identity =
  pi_operation :: bool
  pi_id :: string
  pi_source :: string
  pi_proposal :: string
  pi_action :: string

record actor_action_identity =
  aa_operation :: bool
  aa_id :: string
  aa_sequence :: js_num
  aa_decision :: "js_num option"
  aa_turn :: string

datatype action_key_match = Exact | Projected real string | Inputs real

fun match_distance :: "action_key_match \<Rightarrow> real" where
  "match_distance Exact = 0"
| "match_distance (Projected d _) = d"
| "match_distance (Inputs d) = d"

datatype prediction_adoption = Adopted string | Rejected "string option" resolution_cause

datatype prediction_match = Unmatched | Matched action_key_match prediction_adoption

datatype prediction_settlement =
    Unobserved plan_action_identity resolution_cause
  | Observed plan_action_identity actor_action_identity prediction_match

fun settled_prediction :: "prediction_settlement \<Rightarrow> plan_action_identity" where
  "settled_prediction (Unobserved i _) = i"
| "settled_prediction (Observed i _ _) = i"

record learning =
  l_matched :: "bool option"
  l_adopted :: "bool option"

fun settlement_matched :: "prediction_settlement \<Rightarrow> bool option" where
  "settlement_matched (Unobserved _ _) = None"
| "settlement_matched (Observed _ _ Unmatched) = Some False"
| "settlement_matched (Observed _ _ (Matched _ _)) = Some True"

fun settlement_adopted :: "prediction_settlement \<Rightarrow> bool" where
  "settlement_adopted (Observed _ _ (Matched _ (Adopted _))) = True"
| "settlement_adopted _ = False"

definition predictionLearning :: "prediction_settlement \<Rightarrow> bool option \<Rightarrow> learning" where
  "predictionLearning settlement served =
     (let matched = settlement_matched settlement;
          adopted = (case served of Some b \<Rightarrow> b | None \<Rightarrow> settlement_adopted settlement) in
      \<lparr>l_matched = (if matched = Some True \<or> \<not> adopted then matched else None),
       l_adopted = (if adopted \<or> matched = Some True then Some adopted else None)\<rparr>)"

datatype source_request_settlement =
    Produced nat
  | EmptyRequest "resolution_cause option"
  | TimeoutRequest resolution_cause
  | ErrorRequest resolution_cause
  | AbortedRequest resolution_cause

datatype source_request_kind = Proposal | Continuation | Observation

record source_request_identity =
  r_source :: string
  r_turn :: string
  r_index :: nat
  r_kind :: source_request_kind
  r_target :: nat

record settled_source_request =
  s_request :: source_request_identity
  s_duration :: real
  s_settlement :: source_request_settlement

record interval =
  startedAt :: real
  completedAt :: real

definition timeline_interval :: "js_val \<Rightarrow> js_val \<Rightarrow> interval" where
  "timeline_interval s e =
     \<lparr>startedAt = nonNegativeFinite s, completedAt = max (nonNegativeFinite s) (nonNegativeFinite e)\<rparr>"

lemma timeline_interval_ordered [simp]:
  "0 \<le> startedAt (timeline_interval s e)" "startedAt (timeline_interval s e) \<le> completedAt (timeline_interval s e)"
  by (auto simp: timeline_interval_def)

record candidate_rejection =
  rej_candidate :: string
  rej_match :: action_key_match
  rej_cause :: resolution_cause

datatype actor_action_provider =
    Speculative interval string action_key_match
  | Fallback interval real resolution_cause "string option" bool
  | Preview interval real string

record actor_action_settlement =
  as_action :: actor_action_identity
  as_tool :: string
  as_key_hash :: "string option"
  as_matched :: "plan_action_identity list"
  as_rejections :: "candidate_rejection list"
  as_provider :: actor_action_provider

lemma cause_simps [simp]: "c_stage (cause s c d) = s" "c_code (cause s c d) = c"
  by (simp_all add: cause_def)

text \<open>The learning sample of a settled prediction: a match is always learned as one; an unmatched
  prediction whose work was nevertheless served teaches adoption but claims no match and no miss;
  an unmatched, unserved one is learned as a miss only when the Actor was observed; adoption
  evidence exists exactly for matched or served predictions.\<close>

theorem predictionLearning_cases:
  "predictionLearning s served =
     (let adopted = (case served of Some b \<Rightarrow> b | None \<Rightarrow> settlement_adopted s) in
      case s of
        Unobserved _ _ \<Rightarrow> \<lparr>l_matched = None, l_adopted = (if adopted then Some True else None)\<rparr>
      | Observed _ _ Unmatched \<Rightarrow>
          if adopted then \<lparr>l_matched = None, l_adopted = Some True\<rparr>
          else \<lparr>l_matched = Some False, l_adopted = None\<rparr>
      | Observed _ _ (Matched _ _) \<Rightarrow> \<lparr>l_matched = Some True, l_adopted = Some adopted\<rparr>)"
  by (cases s) (auto simp: predictionLearning_def Let_def split: prediction_match.splits)

text \<open>What plan readiness reads of a settlement.\<close>

lemma predictionLearning_adopted_iff:
  "l_adopted (predictionLearning s None) = Some True \<longleftrightarrow> settlement_adopted s"
  by (cases s rule: settlement_adopted.cases) (auto simp: predictionLearning_def Let_def)

end
