(* ===== verification/Stable_Json.thy ===== *)
theory Stable_Json
  imports Numbers
begin

text \<open>
  Canonical JSON of data values (\<open>src/stable-json.ts\<close>).  A data value is a \<open>js_val\<close>; an object is
  the list of its properties in the order \<open>Object.keys\<close> gives.  The text of a finite number,
  \<open>Number.prototype.toString\<close>, is the parameter \<open>num\<close>.  Getters, proxies, symbols, cycles and
  non-plain prototypes are not data values and have no representation here.
\<close>

subsection \<open>JSON text of strings and counts\<close>

definition hex_digit :: "nat \<Rightarrow> char" where
  "hex_digit n = ''0123456789abcdef'' ! n"

definition json_char :: "char \<Rightarrow> string" where
  "json_char c = (let n = (of_char c :: nat) in
     if n = 34 then [CHR 0x5C, CHR 0x22]
     else if n = 92 then [CHR 0x5C, CHR 0x5C]
     else if n = 8 then [CHR 0x5C, CHR ''b'']
     else if n = 9 then [CHR 0x5C, CHR ''t'']
     else if n = 10 then [CHR 0x5C, CHR ''n'']
     else if n = 12 then [CHR 0x5C, CHR ''f'']
     else if n = 13 then [CHR 0x5C, CHR ''r'']
     else if n < 32 then [CHR 0x5C, CHR ''u'', CHR ''0'', CHR ''0'', hex_digit (n div 16), hex_digit (n mod 16)]
     else [c])"

definition json_string :: "string \<Rightarrow> string" where
  "json_string s = CHR 0x22 # concat (map json_char s) @ [CHR 0x22]"

definition digit_char :: "nat \<Rightarrow> char" where
  "digit_char n = char_of (48 + n)"

fun nat_text :: "nat \<Rightarrow> string" where
  "nat_text n = (if n < 10 then [digit_char n] else nat_text (n div 10) @ [digit_char (n mod 10)])"

declare nat_text.simps [simp del]

definition is_digit :: "char \<Rightarrow> bool" where
  "is_digit c \<longleftrightarrow> (let n = (of_char c :: nat) in 48 \<le> n \<and> n \<le> 57)"

definition digits_value :: "string \<Rightarrow> nat" where
  "digits_value s = foldl (\<lambda>a c. 10 * a + (of_char c - 48)) 0 s"

text \<open>\<open>String(Number(value)) === value\<close> for a count: the canonical decimal text of one.\<close>

definition isArrayIndex :: "string \<Rightarrow> bool" where
  "isArrayIndex s \<longleftrightarrow> s \<noteq> [] \<and> list_all is_digit s \<and> (hd s \<noteq> CHR ''0'' \<or> s = ''0'') \<and>
     digits_value s \<le> 4294967294"

subsection \<open>stableStringify\<close>

fun is_object :: "js_val \<Rightarrow> bool" where
  "is_object (JArr _) = True"
| "is_object (JObj _) = True"
| "is_object _ = False"

fun isRecord :: "js_val \<Rightarrow> bool" where
  "isRecord (JObj _) = True"
| "isRecord _ = False"

definition asRecord :: "js_val \<Rightarrow> (string \<times> js_val) list option" where
  "asRecord v = (case v of JObj fields \<Rightarrow> Some fields | _ \<Rightarrow> None)"

fun json_primitive :: "(real \<Rightarrow> string) \<Rightarrow> js_val \<Rightarrow> string option" where
  "json_primitive num JNull = Some ''null''"
| "json_primitive num (JBool b) = Some (if b then ''true'' else ''false'')"
| "json_primitive num (JNum (Fin x)) = Some (num x)"
| "json_primitive num (JNum _) = Some ''null''"
| "json_primitive num (JStr s) = Some (json_string s)"
| "json_primitive num _ = None"

definition ordered_keys :: "string list \<Rightarrow> string list" where
  "ordered_keys ks = takeWhile isArrayIndex ks @ sort (dropWhile isArrayIndex ks)"

fun join_with :: "string \<Rightarrow> string list \<Rightarrow> string" where
  "join_with sep [] = []"
| "join_with sep [x] = x"
| "join_with sep (x # xs) = x @ sep @ join_with sep xs"

definition or_null :: "string option \<Rightarrow> string" where
  "or_null s = (case s of Some t \<Rightarrow> t | None \<Rightarrow> ''null'')"

text \<open>
  The members of an object are serialized first, each with its key; then the keys are put in order and
  those whose value has no text are left out.
\<close>

definition join_members :: "(string \<times> string option) list \<Rightarrow> string" where
  "join_members ms = ''{'' @ join_with '','' (concat (map (\<lambda>k. case map_of ms k of
       Some (Some item) \<Rightarrow> [json_string k @ '':'' @ item] | _ \<Rightarrow> [])
     (ordered_keys (map fst ms)))) @ ''}''"

fun serialize :: "(real \<Rightarrow> string) \<Rightarrow> js_val \<Rightarrow> string option" where
  "serialize num (JArr vs) = Some (''['' @ join_with '','' (map (\<lambda>v. or_null (serialize num v)) vs) @ '']'')"
| "serialize num (JObj fields) = Some (join_members (map (\<lambda>(k, v). (k, serialize num v)) fields))"
| "serialize num v = json_primitive num v"

definition stableStringify :: "(real \<Rightarrow> string) \<Rightarrow> js_val \<Rightarrow> string option" where
  "stableStringify num v = serialize num v"

subsection \<open>stableEqual\<close>

definition field :: "(string \<times> js_val) list \<Rightarrow> string \<Rightarrow> js_val" where
  "field fs k = (case map_of fs k of Some v \<Rightarrow> v | None \<Rightarrow> JUndef)"

definition primitive_slot :: "(real \<Rightarrow> string) \<Rightarrow> js_val \<Rightarrow> bool \<Rightarrow> string option" where
  "primitive_slot num v array_slot = (case json_primitive num v of
     Some t \<Rightarrow> Some t | None \<Rightarrow> if array_slot then Some ''null'' else None)"

lemma size_nth: "i < length vs \<Longrightarrow> size (vs ! i) < Suc (size_list size vs)"
  using size_list_estimation' [of "vs ! i" vs "size (vs ! i)" size] by (simp add: less_Suc_eq_le)

text \<open>
  What reading a slot of an array or object gives: a value, or \<open>Object.prototype\<close>, which an object without a
  member of that name answers to \<open>__proto__\<close>.  It has no enumerable members, and its own \<open>__proto__\<close> is \<open>null\<close>.  The
  other inherited members are functions, which have no text and are no objects here, like \<open>undefined\<close>.
\<close>

datatype slot = Value js_val | Object_prototype

definition slot_keys :: "slot \<Rightarrow> string list option" where
  "slot_keys s = (case s of Value (JObj fs) \<Rightarrow> Some (map fst fs) | Value _ \<Rightarrow> None | Object_prototype \<Rightarrow> Some [])"

definition slot_items :: "slot \<Rightarrow> js_val list option" where
  "slot_items s = (case s of Value (JArr vs) \<Rightarrow> Some vs | _ \<Rightarrow> None)"

definition slot_read :: "slot \<Rightarrow> string \<Rightarrow> slot" where
  "slot_read s k = (case s of
     Value (JObj fs) \<Rightarrow> (case map_of fs k of Some v \<Rightarrow> Value v
       | None \<Rightarrow> if k = ''__proto__'' then Object_prototype else Value JUndef)
   | _ \<Rightarrow> Value (if k = ''__proto__'' then JNull else JUndef))"

definition slot_text :: "(real \<Rightarrow> string) \<Rightarrow> slot \<Rightarrow> bool \<Rightarrow> string option" where
  "slot_text num s array_slot = (case s of Value v \<Rightarrow> primitive_slot num v array_slot | Object_prototype \<Rightarrow> None)"

definition slot_weight :: "slot \<Rightarrow> nat" where
  "slot_weight s = (case s of Value v \<Rightarrow> size v | Object_prototype \<Rightarrow> 1)"

lemma slot_weight_simps [simp]: "slot_weight (Value v) = size v" "slot_weight Object_prototype = 1"
  by (simp_all add: slot_weight_def)

lemma size_member: "map_of fs k = Some v \<Longrightarrow> size v < Suc (size_list (size_prod (\<lambda>_. 0) size) fs)"
  using size_list_estimation' [of "(k, v)" fs "size v" "size_prod (\<lambda>_. 0) size"] by (auto dest!: map_of_SomeD)

lemma slot_read_weight: "slot_keys s = Some ks \<Longrightarrow> slot_weight (slot_read s k) \<le> slot_weight s"
  by (auto simp: slot_keys_def slot_read_def dest!: size_member split: slot.splits js_val.splits option.splits)

lemma slot_read_smaller: "slot_keys s = Some ks \<Longrightarrow> k \<in> set ks \<Longrightarrow> slot_weight (slot_read s k) < slot_weight s"
  by (auto simp: slot_keys_def slot_read_def map_of_eq_None_iff image_iff dest: size_member split: slot.splits js_val.splits option.splits)

lemma slot_items_some [simp]: "slot_items s = Some vs \<longleftrightarrow> s = Value (JArr vs)"
  by (auto simp: slot_items_def split: slot.splits js_val.splits)

function equalSlot :: "(real \<Rightarrow> string) \<Rightarrow> slot \<Rightarrow> slot \<Rightarrow> bool \<Rightarrow> bool" where
  "equalSlot num l r array_slot =
     (case (slot_items l, slot_items r) of
        (Some vs, Some ws) \<Rightarrow> if length vs \<noteq> length ws then False
          else list_all (\<lambda>i. equalSlot num (Value (vs ! i)) (Value (ws ! i)) True) [0..<length vs]
      | (None, None) \<Rightarrow> (case (slot_keys l, slot_keys r) of
          (Some ks, Some js) \<Rightarrow> list_all (\<lambda>k. equalSlot num (slot_read l k) (slot_read r k) False) (uniq (ks @ js))
        | (None, None) \<Rightarrow> slot_text num l array_slot = slot_text num r array_slot
        | _ \<Rightarrow> False)
      | _ \<Rightarrow> False)"
  by pat_completeness auto

termination
proof (relation "measure (\<lambda>(num, l, r, b). slot_weight l + slot_weight r)", goal_cases)
  case (2 num l r b x y u w ks js k)
  then have "slot_keys l = Some ks" "slot_keys r = Some js" "k \<in> set ks \<or> k \<in> set js" by auto
  then show ?case
    using slot_read_weight [of l ks k] slot_read_weight [of r js k] slot_read_smaller [of l ks k] slot_read_smaller [of r js k]
    by auto
next
  case (3 num l r b x y vs ws i)
  then have "l = Value (JArr vs)" "r = Value (JArr ws)" "i < length vs" "length vs = length ws" by (simp_all add: eq_commute [of "Some _"])
  then show ?case using size_nth [of i vs] size_nth [of i ws] by simp
qed simp

declare equalSlot.simps [simp del]

definition stableEqual :: "(real \<Rightarrow> string) \<Rightarrow> js_val \<Rightarrow> js_val \<Rightarrow> bool" where
  "stableEqual num l r \<longleftrightarrow>
     (if is_object l \<and> is_object r then equalSlot num (Value l) (Value r) False
      else l = r \<and> l \<noteq> JNum NaN)"

text \<open>
  \<open>===\<close> of two primitive values is equality except that \<open>NaN\<close> differs from itself; a shared object
  is equal to itself, which \<open>equalSlot\<close> answers too.
\<close>

subsection \<open>Immutable snapshots\<close>

text \<open>
  \<open>freeze\<close> of a data value: every child must be immutable and defined, and the leaves finite.
\<close>

fun immutable_leaf :: "js_val \<Rightarrow> bool" where
  "immutable_leaf (JNum (Fin _)) = True"
| "immutable_leaf (JNum _) = False"
| "immutable_leaf _ = True"

fun isImmutableSnapshot :: "js_val \<Rightarrow> bool" where
  "isImmutableSnapshot (JArr vs) = list_all (\<lambda>v. isImmutableSnapshot v \<and> v \<noteq> JUndef) vs"
| "isImmutableSnapshot (JObj fs) = list_all (\<lambda>(k, v). isImmutableSnapshot v \<and> v \<noteq> JUndef) fs"
| "isImmutableSnapshot v = immutable_leaf v"

subsection \<open>Decimal text of counts\<close>

lemma digit_value: "n < 10 \<Longrightarrow> of_char (digit_char n) - 48 = n"
  by (simp add: digit_char_def)

lemma digits_value_append: "digits_value (s @ [c]) = 10 * digits_value s + (of_char c - 48)"
  by (simp add: digits_value_def)

lemma digits_value_nat_text [simp]: "digits_value (nat_text n) = n"
proof (induction n rule: nat_text.induct)
  case (1 n)
  show ?case
  proof (cases "n < 10")
    case True
    then show ?thesis
      by (subst nat_text.simps) (simp add: digits_value_def digit_value)
  next
    case False
    with 1 show ?thesis
      by (subst nat_text.simps) (simp add: digits_value_append digit_value)
  qed
qed

lemma nat_text_inject [simp]: "nat_text m = nat_text n \<longleftrightarrow> m = n"
  by (metis digits_value_nat_text)

end
