(* ===== verification/Plan_Actions.thy ===== *)
theory Plan_Actions
  imports Settlement Stable_Json "HOL-Library.Multiset"
begin

text \<open>
  The actions a plan consists of (\<open>src/plan-proposal.ts\<close>) and their capture at hand-over
  (\<open>capture\<close>, \<open>validateActions\<close> and \<open>samePlanActionExecution\<close> of \<open>src/plan-runtime.ts\<close>).  The
  fields the runtime never reads (probabilities, mode, feedback) are the one field
  \<open>pa_details\<close>.  An operation binding is an object: its identity and whether it is frozen.
\<close>

record dependency =
  dep_action :: string
  dep_proposal :: "string option"
  dep_identity :: "string option"
  dep_condition :: "string option"
  dep_observation :: "string option"

record operation_ref =
  op_object :: nat
  op_frozen :: bool

record plan_action =
  pa_id :: string
  pa_type :: string
  pa_operation :: "operation_ref option"
  pa_tool :: string
  pa_input :: js_val
  pa_horizon :: js_val
  pa_latestHorizon :: js_val
  pa_resourceDemand :: js_val
  pa_dependsOn :: "dependency list option"
  pa_details :: js_val

datatype plan_update =
    Proposal_update string string js_val "plan_action list" bool
  | Delta_update string string js_val "plan_action list option" "string list option"

datatype update_error =
    Invalid_identity | Invalid_revision | Source_mismatch | Proposal_missing | Stale_revision
  | Duplicate_action | Invalid_action | Invalid_dependency

definition deps_of :: "plan_action \<Rightarrow> dependency list" where
  "deps_of a = (case pa_dependsOn a of Some ds \<Rightarrow> ds | None \<Rightarrow> [])"

definition is_operation :: "plan_action \<Rightarrow> bool" where
  "is_operation a \<longleftrightarrow> pa_type a = ''operation''"

definition horizon :: "plan_action \<Rightarrow> nat" where
  "horizon a = nonNegativeCount (pa_horizon a)"

fun nullish :: "js_val \<Rightarrow> bool" where
  "nullish JUndef = True"
| "nullish JNull = True"
| "nullish _ = False"

definition latestHorizon :: "plan_action \<Rightarrow> nat" where
  "latestHorizon a = max (horizon a)
     (if nullish (pa_latestHorizon a) then horizon a else nonNegativeCount (pa_latestHorizon a))"

definition actorDecisionSequence :: "actor_action_identity \<Rightarrow> nat" where
  "actorDecisionSequence a =
     nonNegativeCount (JNum (case aa_decision a of Some d \<Rightarrow> d | None \<Rightarrow> aa_sequence a))"

subsection \<open>Validation\<close>

definition dependency_conditions :: "string list" where
  "dependency_conditions =
     [''execution_settled'', ''execution_succeeded'', ''actor_adopted'', ''prediction'', ''resource'']"

definition canonical_dependency :: "dependency \<Rightarrow> dependency" where
  "canonical_dependency d =
     (let c = (case dep_condition d of Some c \<Rightarrow> c | None \<Rightarrow> ''execution_settled'') in
      d\<lparr>dep_condition := Some c,
        dep_observation := (if c = ''prediction'' then dep_observation d else None)\<rparr>)"

definition valid_option :: "string option \<Rightarrow> bool" where
  "valid_option s = (case s of Some t \<Rightarrow> validToken t | None \<Rightarrow> False)"

definition dependency_valid :: "dependency \<Rightarrow> bool" where
  "dependency_valid d \<longleftrightarrow>
     validToken (dep_action d) \<and>
     (case dep_condition d of Some c \<Rightarrow> c \<in> set dependency_conditions | None \<Rightarrow> False) \<and>
     (dep_condition d = Some ''prediction'' \<longrightarrow> valid_option (dep_observation d)) \<and>
     (dep_proposal d \<noteq> None \<or> dep_identity d \<noteq> None \<longrightarrow>
        valid_option (dep_proposal d) \<and> valid_option (dep_identity d))"

definition action_head_valid :: "plan_action \<Rightarrow> bool" where
  "action_head_valid a \<longleftrightarrow>
     validToken (pa_id a) \<and> validToken (pa_tool a) \<and>
     (pa_type a = ''tool_call'' \<or> pa_type a = ''operation'') \<and>
     (if pa_type a = ''operation'' then (case pa_operation a of Some r \<Rightarrow> op_frozen r | None \<Rightarrow> False)
      else pa_operation a = None)"

text \<open>The first loop: heads, duplicate ids and dependencies, in the order of the actions.\<close>

fun validate_heads :: "plan_action list \<Rightarrow> string set \<Rightarrow> update_error + plan_action list" where
  "validate_heads [] ids = Inr []"
| "validate_heads (a # as) ids =
     (if \<not> action_head_valid a then Inl Invalid_action
      else if pa_id a \<in> ids then Inl Duplicate_action
      else
        let ds = map_option (map canonical_dependency) (pa_dependsOn a) in
        if (case ds of Some l \<Rightarrow> \<not> list_all dependency_valid l | None \<Rightarrow> False) then Inl Invalid_dependency
        else case validate_heads as (insert (pa_id a) ids) of
          Inl e \<Rightarrow> Inl e
        | Inr rest \<Rightarrow> Inr (a\<lparr>pa_dependsOn := ds\<rparr> # rest))"

definition dimension_names :: "string list" where
  "dimension_names = [''cpu'', ''memory'', ''io'', ''gpu'', ''gpuMemory'', ''network'']"

fun demand_valid :: "js_val \<Rightarrow> bool" where
  "demand_valid (JObj fs) =
     list_all (\<lambda>(k, v). k \<in> set dimension_names \<and> (case v of JNum (Fin x) \<Rightarrow> 0 \<le> x | _ \<Rightarrow> False)) fs"
| "demand_valid (JArr vs) = (vs = [])"
| "demand_valid _ = True"

fun owned_demand :: "js_val \<Rightarrow> js_val" where
  "owned_demand (JArr _) = JObj []"
| "owned_demand v = v"

fun validate_inputs :: "plan_action list \<Rightarrow> update_error + plan_action list" where
  "validate_inputs [] = Inr []"
| "validate_inputs (a # as) =
     (if \<not> demand_valid (pa_resourceDemand a) \<or> \<not> isImmutableSnapshot (pa_input a) then Inl Invalid_action
      else case validate_inputs as of
        Inl e \<Rightarrow> Inl e
      | Inr rest \<Rightarrow> Inr (a\<lparr>pa_resourceDemand := owned_demand (pa_resourceDemand a)\<rparr> # rest))"

definition validateActions :: "plan_action list \<Rightarrow> update_error + plan_action list" where
  "validateActions as = (case validate_heads as {} of
     Inl e \<Rightarrow> Inl e | Inr heads \<Rightarrow> validate_inputs heads)"

definition or_empty :: "'a list option \<Rightarrow> 'a list" where
  "or_empty x = (case x of Some l \<Rightarrow> l | None \<Rightarrow> [])"

definition single_step :: "plan_action \<Rightarrow> bool" where
  "single_step a \<longleftrightarrow> nonNegativeFinite (pa_horizon a) = 0 \<and> deps_of a = []"

fun offered_actions :: "bool \<Rightarrow> plan_update \<Rightarrow> plan_action list" where
  "offered_actions multi (Proposal_update _ _ _ as _) = (if multi then as else filter single_step as)"
| "offered_actions multi (Delta_update _ _ _ ups _) = (if multi then or_empty ups else [])"

fun update_plan :: "plan_update \<Rightarrow> string" where
  "update_plan (Proposal_update i _ _ _ _) = i"
| "update_plan (Delta_update i _ _ _ _) = i"

fun update_source :: "plan_update \<Rightarrow> string" where
  "update_source (Proposal_update _ s _ _ _) = s"
| "update_source (Delta_update _ s _ _ _) = s"

fun update_revision :: "plan_update \<Rightarrow> js_val" where
  "update_revision (Proposal_update _ _ r _ _) = r"
| "update_revision (Delta_update _ _ r _ _) = r"

fun update_removed :: "plan_update \<Rightarrow> string list" where
  "update_removed (Proposal_update _ _ _ _ _) = []"
| "update_removed (Delta_update _ _ _ _ rm) = or_empty rm"

fun with_actions :: "bool \<Rightarrow> plan_action list \<Rightarrow> plan_update \<Rightarrow> plan_update" where
  "with_actions multi as (Proposal_update i s r _ keep) = Proposal_update i s r as (multi \<and> keep)"
| "with_actions multi as (Delta_update i s r _ rm) = Delta_update i s r (Some as) (Some (or_empty rm))"

text \<open>\<open>captured\<close> says whether the update object is one that an earlier capture returned.\<close>

definition capture :: "bool \<Rightarrow> plan_update \<Rightarrow> bool \<Rightarrow> update_error + plan_update" where
  "capture captured update multi =
     (if captured \<and> multi then Inr update
      else if \<not> (validToken (update_plan update) \<and> validToken (update_source update)) then Inl Invalid_identity
      else if \<not> isSafeCount (update_revision update) 0 max_safe then Inl Invalid_revision
      else case (if captured then Inr (offered_actions multi update)
                 else validateActions (offered_actions multi update)) of
        Inl e \<Rightarrow> Inl e
      | Inr as \<Rightarrow>
          if list_ex (\<lambda>i. \<not> validToken i) (update_removed update) then Inl Invalid_action
          else Inr (with_actions multi as update))"

subsection \<open>When two revisions of an action execute alike\<close>

definition bump :: "int \<Rightarrow> dependency \<Rightarrow> (dependency, int) jsmap \<Rightarrow> (dependency, int) jsmap" where
  "bump delta d counts =
     (let n = (case map_of counts d of Some m \<Rightarrow> m | None \<Rightarrow> 0) + delta in
      if n \<noteq> 0 then ms_set d n counts else ms_del d counts)"

fun deep_equal :: "js_val \<Rightarrow> js_val \<Rightarrow> bool" where
  "deep_equal (JArr []) (JArr []) = True"
| "deep_equal (JArr (v # vs)) (JArr (w # ws)) = (deep_equal v w \<and> deep_equal (JArr vs) (JArr ws))"
| "deep_equal (JObj []) (JObj gs) = (gs = [])"
| "deep_equal (JObj ((k, v) # fs)) (JObj gs) =
     (case map_of gs k of
        None \<Rightarrow> False
      | Some w \<Rightarrow> deep_equal v w \<and> deep_equal (JObj fs) (JObj (ms_del k gs)))"
| "deep_equal (JArr _) _ = False"
| "deep_equal (JObj _) _ = False"
| "deep_equal l r = (l = r)"

definition samePlanActionExecution :: "plan_action \<Rightarrow> plan_action \<Rightarrow> bool" where
  "samePlanActionExecution l r \<longleftrightarrow>
     pa_type l = pa_type r \<and> map_option op_object (pa_operation l) = map_option op_object (pa_operation r) \<and>
     pa_tool l = pa_tool r \<and> deep_equal (pa_input l) (pa_input r) \<and>
     fold (bump (-1)) (deps_of r) (fold (bump 1) (deps_of l) []) = []"

end
