(* ===== verification/Prediction_Opportunity.thy ===== *)
theory Prediction_Opportunity
  imports Plan_Actions
begin

text \<open>
  \<open>PredictionOpportunity\<close> of \<open>src/plan-runtime.ts\<close>: the exactly-once owner of one prediction's
  Actor-visible outcome.  Every operation returns what the source returns together with the new
  object; a prediction is pending, claimed by one Actor action, or settled.
\<close>

datatype opportunity_state =
    Pending
  | Matching actor_action_identity action_key_match
  | Settled prediction_settlement

record opportunity =
  op_identity :: plan_action_identity
  op_state :: opportunity_state

definition new_opportunity :: "plan_action_identity \<Rightarrow> opportunity" where
  "new_opportunity i = \<lparr>op_identity = i, op_state = Pending\<rparr>"

fun state_settlement :: "opportunity_state \<Rightarrow> prediction_settlement option" where
  "state_settlement (Settled s) = Some s"
| "state_settlement _ = None"

definition op_settlement :: "opportunity \<Rightarrow> prediction_settlement option" where
  "op_settlement o1 = state_settlement (op_state o1)"

definition sameActorAction :: "actor_action_identity \<Rightarrow> actor_action_identity \<Rightarrow> bool" where
  "sameActorAction l r \<longleftrightarrow> aa_operation l = aa_operation r \<and> aa_id l = aa_id r \<and>
     aa_sequence l = aa_sequence r \<and> aa_sequence l \<noteq> NaN \<and> aa_turn l = aa_turn r"

definition op_claim :: "actor_action_identity \<Rightarrow> action_key_match \<Rightarrow> opportunity \<Rightarrow> bool \<times> opportunity" where
  "op_claim actor rel o1 = (case op_state o1 of
     Pending \<Rightarrow> (True, o1\<lparr>op_state := Matching actor rel\<rparr>)
   | _ \<Rightarrow> (False, o1))"

definition op_finish :: "prediction_settlement \<Rightarrow> opportunity \<Rightarrow> prediction_settlement option \<times> opportunity" where
  "op_finish s o1 = (Some s, o1\<lparr>op_state := Settled s\<rparr>)"

definition op_confirm ::
  "actor_action_identity \<Rightarrow> prediction_adoption \<Rightarrow> opportunity \<Rightarrow> prediction_settlement option \<times> opportunity"
where
  "op_confirm actor adoption o1 = (case op_state o1 of
     Matching claimed rel \<Rightarrow>
       if sameActorAction claimed actor
       then op_finish (Observed (op_identity o1) claimed (Matched rel adoption)) o1
       else (None, o1)
   | _ \<Rightarrow> (None, o1))"

definition op_miss :: "actor_action_identity \<Rightarrow> opportunity \<Rightarrow> prediction_settlement option \<times> opportunity" where
  "op_miss actor o1 = (case op_state o1 of
     Pending \<Rightarrow> op_finish (Observed (op_identity o1) actor Unmatched) o1
   | _ \<Rightarrow> (None, o1))"

definition op_unobserve :: "resolution_cause \<Rightarrow> opportunity \<Rightarrow> prediction_settlement option \<times> opportunity" where
  "op_unobserve why o1 = (case op_state o1 of
     Pending \<Rightarrow> op_finish (Unobserved (op_identity o1) why) o1
   | _ \<Rightarrow> (None, o1))"

definition predictionMatched :: "prediction_settlement option \<Rightarrow> actor_action_identity option" where
  "predictionMatched s = (case s of Some (Observed _ actor (Matched _ _)) \<Rightarrow> Some actor | _ \<Rightarrow> None)"

subsection \<open>Exactly one settlement\<close>

datatype op_call =
    Claim actor_action_identity action_key_match
  | Confirm actor_action_identity prediction_adoption
  | Miss actor_action_identity
  | Unobserve resolution_cause

fun op_call_step :: "op_call \<Rightarrow> opportunity \<Rightarrow> prediction_settlement option \<times> opportunity" where
  "op_call_step (Claim a r) o1 = (None, snd (op_claim a r o1))"
| "op_call_step (Confirm a d) o1 = op_confirm a d o1"
| "op_call_step (Miss a) o1 = op_miss a o1"
| "op_call_step (Unobserve c) o1 = op_unobserve c o1"

fun op_calls :: "op_call list \<Rightarrow> opportunity \<Rightarrow> prediction_settlement list \<times> opportunity" where
  "op_calls [] o1 = ([], o1)"
| "op_calls (c # cs) o1 =
     (let (r, o2) = op_call_step c o1; (rs, o3) = op_calls cs o2 in
      ((case r of Some s \<Rightarrow> [s] | None \<Rightarrow> []) @ rs, o3))"

lemmas opportunity_defs = op_claim_def op_confirm_def op_miss_def op_unobserve_def op_finish_def

lemma identity_step [simp]: "op_identity (snd (op_call_step c o1)) = op_identity o1"
  by (cases c) (auto simp: opportunity_defs split: opportunity_state.splits)

lemma settled_step: "op_state o1 = Settled s \<Longrightarrow> op_call_step c o1 = (None, o1)"
  by (cases c) (auto simp: opportunity_defs)

lemma settled_calls: "op_state o1 = Settled s \<Longrightarrow> op_calls cs o1 = ([], o1)"
  by (induction cs) (auto simp: settled_step)

lemma step_result:
  "fst (op_call_step c o1) = Some s \<Longrightarrow> op_state (snd (op_call_step c o1)) = Settled s \<and> settled_prediction s = op_identity o1"
  by (cases c) (auto simp: opportunity_defs split: opportunity_state.splits if_splits)

lemma step_no_result:
  "fst (op_call_step c o1) = None \<Longrightarrow> op_state (snd (op_call_step c o1)) = Settled s \<Longrightarrow> op_state o1 = Settled s"
  by (cases c) (auto simp: opportunity_defs split: opportunity_state.splits if_splits)

lemma op_calls_identity [simp]: "op_identity (snd (op_calls cs o1)) = op_identity o1"
  by (induction cs arbitrary: o1) (auto simp: Let_def split: prod.splits, metis identity_step snd_conv)

lemma op_calls_settles:
  assumes "op_settlement o1 = None"
  shows "fst (op_calls cs o1) = (case op_settlement (snd (op_calls cs o1)) of None \<Rightarrow> [] | Some s \<Rightarrow> [s])"
  using assms
proof (induction cs arbitrary: o1)
  case (Cons c cs)
  obtain r o2 where st: "op_call_step c o1 = (r, o2)" by force
  show ?case
  proof (cases r)
    case None
    have "op_settlement o2 = None"
      using step_no_result [of c o1] Cons.prems None st
      by (cases "op_state o2") (auto simp: op_settlement_def)
    from Cons.IH [OF this] show ?thesis
      by (auto simp: st None split: prod.splits)
  next
    case (Some s)
    then have "op_state o2 = Settled s" using step_result [of c o1 s] st by simp
    with settled_calls [OF this, of cs] show ?thesis
      by (simp add: st Some op_settlement_def)
  qed
qed simp

text \<open>Which settlement it is: a match needs the claim of the same Actor action.\<close>

definition settlement_reason :: "op_call list \<Rightarrow> prediction_settlement \<Rightarrow> bool" where
  "settlement_reason cs s = (case s of
     Observed _ actor (Matched rel adoption) \<Rightarrow>
       Claim actor rel \<in> set cs \<and> (\<exists>a. Confirm a adoption \<in> set cs \<and> sameActorAction actor a)
   | Observed _ actor Unmatched \<Rightarrow> Miss actor \<in> set cs
   | Unobserved _ why \<Rightarrow> Unobserve why \<in> set cs)"

definition claim_ok :: "op_call list \<Rightarrow> opportunity \<Rightarrow> bool" where
  "claim_ok cs o1 = (case op_state o1 of
     Pending \<Rightarrow> True | Matching actor rel \<Rightarrow> Claim actor rel \<in> set cs | Settled s \<Rightarrow> settlement_reason cs s)"

lemma claim_ok_step: "claim_ok cs o1 \<Longrightarrow> claim_ok (cs @ [c]) (snd (op_call_step c o1))"
  by (cases c; cases "op_state o1")
    (auto simp: claim_ok_def opportunity_defs settlement_reason_def
      split: prediction_settlement.splits prediction_match.splits if_splits)

lemma claim_ok_calls: "claim_ok pre o1 \<Longrightarrow> claim_ok (pre @ cs) (snd (op_calls cs o1))"
proof (induction cs arbitrary: pre o1)
  case (Cons c cs)
  from Cons.IH [OF claim_ok_step [OF Cons.prems, of c]] show ?case
    by (auto split: prod.splits)
qed simp

text \<open>C16.
  A prediction opportunity settles at most once, whatever calls are made in whatever order: the calls
  return exactly one settlement if it is settled in the end and none otherwise; that settlement is
  the one it keeps, names its own prediction, and, when it says the prediction matched, the Actor
  action had claimed it before the same Actor action confirmed it.\<close>

theorem opportunity_settles_exactly_once:
  "let (settlements, o1) = op_calls cs (new_opportunity i) in
     op_identity o1 = i \<and>
     settlements = (case op_settlement o1 of None \<Rightarrow> [] | Some s \<Rightarrow> [s]) \<and>
     list_all (\<lambda>s. settled_prediction s = i \<and> settlement_reason cs s) settlements"
proof -
  let ?r = "op_calls cs (new_opportunity i)"
  have ids: "list_all (\<lambda>s. settled_prediction s = op_identity o1) (fst (op_calls cs o1))" for cs o1
  proof (induction cs arbitrary: o1)
    case (Cons c cs)
    obtain r o2 where st: "op_call_step c o1 = (r, o2)" by force
    with Cons.IH [of o2] identity_step [of c o1] step_result [of c o1] show ?case
      by (auto split: prod.splits option.splits)
  qed simp
  have s: "fst ?r = (case op_settlement (snd ?r) of None \<Rightarrow> [] | Some s \<Rightarrow> [s])"
    by (rule op_calls_settles) (simp add: op_settlement_def new_opportunity_def)
  have "claim_ok cs (snd ?r)"
    using claim_ok_calls [of "[]" "new_opportunity i" cs] by (simp add: claim_ok_def new_opportunity_def)
  then have "list_all (settlement_reason cs) (fst ?r)"
    by (auto simp: s claim_ok_def op_settlement_def split: option.splits opportunity_state.splits)
  moreover have "op_identity (snd ?r) = i"
    by (simp add: new_opportunity_def)
  moreover have "list_all (\<lambda>s. settled_prediction s = i) (fst ?r)"
    using ids [of "new_opportunity i" cs] by (simp add: new_opportunity_def)
  ultimately show ?thesis
    using s by (auto simp: case_prod_beta list_all_iff)
qed

end
