(* ===== verification/Candidate_Execution.thy ===== *)
theory Candidate_Execution
  imports Settlement
begin

text \<open>
  The owner of one candidate's execution and reservation (\<open>src/candidate-execution.ts\<close>).  The
  state of the class is \<open>candidate\<close>: the execution value, the reservation value, the reason the
  abort controller was given, the value the completion promise was resolved with, and how often
  the \<open>released\<close> callback ran.  The lease objects that \<open>acquire\<close> hands out own a state of their own;
  they are the list \<open>leases\<close>, and a lease is named by its position.
\<close>

datatype 'o execution =
    Queued
  | Running real
  | Succeeded 'o interval real
  | Failed resolution_cause real
  | Cancelled resolution_cause real

datatype exclusive_status = Available | Reserved string | Consumed

datatype reservation = Shared "string list" | Exclusive exclusive_status

datatype lease_state = Active | Released | Adopted_lease

record lease =
  l_owner :: string
  l_exclusive :: bool
  l_state :: lease_state

record 'o candidate =
  execution :: "'o execution"
  reservation :: reservation
  aborted :: "resolution_cause option"
  completion :: "'o execution option"
  released_calls :: nat
  leases :: "lease list"

definition new_candidate :: "bool \<Rightarrow> 'o candidate" where
  "new_candidate shared =
     \<lparr>execution = Queued, reservation = (if shared then Shared [] else Exclusive Available),
      aborted = None, completion = None, released_calls = 0, leases = []\<rparr>"

fun terminal :: "'o execution \<Rightarrow> bool" where
  "terminal Queued = False"
| "terminal (Running _) = False"
| "terminal _ = True"

fun succeeded :: "'o execution \<Rightarrow> bool" where
  "succeeded (Succeeded _ _ _) = True"
| "succeeded _ = False"

fun failed_or_cancelled :: "'o execution \<Rightarrow> bool" where
  "failed_or_cancelled (Failed _ _) = True"
| "failed_or_cancelled (Cancelled _ _) = True"
| "failed_or_cancelled _ = False"

definition start :: "js_val \<Rightarrow> 'o candidate \<Rightarrow> bool \<times> 'o candidate" where
  "start started_at c = (case execution c of
     Queued \<Rightarrow> (True, c\<lparr>execution := Running (nonNegativeFinite started_at)\<rparr>)
   | _ \<Rightarrow> (False, c))"

definition finish :: "'o execution \<Rightarrow> 'o candidate \<Rightarrow> bool \<times> 'o candidate" where
  "finish settlement c =
     (if (case execution c of
            Running _ \<Rightarrow> False
          | Queued \<Rightarrow> succeeded settlement
          | _ \<Rightarrow> True)
      then (False, c)
      else (True, c\<lparr>execution := settlement, completion := Some settlement\<rparr>))"

definition succeed :: "'o \<Rightarrow> interval \<Rightarrow> js_val \<Rightarrow> 'o candidate \<Rightarrow> bool \<times> 'o candidate" where
  "succeed output toolExecution executionMs =
     finish (Succeeded output toolExecution (nonNegativeFinite executionMs))"

definition fail :: "resolution_cause \<Rightarrow> js_val \<Rightarrow> 'o candidate \<Rightarrow> bool \<times> 'o candidate" where
  "fail why executionMs = finish (Failed why (nonNegativeFinite executionMs))"

definition cancel :: "resolution_cause \<Rightarrow> js_val \<Rightarrow> 'o candidate \<Rightarrow> bool \<times> 'o candidate" where
  "cancel why executionMs c =
     (case finish (Cancelled why (nonNegativeFinite executionMs)) c of
        (True, c') \<Rightarrow> (True, c'\<lparr>aborted := (case aborted c' of None \<Rightarrow> Some why | some \<Rightarrow> some)\<rparr>)
      | (False, c') \<Rightarrow> (False, c'))"

definition acquire :: "string \<Rightarrow> 'o candidate \<Rightarrow> nat option \<times> 'o candidate" where
  "acquire owner c =
     (if failed_or_cancelled (execution c) then (None, c)
      else case reservation c of
        Shared owners \<Rightarrow>
          if owner \<in> set owners then (None, c)
          else (Some (length (leases c)),
                c\<lparr>reservation := Shared (owners @ [owner]),
                  leases := leases c @ [\<lparr>l_owner = owner, l_exclusive = False, l_state = Active\<rparr>]\<rparr>)
      | Exclusive status \<Rightarrow>
          if status \<noteq> Available then (None, c)
          else (Some (length (leases c)),
                c\<lparr>reservation := Exclusive (Reserved owner),
                  leases := leases c @ [\<lparr>l_owner = owner, l_exclusive = True, l_state = Active\<rparr>]\<rparr>))"

text \<open>\<open>settle adopt\<close> of the lease at position \<open>i\<close>; \<open>release\<close> and \<open>adopt\<close> are its two uses.\<close>

definition settle :: "bool \<Rightarrow> nat \<Rightarrow> 'o candidate \<Rightarrow> bool \<times> 'o candidate" where
  "settle adopt i c =
     (if length (leases c) \<le> i \<or> l_state (leases c ! i) \<noteq> Active then (False, c)
      else
        let lease = leases c ! i; consumed = (adopt \<and> l_exclusive lease) in
        if consumed \<and> \<not> succeeded (execution c) then (False, c)
        else (True, c\<lparr>reservation := (case reservation c of
                  Shared owners \<Rightarrow> Shared (filter (\<lambda>v. v \<noteq> l_owner lease) owners)
                | Exclusive _ \<Rightarrow> Exclusive (if consumed then Consumed else Available)),
               leases := (leases c)[i := lease\<lparr>l_state := (if consumed then Adopted_lease else Released)\<rparr>],
               released_calls := released_calls c + (if l_exclusive lease then 1 else 0)\<rparr>))"

definition release :: "nat \<Rightarrow> 'o candidate \<Rightarrow> bool \<times> 'o candidate" where
  "release = settle False"

definition adopt :: "nat \<Rightarrow> 'o candidate \<Rightarrow> bool \<times> 'o candidate" where
  "adopt = settle True"

subsection \<open>Steps and reachable candidates\<close>

inductive candidate_step :: "'o candidate \<Rightarrow> 'o candidate \<Rightarrow> bool" where
  Start: "candidate_step c (snd (start t c))"
| Succeed: "candidate_step c (snd (succeed out iv ms c))"
| Fail: "candidate_step c (snd (fail why ms c))"
| Cancel: "candidate_step c (snd (cancel why ms c))"
| Acquire: "candidate_step c (snd (acquire owner c))"
| Release: "candidate_step c (snd (release i c))"
| Adopt: "candidate_step c (snd (adopt i c))"

inductive_cases candidate_stepE: "candidate_step c c'"

inductive candidate_reachable :: "bool \<Rightarrow> 'o candidate \<Rightarrow> bool" for shared where
  New: "candidate_reachable shared (new_candidate shared)"
| Step: "candidate_reachable shared c \<Longrightarrow> candidate_step c c' \<Longrightarrow> candidate_reachable shared c'"

lemmas candidate_ops = start_def finish_def succeed_def fail_def cancel_def

subsection \<open>Execution is monotone\<close>

lemma finish_terminal: "terminal (execution c) \<Longrightarrow> finish s c = (False, c)"
  by (cases "execution c") (auto simp: finish_def)

lemma execution_acquire [simp]: "execution (snd (acquire owner c)) = execution c"
  by (auto simp: acquire_def split: reservation.splits)

lemma execution_settle [simp]: "execution (snd (settle a i c)) = execution c"
  by (auto simp: settle_def Let_def)

lemma terminal_final:
  "candidate_step c c' \<Longrightarrow> terminal (execution c) \<Longrightarrow>
     execution c' = execution c \<and> completion c' = completion c \<and> aborted c' = aborted c"
  by (induction rule: candidate_step.induct)
    (auto simp: start_def succeed_def fail_def cancel_def finish_terminal release_def adopt_def
      acquire_def settle_def Let_def split: execution.splits reservation.splits)

subsection \<open>The reservation invariant\<close>

definition active_owners :: "lease list \<Rightarrow> string list" where
  "active_owners ls = map l_owner (filter (\<lambda>l. l_state l = Active) ls)"

definition adopted_leases :: "lease list \<Rightarrow> lease list" where
  "adopted_leases ls = filter (\<lambda>l. l_state l = Adopted_lease) ls"

fun reservation_ok :: "bool \<Rightarrow> reservation \<Rightarrow> lease list \<Rightarrow> bool" where
  "reservation_ok shared (Shared owners) ls \<longleftrightarrow>
     shared \<and> distinct owners \<and> active_owners ls = owners \<and> adopted_leases ls = [] \<and>
     list_all (\<lambda>l. \<not> l_exclusive l) ls"
| "reservation_ok shared (Exclusive Available) ls \<longleftrightarrow>
     \<not> shared \<and> active_owners ls = [] \<and> adopted_leases ls = [] \<and> list_all l_exclusive ls"
| "reservation_ok shared (Exclusive (Reserved t)) ls \<longleftrightarrow>
     \<not> shared \<and> active_owners ls = [t] \<and> adopted_leases ls = [] \<and> list_all l_exclusive ls"
| "reservation_ok shared (Exclusive Consumed) ls \<longleftrightarrow>
     \<not> shared \<and> active_owners ls = [] \<and> length (adopted_leases ls) = 1 \<and> list_all l_exclusive ls"

definition candidate_inv :: "bool \<Rightarrow> 'o candidate \<Rightarrow> bool" where
  "candidate_inv shared c \<longleftrightarrow>
     reservation_ok shared (reservation c) (leases c) \<and>
     completion c = (if terminal (execution c) then Some (execution c) else None) \<and>
     (aborted c \<noteq> None \<longleftrightarrow> (\<exists>w m. execution c = Cancelled w m)) \<and>
     (reservation c = Exclusive Consumed \<longrightarrow> succeeded (execution c)) \<and>
     released_calls c = length (filter (\<lambda>l. l_exclusive l \<and> l_state l \<noteq> Active) (leases c))"

lemma split_at: "i < length ls \<Longrightarrow> ls = take i ls @ ls ! i # drop (Suc i) ls"
  by (simp add: id_take_nth_drop)

lemma active_owners_append [simp]: "active_owners (xs @ ys) = active_owners xs @ active_owners ys"
  by (simp add: active_owners_def)

lemma active_owners_Cons [simp]:
  "active_owners (l # ls) = (if l_state l = Active then [l_owner l] else []) @ active_owners ls"
  by (simp add: active_owners_def)

lemma adopted_leases_append [simp]: "adopted_leases (xs @ ys) = adopted_leases xs @ adopted_leases ys"
  by (simp add: adopted_leases_def)

lemma adopted_leases_Cons [simp]:
  "adopted_leases (l # ls) = (if l_state l = Adopted_lease then [l] else []) @ adopted_leases ls"
  by (simp add: adopted_leases_def)

lemma empty_lists [simp]: "active_owners [] = []" "adopted_leases [] = []"
  by (simp_all add: active_owners_def adopted_leases_def)

lemma update_at:
  "i < length ls \<Longrightarrow> ls[i := l] = take i ls @ l # drop (Suc i) ls"
  by (simp add: upd_conv_take_nth_drop)

lemma settle_inv:
  assumes "candidate_inv shared c"
  shows "candidate_inv shared (snd (settle a i c))"
proof (cases "i < length (leases c) \<and> l_state (leases c ! i) = Active")
  case False
  then show ?thesis using assms by (auto simp: settle_def)
next
  case True
  define us l vs where "us = take i (leases c)" and "l = leases c ! i" and "vs = drop (Suc i) (leases c)"
  have eq: "leases c = us @ l # vs" and nth: "leases c ! i = l" and act: "l_state l = Active"
    and len: "i < length (leases c)" and upd: "\<And>x. (leases c)[i := x] = us @ x # vs"
    using True by (auto simp: us_def l_def vs_def split_at [symmetric] update_at)
  have filt: "filter (\<lambda>v. v \<noteq> l_owner l) (active_owners us @ l_owner l # active_owners vs) =
      active_owners us @ active_owners vs"
    if "distinct (active_owners us @ l_owner l # active_owners vs)"
    using that by auto
  have res: "snd (settle a i c) =
      (if a \<and> l_exclusive l \<and> \<not> succeeded (execution c) then c
       else c\<lparr>reservation := (case reservation c of
                Shared owners \<Rightarrow> Shared (filter (\<lambda>v. v \<noteq> l_owner l) owners)
              | Exclusive _ \<Rightarrow> Exclusive (if a \<and> l_exclusive l then Consumed else Available)),
             leases := us @ l\<lparr>l_state := (if a \<and> l_exclusive l then Adopted_lease else Released)\<rparr> # vs,
             released_calls := released_calls c + (if l_exclusive l then 1 else 0)\<rparr>)"
    using len act by (simp add: settle_def nth upd Let_def)
  show ?thesis
  proof (cases "reservation c")
    case (Shared owners)
    with assms eq act filt show ?thesis by (auto simp: candidate_inv_def res)
  next
    case (Exclusive st)
    with assms eq act show ?thesis
      by (cases st) (auto simp: candidate_inv_def res append_eq_Cons_conv Cons_eq_append_conv)
  qed
qed

lemma acquire_inv: "candidate_inv shared c \<Longrightarrow> candidate_inv shared (snd (acquire owner c))"
  by (cases "reservation c"; cases "execution c")
    (auto simp: candidate_inv_def acquire_def split: exclusive_status.splits if_splits)

lemma finish_inv:
  assumes "candidate_inv shared c" and "terminal s" and "\<forall>w m. s \<noteq> Cancelled w m"
  shows "candidate_inv shared (snd (finish s c))"
  using assms by (cases "execution c") (auto simp: candidate_inv_def finish_def)

lemma cancel_inv: "candidate_inv shared c \<Longrightarrow> candidate_inv shared (snd (cancel why ms c))"
  by (cases "execution c") (auto simp: candidate_inv_def cancel_def finish_def split: option.splits)

lemma start_inv: "candidate_inv shared c \<Longrightarrow> candidate_inv shared (snd (start t c))"
  by (cases "execution c") (auto simp: candidate_inv_def start_def)

lemma new_inv: "candidate_inv shared (new_candidate shared)"
  by (auto simp: candidate_inv_def new_candidate_def)

lemma candidate_step_inv: "candidate_step c c' \<Longrightarrow> candidate_inv shared c \<Longrightarrow> candidate_inv shared c'"
  by (induction rule: candidate_step.induct)
    (auto simp: succeed_def fail_def release_def adopt_def
      intro: start_inv finish_inv cancel_inv acquire_inv settle_inv)

lemma candidate_reachable_inv: "candidate_reachable shared c \<Longrightarrow> candidate_inv shared c"
  by (induction rule: candidate_reachable.induct) (auto intro: new_inv candidate_step_inv)

text \<open>C4.
  A terminal execution is final: whatever happens to the candidate afterwards, its execution, the
  value its completion promise resolved with and its abort reason stay as they are; the promise has
  resolved with exactly that execution, and the controller was aborted exactly if it was cancelled.\<close>

theorem settled_execution_is_final:
  assumes "candidate_reachable shared c" and "terminal (execution c)" and "candidate_step\<^sup>*\<^sup>* c c'"
  shows "execution c' = execution c \<and> completion c' = Some (execution c) \<and>
    aborted c' = aborted c \<and> (aborted c' \<noteq> None) = (\<exists>w m. execution c = Cancelled w m)"
proof -
  have "execution c' = execution c \<and> completion c' = completion c \<and> aborted c' = aborted c"
    using assms(3)
  proof (induction rule: rtranclp_induct)
    case (step y z)
    with terminal_final [of y z] assms(2) show ?case by simp
  qed simp
  with candidate_reachable_inv [OF assms(1)] assms(2) show ?thesis
    by (simp add: candidate_inv_def)
qed

definition demo_cause :: resolution_cause where
  "demo_cause = cause ControlStage ''cancelled'' None"

theorem settled_execution_is_final_witness:
  "execution (snd (start (jnum 5) (snd (cancel demo_cause (jnum 3) (new_candidate True :: nat candidate)))))
     = Cancelled demo_cause 3"
proof -
  let ?c = "snd (cancel demo_cause (jnum 3) (new_candidate True :: nat candidate))"
  have "candidate_reachable True ?c"
    by (rule candidate_reachable.Step [OF candidate_reachable.New]) (rule candidate_step.Cancel)
  moreover have ex: "execution ?c = Cancelled demo_cause 3"
    by (simp add: new_candidate_def cancel_def finish_def nonNegativeFinite_def)
  moreover have "candidate_step\<^sup>*\<^sup>* ?c (snd (start (jnum 5) ?c))"
    by (rule r_into_rtranclp) (rule candidate_step.Start)
  ultimately show ?thesis
    using settled_execution_is_final [of True ?c "snd (start (jnum 5) ?c)"] by simp
qed

text \<open>C27.
  Reservation: of an exclusive candidate at most one lease is ever active or adopted, adoption
  requires a successful execution, and once it was consumed no lease is granted again; the owners of
  a shared candidate are, without repetition, the owners of its active leases, and none of its
  leases consumes it.\<close>

theorem reservation_discipline:
  assumes "candidate_reachable shared c"
  shows "(\<not> shared \<longrightarrow>
      length (active_owners (leases c)) + length (adopted_leases (leases c)) \<le> 1 \<and>
      (adopted_leases (leases c) \<noteq> [] \<longrightarrow>
         succeeded (execution c) \<and> (\<forall>owner. fst (acquire owner c) = None))) \<and>
    (shared \<longrightarrow> adopted_leases (leases c) = [] \<and> distinct (active_owners (leases c)) \<and>
      reservation c = Shared (active_owners (leases c)))"
  using candidate_reachable_inv [OF assms]
  by (cases "(shared, reservation c, leases c)" rule: reservation_ok.cases)
    (auto simp: candidate_inv_def acquire_def)

definition demo_leased :: "nat candidate" where
  "demo_leased = snd (acquire ''turn'' (snd (start (jnum 0) (new_candidate False))))"

definition demo_adopted :: "nat candidate" where
  "demo_adopted = snd (adopt 0 (snd (succeed 7 (timeline_interval (jnum 0) (jnum 4)) (jnum 4) demo_leased)))"

lemma demo_adopted_reachable: "candidate_reachable False demo_adopted"
  unfolding demo_adopted_def demo_leased_def
  by (rule candidate_reachable.Step [OF _ candidate_step.Adopt],
      rule candidate_reachable.Step [OF _ candidate_step.Succeed],
      rule candidate_reachable.Step [OF _ candidate_step.Acquire],
      rule candidate_reachable.Step [OF _ candidate_step.Start],
      rule candidate_reachable.New)

lemma demo_leased_simps:
  "execution demo_leased = Running (nonNegativeFinite (jnum 0))"
  "leases demo_leased = [\<lparr>l_owner = ''turn'', l_exclusive = True, l_state = Active\<rparr>]"
  by (simp_all add: demo_leased_def acquire_def start_def new_candidate_def)

theorem reservation_discipline_witness:
  "adopted_leases (leases demo_adopted) \<noteq> [] \<and> (\<forall>owner. fst (acquire owner demo_adopted) = None)"
proof -
  have "adopted_leases (leases demo_adopted) \<noteq> []"
    by (simp add: demo_adopted_def adopt_def settle_def succeed_def finish_def demo_leased_simps)
  with reservation_discipline [OF demo_adopted_reachable] show ?thesis by blast
qed

end
