(* ===== verification/Dependency_Order.thy ===== *)
theory Dependency_Order
  imports Prelude
begin

text \<open>
  The dependency-first traversal of \<open>src/dependency-order.ts\<close>.  \<open>dep_loop\<close> is its \<open>while\<close> loop: the
  pending stack (top first) of nodes to visit, \<open>(n, False)\<close>, and to finish, \<open>(n, True)\<close>; the map
  \<open>states\<close> (\<open>Some False\<close>: on the current path, \<open>Some True\<close>: finished); the order built so far.  A
  vertex that does not exist is \<open>None\<close>.  The outer result is \<open>None\<close> when the loop does not end; the
  inner one is \<open>None\<close> where the source returns \<open>undefined\<close>.

  The lemmas show that the loop ends on every finite graph, that a returned order is complete,
  repetition-free and dependency-first, and that \<open>undefined\<close> is returned only for a graph in which
  a missing vertex or a cycle is reachable.
\<close>

partial_function (option) dep_loop ::
  "('n \<Rightarrow> 'n option list) \<Rightarrow> 'n list \<Rightarrow> ('n option \<times> bool) list \<Rightarrow> ('n \<Rightarrow> bool option) \<Rightarrow> 'n list
     \<Rightarrow> 'n list option option" where
  "dep_loop deps roots pending states ordered =
     (case pending of
        [] \<Rightarrow> (case roots of
                [] \<Rightarrow> Some (Some ordered)
              | r # rs \<Rightarrow> dep_loop deps rs [(Some r, False)] states ordered)
      | (node, finished) # rest \<Rightarrow> (case node of
          None \<Rightarrow> Some None
        | Some n \<Rightarrow>
            if finished then dep_loop deps roots rest (states(n \<mapsto> True)) (ordered @ [n])
            else (case states n of
                Some done_already \<Rightarrow>
                  if done_already then dep_loop deps roots rest states ordered else Some None
              | None \<Rightarrow> dep_loop deps roots (map (\<lambda>d. (d, False)) (deps n) @ (Some n, True) # rest)
                         (states(n \<mapsto> False)) ordered)))"

declare dep_loop.simps [code]

definition dependencyOrder :: "'n list \<Rightarrow> ('n \<Rightarrow> 'n option list) \<Rightarrow> 'n list option" where
  "dependencyOrder roots deps = (case dep_loop deps roots [] (\<lambda>_. None) [] of
     Some result \<Rightarrow> result | None \<Rightarrow> None)"

subsection \<open>Graphs\<close>

definition edge :: "('n \<Rightarrow> 'n option list) \<Rightarrow> 'n \<Rightarrow> 'n \<Rightarrow> bool" where
  "edge deps n d \<longleftrightarrow> Some d \<in> set (deps n)"

definition reached :: "('n \<Rightarrow> 'n option list) \<Rightarrow> 'n list \<Rightarrow> 'n \<Rightarrow> bool" where
  "reached deps roots n \<longleftrightarrow> (\<exists>r \<in> set roots. (edge deps)\<^sup>*\<^sup>* r n)"

definition topological :: "('n \<Rightarrow> 'n option list) \<Rightarrow> 'n list \<Rightarrow> bool" where
  "topological deps ord \<longleftrightarrow>
     (\<forall>i < length ord. \<forall>d \<in> set (deps (ord ! i)). \<exists>j < i. d = Some (ord ! j))"

definition closed_under :: "('n \<Rightarrow> 'n option list) \<Rightarrow> 'n set \<Rightarrow> bool" where
  "closed_under deps U \<longleftrightarrow> (\<forall>n \<in> U. \<forall>d. Some d \<in> set (deps n) \<longrightarrow> d \<in> U)"

text \<open>The defect for which the traversal gives up.\<close>

definition defective :: "('n \<Rightarrow> 'n option list) \<Rightarrow> 'n list \<Rightarrow> bool" where
  "defective deps roots \<longleftrightarrow>
     (\<exists>n. reached deps roots n \<and> (None \<in> set (deps n) \<or> (edge deps)\<^sup>+\<^sup>+ n n))"

subsection \<open>The loop invariant\<close>

text \<open>
  \<open>path_ok\<close>: every open node reaches whatever lies above it on the stack.  \<open>deps_ok\<close>: the
  dependencies of an open node are finished or lie above it.
\<close>

fun path_ok :: "('n \<Rightarrow> 'n option list) \<Rightarrow> ('n option \<times> bool) list \<Rightarrow> bool" where
  "path_ok deps [] = True"
| "path_ok deps ((x, b) # ps) \<longleftrightarrow> path_ok deps ps \<and>
     (\<forall>m. (Some m, True) \<in> set ps \<longrightarrow>
        (case x of None \<Rightarrow> \<exists>k. (edge deps)\<^sup>*\<^sup>* m k \<and> None \<in> set (deps k)
         | Some n \<Rightarrow> (edge deps)\<^sup>+\<^sup>+ m n))"

fun deps_ok :: "('n \<Rightarrow> 'n option list) \<Rightarrow> 'n option set \<Rightarrow> ('n option \<times> bool) list \<Rightarrow> bool" where
  "deps_ok deps A [] = True"
| "deps_ok deps A ((x, b) # ps) \<longleftrightarrow>
     (b \<longrightarrow> (\<forall>n. x = Some n \<longrightarrow> set (deps n) \<subseteq> A)) \<and> deps_ok deps (insert x A) ps"

fun origin :: "('n \<Rightarrow> 'n option list) \<Rightarrow> 'n list \<Rightarrow> 'n option \<Rightarrow> bool" where
  "origin deps all_roots None \<longleftrightarrow> (\<exists>k. reached deps all_roots k \<and> None \<in> set (deps k))"
| "origin deps all_roots (Some n) \<longleftrightarrow> reached deps all_roots n"

definition from_roots :: "('n \<Rightarrow> 'n option list) \<Rightarrow> 'n list \<Rightarrow> ('n option \<times> bool) list \<Rightarrow> bool" where
  "from_roots deps all_roots pending \<longleftrightarrow> (\<forall>e \<in> set pending. origin deps all_roots (fst e))"

definition dep_inv where
  "dep_inv deps all_roots roots pending states ordered \<longleftrightarrow>
     distinct ordered \<and> topological deps ordered \<and>
     (\<forall>n. states n = Some True \<longleftrightarrow> n \<in> set ordered) \<and>
     (\<forall>n. states n = Some False \<longleftrightarrow> (Some n, True) \<in> set pending) \<and>
     distinct (filter snd pending) \<and> (\<forall>b. (None, b) \<in> set pending \<longrightarrow> \<not> b) \<and>
     path_ok deps pending \<and> deps_ok deps (Some ` set ordered) pending \<and>
     from_roots deps all_roots pending \<and>
     (\<forall>n \<in> set ordered. reached deps all_roots n) \<and> set roots \<subseteq> set all_roots \<and>
     (\<forall>r \<in> set all_roots. r \<in> set roots \<or> r \<in> set ordered \<or> Some r \<in> fst ` set pending)"

lemma reached_step: "reached deps roots n \<Longrightarrow> Some d \<in> set (deps n) \<Longrightarrow> reached deps roots d"
  unfolding reached_def edge_def [symmetric] by (meson rtranclp.rtrancl_into_rtrancl)

lemma deps_ok_mono: "deps_ok deps A ps \<Longrightarrow> A \<subseteq> B \<Longrightarrow> deps_ok deps B ps"
proof (induction deps A ps arbitrary: B rule: deps_ok.induct)
  case (2 deps A x b ps)
  then have "deps_ok deps (insert x B) ps" by (meson deps_ok.simps(2) insert_mono)
  with 2 show ?case by auto
qed simp

lemma deps_ok_unvisited:
  "deps_ok deps A (map (\<lambda>d. (d, False)) ds @ ps) \<longleftrightarrow> deps_ok deps (set ds \<union> A) ps"
  by (induction ds arbitrary: A) (auto simp: insert_commute Un_commute)

lemma path_ok_unvisited:
  assumes "path_ok deps ((Some n, True) # ps)" and "set ds \<subseteq> set (deps n)"
  shows "path_ok deps (map (\<lambda>d. (d, False)) ds @ (Some n, True) # ps)"
  using assms(2)
proof (induction ds)
  case (Cons d ds)
  have "case d of None \<Rightarrow> \<exists>k. (edge deps)\<^sup>*\<^sup>* m k \<and> None \<in> set (deps k) | Some e \<Rightarrow> (edge deps)\<^sup>+\<^sup>+ m e"
    if "(Some m, True) \<in> set ((Some n, True) # ps)" for m
  proof -
    have star: "(edge deps)\<^sup>*\<^sup>* m n"
      using that assms(1) by (auto dest: tranclp_into_rtranclp)
    show ?thesis
    proof (cases d)
      case None
      with Cons.prems star show ?thesis by auto
    next
      case (Some e)
      with Cons.prems have "edge deps n e" by (simp add: edge_def)
      with Some star show ?thesis by auto
    qed
  qed
  with Cons show ?case by (auto split: option.splits)
qed (use assms(1) in simp)

lemma topological_snoc:
  assumes "topological deps ord" and "\<forall>d \<in> set (deps n). \<exists>m \<in> set ord. d = Some m"
  shows "topological deps (ord @ [n])"
  unfolding topological_def
proof (intro allI impI ballI)
  fix i d assume i: "i < length (ord @ [n])" and d: "d \<in> set (deps ((ord @ [n]) ! i))"
  show "\<exists>j<i. d = Some ((ord @ [n]) ! j)"
  proof (cases "i < length ord")
    case True
    with d assms(1) obtain j where "j < i" "d = Some (ord ! j)"
      by (auto simp: topological_def nth_append)
    with True show ?thesis by (intro exI [of _ j]) (simp add: nth_append)
  next
    case False
    with i have "i = length ord" by simp
    with d assms(2) obtain m where "m \<in> set ord" "d = Some m" by auto
    then show ?thesis using \<open>i = length ord\<close> by (auto simp: in_set_conv_nth nth_append)
  qed
qed

lemma topological_distinct_acyclic:
  assumes "topological deps ord" and "edge deps (ord ! i) d" and "i < length ord"
  shows "\<exists>j < i. d = ord ! j"
  using assms by (fastforce simp: topological_def edge_def)

subsection \<open>Every step keeps the invariant\<close>

lemma inv_root:
  assumes "dep_inv deps all (r # rs) [] states ord"
  shows "dep_inv deps all rs [(Some r, False)] states ord"
  using assms by (auto simp: dep_inv_def from_roots_def reached_def)

lemma inv_finish:
  assumes "dep_inv deps all roots ((Some n, True) # ps) states ord"
  shows "dep_inv deps all roots ps (states(n \<mapsto> True)) (ord @ [n])"
proof -
  have st: "states n = Some False" and top: "topological deps ord"
    and sub: "set (deps n) \<subseteq> Some ` set ord"
    using assms by (auto simp: dep_inv_def)
  have "states n = Some True \<longleftrightarrow> n \<in> set ord" using assms by (simp add: dep_inv_def)
  with st have new: "n \<notin> set ord" by simp
  from sub have topo: "topological deps (ord @ [n])"
    by (intro topological_snoc [OF top]) auto
  show ?thesis
    using assms new topo by (auto simp: dep_inv_def from_roots_def)
qed

lemma inv_skip:
  assumes "dep_inv deps all roots ((Some n, False) # ps) states ord" and "states n = Some True"
  shows "dep_inv deps all roots ps states ord"
proof -
  have n: "n \<in> set ord" using assms by (auto simp: dep_inv_def)
  then have ins: "insert (Some n) (Some ` set ord) = Some ` set ord" by auto
  show ?thesis
    using assms n by (auto simp: dep_inv_def from_roots_def ins)
qed

lemma inv_expand:
  assumes "dep_inv deps all roots ((Some n, False) # ps) states ord" and "states n = None"
  shows "dep_inv deps all roots (map (\<lambda>d. (d, False)) (deps n) @ (Some n, True) # ps)
    (states(n \<mapsto> False)) ord"
proof -
  have "states n = Some True \<longleftrightarrow> n \<in> set ord"
    and "states n = Some False \<longleftrightarrow> (Some n, True) \<in> set ((Some n, False) # ps)"
    using assms(1) unfolding dep_inv_def by blast+
  with assms(2) have new: "n \<notin> set ord" "(Some n, True) \<notin> set ps" by auto
  have path: "path_ok deps (map (\<lambda>d. (d, False)) (deps n) @ (Some n, True) # ps)"
    by (rule path_ok_unvisited) (use assms(1) in \<open>auto simp: dep_inv_def\<close>)
  have dok: "deps_ok deps (Some ` set ord) (map (\<lambda>d. (d, False)) (deps n) @ (Some n, True) # ps)"
    using assms(1) by (auto simp: dep_inv_def deps_ok_unvisited elim: deps_ok_mono)
  have reach: "reached deps all n" using assms(1) by (auto simp: dep_inv_def from_roots_def)
  have "origin deps all d" if "d \<in> set (deps n)" for d
    using that reach reached_step [OF reach] by (metis origin.simps option.exhaust)
  then have fr: "from_roots deps all (map (\<lambda>d. (d, False)) (deps n) @ (Some n, True) # ps)"
    using assms(1) by (auto simp: dep_inv_def from_roots_def)
  have flt: "filter snd (map (\<lambda>d. (d, False)) (deps n)) = []"
    by (auto simp: filter_empty_conv)
  note I = assms(1) [unfolded dep_inv_def]
  have active: "\<forall>m. (states(n \<mapsto> False)) m = Some False \<longleftrightarrow>
      (Some m, True) \<in> set (map (\<lambda>d. (d, False)) (deps n) @ (Some n, True) # ps)"
    using I by auto
  have opened: "distinct (filter snd (map (\<lambda>d. (d, False)) (deps n) @ (Some n, True) # ps))"
    using I new(2) by (simp add: flt)
  have roots: "\<forall>r \<in> set all. r \<in> set roots \<or> r \<in> set ord \<or>
      Some r \<in> fst ` set (map (\<lambda>d. (d, False)) (deps n) @ (Some n, True) # ps)"
    using I by auto
  show ?thesis
    unfolding dep_inv_def using I active opened roots path dok fr new(1) by auto
qed

lemma inv_start: "dep_inv deps roots roots [] (\<lambda>_. None) []"
  by (auto simp: dep_inv_def topological_def from_roots_def)

text \<open>The two places where the loop gives up show a defect of the graph.\<close>

lemma missing_is_defect:
  assumes "dep_inv deps all roots ((None, b) # ps) states ord"
  shows "defective deps all"
  using assms by (auto simp: dep_inv_def from_roots_def defective_def)

lemma cycle_is_defect:
  assumes "dep_inv deps all roots ((Some n, False) # ps) states ord" and "states n = Some False"
  shows "defective deps all"
proof -
  have "states n = Some False \<longleftrightarrow> (Some n, True) \<in> set ((Some n, False) # ps)"
    using assms(1) unfolding dep_inv_def by blast
  with assms(2) have "(Some n, True) \<in> set ps" by simp
  with assms(1) have "(edge deps)\<^sup>+\<^sup>+ n n" by (auto simp: dep_inv_def)
  moreover have "reached deps all n" using assms(1) by (auto simp: dep_inv_def from_roots_def)
  ultimately show ?thesis by (auto simp: defective_def)
qed

subsection \<open>The loop ends on finite graphs\<close>

definition unvisited :: "'n set \<Rightarrow> ('n \<Rightarrow> bool option) \<Rightarrow> nat" where
  "unvisited U states = card {n \<in> U. states n = None}"

lemma unvisited_visit:
  assumes "finite U" and "n \<in> U" and "states n = None"
  shows "unvisited U (states(n \<mapsto> False)) < unvisited U states"
proof -
  have "{m \<in> U. (states(n \<mapsto> False)) m = None} \<subset> {m \<in> U. states m = None}"
    using assms by auto
  then show ?thesis
    unfolding unvisited_def using assms(1) by (intro psubset_card_mono) auto
qed

lemma unvisited_finish: "states n \<noteq> None \<Longrightarrow> unvisited U (states(n \<mapsto> True)) = unvisited U states"
  unfolding unvisited_def by (rule arg_cong [where f = card]) auto

text \<open>The result of a run that satisfies the invariant, by cases.\<close>

definition good_outcome where
  "good_outcome deps all_roots result \<longleftrightarrow> (case result of
     None \<Rightarrow> defective deps all_roots
   | Some ord \<Rightarrow> distinct ord \<and> topological deps ord \<and> set ord = {n. reached deps all_roots n})"

lemma topological_closed:
  assumes "topological deps ord" and "n \<in> set ord" and "(edge deps)\<^sup>*\<^sup>* n m"
  shows "m \<in> set ord"
  using assms(3,2)
proof (induction rule: rtranclp_induct)
  case (step y z)
  then obtain i where "y = ord ! i" "i < length ord" by (auto simp: in_set_conv_nth)
  with step topological_distinct_acyclic [OF assms(1)] show ?case by fastforce
qed

lemma finished_outcome:
  assumes "dep_inv deps all [] [] states ord"
  shows "good_outcome deps all (Some ord)"
proof -
  have "distinct ord" "topological deps ord" "\<forall>n \<in> set ord. reached deps all n" "set all \<subseteq> set ord"
    using assms by (auto simp: dep_inv_def)
  moreover have "n \<in> set ord" if "reached deps all n" for n
    using that calculation topological_closed [of deps ord _ n] by (auto simp: reached_def)
  ultimately show ?thesis by (auto simp: good_outcome_def)
qed

lemma dep_loop_total:
  assumes "finite U" and "closed_under deps U" and "set all \<subseteq> U"
    and "dep_inv deps all roots pending states ord" and "Some -` fst ` set pending \<subseteq> U"
  shows "\<exists>result. dep_loop deps roots pending states ord = Some result \<and> good_outcome deps all result"
  using assms(4,5)
proof (induction "(unvisited U states, length roots, length pending)" arbitrary: roots pending states ord
    rule: wf_induct_rule [OF wf_lex_prod [OF wf_less_than wf_lex_prod [OF wf_less_than wf_less_than]]])
  case 1
  note IH = "1.hyps" and inv = "1.prems"(1) and sub = "1.prems"(2)
  show ?case
  proof (cases pending)
    case Nil
    show ?thesis
    proof (cases roots)
      case Nil
      with \<open>pending = []\<close> inv show ?thesis
        by (subst dep_loop.simps) (auto simp: finished_outcome)
    next
      case (Cons r rs)
      have "r \<in> U" using inv assms(3) Cons by (auto simp: dep_inv_def)
      with IH [of states rs "[(Some r, False)]" ord] inv_root [of deps all r rs states ord]
        inv Cons \<open>pending = []\<close> show ?thesis
        by (subst dep_loop.simps) auto
    qed
  next
    case (Cons p ps)
    obtain x b where p: "p = (x, b)" by (cases p)
    show ?thesis
    proof (cases x)
      case None
      with Cons p inv missing_is_defect [of deps all roots b ps states ord] show ?thesis
        by (subst dep_loop.simps) (auto simp: good_outcome_def)
    next
      case (Some n)
      have nU: "n \<in> U" using sub Cons p Some by auto
      show ?thesis
      proof (cases b)
        case True
        have "states n \<noteq> None" using inv Cons p Some True by (auto simp: dep_inv_def)
        with IH [of "states(n \<mapsto> True)" roots ps "ord @ [n]"] inv_finish [of deps all roots n ps states ord]
          inv sub Cons p Some True show ?thesis
          by (subst dep_loop.simps) (auto simp: unvisited_finish)
      next
        case False
        show ?thesis
        proof (cases "states n")
          case None
          let ?push = "map (\<lambda>d. (d, False)) (deps n) @ (Some n, True) # ps"
          have "Some -` fst ` set ?push \<subseteq> U"
            using sub nU assms(2) Cons by (auto simp: closed_under_def)
          with IH [of "states(n \<mapsto> False)" roots ?push ord] inv_expand [of deps all roots n ps states ord]
            unvisited_visit [of U n states, OF assms(1) nU None] inv Cons p Some False None show ?thesis
            by (subst dep_loop.simps) auto
        next
          case st: (Some fin)
          show ?thesis
          proof (cases fin)
            case True
            with IH [of states roots ps ord] inv_skip [of deps all roots n ps states ord]
              inv sub Cons p Some False st show ?thesis
              by (subst dep_loop.simps) auto
          next
            case fin: False
            with inv Cons p Some False st cycle_is_defect [of deps all roots n ps states ord] show ?thesis
              by (subst dep_loop.simps) (auto simp: good_outcome_def)
          qed
        qed
      qed
    qed
  qed
qed

subsection \<open>The contract\<close>

lemma topological_prefix:
  assumes "topological deps (us @ n # vs)" and "d \<in> set (deps n)"
  shows "\<exists>m \<in> set us. d = Some m"
proof -
  have "length us < length (us @ n # vs)" and "d \<in> set (deps ((us @ n # vs) ! length us))"
    using assms(2) by auto
  then have "\<exists>j < length us. d = Some ((us @ n # vs) ! j)"
    using assms(1) unfolding topological_def by blast
  then show ?thesis by (auto simp: nth_append)
qed

lemma topological_no_cycle:
  assumes "topological deps ord" and "i < length ord" and "(edge deps)\<^sup>+\<^sup>+ (ord ! i) m"
  shows "\<exists>j < i. m = ord ! j"
  using assms(3)
proof (induction rule: tranclp_induct)
  case (base y)
  then show ?case using topological_distinct_acyclic [OF assms(1)] assms(2) by blast
next
  case (step y z)
  then obtain j where "j < i" "y = ord ! j" by blast
  with step topological_distinct_acyclic [OF assms(1), of j z] assms(2) show ?case
    by (meson less_trans)
qed

lemma good_order_no_defect:
  assumes "good_outcome deps roots (Some ord)"
  shows "\<not> defective deps roots"
proof
  assume "defective deps roots"
  then obtain n where r: "reached deps roots n"
    and bad: "None \<in> set (deps n) \<or> (edge deps)\<^sup>+\<^sup>+ n n"
    by (auto simp: defective_def)
  have top: "topological deps ord" and dist: "distinct ord" and "n \<in> set ord"
    using assms r by (auto simp: good_outcome_def)
  then obtain i where i: "i < length ord" "ord ! i = n" by (auto simp: in_set_conv_nth)
  from bad show False
  proof
    assume "None \<in> set (deps n)"
    with top i show False by (fastforce simp: topological_def)
  next
    assume "(edge deps)\<^sup>+\<^sup>+ n n"
    then obtain j where "j < i" "n = ord ! j"
      using topological_no_cycle [OF top i(1)] i(2) by auto
    with dist i show False by (auto simp: nth_eq_iff_index_eq)
  qed
qed

locale dependency_ordering =
  fixes order :: "'n list \<Rightarrow> ('n \<Rightarrow> 'n option list) \<Rightarrow> 'n list option"
  assumes order_good:
    "finite U \<Longrightarrow> closed_under deps U \<Longrightarrow> set roots \<subseteq> U \<Longrightarrow> good_outcome deps roots (order roots deps)"
begin

lemma order_SomeD:
  assumes "finite U" "closed_under deps U" "set roots \<subseteq> U" "order roots deps = Some ord"
  shows "distinct ord" "topological deps ord" "set ord = {n. reached deps roots n}"
  using order_good [OF assms(1-3)] assms(4) by (auto simp: good_outcome_def)

lemma order_exists_iff:
  assumes "finite U" "closed_under deps U" "set roots \<subseteq> U"
  shows "(\<exists>ord. order roots deps = Some ord) \<longleftrightarrow> \<not> defective deps roots"
proof (cases "order roots deps")
  case None
  with order_good [OF assms] show ?thesis by (simp add: good_outcome_def)
next
  case (Some ord)
  with order_good [OF assms] good_order_no_defect [of deps roots ord] show ?thesis by simp
qed

lemma order_dependencies_first:
  assumes "finite U" "closed_under deps U" "set roots \<subseteq> U" "order roots deps = Some (us @ n # vs)"
  shows "set (deps n) \<subseteq> Some ` set us"
  using topological_prefix [OF order_SomeD(2) [OF assms]] by blast

lemma order_roots:
  assumes "finite U" "closed_under deps U" "set roots \<subseteq> U" "order roots deps = Some ord"
  shows "set roots \<subseteq> set ord"
  using order_SomeD(3) [OF assms] by (auto simp: reached_def)

end

lemma dep_loop_returns:
  assumes "finite U" and "closed_under deps U" and "set roots \<subseteq> U"
  shows "dep_loop deps roots [] (\<lambda>_. None) [] = Some (dependencyOrder roots deps) \<and>
    good_outcome deps roots (dependencyOrder roots deps)"
  using dep_loop_total [OF assms inv_start] by (auto simp: dependencyOrder_def)

interpretation dord: dependency_ordering dependencyOrder
  by unfold_locales (use dep_loop_returns in blast)

text \<open>C35.
  On every finite dependency graph the traversal ends.  It returns an order exactly when no missing
  vertex and no cycle is reachable from the roots; the order then holds every reachable node once,
  each after all its dependencies.\<close>

theorem dependencyOrder_correct:
  assumes "finite U" and "closed_under deps U" and "set roots \<subseteq> U"
  shows "dep_loop deps roots [] (\<lambda>_. None) [] = Some (dependencyOrder roots deps)
      \<and> (dependencyOrder roots deps = None) = defective deps roots
      \<and> (\<forall>ord. dependencyOrder roots deps = Some ord \<longrightarrow>
            distinct ord \<and> set ord = {n. reached deps roots n} \<and>
            (\<forall>us n vs. ord = us @ n # vs \<longrightarrow> set (deps n) \<subseteq> Some ` set us))"
proof (intro conjI allI impI)
  show "dep_loop deps roots [] (\<lambda>_. None) [] = Some (dependencyOrder roots deps)"
    using dep_loop_returns [OF assms] by blast
  show "(dependencyOrder roots deps = None) = defective deps roots"
    using dord.order_exists_iff [OF assms] by auto
qed (use dord.order_SomeD [OF assms] dord.order_dependencies_first [OF assms] in blast)+

definition diamond :: "nat \<Rightarrow> nat option list" where
  "diamond n = (if n = 0 then [Some 1, Some 2] else if n = 1 \<or> n = 2 then [Some 3] else [])"

theorem dependencyOrder_correct_witness:
  "dependencyOrder [0] diamond = Some [3, 1, 2, 0]
   \<and> (dependencyOrder [0] diamond = None) = defective diamond [0]"
proof -
  have "finite {0..3 :: nat}" "closed_under diamond {0..3}" "set [0] \<subseteq> {0..3 :: nat}"
    by (auto simp: closed_under_def diamond_def split: if_splits)
  from dependencyOrder_correct [OF this] show ?thesis
    by (simp add: dependencyOrder_def dep_loop.simps diamond_def)
qed

end
