(* ===== verification/Plan_Runtime.thy ===== *)
theory Plan_Runtime
  imports Prediction_Opportunity Candidate_Execution Dependency_Order
begin

text \<open>
  \<open>PlanRuntime\<close> of \<open>src/plan-runtime.ts\<close>: materialized plans, their dependency graphs and the
  execution state of their nodes.

  Shared mutable objects are addressed explicitly.  A node lives in exactly one plan, so it is named
  by its location, the pair of proposal id and action id.  An opportunity survives its node (a claim
  keeps it), so opportunities have handles into the store \<open>rt_opps\<close>; plan graphs are shared by
  their plans and have handles into \<open>rt_graphs\<close>.  An attached execution is the handle of a
  \<open>CandidateExecution\<close> that the runtime only reads: \<open>env\<close> gives its current execution.  The handler
  that \<open>attachExecution\<close> leaves on the completion promise is the operation \<open>on_completion\<close>.
\<close>

subsection \<open>State\<close>

datatype plan_execution =
    PDeferred | PPreparing | PScheduled
  | PBlocked resolution_cause
  | PRejected resolution_cause
  | PQueued string | PRunning string | PSucceeded string
  | PFailed resolution_cause string
  | PCancelled resolution_cause string

datatype node_execution = Own plan_execution | Attached nat string nat

datatype readiness = Ready | Waiting | Blocked

datatype node_readiness = NReady | NWaiting | NBlocked | NSettled

type_synonym location = "string \<times> string"

type_synonym 'u env = "nat \<Rightarrow> 'u execution"

record 'k node =
  n_identity :: plan_action_identity
  n_action :: plan_action
  n_actionKey :: "'k option"
  n_anchor :: nat
  n_earliest :: nat
  n_expected :: nat
  n_latest :: nat
  n_critical :: nat
  n_valid :: bool
  n_execution :: node_execution
  n_opportunity :: nat
  n_observation :: "string option"

record 'k plan =
  p_source :: string
  p_revision :: nat
  p_nextRevision :: nat
  p_nodes :: "(string, 'k node) jsmap"
  p_graph :: nat

record graph =
  g_plans :: "string list"
  g_ordered :: "location list"

record 'k runtime =
  rt_plans :: "(string, 'k plan) jsmap"
  rt_graphs :: "nat \<Rightarrow> graph"
  rt_opps :: "nat \<Rightarrow> opportunity"
  rt_next :: nat

definition new_runtime :: "'k runtime" where
  "new_runtime = \<lparr>rt_plans = [], rt_graphs = (\<lambda>_. \<lparr>g_plans = [], g_ordered = []\<rparr>),
     rt_opps = (\<lambda>_. new_opportunity \<lparr>pi_operation = False, pi_id = [], pi_source = [], pi_proposal = [], pi_action = []\<rparr>),
     rt_next = 0\<rparr>"

definition plan_nodes :: "'k runtime \<Rightarrow> string \<Rightarrow> (string, 'k node) jsmap" where
  "plan_nodes rt p = (case map_of (rt_plans rt) p of Some pl \<Rightarrow> p_nodes pl | None \<Rightarrow> [])"

definition node_at :: "'k runtime \<Rightarrow> location \<Rightarrow> 'k node option" where
  "node_at rt loc = map_of (plan_nodes rt (fst loc)) (snd loc)"

definition set_node :: "location \<Rightarrow> 'k node \<Rightarrow> 'k runtime \<Rightarrow> 'k runtime" where
  "set_node loc n rt = (case map_of (rt_plans rt) (fst loc) of
     None \<Rightarrow> rt
   | Some pl \<Rightarrow> rt\<lparr>rt_plans := ms_set (fst loc) (pl\<lparr>p_nodes := ms_set (snd loc) n (p_nodes pl)\<rparr>) (rt_plans rt)\<rparr>)"

definition all_locations :: "'k runtime \<Rightarrow> location list" where
  "all_locations rt = concat (map (\<lambda>(p, pl). map (\<lambda>a. (p, a)) (ms_keys (p_nodes pl))) (rt_plans rt))"

text \<open>\<open>node_identity_text\<close> is \<open>JSON.stringify([source, proposalID, action.id, revision])\<close>.\<close>

definition node_identity_text :: "string \<Rightarrow> string \<Rightarrow> string \<Rightarrow> nat \<Rightarrow> string" where
  "node_identity_text source proposal action revision =
     ''['' @ join_with '','' [json_string source, json_string proposal, json_string action, nat_text revision] @ '']''"

definition new_node :: "string \<Rightarrow> string \<Rightarrow> nat \<Rightarrow> plan_action \<Rightarrow> nat \<Rightarrow> nat \<Rightarrow> 'k node" where
  "new_node proposal source revision action anchor handle =
     \<lparr>n_identity = \<lparr>pi_operation = is_operation action,
        pi_id = node_identity_text source proposal (pa_id action) revision,
        pi_source = source, pi_proposal = proposal, pi_action = pa_id action\<rparr>,
      n_action = action, n_actionKey = None, n_anchor = anchor, n_earliest = anchor + 1,
      n_expected = anchor + horizon action + 1, n_latest = anchor + latestHorizon action + 1,
      n_critical = 1, n_valid = True, n_execution = Own PDeferred, n_opportunity = handle,
      n_observation = None\<rparr>"

definition node_opportunity :: "'k runtime \<Rightarrow> 'k node \<Rightarrow> opportunity" where
  "node_opportunity rt n = rt_opps rt (n_opportunity n)"

definition node_settlement :: "'k runtime \<Rightarrow> 'k node \<Rightarrow> prediction_settlement option" where
  "node_settlement rt n = op_settlement (node_opportunity rt n)"

definition is_settled :: "'k runtime \<Rightarrow> 'k node \<Rightarrow> bool" where
  "is_settled rt n \<longleftrightarrow> node_settlement rt n \<noteq> None"

definition is_pending :: "'k runtime \<Rightarrow> 'k node \<Rightarrow> bool" where
  "is_pending rt n \<longleftrightarrow> op_state (node_opportunity rt n) = Pending"

subsection \<open>Execution projections\<close>

fun projectExecution :: "'u execution \<Rightarrow> string \<Rightarrow> plan_execution" where
  "projectExecution Queued c = PQueued c"
| "projectExecution (Running _) c = PRunning c"
| "projectExecution (Succeeded _ _ _) c = PSucceeded c"
| "projectExecution (Failed why _) c = PFailed why c"
| "projectExecution (Cancelled why _) c = PCancelled why c"

fun executionProjection :: "'u env \<Rightarrow> node_execution \<Rightarrow> plan_execution" where
  "executionProjection env (Own e) = e"
| "executionProjection env (Attached _ c w) = projectExecution (env w) c"

fun executionSettled :: "plan_execution \<Rightarrow> bool" where
  "executionSettled (PSucceeded _) = True"
| "executionSettled (PRejected _) = True"
| "executionSettled (PFailed _ _) = True"
| "executionSettled (PCancelled _ _) = True"
| "executionSettled _ = False"

fun executionSucceeded :: "plan_execution \<Rightarrow> bool" where
  "executionSucceeded (PSucceeded _) = True"
| "executionSucceeded _ = False"

fun execution_candidate :: "node_execution \<Rightarrow> string option" where
  "execution_candidate (Attached _ c _) = Some c"
| "execution_candidate (Own (PQueued c)) = Some c"
| "execution_candidate (Own (PRunning c)) = Some c"
| "execution_candidate (Own (PSucceeded c)) = Some c"
| "execution_candidate (Own (PFailed _ c)) = Some c"
| "execution_candidate (Own (PCancelled _ c)) = Some c"
| "execution_candidate _ = None"

subsection \<open>Dependencies\<close>

text \<open>A proposal id or identity of a captured dependency is a token, so it is never the empty string.\<close>

definition cross_plan :: "dependency \<Rightarrow> bool" where
  "cross_plan d \<longleftrightarrow> (case dep_proposal d of Some p \<Rightarrow> p \<noteq> [] | None \<Rightarrow> False)"

definition parent_location :: "string \<Rightarrow> dependency \<Rightarrow> location" where
  "parent_location p d = ((case dep_proposal d of Some q \<Rightarrow> q | None \<Rightarrow> p), dep_action d)"

definition parent :: "'k runtime \<Rightarrow> string \<Rightarrow> dependency \<Rightarrow> location option" where
  "parent rt p d = (case node_at rt (parent_location p d) of
     None \<Rightarrow> None
   | Some n \<Rightarrow>
       if \<not> cross_plan d \<or> dep_identity d = Some (pi_id (n_identity n)) then Some (parent_location p d) else None)"

definition dependency_state :: "'u env \<Rightarrow> 'k runtime \<Rightarrow> 'k node \<Rightarrow> dependency \<Rightarrow> bool \<Rightarrow> readiness" where
  "dependency_state env rt n d matching =
     (let settlement = node_settlement rt n in
      if dep_condition d = Some ''prediction'' then
        if settlement \<noteq> None \<and> predictionMatched settlement = None \<or>
           n_observation n \<noteq> None \<and> n_observation n \<noteq> dep_observation d then Blocked
        else if matching \<and> (settlement = None \<or> n_observation n = None) then Waiting else Ready
      else if dep_condition d = Some ''actor_adopted'' then
        (case settlement of
           None \<Rightarrow> Waiting
         | Some s \<Rightarrow> if l_adopted (predictionLearning s None) = Some True then Ready else Blocked)
      else
        let e = executionProjection env (n_execution n) in
        if \<not> executionSettled e then Waiting
        else if dep_condition d = Some ''execution_succeeded'' \<and> \<not> executionSucceeded e then Blocked
        else Ready)"

definition parent_state ::
  "'u env \<Rightarrow> 'k runtime \<Rightarrow> string \<Rightarrow> bool \<Rightarrow> dependency \<Rightarrow> readiness" where
  "parent_state env rt p matching d = (case parent rt p d of
     None \<Rightarrow> Blocked
   | Some loc \<Rightarrow> (case node_at rt loc of
       None \<Rightarrow> Blocked | Some n \<Rightarrow> dependency_state env rt n d matching))"

definition data_dependencies :: "'k node \<Rightarrow> dependency list" where
  "data_dependencies n = filter (\<lambda>d. dep_condition d \<noteq> Some ''resource'') (deps_of (n_action n))"

text \<open>
  The work list of \<open>dependencyReadiness\<close>: \<open>pending\<close> is the stack with its top first.  A blocked
  dependency returns at once, so the order within one node does not matter to the result.
\<close>

partial_function (option) readiness_loop ::
  "'u env \<Rightarrow> 'k runtime \<Rightarrow> location \<Rightarrow> bool \<Rightarrow> location list \<Rightarrow> location list \<Rightarrow> readiness \<Rightarrow> readiness option"
where
  "readiness_loop env rt home matching pending visited acc =
     (case pending of
        [] \<Rightarrow> Some acc
      | loc # rest \<Rightarrow>
          if loc \<in> set visited then readiness_loop env rt home matching rest visited acc
          else (case node_at rt loc of
            None \<Rightarrow> Some Blocked
          | Some n \<Rightarrow>
              if \<not> n_valid n then Some Blocked
              else if list_ex (\<lambda>d. parent_state env rt (fst loc) (matching \<and> loc = home) d = Blocked)
                     (data_dependencies n) then Some Blocked
              else readiness_loop env rt home matching
                (rev (map (parent_location (fst loc)) (data_dependencies n)) @ rest) (loc # visited)
                (if loc = home \<and> list_ex (\<lambda>d. parent_state env rt (fst loc) (matching \<and> loc = home) d = Waiting)
                      (data_dependencies n)
                 then Waiting else acc)))"

declare readiness_loop.simps [code]

definition dependencyReadiness :: "'u env \<Rightarrow> 'k runtime \<Rightarrow> location \<Rightarrow> bool \<Rightarrow> readiness" where
  "dependencyReadiness env rt loc matching =
     (case readiness_loop env rt loc matching [loc] [] Ready of Some r \<Rightarrow> r | None \<Rightarrow> Blocked)"

subsection \<open>Snapshots and queries\<close>

record 'k node_view =
  v_identity :: plan_action_identity
  v_action :: plan_action
  v_actionKey :: "'k option"
  v_anchor :: nat
  v_earliest :: nat
  v_expected :: nat
  v_latest :: nat
  v_critical :: nat
  v_proposal :: string
  v_source :: string
  v_revision :: nat
  v_dependenciesReady :: bool
  v_execution :: plan_execution
  v_readiness :: node_readiness
  v_prediction :: plan_action_identity
  v_predictionState :: opportunity_state

definition own_deferred :: "node_execution \<Rightarrow> bool" where
  "own_deferred e \<longleftrightarrow> e = Own PDeferred"

definition readiness_of :: "'u env \<Rightarrow> 'k runtime \<Rightarrow> location \<Rightarrow> 'k node \<Rightarrow> node_readiness" where
  "readiness_of env rt loc n =
     (if is_settled rt n then NSettled
      else case dependencyReadiness env rt loc False of
        Ready \<Rightarrow> if \<not> own_deferred (n_execution n) then NWaiting else NReady
      | Waiting \<Rightarrow> NWaiting
      | Blocked \<Rightarrow> NBlocked)"

definition snapshot_node :: "'u env \<Rightarrow> 'k runtime \<Rightarrow> location \<Rightarrow> 'k node \<Rightarrow> 'k node_view" where
  "snapshot_node env rt loc n =
     (let pl = map_of (rt_plans rt) (fst loc) in
      \<lparr>v_identity = n_identity n, v_action = n_action n, v_actionKey = n_actionKey n,
       v_anchor = n_anchor n, v_earliest = n_earliest n, v_expected = n_expected n, v_latest = n_latest n,
       v_critical = n_critical n, v_proposal = fst loc,
       v_source = (case pl of Some p \<Rightarrow> p_source p | None \<Rightarrow> []),
       v_revision = (case pl of Some p \<Rightarrow> p_revision p | None \<Rightarrow> 0),
       v_dependenciesReady = (dependencyReadiness env rt loc False = Ready),
       v_execution = executionProjection env (n_execution n),
       v_readiness = readiness_of env rt loc n,
       v_prediction = op_identity (node_opportunity rt n),
       v_predictionState = op_state (node_opportunity rt n)\<rparr>)"

definition select_nodes ::
  "'u env \<Rightarrow> ('k node \<Rightarrow> location \<Rightarrow> bool) \<Rightarrow> node_readiness option \<Rightarrow> 'k runtime \<Rightarrow> 'k node_view list" where
  "select_nodes env include want rt =
     filter (\<lambda>v. case want of None \<Rightarrow> True | Some r \<Rightarrow> v_readiness v = r)
       (concat (map (\<lambda>loc. case node_at rt loc of
          None \<Rightarrow> [] | Some n \<Rightarrow> if include n loc then [snapshot_node env rt loc n] else []) (all_locations rt)))"

definition isMatchable :: "'u env \<Rightarrow> 'k runtime \<Rightarrow> location \<Rightarrow> 'k node \<Rightarrow> nat \<Rightarrow> bool" where
  "isMatchable env rt loc n decision \<longleftrightarrow>
     is_pending rt n \<and> n_earliest n \<le> decision \<and> dependencyReadiness env rt loc True = Ready"

definition launchable_nodes :: "'u env \<Rightarrow> 'k runtime \<Rightarrow> 'k node_view list" where
  "launchable_nodes env rt =
     select_nodes env (\<lambda>n _. own_deferred (n_execution n) \<and> \<not> is_settled rt n) (Some NReady) rt"

definition pending_nodes :: "'u env \<Rightarrow> 'k runtime \<Rightarrow> 'k node_view list" where
  "pending_nodes env rt = select_nodes env (\<lambda>n _. is_pending rt n) None rt"

definition matchable_nodes :: "'u env \<Rightarrow> real \<Rightarrow> 'k runtime \<Rightarrow> 'k node_view list" where
  "matchable_nodes env decision rt =
     select_nodes env (\<lambda>n loc. isMatchable env rt loc n (nat (max 0 \<lfloor>decision\<rfloor>))) None rt"

definition unsettled_nodes :: "'u env \<Rightarrow> 'k runtime \<Rightarrow> 'k node_view list" where
  "unsettled_nodes env rt = select_nodes env (\<lambda>n _. \<not> is_settled rt n) None rt"

definition consumer_nodes :: "'u env \<Rightarrow> string \<Rightarrow> 'k runtime \<Rightarrow> 'k node_view list" where
  "consumer_nodes env c rt =
     select_nodes env (\<lambda>n _. \<not> is_settled rt n \<and> execution_candidate (n_execution n) = Some c) None rt"

definition due_nodes :: "'u env \<Rightarrow> nat \<Rightarrow> 'k runtime \<Rightarrow> 'k node_view list" where
  "due_nodes env settled rt = select_nodes env (\<lambda>n _. is_pending rt n \<and> n_latest n \<le> settled) None rt"

definition drain_blocked :: "'u env \<Rightarrow> 'k runtime \<Rightarrow> 'k node_view list" where
  "drain_blocked env rt = select_nodes env (\<lambda>n _. \<not> is_settled rt n) (Some NBlocked) rt"

subsection \<open>recompute\<close>

definition relax :: "'k runtime \<Rightarrow> string \<Rightarrow> dependency \<Rightarrow> 'k node \<Rightarrow> 'k node" where
  "relax rt p d n = (case parent rt p d of
     None \<Rightarrow> n\<lparr>n_valid := False\<rparr>
   | Some loc \<Rightarrow> (case node_at rt loc of
       None \<Rightarrow> n\<lparr>n_valid := False\<rparr>
     | Some q \<Rightarrow>
         let step = (if is_operation (n_action q) then 0 else 1) in
         n\<lparr>n_valid := n_valid n \<and> n_valid q,
           n_earliest := max (n_earliest n) (n_earliest q + step),
           n_expected := max (n_expected n) (n_expected q + step),
           n_latest := max (n_latest n) (n_latest q + step)\<rparr>))"

definition base_window :: "'k runtime \<Rightarrow> 'k node \<Rightarrow> 'k node" where
  "base_window rt n =
     (let matched = map_option actorDecisionSequence (predictionMatched (node_settlement rt n)) in
      n\<lparr>n_earliest := (case matched of Some m \<Rightarrow> m | None \<Rightarrow> n_anchor n + 1),
        n_expected := (case matched of Some m \<Rightarrow> m | None \<Rightarrow> n_anchor n + horizon (n_action n) + 1),
        n_latest := (case matched of Some m \<Rightarrow> m | None \<Rightarrow> n_anchor n + latestHorizon (n_action n) + 1),
        n_critical := 0, n_valid := True\<rparr>)"

definition forward_node :: "location \<Rightarrow> 'k runtime \<Rightarrow> 'k runtime" where
  "forward_node loc rt = (case node_at rt loc of
     None \<Rightarrow> rt
   | Some n \<Rightarrow> set_node loc (fold (relax rt (fst loc)) (deps_of (n_action n)) (base_window rt n)) rt)"

definition raise_parent :: "string \<Rightarrow> nat \<Rightarrow> dependency \<Rightarrow> 'k runtime \<Rightarrow> 'k runtime" where
  "raise_parent p steps d rt = (case parent rt p d of
     None \<Rightarrow> rt
   | Some loc \<Rightarrow> (case node_at rt loc of
       None \<Rightarrow> rt
     | Some q \<Rightarrow> set_node loc (q\<lparr>n_critical := max (n_critical q) steps\<rparr>) rt))"

definition backward_node :: "location \<Rightarrow> 'k runtime \<Rightarrow> 'k runtime" where
  "backward_node loc rt = (case node_at rt loc of
     None \<Rightarrow> rt
   | Some n \<Rightarrow>
       let steps = n_critical n + 1 in
       fold (raise_parent (fst loc) steps) (deps_of (n_action n)) (set_node loc (n\<lparr>n_critical := steps\<rparr>) rt))"

definition recompute :: "location list \<Rightarrow> 'k runtime \<Rightarrow> 'k runtime" where
  "recompute ordered rt = fold backward_node (rev ordered) (fold forward_node ordered rt)"

definition recompute_graph :: "nat \<Rightarrow> 'k runtime \<Rightarrow> 'k runtime" where
  "recompute_graph g rt = recompute (g_ordered (rt_graphs rt g)) rt"

subsection \<open>Execution of a node\<close>

definition set_execution :: "location \<Rightarrow> 'k node \<Rightarrow> node_execution \<Rightarrow> 'k runtime \<Rightarrow> 'k runtime" where
  "set_execution loc n e rt = set_node loc (n\<lparr>n_execution := e\<rparr>) rt"

datatype 'k promotion =
    Promoted "'k node_view" | Promote_waiting | Promote_blocked | Promote_settled
  | Already_dispatched | Promote_missing

definition promote :: "'u env \<Rightarrow> location \<Rightarrow> 'k runtime \<Rightarrow> 'k promotion \<times> 'k runtime" where
  "promote env loc rt = (case node_at rt loc of
     None \<Rightarrow> (Promote_missing, rt)
   | Some n \<Rightarrow>
       let r = readiness_of env rt loc n in
       if r = NSettled then (Promote_settled, rt)
       else if r = NBlocked then (Promote_blocked, rt)
       else if \<not> own_deferred (n_execution n) then (Already_dispatched, rt)
       else if r = NWaiting then (Promote_waiting, rt)
       else
         let rt' = set_execution loc n (Own PScheduled) rt in
         (Promoted (snapshot_node env rt' loc (n\<lparr>n_execution := Own PScheduled\<rparr>)), rt'))"

definition defer_node :: "location \<Rightarrow> 'k runtime \<Rightarrow> bool \<times> 'k runtime" where
  "defer_node loc rt = (case node_at rt loc of
     None \<Rightarrow> (False, rt)
   | Some n \<Rightarrow>
       if n_execution n \<noteq> Own PScheduled then (False, rt)
       else (True, set_execution loc n (Own PDeferred) rt))"

definition rearms :: "'u env \<Rightarrow> string \<Rightarrow> 'k runtime \<Rightarrow> 'k node \<Rightarrow> bool" where
  "rearms env c rt n \<longleftrightarrow> execution_candidate (n_execution n) = Some c \<and> is_pending rt n \<and>
     executionSettled (executionProjection env (n_execution n))"

definition rearmExecution :: "'u env \<Rightarrow> string \<Rightarrow> 'k runtime \<Rightarrow> bool \<times> 'k runtime" where
  "rearmExecution env c rt =
     fold (\<lambda>loc (hit, r). case node_at r loc of
         None \<Rightarrow> (hit, r)
       | Some n \<Rightarrow> if rearms env c r n then (True, set_execution loc n (Own PDeferred) r) else (hit, r))
       (all_locations rt) (False, rt)"

definition bindActionKey :: "plan_action_identity \<Rightarrow> 'k \<Rightarrow> 'k runtime \<Rightarrow> bool \<times> 'k runtime" where
  "bindActionKey i key rt = (case node_at rt (pi_proposal i, pi_action i) of
     None \<Rightarrow> (False, rt)
   | Some n \<Rightarrow>
       if pi_id (n_identity n) \<noteq> pi_id i \<or> n_actionKey n \<noteq> None \<or> \<not> own_deferred (n_execution n) \<or> is_settled rt n
       then (False, rt)
       else (True, set_node (pi_proposal i, pi_action i)
         (n\<lparr>n_actionKey := Some key, n_execution := Own PPreparing\<rparr>) rt))"

definition finishPreparation ::
  "plan_action_identity \<Rightarrow> resolution_cause option \<Rightarrow> 'k runtime \<Rightarrow> bool \<times> 'k runtime" where
  "finishPreparation i blocked rt = (case node_at rt (pi_proposal i, pi_action i) of
     None \<Rightarrow> (False, rt)
   | Some n \<Rightarrow>
       if pi_id (n_identity n) \<noteq> pi_id i \<or> n_execution n \<noteq> Own PPreparing \<or> is_settled rt n then (False, rt)
       else (True, set_execution (pi_proposal i, pi_action i) n
         (Own (case blocked of Some why \<Rightarrow> PBlocked why | None \<Rightarrow> PDeferred)) rt))"

definition attachExecution :: "location \<Rightarrow> string \<Rightarrow> nat \<Rightarrow> 'k runtime \<Rightarrow> bool \<times> 'k runtime" where
  "attachExecution loc c w rt = (case node_at rt loc of
     None \<Rightarrow> (False, rt)
   | Some n \<Rightarrow>
       if n_execution n \<noteq> Own PDeferred \<and> n_execution n \<noteq> Own PScheduled then (False, rt)
       else (True, (set_execution loc n (Attached (rt_next rt) c w) rt)\<lparr>rt_next := Suc (rt_next rt)\<rparr>))"

text \<open>The completion handler of the attachment \<open>a\<close> of the node that was at \<open>loc\<close> with opportunity \<open>h\<close>.\<close>

definition on_completion :: "'u env \<Rightarrow> location \<Rightarrow> nat \<Rightarrow> 'k runtime \<Rightarrow> 'k runtime" where
  "on_completion env loc a rt = (case node_at rt loc of
     None \<Rightarrow> rt
   | Some n \<Rightarrow> (case n_execution n of
       Attached b c w \<Rightarrow>
         if a = b then set_execution loc n (Own (projectExecution (env w) c)) rt else rt
     | Own _ \<Rightarrow> rt))"

definition rejectExecution :: "plan_action_identity \<Rightarrow> resolution_cause \<Rightarrow> 'k runtime \<Rightarrow> bool \<times> 'k runtime" where
  "rejectExecution i why rt = (case node_at rt (pi_proposal i, pi_action i) of
     None \<Rightarrow> (False, rt)
   | Some n \<Rightarrow>
       if pi_id (n_identity n) \<noteq> pi_id i \<or> n_execution n \<notin> {Own PDeferred, Own PPreparing, Own PScheduled}
       then (False, rt)
       else (True, set_execution (pi_proposal i, pi_action i) n (Own (PRejected why)) rt))"

subsection \<open>Prediction outcomes\<close>

definition set_opp :: "nat \<Rightarrow> opportunity \<Rightarrow> 'k runtime \<Rightarrow> 'k runtime" where
  "set_opp h o1 rt = rt\<lparr>rt_opps := (rt_opps rt)(h := o1)\<rparr>"

definition claimMatch ::
  "'u env \<Rightarrow> 'k node_view \<Rightarrow> actor_action_identity \<Rightarrow> action_key_match \<Rightarrow> 'k runtime \<Rightarrow> nat option \<times> 'k runtime"
where
  "claimMatch env v actor rel rt =
     (let loc = (v_proposal v, pa_id (v_action v)) in
      case node_at rt loc of
        None \<Rightarrow> (None, rt)
      | Some n \<Rightarrow>
          if pi_id (n_identity n) \<noteq> pi_id (v_identity v) \<or>
             \<not> isMatchable env rt loc n (actorDecisionSequence actor) then (None, rt)
          else (case op_claim actor rel (node_opportunity rt n) of
            (True, o1) \<Rightarrow> (Some (n_opportunity n), set_opp (n_opportunity n) o1 rt)
          | (False, o1) \<Rightarrow> (None, rt)))"

definition confirm ::
  "nat \<Rightarrow> actor_action_identity \<Rightarrow> prediction_adoption \<Rightarrow> 'k runtime \<Rightarrow> prediction_settlement option \<times> 'k runtime"
where
  "confirm h actor adoption rt = (case op_confirm actor adoption (rt_opps rt h) of
     (None, _) \<Rightarrow> (None, rt)
   | (Some s, o1) \<Rightarrow>
       let rt' = set_opp h o1 rt; i = op_identity o1 in
       case map_of (rt_plans rt') (pi_proposal i) of
         None \<Rightarrow> (Some s, rt')
       | Some pl \<Rightarrow> (case map_of (p_nodes pl) (pi_action i) of
           None \<Rightarrow> (Some s, rt')
         | Some n \<Rightarrow>
             if n_opportunity n = h then (Some s, recompute_graph (p_graph pl) rt') else (Some s, rt')))"

definition miss ::
  "location \<Rightarrow> actor_action_identity \<Rightarrow> 'k runtime \<Rightarrow> prediction_settlement option \<times> 'k runtime" where
  "miss loc actor rt = (case node_at rt loc of
     None \<Rightarrow> (None, rt)
   | Some n \<Rightarrow> (case op_miss actor (node_opportunity rt n) of
       (None, _) \<Rightarrow> (None, rt)
     | (Some s, o1) \<Rightarrow> (Some s, set_opp (n_opportunity n) o1 rt)))"

definition observe_node :: "plan_action_identity \<Rightarrow> string \<Rightarrow> 'k runtime \<Rightarrow> 'k runtime" where
  "observe_node i observation rt = (case node_at rt (pi_proposal i, pi_action i) of
     None \<Rightarrow> rt
   | Some n \<Rightarrow>
       if pi_id (n_identity n) = pi_id i
       then set_node (pi_proposal i, pi_action i) (n\<lparr>n_observation := Some observation\<rparr>) rt else rt)"

definition get_node :: "'u env \<Rightarrow> location \<Rightarrow> 'k runtime \<Rightarrow> 'k node_view option" where
  "get_node env loc rt = map_option (snapshot_node env rt loc) (node_at rt loc)"

definition dependency_node :: "'u env \<Rightarrow> string \<Rightarrow> dependency \<Rightarrow> 'k runtime \<Rightarrow> 'k node_view option" where
  "dependency_node env p d rt = (case parent rt p d of
     None \<Rightarrow> None | Some loc \<Rightarrow> get_node env loc rt)"

definition reserveRevision :: "string \<Rightarrow> nat \<Rightarrow> 'k runtime \<Rightarrow> nat option \<times> 'k runtime" where
  "reserveRevision p least rt = (case map_of (rt_plans rt) p of
     None \<Rightarrow> (None, rt)
   | Some pl \<Rightarrow>
       let revision = max (p_nextRevision pl) (max (p_revision pl + 1) least) in
       (Some revision,
        rt\<lparr>rt_plans := ms_set p (pl\<lparr>p_nextRevision := revision + 1\<rparr>) (rt_plans rt)\<rparr>))"

definition clear_runtime :: "'k runtime \<Rightarrow> 'k runtime" where
  "clear_runtime rt = rt\<lparr>rt_plans := []\<rparr>"

record materialized_plan =
  mp_id :: string
  mp_source :: string
  mp_revision :: nat
  mp_actions :: "plan_action list"

definition planSnapshot :: "string \<Rightarrow> 'k plan \<Rightarrow> materialized_plan" where
  "planSnapshot p pl = \<lparr>mp_id = p, mp_source = p_source pl, mp_revision = p_revision pl,
     mp_actions = map n_action (ms_vals (p_nodes pl))\<rparr>"

definition plan_of :: "string \<Rightarrow> 'k runtime \<Rightarrow> materialized_plan option" where
  "plan_of p rt = map_option (planSnapshot p) (map_of (rt_plans rt) p)"

end
