(* ===== verification/Plan_Readiness.thy ===== *)
theory Plan_Readiness
  imports Plan_Runtime
begin

text \<open>
  What \<open>dependencyReadiness\<close> of \<open>src/plan-runtime.ts\<close> decides: its work list is refined to a
  statement about the ancestors of a node, and the operations that dispatch, attach, complete and
  claim a node are shown to respect it.
\<close>

subsection \<open>Stores\<close>

text \<open>Locations are pairs; quantifiers over them stay quantifiers over locations.\<close>

declare split_paired_All [simp del] split_paired_Ex [simp del]

lemma node_at_set_node [simp]:
  assumes "node_at rt loc \<noteq> None"
  shows "node_at (set_node loc n rt) loc' = (if loc' = loc then Some n else node_at rt loc')"
proof -
  obtain pl where "map_of (rt_plans rt) (fst loc) = Some pl"
    using assms by (cases "map_of (rt_plans rt) (fst loc)") (auto simp: node_at_def plan_nodes_def)
  then show ?thesis
    by (cases loc; cases loc') (auto simp: node_at_def set_node_def plan_nodes_def)
qed

lemma set_node_frame [simp]:
  "rt_opps (set_node loc n rt) = rt_opps rt"
  "rt_graphs (set_node loc n rt) = rt_graphs rt"
  "rt_next (set_node loc n rt) = rt_next rt"
  by (simp_all add: set_node_def split: option.splits)

lemma set_opp_frame [simp]:
  "node_at (set_opp h o1 rt) = node_at rt" "rt_plans (set_opp h o1 rt) = rt_plans rt"
  "rt_graphs (set_opp h o1 rt) = rt_graphs rt"
  by (simp_all add: set_opp_def node_at_def plan_nodes_def fun_eq_iff)

lemma node_at_all_locations:
  assumes "node_at rt loc \<noteq> None"
  shows "loc \<in> set (all_locations rt)"
proof -
  obtain pl n where "map_of (rt_plans rt) (fst loc) = Some pl" "map_of (p_nodes pl) (snd loc) = Some n"
    using assms by (auto simp: node_at_def plan_nodes_def split: option.splits)
  then have pl: "(fst loc, pl) \<in> set (rt_plans rt)" and "(snd loc, n) \<in> set (p_nodes pl)"
    by (simp_all add: map_of_SomeD)
  then have "snd loc \<in> set (ms_keys (p_nodes pl))"
    by (metis fst_conv image_eqI set_map)
  then have "(fst loc, snd loc) \<in> (\<lambda>a. (fst loc, a)) ` set (ms_keys (p_nodes pl))" by blast
  then have "loc \<in> set (map (\<lambda>a. (fst loc, a)) (ms_keys (p_nodes pl)))"
    by (simp only: set_map prod.collapse)
  then have "loc \<in> set ((\<lambda>(p, pl). map (\<lambda>a. (p, a)) (ms_keys (p_nodes pl))) (fst loc, pl))" by simp
  with pl show ?thesis unfolding all_locations_def set_concat set_map by blast
qed

lemma finite_nodes: "finite {loc. node_at rt loc \<noteq> None}"
  by (rule finite_subset [OF _ finite_set]) (use node_at_all_locations in blast)

subsection \<open>The work list\<close>

definition data_edge :: "'k runtime \<Rightarrow> location \<Rightarrow> location \<Rightarrow> bool" where
  "data_edge rt a b \<longleftrightarrow> (\<exists>n. node_at rt a = Some n \<and> b \<in> parent_location (fst a) ` set (data_dependencies n))"

definition obstructed :: "'u env \<Rightarrow> 'k runtime \<Rightarrow> location \<Rightarrow> bool \<Rightarrow> location \<Rightarrow> bool" where
  "obstructed env rt home matching loc \<longleftrightarrow> (case node_at rt loc of
     None \<Rightarrow> True
   | Some n \<Rightarrow> \<not> n_valid n \<or> (\<exists>d\<in>set (data_dependencies n).
       parent_state env rt (fst loc) (matching \<and> loc = home) d = Blocked))"

definition held_up :: "'u env \<Rightarrow> 'k runtime \<Rightarrow> location \<Rightarrow> bool \<Rightarrow> bool" where
  "held_up env rt home matching \<longleftrightarrow> (case node_at rt home of
     None \<Rightarrow> False
   | Some n \<Rightarrow> \<exists>d\<in>set (data_dependencies n). parent_state env rt (fst home) matching d = Waiting)"

definition ancestor :: "'k runtime \<Rightarrow> location \<Rightarrow> location \<Rightarrow> bool" where
  "ancestor rt = (data_edge rt)\<^sup>*\<^sup>*"

definition readiness_spec :: "'u env \<Rightarrow> 'k runtime \<Rightarrow> location \<Rightarrow> bool \<Rightarrow> readiness" where
  "readiness_spec env rt home matching =
     (if \<exists>loc. ancestor rt home loc \<and> obstructed env rt home matching loc then Blocked
      else if held_up env rt home matching then Waiting else Ready)"

definition loop_inv ::
  "'u env \<Rightarrow> 'k runtime \<Rightarrow> location \<Rightarrow> bool \<Rightarrow> location list \<Rightarrow> location list \<Rightarrow> readiness \<Rightarrow> bool" where
  "loop_inv env rt home matching pending visited acc \<longleftrightarrow>
     (\<forall>loc\<in>set pending. ancestor rt home loc) \<and>
     (\<forall>loc\<in>set visited. \<not> obstructed env rt home matching loc \<and>
        (\<forall>b. data_edge rt loc b \<longrightarrow> b \<in> set visited \<union> set pending)) \<and>
     home \<in> set visited \<union> set pending \<and>
     acc = (if home \<in> set visited \<and> held_up env rt home matching then Waiting else Ready)"

lemma loop_inv_done:
  assumes "loop_inv env rt home matching [] visited acc"
  shows "acc = readiness_spec env rt home matching"
proof -
  have "loc \<in> set visited" if "ancestor rt home loc" for loc
    using that unfolding ancestor_def
  proof (induction rule: rtranclp_induct)
    case base
    with assms show ?case by (simp add: loop_inv_def)
  next
    case (step b c)
    from assms have "\<forall>l\<in>set visited. \<forall>b. data_edge rt l b \<longrightarrow> b \<in> set visited"
      by (simp add: loop_inv_def del: split_paired_All)
    with step show ?case by blast
  qed
  then have "\<not> (\<exists>loc. ancestor rt home loc \<and> obstructed env rt home matching loc)"
    using assms unfolding loop_inv_def by blast
  with assms show ?thesis
    unfolding readiness_spec_def loop_inv_def by simp
qed

lemma loop_inv_skip:
  "loop_inv env rt home matching (loc # rest) visited acc \<Longrightarrow> loc \<in> set visited \<Longrightarrow>
     loop_inv env rt home matching rest visited acc"
  by (auto simp: loop_inv_def)

lemma loop_inv_visit:
  assumes inv: "loop_inv env rt home matching (loc # rest) visited acc" and new: "loc \<notin> set visited"
    and n: "node_at rt loc = Some n" and ok: "\<not> obstructed env rt home matching loc"
  shows "loop_inv env rt home matching
    (rev (map (parent_location (fst loc)) (data_dependencies n)) @ rest) (loc # visited)
    (if loc = home \<and> list_ex (\<lambda>d. parent_state env rt (fst loc) (matching \<and> loc = home) d = Waiting)
          (data_dependencies n)
     then Waiting else acc)"
proof -
  have edges: "data_edge rt loc b \<longleftrightarrow> b \<in> parent_location (fst loc) ` set (data_dependencies n)" for b
    using n by (simp add: data_edge_def)
  have anc: "ancestor rt home loc" using inv by (simp add: loop_inv_def)
  have up: "ancestor rt home b" if "data_edge rt loc b" for b
    using anc that unfolding ancestor_def by (rule rtranclp.rtrancl_into_rtrancl)
  have acc: "(if loc = home \<and> list_ex (\<lambda>d. parent_state env rt (fst loc) (matching \<and> loc = home) d = Waiting)
          (data_dependencies n) then Waiting else acc) =
      (if home \<in> set (loc # visited) \<and> held_up env rt home matching then Waiting else Ready)"
    using inv new n by (auto simp: loop_inv_def held_up_def list_ex_iff)
  from inv new ok up show ?thesis
    unfolding loop_inv_def acc by (auto simp: edges)
qed

lemma readiness_loop_correct:
  assumes "loop_inv env rt home matching pending visited acc"
  shows "readiness_loop env rt home matching pending visited acc = Some (readiness_spec env rt home matching)"
  using assms
proof (induction "card ({loc. node_at rt loc \<noteq> None} - set visited)" arbitrary: pending visited acc
    rule: less_induct)
  case less
  note outer = less.hyps
  from less.prems show ?case
  proof (induction pending)
    case Nil
    then show ?case using loop_inv_done by (simp add: readiness_loop.simps)
  next
    case (Cons loc rest)
    show ?case
    proof (cases "loc \<in> set visited")
      case True
      with Cons.IH [OF loop_inv_skip [OF Cons.prems True]] show ?thesis
        by (simp add: readiness_loop.simps)
    next
      case new: False
      show ?thesis
      proof (cases "obstructed env rt home matching loc")
        case True
        moreover have "ancestor rt home loc" using Cons.prems by (simp add: loop_inv_def)
        ultimately have "readiness_spec env rt home matching = Blocked"
          unfolding readiness_spec_def by (metis (mono_tags))
        with True new show ?thesis
          by (subst readiness_loop.simps) (auto simp: obstructed_def list_ex_iff split: option.splits)
      next
        case ok: False
        then obtain n where n: "node_at rt loc = Some n" by (auto simp: obstructed_def split: option.splits)
        have "card ({l. node_at rt l \<noteq> None} - set (loc # visited)) < card ({l. node_at rt l \<noteq> None} - set visited)"
          by (rule psubset_card_mono) (use n new finite_nodes [of rt] in auto)
        from outer [OF this loop_inv_visit [OF Cons.prems new n ok]] ok n new show ?thesis
          by (subst readiness_loop.simps) (auto simp: obstructed_def list_ex_iff)
      qed
    qed
  qed
qed

lemma loop_inv_start: "loop_inv env rt home matching [home] [] Ready"
  by (simp add: loop_inv_def ancestor_def)

text \<open>C12.
  The readiness loop always ends, and its answer is: blocked, if some ancestor of the node over data
  dependencies is missing, invalidated or has a dependency that can no longer be met; otherwise
  waiting, if one of the node's own dependencies is still open; otherwise ready.\<close>

theorem dependencyReadiness_decides:
  "readiness_loop env rt loc matching [loc] [] Ready = Some (dependencyReadiness env rt loc matching) \<and>
   dependencyReadiness env rt loc matching = readiness_spec env rt loc matching"
  by (simp add: dependencyReadiness_def readiness_loop_correct [OF loop_inv_start])

lemma dependencyReadiness_eq: "dependencyReadiness env rt loc matching = readiness_spec env rt loc matching"
  by (simp add: dependencyReadiness_def readiness_loop_correct [OF loop_inv_start])

lemma ready_dependencies:
  assumes "dependencyReadiness env rt loc matching = Ready" and "node_at rt loc = Some n"
    and "d \<in> set (data_dependencies n)"
  shows "parent_state env rt (fst loc) matching d = Ready"
proof -
  have "\<not> obstructed env rt loc matching loc" "\<not> held_up env rt loc matching"
    using assms(1) by (auto simp: dependencyReadiness_eq readiness_spec_def ancestor_def split: if_splits)
  with assms(2,3) show ?thesis
    by (cases "parent_state env rt (fst loc) matching d") (auto simp: obstructed_def held_up_def)
qed

subsection \<open>The execution of a node\<close>

datatype 'k dispatch_op =
    Promote location | Defer location | Rearm string | Bind plan_action_identity 'k
  | Finish_preparation plan_action_identity "resolution_cause option"
  | Attach location string nat | Completed location nat
  | Reject plan_action_identity resolution_cause

fun dispatch :: "'u env \<Rightarrow> 'k dispatch_op \<Rightarrow> 'k runtime \<Rightarrow> 'k runtime" where
  "dispatch env (Promote loc) rt = snd (promote env loc rt)"
| "dispatch env (Defer loc) rt = snd (defer_node loc rt)"
| "dispatch env (Rearm c) rt = snd (rearmExecution env c rt)"
| "dispatch env (Bind i k) rt = snd (bindActionKey i k rt)"
| "dispatch env (Finish_preparation i b) rt = snd (finishPreparation i b rt)"
| "dispatch env (Attach loc c w) rt = snd (attachExecution loc c w rt)"
| "dispatch env (Completed loc a) rt = on_completion env loc a rt"
| "dispatch env (Reject i why) rt = snd (rejectExecution i why rt)"

definition held_candidate :: "'u env \<Rightarrow> node_execution \<Rightarrow> bool" where
  "held_candidate env e \<longleftrightarrow> execution_candidate e \<noteq> None \<and> executionSettled (executionProjection env e)"

fun exec_move :: "'u env \<Rightarrow> node_execution \<Rightarrow> node_execution \<Rightarrow> bool" where
  "exec_move env (Own PDeferred) e \<longleftrightarrow>
     e = Own PDeferred \<or> e = Own PScheduled \<or> e = Own PPreparing \<or> (\<exists>a c w. e = Attached a c w) \<or>
     (\<exists>why. e = Own (PRejected why))"
| "exec_move env (Own PScheduled) e \<longleftrightarrow>
     e = Own PScheduled \<or> e = Own PDeferred \<or> (\<exists>a c w. e = Attached a c w) \<or> (\<exists>why. e = Own (PRejected why))"
| "exec_move env (Own PPreparing) e \<longleftrightarrow>
     e = Own PPreparing \<or> e = Own PDeferred \<or> (\<exists>why. e = Own (PBlocked why)) \<or> (\<exists>why. e = Own (PRejected why))"
| "exec_move env (Attached a c w) e \<longleftrightarrow>
     e = Attached a c w \<or> e = Own (projectExecution (env w) c) \<or>
     e = Own PDeferred \<and> executionSettled (projectExecution (env w) c)"
| "exec_move env (Own x) e \<longleftrightarrow> e = Own x \<or> e = Own PDeferred \<and> held_candidate env (Own x)"

definition same_prediction :: "'k node \<Rightarrow> 'k node \<Rightarrow> bool" where
  "same_prediction n n' \<longleftrightarrow> n_identity n' = n_identity n \<and> n_opportunity n' = n_opportunity n \<and>
     n_action n' = n_action n \<and> n_anchor n' = n_anchor n"

definition node_move :: "'u env \<Rightarrow> 'k node \<Rightarrow> 'k node \<Rightarrow> bool" where
  "node_move env n n' \<longleftrightarrow> same_prediction n n' \<and> exec_move env (n_execution n) (n_execution n')"

lemma exec_move_refl [simp]: "exec_move env e e"
  by (cases "(env, e, e)" rule: exec_move.cases) auto

lemma node_move_refl [simp]: "node_move env n n"
  by (simp add: node_move_def same_prediction_def)

lemma node_move_exec [simp]:
  "node_move env n (n\<lparr>n_execution := e\<rparr>) \<longleftrightarrow> exec_move env (n_execution n) e"
  by (simp add: node_move_def same_prediction_def)

lemma rel_node_refl [simp]: "rel_option (node_move env) x x"
  by (cases x) auto

lemma node_at_set_execution [simp]:
  "node_at rt loc = Some n \<Longrightarrow>
     node_at (set_execution loc n e rt) loc' = (if loc' = loc then Some (n\<lparr>n_execution := e\<rparr>) else node_at rt loc')"
  by (simp add: set_execution_def)

lemma set_execution_move:
  "node_at rt loc = Some n \<Longrightarrow> exec_move env (n_execution n) e \<Longrightarrow>
     rel_option (node_move env) (node_at rt l) (node_at (set_execution loc n e rt) l)"
  by (simp add: node_move_def same_prediction_def)

lemma promote_move: "rel_option (node_move env) (node_at rt l) (node_at (snd (promote env loc rt)) l)"
  by (auto simp: promote_def Let_def own_deferred_def split: option.splits intro!: set_execution_move)

lemma defer_move: "rel_option (node_move env) (node_at rt l) (node_at (snd (defer_node loc rt)) l)"
  by (auto simp: defer_node_def split: option.splits intro!: set_execution_move)

lemma bind_move: "rel_option (node_move env) (node_at rt l) (node_at (snd (bindActionKey i k rt)) l)"
  by (auto simp: bindActionKey_def own_deferred_def node_move_def same_prediction_def split: option.splits)

lemma finish_move: "rel_option (node_move env) (node_at rt l) (node_at (snd (finishPreparation i b rt)) l)"
  by (auto simp: finishPreparation_def split: option.splits intro!: set_execution_move)

lemma reject_move: "rel_option (node_move env) (node_at rt l) (node_at (snd (rejectExecution i why rt)) l)"
  by (auto simp: rejectExecution_def split: option.splits intro!: set_execution_move)

lemma node_at_next [simp]: "node_at (rt\<lparr>rt_next := x\<rparr>) = node_at rt"
  by (simp add: node_at_def plan_nodes_def fun_eq_iff)

lemma attach_move: "rel_option (node_move env) (node_at rt l) (node_at (snd (attachExecution loc c w rt)) l)"
  by (auto simp: attachExecution_def split: option.splits intro!: set_execution_move)

lemma completion_move: "rel_option (node_move env) (node_at rt l) (node_at (on_completion env loc a rt) l)"
  by (auto simp: on_completion_def split: option.splits node_execution.splits intro!: set_execution_move)

lemma exec_move_rearm: "held_candidate env e \<Longrightarrow> exec_move env e (Own PDeferred)"
  by (cases "(env, e, e)" rule: exec_move.cases) (auto simp: held_candidate_def)

definition rearm_step :: "'u env \<Rightarrow> string \<Rightarrow> location \<Rightarrow> bool \<times> 'k runtime \<Rightarrow> bool \<times> 'k runtime" where
  "rearm_step env c loc st = (case st of (hit, r) \<Rightarrow> (case node_at r loc of
     None \<Rightarrow> (hit, r)
   | Some n \<Rightarrow> if rearms env c r n then (True, set_execution loc n (Own PDeferred) r) else (hit, r)))"

lemma rearm_fold: "rearmExecution env c rt = fold (rearm_step env c) (all_locations rt) (False, rt)"
  by (simp add: rearmExecution_def rearm_step_def [abs_def])

definition rearm_inv :: "'u env \<Rightarrow> 'k runtime \<Rightarrow> 'k runtime \<Rightarrow> bool" where
  "rearm_inv env rt r \<longleftrightarrow> (\<forall>l. rel_option (\<lambda>n n'. same_prediction n n' \<and>
     (n_execution n' = n_execution n \<or>
      n_execution n' = Own PDeferred \<and> held_candidate env (n_execution n))) (node_at rt l) (node_at r l))"

lemma rearm_inv_step: "rearm_inv env rt r \<Longrightarrow> rearm_inv env rt (snd (rearm_step env c loc (hit, r)))"
proof (cases "node_at r loc")
  case (Some n')
  assume inv: "rearm_inv env rt r"
  then have "rel_option (\<lambda>n n'. same_prediction n n' \<and> (n_execution n' = n_execution n \<or>
      n_execution n' = Own PDeferred \<and> held_candidate env (n_execution n))) (node_at rt loc) (Some n')"
    unfolding rearm_inv_def Some [symmetric] by blast
  then obtain n where n: "node_at rt loc = Some n" "same_prediction n n'"
    "n_execution n' = n_execution n \<or> n_execution n' = Own PDeferred \<and> held_candidate env (n_execution n)"
    by (auto simp: option_rel_Some2)
  show ?thesis
  proof (cases "rearms env c r n'")
    case True
    then have "held_candidate env (n_execution n)"
      using n(3) by (auto simp: rearms_def held_candidate_def)
    with True inv Some n(1,2) show ?thesis
      by (auto simp: rearm_step_def rearm_inv_def same_prediction_def)
  qed (simp add: rearm_step_def Some inv)
qed (simp add: rearm_step_def)

lemma rearm_move: "rel_option (node_move env) (node_at rt l) (node_at (snd (rearmExecution env c rt)) l)"
proof -
  have "rearm_inv env rt (snd (fold (rearm_step env c) locs (hit, r)))" if "rearm_inv env rt r" for locs hit r
    using that
  proof (induction locs arbitrary: hit r)
    case (Cons loc locs)
    obtain hit' r' where st: "rearm_step env c loc (hit, r) = (hit', r')" by force
    with rearm_inv_step [OF Cons.prems, of c loc hit] Cons.IH [of r' hit'] show ?case by simp
  qed simp
  moreover have "rearm_inv env rt rt"
    by (auto simp: rearm_inv_def same_prediction_def intro!: option.rel_refl)
  ultimately have "rearm_inv env rt (snd (rearmExecution env c rt))" by (simp add: rearm_fold)
  then have "rel_option (\<lambda>n n'. same_prediction n n' \<and> (n_execution n' = n_execution n \<or>
      n_execution n' = Own PDeferred \<and> held_candidate env (n_execution n)))
      (node_at rt l) (node_at (snd (rearmExecution env c rt)) l)"
    by (simp add: rearm_inv_def)
  then show ?thesis
    by (rule option.rel_mono_strong) (auto simp: node_move_def intro: exec_move_rearm)
qed

text \<open>The execution of a plan node moves only along its life cycle: deferred to scheduled, preparing or attached;
  scheduled back to deferred or to an attached candidate; preparing to deferred or blocked; any of
  them to rejected; an attachment to the outcome of its candidate; and back to deferred only from a
  settled candidate.  No dispatching operation changes a node's identity, action or opportunity.\<close>

theorem node_execution_life_cycle:
  "rel_option (node_move env) (node_at rt loc) (node_at (dispatch env op rt) loc)"
  by (cases op) (simp_all add: promote_move defer_move rearm_move bind_move finish_move attach_move
      completion_move reject_move)

text \<open>A node is scheduled only when it is deferred, unsettled and ready, that is, no ancestor over data
  dependencies is obstructed and all its own data dependencies are met; every other answer of
  \<open>promote\<close> leaves the runtime as it was.\<close>

theorem promote_schedules_ready_nodes:
  "case promote env loc rt of
     (Promoted v, rt') \<Rightarrow>
       (\<exists>n. node_at rt loc = Some n \<and> \<not> is_settled rt n \<and> n_execution n = Own PDeferred \<and>
         readiness_spec env rt loc False = Ready \<and>
         list_all (\<lambda>d. parent_state env rt (fst loc) False d = Ready) (data_dependencies n) \<and>
         node_at rt' = (node_at rt)(loc \<mapsto> n\<lparr>n_execution := Own PScheduled\<rparr>) \<and> rt_opps rt' = rt_opps rt)
   | (_, rt') \<Rightarrow> rt' = rt"
proof (cases "node_at rt loc")
  case (Some n)
  show ?thesis
  proof (cases "readiness_of env rt loc n = NReady \<and> own_deferred (n_execution n)")
    case True
    then have d: "dependencyReadiness env rt loc False = Ready" "\<not> is_settled rt n"
      by (auto simp: readiness_of_def split: if_splits readiness.splits)
    then have "list_all (\<lambda>d. parent_state env rt (fst loc) False d = Ready) (data_dependencies n)"
      using ready_dependencies [OF d(1) Some] by (simp add: list_all_iff)
    with True Some d show ?thesis
      by (auto simp: promote_def Let_def own_deferred_def dependencyReadiness_eq [symmetric] fun_eq_iff
          set_execution_def)
  next
    case False
    with Some show ?thesis
      by (cases "readiness_of env rt loc n") (auto simp: promote_def Let_def)
  qed
qed (simp add: promote_def)

end
