(* ===== verification/Plan_Commit.thy ===== *)
theory Plan_Commit
  imports Plan_Runtime
begin

text \<open>
  How a plan update becomes the materialized plan: \<open>apply\<close> and \<open>commit\<close> of \<open>PlanRuntime\<close>
  (\<open>src/plan-runtime.ts\<close>).  The plan object of a new revision replaces the one of the old; a node
  whose execution context did not change moves over with its identity, execution and opportunity,
  and every other action gets a fresh node.  The only partial operation is the non-null assertion on
  the order of the joined graph; \<open>Commit_threw\<close> is the exception it would lead to.
\<close>

datatype 'k update_result =
    Update_accepted materialized_plan "plan_action list" "string list" "'k node_view list"
  | Update_rejected update_error
  | Commit_threw

definition actions_of :: "'k plan \<Rightarrow> (string, plan_action) jsmap" where
  "actions_of pl = map (\<lambda>(i, n). (i, n_action n)) (p_nodes pl)"

definition set_actions :: "plan_action list \<Rightarrow> (string, plan_action) jsmap \<Rightarrow> (string, plan_action) jsmap" where
  "set_actions as m = fold (\<lambda>a. ms_set (pa_id a) a) as m"

text \<open>A replacement proposal may retain the descendants of unchanged actions.\<close>

definition retain_step ::
  "'k runtime \<Rightarrow> string \<Rightarrow> location \<Rightarrow> (string, plan_action) jsmap \<times> string set \<Rightarrow>
     (string, plan_action) jsmap \<times> string set" where
  "retain_step rt p loc st = (case node_at rt loc of
     None \<Rightarrow> st
   | Some n \<Rightarrow>
       if fst loc \<noteq> p then st
       else
         let a = n_action n; ds = deps_of a; (actions, retained) = st in
         if list_ex (\<lambda>d. if cross_plan d then parent rt p d = None else dep_action d \<notin> retained) ds then st
         else (case map_of actions (pa_id a) of
             Some r \<Rightarrow> if \<not> samePlanActionExecution a r then st
                       else (ms_set (pa_id a) r actions, insert (pa_id a) retained)
           | None \<Rightarrow> if \<not> list_ex (\<lambda>d. \<not> cross_plan d) ds then st
                     else (ms_set (pa_id a) a actions, insert (pa_id a) retained)))"

definition retain_descendants ::
  "'k runtime \<Rightarrow> string \<Rightarrow> 'k plan \<Rightarrow> (string, plan_action) jsmap \<Rightarrow> (string, plan_action) jsmap" where
  "retain_descendants rt p pl actions =
     fst (fold (retain_step rt p) (g_ordered (rt_graphs rt (p_graph pl))) (actions, {}))"

definition update_dependencies ::
  "'k runtime \<Rightarrow> string \<Rightarrow> (string, plan_action) jsmap \<Rightarrow> plan_action \<Rightarrow> plan_action option list" where
  "update_dependencies rt p actions a = concat (map (\<lambda>d.
     if cross_plan d then
       if dep_proposal d \<noteq> Some p \<and> parent rt p d \<noteq> None then [] else [None]
     else [map_of actions (dep_action d)]) (deps_of a))"

definition replaced_ids ::
  "(string, plan_action) jsmap \<Rightarrow> string set \<Rightarrow> plan_action list \<Rightarrow> string list" where
  "replaced_ids previous touched ordered = fold (\<lambda>a replaced.
     case map_of previous (pa_id a) of
       None \<Rightarrow> replaced
     | Some old \<Rightarrow>
         if (pa_id a \<in> touched \<and> \<not> samePlanActionExecution old a \<or>
             list_ex (\<lambda>d. \<not> cross_plan d \<and> dep_action d \<in> set replaced) (deps_of a)) \<and>
            pa_id a \<notin> set replaced
         then replaced @ [pa_id a] else replaced) ordered []"

definition kept_node :: "string set \<Rightarrow> nat \<Rightarrow> string \<Rightarrow> plan_action \<Rightarrow> 'k node \<Rightarrow> 'k node" where
  "kept_node touched anchor i a n = n\<lparr>n_action := a,
     n_anchor := (if i \<in> touched \<and> (n_execution n = Own PDeferred \<or> n_execution n = Own PPreparing)
                  then anchor else n_anchor n)\<rparr>"

text \<open>The nodes of the new revision; fresh nodes take opportunity handles from \<open>h\<close> on.\<close>

fun next_nodes ::
  "(string, 'k node) jsmap \<Rightarrow> string list \<Rightarrow> string set \<Rightarrow> string \<Rightarrow> string \<Rightarrow> nat \<Rightarrow> nat \<Rightarrow>
     (string \<times> plan_action) list \<Rightarrow> nat \<Rightarrow> (string \<times> 'k node) list" where
  "next_nodes previous replaced touched p source revision anchor [] h = []"
| "next_nodes previous replaced touched p source revision anchor ((i, a) # as) h =
     (case (if i \<in> set replaced then None else map_of previous i) of
        Some n \<Rightarrow> (i, kept_node touched anchor i a n) #
          next_nodes previous replaced touched p source revision anchor as h
      | None \<Rightarrow> (i, new_node p source revision a anchor h) #
          next_nodes previous replaced touched p source revision anchor as (Suc h))"

definition fresh_opportunities :: "nat \<Rightarrow> (string \<times> 'k node) list \<Rightarrow> (nat \<Rightarrow> opportunity) \<Rightarrow> nat \<Rightarrow> opportunity" where
  "fresh_opportunities h ns opps = (\<lambda>x. if x < h then opps x
     else case filter (\<lambda>(i, n). n_opportunity n = x) ns of
            (i, n) # _ \<Rightarrow> new_opportunity (n_identity n) | [] \<Rightarrow> opps x)"

definition connected_graphs :: "'k runtime \<Rightarrow> 'k plan option \<Rightarrow> (string, plan_action) jsmap \<Rightarrow> nat list" where
  "connected_graphs rt current actions = uniq
     ((case current of Some pl \<Rightarrow> [p_graph pl] | None \<Rightarrow> []) @
      concat (map (\<lambda>a. concat (map (\<lambda>d. if cross_plan d then
          (case dep_proposal d of
             Some q \<Rightarrow> (case map_of (rt_plans rt) q of Some pl \<Rightarrow> [p_graph pl] | None \<Rightarrow> [])
           | None \<Rightarrow> []) else []) (deps_of a))) (ms_vals actions)))"

definition graph_nodes :: "'k runtime \<Rightarrow> string list \<Rightarrow> location list" where
  "graph_nodes rt ps = concat (map (\<lambda>p. map (\<lambda>a. (p, a)) (ms_keys (plan_nodes rt p))) ps)"

definition node_dependencies :: "'k runtime \<Rightarrow> location \<Rightarrow> location option list" where
  "node_dependencies rt loc = (case node_at rt loc of
     None \<Rightarrow> []
   | Some n \<Rightarrow> map Some (concat (map (\<lambda>d. case parent rt (fst loc) d of Some q \<Rightarrow> [q] | None \<Rightarrow> [])
       (deps_of (n_action n)))))"

definition set_graph :: "nat \<Rightarrow> string list \<Rightarrow> (string, 'k plan) jsmap \<Rightarrow> (string, 'k plan) jsmap" where
  "set_graph g ps = map (\<lambda>(p, pl). (p, if p \<in> set ps then pl\<lparr>p_graph := g\<rparr> else pl))"

definition install ::
  "'k runtime \<Rightarrow> string \<Rightarrow> string \<Rightarrow> nat \<Rightarrow> (string, plan_action) jsmap \<Rightarrow> (string \<times> 'k node) list \<Rightarrow> 'k runtime"
where
  "install rt p source revision actions nodes =
     (let current = map_of (rt_plans rt) p;
          g = rt_next rt + length nodes;
          others = filter (\<lambda>q. q \<noteq> p)
            (uniq (concat (map (\<lambda>c. g_plans (rt_graphs rt c)) (connected_graphs rt current actions))));
          members = others @ [p];
          pl = \<lparr>p_source = source, p_revision = revision,
                p_nextRevision = max (case current of Some c \<Rightarrow> p_nextRevision c | None \<Rightarrow> 0) (revision + 1),
                p_nodes = nodes, p_graph = g\<rparr>
      in rt\<lparr>rt_plans := set_graph g members (ms_set p pl (rt_plans rt)),
            rt_graphs := (rt_graphs rt)(g := \<lparr>g_plans = members, g_ordered = []\<rparr>),
            rt_opps := fresh_opportunities (rt_next rt) nodes (rt_opps rt),
            rt_next := Suc g\<rparr>)"

definition order_graph :: "nat \<Rightarrow> 'k runtime \<Rightarrow> location list option" where
  "order_graph g rt = dependencyOrder (graph_nodes rt (g_plans (rt_graphs rt g))) (node_dependencies rt)"

definition set_order :: "nat \<Rightarrow> location list \<Rightarrow> 'k runtime \<Rightarrow> 'k runtime" where
  "set_order g ordered rt = rt\<lparr>rt_graphs := (rt_graphs rt)(g := (rt_graphs rt g)\<lparr>g_ordered := ordered\<rparr>)\<rparr>"

definition commit ::
  "'u env \<Rightarrow> string \<Rightarrow> string \<Rightarrow> nat \<Rightarrow> (string, plan_action) jsmap \<Rightarrow> plan_action list \<Rightarrow> plan_action list \<Rightarrow> js_num \<Rightarrow>
     'k runtime \<Rightarrow> 'k update_result \<times> 'k runtime" where
  "commit env p source revision actions upserted ordered anchorDecisionSeq rt =
     (let previous = plan_nodes rt p;
          touched = set (map pa_id upserted);
          replaced = replaced_ids (map (\<lambda>(i, n). (i, n_action n)) previous) touched ordered;
          removed = filter (\<lambda>i. \<not> ms_has actions i) (ms_keys previous);
          retired = concat (map (\<lambda>i. case map_of previous i of
              Some n \<Rightarrow> [snapshot_node env rt (p, i) n] | None \<Rightarrow> []) (uniq (removed @ replaced)));
          nodes = next_nodes previous replaced touched p source revision
            (nonNegativeCount (JNum anchorDecisionSeq)) actions (rt_next rt);
          rt1 = install rt p source revision actions nodes;
          g = rt_next rt + length nodes
      in case order_graph g rt1 of
           None \<Rightarrow> (Commit_threw, rt1)
         | Some ord \<Rightarrow>
             let rt2 = recompute_graph g (set_order g ord rt1) in
             (Update_accepted
                (case map_of (rt_plans rt2) p of Some pl \<Rightarrow> planSnapshot p pl
                 | None \<Rightarrow> \<lparr>mp_id = p, mp_source = source, mp_revision = revision, mp_actions = []\<rparr>)
                (upserted @ filter (\<lambda>a. pa_id a \<in> set replaced \<and> pa_id a \<notin> touched) ordered)
                removed retired, rt2))"

fun retains :: "plan_update \<Rightarrow> bool" where
  "retains (Proposal_update _ _ _ _ keep) = keep"
| "retains (Delta_update _ _ _ _ _) = False"

fun is_proposal :: "plan_update \<Rightarrow> bool" where
  "is_proposal (Proposal_update _ _ _ _ _) = True"
| "is_proposal (Delta_update _ _ _ _ _) = False"

definition updated_actions :: "'k runtime \<Rightarrow> plan_update \<Rightarrow> 'k plan option \<Rightarrow> (string, plan_action) jsmap" where
  "updated_actions rt owned current =
     (let base = (if is_proposal owned then [] else case current of Some pl \<Rightarrow> actions_of pl | None \<Rightarrow> []);
          kept = fold ms_del (update_removed owned) base;
          actions = set_actions (offered_actions True owned) kept
      in case current of
           Some pl \<Rightarrow> if retains owned then retain_descendants rt (update_plan owned) pl actions else actions
         | None \<Rightarrow> actions)"

text \<open>Why an update of a plan is refused before its dependencies are looked at.\<close>

definition update_refusal :: "'k plan option \<Rightarrow> plan_update \<Rightarrow> update_error option" where
  "update_refusal current owned =
     (if \<not> is_proposal owned \<and> current = None then Some Proposal_missing
      else case current of
        None \<Rightarrow> None
      | Some pl \<Rightarrow>
          if p_source pl \<noteq> update_source owned then Some Source_mismatch
          else if nonNegativeCount (update_revision owned) \<le> p_revision pl then Some Stale_revision
          else None)"

definition apply_update ::
  "'u env \<Rightarrow> bool \<Rightarrow> plan_update \<Rightarrow> js_num \<Rightarrow> 'k runtime \<Rightarrow> 'k update_result \<times> 'k runtime" where
  "apply_update env captured update anchor rt = (case capture captured update True of
     Inl e \<Rightarrow> (Update_rejected e, rt)
   | Inr owned \<Rightarrow>
       let p = update_plan owned; current = map_of (rt_plans rt) p in
       case update_refusal current owned of
         Some e \<Rightarrow> (Update_rejected e, rt)
       | None \<Rightarrow>
           let actions = updated_actions rt owned current in
           case dependencyOrder (ms_vals actions) (update_dependencies rt p actions) of
             None \<Rightarrow> (Update_rejected Invalid_dependency, rt)
           | Some ordered \<Rightarrow>
               commit env p (update_source owned) (nonNegativeCount (update_revision owned)) actions
                 (offered_actions True owned) ordered anchor rt)"

end
