(* ===== verification/Plan_Windows.thy ===== *)
theory Plan_Windows
  imports Plan_Readiness Plan_Commit
begin

text \<open>
  The two passes of \<open>recompute\<close> (\<open>src/plan-runtime.ts\<close>) over the order of a plan graph: forward,
  the decision windows and the validity of the nodes; backward, the critical path steps.
\<close>

declare split_paired_All [simp del] split_paired_Ex [simp del]

subsection \<open>What recompute leaves alone\<close>

definition same_static :: "'k node \<Rightarrow> 'k node \<Rightarrow> bool" where
  "same_static n n' \<longleftrightarrow> n_identity n' = n_identity n \<and> n_action n' = n_action n \<and> n_actionKey n' = n_actionKey n \<and>
     n_anchor n' = n_anchor n \<and> n_execution n' = n_execution n \<and> n_opportunity n' = n_opportunity n \<and>
     n_observation n' = n_observation n"

lemma same_static_refl [simp]: "same_static n n"
  by (simp add: same_static_def)

lemma same_static_trans: "same_static a b \<Longrightarrow> same_static b c \<Longrightarrow> same_static a c"
  by (simp add: same_static_def)

definition static_eq :: "'k runtime \<Rightarrow> 'k runtime \<Rightarrow> bool" where
  "static_eq rt rt' \<longleftrightarrow> (\<forall>l. rel_option same_static (node_at rt l) (node_at rt' l)) \<and> rt_opps rt' = rt_opps rt"

lemma static_eq_refl [simp]: "static_eq rt rt"
  by (auto simp: static_eq_def intro: option.rel_refl)

lemma static_eq_trans: "static_eq a b \<Longrightarrow> static_eq b c \<Longrightarrow> static_eq a c"
proof -
  assume ab: "static_eq a b" and bc: "static_eq b c"
  have "rel_option same_static (node_at a l) (node_at c l)" for l
  proof -
    from ab bc have 1: "rel_option same_static (node_at a l) (node_at b l)"
      and 2: "rel_option same_static (node_at b l) (node_at c l)"
      by (simp_all add: static_eq_def)
    show ?thesis
      using 1 2 same_static_trans
      by (cases "node_at a l"; cases "node_at b l"; cases "node_at c l") (simp_all, blast)
  qed
  with ab bc show ?thesis by (simp add: static_eq_def)
qed

lemma static_eq_parent:
  assumes "static_eq rt rt'"
  shows "parent rt' = parent rt"
proof (intro ext)
  fix p d
  have "rel_option same_static (node_at rt (parent_location p d)) (node_at rt' (parent_location p d))"
    using assms by (simp add: static_eq_def)
  then show "parent rt' p d = parent rt p d"
    by (cases "node_at rt (parent_location p d)"; cases "node_at rt' (parent_location p d)")
      (auto simp: parent_def same_static_def)
qed

lemma static_eq_node:
  assumes "static_eq rt rt'" and "node_at rt l = Some n"
  obtains n' where "node_at rt' l = Some n'" "same_static n n'"
proof -
  have "rel_option same_static (node_at rt l) (node_at rt' l)" using assms(1) by (simp add: static_eq_def)
  with assms(2) that show ?thesis by (cases "node_at rt' l") auto
qed

lemma static_eq_set:
  assumes "node_at rt l = Some n" and "same_static n m"
  shows "static_eq rt (set_node l m rt)"
  using assms by (auto simp: static_eq_def intro: option.rel_refl)

lemma static_eq_dom: "static_eq rt rt' \<Longrightarrow> node_at rt' l = None \<longleftrightarrow> node_at rt l = None"
  unfolding static_eq_def by (metis option.rel_distinct(1) option.rel_distinct(2) not_Some_eq)

subsection \<open>The forward pass on one node\<close>

lemma relax_static: "same_static n (relax rt p d n)"
  by (auto simp: relax_def same_static_def Let_def split: option.splits)

lemma fold_relax_static: "same_static n (fold (relax rt p) ds n)"
  by (induction ds arbitrary: n) (auto intro: same_static_trans [OF relax_static])

lemma relax_critical [simp]: "n_critical (relax rt p d n) = n_critical n"
  by (auto simp: relax_def Let_def split: option.splits)

lemma fold_relax_critical [simp]: "n_critical (fold (relax rt p) ds n) = n_critical n"
  by (induction ds arbitrary: n) auto

definition delay :: "'k node \<Rightarrow> nat" where
  "delay q = (if is_operation (n_action q) then 0 else 1)"

definition resolved :: "'k runtime \<Rightarrow> string \<Rightarrow> dependency \<Rightarrow> 'k node option" where
  "resolved rt p d = Option.bind (parent rt p d) (node_at rt)"

lemma relax_resolved: "relax rt p d n = (case resolved rt p d of
    None \<Rightarrow> n\<lparr>n_valid := False\<rparr>
  | Some q \<Rightarrow> n\<lparr>n_valid := n_valid n \<and> n_valid q,
      n_earliest := max (n_earliest n) (n_earliest q + delay q),
      n_expected := max (n_expected n) (n_expected q + delay q),
      n_latest := max (n_latest n) (n_latest q + delay q)\<rparr>)"
  by (auto simp: relax_def resolved_def delay_def Let_def split: option.splits)

definition all_resolved :: "'k runtime \<Rightarrow> string \<Rightarrow> dependency list \<Rightarrow> bool" where
  "all_resolved rt p ds \<longleftrightarrow> list_all (\<lambda>d. resolved rt p d \<noteq> None) ds"

definition parents_of :: "'k runtime \<Rightarrow> string \<Rightarrow> dependency list \<Rightarrow> 'k node list" where
  "parents_of rt p ds = List.map_filter (resolved rt p) ds"

lemma parents_of_simps [simp]:
  "parents_of rt p [] = []"
  "parents_of rt p (d # ds) = (case resolved rt p d of None \<Rightarrow> [] | Some q \<Rightarrow> [q]) @ parents_of rt p ds"
  by (simp_all add: parents_of_def List.map_filter_def split: option.splits)

lemma fold_relax:
  "n_valid (fold (relax rt p) ds n) \<longleftrightarrow>
     n_valid n \<and> all_resolved rt p ds \<and> list_all n_valid (parents_of rt p ds)"
  "n_earliest (fold (relax rt p) ds n) = fold max (map (\<lambda>q. n_earliest q + delay q) (parents_of rt p ds)) (n_earliest n)"
  "n_expected (fold (relax rt p) ds n) = fold max (map (\<lambda>q. n_expected q + delay q) (parents_of rt p ds)) (n_expected n)"
  "n_latest (fold (relax rt p) ds n) = fold max (map (\<lambda>q. n_latest q + delay q) (parents_of rt p ds)) (n_latest n)"
  by (induction ds arbitrary: n) (auto simp: relax_resolved all_resolved_def max.commute split: option.splits)

text \<open>The window a node gets from its own evidence and its parents' windows.\<close>

definition own_decision :: "'k runtime \<Rightarrow> 'k node \<Rightarrow> nat option" where
  "own_decision rt n = map_option actorDecisionSequence (predictionMatched (node_settlement rt n))"

definition base_earliest :: "'k runtime \<Rightarrow> 'k node \<Rightarrow> nat" where
  "base_earliest rt n = (case own_decision rt n of Some m \<Rightarrow> m | None \<Rightarrow> n_anchor n + 1)"

definition base_expected :: "'k runtime \<Rightarrow> 'k node \<Rightarrow> nat" where
  "base_expected rt n = (case own_decision rt n of Some m \<Rightarrow> m | None \<Rightarrow> n_anchor n + horizon (n_action n) + 1)"

definition base_latest :: "'k runtime \<Rightarrow> 'k node \<Rightarrow> nat" where
  "base_latest rt n = (case own_decision rt n of Some m \<Rightarrow> m | None \<Rightarrow> n_anchor n + latestHorizon (n_action n) + 1)"

definition window_ok :: "'k runtime \<Rightarrow> location \<Rightarrow> bool" where
  "window_ok rt loc \<longleftrightarrow> (case node_at rt loc of
     None \<Rightarrow> False
   | Some n \<Rightarrow>
       let qs = parents_of rt (fst loc) (deps_of (n_action n)) in
       (n_valid n \<longleftrightarrow> all_resolved rt (fst loc) (deps_of (n_action n)) \<and> list_all n_valid qs) \<and>
       n_earliest n = fold max (map (\<lambda>q. n_earliest q + delay q) qs) (base_earliest rt n) \<and>
       n_expected n = fold max (map (\<lambda>q. n_expected q + delay q) qs) (base_expected rt n) \<and>
       n_latest n = fold max (map (\<lambda>q. n_latest q + delay q) qs) (base_latest rt n))"

lemma base_window_simps [simp]:
  "n_valid (base_window rt n)" "n_earliest (base_window rt n) = base_earliest rt n"
  "n_expected (base_window rt n) = base_expected rt n" "n_latest (base_window rt n) = base_latest rt n"
  "n_critical (base_window rt n) = 0" "same_static n (base_window rt n)"
  by (simp_all add: base_window_def base_earliest_def base_expected_def base_latest_def own_decision_def
      same_static_def Let_def split: option.splits)

definition windowed :: "'k runtime \<Rightarrow> location \<Rightarrow> 'k node \<Rightarrow> 'k node" where
  "windowed rt loc n = fold (relax rt (fst loc)) (deps_of (n_action n)) (base_window rt n)"

lemma windowed_static: "same_static n (windowed rt loc n)"
  unfolding windowed_def by (rule same_static_trans [OF base_window_simps(6) fold_relax_static])

lemma windowed_critical [simp]: "n_critical (windowed rt loc n) = 0"
  by (simp add: windowed_def)

lemma forward_node_at:
  "node_at rt loc = Some n \<Longrightarrow> node_at (forward_node loc rt) =
     (node_at rt)(loc \<mapsto> windowed rt loc n)"
  by (auto simp: forward_node_def windowed_def)

lemma forward_static: "static_eq rt (forward_node loc rt)"
  by (cases "node_at rt loc")
    (simp_all add: forward_node_def static_eq_set windowed_static flip: windowed_def)

subsection \<open>Order of a graph\<close>

definition parent_locations :: "'k runtime \<Rightarrow> location \<Rightarrow> location set" where
  "parent_locations rt loc = (case node_at rt loc of
     None \<Rightarrow> {} | Some n \<Rightarrow> {q. \<exists>d\<in>set (deps_of (n_action n)). parent rt (fst loc) d = Some q})"

lemma parent_exists: "parent rt p d = Some q \<Longrightarrow> node_at rt q \<noteq> None"
  by (auto simp: parent_def split: option.splits if_splits)

lemma parents_of_cong:
  assumes "static_eq rt rt'" and "\<And>q d. d \<in> set ds \<Longrightarrow> parent rt p d = Some q \<Longrightarrow> node_at rt' q = node_at rt q"
  shows "parents_of rt' p ds = parents_of rt p ds" and
    "all_resolved rt' p ds = all_resolved rt p ds"
proof -
  have "resolved rt' p d = resolved rt p d" if "d \<in> set ds" for d
    using assms(2) [OF that] static_eq_parent [OF assms(1)]
    by (cases "parent rt p d") (auto simp: resolved_def)
  then show "parents_of rt' p ds = parents_of rt p ds"
    and "all_resolved rt' p ds = all_resolved rt p ds"
    by (auto simp: all_resolved_def parents_of_def List.map_filter_def list_all_iff intro!: map_cong filter_cong)
qed

lemma base_cong:
  assumes "static_eq rt rt'" and "same_static n n'"
  shows "base_earliest rt' n' = base_earliest rt n" "base_expected rt' n' = base_expected rt n"
    "base_latest rt' n' = base_latest rt n"
  using assms by (simp_all add: base_earliest_def base_expected_def base_latest_def own_decision_def
      node_settlement_def node_opportunity_def static_eq_def same_static_def split: option.splits)

text \<open>A window depends only on the node and its parents.\<close>

lemma window_ok_cong:
  assumes "static_eq rt rt'" and "node_at rt' loc = node_at rt loc"
    and "\<And>q. q \<in> parent_locations rt loc \<Longrightarrow> node_at rt' q = node_at rt q"
  shows "window_ok rt' loc = window_ok rt loc"
proof (cases "node_at rt loc")
  case (Some n)
  have p: "\<And>q d. d \<in> set (deps_of (n_action n)) \<Longrightarrow> parent rt (fst loc) d = Some q \<Longrightarrow> node_at rt' q = node_at rt q"
    using assms(3) Some by (auto simp: parent_locations_def)
  show ?thesis
    using assms(2) Some base_cong [OF assms(1), of n n]
    by (simp add: window_ok_def Let_def parents_of_cong(1) [OF assms(1) p] parents_of_cong(2) [OF assms(1) p])
qed (use assms in \<open>simp add: window_ok_def\<close>)

lemma window_ok_forward:
  assumes "node_at rt loc = Some n" and "loc \<notin> parent_locations rt loc"
  shows "window_ok (forward_node loc rt) loc"
proof -
  let ?rt' = "forward_node loc rt" and ?n' = "windowed rt loc n"
  have st: "static_eq rt ?rt'" by (rule forward_static)
  have n': "node_at ?rt' loc = Some ?n'" using assms(1) by (simp add: forward_node_at)
  have act: "n_action ?n' = n_action n" using windowed_static [of n rt loc] by (simp add: same_static_def)
  have p: "node_at ?rt' q = node_at rt q"
    if "d \<in> set (deps_of (n_action n))" "parent rt (fst loc) d = Some q" for q d
    using that assms by (auto simp: forward_node_at parent_locations_def)
  note cong = parents_of_cong(1) [OF st p, of "deps_of (n_action n)" "fst loc"]
    parents_of_cong(2) [OF st p, of "deps_of (n_action n)" "fst loc"] base_cong [OF st windowed_static [of n rt loc]]
  show ?thesis
    unfolding window_ok_def n' option.case Let_def act
    by (simp add: cong) (simp add: windowed_def fold_relax)
qed

definition ordered_in :: "'k runtime \<Rightarrow> location list \<Rightarrow> bool" where
  "ordered_in rt ord \<longleftrightarrow> distinct ord \<and> (\<forall>loc\<in>set ord. node_at rt loc \<noteq> None) \<and>
     (\<forall>us loc vs. ord = us @ loc # vs \<longrightarrow> parent_locations rt loc \<subseteq> set us)"

lemma ordered_in_snocD:
  assumes "ordered_in rt (us @ [loc])"
  shows "ordered_in rt us" "node_at rt loc \<noteq> None" "loc \<notin> set us" "parent_locations rt loc \<subseteq> set us"
proof -
  have split: "\<And>xs l ys. us @ [loc] = xs @ l # ys \<Longrightarrow> parent_locations rt l \<subseteq> set xs"
    using assms unfolding ordered_in_def by blast
  have "parent_locations rt l \<subseteq> set xs" if "us = xs @ l # ys" for xs l ys
    using split [of xs l "ys @ [loc]"] that by simp
  with assms show "ordered_in rt us" unfolding ordered_in_def by auto
  show "parent_locations rt loc \<subseteq> set us" using split [of us loc "[]"] by simp
qed (use assms in \<open>auto simp: ordered_in_def\<close>)

lemma ordered_in_before: "ordered_in rt ord \<Longrightarrow> ord = us @ l # vs \<Longrightarrow> parent_locations rt l \<subseteq> set us"
  unfolding ordered_in_def by blast

lemma parent_locations_static: "static_eq rt rt' \<Longrightarrow> parent_locations rt' = parent_locations rt"
proof (rule ext)
  fix loc assume st: "static_eq rt rt'"
  then have "rel_option same_static (node_at rt loc) (node_at rt' loc)" by (simp add: static_eq_def)
  then show "parent_locations rt' loc = parent_locations rt loc"
    by (cases "node_at rt loc"; cases "node_at rt' loc")
      (auto simp: parent_locations_def same_static_def static_eq_parent [OF st])
qed

lemma forward_pass:
  assumes "ordered_in rt ord"
  shows "static_eq rt (fold forward_node ord rt) \<and>
    (\<forall>l. l \<notin> set ord \<longrightarrow> node_at (fold forward_node ord rt) l = node_at rt l) \<and>
    (\<forall>l\<in>set ord. window_ok (fold forward_node ord rt) l \<and>
       map_option n_critical (node_at (fold forward_node ord rt) l) = Some 0)"
  using assms
proof (induction ord rule: rev_induct)
  case (snoc loc us)
  note o = ordered_in_snocD [OF snoc.prems]
  let ?r = "fold forward_node us rt"
  let ?r' = "forward_node loc ?r"
  from snoc.IH [OF o(1)] have st: "static_eq rt ?r"
    and out: "\<And>l. l \<notin> set us \<Longrightarrow> node_at ?r l = node_at rt l"
    and ok: "\<And>l. l \<in> set us \<Longrightarrow> window_ok ?r l \<and> map_option n_critical (node_at ?r l) = Some 0"
    by auto
  obtain n where n: "node_at ?r loc = Some n"
    using static_eq_dom [OF st, of loc] o(2) by auto
  have pl: "parent_locations ?r = parent_locations rt" by (rule parent_locations_static [OF st])
  have at: "node_at ?r' = (node_at ?r)(loc \<mapsto> windowed ?r loc n)" by (rule forward_node_at [OF n])
  have new: "window_ok ?r' loc"
    by (rule window_ok_forward [OF n]) (use o(3,4) pl in auto)
  have old: "window_ok ?r' l" if "l \<in> set us" for l
  proof -
    have "l \<noteq> loc" using that o(3) by auto
    moreover have "loc \<notin> parent_locations ?r l"
    proof -
      from that obtain xs ys where "us = xs @ l # ys" by (meson split_list)
      with ordered_in_before [OF o(1)] o(3) pl show ?thesis by fastforce
    qed
    ultimately have "window_ok ?r' l = window_ok ?r l"
      by (intro window_ok_cong [OF forward_static]) (auto simp: at)
    with ok [OF that] show ?thesis by simp
  qed
  show ?case
    using static_eq_trans [OF st forward_static [of ?r loc]] out new old ok
    by (auto simp: at)
qed simp

subsection \<open>The backward pass\<close>

definition raised :: "bool \<Rightarrow> nat \<Rightarrow> 'k node \<Rightarrow> 'k node" where
  "raised b steps n = (if b then n\<lparr>n_critical := max (n_critical n) steps\<rparr> else n)"

lemma raised_static [simp]: "same_static n (raised b steps n)"
  by (simp add: raised_def same_static_def)

lemma map_raised_False [simp]: "map_option (raised False steps) x = x"
  by (cases x) (simp_all add: raised_def)

lemma raise_parent_at:
  "node_at (raise_parent p steps d rt) l = map_option (raised (parent rt p d = Some l) steps) (node_at rt l)"
proof (cases "parent rt p d")
  case None
  then show ?thesis by (simp add: raise_parent_def)
next
  case (Some q)
  with parent_exists [OF Some] show ?thesis
    by (auto simp: raise_parent_def raised_def)
qed

lemma raise_parent_opps [simp]: "rt_opps (raise_parent p steps d rt) = rt_opps rt"
  by (auto simp: raise_parent_def split: option.splits)

lemma rel_map_option: "(\<And>n. R n (f n)) \<Longrightarrow> rel_option R x (map_option f x)"
  by (cases x) auto

lemma raise_parent_static: "static_eq rt (raise_parent p steps d rt)"
  by (simp add: static_eq_def raise_parent_at rel_map_option)

lemma raised_raised: "raised b s (raised c s n) = raised (b \<or> c) s n"
  by (simp add: raised_def)

lemma raise_fold:
  "static_eq rt (fold (raise_parent p steps) ds rt) \<and>
   (\<forall>l. node_at (fold (raise_parent p steps) ds rt) l =
      map_option (raised (\<exists>d\<in>set ds. parent rt p d = Some l) steps) (node_at rt l))"
proof (induction ds arbitrary: rt)
  case Nil
  then show ?case by simp
next
  case (Cons d ds)
  let ?r = "raise_parent p steps d rt"
  have st: "static_eq rt ?r" by (rule raise_parent_static)
  have par: "parent ?r = parent rt" by (rule static_eq_parent [OF st])
  from Cons.IH [of ?r] static_eq_trans [OF st] show ?case
    by (auto simp: par raise_parent_at option.map_comp comp_def raised_raised disj_commute)
qed

lemma backward_node_at:
  assumes "node_at rt loc = Some n" and "loc \<notin> parent_locations rt loc"
  shows "static_eq rt (backward_node loc rt)"
    and "node_at (backward_node loc rt) l =
      (if l = loc then Some (n\<lparr>n_critical := n_critical n + 1\<rparr>)
       else map_option (raised (l \<in> parent_locations rt loc) (n_critical n + 1)) (node_at rt l))"
proof -
  define k where "k = n_critical n + 1"
  define r where "r = set_node loc (n\<lparr>n_critical := k\<rparr>) rt"
  have st: "static_eq rt r"
    unfolding r_def by (rule static_eq_set [OF assms(1)]) (simp add: same_static_def)
  have par: "parent r = parent rt" by (rule static_eq_parent [OF st])
  have b: "backward_node loc rt = fold (raise_parent (fst loc) k) (deps_of (n_action n)) r"
    using assms(1) by (simp add: backward_node_def Let_def k_def r_def)
  note f = raise_fold [of r "fst loc" k "deps_of (n_action n)"]
  show "static_eq rt (backward_node loc rt)" unfolding b using static_eq_trans [OF st] f by blast
  have pl: "(\<exists>d\<in>set (deps_of (n_action n)). parent rt (fst loc) d = Some l) \<longleftrightarrow> l \<in> parent_locations rt loc" for l
    using assms(1) by (simp add: parent_locations_def)
  have "node_at (backward_node loc rt) l =
      map_option (raised (\<exists>d\<in>set (deps_of (n_action n)). parent r (fst loc) d = Some l) k) (node_at r l)"
    unfolding b using f by blast
  also have "\<dots> = map_option (raised (l \<in> parent_locations rt loc) k) (node_at r l)"
    by (simp only: par pl)
  finally show "node_at (backward_node loc rt) l =
      (if l = loc then Some (n\<lparr>n_critical := n_critical n + 1\<rparr>)
       else map_option (raised (l \<in> parent_locations rt loc) (n_critical n + 1)) (node_at rt l))"
    using assms by (auto simp: r_def k_def raised_def)
qed

definition crit :: "'k runtime \<Rightarrow> location \<Rightarrow> nat" where
  "crit rt l = (case node_at rt l of Some n \<Rightarrow> n_critical n | None \<Rightarrow> 0)"

definition only_critical :: "'k node \<Rightarrow> 'k node \<Rightarrow> bool" where
  "only_critical n n' \<longleftrightarrow> same_static n n' \<and> n_valid n' = n_valid n \<and> n_earliest n' = n_earliest n \<and>
     n_expected n' = n_expected n \<and> n_latest n' = n_latest n"

definition critical_eq :: "'k runtime \<Rightarrow> 'k runtime \<Rightarrow> bool" where
  "critical_eq rt rt' \<longleftrightarrow> (\<forall>l. rel_option only_critical (node_at rt l) (node_at rt' l)) \<and> rt_opps rt' = rt_opps rt"

lemma only_critical_refl [simp]: "only_critical n n"
  by (simp add: only_critical_def)

lemma only_critical_trans: "only_critical a b \<Longrightarrow> only_critical b c \<Longrightarrow> only_critical a c"
  unfolding only_critical_def by (metis same_static_trans)

lemma critical_eq_trans: "critical_eq a b \<Longrightarrow> critical_eq b c \<Longrightarrow> critical_eq a c"
proof -
  assume ab: "critical_eq a b" and bc: "critical_eq b c"
  have "rel_option only_critical (node_at a l) (node_at c l)" for l
  proof -
    from ab bc have 1: "rel_option only_critical (node_at a l) (node_at b l)"
      and 2: "rel_option only_critical (node_at b l) (node_at c l)"
      by (simp_all add: critical_eq_def)
    show ?thesis
      using 1 2 only_critical_trans
      by (cases "node_at a l"; cases "node_at b l"; cases "node_at c l") (simp_all, blast)
  qed
  with ab bc show ?thesis by (simp add: critical_eq_def)
qed

lemma critical_eq_refl [simp]: "critical_eq rt rt"
  by (auto simp: critical_eq_def intro: option.rel_refl)

lemma critical_static: "critical_eq rt rt' \<Longrightarrow> static_eq rt rt'"
  unfolding critical_eq_def static_eq_def
  by (metis (mono_tags, lifting) only_critical_def option.rel_mono_strong)

lemma only_critical_raised [simp]: "only_critical n (raised b k n)"
  by (simp add: raised_def only_critical_def same_static_def)

lemma backward_critical_eq:
  assumes "node_at rt loc = Some n" and "loc \<notin> parent_locations rt loc"
  shows "critical_eq rt (backward_node loc rt)"
proof -
  have "rel_option only_critical (node_at rt l) (node_at (backward_node loc rt) l)" for l
    using assms by (simp add: backward_node_at(2) rel_map_option only_critical_def [of n] same_static_def)
  moreover have "rt_opps (backward_node loc rt) = rt_opps rt"
    using backward_node_at(1) [OF assms] by (simp add: static_eq_def)
  ultimately show ?thesis by (simp add: critical_eq_def)
qed

lemma backward_crit:
  assumes "node_at rt loc = Some n" and "loc \<notin> parent_locations rt loc"
  shows "crit (backward_node loc rt) l =
    (if l = loc then crit rt l + 1
     else if l \<in> parent_locations rt loc then max (crit rt l) (crit rt loc + 1) else crit rt l)"
proof -
  have "node_at rt l \<noteq> None" if "l \<in> parent_locations rt loc"
    using that parent_exists [of rt] unfolding parent_locations_def
    by (cases "node_at rt loc") (simp_all, blast)
  then show ?thesis
    using assms by (auto simp: crit_def backward_node_at(2) raised_def split: option.splits)
qed

text \<open>
  After the nodes \<open>vs\<close> of an order \<open>us @ vs\<close> were processed, last first: a processed node counts one
  more than its largest child, a node still to come holds the largest count of its processed children.
\<close>

definition child :: "'k runtime \<Rightarrow> location \<Rightarrow> location \<Rightarrow> bool" where
  "child rt c q \<longleftrightarrow> q \<in> parent_locations rt c"

definition steps_ok :: "'k runtime \<Rightarrow> location set \<Rightarrow> location set \<Rightarrow> 'k runtime \<Rightarrow> bool" where
  "steps_ok rt U V r \<longleftrightarrow>
     (\<forall>q\<in>U. (\<forall>c\<in>V. child rt c q \<longrightarrow> crit r c + of_bool (q \<in> V) \<le> crit r q) \<and>
       (crit r q = of_bool (q \<in> V) \<or>
        (\<exists>c\<in>V. child rt c q \<and> crit r q = crit r c + of_bool (q \<in> V))))"

lemma steps_ok_backward:
  assumes ok: "steps_ok rt U V r" and st: "static_eq rt r" and n: "node_at r loc = Some n"
    and new: "loc \<notin> V" and before: "parent_locations rt loc \<inter> insert loc V = {}"
  shows "steps_ok rt U (insert loc V) (backward_node loc r)"
proof -
  have pl: "parent_locations r = parent_locations rt" by (rule parent_locations_static [OF st])
  have c: "crit (backward_node loc r) l =
    (if l = loc then crit r l + 1
     else if child rt loc l then max (crit r l) (crit r loc + 1) else crit r l)" for l
    using backward_crit [OF n, of l] before by (simp add: pl child_def)
  have away: "\<forall>l. l = loc \<or> l \<in> V \<longrightarrow> \<not> child rt loc l"
    using before by (auto simp: child_def)
  show ?thesis
    unfolding steps_ok_def
  proof (intro ballI conjI impI)
    fix q c assume q: "q \<in> U" "c \<in> insert loc V" "child rt c q"
    have old: "crit r c + of_bool (q \<in> V) \<le> crit r q" if "c \<in> V"
      using ok q that unfolding steps_ok_def by blast
    show "crit (backward_node loc r) c + of_bool (q \<in> insert loc V) \<le> crit (backward_node loc r) q"
    proof (cases "c = loc")
      case True
      with q(3) away have "q \<noteq> loc" "q \<notin> V" by blast+
      with True q(3) show ?thesis by (simp add: c)
    next
      case False
      with q(2) have "c \<in> V" by simp
      with away have "\<not> child rt loc c" by blast
      with False old [OF \<open>c \<in> V\<close>] new away show ?thesis
        by (cases "q = loc"; cases "q \<in> V") (simp_all add: c max_def)
    qed
  next
    fix q assume q: "q \<in> U"
    have old: "crit r q = of_bool (q \<in> V) \<or> (\<exists>c\<in>V. child rt c q \<and> crit r q = crit r c + of_bool (q \<in> V))"
      using ok q unfolding steps_ok_def by blast
    have stays: "crit (backward_node loc r) c' = crit r c'" if "c' \<in> V" for c'
      using that away new by (auto simp: c)
    show "crit (backward_node loc r) q = of_bool (q \<in> insert loc V) \<or>
        (\<exists>c\<in>insert loc V. child rt c q \<and>
          crit (backward_node loc r) q = crit (backward_node loc r) c + of_bool (q \<in> insert loc V))"
    proof (cases "child rt loc q \<and> crit r q \<le> crit r loc + 1")
      case True
      with away have "q \<noteq> loc" "q \<notin> V" by blast+
      with True have "crit (backward_node loc r) q = crit (backward_node loc r) loc + of_bool (q \<in> insert loc V)"
        by (simp add: c)
      with True show ?thesis by blast
    next
      case False
      have q': "crit (backward_node loc r) q = crit r q + of_bool (q = loc)"
        using False away by (cases "q = loc") (auto simp: c)
      from old show ?thesis
      proof
        assume "crit r q = of_bool (q \<in> V)"
        with q' new show ?thesis by (cases "q = loc") simp_all
      next
        assume "\<exists>c\<in>V. child rt c q \<and> crit r q = crit r c + of_bool (q \<in> V)"
        then obtain d where d: "d \<in> V" "child rt d q" "crit r q = crit r d + of_bool (q \<in> V)" by blast
        then have "crit (backward_node loc r) q = crit (backward_node loc r) d + of_bool (q \<in> insert loc V)"
          using q' stays [OF d(1)] new by (cases "q = loc") simp_all
        with d show ?thesis by blast
      qed
    qed
  qed
qed

lemma backward_pass:
  assumes ord: "ordered_in rt (us @ vs)" and zero: "\<And>q. q \<in> set (us @ vs) \<Longrightarrow> crit rt q = 0"
  shows "critical_eq rt (fold backward_node (rev vs) rt) \<and>
    steps_ok rt (set (us @ vs)) (set vs) (fold backward_node (rev vs) rt)"
  using assms
proof (induction vs arbitrary: us)
  case Nil
  then show ?case by (simp add: steps_ok_def)
next
  case (Cons loc vs)
  let ?r = "fold backward_node (rev vs) rt"
  from Cons.IH [of "us @ [loc]"] Cons.prems
  have st: "critical_eq rt ?r" and ok: "steps_ok rt (set (us @ loc # vs)) (set vs) ?r"
    by simp_all
  have before: "parent_locations rt loc \<subseteq> set us"
    by (rule ordered_in_before [OF Cons.prems(1)]) simp
  have d: "loc \<notin> set us" "loc \<notin> set vs" "set us \<inter> set vs = {}" "node_at rt loc \<noteq> None"
    using Cons.prems(1) by (auto simp: ordered_in_def)
  note static = critical_static [OF st]
  obtain n where n: "node_at ?r loc = Some n" using static_eq_dom [OF static, of loc] d(4) by auto
  have "loc \<notin> parent_locations ?r loc"
    using parent_locations_static [OF static] before d(1) by auto
  from backward_critical_eq [OF n this] steps_ok_backward [OF ok static n d(2)] before d st
  show ?case by (auto intro: critical_eq_trans)
qed

subsection \<open>Both passes\<close>

lemma ordered_in_static: "static_eq rt rt' \<Longrightarrow> ordered_in rt' ord = ordered_in rt ord"
  by (simp only: ordered_in_def parent_locations_static static_eq_dom)

lemma parents_critical:
  assumes "critical_eq rt rt'"
  shows "list_all2 only_critical (parents_of rt p ds) (parents_of rt' p ds)"
    and "all_resolved rt' p ds = all_resolved rt p ds"
proof -
  have r: "rel_option only_critical (resolved rt p d) (resolved rt' p d)" for d
    using assms static_eq_parent [OF critical_static [OF assms]]
    by (cases "parent rt p d") (simp_all add: resolved_def critical_eq_def)
  then have "resolved rt' p d \<noteq> None \<longleftrightarrow> resolved rt p d \<noteq> None" for d
    using r [of d] by (cases "resolved rt p d"; cases "resolved rt' p d") auto
  then show "all_resolved rt' p ds = all_resolved rt p ds" by (simp add: all_resolved_def)
  show "list_all2 only_critical (parents_of rt p ds) (parents_of rt' p ds)"
  proof (induction ds)
    case (Cons d ds)
    with r [of d] show ?case by (cases "resolved rt p d"; cases "resolved rt' p d") auto
  qed simp
qed

lemma only_critical_maps:
  assumes "list_all2 only_critical qs qs'"
  shows "map (\<lambda>q. n_earliest q + delay q) qs' = map (\<lambda>q. n_earliest q + delay q) qs"
    "map (\<lambda>q. n_expected q + delay q) qs' = map (\<lambda>q. n_expected q + delay q) qs"
    "map (\<lambda>q. n_latest q + delay q) qs' = map (\<lambda>q. n_latest q + delay q) qs"
    "list_all n_valid qs' = list_all n_valid qs"
  using assms by (induction rule: list_all2_induct) (auto simp: only_critical_def same_static_def delay_def)

lemma window_ok_critical:
  assumes "critical_eq rt rt'" and "window_ok rt l"
  shows "window_ok rt' l"
proof -
  have "rel_option only_critical (node_at rt l) (node_at rt' l)" using assms(1) by (simp add: critical_eq_def)
  with assms(2) obtain n n' where n: "node_at rt l = Some n" "node_at rt' l = Some n'" "only_critical n n'"
    by (auto simp: window_ok_def option_rel_Some1 split: option.splits)
  then have s: "same_static n n'" by (simp add: only_critical_def)
  note b = base_cong [OF critical_static [OF assms(1)] s]
  have act: "n_action n' = n_action n" using s by (simp add: same_static_def)
  note p = parents_critical [OF assms(1), of "fst l" "deps_of (n_action n)"]
  show ?thesis
    using assms(2) n unfolding window_ok_def n option.case Let_def act p(2) b only_critical_maps [OF p(1)]
    by (simp add: only_critical_def)
qed

theorem recompute_sound:
  assumes "ordered_in rt ord"
  shows "static_eq rt (recompute ord rt) \<and>
    (\<forall>loc\<in>set ord. window_ok (recompute ord rt) loc) \<and>
    steps_ok rt (set ord) (set ord) (recompute ord rt) \<and>
    (\<forall>l. l \<notin> set ord \<longrightarrow> rel_option only_critical (node_at rt l) (node_at (recompute ord rt) l))"
proof -
  let ?f = "fold forward_node ord rt"
  note fw = forward_pass [OF assms]
  then have st: "static_eq rt ?f" by blast
  have pl: "parent_locations ?f = parent_locations rt" by (rule parent_locations_static [OF st])
  have ord: "ordered_in ?f ([] @ ord)"
    using assms ordered_in_static [OF st] by simp
  have zero: "crit ?f q = 0" if "q \<in> set ([] @ ord)" for q
    using fw that by (force simp: crit_def split: option.splits)
  note bw = backward_pass [OF ord zero]
  have eq: "recompute ord rt = fold backward_node (rev ord) ?f" by (simp add: recompute_def)
  have "steps_ok rt (set ord) (set ord) (recompute ord rt)"
    using bw by (simp add: eq steps_ok_def child_def pl)
  moreover have "rel_option only_critical (node_at rt l) (node_at (recompute ord rt) l)" if "l \<notin> set ord" for l
  proof -
    have "node_at ?f l = node_at rt l" using fw that by blast
    moreover have "rel_option only_critical (node_at ?f l) (node_at (recompute ord rt) l)"
      using bw unfolding eq critical_eq_def by blast
    ultimately show ?thesis by simp
  qed
  moreover have c: "critical_eq ?f (recompute ord rt)" using bw unfolding eq by blast
  moreover have "window_ok (recompute ord rt) loc" if "loc \<in> set ord" for loc
    by (rule window_ok_critical [OF c]) (use fw that in blast)
  ultimately show ?thesis
    using static_eq_trans [OF st critical_static [OF c]] by blast
qed

end
