(* ===== verification/Plan_Graph.thy ===== *)
theory Plan_Graph
  imports Plan_Windows
begin

text \<open>
  The graph invariant of \<open>PlanRuntime\<close> (\<open>src/plan-runtime.ts\<close>): node identities are pinned to a
  revision, dependencies resolve or dangle, and the dependency graph over all plans is acyclic.
  It is kept by every operation, so the order of the joined graph in \<open>commit\<close>, which the source
  asserts to exist, does exist.
\<close>

declare split_paired_All [simp del] split_paired_Ex [simp del]

subsection \<open>Comparing dependency lists\<close>

definition balance :: "(dependency, int) jsmap \<Rightarrow> dependency \<Rightarrow> int" where
  "balance m d = (case map_of m d of Some n \<Rightarrow> n | None \<Rightarrow> 0)"

definition counted :: "(dependency, int) jsmap \<Rightarrow> bool" where
  "counted m \<longleftrightarrow> (\<forall>d n. map_of m d = Some n \<longrightarrow> n \<noteq> 0)"

lemma bump_balance: "balance (bump delta d m) e = balance m e + (if e = d then delta else 0)"
  by (auto simp: balance_def bump_def Let_def split: option.splits)

lemma bump_counted: "counted m \<Longrightarrow> counted (bump delta d m)"
  by (auto simp: counted_def bump_def Let_def)

lemma fold_bump:
  "counted m \<Longrightarrow> counted (fold (bump delta) ds m)"
  "balance (fold (bump delta) ds m) e = balance m e + delta * int (count (mset ds) e)"
  by (induction ds arbitrary: m) (auto simp: bump_counted bump_balance algebra_simps)

lemma counted_zero:
  assumes "counted m"
  shows "m = [] \<longleftrightarrow> (\<forall>d. balance m d = 0)"
proof
  assume zero: "\<forall>d. balance m d = 0"
  show "m = []"
  proof (cases m)
    case (Cons e es)
    then have "map_of m (fst e) = Some (snd e)" by (cases e) simp
    with assms have "snd e \<noteq> 0" "balance m (fst e) = snd e"
      unfolding counted_def balance_def by auto
    with zero show ?thesis by simp
  qed
qed (simp add: balance_def)

lemma same_dependencies:
  assumes "samePlanActionExecution l r"
  shows "mset (deps_of l) = mset (deps_of r)"
proof (rule multiset_eqI)
  fix d
  let ?m = "fold (bump (-1)) (deps_of r) (fold (bump 1) (deps_of l) [])"
  have "?m = []" using assms by (simp add: samePlanActionExecution_def)
  then have "balance ?m d = 0" by (simp add: balance_def)
  then show "count (mset (deps_of l)) d = count (mset (deps_of r)) d"
    by (simp add: fold_bump(2)) (simp add: balance_def)
qed

text \<open>The counting comparison of two dependency lists: for equal type, operation, tool and input it
  holds exactly when one list is a permutation of the other.\<close>

theorem samePlanActionExecution_ignores_order:
  "samePlanActionExecution l r =
     (pa_type l = pa_type r \<and> map_option op_object (pa_operation l) = map_option op_object (pa_operation r) \<and>
      pa_tool l = pa_tool r \<and> deep_equal (pa_input l) (pa_input r) \<and> mset (deps_of l) = mset (deps_of r))"
proof -
  let ?m = "fold (bump (-1)) (deps_of r) (fold (bump 1) (deps_of l) [])"
  have "counted ?m" by (intro fold_bump(1)) (simp add: counted_def)
  then have "?m = [] \<longleftrightarrow> (\<forall>d. balance ?m d = 0)" by (rule counted_zero)
  also have "\<dots> \<longleftrightarrow> (\<forall>d. count (mset (deps_of l)) d = count (mset (deps_of r)) d)"
    by (simp add: fold_bump(2)) (simp add: balance_def)
  also have "\<dots> \<longleftrightarrow> mset (deps_of l) = mset (deps_of r)" by (simp add: multiset_eq_iff)
  finally show ?thesis by (simp add: samePlanActionExecution_def)
qed

subsection \<open>The actions of an update\<close>

definition keyed :: "(string, plan_action) jsmap \<Rightarrow> bool" where
  "keyed m \<longleftrightarrow> ms_wf m \<and> list_all (\<lambda>(i, a). pa_id a = i) m"

lemma keyedD: "keyed m \<Longrightarrow> map_of m i = Some a \<Longrightarrow> pa_id a = i"
  by (auto simp: keyed_def list_all_iff dest!: map_of_SomeD)

lemma keyed_set: "keyed m \<Longrightarrow> keyed (ms_set (pa_id a) a m)"
  by (auto simp: keyed_def list_all_iff set_ms_set)

lemma keyed_del: "keyed m \<Longrightarrow> keyed (ms_del i m)"
  by (auto simp: keyed_def list_all_iff)

lemma keyed_set_actions: "keyed m \<Longrightarrow> keyed (set_actions as m)"
  unfolding set_actions_def by (induction as arbitrary: m) (auto simp: keyed_set)

lemma keyed_dels: "keyed m \<Longrightarrow> keyed (fold ms_del is m)"
  by (induction "is" arbitrary: m) (auto simp: keyed_del)

lemma keyed_values: "keyed m \<Longrightarrow> a \<in> set (ms_vals m) \<longleftrightarrow> map_of m (pa_id a) = Some a"
  by (force simp: keyed_def list_all_iff map_of_in_set_iff rev_image_eqI dest: map_of_SomeD)

lemma set_actions_lookup:
  "map_of (set_actions as m) i = (if i \<in> pa_id ` set as then map_of (set_actions as m) i else map_of m i) \<and>
   (map_of (set_actions as m) i = Some a \<longrightarrow> a \<in> set as \<or> map_of m i = Some a \<and> i \<notin> pa_id ` set as)"
  unfolding set_actions_def
proof (induction as arbitrary: m)
  case (Cons b bs)
  from Cons.IH [of "ms_set (pa_id b) b m"] show ?case
    by (auto simp: image_iff split: if_splits)
qed simp

lemma dels_lookup: "map_of (fold ms_del is m) i = Some a \<Longrightarrow> map_of m i = Some a"
proof (induction "is" arbitrary: m)
  case (Cons j js)
  from Cons.IH [of "ms_del j m"] Cons.prems show ?case by (simp split: if_splits)
qed simp

subsection \<open>Replaced ids\<close>

lemma replaced_ids_append:
  "replaced_ids previous touched (us @ vs) = fold (\<lambda>a replaced.
     case map_of previous (pa_id a) of
       None \<Rightarrow> replaced
     | Some old \<Rightarrow>
         if (pa_id a \<in> touched \<and> \<not> samePlanActionExecution old a \<or>
             list_ex (\<lambda>d. \<not> cross_plan d \<and> dep_action d \<in> set replaced) (deps_of a)) \<and>
            pa_id a \<notin> set replaced
         then replaced @ [pa_id a] else replaced) vs (replaced_ids previous touched us)"
  by (simp add: replaced_ids_def)

lemma replaced_ids_snoc:
  "replaced_ids previous touched (us @ [a]) =
     (case map_of previous (pa_id a) of
       None \<Rightarrow> replaced_ids previous touched us
     | Some old \<Rightarrow>
         if (pa_id a \<in> touched \<and> \<not> samePlanActionExecution old a \<or>
             list_ex (\<lambda>d. \<not> cross_plan d \<and> dep_action d \<in> set (replaced_ids previous touched us)) (deps_of a)) \<and>
            pa_id a \<notin> set (replaced_ids previous touched us)
         then replaced_ids previous touched us @ [pa_id a] else replaced_ids previous touched us)"
  by (simp add: replaced_ids_append)

lemma replaced_ids_mono: "set (replaced_ids previous touched us) \<subseteq> set (replaced_ids previous touched (us @ vs))"
proof (induction vs rule: rev_induct)
  case (snoc a vs)
  have "set (replaced_ids previous touched (us @ vs)) \<subseteq> set (replaced_ids previous touched ((us @ vs) @ [a]))"
    unfolding replaced_ids_snoc by (auto split: option.splits)
  with snoc show ?case by simp
qed simp

lemma replaced_ids_sub: "set (replaced_ids previous touched us) \<subseteq> pa_id ` set us \<inter> dom (map_of previous)"
proof (induction us rule: rev_induct)
  case (snoc a us)
  then show ?case unfolding replaced_ids_snoc by (auto split: option.splits if_splits)
qed (simp add: replaced_ids_def)

lemma replaced_later:
  assumes "i \<in> set (replaced_ids previous touched (us @ vs))" and "i \<notin> pa_id ` set vs"
  shows "i \<in> set (replaced_ids previous touched us)"
  using assms
proof (induction vs rule: rev_induct)
  case (snoc a vs)
  have "i \<in> set (replaced_ids previous touched ((us @ vs) @ [a]))" using snoc.prems(1) by simp
  then have "i \<in> set (replaced_ids previous touched (us @ vs))"
    unfolding replaced_ids_snoc using snoc.prems(2) by (auto split: option.splits if_splits)
  with snoc show ?case by simp
qed simp

text \<open>What it means that an action with a previous node was not replaced.\<close>

lemma not_replaced:
  assumes "distinct (map pa_id ordered)" and "ordered = us @ a # vs"
    and "map_of previous (pa_id a) = Some old" and "pa_id a \<notin> set (replaced_ids previous touched ordered)"
    and below: "\<And>d. d \<in> set (deps_of a) \<Longrightarrow> \<not> cross_plan d \<Longrightarrow> dep_action d \<in> pa_id ` set us"
  shows "(pa_id a \<in> touched \<longrightarrow> samePlanActionExecution old a) \<and>
    (\<forall>d\<in>set (deps_of a). \<not> cross_plan d \<longrightarrow> dep_action d \<notin> set (replaced_ids previous touched ordered))"
proof -
  have o: "ordered = (us @ [a]) @ vs" using assms(2) by simp
  have "pa_id a \<notin> set (replaced_ids previous touched (us @ [a]))"
    using assms(4) replaced_ids_mono [of previous touched "us @ [a]" vs] unfolding o by blast
  then have *: "\<not> (pa_id a \<in> touched \<and> \<not> samePlanActionExecution old a)"
    "\<And>d. d \<in> set (deps_of a) \<Longrightarrow> \<not> cross_plan d \<Longrightarrow> dep_action d \<notin> set (replaced_ids previous touched us)"
    using assms(3) by (auto simp: replaced_ids_snoc list_ex_iff split: if_splits)
  have "dep_action d \<notin> set (replaced_ids previous touched ordered)"
    if "d \<in> set (deps_of a)" "\<not> cross_plan d" for d
  proof
    assume "dep_action d \<in> set (replaced_ids previous touched ordered)"
    then have "dep_action d \<in> set (replaced_ids previous touched (us @ (a # vs)))" by (simp add: assms(2))
    moreover have "dep_action d \<notin> pa_id ` set (a # vs)"
      using below [OF that] assms(1,2) by auto
    ultimately have "dep_action d \<in> set (replaced_ids previous touched us)" by (rule replaced_later)
    with *(2) [OF that] show False ..
  qed
  with *(1) show ?thesis by blast
qed

subsection \<open>The nodes of the next revision\<close>

lemma next_nodes_keys [simp]:
  "map fst (next_nodes previous replaced touched p source revision anchor as h) = map fst as"
  by (induction previous replaced touched p source revision anchor as h rule: next_nodes.induct)
    (auto split: option.splits)

definition carried :: "(string, 'k node) jsmap \<Rightarrow> string list \<Rightarrow> string \<Rightarrow> bool" where
  "carried previous replaced i \<longleftrightarrow> i \<notin> set replaced \<and> map_of previous i \<noteq> None"

definition next_ok ::
  "(string, 'k node) jsmap \<Rightarrow> string list \<Rightarrow> string set \<Rightarrow> string \<Rightarrow> string \<Rightarrow> nat \<Rightarrow> nat \<Rightarrow> nat \<Rightarrow> nat \<Rightarrow>
     string \<Rightarrow> plan_action \<Rightarrow> 'k node \<Rightarrow> bool" where
  "next_ok previous replaced touched p source revision anchor lo hi i a n \<longleftrightarrow>
     (if carried previous replaced i then n = kept_node touched anchor i a (the (map_of previous i))
      else (\<exists>k. lo \<le> k \<and> k < hi \<and> n = new_node p source revision a anchor k))"

lemma next_ok_mono:
  assumes "next_ok previous replaced touched p source revision anchor lo hi i a n" and "lo' \<le> lo" and "hi \<le> hi'"
  shows "next_ok previous replaced touched p source revision anchor lo' hi' i a n"
proof (cases "carried previous replaced i")
  case False
  then obtain k where "lo \<le> k" "k < hi" "n = new_node p source revision a anchor k"
    using assms(1) by (auto simp: next_ok_def)
  with False assms(2,3) show ?thesis
    unfolding next_ok_def by (simp, intro exI [of _ k]) simp
qed (use assms(1) in \<open>simp add: next_ok_def\<close>)

lemma next_nodes_lookup:
  "map_of (next_nodes previous replaced touched p source revision anchor as h) i = Some n \<Longrightarrow>
    \<exists>a. map_of as i = Some a \<and>
      next_ok previous replaced touched p source revision anchor h (h + length as) i a n"
proof (induction previous replaced touched p source revision anchor as h rule: next_nodes.induct)
  case (2 previous replaced touched p source revision anchor j a as h)
  let ?reuse = "if j \<in> set replaced then None else map_of previous j"
  show ?case
  proof (cases "i = j")
    case True
    with "2.prems" show ?thesis
      by (cases ?reuse) (auto simp: next_ok_def carried_def split: if_splits)
  next
    case False
    show ?thesis
    proof (cases ?reuse)
      case None
      with False "2.prems" have "map_of (next_nodes previous replaced touched p source revision anchor as (Suc h)) i = Some n"
        by simp
      from "2.IH"(1) [OF None this] False show ?thesis
        by (auto elim!: next_ok_mono)
    next
      case (Some m)
      with False "2.prems" have "map_of (next_nodes previous replaced touched p source revision anchor as h) i = Some n"
        by simp
      from "2.IH"(2) [OF Some this] False show ?thesis
        by (auto elim!: next_ok_mono)
    qed
  qed
qed simp

subsection \<open>The invariant\<close>

definition source_of :: "'k runtime \<Rightarrow> string \<Rightarrow> string" where
  "source_of rt p = (case map_of (rt_plans rt) p of Some pl \<Rightarrow> p_source pl | None \<Rightarrow> [])"

definition revision_of :: "'k runtime \<Rightarrow> string \<Rightarrow> nat" where
  "revision_of rt p = (case map_of (rt_plans rt) p of Some pl \<Rightarrow> p_revision pl | None \<Rightarrow> 0)"

definition pinned :: "'k runtime \<Rightarrow> string \<Rightarrow> string \<Rightarrow> string \<Rightarrow> bool" where
  "pinned rt p i text \<longleftrightarrow> map_of (rt_plans rt) p \<noteq> None \<and>
     (\<exists>r\<le>revision_of rt p. text = node_identity_text (source_of rt p) p i r)"

definition dependency_ok :: "'k runtime \<Rightarrow> string \<Rightarrow> dependency \<Rightarrow> bool" where
  "dependency_ok rt p d \<longleftrightarrow>
     (if cross_plan d
      then \<exists>q t. dep_proposal d = Some q \<and> q \<noteq> p \<and> dep_identity d = Some t \<and> pinned rt q (dep_action d) t
      else dep_proposal d = None \<and> node_at rt (p, dep_action d) \<noteq> None)"

definition node_ok :: "'k runtime \<Rightarrow> location \<Rightarrow> 'k node \<Rightarrow> bool" where
  "node_ok rt loc n \<longleftrightarrow> pa_id (n_action n) = snd loc \<and> pinned rt (fst loc) (snd loc) (pi_id (n_identity n)) \<and>
     (\<forall>d\<in>set (deps_of (n_action n)). dependency_ok rt (fst loc) d)"

definition up :: "'k runtime \<Rightarrow> location \<Rightarrow> location \<Rightarrow> bool" where
  "up rt a b \<longleftrightarrow> b \<in> parent_locations rt a"

definition graph_inv :: "'k runtime \<Rightarrow> bool" where
  "graph_inv rt \<longleftrightarrow> (\<forall>p. ms_wf (plan_nodes rt p)) \<and>
     (\<forall>loc n. node_at rt loc = Some n \<longrightarrow> node_ok rt loc n) \<and>
     (\<forall>l. \<not> (up rt)\<^sup>+\<^sup>+ l l)"

lemma graph_invD:
  assumes "graph_inv rt"
  shows "ms_wf (plan_nodes rt p)" "node_at rt loc = Some n \<Longrightarrow> node_ok rt loc n" "\<not> (up rt)\<^sup>+\<^sup>+ l l"
  using assms unfolding graph_inv_def by blast+

lemma pinned_revision:
  "pinned rt p i t \<Longrightarrow> revision_of rt p < r \<Longrightarrow> t \<noteq> node_identity_text (source_of rt p) p i r"
  by (auto simp: pinned_def node_identity_text_def)

text \<open>The invariant only looks at the identities, actions, sources and revisions.\<close>

definition graph_eq :: "'k runtime \<Rightarrow> 'k runtime \<Rightarrow> bool" where
  "graph_eq rt rt' \<longleftrightarrow>
     (\<forall>l. rel_option (\<lambda>n n'. n_identity n' = n_identity n \<and> n_action n' = n_action n) (node_at rt l) (node_at rt' l)) \<and>
     (\<forall>p. rel_option (\<lambda>a b. p_source b = p_source a \<and> p_revision b = p_revision a)
        (map_of (rt_plans rt) p) (map_of (rt_plans rt') p)) \<and>
     (\<forall>p. ms_wf (plan_nodes rt p) \<longrightarrow> ms_wf (plan_nodes rt' p))"

lemma graph_eq_node:
  assumes "graph_eq rt rt'" and "node_at rt' l = Some n'"
  obtains n where "node_at rt l = Some n" "n_identity n' = n_identity n" "n_action n' = n_action n"
proof -
  have "rel_option (\<lambda>n n'. n_identity n' = n_identity n \<and> n_action n' = n_action n) (node_at rt l) (node_at rt' l)"
    using assms(1) unfolding graph_eq_def by blast
  with assms(2) that show ?thesis by (cases "node_at rt l") auto
qed

lemma graph_eq_facts:
  assumes "graph_eq rt rt'"
  shows "node_at rt' l \<noteq> None \<longleftrightarrow> node_at rt l \<noteq> None"
    and "map_of (rt_plans rt') p \<noteq> None \<longleftrightarrow> map_of (rt_plans rt) p \<noteq> None"
    and "source_of rt' p = source_of rt p" and "revision_of rt' p = revision_of rt p"
    and "parent rt' = parent rt" and "parent_locations rt' = parent_locations rt"
proof -
  have n: "rel_option (\<lambda>n n'. n_identity n' = n_identity n \<and> n_action n' = n_action n) (node_at rt l) (node_at rt' l)" for l
    using assms unfolding graph_eq_def by blast
  have q: "rel_option (\<lambda>a b. p_source b = p_source a \<and> p_revision b = p_revision a)
      (map_of (rt_plans rt) p) (map_of (rt_plans rt') p)"
    using assms unfolding graph_eq_def by blast
  show "node_at rt' l \<noteq> None \<longleftrightarrow> node_at rt l \<noteq> None"
    using n [of l] by (cases "node_at rt l"; cases "node_at rt' l") auto
  show "map_of (rt_plans rt') p \<noteq> None \<longleftrightarrow> map_of (rt_plans rt) p \<noteq> None"
    "source_of rt' p = source_of rt p" "revision_of rt' p = revision_of rt p"
    using q by (cases "map_of (rt_plans rt) p"; cases "map_of (rt_plans rt') p";
        simp add: source_of_def revision_of_def)+
  show par: "parent rt' = parent rt"
  proof (intro ext)
    fix p d
    show "parent rt' p d = parent rt p d"
      using n [of "parent_location p d"]
      by (cases "node_at rt (parent_location p d)"; cases "node_at rt' (parent_location p d)")
        (simp_all add: parent_def)
  qed
  show "parent_locations rt' = parent_locations rt"
  proof
    fix l show "parent_locations rt' l = parent_locations rt l"
      using n [of l] by (cases "node_at rt l"; cases "node_at rt' l") (simp_all add: parent_locations_def par)
  qed
qed

lemma graph_inv_eq:
  assumes "graph_eq rt rt'" and "graph_inv rt"
  shows "graph_inv rt'"
proof -
  note f = graph_eq_facts [OF assms(1)]
  have pin: "pinned rt' = pinned rt" by (simp only: fun_eq_iff pinned_def f(2,3,4)) simp
  have dep: "dependency_ok rt' = dependency_ok rt" by (simp only: fun_eq_iff dependency_ok_def pin f(1)) simp
  have "node_ok rt' loc n'" if "node_at rt' loc = Some n'" for loc n'
    using graph_eq_node [OF assms(1) that] graph_invD(2) [OF assms(2), of loc]
    by (metis dep node_ok_def pin)
  moreover have "up rt' = up rt" by (simp add: up_def f(6) fun_eq_iff)
  moreover have "ms_wf (plan_nodes rt' p)" for p
    using assms graph_invD(1) [OF assms(2)] unfolding graph_eq_def by blast
  ultimately show ?thesis
    using graph_invD(3) [OF assms(2)] unfolding graph_inv_def by simp
qed

subsection \<open>What holds when an update reaches commit\<close>

definition action_nodes :: "'k runtime \<Rightarrow> string \<Rightarrow> (string, plan_action) jsmap" where
  "action_nodes rt p = map (\<lambda>(i, n). (i, n_action n)) (plan_nodes rt p)"

lemma action_nodes_lookup: "map_of (action_nodes rt p) i = map_option n_action (node_at rt (p, i))"
  unfolding action_nodes_def node_at_def by (induction "plan_nodes rt p" arbitrary: p) (simp add: map_of_map)+

definition plain_dependencies :: "plan_action \<Rightarrow> bool" where
  "plain_dependencies a \<longleftrightarrow> list_all (\<lambda>d. cross_plan d \<or> dep_proposal d = None) (deps_of a)"

definition commit_ready ::
  "'k runtime \<Rightarrow> string \<Rightarrow> string \<Rightarrow> nat \<Rightarrow> (string, plan_action) jsmap \<Rightarrow> string set \<Rightarrow> plan_action list \<Rightarrow> bool" where
  "commit_ready rt p source revision actions touched ordered \<longleftrightarrow>
     graph_inv rt \<and> keyed actions \<and> list_all plain_dependencies (ms_vals actions) \<and>
     dependencyOrder (ms_vals actions) (update_dependencies rt p actions) = Some ordered \<and>
     (\<forall>pl. map_of (rt_plans rt) p = Some pl \<longrightarrow> p_source pl = source \<and> p_revision pl < revision) \<and>
     (\<forall>i a. map_of actions i = Some a \<longrightarrow> i \<notin> touched \<longrightarrow>
        (\<exists>n. node_at rt (p, i) = Some n \<and> a = n_action n))"

lemma commit_readyD:
  assumes "commit_ready rt p source revision actions touched ordered"
  shows "graph_inv rt" "keyed actions"
    "dependencyOrder (ms_vals actions) (update_dependencies rt p actions) = Some ordered"
    "a \<in> set (ms_vals actions) \<Longrightarrow> plain_dependencies a"
    "map_of (rt_plans rt) p = Some pl \<Longrightarrow> p_source pl = source \<and> p_revision pl < revision"
    "map_of actions i = Some b \<Longrightarrow> i \<notin> touched \<Longrightarrow> \<exists>n. node_at rt (p, i) = Some n \<and> b = n_action n"
  using assms unfolding commit_ready_def list_all_iff by blast+

lemma update_values:
  assumes "Some b \<in> set (update_dependencies rt p actions a)"
  shows "b \<in> set (ms_vals actions)"
proof -
  obtain j where "map_of actions j = Some b"
    using assms unfolding update_dependencies_def by (auto split: if_splits) metis+
  then have "(j, b) \<in> set actions" by (rule map_of_SomeD)
  then show ?thesis by (metis image_eqI set_map snd_conv)
qed

lemma update_closed: "closed_under (update_dependencies rt p actions) (set (ms_vals actions))"
  unfolding closed_under_def using update_values by blast

lemma order_facts:
  assumes "commit_ready rt p source revision actions touched ordered"
  shows "set ordered = set (ms_vals actions)" "distinct (map pa_id ordered)"
    "ordered = us @ a # vs \<Longrightarrow> set (update_dependencies rt p actions a) \<subseteq> Some ` set us"
proof -
  note D = commit_readyD [OF assms]
  note o = dord.order_SomeD [OF finite_set update_closed order_refl D(3)]
  have sub: "set ordered \<subseteq> set (ms_vals actions)"
  proof
    fix n assume "n \<in> set ordered"
    then obtain r where r: "r \<in> set (ms_vals actions)" "(edge (update_dependencies rt p actions))\<^sup>*\<^sup>* r n"
      using o(3) by (auto simp: reached_def)
    from r(2,1) show "n \<in> set (ms_vals actions)"
      by (induction rule: rtranclp_induct) (auto simp only: edge_def intro: update_values)
  qed
  with dord.order_roots [OF finite_set update_closed order_refl D(3)]
  show eq: "set ordered = set (ms_vals actions)" by blast
  have "inj_on pa_id (set (ms_vals actions))"
    using D(2) by (intro inj_onI) (metis keyed_values option.inject)
  with o(1) eq show "distinct (map pa_id ordered)" by (simp add: distinct_map)
  show "ordered = us @ a # vs \<Longrightarrow> set (update_dependencies rt p actions a) \<subseteq> Some ` set us"
    using dord.order_dependencies_first [OF finite_set update_closed order_refl] D(3) by blast
qed

lemma update_dependency:
  assumes ready: "commit_ready rt p source revision actions touched ordered"
    and o: "ordered = us @ a # vs" and d: "d \<in> set (deps_of a)"
  shows "cross_plan d \<Longrightarrow> dep_proposal d \<noteq> Some p \<and> parent rt p d \<noteq> None"
    and "\<not> cross_plan d \<Longrightarrow> dep_proposal d = None \<and>
      (\<exists>b\<in>set us. map_of actions (dep_action d) = Some b \<and> pa_id b = dep_action d)"
proof -
  note sub = order_facts(3) [OF ready o]
  assume "cross_plan d"
  show "dep_proposal d \<noteq> Some p \<and> parent rt p d \<noteq> None"
  proof (rule ccontr)
    assume "\<not> (dep_proposal d \<noteq> Some p \<and> parent rt p d \<noteq> None)"
    with d \<open>cross_plan d\<close> have "None \<in> set (update_dependencies rt p actions a)"
      unfolding update_dependencies_def set_concat set_map by (auto intro!: bexI [of _ d])
    with sub show False by auto
  qed
next
  note sub = order_facts(3) [OF ready o]
  assume local: "\<not> cross_plan d"
  have "map_of actions (dep_action d) \<in> set (update_dependencies rt p actions a)"
    using d local unfolding update_dependencies_def set_concat set_map by (auto intro!: bexI [of _ d])
  then obtain b where b: "b \<in> set us" "map_of actions (dep_action d) = Some b" using sub by auto
  moreover have "plain_dependencies a"
    by (rule commit_readyD(4) [OF ready]) (use order_facts(1) [OF ready] o in auto)
  ultimately show "dep_proposal d = None \<and>
      (\<exists>b\<in>set us. map_of actions (dep_action d) = Some b \<and> pa_id b = dep_action d)"
    using local d keyedD [OF commit_readyD(2) [OF ready]]
    by (auto simp: plain_dependencies_def list_all_iff)
qed

subsection \<open>Installing the next revision\<close>

definition replaced_in :: "'k runtime \<Rightarrow> string \<Rightarrow> string set \<Rightarrow> plan_action list \<Rightarrow> string list" where
  "replaced_in rt p touched ordered = replaced_ids (action_nodes rt p) touched ordered"

definition kept_in :: "'k runtime \<Rightarrow> string \<Rightarrow> string set \<Rightarrow> plan_action list \<Rightarrow> string \<Rightarrow> bool" where
  "kept_in rt p touched ordered = carried (plan_nodes rt p) (replaced_in rt p touched ordered)"

definition nodes_in ::
  "'k runtime \<Rightarrow> string \<Rightarrow> string \<Rightarrow> nat \<Rightarrow> (string, plan_action) jsmap \<Rightarrow> string set \<Rightarrow> plan_action list \<Rightarrow> nat \<Rightarrow>
     (string \<times> 'k node) list" where
  "nodes_in rt p source revision actions touched ordered anchor =
     next_nodes (plan_nodes rt p) (replaced_in rt p touched ordered) touched p source revision anchor actions (rt_next rt)"

lemma map_of_set_graph:
  "map_of (set_graph g ps m) q = map_option (\<lambda>pl. if q \<in> set ps then pl\<lparr>p_graph := g\<rparr> else pl) (map_of m q)"
  unfolding set_graph_def by (induction m) auto

lemma install_facts:
  "plan_nodes (install rt p source revision actions nodes) q = (if q = p then nodes else plan_nodes rt q)"
  "source_of (install rt p source revision actions nodes) q = (if q = p then source else source_of rt q)"
  "revision_of (install rt p source revision actions nodes) q = (if q = p then revision else revision_of rt q)"
  "map_of (rt_plans (install rt p source revision actions nodes)) q \<noteq> None \<longleftrightarrow>
     q = p \<or> map_of (rt_plans rt) q \<noteq> None"
  "node_at (install rt p source revision actions nodes) (q, i) =
     (if q = p then map_of nodes i else node_at rt (q, i))"
  by (auto simp: install_def Let_def plan_nodes_def source_of_def revision_of_def node_at_def map_of_set_graph
      split: option.splits)

lemma kept_action:
  assumes ready: "commit_ready rt p source revision actions touched ordered"
    and a: "map_of actions i = Some a" and k: "kept_in rt p touched ordered i"
  obtains n where "node_at rt (p, i) = Some n" "set (deps_of a) = set (deps_of (n_action n))"
    "\<And>d. d \<in> set (deps_of a) \<Longrightarrow> \<not> cross_plan d \<Longrightarrow> kept_in rt p touched ordered (dep_action d)"
proof -
  note D = commit_readyD [OF ready]
  have id: "pa_id a = i" using keyedD [OF D(2) a] .
  have "a \<in> set ordered" using order_facts(1) [OF ready] a keyed_values [OF D(2)] id by simp
  then obtain us vs where o: "ordered = us @ a # vs" by (meson split_list)
  obtain n where n: "node_at rt (p, i) = Some n"
    using k by (auto simp: kept_in_def carried_def node_at_def)
  have prev: "map_of (action_nodes rt p) (pa_id a) = Some (n_action n)"
    by (simp add: action_nodes_lookup id n)
  have "pa_id a \<notin> set (replaced_ids (action_nodes rt p) touched ordered)"
    using k id by (simp add: kept_in_def carried_def replaced_in_def)
  from not_replaced [OF order_facts(2) [OF ready] o prev this] update_dependency(2) [OF ready o]
  have nr: "pa_id a \<in> touched \<Longrightarrow> samePlanActionExecution (n_action n) a"
    "\<And>d. d \<in> set (deps_of a) \<Longrightarrow> \<not> cross_plan d \<Longrightarrow> dep_action d \<notin> set (replaced_in rt p touched ordered)"
    unfolding replaced_in_def by (force simp: rev_image_eqI)+
  have eq: "set (deps_of a) = set (deps_of (n_action n))"
  proof (cases "i \<in> touched")
    case True
    with nr(1) id have "mset (deps_of (n_action n)) = mset (deps_of a)" by (auto intro: same_dependencies)
    then show ?thesis by (metis set_mset_mset)
  next
    case False
    with D(6) [OF a] n show ?thesis by auto
  qed
  have "kept_in rt p touched ordered (dep_action d)" if "d \<in> set (deps_of a)" "\<not> cross_plan d" for d
  proof -
    have "dependency_ok rt p d"
      using graph_invD(2) [OF D(1) n] that(1) eq by (simp add: node_ok_def)
    then have "node_at rt (p, dep_action d) \<noteq> None" using that(2) by (simp add: dependency_ok_def)
    with nr(2) [OF that] show ?thesis by (simp add: kept_in_def carried_def node_at_def)
  qed
  with n eq show thesis by (rule that)
qed

subsection \<open>The next revision keeps the invariant\<close>

lemma acyclic_extend:
  assumes into: "\<And>a b. R a b \<Longrightarrow> b \<in> N \<Longrightarrow> a \<in> N"
    and rank: "\<And>a b. R a b \<Longrightarrow> a \<in> N \<Longrightarrow> b \<in> N \<Longrightarrow> rank b < (rank a :: nat)"
    and old: "\<And>a b. R a b \<Longrightarrow> a \<notin> N \<Longrightarrow> S a b"
    and acyclic: "\<And>l. \<not> S\<^sup>+\<^sup>+ l l"
  shows "\<not> R\<^sup>+\<^sup>+ l l"
proof
  assume cyc: "R\<^sup>+\<^sup>+ l l"
  show False
  proof (cases "l \<in> N")
    case True
    have "y \<in> N \<Longrightarrow> x \<in> N \<and> rank y < rank x" if "R\<^sup>+\<^sup>+ x y" for x y
      using that
    proof (induction rule: tranclp_induct)
      case (base y)
      with into [OF base.hyps] rank show ?case by blast
    next
      case (step y z)
      with into [OF step.hyps(2)] rank [OF step.hyps(2)] show ?case by (meson order_less_trans)
    qed
    from this [OF cyc True] show False by simp
  next
    case False
    have "y \<notin> N \<and> S\<^sup>+\<^sup>+ x y" if "R\<^sup>+\<^sup>+ x y" "x \<notin> N" for x y
      using that
    proof (induction rule: tranclp_induct)
      case (base y)
      with into old show ?case by blast
    next
      case (step y z)
      then have "y \<notin> N" "S\<^sup>+\<^sup>+ x y" by blast+
      with into [OF step.hyps(2)] old [OF step.hyps(2)] show ?case by (meson tranclp.trancl_into_trancl)
    qed
    with cyc False acyclic show False by blast
  qed
qed

definition rank_in :: "plan_action list \<Rightarrow> location \<Rightarrow> nat" where
  "rank_in ordered loc = length (takeWhile (\<lambda>a. pa_id a \<noteq> snd loc) ordered)"

lemma takeWhile_split:
  "distinct (map pa_id (us @ a # vs)) \<Longrightarrow> takeWhile (\<lambda>x. pa_id x \<noteq> pa_id a) (us @ a # vs) = us"
  by (subst takeWhile_append2) (auto simp: image_iff)

lemma rank_before:
  assumes "distinct (map pa_id ordered)" and "ordered = us @ a # vs" and "b \<in> set us" and "snd q = pa_id b"
    and "snd l = pa_id a"
  shows "rank_in ordered q < rank_in ordered l"
proof -
  have a: "rank_in ordered l = length us"
    unfolding rank_in_def assms(5) assms(2) by (subst takeWhile_split) (use assms(1,2) in auto)
  from assms(3) obtain xs ys where u: "us = xs @ b # ys" by (meson split_list)
  have "rank_in ordered q = length xs"
    unfolding rank_in_def assms(4) assms(2) u
    using takeWhile_split [of xs b "ys @ a # vs"] assms(1,2) u by simp
  with a u show ?thesis by simp
qed

text \<open>\<open>rt1\<close> is the runtime after the new plan object was installed.\<close>

lemma installed_node:
  assumes ready: "commit_ready rt p source revision actions touched ordered"
    and rt1: "rt1 = install rt p source revision actions (nodes_in rt p source revision actions touched ordered anchor)"
    and n: "node_at rt1 (p, i) = Some n"
  obtains a where "map_of actions i = Some a" "n_action n = a" "pa_id a = i"
    "if kept_in rt p touched ordered i
     then node_at rt (p, i) \<noteq> None \<and> n_identity n = n_identity (the (node_at rt (p, i)))
     else pi_id (n_identity n) = node_identity_text source p i revision"
proof -
  have "map_of (nodes_in rt p source revision actions touched ordered anchor) i = Some n"
    using n by (simp add: rt1 install_facts)
  then obtain a where a: "map_of actions i = Some a"
    and ok: "next_ok (plan_nodes rt p) (replaced_in rt p touched ordered) touched p source revision anchor
      (rt_next rt) (rt_next rt + length actions) i a n"
    unfolding nodes_in_def using next_nodes_lookup by blast
  have id: "pa_id a = i" using keyedD [OF commit_readyD(2) [OF ready] a] .
  show thesis
  proof (rule that [OF a _ id])
    show "n_action n = a"
      using ok by (auto simp: next_ok_def kept_node_def new_node_def split: if_splits)
    show "if kept_in rt p touched ordered i
      then node_at rt (p, i) \<noteq> None \<and> n_identity n = n_identity (the (node_at rt (p, i)))
      else pi_id (n_identity n) = node_identity_text source p i revision"
      using ok by (auto simp: kept_in_def next_ok_def carried_def node_at_def kept_node_def new_node_def id
          split: if_splits)
  qed
qed

lemma installed_identity:
  assumes "commit_ready rt p source revision actions touched ordered"
    and "rt1 = install rt p source revision actions (nodes_in rt p source revision actions touched ordered anchor)"
    and "node_at rt1 q = Some m" and "fst q = p"
  shows "if kept_in rt p touched ordered (snd q)
     then node_at rt q \<noteq> None \<and> n_identity m = n_identity (the (node_at rt q))
     else pi_id (n_identity m) = node_identity_text source p (snd q) revision"
proof -
  have q: "q = (p, snd q)" using assms(4) by (simp add: prod_eq_iff)
  with assms(3) have "node_at rt1 (p, snd q) = Some m" by simp
  from installed_node [OF assms(1,2) this] q show ?thesis by metis
qed

lemma install_pinned:
  assumes ready: "commit_ready rt p source revision actions touched ordered"
    and rt1: "rt1 = install rt p source revision actions nodes"
    and pin: "pinned rt q i t"
  shows "pinned rt1 q i t"
proof (cases "q = p")
  case True
  with pin obtain pl where pl: "map_of (rt_plans rt) p = Some pl" by (auto simp: pinned_def)
  with pin True obtain r where r: "r \<le> p_revision pl" "t = node_identity_text (p_source pl) p i r"
    by (auto simp: pinned_def source_of_def revision_of_def)
  with commit_readyD(5) [OF ready pl] have "r \<le> revision" "t = node_identity_text source p i r" by auto
  then show ?thesis unfolding pinned_def rt1 install_facts True by auto
next
  case False
  with pin show ?thesis by (simp add: pinned_def rt1 install_facts del: not_None_eq)
qed

text \<open>A pinned identity of another plan never names a node the update creates.\<close>

lemma pinned_old:
  assumes ready: "commit_ready rt p source revision actions touched ordered" and "pinned rt p i t"
  shows "t \<noteq> node_identity_text source p i revision"
proof -
  from assms(2) obtain pl where pl: "map_of (rt_plans rt) p = Some pl" by (auto simp: pinned_def)
  with commit_readyD(5) [OF ready pl] pinned_revision [OF assms(2), of revision] show ?thesis
    by (simp add: source_of_def revision_of_def)
qed

lemma parentD:
  assumes "parent rt q d = Some l"
  obtains n where "l = parent_location q d" "node_at rt l = Some n"
    "cross_plan d \<Longrightarrow> dep_identity d = Some (pi_id (n_identity n))"
  using assms by (auto simp: parent_def split: option.splits if_splits)

lemma parentI:
  "node_at rt (parent_location q d) = Some n \<Longrightarrow>
     (cross_plan d \<Longrightarrow> dep_identity d = Some (pi_id (n_identity n))) \<Longrightarrow>
     parent rt q d = Some (parent_location q d)"
  by (auto simp: parent_def)

lemma dependency_location:
  "dependency_ok rt q d \<Longrightarrow> parent_location q d =
     (if cross_plan d then (the (dep_proposal d), dep_action d) else (q, dep_action d))"
  by (auto simp: dependency_ok_def parent_location_def split: if_splits)

lemma install_nodes_ok:
  assumes ready: "commit_ready rt p source revision actions touched ordered"
    and rt1: "rt1 = install rt p source revision actions (nodes_in rt p source revision actions touched ordered anchor)"
    and n: "node_at rt1 loc = Some n"
  shows "node_ok rt1 loc n"
proof (cases "fst loc = p")
  case False
  note D = commit_readyD [OF ready]
  from False n have old: "node_at rt loc = Some n" by (cases loc) (simp add: rt1 install_facts)
  have ok: "node_ok rt loc n" using graph_invD(2) [OF D(1) old] .
  have "dependency_ok rt1 (fst loc) d" if "dependency_ok rt (fst loc) d" for d
    using that False install_pinned [OF ready rt1]
    by (auto simp: dependency_ok_def rt1 install_facts split: if_splits)
  with ok install_pinned [OF ready rt1] show ?thesis by (simp add: node_ok_def)
next
  case True
  note D = commit_readyD [OF ready]
  obtain i where loc: "loc = (p, i)" using True by (cases loc) simp
  obtain a where a: "map_of actions i = Some a" "n_action n = a" "pa_id a = i"
    and id: "if kept_in rt p touched ordered i
     then node_at rt (p, i) \<noteq> None \<and> n_identity n = n_identity (the (node_at rt (p, i)))
     else pi_id (n_identity n) = node_identity_text source p i revision"
    using installed_node [OF ready rt1 n [unfolded loc]] by blast
  have "pinned rt1 p i (pi_id (n_identity n))"
  proof (cases "kept_in rt p touched ordered i")
    case True
    with id obtain m where m: "node_at rt (p, i) = Some m" "n_identity n = n_identity m" by auto
    then have "pinned rt p i (pi_id (n_identity m))" using graph_invD(2) [OF D(1) m(1)] by (simp add: node_ok_def)
    with m(2) install_pinned [OF ready rt1] show ?thesis by simp
  next
    case False
    with id show ?thesis unfolding pinned_def rt1 install_facts by auto
  qed
  moreover have "dependency_ok rt1 p d" if d: "d \<in> set (deps_of a)" for d
  proof -
    have "a \<in> set ordered" using order_facts(1) [OF ready] a keyed_values [OF D(2)] by simp
    then obtain us vs where o: "ordered = us @ a # vs" by (meson split_list)
    show ?thesis
    proof (cases "cross_plan d")
      case False
      from update_dependency(2) [OF ready o d False] obtain b
        where "dep_proposal d = None" "map_of actions (dep_action d) = Some b" by blast
      moreover from this(2) have "dep_action d \<in> fst ` set (nodes_in rt p source revision actions touched ordered anchor)"
        by (metis domI dom_map_of_conv_image_fst next_nodes_keys nodes_in_def set_map)
      ultimately show ?thesis
        using False by (simp add: dependency_ok_def rt1 install_facts map_of_eq_None_iff del: not_None_eq)
    next
      case True
      from update_dependency(1) [OF ready o d True] obtain l
        where q: "dep_proposal d \<noteq> Some p" "parent rt p d = Some l" by auto
      from True obtain r where r: "dep_proposal d = Some r" by (auto simp: cross_plan_def split: option.splits)
      from parentD [OF q(2)] obtain m where m: "l = parent_location p d" "node_at rt l = Some m"
        "dep_identity d = Some (pi_id (n_identity m))" using True by metis
      have "pinned rt r (dep_action d) (pi_id (n_identity m))"
        using graph_invD(2) [OF D(1) m(2)] m(1) r by (simp add: node_ok_def parent_location_def)
      with install_pinned [OF ready rt1] True q(1) r m(3) show ?thesis by (auto simp: dependency_ok_def)
    qed
  qed
  ultimately show ?thesis by (simp add: node_ok_def loc a)
qed

lemma install_edges:
  assumes ready: "commit_ready rt p source revision actions touched ordered"
    and rt1: "rt1 = install rt p source revision actions (nodes_in rt p source revision actions touched ordered anchor)"
    and e: "up rt1 l q"
  defines "N \<equiv> {x. fst x = p \<and> \<not> kept_in rt p touched ordered (snd x)}"
  shows "q \<in> N \<Longrightarrow> l \<in> N" and "l \<in> N \<Longrightarrow> q \<in> N \<Longrightarrow> rank_in ordered q < rank_in ordered l"
    and "l \<notin> N \<Longrightarrow> up rt l q"
proof -
  note D = commit_readyD [OF ready]
  from e obtain n d where n: "node_at rt1 l = Some n" and d: "d \<in> set (deps_of (n_action n))"
    and q: "parent rt1 (fst l) d = Some q"
    by (auto simp: up_def parent_locations_def split: option.splits)
  from parentD [OF q] obtain m where m: "q = parent_location (fst l) d" "node_at rt1 q = Some m"
    "cross_plan d \<longrightarrow> dep_identity d = Some (pi_id (n_identity m))" by metis
  have new_id: "pi_id (n_identity m) = node_identity_text source p (snd q) revision" if "q \<in> N"
    using installed_identity [OF ready rt1 m(2)] that by (simp add: N_def)
  \<comment> \<open>a dependency from outside never names a new node\<close>
  have no_pin: "q \<notin> N" if c: "cross_plan d" "dep_proposal d = Some p" "dep_identity d = Some t" "pinned rt p (dep_action d) t" for t
  proof
    assume "q \<in> N"
    with new_id m c(1,3) have "t = node_identity_text source p (snd q) revision" by simp
    with pinned_old [OF ready c(4)] m(1) c(2) show False by (simp add: parent_location_def)
  qed
  have old_id: "pi_id (n_identity m) = pi_id (n_identity m')" "n_identity m = n_identity m'"
    if "q \<notin> N" "node_at rt q = Some m'" for m'
  proof -
    have "n_identity m = n_identity m'"
    proof (cases "fst q = p")
      case True
      with that installed_identity [OF ready rt1 m(2)] show ?thesis by (simp add: N_def)
    next
      case False
      with m(2) that show ?thesis by (cases q) (simp add: rt1 install_facts)
    qed
    then show "pi_id (n_identity m) = pi_id (n_identity m')" "n_identity m = n_identity m'" by simp_all
  qed
  have q_old: "node_at rt q \<noteq> None" if "q \<notin> N"
  proof (cases "fst q = p")
    case True
    with that installed_identity [OF ready rt1 m(2)] show ?thesis by (simp add: N_def)
  next
    case False
    with m(2) show ?thesis by (cases q) (simp add: rt1 install_facts)
  qed
  have lift: "up rt l q" if "q \<notin> N" "node_at rt l = Some n0" "d \<in> set (deps_of (n_action n0))" for n0
  proof -
    from q_old [OF that(1)] obtain m' where m': "node_at rt q = Some m'" by auto
    have "parent rt (fst l) d = Some (parent_location (fst l) d)"
      by (rule parentI [where n = m']) (use m m' old_id(1) [OF that(1) m'] in auto)
    with that(2,3) m(1) show ?thesis by (auto simp: up_def parent_locations_def)
  qed
  show "q \<in> N \<Longrightarrow> l \<in> N" and "l \<in> N \<Longrightarrow> q \<in> N \<Longrightarrow> rank_in ordered q < rank_in ordered l"
    and "l \<notin> N \<Longrightarrow> up rt l q"
  proof -
    show "l \<in> N" if qN: "q \<in> N"
    proof (rule ccontr)
      assume lN: "l \<notin> N"
      show False
      proof (cases "fst l = p")
        case False
        with n have "node_at rt l = Some n" by (cases l) (simp add: rt1 install_facts)
        with d have ok: "dependency_ok rt (fst l) d" using graph_invD(2) [OF D(1)] by (auto simp: node_ok_def)
        with qN m(1) False have "cross_plan d" "dep_proposal d = Some p"
          by (auto simp: dependency_location N_def split: if_splits) (auto simp: dependency_ok_def)
        with ok no_pin qN show False by (auto simp: dependency_ok_def)
      next
        case True
        then obtain i where l: "l = (p, i)" by (cases l) simp
        from installed_node [OF ready rt1 n [unfolded l]] obtain a
          where a: "map_of actions i = Some a" "n_action n = a" by blast
        from lN l have "kept_in rt p touched ordered i" by (simp add: N_def)
        from kept_action [OF ready a(1) this] obtain n0 where n0: "node_at rt (p, i) = Some n0"
          "set (deps_of a) = set (deps_of (n_action n0))"
          "\<And>d. d \<in> set (deps_of a) \<Longrightarrow> \<not> cross_plan d \<Longrightarrow> kept_in rt p touched ordered (dep_action d)" by metis
        have ok: "dependency_ok rt p d"
          using graph_invD(2) [OF D(1) n0(1)] d a(2) n0(2) by (simp add: node_ok_def)
        have "\<not> cross_plan d"
          using ok m(1) qN l by (auto simp: dependency_location N_def) (auto simp: dependency_ok_def)
        with n0(3) [of d] d a(2) ok m(1) qN l show False
          by (auto simp: dependency_location N_def)
      qed
    qed
    show "rank_in ordered q < rank_in ordered l" if lN: "l \<in> N" and qN: "q \<in> N"
    proof -
      from lN obtain i where l: "l = (p, i)" by (cases l) (simp add: N_def)
      from installed_node [OF ready rt1 n [unfolded l]] obtain a
        where a: "map_of actions i = Some a" "n_action n = a" "pa_id a = i" by blast
      have "a \<in> set ordered" using order_facts(1) [OF ready] a keyed_values [OF D(2)] by simp
      then obtain us vs where o: "ordered = us @ a # vs" by (meson split_list)
      have da: "d \<in> set (deps_of a)" using d a(2) by simp
      have "\<not> cross_plan d"
      proof
        assume c: "cross_plan d"
        from update_dependency(1) [OF ready o da c] c qN m(1) l show False
          by (auto simp: N_def parent_location_def cross_plan_def split: option.splits)
      qed
      from update_dependency(2) [OF ready o da this] obtain b where b: "dep_proposal d = None" "b \<in> set us"
        "pa_id b = dep_action d" by blast
      show ?thesis
        by (rule rank_before [OF order_facts(2) [OF ready] o b(2)])
          (use b m(1) l a in \<open>simp_all add: parent_location_def\<close>)
    qed
    show "up rt l q" if lN: "l \<notin> N"
    proof -
      have qN: "q \<notin> N" using lN \<open>q \<in> N \<Longrightarrow> l \<in> N\<close> by blast
      show ?thesis
      proof (cases "fst l = p")
        case False
        with n have "node_at rt l = Some n" by (cases l) (simp add: rt1 install_facts)
        from lift [OF qN this d] show ?thesis .
      next
        case True
        then obtain i where l: "l = (p, i)" by (cases l) simp
        from installed_node [OF ready rt1 n [unfolded l]] obtain a
          where a: "map_of actions i = Some a" "n_action n = a" by blast
        from lN l have "kept_in rt p touched ordered i" by (simp add: N_def)
        from kept_action [OF ready a(1) this] obtain n0 where n0: "node_at rt (p, i) = Some n0"
          "set (deps_of a) = set (deps_of (n_action n0))" by metis
        with lift [OF qN, of n0] d a(2) l show ?thesis by simp
      qed
    qed
  qed
qed

lemma install_inv:
  assumes ready: "commit_ready rt p source revision actions touched ordered"
    and rt1: "rt1 = install rt p source revision actions (nodes_in rt p source revision actions touched ordered anchor)"
  shows "graph_inv rt1"
proof -
  note D = commit_readyD [OF ready] and E = install_edges [OF ready rt1]
  have "\<not> (up rt1)\<^sup>+\<^sup>+ l l" for l
    by (rule acyclic_extend [where N = "{x. fst x = p \<and> \<not> kept_in rt p touched ordered (snd x)}"
          and rank = "rank_in ordered" and S = "up rt"]) (use E graph_invD(3) [OF D(1)] in blast)+

  moreover have "ms_wf (plan_nodes rt1 q)" for q
    using graph_invD(1) [OF D(1)] D(2)
    by (simp add: rt1 install_facts nodes_in_def ms_wf_def keyed_def)
  ultimately show ?thesis
    using install_nodes_ok [OF ready rt1] unfolding graph_inv_def by blast
qed

text \<open>An acyclic graph has an order, so the assertion in \<open>commit\<close> holds.\<close>

lemma order_graph_exists:
  assumes "graph_inv rt"
  obtains ord where "order_graph g rt = Some ord" "ordered_in rt ord"
    "set (graph_nodes rt (g_plans (rt_graphs rt g))) \<subseteq> set ord"
proof -
  let ?roots = "graph_nodes rt (g_plans (rt_graphs rt g))"
  let ?U = "{l. node_at rt l \<noteq> None}"
  have edge: "Some b \<in> set (node_dependencies rt a) \<longleftrightarrow> up rt a b" for a b
    unfolding node_dependencies_def up_def parent_locations_def
    by (cases "node_at rt a") (force split: option.splits)+
  have none: "None \<notin> set (node_dependencies rt a)" for a
    by (auto simp: node_dependencies_def split: option.splits)
  have up_node: "node_at rt b \<noteq> None" if "up rt a b" for a b
    using that parent_exists unfolding up_def parent_locations_def by (cases "node_at rt a") (simp_all, blast)
  have closed: "closed_under (node_dependencies rt) ?U"
    unfolding closed_under_def edge using up_node by blast
  have roots: "set ?roots \<subseteq> ?U"
  proof
    fix l assume "l \<in> set ?roots"
    then have "snd l \<in> set (ms_keys (plan_nodes rt (fst l)))"
      by (auto simp: graph_nodes_def rev_image_eqI)
    then show "l \<in> ?U" by (simp add: node_at_def map_of_eq_None_iff)
  qed
  have e: "edge (node_dependencies rt) = up rt"
    by (simp add: fun_eq_iff edge_def edge)
  have "\<not> defective (node_dependencies rt) ?roots"
    unfolding defective_def e using none graph_invD(3) [OF assms] by blast
  then obtain ord where ord: "dependencyOrder ?roots (node_dependencies rt) = Some ord"
    using dord.order_exists_iff [OF finite_nodes closed roots] by blast
  note S = dord.order_SomeD [OF finite_nodes closed roots ord]
  have "node_at rt l \<noteq> None" if "l \<in> set ord" for l
  proof -
    from that S(3) obtain r where r: "r \<in> set ?roots" "(up rt)\<^sup>*\<^sup>* r l" by (auto simp: reached_def e)
    from r(2,1) show ?thesis
      by (induction rule: rtranclp_induct) (use roots up_node in blast)+
  qed
  moreover have "parent_locations rt l \<subseteq> set us" if "ord = us @ l # vs" for us l vs
  proof
    fix q assume "q \<in> parent_locations rt l"
    then have "Some q \<in> set (node_dependencies rt l)" by (simp add: edge up_def)
    with dord.order_dependencies_first [OF finite_nodes closed roots, of us l vs] ord that show "q \<in> set us"
      by auto
  qed
  ultimately have "ordered_in rt ord" using S(1) unfolding ordered_in_def by blast
  with that ord dord.order_roots [OF finite_nodes closed roots ord] show thesis
    unfolding order_graph_def by blast
qed

end
