(* ===== verification/Plan_Updates.thy ===== *)
theory Plan_Updates
  imports Plan_Graph
begin

text \<open>
  Every operation of \<open>PlanRuntime\<close> (\<open>src/plan-runtime.ts\<close>) as a step, the reachable runtimes, and
  what an update does to one: it never fails inside \<open>commit\<close>, unchanged nodes move over with their
  identity, execution and opportunity, and the windows of the joined graph are consistent.
\<close>

declare split_paired_All [simp del] split_paired_Ex [simp del]

subsection \<open>Captured updates\<close>

lemma plain_valid: "dependency_valid d \<Longrightarrow> cross_plan d \<or> dep_proposal d = None"
  by (auto simp: dependency_valid_def valid_option_def validToken_def cross_plan_def split: option.splits)

lemma plain_canonical:
  "(case map_option (map canonical_dependency) (pa_dependsOn a) of
      Some l \<Rightarrow> list_all dependency_valid l | None \<Rightarrow> True) \<Longrightarrow>
   plain_dependencies (a\<lparr>pa_dependsOn := map_option (map canonical_dependency) (pa_dependsOn a)\<rparr>)"
  by (cases "pa_dependsOn a") (simp_all add: plain_dependencies_def deps_of_def list_all_iff plain_valid)

lemma validate_heads_plain: "validate_heads as ids = Inr bs \<Longrightarrow> list_all plain_dependencies bs"
proof (induction as arbitrary: ids bs)
  case (Cons a as)
  from Cons.prems obtain rest where "validate_heads as (insert (pa_id a) ids) = Inr rest"
    and bs: "bs = a\<lparr>pa_dependsOn := map_option (map canonical_dependency) (pa_dependsOn a)\<rparr> # rest"
    and "case map_option (map canonical_dependency) (pa_dependsOn a) of
      Some l \<Rightarrow> list_all dependency_valid l | None \<Rightarrow> True"
    by (cases "pa_dependsOn a") (auto simp: Let_def split: if_splits sum.splits)
  with Cons.IH plain_canonical [of a] show ?case by simp
qed simp

lemma validate_inputs_plain:
  "validate_inputs as = Inr bs \<Longrightarrow> list_all plain_dependencies as \<Longrightarrow> list_all plain_dependencies bs"
  by (induction as arbitrary: bs)
    (auto simp: plain_dependencies_def deps_of_def split: if_splits sum.splits)

lemma validateActions_plain: "validateActions as = Inr bs \<Longrightarrow> list_all plain_dependencies bs"
  by (auto simp: validateActions_def split: sum.splits dest: validate_heads_plain validate_inputs_plain)

lemma offered_with_actions [simp]: "offered_actions True (with_actions multi as u) = as"
  by (cases u) (auto simp: or_empty_def)

lemma capture_fresh:
  "capture False u True = Inr w \<Longrightarrow>
    \<exists>as. validateActions (offered_actions True u) = Inr as \<and> w = with_actions True as u"
  by (auto simp: capture_def split: if_splits sum.splits)

definition owned_update :: "bool \<Rightarrow> plan_update \<Rightarrow> bool" where
  "owned_update captured u \<longleftrightarrow> (captured \<longrightarrow> capture False u True = Inr u)"

lemma capture_plain:
  assumes "owned_update captured u" and "capture captured u True = Inr w"
  shows "list_all plain_dependencies (offered_actions True w)"
proof -
  have "\<exists>v. capture False v True = Inr w"
  proof (cases captured)
    case True
    have "capture True u True = Inr u" by (simp add: capture_def)
    with True assms show ?thesis by (auto simp: owned_update_def)
  qed (use assms in auto)
  then obtain v as where "validateActions (offered_actions True v) = Inr as" "w = with_actions True as v"
    using capture_fresh by blast
  then show ?thesis by (simp add: validateActions_plain)
qed

subsection \<open>From apply to commit\<close>

definition sourced :: "'k runtime \<Rightarrow> string \<Rightarrow> plan_action list \<Rightarrow> (string, plan_action) jsmap \<Rightarrow> bool" where
  "sourced rt p ups actions \<longleftrightarrow> keyed actions \<and>
     (\<forall>i a. map_of actions i = Some a \<longrightarrow>
        i \<in> pa_id ` set ups \<and> a \<in> set ups \<or> (\<exists>n. node_at rt (p, i) = Some n \<and> a = n_action n))"

lemma sourced_retain_step:
  assumes inv: "graph_inv rt" and s: "sourced rt p ups actions"
  shows "sourced rt p ups (fst (retain_step rt p loc (actions, retained)))"
proof (cases "node_at rt loc")
  case (Some n)
  show ?thesis
  proof (cases "fst loc = p")
    case True
    have id: "pa_id (n_action n) = snd loc" using graph_invD(2) [OF inv Some] by (simp add: node_ok_def)
    have at: "node_at rt (p, snd loc) = Some n" using True Some by (metis prod.collapse)
    have keep: "sourced rt p ups (ms_set (pa_id (n_action n)) r actions)"
      if "map_of actions (pa_id (n_action n)) = Some r" for r
    proof -
      have "pa_id r = pa_id (n_action n)" using s that by (auto simp: sourced_def dest: keyedD)
      then have "keyed (ms_set (pa_id (n_action n)) r actions)"
        using keyed_set [of actions r] s by (simp add: sourced_def)
      with s that show ?thesis by (auto simp: sourced_def)
    qed
    have add: "sourced rt p ups (ms_set (pa_id (n_action n)) (n_action n) actions)"
      using s keyed_set [of actions "n_action n"] at id by (auto simp: sourced_def)
    show ?thesis
      using s keep add Some True by (auto simp: retain_step_def Let_def split: option.splits)
  qed (simp add: retain_step_def Some s)
qed (simp add: retain_step_def s)

lemma sourced_retain:
  assumes "graph_inv rt" and "sourced rt p ups actions"
  shows "sourced rt p ups (retain_descendants rt p pl actions)"
proof -
  have "sourced rt p ups (fst (fold (retain_step rt p) locs (acts, kept)))"
    if "sourced rt p ups acts" for locs acts kept
    using that
  proof (induction locs arbitrary: acts kept)
    case (Cons loc locs)
    obtain acts' kept' where st: "retain_step rt p loc (acts, kept) = (acts', kept')" by force
    with sourced_retain_step [OF assms(1) Cons.prems, of loc kept] Cons.IH [of acts' kept'] show ?case by simp
  qed simp
  with assms(2) show ?thesis by (simp add: retain_descendants_def)
qed

lemma actions_of_nodes: "map_of (rt_plans rt) p = Some pl \<Longrightarrow> actions_of pl = action_nodes rt p"
  by (simp add: actions_of_def action_nodes_def plan_nodes_def)

lemma keyed_action_nodes: "graph_inv rt \<Longrightarrow> keyed (action_nodes rt p)"
proof -
  assume inv: "graph_inv rt"
  have wf: "ms_wf (plan_nodes rt p)" using graph_invD(1) [OF inv] .
  then have "ms_wf (action_nodes rt p)" by (simp add: action_nodes_def ms_wf_def comp_def case_prod_beta)
  moreover have "pa_id (n_action n) = i" if "(i, n) \<in> set (plan_nodes rt p)" for i n
  proof -
    have "node_at rt (p, i) = Some n" using that wf by (simp add: node_at_def map_of_in_set_iff)
    from graph_invD(2) [OF inv this] show ?thesis by (simp add: node_ok_def)
  qed
  ultimately show ?thesis by (auto simp: keyed_def list_all_iff action_nodes_def)
qed

lemma sourced_updated:
  assumes inv: "graph_inv rt"
  shows "sourced rt (update_plan w) (offered_actions True w)
    (updated_actions rt w (map_of (rt_plans rt) (update_plan w)))"
proof -
  let ?p = "update_plan w" and ?ups = "offered_actions True w"
  let ?base = "if is_proposal w then [] else case map_of (rt_plans rt) ?p of Some pl \<Rightarrow> actions_of pl | None \<Rightarrow> []"
  have base: "keyed ?base" "\<And>i a. map_of ?base i = Some a \<Longrightarrow> \<exists>n. node_at rt (?p, i) = Some n \<and> a = n_action n"
    using keyed_action_nodes [OF inv, of ?p]
    by (cases "is_proposal w"; cases "map_of (rt_plans rt) ?p";
        auto simp: actions_of_nodes action_nodes_lookup keyed_def)+
  have "sourced rt ?p ?ups (set_actions ?ups (fold ms_del (update_removed w) ?base))"
    unfolding sourced_def
  proof (intro conjI allI impI)
    show "keyed (set_actions ?ups (fold ms_del (update_removed w) ?base))"
      by (intro keyed_set_actions keyed_dels base(1))
    fix i a assume a: "map_of (set_actions ?ups (fold ms_del (update_removed w) ?base)) i = Some a"
    then have "pa_id a = i" by (rule keyedD [OF keyed_set_actions [OF keyed_dels [OF base(1)]]])
    with a set_actions_lookup [of ?ups "fold ms_del (update_removed w) ?base" i a]
    show "i \<in> pa_id ` set ?ups \<and> a \<in> set ?ups \<or> (\<exists>n. node_at rt (?p, i) = Some n \<and> a = n_action n)"
      using base(2) dels_lookup by (metis image_eqI)
  qed
  then show ?thesis
    unfolding updated_actions_def Let_def using sourced_retain [OF inv]
    by (auto split: option.splits)
qed

lemma sourced_ready:
  assumes inv: "graph_inv rt" and s: "sourced rt p ups actions" and plain: "list_all plain_dependencies ups"
    and ord: "dependencyOrder (ms_vals actions) (update_dependencies rt p actions) = Some ordered"
    and cur: "\<And>pl. map_of (rt_plans rt) p = Some pl \<Longrightarrow> p_source pl = source \<and> p_revision pl < revision"
  shows "commit_ready rt p source revision actions (pa_id ` set ups) ordered"
proof -
  have plain_at: "plain_dependencies a" if "map_of actions (pa_id a) = Some a" for a
  proof -
    from s that have "a \<in> set ups \<or> (\<exists>n. node_at rt (p, pa_id a) = Some n \<and> a = n_action n)"
      unfolding sourced_def by blast
    then show ?thesis
    proof
      assume "a \<in> set ups" with plain show ?thesis by (simp add: list_all_iff)
    next
      assume "\<exists>n. node_at rt (p, pa_id a) = Some n \<and> a = n_action n"
      then obtain n where n: "node_at rt (p, pa_id a) = Some n" and a: "a = n_action n" by blast
      have "\<forall>d\<in>set (deps_of a). dependency_ok rt p d"
        using graph_invD(2) [OF inv n] unfolding node_ok_def a by simp
      then show ?thesis unfolding plain_dependencies_def list_all_iff dependency_ok_def by metis
    qed
  qed
  have "list_all plain_dependencies (ms_vals actions)"
    unfolding list_all_iff
  proof
    fix a assume "a \<in> set (ms_vals actions)"
    moreover have "keyed actions" using s by (simp add: sourced_def)
    ultimately have "map_of actions (pa_id a) = Some a" by (simp only: keyed_values)
    then show "plain_dependencies a" by (rule plain_at)
  qed
  moreover have "\<exists>n. node_at rt (p, i) = Some n \<and> a = n_action n"
    if "map_of actions i = Some a" "i \<notin> pa_id ` set ups" for i a
    using s that unfolding sourced_def by blast
  moreover have "keyed actions" using s by (simp add: sourced_def)
  ultimately show ?thesis
    using inv ord cur unfolding commit_ready_def by blast
qed

text \<open>What an accepted update went through.\<close>

lemma apply_update_cases:
  assumes inv: "graph_inv rt" and own: "owned_update captured u"
    and res: "apply_update env captured u anchor rt = (result, rt')"
  obtains (rejected) e where "result = Update_rejected e" "rt' = rt"
  | (committed) w ordered where "capture captured u True = Inr w"
      "commit_ready rt (update_plan w) (update_source w) (nonNegativeCount (update_revision w))
        (updated_actions rt w (map_of (rt_plans rt) (update_plan w))) (pa_id ` set (offered_actions True w)) ordered"
      "commit env (update_plan w) (update_source w) (nonNegativeCount (update_revision w))
        (updated_actions rt w (map_of (rt_plans rt) (update_plan w))) (offered_actions True w) ordered anchor rt
        = (result, rt')"
proof (cases "capture captured u True")
  case (Inl e)
  with res rejected show ?thesis by (auto simp: apply_update_def)
next
  case (Inr w)
  let ?p = "update_plan w" and ?r = "nonNegativeCount (update_revision w)"
  let ?cur = "map_of (rt_plans rt) ?p"
  let ?actions = "updated_actions rt w ?cur"
  have eq: "apply_update env captured u anchor rt = (case update_refusal ?cur w of
      Some e \<Rightarrow> (Update_rejected e, rt)
    | None \<Rightarrow> (case dependencyOrder (ms_vals ?actions) (update_dependencies rt ?p ?actions) of
        None \<Rightarrow> (Update_rejected Invalid_dependency, rt)
      | Some ordered \<Rightarrow>
          commit env ?p (update_source w) ?r ?actions (offered_actions True w) ordered anchor rt))"
    unfolding apply_update_def Inr sum.case Let_def ..
  show ?thesis
  proof (cases "update_refusal ?cur w")
    case (Some e)
    with res have "result = Update_rejected e" "rt' = rt" unfolding eq by auto
    then show ?thesis by (rule rejected)
  next
    case ok: None
    show ?thesis
    proof (cases "dependencyOrder (ms_vals ?actions) (update_dependencies rt ?p ?actions)")
      case None
      with ok res have "result = Update_rejected Invalid_dependency" "rt' = rt" unfolding eq by auto
      then show ?thesis by (rule rejected)
    next
      case (Some ordered)
      have "p_source pl = update_source w \<and> p_revision pl < ?r" if "?cur = Some pl" for pl
        using ok that by (simp add: update_refusal_def split: if_splits)
      then have "commit_ready rt ?p (update_source w) ?r ?actions (pa_id ` set (offered_actions True w)) ordered"
        by (rule sourced_ready [OF inv sourced_updated [OF inv] capture_plain [OF own Inr] Some])
      moreover have "commit env ?p (update_source w) ?r ?actions (offered_actions True w) ordered anchor rt = (result, rt')"
        using ok res Some unfolding eq by simp
      ultimately show ?thesis by (rule committed [OF Inr])
    qed
  qed
qed

subsection \<open>Operations that leave the graph alone\<close>

lemma graph_eq_refl [simp]: "graph_eq rt rt"
  by (auto simp: graph_eq_def intro: option.rel_refl)

lemma graph_eq_trans:
  assumes "graph_eq a b" and "graph_eq b c"
  shows "graph_eq a c"
  unfolding graph_eq_def
proof (intro conjI allI impI)
  fix l
  have "rel_option (\<lambda>n n'. n_identity n' = n_identity n \<and> n_action n' = n_action n) (node_at a l) (node_at b l)"
    "rel_option (\<lambda>n n'. n_identity n' = n_identity n \<and> n_action n' = n_action n) (node_at b l) (node_at c l)"
    using assms unfolding graph_eq_def by blast+
  then show "rel_option (\<lambda>n n'. n_identity n' = n_identity n \<and> n_action n' = n_action n) (node_at a l) (node_at c l)"
    by (cases "node_at a l"; cases "node_at b l"; cases "node_at c l") simp_all
next
  fix p
  have "rel_option (\<lambda>a b. p_source b = p_source a \<and> p_revision b = p_revision a) (map_of (rt_plans a) p) (map_of (rt_plans b) p)"
    "rel_option (\<lambda>a b. p_source b = p_source a \<and> p_revision b = p_revision a) (map_of (rt_plans b) p) (map_of (rt_plans c) p)"
    using assms unfolding graph_eq_def by blast+
  then show "rel_option (\<lambda>a b. p_source b = p_source a \<and> p_revision b = p_revision a) (map_of (rt_plans a) p) (map_of (rt_plans c) p)"
    by (cases "map_of (rt_plans a) p"; cases "map_of (rt_plans b) p"; cases "map_of (rt_plans c) p") simp_all
next
  fix p assume "ms_wf (plan_nodes a p)"
  with assms show "ms_wf (plan_nodes c p)" unfolding graph_eq_def by blast
qed

lemma graph_eq_set_node:
  assumes "node_at rt loc = Some n" and "n_identity m = n_identity n" and "n_action m = n_action n"
  shows "graph_eq rt (set_node loc m rt)"
proof -
  obtain pl where pl: "map_of (rt_plans rt) (fst loc) = Some pl"
    using assms(1) by (cases "map_of (rt_plans rt) (fst loc)") (auto simp: node_at_def plan_nodes_def)
  show ?thesis
    unfolding graph_eq_def
  proof (intro conjI allI impI)
    fix l show "rel_option (\<lambda>n n'. n_identity n' = n_identity n \<and> n_action n' = n_action n) (node_at rt l) (node_at (set_node loc m rt) l)"
      using assms by (auto intro: option.rel_refl)
    fix p show "rel_option (\<lambda>a b. p_source b = p_source a \<and> p_revision b = p_revision a)
        (map_of (rt_plans rt) p) (map_of (rt_plans (set_node loc m rt)) p)"
      using pl by (auto simp: set_node_def intro: option.rel_refl)
    assume "ms_wf (plan_nodes rt p)"
    then show "ms_wf (plan_nodes (set_node loc m rt) p)"
      using pl by (auto simp: set_node_def plan_nodes_def split: option.splits)
  qed
qed

lemma graph_eq_set_execution: "node_at rt loc = Some n \<Longrightarrow> graph_eq rt (set_execution loc n e rt)"
  unfolding set_execution_def by (rule graph_eq_set_node) simp_all

lemma graph_eq_store: "rt_plans rt' = rt_plans rt \<Longrightarrow> graph_eq rt rt'"
  by (auto simp: graph_eq_def node_at_def plan_nodes_def intro: option.rel_refl)

lemma graph_eq_forward: "graph_eq rt (forward_node loc rt)"
proof (cases "node_at rt loc")
  case (Some n)
  have "same_static n (windowed rt loc n)" by (rule windowed_static)
  with Some show ?thesis
    by (simp add: forward_node_def same_static_def graph_eq_set_node flip: windowed_def)
qed (simp add: forward_node_def)

lemma graph_eq_raise: "graph_eq rt (raise_parent p k d rt)"
  by (auto simp: raise_parent_def intro: graph_eq_set_node split: option.splits)

lemma graph_eq_fold: "(\<And>x rt. graph_eq rt (f x rt)) \<Longrightarrow> graph_eq rt (fold f xs rt)"
  by (induction xs arbitrary: rt) (auto intro: graph_eq_trans)

lemma graph_eq_backward: "graph_eq rt (backward_node loc rt)"
proof (cases "node_at rt loc")
  case (Some n)
  have "graph_eq rt (set_node loc (n\<lparr>n_critical := n_critical n + 1\<rparr>) rt)"
    by (rule graph_eq_set_node [OF Some]) simp_all
  then show ?thesis
    unfolding backward_node_def Some option.case Let_def
    by (rule graph_eq_trans) (rule graph_eq_fold, rule graph_eq_raise)
qed (simp add: backward_node_def)

lemma graph_eq_recompute: "graph_eq rt (recompute ord rt)"
  unfolding recompute_def
  by (rule graph_eq_trans [OF graph_eq_fold [OF graph_eq_forward] graph_eq_fold [OF graph_eq_backward]])

lemma graph_eq_rearm: "graph_eq rt (snd (rearmExecution env c rt))"
proof -
  have "graph_eq rt (snd (fold (rearm_step env c) locs (hit, rt)))" for locs hit and rt :: "'k runtime"
  proof (induction locs arbitrary: hit rt)
    case (Cons loc locs)
    obtain hit' r' where st: "rearm_step env c loc (hit, rt) = (hit', r')" by force
    then have "graph_eq rt r'"
      by (auto simp: rearm_step_def intro: graph_eq_set_execution split: option.splits if_splits)
    with Cons.IH [of r' hit'] show ?case by (simp add: st graph_eq_trans)
  qed simp
  then show ?thesis by (simp add: rearm_fold)
qed

lemma graph_eq_next: "graph_eq rt (rt'\<lparr>rt_next := x\<rparr>) = graph_eq rt rt'"
  by (simp add: graph_eq_def plan_nodes_def)

lemma graph_eq_dispatch: "graph_eq rt (dispatch env op rt)"
proof (cases op)
  case (Rearm c)
  then show ?thesis by (simp add: graph_eq_rearm)
next
  case (Bind i k)
  then show ?thesis
    by (auto simp: bindActionKey_def intro: graph_eq_set_node split: option.splits)
qed (auto simp: promote_def defer_node_def finishPreparation_def attachExecution_def on_completion_def
    rejectExecution_def Let_def graph_eq_next intro: graph_eq_set_execution
    split: option.splits node_execution.splits)

subsection \<open>Steps and reachable runtimes\<close>

text \<open>The executions of the environment produce JavaScript values; the environment may change freely.\<close>

inductive plan_step :: "'k runtime \<Rightarrow> 'k runtime \<Rightarrow> bool" where
  Update: "owned_update captured u \<Longrightarrow> plan_step rt (snd (apply_update (env :: js_val env) captured u anchor rt))"
| Dispatch: "plan_step rt (dispatch (env :: js_val env) op rt)"
| Claim_match: "plan_step rt (snd (claimMatch (env :: js_val env) v actor rel rt))"
| Confirm_match: "plan_step rt (snd (confirm h actor adoption rt))"
| Miss_match: "plan_step rt (snd (miss loc actor rt))"
| Observe: "plan_step rt (observe_node i observation rt)"
| Reserve: "plan_step rt (snd (reserveRevision p least rt))"
| Clear: "plan_step rt (clear_runtime rt)"

inductive_cases plan_stepE: "plan_step rt rt'"

inductive plan_reachable :: "'k runtime \<Rightarrow> bool" where
  Fresh: "plan_reachable new_runtime"
| Step: "plan_reachable rt \<Longrightarrow> plan_step rt rt' \<Longrightarrow> plan_reachable rt'"

lemma graph_eq_claim: "graph_eq rt (snd (claimMatch env v actor rel rt))"
  by (auto simp: claimMatch_def Let_def intro: graph_eq_store split: option.splits prod.splits bool.splits)

lemma graph_eq_confirm: "graph_eq rt (snd (confirm h actor adoption rt))"
proof -
  have "graph_eq rt (recompute ord (set_opp h o1 rt))" for ord o1
    by (rule graph_eq_trans [OF graph_eq_store graph_eq_recompute]) simp
  then show ?thesis
    by (auto simp: confirm_def recompute_graph_def Let_def intro: graph_eq_store split: option.splits prod.splits)
qed

lemma graph_eq_miss: "graph_eq rt (snd (miss loc actor rt))"
  by (auto simp: miss_def intro: graph_eq_store split: option.splits prod.splits)

lemma graph_eq_observe: "graph_eq rt (observe_node i observation rt)"
  by (auto simp: observe_node_def intro: graph_eq_set_node split: option.splits)

lemma graph_eq_reserve: "graph_eq rt (snd (reserveRevision p least rt))"
proof (cases "map_of (rt_plans rt) p")
  case (Some pl)
  let ?rt = "snd (reserveRevision p least rt)"
  have m: "map_of (rt_plans ?rt) = (map_of (rt_plans rt))(p \<mapsto> pl\<lparr>p_nextRevision :=
      max (p_nextRevision pl) (max (p_revision pl + 1) least) + 1\<rparr>)"
    by (simp add: reserveRevision_def Some Let_def)
  have n: "plan_nodes ?rt = plan_nodes rt"
    by (auto simp: plan_nodes_def m Some fun_eq_iff)
  then have "node_at ?rt = node_at rt" by (simp add: node_at_def fun_eq_iff)
  with n show ?thesis
    unfolding graph_eq_def m using Some by (auto intro: option.rel_refl)
qed (simp add: reserveRevision_def)

lemma graph_inv_no_plans: "rt_plans rt = [] \<Longrightarrow> graph_inv rt"
  by (auto simp: graph_inv_def plan_nodes_def node_at_def up_def parent_locations_def dest: tranclpD)

text \<open>The runtime and the graph handle between the installation of the plan object and the ordering.\<close>

definition installed ::
  "'k runtime \<Rightarrow> string \<Rightarrow> string \<Rightarrow> nat \<Rightarrow> (string, plan_action) jsmap \<Rightarrow> string set \<Rightarrow> plan_action list \<Rightarrow> js_num \<Rightarrow>
     'k runtime" where
  "installed rt p source revision actions touched ordered anchor =
     install rt p source revision actions
       (nodes_in rt p source revision actions touched ordered (nonNegativeCount (JNum anchor)))"

definition joined_graph :: "'k runtime \<Rightarrow> (string, plan_action) jsmap \<Rightarrow> nat" where
  "joined_graph rt actions = rt_next rt + length actions"

lemma length_next_nodes [simp]:
  "length (next_nodes previous replaced touched p source revision anchor as h) = length as"
  by (metis length_map next_nodes_keys)

lemma commit_result:
  assumes "commit_ready rt p source revision actions (pa_id ` set ups) ordered"
  obtains ord where
    "ordered_in (installed rt p source revision actions (pa_id ` set ups) ordered anchor) ord"
    "set (graph_nodes (installed rt p source revision actions (pa_id ` set ups) ordered anchor)
       (g_plans (rt_graphs (installed rt p source revision actions (pa_id ` set ups) ordered anchor)
         (joined_graph rt actions)))) \<subseteq> set ord"
    "snd (commit env p source revision actions ups ordered anchor rt) =
       recompute ord (set_order (joined_graph rt actions) ord
         (installed rt p source revision actions (pa_id ` set ups) ordered anchor))"
    "fst (commit env p source revision actions ups ordered anchor rt) \<noteq> Commit_threw"
    "graph_inv (installed rt p source revision actions (pa_id ` set ups) ordered anchor)"
proof -
  let ?rt1 = "installed rt p source revision actions (pa_id ` set ups) ordered anchor"
  let ?g = "joined_graph rt actions"
  have inv: "graph_inv ?rt1"
    unfolding installed_def by (rule install_inv [OF assms refl])
  obtain ord where o: "order_graph ?g ?rt1 = Some ord" "ordered_in ?rt1 ord"
    "set (graph_nodes ?rt1 (g_plans (rt_graphs ?rt1 ?g))) \<subseteq> set ord"
    using order_graph_exists [OF inv] by blast
  have n: "nodes_in rt p source revision actions (pa_id ` set ups) ordered k = next_nodes (plan_nodes rt p)
      (replaced_ids (map (\<lambda>(i, n). (i, n_action n)) (plan_nodes rt p)) (set (map pa_id ups)) ordered)
      (set (map pa_id ups)) p source revision k actions (rt_next rt)" for k
    by (simp add: nodes_in_def replaced_in_def action_nodes_def)
  have c: "snd (commit env p source revision actions ups ordered anchor rt) =
      recompute_graph ?g (set_order ?g ord ?rt1)"
    "fst (commit env p source revision actions ups ordered anchor rt) \<noteq> Commit_threw"
    using o(1) unfolding commit_def Let_def n [symmetric] installed_def [symmetric]
    by (simp_all add: joined_graph_def nodes_in_def)
  moreover have "recompute_graph ?g (set_order ?g ord ?rt1) = recompute ord (set_order ?g ord ?rt1)"
    by (simp add: recompute_graph_def set_order_def)
  ultimately show thesis using that [OF o(2,3) _ _ inv] by simp
qed

lemma set_order_eq: "graph_eq rt (set_order g ord rt)"
  by (rule graph_eq_store) (simp add: set_order_def)

lemma update_inv:
  assumes inv: "graph_inv rt" and own: "owned_update captured u"
  shows "graph_inv (snd (apply_update env captured u anchor rt)) \<and>
    fst (apply_update env captured u anchor rt) \<noteq> Commit_threw"
proof -
  obtain result rt' where res: "apply_update env captured u anchor rt = (result, rt')" by force
  from inv own res show ?thesis
  proof (cases rule: apply_update_cases)
    case (rejected e)
    with inv res show ?thesis by simp
  next
    case (committed w ordered)
    from commit_result [OF committed(2), of anchor env] committed(3)
    obtain g ord rt1 where "rt' = recompute ord (set_order g ord rt1)" "result \<noteq> Commit_threw" "graph_inv rt1"
      by (metis fst_conv snd_conv)
    with graph_inv_eq [OF graph_eq_trans [OF set_order_eq graph_eq_recompute]] show ?thesis by (simp add: res)
  qed
qed

lemma plan_step_inv: "plan_step rt rt' \<Longrightarrow> graph_inv rt \<Longrightarrow> graph_inv rt'"
proof (induction rule: plan_step.induct)
  case (Update captured u rt env anchor)
  then show ?case using update_inv by blast
next
  case (Clear rt)
  show ?case by (rule graph_inv_no_plans) (simp add: clear_runtime_def)
qed (blast intro: graph_inv_eq graph_eq_dispatch graph_eq_claim graph_eq_confirm graph_eq_miss graph_eq_observe
    graph_eq_reserve)+

lemma plan_reachable_inv: "plan_reachable rt \<Longrightarrow> graph_inv rt"
  by (induction rule: plan_reachable.induct)
    (auto intro: plan_step_inv graph_inv_no_plans simp: new_runtime_def)

subsection \<open>What an update guarantees\<close>

text \<open>C2.
  The order that \<open>commit\<close> asserts to exist does exist: on a reachable runtime no update throws there,
  accepted or not, and the dependency graph over all plans stays acyclic.\<close>

theorem update_never_throws:
  assumes "plan_reachable rt" and "owned_update captured u"
  shows "fst (apply_update env captured u anchor rt) \<noteq> Commit_threw \<and>
    (\<forall>l. \<not> (up (snd (apply_update env captured u anchor rt)))\<^sup>+\<^sup>+ l l)"
  using update_inv [OF plan_reachable_inv [OF assms(1)] assms(2)] graph_invD(3) by blast

definition demo_action :: "string \<Rightarrow> dependency list \<Rightarrow> plan_action" where
  "demo_action i ds = \<lparr>pa_id = i, pa_type = ''tool_call'', pa_operation = None, pa_tool = ''read'', pa_input = JNull,
     pa_horizon = JUndef, pa_latestHorizon = JUndef, pa_resourceDemand = JUndef, pa_dependsOn = Some ds,
     pa_details = JUndef\<rparr>"

definition demo_dependency :: "string \<Rightarrow> dependency" where
  "demo_dependency i = \<lparr>dep_action = i, dep_proposal = None, dep_identity = None, dep_condition = None,
     dep_observation = None\<rparr>"

definition demo_update :: plan_update where
  "demo_update = Proposal_update ''p'' ''s'' (jnum 0) [demo_action ''b'' [demo_dependency ''a''], demo_action ''a'' []] False"

definition demo_env :: "js_val env" where
  "demo_env = (\<lambda>_. Queued)"

theorem update_never_throws_witness:
  "fst (apply_update demo_env False demo_update (Fin 3) (new_runtime :: nat runtime)) \<noteq> Commit_threw"
proof -
  have "plan_reachable (new_runtime :: nat runtime)" by (rule plan_reachable.Fresh)
  from update_never_throws [OF this, of False demo_update demo_env "Fin 3"] show ?thesis
    by (simp add: owned_update_def)
qed

lemma capture_keeps:
  "capture captured u True = Inr w \<Longrightarrow> update_plan w = update_plan u \<and> update_source w = update_source u \<and>
     update_revision w = update_revision u"
  by (cases u) (auto simp: capture_def split: if_splits sum.splits)

lemma set_order_frame [simp]:
  "node_at (set_order g ord rt) = node_at rt" "rt_opps (set_order g ord rt) = rt_opps rt"
  "rt_plans (set_order g ord rt) = rt_plans rt"
  by (simp_all add: set_order_def node_at_def plan_nodes_def fun_eq_iff)

lemma set_order_static: "static_eq rt (set_order g ord rt)"
  by (auto simp: static_eq_def intro: option.rel_refl)

lemma graph_nodesI:
  assumes "p \<in> set ps" and "i \<in> set (ms_keys (plan_nodes rt p))"
  shows "(p, i) \<in> set (graph_nodes rt ps)"
proof -
  have "(p, i) \<in> set (map (\<lambda>a. (p, a)) (ms_keys (plan_nodes rt p)))"
    unfolding set_map [of "Pair p"] using assms(2) by (rule imageI)
  with assms(1) show ?thesis unfolding graph_nodes_def set_concat set_map [of "\<lambda>p. map (Pair p) (ms_keys (plan_nodes rt p))"] by (rule UN_I [OF imageI])
qed

lemma recomputed_plan:
  assumes "ordered_in rt ord"
  shows "static_eq rt (recompute ord (set_order g ord rt))"
    and "\<And>loc. loc \<in> set ord \<Longrightarrow> window_ok (recompute ord (set_order g ord rt)) loc"
    and "steps_ok (recompute ord (set_order g ord rt)) (set ord) (set ord) (recompute ord (set_order g ord rt))"
proof -
  let ?r = "set_order g ord rt"
  have "ordered_in ?r ord" using assms ordered_in_static [OF set_order_static] by blast
  note s = recompute_sound [OF this]
  show st: "static_eq rt (recompute ord ?r)" using static_eq_trans [OF set_order_static] s by blast
  show "window_ok (recompute ord ?r) loc" if "loc \<in> set ord" for loc using s that by blast
  have "child (recompute ord ?r) = child ?r"
    using parent_locations_static [of ?r "recompute ord ?r"] s by (simp add: child_def fun_eq_iff)
  then show "steps_ok (recompute ord ?r) (set ord) (set ord) (recompute ord ?r)"
    using s unfolding steps_ok_def by simp
qed

text \<open>C37.
  The decision windows of an accepted update: the nodes of the plan lie in an order of its joined
  graph in which every node's earliest, expected and latest decision is the largest of its own and of
  its parents' (one batch later unless the parent is an internal operation), it is valid exactly if
  all its dependencies resolve to valid nodes, and its critical path counts one step more than its
  longest child.\<close>

theorem accepted_update_windows:
  assumes "plan_reachable rt" and "owned_update captured u"
    and "apply_update env captured u anchor rt = (Update_accepted mp ups removed retired, rt')"
  shows "\<exists>ord. (\<forall>i. node_at rt' (update_plan u, i) \<noteq> None \<longrightarrow> (update_plan u, i) \<in> set ord) \<and>
    (\<forall>loc\<in>set ord. window_ok rt' loc) \<and> steps_ok rt' (set ord) (set ord) rt'"
proof -
  from plan_reachable_inv [OF assms(1)] assms(2,3) show ?thesis
  proof (cases rule: apply_update_cases)
    case (committed w ordered)
    let ?p = "update_plan w" and ?acts = "updated_actions rt w (map_of (rt_plans rt) (update_plan w))"
    define rt1 where "rt1 = installed rt ?p (update_source w) (nonNegativeCount (update_revision w)) ?acts
        (pa_id ` set (offered_actions True w)) ordered anchor"
    from commit_result [OF committed(2), of anchor env] committed(3) obtain ord where
      o: "ordered_in rt1 ord"
      "set (graph_nodes rt1 (g_plans (rt_graphs rt1 (joined_graph rt ?acts)))) \<subseteq> set ord"
      and rt': "rt' = recompute ord (set_order (joined_graph rt ?acts) ord rt1)"
      unfolding rt1_def by (metis snd_conv)
    note r = recomputed_plan [OF o(1), where g = "joined_graph rt ?acts", folded rt']
    have member: "?p \<in> set (g_plans (rt_graphs rt1 (joined_graph rt ?acts)))"
      by (simp add: rt1_def installed_def install_def Let_def joined_graph_def nodes_in_def)
    have key: "i \<in> set (ms_keys (plan_nodes rt1 ?p))" if "node_at rt' (?p, i) \<noteq> None" for i
      using that static_eq_dom [OF r(1), of "(?p, i)"] by (simp add: node_at_def map_of_eq_None_iff)
    have "(?p, i) \<in> set ord" if "node_at rt' (?p, i) \<noteq> None" for i
      using o(2) graph_nodesI [OF member key [OF that]] by blast
    moreover have "update_plan u = ?p" using capture_keeps [OF committed(1)] by simp
    ultimately show ?thesis using r(2,3) by metis
  qed simp
qed

text \<open>A concrete accepted update for the two properties on accepted updates.\<close>

lemma demo_capture:
  "capture False demo_update True = Inr (Proposal_update ''p'' ''s'' (jnum 0)
     [demo_action ''b'' [canonical_dependency (demo_dependency ''a'')], demo_action ''a'' []] False)"
  by (simp add: capture_def demo_update_def validToken_def js_trim_def js_space_def isSafeCount_def isSafeInteger_def
      max_safe_def validateActions_def action_head_valid_def demo_action_def canonical_dependency_def
      demo_dependency_def dependency_valid_def dependency_conditions_def Let_def)

lemma commit_accepts:
  "fst (commit env p source revision actions ups ordered anchor rt) \<noteq> Commit_threw \<Longrightarrow>
    \<exists>mp us removed retired rt'. commit env p source revision actions ups ordered anchor rt =
      (Update_accepted mp us removed retired, rt')"
  unfolding commit_def Let_def by (auto split: option.splits)

lemma demo_accepted:
  "\<exists>mp us removed retired rt'. apply_update demo_env False demo_update (Fin 3) (new_runtime :: nat runtime) =
     (Update_accepted mp us removed retired, rt')"
proof -
  let ?a = "demo_action ''a'' []" and ?b = "demo_action ''b'' [canonical_dependency (demo_dependency ''a'')]"
  let ?rt = "new_runtime :: nat runtime"
  have acts: "updated_actions ?rt (Proposal_update ''p'' ''s'' (jnum 0) [?b, ?a] False) None = [(''b'', ?b), (''a'', ?a)]"
    by (simp add: updated_actions_def set_actions_def demo_action_def)
  have deps: "update_dependencies ?rt ''p'' [(''b'', ?b), (''a'', ?a)] ?b = [Some ?a]"
    "update_dependencies ?rt ''p'' [(''b'', ?b), (''a'', ?a)] ?a = []"
    by (simp_all add: update_dependencies_def deps_of_def demo_action_def demo_dependency_def
        canonical_dependency_def cross_plan_def Let_def)
  have "?a \<noteq> ?b" by (simp add: demo_action_def)
  then have "dependencyOrder [?b, ?a] (update_dependencies ?rt ''p'' [(''b'', ?b), (''a'', ?a)]) = Some [?a, ?b]"
    by (simp add: dependencyOrder_def dep_loop.simps deps)
  then obtain ordered w acts where eq: "apply_update demo_env False demo_update (Fin 3) ?rt =
      commit demo_env ''p'' ''s'' 0 acts w ordered (Fin 3) ?rt"
    unfolding apply_update_def demo_capture sum.case Let_def
    by (simp add: update_refusal_def new_runtime_def acts [unfolded new_runtime_def] nonNegativeCount_def)
  have "fst (apply_update demo_env False demo_update (Fin 3) ?rt) \<noteq> Commit_threw"
    using update_inv [of ?rt False demo_update demo_env "Fin 3"]
    by (simp add: owned_update_def graph_inv_no_plans new_runtime_def)
  with commit_accepts show ?thesis unfolding eq by blast
qed

theorem accepted_update_windows_witness:
  "\<exists>mp us removed retired rt' ord.
     apply_update demo_env False demo_update (Fin 3) (new_runtime :: nat runtime) =
       (Update_accepted mp us removed retired, rt') \<and> (\<forall>loc\<in>set ord. window_ok rt' loc)"
proof -
  from demo_accepted obtain mp us removed retired and rt' :: "nat runtime" where
    acc: "apply_update demo_env False demo_update (Fin 3) new_runtime = (Update_accepted mp us removed retired, rt')"
    by blast
  have "plan_reachable (new_runtime :: nat runtime)" by (rule plan_reachable.Fresh)
  from accepted_update_windows [OF this _ acc] acc show ?thesis by (auto simp: owned_update_def)
qed

text \<open>What a node of the new revision may be.\<close>

definition carried_over :: "'k node \<Rightarrow> 'k node \<Rightarrow> bool" where
  "carried_over n0 n \<longleftrightarrow> n_identity n = n_identity n0 \<and> n_opportunity n = n_opportunity n0 \<and>
     n_execution n = n_execution n0 \<and> n_observation n = n_observation n0 \<and> n_actionKey n = n_actionKey n0 \<and>
     set (deps_of (n_action n)) = set (deps_of (n_action n0))"

definition brand_new :: "'k runtime \<Rightarrow> nat \<Rightarrow> string \<Rightarrow> string \<Rightarrow> nat \<Rightarrow> string \<Rightarrow> 'k node \<Rightarrow> bool" where
  "brand_new rt least source p revision i n \<longleftrightarrow>
     pi_id (n_identity n) = node_identity_text source p i revision \<and> n_execution n = Own PDeferred \<and>
     n_actionKey n = None \<and> n_observation n = None \<and> least \<le> n_opportunity n \<and>
     op_state (node_opportunity rt n) = Pending"

text \<open>When the update asks for a node to be renewed, in terms of the update and the two runtimes alone:
  the action is not in the old plan, or the update offers it and it no longer executes like the one
  the old plan had, or it depends on an action of the plan whose node is renewed.\<close>

definition executes_alike :: "plan_action \<Rightarrow> plan_action \<Rightarrow> bool" where
  "executes_alike l r \<longleftrightarrow> pa_type l = pa_type r \<and>
     map_option op_object (pa_operation l) = map_option op_object (pa_operation r) \<and> pa_tool l = pa_tool r \<and>
     deep_equal (pa_input l) (pa_input r) \<and> mset (deps_of l) = mset (deps_of r)"

definition offered_ids :: "plan_update \<Rightarrow> string set" where
  "offered_ids u = pa_id ` set (offered_actions True u)"

inductive renewed :: "'k runtime \<Rightarrow> 'k runtime \<Rightarrow> plan_update \<Rightarrow> string \<Rightarrow> bool" for rt rt' u where
  Added: "node_at rt' (update_plan u, i) \<noteq> None \<Longrightarrow> node_at rt (update_plan u, i) = None \<Longrightarrow> renewed rt rt' u i"
| Changed: "node_at rt' (update_plan u, i) = Some n \<Longrightarrow> node_at rt (update_plan u, i) = Some n0 \<Longrightarrow>
    i \<in> offered_ids u \<Longrightarrow> \<not> executes_alike (n_action n0) (n_action n) \<Longrightarrow> renewed rt rt' u i"
| Depends: "node_at rt' (update_plan u, i) = Some n \<Longrightarrow> d \<in> set (deps_of (n_action n)) \<Longrightarrow> \<not> cross_plan d \<Longrightarrow>
    renewed rt rt' u (dep_action d) \<Longrightarrow> renewed rt rt' u i"

inductive_cases renewedE: "renewed rt rt' u i"

lemma executes_alike_iff: "samePlanActionExecution l r \<longleftrightarrow> executes_alike l r"
  by (simp add: samePlanActionExecution_ignores_order executes_alike_def)

text \<open>Capturing an update keeps the ids it offers.\<close>

lemma validate_heads_ids: "validate_heads as ids = Inr bs \<Longrightarrow> map pa_id bs = map pa_id as"
  by (induction as arbitrary: ids bs) (auto simp: Let_def split: if_splits sum.splits)

lemma validate_inputs_ids: "validate_inputs as = Inr bs \<Longrightarrow> map pa_id bs = map pa_id as"
  by (induction as arbitrary: bs) (auto split: if_splits sum.splits)

lemma validateActions_ids: "validateActions as = Inr bs \<Longrightarrow> map pa_id bs = map pa_id as"
  by (cases "validate_heads as {}") (auto simp: validateActions_def validate_heads_ids validate_inputs_ids)

lemma capture_ids:
  assumes "capture captured u True = Inr w"
  shows "pa_id ` set (offered_actions True w) = offered_ids u"
proof (cases captured)
  case True
  with assms show ?thesis by (simp add: capture_def offered_ids_def)
next
  case False
  with assms have "capture False u True = Inr w" by simp
  then obtain as where "validateActions (offered_actions True u) = Inr as" "w = with_actions True as u"
    using capture_fresh by blast
  then show ?thesis by (metis offered_ids_def offered_with_actions set_map validateActions_ids)
qed

text \<open>The code's list of replaced ids is closed and holds nothing else.\<close>

lemma replaced_ids_induct:
  assumes "i \<in> set (replaced_ids previous touched us)"
    and changed: "\<And>a old. a \<in> set us \<Longrightarrow> map_of previous (pa_id a) = Some old \<Longrightarrow> pa_id a \<in> touched \<Longrightarrow>
      \<not> samePlanActionExecution old a \<Longrightarrow> P (pa_id a)"
    and depends: "\<And>a d. a \<in> set us \<Longrightarrow> d \<in> set (deps_of a) \<Longrightarrow> \<not> cross_plan d \<Longrightarrow> P (dep_action d) \<Longrightarrow> P (pa_id a)"
  shows "P i"
  using assms
proof (induction us arbitrary: i rule: rev_induct)
  case (snoc b us)
  have sub: "set us \<subseteq> set (us @ [b])" by auto
  have IH: "P j" if "j \<in> set (replaced_ids previous touched us)" for j
    using snoc.IH [OF that] snoc.prems(2,3) sub by (meson subsetD)
  from snoc.prems(1) IH snoc.prems(2) [of b] snoc.prems(3) [of b] show ?case
    unfolding replaced_ids_snoc by (auto simp: list_ex_iff split: option.splits if_splits)
qed (simp add: replaced_ids_def)

lemma kept_alike:
  assumes ready: "commit_ready rt p source revision actions touched ordered"
    and a: "map_of actions i = Some a" and k: "kept_in rt p touched ordered i"
    and n: "node_at rt (p, i) = Some n" and t: "i \<in> touched"
  shows "samePlanActionExecution (n_action n) a"
proof -
  have id: "pa_id a = i" using keyedD [OF commit_readyD(2) [OF ready] a] .
  have "a \<in> set ordered"
    using order_facts(1) [OF ready] a keyed_values [OF commit_readyD(2) [OF ready]] id by simp
  then obtain us vs where o: "ordered = us @ a # vs" by (meson split_list)
  have prev: "map_of (action_nodes rt p) (pa_id a) = Some (n_action n)"
    by (simp add: action_nodes_lookup id n)
  have "pa_id a \<notin> set (replaced_ids (action_nodes rt p) touched ordered)"
    using k id by (simp add: kept_in_def carried_def replaced_in_def)
  from not_replaced [OF order_facts(2) [OF ready] o prev this] update_dependency(2) [OF ready o] t id
  show ?thesis by (force simp: rev_image_eqI)
qed

lemma fresh_pending:
  assumes "(i, n) \<in> set ns" and "h \<le> n_opportunity n"
  shows "op_state (fresh_opportunities h ns opps (n_opportunity n)) = Pending"
proof -
  have "filter (\<lambda>(j, m). n_opportunity m = n_opportunity n) ns \<noteq> []"
    using assms(1) by (auto simp: filter_empty_conv)
  with assms(2) show ?thesis
    by (auto simp: fresh_opportunities_def new_opportunity_def split: list.splits prod.splits)
qed

lemma installed_kind:
  assumes ready: "commit_ready rt p source revision actions touched ordered"
    and n: "node_at (installed rt p source revision actions touched ordered anchor) (p, i) = Some n"
  shows "map_of actions i = Some (n_action n) \<and>
    (if kept_in rt p touched ordered i then \<exists>n0. node_at rt (p, i) = Some n0 \<and> carried_over n0 n
     else brand_new (installed rt p source revision actions touched ordered anchor) (rt_next rt) source p revision i n)"
proof -
  let ?nodes = "nodes_in rt p source revision actions touched ordered (nonNegativeCount (JNum anchor))"
  have m: "map_of ?nodes i = Some n" using n by (simp add: installed_def install_facts)
  then obtain a where a: "map_of actions i = Some a"
    and ok: "next_ok (plan_nodes rt p) (replaced_in rt p touched ordered) touched p source revision
      (nonNegativeCount (JNum anchor)) (rt_next rt) (rt_next rt + length actions) i a n"
    unfolding nodes_in_def using next_nodes_lookup by blast
  show ?thesis
  proof (cases "kept_in rt p touched ordered i")
    case True
    then have c: "carried (plan_nodes rt p) (replaced_in rt p touched ordered) i" by (simp add: kept_in_def)
    from kept_action [OF ready a True] obtain n0 where n0: "node_at rt (p, i) = Some n0"
      "set (deps_of a) = set (deps_of (n_action n0))" by metis
    then have "the (map_of (plan_nodes rt p) i) = n0" by (simp add: node_at_def)
    then have "carried_over n0 n" "n_action n = a"
      using ok c n0(2) by (simp_all add: next_ok_def kept_node_def carried_over_def)
    with n0(1) a True show ?thesis by simp
  next
    case False
    then have "\<not> carried (plan_nodes rt p) (replaced_in rt p touched ordered) i" by (simp add: kept_in_def)
    with ok obtain k where k: "rt_next rt \<le> k" "n = new_node p source revision a (nonNegativeCount (JNum anchor)) k"
      by (auto simp: next_ok_def)
    have "pa_id a = i" using keyedD [OF commit_readyD(2) [OF ready] a] .
    moreover have "op_state (node_opportunity (installed rt p source revision actions touched ordered anchor) n) = Pending"
      using fresh_pending [OF map_of_SomeD [OF m], of "rt_next rt" "rt_opps rt"] k
      by (simp add: node_opportunity_def installed_def install_def Let_def new_node_def)
    ultimately show ?thesis using k a False by (simp add: brand_new_def new_node_def)
  qed
qed

lemma installed_at:
  assumes ready: "commit_ready rt p source revision actions touched ordered"
    and a: "map_of actions i = Some a"
  shows "\<exists>n. node_at (installed rt p source revision actions touched ordered anchor) (p, i) = Some n"
proof -
  let ?nodes = "nodes_in rt p source revision actions touched ordered (nonNegativeCount (JNum anchor))"
  have "map fst ?nodes = map fst actions" by (simp add: nodes_in_def)
  moreover have "i \<in> fst ` set actions" using a by (metis map_of_eq_None_iff option.distinct(1))
  ultimately have "map_of ?nodes i \<noteq> None" by (metis map_of_eq_None_iff set_map)
  then show ?thesis by (simp add: installed_def install_facts)
qed

text \<open>The nodes that the code keeps are those the specification does not renew; only the actions of
  the new nodes matter, so any runtime with the same nodes will do.\<close>

lemma kept_iff_not_renewed:
  assumes ready: "commit_ready rt (update_plan u) source revision actions (offered_ids u) ordered"
    and at: "\<And>i. map_option n_action (node_at rt' (update_plan u, i)) = map_of actions i"
    and i: "node_at rt' (update_plan u, i) \<noteq> None"
  shows "kept_in rt (update_plan u) (offered_ids u) ordered i \<longleftrightarrow> \<not> renewed rt rt' u i"
proof
  let ?p = "update_plan u" and ?kept = "kept_in rt (update_plan u) (offered_ids u) ordered"
  have act: "map_of actions j = Some (n_action n)" if "node_at rt' (?p, j) = Some n" for j n
    using at [of j] that by simp
  have "\<not> ?kept j" if "renewed rt rt' u j" for j
    using that
  proof (induction rule: renewed.induct)
    case (Added j)
    then show ?case by (simp add: kept_in_def carried_def node_at_def)
  next
    case (Changed j n n0)
    with kept_alike [OF ready act [OF Changed(1)]] show ?case by (auto simp: executes_alike_iff)
  next
    case (Depends j n d)
    show ?case
    proof
      assume "?kept j"
      from kept_action [OF ready act [OF Depends(1)] this] Depends show False by metis
    qed
  qed
  then show "?kept i \<Longrightarrow> \<not> renewed rt rt' u i" by blast
  assume new: "\<not> renewed rt rt' u i"
  have known: "node_at rt (?p, i) \<noteq> None" using new i by (auto intro: renewed.Added)
  have node: "\<exists>n. node_at rt' (?p, pa_id a) = Some n \<and> n_action n = a" if "a \<in> set ordered" for a
  proof -
    have "map_of actions (pa_id a) = Some a"
      using that order_facts(1) [OF ready] keyed_values [OF commit_readyD(2) [OF ready]] by simp
    with at [of "pa_id a"] show ?thesis by auto
  qed
  have "renewed rt rt' u j" if "j \<in> set (replaced_ids (action_nodes rt ?p) (offered_ids u) ordered)" for j
    using that
  proof (rule replaced_ids_induct)
    fix a old assume "a \<in> set ordered" "map_of (action_nodes rt ?p) (pa_id a) = Some old"
      "pa_id a \<in> offered_ids u" "\<not> samePlanActionExecution old a"
    with node [of a] show "renewed rt rt' u (pa_id a)"
      by (auto simp: action_nodes_lookup executes_alike_iff intro: renewed.Changed)
  next
    fix a d assume "a \<in> set ordered" "d \<in> set (deps_of a)" "\<not> cross_plan d" "renewed rt rt' u (dep_action d)"
    with node [of a] show "renewed rt rt' u (pa_id a)" by (auto intro: renewed.Depends)
  qed
  with new known show "?kept i" by (auto simp: kept_in_def carried_def replaced_in_def node_at_def)
qed


text \<open>A second update of the demonstration plan: it offers the first step again as it was and the second
  one without its dependency.\<close>

definition demo_planned :: "nat runtime" where
  "demo_planned = snd (apply_update demo_env False demo_update (Fin 3) new_runtime)"

definition demo_revision :: plan_update where
  "demo_revision = Delta_update ''p'' ''s'' (jnum 1) (Some [demo_action ''b'' [], demo_action ''a'' []]) None"

definition accepts :: "'k update_result \<Rightarrow> bool" where
  "accepts r = (case r of Update_accepted _ _ _ _ \<Rightarrow> True | _ \<Rightarrow> False)"

lemma demo_revised:
  "accepts (fst (apply_update demo_env False demo_revision (Fin 3) demo_planned))"
  "map_option n_action (node_at demo_planned (''p'', ''a'')) = Some (demo_action ''a'' [])"
  "map_option (\<lambda>n. deps_of (n_action n)) (node_at demo_planned (''p'', ''b'')) =
     Some [canonical_dependency (demo_dependency ''a'')]"
  "map_option n_action (node_at (snd (apply_update demo_env False demo_revision (Fin 3) demo_planned)) (''p'', ''a'')) =
     Some (demo_action ''a'' [])"
  "map_option n_action (node_at (snd (apply_update demo_env False demo_revision (Fin 3) demo_planned)) (''p'', ''b'')) =
     Some (demo_action ''b'' [])"
  by code_simp+

lemma acceptsE:
  assumes "accepts (fst r)"
  obtains mp us removed retired where "r = (Update_accepted mp us removed retired, snd r)"
  using assms by (cases r; cases "fst r") (auto simp: accepts_def)


end
