(* ===== verification/Path_Utils.thy ===== *)
theory Path_Utils
  imports Stable_Json "HOL-Library.Sublist"
begin

text \<open>
  Resource paths (\<open>src/path-utils.ts\<close>) on a POSIX host, where \<open>path.sep\<close> is a slash and
  \<open>process.platform\<close> is not \<open>win32\<close>; the current directory of the process is the parameter
  \<open>cwd\<close>.  The functions of Node's \<open>path\<close> the source calls are written on the segments between
  slashes: \<open>norm_segs\<close> is the normalization of a segment list, a stack to which every
  segment is pushed.
\<close>

subsection \<open>Segments\<close>

definition slash_char :: char where "slash_char = CHR ''/''"

fun split_slash :: "string \<Rightarrow> string list" where
  "split_slash [] = [[]]"
| "split_slash (c # cs) =
     (if c = slash_char then [] # split_slash cs
      else case split_slash cs of [] \<Rightarrow> [[c]] | s # ss \<Rightarrow> (c # s) # ss)"

abbreviation join_slash :: "string list \<Rightarrow> string" where
  "join_slash \<equiv> join_with ''/''"

definition is_absolute :: "string \<Rightarrow> bool" where
  "is_absolute p \<longleftrightarrow> p \<noteq> [] \<and> hd p = slash_char"

definition push_seg :: "bool \<Rightarrow> string \<Rightarrow> string list \<Rightarrow> string list" where
  "push_seg up s stack =
     (if s = '''' \<or> s = ''.'' then stack
      else if s = ''..'' then
        (if stack = [] \<or> hd stack = ''..'' then if up then ''..'' # stack else tl stack
         else tl stack)
      else s # stack)"

definition norm_segs :: "bool \<Rightarrow> string list \<Rightarrow> string list" where
  "norm_segs up ss = rev (fold (push_seg up) ss [])"

subsection \<open>Node's path functions\<close>

definition path_segs :: "string \<Rightarrow> string \<Rightarrow> string list" where
  "path_segs cwd p = norm_segs False (split_slash (if is_absolute p then p else cwd @ ''/'' @ p))"

definition absolute_text :: "string list \<Rightarrow> string" where
  "absolute_text ss = slash_char # join_slash ss"

definition path_resolve :: "string \<Rightarrow> string \<Rightarrow> string" where
  "path_resolve cwd p = absolute_text (path_segs cwd p)"

definition path_dirname :: "string \<Rightarrow> string" where
  "path_dirname p = absolute_text (butlast (norm_segs False (split_slash p)))"

fun relative_segs :: "string list \<Rightarrow> string list \<Rightarrow> string list" where
  "relative_segs (a # as) (b # bs) =
     (if a = b then relative_segs as bs else replicate (Suc (length as)) ''..'' @ b # bs)"
| "relative_segs as bs = replicate (length as) ''..'' @ bs"

definition path_relative :: "string \<Rightarrow> string \<Rightarrow> string \<Rightarrow> string" where
  "path_relative cwd from target = join_slash (relative_segs (path_segs cwd from) (path_segs cwd target))"

definition posix_normalize :: "string \<Rightarrow> string" where
  "posix_normalize p =
     (if p = [] then ''.'' else
      let body = join_slash (norm_segs (\<not> is_absolute p) (split_slash p));
          trail = (last p = slash_char) in
      if body = [] then (if is_absolute p then ''/'' else if trail then ''./'' else ''.'')
      else (if is_absolute p then ''/'' else []) @ body @ (if trail then ''/'' else []))"

subsection \<open>The functions of path-utils\<close>

definition drive_root :: "string \<Rightarrow> bool" where
  "drive_root p \<longleftrightarrow> length p = 3 \<and> p ! 1 = CHR '':'' \<and> p ! 2 = slash_char \<and>
     (let n = (of_char (p ! 0) :: nat) in 65 \<le> n \<and> n \<le> 90 \<or> 97 \<le> n \<and> n \<le> 122)"

definition normalizeLogicalPath :: "string \<Rightarrow> string" where
  "normalizeLogicalPath v = (let n = posix_normalize v in
     if n = ''/'' \<or> drive_root n then n
     else if n \<noteq> [] \<and> last n = slash_char then butlast n else n)"

definition filesystemPathKey :: "string \<Rightarrow> string \<Rightarrow> string" where
  "filesystemPathKey cwd v = path_resolve cwd v"

definition sameFilesystemPath :: "string \<Rightarrow> string \<Rightarrow> bool" where
  "sameFilesystemPath l r \<longleftrightarrow> l = r"

definition plain_segment :: "string \<Rightarrow> bool" where
  "plain_segment s \<longleftrightarrow> s \<noteq> [] \<and> s \<noteq> ''.'' \<and> s \<noteq> ''..''"

definition normalized_absolute :: "string \<Rightarrow> bool" where
  "normalized_absolute p \<longleftrightarrow> (case split_slash p of
     [] # s # ss \<Rightarrow> list_all plain_segment (s # ss) | _ \<Rightarrow> False)"

definition relativeFilesystemPath :: "string \<Rightarrow> string \<Rightarrow> string \<Rightarrow> string option" where
  "relativeFilesystemPath cwd base target =
     (if normalized_absolute base \<and> normalized_absolute target then
        if target = base then Some []
        else if prefix (base @ ''/'') target then Some (drop (Suc (length base)) target) else None
      else
        let rroot = path_resolve cwd base; rtarget = path_resolve cwd target;
            rel = path_relative cwd rroot rtarget in
        if rel = [] then (if sameFilesystemPath rroot rtarget then Some [] else None)
        else if rel = ''..'' \<or> prefix ''../'' rel \<or> is_absolute rel then None
        else if sameFilesystemPath (path_resolve rroot rel) rtarget then Some rel else None)"

definition containsFilesystemPath :: "string \<Rightarrow> string \<Rightarrow> string \<Rightarrow> bool" where
  "containsFilesystemPath cwd base target \<longleftrightarrow> relativeFilesystemPath cwd base target \<noteq> None"

definition containsLogicalPath :: "string \<Rightarrow> string \<Rightarrow> string \<Rightarrow> bool" where
  "containsLogicalPath cwd base target \<longleftrightarrow>
     (let rel = path_relative cwd (normalizeLogicalPath base) (normalizeLogicalPath target) in
      rel = [] \<or> (rel \<noteq> ''..'' \<and> \<not> prefix ''../'' rel \<and> \<not> is_absolute rel))"

subsection \<open>Splitting and joining\<close>

definition slash_free :: "string \<Rightarrow> bool" where
  "slash_free s \<longleftrightarrow> slash_char \<notin> set s"

lemma split_slash_nonempty [simp]: "split_slash p \<noteq> []"
  by (cases p) (auto split: list.splits)

lemma split_slash_free: "s \<in> set (split_slash p) \<Longrightarrow> slash_free s"
  by (induction p arbitrary: s rule: split_slash.induct)
    (auto simp: slash_free_def split: if_splits list.splits)

lemma split_slash_single: "slash_free s \<Longrightarrow> split_slash s = [s]"
  by (induction s) (auto simp: slash_free_def)

lemma split_slash_append: "slash_free s \<Longrightarrow> split_slash (s @ slash_char # p) = s # split_slash p"
  by (induction s) (auto simp: slash_free_def)

lemma join_slash_Cons: "ss \<noteq> [] \<Longrightarrow> join_slash (s # ss) = s @ slash_char # join_slash ss"
  by (cases ss) (auto simp: slash_char_def)

lemma split_join: "list_all slash_free ss \<Longrightarrow> ss \<noteq> [] \<Longrightarrow> split_slash (join_slash ss) = ss"
proof (induction ss)
  case (Cons s ss)
  then show ?case
    by (cases "ss = []") (simp_all add: split_slash_single join_slash_Cons split_slash_append)
qed simp

lemma split_slash_snoc: "split_slash (p @ slash_char # q) = split_slash p @ split_slash q"
  by (induction p) (auto split: list.splits simp: Cons_eq_append_conv)

lemma join_split: "join_slash (split_slash p) = p"
proof (induction p)
  case (Cons c cs)
  then show ?case
    by (cases "split_slash cs" rule: list.exhaust; cases "tl (split_slash cs)")
      (auto simp: slash_char_def join_slash_Cons)
qed simp

lemma split_slash_inject: "split_slash p = split_slash q \<longleftrightarrow> p = q"
  by (metis join_split)

subsection \<open>Places: what a path resolves to\<close>

definition place :: "string list \<Rightarrow> bool" where
  "place ss \<longleftrightarrow> list_all (\<lambda>s. plain_segment s \<and> slash_free s) ss"

lemma place_Nil [simp]: "place []"
  by (simp add: place_def)

lemma place_Cons [simp]: "place (s # ss) \<longleftrightarrow> plain_segment s \<and> slash_free s \<and> place ss"
  by (simp add: place_def)

lemma place_append [simp]: "place (xs @ ys) \<longleftrightarrow> place xs \<and> place ys"
  by (simp add: place_def)

lemma place_rev [simp]: "place (rev ss) \<longleftrightarrow> place ss"
  by (simp add: place_def)

lemma place_butlast: "place ss \<Longrightarrow> place (butlast ss)"
  by (induction ss) auto

lemma place_free: "place ss \<Longrightarrow> list_all slash_free ss"
  by (simp add: place_def list_all_iff)

lemma place_push: "place stack \<Longrightarrow> slash_free s \<Longrightarrow> place (push_seg False s stack)"
  by (cases stack) (auto simp: push_seg_def plain_segment_def)

lemma place_fold: "place stack \<Longrightarrow> list_all slash_free ss \<Longrightarrow> place (fold (push_seg False) ss stack)"
  by (induction ss arbitrary: stack) (auto simp: place_push)

lemma split_all_free: "list_all slash_free (split_slash p)"
  by (auto simp: list_all_iff split_slash_free)

lemma place_path_segs [simp]: "place (path_segs cwd p)"
  by (simp add: path_segs_def norm_segs_def place_fold split_all_free)

lemma fold_push_place: "place ss \<Longrightarrow> fold (push_seg up) ss stack = rev ss @ stack"
  by (induction ss arbitrary: stack) (auto simp: push_seg_def plain_segment_def)

lemma norm_place: "place ss \<Longrightarrow> norm_segs up ss = ss"
  by (simp add: norm_segs_def fold_push_place)

lemma push_blank [simp]: "push_seg up [] stack = stack"
  by (simp add: push_seg_def)

lemma norm_blank [simp]: "norm_segs up ([] # ss) = norm_segs up ss"
  by (simp add: norm_segs_def)

lemma split_absolute_text:
  "place ss \<Longrightarrow> split_slash (absolute_text ss) = [] # (if ss = [] then [[]] else ss)"
  by (simp add: absolute_text_def split_join place_free)

lemma is_absolute_text [simp]: "is_absolute (absolute_text ss)"
  by (simp add: is_absolute_def absolute_text_def)

lemma path_segs_absolute_text [simp]: "place ss \<Longrightarrow> path_segs cwd (absolute_text ss) = ss"
  by (simp add: path_segs_def split_absolute_text norm_place)

lemma path_segs_resolve [simp]: "path_segs cwd' (path_resolve cwd p) = path_segs cwd p"
  by (simp add: path_resolve_def)

lemma path_resolve_idem [simp]: "path_resolve cwd' (path_resolve cwd p) = path_resolve cwd p"
  by (simp add: path_resolve_def)

lemma absolute_text_inject: "place as \<Longrightarrow> place bs \<Longrightarrow> absolute_text as = absolute_text bs \<longleftrightarrow> as = bs"
  by (metis path_segs_absolute_text)

lemma filesystemPathKey_inject:
  "filesystemPathKey cwd p = filesystemPathKey cwd q \<longleftrightarrow> path_segs cwd p = path_segs cwd q"
  by (simp add: filesystemPathKey_def path_resolve_def absolute_text_inject)

lemma path_dirname_resolve: "path_segs cwd' (path_dirname (path_resolve cwd p)) = butlast (path_segs cwd p)"
proof -
  have "norm_segs False (split_slash (path_resolve cwd p)) = path_segs cwd p"
    using path_segs_resolve [of "[]" cwd p] by (simp add: path_segs_def path_resolve_def)
  then show ?thesis by (simp add: path_dirname_def place_butlast)
qed

subsection \<open>Containment\<close>

lemma relative_Nil [simp]: "relative_segs [] bs = bs"
  by (cases bs) auto

lemma relative_append [simp]: "relative_segs as (as @ bs) = bs"
  by (induction as) simp_all

lemma relative_self [simp]: "relative_segs as as = []"
  using relative_append [of as "[]"] by simp

lemma relative_outside: "\<not> prefix as bs \<Longrightarrow> \<exists>rest. relative_segs as bs = ''..'' # rest"
  by (induction as bs rule: relative_segs.induct) (auto simp: neq_Nil_conv)

lemma join_plain_head:
  assumes "place (s # ss)"
  shows "join_slash (s # ss) \<noteq> []" and "\<not> is_absolute (join_slash (s # ss))"
    and "join_slash (s # ss) \<noteq> ''..''" and "\<not> prefix ''../'' (join_slash (s # ss))"
proof -
  obtain c cs where s: "s = c # cs" and c: "c \<noteq> slash_char"
    using assms by (cases s) (auto simp: plain_segment_def slash_free_def)
  then show "join_slash (s # ss) \<noteq> []" "\<not> is_absolute (join_slash (s # ss))"
    by (cases ss; simp add: is_absolute_def)+
  have split: "split_slash (join_slash (s # ss)) = s # ss"
    using assms by (intro split_join place_free) auto
  moreover have "split_slash ''..'' = [''..'']"
    by (simp add: slash_char_def)
  ultimately show "join_slash (s # ss) \<noteq> ''..''"
    using assms by (metis list.inject place_Cons plain_segment_def)
  show "\<not> prefix ''../'' (join_slash (s # ss))"
  proof
    assume "prefix ''../'' (join_slash (s # ss))"
    then obtain q where "join_slash (s # ss) = ''..'' @ slash_char # q"
      by (auto simp: prefix_def slash_char_def)
    with split have "s # ss = split_slash (''..'' @ slash_char # q)" by simp
    also have "\<dots> = ''..'' # split_slash q"
      by (rule split_slash_append) (simp add: slash_free_def slash_char_def)
    finally show False using assms by (simp add: plain_segment_def)
  qed
qed

lemma join_dotdot: "join_slash (''..'' # rest) = ''..'' \<or> prefix ''../'' (join_slash (''..'' # rest))"
  by (cases rest) (auto simp: prefix_def)

definition inside :: "string list \<Rightarrow> string list \<Rightarrow> string option" where
  "inside as bs = (if prefix as bs then Some (join_slash (drop (length as) bs)) else None)"

definition escapes :: "string \<Rightarrow> bool" where
  "escapes rel \<longleftrightarrow> rel = ''..'' \<or> prefix ''../'' rel \<or> is_absolute rel"

lemma relative_text:
  assumes "place as" and "place bs"
  shows "join_slash (relative_segs as bs) = [] \<longleftrightarrow> as = bs"
    and "escapes (join_slash (relative_segs as bs)) \<longleftrightarrow> \<not> prefix as bs"
proof -
  have "(join_slash (relative_segs as bs) = [] \<longleftrightarrow> as = bs) \<and>
    (escapes (join_slash (relative_segs as bs)) \<longleftrightarrow> \<not> prefix as bs)"
  proof (cases "prefix as bs")
    case True
    then obtain r where bs: "bs = as @ r" by (auto elim: prefixE)
    show ?thesis
    proof (cases r)
      case Nil
      then show ?thesis by (simp add: bs escapes_def is_absolute_def)
    next
      case (Cons s ss)
      with assms(2) join_plain_head [of s ss] show ?thesis by (simp add: bs escapes_def)
    qed
  next
    case False
    then obtain rest where "relative_segs as bs = ''..'' # rest"
      using relative_outside by blast
    with False join_dotdot [of rest] show ?thesis
      by (cases rest) (auto simp: escapes_def)
  qed
  then show "join_slash (relative_segs as bs) = [] \<longleftrightarrow> as = bs"
    and "escapes (join_slash (relative_segs as bs)) \<longleftrightarrow> \<not> prefix as bs" by blast+
qed

lemma resolve_inside:
  assumes "place as" and "place r"
  shows "path_resolve (absolute_text as) (join_slash r) = absolute_text (as @ r)"
proof -
  have "split_slash (absolute_text as @ slash_char # join_slash r) =
      split_slash (absolute_text as) @ split_slash (join_slash r)"
    by (rule split_slash_snoc)
  moreover have "norm_segs False (split_slash (absolute_text as) @ split_slash (join_slash r)) = as @ r"
    using assms by (cases "r = []")
      (simp_all add: split_absolute_text norm_segs_def fold_push_place split_join place_free)
  moreover have "\<not> is_absolute (join_slash r)"
    using assms join_plain_head(2) by (cases r) (auto simp: is_absolute_def)
  ultimately show ?thesis
    by (simp add: path_resolve_def path_segs_def slash_char_def)
qed

lemma join_slash_append:
  "as \<noteq> [] \<Longrightarrow> r \<noteq> [] \<Longrightarrow> join_slash (as @ r) = join_slash as @ slash_char # join_slash r"
proof (induction as)
  case (Cons a as)
  then show ?case by (cases "as = []") (simp_all add: join_slash_Cons slash_char_def)
qed simp

lemma text_strict_prefix:
  assumes "place as" and "place bs" and "as \<noteq> []" and "bs \<noteq> []"
  shows "prefix (absolute_text as @ ''/'') (absolute_text bs) \<longleftrightarrow> (\<exists>r. r \<noteq> [] \<and> bs = as @ r)"
    (is "?l \<longleftrightarrow> ?r")
proof
  assume ?l
  then obtain q where "absolute_text bs = absolute_text as @ slash_char # q"
    by (auto simp: prefix_def slash_char_def)
  then have "split_slash (absolute_text bs) = split_slash (absolute_text as) @ split_slash q"
    by (metis split_slash_snoc)
  with assms show ?r by (auto simp: split_absolute_text)
next
  assume ?r
  then show ?l using assms
    by (auto simp: absolute_text_def prefix_def slash_char_def join_slash_append)
qed

lemma normalized_absoluteD:
  assumes "normalized_absolute p"
  shows "path_segs cwd p \<noteq> []" and "p = absolute_text (path_segs cwd p)"
proof -
  obtain s ss where split: "split_slash p = [] # s # ss" and ok: "list_all plain_segment (s # ss)"
    using assms by (auto simp: normalized_absolute_def split: list.splits)
  have "list_all slash_free (s # ss)" using split_all_free [of p] split by simp
  with ok have place: "place (s # ss)" by (auto simp: place_def list_all_iff)
  have p: "p = absolute_text (s # ss)"
    using join_split [of p] split by (simp add: absolute_text_def slash_char_def)
  with place path_segs_absolute_text [OF place] show "path_segs cwd p \<noteq> []"
    and "p = absolute_text (path_segs cwd p)" by simp_all
qed

text \<open>The prefix test on normalized paths and the general computation give the same answer.\<close>

lemma fast_path:
  assumes "place as" and "place bs" and "as \<noteq> []" and "bs \<noteq> []"
  shows "(if absolute_text bs = absolute_text as then Some []
      else if prefix (absolute_text as @ ''/'') (absolute_text bs)
        then Some (drop (Suc (length (absolute_text as))) (absolute_text bs)) else None) = inside as bs"
proof (cases "\<exists>r. r \<noteq> [] \<and> bs = as @ r")
  case True
  then obtain r where r: "r \<noteq> []" "bs = as @ r" by blast
  then have "absolute_text bs = absolute_text as @ slash_char # join_slash r"
    using assms(3) by (simp add: absolute_text_def join_slash_append)
  with r text_strict_prefix [OF assms] show ?thesis by (simp add: inside_def)
next
  case False
  with assms text_strict_prefix [OF assms] show ?thesis
    by (auto simp: inside_def absolute_text_inject prefix_def)
qed

lemma relativeFilesystemPath_inside:
  "relativeFilesystemPath cwd base target = inside (path_segs cwd base) (path_segs cwd target)"
proof (cases "normalized_absolute base \<and> normalized_absolute target")
  case True
  note b = normalized_absoluteD [of base cwd] and t = normalized_absoluteD [of target cwd]
  have "relativeFilesystemPath cwd base target = (if target = base then Some []
      else if prefix (base @ ''/'') target then Some (drop (Suc (length base)) target) else None)"
    using True by (simp add: relativeFilesystemPath_def)
  with True fast_path [of "path_segs cwd base" "path_segs cwd target"] b t show ?thesis
    by (metis place_path_segs)
next
  case False
  let ?A = "path_segs cwd base" and ?B = "path_segs cwd target"
  have eq: "relativeFilesystemPath cwd base target =
      (let rel = join_slash (relative_segs ?A ?B) in
       if rel = [] then (if path_resolve cwd base = path_resolve cwd target then Some [] else None)
       else if escapes rel then None
       else if path_resolve (path_resolve cwd base) rel = path_resolve cwd target then Some rel else None)"
    using False by (auto simp: relativeFilesystemPath_def path_relative_def sameFilesystemPath_def
        escapes_def Let_def)
  show ?thesis
  proof (cases "prefix ?A ?B")
    case True
    then obtain r where r: "?B = ?A @ r" by (auto elim: prefixE)
    then have "place r" by (metis place_append place_path_segs)
    then have "path_resolve (path_resolve cwd base) (join_slash r) = path_resolve cwd target"
      using resolve_inside [of ?A r] by (simp only: path_resolve_def r place_path_segs)
    moreover have "join_slash r = [] \<longrightarrow> path_resolve cwd base = path_resolve cwd target"
      using relative_text(1) [of ?A ?B] \<open>place r\<close> by (simp add: path_resolve_def r)
    moreover have "\<not> escapes (join_slash r)"
      using relative_text(2) [of ?A ?B] \<open>place r\<close> by (simp add: r)
    moreover have "relative_segs ?A ?B = r" "inside ?A ?B = Some (join_slash r)"
      by (simp_all add: r inside_def)
    ultimately show ?thesis by (simp add: eq Let_def)
  next
    case outside: False
    then have "escapes (join_slash (relative_segs ?A ?B))" "join_slash (relative_segs ?A ?B) \<noteq> []"
      using relative_text [of ?A ?B] by auto
    with outside show ?thesis by (simp add: eq Let_def inside_def)
  qed
qed

subsection \<open>Logical paths\<close>

lemma push_norm:
  assumes "list_all slash_free ss"
  shows "fold (push_seg False) (norm_segs True ss) acc = fold (push_seg False) ss acc \<and>
    list_all (\<lambda>s. s \<noteq> [] \<and> s \<noteq> ''.'') (norm_segs True ss)"
  using assms
proof (induction ss rule: rev_induct)
  case (snoc s ss)
  let ?N = "fold (push_seg True) ss []"
  have norm: "norm_segs True (ss @ [s]) = rev (push_seg True s ?N)" and N: "norm_segs True ss = rev ?N"
    by (simp_all add: norm_segs_def)
  show ?case
  proof (cases "s = ''..'' \<and> ?N \<noteq> [] \<and> hd ?N \<noteq> ''..''")
    case True
    then obtain n M where NM: "?N = n # M" and n: "n \<noteq> ''..''" by (cases ?N) auto
    with snoc N have "n \<noteq> []" "n \<noteq> ''.''" by (auto simp: list_all_iff)
    have "push_seg True s ?N = M" "push_seg False s X = tl X" "push_seg False n X = n # X" for X
      using True NM n \<open>n \<noteq> []\<close> \<open>n \<noteq> ''.''\<close> by (auto simp: push_seg_def)
    moreover from this have "fold (push_seg False) ss acc = n # fold (push_seg False) (rev M) acc"
      using snoc N NM by simp
    ultimately show ?thesis using NM snoc N norm by simp
  next
    case False
    then have "push_seg True s ?N = (if s = [] \<or> s = ''.'' then ?N else s # ?N)"
      by (auto simp: push_seg_def)
    with snoc N norm show ?thesis
      by (cases "s = [] \<or> s = ''.''") (auto simp: push_seg_def)
  qed
qed (simp add: norm_segs_def)

lemma free_dots: "slash_free ''..''"
  by (simp add: slash_free_def slash_char_def)

lemma free_push: "slash_free s \<Longrightarrow> list_all slash_free st \<Longrightarrow> list_all slash_free (push_seg up s st)"
  using free_dots by (cases st) (auto simp: push_seg_def)

lemma free_fold: "list_all slash_free ss \<Longrightarrow> list_all slash_free st \<Longrightarrow> list_all slash_free (fold (push_seg up) ss st)"
  by (induction ss arbitrary: st) (auto simp: free_push)

lemma norm_slash_free: "list_all slash_free ss \<Longrightarrow> list_all slash_free (norm_segs up ss)"
  by (simp add: norm_segs_def free_fold)

lemma norm_dot [simp]: "norm_segs up (''.'' # ss) = norm_segs up ss"
  by (simp add: norm_segs_def push_seg_def)

lemma norm_snoc_blank [simp]: "norm_segs up (ss @ [[]]) = norm_segs up ss"
  by (simp add: norm_segs_def)

definition visit :: "string \<Rightarrow> string \<Rightarrow> string list" where
  "visit cwd p = (if is_absolute p then split_slash p else split_slash cwd @ split_slash p)"

lemma path_segs_visit: "path_segs cwd p = norm_segs False (visit cwd p)"
  using split_slash_snoc [of cwd p] by (simp add: path_segs_def visit_def slash_char_def)

lemma path_segs_trailing:
  assumes "p \<noteq> []"
  shows "path_segs cwd (p @ [slash_char]) = path_segs cwd p"
proof -
  have "split_slash (p @ [slash_char]) = split_slash p @ [[]]"
    using split_slash_snoc [of p "[]"] by simp
  moreover have "is_absolute (p @ [slash_char]) = is_absolute p"
    using assms by (simp add: is_absolute_def)
  ultimately show ?thesis
    using norm_snoc_blank [of False "split_slash cwd @ split_slash p"] by (simp add: path_segs_visit visit_def)
qed

definition normal_body :: "string \<Rightarrow> string" where
  "normal_body p = join_slash (norm_segs (\<not> is_absolute p) (split_slash p))"

lemma split_normal_body:
  "split_slash (normal_body p) = (let ss = norm_segs (\<not> is_absolute p) (split_slash p) in if ss = [] then [[]] else ss)"
  by (simp add: normal_body_def Let_def split_join norm_slash_free split_all_free)

lemma body_relative:
  assumes "\<not> is_absolute p"
  shows "\<not> is_absolute (normal_body p) \<and> path_segs cwd (normal_body p) = path_segs cwd p"
proof -
  let ?N = "norm_segs True (split_slash p)"
  have N: "list_all (\<lambda>s. s \<noteq> [] \<and> s \<noteq> ''.'') ?N" "list_all slash_free ?N"
    using push_norm [OF split_all_free] by (auto simp: norm_slash_free split_all_free)
  have eq: "fold (push_seg False) ?N acc = fold (push_seg False) (split_slash p) acc" for acc
    using push_norm [OF split_all_free] by blast
  have split: "split_slash (normal_body p) = (if ?N = [] then [[]] else ?N)"
    using assms split_normal_body [of p] by (simp add: Let_def)
  have rel: "\<not> is_absolute (normal_body p)"
  proof
    assume "is_absolute (normal_body p)"
    then obtain q where "normal_body p = slash_char # q"
      by (cases "normal_body p") (auto simp: is_absolute_def)
    then have "split_slash (normal_body p) = [] # split_slash q" by simp
    with split N(1) show False by (cases ?N) (auto split: if_splits)
  qed
  with assms split eq show ?thesis
    by (auto simp: path_segs_visit visit_def norm_segs_def)
qed

lemma body_absolute:
  assumes "is_absolute p"
  shows "path_segs cwd (''/'' @ normal_body p) = path_segs cwd p"
proof -
  let ?N = "norm_segs False (split_slash p)"
  have "place ?N" by (simp add: norm_segs_def place_fold split_all_free)
  then have "norm_segs False ?N = ?N" by (rule norm_place)
  with assms split_normal_body [of p] show ?thesis
    by (auto simp: path_segs_visit visit_def is_absolute_def slash_char_def Let_def)
qed

lemma path_segs_posix_normalize: "path_segs cwd (posix_normalize p) = path_segs cwd p"
proof (cases "p = []")
  case True
  then show ?thesis
    by (simp add: posix_normalize_def path_segs_visit visit_def is_absolute_def slash_char_def norm_segs_def
        push_seg_def)
next
  case False
  define head where "head = (if is_absolute p then ''/'' else [])"
  define core where "core = (if normal_body p = [] \<and> \<not> is_absolute p then ''.'' else head @ normal_body p)"
  have core: "path_segs cwd core = path_segs cwd p"
  proof (cases "is_absolute p")
    case True
    then show ?thesis by (simp add: core_def head_def body_absolute [simplified])
  next
    case rel: False
    have "path_segs cwd ''.'' = path_segs cwd []"
      by (simp add: path_segs_visit visit_def is_absolute_def slash_char_def norm_segs_def push_seg_def)
    with rel body_relative [OF rel, of cwd] show ?thesis by (auto simp: core_def head_def)
  qed
  have "posix_normalize p = core \<or> posix_normalize p = core @ [slash_char]" "core \<noteq> []"
    using False by (auto simp: posix_normalize_def core_def head_def normal_body_def [symmetric] Let_def
        slash_char_def)
  with core path_segs_trailing [of core cwd] show ?thesis by auto
qed

lemma path_segs_normalizeLogicalPath: "path_segs cwd (normalizeLogicalPath v) = path_segs cwd v"
proof -
  let ?n = "posix_normalize v"
  have "path_segs cwd (butlast ?n) = path_segs cwd ?n" if "?n \<noteq> ''/''" "?n \<noteq> []" "last ?n = slash_char"
  proof -
    have "?n = butlast ?n @ [slash_char]" using that by (metis append_butlast_last_id)
    moreover from this have "butlast ?n \<noteq> []" using that(1) by (auto simp: slash_char_def)
    ultimately show ?thesis using path_segs_trailing [of "butlast ?n" cwd] by metis
  qed
  then show ?thesis by (auto simp: normalizeLogicalPath_def Let_def path_segs_posix_normalize)
qed

text \<open>C38.
  Both containment tests, the fast prefix test on normalized absolute paths included, decide whether
  the resolved target lies below the resolved base, segment by segment, and the relative name they
  return leads from the base to the target.\<close>

theorem containment_is_segment_prefix:
  "(case relativeFilesystemPath cwd base target of
      None \<Rightarrow> \<not> prefix (path_segs cwd base) (path_segs cwd target)
    | Some r \<Rightarrow> prefix (path_segs cwd base) (path_segs cwd target) \<and>
        path_resolve (path_resolve cwd base) r = path_resolve cwd target) \<and>
   containsFilesystemPath cwd base target = prefix (path_segs cwd base) (path_segs cwd target) \<and>
   containsLogicalPath cwd base target = prefix (path_segs cwd base) (path_segs cwd target)"
proof (intro conjI)
  let ?A = "path_segs cwd base" and ?B = "path_segs cwd target"
  show "case relativeFilesystemPath cwd base target of
      None \<Rightarrow> \<not> prefix ?A ?B
    | Some r \<Rightarrow> prefix ?A ?B \<and> path_resolve (path_resolve cwd base) r = path_resolve cwd target"
  proof (cases "prefix ?A ?B")
    case True
    then obtain r where r: "?B = ?A @ r" by (auto elim: prefixE)
    then have "place r" by (metis place_append place_path_segs)
    then have "path_resolve (path_resolve cwd base) (join_slash r) = path_resolve cwd target"
      using resolve_inside [of ?A r] by (simp only: path_resolve_def r place_path_segs)
    then show ?thesis by (simp add: relativeFilesystemPath_inside inside_def r)
  qed (simp add: relativeFilesystemPath_inside inside_def)
  show "containsFilesystemPath cwd base target = prefix ?A ?B"
    by (simp add: containsFilesystemPath_def relativeFilesystemPath_inside inside_def)
  have "path_relative cwd (normalizeLogicalPath base) (normalizeLogicalPath target) =
      join_slash (relative_segs ?A ?B)"
    by (simp add: path_relative_def path_segs_normalizeLogicalPath)
  then show "containsLogicalPath cwd base target = prefix ?A ?B"
    using relative_text [of ?A ?B] by (auto simp: containsLogicalPath_def Let_def escapes_def)
qed

end
