(* ===== verification/Effect_Model.thy ===== *)
theory Effect_Model
  imports Prelude
begin

text \<open>
  Effect capabilities and requirements (\<open>src/effect-model.ts\<close>).  Requirements are the sorted
  list of their distinct capabilities; the order of two capabilities is the order of their names,
  code unit by code unit, as \<open>Array.prototype.sort\<close> orders strings.
\<close>

datatype effect_capability =
    Host_function | Process_invocation | Workspace_path | Filesystem_read | Filesystem_write
  | Process_spawn | Network_mediate | Ipc_mediate | Time_virtualize | Random_virtualize
  | Output_gate | Resource_snapshot

primrec cap_name :: "effect_capability \<Rightarrow> string" where
  "cap_name Host_function = ''invocation.host_function''"
| "cap_name Process_invocation = ''invocation.process''"
| "cap_name Workspace_path = ''invocation.workspace_path''"
| "cap_name Filesystem_read = ''filesystem.read''"
| "cap_name Filesystem_write = ''filesystem.write''"
| "cap_name Process_spawn = ''process.spawn''"
| "cap_name Network_mediate = ''network.mediate''"
| "cap_name Ipc_mediate = ''ipc.mediate''"
| "cap_name Time_virtualize = ''time.virtualize''"
| "cap_name Random_virtualize = ''random.virtualize''"
| "cap_name Output_gate = ''output.gate''"
| "cap_name Resource_snapshot = ''validation.resource_snapshot''"

lemma cap_name_inject [simp]: "cap_name a = cap_name b \<longleftrightarrow> a = b"
  by (cases a; cases b) auto

instantiation effect_capability :: linorder
begin

definition less_eq_effect_capability :: "effect_capability \<Rightarrow> effect_capability \<Rightarrow> bool" where
  "a \<le> b \<longleftrightarrow> cap_name a \<le> cap_name b"

definition less_effect_capability :: "effect_capability \<Rightarrow> effect_capability \<Rightarrow> bool" where
  "a < b \<longleftrightarrow> cap_name a < cap_name b"

instance
  by intro_classes
    (auto simp: less_eq_effect_capability_def less_effect_capability_def dest: order_antisym)

end

record effect_requirements =
  capabilities :: "effect_capability list"

definition effectRequirements :: "effect_capability list \<Rightarrow> effect_requirements" where
  "effectRequirements cs = \<lparr>capabilities = sort (uniq cs)\<rparr>"

definition normalizeEffectRequirements :: "effect_requirements \<Rightarrow> effect_requirements" where
  "normalizeEffectRequirements r = effectRequirements (capabilities r)"

definition resource_observation_effects :: effect_requirements where
  "resource_observation_effects =
     effectRequirements [Host_function, Filesystem_read, Resource_snapshot]"

definition workspace_path_mutation_effects :: effect_requirements where
  "workspace_path_mutation_effects =
     effectRequirements [Host_function, Workspace_path, Filesystem_read, Filesystem_write]"

definition unrestricted_process_effects :: effect_requirements where
  "unrestricted_process_effects = effectRequirements
     [Process_invocation, Filesystem_read, Filesystem_write, Process_spawn, Network_mediate,
      Ipc_mediate, Time_virtualize, Random_virtualize, Output_gate]"

datatype effect_capabilities = All_effects | Provided "effect_capability list"

definition effectCapabilitiesCover :: "effect_capabilities \<Rightarrow> effect_requirements \<Rightarrow> bool" where
  "effectCapabilitiesCover provided required = (case provided of
     All_effects \<Rightarrow> True
   | Provided available \<Rightarrow> list_all (\<lambda>c. c \<in> set available) (capabilities required))"

lemma set_effectRequirements [simp]: "set (capabilities (effectRequirements cs)) = set cs"
  by (simp add: effectRequirements_def)

text \<open>Requirements are a canonical form of a set of capabilities.\<close>

lemma effectRequirements_canonical: "effectRequirements cs = effectRequirements ds \<longleftrightarrow> set cs = set ds"
proof
  assume "set cs = set ds"
  then have "sort (uniq cs) = sort (uniq ds)"
    by (intro sorted_distinct_set_unique) (auto simp: distinct_sort)
  then show "effectRequirements cs = effectRequirements ds" by (simp add: effectRequirements_def)
next
  assume "effectRequirements cs = effectRequirements ds"
  then show "set cs = set ds" by (metis set_effectRequirements)
qed

lemma normalize_idem [simp]: "normalizeEffectRequirements (effectRequirements cs) = effectRequirements cs"
  by (simp add: normalizeEffectRequirements_def effectRequirements_canonical)

lemma cover_iff:
  "effectCapabilitiesCover p r \<longleftrightarrow> (case p of All_effects \<Rightarrow> True | Provided cs \<Rightarrow> set (capabilities r) \<subseteq> set cs)"
  by (auto simp: effectCapabilitiesCover_def list_all_iff split: effect_capabilities.splits)

end
