(* ===== verification/Json_Text.thy ===== *)
theory Json_Text
  imports Stable_Json
begin

text \<open>
  The texts of \<open>src/stable-json.ts\<close> are unambiguous: \<open>stableEqual\<close>, which allocates no text,
  decides equality of the two texts \<open>stableStringify\<close> would give.  A value is first reduced to
  its tree \<open>json\<close> (undefined members dropped, members in canonical order, leaves as text); the text
  is the rendering of the tree, and rendered trees can be read back from any text they start.
\<close>

datatype json = JT string | JA "json list" | JO "(string \<times> json) list"

fun render :: "json \<Rightarrow> string" where
  "render (JT t) = t"
| "render (JA js) = ''['' @ join_with '','' (map render js) @ '']''"
| "render (JO ms) = ''{'' @ join_with '','' (map (\<lambda>(k, j). json_string k @ '':'' @ render j) ms) @ ''}''"

definition or_null_tree :: "json option \<Rightarrow> json" where
  "or_null_tree j = (case j of Some t \<Rightarrow> t | None \<Rightarrow> JT ''null'')"

definition defined_members :: "(string \<times> json option) list \<Rightarrow> (string \<times> json) list" where
  "defined_members ms = concat (map (\<lambda>k. case map_of ms k of Some (Some j) \<Rightarrow> [(k, j)] | _ \<Rightarrow> [])
     (ordered_keys (map fst ms)))"

fun tree :: "(real \<Rightarrow> string) \<Rightarrow> js_val \<Rightarrow> json option" where
  "tree num (JArr vs) = Some (JA (map (\<lambda>v. or_null_tree (tree num v)) vs))"
| "tree num (JObj fs) = Some (JO (defined_members (map (\<lambda>(k, v). (k, tree num v)) fs)))"
| "tree num v = map_option JT (json_primitive num v)"

lemma render_or_null: "render (or_null_tree j) = or_null (map_option render j)"
  by (cases j) (simp_all add: or_null_tree_def or_null_def)

lemma join_members_render:
  "join_members (map (\<lambda>(k, v). (k, map_option render v)) ms) = render (JO (defined_members ms))"
proof -
  have m: "map_of (map (\<lambda>(k, v). (k, map_option render v)) ms) k = map_option (map_option render) (map_of ms k)" for k
    by (induction ms) auto
  have k: "map (fst \<circ> (\<lambda>(k, v). (k, map_option render v))) ms = map fst ms"
    by (induction ms) auto
  have "concat (map (\<lambda>k. case map_option (map_option render) (map_of ms k) of
        Some (Some item) \<Rightarrow> [json_string k @ '':'' @ item] | _ \<Rightarrow> []) ks) =
      map (\<lambda>(k, j). json_string k @ '':'' @ render j)
        (concat (map (\<lambda>k. case map_of ms k of Some (Some j) \<Rightarrow> [(k, j)] | _ \<Rightarrow> []) ks))" for ks
    by (induction ks) (auto split: option.splits)
  then show ?thesis
    by (simp add: join_members_def defined_members_def m k)
qed

lemma serialize_render: "serialize num v = map_option render (tree num v)"
proof (induction num v rule: tree.induct)
  case (1 num vs)
  then show ?case by (simp add: render_or_null cong: map_cong)
next
  case (2 num fs)
  have "map (\<lambda>(k, v). (k, serialize num v)) fs = map (\<lambda>(k, v). (k, map_option render (tree num v))) fs"
    using 2 by (auto cong: map_cong)
  also have "\<dots> = map (\<lambda>(k, v). (k, map_option render v)) (map (\<lambda>(k, v). (k, tree num v)) fs)"
    by (induction fs) auto
  finally show ?case
    by (simp only: serialize.simps tree.simps join_members_render option.map)
qed (auto simp: option.map_comp comp_def option.map_ident)

subsection \<open>Reading a string back\<close>

definition hex_value :: "char \<Rightarrow> nat" where
  "hex_value c = (let n = (of_char c :: nat) in if n < 58 then n - 48 else n - 87)"

fun read_char :: "string \<Rightarrow> (char \<times> string) option" where
  "read_char (c # cs) =
     (if c \<noteq> CHR 0x5C then Some (c, cs)
      else case cs of
        d # ds \<Rightarrow>
          if d = CHR ''u'' then (case ds of
            z # y # a # b # rest \<Rightarrow> Some (char_of (16 * hex_value a + hex_value b), rest)
          | _ \<Rightarrow> None)
          else if d = CHR ''b'' then Some (char_of (8::nat), ds)
          else if d = CHR ''t'' then Some (char_of (9::nat), ds)
          else if d = CHR ''n'' then Some (char_of (10::nat), ds)
          else if d = CHR ''f'' then Some (char_of (12::nat), ds)
          else if d = CHR ''r'' then Some (char_of (13::nat), ds)
          else Some (d, ds)
      | [] \<Rightarrow> None)"
| "read_char [] = None"

lemma hex_value_digit: "n < 16 \<Longrightarrow> hex_value (hex_digit n) = n"
proof -
  have "\<forall>n \<in> set [0..<16]. hex_value (hex_digit n) = n" by code_simp
  then show "n < 16 \<Longrightarrow> hex_value (hex_digit n) = n" by simp
qed

lemma char_by_code: "of_char c = (n::nat) \<Longrightarrow> c = char_of n"
  by auto

lemma json_char_control:
  assumes "of_char c = n" and "n < 32" and "n \<notin> set [8, 9, 10, 12, 13]"
  shows "json_char c =
    [CHR 0x5C, CHR ''u'', CHR ''0'', CHR ''0'', hex_digit (n div 16), hex_digit (n mod 16)]"
  using assms by (simp add: json_char_def Let_def)

lemma json_char_other:
  assumes "of_char c = (n::nat)" and "32 \<le> n" and "n \<noteq> 34" and "n \<noteq> 92"
  shows "json_char c = [c]"
  using assms by (simp add: json_char_def Let_def)

lemma quote_codes: "char_of (34::nat) = CHR 0x22" "char_of (92::nat) = CHR 0x5C"
  by code_simp+

lemma read_escaped:
  assumes "n \<in> set [34, 92, 8, 9, 10, 12, 13::nat]"
  shows "read_char (json_char (char_of n) @ x) = Some (char_of n, x)"
  using assms by (auto simp: json_char_def quote_codes)

lemma read_json_char: "read_char (json_char c @ x) = Some (c, x)"
proof -
  obtain n where n: "of_char c = (n::nat)" by blast
  then have c: "c = char_of n" by auto
  consider "n \<in> set [34, 92, 8, 9, 10, 12, 13]" | "n < 32" "n \<notin> set [8, 9, 10, 12, 13]"
    | "32 \<le> n" "n \<noteq> 34" "n \<noteq> 92" by force
  then show ?thesis
  proof cases
    case 1
    then show ?thesis unfolding c by (rule read_escaped)
  next
    case 2
    then have "n div 16 < 16" by simp
    with json_char_control [OF n 2] show ?thesis
      by (simp add: hex_value_digit c [symmetric])
  next
    case 3
    then have "c \<noteq> CHR 0x5C" using n by auto
    with json_char_other [OF n 3] show ?thesis by simp
  qed
qed

lemma json_char_first: "\<exists>h x. json_char c = h # x \<and> h \<noteq> CHR 0x22"
  by (auto simp: json_char_def Let_def)

lemma body_first: "concat (map json_char (c # s)) @ y \<noteq> CHR 0x22 # z"
  using json_char_first [of c] by auto

lemma string_body_decode:
  "concat (map json_char s) @ CHR 0x22 # r = concat (map json_char t) @ CHR 0x22 # q \<Longrightarrow> s = t \<and> r = q"
proof (induction s arbitrary: t)
  case Nil
  then show ?case using body_first [of _ _ "CHR 0x22 # q" r] by (cases t) auto
next
  case (Cons c s)
  show ?case
  proof (cases t)
    case Nil
    with Cons.prems show ?thesis using body_first [of c s "CHR 0x22 # r" q] by simp
  next
    case t: (Cons d t')
    with Cons.prems have "read_char (json_char c @ concat (map json_char s) @ CHR 0x22 # r) =
        read_char (json_char d @ concat (map json_char t') @ CHR 0x22 # q)" by simp
    with Cons.IH [of t'] t show ?thesis by (simp add: read_json_char)
  qed
qed

lemma json_string_decode: "json_string s @ r = json_string t @ q \<Longrightarrow> s = t \<and> r = q"
  using string_body_decode [of s r t q] by (simp add: json_string_def)

lemma json_string_inject [simp]: "json_string s = json_string t \<longleftrightarrow> s = t"
  using json_string_decode [of s "[]" t "[]"] by auto

subsection \<open>Reading a tree back\<close>

definition closing :: "char \<Rightarrow> bool" where
  "closing c \<longleftrightarrow> c \<in> set '',]}''"

definition ended :: "string \<Rightarrow> bool" where
  "ended r \<longleftrightarrow> (case r of [] \<Rightarrow> True | c # _ \<Rightarrow> closing c)"

definition bare :: "string \<Rightarrow> bool" where
  "bare t \<longleftrightarrow> t \<noteq> [] \<and> list_all (\<lambda>c. \<not> closing c \<and> c \<notin> {CHR 0x22, CHR ''['', CHR ''{''}) t"

definition leaf :: "string \<Rightarrow> bool" where
  "leaf t \<longleftrightarrow> bare t \<or> (\<exists>s. t = json_string s)"

fun tree_ok :: "json \<Rightarrow> bool" where
  "tree_ok (JT t) = leaf t"
| "tree_ok (JA js) = list_all tree_ok js"
| "tree_ok (JO ms) = list_all (\<lambda>(k, j). tree_ok j) ms"

definition starts :: "string \<Rightarrow> char \<Rightarrow> bool" where
  "starts t c \<longleftrightarrow> t \<noteq> [] \<and> hd t = c"

lemma ended_closing: "closing c \<Longrightarrow> ended (c # r)"
  by (simp add: ended_def)

lemma bare_takeWhile: "bare t \<Longrightarrow> ended r \<Longrightarrow> takeWhile (\<lambda>c. \<not> closing c) (t @ r) = t"
proof -
  assume "bare t" "ended r"
  then have "\<forall>c\<in>set t. \<not> closing c" "takeWhile (\<lambda>c. \<not> closing c) r = []"
    by (auto simp: bare_def ended_def list_all_iff split: list.splits)
  then show ?thesis by (simp add: takeWhile_append2)
qed

lemma bare_decode:
  assumes "bare t" "bare u" "ended r" "ended q" "t @ r = u @ q"
  shows "t = u \<and> r = q"
proof -
  have "t = u" using assms bare_takeWhile by metis
  with assms(5) show ?thesis by simp
qed

lemma bare_head: "bare t \<Longrightarrow> \<exists>c x. t = c # x \<and> \<not> closing c \<and> c \<noteq> CHR 0x22 \<and> c \<noteq> CHR ''['' \<and> c \<noteq> CHR ''{''"
  by (cases t) (auto simp: bare_def)

lemma leaf_decode:
  assumes "leaf t" "leaf u" "ended r" "ended q" "t @ r = u @ q"
  shows "t = u \<and> r = q"
  using assms bare_decode [OF _ _ assms(3,4,5)] bare_head [of t] bare_head [of u]
  by (auto simp: leaf_def json_string_def dest: json_string_decode [unfolded json_string_def, simplified])

lemma leaf_head: "leaf t \<Longrightarrow> \<exists>c x. t = c # x \<and> \<not> closing c \<and> c \<noteq> CHR ''['' \<and> c \<noteq> CHR ''{''"
  using bare_head by (fastforce simp: leaf_def json_string_def closing_def)

lemma render_head: "tree_ok j \<Longrightarrow> \<exists>c x. render j = c # x \<and> \<not> closing c"
  using leaf_head by (cases j) (fastforce simp: closing_def)+

text \<open>A separated list of self-delimiting items ends at its closing character.\<close>

lemma join_decode:
  assumes "closing e" and "e \<noteq> CHR '',''"
    and "\<And>x y r q. x \<in> set xs \<Longrightarrow> y \<in> set ys \<Longrightarrow> ended r \<Longrightarrow> ended q \<Longrightarrow> f x @ r = f y @ q \<Longrightarrow> x = y \<and> r = q"
    and "\<And>x. x \<in> set xs \<union> set ys \<Longrightarrow> \<exists>c z. f x = c # z \<and> \<not> closing c"
    and "join_with '','' (map f xs) @ e # r = join_with '','' (map f ys) @ e # q"
  shows "xs = ys \<and> r = q"
  using assms(3-5)
proof (induction xs arbitrary: ys)
  case Nil
  then show ?case
  proof (cases ys)
    case (Cons y ys')
    with Nil(2) [of y] obtain c z where "f y = c # z" "\<not> closing c" by fastforce
    with Nil(3) Cons assms(1) show ?thesis by (cases ys') auto
  qed simp
next
  case (Cons x xs)
  obtain c z where fx: "f x = c # z" "\<not> closing c" using Cons.prems(2) [of x] by fastforce
  show ?case
  proof (cases ys)
    case Nil
    with Cons.prems(3) fx assms(1) show ?thesis by (cases xs) auto
  next
    case ys: (Cons y ys')
    define rest where "rest zs s = (case zs of [] \<Rightarrow> e # s | _ \<Rightarrow> CHR '','' # join_with '','' (map f zs) @ e # s)"
      for zs s
    have cut: "join_with '','' (map f (w # zs)) @ e # s = f w @ rest zs s" for w zs s
      by (cases zs) (auto simp: rest_def)
    have ended: "ended (rest zs s)" for zs s
      using assms(1) by (cases zs) (auto simp: rest_def ended_def closing_def)
    have "x = y \<and> rest xs r = rest ys' q"
      using Cons.prems(1) [of x y "rest xs r" "rest ys' q"] Cons.prems(3) cut ended ys by simp
    moreover have "xs = ys' \<and> r = q" if "rest xs r = rest ys' q"
    proof (cases "xs = [] \<or> ys' = []")
      case True
      with that assms(2) show ?thesis by (cases xs; cases ys') (auto simp: rest_def)
    next
      case False
      with that have "join_with '','' (map f xs) @ e # r = join_with '','' (map f ys') @ e # q"
        by (cases xs; cases ys') (auto simp: rest_def)
      then show ?thesis using Cons.IH [of ys'] Cons.prems(1,2) ys by (metis Un_iff list.set_intros(2))
    qed
    ultimately show ?thesis using ys by simp
  qed
qed

lemma render_decode:
  "tree_ok j \<Longrightarrow> tree_ok k \<Longrightarrow> ended r \<Longrightarrow> ended q \<Longrightarrow> render j @ r = render k @ q \<Longrightarrow> j = k \<and> r = q"
proof (induction j arbitrary: k r q)
  case (JT t)
  then obtain c x where "t = c # x" "c \<noteq> CHR ''['' \<and> c \<noteq> CHR ''{''"
    using leaf_head [of t] by auto
  moreover have "t = u \<and> r = q" if "k = JT u" for u
    using JT that leaf_decode [of t u r q] by simp
  ultimately show ?case using JT by (cases k) simp_all
next
  case (JA js)
  show ?case
  proof (cases k)
    case (JT u)
    with JA.prems leaf_head [of u] show ?thesis by auto
  next
    case (JO ms)
    with JA.prems show ?thesis by simp
  next
    case k: (JA ks)
    have "js = ks \<and> r = q"
    proof (rule join_decode [where f = render and e = "CHR '']''"])
      show "join_with '','' (map render js) @ CHR '']'' # r = join_with '','' (map render ks) @ CHR '']'' # q"
        using JA.prems(5) k by simp
      show "\<exists>c z. render x = c # z \<and> \<not> closing c" if "x \<in> set js \<union> set ks" for x
        using that JA.prems(1,2) k by (intro render_head) (auto simp: list_all_iff)
      show "x = y \<and> r = q" if "x \<in> set js" "y \<in> set ks" "ended r" "ended q" "render x @ r = render y @ q"
        for x y r q
        using that JA.IH [of x y r q] JA.prems(1,2) k by (auto simp: list_all_iff)
    qed (simp_all add: closing_def)
    with k show ?thesis by simp
  qed
next
  case (JO ms)
  let ?f = "\<lambda>(k, j). json_string k @ '':'' @ render j"
  show ?case
  proof (cases k)
    case (JT u)
    with JO.prems leaf_head [of u] show ?thesis by auto
  next
    case (JA ks)
    with JO.prems show ?thesis by simp
  next
    case k: (JO ns)
    have "ms = ns \<and> r = q"
    proof (rule join_decode [where f = ?f and e = "CHR ''}''"])
      show "join_with '','' (map ?f ms) @ CHR ''}'' # r = join_with '','' (map ?f ns) @ CHR ''}'' # q"
        using JO.prems(5) k by simp
      show "\<exists>c z. ?f x = c # z \<and> \<not> closing c" if "x \<in> set ms \<union> set ns" for x
        by (cases x) (simp add: json_string_def closing_def)
      show "x = y \<and> r = q" if "x \<in> set ms" "y \<in> set ns" "ended r" "ended q" "?f x @ r = ?f y @ q"
        for x y r q
      proof -
        obtain a i b j where x: "x = (a, i)" and y: "y = (b, j)" by (cases x, cases y)
        with that(5) have "json_string a @ ('':'' @ render i @ r) = json_string b @ ('':'' @ render j @ q)"
          by simp
        then have "a = b" "render i @ r = render j @ q" using json_string_decode by blast+
        moreover have "tree_ok i" "tree_ok j"
          using that(1,2) x y JO.prems(1,2) k by (auto simp: list_all_iff)
        ultimately show ?thesis
          using JO.IH [of x i j r q] that(1,3,4) x y by auto
      qed
    qed (simp_all add: closing_def)
    with k show ?thesis by simp
  qed
qed

lemma render_inject: "tree_ok j \<Longrightarrow> tree_ok k \<Longrightarrow> render j = render k \<longleftrightarrow> j = k"
  using render_decode [of j k "[]" "[]"] by (auto simp: ended_def)

subsection \<open>stableEqual decides equality of texts\<close>

text \<open>
  What the text of a finite number is known to be: not empty, over the characters of decimal and
  exponent notation.  What JavaScript guarantees of the keys of an object: they are distinct, array
  indices come first, in ascending order.
\<close>

definition number_text :: "(real \<Rightarrow> string) \<Rightarrow> bool" where
  "number_text num \<longleftrightarrow> (\<forall>x. num x \<noteq> [] \<and> set (num x) \<subseteq> set ''0123456789+-.e'')"

definition key_order :: "string list \<Rightarrow> bool" where
  "key_order ks \<longleftrightarrow> distinct ks \<and> sorted (map digits_value (takeWhile isArrayIndex ks)) \<and>
     list_all (\<lambda>k. \<not> isArrayIndex k) (dropWhile isArrayIndex ks)"

fun data_ok :: "js_val \<Rightarrow> bool" where
  "data_ok (JArr vs) = list_all data_ok vs"
| "data_ok (JObj fs) = (key_order (map fst fs) \<and> list_all (\<lambda>(k, v). data_ok v) fs)"
| "data_ok _ = True"

text \<open>No object has a member of its own named \<open>__proto__\<close>, which reading confuses with the inherited one.\<close>

fun proto_free :: "js_val \<Rightarrow> bool" where
  "proto_free (JArr vs) = list_all proto_free vs"
| "proto_free (JObj fs) = (''__proto__'' \<notin> set (map fst fs) \<and> list_all (\<lambda>(k, v). proto_free v) fs)"
| "proto_free _ = True"

lemma bare_words [simp]: "bare ''null''" "bare ''true''" "bare ''false''"
  by (simp_all add: bare_def closing_def)

lemma bare_number: "number_text num \<Longrightarrow> bare (num x)"
  by (auto simp: number_text_def bare_def closing_def list_all_iff)

lemma leaf_basic [simp]: "leaf ''null''" "leaf ''true''" "leaf ''false''" "leaf (json_string s)"
  by (auto simp: leaf_def)

lemma leaf_primitive: "number_text num \<Longrightarrow> json_primitive num v = Some t \<Longrightarrow> leaf t"
  by (induction num v rule: json_primitive.induct) (auto simp: leaf_def bare_number)

lemma tree_ok_members:
  assumes "\<And>k j. map_of ms k = Some (Some j) \<Longrightarrow> tree_ok j"
  shows "tree_ok (JO (defined_members ms))"
  using assms by (auto simp: defined_members_def list_all_iff split: option.splits)

lemma tree_ok_tree: "number_text num \<Longrightarrow> tree num v = Some j \<Longrightarrow> tree_ok j"
proof (induction num v arbitrary: j rule: tree.induct)
  case (1 num vs)
  then show ?case
    by (auto simp: list_all_iff or_null_tree_def leaf_def split: option.splits)
next
  case (2 num fs)
  have "tree_ok j'" if "map_of (map (\<lambda>(k, v). (k, tree num v)) fs) k = Some (Some j')" for k j'
    using 2 that by (auto dest!: map_of_SomeD)
  then have "tree_ok (JO (defined_members (map (\<lambda>(k, v). (k, tree num v)) fs)))"
    by (rule tree_ok_members)
  with 2 show ?case by simp
qed (auto dest: leaf_primitive)

subsection \<open>Members in canonical order\<close>

lemma zero_code: "char_of (48::nat) = CHR ''0''"
  by code_simp

lemma decimal_canonical:
  "s \<noteq> [] \<Longrightarrow> list_all is_digit s \<Longrightarrow> hd s \<noteq> CHR ''0'' \<or> s = ''0'' \<Longrightarrow>
    nat_text (digits_value s) = s \<and> (hd s \<noteq> CHR ''0'' \<longrightarrow> 0 < digits_value s)"
proof (induction s rule: rev_induct)
  case (snoc c t)
  obtain d where c: "c = digit_char d" and d: "d < 10"
  proof
    show "c = digit_char (of_char c - 48)"
      using snoc.prems(2) by (simp add: digit_char_def is_digit_def Let_def)
    have "of_char c \<le> (57::nat)"
      using snoc.prems(2) by (simp add: is_digit_def Let_def)
    then show "of_char c - 48 < (10::nat)" by linarith
  qed
  have v: "digits_value (t @ [c]) = 10 * digits_value t + d"
    by (simp add: digits_value_append c digit_value d)
  show ?case
  proof (cases "t = []")
    case True
    have "digit_char 0 = CHR ''0''" by (simp add: digit_char_def zero_code)
    then have "d = 0 \<longleftrightarrow> c = CHR ''0''"
      unfolding c using d digit_value [of d] by auto
    with True v d show ?thesis
      by (subst nat_text.simps) (auto simp: c digits_value_def)
  next
    case False
    with snoc have t: "nat_text (digits_value t) = t" "0 < digits_value t" by auto
    with v d show ?thesis by (subst nat_text.simps) (simp add: c)
  qed
qed simp

lemma digits_value_inject:
  "isArrayIndex s \<Longrightarrow> isArrayIndex t \<Longrightarrow> digits_value s = digits_value t \<Longrightarrow> s = t"
  unfolding isArrayIndex_def using decimal_canonical by metis

definition member_of :: "(string \<times> json option) list \<Rightarrow> string \<Rightarrow> json option" where
  "member_of ms k = Option.bind (map_of ms k) id"

lemma defined_members_member:
  "defined_members ms = concat (map (\<lambda>k. case member_of ms k of Some j \<Rightarrow> [(k, j)] | None \<Rightarrow> [])
     (ordered_keys (map fst ms)))"
  by (auto simp: defined_members_def member_of_def intro!: arg_cong [where f = concat] split: option.splits)

lemma map_of_chosen:
  "map_of (concat (map (\<lambda>k. case g k of Some j \<Rightarrow> [(k, j)] | None \<Rightarrow> []) ks)) k =
     (if k \<in> set ks then g k else None)"
  by (induction ks) (auto split: option.splits)

lemma set_ordered_keys [simp]: "set (ordered_keys ks) = set ks"
  unfolding ordered_keys_def using takeWhile_dropWhile_id [of isArrayIndex ks]
  by (metis set_append set_sort)

lemma member_of_outside: "k \<notin> fst ` set ms \<Longrightarrow> member_of ms k = None"
proof -
  assume "k \<notin> fst ` set ms"
  then have "map_of ms k = None" by (simp add: map_of_eq_None_iff)
  then show ?thesis by (simp add: member_of_def)
qed

lemma map_of_defined_members: "map_of (defined_members ms) k = member_of ms k"
  unfolding defined_members_member map_of_chosen by (auto intro: member_of_outside [symmetric])

lemma chosen_filter:
  "concat (map (\<lambda>k. case g k of Some j \<Rightarrow> [(k, j)] | None \<Rightarrow> []) ks) =
     map (\<lambda>k. (k, the (g k))) (filter (\<lambda>k. g k \<noteq> None) ks)"
  by (induction ks) (auto split: option.splits)

definition index_part :: "string list \<Rightarrow> string list" where
  "index_part ks = filter isArrayIndex ks"

lemma takeWhile_index: "key_order ks \<Longrightarrow> takeWhile isArrayIndex ks = filter isArrayIndex ks"
proof -
  assume "key_order ks"
  then have "filter isArrayIndex (dropWhile isArrayIndex ks) = []"
    by (auto simp: key_order_def list_all_iff)
  moreover have "filter isArrayIndex (takeWhile isArrayIndex ks) = takeWhile isArrayIndex ks"
    by (metis filter_True set_takeWhileD)
  ultimately show ?thesis
    using takeWhile_dropWhile_id [of isArrayIndex ks] by (metis append_Nil2 filter_append)
qed

lemma dropWhile_index: "key_order ks \<Longrightarrow> dropWhile isArrayIndex ks = filter (\<lambda>k. \<not> isArrayIndex k) ks"
proof -
  assume "key_order ks"
  then have "filter (\<lambda>k. \<not> isArrayIndex k) (dropWhile isArrayIndex ks) = dropWhile isArrayIndex ks"
    by (auto simp: key_order_def list_all_iff intro: filter_True)
  moreover have "filter (\<lambda>k. \<not> isArrayIndex k) (takeWhile isArrayIndex ks) = []"
    by (metis filter_False set_takeWhileD)
  ultimately show ?thesis
    using takeWhile_dropWhile_id [of isArrayIndex ks] by (metis append_Nil filter_append)
qed

lemma index_lists_equal:
  assumes "sorted (map digits_value xs)" "sorted (map digits_value ys)" "distinct xs" "distinct ys"
    and "\<forall>x \<in> set xs \<union> set ys. isArrayIndex x" and "set xs = set ys"
  shows "xs = ys"
proof -
  have inj: "inj_on digits_value (set xs \<union> set ys)"
    using assms(5) digits_value_inject by (auto simp: inj_on_def)
  then have "inj_on digits_value (set xs)" "inj_on digits_value (set ys)"
    by (auto intro: inj_on_subset)
  with assms have "map digits_value xs = map digits_value ys"
    by (intro sorted_distinct_set_unique) (auto simp: distinct_map)
  with inj show ?thesis by (auto intro: map_inj_on)
qed

lemma ordered_filter_equal:
  assumes "key_order ks" "key_order ls" and "{k \<in> set ks. P k} = {k \<in> set ls. Q k}"
  shows "filter P (ordered_keys ks) = filter Q (ordered_keys ls)"
proof -
  have both: "P k \<and> k \<in> set ks \<longleftrightarrow> Q k \<and> k \<in> set ls" for k
    using assms(3) by blast
  have sorted_index: "sorted (map digits_value (filter R (filter isArrayIndex js)))" if "key_order js" for R js
    using that takeWhile_index [OF that] sorted_filter by (fastforce simp: key_order_def)
  have "filter P (filter isArrayIndex ks) = filter Q (filter isArrayIndex ls)"
    using assms(1,2) both by (intro index_lists_equal sorted_index) (auto simp: key_order_def)
  moreover have "filter P (sort (filter (\<lambda>k. \<not> isArrayIndex k) ks)) =
      filter Q (sort (filter (\<lambda>k. \<not> isArrayIndex k) ls))"
    using assms(1,2) both
    by (intro sorted_distinct_set_unique) (auto simp: key_order_def sorted_wrt_filter)
  ultimately show ?thesis
    using assms(1,2) by (simp add: ordered_keys_def takeWhile_index dropWhile_index)
qed

lemma defined_members_equal:
  assumes "key_order (map fst ms)" and "key_order (map fst ns)"
  shows "defined_members ms = defined_members ns \<longleftrightarrow> (\<forall>k. member_of ms k = member_of ns k)"
proof
  assume "defined_members ms = defined_members ns"
  then show "\<forall>k. member_of ms k = member_of ns k" by (metis map_of_defined_members)
next
  assume eq: "\<forall>k. member_of ms k = member_of ns k"
  have "{k \<in> set (map fst ms). member_of ms k \<noteq> None} = {k \<in> set (map fst ns). member_of ns k \<noteq> None}"
    using eq member_of_outside by fastforce
  from ordered_filter_equal [OF assms this] eq show "defined_members ms = defined_members ns"
    unfolding defined_members_member chosen_filter by simp
qed

subsection \<open>The equivalence\<close>

lemma field_member:
  "tree num (field fs k) = member_of (map (\<lambda>(k, v). (k, tree num v)) fs) k"
  by (induction fs) (auto simp: field_def member_of_def)

lemma size_field: "size (field fs k) \<le> size_list (size_prod (\<lambda>_. 0) size) fs"
  by (induction fs) (auto simp: field_def)

lemma field_ok: "list_all (\<lambda>(k, v). data_ok v) fs \<Longrightarrow> data_ok (field fs k)"
  by (auto simp: field_def list_all_iff dest!: map_of_SomeD split: option.splits)

lemma field_absent: "k \<notin> set (map fst fs) \<Longrightarrow> field fs k = JUndef"
  by (simp add: field_def map_of_eq_None_iff split: option.splits)
    (metis map_of_eq_None_iff option.distinct(1))

lemma map_fst_tree [simp]: "map fst (map (\<lambda>(k, v). (k, tree num v)) fs) = map fst fs"
  by (induction fs) auto

lemma tree_primitive: "\<not> is_object v \<Longrightarrow> tree num v = map_option JT (json_primitive num v)"
  by (cases v) auto

lemma tree_object: "is_object v \<Longrightarrow> \<exists>j. tree num v = Some j \<and> (\<forall>t. j \<noteq> JT t)"
  by (cases v) auto

definition slot_tree :: "(real \<Rightarrow> string) \<Rightarrow> js_val \<Rightarrow> bool \<Rightarrow> json option" where
  "slot_tree num v array_slot =
     (if array_slot then Some (or_null_tree (tree num v)) else tree num v)"

lemma slot_tree_primitive:
  "\<not> is_object v \<Longrightarrow> slot_tree num v b = map_option JT (primitive_slot num v b)"
  by (auto simp: slot_tree_def primitive_slot_def tree_primitive or_null_tree_def split: option.splits)

lemma slot_tree_object: "is_object v \<Longrightarrow> slot_tree num v b = tree num v"
  using tree_object [of v num] by (auto simp: slot_tree_def or_null_tree_def)

lemma slot_tree_apart: "is_object v \<Longrightarrow> \<not> is_object w \<Longrightarrow> slot_tree num v b \<noteq> slot_tree num w b"
  using tree_object [of v num] by (auto simp: slot_tree_primitive slot_tree_object)

lemma field_free: "list_all (\<lambda>(k, v). proto_free v) fs \<Longrightarrow> proto_free (field fs k)"
  by (auto simp: field_def list_all_iff dest!: map_of_SomeD split: option.splits)

lemma slot_value_simps [simp]:
  "slot_items (Value v) = (case v of JArr vs \<Rightarrow> Some vs | _ \<Rightarrow> None)" "slot_text num (Value v) b = primitive_slot num v b"
  "slot_keys (Value v) = (case v of JObj fs \<Rightarrow> Some (map fst fs) | _ \<Rightarrow> None)"
  by (simp_all add: slot_items_def slot_text_def slot_keys_def)

lemma slot_read_field: "k \<noteq> ''__proto__'' \<Longrightarrow> slot_read (Value (JObj fs)) k = Value (field fs k)"
  by (simp add: slot_read_def field_def split: option.split)

lemma equalSlot_tree:
  "data_ok l \<Longrightarrow> data_ok r \<Longrightarrow> proto_free l \<Longrightarrow> proto_free r \<Longrightarrow>
   equalSlot num (Value l) (Value r) b \<longleftrightarrow> slot_tree num l b = slot_tree num r b"
proof (induction "size l" arbitrary: l r b rule: less_induct)
  case less
  consider (arrays) vs ws where "l = JArr vs" "r = JArr ws" | (objects) fs gs where "l = JObj fs" "r = JObj gs"
    | (primitive) "\<not> is_object l" "\<not> is_object r"
    | (mixed) "is_object l \<noteq> is_object r" | (shapes) "is_object l" "is_object r" "isRecord l \<noteq> isRecord r"
    by (cases l; cases r) auto
  then show ?case
  proof cases
    case arrays
    have "equalSlot num (Value (vs ! i)) (Value (ws ! i)) True \<longleftrightarrow>
        or_null_tree (tree num (vs ! i)) = or_null_tree (tree num (ws ! i))"
      if "i < length vs" "length vs = length ws" for i
      using that less arrays size_nth [of i vs] by (auto simp: slot_tree_def list_all_length)
    then have "equalSlot num (Value l) (Value r) b \<longleftrightarrow> length vs = length ws \<and>
        (\<forall>i < length vs. or_null_tree (tree num (vs ! i)) = or_null_tree (tree num (ws ! i)))"
      unfolding arrays by (subst equalSlot.simps) (auto simp: list_all_iff)
    also have "\<dots> \<longleftrightarrow> map (\<lambda>v. or_null_tree (tree num v)) vs = map (\<lambda>v. or_null_tree (tree num v)) ws"
      by (auto simp: list_eq_iff_nth_eq)
    finally show ?thesis by (simp add: arrays slot_tree_object)
  next
    case objects
    have IH: "equalSlot num (slot_read (Value l) k) (slot_read (Value r) k) False \<longleftrightarrow> tree num (field fs k) = tree num (field gs k)"
      if k: "k \<in> set (map fst fs) \<union> set (map fst gs)" for k
    proof -
      have "k \<noteq> ''__proto__''" using k less.prems(3,4) by (auto simp: objects)
      moreover have "size (field fs k) < size l" using size_field [of fs k] by (simp add: objects)
      ultimately show ?thesis
        using less.hyps [of "field fs k" "field gs k" False] less.prems
        by (auto simp: slot_tree_def field_ok field_free slot_read_field objects)
    qed
    have "equalSlot num (Value l) (Value r) b \<longleftrightarrow> (\<forall>k \<in> set (map fst fs) \<union> set (map fst gs).
        tree num (field fs k) = tree num (field gs k))"
      using IH by (subst equalSlot.simps) (auto simp: list_all_iff objects)
    also have "\<dots> \<longleftrightarrow> (\<forall>k. tree num (field fs k) = tree num (field gs k))"
      using field_absent by (metis UnCI)
    also have "\<dots> \<longleftrightarrow> defined_members (map (\<lambda>(k, v). (k, tree num v)) fs) =
        defined_members (map (\<lambda>(k, v). (k, tree num v)) gs)"
      unfolding field_member
      by (rule defined_members_equal [symmetric]; use less.prems(1,2) objects in \<open>simp only: map_fst_tree data_ok.simps\<close>)
    finally show ?thesis by (simp add: objects slot_tree_object)
  next
    case primitive
    then have "equalSlot num (Value l) (Value r) b \<longleftrightarrow> primitive_slot num l b = primitive_slot num r b"
      by (subst equalSlot.simps) (auto split: js_val.splits)
    also have "\<dots> \<longleftrightarrow> map_option JT (primitive_slot num l b) = map_option JT (primitive_slot num r b)"
      by (cases "primitive_slot num l b"; cases "primitive_slot num r b") auto
    finally show ?thesis using primitive by (simp add: slot_tree_primitive)
  next
    case mixed
    then have "\<not> equalSlot num (Value l) (Value r) b"
      by (subst equalSlot.simps) (auto split: js_val.splits)
    moreover have "slot_tree num l b \<noteq> slot_tree num r b"
      using mixed slot_tree_apart by metis
    ultimately show ?thesis by simp
  next
    case shapes
    then have "\<not> equalSlot num (Value l) (Value r) b"
      by (subst equalSlot.simps) (auto split: js_val.splits)
    moreover have "tree num l \<noteq> tree num r"
      using shapes by (cases l; cases r) auto
    ultimately show ?thesis using shapes by (simp add: slot_tree_object)
  qed
qed

lemma stringify_tree:
  assumes "number_text num"
  shows "stableStringify num l = stableStringify num r \<longleftrightarrow> tree num l = tree num r"
  unfolding stableStringify_def serialize_render
  using tree_ok_tree [OF assms] by (cases "tree num l"; cases "tree num r") (auto simp: render_inject)

text \<open>C25.
  Comparing two objects or arrays slot by slot gives the same answer as comparing their canonical
  texts, whatever the depth, the order of named members and the undefined members, when no object has a member of
  its own named \<open>__proto__\<close>: the canonical text is unambiguous.\<close>

theorem stableEqual_iff_same_text:
  assumes "number_text num" and "data_ok l" and "data_ok r" and "proto_free l" and "proto_free r" and "is_object l" and "is_object r"
  shows "stableEqual num l r \<longleftrightarrow> stableStringify num l = stableStringify num r"
  using assms by (simp add: stableEqual_def equalSlot_tree stringify_tree slot_tree_object)

definition sample_number :: "real \<Rightarrow> string" where
  "sample_number x = (if x < 0 then ''-1'' else ''0'')"

lemma sample_number_text [simp]: "number_text sample_number"
  by (simp add: number_text_def sample_number_def)

theorem stableEqual_iff_same_text_witness:
  "stableEqual sample_number (JObj [(''7'', JNull), (''b'', JUndef), (''a'', jnum 0)])
       (JObj [(''7'', JNull), (''a'', jnum 0)]) \<longleftrightarrow>
     stableStringify sample_number (JObj [(''7'', JNull), (''b'', JUndef), (''a'', jnum 0)]) =
     stableStringify sample_number (JObj [(''7'', JNull), (''a'', jnum 0)])"
  by (rule stableEqual_iff_same_text)
    (simp_all add: key_order_def isArrayIndex_def is_digit_def digits_value_def)

text \<open>A member named \<open>__proto__\<close> is compared with the inherited one: an object without members equals one whose
  \<open>__proto__\<close> is an empty object, though their texts differ.\<close>

lemma inherited_prototype_is_compared:
  "stableEqual num (JObj []) (JObj [(''__proto__'', JObj [])])"
  "stableStringify num (JObj []) \<noteq> stableStringify num (JObj [(''__proto__'', JObj [])])"
proof -
  have "equalSlot num Object_prototype (Value (JObj [])) False"
    by (subst equalSlot.simps) (simp add: slot_items_def slot_keys_def uniq_def)
  then show "stableEqual num (JObj []) (JObj [(''__proto__'', JObj [])])"
    unfolding stableEqual_def by (subst equalSlot.simps) (simp add: uniq_def slot_read_def)
  show "stableStringify num (JObj []) \<noteq> stableStringify num (JObj [(''__proto__'', JObj [])])"
    by (simp add: stableStringify_def join_members_def ordered_keys_def isArrayIndex_def is_digit_def)
qed

end
