(* ===== verification/Action_Semantics.thy ===== *)
theory Action_Semantics
  imports Settlement Path_Utils Effect_Model Json_Text "HOL-Library.Word"
begin

text \<open>
  Action keys and their projections (\<open>src/action-semantics.ts\<close>, \<open>src/action-key-projection.ts\<close>).
  The text of a finite number is the parameter \<open>num\<close>, the directory of the process \<open>cwd\<close>, and
  \<open>tool_path\<close> is \<open>resolveToCwd\<close> of the third-party agent package, which may throw.  A callback
  that may throw returns an \<open>outcome\<close>.  A key names an explicitly selected definition by the reference
  under which \<open>held\<close> holds it.
\<close>

datatype 'a outcome = Throws | Returns 'a

subsection \<open>Data\<close>

datatype action_effect = Observation | Workspace_mutation | Unbounded

datatype resource_scope = Content | Entries | Tree_entries | Tree_content | Captured_inputs

record action_key =
  ak_key :: string
  ak_hash :: string
  ak_tool :: string
  ak_input :: js_val
  ak_resources :: "string list"
  ak_root :: "string option"
  ak_epoch :: string
  ak_schema :: string
  ak_fingerprint :: string
  ak_context :: "nat option"
  ak_semantics :: "nat option"

record projected_action =
  pd_action :: action_key
  pd_distance :: js_num

record projector =
  pj_id :: string
  pj_source :: nat
  pj_partition :: "action_key \<Rightarrow> string option outcome"
  pj_project :: "action_key \<Rightarrow> action_key \<Rightarrow> projected_action option outcome"
  pj_share :: "(action_key \<Rightarrow> action_key \<Rightarrow> bool outcome) option"

record canonical_action =
  ca_input :: js_val
  ca_resources :: "js_val list"

record action_definition =
  ad_tool :: string
  ad_epoch :: string
  ad_effect :: action_effect
  ad_requirements :: effect_requirements
  ad_scope :: "resource_scope option"
  ad_canonicalize :: "js_val \<Rightarrow> string \<Rightarrow> canonical_action option outcome"
  ad_projectors :: "projector list option"

record read_range =
  rr_path :: string
  rr_offset :: int
  rr_limit :: int
  rr_end :: int

datatype semantics_error =
    Empty_tool | Empty_epoch string
  | Observation_without_evidence string | Observation_without_snapshot string
  | Evidence_not_observed string | Mutation_without_path string | Unbounded_without_process string
  | Duplicate_semantics string | Conflicting_projector string
  | Contract_mismatch | Input_not_data

definition input_field :: "action_key \<Rightarrow> string \<Rightarrow> js_val" where
  "input_field a k = (case ak_input a of JObj fs \<Rightarrow> field fs k | _ \<Rightarrow> JUndef)"

definition input_entries :: "action_key \<Rightarrow> (string \<times> js_val) list" where
  "input_entries a = (case ak_input a of JObj fs \<Rightarrow> fs | _ \<Rightarrow> [])"

fun truthy :: "js_val \<Rightarrow> bool" where
  "truthy JUndef = False"
| "truthy JNull = False"
| "truthy (JBool b) = b"
| "truthy (JNum (Fin x)) = (x \<noteq> 0)"
| "truthy (JNum NaN) = False"
| "truthy (JStr s) = (s \<noteq> [])"
| "truthy _ = True"

subsection \<open>Hash\<close>

text \<open>FNV-1a on 32 bits: \<open>Math.imul\<close> is multiplication modulo \<open>2 ^ 32\<close>.\<close>

unbundle bit_operations_syntax

definition fnv_step :: "32 word \<Rightarrow> char \<Rightarrow> 32 word" where
  "fnv_step h c = (h XOR of_nat (of_char c)) * 0x01000193"

fun hex_text :: "nat \<Rightarrow> nat \<Rightarrow> string" where
  "hex_text 0 n = []"
| "hex_text (Suc w) n = hex_text w (n div 16) @ [hex_digit (n mod 16)]"

definition fastHash :: "string \<Rightarrow> string" where
  "fastHash s = hex_text 8 (unat (foldl fnv_step 0x811c9dc5 s))"

subsection \<open>Definitions of action contracts\<close>

fun uniq_on :: "('a \<Rightarrow> 'b) \<Rightarrow> 'a list \<Rightarrow> 'a list" where
  "uniq_on f [] = []"
| "uniq_on f (x # xs) = x # filter (\<lambda>y. f y \<noteq> f x) (uniq_on f xs)"

text \<open>An owned projector is the rule it was captured from, with that rule's identity.\<close>

definition ownActionKeyProjector :: "projector \<Rightarrow> projector" where
  "ownActionKeyProjector p = p"

definition assertDefinitionCoherence :: "action_definition \<Rightarrow> semantics_error option" where
  "assertDefinitionCoherence d =
     (let has = (\<lambda>c. c \<in> set (capabilities (ad_requirements d))) in
      if ad_effect d = Observation then
        (if ad_scope d = None then Some (Observation_without_evidence (ad_tool d))
         else if \<not> has Resource_snapshot then Some (Observation_without_snapshot (ad_tool d)) else None)
      else if ad_scope d \<noteq> None then Some (Evidence_not_observed (ad_tool d))
      else if ad_effect d = Workspace_mutation \<and> (\<not> has Filesystem_write \<or> \<not> has Workspace_path)
        then Some (Mutation_without_path (ad_tool d))
      else if ad_effect d = Unbounded \<and> (\<not> has Process_invocation \<or> \<not> has Output_gate)
        then Some (Unbounded_without_process (ad_tool d))
      else None)"

definition or_none :: "'a list option \<Rightarrow> 'a list" where
  "or_none x = (case x of Some l \<Rightarrow> l | None \<Rightarrow> [])"

definition normalizeDefinition :: "action_definition \<Rightarrow> semantics_error + action_definition" where
  "normalizeDefinition source =
     (let tool = js_trim (ad_tool source); epoch = js_trim (ad_epoch source) in
      if tool = [] then Inl Empty_tool
      else if epoch = [] then Inl (Empty_epoch tool)
      else
        let d = source\<lparr>ad_tool := tool, ad_epoch := epoch,
          ad_requirements := normalizeEffectRequirements (ad_requirements source),
          ad_projectors := Some (map ownActionKeyProjector
            (uniq_on pj_source (or_none (ad_projectors source))))\<rparr> in
        case assertDefinitionCoherence d of Some e \<Rightarrow> Inl e | None \<Rightarrow> Inr d)"

subsection \<open>Keys\<close>

record key_request =
  kr_tool :: string
  kr_resources :: "string list"
  kr_root :: "string option"
  kr_input :: js_val
  kr_schema :: "string option"
  kr_epoch :: "string option"
  kr_fingerprint :: "string option"
  kr_context :: "nat option"
  kr_semantics :: "nat option"

definition or_blank :: "string option \<Rightarrow> string" where
  "or_blank s = (case s of Some t \<Rightarrow> t | None \<Rightarrow> [])"

definition key_object :: "string \<Rightarrow> string \<Rightarrow> string \<Rightarrow> string \<Rightarrow> js_val \<Rightarrow> js_val" where
  "key_object tool epoch schema fp v = JObj
     [(''tool'', JStr tool), (''semanticsEpoch'', JStr epoch), (''schemaHash'', JStr schema),
      (''executionFingerprint'', JStr fp), (''input'', v)]"

definition key_text :: "(real \<Rightarrow> string) \<Rightarrow> js_val \<Rightarrow> string" where
  "key_text num v = or_blank (stableStringify num v)"

definition issue_key :: "(real \<Rightarrow> string) \<Rightarrow> string \<Rightarrow> key_request \<Rightarrow> action_key" where
  "issue_key num cwd r =
     (let epoch = or_blank (kr_epoch r); schema = or_blank (kr_schema r); fp = or_blank (kr_fingerprint r);
          key = key_text num (key_object (kr_tool r) epoch schema fp (kr_input r)) in
      \<lparr>ak_key = key, ak_hash = fastHash key, ak_tool = kr_tool r, ak_input = kr_input r,
       ak_resources = kr_resources r, ak_root = map_option (path_resolve cwd) (kr_root r),
       ak_epoch = epoch, ak_schema = schema, ak_fingerprint = fp, ak_context = kr_context r,
       ak_semantics = kr_semantics r\<rparr>)"

definition buildActionKey ::
  "(real \<Rightarrow> string) \<Rightarrow> string \<Rightarrow> (nat \<Rightarrow> action_definition) \<Rightarrow> key_request \<Rightarrow> semantics_error + action_key" where
  "buildActionKey num cwd held r =
     (case map_option (\<lambda>i. normalizeDefinition (held i)) (kr_semantics r) of
        Some (Inl e) \<Rightarrow> Inl e
      | Some (Inr d) \<Rightarrow>
          if ad_tool d \<noteq> kr_tool r \<or> ad_epoch d \<noteq> or_blank (kr_epoch r) then Inl Contract_mismatch
          else if \<not> isImmutableSnapshot (kr_input r) then Inl Input_not_data
          else Inr (issue_key num cwd r)
      | None \<Rightarrow>
          if \<not> isImmutableSnapshot (kr_input r) then Inl Input_not_data
          else Inr (issue_key num cwd r))"

subsection \<open>The registry\<close>

record registry =
  definitionsByTool :: "(string, action_definition) jsmap"
  projectorsByID :: "(string, projector) jsmap"

fun register_projectors ::
  "projector list \<Rightarrow> (string, projector) jsmap \<Rightarrow> semantics_error + (string, projector) jsmap" where
  "register_projectors [] m = Inr m"
| "register_projectors (p # ps) m =
     (case map_of m (pj_id p) of
        Some q \<Rightarrow> if pj_source q \<noteq> pj_source p then Inl (Conflicting_projector (pj_id p))
                  else register_projectors ps (ms_set (pj_id p) p m)
      | None \<Rightarrow> register_projectors ps (ms_set (pj_id p) p m))"

fun register_definitions :: "action_definition list \<Rightarrow> registry \<Rightarrow> semantics_error + registry" where
  "register_definitions [] g = Inr g"
| "register_definitions (source # rest) g =
     (case normalizeDefinition source of
        Inl e \<Rightarrow> Inl e
      | Inr d \<Rightarrow>
          if ms_has (definitionsByTool g) (ad_tool d) then Inl (Duplicate_semantics (ad_tool d))
          else case register_projectors (or_none (ad_projectors d)) (projectorsByID g) of
            Inl e \<Rightarrow> Inl e
          | Inr ps \<Rightarrow> register_definitions rest
              \<lparr>definitionsByTool = ms_set (ad_tool d) d (definitionsByTool g), projectorsByID = ps\<rparr>)"

definition new_registry :: "action_definition list \<Rightarrow> semantics_error + registry" where
  "new_registry ds = register_definitions ds \<lparr>definitionsByTool = [], projectorsByID = []\<rparr>"

definition tool_definition :: "registry \<Rightarrow> string \<Rightarrow> action_definition option" where
  "tool_definition g tool = map_of (definitionsByTool g) tool"

definition key_definition ::
  "(nat \<Rightarrow> action_definition) \<Rightarrow> registry \<Rightarrow> action_key \<Rightarrow> action_definition option" where
  "key_definition held g a = (case ak_semantics a of
     Some i \<Rightarrow> (case normalizeDefinition (held i) of Inr d \<Rightarrow> Some d | Inl _ \<Rightarrow> None)
   | None \<Rightarrow> tool_definition g (ak_tool a))"

definition toolNames :: "registry \<Rightarrow> action_effect option \<Rightarrow> string list" where
  "toolNames g effect = map ad_tool
     (filter (\<lambda>d. effect = None \<or> effect = Some (ad_effect d)) (ms_vals (definitionsByTool g)))"

definition registry_effect ::
  "(nat \<Rightarrow> action_definition) \<Rightarrow> registry \<Rightarrow> action_key \<Rightarrow> action_effect option" where
  "registry_effect held g a = map_option ad_effect (key_definition held g a)"

definition registry_requirements ::
  "(nat \<Rightarrow> action_definition) \<Rightarrow> registry \<Rightarrow> action_key \<Rightarrow> effect_requirements option" where
  "registry_requirements held g a = map_option ad_requirements (key_definition held g a)"

definition registry_projectors :: "registry \<Rightarrow> projector list" where
  "registry_projectors g = ms_vals (projectorsByID g)"

definition supportsProjector :: "registry \<Rightarrow> string \<Rightarrow> bool" where
  "supportsProjector g i = ms_has (projectorsByID g) i"

definition all_texts :: "js_val list \<Rightarrow> string list option" where
  "all_texts vs = (if list_all (\<lambda>v. case v of JStr _ \<Rightarrow> True | _ \<Rightarrow> False) vs
     then Some (map (\<lambda>v. case v of JStr s \<Rightarrow> s | _ \<Rightarrow> []) vs) else None)"

record execution_choice =
  xc_fingerprint :: string
  xc_context :: "nat option"
  xc_semantics :: "nat option"

definition buildKey ::
  "(real \<Rightarrow> string) \<Rightarrow> string \<Rightarrow> (nat \<Rightarrow> action_definition) \<Rightarrow> registry \<Rightarrow>
   string \<Rightarrow> js_val \<Rightarrow> string \<Rightarrow> string \<Rightarrow> execution_choice option \<Rightarrow> semantics_error + action_key option" where
  "buildKey num cwd held g tool input dir schema execution =
     (let sem = (case execution of Some x \<Rightarrow> xc_semantics x | None \<Rightarrow> None) in
      case (case sem of Some i \<Rightarrow> map_sum id Some (normalizeDefinition (held i))
                      | None \<Rightarrow> Inr (tool_definition g tool)) of
        Inl e \<Rightarrow> Inl e
      | Inr None \<Rightarrow> Inr None
      | Inr (Some d) \<Rightarrow>
          (case ad_canonicalize d input dir of
             Throws \<Rightarrow> Inr None
           | Returns None \<Rightarrow> Inr None
           | Returns (Some c) \<Rightarrow>
               (case all_texts (ca_resources c) of
                  None \<Rightarrow> Inr None
                | Some rs \<Rightarrow>
                    (case buildActionKey num cwd held
                        \<lparr>kr_tool = tool, kr_resources = rs, kr_root = Some dir, kr_input = ca_input c,
                         kr_schema = Some schema, kr_epoch = Some (ad_epoch d),
                         kr_fingerprint = map_option xc_fingerprint execution,
                         kr_context = Option.bind execution xc_context, kr_semantics = sem\<rparr> of
                       Inl _ \<Rightarrow> Inr None
                     | Inr a \<Rightarrow> Inr (Some a)))))"

subsection \<open>Read ranges\<close>

definition read_default_offset :: int where "read_default_offset = 1"
definition read_default_limit :: int where "read_default_limit = 2000"
definition grep_default_limit :: int where "grep_default_limit = 100"
definition find_default_limit :: int where "find_default_limit = 1000"
definition ls_default_limit :: int where "ls_default_limit = 500"

definition normalizeReadOffset :: "js_val \<Rightarrow> int" where
  "normalizeReadOffset v = positiveInteger v read_default_offset"

definition normalizeReadLimit :: "js_val \<Rightarrow> int" where
  "normalizeReadLimit v = (case finiteNumber v of None \<Rightarrow> read_default_limit | Some x \<Rightarrow> max 0 \<lfloor>x\<rfloor>)"

definition readActionRange :: "action_key \<Rightarrow> read_range option" where
  "readActionRange a =
     (if ak_tool a \<noteq> ''read'' then None
      else case asRecord (ak_input a) of
        None \<Rightarrow> None
      | Some fs \<Rightarrow> (case field fs ''path'' of
          JStr p \<Rightarrow>
            let offset = normalizeReadOffset (field fs ''offset''); limit = normalizeReadLimit (field fs ''limit'') in
            Some \<lparr>rr_path = p, rr_offset = offset, rr_limit = limit, rr_end = offset + limit - 1\<rparr>
        | _ \<Rightarrow> None))"

definition texts :: "string list \<Rightarrow> js_val" where
  "texts ss = JArr (map JStr ss)"

definition readProjectionPartition :: "(real \<Rightarrow> string) \<Rightarrow> action_key \<Rightarrow> string option" where
  "readProjectionPartition num a = (case readActionRange a of
     None \<Rightarrow> None
   | Some r \<Rightarrow> Some (key_text num (JArr [JStr (ak_epoch a), JStr (ak_schema a), JStr (ak_fingerprint a),
       texts (ak_resources a), JStr (rr_path r)])))"

definition readRangesShareInFlight :: "(real \<Rightarrow> string) \<Rightarrow> action_key \<Rightarrow> action_key \<Rightarrow> bool" where
  "readRangesShareInFlight num s a = (case (readActionRange s, readActionRange a) of
     (Some sr, Some ar) \<Rightarrow>
       \<not> (input_field a ''limit'' = JUndef \<and> input_field s ''limit'' \<noteq> JUndef) \<and>
       readProjectionPartition num s = readProjectionPartition num a \<and>
       rr_offset sr \<le> rr_offset ar \<and> rr_end ar \<le> rr_end sr
   | _ \<Rightarrow> False)"

definition project_read :: "(real \<Rightarrow> string) \<Rightarrow> action_key \<Rightarrow> action_key \<Rightarrow> projected_action option" where
  "project_read num s a = (case (readActionRange s, readActionRange a) of
     (Some sr, Some ar) \<Rightarrow>
       if readProjectionPartition num s \<noteq> readProjectionPartition num a \<or> rr_limit sr = 0 \<or>
          rr_offset ar < rr_offset sr \<or> rr_end sr + 1 < rr_offset ar then None
       else Some \<lparr>pd_action = a,
         pd_distance = Fin (of_int (rr_offset ar - rr_offset sr + \<bar>rr_end sr - rr_end ar\<bar>))\<rparr>
   | _ \<Rightarrow> None)"

definition READ_RANGE_ACTION_KEY_PROJECTOR :: "(real \<Rightarrow> string) \<Rightarrow> projector" where
  "READ_RANGE_ACTION_KEY_PROJECTOR num = ownActionKeyProjector
     \<lparr>pj_id = ''read.range'', pj_source = 0,
      pj_partition = (\<lambda>a. Returns (readProjectionPartition num a)),
      pj_project = (\<lambda>s a. Returns (project_read num s a)),
      pj_share = Some (\<lambda>s a. Returns (readRangesShareInFlight num s a))\<rparr>"

subsection \<open>Bash timeouts\<close>

definition entries_value :: "(string \<times> js_val) list \<Rightarrow> js_val" where
  "entries_value fs = JArr (map (\<lambda>(k, v). JArr [JStr k, v]) fs)"

definition shape_text :: "(real \<Rightarrow> string) \<Rightarrow> action_key \<Rightarrow> string list \<Rightarrow> string" where
  "shape_text num a dropped = key_text num (JArr [JStr (ak_epoch a), JStr (ak_schema a), JStr (ak_fingerprint a),
     texts (ak_resources a), entries_value (filter (\<lambda>(k, v). k \<notin> set dropped) (input_entries a))])"

definition is_text :: "js_val \<Rightarrow> bool" where
  "is_text v \<longleftrightarrow> (case v of JStr _ \<Rightarrow> True | _ \<Rightarrow> False)"

definition text_of :: "js_val \<Rightarrow> string" where
  "text_of v = (case v of JStr s \<Rightarrow> s | _ \<Rightarrow> [])"

definition bashTimeoutPartition :: "(real \<Rightarrow> string) \<Rightarrow> action_key \<Rightarrow> string option" where
  "bashTimeoutPartition num a =
     (if ak_tool a = ''bash'' \<and> is_text (input_field a ''command'')
      then Some (shape_text num a [''timeout'']) else None)"

definition timeout_limit :: "action_key \<Rightarrow> js_num" where
  "timeout_limit a = (case input_field a ''timeout'' of JNum n \<Rightarrow> n | _ \<Rightarrow> PInf)"

fun num_ge :: "js_num \<Rightarrow> js_num \<Rightarrow> bool" where
  "num_ge (Fin x) (Fin y) = (y \<le> x)"
| "num_ge NaN _ = False"
| "num_ge _ NaN = False"
| "num_ge PInf _ = True"
| "num_ge _ NInf = True"
| "num_ge _ _ = False"

definition bashTimeoutCovers :: "(real \<Rightarrow> string) \<Rightarrow> action_key \<Rightarrow> action_key \<Rightarrow> bool" where
  "bashTimeoutCovers num s a \<longleftrightarrow>
     bashTimeoutPartition num s \<noteq> None \<and> bashTimeoutPartition num s = bashTimeoutPartition num a \<and>
     num_ge (timeout_limit a) (timeout_limit s)"

definition BASH_TIMEOUT_ACTION_KEY_PROJECTOR :: "(real \<Rightarrow> string) \<Rightarrow> projector" where
  "BASH_TIMEOUT_ACTION_KEY_PROJECTOR num = ownActionKeyProjector
     \<lparr>pj_id = ''bash.timeout'', pj_source = 1,
      pj_partition = (\<lambda>a. Returns (bashTimeoutPartition num a)),
      pj_project = (\<lambda>s a. Returns (if bashTimeoutCovers num s a
        then Some \<lparr>pd_action = a, pd_distance = Fin 1\<rparr> else None)),
      pj_share = Some (\<lambda>s a. Returns (bashTimeoutCovers num s a))\<rparr>"

subsection \<open>Literal searches\<close>

text \<open>
  The simple case folding of the code units below 256, and the character classes of the three
  regular expressions.
\<close>

definition code :: "char \<Rightarrow> nat" where "code c = of_char c"

definition fold_case :: "char \<Rightarrow> char" where
  "fold_case c = (if 65 \<le> code c \<and> code c \<le> 90 \<or> 192 \<le> code c \<and> code c \<le> 222 \<and> code c \<noteq> 215
     then char_of (code c + 32) else c)"

definition word_char :: "char \<Rightarrow> bool" where
  "word_char c \<longleftrightarrow> 48 \<le> code c \<and> code c \<le> 57 \<or> 65 \<le> code c \<and> code c \<le> 90 \<or>
     97 \<le> code c \<and> code c \<le> 122 \<or> code c = 95"

definition plain_regex :: "string \<Rightarrow> bool" where
  "plain_regex p \<longleftrightarrow> p \<noteq> [] \<and> list_all (\<lambda>c. word_char c \<or> c = CHR '' '' \<or> c = CHR ''-'') p"

definition printable_ascii :: "string \<Rightarrow> bool" where
  "printable_ascii p \<longleftrightarrow> p \<noteq> [] \<and> list_all (\<lambda>c. 32 \<le> code c \<and> code c \<le> 126) p"

definition one_line :: "string \<Rightarrow> bool" where
  "one_line p \<longleftrightarrow> p \<noteq> [] \<and> list_all (\<lambda>c. code c \<noteq> 10 \<and> code c \<noteq> 13) p"

definition grepLiteralMatches :: "string \<Rightarrow> string \<Rightarrow> bool \<Rightarrow> bool" where
  "grepLiteralMatches text literal ignore =
     (if ignore then sublist (map fold_case literal) (map fold_case text) else sublist literal text)"

definition grepLiteralPartition :: "(real \<Rightarrow> string) \<Rightarrow> action_key \<Rightarrow> string option" where
  "grepLiteralPartition num a =
     (let pattern = input_field a ''pattern''; ignore = input_field a ''ignoreCase'' in
      if ak_tool a = ''grep'' \<and>
         (input_field a ''literal'' = JBool True \<or> is_text pattern \<and> plain_regex (text_of pattern)) \<and>
         input_field a ''context'' = jnum 0 \<and> is_text pattern \<and>
         (if truthy ignore then printable_ascii (text_of pattern) else one_line (text_of pattern))
      then Some (shape_text num a [''pattern'', ''limit'']) else None)"

definition project_grep :: "(real \<Rightarrow> string) \<Rightarrow> action_key \<Rightarrow> action_key \<Rightarrow> projected_action option" where
  "project_grep num s a =
     (let found = input_field s ''pattern''; sought = input_field a ''pattern'' in
      if grepLiteralPartition num s \<noteq> None \<and> grepLiteralPartition num s = grepLiteralPartition num a \<and>
         is_text found \<and> is_text sought \<and>
         grepLiteralMatches (text_of sought) (text_of found) (input_field a ''ignoreCase'' = JBool True)
      then Some \<lparr>pd_action = a,
        pd_distance = Fin (real (length (text_of sought)) - real (length (text_of found)))\<rparr>
      else None)"

definition GREP_LITERAL_ACTION_KEY_PROJECTOR :: "(real \<Rightarrow> string) \<Rightarrow> projector" where
  "GREP_LITERAL_ACTION_KEY_PROJECTOR num = ownActionKeyProjector
     \<lparr>pj_id = ''grep.literal'', pj_source = 2,
      pj_partition = (\<lambda>a. Returns (grepLiteralPartition num a)),
      pj_project = (\<lambda>s a. Returns (project_grep num s a)),
      pj_share = None\<rparr>"

subsection \<open>Canonical actions of the stock tools\<close>

definition normalizeWorkspacePath ::
  "string \<Rightarrow> (string \<Rightarrow> string \<Rightarrow> string option) \<Rightarrow> string \<Rightarrow> string \<Rightarrow> string option outcome" where
  "normalizeWorkspacePath cwd tool_path value dir =
     (let base = path_resolve cwd dir in
      case tool_path value base of
        None \<Rightarrow> Throws
      | Some target \<Rightarrow>
          (case relativeFilesystemPath cwd base target of
             None \<Rightarrow> Returns None
           | Some rel \<Rightarrow>
               let resource = (if rel = [] then ''.'' else rel) in
               (case tool_path resource base of
                  None \<Rightarrow> Throws
                | Some again \<Rightarrow> Returns (Some
                    (if sameFilesystemPath again target then resource else ''./'' @ resource)))))"

definition normalizeRelativeRoot ::
  "string \<Rightarrow> (string \<Rightarrow> string \<Rightarrow> string option) \<Rightarrow> js_val \<Rightarrow> string \<Rightarrow> string option outcome" where
  "normalizeRelativeRoot cwd tool_path value dir = (case value of
     JUndef \<Rightarrow> normalizeWorkspacePath cwd tool_path ''.'' dir
   | JStr s \<Rightarrow> normalizeWorkspacePath cwd tool_path s dir
   | _ \<Rightarrow> Returns None)"

definition validOptionalInteger :: "js_val \<Rightarrow> int \<Rightarrow> bool" where
  "validOptionalInteger v minimum \<longleftrightarrow> v = JUndef \<or> isSafeCount v minimum max_safe"

definition edit_pair :: "js_val \<Rightarrow> js_val option" where
  "edit_pair v = (case asRecord v of
     None \<Rightarrow> None
   | Some e \<Rightarrow> if is_text (field e ''oldText'') \<and> is_text (field e ''newText'')
       then Some (JObj [(''oldText'', field e ''oldText''), (''newText'', field e ''newText'')]) else None)"

fun edit_pairs :: "js_val list \<Rightarrow> js_val list option" where
  "edit_pairs [] = Some []"
| "edit_pairs (v # vs) = (case edit_pair v of
     None \<Rightarrow> None
   | Some e \<Rightarrow> (case edit_pairs vs of None \<Rightarrow> None | Some es \<Rightarrow> Some (e # es)))"

definition int_value :: "int \<Rightarrow> js_val" where
  "int_value n = jnum (of_int n)"

definition query_tool :: "string \<Rightarrow> bool" where
  "query_tool tool \<longleftrightarrow> tool = ''grep'' \<or> tool = ''find'' \<or> tool = ''ls''"

definition query_fields :: "string \<Rightarrow> (string \<times> js_val) list \<Rightarrow> (string \<times> js_val) list option" where
  "query_fields tool r =
     (if \<not> validOptionalInteger (field r ''limit'') 1 \<or> (tool \<noteq> ''ls'' \<and> \<not> is_text (field r ''pattern'')) then None
      else if tool = ''grep'' \<and> \<not> validOptionalInteger (field r ''context'') 0 then None
      else Some
        ((if tool \<noteq> ''ls'' then [(''pattern'', field r ''pattern'')] else []) @
         [(''path'', field r ''path'')] @
         (if tool = ''grep'' then
            (if is_text (field r ''glob'') then [(''glob'', field r ''glob'')] else []) @
            [(''ignoreCase'', JBool (field r ''ignoreCase'' = JBool True)),
             (''literal'', JBool (field r ''literal'' = JBool True)),
             (''context'', int_value (nonNegativeInteger (field r ''context'') 0))]
          else []) @
         [(''limit'', int_value (positiveInteger (field r ''limit'')
            (if tool = ''grep'' then grep_default_limit
             else if tool = ''find'' then find_default_limit else ls_default_limit)))]))"

definition read_fields :: "(string \<times> js_val) list \<Rightarrow> (string \<times> js_val) list option" where
  "read_fields r =
     (if \<not> validOptionalInteger (field r ''offset'') 1 \<or> \<not> validOptionalInteger (field r ''limit'') 0 then None
      else Some ([(''path'', field r ''path''), (''offset'', int_value (normalizeReadOffset (field r ''offset'')))] @
        (if field r ''limit'' \<noteq> JUndef then [(''limit'', int_value (normalizeReadLimit (field r ''limit'')))] else [])))"

definition write_fields :: "(string \<times> js_val) list \<Rightarrow> (string \<times> js_val) list option" where
  "write_fields r = (if is_text (field r ''content'')
     then Some [(''path'', field r ''path''), (''content'', field r ''content'')] else None)"

definition edit_fields :: "(string \<times> js_val) list \<Rightarrow> (string \<times> js_val) list option" where
  "edit_fields r = (case field r ''edits'' of
     JArr (v # vs) \<Rightarrow> (case edit_pairs (v # vs) of
       None \<Rightarrow> None
     | Some es \<Rightarrow> Some [(''path'', field r ''path''), (''edits'', JArr es)])
   | _ \<Rightarrow> None)"

definition tool_fields :: "string \<Rightarrow> (string \<times> js_val) list \<Rightarrow> (string \<times> js_val) list option" where
  "tool_fields tool r =
     (if query_tool tool then query_fields tool r
      else if tool = ''read'' then read_fields r
      else if tool = ''write'' then write_fields r
      else if tool = ''edit'' then edit_fields r
      else None)"

definition bash_action :: "string \<Rightarrow> (string \<times> js_val) list \<Rightarrow> string \<Rightarrow> canonical_action option" where
  "bash_action cwd r dir =
     (if \<not> is_text (field r ''command'') then None
      else let resource = path_resolve cwd dir in Some
        \<lparr>ca_input = JObj ([(''command'', field r ''command''), (''cwd'', JStr resource)] @
           (if finiteNumber (field r ''timeout'') \<noteq> None then [(''timeout'', field r ''timeout'')] else [])),
         ca_resources = [JStr resource]\<rparr>)"

definition canonicalPiAction ::
  "string \<Rightarrow> (string \<Rightarrow> string \<Rightarrow> string option) \<Rightarrow> string \<Rightarrow> js_val \<Rightarrow> string \<Rightarrow> canonical_action option outcome" where
  "canonicalPiAction cwd tool_path tool input dir = (case asRecord input of
     None \<Rightarrow> Returns None
   | Some r \<Rightarrow>
       if tool = ''bash'' then Returns (bash_action cwd r dir)
       else if \<not> query_tool tool \<and> \<not> is_text (field r ''path'') then Returns None
       else (case tool_fields tool r of
         None \<Rightarrow> Returns None
       | Some fs \<Rightarrow>
           (case (if query_tool tool then normalizeRelativeRoot cwd tool_path (field r ''path'') dir
                  else normalizeWorkspacePath cwd tool_path (text_of (field r ''path'')) dir) of
              Throws \<Rightarrow> Throws
            | Returns None \<Rightarrow> Returns None
            | Returns (Some resource) \<Rightarrow>
                if (tool = ''write'' \<or> tool = ''edit'') \<and> resource = ''.'' then Returns None
                else Returns (Some
                  \<lparr>ca_input = JObj (ms_set ''path'' (JStr resource) fs), ca_resources = [JStr resource]\<rparr>))))"

definition host_process_effects :: effect_requirements where
  "host_process_effects = effectRequirements (Host_function # capabilities unrestricted_process_effects)"

definition pi_definition ::
  "string \<Rightarrow> (string \<Rightarrow> string \<Rightarrow> string option) \<Rightarrow>
   string \<Rightarrow> action_effect \<Rightarrow> effect_requirements \<Rightarrow> resource_scope option \<Rightarrow> projector list option \<Rightarrow> action_definition" where
  "pi_definition cwd tool_path tool effect req scope ps =
     \<lparr>ad_tool = tool, ad_epoch = ''pi.'' @ tool, ad_effect = effect, ad_requirements = req, ad_scope = scope,
      ad_canonicalize = canonicalPiAction cwd tool_path tool, ad_projectors = ps\<rparr>"

definition pi_definitions ::
  "(real \<Rightarrow> string) \<Rightarrow> string \<Rightarrow> (string \<Rightarrow> string \<Rightarrow> string option) \<Rightarrow> action_definition list" where
  "pi_definitions num cwd tool_path =
     (let def = pi_definition cwd tool_path in
     [def ''read'' Observation resource_observation_effects (Some Content)
        (Some [READ_RANGE_ACTION_KEY_PROJECTOR num]),
      def ''grep'' Unbounded host_process_effects None (Some [GREP_LITERAL_ACTION_KEY_PROJECTOR num]),
      def ''find'' Unbounded host_process_effects None None,
      def ''ls'' Observation resource_observation_effects (Some Entries) None,
      def ''bash'' Unbounded unrestricted_process_effects None (Some [BASH_TIMEOUT_ACTION_KEY_PROJECTOR num]),
      def ''write'' Workspace_mutation workspace_path_mutation_effects None None,
      def ''edit'' Workspace_mutation workspace_path_mutation_effects None None])"

definition PI_ACTION_SEMANTICS ::
  "(real \<Rightarrow> string) \<Rightarrow> string \<Rightarrow> (string \<Rightarrow> string \<Rightarrow> string option) \<Rightarrow> semantics_error + registry" where
  "PI_ACTION_SEMANTICS num cwd tool_path = new_registry (pi_definitions num cwd tool_path)"

subsection \<open>Matching\<close>

definition same_contract :: "action_key \<Rightarrow> action_key \<Rightarrow> bool" where
  "same_contract s a \<longleftrightarrow> ak_tool s = ak_tool a \<and> ak_epoch s = ak_epoch a \<and> ak_schema s = ak_schema a \<and>
     ak_fingerprint s = ak_fingerprint a"

definition accepted :: "projector \<Rightarrow> action_key \<Rightarrow> action_key \<Rightarrow> bool \<Rightarrow> real option" where
  "accepted p s a cover =
     (if cover \<and> (case pj_share p of Some share \<Rightarrow> share s a \<noteq> Returns True | None \<Rightarrow> True) then None
      else case pj_project p s a of
        Returns (Some r) \<Rightarrow>
          if ak_key (pd_action r) \<noteq> ak_key a then None
          else (case pd_distance r of Fin d \<Rightarrow> if d < 0 then None else Some d | _ \<Rightarrow> None)
      | _ \<Rightarrow> None)"

fun best_match ::
  "projector list \<Rightarrow> action_key \<Rightarrow> action_key \<Rightarrow> bool \<Rightarrow> (real \<times> string) option \<Rightarrow> (real \<times> string) option" where
  "best_match [] s a cover best = best"
| "best_match (p # ps) s a cover best =
     best_match ps s a cover
       (case accepted p s a cover of
          None \<Rightarrow> best
        | Some d \<Rightarrow> (case best of
            Some (e, i) \<Rightarrow> if e \<le> d then best else Some (d, pj_id p)
          | None \<Rightarrow> Some (d, pj_id p)))"

definition actionKeyMatch ::
  "action_key \<Rightarrow> action_key \<Rightarrow> projector list \<Rightarrow> bool \<Rightarrow> action_key_match option" where
  "actionKeyMatch s a ps cover =
     (if ak_key s = ak_key a then Some Exact
      else if \<not> same_contract s a then None
      else map_option (\<lambda>(d, i). Projected d i) (best_match ps s a cover None))"

definition actionKeyMatches :: "action_key \<Rightarrow> action_key \<Rightarrow> projector list \<Rightarrow> bool" where
  "actionKeyMatches s a ps \<longleftrightarrow> actionKeyMatch s a ps False \<noteq> None"

definition actionKeyCovers :: "action_key \<Rightarrow> action_key \<Rightarrow> projector list \<Rightarrow> bool" where
  "actionKeyCovers s a ps \<longleftrightarrow> actionKeyMatch s a ps True \<noteq> None"

definition partition_text :: "(real \<Rightarrow> string) \<Rightarrow> string \<Rightarrow> string \<Rightarrow> string" where
  "partition_text num i p = key_text num (texts [i, p])"

definition partition_of :: "(real \<Rightarrow> string) \<Rightarrow> action_key \<Rightarrow> projector \<Rightarrow> string list" where
  "partition_of num a p = (case pj_partition p a of
     Returns (Some t) \<Rightarrow> [partition_text num (pj_id p) t] | _ \<Rightarrow> [])"

definition actionKeyProjectionPartitions :: "(real \<Rightarrow> string) \<Rightarrow> action_key \<Rightarrow> projector list \<Rightarrow> string list" where
  "actionKeyProjectionPartitions num a ps = uniq (concat (map (partition_of num a) ps))"

subsection \<open>Projection rules\<close>

text \<open>
  \<open>resolveActionProjectionRules\<close>: a rule is a projector with its output callbacks, which the
  resolution does not look at; explicit rules come before the registered projectors.
\<close>

fun keep_first :: "registry \<Rightarrow> projector list \<Rightarrow> (string, projector) jsmap \<Rightarrow> (string, projector) jsmap" where
  "keep_first g [] m = m"
| "keep_first g (r # rs) m =
     keep_first g rs (if supportsProjector g (pj_id r) \<and> \<not> ms_has m (pj_id r)
       then ms_set (pj_id r) (ownActionKeyProjector r) m else m)"

definition resolveActionProjectionRules :: "projector list \<Rightarrow> registry \<Rightarrow> projector list" where
  "resolveActionProjectionRules rules g = ms_vals (keep_first g (rules @ registry_projectors g) [])"

subsection \<open>The best projection\<close>

definition offers :: "projector list \<Rightarrow> action_key \<Rightarrow> action_key \<Rightarrow> bool \<Rightarrow> nat \<Rightarrow> real \<Rightarrow> bool" where
  "offers ps s a cover k d \<longleftrightarrow> k < length ps \<and> accepted (ps ! k) s a cover = Some d"

definition least_offer :: "projector list \<Rightarrow> action_key \<Rightarrow> action_key \<Rightarrow> bool \<Rightarrow> nat \<Rightarrow> real \<Rightarrow> bool" where
  "least_offer ps s a cover k d \<longleftrightarrow> offers ps s a cover k d \<and>
     (\<forall>j e. offers ps s a cover j e \<longrightarrow> d \<le> e \<and> (j < k \<longrightarrow> d < e))"

lemma best_match_append:
  "best_match (ps @ qs) s a cover best = best_match qs s a cover (best_match ps s a cover best)"
  by (induction ps arbitrary: best) (simp_all)

lemma offers_snoc:
  "offers (ps @ [p]) s a cover k d \<longleftrightarrow>
     offers ps s a cover k d \<or> k = length ps \<and> accepted p s a cover = Some d"
  by (auto simp: offers_def nth_append)

lemma best_match_least:
  "case best_match ps s a cover None of
     None \<Rightarrow> \<forall>k d. \<not> offers ps s a cover k d
   | Some (d, i) \<Rightarrow> \<exists>k. least_offer ps s a cover k d \<and> pj_id (ps ! k) = i"
proof (induction ps rule: rev_induct)
  case Nil
  then show ?case by (simp add: offers_def)
next
  case (snoc p ps)
  let ?b = "best_match ps s a cover None"
  have step: "best_match (ps @ [p]) s a cover None = (case accepted p s a cover of
      None \<Rightarrow> ?b | Some d \<Rightarrow> (case ?b of Some (e, i) \<Rightarrow> if e \<le> d then ?b else Some (d, pj_id p)
        | None \<Rightarrow> Some (d, pj_id p)))"
    by (simp add: best_match_append)
  have old: "least_offer (ps @ [p]) s a cover k e \<and> pj_id ((ps @ [p]) ! k) = pj_id (ps ! k)"
    if "least_offer ps s a cover k e" "\<And>d. accepted p s a cover = Some d \<Longrightarrow> e \<le> d" for k e
  proof -
    have "k < length ps" using that(1) by (simp add: least_offer_def offers_def)
    with that show ?thesis
      by (auto simp: least_offer_def offers_snoc nth_append)
  qed
  have new: "least_offer (ps @ [p]) s a cover (length ps) d"
    if "accepted p s a cover = Some d" "\<And>k e. offers ps s a cover k e \<Longrightarrow> d < e" for d
    using that by (fastforce simp: least_offer_def offers_snoc less_imp_le dest: that(2))
  show ?case
  proof (cases "accepted p s a cover")
    case None
    with snoc old show ?thesis
      by (fastforce simp: step offers_snoc split: option.splits)
  next
    case (Some d)
    show ?thesis
    proof (cases ?b)
      case None
      with snoc have "\<forall>k d. \<not> offers ps s a cover k d" by simp
      with Some None new [of d] show ?thesis by (auto simp: step)
    next
      case b: (Some best)
      obtain e i where best: "best = (e, i)" by (cases best)
      with snoc b obtain k where k: "least_offer ps s a cover k e" "pj_id (ps ! k) = i" by auto
      show ?thesis
      proof (cases "e \<le> d")
        case True
        with old [OF k(1)] Some k(2) b best show ?thesis by (auto simp: step)
      next
        case False
        with k(1) have "\<And>j f. offers ps s a cover j f \<Longrightarrow> d < f"
          by (force simp: least_offer_def)
        with Some False b best new [of d] show ?thesis by (auto simp: step)
      qed
    qed
  qed
qed

text \<open>A match is exact precisely for equal keys; otherwise it exists precisely when the two actions have
  the same contract and some projector accepts the pair, and then it is the offer of least distance,
  the first one among equals.\<close>

theorem actionKeyMatch_is_least:
  "actionKeyMatch s a ps cover =
     (if ak_key s = ak_key a then Some Exact
      else if same_contract s a then map_option (\<lambda>(d, i). Projected d i) (best_match ps s a cover None)
      else None) \<and>
   (case best_match ps s a cover None of
     None \<Rightarrow> \<forall>k d. \<not> offers ps s a cover k d
   | Some (d, i) \<Rightarrow> \<exists>k. least_offer ps s a cover k d \<and> pj_id (ps ! k) = i)"
  using best_match_least [of ps s a cover] by (simp add: actionKeyMatch_def)

subsection \<open>Partitions index the projections\<close>

text \<open>
  The contract of a projector: it never maps between two actions that its partition keeps apart.  A
  store that keeps one index entry per partition then finds every action that can match.
\<close>

locale indexed_projections =
  fixes rules :: "projector list"
  assumes same_partition: "p \<in> set rules \<Longrightarrow> pj_project p s a = Returns (Some r) \<Longrightarrow>
    \<exists>t. pj_partition p s = Returns (Some t) \<and> pj_partition p a = Returns (Some t)"
begin

lemma accepted_partition:
  assumes "p \<in> set rules" and "accepted p s a cover = Some d"
  shows "\<exists>t. partition_of num s p = [t] \<and> partition_of num a p = [t]"
proof -
  obtain r where "pj_project p s a = Returns (Some r)"
    using assms(2) by (auto simp: accepted_def split: if_splits outcome.splits option.splits)
  from same_partition [OF assms(1) this] show ?thesis by (auto simp: partition_of_def)
qed

lemma match_shares_partition:
  assumes "actionKeyMatch s a rules cover = Some (Projected d i)"
  shows "\<exists>t. t \<in> set (actionKeyProjectionPartitions num s rules) \<and>
    t \<in> set (actionKeyProjectionPartitions num a rules)"
proof -
  have "best_match rules s a cover None = Some (d, i)"
    using assms by (auto simp: actionKeyMatch_def split: if_splits)
  with best_match_least [of rules s a cover] obtain k where "offers rules s a cover k d"
    by (auto simp: least_offer_def)
  then have "rules ! k \<in> set rules" "accepted (rules ! k) s a cover = Some d"
    by (auto simp: offers_def)
  from this(1) accepted_partition [OF this, of num] show ?thesis
    by (auto simp: actionKeyProjectionPartitions_def intro!: bexI [of _ "rules ! k"])
qed

end

definition pi_projectors :: "(real \<Rightarrow> string) \<Rightarrow> projector list" where
  "pi_projectors num = [READ_RANGE_ACTION_KEY_PROJECTOR num, GREP_LITERAL_ACTION_KEY_PROJECTOR num,
     BASH_TIMEOUT_ACTION_KEY_PROJECTOR num]"

lemmas stock_projector_defs = READ_RANGE_ACTION_KEY_PROJECTOR_def GREP_LITERAL_ACTION_KEY_PROJECTOR_def
  BASH_TIMEOUT_ACTION_KEY_PROJECTOR_def ownActionKeyProjector_def

lemma project_read_partition:
  "project_read num s a = Some r \<Longrightarrow>
    \<exists>t. readProjectionPartition num s = Some t \<and> readProjectionPartition num a = Some t"
  by (auto simp: project_read_def readProjectionPartition_def split: option.splits if_splits)

lemma project_grep_partition:
  "project_grep num s a = Some r \<Longrightarrow>
    \<exists>t. grepLiteralPartition num s = Some t \<and> grepLiteralPartition num a = Some t"
  by (cases "grepLiteralPartition num s") (simp_all add: project_grep_def Let_def split: if_splits)

lemma bash_partition:
  "bashTimeoutCovers num s a \<Longrightarrow>
    \<exists>t. bashTimeoutPartition num s = Some t \<and> bashTimeoutPartition num a = Some t"
  by (auto simp: bashTimeoutCovers_def)

interpretation stock: indexed_projections "pi_projectors num" for num
  by unfold_locales
    (auto simp: pi_projectors_def stock_projector_defs
      dest: project_read_partition project_grep_partition bash_partition split: if_splits)

text \<open>C29.
  Two actions that match through one of the stock projections, with or without the coverage
  requirement, share a partition: looking up the partitions of the requested action finds every stored
  action that can answer it.\<close>

theorem stock_matches_are_indexed:
  assumes "actionKeyMatch s a (pi_projectors num) cover = Some m" and "m \<noteq> Exact"
  shows "\<exists>t. t \<in> set (actionKeyProjectionPartitions num s (pi_projectors num)) \<and>
    t \<in> set (actionKeyProjectionPartitions num a (pi_projectors num))"
proof -
  from assms obtain d i where "actionKeyMatch s a (pi_projectors num) cover = Some (Projected d i)"
    by (auto simp: actionKeyMatch_def split: if_splits)
  then show ?thesis by (rule stock.match_shares_partition)
qed

definition sample_read :: "string \<Rightarrow> real \<Rightarrow> real \<Rightarrow> action_key" where
  "sample_read k offset limit =
     \<lparr>ak_key = k, ak_hash = [], ak_tool = ''read'',
      ak_input = JObj [(''path'', JStr ''a''), (''offset'', jnum offset), (''limit'', jnum limit)],
      ak_resources = [''a''], ak_root = None, ak_epoch = ''pi.read'', ak_schema = [],
      ak_fingerprint = [], ak_context = None, ak_semantics = None\<rparr>"

lemma sample_read_range:
  "readActionRange (sample_read k 1 10) = Some \<lparr>rr_path = ''a'', rr_offset = 1, rr_limit = 10, rr_end = 10\<rparr>"
  "readActionRange (sample_read k 3 2) = Some \<lparr>rr_path = ''a'', rr_offset = 3, rr_limit = 2, rr_end = 4\<rparr>"
  by (simp_all add: readActionRange_def sample_read_def asRecord_def field_def normalizeReadOffset_def
      normalizeReadLimit_def finiteNumber_def positiveInteger_def safe_floor_def max_safe_def)

lemma sample_read_partition:
  "readProjectionPartition num (sample_read k 1 10) = readProjectionPartition num (sample_read l 3 2)"
  by (simp add: readProjectionPartition_def sample_read_range) (simp add: sample_read_def)

lemma sample_read_match:
  "actionKeyMatch (sample_read ''s'' 1 10) (sample_read ''a'' 3 2) (pi_projectors num) False =
     Some (Projected 8 ''read.range'')"
proof -
  have p: "project_read num (sample_read ''s'' 1 10) (sample_read ''a'' 3 2) =
      Some \<lparr>pd_action = sample_read ''a'' 3 2, pd_distance = Fin 8\<rparr>"
    using sample_read_partition [of num "''s''" "''a''"] by (simp add: project_read_def sample_read_range)
  have g: "project_grep num (sample_read ''s'' 1 10) a = None" "bashTimeoutCovers num (sample_read ''s'' 1 10) a = False" for a
    by (simp_all add: project_grep_def grepLiteralPartition_def bashTimeoutCovers_def bashTimeoutPartition_def
        sample_read_def)
  show ?thesis
    by (simp add: actionKeyMatch_def same_contract_def pi_projectors_def stock_projector_defs accepted_def p g)
      (simp add: sample_read_def)
qed

theorem stock_matches_are_indexed_witness:
  "\<exists>t. t \<in> set (actionKeyProjectionPartitions sample_number (sample_read ''s'' 1 10) (pi_projectors sample_number)) \<and>
    t \<in> set (actionKeyProjectionPartitions sample_number (sample_read ''a'' 3 2) (pi_projectors sample_number))"
  by (rule stock_matches_are_indexed [OF sample_read_match]) simp

subsection \<open>What equal texts say\<close>

lemma key_text_inject:
  assumes "number_text num" and "is_object v" and "is_object w"
  shows "key_text num v = key_text num w \<longleftrightarrow> tree num v = tree num w"
proof -
  obtain i j where ij: "tree num v = Some i" "tree num w = Some j"
    using tree_object assms(2,3) by metis
  then have "tree_ok i" "tree_ok j" using tree_ok_tree [OF assms(1)] by blast+
  with ij show ?thesis
    by (simp add: key_text_def or_blank_def stableStringify_def serialize_render render_inject)
qed

lemma tree_texts [simp]: "tree num (texts ss) = Some (JA (map (\<lambda>s. JT (json_string s)) ss))"
  by (simp add: texts_def or_null_tree_def comp_def)

lemma texts_tree_inject [simp]:
  "map (\<lambda>s. JT (json_string s)) ss = map (\<lambda>s. JT (json_string s)) ts \<longleftrightarrow> ss = ts"
  by (intro inj_map_eq_map) (simp add: inj_def)

lemma is_object_texts [simp]: "is_object (texts ss)"
  by (simp add: texts_def)

lemma read_partition_inject:
  assumes "number_text num" and "readActionRange s = Some sr" and "readActionRange a = Some ar"
  shows "readProjectionPartition num s = readProjectionPartition num a \<longleftrightarrow>
    ak_epoch s = ak_epoch a \<and> ak_schema s = ak_schema a \<and> ak_fingerprint s = ak_fingerprint a \<and>
    ak_resources s = ak_resources a \<and> rr_path sr = rr_path ar"
  using assms by (auto simp: readProjectionPartition_def key_text_inject or_null_tree_def)

lemma read_tool: "readActionRange a = Some r \<Longrightarrow> ak_tool a = ''read'' \<and> rr_end r = rr_offset r + rr_limit r - 1 \<and> 0 \<le> rr_limit r"
  by (auto simp: readActionRange_def normalizeReadLimit_def Let_def read_default_limit_def
      split: if_splits option.splits js_val.splits)

lemma accepted_read:
  assumes "readRangesShareInFlight num s a" and "readActionRange s = Some sr" and "readActionRange a = Some ar"
  shows "accepted (READ_RANGE_ACTION_KEY_PROJECTOR num) s a True =
    (if rr_limit sr = 0 then None else Some (of_int (rr_offset ar - rr_offset sr + (rr_end sr - rr_end ar))))"
  using assms read_tool [OF assms(2)] read_tool [OF assms(3)]
  by (auto simp: accepted_def stock_projector_defs project_read_def readRangesShareInFlight_def)

text \<open>A running read shares its result with a request only when it reads the same file under the same contract and
  its lines include every requested line; then it also covers the request as a projection, unless it
  reads no line at all.\<close>

theorem shared_read_covers:
  assumes "number_text num" and "readRangesShareInFlight num s a"
  shows "\<exists>sr ar. readActionRange s = Some sr \<and> readActionRange a = Some ar \<and> same_contract s a \<and>
    rr_path sr = rr_path ar \<and> ak_resources s = ak_resources a \<and>
    {rr_offset ar..rr_end ar} \<subseteq> {rr_offset sr..rr_end sr} \<and>
    (actionKeyCovers s a [READ_RANGE_ACTION_KEY_PROJECTOR num] \<longleftrightarrow> ak_key s = ak_key a \<or> rr_limit sr \<noteq> 0)"
proof -
  obtain sr ar where r: "readActionRange s = Some sr" "readActionRange a = Some ar"
    using assms(2) by (auto simp: readRangesShareInFlight_def split: option.splits)
  then have same: "readProjectionPartition num s = readProjectionPartition num a"
      "rr_offset sr \<le> rr_offset ar" "rr_end ar \<le> rr_end sr"
    using assms(2) by (simp_all add: readRangesShareInFlight_def)
  have contract: "same_contract s a" "rr_path sr = rr_path ar" "ak_resources s = ak_resources a"
    using same(1) read_partition_inject [OF assms(1) r] read_tool [OF r(1)] read_tool [OF r(2)]
    by (auto simp: same_contract_def)
  then have "actionKeyCovers s a [READ_RANGE_ACTION_KEY_PROJECTOR num] \<longleftrightarrow> ak_key s = ak_key a \<or> rr_limit sr \<noteq> 0"
    using accepted_read [OF assms(2) r] by (auto simp: actionKeyCovers_def actionKeyMatch_def)
  with r same contract show ?thesis by auto
qed

theorem shared_read_covers_witness:
  "\<exists>sr ar. readActionRange (sample_read ''s'' 1 10) = Some sr \<and> readActionRange (sample_read ''a'' 3 2) = Some ar \<and>
    same_contract (sample_read ''s'' 1 10) (sample_read ''a'' 3 2) \<and>
    rr_path sr = rr_path ar \<and> ak_resources (sample_read ''s'' 1 10) = ak_resources (sample_read ''a'' 3 2) \<and>
    {rr_offset ar..rr_end ar} \<subseteq> {rr_offset sr..rr_end sr} \<and>
    (actionKeyCovers (sample_read ''s'' 1 10) (sample_read ''a'' 3 2) [READ_RANGE_ACTION_KEY_PROJECTOR sample_number] \<longleftrightarrow>
      ak_key (sample_read ''s'' 1 10) = ak_key (sample_read ''a'' 3 2) \<or> rr_limit sr \<noteq> 0)"
proof (rule shared_read_covers [OF sample_number_text])
  have "input_field (sample_read ''s'' 1 10) ''limit'' \<noteq> JUndef" "input_field (sample_read ''a'' 3 2) ''limit'' \<noteq> JUndef"
    by (simp_all add: input_field_def sample_read_def field_def)
  then show "readRangesShareInFlight sample_number (sample_read ''s'' 1 10) (sample_read ''a'' 3 2)"
    using sample_read_partition [of sample_number "''s''" "''a''"]
    by (simp add: readRangesShareInFlight_def sample_read_range)
qed

subsection \<open>Identity of keys\<close>

lemma buildActionKey_issue:
  "buildActionKey num cwd held r = Inr a \<Longrightarrow> a = issue_key num cwd r \<and> isImmutableSnapshot (kr_input r)"
  by (auto simp: buildActionKey_def split: option.splits sum.splits if_splits)

lemma key_object_fields:
  "map fst [(''tool'', x1), (''semanticsEpoch'', x2), (''schemaHash'', x3), (''executionFingerprint'', x4), (''input'', x5)]
     = [''tool'', ''semanticsEpoch'', ''schemaHash'', ''executionFingerprint'', ''input'']"
  by simp

lemma key_order_key_object:
  "key_order [''tool'', ''semanticsEpoch'', ''schemaHash'', ''executionFingerprint'', ''input'']"
  by (simp add: key_order_def isArrayIndex_def is_digit_def)

lemma key_object_tree:
  "tree num (key_object t e s f v) = tree num (key_object t' e' s' f' v') \<longleftrightarrow>
     t = t' \<and> e = e' \<and> s = s' \<and> f = f' \<and> tree num v = tree num v'"
proof -
  let ?ms = "\<lambda>t e s f v. [(''tool'', Some (JT (json_string t))), (''semanticsEpoch'', Some (JT (json_string e))),
    (''schemaHash'', Some (JT (json_string s))), (''executionFingerprint'', Some (JT (json_string f))), (''input'', tree num v)]"
  have tr: "tree num (key_object t e s f v) = Some (JO (defined_members (?ms t e s f v)))" for t e s f v
    by (simp add: key_object_def)
  have order: "key_order (map fst (?ms t e s f v))" for t e s f v
    using key_order_key_object by simp
  have "(\<forall>k. member_of (?ms t e s f v) k = member_of (?ms t' e' s' f' v') k) \<longleftrightarrow>
      t = t' \<and> e = e' \<and> s = s' \<and> f = f' \<and> tree num v = tree num v'" (is "?l \<longleftrightarrow> ?r")
  proof
    assume l: ?l
    show ?r
      using l [rule_format, of "''tool''"] l [rule_format, of "''semanticsEpoch''"]
        l [rule_format, of "''schemaHash''"] l [rule_format, of "''executionFingerprint''"]
        l [rule_format, of "''input''"]
      by (simp add: member_of_def)
  qed simp
  then show ?thesis
    unfolding tr option.inject json.inject defined_members_equal [OF order order] .
qed

text \<open>C24.
  Two keys built from requests are the same key text exactly when tool, semantics epoch, schema hash
  and executor fingerprint are equal and the canonical inputs have the same canonical text, which, for inputs without
  a member of their own named \<open>__proto__\<close>, means that they are structurally equal: the key is a faithful identity of the
  canonical action.\<close>

theorem built_keys_identify_actions:
  assumes "number_text num"
    and "buildActionKey num cwd held r = Inr a" and "buildActionKey num cwd held s = Inr b"
    and "data_ok (kr_input r)" and "data_ok (kr_input s)" and "is_object (kr_input r)" and "is_object (kr_input s)"
  shows "(ak_key a = ak_key b \<longleftrightarrow> same_contract a b \<and> stableStringify num (ak_input a) = stableStringify num (ak_input b)) \<and>
    (proto_free (kr_input r) \<and> proto_free (kr_input s) \<longrightarrow>
      (ak_key a = ak_key b \<longleftrightarrow> same_contract a b \<and> stableEqual num (ak_input a) (ak_input b)))"
proof -
  have a: "a = issue_key num cwd r" and b: "b = issue_key num cwd s"
    using assms(2,3) by (auto dest: buildActionKey_issue)
  have "is_object (key_object t e s f v)" for t e s f v by (simp add: key_object_def)
  then show ?thesis
    using assms(4-7) unfolding a b
    by (auto simp: issue_key_def Let_def key_text_inject [OF assms(1)] key_object_tree same_contract_def
        stableEqual_def equalSlot_tree slot_tree_object stringify_tree [OF assms(1)])
qed

definition sample_request :: "js_val \<Rightarrow> key_request" where
  "sample_request v = \<lparr>kr_tool = ''bash'', kr_resources = [], kr_root = None, kr_input = v, kr_schema = None,
     kr_epoch = None, kr_fingerprint = None, kr_context = None, kr_semantics = None\<rparr>"

lemma build_sample_request:
  "isImmutableSnapshot v \<Longrightarrow> buildActionKey num cwd held (sample_request v) = Inr (issue_key num cwd (sample_request v))"
  by (simp add: buildActionKey_def sample_request_def)

theorem built_keys_identify_actions_witness:
  "let v = JObj [(''command'', JStr ''ls''), (''cwd'', JStr ''/'')]; w = JObj [(''cwd'', JStr ''/''), (''command'', JStr ''ls'')];
       a = issue_key sample_number ''/'' (sample_request v); b = issue_key sample_number ''/'' (sample_request w) in
   (ak_key a = ak_key b \<longleftrightarrow> same_contract a b \<and> stableStringify sample_number (ak_input a) = stableStringify sample_number (ak_input b)) \<and>
   (ak_key a = ak_key b \<longleftrightarrow> same_contract a b \<and> stableEqual sample_number (ak_input a) (ak_input b))"
proof -
  let ?v = "JObj [(''command'', JStr ''ls''), (''cwd'', JStr ''/'')]" and ?w = "JObj [(''cwd'', JStr ''/''), (''command'', JStr ''ls'')]"
  have data: "data_ok ?v" "data_ok ?w" "proto_free ?v" "proto_free ?w" "isImmutableSnapshot ?v" "isImmutableSnapshot ?w"
    by (simp_all add: key_order_def isArrayIndex_def is_digit_def)
  have input: "kr_input (sample_request v) = v" for v by (simp add: sample_request_def)
  have keys: "buildActionKey sample_number ''/'' held (sample_request v) = Inr (issue_key sample_number ''/'' (sample_request v))"
    if "isImmutableSnapshot v" for v held using that by (rule build_sample_request)
  show ?thesis
    using built_keys_identify_actions [OF sample_number_text keys [OF data(5)] keys [OF data(6)], unfolded input, OF data(1,2)] data(3,4)
    unfolding Let_def is_object.simps by blast
qed

subsection \<open>The registry is coherent\<close>

lemma dropWhile_head: "dropWhile P xs = [] \<or> \<not> P (hd (dropWhile P xs))"
  using hd_dropWhile [of P xs] by blast

lemma js_trim_idem [simp]: "js_trim (js_trim s) = js_trim s"
proof -
  let ?t = "dropWhile js_space s"
  let ?u = "dropWhile js_space (rev ?t)"
  have keep: "dropWhile js_space (rev ?u) = rev ?u"
  proof (cases "rev ?u")
    case (Cons c x)
    then have "hd ?t = c"
      by (metis append_is_Nil_conv hd_append2 list.sel(1) list.simps(3) rev.simps(2) rev_rev_ident suffix_dropWhile suffix_def rev_append)
    moreover have "?t \<noteq> []" using Cons by (metis dropWhile.simps(1) list.distinct(1) rev.simps(1))
    ultimately have "\<not> js_space c" using dropWhile_head [of js_space s] by auto
    with Cons show ?thesis by simp
  qed (simp only: dropWhile.simps)
  then show ?thesis by (simp add: js_trim_def dropWhile_idem)
qed

lemma uniq_on_fixed: "distinct (map f xs) \<Longrightarrow> uniq_on f xs = xs"
  by (induction xs) (auto intro!: filter_True simp: image_iff)

lemma map_own [simp]: "map ownActionKeyProjector ps = ps"
  by (rule map_idI) (simp add: ownActionKeyProjector_def)

lemma effectRequirements_again [simp]: "effectRequirements (capabilities (effectRequirements cs)) = effectRequirements cs"
  by (simp add: effectRequirements_canonical)

lemma distinct_uniq_on: "distinct (map f (uniq_on f xs))"
  by (induction xs) (auto simp: distinct_map_filter)

lemma normalizeDefinition_idem: "normalizeDefinition d = Inr e \<Longrightarrow> normalizeDefinition e = Inr e"
  by (auto simp: normalizeDefinition_def Let_def or_none_def normalizeEffectRequirements_def
      distinct_uniq_on uniq_on_fixed split: if_splits option.splits)

definition keeps_source :: "(string, projector) jsmap \<Rightarrow> projector \<Rightarrow> bool" where
  "keeps_source m p \<longleftrightarrow> (case map_of m (pj_id p) of Some q \<Rightarrow> pj_source q = pj_source p | None \<Rightarrow> False)"

lemma register_projectors_sources:
  "register_projectors ps m = Inr m' \<Longrightarrow>
    (\<forall>p \<in> set ps. keeps_source m' p) \<and> (\<forall>q. keeps_source m q \<longrightarrow> keeps_source m' q)"
proof (induction ps arbitrary: m)
  case (Cons p ps)
  have step: "register_projectors ps (ms_set (pj_id p) p m) = Inr m'"
      "\<And>q. map_of m (pj_id p) = Some q \<Longrightarrow> pj_source q = pj_source p"
    using Cons.prems by (auto split: option.splits if_splits)
  have "(\<forall>p \<in> set ps. keeps_source m' p) \<and> (\<forall>q. keeps_source (ms_set (pj_id p) p m) q \<longrightarrow> keeps_source m' q)"
    using Cons.IH step(1) by blast
  moreover have "keeps_source (ms_set (pj_id p) p m) p" by (simp add: keeps_source_def)
  moreover have "keeps_source m q \<Longrightarrow> keeps_source (ms_set (pj_id p) p m) q" for q
    using step(2) by (auto simp: keeps_source_def split: option.splits)
  ultimately show ?case by auto
qed simp

definition registry_ok :: "registry \<Rightarrow> bool" where
  "registry_ok g \<longleftrightarrow> ms_wf (definitionsByTool g) \<and>
     (\<forall>(t, d) \<in> set (definitionsByTool g). ad_tool d = t \<and> normalizeDefinition d = Inr d \<and>
        (\<forall>p \<in> set (or_none (ad_projectors d)). keeps_source (projectorsByID g) p))"

lemma register_definitions_ok:
  "register_definitions ds g = Inr g' \<Longrightarrow> registry_ok g \<Longrightarrow>
    registry_ok g' \<and> ms_keys (definitionsByTool g') = ms_keys (definitionsByTool g) @ map (js_trim \<circ> ad_tool) ds"
proof (induction ds g rule: register_definitions.induct)
  case (1 g)
  then show ?case by simp
next
  case (2 source rest g)
  obtain d where d: "normalizeDefinition source = Inr d"
    using "2.prems" by (auto split: sum.splits)
  have new: "\<not> ms_has (definitionsByTool g) (ad_tool d)"
    using "2.prems" d by (auto split: if_splits)
  obtain ps where ps: "register_projectors (or_none (ad_projectors d)) (projectorsByID g) = Inr ps"
    using "2.prems" d new by (auto split: sum.splits)
  let ?g = "\<lparr>definitionsByTool = ms_set (ad_tool d) d (definitionsByTool g), projectorsByID = ps\<rparr>"
  have fresh: "ad_tool d \<notin> set (ms_keys (definitionsByTool g))" using new by (simp add: ms_has_def)
  have tool: "ad_tool d = js_trim (ad_tool source)"
    using d by (auto simp: normalizeDefinition_def Let_def split: if_splits option.splits)
  have "registry_ok ?g"
    using "2.prems"(2) register_projectors_sources [OF ps] normalizeDefinition_idem [OF d]
      set_ms_set [of "definitionsByTool g" "ad_tool d" d]
    by (auto simp: registry_ok_def)
  moreover have "register_definitions rest ?g = Inr g'"
    using "2.prems"(1) d new ps by simp
  ultimately have "registry_ok g' \<and> ms_keys (definitionsByTool g') =
      ms_keys (ms_set (ad_tool d) d (definitionsByTool g)) @ map (js_trim \<circ> ad_tool) rest"
    using "2.IH" [OF d new ps] by simp
  then show ?case using fresh tool by (simp add: ms_set_new)
qed

text \<open>A registry that is built holds one normalized, coherent definition per tool, in the order they were given, under
  their trimmed names, and every projector of a definition is the registered rule of its id.\<close>

theorem built_registry_is_coherent:
  assumes "new_registry ds = Inr g"
  shows "toolNames g None = map (js_trim \<circ> ad_tool) ds \<and> distinct (toolNames g None) \<and>
    (\<forall>t d. tool_definition g t = Some d \<longrightarrow> ad_tool d = t \<and> normalizeDefinition d = Inr d \<and>
       assertDefinitionCoherence d = None \<and>
       (\<forall>p \<in> set (or_none (ad_projectors d)). supportsProjector g (pj_id p) \<and> keeps_source (projectorsByID g) p))"
proof -
  have g: "registry_ok g" "ms_keys (definitionsByTool g) = map (js_trim \<circ> ad_tool) ds"
    using register_definitions_ok [OF assms [unfolded new_registry_def]] by (simp_all add: registry_ok_def)
  have "toolNames g None = ms_keys (definitionsByTool g)"
    using g(1) by (auto simp: toolNames_def registry_ok_def)
  moreover have "distinct (ms_keys (definitionsByTool g))"
    using g(1) by (simp add: registry_ok_def ms_wf_def)
  moreover have "normalizeDefinition d = Inr e \<Longrightarrow> assertDefinitionCoherence e = None" for d e
    by (auto simp: normalizeDefinition_def Let_def split: if_splits option.splits)
  moreover have "keeps_source m p \<Longrightarrow> ms_has m (pj_id p)" for m p
    by (auto simp: keeps_source_def ms_has_iff split: option.splits)
  moreover have "(t, d) \<in> set (definitionsByTool g)" if "tool_definition g t = Some d" for t d
    using that by (auto simp: tool_definition_def dest: map_of_SomeD)
  ultimately show ?thesis using g unfolding registry_ok_def supportsProjector_def by fastforce
qed

subsection \<open>The stock tools\<close>

definition stock_tools :: "string list" where
  "stock_tools = [''read'', ''grep'', ''find'', ''ls'', ''bash'', ''write'', ''edit'']"

lemma trim_stock: "\<forall>t \<in> set stock_tools. t \<noteq> [] \<and> js_trim t = t \<and> js_trim (''pi.'' @ t) = ''pi.'' @ t"
  by code_simp

lemma normalize_pi:
  assumes "tool \<in> set stock_tools" and "distinct (map pj_source (or_none ps))"
    and "assertDefinitionCoherence (pi_definition cwd tp tool effect (effectRequirements cs) scope (Some (or_none ps))) = None"
  shows "normalizeDefinition (pi_definition cwd tp tool effect (effectRequirements cs) scope ps) =
    Inr (pi_definition cwd tp tool effect (effectRequirements cs) scope (Some (or_none ps)))"
proof -
  have "tool \<noteq> []" "js_trim tool = tool" "js_trim (''pi.'' @ tool) = ''pi.'' @ tool"
    using trim_stock assms(1) by blast+
  with assms(2,3) show ?thesis
    by (simp add: normalizeDefinition_def pi_definition_def Let_def normalizeEffectRequirements_def uniq_on_fixed)
qed

lemmas stock_effects = host_process_effects_def unrestricted_process_effects_def
  resource_observation_effects_def workspace_path_mutation_effects_def

definition stock_registry ::
  "(real \<Rightarrow> string) \<Rightarrow> string \<Rightarrow> (string \<Rightarrow> string \<Rightarrow> string option) \<Rightarrow> registry" where
  "stock_registry num cwd tp =
     \<lparr>definitionsByTool = map (\<lambda>d. (ad_tool d, d\<lparr>ad_projectors := Some (or_none (ad_projectors d))\<rparr>))
        (pi_definitions num cwd tp),
      projectorsByID = map (\<lambda>p. (pj_id p, p)) (pi_projectors num)\<rparr>"

lemma normalize_stock:
  "normalizeDefinition (pi_definition cwd tp ''read'' Observation resource_observation_effects (Some Content)
      (Some [READ_RANGE_ACTION_KEY_PROJECTOR num])) = Inr (pi_definition cwd tp ''read'' Observation
      resource_observation_effects (Some Content) (Some [READ_RANGE_ACTION_KEY_PROJECTOR num]))"
  "normalizeDefinition (pi_definition cwd tp ''grep'' Unbounded host_process_effects None
      (Some [GREP_LITERAL_ACTION_KEY_PROJECTOR num])) = Inr (pi_definition cwd tp ''grep'' Unbounded
      host_process_effects None (Some [GREP_LITERAL_ACTION_KEY_PROJECTOR num]))"
  "normalizeDefinition (pi_definition cwd tp ''find'' Unbounded host_process_effects None None) =
     Inr (pi_definition cwd tp ''find'' Unbounded host_process_effects None (Some []))"
  "normalizeDefinition (pi_definition cwd tp ''ls'' Observation resource_observation_effects (Some Entries) None) =
     Inr (pi_definition cwd tp ''ls'' Observation resource_observation_effects (Some Entries) (Some []))"
  "normalizeDefinition (pi_definition cwd tp ''bash'' Unbounded unrestricted_process_effects None
      (Some [BASH_TIMEOUT_ACTION_KEY_PROJECTOR num])) = Inr (pi_definition cwd tp ''bash'' Unbounded
      unrestricted_process_effects None (Some [BASH_TIMEOUT_ACTION_KEY_PROJECTOR num]))"
  "normalizeDefinition (pi_definition cwd tp ''write'' Workspace_mutation workspace_path_mutation_effects None None) =
     Inr (pi_definition cwd tp ''write'' Workspace_mutation workspace_path_mutation_effects None (Some []))"
  "normalizeDefinition (pi_definition cwd tp ''edit'' Workspace_mutation workspace_path_mutation_effects None None) =
     Inr (pi_definition cwd tp ''edit'' Workspace_mutation workspace_path_mutation_effects None (Some []))"
  unfolding stock_effects
  by (subst normalize_pi; simp add: stock_tools_def or_none_def assertDefinitionCoherence_def pi_definition_def
      stock_effects)+

lemma stock_registry_builds: "PI_ACTION_SEMANTICS num cwd tp = Inr (stock_registry num cwd tp)"
proof -
  have tool: "ad_tool (pi_definition cwd tp t e r s ps) = t" "ad_projectors (pi_definition cwd tp t e r s ps) = ps" for t e r s ps
    by (simp_all add: pi_definition_def)
  have upd: "(pi_definition cwd tp t e r s ps)\<lparr>ad_projectors := qs\<rparr> = pi_definition cwd tp t e r s qs" for t e r s ps qs
    by (simp add: pi_definition_def)
  have ids: "pj_id (READ_RANGE_ACTION_KEY_PROJECTOR num) = ''read.range''"
      "pj_id (GREP_LITERAL_ACTION_KEY_PROJECTOR num) = ''grep.literal''"
      "pj_id (BASH_TIMEOUT_ACTION_KEY_PROJECTOR num) = ''bash.timeout''"
    by (simp_all add: stock_projector_defs)
  show ?thesis
    unfolding PI_ACTION_SEMANTICS_def new_registry_def pi_definitions_def Let_def stock_registry_def
    by (simp add: normalize_stock tool upd ids or_none_def ms_has_def pi_projectors_def)
qed

theorem built_registry_is_coherent_witness:
  "\<exists>ds g. new_registry ds = Inr g \<and> toolNames g None = map (js_trim \<circ> ad_tool) ds \<and> length ds = 7"
proof -
  let ?ds = "pi_definitions sample_number ''/'' (\<lambda>p d. None)"
  have "new_registry ?ds = Inr (stock_registry sample_number ''/'' (\<lambda>p d. None))"
    using stock_registry_builds by (simp add: PI_ACTION_SEMANTICS_def)
  with built_registry_is_coherent [OF this] show ?thesis
    by (intro exI conjI) (auto simp: pi_definitions_def Let_def)
qed

text \<open>The stock registry builds; it serves the seven tools in their order, two of them observations, and
  registers exactly the read, search and timeout projections.\<close>

theorem stock_registry_serves:
  "\<exists>g. PI_ACTION_SEMANTICS num cwd tp = Inr g \<and> toolNames g None = stock_tools \<and>
     toolNames g (Some Observation) = [''read'', ''ls''] \<and>
     toolNames g (Some Workspace_mutation) = [''write'', ''edit''] \<and>
     map pj_id (registry_projectors g) = [''read.range'', ''grep.literal'', ''bash.timeout''] \<and>
     resolveActionProjectionRules [] g = pi_projectors num"
  by (rule exI [of _ "stock_registry num cwd tp"])
    (simp add: stock_registry_builds stock_registry_def toolNames_def registry_projectors_def
      resolveActionProjectionRules_def supportsProjector_def ms_has_def pi_definitions_def pi_definition_def
      pi_projectors_def stock_projector_defs stock_tools_def Let_def)

end
