(* ===== verification/Candidate_Stores.thy ===== *)
theory Candidate_Stores
  imports Action_Semantics
begin

text \<open>
  The index of candidates (\<open>src/candidate-stores.ts\<close>).  An entry is an object: its identity
  \<open>se_ref\<close>, its id, its key and its estimated bytes.  A registration (\<open>IndexedEntry\<close>) is a mutable
  object and lives in \<open>cs_objects\<close> under its reference; the scope's maps hold references.  The
  callbacks a client passes (\<open>create\<close>, \<open>canReuse\<close>, \<open>requireCoverage\<close>, \<open>canEvict\<close>) receive the
  store and may change it, as a provider that retires or replaces registrations does; \<open>score\<close>
  and the projectors are functions of their arguments, and \<open>now\<close> is the value of the clock.
\<close>

subsection \<open>State\<close>

record store_entry =
  se_ref :: nat
  se_id :: string
  se_key :: "action_key option"
  se_bytes :: js_num

datatype cache_segment = Cold | Hot

record cache_evidence =
  ce_segment :: cache_segment
  ce_insertedAt :: real
  ce_actorHits :: nat
  ce_lastActorHitAt :: "real option"

record indexed_entry =
  ix_entry :: store_entry
  ix_memberships :: "string list"
  ix_inputs :: bool
  ix_recency :: nat
  ix_result :: "cache_evidence option"

record indexed_scope =
  sc_entries :: "(string, nat) jsmap"
  sc_partitions :: "(string, nat list) jsmap"

record observation =
  ob_changed :: bool
  ob_aborted :: bool

record 's store =
  cs_scopes :: "('s, indexed_scope) jsmap"
  cs_objects :: "nat \<Rightarrow> indexed_entry option"
  cs_waiters :: "('s, nat list) jsmap"
  cs_observations :: "nat \<Rightarrow> observation option"
  cs_sequence :: nat
  cs_next :: nat

record store_config =
  cf_num :: "real \<Rightarrow> string"
  cf_cwd :: string
  cf_projectors :: "projector list"
  cf_score :: "store_entry \<Rightarrow> cache_evidence \<Rightarrow> real \<Rightarrow> js_num"

record cache_limits =
  cl_maxEntries :: js_num
  cl_maxBytes :: js_num
  cl_hotFraction :: "js_num option"

record cache_snapshot =
  ss_coldEntries :: nat
  ss_hotEntries :: nat
  ss_coldBytes :: real
  ss_hotBytes :: real

record candidate_lookup =
  lk_entry :: store_entry
  lk_match :: action_key_match
  lk_indexed :: nat

definition new_store :: "'s store" where
  "new_store = \<lparr>cs_scopes = [], cs_objects = Map.empty, cs_waiters = [], cs_observations = Map.empty,
     cs_sequence = 0, cs_next = 0\<rparr>"

definition scope_of :: "'s store \<Rightarrow> 's \<Rightarrow> indexed_scope option" where
  "scope_of st s = map_of (cs_scopes st) s"

definition bytes_of :: "store_entry \<Rightarrow> real" where
  "bytes_of e = nonNegativeFinite (JNum (se_bytes e))"

subsection \<open>Waiters\<close>

definition observe_scope :: "'s \<Rightarrow> 's store \<Rightarrow> nat \<times> 's store" where
  "observe_scope s st =
     (let w = cs_next st; ws = or_none (map_of (cs_waiters st) s) in
      (w, st\<lparr>cs_next := Suc w, cs_waiters := ms_set s (ws @ [w]) (cs_waiters st),
             cs_observations := (cs_observations st)(w \<mapsto> \<lparr>ob_changed = False, ob_aborted = False\<rparr>)\<rparr>))"

definition dispose_waiter :: "'s \<Rightarrow> nat \<Rightarrow> 's store \<Rightarrow> 's store" where
  "dispose_waiter s w st =
     (let ws = filter (\<lambda>v. v \<noteq> w) (or_none (map_of (cs_waiters st) s)) in
      st\<lparr>cs_waiters := (if ws = [] then ms_del s (cs_waiters st) else ms_set s ws (cs_waiters st))\<rparr>)"

definition wake :: "bool \<Rightarrow> nat \<Rightarrow> (nat \<Rightarrow> observation option) \<Rightarrow> nat \<Rightarrow> observation option" where
  "wake changed w obs = (case obs w of
     None \<Rightarrow> obs
   | Some ob \<Rightarrow> obs(w \<mapsto> \<lparr>ob_changed = ob_changed ob \<or> changed, ob_aborted = True\<rparr>))"

definition notify :: "'s \<Rightarrow> bool \<Rightarrow> 's store \<Rightarrow> 's store" where
  "notify s changed st = st\<lparr>cs_observations :=
     fold (wake changed) (or_none (map_of (cs_waiters st) s)) (cs_observations st)\<rparr>"

subsection \<open>Registrations and their partitions\<close>

definition object_at :: "'s store \<Rightarrow> nat \<Rightarrow> indexed_entry" where
  "object_at st r = the (cs_objects st r)"

definition get_ref :: "'s \<Rightarrow> string \<Rightarrow> 's store \<Rightarrow> nat option" where
  "get_ref s i st = (case scope_of st s of None \<Rightarrow> None | Some sc \<Rightarrow> map_of (sc_entries sc) i)"

definition get_entry :: "'s \<Rightarrow> string \<Rightarrow> 's store \<Rightarrow> store_entry option" where
  "get_entry s i st = map_option (\<lambda>r. ix_entry (object_at st r)) (get_ref s i st)"

definition has_entry :: "'s \<Rightarrow> store_entry \<Rightarrow> 's store \<Rightarrow> bool" where
  "has_entry s e st \<longleftrightarrow> map_option se_ref (get_entry s (se_id e) st) = Some (se_ref e)"

definition record_ref :: "'s \<Rightarrow> store_entry \<Rightarrow> 's store \<Rightarrow> nat option" where
  "record_ref s e st = (case get_ref s (se_id e) st of
     None \<Rightarrow> None
   | Some r \<Rightarrow> if se_ref (ix_entry (object_at st r)) = se_ref e then Some r else None)"

definition put_scope :: "'s \<Rightarrow> indexed_scope \<Rightarrow> 's store \<Rightarrow> 's store" where
  "put_scope s sc st = st\<lparr>cs_scopes := ms_set s sc (cs_scopes st)\<rparr>"

definition put_object :: "nat \<Rightarrow> indexed_entry \<Rightarrow> 's store \<Rightarrow> 's store" where
  "put_object r ix st = st\<lparr>cs_objects := (cs_objects st)(r \<mapsto> ix)\<rparr>"

definition set_add :: "'a \<Rightarrow> 'a list \<Rightarrow> 'a list" where
  "set_add x xs = (if x \<in> set xs then xs else xs @ [x])"

definition set_del :: "'a \<Rightarrow> 'a list \<Rightarrow> 'a list" where
  "set_del x xs = filter (\<lambda>y. y \<noteq> x) xs"

definition members_at :: "indexed_scope \<Rightarrow> string \<Rightarrow> nat list" where
  "members_at sc k = or_none (map_of (sc_partitions sc) k)"

definition index_key :: "string \<Rightarrow> nat \<Rightarrow> indexed_scope \<Rightarrow> indexed_scope" where
  "index_key k r sc = sc\<lparr>sc_partitions := ms_set k (set_add r (members_at sc k)) (sc_partitions sc)\<rparr>"

definition unindex_key :: "string \<Rightarrow> nat \<Rightarrow> indexed_scope \<Rightarrow> indexed_scope" where
  "unindex_key k r sc = (let ms = set_del r (members_at sc k) in
     sc\<lparr>sc_partitions := (if ms = [] then ms_del k (sc_partitions sc) else ms_set k ms (sc_partitions sc))\<rparr>)"

fun index_keys :: "string list \<Rightarrow> nat \<Rightarrow> indexed_scope \<times> indexed_entry \<Rightarrow> indexed_scope \<times> indexed_entry" where
  "index_keys [] r (sc, ix) = (sc, ix)"
| "index_keys (k # ks) r (sc, ix) = index_keys ks r
     (index_key k r sc, ix\<lparr>ix_memberships := set_add k (ix_memberships ix)\<rparr>)"

fun unindex_keys :: "string list \<Rightarrow> nat \<Rightarrow> indexed_scope \<times> indexed_entry \<Rightarrow> indexed_scope \<times> indexed_entry" where
  "unindex_keys [] r (sc, ix) = (sc, ix)"
| "unindex_keys (k # ks) r (sc, ix) = unindex_keys ks r
     (unindex_key k r sc, ix\<lparr>ix_memberships := set_del k (ix_memberships ix)\<rparr>)"

text \<open>Both work on the registration \<open>r\<close> of a scope that is present.\<close>

definition with_indexed ::
  "(indexed_scope \<times> indexed_entry \<Rightarrow> indexed_scope \<times> indexed_entry) \<Rightarrow> 's \<Rightarrow> nat \<Rightarrow> 's store \<Rightarrow> 's store" where
  "with_indexed f s r st = (case scope_of st s of
     None \<Rightarrow> st
   | Some sc \<Rightarrow> (case f (sc, object_at st r) of (sc', ix) \<Rightarrow> put_scope s sc' (put_object r ix st)))"

definition exact_partition :: "action_key \<Rightarrow> string" where
  "exact_partition a = ''exact:'' @ ak_key a"

definition view_partition :: "string \<Rightarrow> string" where
  "view_partition k = ''view:'' @ k"

definition inputPartition :: "string \<Rightarrow> string \<Rightarrow> bool \<Rightarrow> string" where
  "inputPartition cwd resource descendants =
     ''inputs:'' @ (if descendants then ''tree'' else ''path'') @ '':'' @ filesystemPathKey cwd resource"

definition pending_partition :: string where
  "pending_partition = ''pending''"

definition partitions_of :: "store_config \<Rightarrow> action_key \<Rightarrow> string list" where
  "partitions_of cf a = actionKeyProjectionPartitions (cf_num cf) a (cf_projectors cf)"

definition entry_partitions :: "store_entry \<Rightarrow> string list \<Rightarrow> string list" where
  "entry_partitions e ps = [pending_partition] @
     (case se_key e of Some k \<Rightarrow> [exact_partition k] | None \<Rightarrow> []) @ ps"

definition add_entry :: "'s \<Rightarrow> store_entry \<Rightarrow> string list \<Rightarrow> 's store \<Rightarrow> store_entry option \<times> 's store" where
  "add_entry s e ps st =
     (let sc = (case scope_of st s of Some sc \<Rightarrow> sc | None \<Rightarrow> \<lparr>sc_entries = [], sc_partitions = []\<rparr>) in
      case map_of (sc_entries sc) (se_id e) of
        Some r \<Rightarrow> (Some (ix_entry (object_at st r)), st)
      | None \<Rightarrow>
          let r = cs_next st;
              ix = \<lparr>ix_entry = e, ix_memberships = [], ix_inputs = False, ix_recency = cs_sequence st, ix_result = None\<rparr>;
              (sc', ix') = index_keys (entry_partitions e ps) r (sc\<lparr>sc_entries := ms_set (se_id e) r (sc_entries sc)\<rparr>, ix)
          in (None, notify s True
               (put_scope s sc' (put_object r ix' (st\<lparr>cs_next := Suc r, cs_sequence := Suc (cs_sequence st)\<rparr>)))))"

definition insert_entry :: "store_config \<Rightarrow> 's \<Rightarrow> store_entry \<Rightarrow> 's store \<Rightarrow> store_entry option \<times> 's store" where
  "insert_entry cf s e st = (case get_entry s (se_id e) st of
     Some x \<Rightarrow> (Some x, st)
   | None \<Rightarrow> add_entry s e (case se_key e of Some k \<Rightarrow> partitions_of cf k | None \<Rightarrow> []) st)"

definition delete_entry :: "'s \<Rightarrow> store_entry \<Rightarrow> 's store \<Rightarrow> bool \<times> 's store" where
  "delete_entry s e st = (case record_ref s e st of
     None \<Rightarrow> (False, st)
   | Some r \<Rightarrow> (case scope_of st s of
       None \<Rightarrow> (False, st)
     | Some sc \<Rightarrow>
         let (sc', ix) = unindex_keys (ix_memberships (object_at st r)) r
               (sc\<lparr>sc_entries := ms_del (se_id e) (sc_entries sc)\<rparr>, object_at st r);
             st' = put_scope s sc' (put_object r ix st)
         in (True, notify s True
              (if sc_entries sc' = [] then st'\<lparr>cs_scopes := ms_del s (cs_scopes st')\<rparr> else st'))))"

definition invalidateInputs :: "store_config \<Rightarrow> 's \<Rightarrow> store_entry \<Rightarrow> string list \<Rightarrow> 's store \<Rightarrow> 's store" where
  "invalidateInputs cf s e resources st = (case record_ref s e st of
     None \<Rightarrow> st
   | Some r \<Rightarrow>
       if resources = [] then st
       else with_indexed (unindex_keys (uniq (concat (map (\<lambda>p.
         [inputPartition (cf_cwd cf) p False, inputPartition (cf_cwd cf) p True]) resources))) r) s r st)"

definition indexView :: "'s \<Rightarrow> store_entry \<Rightarrow> string \<Rightarrow> bool \<Rightarrow> 's store \<Rightarrow> 's store" where
  "indexView s e k retained st = (case record_ref s e st of
     None \<Rightarrow> st
   | Some r \<Rightarrow> notify s True (with_indexed
       ((if retained then index_keys else unindex_keys) [view_partition k] r) s r st))"

definition registered :: "'s \<Rightarrow> 's store \<Rightarrow> nat list" where
  "registered s st = (case scope_of st s of None \<Rightarrow> [] | Some sc \<Rightarrow> ms_vals (sc_entries sc))"

definition scope_values :: "'s \<Rightarrow> 's store \<Rightarrow> store_entry list" where
  "scope_values s st = map (\<lambda>r. ix_entry (object_at st r)) (registered s st)"

definition pending :: "'s \<Rightarrow> 's store \<Rightarrow> store_entry list" where
  "pending s st = (case scope_of st s of None \<Rightarrow> [] | Some sc \<Rightarrow>
     map (\<lambda>r. ix_entry (object_at st r)) (members_at sc pending_partition))"

definition cached :: "'s \<Rightarrow> 's store \<Rightarrow> store_entry list" where
  "cached s st = map (\<lambda>r. ix_entry (object_at st r))
     (filter (\<lambda>r. ix_result (object_at st r) \<noteq> None) (registered s st))"

subsection \<open>Settlement\<close>

record world_branch =
  wb_inputSource :: bool
  wb_reconstruct :: bool
  wb_inputResources :: "(string \<times> bool) list option"

definition update_object :: "(indexed_entry \<Rightarrow> indexed_entry) \<Rightarrow> nat \<Rightarrow> 's store \<Rightarrow> 's store" where
  "update_object f r st = put_object r (f (object_at st r)) st"

definition first_evidence :: "real \<Rightarrow> indexed_entry \<Rightarrow> indexed_entry" where
  "first_evidence now ix = (case ix_result ix of
     Some _ \<Rightarrow> ix
   | None \<Rightarrow> ix\<lparr>ix_result := Some \<lparr>ce_segment = Cold, ce_insertedAt = now, ce_actorHits = 0,
       ce_lastActorHitAt = None\<rparr>\<rparr>)"

definition settle_entry ::
  "store_config \<Rightarrow> real \<Rightarrow> 's \<Rightarrow> store_entry \<Rightarrow> world_branch \<Rightarrow> bool \<Rightarrow> 's store \<Rightarrow> 's store" where
  "settle_entry cf now s e b shared st0 =
     (let st1 = snd (insert_entry cf s e st0) in
      case record_ref s e st1 of
        None \<Rightarrow> st1
      | Some r \<Rightarrow>
          let st2 = with_indexed (unindex_keys [pending_partition] r) s r st1;
              st3 = update_object (first_evidence now) r st2
          in notify s True
            (if shared \<and> \<not> ix_inputs (object_at st3 r) \<and> (wb_inputSource b \<or> wb_reconstruct b)
             then update_object (\<lambda>ix. ix\<lparr>ix_inputs := True\<rparr>) r
               (with_indexed (index_keys (map (\<lambda>(p, d). inputPartition (cf_cwd cf) p d)
                  (or_none (wb_inputResources b))) r) s r st3)
             else st3))"

subsection \<open>Lookup\<close>

text \<open>The directories from a path up to the root, nearest first.\<close>

fun directory_chain :: "string list \<Rightarrow> string list" where
  "directory_chain rsegs = absolute_text (rev rsegs) # (case rsegs of [] \<Rightarrow> [] | _ # up \<Rightarrow> directory_chain up)"

declare directory_chain.simps [simp del]

definition note_depth :: "nat \<Rightarrow> nat \<Rightarrow> (nat, nat) jsmap \<Rightarrow> (nat, nat) jsmap" where
  "note_depth depth r m = ms_set r (min (case map_of m r of Some d \<Rightarrow> d | None \<Rightarrow> depth) depth) m"

definition inputs_at :: "store_config \<Rightarrow> indexed_scope \<Rightarrow> string \<Rightarrow> nat \<Rightarrow> (nat, nat) jsmap \<Rightarrow> (nat, nat) jsmap" where
  "inputs_at cf sc dir depth m =
     fold (note_depth depth)
       (concat (map (members_at sc)
         ((if depth = 0 then [inputPartition (cf_cwd cf) dir False] else []) @ [inputPartition (cf_cwd cf) dir True]))) m"

fun climb :: "store_config \<Rightarrow> indexed_scope \<Rightarrow> string list \<Rightarrow> nat \<Rightarrow> (nat, nat) jsmap \<Rightarrow> (nat, nat) jsmap" where
  "climb cf sc [] depth m = m"
| "climb cf sc (dir # dirs) depth m = climb cf sc dirs (Suc depth) (inputs_at cf sc dir depth m)"

definition input_owner_depth :: nat where "input_owner_depth = 1024"

definition inputRecords :: "store_config \<Rightarrow> 's \<Rightarrow> string list \<Rightarrow> 's store \<Rightarrow> (nat, nat) jsmap" where
  "inputRecords cf s resources st = (case scope_of st s of
     None \<Rightarrow> []
   | Some sc \<Rightarrow>
       fold (\<lambda>p. climb cf sc (directory_chain (rev (path_segs (cf_cwd cf) p))) 0) resources
         (map (\<lambda>r. (r, input_owner_depth)) (filter (\<lambda>r. ix_inputs (object_at st r)) (ms_vals (sc_entries sc)))))"

definition lookupInputs :: "store_config \<Rightarrow> 's \<Rightarrow> string list \<Rightarrow> 's store \<Rightarrow> store_entry list" where
  "lookupInputs cf s resources st =
     map (\<lambda>(r, d). ix_entry (object_at st r))
       (sort_cmp (\<lambda>(l, a) (r, b). cmp_then (cmp_val a b)
           (cmp_val (ix_recency (object_at st r)) (ix_recency (object_at st l))))
         (inputRecords cf s resources st))"

definition action_paths :: "store_config \<Rightarrow> action_key \<Rightarrow> string list" where
  "action_paths cf a = concat (map (\<lambda>p. case ak_root a of
     Some base \<Rightarrow> [path_resolve (path_resolve (cf_cwd cf) base) p]
   | None \<Rightarrow> if is_absolute p then [path_resolve (cf_cwd cf) p] else []) (ak_resources a))"

definition input_distance :: "nat option \<Rightarrow> real" where
  "input_distance d = of_int (max_safe - 1024) + real (min (case d of Some n \<Rightarrow> n | None \<Rightarrow> 0) input_owner_depth)"

definition match_of ::
  "store_config \<Rightarrow> action_key \<Rightarrow> (nat, nat) jsmap \<Rightarrow> nat list \<Rightarrow> nat \<Rightarrow> store_entry \<Rightarrow> bool \<Rightarrow> action_key_match option" where
  "match_of cf action inputs views r e coverage =
     (case Option.bind (se_key e) (\<lambda>k. actionKeyMatch k action (cf_projectors cf) coverage) of
        Some m \<Rightarrow> Some m
      | None \<Rightarrow> if \<not> coverage \<and> (ms_has inputs r \<or> r \<in> set views)
          then Some (Inputs (input_distance (map_of inputs r))) else None)"

definition view_members :: "'s \<Rightarrow> action_key \<Rightarrow> 's store \<Rightarrow> nat list" where
  "view_members s action st = (case scope_of st s of
     None \<Rightarrow> [] | Some sc \<Rightarrow> members_at sc (view_partition (ak_key action)))"

text \<open>The set of views is captured once and seen as it is at each candidate: a partition that did not exist at
  the capture stays unseen, and one that a callback empties is dropped.  (A callback that empties and refills it at once is
  not told apart from one that keeps it.)\<close>

fun rank_candidates ::
  "store_config \<Rightarrow> 's \<Rightarrow> action_key \<Rightarrow> (nat, nat) jsmap \<Rightarrow> bool \<Rightarrow>
   (store_entry \<Rightarrow> 's store \<Rightarrow> bool \<times> 's store) option \<Rightarrow> nat list \<Rightarrow> 's store \<Rightarrow> candidate_lookup list \<times> 's store" where
  "rank_candidates cf s action inputs viewed cover [] st = ([], st)"
| "rank_candidates cf s action inputs viewed cover (r # rs) st =
     (let e = ix_entry (object_at st r) in
      if record_ref s e st \<noteq> Some r then rank_candidates cf s action inputs viewed cover rs st
      else
        let (coverage, st1) = (case cover of Some f \<Rightarrow> f e st | None \<Rightarrow> (False, st));
            still = (viewed \<and> view_members s action st1 \<noteq> []);
            m = match_of cf action inputs (if still then view_members s action st1 else []) r e coverage;
            (rest, st2) = rank_candidates cf s action inputs still cover rs st1
        in (case m of Some x \<Rightarrow> (\<lparr>lk_entry = e, lk_match = x, lk_indexed = r\<rparr> # rest, st2) | None \<Rightarrow> (rest, st2)))"

definition candidates ::
  "store_config \<Rightarrow> 's \<Rightarrow> action_key \<Rightarrow> string list \<Rightarrow> (nat, nat) jsmap \<Rightarrow> bool \<Rightarrow> 's store \<Rightarrow> nat list" where
  "candidates cf s action partitions inputs includeInputs st = (case scope_of st s of
     None \<Rightarrow> []
   | Some sc \<Rightarrow> uniq (members_at sc (exact_partition action) @ ms_keys inputs @
       (if includeInputs then view_members s action st else []) @ concat (map (members_at sc) partitions)))"

definition lookup_order :: "'s store \<Rightarrow> candidate_lookup \<Rightarrow> candidate_lookup \<Rightarrow> int" where
  "lookup_order st l r = cmp_then (cmp_val (match_distance (lk_match l)) (match_distance (lk_match r)))
     (cmp_val (ix_recency (object_at st (lk_indexed r))) (ix_recency (object_at st (lk_indexed l))))"

definition lookupRecords ::
  "store_config \<Rightarrow> 's \<Rightarrow> action_key \<Rightarrow> string list \<Rightarrow> (store_entry \<Rightarrow> 's store \<Rightarrow> bool \<times> 's store) option \<Rightarrow>
   bool \<Rightarrow> 's store \<Rightarrow> candidate_lookup list \<times> 's store" where
  "lookupRecords cf s action partitions cover includeInputs st =
     (let inputs = (if includeInputs then inputRecords cf s (action_paths cf action) st else []);
          (ranked, st') = rank_candidates cf s action inputs (includeInputs \<and> view_members s action st \<noteq> []) cover
             (candidates cf s action partitions inputs includeInputs st) st in
      (sort_cmp (lookup_order st')
         (filter (\<lambda>l. record_ref s (lk_entry l) st' = Some (lk_indexed l)) ranked), st'))"

definition lookup ::
  "store_config \<Rightarrow> 's \<Rightarrow> action_key \<Rightarrow> (store_entry \<Rightarrow> 's store \<Rightarrow> bool \<times> 's store) option \<Rightarrow> bool \<Rightarrow>
   's store \<Rightarrow> candidate_lookup list \<times> 's store" where
  "lookup cf s action cover includeInputs st =
     lookupRecords cf s action (partitions_of cf action) cover includeInputs st"

subsection \<open>getOrCreate\<close>

fun first_reusable ::
  "'s \<Rightarrow> (store_entry \<Rightarrow> action_key_match \<Rightarrow> 's store \<Rightarrow> bool \<times> 's store) \<Rightarrow>
   candidate_lookup list \<Rightarrow> 's store \<Rightarrow> candidate_lookup option \<times> 's store" where
  "first_reusable s canReuse [] st = (None, st)"
| "first_reusable s canReuse (l # ls) st =
     (if record_ref s (lk_entry l) st \<noteq> Some (lk_indexed l) then first_reusable s canReuse ls st
      else case canReuse (lk_entry l) (lk_match l) st of (ok, st1) \<Rightarrow>
        if \<not> ok \<or> record_ref s (lk_entry l) st1 \<noteq> Some (lk_indexed l) then first_reusable s canReuse ls st1
        else (Some l, st1))"

definition exact_first :: "candidate_lookup \<Rightarrow> candidate_lookup \<Rightarrow> int" where
  "exact_first l r = (if lk_match r = Exact then 1 else 0) - (if lk_match l = Exact then 1 else 0)"

definition getOrCreate ::
  "store_config \<Rightarrow> 's \<Rightarrow> action_key \<Rightarrow> ('s store \<Rightarrow> store_entry \<times> 's store) \<Rightarrow>
   (store_entry \<Rightarrow> action_key_match \<Rightarrow> 's store \<Rightarrow> bool \<times> 's store) \<Rightarrow>
   's store \<Rightarrow> (store_entry \<times> action_key_match \<times> bool) \<times> 's store" where
  "getOrCreate cf s key create canReuse st =
     (let partitions = partitions_of cf key;
          (found, st1) = lookupRecords cf s key partitions None False st in
      case first_reusable s canReuse (sort_cmp exact_first found) st1 of
        (Some l, st2) \<Rightarrow> ((lk_entry l, lk_match l, False), st2)
      | (None, st2) \<Rightarrow>
          let (e, st3) = create st2; (existing, st4) = add_entry s e partitions st3 in
          ((case existing of Some x \<Rightarrow> x | None \<Rightarrow> e, Exact, existing = None), st4))"

subsection \<open>Retention\<close>

record ranked_result =
  rk_entry :: store_entry
  rk_indexed :: nat
  rk_evidence :: cache_evidence
  rk_hot :: nat
  rk_value :: real

definition total_bytes :: "store_entry list \<Rightarrow> real" where
  "total_bytes es = foldl (\<lambda>t e. t + bytes_of e) 0 es"

definition limit_count :: "js_num \<Rightarrow> nat" where
  "limit_count n = nonNegativeCount (JNum n)"

definition within_budget :: "cache_limits \<Rightarrow> nat \<Rightarrow> real \<Rightarrow> bool" where
  "within_budget l n b \<longleftrightarrow> n \<le> limit_count (cl_maxEntries l) \<and> b \<le> real (limit_count (cl_maxBytes l))"

fun rank_results ::
  "store_config \<Rightarrow> real \<Rightarrow> 's \<Rightarrow> (store_entry \<Rightarrow> 's store \<Rightarrow> bool \<times> 's store) \<Rightarrow> store_entry list \<Rightarrow> 's store \<Rightarrow>
   ranked_result list \<times> 's store" where
  "rank_results cf now s canRetire [] st = ([], st)"
| "rank_results cf now s canRetire (e # es) st =
     (case record_ref s e st of
        None \<Rightarrow> rank_results cf now s canRetire es st
      | Some r \<Rightarrow> (case ix_result (object_at st r) of
          None \<Rightarrow> rank_results cf now s canRetire es st
        | Some ev \<Rightarrow>
            let (ok, st1) = canRetire e st; (rest, st2) = rank_results cf now s canRetire es st1 in
            (if ok then \<lparr>rk_entry = e, rk_indexed = r, rk_evidence = ev,
                rk_hot = (if ce_segment ev = Hot then 1 else 0),
                rk_value = nonNegativeFinite (JNum (cf_score cf e ev now))\<rparr> # rest else rest, st2)))"

definition retire_order :: "ranked_result \<Rightarrow> ranked_result \<Rightarrow> int" where
  "retire_order l r = cmp_then (cmp_val (rk_hot l) (rk_hot r)) (cmp_val (rk_value l) (rk_value r))"

fun retire_loop ::
  "cache_limits \<Rightarrow> 's \<Rightarrow> (nat \<Rightarrow> 's store \<Rightarrow> 's store) \<Rightarrow> (store_entry \<Rightarrow> 's store \<Rightarrow> bool \<times> 's store) \<Rightarrow>
   ranked_result list \<Rightarrow> nat \<Rightarrow> real \<Rightarrow> 's store \<Rightarrow> store_entry list \<times> 's store" where
  "retire_loop l s retire canRetire [] count bytes st = ([], st)"
| "retire_loop l s retire canRetire (x # xs) count bytes st =
     (if within_budget l count bytes then ([], st)
      else case canRetire (rk_entry x) st of (ok, st1) \<Rightarrow>
        if \<not> ok \<or> record_ref s (rk_entry x) st1 \<noteq> Some (rk_indexed x) \<or>
           ix_result (object_at st1 (rk_indexed x)) \<noteq> Some (rk_evidence x)
        then retire_loop l s retire canRetire xs count bytes st1
        else case retire_loop l s retire canRetire xs (count - 1) (bytes - bytes_of (rk_entry x)) (retire (rk_indexed x) st1) of
          (retired, st2) \<Rightarrow> (rk_entry x # retired, st2))"

definition retireExcess ::
  "store_config \<Rightarrow> real \<Rightarrow> 's \<Rightarrow> store_entry list \<Rightarrow> cache_limits \<Rightarrow> (nat \<Rightarrow> 's store \<Rightarrow> 's store) \<Rightarrow>
   (store_entry \<Rightarrow> 's store \<Rightarrow> bool \<times> 's store) \<Rightarrow> 's store \<Rightarrow> store_entry list \<times> 's store" where
  "retireExcess cf now s es l retire canRetire st =
     (if within_budget l (length es) (total_bytes es) then ([], st)
      else case rank_results cf now s canRetire es st of (ranked, st1) \<Rightarrow>
        retire_loop l s retire canRetire (sort_cmp retire_order ranked) (length es) (total_bytes es) st1)"

definition always :: "store_entry \<Rightarrow> 's store \<Rightarrow> bool \<times> 's store" where
  "always e st = (True, st)"

definition retire_delete :: "'s \<Rightarrow> nat \<Rightarrow> 's store \<Rightarrow> 's store" where
  "retire_delete s r st = snd (delete_entry s (ix_entry (object_at st r)) st)"

definition trim_results ::
  "store_config \<Rightarrow> real \<Rightarrow> 's \<Rightarrow> cache_limits \<Rightarrow> (store_entry \<Rightarrow> 's store \<Rightarrow> bool \<times> 's store) \<Rightarrow> 's store \<Rightarrow>
   store_entry list \<times> 's store" where
  "trim_results cf now s l canEvict st = retireExcess cf now s (cached s st) l (retire_delete s) canEvict st"

definition finiteFraction :: "js_num \<Rightarrow> real" where
  "finiteFraction v = (case v of Fin x \<Rightarrow> max 0 (min 1 x) | _ \<Rightarrow> 8 / 10)"

definition resultCacheRecency :: "cache_evidence \<Rightarrow> real" where
  "resultCacheRecency ev = (case ce_lastActorHitAt ev of Some t \<Rightarrow> t | None \<Rightarrow> ce_insertedAt ev)"

definition demote :: "nat \<Rightarrow> 's store \<Rightarrow> 's store" where
  "demote r = update_object (\<lambda>ix. ix\<lparr>ix_result :=
     map_option (\<lambda>ev. ev\<lparr>ce_segment := Cold\<rparr>) (ix_result ix)\<rparr>) r"

definition hot_limits :: "cache_limits \<Rightarrow> cache_limits" where
  "hot_limits l =
     (let fraction = finiteFraction (case cl_hotFraction l of Some f \<Rightarrow> f | None \<Rightarrow> Fin (8 / 10));
          cap = limit_count (cl_maxEntries l) in
      \<lparr>cl_maxEntries = Fin (if cap = 0 \<or> fraction = 0 then 0 else max 1 (of_int \<lfloor>real cap * fraction\<rfloor>)),
       cl_maxBytes = Fin (of_int \<lfloor>real (limit_count (cl_maxBytes l)) * fraction\<rfloor>),
       cl_hotFraction = None\<rparr>)"

definition is_hot :: "'s \<Rightarrow> 's store \<Rightarrow> store_entry \<Rightarrow> bool" where
  "is_hot s st e = (case record_ref s e st of
     None \<Rightarrow> False
   | Some r \<Rightarrow> (case ix_result (object_at st r) of Some ev \<Rightarrow> ce_segment ev = Hot | None \<Rightarrow> False))"

definition recordActorHit ::
  "store_config \<Rightarrow> real \<Rightarrow> 's \<Rightarrow> store_entry \<Rightarrow> cache_limits option \<Rightarrow> 's store \<Rightarrow> store_entry list \<times> 's store" where
  "recordActorHit cf now s e limits st = (case record_ref s e st of
     None \<Rightarrow> ([], st)
   | Some r \<Rightarrow> (case ix_result (object_at st r) of
       None \<Rightarrow> ([], st)
     | Some ev \<Rightarrow>
         let st1 = (update_object (\<lambda>ix. ix\<lparr>ix_result := Some (ev\<lparr>ce_segment := Hot,
                 ce_actorHits := Suc (ce_actorHits ev), ce_lastActorHitAt := Some now\<rparr>),
               ix_recency := cs_sequence st\<rparr>) r st)\<lparr>cs_sequence := Suc (cs_sequence st)\<rparr> in
         (case limits of
            None \<Rightarrow> ([], st1)
          | Some l \<Rightarrow> retireExcess cf now s (filter (is_hot s st1) (cached s st1)) (hot_limits l) demote always st1)))"

definition count_result :: "cache_snapshot \<Rightarrow> store_entry \<times> cache_evidence \<Rightarrow> cache_snapshot" where
  "count_result x ev = (case ev of (e, v) \<Rightarrow>
     if ce_segment v = Hot then x\<lparr>ss_hotEntries := Suc (ss_hotEntries x), ss_hotBytes := ss_hotBytes x + bytes_of e\<rparr>
     else x\<lparr>ss_coldEntries := Suc (ss_coldEntries x), ss_coldBytes := ss_coldBytes x + bytes_of e\<rparr>)"

definition snapshot :: "'s \<Rightarrow> (store_entry \<Rightarrow> bool) \<Rightarrow> 's store \<Rightarrow> cache_snapshot" where
  "snapshot s include st = foldl count_result
     \<lparr>ss_coldEntries = 0, ss_hotEntries = 0, ss_coldBytes = 0, ss_hotBytes = 0\<rparr>
     (concat (map (\<lambda>r. case ix_result (object_at st r) of
        Some v \<Rightarrow> if include (ix_entry (object_at st r)) then [(ix_entry (object_at st r), v)] else []
      | None \<Rightarrow> []) (registered s st)))"

subsection \<open>Coherence of the index\<close>

text \<open>
  A registration is a member of exactly the partitions it lists, a partition that exists has a member,
  and a registration belongs to one scope.
\<close>

definition parts_ok :: "indexed_scope \<Rightarrow> bool" where
  "parts_ok sc \<longleftrightarrow> ms_wf (sc_partitions sc) \<and> (\<forall>(k, ms) \<in> set (sc_partitions sc). ms \<noteq> [] \<and> distinct ms)"

definition entries_ok :: "(nat \<Rightarrow> indexed_entry option) \<Rightarrow> indexed_scope \<Rightarrow> bool" where
  "entries_ok objs sc \<longleftrightarrow> ms_wf (sc_entries sc) \<and> distinct (ms_vals (sc_entries sc)) \<and>
     (\<forall>(i, r) \<in> set (sc_entries sc). \<exists>ix. objs r = Some ix \<and> se_id (ix_entry ix) = i)"

definition linked :: "(nat \<Rightarrow> indexed_entry option) \<Rightarrow> indexed_scope \<Rightarrow> bool" where
  "linked objs sc \<longleftrightarrow> (\<forall>r k. r \<in> set (members_at sc k) \<longleftrightarrow>
     r \<in> set (ms_vals (sc_entries sc)) \<and> k \<in> set (ix_memberships (the (objs r))))"

definition scope_ok :: "(nat \<Rightarrow> indexed_entry option) \<Rightarrow> indexed_scope \<Rightarrow> bool" where
  "scope_ok objs sc \<longleftrightarrow> entries_ok objs sc \<and> parts_ok sc \<and> linked objs sc"

definition store_ok :: "'s store \<Rightarrow> bool" where
  "store_ok st \<longleftrightarrow> ms_wf (cs_scopes st) \<and>
     (\<forall>(s, sc) \<in> set (cs_scopes st). sc_entries sc \<noteq> [] \<and> scope_ok (cs_objects st) sc \<and>
        (\<forall>r \<in> set (ms_vals (sc_entries sc)). r < cs_next st)) \<and>
     (\<forall>s s' sc sc'. (s, sc) \<in> set (cs_scopes st) \<longrightarrow> (s', sc') \<in> set (cs_scopes st) \<longrightarrow> s \<noteq> s' \<longrightarrow>
        set (ms_vals (sc_entries sc)) \<inter> set (ms_vals (sc_entries sc')) = {})"

lemma set_set_add [simp]: "set (set_add x xs) = insert x (set xs)"
  by (auto simp: set_add_def)

lemma set_set_del [simp]: "set (set_del x xs) = set xs - {x}"
  by (auto simp: set_del_def)

lemma distinct_set_add [simp]: "distinct xs \<Longrightarrow> distinct (set_add x xs)"
  by (auto simp: set_add_def)

lemma distinct_set_del [simp]: "distinct xs \<Longrightarrow> distinct (set_del x xs)"
  by (simp add: set_del_def)

lemma set_add_nonempty [simp]: "set_add x xs \<noteq> []"
  by (auto simp: set_add_def)

lemma members_distinct: "parts_ok sc \<Longrightarrow> distinct (members_at sc k)"
  by (auto simp: parts_ok_def members_at_def or_none_def dest!: map_of_SomeD split: option.splits)

lemma index_one:
  assumes "parts_ok sc"
  shows "parts_ok (index_key k r sc)" and "sc_entries (index_key k r sc) = sc_entries sc"
    and "members_at (index_key k r sc) j = (if j = k then set_add r (members_at sc k) else members_at sc j)"
  using assms members_distinct [OF assms, of k] set_ms_set [of "sc_partitions sc" k]
  by (auto simp: index_key_def parts_ok_def members_at_def or_none_def)

lemma unindex_one:
  assumes "parts_ok sc"
  shows "parts_ok (unindex_key k r sc)" and "sc_entries (unindex_key k r sc) = sc_entries sc"
    and "members_at (unindex_key k r sc) j = (if j = k then set_del r (members_at sc k) else members_at sc j)"
  using assms members_distinct [OF assms, of k] set_ms_set [of "sc_partitions sc" k]
  by (auto simp: unindex_key_def parts_ok_def members_at_def or_none_def Let_def)

lemma index_keys_effect:
  assumes "index_keys ks r (sc, ix) = (sc', ix')" and "parts_ok sc"
  shows "parts_ok sc' \<and> sc_entries sc' = sc_entries sc \<and>
    (\<forall>j. set (members_at sc' j) = set (members_at sc j) \<union> (if j \<in> set ks then {r} else {})) \<and>
    set (ix_memberships ix') = set (ix_memberships ix) \<union> set ks \<and>
    ix'\<lparr>ix_memberships := ix_memberships ix\<rparr> = ix"
  using assms
proof (induction ks arbitrary: sc ix)
  case (Cons k ks)
  let ?sc = "index_key k r sc"
  let ?ix = "ix\<lparr>ix_memberships := set_add k (ix_memberships ix)\<rparr>"
  have "parts_ok ?sc" and eff: "\<And>j. members_at ?sc j = (if j = k then set_add r (members_at sc k) else members_at sc j)"
    using index_one [OF Cons.prems(2)] by auto
  then have IH: "parts_ok sc' \<and> sc_entries sc' = sc_entries ?sc \<and>
    (\<forall>j. set (members_at sc' j) = set (members_at ?sc j) \<union> (if j \<in> set ks then {r} else {})) \<and>
    set (ix_memberships ix') = set (ix_memberships ?ix) \<union> set ks \<and>
    ix'\<lparr>ix_memberships := ix_memberships ?ix\<rparr> = ?ix"
    using Cons.IH [of ?sc ?ix] Cons.prems(1) by simp
  then have "ix'\<lparr>ix_memberships := ix_memberships ix\<rparr> = ix"
    by (cases ix; cases ix') (auto simp: indexed_entry.defs)
  with IH eff index_one(2) [OF Cons.prems(2)] show ?case by auto
qed auto

lemma unindex_keys_effect:
  assumes "unindex_keys ks r (sc, ix) = (sc', ix')" and "parts_ok sc"
  shows "parts_ok sc' \<and> sc_entries sc' = sc_entries sc \<and>
    (\<forall>j. set (members_at sc' j) = set (members_at sc j) - (if j \<in> set ks then {r} else {})) \<and>
    set (ix_memberships ix') = set (ix_memberships ix) - set ks \<and>
    ix'\<lparr>ix_memberships := ix_memberships ix\<rparr> = ix"
  using assms
proof (induction ks arbitrary: sc ix)
  case (Cons k ks)
  let ?ms = "set_del r (members_at sc k)" and ?sc = "unindex_key k r sc"
  let ?ix = "ix\<lparr>ix_memberships := set_del k (ix_memberships ix)\<rparr>"
  have "parts_ok ?sc" and eff: "\<And>j. members_at ?sc j = (if j = k then ?ms else members_at sc j)"
    using unindex_one [OF Cons.prems(2)] by auto
  then have IH: "parts_ok sc' \<and> sc_entries sc' = sc_entries ?sc \<and>
    (\<forall>j. set (members_at sc' j) = set (members_at ?sc j) - (if j \<in> set ks then {r} else {})) \<and>
    set (ix_memberships ix') = set (ix_memberships ?ix) - set ks \<and>
    ix'\<lparr>ix_memberships := ix_memberships ?ix\<rparr> = ?ix"
    using Cons.IH [of ?sc ?ix] Cons.prems(1) by (simp add: Let_def)
  then have "ix'\<lparr>ix_memberships := ix_memberships ix\<rparr> = ix"
    by (cases ix; cases ix') (auto simp: indexed_entry.defs)
  with IH eff unindex_one(2) [OF Cons.prems(2)] show ?case by auto
qed auto

lemma store_okD:
  assumes "store_ok st" and "scope_of st s = Some sc"
  shows "sc_entries sc \<noteq> []" and "scope_ok (cs_objects st) sc" and "r \<in> set (ms_vals (sc_entries sc)) \<Longrightarrow> r < cs_next st"
  using assms by (auto simp: store_ok_def scope_of_def dest!: map_of_SomeD)

lemma entries_ok_objs:
  assumes "entries_ok objs sc"
    and "\<And>r. r \<in> set (ms_vals (sc_entries sc)) \<Longrightarrow> map_option ix_entry (objs' r) = map_option ix_entry (objs r)"
  shows "entries_ok objs' sc"
  unfolding entries_ok_def
proof (intro conjI)
  show "\<forall>(i, r) \<in> set (sc_entries sc). \<exists>ix. objs' r = Some ix \<and> se_id (ix_entry ix) = i"
  proof safe
    fix i r
    assume ir: "(i, r) \<in> set (sc_entries sc)"
    then obtain ix where ix: "objs r = Some ix" "se_id (ix_entry ix) = i"
      using assms(1) by (auto simp: entries_ok_def)
    moreover have "r \<in> set (ms_vals (sc_entries sc))" using ir by force
    ultimately have "map_option ix_entry (objs' r) = Some (ix_entry ix)" using assms(2) by simp
    with ix(2) show "\<exists>ix. objs' r = Some ix \<and> se_id (ix_entry ix) = i" by auto
  qed
qed (use assms(1) in \<open>simp_all add: entries_ok_def\<close>)

lemma scope_ok_objs:
  assumes "scope_ok objs sc"
    and "\<And>r. r \<in> set (ms_vals (sc_entries sc)) \<Longrightarrow> objs' r = objs r"
  shows "scope_ok objs' sc"
proof -
  have "linked objs sc" using assms(1) by (simp add: scope_ok_def)
  then have "linked objs' sc" unfolding linked_def using assms(2) by metis
  with assms entries_ok_objs [of objs sc objs'] show ?thesis by (simp add: scope_ok_def)
qed

text \<open>Every update of the model touches one scope and one registration of that scope.\<close>

lemma store_ok_update:
  assumes st: "store_ok st" and sc: "scope_of st s = Some sc" and r: "r \<in> set (ms_vals (sc_entries sc))"
    and entries: "sc_entries sc' = sc_entries sc" and ok: "scope_ok ((cs_objects st)(r \<mapsto> ix)) sc'"
    and obs: "cs_scopes st' = ms_set s sc' (cs_scopes st)" "cs_objects st' = (cs_objects st)(r \<mapsto> ix)"
      "cs_next st' = cs_next st"
  shows "store_ok st'"
proof -
  have wf: "ms_wf (cs_scopes st)" using st by (simp add: store_ok_def)
  have in_sc: "(s, sc) \<in> set (cs_scopes st)" using sc wf by (simp add: scope_of_def map_of_in_set_iff)
  have mem: "(t, x) \<in> set (cs_scopes st') \<longleftrightarrow> (t = s \<and> x = sc') \<or> t \<noteq> s \<and> (t, x) \<in> set (cs_scopes st)" for t x
    using set_ms_set [OF wf, of s sc'] obs(1) by auto
  have other: "r \<notin> set (ms_vals (sc_entries x))" if "(t, x) \<in> set (cs_scopes st)" "t \<noteq> s" for t x
    using st in_sc that r unfolding store_ok_def by blast
  have "scope_ok (cs_objects st') x" if "(t, x) \<in> set (cs_scopes st)" "t \<noteq> s" for t x
  proof (rule scope_ok_objs)
    show "scope_ok (cs_objects st) x" using st that by (auto simp: store_ok_def)
    show "cs_objects st' q = cs_objects st q" if "q \<in> set (ms_vals (sc_entries x))" for q
      using other [OF \<open>(t, x) \<in> _\<close> \<open>t \<noteq> s\<close>] that obs(2) by auto
  qed
  moreover have "sc_entries sc' \<noteq> []" "\<And>q. q \<in> set (ms_vals (sc_entries sc')) \<Longrightarrow> q < cs_next st'"
    using store_okD [OF st sc] entries obs(3) by auto
  moreover have "set (ms_vals (sc_entries x)) \<inter> set (ms_vals (sc_entries y)) = {}"
    if "(t, x) \<in> set (cs_scopes st')" "(u, y) \<in> set (cs_scopes st')" "t \<noteq> u" for t x u y
  proof -
    define old where "old v z = (if v = s then sc else z)" for v z
    have "(t, old t x) \<in> set (cs_scopes st)" "(u, old u y) \<in> set (cs_scopes st)"
      using that mem in_sc by (auto simp: old_def)
    moreover have "sc_entries (old t x) = sc_entries x" "sc_entries (old u y) = sc_entries y"
      using that mem entries by (auto simp: old_def)
    moreover have "\<And>s s' sc sc'. (s, sc) \<in> set (cs_scopes st) \<Longrightarrow> (s', sc') \<in> set (cs_scopes st) \<Longrightarrow> s \<noteq> s' \<Longrightarrow>
        set (ms_vals (sc_entries sc)) \<inter> set (ms_vals (sc_entries sc')) = {}"
      using st unfolding store_ok_def by blast
    ultimately show ?thesis using that(3) by metis
  qed
  moreover have "ms_wf (cs_scopes st')" using wf obs(1) by simp
  moreover have base: "sc_entries x \<noteq> [] \<and> (\<forall>q \<in> set (ms_vals (sc_entries x)). q < cs_next st)"
    if "(t, x) \<in> set (cs_scopes st)" for t x
    using st that unfolding store_ok_def by blast
  moreover have "sc_entries x \<noteq> [] \<and> scope_ok (cs_objects st') x \<and> (\<forall>q \<in> set (ms_vals (sc_entries x)). q < cs_next st')"
    if "(t, x) \<in> set (cs_scopes st')" for t x
    using that calculation(1-4) base [of t x] mem [of t x] ok obs(2,3) by (cases "t = s") auto
  ultimately show ?thesis unfolding store_ok_def by fast
qed

lemma object_entries:
  assumes "scope_ok objs sc" and "r \<in> set (ms_vals (sc_entries sc))"
  shows "\<exists>ix. objs r = Some ix"
  using assms by (auto simp: scope_ok_def entries_ok_def)

lemma keys_keep_ok:
  assumes "scope_ok objs sc" and "r \<in> set (ms_vals (sc_entries sc))" and "objs r = Some ix"
    and "f = index_keys ks r \<or> f = unindex_keys ks r" and "f (sc, ix) = (sc', ix')"
  shows "scope_ok (objs(r \<mapsto> ix')) sc' \<and> sc_entries sc' = sc_entries sc \<and> ix'\<lparr>ix_memberships := ix_memberships ix\<rparr> = ix"
proof -
  have parts: "parts_ok sc" using assms(1) by (simp add: scope_ok_def)
  have eff: "parts_ok sc'" "sc_entries sc' = sc_entries sc" "ix'\<lparr>ix_memberships := ix_memberships ix\<rparr> = ix"
    using assms(4,5) index_keys_effect [OF _ parts] unindex_keys_effect [OF _ parts] by blast+
  have "ix_entry ix' = ix_entry ix" using eff(3) by (metis indexed_entry.select_convs(1) indexed_entry.surjective indexed_entry.update_convs(2))
  then have "entries_ok (objs(r \<mapsto> ix')) sc'"
    using entries_ok_objs [of objs sc "objs(r \<mapsto> ix')"] assms(1,3) eff(2) by (auto simp: scope_ok_def entries_ok_def)
  moreover have "linked (objs(r \<mapsto> ix')) sc'"
    using assms(4)
  proof
    assume "f = index_keys ks r"
    with index_keys_effect [OF _ parts, of ks r ix sc' ix'] assms show ?thesis
      by (auto simp: linked_def scope_ok_def split: if_splits)
  next
    assume "f = unindex_keys ks r"
    with unindex_keys_effect [OF _ parts, of ks r ix sc' ix'] assms show ?thesis
      by (auto simp: linked_def scope_ok_def split: if_splits)
  qed
  ultimately show ?thesis using eff by (simp add: scope_ok_def)
qed

lemma ms_set_same: "map_of m k = Some v \<Longrightarrow> ms_set k v m = m"
  by (induction k v m rule: ms_set.induct) (auto split: if_splits)

lemma store_ok_frame:
  assumes "store_ok st" and "cs_scopes st' = cs_scopes st" and "cs_objects st' = cs_objects st" and "cs_next st \<le> cs_next st'"
  shows "store_ok st'"
proof -
  have each: "sc_entries sc \<noteq> [] \<and> scope_ok (cs_objects st) sc \<and> (\<forall>r \<in> set (ms_vals (sc_entries sc)). r < cs_next st)"
    if "(s, sc) \<in> set (cs_scopes st)" for s sc
    using assms(1) that unfolding store_ok_def by blast
  have "\<forall>r \<in> set (ms_vals (sc_entries sc)). r < cs_next st'" if "(s, sc) \<in> set (cs_scopes st)" for s sc
    using each [OF that] assms(4) by (meson order_less_le_trans)
  with each assms(1) show ?thesis unfolding store_ok_def assms(2,3) by fast
qed

lemma notify_frame [simp]:
  "cs_scopes (notify s c st) = cs_scopes st" "cs_objects (notify s c st) = cs_objects st"
  "cs_next (notify s c st) = cs_next st" "cs_sequence (notify s c st) = cs_sequence st"
  by (simp_all add: notify_def)

lemma store_ok_notify [simp]: "store_ok (notify s c st) = store_ok st"
  by (auto intro: store_ok_frame)

lemma record_registered:
  assumes "store_ok st" and "record_ref s e st = Some r"
  obtains sc ix where "scope_of st s = Some sc" "r \<in> set (ms_vals (sc_entries sc))" "cs_objects st r = Some ix"
    "(se_id e, r) \<in> set (sc_entries sc)" "ix_entry ix = ix_entry (object_at st r)" "se_ref (ix_entry ix) = se_ref e"
proof -
  obtain sc where sc: "scope_of st s = Some sc" and r: "map_of (sc_entries sc) (se_id e) = Some r"
    and ref: "se_ref (ix_entry (object_at st r)) = se_ref e"
    using assms(2) by (auto simp: record_ref_def get_ref_def split: option.splits if_splits)
  have mem: "(se_id e, r) \<in> set (sc_entries sc)" using r by (rule map_of_SomeD)
  then have "r \<in> set (ms_vals (sc_entries sc))" by force
  moreover from this obtain ix where "cs_objects st r = Some ix"
    using object_entries [OF store_okD(2) [OF assms(1) sc]] by blast
  ultimately show ?thesis using that sc mem ref by (simp add: object_at_def)
qed

lemma store_ok_keys:
  assumes "store_ok st" and "scope_of st s = Some sc" and "r \<in> set (ms_vals (sc_entries sc))"
    and "f = index_keys ks r \<or> f = unindex_keys ks r"
  shows "store_ok (with_indexed f s r st)"
proof -
  obtain ix where ix: "cs_objects st r = Some ix"
    using object_entries [OF store_okD(2) [OF assms(1,2)] assms(3)] by blast
  obtain sc' ix' where eq: "f (sc, ix) = (sc', ix')" by (cases "f (sc, ix)")
  from keys_keep_ok [OF store_okD(2) [OF assms(1,2)] assms(3) ix assms(4) eq]
  have "scope_ok ((cs_objects st)(r \<mapsto> ix')) sc'" "sc_entries sc' = sc_entries sc" by blast+
  moreover have "with_indexed f s r st = put_scope s sc' (put_object r ix' st)"
    using assms(2) ix eq by (simp add: with_indexed_def object_at_def)
  ultimately show ?thesis
    using store_ok_update [OF assms(1-3), of sc' ix'] by (simp add: put_scope_def put_object_def)
qed

lemma with_indexed_frame:
  assumes "store_ok st" and "scope_of st s = Some sc" and "r \<in> set (ms_vals (sc_entries sc))"
    and "f = index_keys ks r \<or> f = unindex_keys ks r"
  obtains sc' where "scope_of (with_indexed f s r st) s = Some sc'" "sc_entries sc' = sc_entries sc"
proof -
  obtain ix where ix: "cs_objects st r = Some ix"
    using object_entries [OF store_okD(2) [OF assms(1,2)] assms(3)] by blast
  obtain sc' ix' where eq: "f (sc, ix) = (sc', ix')" by (cases "f (sc, ix)")
  from keys_keep_ok [OF store_okD(2) [OF assms(1,2)] assms(3) ix assms(4) eq]
  have "sc_entries sc' = sc_entries sc" by blast
  then show ?thesis using that assms(2) ix eq
    by (simp add: with_indexed_def object_at_def scope_of_def put_scope_def put_object_def)
qed

lemma store_ok_object:
  assumes "store_ok st" and "scope_of st s = Some sc" and "r \<in> set (ms_vals (sc_entries sc))"
    and "\<And>ix. ix_entry (f ix) = ix_entry ix \<and> ix_memberships (f ix) = ix_memberships ix"
  shows "store_ok (update_object f r st)"
proof -
  obtain ix where ix: "cs_objects st r = Some ix"
    using object_entries [OF store_okD(2) [OF assms(1,2)] assms(3)] by blast
  have "scope_ok ((cs_objects st)(r \<mapsto> f ix)) sc"
    using store_okD(2) [OF assms(1,2)] ix assms(4) entries_ok_objs [of "cs_objects st" sc "(cs_objects st)(r \<mapsto> f ix)"]
    by (auto simp: scope_ok_def linked_def)
  moreover have "ms_set s sc (cs_scopes st) = cs_scopes st"
    using assms(2) by (simp add: scope_of_def ms_set_same)
  ultimately show ?thesis
    using store_ok_update [OF assms(1-3), of sc "f ix" "update_object f r st"] ix
    by (simp add: update_object_def put_object_def object_at_def)
qed

lemma update_object_scope [simp]: "scope_of (update_object f r st) s = scope_of st s"
  by (simp add: update_object_def put_object_def scope_of_def)

subsection \<open>Every operation keeps the index coherent\<close>

lemma new_scope_ok:
  "scope_ok objs \<lparr>sc_entries = [], sc_partitions = []\<rparr>"
  by (auto simp: scope_ok_def entries_ok_def parts_ok_def linked_def members_at_def or_none_def)

lemma store_ok_add: "store_ok st \<Longrightarrow> store_ok (snd (add_entry s e ps st))"
proof -
  assume st: "store_ok st"
  define sc where "sc = (case scope_of st s of Some sc \<Rightarrow> sc | None \<Rightarrow> \<lparr>sc_entries = [], sc_partitions = []\<rparr>)"
  have sc_ok: "scope_ok (cs_objects st) sc" and old: "\<And>r. r \<in> set (ms_vals (sc_entries sc)) \<Longrightarrow> r < cs_next st"
    using store_okD [OF st] new_scope_ok by (auto simp: sc_def split: option.splits)
  show ?thesis
  proof (cases "map_of (sc_entries sc) (se_id e)")
    case (Some r)
    then show ?thesis using st by (simp add: add_entry_def sc_def [symmetric] Let_def)
  next
    case None
    define r where "r = cs_next st"
    define ix where "ix = \<lparr>ix_entry = e, ix_memberships = [], ix_inputs = False, ix_recency = cs_sequence st, ix_result = None\<rparr>"
    define sc1 where "sc1 = sc\<lparr>sc_entries := ms_set (se_id e) r (sc_entries sc)\<rparr>"
    obtain sc' ix' where eq: "index_keys (entry_partitions e ps) r (sc1, ix) = (sc', ix')"
      by (cases "index_keys (entry_partitions e ps) r (sc1, ix)")
    have fresh: "r \<notin> set (ms_vals (sc_entries sc))" using old by (auto simp: r_def)
    have new: "sc_entries sc1 = sc_entries sc @ [(se_id e, r)]"
      using None by (simp add: sc1_def ms_set_new map_of_eq_None_iff)
    have members: "members_at sc1 k = members_at sc k" for k by (simp add: sc1_def members_at_def)
    have "entries_ok ((cs_objects st)(r \<mapsto> ix)) sc"
    proof (rule entries_ok_objs)
      show "entries_ok (cs_objects st) sc" using sc_ok by (simp add: scope_ok_def)
      show "map_option ix_entry (((cs_objects st)(r \<mapsto> ix)) q) = map_option ix_entry (cs_objects st q)"
        if "q \<in> set (ms_vals (sc_entries sc))" for q
        using that fresh by (cases "q = r") auto
    qed
    then have "entries_ok ((cs_objects st)(r \<mapsto> ix)) sc1"
      using new fresh None by (auto simp: entries_ok_def ms_wf_def ix_def map_of_eq_None_iff)
    moreover have "linked ((cs_objects st)(r \<mapsto> ix)) sc1"
      using sc_ok fresh new members by (auto simp: scope_ok_def linked_def ix_def)
    moreover have "parts_ok sc1" using sc_ok by (simp add: scope_ok_def parts_ok_def sc1_def)
    ultimately have "scope_ok ((cs_objects st)(r \<mapsto> ix)) sc1" by (simp add: scope_ok_def)
    from keys_keep_ok [OF this, of r ix _ "entry_partitions e ps" sc' ix'] eq new
    have ok': "scope_ok ((cs_objects st)(r \<mapsto> ix')) sc'" "sc_entries sc' = sc_entries sc @ [(se_id e, r)]"
      by auto
    define st' where "st' = put_scope s sc' (put_object r ix' (st\<lparr>cs_next := Suc r, cs_sequence := Suc (cs_sequence st)\<rparr>))"
    have out: "snd (add_entry s e ps st) = notify s True st'"
      using None eq unfolding add_entry_def sc_def [symmetric] Let_def sc1_def ix_def r_def st'_def by simp
    have wf: "ms_wf (cs_scopes st)" using st by (simp add: store_ok_def)
    have mem: "(t, x) \<in> set (cs_scopes st') \<longleftrightarrow> (t = s \<and> x = sc') \<or> t \<noteq> s \<and> (t, x) \<in> set (cs_scopes st)" for t x
      using set_ms_set [OF wf, of s sc'] by (auto simp: st'_def put_scope_def put_object_def)
    have base: "sc_entries x \<noteq> [] \<and> scope_ok (cs_objects st) x \<and> (\<forall>q \<in> set (ms_vals (sc_entries x)). q < r)"
      if "(t, x) \<in> set (cs_scopes st)" for t x
      using st that unfolding store_ok_def r_def by blast
    have "scope_ok (cs_objects st') x" if "(t, x) \<in> set (cs_scopes st)" for t x
      by (rule scope_ok_objs [of "cs_objects st"])
        (use base [OF that] in \<open>auto simp: st'_def put_scope_def put_object_def\<close>)
    then have each: "sc_entries x \<noteq> [] \<and> scope_ok (cs_objects st') x \<and> (\<forall>q \<in> set (ms_vals (sc_entries x)). q < cs_next st')"
      if "(t, x) \<in> set (cs_scopes st')" for t x
      using that mem [of t x] base [of t x] ok' old
      by (cases "t = s") (auto simp: st'_def put_scope_def put_object_def r_def less_Suc_eq)
    have disj: "set (ms_vals (sc_entries x)) \<inter> set (ms_vals (sc_entries y)) = {}"
      if "(t, x) \<in> set (cs_scopes st)" "(u, y) \<in> set (cs_scopes st)" "t \<noteq> u" for t x u y
      using st that unfolding store_ok_def by blast
    have new_disj: "set (ms_vals (sc_entries sc')) \<inter> set (ms_vals (sc_entries y)) = {}"
      if "(u, y) \<in> set (cs_scopes st)" "u \<noteq> s" for u y
    proof -
      have "set (ms_vals (sc_entries sc)) \<inter> set (ms_vals (sc_entries y)) = {}"
      proof (cases "scope_of st s")
        case None
        then show ?thesis by (simp add: sc_def)
      next
        case (Some x)
        then have "(s, sc) \<in> set (cs_scopes st)" by (auto simp: sc_def scope_of_def dest: map_of_SomeD)
        from disj [OF this that(1)] that(2) show ?thesis by simp
      qed
      with base [OF that(1)] ok'(2) show ?thesis by auto
    qed
    have "set (ms_vals (sc_entries x)) \<inter> set (ms_vals (sc_entries y)) = {}"
      if "(t, x) \<in> set (cs_scopes st')" "(u, y) \<in> set (cs_scopes st')" "t \<noteq> u" for t x u y
      using that mem disj [of t x u y] new_disj [of u y] new_disj [of t x] by (metis inf_commute)
    with each have "store_ok st'"
      using wf unfolding store_ok_def by (auto simp: st'_def put_scope_def put_object_def)
    then show ?thesis by (simp add: out)
  qed
qed

lemma store_ok_insert: "store_ok st \<Longrightarrow> store_ok (snd (insert_entry cf s e st))"
  by (auto simp: insert_entry_def store_ok_add split: option.splits)

lemma key_val_unique:
  assumes "ms_wf m" "distinct (ms_vals m)" "(i, r) \<in> set m" "(a, b) \<in> set m"
  shows "b = r \<longleftrightarrow> a = i"
  using assms inj_onD [of fst "set m" "(i, r)" "(a, b)"] inj_onD [of snd "set m" "(i, r)" "(a, b)"]
  by (auto simp: ms_wf_def distinct_map)

text \<open>Taking a registration out of a scope: its entry and all its memberships.\<close>

lemma remove_registration:
  assumes "scope_ok objs sc" and "(i, r) \<in> set (sc_entries sc)" and "objs r = Some ix"
    and "unindex_keys (ix_memberships ix) r (sc\<lparr>sc_entries := ms_del i (sc_entries sc)\<rparr>, ix) = (sc', ix')"
  shows "scope_ok (objs(r \<mapsto> ix')) sc' \<and> sc_entries sc' = ms_del i (sc_entries sc)"
proof -
  let ?sc = "sc\<lparr>sc_entries := ms_del i (sc_entries sc)\<rparr>"
  have ok: "entries_ok objs sc" "parts_ok sc" "linked objs sc" using assms(1) by (simp_all add: scope_ok_def)
  have parts: "parts_ok ?sc" using ok(2) by (simp add: parts_ok_def)
  note eff = unindex_keys_effect [OF assms(4) parts]
  have others: "set (ms_vals (ms_del i (sc_entries sc))) = set (ms_vals (sc_entries sc)) - {r}"
  proof -
    have "distinct (ms_vals (sc_entries sc))" "ms_wf (sc_entries sc)"
      using ok(1) by (simp_all add: entries_ok_def)
    then have key: "b = r \<longleftrightarrow> a = i" if "(a, b) \<in> set (sc_entries sc)" for a b
      using key_val_unique assms(2) that by metis
    show ?thesis
    proof (rule set_eqI)
      fix q
      have "q \<in> set (ms_vals (ms_del i (sc_entries sc))) \<longleftrightarrow> (\<exists>a. (a, q) \<in> set (sc_entries sc) \<and> a \<noteq> i)"
        by force
      also have "\<dots> \<longleftrightarrow> (\<exists>a. (a, q) \<in> set (sc_entries sc)) \<and> q \<noteq> r"
        using key assms(2) by blast
      also have "\<dots> \<longleftrightarrow> q \<in> set (ms_vals (sc_entries sc)) - {r}"
        by force
      finally show "q \<in> set (ms_vals (ms_del i (sc_entries sc))) \<longleftrightarrow> q \<in> set (ms_vals (sc_entries sc)) - {r}" .
    qed
  qed
  have "entries_ok objs ?sc"
    unfolding entries_ok_def
  proof (intro conjI)
    show "distinct (ms_vals (sc_entries ?sc))"
      using ok(1) by (simp add: entries_ok_def ms_del_def distinct_map_filter)
    show "\<forall>(j, q) \<in> set (sc_entries ?sc). \<exists>ix. objs q = Some ix \<and> se_id (ix_entry ix) = j"
      using ok(1) unfolding entries_ok_def by simp
  qed (use ok(1) in \<open>simp add: entries_ok_def\<close>)
  then have "entries_ok (objs(r \<mapsto> ix')) ?sc"
  proof (rule entries_ok_objs)
    show "map_option ix_entry ((objs(r \<mapsto> ix')) q) = map_option ix_entry (objs q)"
      if "q \<in> set (ms_vals (sc_entries ?sc))" for q
    proof -
      have "q \<noteq> r" using that others by simp
      then show ?thesis by simp
    qed
  qed
  moreover have "linked (objs(r \<mapsto> ix')) sc'"
    unfolding linked_def
  proof (intro allI)
    fix q k
    have "members_at ?sc k = members_at sc k" by (simp add: members_at_def)
    with eff have "q \<in> set (members_at sc' k) \<longleftrightarrow> q \<in> set (members_at sc k) \<and> \<not> (k \<in> set (ix_memberships ix) \<and> q = r)"
      by auto
    also have "\<dots> \<longleftrightarrow> q \<in> set (ms_vals (sc_entries sc)) - {r} \<and> k \<in> set (ix_memberships (the (objs q)))"
      using ok(3) assms(3) unfolding linked_def by auto
    finally show "q \<in> set (members_at sc' k) \<longleftrightarrow>
        q \<in> set (ms_vals (sc_entries sc')) \<and> k \<in> set (ix_memberships (the ((objs(r \<mapsto> ix')) q)))"
      using eff others by auto
  qed
  ultimately show ?thesis using eff by (simp add: scope_ok_def entries_ok_def)
qed

lemma store_ok_delete: "store_ok st \<Longrightarrow> store_ok (snd (delete_entry s e st))"
proof -
  assume st: "store_ok st"
  show ?thesis
  proof (cases "record_ref s e st")
    case None
    then show ?thesis using st by (simp add: delete_entry_def)
  next
    case (Some r)
    from record_registered [OF st Some] obtain sc ix where
      sc: "scope_of st s = Some sc" "r \<in> set (ms_vals (sc_entries sc))" "cs_objects st r = Some ix" "(se_id e, r) \<in> set (sc_entries sc)"
      by metis
    obtain sc' ix' where eq: "unindex_keys (ix_memberships ix) r (sc\<lparr>sc_entries := ms_del (se_id e) (sc_entries sc)\<rparr>, ix) = (sc', ix')"
      by (cases "unindex_keys (ix_memberships ix) r (sc\<lparr>sc_entries := ms_del (se_id e) (sc_entries sc)\<rparr>, ix)")
    define st' where "st' = put_scope s sc' (put_object r ix' st)"
    have out: "snd (delete_entry s e st) = notify s True
        (if sc_entries sc' = [] then st'\<lparr>cs_scopes := ms_del s (cs_scopes st')\<rparr> else st')"
      using Some sc(1,3) eq by (simp add: delete_entry_def object_at_def st'_def Let_def)
    from remove_registration [OF store_okD(2) [OF st sc(1)] sc(4,3) eq]
    have ok': "scope_ok ((cs_objects st)(r \<mapsto> ix')) sc'" "sc_entries sc' = ms_del (se_id e) (sc_entries sc)" by blast+
    have wf: "ms_wf (cs_scopes st)" using st by (simp add: store_ok_def)
    have in_sc: "(s, sc) \<in> set (cs_scopes st)" using sc(1) by (auto simp: scope_of_def dest: map_of_SomeD)
    have base: "sc_entries x \<noteq> [] \<and> scope_ok (cs_objects st) x \<and> (\<forall>q \<in> set (ms_vals (sc_entries x)). q < cs_next st)"
      if "(t, x) \<in> set (cs_scopes st)" for t x
      using st that unfolding store_ok_def by blast
    have disj: "set (ms_vals (sc_entries x)) \<inter> set (ms_vals (sc_entries y)) = {}"
      if "(t, x) \<in> set (cs_scopes st)" "(u, y) \<in> set (cs_scopes st)" "t \<noteq> u" for t x u y
      using st that unfolding store_ok_def by blast
    have sub: "set (ms_vals (sc_entries sc')) \<subseteq> set (ms_vals (sc_entries sc))"
      using ok'(2) by auto
    have other: "scope_ok ((cs_objects st)(r \<mapsto> ix')) x" if "(t, x) \<in> set (cs_scopes st)" "t \<noteq> s" for t x
    proof (rule scope_ok_objs)
      show "scope_ok (cs_objects st) x" using base [OF that(1)] by blast
      show "((cs_objects st)(r \<mapsto> ix')) q = cs_objects st q" if "q \<in> set (ms_vals (sc_entries x))" for q
        using disj [OF \<open>(t, x) \<in> _\<close> in_sc \<open>t \<noteq> s\<close>] sc(2) that by auto
    qed
    have small: "\<forall>q \<in> set (ms_vals (sc_entries sc')). q < cs_next st"
      using base [OF in_sc] sub by blast
    define fin where "fin = (if sc_entries sc' = [] then ms_del s (cs_scopes st) else ms_set s sc' (cs_scopes st))"
    have mem: "(t, x) \<in> set fin \<longleftrightarrow> (t = s \<and> x = sc' \<and> sc_entries sc' \<noteq> []) \<or> t \<noteq> s \<and> (t, x) \<in> set (cs_scopes st)" for t x
      using set_ms_set [OF wf, of s sc'] by (auto simp: fin_def)
    have "sc_entries x \<noteq> [] \<and> scope_ok ((cs_objects st)(r \<mapsto> ix')) x \<and> (\<forall>q \<in> set (ms_vals (sc_entries x)). q < cs_next st)"
      if "(t, x) \<in> set fin" for t x
      using that mem [of t x] base [of t x] small other [of t x] ok'(1) by (cases "t = s") simp_all
    moreover have "set (ms_vals (sc_entries x)) \<inter> set (ms_vals (sc_entries y)) = {}"
      if "(t, x) \<in> set fin" "(u, y) \<in> set fin" "t \<noteq> u" for t x u y
    proof -
      define old where "old v z = (if v = s then sc else z)" for v z
      have "(t, old t x) \<in> set (cs_scopes st)" "(u, old u y) \<in> set (cs_scopes st)"
        using that mem in_sc by (auto simp: old_def)
      from disj [OF this that(3)]
      have "set (ms_vals (sc_entries (old t x))) \<inter> set (ms_vals (sc_entries (old u y))) = {}" .
      moreover have "set (ms_vals (sc_entries x)) \<subseteq> set (ms_vals (sc_entries (old t x)))"
          "set (ms_vals (sc_entries y)) \<subseteq> set (ms_vals (sc_entries (old u y)))"
        using that(1,2) mem [of t x] mem [of u y] sub by (auto simp: old_def simp del: set_map)
      ultimately show ?thesis by blast
    qed
    moreover have "ms_wf fin" using wf by (simp add: fin_def)
    ultimately have "store_ok (st\<lparr>cs_scopes := fin, cs_objects := (cs_objects st)(r \<mapsto> ix')\<rparr>)"
      unfolding store_ok_def by auto
    moreover have "(if sc_entries sc' = [] then st'\<lparr>cs_scopes := ms_del s (cs_scopes st')\<rparr> else st') =
        st\<lparr>cs_scopes := fin, cs_objects := (cs_objects st)(r \<mapsto> ix')\<rparr>"
    proof -
      have "ms_del s (ms_set s sc' m) = ms_del s m" for m :: "('a \<times> indexed_scope) list"
        by (induction m) (auto simp: ms_del_def)
      then show ?thesis by (simp add: st'_def put_scope_def put_object_def fin_def)
    qed
    ultimately show ?thesis by (simp add: out)
  qed
qed

definition keeps_ok :: "('a \<Rightarrow> 's store \<Rightarrow> 'b \<times> 's store) \<Rightarrow> bool" where
  "keeps_ok f \<longleftrightarrow> (\<forall>x st. store_ok st \<longrightarrow> store_ok (snd (f x st)))"

lemma keeps_okD: "keeps_ok f \<Longrightarrow> store_ok st \<Longrightarrow> f x st = (y, st') \<Longrightarrow> store_ok st'"
  unfolding keeps_ok_def by (metis snd_conv)

lemma keeps_always [simp]: "keeps_ok always"
  by (simp add: keeps_ok_def always_def)

lemma store_ok_record_keys:
  assumes "store_ok st" and "record_ref s e st = Some r" and "f = index_keys ks r \<or> f = unindex_keys ks r"
  shows "store_ok (with_indexed f s r st)"
  by (rule record_registered [OF assms(1,2)]) (use store_ok_keys [OF assms(1) _ _ assms(3)] in blast)

lemma store_ok_record_object:
  assumes "store_ok st" and "record_ref s e st = Some r"
    and "\<And>ix. ix_entry (f ix) = ix_entry ix \<and> ix_memberships (f ix) = ix_memberships ix"
  shows "store_ok (update_object f r st)"
  by (rule record_registered [OF assms(1,2)]) (use store_ok_object [OF assms(1) _ _ assms(3)] in blast)

lemma store_ok_index_record:
  "store_ok st \<Longrightarrow> record_ref s e st = Some r \<Longrightarrow> store_ok (with_indexed (index_keys ks r) s r st)"
  by (rule store_ok_record_keys [where ks = ks]) simp_all

lemma store_ok_unindex_record:
  "store_ok st \<Longrightarrow> record_ref s e st = Some r \<Longrightarrow> store_ok (with_indexed (unindex_keys ks r) s r st)"
  by (rule store_ok_record_keys [where ks = ks]) simp_all

lemma store_ok_invalidate: "store_ok st \<Longrightarrow> store_ok (invalidateInputs cf s e rs st)"
  by (auto simp: invalidateInputs_def intro: store_ok_index_record store_ok_unindex_record split: option.splits)

lemma store_ok_indexView: "store_ok st \<Longrightarrow> store_ok (indexView s e k b st)"
  by (auto simp: indexView_def intro: store_ok_index_record store_ok_unindex_record split: option.splits)

lemma keep_result_fields:
  "ix_entry (first_evidence now ix) = ix_entry ix \<and> ix_memberships (first_evidence now ix) = ix_memberships ix"
  "ix_entry (ix\<lparr>ix_inputs := b\<rparr>) = ix_entry ix \<and> ix_memberships (ix\<lparr>ix_inputs := b\<rparr>) = ix_memberships ix"
  by (auto simp: first_evidence_def split: option.splits)

lemma store_ok_settle: "store_ok st \<Longrightarrow> store_ok (settle_entry cf now s e b shared st)"
proof -
  assume "store_ok st"
  then have st1: "store_ok (snd (insert_entry cf s e st))" by (rule store_ok_insert)
  show ?thesis
  proof (cases "record_ref s e (snd (insert_entry cf s e st))")
    case None
    then show ?thesis using st1 by (simp add: settle_entry_def Let_def)
  next
    case (Some r)
    let ?st1 = "snd (insert_entry cf s e st)"
    let ?st2 = "with_indexed (unindex_keys [pending_partition] r) s r ?st1"
    let ?st3 = "update_object (first_evidence now) r ?st2"
    let ?f = "index_keys (map (\<lambda>(p, d). inputPartition (cf_cwd cf) p d) (or_none (wb_inputResources b))) r"
    from record_registered [OF st1 Some] obtain sc where
      sc: "scope_of ?st1 s = Some sc" "r \<in> set (ms_vals (sc_entries sc))" by metis
    have st2: "store_ok ?st2" using store_ok_keys [OF st1 sc] by blast
    obtain sc2 where sc2: "scope_of ?st2 s = Some sc2" "r \<in> set (ms_vals (sc_entries sc2))"
      by (rule with_indexed_frame [OF st1 sc, of "unindex_keys [pending_partition] r" "[pending_partition]"]) (use sc in auto)
    have st3: "store_ok ?st3" using store_ok_object [OF st2 sc2] keep_result_fields(1) by blast
    have sc3: "scope_of ?st3 s = Some sc2" using sc2(1) by simp
    have st4: "store_ok (with_indexed ?f s r ?st3)" using store_ok_keys [OF st3 sc3 sc2(2)] by blast
    obtain sc4 where sc4: "scope_of (with_indexed ?f s r ?st3) s = Some sc4" "r \<in> set (ms_vals (sc_entries sc4))"
      by (rule with_indexed_frame [OF st3 sc3 sc2(2), of ?f]) (use sc2(2) in auto)
    have st5: "store_ok (update_object (\<lambda>ix. ix\<lparr>ix_inputs := True\<rparr>) r (with_indexed ?f s r ?st3))"
      using store_ok_object [OF st4 sc4] keep_result_fields(2) by blast
    show ?thesis using Some st3 st5 by (simp add: settle_entry_def Let_def)
  qed
qed

lemma store_ok_rank:
  "store_ok st \<Longrightarrow> (\<And>f. cover = Some f \<Longrightarrow> keeps_ok f) \<Longrightarrow>
    store_ok (snd (rank_candidates cf s action inputs incl cover rs st))"
proof (induction rs arbitrary: st incl)
  case (Cons r rs)
  show ?case
  proof (cases "record_ref s (ix_entry (object_at st r)) st = Some r")
    case True
    obtain c st1 where c: "(case cover of Some f \<Rightarrow> f (ix_entry (object_at st r)) st | None \<Rightarrow> (False, st)) = (c, st1)"
      by fastforce
    then have "store_ok st1" using Cons.prems keeps_okD by (fastforce split: option.splits)
    then have "store_ok (snd (rank_candidates cf s action inputs (incl \<and> view_members s action st1 \<noteq> []) cover rs st1))"
      using Cons.IH Cons.prems(2) by blast
    with True c show ?thesis
      by (cases incl; cases "view_members s action st1 = []") (simp_all add: Let_def case_prod_beta split: option.split)
  next
    case False
    with Cons show ?thesis by (simp add: Let_def)
  qed
qed simp

lemma store_ok_lookupRecords:
  "store_ok st \<Longrightarrow> (\<And>f. cover = Some f \<Longrightarrow> keeps_ok f) \<Longrightarrow>
    store_ok (snd (lookupRecords cf s action ps cover incl st))"
  unfolding lookupRecords_def Let_def case_prod_beta snd_conv by (rule store_ok_rank)

lemma store_ok_first_reusable:
  "store_ok st \<Longrightarrow> (\<And>m. keeps_ok (\<lambda>e. f e m)) \<Longrightarrow> store_ok (snd (first_reusable s f ls st))"
proof (induction ls arbitrary: st)
  case (Cons l ls)
  obtain ok st1 where f: "f (lk_entry l) (lk_match l) st = (ok, st1)" by fastforce
  then have "store_ok st1" using keeps_okD [OF Cons.prems(2) Cons.prems(1)] by blast
  with Cons f show ?case by simp
qed simp

lemma store_ok_getOrCreate:
  assumes "store_ok st" and "\<And>st. store_ok st \<Longrightarrow> store_ok (snd (create st))" and "\<And>m. keeps_ok (\<lambda>e. f e m)"
  shows "store_ok (snd (getOrCreate cf s key create f st))"
proof -
  obtain found st1 where l: "lookupRecords cf s key (partitions_of cf key) None False st = (found, st1)" by fastforce
  have st1: "store_ok st1"
    using store_ok_lookupRecords [OF assms(1), of None cf s key "partitions_of cf key" False] l by simp
  obtain x st2 where x: "first_reusable s f (sort_cmp exact_first found) st1 = (x, st2)" by fastforce
  have st2: "store_ok st2" using store_ok_first_reusable [OF st1, of f s "sort_cmp exact_first found"] assms(3) x by simp
  obtain e st3 where c: "create st2 = (e, st3)" by fastforce
  have st3: "store_ok st3" using assms(2) [OF st2] c by simp
  show ?thesis
    using l x c st2 store_ok_add [OF st3, of s e "partitions_of cf key"]
    by (cases x) (auto simp: getOrCreate_def Let_def split: prod.splits)
qed

lemma store_ok_rank_results:
  "store_ok st \<Longrightarrow> keeps_ok f \<Longrightarrow> store_ok (snd (rank_results cf now s f es st))"
proof (induction es arbitrary: st)
  case (Cons e es)
  obtain ok st1 where f: "f e st = (ok, st1)" by fastforce
  then have "store_ok st1" using keeps_okD [OF Cons.prems(2,1)] by blast
  with Cons.IH [of st1] Cons.IH [of st] Cons.prems f show ?case
    by (auto split: option.splits prod.splits)
qed simp

lemma store_ok_retire_loop:
  assumes "\<And>r e st. store_ok st \<Longrightarrow> record_ref s e st = Some r \<Longrightarrow> store_ok (retire r st)" and "keeps_ok f"
  shows "store_ok st \<Longrightarrow> store_ok (snd (retire_loop l s retire f xs n b st))"
proof (induction xs arbitrary: n b st)
  case (Cons x xs)
  obtain ok st1 where f: "f (rk_entry x) st = (ok, st1)" by fastforce
  then have st1: "store_ok st1" using keeps_okD [OF assms(2) Cons.prems] by blast
  then have "record_ref s (rk_entry x) st1 = Some (rk_indexed x) \<Longrightarrow> store_ok (retire (rk_indexed x) st1)"
    by (rule assms(1))
  with Cons st1 f show ?case by (auto simp: case_prod_beta)
qed simp

lemma store_ok_retireExcess:
  assumes "\<And>r e st. store_ok st \<Longrightarrow> record_ref s e st = Some r \<Longrightarrow> store_ok (retire r st)" and "keeps_ok f" and "store_ok st"
  shows "store_ok (snd (retireExcess cf now s es l retire f st))"
  using assms store_ok_rank_results [OF assms(3,2), of cf now s es]
    store_ok_retire_loop [OF assms(1,2)]
  by (auto simp: retireExcess_def split: prod.splits)

lemma store_ok_demote: "store_ok st \<Longrightarrow> record_ref s e st = Some r \<Longrightarrow> store_ok (demote r st)"
  unfolding demote_def by (rule store_ok_record_object) auto

lemma store_ok_trim: "store_ok st \<Longrightarrow> keeps_ok f \<Longrightarrow> store_ok (snd (trim_results cf now s l f st))"
  unfolding trim_results_def by (rule store_ok_retireExcess) (auto simp: retire_delete_def store_ok_delete)

lemma store_ok_hit: "store_ok st \<Longrightarrow> store_ok (snd (recordActorHit cf now s e l st))"
proof -
  assume st: "store_ok st"
  show ?thesis
  proof (cases "record_ref s e st")
    case (Some r)
    show ?thesis
    proof (cases "ix_result (object_at st r)")
      case (Some ev)
      define st1 where "st1 = (update_object (\<lambda>ix. ix\<lparr>ix_result := Some (ev\<lparr>ce_segment := Hot,
          ce_actorHits := Suc (ce_actorHits ev), ce_lastActorHitAt := Some now\<rparr>),
        ix_recency := cs_sequence st\<rparr>) r st)\<lparr>cs_sequence := Suc (cs_sequence st)\<rparr>"
      have "store_ok (update_object (\<lambda>ix. ix\<lparr>ix_result := Some (ev\<lparr>ce_segment := Hot,
          ce_actorHits := Suc (ce_actorHits ev), ce_lastActorHitAt := Some now\<rparr>),
        ix_recency := cs_sequence st\<rparr>) r st)"
        by (rule store_ok_record_object [OF st \<open>record_ref s e st = Some r\<close>]) simp
      then have "store_ok st1" by (rule store_ok_frame) (simp_all add: st1_def)
      note retire = store_ok_retireExcess [of s demote always st1, OF store_ok_demote keeps_always this]
      show ?thesis
        using \<open>store_ok st1\<close> \<open>record_ref s e st = Some r\<close> Some retire
        by (auto simp: recordActorHit_def st1_def [symmetric] Let_def split: option.splits)
    qed (simp add: recordActorHit_def \<open>record_ref s e st = Some r\<close> st)
  qed (simp add: recordActorHit_def st)
qed

lemma store_ok_observe: "store_ok st \<Longrightarrow> store_ok (snd (observe_scope s st))"
  by (rule store_ok_frame) (auto simp: observe_scope_def Let_def)

lemma store_ok_dispose: "store_ok st \<Longrightarrow> store_ok (dispose_waiter s w st)"
  by (rule store_ok_frame) (auto simp: dispose_waiter_def Let_def)

lemma store_ok_new [simp]: "store_ok new_store"
  by (simp add: store_ok_def new_store_def)

text \<open>C18.
  Every operation of the store, on every path and with any client callback that itself works through
  the store, keeps the index coherent: a registration belongs to one scope under its id and is a member
  of exactly the partitions it lists, and no empty scope or partition remains.\<close>

theorem operations_keep_the_index:
  assumes "store_ok st" and "\<And>st. store_ok st \<Longrightarrow> store_ok (snd (create st))"
    and "\<And>m. keeps_ok (\<lambda>e. canReuse e m)" and "keeps_ok canEvict" and "keeps_ok covers"
  shows "store_ok (snd (insert_entry cf s e st)) \<and> store_ok (snd (delete_entry s e st)) \<and>
    store_ok (snd (getOrCreate cf s key create canReuse st)) \<and>
    store_ok (snd (lookup cf s key (Some covers) incl st)) \<and>
    store_ok (settle_entry cf now s e b shared st) \<and> store_ok (invalidateInputs cf s e rs st) \<and>
    store_ok (indexView s e k retained st) \<and> store_ok (snd (recordActorHit cf now s e budget st)) \<and>
    store_ok (snd (trim_results cf now s l canEvict st)) \<and>
    store_ok (snd (observe_scope s st)) \<and> store_ok (dispose_waiter s w st) \<and> store_ok (notify s changed st)"
  unfolding lookup_def
  using assms store_ok_insert store_ok_delete store_ok_getOrCreate [OF assms(1-3)] store_ok_settle store_ok_invalidate
    store_ok_indexView store_ok_hit store_ok_trim store_ok_observe store_ok_dispose
    store_ok_lookupRecords [OF assms(1), of "Some covers"]
  by (intro conjI) (simp_all)

definition sample_config :: store_config where
  "sample_config = \<lparr>cf_num = sample_number, cf_cwd = ''/'', cf_projectors = pi_projectors sample_number,
     cf_score = (\<lambda>e ev now. Fin now)\<rparr>"

definition sample_entry :: store_entry where
  "sample_entry = \<lparr>se_ref = 1, se_id = ''c1'', se_key = Some (sample_read ''s'' 1 10), se_bytes = Fin 4\<rparr>"

definition no_reuse :: "store_entry \<Rightarrow> action_key_match \<Rightarrow> string store \<Rightarrow> bool \<times> string store" where
  "no_reuse e m st = (False, st)"

theorem operations_keep_the_index_witness:
  "store_ok (snd (insert_entry sample_config ''scope'' sample_entry (new_store :: string store))) \<and>
   store_ok (snd (getOrCreate sample_config ''scope'' (sample_read ''s'' 1 10) (\<lambda>st. (sample_entry, st)) no_reuse
     (new_store :: string store)))"
proof -
  have "keeps_ok (\<lambda>e. no_reuse e m)" for m by (simp add: keeps_ok_def no_reuse_def)
  from operations_keep_the_index [OF store_ok_new _ this keeps_always keeps_always,
    of "\<lambda>st. (sample_entry, st)" sample_config "''scope''" sample_entry "sample_read ''s'' 1 10"]
  show ?thesis by auto
qed

subsection \<open>Lookup finds exactly the matching registrations\<close>

text \<open>A registration that was added under its key is a member of the partitions of that key.\<close>

definition keyed :: "store_config \<Rightarrow> indexed_entry \<Rightarrow> bool" where
  "keyed cf ix \<longleftrightarrow> (case se_key (ix_entry ix) of None \<Rightarrow> True
     | Some k \<Rightarrow> exact_partition k \<in> set (ix_memberships ix) \<and> set (partitions_of cf k) \<subseteq> set (ix_memberships ix))"

lemma rank_without_coverage:
  "fst (rank_candidates cf s action inputs incl None rs st) =
     concat (map (\<lambda>r. let e = ix_entry (object_at st r) in
       if record_ref s e st \<noteq> Some r then []
       else case match_of cf action inputs (if incl then view_members s action st else []) r e False of
         Some x \<Rightarrow> [\<lparr>lk_entry = e, lk_match = x, lk_indexed = r\<rparr>] | None \<Rightarrow> []) rs) \<and>
   snd (rank_candidates cf s action inputs incl None rs st) = st"
proof (induction rs arbitrary: incl)
  case (Cons r rs)
  let ?vs = "view_members s action st"
  have eq: "(if incl \<and> ?vs \<noteq> [] then ?vs else []) = (if incl then ?vs else [])" by simp
  show ?case
    using Cons.IH [of incl] Cons.IH [of "incl \<and> ?vs \<noteq> []", unfolded eq] eq
    by (cases "match_of cf action inputs (if incl then ?vs else []) r (ix_entry (object_at st r)) False")
      (simp_all add: Let_def case_prod_beta del: if_split)
qed simp

lemma record_of_registered:
  assumes "store_ok st" and "scope_of st s = Some sc" and "r \<in> set (ms_vals (sc_entries sc))"
  shows "record_ref s (ix_entry (object_at st r)) st = Some r"
proof -
  obtain i where ir: "(i, r) \<in> set (sc_entries sc)" using assms(3) by auto
  have ok: "entries_ok (cs_objects st) sc" using store_okD(2) [OF assms(1,2)] by (simp add: scope_ok_def)
  with ir obtain ix where ix: "cs_objects st r = Some ix" "se_id (ix_entry ix) = i"
    by (auto simp: entries_ok_def)
  moreover have "map_of (sc_entries sc) i = Some r"
    using ok ir by (simp add: entries_ok_def map_of_in_set_iff)
  ultimately show ?thesis using assms(2) by (simp add: record_ref_def get_ref_def object_at_def)
qed

definition lookup_result :: "'s \<Rightarrow> store_config \<Rightarrow> action_key \<Rightarrow> 's store \<Rightarrow> candidate_lookup \<Rightarrow> bool" where
  "lookup_result s cf action st l \<longleftrightarrow> lk_indexed l \<in> set (registered s st) \<and>
     lk_entry l = ix_entry (object_at st (lk_indexed l)) \<and>
     Option.bind (se_key (lk_entry l)) (\<lambda>k. actionKeyMatch k action (cf_projectors cf) False) = Some (lk_match l)"

lemma record_ref_registered: "record_ref s e st = Some r \<Longrightarrow> r \<in> set (registered s st)"
  by (force simp: record_ref_def get_ref_def registered_def split: option.splits if_splits dest!: map_of_SomeD)

lemma candidate_by_key:
  assumes "store_ok st" and "scope_of st s = Some sc" and "r \<in> set (ms_vals (sc_entries sc))"
    and "keyed cf (object_at st r)" and "se_key (ix_entry (object_at st r)) = Some k"
    and "actionKeyMatch k action (cf_projectors cf) False = Some m"
    and "indexed_projections (cf_projectors cf)"
  shows "r \<in> set (candidates cf s action (partitions_of cf action) inputs incl st)"
proof -
  have link: "q \<in> set (members_at sc j) \<longleftrightarrow> q \<in> set (ms_vals (sc_entries sc)) \<and> j \<in> set (ix_memberships (object_at st q))" for q j
    using store_okD(2) [OF assms(1,2)] by (simp add: scope_ok_def linked_def object_at_def del: set_map)
  show ?thesis
  proof (cases "m = Exact")
    case True
    then have "ak_key k = ak_key action" using assms(6) by (auto simp: actionKeyMatch_def split: if_splits)
    then have "r \<in> set (members_at sc (exact_partition action))"
      using assms(3-5) link by (simp add: keyed_def exact_partition_def)
    with assms(2) show ?thesis by (simp add: candidates_def)
  next
    case False
    then obtain d i where "actionKeyMatch k action (cf_projectors cf) False = Some (Projected d i)"
      using assms(6) by (auto simp: actionKeyMatch_def split: if_splits)
    from indexed_projections.match_shares_partition [OF assms(7) this, of "cf_num cf"]
    obtain t where "t \<in> set (partitions_of cf k)" "t \<in> set (partitions_of cf action)"
      by (auto simp: partitions_of_def)
    then have "r \<in> set (members_at sc t)" "t \<in> set (partitions_of cf action)"
      using assms(3-5) link by (auto simp: keyed_def)
    with assms(2) show ?thesis by (auto simp: candidates_def)
  qed
qed

text \<open>C7.
  A lookup by key, without input reconstruction, returns exactly the registrations of the scope whose key
  matches the requested action, each with its best match: indexing by partitions loses nothing.\<close>

theorem lookup_finds_matches:
  assumes "store_ok st" and "\<forall>r \<in> set (registered s st). keyed cf (object_at st r)"
    and "cf_projectors cf = pi_projectors num"
  shows "set (fst (lookup cf s action None False st)) = {l. lookup_result s cf action st l} \<and>
    snd (lookup cf s action None False st) = st"
proof -
  have contract: "indexed_projections (cf_projectors cf)"
    using assms(3) stock.indexed_projections_axioms by simp
  let ?cs = "candidates cf s action (partitions_of cf action) [] False st"
  have match: "match_of cf action [] [] r e False =
      Option.bind (se_key e) (\<lambda>k. actionKeyMatch k action (cf_projectors cf) False)" for r e
    by (auto simp: match_of_def ms_has_def split: option.splits)
  have "l \<in> set (fst (lookup cf s action None False st)) \<longleftrightarrow> lookup_result s cf action st l" for l
  proof
    assume "l \<in> set (fst (lookup cf s action None False st))"
    then show "lookup_result s cf action st l"
      using rank_without_coverage [of cf s action "[]" False ?cs st]
      by (auto simp: lookup_def lookupRecords_def Let_def case_prod_beta match lookup_result_def
          dest: record_ref_registered split: if_splits option.splits)
  next
    assume l: "lookup_result s cf action st l"
    let ?r = "lk_indexed l"
    from l obtain sc where sc: "scope_of st s = Some sc" "?r \<in> set (ms_vals (sc_entries sc))"
      by (cases "scope_of st s") (auto simp: lookup_result_def registered_def simp del: set_map)
    have rec: "record_ref s (lk_entry l) st = Some ?r"
      using record_of_registered [OF assms(1) sc] l by (simp add: lookup_result_def)
    from l obtain k where k: "se_key (lk_entry l) = Some k" "actionKeyMatch k action (cf_projectors cf) False = Some (lk_match l)"
      by (auto simp: lookup_result_def bind_eq_Some_conv)
    have "?r \<in> set ?cs"
      by (rule candidate_by_key [OF assms(1) sc _ _ k(2) contract])
        (use assms(2) l k(1) in \<open>auto simp: lookup_result_def\<close>)
    moreover have "l = \<lparr>lk_entry = ix_entry (object_at st ?r), lk_match = lk_match l, lk_indexed = ?r\<rparr>"
      using l by (cases l) (simp add: lookup_result_def)
    ultimately show "l \<in> set (fst (lookup cf s action None False st))"
      using rank_without_coverage [of cf s action "[]" False ?cs st] rec k l
      by (auto simp: lookup_def lookupRecords_def Let_def case_prod_beta match lookup_result_def
          intro!: bexI [of _ ?r])
  qed
  moreover have "snd (lookup cf s action None False st) = st"
    using rank_without_coverage [of cf s action "[]" False ?cs st]
    by (simp add: lookup_def lookupRecords_def Let_def case_prod_beta)
  ultimately show ?thesis by blast
qed

lemma keyed_after_insert:
  assumes "map_of (cs_scopes st) s = None"
  shows "\<forall>r \<in> set (registered s (snd (insert_entry cf s e st))). keyed cf (object_at (snd (insert_entry cf s e st)) r)"
proof -
  define ps where "ps = (case se_key e of Some k \<Rightarrow> partitions_of cf k | None \<Rightarrow> [])"
  define r where "r = cs_next st"
  define ix where "ix = \<lparr>ix_entry = e, ix_memberships = [], ix_inputs = False, ix_recency = cs_sequence st, ix_result = None\<rparr>"
  define sc where "sc = \<lparr>sc_entries = [(se_id e, r)], sc_partitions = []\<rparr>"
  obtain sc' ix' where eq: "index_keys (entry_partitions e ps) r (sc, ix) = (sc', ix')"
    by (cases "index_keys (entry_partitions e ps) r (sc, ix)")
  have out: "snd (insert_entry cf s e st) = notify s True
      (put_scope s sc' (put_object r ix' (st\<lparr>cs_next := Suc r, cs_sequence := Suc (cs_sequence st)\<rparr>)))"
    using assms eq by (simp add: insert_entry_def add_entry_def get_entry_def get_ref_def scope_of_def ps_def r_def
        ix_def sc_def Let_def)
  have eff: "sc_entries sc' = [(se_id e, r)]" "set (ix_memberships ix') = set (entry_partitions e ps)"
      "ix'\<lparr>ix_memberships := ix_memberships ix\<rparr> = ix"
    using index_keys_effect [OF eq] by (auto simp: parts_ok_def sc_def ix_def)
  from eff(3) have "ix_entry ix' = e" by (cases ix') (simp add: ix_def indexed_entry.defs)
  with eff(2) have "keyed cf ix'" by (auto simp: keyed_def entry_partitions_def ps_def split: option.splits)
  with eff(1) show ?thesis
    by (simp add: out registered_def scope_of_def object_at_def put_scope_def put_object_def)
qed

theorem lookup_finds_matches_witness:
  "let st = snd (insert_entry sample_config ''scope'' sample_entry (new_store :: string store)) in
   set (fst (lookup sample_config ''scope'' (sample_read ''a'' 3 2) None False st)) =
     {l. lookup_result ''scope'' sample_config (sample_read ''a'' 3 2) st l} \<and>
   snd (lookup sample_config ''scope'' (sample_read ''a'' 3 2) None False st) = st"
  unfolding Let_def
proof (rule lookup_finds_matches [where num = sample_number])
  show "store_ok (snd (insert_entry sample_config ''scope'' sample_entry (new_store :: string store)))"
    by (simp add: store_ok_insert)
  show "\<forall>r \<in> set (registered ''scope'' (snd (insert_entry sample_config ''scope'' sample_entry (new_store :: string store)))).
      keyed sample_config (object_at (snd (insert_entry sample_config ''scope'' sample_entry new_store)) r)"
    by (rule keyed_after_insert) (simp add: new_store_def)
qed (simp add: sample_config_def)

subsection \<open>Trimming\<close>

definition deciding :: "(store_entry \<Rightarrow> bool) \<Rightarrow> store_entry \<Rightarrow> 's store \<Rightarrow> bool \<times> 's store" where
  "deciding p e st = (p e, st)"

definition freed :: "store_entry list \<Rightarrow> real" where
  "freed es = sum_list (map bytes_of es)"

lemma total_bytes_freed: "total_bytes es = freed es"
proof -
  have "foldl (\<lambda>t e. t + bytes_of e) a es = a + sum_list (map bytes_of es)" for a
    by (induction es arbitrary: a) auto
  then show ?thesis by (simp add: total_bytes_def freed_def)
qed

text \<open>The shortest prefix of the ranked entries whose retirement meets the budget, or all of them.\<close>

definition least_cut :: "cache_limits \<Rightarrow> store_entry list \<Rightarrow> nat \<Rightarrow> real \<Rightarrow> nat \<Rightarrow> bool" where
  "least_cut l es n b m \<longleftrightarrow> m \<le> length es \<and>
     (m = length es \<or> within_budget l (n - m) (b - freed (take m es))) \<and>
     (\<forall>j < m. \<not> within_budget l (n - j) (b - freed (take j es)))"

definition live :: "'s \<Rightarrow> 's store \<Rightarrow> ranked_result \<Rightarrow> bool" where
  "live s st x \<longleftrightarrow> record_ref s (rk_entry x) st = Some (rk_indexed x) \<and>
     ix_result (object_at st (rk_indexed x)) = Some (rk_evidence x)"

lemma least_cut_Cons:
  assumes "\<not> within_budget l n b" and "least_cut l es (n - 1) (b - bytes_of e) m"
  shows "least_cut l (e # es) n b (Suc m)"
  using assms unfolding least_cut_def
  by (auto simp: freed_def diff_diff_eq less_Suc_eq_0_disj algebra_simps)

lemma retire_loop_least:
  assumes "\<And>x st. live s st x \<Longrightarrow> store_ok st \<Longrightarrow> store_ok (retire (rk_indexed x) st)"
    and "\<And>x y st. live s st x \<Longrightarrow> store_ok st \<Longrightarrow> live s st y \<Longrightarrow> se_id (rk_entry y) \<noteq> se_id (rk_entry x) \<Longrightarrow>
      live s (retire (rk_indexed x) st) y"
  shows "store_ok st \<Longrightarrow> \<forall>x \<in> set xs. live s st x \<and> p (rk_entry x) \<Longrightarrow> distinct (map (se_id \<circ> rk_entry) xs) \<Longrightarrow>
    \<exists>m. least_cut l (map rk_entry xs) n b m \<and>
      retire_loop l s retire (deciding p) xs n b st =
        (take m (map rk_entry xs), fold (\<lambda>x. retire (rk_indexed x)) (take m xs) st)"
proof (induction xs arbitrary: n b st)
  case Nil
  then show ?case by (simp add: least_cut_def)
next
  case (Cons x xs)
  show ?case
  proof (cases "within_budget l n b")
    case True
    then show ?thesis by (intro exI [of _ 0]) (simp add: least_cut_def freed_def)
  next
    case False
    let ?st = "retire (rk_indexed x) st"
    have x: "live s st x" "p (rk_entry x)" using Cons.prems(2) by auto
    have "store_ok ?st" using assms(1) [OF x(1) Cons.prems(1)] .
    moreover have "\<forall>y \<in> set xs. live s ?st y \<and> p (rk_entry y)"
    proof
      fix y
      assume y: "y \<in> set xs"
      then have "se_id (rk_entry y) \<noteq> se_id (rk_entry x)" using Cons.prems(3) by (auto simp: image_iff)
      with assms(2) [OF x(1) Cons.prems(1)] Cons.prems(2) y show "live s ?st y \<and> p (rk_entry y)" by simp
    qed
    moreover have "distinct (map (se_id \<circ> rk_entry) xs)" using Cons.prems(3) by (simp add: comp_def)
    ultimately obtain m where m: "least_cut l (map rk_entry xs) (n - 1) (b - bytes_of (rk_entry x)) m"
      "retire_loop l s retire (deciding p) xs (n - 1) (b - bytes_of (rk_entry x)) ?st =
        (take m (map rk_entry xs), fold (\<lambda>x. retire (rk_indexed x)) (take m xs) ?st)"
      using Cons.IH by blast
    have "retire_loop l s retire (deciding p) (x # xs) n b st =
        (take (Suc m) (map rk_entry (x # xs)), fold (\<lambda>x. retire (rk_indexed x)) (take (Suc m) (x # xs)) st)"
      using False x m(2) by (simp add: deciding_def live_def)
    with least_cut_Cons [OF False m(1)] show ?thesis by (intro exI [of _ "Suc m"]) simp
  qed
qed

lemma retire_order_le: "retire_order x y \<le> 0 \<longleftrightarrow> rk_hot x < rk_hot y \<or> rk_hot x = rk_hot y \<and> rk_value x \<le> rk_value y"
  by (auto simp: retire_order_def cmp_then_def cmp_val_def)

lemma rank_results_deciding:
  "fst (rank_results cf now s (deciding p) es st) = concat (map (\<lambda>e. case record_ref s e st of None \<Rightarrow> []
     | Some r \<Rightarrow> (case ix_result (object_at st r) of None \<Rightarrow> []
       | Some ev \<Rightarrow> if p e then [\<lparr>rk_entry = e, rk_indexed = r, rk_evidence = ev,
           rk_hot = (if ce_segment ev = Hot then 1 else 0),
           rk_value = nonNegativeFinite (JNum (cf_score cf e ev now))\<rparr>] else [])) es) \<and>
   snd (rank_results cf now s (deciding p) es st) = st"
  by (induction es) (auto simp: deciding_def split: option.splits prod.splits)

definition eviction_order ::
  "store_config \<Rightarrow> real \<Rightarrow> 's \<Rightarrow> (store_entry \<Rightarrow> bool) \<Rightarrow> 's store \<Rightarrow> ranked_result list" where
  "eviction_order cf now s p st = sort_cmp retire_order (fst (rank_results cf now s (deciding p) (cached s st) st))"

lemma retireExcess_loop:
  "retireExcess cf now s es l retire (deciding p) st =
     retire_loop l s retire (deciding p) (sort_cmp retire_order (fst (rank_results cf now s (deciding p) es st)))
       (length es) (total_bytes es) st"
  using rank_results_deciding [of cf now s p es st]
  by (cases "sort_cmp retire_order (fst (rank_results cf now s (deciding p) es st))")
    (auto simp: retireExcess_def case_prod_beta)

lemma live_registered:
  assumes "store_ok st" and "live s st x"
  obtains sc ix where "scope_of st s = Some sc" "(se_id (rk_entry x), rk_indexed x) \<in> set (sc_entries sc)"
    "cs_objects st (rk_indexed x) = Some ix" "se_id (ix_entry ix) = se_id (rk_entry x)"
    "record_ref s (ix_entry (object_at st (rk_indexed x))) st = Some (rk_indexed x)"
proof -
  from record_registered [OF assms(1)] assms(2) obtain sc ix where
    sc: "scope_of st s = Some sc" "rk_indexed x \<in> set (ms_vals (sc_entries sc))" "cs_objects st (rk_indexed x) = Some ix"
      "(se_id (rk_entry x), rk_indexed x) \<in> set (sc_entries sc)"
    unfolding live_def by metis
  moreover have "se_id (ix_entry ix) = se_id (rk_entry x)"
    using store_okD(2) [OF assms(1) sc(1)] sc(3,4) by (auto simp: scope_ok_def entries_ok_def)
  ultimately show ?thesis using that record_of_registered [OF assms(1) sc(1,2)] by blast
qed

text \<open>What deleting one registration leaves of the scope.\<close>

lemma retire_delete_effect:
  assumes "store_ok st" and "live s st x"
  shows "registered s (retire_delete s (rk_indexed x) st) = filter (\<lambda>r. r \<noteq> rk_indexed x) (registered s st)"
    and "get_ref s i (retire_delete s (rk_indexed x) st) = (if i = se_id (rk_entry x) then None else get_ref s i st)"
    and "r \<noteq> rk_indexed x \<Longrightarrow> object_at (retire_delete s (rk_indexed x) st) r = object_at st r"
proof -
  let ?r = "rk_indexed x" and ?i = "se_id (rk_entry x)"
  from live_registered [OF assms] obtain sc ix where
    sc: "scope_of st s = Some sc" "(?i, ?r) \<in> set (sc_entries sc)" "cs_objects st ?r = Some ix" "se_id (ix_entry ix) = ?i"
      "record_ref s (ix_entry (object_at st ?r)) st = Some ?r" .
  obtain sc' ix' where eq: "unindex_keys (ix_memberships ix) ?r (sc\<lparr>sc_entries := ms_del ?i (sc_entries sc)\<rparr>, ix) = (sc', ix')"
    by (cases "unindex_keys (ix_memberships ix) ?r (sc\<lparr>sc_entries := ms_del ?i (sc_entries sc)\<rparr>, ix)")
  have entries: "sc_entries sc' = ms_del ?i (sc_entries sc)"
    using remove_registration [OF store_okD(2) [OF assms(1) sc(1)] sc(2,3) eq] by blast
  have obj: "ix_entry (object_at st ?r) = ix_entry ix" using sc(3) by (simp add: object_at_def)
  have out: "retire_delete s ?r st = notify s True
      (let st' = put_scope s sc' (put_object ?r ix' st) in
       if sc_entries sc' = [] then st'\<lparr>cs_scopes := ms_del s (cs_scopes st')\<rparr> else st')"
    using sc eq by (simp add: retire_delete_def delete_entry_def object_at_def Let_def)
  have vals: "ms_vals (ms_del ?i (sc_entries sc)) = filter (\<lambda>r. r \<noteq> ?r) (ms_vals (sc_entries sc))"
  proof -
    have wf: "ms_wf (sc_entries sc)" "distinct (ms_vals (sc_entries sc))"
      using store_okD(2) [OF assms(1) sc(1)] by (simp_all add: scope_ok_def entries_ok_def)
    have "filter (\<lambda>e. fst e \<noteq> ?i) (sc_entries sc) = filter (\<lambda>e. snd e \<noteq> ?r) (sc_entries sc)"
    proof (rule filter_cong [OF refl])
      fix e assume "e \<in> set (sc_entries sc)"
      then show "(fst e \<noteq> ?i) = (snd e \<noteq> ?r)"
        using key_val_unique [OF wf sc(2), of "fst e" "snd e"] by simp
    qed
    then show ?thesis by (simp add: ms_del_def filter_map comp_def)
  qed
  have scope': "scope_of (retire_delete s ?r st) s = (if sc_entries sc' = [] then None else Some sc')"
    by (simp add: out scope_of_def put_scope_def put_object_def Let_def)
  show "registered s (retire_delete s ?r st) = filter (\<lambda>r. r \<noteq> ?r) (registered s st)"
    using scope' vals entries sc(1) by (cases "sc_entries sc' = []") (simp_all add: registered_def)
  show "get_ref s i (retire_delete s ?r st) = (if i = ?i then None else get_ref s i st)"
    using scope' entries sc(1) by (cases "sc_entries sc' = []")
      (simp_all add: get_ref_def, metis map_of_ms_del fun_upd_apply map_of.simps(1))
  show "object_at (retire_delete s ?r st) q = object_at st q" if "q \<noteq> ?r" for q
    using that by (simp add: out object_at_def put_scope_def put_object_def Let_def)
qed

lemma retire_delete_live:
  assumes "live s st x" "store_ok st" "live s st y" "se_id (rk_entry y) \<noteq> se_id (rk_entry x)"
  shows "live s (retire_delete s (rk_indexed x) st) y"
proof -
  note eff = retire_delete_effect [OF assms(2,1)]
  from live_registered [OF assms(2,1)] live_registered [OF assms(2,3)] assms(4)
  have "rk_indexed y \<noteq> rk_indexed x" by (metis option.inject)
  with eff(3) [OF this] eff(2) [of "se_id (rk_entry y)"] assms(3,4) show ?thesis
    by (auto simp: live_def record_ref_def split: option.splits if_splits)
qed

lemma ids_distinct:
  assumes "store_ok st"
  shows "distinct (map se_id (scope_values s st))"
proof (cases "scope_of st s")
  case None
  then show ?thesis by (simp add: scope_values_def registered_def)
next
  case (Some sc)
  have ok: "entries_ok (cs_objects st) sc" using store_okD(2) [OF assms Some] by (simp add: scope_ok_def)
  have "se_id (ix_entry (object_at st (snd x))) = fst x" if "x \<in> set (sc_entries sc)" for x
  proof -
    obtain i r where x: "x = (i, r)" by (cases x)
    with that ok obtain ix where "cs_objects st r = Some ix" "se_id (ix_entry ix) = i"
      unfolding entries_ok_def by blast
    then show ?thesis by (simp add: x object_at_def)
  qed
  then have "map se_id (scope_values s st) = ms_keys (sc_entries sc)"
    using Some by (simp add: scope_values_def registered_def)
  with ok show ?thesis by (simp add: entries_ok_def ms_wf_def)
qed

lemma cached_ids: "store_ok st \<Longrightarrow> distinct (map se_id (cached s st))"
  using ids_distinct [of st s]
  by (simp add: cached_def scope_values_def distinct_map_filter comp_def)

lemma ranked_of_cached:
  assumes "x \<in> set (eviction_order cf now s p st)"
  shows "live s st x \<and> p (rk_entry x) \<and> rk_entry x \<in> set (cached s st)"
  using assms rank_results_deciding [of cf now s p "cached s st" st]
  by (auto simp: eviction_order_def live_def split: option.splits if_splits)

lemma ranked_ids:
  "distinct (map se_id es) \<Longrightarrow> distinct (map (se_id \<circ> rk_entry) (fst (rank_results cf now s (deciding p) es st)))"
proof (induction es)
  case (Cons e es)
  have sub: "rk_entry x \<in> set es" if "x \<in> set (fst (rank_results cf now s (deciding p) es st))" for x
    using that rank_results_deciding [of cf now s p es st] by (auto split: option.splits if_splits)
  have "fst (rank_results cf now s (deciding p) (e # es) st) = fst (rank_results cf now s (deciding p) es st) \<or>
      (\<exists>x. rk_entry x = e \<and> fst (rank_results cf now s (deciding p) (e # es) st) =
         x # fst (rank_results cf now s (deciding p) es st))"
    by (auto simp: deciding_def case_prod_beta split: option.splits)
  with Cons sub show ?case by (auto simp: image_iff)
qed simp

lemma eviction_ids: "store_ok st \<Longrightarrow> distinct (map (se_id \<circ> rk_entry) (eviction_order cf now s p st))"
  using ranked_ids [OF cached_ids [of st s], of cf now s p st]
  by (simp add: eviction_order_def distinct_map)

lemma registered_after_retirement:
  assumes "store_ok st" and "\<forall>x \<in> set xs. live s st x" and "distinct (map (se_id \<circ> rk_entry) xs)"
  shows "registered s (fold (\<lambda>x. retire_delete s (rk_indexed x)) xs st) =
    filter (\<lambda>r. r \<notin> rk_indexed ` set xs) (registered s st)"
  using assms
proof (induction xs arbitrary: st)
  case (Cons x xs)
  let ?st = "retire_delete s (rk_indexed x) st"
  have x: "live s st x" using Cons.prems by simp
  have "store_ok ?st" using Cons.prems(1) by (simp add: retire_delete_def store_ok_delete)
  moreover have "\<forall>y \<in> set xs. live s ?st y"
    using retire_delete_live [OF x Cons.prems(1)] Cons.prems(2,3) by (auto simp: image_iff)
  ultimately have "registered s (fold (\<lambda>x. retire_delete s (rk_indexed x)) xs ?st) =
      filter (\<lambda>r. r \<notin> rk_indexed ` set xs) (registered s ?st)"
    using Cons.IH Cons.prems(3) by simp
  with retire_delete_effect(1) [OF Cons.prems(1) x] show ?case
    by (simp add: conj_commute)
qed simp

text \<open>Trimming ranks the evictable results once, cold ones before hot ones and each by ascending score,
  and retires the shortest prefix of that order that brings the cache within its budget, or all of it
  when that is not enough; exactly those registrations disappear.\<close>

theorem trim_evicts_least_valuable:
  assumes "store_ok st"
  shows "let order = eviction_order cf now s p st in
    sorted_wrt (\<lambda>x y. rk_hot x < rk_hot y \<or> rk_hot x = rk_hot y \<and> rk_value x \<le> rk_value y) order \<and>
    (\<exists>m. least_cut l (map rk_entry order) (length (cached s st)) (freed (cached s st)) m \<and>
       fst (trim_results cf now s l (deciding p) st) = take m (map rk_entry order) \<and>
       registered s (snd (trim_results cf now s l (deciding p) st)) =
         filter (\<lambda>r. r \<notin> rk_indexed ` set (take m order)) (registered s st))"
  unfolding Let_def
proof
  define order where "order = eviction_order cf now s p st"
  have "sorted_wrt (\<lambda>x y. retire_order x y \<le> 0) order"
    unfolding order_def eviction_order_def by (rule sorted_sort_cmp) (auto simp: retire_order_le)
  then show "sorted_wrt (\<lambda>x y. rk_hot x < rk_hot y \<or> rk_hot x = rk_hot y \<and> rk_value x \<le> rk_value y)
      (eviction_order cf now s p st)"
    by (simp only: retire_order_le order_def)
  have live: "\<forall>x \<in> set order. live s st x \<and> p (rk_entry x)"
  proof
    fix x
    assume "x \<in> set order"
    then have "x \<in> set (eviction_order cf now s p st)" by (simp only: order_def)
    from ranked_of_cached [OF this] show "live s st x \<and> p (rk_entry x)" by blast
  qed
  have ids: "distinct (map (se_id \<circ> rk_entry) order)"
    unfolding order_def by (rule eviction_ids [OF assms(1)])
  have loop: "\<exists>m. least_cut l (map rk_entry order) (length (cached s st)) (freed (cached s st)) m \<and>
      retire_loop l s (retire_delete s) (deciding p) order (length (cached s st)) (freed (cached s st)) st =
        (take m (map rk_entry order), fold (\<lambda>x. retire_delete s (rk_indexed x)) (take m order) st)"
  proof (rule retire_loop_least)
    show "store_ok (retire_delete s (rk_indexed x) st)" if "store_ok st" for x and st :: "'a store"
      using that by (simp add: retire_delete_def store_ok_delete)
    show "live s (retire_delete s (rk_indexed x) st) y"
      if "live s st x" "store_ok st" "live s st y" "se_id (rk_entry y) \<noteq> se_id (rk_entry x)"
      for x y and st :: "'a store"
      using that by (rule retire_delete_live)
  qed (use assms(1) live ids in blast)+
  have trim: "trim_results cf now s l (deciding p) st = retire_loop l s (retire_delete s) (deciding p) order
      (length (cached s st)) (freed (cached s st)) st"
    by (simp add: trim_results_def retireExcess_loop total_bytes_freed order_def eviction_order_def)
  from loop obtain m where m: "least_cut l (map rk_entry order) (length (cached s st)) (freed (cached s st)) m"
    "trim_results cf now s l (deciding p) st =
      (take m (map rk_entry order), fold (\<lambda>x. retire_delete s (rk_indexed x)) (take m order) st)"
    unfolding trim by blast
  have reg: "registered s (fold (\<lambda>x. retire_delete s (rk_indexed x)) (take m order) st) =
      filter (\<lambda>r. r \<notin> rk_indexed ` set (take m order)) (registered s st)"
  proof (rule registered_after_retirement [OF assms(1)])
    show "\<forall>x \<in> set (take m order). live s st x" using live by (meson in_set_takeD)
    show "distinct (map (se_id \<circ> rk_entry) (take m order))" using ids by (metis distinct_take take_map)
  qed
  show "\<exists>m. least_cut l (map rk_entry (eviction_order cf now s p st)) (length (cached s st)) (freed (cached s st)) m \<and>
       fst (trim_results cf now s l (deciding p) st) = take m (map rk_entry (eviction_order cf now s p st)) \<and>
       registered s (snd (trim_results cf now s l (deciding p) st)) =
         filter (\<lambda>r. r \<notin> rk_indexed ` set (take m (eviction_order cf now s p st))) (registered s st)"
    by (rule exI [of _ m]) (use m reg in \<open>simp add: order_def\<close>)
qed

definition no_branch :: world_branch where
  "no_branch = \<lparr>wb_inputSource = False, wb_reconstruct = False, wb_inputResources = None\<rparr>"

theorem trim_evicts_least_valuable_witness:
  "let st = settle_entry sample_config 7 ''scope'' sample_entry no_branch True (new_store :: string store);
       l = \<lparr>cl_maxEntries = Fin 0, cl_maxBytes = Fin 100, cl_hotFraction = None\<rparr>;
       order = eviction_order sample_config 8 ''scope'' (\<lambda>e. True) st in
   sorted_wrt (\<lambda>x y. rk_hot x < rk_hot y \<or> rk_hot x = rk_hot y \<and> rk_value x \<le> rk_value y) order \<and>
   (\<exists>m. fst (trim_results sample_config 8 ''scope'' l (deciding (\<lambda>e. True)) st) = take m (map rk_entry order))"
proof -
  let ?st = "settle_entry sample_config 7 ''scope'' sample_entry no_branch True (new_store :: string store)"
  have "store_ok ?st" by (simp add: store_ok_settle)
  from trim_evicts_least_valuable [OF this, of sample_config 8 "''scope''" "\<lambda>e. True"
      "\<lparr>cl_maxEntries = Fin 0, cl_maxBytes = Fin 100, cl_hotFraction = None\<rparr>"]
  show ?thesis unfolding Let_def by blast
qed

end
