(* ===== verification/Ppm_Trie.thy ===== *)
theory Ppm_Trie
  imports Action_Semantics Recency_Map "HOL-Library.Multiset"
begin

text \<open>
  The suffix trie of prediction by partial matching (\<open>src/ppm-count-trie.ts\<close>): a map from the JSON text of a
  context to its counts.  Counts are real numbers; \<open>collate\<close> stands for the locale-dependent
  \<open>localeCompare\<close>.
\<close>

subsection \<open>State\<close>

record target_count =
  tc_count :: real
  tc_lastSeen :: nat

record context_counts =
  cc_context :: "string list"
  cc_targets :: "(string, target_count) jsmap"
  cc_lastSeen :: nat

record count_trie =
  pt_order :: nat
  pt_counts :: "(string, context_counts) jsmap"

definition new_trie :: "js_num \<Rightarrow> count_trie" where
  "new_trie maxOrder = \<lparr>pt_order = nonNegativeCount (JNum maxOrder), pt_counts = []\<rparr>"

definition trie_size :: "count_trie \<Rightarrow> nat" where
  "trie_size t = length (pt_counts t)"

definition context_text :: "string list \<Rightarrow> string" where
  "context_text ctx = key_text (\<lambda>x. ''0'') (texts ctx)"

definition max_count :: real where "max_count = of_int max_safe"

definition decayedCount :: "target_count \<Rightarrow> js_num \<Rightarrow> js_num \<Rightarrow> real" where
  "decayedCount v sequence halfLife = (case (sequence, halfLife) of
     (Fin s, Fin h) \<Rightarrow> if h \<le> 0 then tc_count v else tc_count v * 2 powr (- max 0 (s - real (tc_lastSeen v)) / h)
   | _ \<Rightarrow> tc_count v)"

fun num_positive :: "js_num \<Rightarrow> bool" where
  "num_positive (Fin h) = (0 < h)"
| "num_positive PInf = True"
| "num_positive _ = False"

definition suffixes :: "nat \<Rightarrow> string list \<Rightarrow> string list list" where
  "suffixes order history = map (\<lambda>l. drop (length history - l) history) [0..<Suc (min (length history) order)]"

definition context_of :: "string list \<Rightarrow> count_trie \<Rightarrow> context_counts" where
  "context_of ctx t = (case map_of (pt_counts t) (context_text ctx) of
     Some c \<Rightarrow> c | None \<Rightarrow> \<lparr>cc_context = ctx, cc_targets = [], cc_lastSeen = 0\<rparr>)"

definition put_target :: "string \<Rightarrow> real \<Rightarrow> nat \<Rightarrow> context_counts \<Rightarrow> context_counts" where
  "put_target target cnt lastSeen c =
     c\<lparr>cc_targets := ms_set target \<lparr>tc_count = cnt, tc_lastSeen = lastSeen\<rparr> (cc_targets c),
       cc_lastSeen := max (cc_lastSeen c) lastSeen\<rparr>"

definition put_context :: "string list \<Rightarrow> context_counts \<Rightarrow> count_trie \<Rightarrow> count_trie" where
  "put_context ctx c t = t\<lparr>pt_counts := ms_set (context_text ctx) c (pt_counts t)\<rparr>"

definition advance_targets :: "nat \<Rightarrow> js_num \<Rightarrow> context_counts \<Rightarrow> context_counts" where
  "advance_targets lastSeen halfLife c =
     (if num_positive halfLife \<and> cc_lastSeen c < lastSeen
      then c\<lparr>cc_targets := map (\<lambda>(k, v).
        (k, \<lparr>tc_count = decayedCount v (Fin (real lastSeen)) halfLife, tc_lastSeen = lastSeen\<rparr>)) (cc_targets c)\<rparr>
      else c)"

definition observe_context :: "string \<Rightarrow> nat \<Rightarrow> js_num \<Rightarrow> context_counts \<Rightarrow> context_counts" where
  "observe_context target lastSeen halfLife c0 =
     (let c = advance_targets lastSeen halfLife c0; previous = map_of (cc_targets c) target in
      put_target target (min max_count ((case previous of Some v \<Rightarrow> tc_count v | None \<Rightarrow> 0) + 1))
        (max (case previous of Some v \<Rightarrow> tc_lastSeen v | None \<Rightarrow> 0) lastSeen) c)"

definition observe_target :: "string list \<Rightarrow> string \<Rightarrow> js_num \<Rightarrow> js_num \<Rightarrow> count_trie \<Rightarrow> count_trie" where
  "observe_target history target sequence halfLife t =
     (if target = [] then t
      else fold (\<lambda>ctx t. put_context ctx
          (observe_context target (nonNegativeCount (JNum sequence)) halfLife (context_of ctx t)) t)
        (suffixes (pt_order t) history) t)"

definition setCount :: "string list \<Rightarrow> string \<Rightarrow> js_val \<Rightarrow> js_num \<Rightarrow> count_trie \<Rightarrow> count_trie" where
  "setCount ctx target cnt lastSeen t = (case cnt of
     JNum (Fin x) \<Rightarrow>
       if target \<noteq> [] \<and> length ctx \<le> pt_order t \<and> 0 < x
       then put_context ctx (put_target target (min max_count x) (nonNegativeCount (JNum lastSeen)) (context_of ctx t)) t
       else t
   | _ \<Rightarrow> t)"

subsection \<open>Distribution\<close>

definition add_estimate :: "string \<Rightarrow> real \<Rightarrow> (string, real) jsmap \<Rightarrow> (string, real) jsmap" where
  "add_estimate target x m = ms_set target ((case map_of m target of Some p \<Rightarrow> p | None \<Rightarrow> 0) + x) m"

definition blend :: "(string \<times> real) list \<Rightarrow> (string, real) jsmap \<times> real \<Rightarrow> (string, real) jsmap \<times> real" where
  "blend weighted s = (case s of (estimates, remaining) \<Rightarrow>
     let total = sum_list (map snd weighted); distinct = real (length (filter (\<lambda>(t, c). 0 < c) weighted)) in
     if total \<le> 0 \<or> distinct \<le> 0 then s
     else (fold (\<lambda>(t, c) m. if 0 < c then add_estimate t (remaining * (c / (total + distinct))) m else m) weighted estimates,
           remaining * (distinct / (total + distinct))))"

definition until_deterministic :: "context_counts list \<Rightarrow> context_counts list" where
  "until_deterministic cs = (case cs of
     [] \<Rightarrow> []
   | c # rest \<Rightarrow> c # takeWhile (\<lambda>x. length (cc_targets x) \<noteq> 1) rest @
       (case dropWhile (\<lambda>x. length (cc_targets x) \<noteq> 1) rest of [] \<Rightarrow> [] | x # _ \<Rightarrow> [x]))"

definition weights :: "js_num \<Rightarrow> js_num \<Rightarrow> context_counts \<Rightarrow> (string \<times> real) list" where
  "weights sequence halfLife c = map (\<lambda>(t, v). (t, decayedCount v sequence halfLife)) (cc_targets c)"

definition mixture :: "string list \<Rightarrow> js_num \<Rightarrow> js_num \<Rightarrow> count_trie \<Rightarrow> (string, real) jsmap \<times> real" where
  "mixture history sequence halfLife t =
     fold (\<lambda>c. blend (weights sequence halfLife c))
       (rev (until_deterministic (concat (map (\<lambda>ctx. case map_of (pt_counts t) (context_text ctx) of
          Some c \<Rightarrow> [c] | None \<Rightarrow> []) (suffixes (pt_order t) history)))))
       ([], 1)"

definition distribution :: "string list \<Rightarrow> js_num \<Rightarrow> js_num \<Rightarrow> count_trie \<Rightarrow> (string, real) jsmap" where
  "distribution history sequence halfLife t =
     (if \<not> ms_has (pt_counts t) ''[]'' then []
      else map (\<lambda>(k, p). (k, clampProbability (Fin p))) (fst (mixture history sequence halfLife t)))"

subsection \<open>Snapshot, restore, trim\<close>

definition context_total :: "context_counts \<Rightarrow> real" where
  "context_total c = sum_list (map (\<lambda>(k, v). tc_count v) (cc_targets c))"

definition is_root :: "context_counts \<Rightarrow> nat" where
  "is_root c = (if cc_context c = [] then 1 else 0)"

definition rank_order ::
  "(string \<Rightarrow> string \<Rightarrow> int) \<Rightarrow> (string \<times> context_counts) \<Rightarrow> (string \<times> context_counts) \<Rightarrow> int" where
  "rank_order collate l r =
     cmp_then (cmp_val (is_root (snd r)) (is_root (snd l)))
       (cmp_then (cmp_val (context_total (snd r)) (context_total (snd l)))
         (cmp_then (cmp_val (length (cc_context (snd r))) (length (cc_context (snd l))))
           (cmp_then (cmp_val (cc_lastSeen (snd r)) (cc_lastSeen (snd l))) (collate (fst l) (fst r)))))"

definition ranked :: "(string \<Rightarrow> string \<Rightarrow> int) \<Rightarrow> count_trie \<Rightarrow> (string \<times> context_counts) list" where
  "ranked collate t = sort_cmp (rank_order collate) (pt_counts t)"

definition snapshot_row :: "(string \<Rightarrow> string \<Rightarrow> int) \<Rightarrow> context_counts \<Rightarrow> js_val" where
  "snapshot_row collate c = JObj
     ([(''context'', texts (cc_context c)),
       (''counts'', JObj (map (\<lambda>(k, v). (k, jnum (tc_count v)))
          (sort_cmp (\<lambda>l r. collate (fst l) (fst r)) (cc_targets c)))),
       (''lastSeen'', jnum (real (cc_lastSeen c)))] @
      (if list_ex (\<lambda>(k, v). tc_lastSeen v \<noteq> cc_lastSeen c) (cc_targets c)
       then [(''targetLastSeen'', JObj (map (\<lambda>(k, v). (k, jnum (real (tc_lastSeen v)))) (cc_targets c)))] else []))"

definition snapshot_limit :: "js_num \<Rightarrow> nat \<Rightarrow> nat" where
  "snapshot_limit maxContexts n = (case maxContexts of Fin x \<Rightarrow> nat (max 1 \<lfloor>x\<rfloor>) | _ \<Rightarrow> n)"

definition trie_snapshot :: "(string \<Rightarrow> string \<Rightarrow> int) \<Rightarrow> js_num \<Rightarrow> count_trie \<Rightarrow> js_val list" where
  "trie_snapshot collate maxContexts t =
     map (\<lambda>(k, c). snapshot_row collate c) (take (snapshot_limit maxContexts (trie_size t)) (ranked collate t))"

definition obj_field :: "js_val \<Rightarrow> string \<Rightarrow> js_val" where
  "obj_field v k = (case v of JObj fs \<Rightarrow> field fs k | _ \<Rightarrow> JUndef)"

text \<open>The number that optional access by a name reads; malformed rows may hold an array or a text there.\<close>

definition number_at :: "js_val \<Rightarrow> string \<Rightarrow> js_num option" where
  "number_at v k = (case (case v of
       JObj fs \<Rightarrow> field fs k
     | JArr xs \<Rightarrow> (if k = ''length'' then jnum (real (length xs))
         else case find (\<lambda>i. nat_text i = k) [0..<length xs] of Some i \<Rightarrow> xs ! i | None \<Rightarrow> JUndef)
     | JStr t \<Rightarrow> if k = ''length'' then jnum (real (length t)) else JUndef
     | _ \<Rightarrow> JUndef) of JNum n \<Rightarrow> Some n | _ \<Rightarrow> None)"

definition row_lastSeen :: "js_val \<Rightarrow> string \<Rightarrow> js_num" where
  "row_lastSeen row target = (case number_at (obj_field row ''targetLastSeen'') target of
     Some n \<Rightarrow> n
   | None \<Rightarrow> (case obj_field row ''lastSeen'' of JNum n \<Rightarrow> n | _ \<Rightarrow> Fin 0))"

definition restore_row :: "js_val \<Rightarrow> count_trie \<Rightarrow> count_trie" where
  "restore_row row t = (case (obj_field row ''context'', obj_field row ''counts'') of
     (JArr vs, JObj counts) \<Rightarrow>
       (case all_texts vs of
          None \<Rightarrow> t
        | Some ctx \<Rightarrow> fold (\<lambda>(k, n). setCount ctx k n (row_lastSeen row k)) counts t)
   | _ \<Rightarrow> t)"

definition trie_restore :: "js_val list \<Rightarrow> count_trie \<Rightarrow> count_trie" where
  "trie_restore rows t = fold restore_row rows (t\<lparr>pt_counts := []\<rparr>)"

definition trie_trim :: "(string \<Rightarrow> string \<Rightarrow> int) \<Rightarrow> js_num \<Rightarrow> count_trie \<Rightarrow> count_trie" where
  "trie_trim collate maxContexts t =
     (let limit = floor_capacity maxContexts in
      if fits (trie_size t) limit then t
      else case limit of
        Fin x \<Rightarrow> t\<lparr>pt_counts := filter (\<lambda>(k, c). k \<notin> fst ` set (drop (nat \<lfloor>x\<rfloor>) (ranked collate t))) (pt_counts t)\<rparr>
      | _ \<Rightarrow> trie_restore (trie_snapshot collate limit t) t)"

subsection \<open>Invariant\<close>

definition targets_ok :: "(string, target_count) jsmap \<Rightarrow> bool" where
  "targets_ok m \<longleftrightarrow> ms_wf m \<and> (\<forall>(k, v) \<in> set m. k \<noteq> [] \<and> 0 < tc_count v \<and> tc_count v \<le> max_count)"

definition context_ok :: "nat \<Rightarrow> context_counts \<Rightarrow> bool" where
  "context_ok order c \<longleftrightarrow> length (cc_context c) \<le> order \<and> targets_ok (cc_targets c) \<and>
     (\<forall>(k, v) \<in> set (cc_targets c). tc_lastSeen v \<le> cc_lastSeen c)"

definition trie_ok :: "count_trie \<Rightarrow> bool" where
  "trie_ok t \<longleftrightarrow> ms_wf (pt_counts t) \<and>
     (\<forall>(k, c) \<in> set (pt_counts t). k = context_text (cc_context c) \<and> cc_targets c \<noteq> [] \<and> context_ok (pt_order t) c)"

lemma context_text_inject [simp]: "context_text a = context_text b \<longleftrightarrow> a = b"
proof -
  have "number_text (\<lambda>x. ''0'')" by (simp add: number_text_def)
  then show ?thesis by (simp add: context_text_def key_text_inject)
qed

lemma context_text_root: "context_text [] = ''[]''"
  by code_simp

lemma max_count_pos: "1 \<le> max_count"
  by (simp add: max_count_def max_safe_def)

lemma trie_okD:
  assumes "trie_ok t" and "map_of (pt_counts t) (context_text ctx) = Some c"
  shows "cc_context c = ctx" "cc_targets c \<noteq> []" "context_ok (pt_order t) c"
  using assms map_of_SomeD [OF assms(2)] by (fastforce simp: trie_ok_def)+

lemma trie_ok_new [simp]: "trie_ok (new_trie n)"
  by (simp add: new_trie_def trie_ok_def)

lemma context_of_ok:
  assumes "trie_ok t" and "length ctx \<le> pt_order t"
  shows "context_ok (pt_order t) (context_of ctx t)" "cc_context (context_of ctx t) = ctx"
  using assms trie_okD [OF assms(1), of ctx]
  by (auto simp: context_of_def context_ok_def targets_ok_def split: option.splits)

lemma put_context_ok:
  assumes "trie_ok t" and "context_ok (pt_order t) c" and "cc_context c = ctx" and "cc_targets c \<noteq> []"
  shows "trie_ok (put_context ctx c t)" "pt_order (put_context ctx c t) = pt_order t"
  using assms by (auto simp: trie_ok_def put_context_def set_ms_set)

lemma put_target_ok:
  assumes "context_ok n c" and "target \<noteq> []" and "0 < cnt" and "cnt \<le> max_count"
  shows "context_ok n (put_target target cnt lastSeen c)"
    "cc_context (put_target target cnt lastSeen c) = cc_context c"
    "cc_targets (put_target target cnt lastSeen c) \<noteq> []"
proof -
  have "ms_set target v m \<noteq> []" for v :: target_count and m by (cases m) (auto split: if_splits)
  then show "cc_targets (put_target target cnt lastSeen c) \<noteq> []" by (simp add: put_target_def)
qed (use assms in \<open>auto simp: context_ok_def targets_ok_def put_target_def set_ms_set\<close>)

lemma decayed_bounds:
  assumes "0 < tc_count v"
  shows "0 < decayedCount v s h" "decayedCount v s h \<le> tc_count v"
proof -
  have "2 powr x \<le> 1" if "x \<le> 0" for x :: real
    using that powr_mono [of x 0 "2 :: real"] by simp
  moreover have "- max 0 (a - real (tc_lastSeen v)) / b \<le> 0" if "\<not> b \<le> 0" for a b
    using that by (simp add: divide_nonpos_pos)
  ultimately show "0 < decayedCount v s h" "decayedCount v s h \<le> tc_count v"
    using assms by (auto simp: decayedCount_def mult_le_cancel_left1 split: js_num.splits)
qed

lemma decayed_le: "0 < tc_count v \<Longrightarrow> tc_count v \<le> m \<Longrightarrow> decayedCount v s h \<le> m"
  by (rule order_trans [OF decayed_bounds(2)])

lemma advance_ok:
  assumes "context_ok n c"
  shows "targets_ok (cc_targets (advance_targets lastSeen h c))"
    "\<And>k v. (k, v) \<in> set (cc_targets (advance_targets lastSeen h c)) \<Longrightarrow> tc_lastSeen v \<le> max (cc_lastSeen c) lastSeen"
proof -
  have old: "k \<noteq> []" "0 < tc_count v" "tc_count v \<le> max_count" "tc_lastSeen v \<le> cc_lastSeen c"
    if "(k, v) \<in> set (cc_targets c)" for k v
    using assms that by (auto simp: context_ok_def targets_ok_def)
  have new: "k \<noteq> [] \<and> 0 < tc_count v \<and> tc_count v \<le> max_count \<and> tc_lastSeen v \<le> max (cc_lastSeen c) lastSeen"
    if "(k, v) \<in> set (cc_targets (advance_targets lastSeen h c))" for k v
    using that old decayed_bounds(1) decayed_le
    by (fastforce simp: advance_targets_def le_max_iff_disj split: if_splits)
  then show "\<And>k v. (k, v) \<in> set (cc_targets (advance_targets lastSeen h c)) \<Longrightarrow> tc_lastSeen v \<le> max (cc_lastSeen c) lastSeen"
    by blast
  have "ms_keys (cc_targets (advance_targets lastSeen h c)) = ms_keys (cc_targets c)"
    by (simp add: advance_targets_def case_prod_beta)
  then show "targets_ok (cc_targets (advance_targets lastSeen h c))"
    using assms new by (auto simp: context_ok_def targets_ok_def ms_wf_def)
qed

lemma advance_frame [simp]:
  "cc_context (advance_targets lastSeen h c) = cc_context c"
  "cc_lastSeen (advance_targets lastSeen h c) = cc_lastSeen c"
  by (simp_all add: advance_targets_def)

lemma observe_context_ok:
  assumes "context_ok n c" and "target \<noteq> []"
  shows "context_ok n (observe_context target lastSeen h c)"
    "cc_context (observe_context target lastSeen h c) = cc_context c"
    "cc_targets (observe_context target lastSeen h c) \<noteq> []"
proof -
  define c1 where "c1 = advance_targets lastSeen h c"
  define x where "x = min max_count ((case map_of (cc_targets c1) target of Some v \<Rightarrow> tc_count v | None \<Rightarrow> 0) + 1)"
  define l where "l = max (case map_of (cc_targets c1) target of Some v \<Rightarrow> tc_lastSeen v | None \<Rightarrow> 0) lastSeen"
  have eq: "observe_context target lastSeen h c = put_target target x l c1"
    by (simp add: observe_context_def Let_def x_def l_def c1_def)
  have t1: "targets_ok (cc_targets c1)" and seen: "\<And>k v. (k, v) \<in> set (cc_targets c1) \<Longrightarrow> tc_lastSeen v \<le> max (cc_lastSeen c) lastSeen"
    unfolding c1_def using advance_ok [OF assms(1)] by blast+
  then have "targets_ok (cc_targets c1) \<and> (\<forall>(k, v) \<in> set (cc_targets c1). tc_lastSeen v \<le> max (cc_lastSeen c) lastSeen)"
    by blast
  then have c2: "context_ok n (c1\<lparr>cc_lastSeen := max (cc_lastSeen c) lastSeen\<rparr>)"
    using assms(1) by (simp add: context_ok_def c1_def)
  have "0 < (case map_of (cc_targets c1) target of Some v \<Rightarrow> tc_count v | None \<Rightarrow> 0) + 1"
    using t1 by (fastforce simp: targets_ok_def dest!: map_of_SomeD split: option.splits)
  then have x: "0 < x" "x \<le> max_count" using max_count_pos by (simp_all add: x_def)
  have "lastSeen \<le> l" by (simp add: l_def)
  then have "put_target target x l c1 = put_target target x l (c1\<lparr>cc_lastSeen := max (cc_lastSeen c) lastSeen\<rparr>)"
    by (simp add: put_target_def c1_def max.assoc max_absorb2)
  with put_target_ok [OF c2 assms(2) x] show "context_ok n (observe_context target lastSeen h c)"
    "cc_context (observe_context target lastSeen h c) = cc_context c"
    "cc_targets (observe_context target lastSeen h c) \<noteq> []"
    unfolding eq by (simp_all add: c1_def)
qed

lemma suffixes_length: "ctx \<in> set (suffixes n h) \<Longrightarrow> length ctx \<le> n"
  by (auto simp: suffixes_def)

lemma trie_ok_fold:
  assumes "\<And>ctx t. trie_ok t \<Longrightarrow> pt_order t = n \<Longrightarrow> ctx \<in> set cs \<Longrightarrow> trie_ok (f ctx t) \<and> pt_order (f ctx t) = n"
    and "trie_ok t" and "pt_order t = n"
  shows "trie_ok (fold f cs t) \<and> pt_order (fold f cs t) = n"
  using assms by (induction cs arbitrary: t) auto

lemma trie_ok_observe:
  assumes "trie_ok t"
  shows "trie_ok (observe_target history target sequence h t) \<and> pt_order (observe_target history target sequence h t) = pt_order t"
proof (cases "target = []")
  case False
  show ?thesis
    unfolding observe_target_def if_not_P [OF False]
  proof (rule trie_ok_fold)
    fix ctx u
    assume u: "trie_ok u" "pt_order u = pt_order t" "ctx \<in> set (suffixes (pt_order t) history)"
    then have "length ctx \<le> pt_order u" by (auto dest: suffixes_length)
    from context_of_ok [OF u(1) this] observe_context_ok [OF _ False] put_context_ok [OF u(1)] u(2)
    show "trie_ok (put_context ctx (observe_context target (nonNegativeCount (JNum sequence)) h (context_of ctx u)) u) \<and>
        pt_order (put_context ctx (observe_context target (nonNegativeCount (JNum sequence)) h (context_of ctx u)) u) = pt_order t"
      by metis
  qed (use assms in auto)
qed (simp add: observe_target_def assms)

lemma trie_ok_setCount:
  assumes "trie_ok t"
  shows "trie_ok (setCount ctx target cnt lastSeen t) \<and> pt_order (setCount ctx target cnt lastSeen t) = pt_order t"
proof -
  { fix x :: real
    assume x: "target \<noteq> []" "length ctx \<le> pt_order t" "0 < x"
    have "0 < min max_count x" using x max_count_pos by simp
    from put_target_ok [OF context_of_ok(1) [OF assms x(2)] x(1) this]
    have "trie_ok (put_context ctx (put_target target (min max_count x) (nonNegativeCount (JNum lastSeen)) (context_of ctx t)) t) \<and>
        pt_order (put_context ctx (put_target target (min max_count x) (nonNegativeCount (JNum lastSeen)) (context_of ctx t)) t) = pt_order t"
      using put_context_ok [OF assms] context_of_ok(2) [OF assms x(2)] by simp }
  with assms show ?thesis
    by (auto simp: setCount_def split: js_val.splits js_num.splits)
qed

lemma trie_ok_restore_row:
  assumes "trie_ok t"
  shows "trie_ok (restore_row row t) \<and> pt_order (restore_row row t) = pt_order t"
proof -
  have "trie_ok (fold (\<lambda>(k, n). setCount ctx k n (ls k)) fs t) \<and>
      pt_order (fold (\<lambda>(k, n). setCount ctx k n (ls k)) fs t) = pt_order t" for ctx ls fs
    by (rule trie_ok_fold) (use assms trie_ok_setCount in \<open>auto split: prod.splits\<close>)
  with assms show ?thesis by (auto simp: restore_row_def split: js_val.splits option.splits)
qed

lemma trie_ok_restore:
  "trie_ok (trie_restore rows t) \<and> pt_order (trie_restore rows t) = pt_order t"
  unfolding trie_restore_def
proof (rule trie_ok_fold)
  show "trie_ok (t\<lparr>pt_counts := []\<rparr>)" by (simp add: trie_ok_def)
qed (use trie_ok_restore_row in auto)

subsection \<open>The distribution is interpolated PPM\<close>

definition prob_at :: "(string, real) jsmap \<Rightarrow> string \<Rightarrow> real" where
  "prob_at m k = (case map_of m k of Some p \<Rightarrow> p | None \<Rightarrow> 0)"

definition mass :: "(string, real) jsmap \<Rightarrow> real" where
  "mass m = sum_list (map snd m)"

text \<open>
  The reference: with total weight \<open>T\<close> of \<open>d\<close> targets, a context predicts a target of weight \<open>w\<close> with
  probability \<open>w / (T + d)\<close> and escapes to the next shorter context with probability \<open>d / (T + d)\<close>.
\<close>

definition escape :: "js_num \<Rightarrow> js_num \<Rightarrow> context_counts \<Rightarrow> real" where
  "escape s h c = real (length (cc_targets c)) / (mass (weights s h c) + real (length (cc_targets c)))"

fun ppm :: "js_num \<Rightarrow> js_num \<Rightarrow> context_counts list \<Rightarrow> string \<Rightarrow> real" where
  "ppm s h [] k = 0"
| "ppm s h (c # cs) k =
     prob_at (weights s h c) k / (mass (weights s h c) + real (length (cc_targets c))) + escape s h c * ppm s h cs k"

fun escapes :: "js_num \<Rightarrow> js_num \<Rightarrow> context_counts list \<Rightarrow> real" where
  "escapes s h [] = 1"
| "escapes s h (c # cs) = escape s h c * escapes s h cs"

definition suffix_contexts :: "string list \<Rightarrow> count_trie \<Rightarrow> context_counts list" where
  "suffix_contexts history t = rev (until_deterministic (concat (map (\<lambda>ctx.
     case map_of (pt_counts t) (context_text ctx) of Some c \<Rightarrow> [c] | None \<Rightarrow> []) (suffixes (pt_order t) history))))"

lemma mass_ms_set: "ms_wf m \<Longrightarrow> mass (ms_set k x m) = mass m - prob_at m k + x"
proof (induction k x m rule: ms_set.induct)
  case (2 k v k' v' m)
  then show ?case
    by (auto simp: mass_def prob_at_def ms_wf_def image_iff split: option.splits dest: map_of_SomeD)
qed (simp add: mass_def prob_at_def)

lemma mass_add [simp]: "ms_wf m \<Longrightarrow> mass (add_estimate k x m) = mass m + x"
  by (simp add: add_estimate_def mass_ms_set prob_at_def)

lemma prob_at_add [simp]: "prob_at (add_estimate k x m) j = prob_at m j + (if j = k then x else 0)"
  by (simp add: add_estimate_def prob_at_def split: option.splits)

lemma ms_wf_add [simp]: "ms_wf m \<Longrightarrow> ms_wf (add_estimate k x m)"
  unfolding add_estimate_def by (rule ms_wf_set)

lemma prob_at_Nil [simp]: "prob_at [] k = 0"
  by (simp add: prob_at_def)

lemma prob_at_Cons: "ms_wf ((k, x) # m) \<Longrightarrow> prob_at ((k, x) # m) j = (if j = k then x else prob_at m j)"
  by (simp add: prob_at_def)

lemma prob_at_absent: "ms_wf ((k, x) # m) \<Longrightarrow> prob_at m k = 0"
  by (auto simp: prob_at_def ms_wf_def split: option.splits dest: map_of_SomeD intro: rev_image_eqI)

lemma add_weights:
  assumes "ms_wf w" and "\<forall>(k, x) \<in> set w. 0 < x" and "ms_wf e"
  shows "ms_wf (fold (\<lambda>(t, c) m. if 0 < c then add_estimate t (r * (c / D)) m else m) w e) \<and>
    mass (fold (\<lambda>(t, c) m. if 0 < c then add_estimate t (r * (c / D)) m else m) w e) = mass e + r * (mass w / D) \<and>
    (\<forall>j. prob_at (fold (\<lambda>(t, c) m. if 0 < c then add_estimate t (r * (c / D)) m else m) w e) j =
      prob_at e j + r * (prob_at w j / D)) \<and>
    set (ms_keys (fold (\<lambda>(t, c) m. if 0 < c then add_estimate t (r * (c / D)) m else m) w e)) =
      set (ms_keys e) \<union> set (ms_keys w)"
  using assms
proof (induction w arbitrary: e)
  case Nil
  then show ?case by (simp add: mass_def)
next
  case (Cons a w)
  obtain k x where a: "a = (k, x)" by fastforce
  have wf: "ms_wf w" "0 < x" "\<forall>(k, x) \<in> set w. 0 < x" "k \<notin> set (ms_keys w)"
    using Cons.prems by (auto simp: a ms_wf_def)
  have e: "ms_wf (add_estimate k (r * (x / D)) e)" using Cons.prems(3) by simp
  have keys: "set (ms_keys (add_estimate k y e)) = insert k (set (ms_keys e))" for y
    unfolding add_estimate_def by (rule jm.present_put_keys)
  have m: "mass (a # w) = x + mass w" by (simp add: a mass_def)
  have p: "prob_at (a # w) j = (if j = k then x else prob_at w j)" for j
    using Cons.prems(1) by (simp add: a prob_at_Cons)
  have z: "prob_at w k = 0" using Cons.prems(1) prob_at_absent by (simp add: a)
  note IH = Cons.IH [OF wf(1,3) e]
  show ?case
    using IH wf(2) Cons.prems(3) z by (auto simp: a p m [unfolded a] p [unfolded a] keys algebra_simps add_divide_distrib simp del: set_map)
qed


lemma weights_facts:
  assumes "targets_ok (cc_targets c)" and "cc_targets c \<noteq> []"
  shows "ms_wf (weights s h c)" "\<forall>(k, x) \<in> set (weights s h c). 0 < x" "weights s h c \<noteq> []"
    "length (filter (\<lambda>(t, c). 0 < c) (weights s h c)) = length (cc_targets c)"
    "ms_keys (weights s h c) = ms_keys (cc_targets c)" "0 < mass (weights s h c)"
proof -
  show keys: "ms_keys (weights s h c) = ms_keys (cc_targets c)"
    by (simp add: weights_def case_prod_beta)
  then show "ms_wf (weights s h c)" using assms by (simp add: targets_ok_def ms_wf_def)
  show pos: "\<forall>(k, x) \<in> set (weights s h c). 0 < x"
    using assms(1) decayed_bounds(1) by (auto simp: targets_ok_def weights_def)
  then have "filter (\<lambda>(t, c). 0 < c) (weights s h c) = weights s h c" by (intro filter_True) auto
  then show "length (filter (\<lambda>(t, c). 0 < c) (weights s h c)) = length (cc_targets c)"
    by (simp add: weights_def)
  show ne: "weights s h c \<noteq> []" using assms(2) by (simp add: weights_def)
  have "0 < mass w" if "\<forall>(k, x) \<in> set w. 0 < x" "w \<noteq> []" for w :: "(string \<times> real) list"
    using that by (induction w) (fastforce simp: mass_def add_pos_pos)+
  with pos ne show "0 < mass (weights s h c)" by blast
qed

lemma blend_step:
  assumes "targets_ok (cc_targets c)" and "cc_targets c \<noteq> []" and "ms_wf e"
  shows "\<exists>e'. blend (weights s h c) (e, r) = (e', r * escape s h c) \<and> ms_wf e' \<and>
    mass e' + r * escape s h c = mass e + r \<and>
    (\<forall>k. prob_at e' k = prob_at e k + r * (prob_at (weights s h c) k / (mass (weights s h c) + real (length (cc_targets c))))) \<and>
    set (ms_keys e') = set (ms_keys e) \<union> set (ms_keys (cc_targets c))"
proof -
  let ?w = "weights s h c" and ?n = "real (length (cc_targets c))"
  note w = weights_facts [OF assms(1,2), of s h]
  have n: "0 < ?n" using assms(2) by simp
  let ?e = "fold (\<lambda>(t, c) m. if 0 < c then add_estimate t (r * (c / (mass ?w + ?n))) m else m) ?w e"
  have b: "blend ?w (e, r) = (?e, r * escape s h c)"
    using w(6) n by (simp add: blend_def Let_def w(4) escape_def not_le flip: mass_def)
  have "mass ?w / (mass ?w + ?n) + escape s h c = 1"
    using w(6) n by (simp add: escape_def add_divide_distrib [symmetric])
  then have "r * (mass ?w / (mass ?w + ?n)) + r * escape s h c = r"
    by (metis distrib_left mult.right_neutral)
  with b add_weights [OF w(1,2) assms(3), of r "mass ?w + ?n"] w(5) show ?thesis by simp
qed

lemma blend_all:
  assumes "\<forall>c \<in> set cs. targets_ok (cc_targets c) \<and> cc_targets c \<noteq> []" and "ms_wf e"
  shows "\<exists>e'. fold (\<lambda>c. blend (weights s h c)) cs (e, r) = (e', r * escapes s h cs) \<and> ms_wf e' \<and>
    mass e' + r * escapes s h cs = mass e + r \<and> (\<forall>k. prob_at e' k = prob_at e k + r * ppm s h cs k) \<and>
    set (ms_keys e') = set (ms_keys e) \<union> (\<Union>c \<in> set cs. set (ms_keys (cc_targets c)))"
  using assms
proof (induction cs arbitrary: e r)
  case (Cons c cs)
  have c: "targets_ok (cc_targets c)" "cc_targets c \<noteq> []" using Cons.prems by auto
  obtain e1 where e1: "blend (weights s h c) (e, r) = (e1, r * escape s h c)" "ms_wf e1"
    "mass e1 + r * escape s h c = mass e + r"
    "\<forall>k. prob_at e1 k = prob_at e k + r * (prob_at (weights s h c) k / (mass (weights s h c) + real (length (cc_targets c))))"
    "set (ms_keys e1) = set (ms_keys e) \<union> set (ms_keys (cc_targets c))"
    using blend_step [OF c Cons.prems(2), of s h r] by blast
  obtain e2 where e2: "fold (\<lambda>c. blend (weights s h c)) cs (e1, r * escape s h c) = (e2, r * escape s h c * escapes s h cs)"
    "ms_wf e2" "mass e2 + r * escape s h c * escapes s h cs = mass e1 + r * escape s h c"
    "\<forall>k. prob_at e2 k = prob_at e1 k + r * escape s h c * ppm s h cs k"
    "set (ms_keys e2) = set (ms_keys e1) \<union> (\<Union>c \<in> set cs. set (ms_keys (cc_targets c)))"
    using Cons.IH [OF _ e1(2), of "r * escape s h c"] Cons.prems(1) by auto
  show ?case
    by (rule exI [of _ e2]) (use e1 e2 in \<open>auto simp: algebra_simps simp del: set_map\<close>)
qed simp

lemma suffix_contexts_ok:
  assumes "trie_ok t" and "c \<in> set (suffix_contexts history t)"
  shows "targets_ok (cc_targets c)" "cc_targets c \<noteq> []"
proof -
  have sub: "set (until_deterministic cs) \<subseteq> set cs" for cs
  proof (cases cs)
    case (Cons a rest)
    have "set (case dropWhile P rest of [] \<Rightarrow> [] | x # _ \<Rightarrow> [x]) \<subseteq> set rest" for P
    proof (cases "dropWhile P rest")
      case Nil
      show ?thesis unfolding Nil by simp
    next
      case (Cons y ys)
      then have "y \<in> set rest" using set_dropWhileD [of y P rest] by simp
      then show ?thesis unfolding Cons by simp
    qed
    then show ?thesis
      by (simp add: Cons until_deterministic_def le_supI1 le_supI2 subset_insertI2)
        (use set_takeWhileD in fastforce)
  qed (simp add: until_deterministic_def)
  from assms(2) have "\<exists>ctx. map_of (pt_counts t) (context_text ctx) = Some c"
    using sub by (fastforce simp: suffix_contexts_def split: option.splits)
  with trie_okD [OF assms(1)] show "targets_ok (cc_targets c)" "cc_targets c \<noteq> []"
    by (auto simp: context_ok_def)
qed


lemma ms_sum_le:
  assumes "ms_wf m" and "\<forall>(k, p) \<in> set m. 0 \<le> p" and "(k, p) \<in> set m"
  shows "p \<le> mass m"
proof -
  have "p \<in> set (map snd m)" using assms(3) by force
  moreover have "\<forall>x \<in> set (map snd m). 0 \<le> x" using assms(2) by auto
  ultimately show ?thesis unfolding mass_def by (metis member_le_sum_list)
qed

lemma escape_range:
  assumes "targets_ok (cc_targets c)" and "cc_targets c \<noteq> []"
  shows "0 < escape s h c" "escape s h c < 1"
  using weights_facts(6) [OF assms, of s h] assms(2) by (auto simp: escape_def)

lemma escapes_range:
  assumes "\<forall>c \<in> set cs. targets_ok (cc_targets c) \<and> cc_targets c \<noteq> []"
  shows "0 < escapes s h cs \<and> escapes s h cs \<le> 1"
  using assms
proof (induction cs)
  case (Cons c cs)
  then have "0 < escape s h c" "escape s h c < 1" using escape_range by auto
  moreover have "0 < escapes s h cs" "escapes s h cs \<le> 1" using Cons by auto
  ultimately show ?case by (simp add: mult_le_one)
qed simp

lemma ppm_pos:
  assumes "\<forall>c \<in> set cs. targets_ok (cc_targets c) \<and> cc_targets c \<noteq> []"
  shows "0 \<le> ppm s h cs k" "k \<in> (\<Union>c \<in> set cs. set (ms_keys (cc_targets c))) \<Longrightarrow> 0 < ppm s h cs k"
proof -
  have step: "0 \<le> prob_at (weights s h c) k" "k \<in> set (ms_keys (cc_targets c)) \<Longrightarrow> 0 < prob_at (weights s h c) k"
    "0 < mass (weights s h c) + real (length (cc_targets c))" "0 < escape s h c"
    if "targets_ok (cc_targets c)" "cc_targets c \<noteq> []" for c
  proof -
    note w = weights_facts [OF that, of s h]
    have "0 < x" if "map_of (weights s h c) k = Some x" for x
      using w(2) map_of_SomeD [OF that] by auto
    then show "0 \<le> prob_at (weights s h c) k" by (auto simp: prob_at_def less_imp_le split: option.splits)
    assume "k \<in> set (ms_keys (cc_targets c))"
    then have "map_of (weights s h c) k \<noteq> None" by (simp only: map_of_eq_None_iff set_map w(5) [symmetric] not_not)
    with \<open>\<And>x. map_of (weights s h c) k = Some x \<Longrightarrow> 0 < x\<close> show "0 < prob_at (weights s h c) k"
      by (auto simp: prob_at_def)
  qed (use weights_facts(6) [OF that, of s h] escape_range [OF that] in \<open>auto intro: add_pos_nonneg\<close>)
  have "0 \<le> ppm s h cs k \<and> (k \<in> (\<Union>c \<in> set cs. set (ms_keys (cc_targets c))) \<longrightarrow> 0 < ppm s h cs k)"
    using assms
  proof (induction cs)
    case (Cons c cs)
    have c: "targets_ok (cc_targets c)" "cc_targets c \<noteq> []"
      and IH: "0 \<le> ppm s h cs k" "k \<in> (\<Union>c \<in> set cs. set (ms_keys (cc_targets c))) \<Longrightarrow> 0 < ppm s h cs k"
      using Cons by auto
    note st = step [OF c]
    show ?case
    proof (intro conjI impI)
      show "0 \<le> ppm s h (c # cs) k" using st(1,3,4) IH(1) by simp
      assume "k \<in> (\<Union>c \<in> set (c # cs). set (ms_keys (cc_targets c)))"
      then consider "k \<in> set (ms_keys (cc_targets c))" | "k \<in> (\<Union>c \<in> set cs. set (ms_keys (cc_targets c)))"
        by auto
      then show "0 < ppm s h (c # cs) k"
      proof cases
        case 1
        with st IH(1) show ?thesis by (simp add: add_pos_nonneg)
      next
        case 2
        with st IH(2) show ?thesis by (simp add: add_nonneg_pos)
      qed
    qed
  qed simp
  then show "0 \<le> ppm s h cs k" "k \<in> (\<Union>c \<in> set cs. set (ms_keys (cc_targets c))) \<Longrightarrow> 0 < ppm s h cs k" by blast+
qed


lemma distribution_facts:
  assumes "trie_ok t" and "map_of (pt_counts t) (context_text []) \<noteq> None"
  shows "(\<forall>k. prob_at (distribution history s h t) k = ppm s h (suffix_contexts history t) k) \<and>
    (\<forall>(k, p) \<in> set (distribution history s h t). 0 < p \<and> p \<le> 1) \<and>
    ms_wf (distribution history s h t) \<and>
    mass (distribution history s h t) + escapes s h (suffix_contexts history t) = 1"
proof -
  let ?cs = "suffix_contexts history t"
  have cs: "\<forall>c \<in> set ?cs. targets_ok (cc_targets c) \<and> cc_targets c \<noteq> []"
    using suffix_contexts_ok [OF assms(1)] by blast
  obtain e where e: "mixture history s h t = (e, escapes s h ?cs)" "ms_wf e" "mass e + escapes s h ?cs = 1"
    "\<forall>k. prob_at e k = ppm s h ?cs k" "set (ms_keys e) = (\<Union>c \<in> set ?cs. set (ms_keys (cc_targets c)))"
    using blend_all [OF cs, of "[]" s h 1] by (auto simp: mixture_def suffix_contexts_def mass_def)
  have pos: "0 < p" if "(k, p) \<in> set e" for k p
  proof -
    have "p = prob_at e k" using that e(2) by (simp add: prob_at_def ms_wf_def)
    moreover have "k \<in> set (ms_keys e)" using that by force
    ultimately show ?thesis using ppm_pos(2) [OF cs] e(4,5) by simp
  qed
  have le: "p \<le> 1" if "(k, p) \<in> set e" for k p
    using ms_sum_le [OF e(2) _ that] pos e(3) escapes_range [OF cs, of s h] by (fastforce simp: less_imp_le)
  have "map (\<lambda>(k, p). (k, clampProbability (Fin p))) e = map id e"
    by (rule map_cong [OF refl]) (use pos le in \<open>auto simp: clampProbability_id less_imp_le\<close>)
  moreover have "ms_has (pt_counts t) ''[]''"
    using assms(2) by (simp add: ms_has_iff context_text_root)
  ultimately have "distribution history s h t = e"
    by (simp add: distribution_def e(1))
  with e(2-4) pos le show ?thesis by auto
qed

subsection \<open>Restoring a snapshot\<close>

definition latest_seen :: "count_trie \<Rightarrow> bool" where
  "latest_seen t \<longleftrightarrow> (\<forall>(k, c) \<in> set (pt_counts t). \<exists>(j, v) \<in> set (cc_targets c). tc_lastSeen v = cc_lastSeen c)"

definition in_locale_order :: "(string \<Rightarrow> string \<Rightarrow> int) \<Rightarrow> context_counts \<Rightarrow> context_counts" where
  "in_locale_order collate c = c\<lparr>cc_targets := sort_cmp (\<lambda>l r. collate (fst l) (fst r)) (cc_targets c)\<rparr>"

lemma ms_set_again [simp]: "ms_set k v (ms_set k w m) = ms_set k v m"
  by (induction k w m rule: ms_set.induct) auto

lemma put_context_again [simp]: "put_context ctx c (put_context ctx d t) = put_context ctx c t"
  by (simp add: put_context_def)

lemma context_of_put [simp]: "context_of ctx (put_context ctx c t) = c"
  by (simp add: context_of_def put_context_def)

lemma pt_order_put [simp]: "pt_order (put_context ctx c t) = pt_order t"
  by (simp add: put_context_def)

lemma fold_setCount:
  assumes "length ctx \<le> pt_order t" and "\<forall>(k, x) \<in> set es. k \<noteq> [] \<and> 0 < x \<and> x \<le> max_count" and "es \<noteq> []"
  shows "fold (\<lambda>(k, n). setCount ctx k n (ls k)) (map (\<lambda>(k, x). (k, jnum x)) es) t =
    put_context ctx (fold (\<lambda>(k, x). put_target k x (nonNegativeCount (JNum (ls k)))) es (context_of ctx t)) t"
  using assms
proof (induction es arbitrary: t)
  case (Cons a es)
  obtain k x where a: "a = (k, x)" "k \<noteq> []" "0 < x" "x \<le> max_count" using Cons.prems(2) by (cases a) auto
  let ?t = "put_context ctx (put_target k x (nonNegativeCount (JNum (ls k))) (context_of ctx t)) t"
  have one: "setCount ctx k (jnum x) (ls k) t = ?t"
    using a Cons.prems(1) by (simp add: setCount_def min_def)
  show ?case
  proof (cases "es = []")
    case True
    with one show ?thesis by (simp add: a)
  next
    case False
    have "fold (\<lambda>(k, n). setCount ctx k n (ls k)) (map (\<lambda>(k, x). (k, jnum x)) es) ?t =
        put_context ctx (fold (\<lambda>(k, x). put_target k x (nonNegativeCount (JNum (ls k)))) es (context_of ctx ?t)) ?t"
      by (rule Cons.IH) (use Cons.prems False in auto)
    with one show ?thesis by (simp add: a(1))
  qed
qed simp

lemma fold_put_target:
  assumes "distinct (map fst vs)" and "set (map fst vs) \<inter> set (ms_keys (cc_targets c)) = {}"
  shows "fold (\<lambda>(k, v). put_target k (tc_count v) (tc_lastSeen v)) vs c =
    c\<lparr>cc_targets := cc_targets c @ vs, cc_lastSeen := fold (\<lambda>(k, v) l. max l (tc_lastSeen v)) vs (cc_lastSeen c)\<rparr>"
  using assms
proof (induction vs arbitrary: c)
  case (Cons a vs)
  obtain k v where a: "a = (k, v)" by fastforce
  have v: "\<lparr>tc_count = tc_count v, tc_lastSeen = tc_lastSeen v\<rparr> = v" by simp
  have put: "put_target k (tc_count v) (tc_lastSeen v) c =
      c\<lparr>cc_targets := cc_targets c @ [(k, v)], cc_lastSeen := max (cc_lastSeen c) (tc_lastSeen v)\<rparr>"
    using Cons.prems(2) by (simp add: put_target_def a ms_set_new v)
  have "fold (\<lambda>(k, v). put_target k (tc_count v) (tc_lastSeen v)) vs (put_target k (tc_count v) (tc_lastSeen v) c) =
      (put_target k (tc_count v) (tc_lastSeen v) c)\<lparr>cc_targets := cc_targets (put_target k (tc_count v) (tc_lastSeen v) c) @ vs,
        cc_lastSeen := fold (\<lambda>(k, v) l. max l (tc_lastSeen v)) vs (cc_lastSeen (put_target k (tc_count v) (tc_lastSeen v) c))\<rparr>"
    by (rule Cons.IH) (use Cons.prems in \<open>auto simp: put a\<close>)
  then show ?case by (simp add: a put)
qed simp

lemma fold_max_attained:
  fixes m :: nat
  assumes "\<forall>(k, v) \<in> set vs. f v \<le> m" and "l \<le> m" and "l = m \<or> (\<exists>(k, v) \<in> set vs. f v = m)"
  shows "fold (\<lambda>(k, v) l. max l (f v)) vs l = m"
  using assms by (induction vs arbitrary: l) (fastforce simp: max_def)+

lemma mset_insert_cmp: "mset (insert_cmp c x ys) = add_mset x (mset ys)"
  by (induction c x ys rule: insert_cmp.induct) auto

lemma mset_sort_cmp [simp]: "mset (sort_cmp c xs) = mset xs"
  by (induction xs) (auto simp: mset_insert_cmp)

lemma distinct_keys_sort_cmp [simp]: "distinct (map f (sort_cmp c xs)) = distinct (map f xs)"
  by (metis mset_map mset_sort_cmp mset_eq_imp_distinct_iff)

lemma map_of_permuted:
  assumes "mset m = mset n" and "ms_wf n"
  shows "map_of m = map_of n"
  using assms by (metis ms_wf_def map_of_inject_set mset_eq_setD mset_map mset_eq_imp_distinct_iff)


lemma row_lastSeen_snapshot:
  assumes "ms_wf (cc_targets c)" and "(k, v) \<in> set (cc_targets c)"
  shows "row_lastSeen (snapshot_row collate c) k = Fin (real (tc_lastSeen v))"
proof -
  have m: "map_of (map (\<lambda>(k, v). (k, jnum (real (tc_lastSeen v)))) (cc_targets c)) k = Some (jnum (real (tc_lastSeen v)))"
    using assms by (simp add: map_of_map ms_wf_def)
  show ?thesis
  proof (cases "list_ex (\<lambda>(k, v). tc_lastSeen v \<noteq> cc_lastSeen c) (cc_targets c)")
    case True
    then show ?thesis
      by (simp add: row_lastSeen_def number_at_def snapshot_row_def obj_field_def field_def m)
  next
    case False
    then have "tc_lastSeen v = cc_lastSeen c" using assms(2) by (auto simp: list_ex_iff)
    with False show ?thesis
      by (simp add: row_lastSeen_def number_at_def snapshot_row_def obj_field_def field_def)
  qed
qed

lemma all_texts_texts [simp]: "all_texts (map JStr ss) = Some ss"
  by (simp add: all_texts_def list_all_iff comp_def)

lemma row_fields:
  "obj_field (snapshot_row collate c) ''context'' = texts (cc_context c)"
  "obj_field (snapshot_row collate c) ''counts'' =
     JObj (map (\<lambda>(k, v). (k, jnum (tc_count v))) (sort_cmp (\<lambda>l r. collate (fst l) (fst r)) (cc_targets c)))"
  by (simp_all add: snapshot_row_def obj_field_def field_def)

lemma restore_snapshot_row:
  assumes ok: "context_ok (pt_order t) c" and ne: "cc_targets c \<noteq> []"
    and latest: "\<exists>(j, v) \<in> set (cc_targets c). tc_lastSeen v = cc_lastSeen c"
    and absent: "map_of (pt_counts t) (context_text (cc_context c)) = None"
  shows "restore_row (snapshot_row collate c) t = put_context (cc_context c) (in_locale_order collate c) t"
proof -
  let ?vs = "sort_cmp (\<lambda>l r. collate (fst l) (fst r)) (cc_targets c)"
  let ?es = "map (\<lambda>(k, v). (k, tc_count v)) ?vs"
  let ?ls = "row_lastSeen (snapshot_row collate c)"
  have wf: "ms_wf (cc_targets c)" using ok by (simp add: context_ok_def targets_ok_def)
  have ls: "nonNegativeCount (JNum (?ls k)) = tc_lastSeen v" if "(k, v) \<in> set ?vs" for k v
    using row_lastSeen_snapshot [OF wf, of k v collate] that by (simp add: nonNegativeCount_def)
  have nonempty: "?vs \<noteq> []" using ne by (metis length_sort_cmp length_0_conv)
  have es: "map (\<lambda>(k, x). (k, jnum x)) ?es = map (\<lambda>(k, v). (k, jnum (tc_count v))) ?vs"
    unfolding map_map by (rule map_cong [OF refl]) auto
  have "restore_row (snapshot_row collate c) t =
      fold (\<lambda>(k, n). setCount (cc_context c) k n (?ls k)) (map (\<lambda>(k, x). (k, jnum x)) ?es) t"
    unfolding es by (simp add: restore_row_def row_fields texts_def del: map_map)
  also have "\<dots> = put_context (cc_context c)
      (fold (\<lambda>(k, x). put_target k x (nonNegativeCount (JNum (?ls k)))) ?es (context_of (cc_context c) t)) t"
    by (rule fold_setCount) (use ok nonempty in \<open>auto simp: context_ok_def targets_ok_def\<close>)
  also have "fold (\<lambda>(k, x). put_target k x (nonNegativeCount (JNum (?ls k)))) ?es (context_of (cc_context c) t) =
      fold (\<lambda>(k, v). put_target k (tc_count v) (tc_lastSeen v)) ?vs (context_of (cc_context c) t)"
    unfolding fold_map by (rule fold_cong [OF refl refl]) (use ls in \<open>auto simp: fun_eq_iff\<close>)
  also have "\<dots> = (context_of (cc_context c) t)\<lparr>cc_targets := cc_targets (context_of (cc_context c) t) @ ?vs,
      cc_lastSeen := fold (\<lambda>(k, v) l. max l (tc_lastSeen v)) ?vs (cc_lastSeen (context_of (cc_context c) t))\<rparr>"
    by (rule fold_put_target) (use wf absent in \<open>auto simp: context_of_def ms_wf_def\<close>)
  also have "fold (\<lambda>(k, v) l. max l (tc_lastSeen v)) ?vs (cc_lastSeen (context_of (cc_context c) t)) = cc_lastSeen c"
    by (rule fold_max_attained) (use ok absent latest in \<open>auto simp: context_ok_def context_of_def\<close>)
  finally show ?thesis
    by (simp only: context_of_def absent option.case in_locale_order_def) (cases c; simp)
qed

lemma put_context_absent:
  assumes "map_of (pt_counts t) (context_text ctx) = None"
  shows "put_context ctx c t = t\<lparr>pt_counts := pt_counts t @ [(context_text ctx, c)]\<rparr>"
proof -
  have "context_text ctx \<notin> set (ms_keys (pt_counts t))" using assms by (simp add: map_of_eq_None_iff)
  then show ?thesis by (simp add: put_context_def ms_set_new)
qed

definition restorable :: "nat \<Rightarrow> (string \<times> context_counts) \<Rightarrow> bool" where
  "restorable n e \<longleftrightarrow> fst e = context_text (cc_context (snd e)) \<and> context_ok n (snd e) \<and> cc_targets (snd e) \<noteq> [] \<and>
     (\<exists>(j, v) \<in> set (cc_targets (snd e)). tc_lastSeen v = cc_lastSeen (snd e))"

lemma restore_rows:
  assumes "distinct (map fst es)" and "\<forall>e \<in> set es. restorable (pt_order t) e"
    and "set (map fst es) \<inter> set (ms_keys (pt_counts t)) = {}"
  shows "fold restore_row (map (\<lambda>(k, c). snapshot_row collate c) es) t =
    t\<lparr>pt_counts := pt_counts t @ map (\<lambda>(k, c). (k, in_locale_order collate c)) es\<rparr>"
  using assms
proof (induction es arbitrary: t)
  case (Cons a es)
  obtain k c where a: "a = (k, c)" by fastforce
  have r: "restorable (pt_order t) (k, c)" using Cons.prems(2) by (simp add: a)
  have absent: "map_of (pt_counts t) (context_text (cc_context c)) = None"
    using Cons.prems(3) r by (auto simp: a restorable_def map_of_eq_None_iff)
  have row: "restore_row (snapshot_row collate c) t = t\<lparr>pt_counts := pt_counts t @ [(k, in_locale_order collate c)]\<rparr>"
    using r restore_snapshot_row [OF _ _ _ absent] put_context_absent [OF absent] by (simp add: restorable_def)
  have "fold restore_row (map (\<lambda>(k, c). snapshot_row collate c) es) (t\<lparr>pt_counts := pt_counts t @ [(k, in_locale_order collate c)]\<rparr>) =
      (t\<lparr>pt_counts := pt_counts t @ [(k, in_locale_order collate c)]\<rparr>)\<lparr>pt_counts :=
        pt_counts (t\<lparr>pt_counts := pt_counts t @ [(k, in_locale_order collate c)]\<rparr>) @ map (\<lambda>(k, c). (k, in_locale_order collate c)) es\<rparr>"
    by (rule Cons.IH) (use Cons.prems in \<open>auto simp: a\<close>)
  then show ?case by (simp add: a row)
qed simp


lemma restore_snapshot:
  assumes "trie_ok t" and "latest_seen t" and "pt_order u = pt_order t"
  shows "pt_counts (trie_restore (trie_snapshot collate PInf t) u) =
    map (\<lambda>(k, c). (k, in_locale_order collate c)) (ranked collate t)"
proof -
  have "trie_snapshot collate PInf t = map (\<lambda>(k, c). snapshot_row collate c) (ranked collate t)"
    by (simp add: trie_snapshot_def snapshot_limit_def trie_size_def ranked_def)
  moreover have "fold restore_row (map (\<lambda>(k, c). snapshot_row collate c) (ranked collate t)) (u\<lparr>pt_counts := []\<rparr>) =
      (u\<lparr>pt_counts := []\<rparr>)\<lparr>pt_counts := pt_counts (u\<lparr>pt_counts := []\<rparr>) @ map (\<lambda>(k, c). (k, in_locale_order collate c)) (ranked collate t)\<rparr>"
  proof (rule restore_rows)
    show "distinct (map fst (ranked collate t))" using assms(1) by (simp add: ranked_def trie_ok_def ms_wf_def)
    show "\<forall>e \<in> set (ranked collate t). restorable (pt_order (u\<lparr>pt_counts := []\<rparr>)) e"
      using assms by (auto simp: ranked_def restorable_def trie_ok_def latest_seen_def)
  qed simp
  ultimately show ?thesis by (simp add: trie_restore_def)
qed

lemma map_of_mapped: "map_of (map (\<lambda>(k, c). (k, g c)) m) k = map_option g (map_of m k)"
  by (induction m) auto

lemma restored_lookup:
  assumes "trie_ok t" and "latest_seen t" and "pt_order u = pt_order t"
  shows "map_of (pt_counts (trie_restore (trie_snapshot collate PInf t) u)) k =
    map_option (in_locale_order collate) (map_of (pt_counts t) k)"
  using assms map_of_permuted [of "ranked collate t" "pt_counts t"]
  by (simp add: restore_snapshot map_of_mapped trie_ok_def ranked_def)

lemma in_locale_order_facts:
  assumes "ms_wf (cc_targets c)"
  shows "map_of (cc_targets (in_locale_order collate c)) = map_of (cc_targets c)"
    "mset (weights s h (in_locale_order collate c)) = mset (weights s h c)"
    "length (cc_targets (in_locale_order collate c)) = length (cc_targets c)"
  using assms by (auto simp: in_locale_order_def weights_def intro: map_of_permuted)

lemma ppm_in_locale_order:
  assumes "\<forall>c \<in> set cs. ms_wf (cc_targets c)"
  shows "ppm s h (map (in_locale_order collate) cs) k = ppm s h cs k"
  using assms
proof (induction cs)
  case (Cons c cs)
  have wf: "ms_wf (cc_targets c)" using Cons.prems by simp
  note f = in_locale_order_facts [OF wf]
  have "ms_wf (weights s h c)" using wf by (simp add: weights_def case_prod_beta ms_wf_def comp_def)
  with f(2) have "map_of (weights s h (in_locale_order collate c)) = map_of (weights s h c)"
    by (rule map_of_permuted)
  moreover have "mass (weights s h (in_locale_order collate c)) = mass (weights s h c)"
    using f(2) unfolding mass_def by (metis mset_map sum_mset_sum_list)
  ultimately show ?case using Cons f(3) by (simp add: prob_at_def escape_def)
qed simp

lemma until_deterministic_map:
  assumes "\<And>c. length (cc_targets (g c)) = length (cc_targets c)"
  shows "until_deterministic (map g cs) = map g (until_deterministic cs)"
proof (cases cs)
  case (Cons a rest)
  have P: "(\<lambda>x. length (cc_targets (g x)) \<noteq> 1) = (\<lambda>x. length (cc_targets x) \<noteq> 1)"
    by (simp add: assms)
  have hd: "(case map g xs of [] \<Rightarrow> [] | x # _ \<Rightarrow> [x]) = map g (case xs of [] \<Rightarrow> [] | x # _ \<Rightarrow> [x])" for xs
    by (cases xs) auto
  show ?thesis
    by (simp only: Cons until_deterministic_def list.map list.case takeWhile_map dropWhile_map comp_def P map_append hd)
qed (simp add: until_deterministic_def)

lemma suffix_contexts_restored:
  assumes "\<And>k. map_of (pt_counts r) k = map_option g (map_of (pt_counts t) k)" and "pt_order r = pt_order t"
    and "\<And>c. length (cc_targets (g c)) = length (cc_targets c)"
  shows "suffix_contexts history r = map g (suffix_contexts history t)"
proof -
  have "concat (map (\<lambda>ctx. case map_of (pt_counts r) (context_text ctx) of Some c \<Rightarrow> [c] | None \<Rightarrow> []) xs) =
      map g (concat (map (\<lambda>ctx. case map_of (pt_counts t) (context_text ctx) of Some c \<Rightarrow> [c] | None \<Rightarrow> []) xs))" for xs
    by (induction xs) (auto simp: assms(1) split: option.splits)
  then show ?thesis by (simp add: suffix_contexts_def assms(2) until_deterministic_map [of g, OF assms(3)] rev_map)
qed

lemma latest_seen_new [simp]: "latest_seen (new_trie n)"
  by (simp add: latest_seen_def new_trie_def)


lemma ms_set_in: "(k, v) \<in> set (ms_set k v m)"
  by (metis jm.get_put map_of_SomeD)

lemma in_set_ms_set: "(j, w) \<in> set m \<Longrightarrow> j \<noteq> k \<Longrightarrow> (j, w) \<in> set (ms_set k v m)"
  by (induction k v m rule: ms_set.induct) auto

lemma put_latest:
  assumes "cc_lastSeen c \<le> l"
  shows "\<exists>(j, v) \<in> set (cc_targets (put_target target x l c)). tc_lastSeen v = cc_lastSeen (put_target target x l c)"
  using assms ms_set_in [of target "\<lparr>tc_count = x, tc_lastSeen = l\<rparr>" "cc_targets c"]
  by (intro bexI [of _ "(target, \<lparr>tc_count = x, tc_lastSeen = l\<rparr>)"]) (simp_all add: put_target_def max_absorb2)

lemma observe_latest:
  assumes "ms_wf (cc_targets c)" and "cc_targets c = [] \<Longrightarrow> cc_lastSeen c = 0"
    and "cc_targets c \<noteq> [] \<Longrightarrow> \<exists>(j, v) \<in> set (cc_targets c). tc_lastSeen v = cc_lastSeen c"
  shows "\<exists>(j, v) \<in> set (cc_targets (observe_context target lastSeen h c)).
    tc_lastSeen v = cc_lastSeen (observe_context target lastSeen h c)"
proof -
  define c1 where "c1 = advance_targets lastSeen h c"
  define x where "x = min max_count ((case map_of (cc_targets c1) target of Some v \<Rightarrow> tc_count v | None \<Rightarrow> 0) + 1)"
  define l where "l = max (case map_of (cc_targets c1) target of Some v \<Rightarrow> tc_lastSeen v | None \<Rightarrow> 0) lastSeen"
  have eq: "observe_context target lastSeen h c = put_target target x l c1"
    by (simp add: observe_context_def Let_def x_def l_def c1_def)
  have seen: "cc_lastSeen c1 = cc_lastSeen c" by (simp add: c1_def)
  show ?thesis
  proof (cases "cc_lastSeen c \<le> l")
    case True
    then show ?thesis unfolding eq by (intro put_latest) (simp add: seen)
  next
    case False
    then have less: "lastSeen < cc_lastSeen c" by (auto simp: l_def)
    then have c1: "c1 = c" by (simp add: c1_def advance_targets_def)
    have "cc_targets c \<noteq> []" using assms(2) less by auto
    then obtain j v where jv: "(j, v) \<in> set (cc_targets c)" "tc_lastSeen v = cc_lastSeen c"
      using assms(3) by auto
    have "j \<noteq> target"
    proof
      assume "j = target"
      then have "map_of (cc_targets c) target = Some v" using jv(1) assms(1) by (simp add: ms_wf_def)
      with jv(2) False show False by (simp add: l_def c1)
    qed
    from in_set_ms_set [OF jv(1) this] jv(2) False show ?thesis
      unfolding eq c1 by (intro bexI [of _ "(j, v)"]) (simp_all add: put_target_def max_absorb1)
  qed
qed

lemma latest_seen_observe:
  assumes "trie_ok t" and "latest_seen t"
  shows "latest_seen (observe_target history target sequence h t)"
proof (cases "target = []")
  case False
  have "trie_ok u \<and> latest_seen u \<and> pt_order u = pt_order t"
    if "u = fold (\<lambda>ctx t. put_context ctx (observe_context target (nonNegativeCount (JNum sequence)) h (context_of ctx t)) t) cs t"
      and "set cs \<subseteq> set (suffixes (pt_order t) history)" for u cs
    using that
  proof (induction cs arbitrary: u rule: rev_induct)
    case (snoc ctx cs)
    let ?v = "fold (\<lambda>ctx t. put_context ctx (observe_context target (nonNegativeCount (JNum sequence)) h (context_of ctx t)) t) cs t"
    have v: "trie_ok ?v" "latest_seen ?v" "pt_order ?v = pt_order t" using snoc.IH [OF refl] snoc.prems(2) by auto
    have len: "length ctx \<le> pt_order ?v" using snoc.prems(2) v(3) suffixes_length by auto
    let ?c = "context_of ctx ?v"
    note c = context_of_ok [OF v(1) len]
    note o = observe_context_ok [OF c(1) False, of "nonNegativeCount (JNum sequence)" h]
    have "cc_targets ?c \<noteq> [] \<Longrightarrow> \<exists>(j, v) \<in> set (cc_targets ?c). tc_lastSeen v = cc_lastSeen ?c"
      using v(2) by (auto simp: latest_seen_def context_of_def split: option.splits dest!: map_of_SomeD)
    moreover have "cc_targets ?c = [] \<Longrightarrow> cc_lastSeen ?c = 0"
      using trie_okD(2) [OF v(1)] by (auto simp: context_of_def split: option.splits)
    ultimately have lat: "\<exists>(j, v) \<in> set (cc_targets (observe_context target (nonNegativeCount (JNum sequence)) h ?c)).
        tc_lastSeen v = cc_lastSeen (observe_context target (nonNegativeCount (JNum sequence)) h ?c)"
      using c(1) by (intro observe_latest) (auto simp: context_ok_def targets_ok_def)
    have u: "u = put_context ctx (observe_context target (nonNegativeCount (JNum sequence)) h ?c) ?v"
      using snoc.prems(1) by simp
    have "ms_wf (pt_counts ?v)" using v(1) by (simp add: trie_ok_def)
    then have "latest_seen u"
      using v(2) lat by (auto simp: u latest_seen_def put_context_def set_ms_set)
    moreover have "trie_ok u" "pt_order u = pt_order t"
      using put_context_ok [OF v(1) o(1) _ o(3)] o(2) c(2) v(3) by (auto simp: u)
    ultimately show ?case by blast
  qed (use assms in simp)
  then show ?thesis by (simp add: observe_target_def False)
qed (simp add: observe_target_def assms)

subsection \<open>Properties\<close>

text \<open>C17. The distribution of a well-formed trie with a root context is interpolated PPM (\<open>ppm\<close>) over the populated
  suffixes of the history, longest first, cut at the first deterministic one: every estimate is the blended
  probability of its target and lies in (0, 1], and the estimates together with the probability of escaping every
  context sum to one, so the clamp never changes a value.\<close>

theorem distribution_is_interpolated_ppm:
  assumes "trie_ok t" and "map_of (pt_counts t) (context_text []) \<noteq> None"
  shows "(\<forall>k. prob_at (distribution history s h t) k = ppm s h (suffix_contexts history t) k) \<and>
    (\<forall>(k, p) \<in> set (distribution history s h t). 0 < p \<and> p \<le> 1) \<and>
    mass (distribution history s h t) + escapes s h (suffix_contexts history t) = 1"
  using distribution_facts [OF assms] by blast

definition sample_trie :: count_trie where
  "sample_trie = observe_target [''a''] ''c'' (Fin 2) PInf (observe_target [''a''] ''b'' (Fin 1) PInf (new_trie (Fin 1)))"

lemma sample_trie_ok: "trie_ok sample_trie" "latest_seen sample_trie"
  using trie_ok_observe latest_seen_observe by (auto simp: sample_trie_def)

lemma sample_trie_root: "map_of (pt_counts sample_trie) (context_text []) \<noteq> None"
  by code_simp

theorem distribution_is_interpolated_ppm_witness:
  "mass (distribution [''a''] PInf PInf sample_trie) + escapes PInf PInf (suffix_contexts [''a''] sample_trie) = 1"
  using distribution_is_interpolated_ppm [OF sample_trie_ok(1) sample_trie_root] by blast

text \<open>C33. Restoring the unbounded snapshot of a well-formed trie into any trie of the same order gives every context its
  evidence back (context, recency and the counts of its targets), and every later prediction is the same, in
  whatever locale the rows were sorted.\<close>

theorem snapshot_restores_the_evidence:
  assumes "trie_ok t" and "latest_seen t" and "pt_order u = pt_order t"
  shows "(\<forall>k. rel_option (\<lambda>c d. cc_context c = cc_context d \<and> cc_lastSeen c = cc_lastSeen d \<and>
        map_of (cc_targets c) = map_of (cc_targets d))
      (map_of (pt_counts (trie_restore (trie_snapshot collate PInf t) u)) k) (map_of (pt_counts t) k)) \<and>
    (\<forall>history s h k. prob_at (distribution history s h (trie_restore (trie_snapshot collate PInf t) u)) k =
      prob_at (distribution history s h t) k)"
proof (intro conjI allI)
  let ?r = "trie_restore (trie_snapshot collate PInf t) u"
  note look = restored_lookup [OF assms]
  have wf: "ms_wf (cc_targets c)" if "map_of (pt_counts t) k = Some c" for k c
    using assms(1) map_of_SomeD [OF that] by (fastforce simp: trie_ok_def context_ok_def targets_ok_def)
  fix k
  show "rel_option (\<lambda>c d. cc_context c = cc_context d \<and> cc_lastSeen c = cc_lastSeen d \<and>
      map_of (cc_targets c) = map_of (cc_targets d)) (map_of (pt_counts ?r) k) (map_of (pt_counts t) k)"
    using wf [of k] in_locale_order_facts(1)
    by (cases "map_of (pt_counts t) k") (auto simp: look in_locale_order_def)
next
  let ?r = "trie_restore (trie_snapshot collate PInf t) u"
  fix history s h k
  note look = restored_lookup [OF assms]
  have r: "trie_ok ?r" "pt_order ?r = pt_order t" using trie_ok_restore assms(3) by auto
  show "prob_at (distribution history s h ?r) k = prob_at (distribution history s h t) k"
  proof (cases "map_of (pt_counts t) (context_text []) = None")
    case True
    then have "\<not> ms_has (pt_counts ?r) ''[]''" "\<not> ms_has (pt_counts t) ''[]''"
      by (simp_all add: ms_has_iff look context_text_root)
    then show ?thesis by (simp add: distribution_def)
  next
    case False
    then have "map_of (pt_counts ?r) (context_text []) \<noteq> None" by (simp add: look)
    moreover have "suffix_contexts history ?r = map (in_locale_order collate) (suffix_contexts history t)"
      by (rule suffix_contexts_restored) (auto simp: look r in_locale_order_def)
    moreover have "\<forall>c \<in> set (suffix_contexts history t). ms_wf (cc_targets c)"
      using suffix_contexts_ok(1) [OF assms(1)] by (auto simp: targets_ok_def)
    ultimately show ?thesis
      using distribution_facts [OF r(1)] distribution_facts [OF assms(1) False] by (simp add: ppm_in_locale_order)
  qed
qed

theorem snapshot_restores_the_evidence_witness:
  "prob_at (distribution [''a''] PInf PInf (trie_restore (trie_snapshot (\<lambda>a b. 0) PInf sample_trie) sample_trie)) ''b'' =
    prob_at (distribution [''a''] PInf PInf sample_trie) ''b''"
  using snapshot_restores_the_evidence [OF sample_trie_ok refl] by blast

lemma ranked_sorted:
  assumes "\<And>a b. collate a b \<le> 0 \<or> collate b a \<le> 0"
    and "\<And>a b c. collate a b \<le> 0 \<Longrightarrow> collate b c \<le> 0 \<Longrightarrow> collate a c \<le> 0"
  shows "sorted_wrt (\<lambda>a b. rank_order collate a b \<le> 0) (ranked collate t)"
  unfolding ranked_def
proof (rule sorted_sort_cmp)
  show "rank_order collate x y \<le> 0 \<or> rank_order collate y x \<le> 0" for x y
    using assms(1) [of "fst x" "fst y"] by (auto simp: rank_order_def cmp_then_def cmp_val_def)
  show "rank_order collate x z \<le> 0" if "rank_order collate x y \<le> 0" "rank_order collate y z \<le> 0" for x y z
    using that assms(2) [of "fst x" "fst y" "fst z"]
    by (auto simp: rank_order_def cmp_then_def cmp_val_def split: if_splits)
qed

lemma trimmed_to_best:
  assumes "ms_wf (pt_counts t)"
    and cut: "pt_counts r = filter (\<lambda>(k, c). k \<notin> fst ` set (drop n (ranked collate t))) (pt_counts t)"
  shows "set (pt_counts r) = set (take n (ranked collate t))"
    "length (pt_counts r) = min n (length (pt_counts t))" "\<And>k c. (k, c) \<in> set (pt_counts r) \<Longrightarrow> map_of (pt_counts r) k = Some c"
proof -
  let ?R = "ranked collate t"
  have R: "distinct (map fst ?R)" "set ?R = set (pt_counts t)" "length ?R = length (pt_counts t)"
    using assms(1) by (simp_all add: ranked_def ms_wf_def)
  have "distinct (map fst (take n ?R) @ map fst (drop n ?R))"
    using R(1) by (metis append_take_drop_id map_append)
  then have disj: "fst ` set (take n ?R) \<inter> fst ` set (drop n ?R) = {}" by simp
  have split: "set (pt_counts t) = set (take n ?R) \<union> set (drop n ?R)"
    using R(2) by (metis append_take_drop_id set_append)
  show set: "set (pt_counts r) = set (take n ?R)"
  proof -
    have "(a, c) \<notin> set (drop n ?R)" if "(a, b) \<in> set (take n ?R)" for a b c
      using disj that by (metis IntI empty_iff fst_conv imageI)
    then show ?thesis unfolding cut set_filter split by (auto intro: rev_image_eqI)
  qed
  have "distinct (map fst (pt_counts r))"
    unfolding cut using assms(1) by (simp add: ms_wf_def distinct_map_filter)
  then show "\<And>k c. (k, c) \<in> set (pt_counts r) \<Longrightarrow> map_of (pt_counts r) k = Some c" by simp
  have "distinct (pt_counts r)" using \<open>distinct (map fst (pt_counts r))\<close> by (simp add: distinct_map)
  then have "length (pt_counts r) = card (set (take n ?R))" by (metis distinct_card set)
  also have "\<dots> = length (take n ?R)" using R(1) by (intro distinct_card distinct_take) (simp add: distinct_map)
  finally show "length (pt_counts r) = min n (length (pt_counts t))" by (simp add: R(3) min.commute)
qed

text \<open>Trimming to a finite limit leaves \<open>max 1 (floor limit)\<close> contexts (or all, when there are fewer), unchanged; the
  root context is never dropped, and no dropped context ranks before a kept one.\<close>

theorem trim_keeps_the_best_contexts:
  assumes "trie_ok t" and "\<And>a b. collate a b \<le> 0 \<or> collate b a \<le> 0"
    and "\<And>a b c. collate a b \<le> 0 \<Longrightarrow> collate b c \<le> 0 \<Longrightarrow> collate a c \<le> 0"
  shows "trie_size (trie_trim collate (Fin x) t) = min (trie_size t) (nat (max 1 \<lfloor>x\<rfloor>)) \<and>
    set (pt_counts (trie_trim collate (Fin x) t)) \<subseteq> set (pt_counts t) \<and>
    (map_of (pt_counts t) (context_text []) \<noteq> None \<longrightarrow>
      map_of (pt_counts (trie_trim collate (Fin x) t)) (context_text []) = map_of (pt_counts t) (context_text [])) \<and>
    (\<forall>kept \<in> set (pt_counts (trie_trim collate (Fin x) t)).
      \<forall>e \<in> set (pt_counts t) - set (pt_counts (trie_trim collate (Fin x) t)). rank_order collate kept e \<le> 0)"
proof (cases "trie_size t \<le> nat (max 1 \<lfloor>x\<rfloor>)")
  case True
  then have "fits (trie_size t) (floor_capacity (Fin x))"
    by (auto simp: fits_def floor_capacity_def le_nat_iff)
  then show ?thesis using True by (simp add: trie_trim_def Let_def)
next
  case False
  let ?n = "nat (max 1 \<lfloor>x\<rfloor>)" and ?r = "trie_trim collate (Fin x) t"
  from False have "\<not> fits (trie_size t) (floor_capacity (Fin x))"
    by (auto simp: fits_def floor_capacity_def le_nat_iff)
  then have cut: "pt_counts ?r = filter (\<lambda>(k, c). k \<notin> fst ` set (drop ?n (ranked collate t))) (pt_counts t)"
    by (simp add: trie_trim_def Let_def floor_capacity_def)
  have wf: "ms_wf (pt_counts t)" using assms(1) by (simp add: trie_ok_def)
  note kept = trimmed_to_best [OF wf cut]
  have sorted: "sorted_wrt (\<lambda>a b. rank_order collate a b \<le> 0) (ranked collate t)"
    by (rule ranked_sorted [OF assms(2,3)])
  have best: "rank_order collate k e \<le> 0" if "k \<in> set (take ?n (ranked collate t))" "e \<in> set (drop ?n (ranked collate t))" for k e
    using sorted that by (metis append_take_drop_id sorted_wrt_append)
  have size: "trie_size ?r = ?n" using kept(2) False by (simp add: trie_size_def)
  have "map_of (pt_counts ?r) (context_text []) = Some c" if c: "map_of (pt_counts t) (context_text []) = Some c" for c
  proof -
    have "(context_text [], c) \<in> set (take ?n (ranked collate t))"
    proof (rule ccontr)
      assume "(context_text [], c) \<notin> set (take ?n (ranked collate t))"
      moreover have "(context_text [], c) \<in> set (ranked collate t)" using map_of_SomeD [OF c] by (simp add: ranked_def)
      ultimately have late: "(context_text [], c) \<in> set (drop ?n (ranked collate t))"
        by (metis Un_iff append_take_drop_id set_append)
      have "0 < length (take ?n (ranked collate t))" using False by (simp add: trie_size_def ranked_def)
      then obtain e where e: "e \<in> set (take ?n (ranked collate t))" by (metis length_greater_0_conv hd_in_set)
      have "is_root (snd e) = 1"
        using best [OF e late] trie_okD(1) [OF assms(1) c] by (auto simp: rank_order_def cmp_then_def cmp_val_def is_root_def split: if_splits)
      then have "fst e = context_text []"
        using in_set_takeD [OF e] assms(1) by (auto simp: ranked_def trie_ok_def is_root_def split: if_splits)
      then have "fst e \<in> fst ` set (drop ?n (ranked collate t))" using late by force
      moreover have "e \<in> set (pt_counts ?r)" using e kept(1) by simp
      ultimately show False by (simp add: cut case_prod_beta)
    qed
    then show ?thesis using kept(1,3) by simp
  qed
  moreover have split: "set (pt_counts t) = set (take ?n (ranked collate t)) \<union> set (drop ?n (ranked collate t))"
    by (metis append_take_drop_id ranked_def set_append set_sort_cmp)
  ultimately show ?thesis
    using size False best unfolding kept(1) split by auto
qed


theorem trim_keeps_the_best_contexts_witness:
  "trie_size (trie_trim (\<lambda>a b. 0) (Fin 1) sample_trie) = min (trie_size sample_trie) (nat (max 1 \<lfloor>1 :: real\<rfloor>))"
  using trim_keeps_the_best_contexts [OF sample_trie_ok(1), of "\<lambda>a b. 0" 1] by simp

end
