(* ===== verification/Timeline_Intervals.thy ===== *)
theory Timeline_Intervals
  imports Settlement
begin

text \<open>
  The interval arithmetic of \<open>src/task-timing.ts\<close>: what an interval keeps outside the parts it shares
  (\<open>exclusiveIntervals\<close>), the length of a union (\<open>unionDuration\<close>), the same length attributed to the
  producers of its parts (\<open>attributeUnion\<close>), the speedup ratio, and the clock whose pauses cut a calculation
  into spans (\<open>CalculationClock\<close>; the current time is an argument of its operations).

  \<open>measured S r\<close> says that the set \<open>S\<close> of instants is a finite union of half-open intervals of total length
  \<open>r\<close>; it determines \<open>r\<close>.  The lemmas show that the sweeps compute lengths in this sense.
\<close>

subsection \<open>Intervals\<close>

abbreviation span :: "real \<Rightarrow> real \<Rightarrow> interval" where
  "span s e \<equiv> \<lparr>startedAt = s, completedAt = e\<rparr>"

definition by_start :: "interval list \<Rightarrow> interval list" where
  "by_start = sort_cmp (cmp_by startedAt)"

definition exclude_part :: "interval \<Rightarrow> interval \<Rightarrow> interval list \<times> real \<Rightarrow> interval list \<times> real" where
  "exclude_part iv part s = (case s of (found, from) \<Rightarrow>
     if completedAt part \<le> from \<or> completedAt iv \<le> startedAt part then s
     else (found @ (if from < startedAt part then [span from (startedAt part)] else []),
           min (completedAt iv) (max from (completedAt part))))"

definition exclusiveIntervals :: "interval \<Rightarrow> interval list \<Rightarrow> interval list" where
  "exclusiveIntervals iv shared =
     (case fold (exclude_part iv) (by_start shared) ([], startedAt iv) of
        (found, from) \<Rightarrow> found @ (if from < completedAt iv then [span from (completedAt iv)] else []))"

definition union_step :: "interval \<Rightarrow> real \<times> real \<Rightarrow> real \<times> real" where
  "union_step iv s = (case s of (so_far, until) \<Rightarrow>
     (so_far + max 0 (completedAt iv - max until (startedAt iv)), max until (completedAt iv)))"

definition unionDuration :: "interval list \<Rightarrow> real" where
  "unionDuration ivs = fst (fold union_step (by_start ivs) (0, 0))"

record 'p point =
  pt_at :: real
  pt_delta :: int
  pt_producer :: "'p option"

record ('k, 'p) sweep =
  sw_active :: "('k, 'p \<times> int) jsmap"
  sw_previous :: real
  sw_unknown :: int
  sw_total :: real
  sw_credits :: "('p \<times> real) list"

definition sweep_points :: "(interval \<times> 'p option) list \<Rightarrow> 'p point list" where
  "sweep_points spans = sort_cmp (cmp_by pt_at) (concat (map (\<lambda>(iv, p).
     [\<lparr>pt_at = startedAt iv, pt_delta = 1, pt_producer = p\<rparr>,
      \<lparr>pt_at = completedAt iv, pt_delta = -1, pt_producer = p\<rparr>]) spans))"

definition sweep_gap :: "real \<Rightarrow> ('k, 'p) sweep \<Rightarrow> ('k, 'p) sweep" where
  "sweep_gap tick s =
     s\<lparr>sw_total := sw_total s + (if sw_previous s < tick \<and> (0 < sw_unknown s \<or> sw_active s \<noteq> [])
         then tick - sw_previous s else 0),
       sw_credits := sw_credits s @ (case sw_active s of
           [(k, producer, n)] \<Rightarrow> if sw_previous s < tick \<and> sw_unknown s = 0 then [(producer, tick - sw_previous s)] else []
         | _ \<Rightarrow> []),
       sw_previous := tick\<rparr>"

definition sweep_point :: "('p \<Rightarrow> 'k) \<Rightarrow> 'p point \<Rightarrow> ('k, 'p) sweep \<Rightarrow> ('k, 'p) sweep" where
  "sweep_point keyOf p s0 = (let s = sweep_gap (pt_at p) s0 in
     case pt_producer p of
       None \<Rightarrow> s\<lparr>sw_unknown := sw_unknown s + pt_delta p\<rparr>
     | Some producer \<Rightarrow>
         let k = keyOf producer;
             n = (case map_of (sw_active s) k of Some (_, m) \<Rightarrow> m | None \<Rightarrow> 0) + pt_delta p in
         s\<lparr>sw_active := (if n \<noteq> 0 then ms_set k (producer, n) (sw_active s) else ms_del k (sw_active s))\<rparr>)"

definition new_sweep :: "('k, 'p) sweep" where
  "new_sweep = \<lparr>sw_active = [], sw_previous = 0, sw_unknown = 0, sw_total = 0, sw_credits = []\<rparr>"

text \<open>The total, and the calls of \<open>credit\<close> in their order.\<close>

definition attributeUnion :: "('p \<Rightarrow> 'k) \<Rightarrow> (interval \<times> 'p option) list \<Rightarrow> real \<times> ('p \<times> real) list" where
  "attributeUnion keyOf spans =
     (let s = fold (sweep_point keyOf) (sweep_points spans) new_sweep in (sw_total s, sw_credits s))"

definition toolSpeedup :: "js_num option \<Rightarrow> real \<Rightarrow> bool \<Rightarrow> real option" where
  "toolSpeedup toolComputeMs hiddenComputeMs hiddenComputeIncomplete = (case toolComputeMs of
     Some (Fin t) \<Rightarrow> if \<not> hiddenComputeIncomplete \<and> 0 \<le> hiddenComputeMs \<and> hiddenComputeMs < t
       then Some (t / (t - hiddenComputeMs)) else None
   | _ \<Rightarrow> None)"

subsection \<open>Total length\<close>

definition instants :: "interval \<Rightarrow> real set" where
  "instants iv = {startedAt iv ..< completedAt iv}"

definition covered :: "interval list \<Rightarrow> real set" where
  "covered ivs = (\<Union>iv \<in> set ivs. instants iv)"

definition lengths :: "interval list \<Rightarrow> real" where
  "lengths ivs = sum_list (map (\<lambda>iv. completedAt iv - startedAt iv) ivs)"

fun separated :: "real \<Rightarrow> interval list \<Rightarrow> bool" where
  "separated l [] = True"
| "separated l (iv # ivs) = (l \<le> startedAt iv \<and> startedAt iv < completedAt iv \<and> separated (completedAt iv) ivs)"

definition measured :: "real set \<Rightarrow> real \<Rightarrow> bool" where
  "measured S r \<longleftrightarrow> (\<exists>l ivs. separated l ivs \<and> covered ivs = S \<and> r = lengths ivs)"

lemma covered_simps [simp]:
  "covered [] = {}" "covered (iv # ivs) = instants iv \<union> covered ivs" "covered (xs @ ys) = covered xs \<union> covered ys"
  by (auto simp: covered_def)

lemma lengths_simps [simp]:
  "lengths [] = 0" "lengths (iv # ivs) = completedAt iv - startedAt iv + lengths ivs" "lengths (xs @ ys) = lengths xs + lengths ys"
  by (auto simp: lengths_def)

lemma separated_lower: "separated l ivs \<Longrightarrow> t \<in> covered ivs \<Longrightarrow> l \<le> t"
  by (induction l ivs rule: separated.induct) (fastforce simp: instants_def)+

lemma separated_mono: "separated l ivs \<Longrightarrow> m \<le> l \<Longrightarrow> separated m ivs"
  by (cases ivs) auto

lemma lengths_nonneg: "separated l ivs \<Longrightarrow> 0 \<le> lengths ivs"
  by (induction l ivs rule: separated.induct) auto

lemma separated_snoc:
  "separated l (ivs @ [iv]) \<longleftrightarrow> separated l ivs \<and> l \<le> startedAt iv \<and> startedAt iv < completedAt iv \<and>
     (\<forall>jv \<in> set ivs. completedAt jv \<le> startedAt iv)"
  by (induction l ivs rule: separated.induct) auto

lemma covered_tail: "separated l (d # ds) \<Longrightarrow> covered ds = covered (d # ds) - instants d"
proof -
  assume s: "separated l (d # ds)"
  have "x \<notin> covered ds" if "x < completedAt d" for x
    using s that separated_lower [of "completedAt d" ds x] by auto
  then show ?thesis by (auto simp: instants_def)
qed

lemma lengths_mono:
  assumes "separated l ds" and "separated m es" and "covered ds \<subseteq> covered es"
  shows "lengths ds \<le> lengths es"
  using assms
proof (induction "length ds + length es" arbitrary: l m ds es rule: less_induct)
  case less
  show ?case
  proof (cases ds)
    case Nil
    with lengths_nonneg [OF less.prems(2)] show ?thesis by simp
  next
    case d: (Cons d ds')
    show ?thesis
    proof (cases es)
      case Nil
      have "startedAt d \<in> covered ds" using less.prems(1) by (simp add: d instants_def)
      with less.prems(3) Nil show ?thesis by auto
    next
      case e: (Cons e es')
      have ds': "separated (completedAt d) ds'" "startedAt d < completedAt d"
        and es': "separated (completedAt e) es'" "startedAt e < completedAt e"
        using less.prems(1,2) by (auto simp: d e)
      note ct = covered_tail [OF less.prems(1) [unfolded d]] covered_tail [OF less.prems(2) [unfolded e]]
      have sub: "covered (d # ds') \<subseteq> covered (e # es')" using less.prems(3) by (simp only: d e)
      show ?thesis
      proof (cases "completedAt e \<le> startedAt d")
        case True
        have "t \<notin> instants e" if "t \<in> covered (d # ds')" for t
          using separated_lower [of "startedAt d" "d # ds'" t] that ds' True by (auto simp: instants_def)
        then have "covered (d # ds') \<subseteq> covered es'" using sub ct(2) by blast
        then have "lengths ds \<le> lengths es'"
          using less.hyps [of ds es' l "completedAt e"] less.prems(1) es'(1) by (simp only: d e) simp
        with es'(2) show ?thesis by (simp add: e)
      next
        case False
        have "startedAt d \<in> covered (e # es')" using sub ds'(2) by (auto simp: instants_def)
        then have ce: "startedAt e \<le> startedAt d" using separated_lower [of "startedAt e" "e # es'"] es' by auto
        show ?thesis
        proof (cases "completedAt d < completedAt e")
          case True
          let ?e = "span (completedAt d) (completedAt e)"
          have "covered ds' \<subseteq> covered (?e # es')"
          proof
            fix t assume t: "t \<in> covered ds'"
            then have "completedAt d \<le> t" using separated_lower [OF ds'(1)] by simp
            moreover have "t \<in> instants e \<or> t \<in> covered es'" using t sub by auto
            ultimately show "t \<in> covered (?e # es')" by (auto simp: instants_def)
          qed
          then have "lengths ds' \<le> lengths (?e # es')"
            using less.hyps [of ds' "?e # es'" "completedAt d" "completedAt d"] ds'(1) es'(1) True by (simp add: d e del: covered_simps)
          with ce show ?thesis by (simp add: d e)
        next
          case False
          show ?thesis
          proof (cases "completedAt d = completedAt e")
            case True
            have "covered ds' \<subseteq> covered es'"
            proof
              fix t assume t: "t \<in> covered ds'"
              then have "completedAt e \<le> t" using separated_lower [OF ds'(1)] True by simp
              moreover have "t \<in> instants e \<or> t \<in> covered es'" using t sub by auto
              ultimately show "t \<in> covered es'" by (auto simp: instants_def)
            qed
            then have "lengths ds' \<le> lengths es'"
              using less.hyps [of ds' es'] ds'(1) es'(1) by (simp add: d e)
            with ce True show ?thesis by (simp add: d e)
          next
            case neq: False
            let ?d = "span (completedAt e) (completedAt d)"
            have "covered (?d # ds') \<subseteq> covered es'"
            proof
              fix t assume t: "t \<in> covered (?d # ds')"
              then have ge: "completedAt e \<le> t"
                using separated_lower [OF ds'(1), of t] False by (auto simp: instants_def)
              have "t \<in> covered (d # ds')" using t \<open>\<not> completedAt e \<le> startedAt d\<close> by (auto simp: instants_def)
              with sub ge show "t \<in> covered es'" by (auto simp: instants_def)
            qed
            then have "lengths (?d # ds') \<le> lengths es'"
              using less.hyps [of "?d # ds'" es' "completedAt e" "completedAt e"] ds'(1) es'(1) False neq by (simp add: d e del: covered_simps)
            with ce show ?thesis by (simp add: d e)
          qed
        qed
      qed
    qed
  qed
qed

lemma measured_mono: "measured S r \<Longrightarrow> measured T q \<Longrightarrow> S \<subseteq> T \<Longrightarrow> r \<le> q"
  unfolding measured_def using lengths_mono by blast

lemma measured_unique: "measured S r \<Longrightarrow> measured S q \<Longrightarrow> r = q"
  by (meson measured_mono order_antisym subset_refl)

lemma measured_nonneg: "measured S r \<Longrightarrow> 0 \<le> r"
  unfolding measured_def using lengths_nonneg by blast

subsection \<open>exclusiveIntervals and unionDuration\<close>

lemma by_start_facts [simp]: "set (by_start ivs) = set ivs" "length (by_start ivs) = length ivs" "sorted (map startedAt (by_start ivs))"
  by (simp_all add: by_start_def sorted_sort_cmp_by)

lemma covered_by_start [simp]: "covered (by_start ivs) = covered ivs"
  by (simp add: covered_def)

definition proper :: "interval \<Rightarrow> bool" where
  "proper iv \<longleftrightarrow> startedAt iv \<le> completedAt iv"

lemma separated_append_span:
  assumes "separated l ivs" and "\<forall>jv \<in> set ivs. completedAt jv \<le> s" and "l \<le> s" and "s < e"
  shows "separated l (ivs @ [span s e])"
  using assms by (simp add: separated_snoc)


definition excluding :: "interval \<Rightarrow> real set \<Rightarrow> interval list \<Rightarrow> real \<Rightarrow> bool" where
  "excluding iv D found s \<longleftrightarrow> separated (startedAt iv) found \<and> startedAt iv \<le> s \<and> s \<le> completedAt iv \<and>
     (\<forall>jv \<in> set found. completedAt jv \<le> s) \<and> covered found = {startedAt iv ..< s} - D \<and> D \<inter> {s ..< completedAt iv} = {}"

lemma before_part: "\<forall>jv \<in> set found. completedAt jv \<le> startedAt p \<Longrightarrow> covered found \<inter> instants p = {}"
  by (fastforce simp: covered_def instants_def)

lemma exclude_one:
  assumes ex: "excluding iv D found s" and p: "proper p" and before: "\<forall>jv \<in> set found. completedAt jv \<le> startedAt p"
  shows "\<exists>found' s'. exclude_part iv p (found, s) = (found', s') \<and> excluding iv (D \<union> instants p) found' s' \<and>
    (\<forall>jv \<in> set found'. completedAt jv \<le> startedAt p)"
proof (cases "completedAt p \<le> s \<or> completedAt iv \<le> startedAt p")
  case True
  have "{startedAt iv ..< s} - (D \<union> instants p) = {startedAt iv ..< s} - D"
    using before_part [OF before] ex by (auto simp: excluding_def)
  moreover have "(D \<union> instants p) \<inter> {s ..< completedAt iv} = {}"
    using True ex by (auto simp: excluding_def instants_def)
  ultimately show ?thesis using True ex before by (simp add: exclude_part_def excluding_def)
next
  case False
  let ?s = "min (completedAt iv) (max s (completedAt p))"
  let ?new = "if s < startedAt p then [span s (startedAt p)] else []"
  have cov: "covered found = {startedAt iv ..< s} - D" "D \<inter> {s ..< completedAt iv} = {}" "startedAt iv \<le> s"
    using ex by (auto simp: excluding_def)
  have sep: "separated (startedAt iv) (found @ ?new)"
    using ex separated_append_span by (simp add: excluding_def)
  have "covered ?new = {s ..< startedAt p}" by (simp add: instants_def)
  then have "covered (found @ ?new) = ({startedAt iv ..< s} - D) \<union> {s ..< startedAt p}"
    by (simp only: covered_simps cov(1))
  also have "\<dots> = {startedAt iv ..< ?s} - (D \<union> instants p)"
  proof (rule set_eqI)
    fix t
    have "t \<notin> instants p" if "t \<in> {startedAt iv ..< s} - D"
      using before_part [OF before] that cov(1) by blast
    moreover have "t \<notin> D" if "s \<le> t" "t < completedAt iv" using cov(2) that by auto
    ultimately show "t \<in> ({startedAt iv ..< s} - D) \<union> {s ..< startedAt p} \<longleftrightarrow> t \<in> {startedAt iv ..< ?s} - (D \<union> instants p)"
      using False cov(3) p by (auto simp: instants_def proper_def min_def max_def)
  qed
  finally have "covered (found @ ?new) = {startedAt iv ..< ?s} - (D \<union> instants p)" .
  moreover have "(D \<union> instants p) \<inter> {?s ..< completedAt iv} = {}"
  proof -
    have "s \<le> ?s" using ex by (simp add: excluding_def)
    then have "{?s ..< completedAt iv} \<subseteq> {s ..< completedAt iv}" by auto
    moreover have "instants p \<inter> {?s ..< completedAt iv} = {}" by (auto simp: instants_def)
    ultimately show ?thesis using cov(2) by blast
  qed
  moreover have "\<forall>jv \<in> set (found @ ?new). completedAt jv \<le> startedAt p \<and> completedAt jv \<le> ?s"
    using ex before p False by (auto simp: excluding_def proper_def)
  moreover have "startedAt iv \<le> ?s" "?s \<le> completedAt iv" using ex by (auto simp: excluding_def)
  ultimately show ?thesis using sep False by (auto simp: exclude_part_def excluding_def simp del: covered_simps)
qed

lemma exclude_all:
  assumes "excluding iv D found s" and "\<forall>p \<in> set ps. proper p" and "sorted (map startedAt ps)"
    and "\<forall>p \<in> set ps. \<forall>jv \<in> set found. completedAt jv \<le> startedAt p"
  shows "\<exists>found' s'. fold (exclude_part iv) ps (found, s) = (found', s') \<and> excluding iv (D \<union> covered ps) found' s'"
  using assms
proof (induction ps arbitrary: D found s)
  case (Cons p ps)
  obtain f1 s1 where one: "exclude_part iv p (found, s) = (f1, s1)" "excluding iv (D \<union> instants p) f1 s1"
    "\<forall>jv \<in> set f1. completedAt jv \<le> startedAt p"
    using exclude_one [OF Cons.prems(1), of p] Cons.prems(2,4) by (metis list.set_intros(1))
  have later: "\<forall>q \<in> set ps. \<forall>jv \<in> set f1. completedAt jv \<le> startedAt q"
    using one(3) Cons.prems(3) by fastforce
  have "\<forall>q \<in> set ps. proper q" "sorted (map startedAt ps)" using Cons.prems(2,3) by simp_all
  from Cons.IH [OF one(2) this later] show ?case by (simp add: one(1) Un_assoc)
qed simp

lemma exclusive_facts:
  assumes "proper iv" and "\<forall>p \<in> set shared. proper p"
  shows "separated (startedAt iv) (exclusiveIntervals iv shared)"
    "covered (exclusiveIntervals iv shared) = instants iv - covered shared"
proof -
  have "excluding iv {} [] (startedAt iv)" using assms(1) by (simp add: excluding_def proper_def)
  from exclude_all [OF this, of "by_start shared"] assms(2)
  obtain f s where f: "fold (exclude_part iv) (by_start shared) ([], startedAt iv) = (f, s)" "excluding iv (covered shared) f s"
    by auto
  show "separated (startedAt iv) (exclusiveIntervals iv shared)"
    using f separated_append_span [of "startedAt iv" f s] by (simp add: exclusiveIntervals_def excluding_def)
  have "covered (exclusiveIntervals iv shared) = covered f \<union> {s ..< completedAt iv}"
    by (simp add: exclusiveIntervals_def f(1) instants_def)
  also have "\<dots> = instants iv - covered shared"
    using f(2) by (auto simp: excluding_def instants_def)
  finally show "covered (exclusiveIntervals iv shared) = instants iv - covered shared" .
qed

lemma measured_empty [simp]: "measured {} 0"
  unfolding measured_def by (rule exI [of _ 0], rule exI [of _ "[]"]) simp

lemma separated_intervals: "separated l ivs \<Longrightarrow> iv \<in> set ivs \<Longrightarrow> startedAt iv < completedAt iv \<and> l \<le> startedAt iv"
  by (induction l ivs rule: separated.induct) force+

lemma measured_append:
  assumes "measured S r" and "S \<subseteq> {..< a}" and "a \<le> b"
  shows "measured (S \<union> {a ..< b}) (r + (b - a))"
proof (cases "a = b")
  case False
  with assms(3) have "a < b" by simp
  from assms(1) obtain l ivs where ivs: "separated l ivs" "covered ivs = S" "r = lengths ivs"
    unfolding measured_def by blast
  have "completedAt iv \<le> a" if "iv \<in> set ivs" for iv
  proof (rule ccontr)
    assume "\<not> completedAt iv \<le> a"
    then have "max a (startedAt iv) \<in> instants iv" using separated_intervals [OF ivs(1) that] by (auto simp: instants_def)
    then have "max a (startedAt iv) \<in> S" using that ivs(2) by (auto simp: covered_def)
    with assms(2) show False by auto
  qed
  then have "separated (min l a) (ivs @ [span a b])"
    using separated_mono [OF ivs(1), of "min l a"] \<open>a < b\<close> by (simp add: separated_append_span)
  moreover have "covered (ivs @ [span a b]) = S \<union> {a ..< b}" using ivs(2) by (simp add: instants_def)
  moreover have "lengths (ivs @ [span a b]) = r + (b - a)" using ivs(3) by simp
  ultimately show ?thesis unfolding measured_def by metis
qed (use assms in simp)

definition spanning :: "real set \<Rightarrow> real \<Rightarrow> real \<Rightarrow> bool" where
  "spanning D r e \<longleftrightarrow> measured D r \<and> 0 \<le> e \<and> D \<subseteq> {..< e}"

lemma union_all:
  assumes "spanning D r e" and "sorted (map startedAt ps)" and "\<forall>p \<in> set ps. proper p \<and> 0 \<le> startedAt p"
    and "\<forall>p \<in> set ps. {startedAt p ..< e} \<subseteq> D"
  shows "measured (D \<union> covered ps) (fst (fold union_step ps (r, e)))"
  using assms
proof (induction ps arbitrary: D r e)
  case (Cons p ps)
  define e' where "e' = max e (completedAt p)"
  define r' where "r' = r + max 0 (completedAt p - max e (startedAt p))"
  have p: "startedAt p \<le> completedAt p" "0 \<le> startedAt p" "{startedAt p ..< e} \<subseteq> D"
    using Cons.prems(3,4) by (auto simp: proper_def)
  have D: "measured D r" "D \<subseteq> {..< e}" "0 \<le> e" using Cons.prems(1) by (auto simp: spanning_def)
  let ?a = "max e (startedAt p)"
  let ?b = "max ?a (completedAt p)"
  have "D \<union> instants p = D \<union> {?a ..< ?b}"
    using p(3) by (auto simp: instants_def max_def split: if_splits)
  moreover have "measured (D \<union> {?a ..< ?b}) (r + (?b - ?a))"
    by (rule measured_append [OF D(1)]) (use D(2) in auto)
  moreover have "r + (?b - ?a) = r'" by (auto simp: r'_def max_def)
  ultimately have m: "measured (D \<union> instants p) r'" by simp
  have "spanning (D \<union> instants p) r' e'"
    unfolding spanning_def using m D p(1,2) by (auto simp: e'_def instants_def)
  moreover have "sorted (map startedAt ps)" "\<forall>q \<in> set ps. proper q \<and> 0 \<le> startedAt q" using Cons.prems(2,3) by simp_all
  moreover have "\<forall>q \<in> set ps. {startedAt q ..< e'} \<subseteq> D \<union> instants p"
  proof
    fix q
    assume q: "q \<in> set ps"
    then have "{startedAt q ..< e} \<subseteq> D" "startedAt p \<le> startedAt q" using Cons.prems(2,4) by simp_all
    moreover have "x < e" if "x < e'" "\<not> x < completedAt p" for x using that by (simp add: e'_def less_max_iff_disj)
    ultimately show "{startedAt q ..< e'} \<subseteq> D \<union> instants p" by (force simp: instants_def)
  qed
  ultimately have "measured ((D \<union> instants p) \<union> covered ps) (fst (fold union_step ps (r', e')))"
    by (rule Cons.IH)
  moreover have "union_step p (r, e) = (r', e')" by (simp add: union_step_def r'_def e'_def)
  ultimately show ?case by (simp add: Un_assoc)
qed (simp add: spanning_def)

lemma union_facts:
  assumes "\<forall>p \<in> set ivs. proper p \<and> 0 \<le> startedAt p"
  shows "measured (covered ivs) (unionDuration ivs)"
proof -
  have "spanning {} 0 0" by (simp add: spanning_def)
  from union_all [OF this, of "by_start ivs"] assms show ?thesis
    by (simp add: unionDuration_def)
qed

subsection \<open>attributeUnion\<close>

abbreviation key_of :: "('p \<Rightarrow> 'k) \<Rightarrow> 'p option \<Rightarrow> 'k option" where
  "key_of keyOf \<equiv> map_option keyOf"

text \<open>How many intervals of a key (\<open>None\<close>: of no producer) contain an instant.\<close>

definition holders :: "('p \<Rightarrow> 'k) \<Rightarrow> (interval \<times> 'p option) list \<Rightarrow> 'k option \<Rightarrow> real \<Rightarrow> nat" where
  "holders keyOf spans c t = length (filter (\<lambda>(iv, p). key_of keyOf p = c \<and> t \<in> instants iv) spans)"

definition sum_deltas :: "('p \<Rightarrow> 'k) \<Rightarrow> 'k option \<Rightarrow> 'p point list \<Rightarrow> int" where
  "sum_deltas keyOf c ps = sum_list (map pt_delta (filter (\<lambda>p. key_of keyOf (pt_producer p) = c) ps))"

definition only_key :: "('p \<Rightarrow> 'k) \<Rightarrow> (interval \<times> 'p option) list \<Rightarrow> 'k \<Rightarrow> real set" where
  "only_key keyOf spans k = {t. 0 < holders keyOf spans (Some k) t \<and> (\<forall>c. c \<noteq> Some k \<longrightarrow> holders keyOf spans c t = 0)}"

definition credited :: "('p \<Rightarrow> 'k) \<Rightarrow> 'k \<Rightarrow> ('p \<times> real) list \<Rightarrow> real" where
  "credited keyOf k cs = sum_list (map snd (filter (\<lambda>(p, d). keyOf p = k) cs))"

lemma sum_deltas_simps [simp]:
  "sum_deltas f c [] = 0" "sum_deltas f c (p # ps) = (if key_of f (pt_producer p) = c then pt_delta p else 0) + sum_deltas f c ps"
  "sum_deltas f c (ps @ qs) = sum_deltas f c ps + sum_deltas f c qs"
  by (auto simp: sum_deltas_def)

lemma sum_deltas_sorted:
  "sum_deltas f c (filter P (sort_cmp cmp ps)) = sum_deltas f c (filter P ps)"
proof (induction ps)
  case (Cons p ps)
  have "sum_deltas f c (filter P (insert_cmp cmp x ys)) = sum_deltas f c (filter P (x # ys))" for x ys
    by (induction cmp x ys rule: insert_cmp.induct) auto
  with Cons show ?case by simp
qed simp

lemma level_holders:
  assumes "\<forall>(iv, p) \<in> set spans. proper iv"
  shows "sum_deltas f c (filter (\<lambda>p. pt_at p \<le> t) (sweep_points spans)) = int (holders f spans c t)"
  unfolding sweep_points_def sum_deltas_sorted
  using assms
proof (induction spans)
  case (Cons a spans)
  obtain iv q where a: "a = (iv, q)" by fastforce
  have "startedAt iv \<le> completedAt iv" using Cons.prems by (simp add: a proper_def)
  then show ?case using Cons
    by (cases "startedAt iv \<le> t"; cases "completedAt iv \<le> t") (simp_all add: a holders_def instants_def)
qed (simp add: holders_def)

lemma covered_holders: "t \<in> covered (map fst spans) \<longleftrightarrow> (\<exists>c. 0 < holders f spans c t)"
proof
  assume "t \<in> covered (map fst spans)"
  then obtain iv p where "(iv, p) \<in> set spans" "t \<in> instants iv" by (auto simp: covered_def)
  then have "(iv, p) \<in> set (filter (\<lambda>(iv, q). key_of f q = key_of f p \<and> t \<in> instants iv) spans)" by simp
  then have "0 < holders f spans (key_of f p) t" unfolding holders_def by (metis length_pos_if_in_set)
  then show "\<exists>c. 0 < holders f spans c t" by blast
next
  assume "\<exists>c. 0 < holders f spans c t"
  then obtain c x where "x \<in> set (filter (\<lambda>(iv, p). key_of f p = c \<and> t \<in> instants iv) spans)"
    unfolding holders_def by (metis length_greater_0_conv list.set_sel(1))
  then show "t \<in> covered (map fst spans)" by (force simp: covered_def)
qed

definition tally :: "('k, 'p) sweep \<Rightarrow> 'k \<Rightarrow> int" where
  "tally s k = (case map_of (sw_active s) k of Some (_, m) \<Rightarrow> m | None \<Rightarrow> 0)"

definition sweep_ok :: "('p \<Rightarrow> 'k) \<Rightarrow> 'p point list \<Rightarrow> ('k, 'p) sweep \<Rightarrow> bool" where
  "sweep_ok f past s \<longleftrightarrow> ms_wf (sw_active s) \<and> sw_unknown s = sum_deltas f None past \<and>
     (\<forall>k. tally s k = sum_deltas f (Some k) past) \<and> (\<forall>(k, p, n) \<in> set (sw_active s). f p = k \<and> n \<noteq> 0)"

lemma sweep_gap_frame [simp]:
  "sw_active (sweep_gap t s) = sw_active s" "sw_unknown (sweep_gap t s) = sw_unknown s"
  "sw_previous (sweep_gap t s) = t"
  by (simp_all add: sweep_gap_def)

lemma tally_gap [simp]: "tally (sweep_gap t s) = tally s"
  by (simp add: tally_def fun_eq_iff)

lemma sweep_ok_point:
  assumes "sweep_ok f past s"
  shows "sweep_ok f (past @ [p]) (sweep_point f p s)"
proof (cases "pt_producer p")
  case None
  then have "tally (sweep_point f p s) = tally s" by (simp add: tally_def sweep_point_def Let_def fun_eq_iff)
  with None assms show ?thesis by (simp add: sweep_ok_def sweep_point_def Let_def)
next
  case (Some q)
  let ?s = "sweep_point f p s"
  let ?n = "tally s (f q) + pt_delta p"
  have active: "sw_active ?s = (if ?n \<noteq> 0 then ms_set (f q) (q, ?n) (sw_active s) else ms_del (f q) (sw_active s))"
    by (simp add: Some sweep_point_def Let_def tally_def)
  have unknown: "sw_unknown ?s = sw_unknown s" by (simp add: Some sweep_point_def Let_def)
  have "tally ?s k = tally s k + (if k = f q then pt_delta p else 0)" for k
    unfolding tally_def active by (auto simp: tally_def)
  moreover have "ms_wf (sw_active ?s)" unfolding active using assms by (simp add: sweep_ok_def)
  moreover have "\<forall>(k, p, n) \<in> set (sw_active ?s). f p = k \<and> n \<noteq> 0"
    unfolding active using assms by (auto simp: sweep_ok_def set_ms_set)
  ultimately show ?thesis using assms Some by (auto simp: sweep_ok_def unknown)
qed

lemma sweep_ok_new [simp]: "sweep_ok f [] new_sweep"
  by (simp add: sweep_ok_def new_sweep_def tally_def)

lemma distinct_singleton: "distinct xs \<Longrightarrow> set xs = {k} \<Longrightarrow> xs = [k]"
  by (cases xs; cases "tl xs") auto

text \<open>What the state says about the instants of the gap that the next point closes.\<close>

lemma active_key:
  assumes "sweep_ok f past s"
  shows "k \<in> set (ms_keys (sw_active s)) \<longleftrightarrow> tally s k \<noteq> 0"
proof (cases "map_of (sw_active s) k")
  case None
  then show ?thesis using ms_has_iff [of "sw_active s" k] by (simp add: ms_has_def tally_def)
next
  case (Some a)
  moreover obtain p n where "a = (p, n)" by fastforce
  moreover have "n \<noteq> 0" using assms map_of_SomeD [OF Some] calculation(2) by (auto simp: sweep_ok_def)
  moreover have "k \<in> set (ms_keys (sw_active s))" using Some ms_has_iff [of "sw_active s" k] by (simp add: ms_has_def)
  ultimately show ?thesis by (simp add: tally_def)
qed

lemma sweep_state_holders:
  assumes "sweep_ok f past s" and "\<forall>c. sum_deltas f c past = int (holders f spans c t)"
  shows "(0 < sw_unknown s \<or> sw_active s \<noteq> []) \<longleftrightarrow> t \<in> covered (map fst spans)"
    "t \<in> only_key f spans k \<longleftrightarrow> sw_unknown s = 0 \<and> ms_keys (sw_active s) = [k]"
proof -
  have un: "sw_unknown s = int (holders f spans None t)" and tal: "\<And>k. tally s k = int (holders f spans (Some k) t)"
    using assms by (auto simp: sweep_ok_def)
  have key: "k \<in> set (ms_keys (sw_active s)) \<longleftrightarrow> 0 < holders f spans (Some k) t" for k
    using active_key [OF assms(1), of k] tal [of k] by auto
  have "sw_active s \<noteq> [] \<longleftrightarrow> (\<exists>k. k \<in> set (ms_keys (sw_active s)))"
    by (cases "sw_active s") auto
  moreover have "(\<exists>c. 0 < holders f spans c t) \<longleftrightarrow> 0 < holders f spans None t \<or> (\<exists>k. 0 < holders f spans (Some k) t)"
    by (metis option.exhaust)
  ultimately show "(0 < sw_unknown s \<or> sw_active s \<noteq> []) \<longleftrightarrow> t \<in> covered (map fst spans)"
    by (simp only: un covered_holders [of t spans f] key of_nat_0_less_iff)
  have dist: "distinct (ms_keys (sw_active s))" using assms(1) by (simp add: sweep_ok_def ms_wf_def)
  have "t \<in> only_key f spans k \<longleftrightarrow> holders f spans None t = 0 \<and> (\<forall>j. 0 < holders f spans (Some j) t \<longleftrightarrow> j = k)"
    unfolding only_key_def mem_Collect_eq split_option_all by auto
  also have "\<dots> \<longleftrightarrow> sw_unknown s = 0 \<and> set (ms_keys (sw_active s)) = {k}"
    by (simp only: un of_nat_eq_0_iff key [symmetric]) blast
  also have "\<dots> \<longleftrightarrow> sw_unknown s = 0 \<and> ms_keys (sw_active s) = [k]"
    using distinct_singleton [OF dist] by auto
  finally show "t \<in> only_key f spans k \<longleftrightarrow> sw_unknown s = 0 \<and> ms_keys (sw_active s) = [k]" .
qed

lemma credited_simps [simp]:
  "credited f k [] = 0" "credited f k (cs @ ds) = credited f k cs + credited f k ds"
  "credited f k [(p, d)] = (if f p = k then d else 0)"
  by (simp_all add: credited_def)

definition swept :: "('p \<Rightarrow> 'k) \<Rightarrow> (interval \<times> 'p option) list \<Rightarrow> ('k, 'p) sweep \<Rightarrow> bool" where
  "swept f spans s \<longleftrightarrow> 0 \<le> sw_previous s \<and> measured (covered (map fst spans) \<inter> {..< sw_previous s}) (sw_total s) \<and>
     (\<forall>k. measured (only_key f spans k \<inter> {..< sw_previous s}) (credited f k (sw_credits s)))"

lemma measured_gap:
  assumes "measured (S \<inter> {..< a}) r" and "a \<le> b" and "\<And>t. a \<le> t \<Longrightarrow> t < b \<Longrightarrow> t \<in> S \<longleftrightarrow> P"
  shows "measured (S \<inter> {..< b}) (r + (if a < b \<and> P then b - a else 0))"
proof (cases P)
  case True
  have split: "S \<inter> {..< b} = (S \<inter> {..< a}) \<union> {a ..< b}" using assms(2,3) True by force
  have "measured ((S \<inter> {..< a}) \<union> {a ..< b}) (r + (b - a))"
    by (rule measured_append [OF assms(1) _ assms(2)]) auto
  moreover have "r + (if a < b \<and> P then b - a else 0) = r + (b - a)" using True assms(2) by simp
  ultimately show ?thesis by (simp only: split)
next
  case False
  have "t \<in> S \<inter> {..< b} \<longleftrightarrow> t \<in> S \<inter> {..< a}" for t
    using assms(2) assms(3) [of t] False by (cases "a \<le> t"; cases "t < b") auto
  then have "S \<inter> {..< b} = S \<inter> {..< a}" by blast
  moreover have "r + (if a < b \<and> P then b - a else 0) = r" using False by simp
  ultimately show ?thesis using assms(1) by (simp only:)
qed

lemma swept_gap:
  assumes "sweep_ok f past s" and "swept f spans s" and "sw_previous s \<le> b"
    and level: "\<And>t c. sw_previous s \<le> t \<Longrightarrow> t < b \<Longrightarrow> sum_deltas f c past = int (holders f spans c t)"
  shows "swept f spans (sweep_gap b s)"
  unfolding swept_def
proof (intro conjI allI)
  note st = sweep_state_holders [OF assms(1)]
  show "0 \<le> sw_previous (sweep_gap b s)" using assms(2,3) by (simp add: swept_def)
  have "measured (covered (map fst spans) \<inter> {..< b})
      (sw_total s + (if sw_previous s < b \<and> (0 < sw_unknown s \<or> sw_active s \<noteq> []) then b - sw_previous s else 0))"
    by (rule measured_gap) (use assms(2,3) level st(1) in \<open>auto simp: swept_def\<close>)
  then show "measured (covered (map fst spans) \<inter> {..< sw_previous (sweep_gap b s)}) (sw_total (sweep_gap b s))"
    by (simp add: sweep_gap_def)
  fix k
  have "measured (only_key f spans k \<inter> {..< b}) (credited f k (sw_credits s) +
      (if sw_previous s < b \<and> (sw_unknown s = 0 \<and> ms_keys (sw_active s) = [k]) then b - sw_previous s else 0))"
    by (rule measured_gap) (use assms(2,3) level st(2) in \<open>auto simp: swept_def simp del: set_map\<close>)
  moreover have "credited f k (sw_credits (sweep_gap b s)) = credited f k (sw_credits s) +
      (if sw_previous s < b \<and> (sw_unknown s = 0 \<and> ms_keys (sw_active s) = [k]) then b - sw_previous s else 0)"
    using assms(1) by (auto simp: sweep_gap_def sweep_ok_def split: list.splits)
  ultimately show "measured (only_key f spans k \<inter> {..< sw_previous (sweep_gap b s)}) (credited f k (sw_credits (sweep_gap b s)))"
    by simp
qed

lemma sweep_point_frame [simp]:
  "sw_previous (sweep_point f p s) = pt_at p" "sw_total (sweep_point f p s) = sw_total (sweep_gap (pt_at p) s)"
  "sw_credits (sweep_point f p s) = sw_credits (sweep_gap (pt_at p) s)"
  by (simp_all add: sweep_point_def Let_def split: option.splits)

lemma sw_previous_new [simp]: "sw_previous new_sweep = 0"
  by (simp add: new_sweep_def)

lemma sweep_all:
  assumes "\<forall>(iv, p) \<in> set spans. proper iv" and "sweep_points spans = past @ ps" and "sweep_ok f past s" and "swept f spans s"
    and "\<forall>p \<in> set past. pt_at p \<le> sw_previous s" and "\<forall>p \<in> set ps. sw_previous s \<le> pt_at p"
  shows "swept f spans (fold (sweep_point f) ps s) \<and>
    (\<forall>p \<in> set (past @ ps). pt_at p \<le> sw_previous (fold (sweep_point f) ps s))"
  using assms(2-)
proof (induction ps arbitrary: past s)
  case (Cons p ps)
  have sorted: "sorted (map pt_at (past @ p # ps))"
    unfolding Cons.prems(1) [symmetric] sweep_points_def by (rule sorted_sort_cmp_by)
  have "sum_deltas f c past = int (holders f spans c t)" if "sw_previous s \<le> t" "t < pt_at p" for t c
  proof -
    have "filter (\<lambda>q. pt_at q \<le> t) past = past" using Cons.prems(4) that by (intro filter_True) auto
    moreover have "filter (\<lambda>q. pt_at q \<le> t) (p # ps) = []" using sorted that by (auto simp: sorted_append intro!: filter_False)
    ultimately have "filter (\<lambda>q. pt_at q \<le> t) (sweep_points spans) = past" by (simp add: Cons.prems(1))
    with level_holders [OF assms(1), of f c t] show ?thesis by simp
  qed
  then have "swept f spans (sweep_gap (pt_at p) s)"
    using Cons.prems(5) by (intro swept_gap [OF Cons.prems(2,3)]) auto
  then have "swept f spans (sweep_point f p s)" by (simp add: swept_def)
  moreover have "sweep_ok f (past @ [p]) (sweep_point f p s)" by (rule sweep_ok_point [OF Cons.prems(2)])
  moreover have "\<forall>q \<in> set (past @ [p]). pt_at q \<le> sw_previous (sweep_point f p s)"
    "\<forall>q \<in> set ps. sw_previous (sweep_point f p s) \<le> pt_at q"
    using sorted Cons.prems(4,5) by (auto simp: sorted_append)
  moreover have "sweep_points spans = (past @ [p]) @ ps" by (simp add: Cons.prems(1))
  ultimately show ?case using Cons.IH [of "past @ [p]" "sweep_point f p s"] by simp
qed simp

lemma attribute_facts:
  assumes "\<forall>(iv, p) \<in> set spans. proper iv \<and> 0 \<le> startedAt iv"
  shows "measured (covered (map fst spans)) (fst (attributeUnion f spans))"
    "measured (only_key f spans k) (credited f k (snd (attributeUnion f spans)))"
proof -
  let ?s = "fold (sweep_point f) (sweep_points spans) new_sweep"
  have nonneg: "\<forall>p \<in> set (sweep_points spans). 0 \<le> pt_at p"
    using assms by (auto simp: sweep_points_def proper_def)
  have neg: "t \<notin> covered (map fst spans)" if "t < 0" for t
    using that assms by (fastforce simp: covered_def instants_def)
  have sub: "only_key f spans k \<subseteq> covered (map fst spans)" for k
    using covered_holders [of _ spans f] by (auto simp: only_key_def)
  have cut: "covered (map fst spans) \<inter> {..< 0} = {}" "only_key f spans k \<inter> {..< 0} = {}" for k
    using neg sub [of k] by auto
  then have "swept f spans new_sweep" by (simp add: swept_def new_sweep_def)
  moreover have "\<forall>(iv, p) \<in> set spans. proper iv" using assms by auto
  ultimately have sw: "swept f spans ?s" "\<forall>p \<in> set (sweep_points spans). pt_at p \<le> sw_previous ?s"
    using sweep_all [of spans "[]" "sweep_points spans" f new_sweep] nonneg by simp_all
  have "t < sw_previous ?s" if "t \<in> covered (map fst spans)" for t
  proof -
    from that obtain iv q where iv: "(iv, q) \<in> set spans" "t < completedAt iv" by (auto simp: covered_def instants_def)
    then have "\<lparr>pt_at = completedAt iv, pt_delta = -1, pt_producer = q\<rparr> \<in> set (sweep_points spans)"
      by (force simp: sweep_points_def)
    with sw(2) iv(2) show ?thesis by fastforce
  qed
  then have "covered (map fst spans) \<inter> {..< sw_previous ?s} = covered (map fst spans)"
    "only_key f spans k \<inter> {..< sw_previous ?s} = only_key f spans k"
    using sub [of k] by auto
  with sw(1) show "measured (covered (map fst spans)) (fst (attributeUnion f spans))"
    "measured (only_key f spans k) (credited f k (snd (attributeUnion f spans)))"
    unfolding swept_def attributeUnion_def Let_def by (metis fst_conv snd_conv)+
qed

subsection \<open>The calculation clock\<close>

record clock =
  ck_spans :: "interval list"
  ck_startedAt :: real
  ck_paused :: int
  ck_completedAt :: "real option"

definition new_clock :: "real \<Rightarrow> clock" where
  "new_clock t = \<lparr>ck_spans = [], ck_startedAt = t, ck_paused = 0, ck_completedAt = None\<rparr>"

definition clock_close :: "real \<Rightarrow> clock \<Rightarrow> clock" where
  "clock_close t c = (if ck_startedAt c < t
     then c\<lparr>ck_spans := ck_spans c @ [timeline_interval (jnum (ck_startedAt c)) (jnum t)]\<rparr> else c)"

definition clock_pause :: "real \<Rightarrow> clock \<Rightarrow> clock" where
  "clock_pause now c =
     (if ck_completedAt c \<noteq> None then c
      else if 0 < ck_paused c then c\<lparr>ck_paused := ck_paused c + 1\<rparr>
      else clock_close now (c\<lparr>ck_paused := ck_paused c + 1\<rparr>))"

definition clock_resume :: "real \<Rightarrow> clock \<Rightarrow> clock" where
  "clock_resume now c =
     (if ck_completedAt c \<noteq> None then c
      else if 0 < ck_paused c - 1 then c\<lparr>ck_paused := ck_paused c - 1\<rparr>
      else c\<lparr>ck_paused := ck_paused c - 1, ck_startedAt := now\<rparr>)"

definition clock_finish :: "real \<Rightarrow> clock \<Rightarrow> real \<times> clock" where
  "clock_finish now c = (case ck_completedAt c of
     Some t \<Rightarrow> (t, c)
   | None \<Rightarrow> (now, if ck_paused c = 0 then clock_close now (c\<lparr>ck_completedAt := Some now\<rparr>)
                   else c\<lparr>ck_completedAt := Some now\<rparr>))"

definition clock_read :: "real \<Rightarrow> real \<Rightarrow> clock \<Rightarrow> interval list" where
  "clock_read s e c =
     map (\<lambda>iv. timeline_interval (jnum (max s (startedAt iv))) (jnum (min e (completedAt iv))))
       (filter (\<lambda>iv. s < completedAt iv \<and> startedAt iv < e)
         (ck_spans c @ (if ck_paused c = 0 \<and> ck_completedAt c = None
            then [timeline_interval (jnum (ck_startedAt c)) (jnum e)] else [])))"

datatype clock_event = Pause real | Resume real | Finish real

fun clock_step :: "clock_event \<Rightarrow> clock \<Rightarrow> clock" where
  "clock_step (Pause t) c = clock_pause t c"
| "clock_step (Resume t) c = clock_resume t c"
| "clock_step (Finish t) c = snd (clock_finish t c)"

text \<open>
  The reference: the instants at which the calculation runs, by the number of open pauses.  A schedule has
  nondecreasing times and resumes only what it paused.
\<close>

fun running :: "nat \<Rightarrow> real \<Rightarrow> clock_event list \<Rightarrow> real set" where
  "running d s [] = {}"
| "running d s (Pause t # es) = (if d = 0 then {s ..< t} else {}) \<union> running (Suc d) t es"
| "running d s (Resume t # es) = running (d - 1) t es"
| "running d s (Finish t # es) = (if d = 0 then {s ..< t} else {})"

fun scheduled :: "nat \<Rightarrow> real \<Rightarrow> clock_event list \<Rightarrow> bool" where
  "scheduled d s [] = True"
| "scheduled d s (Pause t # es) = (s \<le> t \<and> scheduled (Suc d) t es)"
| "scheduled d s (Resume t # es) = (s \<le> t \<and> 0 < d \<and> scheduled (d - 1) t es)"
| "scheduled d s (Finish t # es) = (s \<le> t)"

lemma finished_stays: "ck_completedAt c = Some t \<Longrightarrow> fold clock_step es c = c"
proof (induction es)
  case (Cons e es)
  then show ?case by (cases e) (simp_all add: clock_pause_def clock_resume_def clock_finish_def)
qed simp

definition clock_ok :: "real \<Rightarrow> nat \<Rightarrow> real \<Rightarrow> clock \<Rightarrow> bool" where
  "clock_ok l d now c \<longleftrightarrow> 0 \<le> l \<and> ck_completedAt c = None \<and> ck_paused c = int d \<and> separated l (ck_spans c) \<and>
     l \<le> ck_startedAt c \<and> l \<le> now \<and> ck_startedAt c \<le> now \<and> (\<forall>iv \<in> set (ck_spans c). completedAt iv \<le> now) \<and>
     (d = 0 \<longrightarrow> ck_startedAt c = now)"

lemma clock_interval: "0 \<le> s \<Longrightarrow> s < t \<Longrightarrow> timeline_interval (jnum s) (jnum t) = span s t"
  by (simp add: timeline_interval_def nonNegativeFinite_def)

lemma clock_close_ok:
  assumes "0 \<le> l" and "separated l (ck_spans c)" and "\<forall>iv \<in> set (ck_spans c). completedAt iv \<le> ck_startedAt c"
    and "l \<le> ck_startedAt c" and "ck_startedAt c \<le> t"
  shows "separated l (ck_spans (clock_close t c)) \<and> covered (ck_spans (clock_close t c)) = covered (ck_spans c) \<union> {ck_startedAt c ..< t} \<and>
    (\<forall>iv \<in> set (ck_spans (clock_close t c)). completedAt iv \<le> t)"
proof (cases "ck_startedAt c < t")
  case True
  have "timeline_interval (jnum (ck_startedAt c)) (jnum t) = span (ck_startedAt c) t"
    using assms(1,4) True by (intro clock_interval) auto
  with True assms show ?thesis
    by (auto simp: clock_close_def separated_append_span instants_def)
next
  case False
  with assms show ?thesis by (auto simp: clock_close_def)
qed

lemma clock_close_frame [simp]:
  "ck_startedAt (clock_close t c) = ck_startedAt c" "ck_paused (clock_close t c) = ck_paused c"
  "ck_completedAt (clock_close t c) = ck_completedAt c"
  by (simp_all add: clock_close_def)

lemma clock_runs:
  assumes "clock_ok l d now c" and "scheduled d now es"
  shows "separated l (ck_spans (fold clock_step es c)) \<and>
    covered (ck_spans (fold clock_step es c)) = covered (ck_spans c) \<union> running d now es"
  using assms
proof (induction d now es arbitrary: c rule: running.induct)
  case (1 d s)
  then show ?case by (simp add: clock_ok_def)
next
  case (2 d s t es)
  let ?c = "clock_step (Pause t) c"
  have "clock_ok l (Suc d) t ?c \<and> covered (ck_spans ?c) = covered (ck_spans c) \<union> (if d = 0 then {s ..< t} else {})"
  proof (cases "d = 0")
    case True
    then show ?thesis
      using 2(2,3) clock_close_ok [of l "c\<lparr>ck_paused := 1\<rparr>" t] by (auto simp: clock_pause_def clock_ok_def)
  next
    case False
    then show ?thesis using 2(2,3) by (auto simp: clock_pause_def clock_ok_def)
  qed
  with 2(1) [of ?c] 2(3) show ?case by (simp add: Un_assoc)
next
  case (3 d s t es)
  let ?c = "clock_step (Resume t) c"
  have "clock_ok l (d - 1) t ?c \<and> covered (ck_spans ?c) = covered (ck_spans c)"
    using 3(2,3) by (auto simp: clock_resume_def clock_ok_def)
  with 3(1) [of ?c] 3(3) show ?case by simp
next
  case (4 d s t es)
  let ?c = "clock_step (Finish t) c"
  have "fold clock_step es ?c = ?c"
    using 4(1) by (intro finished_stays [of _ t]) (auto simp: clock_finish_def clock_ok_def)
  moreover have "separated l (ck_spans ?c) \<and> covered (ck_spans ?c) = covered (ck_spans c) \<union> (if d = 0 then {s ..< t} else {})"
    using 4 clock_close_ok [of l "c\<lparr>ck_completedAt := Some t\<rparr>" t] by (auto simp: clock_finish_def clock_ok_def)
  ultimately show ?case by simp
qed

subsection \<open>Properties\<close>

text \<open>What an interval keeps outside its shared parts are separated subintervals that make up exactly the instants
  of the interval in no shared part, however the parts overlap or are ordered; the length of their union is their
  total length.\<close>

theorem exclusive_intervals_are_the_difference:
  assumes "proper iv" and "0 \<le> startedAt iv" and "\<forall>p \<in> set shared. proper p"
  shows "separated (startedAt iv) (exclusiveIntervals iv shared) \<and>
    covered (exclusiveIntervals iv shared) = instants iv - covered shared \<and>
    measured (instants iv - covered shared) (unionDuration (exclusiveIntervals iv shared)) \<and>
    unionDuration (exclusiveIntervals iv shared) = lengths (exclusiveIntervals iv shared)"
proof -
  note ex = exclusive_facts [OF assms(1,3)]
  have "\<forall>p \<in> set (exclusiveIntervals iv shared). proper p \<and> 0 \<le> startedAt p"
    using separated_intervals [OF ex(1)] assms(2) by (fastforce simp: proper_def)
  from union_facts [OF this] ex(2)
  have "measured (instants iv - covered shared) (unionDuration (exclusiveIntervals iv shared))" by simp
  moreover have "measured (instants iv - covered shared) (lengths (exclusiveIntervals iv shared))"
    unfolding measured_def using ex by blast
  ultimately show ?thesis using ex measured_unique by blast
qed

theorem exclusive_intervals_are_the_difference_witness:
  "covered (exclusiveIntervals (span 0 9) [span 5 6, span 1 3, span 2 4]) = instants (span 0 9) - covered [span 5 6, span 1 3, span 2 4]"
  by (rule exclusive_intervals_are_the_difference [THEN conjunct2, THEN conjunct1]) (simp_all add: proper_def)

text \<open>The length attributed over a set of intervals is the length of their union, and what a producer key is
  credited is the length of the instants that lie in one of its intervals and in no interval of another key or
  of no producer: no instant is counted twice, and a contested one is credited to nobody.\<close>

theorem attribution_splits_the_union:
  assumes "\<forall>(iv, p) \<in> set spans. proper iv \<and> 0 \<le> startedAt iv"
  shows "measured (covered (map fst spans)) (fst (attributeUnion f spans)) \<and>
    fst (attributeUnion f spans) = unionDuration (map fst spans) \<and>
    (\<forall>k. measured (only_key f spans k) (credited f k (snd (attributeUnion f spans)))) \<and>
    (\<forall>k. 0 \<le> credited f k (snd (attributeUnion f spans)) \<and>
       credited f k (snd (attributeUnion f spans)) \<le> fst (attributeUnion f spans))"
proof -
  note at = attribute_facts [OF assms]
  have "\<forall>p \<in> set (map fst spans). proper p \<and> 0 \<le> startedAt p" using assms by auto
  from measured_unique [OF at(1) union_facts [OF this]]
  have "fst (attributeUnion f spans) = unionDuration (map fst spans)" .
  moreover have sub: "only_key f spans k \<subseteq> covered (map fst spans)" for k
    using covered_holders [of _ spans f] by (auto simp: only_key_def)
  have "credited f k (snd (attributeUnion f spans)) \<le> fst (attributeUnion f spans)" for k
    by (rule measured_mono [OF at(2) at(1) sub])
  moreover have "0 \<le> credited f k (snd (attributeUnion f spans))" for k by (rule measured_nonneg [OF at(2)])
  ultimately show ?thesis using at(1) [of f] at(2) [of f] by (intro conjI allI) assumption+
qed

theorem attribution_splits_the_union_witness:
  "fst (attributeUnion id [(span 0 4, Some ''a''), (span 2 6, Some ''b''), (span 5 8, None)]) =
    unionDuration (map fst [(span 0 4, Some ''a''), (span 2 6, Some ''b''), (span 5 8, None :: string option)])"
  by (rule attribution_splits_the_union [THEN conjunct2, THEN conjunct1]) (simp add: proper_def)

text \<open>Whatever the nesting of its pauses, a clock that follows a schedule ends with separated spans that make up
  exactly the instants at which no pause was open: time spent outside the calculation is never part of a span, and
  no running time is lost.\<close>

theorem clock_spans_are_the_running_time:
  assumes "0 \<le> s" and "scheduled 0 s es"
  shows "separated s (ck_spans (fold clock_step es (new_clock s))) \<and>
    covered (ck_spans (fold clock_step es (new_clock s))) = running 0 s es"
  using clock_runs [of s 0 s "new_clock s" es] assms by (simp add: clock_ok_def new_clock_def)

theorem clock_spans_are_the_running_time_witness:
  "covered (ck_spans (fold clock_step [Pause 2, Pause 3, Resume 4, Resume 5, Finish 7] (new_clock 1))) = {1 ..< 2} \<union> {5 ..< 7}"
  using clock_spans_are_the_running_time [of 1 "[Pause 2, Pause 3, Resume 4, Resume 5, Finish 7]"] by simp

end
