(* ===== verification/Timeline_Computation.thy ===== *)
theory Timeline_Computation
  imports Stable_Json Settlement Dependency_Order "HOL-Library.Monad_Syntax"
begin

text \<open>
  Serialized timelines (\<open>src/timeline-computation.ts\<close>): validation of an arbitrary value as complete
  telemetry.  A \<open>throw\<close>, which the only caller turns into \<open>undefined\<close>, is \<open>None\<close> like every early return.
  An optional flag is \<open>True\<close> when the member is present (the source keeps only true flags), an optional list
  that the source drops when empty is a list.  \<open>timeline_value\<close> is the object the source returns, as a value.
\<close>

subsection \<open>Types\<close>

record producer =
  pr_source :: string
  pr_mode :: "string option"
  pr_id :: "string option"

record clocked_span =
  cs_clock :: string
  cs_interval :: interval

record timeline_input =
  ti_id :: string
  ti_owned :: bool
  ti_reused :: bool
  ti_overhead :: bool
  ti_uncertain :: bool
  ti_shared :: "clocked_span list option"

record timeline_node =
  sn_id :: string
  sn_clock :: string
  sn_interval :: interval
  sn_timeOrigin :: "real option"
  sn_spans :: "interval list option"
  sn_priorMs :: "real option"
  sn_producer :: "producer option"
  sn_groups :: "string list"
  sn_incomplete :: bool
  sn_inputs :: "timeline_input list"

record timeline_computation =
  tc_version :: nat
  tc_root :: string
  tc_nodes :: "timeline_node list"

subsection \<open>Field validators\<close>

definition identity_text :: "js_val \<Rightarrow> string option" where
  "identity_text v = (case v of JStr s \<Rightarrow> if s \<noteq> [] \<and> CHR 0x00 \<notin> set s then Some s else None | _ \<Rightarrow> None)"

definition duration_of :: "js_val \<Rightarrow> real option" where
  "duration_of v = (case v of JNum (Fin x) \<Rightarrow> if 0 \<le> x \<and> x \<le> of_int max_safe then Some x else None | _ \<Rightarrow> None)"

definition endpoints :: "(string \<times> js_val) list \<Rightarrow> interval option" where
  "endpoints fs = do {
     s \<leftarrow> duration_of (field fs ''startedAt'');
     e \<leftarrow> duration_of (field fs ''completedAt'');
     if s \<le> e then Some \<lparr>startedAt = s, completedAt = e\<rparr> else None }"

definition optionally :: "(js_val \<Rightarrow> 'a option) \<Rightarrow> js_val \<Rightarrow> 'a option option" where
  "optionally f v = (if v = JUndef then Some None else map_option Some (f v))"

fun all_some :: "'a option list \<Rightarrow> 'a list option" where
  "all_some [] = Some []"
| "all_some (x # xs) = do { a \<leftarrow> x; as \<leftarrow> all_some xs; Some (a # as) }"

definition records :: "((string \<times> js_val) list \<Rightarrow> 'a option) \<Rightarrow> js_val \<Rightarrow> 'a list option option" where
  "records each = optionally (\<lambda>v. case v of
     JArr vs \<Rightarrow> all_some (map (\<lambda>item. Option.bind (asRecord item) each) vs) | _ \<Rightarrow> None)"

definition flag_of :: "(string \<times> js_val) list \<Rightarrow> string \<Rightarrow> bool option" where
  "flag_of fs k = (case field fs k of JUndef \<Rightarrow> Some False | JBool b \<Rightarrow> Some b | _ \<Rightarrow> None)"

definition calculation_span :: "interval \<Rightarrow> (string \<times> js_val) list \<Rightarrow> interval option" where
  "calculation_span whole part = do {
     iv \<leftarrow> endpoints part;
     if startedAt iv < startedAt whole \<or> completedAt whole < completedAt iv then None else Some iv }"

definition producer_of :: "js_val \<Rightarrow> producer option" where
  "producer_of v = do {
     fs \<leftarrow> asRecord v;
     source \<leftarrow> identity_text (field fs ''source'');
     mode \<leftarrow> optionally identity_text (field fs ''mode'');
     ident \<leftarrow> optionally identity_text (field fs ''id'');
     Some \<lparr>pr_source = source, pr_mode = mode, pr_id = ident\<rparr> }"

definition aliases_of :: "js_val \<Rightarrow> string list option" where
  "aliases_of v = (case v of
     JUndef \<Rightarrow> Some []
   | JArr vs \<Rightarrow> map_option uniq (all_some (map identity_text vs))
   | _ \<Rightarrow> None)"

definition shared_span :: "(string \<times> js_val) list \<Rightarrow> clocked_span option" where
  "shared_span fs = do {
     clock \<leftarrow> identity_text (field fs ''clock'');
     iv \<leftarrow> endpoints fs;
     Some \<lparr>cs_clock = clock, cs_interval = iv\<rparr> }"

definition input_of :: "(string \<times> js_val) list \<Rightarrow> timeline_input option" where
  "input_of fs = do {
     ident \<leftarrow> identity_text (field fs ''id'');
     owned \<leftarrow> flag_of fs ''owned'';
     reused \<leftarrow> flag_of fs ''reused'';
     overhead \<leftarrow> flag_of fs ''overhead'';
     uncertain \<leftarrow> flag_of fs ''computeUncertain'';
     shared \<leftarrow> records shared_span (field fs ''shared'');
     Some \<lparr>ti_id = ident, ti_owned = owned, ti_reused = reused, ti_overhead = overhead,
       ti_uncertain = uncertain, ti_shared = shared\<rparr> }"

definition node_of :: "js_val \<Rightarrow> timeline_node option" where
  "node_of raw = do {
     fs \<leftarrow> asRecord raw;
     ident \<leftarrow> identity_text (field fs ''id'');
     clock \<leftarrow> identity_text (field fs ''clock'');
     whole \<leftarrow> endpoints fs;
     prior \<leftarrow> optionally duration_of (field fs ''priorMs'');
     beginning \<leftarrow> optionally duration_of (field fs ''timeOrigin'');
     incomplete \<leftarrow> flag_of fs ''incomplete'';
     calculation \<leftarrow> records (calculation_span whole) (field fs ''spans'');
     prod \<leftarrow> optionally producer_of (field fs ''producer'');
     aliases \<leftarrow> aliases_of (field fs ''groups'');
     inputs \<leftarrow> records input_of (field fs ''inputs'');
     Some \<lparr>sn_id = ident, sn_clock = clock, sn_interval = whole, sn_timeOrigin = beginning, sn_spans = calculation,
       sn_priorMs = prior, sn_producer = prod, sn_groups = aliases, sn_incomplete = incomplete,
       sn_inputs = (case inputs of Some is \<Rightarrow> is | None \<Rightarrow> [])\<rparr> }"

subsection \<open>The graph\<close>

type_synonym node_table = "(string, timeline_node) jsmap"

definition add_node :: "js_val \<Rightarrow> (node_table \<times> (string, real) jsmap) option \<Rightarrow> (node_table \<times> (string, real) jsmap) option" where
  "add_node raw st = do {
     (byID, origins) \<leftarrow> st;
     node \<leftarrow> node_of raw;
     if ms_has byID (sn_id node) then None
     else case sn_timeOrigin node of
       None \<Rightarrow> Some (ms_set (sn_id node) node byID, origins)
     | Some x \<Rightarrow>
         if ms_has origins (sn_clock node) \<and> map_of origins (sn_clock node) \<noteq> Some x then None
         else Some (ms_set (sn_id node) node byID, ms_set (sn_clock node) x origins) }"

definition own_input :: "node_table \<Rightarrow> string \<Rightarrow> timeline_input \<Rightarrow> (string, string) jsmap option \<Rightarrow> (string, string) jsmap option" where
  "own_input byID owner input st = do {
     owned \<leftarrow> st;
     if \<not> ms_has byID (ti_id input) then None
     else if \<not> ti_owned input then Some owned
     else if ms_has owned (ti_id input) \<and> map_of owned (ti_id input) \<noteq> Some owner then None
     else Some (ms_set (ti_id input) owner owned) }"

definition own_inputs :: "node_table \<Rightarrow> (string, string) jsmap option" where
  "own_inputs byID = fold (\<lambda>(k, node) st. fold (own_input byID (sn_id node)) (sn_inputs node) st) byID (Some [])"

definition input_edges :: "node_table \<Rightarrow> string \<Rightarrow> string option list" where
  "input_edges byID n = (case map_of byID n of
     None \<Rightarrow> []
   | Some node \<Rightarrow> map (\<lambda>input. if ms_has byID (ti_id input) then Some (ti_id input) else None) (rev (sn_inputs node)))"

definition version_of :: "js_val \<Rightarrow> nat option" where
  "version_of v = (case v of
     JNum (Fin x) \<Rightarrow> if x = 1 then Some 1 else if x = 2 then Some 2 else if x = 3 then Some 3 else None
   | _ \<Rightarrow> None)"

definition normalizeTimelineComputation :: "js_val \<Rightarrow> timeline_computation option" where
  "normalizeTimelineComputation value = do {
     fs \<leftarrow> asRecord value;
     version \<leftarrow> version_of (field fs ''version'');
     root_id \<leftarrow> identity_text (field fs ''root'');
     raws \<leftarrow> (case field fs ''nodes'' of JArr vs \<Rightarrow> if vs \<noteq> [] then Some vs else None | _ \<Rightarrow> None);
     (byID, origins) \<leftarrow> fold add_node raws (Some ([], []));
     if \<not> ms_has byID root_id then None
     else do {
       owned \<leftarrow> own_inputs byID;
       ordered \<leftarrow> dependencyOrder [root_id] (input_edges byID);
       if length ordered \<noteq> length byID then None
       else Some \<lparr>tc_version = version, tc_root = root_id, tc_nodes = map (\<lambda>n. the (map_of byID n)) ordered\<rparr> } }"

subsection \<open>Well-formed results\<close>

definition id_ok :: "string \<Rightarrow> bool" where
  "id_ok s \<longleftrightarrow> s \<noteq> [] \<and> CHR 0x00 \<notin> set s"

definition duration_ok :: "real \<Rightarrow> bool" where
  "duration_ok x \<longleftrightarrow> 0 \<le> x \<and> x \<le> of_int max_safe"

definition interval_ok :: "interval \<Rightarrow> bool" where
  "interval_ok iv \<longleftrightarrow> duration_ok (startedAt iv) \<and> duration_ok (completedAt iv) \<and> startedAt iv \<le> completedAt iv"

definition producer_ok :: "producer \<Rightarrow> bool" where
  "producer_ok p \<longleftrightarrow> id_ok (pr_source p) \<and> pred_option id_ok (pr_mode p) \<and> pred_option id_ok (pr_id p)"

definition shared_ok :: "clocked_span \<Rightarrow> bool" where
  "shared_ok s \<longleftrightarrow> id_ok (cs_clock s) \<and> interval_ok (cs_interval s)"

definition input_ok :: "timeline_input \<Rightarrow> bool" where
  "input_ok i \<longleftrightarrow> id_ok (ti_id i) \<and> pred_option (list_all shared_ok) (ti_shared i)"

definition span_within :: "interval \<Rightarrow> interval \<Rightarrow> bool" where
  "span_within whole iv \<longleftrightarrow> interval_ok iv \<and> startedAt whole \<le> startedAt iv \<and> completedAt iv \<le> completedAt whole"

definition node_ok :: "timeline_node \<Rightarrow> bool" where
  "node_ok n \<longleftrightarrow> id_ok (sn_id n) \<and> id_ok (sn_clock n) \<and> interval_ok (sn_interval n) \<and>
     pred_option duration_ok (sn_timeOrigin n) \<and> pred_option duration_ok (sn_priorMs n) \<and>
     pred_option (list_all (span_within (sn_interval n))) (sn_spans n) \<and> pred_option producer_ok (sn_producer n) \<and>
     list_all id_ok (sn_groups n) \<and> distinct (sn_groups n) \<and> list_all input_ok (sn_inputs n)"

subsection \<open>The result as a value\<close>

definition present :: "(string \<times> js_val) list \<Rightarrow> js_val" where
  "present fs = JObj (filter (\<lambda>(k, v). v \<noteq> JUndef) fs)"

definition optional :: "('a \<Rightarrow> js_val) \<Rightarrow> 'a option \<Rightarrow> js_val" where
  "optional f v = (case v of Some x \<Rightarrow> f x | None \<Rightarrow> JUndef)"

definition array_value :: "('a \<Rightarrow> js_val) \<Rightarrow> 'a list \<Rightarrow> js_val" where
  "array_value f xs = JArr (map f xs)"

definition nonempty_value :: "('a \<Rightarrow> js_val) \<Rightarrow> 'a list \<Rightarrow> js_val" where
  "nonempty_value f xs = (if xs = [] then JUndef else array_value f xs)"

definition flag_value :: "bool \<Rightarrow> js_val" where
  "flag_value b = (if b then JBool True else JUndef)"

definition interval_fields :: "interval \<Rightarrow> (string \<times> js_val) list" where
  "interval_fields iv = [(''startedAt'', jnum (startedAt iv)), (''completedAt'', jnum (completedAt iv))]"

definition producer_value :: "producer \<Rightarrow> js_val" where
  "producer_value p = present [(''source'', JStr (pr_source p)), (''mode'', optional JStr (pr_mode p)),
     (''id'', optional JStr (pr_id p))]"

definition shared_value :: "clocked_span \<Rightarrow> js_val" where
  "shared_value s = JObj ((''clock'', JStr (cs_clock s)) # interval_fields (cs_interval s))"

definition input_value :: "timeline_input \<Rightarrow> js_val" where
  "input_value i = present [(''id'', JStr (ti_id i)), (''owned'', flag_value (ti_owned i)), (''reused'', flag_value (ti_reused i)),
     (''overhead'', flag_value (ti_overhead i)), (''computeUncertain'', flag_value (ti_uncertain i)),
     (''shared'', optional (array_value shared_value) (ti_shared i))]"

definition node_value :: "timeline_node \<Rightarrow> js_val" where
  "node_value n = present ([(''id'', JStr (sn_id n)), (''clock'', JStr (sn_clock n))] @ interval_fields (sn_interval n) @
     [(''timeOrigin'', optional jnum (sn_timeOrigin n)),
      (''spans'', optional (array_value (\<lambda>iv. JObj (interval_fields iv))) (sn_spans n)),
      (''priorMs'', optional jnum (sn_priorMs n)), (''producer'', optional producer_value (sn_producer n)),
      (''groups'', nonempty_value JStr (sn_groups n)), (''incomplete'', flag_value (sn_incomplete n)),
      (''inputs'', nonempty_value input_value (sn_inputs n))])"

definition timeline_value :: "timeline_computation \<Rightarrow> js_val" where
  "timeline_value c = JObj [(''version'', jnum (real (tc_version c))), (''root'', JStr (tc_root c)),
     (''nodes'', array_value node_value (tc_nodes c))]"

subsection \<open>Validation of a node\<close>

lemma identity_text_Some: "identity_text v = Some s \<longleftrightarrow> v = JStr s \<and> id_ok s"
  by (auto simp: identity_text_def id_ok_def split: js_val.splits)

lemma duration_of_Some: "duration_of v = Some x \<longleftrightarrow> v = jnum x \<and> duration_ok x"
  by (auto simp: duration_of_def duration_ok_def split: js_val.splits js_num.splits)

lemma endpoints_Some:
  "endpoints fs = Some iv \<longleftrightarrow> field fs ''startedAt'' = jnum (startedAt iv) \<and> field fs ''completedAt'' = jnum (completedAt iv) \<and> interval_ok iv"
  by (cases iv) (auto simp: endpoints_def interval_ok_def duration_of_Some bind_eq_Some_conv)

lemma optionally_sound: "optionally f v = Some r \<Longrightarrow> (\<And>x. f v = Some x \<Longrightarrow> P x) \<Longrightarrow> pred_option P r"
  by (auto simp: optionally_def split: if_splits)

lemma all_some_Some: "all_some xs = Some ys \<longleftrightarrow> xs = map Some ys"
  by (induction xs arbitrary: ys) (auto simp: bind_eq_Some_conv)

lemma all_some_map [simp]: "all_some (map Some ys) = Some ys"
  by (simp add: all_some_Some)

lemma records_sound:
  assumes "records each v = Some r" and "\<And>fs x. each fs = Some x \<Longrightarrow> P x"
  shows "pred_option (list_all P) r"
proof (cases r)
  case (Some xs)
  with assms(1) obtain vs where "map (\<lambda>item. Option.bind (asRecord item) each) vs = map Some xs"
    by (auto simp: records_def optionally_def all_some_Some split: if_splits js_val.splits)
  then have "\<exists>v. Option.bind (asRecord v) each = Some x" if "x \<in> set xs" for x
    using that by (metis (no_types, lifting) imageE imageI list.set_map)
  with assms(2) show ?thesis by (fastforce simp: Some list_all_iff bind_eq_Some_conv)
qed simp

lemma records_value:
  assumes "\<And>x. x \<in> set xs \<Longrightarrow> Option.bind (asRecord (f x)) each = Some x"
  shows "records each (array_value f xs) = Some (Some xs)"
proof -
  have "map (\<lambda>item. Option.bind (asRecord item) each) (map f xs) = map Some xs"
    using assms by simp
  then show ?thesis by (simp add: records_def optionally_def array_value_def del: map_map)
qed

lemma records_undefined [simp]: "records each JUndef = Some None"
  by (simp add: records_def optionally_def)

lemma field_present: "distinct (map fst fs) \<Longrightarrow> field (filter (\<lambda>(k, v). v \<noteq> JUndef) fs) k = field fs k"
proof (induction fs)
  case (Cons a fs)
  have "field (filter (\<lambda>(k, v). v \<noteq> JUndef) fs) k = JUndef" if "k = fst a"
    using Cons that by (auto simp: field_def split: option.splits dest: map_of_SomeD intro: rev_image_eqI)
  with Cons show ?case by (cases a) (auto simp: field_def split: option.splits)
qed simp

lemma producer_of_sound: "producer_of v = Some p \<Longrightarrow> producer_ok p"
  by (auto simp: producer_of_def producer_ok_def bind_eq_Some_conv identity_text_Some
      dest: optionally_sound [where P = id_ok])

lemma calculation_span_Some:
  "calculation_span whole fs = Some iv \<longleftrightarrow> endpoints fs = Some iv \<and> startedAt whole \<le> startedAt iv \<and> completedAt iv \<le> completedAt whole"
  by (cases "endpoints fs") (auto simp: calculation_span_def)

lemma shared_span_sound: "shared_span fs = Some s \<Longrightarrow> shared_ok s"
  by (auto simp: shared_span_def shared_ok_def bind_eq_Some_conv identity_text_Some endpoints_Some)

lemma input_of_sound: "input_of fs = Some i \<Longrightarrow> input_ok i"
  by (auto simp: input_of_def input_ok_def bind_eq_Some_conv identity_text_Some intro: records_sound [OF _ shared_span_sound])

lemma aliases_sound: "aliases_of v = Some gs \<Longrightarrow> list_all id_ok gs \<and> distinct gs"
proof -
  have "list_all id_ok gs" if "map identity_text vs = map Some gs" for vs gs
    using that by (induction gs arbitrary: vs) (auto simp: identity_text_Some Cons_eq_map_conv map_eq_Cons_conv)
  then show "aliases_of v = Some gs \<Longrightarrow> list_all id_ok gs \<and> distinct gs"
    by (fastforce simp: aliases_of_def all_some_Some list_all_iff split: js_val.splits)
qed

lemma node_of_sound: "node_of raw = Some n \<Longrightarrow> node_ok n"
proof -
  assume "node_of raw = Some n"
  then obtain fs whole prior beginning calculation prod aliases inputs where
    n: "sn_interval n = whole" "sn_timeOrigin n = beginning" "sn_spans n = calculation" "sn_priorMs n = prior"
      "sn_producer n = prod" "sn_groups n = aliases" "sn_inputs n = (case inputs of Some is \<Rightarrow> is | None \<Rightarrow> [])"
    and ids: "id_ok (sn_id n)" "id_ok (sn_clock n)" and whole: "endpoints fs = Some whole"
    and opt: "optionally duration_of (field fs ''priorMs'') = Some prior" "optionally duration_of (field fs ''timeOrigin'') = Some beginning"
      "optionally producer_of (field fs ''producer'') = Some prod"
    and rec: "records (calculation_span whole) (field fs ''spans'') = Some calculation" "records input_of (field fs ''inputs'') = Some inputs"
    and al: "aliases_of (field fs ''groups'') = Some aliases"
    by (auto simp: node_of_def bind_eq_Some_conv identity_text_Some)
  have "pred_option (list_all (span_within whole)) calculation"
    by (rule records_sound [OF rec(1)]) (simp add: calculation_span_Some endpoints_Some span_within_def)
  moreover have "pred_option (list_all input_ok) inputs" by (rule records_sound [OF rec(2) input_of_sound])
  moreover have "pred_option duration_ok prior" "pred_option duration_ok beginning" "pred_option producer_ok prod"
    using optionally_sound [OF opt(1)] optionally_sound [OF opt(2)] optionally_sound [OF opt(3)]
    by (simp_all add: duration_of_Some producer_of_sound)
  ultimately show ?thesis
    using ids whole aliases_sound [OF al] by (auto simp: node_ok_def n endpoints_Some split: option.splits)
qed

lemma flag_of_value: "field fs k = flag_value b \<Longrightarrow> flag_of fs k = Some b"
  by (simp add: flag_of_def flag_value_def split: if_splits)

lemma optionally_optional:
  assumes "\<And>x. r = Some x \<Longrightarrow> f (g x) = Some x \<and> g x \<noteq> JUndef"
  shows "optionally f (optional g r) = Some r"
  using assms by (cases r) (auto simp: optionally_def optional_def)

lemma records_optional:
  assumes "\<And>xs x. r = Some xs \<Longrightarrow> x \<in> set xs \<Longrightarrow> Option.bind (asRecord (f x)) each = Some x"
  shows "records each (optional (array_value f) r) = Some r"
  using assms by (cases r) (simp_all add: optional_def records_value)

lemma records_nonempty:
  assumes "\<And>x. x \<in> set xs \<Longrightarrow> Option.bind (asRecord (f x)) each = Some x"
  shows "\<exists>r. records each (nonempty_value f xs) = Some r \<and> (case r of Some is \<Rightarrow> is | None \<Rightarrow> []) = xs"
  using assms records_value [of xs f each] by (cases "xs = []") (auto simp: nonempty_value_def)

lemma asRecord_present [simp]: "asRecord (present fs) = Some (filter (\<lambda>(k, v). v \<noteq> JUndef) fs)"
  by (simp add: asRecord_def present_def)

lemma producer_value: "producer_ok p \<Longrightarrow> producer_of (producer_value p) = Some p"
proof -
  assume ok: "producer_ok p"
  let ?fs = "[(''source'', JStr (pr_source p)), (''mode'', optional JStr (pr_mode p)), (''id'', optional JStr (pr_id p))]"
  let ?gs = "filter (\<lambda>(k, v). v \<noteq> JUndef) ?fs"
  have f: "field ?gs k = field ?fs k" for k by (rule field_present) simp
  have "optionally identity_text (optional JStr (pr_mode p)) = Some (pr_mode p)"
    "optionally identity_text (optional JStr (pr_id p)) = Some (pr_id p)"
    using ok by (auto intro!: optionally_optional simp: identity_text_Some producer_ok_def)
  then have "optionally identity_text (field ?gs ''mode'') = Some (pr_mode p)"
    "optionally identity_text (field ?gs ''id'') = Some (pr_id p)"
    unfolding f by (simp_all add: field_def)
  moreover have "identity_text (field ?gs ''source'') = Some (pr_source p)"
    using ok unfolding f by (simp add: field_def identity_text_Some producer_ok_def)
  ultimately show ?thesis unfolding producer_of_def producer_value_def asRecord_present by simp
qed

lemma endpoints_fields: "interval_ok iv \<Longrightarrow> endpoints (interval_fields iv) = Some iv"
  by (simp add: endpoints_Some interval_fields_def field_def)

lemma shared_value: "shared_ok s \<Longrightarrow> Option.bind (asRecord (shared_value s)) shared_span = Some s"
proof -
  assume ok: "shared_ok s"
  let ?fs = "(''clock'', JStr (cs_clock s)) # interval_fields (cs_interval s)"
  have "endpoints ?fs = Some (cs_interval s)"
    using ok by (simp add: endpoints_Some interval_fields_def field_def shared_ok_def)
  moreover have "identity_text (field ?fs ''clock'') = Some (cs_clock s)"
    using ok by (simp add: field_def identity_text_Some shared_ok_def)
  ultimately show ?thesis by (simp add: asRecord_def shared_value_def shared_span_def)
qed

lemma input_value: "input_ok i \<Longrightarrow> Option.bind (asRecord (input_value i)) input_of = Some i"
proof -
  assume ok: "input_ok i"
  let ?fs = "[(''id'', JStr (ti_id i)), (''owned'', flag_value (ti_owned i)), (''reused'', flag_value (ti_reused i)),
     (''overhead'', flag_value (ti_overhead i)), (''computeUncertain'', flag_value (ti_uncertain i)),
     (''shared'', optional (array_value shared_value) (ti_shared i))]"
  let ?gs = "filter (\<lambda>(k, v). v \<noteq> JUndef) ?fs"
  have f: "field ?gs k = field ?fs k" for k by (rule field_present) simp
  have "identity_text (field ?gs ''id'') = Some (ti_id i)"
    using ok unfolding f by (simp add: field_def identity_text_Some input_ok_def)
  moreover have "flag_of ?gs ''owned'' = Some (ti_owned i)" "flag_of ?gs ''reused'' = Some (ti_reused i)"
    "flag_of ?gs ''overhead'' = Some (ti_overhead i)" "flag_of ?gs ''computeUncertain'' = Some (ti_uncertain i)"
    by (rule flag_of_value, unfold f, simp add: field_def)+
  moreover have "records shared_span (field ?gs ''shared'') = Some (ti_shared i)"
  proof -
    have "records shared_span (optional (array_value shared_value) (ti_shared i)) = Some (ti_shared i)"
      by (rule records_optional, rule shared_value) (use ok in \<open>auto simp: input_ok_def list_all_iff\<close>)
    then show ?thesis unfolding f by (simp add: field_def)
  qed
  ultimately show ?thesis unfolding input_value_def asRecord_present by (simp add: input_of_def)
qed


lemma aliases_value: "list_all id_ok gs \<Longrightarrow> distinct gs \<Longrightarrow> aliases_of (nonempty_value JStr gs) = Some gs"
proof -
  assume "list_all id_ok gs" "distinct gs"
  then have "all_some (map identity_text (map JStr gs)) = Some gs"
    unfolding all_some_Some by (auto simp: identity_text_Some list_all_iff)
  with \<open>distinct gs\<close> show ?thesis
    by (simp add: aliases_of_def nonempty_value_def array_value_def uniq_distinct del: map_map)
qed

lemma node_value: "node_ok n \<Longrightarrow> node_of (node_value n) = Some n"
proof -
  assume ok: "node_ok n"
  let ?fs = "[(''id'', JStr (sn_id n)), (''clock'', JStr (sn_clock n))] @ interval_fields (sn_interval n) @
     [(''timeOrigin'', optional jnum (sn_timeOrigin n)),
      (''spans'', optional (array_value (\<lambda>iv. JObj (interval_fields iv))) (sn_spans n)),
      (''priorMs'', optional jnum (sn_priorMs n)), (''producer'', optional producer_value (sn_producer n)),
      (''groups'', nonempty_value JStr (sn_groups n)), (''incomplete'', flag_value (sn_incomplete n)),
      (''inputs'', nonempty_value input_value (sn_inputs n))]"
  let ?gs = "filter (\<lambda>(k, v). v \<noteq> JUndef) ?fs"
  have f: "field ?gs k = field ?fs k" for k by (rule field_present) (simp add: interval_fields_def)
  have look: "field ?fs ''id'' = JStr (sn_id n)" "field ?fs ''clock'' = JStr (sn_clock n)"
    "field ?fs ''startedAt'' = jnum (startedAt (sn_interval n))" "field ?fs ''completedAt'' = jnum (completedAt (sn_interval n))"
    "field ?fs ''timeOrigin'' = optional jnum (sn_timeOrigin n)" "field ?fs ''priorMs'' = optional jnum (sn_priorMs n)"
    "field ?fs ''spans'' = optional (array_value (\<lambda>iv. JObj (interval_fields iv))) (sn_spans n)"
    "field ?fs ''producer'' = optional producer_value (sn_producer n)"
    "field ?fs ''groups'' = nonempty_value JStr (sn_groups n)"
    "field ?fs ''incomplete'' = flag_value (sn_incomplete n)" "field ?fs ''inputs'' = nonempty_value input_value (sn_inputs n)"
    by (simp_all add: field_def interval_fields_def)
  have whole: "endpoints ?gs = Some (sn_interval n)"
    unfolding endpoints_Some f look using ok by (simp add: node_ok_def)
  have ids: "identity_text (field ?gs ''id'') = Some (sn_id n)" "identity_text (field ?gs ''clock'') = Some (sn_clock n)"
    unfolding f look using ok by (simp_all add: identity_text_Some node_ok_def)
  have durations: "optionally duration_of (field ?gs ''timeOrigin'') = Some (sn_timeOrigin n)"
    "optionally duration_of (field ?gs ''priorMs'') = Some (sn_priorMs n)"
    unfolding f look using ok by (auto intro!: optionally_optional simp: node_ok_def duration_of_Some)
  have prod: "optionally producer_of (field ?gs ''producer'') = Some (sn_producer n)"
    unfolding f look by (rule optionally_optional)
      (use ok in \<open>auto simp: node_ok_def producer_value, simp add: producer_value_def present_def\<close>)
  have spans: "records (calculation_span (sn_interval n)) (field ?gs ''spans'') = Some (sn_spans n)"
    unfolding f look by (rule records_optional)
      (use ok in \<open>auto simp: node_ok_def list_all_iff span_within_def asRecord_def calculation_span_Some endpoints_fields\<close>)
  have aliases: "aliases_of (field ?gs ''groups'') = Some (sn_groups n)"
    unfolding f look using ok by (intro aliases_value) (auto simp: node_ok_def)
  have incomplete: "flag_of ?gs ''incomplete'' = Some (sn_incomplete n)"
    by (rule flag_of_value) (simp only: f look)
  have "\<exists>r. records input_of (nonempty_value input_value (sn_inputs n)) = Some r \<and> (case r of Some is \<Rightarrow> is | None \<Rightarrow> []) = sn_inputs n"
    by (rule records_nonempty) (use ok in \<open>auto simp: node_ok_def list_all_iff input_value\<close>)
  then obtain r where inputs: "records input_of (field ?gs ''inputs'') = Some r" "(case r of Some is \<Rightarrow> is | None \<Rightarrow> []) = sn_inputs n"
    unfolding f look by blast
  show ?thesis
    unfolding node_value_def node_of_def asRecord_present
    by (simp only: Option.bind.bind_lunit ids whole durations incomplete spans prod aliases inputs) simp
qed

subsection \<open>Reading the nodes\<close>

definition table :: "timeline_node list \<Rightarrow> node_table" where
  "table ns = map (\<lambda>n. (sn_id n, n)) ns"

definition one_origin :: "timeline_node list \<Rightarrow> bool" where
  "one_origin ns \<longleftrightarrow> (\<forall>m \<in> set ns. \<forall>n \<in> set ns. sn_clock m = sn_clock n \<longrightarrow>
     sn_timeOrigin m \<noteq> None \<longrightarrow> sn_timeOrigin n \<noteq> None \<longrightarrow> sn_timeOrigin m = sn_timeOrigin n)"

definition origins_of :: "timeline_node list \<Rightarrow> (string, real) jsmap \<Rightarrow> bool" where
  "origins_of ns os \<longleftrightarrow> (\<forall>k x. map_of os k = Some x \<longleftrightarrow> (\<exists>n \<in> set ns. sn_clock n = k \<and> sn_timeOrigin n = Some x))"

lemma add_None [simp]: "fold add_node raws None = None"
  by (induction raws) (simp_all add: add_node_def)

lemma table_snoc [simp]: "table (ns @ [n]) = table ns @ [(sn_id n, n)]"
  by (simp add: table_def)

lemma table_Nil [simp]: "table [] = []"
  by (simp add: table_def)

lemma table_Cons [simp]: "table (n # ns) = (sn_id n, n) # table ns"
  by (simp add: table_def)

lemma keys_table [simp]: "ms_keys (table ns) = map sn_id ns"
  by (simp add: table_def)

lemma has_table [simp]: "ms_has (table ns) k \<longleftrightarrow> k \<in> sn_id ` set ns"
  by (simp add: ms_has_def table_def image_image)

lemma add_node_step:
  assumes "distinct (map sn_id ns)" and "origins_of ns os"
  shows "add_node raw (Some (table ns, os)) = Some st \<longleftrightarrow>
    (\<exists>n os'. node_of raw = Some n \<and> sn_id n \<notin> sn_id ` set ns \<and> origins_of (ns @ [n]) os' \<and> st = (table (ns @ [n]), os') \<and>
      os' = (case sn_timeOrigin n of None \<Rightarrow> os | Some x \<Rightarrow> ms_set (sn_clock n) x os))"
proof (cases "node_of raw")
  case None
  then show ?thesis by (simp add: add_node_def)
next
  case (Some n)
  show ?thesis
  proof (cases "sn_id n \<in> sn_id ` set ns")
    case True
    then show ?thesis using Some by (auto simp: add_node_def)
  next
    case False
    then have "sn_id n \<notin> set (ms_keys (table ns))" unfolding keys_table by simp
    from ms_set_new [OF this] have new: "ms_set (sn_id n) n (table ns) = table (ns @ [n])" by simp
    show ?thesis
    proof (cases "sn_timeOrigin n")
      case None
      moreover have "origins_of (ns @ [n]) os" using assms(2) None by (simp add: origins_of_def)
      ultimately show ?thesis using Some False new by (auto simp: add_node_def)
    next
      case x: (Some x)
      have "origins_of (ns @ [n]) (ms_set (sn_clock n) x os) \<longleftrightarrow> \<not> (ms_has os (sn_clock n) \<and> map_of os (sn_clock n) \<noteq> Some x)"
        (is "?l \<longleftrightarrow> ?r")
      proof
        assume l: ?l
        show ?r
        proof
          assume "ms_has os (sn_clock n) \<and> map_of os (sn_clock n) \<noteq> Some x"
          then obtain y where y: "map_of os (sn_clock n) = Some y" "y \<noteq> x" by (auto simp: ms_has_iff)
          then obtain m where "m \<in> set ns" "sn_clock m = sn_clock n" "sn_timeOrigin m = Some y"
            using assms(2) by (auto simp: origins_of_def)
          then have "map_of (ms_set (sn_clock n) x os) (sn_clock n) = Some y" using l by (auto simp: origins_of_def simp del: map_of_ms_set)
          with y(2) show False by simp
        qed
      next
        assume r: ?r
        then have "map_of os (sn_clock n) = None \<or> map_of os (sn_clock n) = Some x" by (auto simp: ms_has_iff)
        moreover have "map_of os (sn_clock n) = Some y" if "m \<in> set ns" "sn_clock m = sn_clock n" "sn_timeOrigin m = Some y" for m y
          using assms(2) that unfolding origins_of_def by blast
        ultimately have "y = x" if "m \<in> set ns" "sn_clock m = sn_clock n" "sn_timeOrigin m = Some y" for m y
          using that by fastforce
        with assms(2) x show ?l unfolding origins_of_def by (auto split: if_splits)
      qed
      then show ?thesis using Some False new x by (auto simp: add_node_def)
    qed
  qed
qed

lemma add_nodes:
  assumes "distinct (map sn_id ns)" and "origins_of ns os"
  shows "fold add_node raws (Some (table ns, os)) = Some (byID, origins) \<Longrightarrow>
    \<exists>ms. map node_of raws = map Some ms \<and> byID = table (ns @ ms) \<and> distinct (map sn_id (ns @ ms)) \<and> origins_of (ns @ ms) origins"
  using assms
proof (induction raws arbitrary: ns os)
  case (Cons raw raws)
  then obtain st where st: "add_node raw (Some (table ns, os)) = Some st" by (cases "add_node raw (Some (table ns, os))") auto
  then obtain n os' where n: "node_of raw = Some n" "sn_id n \<notin> sn_id ` set ns" "origins_of (ns @ [n]) os'" "st = (table (ns @ [n]), os')"
    using add_node_step [OF Cons.prems(2,3)] by blast
  have "distinct (map sn_id (ns @ [n]))" using Cons.prems(2) n(2) by simp
  with Cons.IH [of "ns @ [n]" os'] Cons.prems(1) n(3,4) st
  obtain ms where "map node_of raws = map Some ms" "byID = table ((ns @ [n]) @ ms)" "distinct (map sn_id ((ns @ [n]) @ ms))"
    "origins_of ((ns @ [n]) @ ms) origins" by auto
  then show ?case using n(1) by (intro exI [of _ "n # ms"]) simp
qed auto

lemma add_nodes_accepts:
  assumes "distinct (map sn_id (ns @ ms))" and "origins_of ns os" and "one_origin (ns @ ms)" and "\<forall>m \<in> set ms. node_ok m"
  shows "\<exists>origins. fold add_node (map node_value ms) (Some (table ns, os)) = Some (table (ns @ ms), origins)"
  using assms
proof (induction ms arbitrary: ns os)
  case (Cons m ms)
  let ?os = "case sn_timeOrigin m of None \<Rightarrow> os | Some x \<Rightarrow> ms_set (sn_clock m) x os"
  have one: "sn_timeOrigin n = Some y \<Longrightarrow> n \<in> set ns \<Longrightarrow> sn_clock n = sn_clock m \<Longrightarrow> sn_timeOrigin m = Some x \<Longrightarrow> y = x" for n x y
    using Cons.prems(3) by (auto simp: one_origin_def)
  have "origins_of (ns @ [m]) ?os"
  proof (cases "sn_timeOrigin m")
    case None
    then show ?thesis using Cons.prems(2) by (simp add: origins_of_def)
  next
    case (Some x)
    have "y = x" if "sn_timeOrigin n = Some y" "n \<in> set ns" "sn_clock n = sn_clock m" for n y
      by (rule one [OF that Some])
    then show ?thesis using Cons.prems(2) by (auto simp: Some origins_of_def split: if_splits)
  qed
  moreover have "sn_id m \<notin> sn_id ` set ns" using Cons.prems(1) by auto
  moreover have "node_of (node_value m) = Some m" using Cons.prems(4) by (simp add: node_value)
  ultimately have step: "add_node (node_value m) (Some (table ns, os)) = Some (table (ns @ [m]), ?os)"
    using add_node_step [of ns os "node_value m" "(table (ns @ [m]), ?os)"] Cons.prems(1,2) by simp
  have "\<exists>origins. fold add_node (map node_value ms) (Some (table (ns @ [m]), ?os)) = Some (table ((ns @ [m]) @ ms), origins)"
    by (rule Cons.IH) (use Cons.prems \<open>origins_of (ns @ [m]) ?os\<close> in simp_all)
  with step show ?case by simp
qed simp

lemma origins_one: "origins_of ns os \<Longrightarrow> one_origin ns"
  unfolding origins_of_def one_origin_def by (metis not_None_eq option.inject)

subsection \<open>Ownership\<close>

definition one_owner :: "timeline_node list \<Rightarrow> bool" where
  "one_owner ns \<longleftrightarrow> (\<forall>m \<in> set ns. \<forall>n \<in> set ns. \<forall>i \<in> set (sn_inputs m). \<forall>j \<in> set (sn_inputs n).
     ti_owned i \<longrightarrow> ti_owned j \<longrightarrow> ti_id i = ti_id j \<longrightarrow> sn_id m = sn_id n)"

definition inputs_exist :: "timeline_node list \<Rightarrow> timeline_node list \<Rightarrow> bool" where
  "inputs_exist ns ms \<longleftrightarrow> (\<forall>m \<in> set ms. \<forall>i \<in> set (sn_inputs m). ti_id i \<in> sn_id ` set ns)"

definition owner_agrees :: "string \<Rightarrow> timeline_input list \<Rightarrow> (string, string) jsmap \<Rightarrow> bool" where
  "owner_agrees k is owned \<longleftrightarrow> (\<forall>i \<in> set is. ti_owned i \<longrightarrow> map_of owned (ti_id i) = Some k)"

lemma own_None [simp]: "fold (own_input byID k) is None = None" 
  by (induction "is") (simp_all add: own_input_def)

lemma own_fold:
  "fold (own_input (table ns) k) is (Some owned) = Some owned' \<Longrightarrow>
    (\<forall>i \<in> set is. ti_id i \<in> sn_id ` set ns) \<and> owner_agrees k is owned' \<and> map_of owned \<subseteq>\<^sub>m map_of owned'"
proof (induction "is" arbitrary: owned)
  case (Cons i "is")
  then obtain o1 where o1: "own_input (table ns) k i (Some owned) = Some o1"
    by (cases "own_input (table ns) k i (Some owned)") auto
  have one: "ti_id i \<in> sn_id ` set ns"
    using o1 by (simp add: own_input_def split: if_splits)
  moreover have "ti_owned i \<longrightarrow> map_of o1 (ti_id i) = Some k" "map_of owned \<subseteq>\<^sub>m map_of o1"
    using o1 by (auto simp: own_input_def ms_has_iff [of owned] map_le_def split: if_splits)
  ultimately have one: "ti_id i \<in> sn_id ` set ns" "ti_owned i \<longrightarrow> map_of o1 (ti_id i) = Some k" "map_of owned \<subseteq>\<^sub>m map_of o1"
    by blast+
  have rest: "(\<forall>i \<in> set is. ti_id i \<in> sn_id ` set ns) \<and> owner_agrees k is owned' \<and> map_of o1 \<subseteq>\<^sub>m map_of owned'"
    using Cons.IH [of o1] Cons.prems o1 by simp
  then have "ti_owned i \<longrightarrow> map_of owned' (ti_id i) = Some k" using one(2) by (metis domI map_le_def)
  with one rest show ?case by (auto simp: owner_agrees_def intro: map_le_trans)
qed (simp add: owner_agrees_def)

lemma own_nodes:
  "fold (\<lambda>(k, node) st. fold (own_input (table ns) (sn_id node)) (sn_inputs node) st) (table ms) (Some owned) = Some owned' \<Longrightarrow>
    inputs_exist ns ms \<and> (\<forall>m \<in> set ms. owner_agrees (sn_id m) (sn_inputs m) owned') \<and> map_of owned \<subseteq>\<^sub>m map_of owned'"
proof (induction ms arbitrary: owned)
  case (Cons m ms)
  have none: "fold (\<lambda>(k, node) st. fold (own_input (table ns) (sn_id node)) (sn_inputs node) st) xs None = None" for xs
    by (induction xs) auto
  from Cons.prems obtain o1 where o1: "fold (own_input (table ns) (sn_id m)) (sn_inputs m) (Some owned) = Some o1"
    by (cases "fold (own_input (table ns) (sn_id m)) (sn_inputs m) (Some owned)") (auto simp: none)
  have rest: "inputs_exist ns ms \<and> (\<forall>m \<in> set ms. owner_agrees (sn_id m) (sn_inputs m) owned') \<and> map_of o1 \<subseteq>\<^sub>m map_of owned'"
    using Cons.IH [of o1] Cons.prems o1 by simp
  have "owner_agrees (sn_id m) (sn_inputs m) owned'"
    using own_fold [OF o1] rest unfolding owner_agrees_def by (metis domI map_le_def)
  with own_fold [OF o1] rest show ?case by (auto simp: inputs_exist_def intro: map_le_trans)
qed (simp add: inputs_exist_def)

lemma own_inputs_sound: "own_inputs (table ns) = Some owned \<Longrightarrow> inputs_exist ns ns \<and> one_owner ns"
proof -
  assume "own_inputs (table ns) = Some owned"
  then have "inputs_exist ns ns" "\<forall>m \<in> set ns. owner_agrees (sn_id m) (sn_inputs m) owned"
    using own_nodes [of ns ns "[]" owned] by (simp_all add: own_inputs_def)
  then show ?thesis by (simp add: one_owner_def owner_agrees_def) (metis option.inject)
qed

definition owned_by :: "timeline_node list \<Rightarrow> (string, string) jsmap \<Rightarrow> bool" where
  "owned_by ns owned \<longleftrightarrow> (\<forall>x k. map_of owned x = Some k \<longrightarrow>
     (\<exists>n \<in> set ns. sn_id n = k \<and> (\<exists>i \<in> set (sn_inputs n). ti_owned i \<and> ti_id i = x)))"

lemma own_fold_accepts:
  assumes "one_owner ns" and "n \<in> set ns" and "set is \<subseteq> set (sn_inputs n)" and "inputs_exist ns ns" and "owned_by ns owned"
  shows "\<exists>owned'. fold (own_input (table ns) (sn_id n)) is (Some owned) = Some owned' \<and> owned_by ns owned'"
  using assms(3,5)
proof (induction "is" arbitrary: owned)
  case (Cons i "is")
  have ex: "ti_id i \<in> sn_id ` set ns" using assms(2,4) Cons.prems(1) by (auto simp: inputs_exist_def)
  have agree: "k = sn_id n" if "map_of owned (ti_id i) = Some k" "ti_owned i" for k
  proof -
    obtain m j where "m \<in> set ns" "sn_id m = k" "j \<in> set (sn_inputs m)" "ti_owned j" "ti_id j = ti_id i"
      using Cons.prems(2) \<open>map_of owned (ti_id i) = Some k\<close> unfolding owned_by_def by blast
    with assms(1,2) Cons.prems(1) that(2) show ?thesis unfolding one_owner_def by (metis list.set_intros(1) subsetD)
  qed
  obtain o1 where o1: "own_input (table ns) (sn_id n) i (Some owned) = Some o1" "owned_by ns o1"
  proof (cases "ti_owned i")
    case False
    with ex Cons.prems(2) that show thesis by (simp add: own_input_def)
  next
    case True
    have "owned_by ns (ms_set (ti_id i) (sn_id n) owned)"
      using Cons.prems assms(2) True unfolding owned_by_def by (auto split: if_splits)
    moreover have "\<not> (ms_has owned (ti_id i) \<and> map_of owned (ti_id i) \<noteq> Some (sn_id n))"
      using agree True by (cases "map_of owned (ti_id i)") (auto simp: ms_has_iff)
    ultimately show thesis using ex True that by (simp add: own_input_def)
  qed
  with Cons.IH [OF _ o1(2)] Cons.prems(1) show ?case by simp
qed auto

lemma own_nodes_accepts:
  assumes "one_owner ns" and "inputs_exist ns ns"
  shows "set ms \<subseteq> set ns \<Longrightarrow> owned_by ns owned \<Longrightarrow>
    \<exists>owned'. fold (\<lambda>(k, node) st. fold (own_input (table ns) (sn_id node)) (sn_inputs node) st) (table ms) (Some owned) = Some owned'"
proof (induction ms arbitrary: owned)
  case (Cons m ms)
  obtain o1 where "fold (own_input (table ns) (sn_id m)) (sn_inputs m) (Some owned) = Some o1" "owned_by ns o1"
    using own_fold_accepts [OF assms(1) _ subset_refl assms(2) Cons.prems(2)] Cons.prems(1) by (metis list.set_intros(1) subsetD)
  with Cons.IH [of o1] Cons.prems(1) show ?case by simp
qed simp

lemma own_inputs_accepts: "one_owner ns \<Longrightarrow> inputs_exist ns ns \<Longrightarrow> \<exists>owned. own_inputs (table ns) = Some owned"
  using own_nodes_accepts [of ns ns "[]"] by (simp add: own_inputs_def owned_by_def)

subsection \<open>Accepted timelines\<close>

definition well_formed :: "timeline_computation \<Rightarrow> bool" where
  "well_formed c \<longleftrightarrow> tc_version c \<in> {1, 2, 3} \<and> id_ok (tc_root c) \<and>
     distinct (map sn_id (tc_nodes c)) \<and> tc_root c \<in> sn_id ` set (tc_nodes c) \<and>
     (\<forall>n \<in> set (tc_nodes c). node_ok n) \<and> one_origin (tc_nodes c) \<and> one_owner (tc_nodes c) \<and>
     (\<forall>us n vs. tc_nodes c = us @ n # vs \<longrightarrow> (\<forall>i \<in> set (sn_inputs n). ti_id i \<in> sn_id ` set us)) \<and>
     (\<forall>n \<in> set (tc_nodes c). reached (input_edges (table (tc_nodes c))) [tc_root c] (sn_id n))"

lemma map_of_table: "distinct (map sn_id ns) \<Longrightarrow> n \<in> set ns \<Longrightarrow> map_of (table ns) (sn_id n) = Some n"
  by (rule map_of_is_SomeI) (simp_all only: keys_table, simp add: table_def)

lemma map_of_table_Some: "map_of (table ns) k = Some n \<Longrightarrow> n \<in> set ns \<and> sn_id n = k"
  by (induction ns) (auto split: if_splits)

lemma edges_exist:
  assumes "inputs_exist ns ns"
  shows "input_edges (table ns) k = (case map_of (table ns) k of None \<Rightarrow> [] | Some n \<Rightarrow> map (Some \<circ> ti_id) (rev (sn_inputs n)))"
  using assms map_of_table_Some [of ns k]
  by (auto simp: input_edges_def inputs_exist_def split: option.splits)

lemma edges_closed: "inputs_exist ns ns \<Longrightarrow> closed_under (input_edges (table ns)) (sn_id ` set ns)"
  unfolding closed_under_def
proof (intro ballI allI impI)
  fix k d
  assume ex: "inputs_exist ns ns" and d: "Some d \<in> set (input_edges (table ns) k)"
  obtain n where n: "map_of (table ns) k = Some n"
    using d by (cases "map_of (table ns) k") (simp_all add: edges_exist [OF ex])
  then have "n \<in> set ns" using map_of_table_Some by blast
  moreover obtain i where "i \<in> set (sn_inputs n)" "d = ti_id i" using d n by (auto simp: edges_exist [OF ex])
  ultimately show "d \<in> sn_id ` set ns" using ex by (simp add: inputs_exist_def)
qed

lemma reordered:
  assumes "distinct (map sn_id ns)" and "distinct order" and "set order = sn_id ` set ns"
  defines "ms \<equiv> map (\<lambda>k. the (map_of (table ns) k)) order"
  shows "map sn_id ms = order" "set ms = set ns" "map_of (table ms) = map_of (table ns)"
    "input_edges (table ms) = input_edges (table ns)"
proof -
  have at: "sn_id (the (map_of (table ns) k)) = k" "the (map_of (table ns) k) \<in> set ns" if "k \<in> set order" for k
    using that assms(3) map_of_table [OF assms(1)] by auto
  have "map (\<lambda>k. sn_id (the (map_of (table ns) k))) order = map id order"
    by (rule map_cong [OF refl]) (simp add: at)
  then show ids: "map sn_id ms = order" by (simp add: ms_def comp_def)
  have "n \<in> (\<lambda>k. the (map_of (table ns) k)) ` set order" if "n \<in> set ns" for n
    using that assms(3) map_of_table [OF assms(1) that] by (intro rev_image_eqI [of "sn_id n"]) auto
  then show same: "set ms = set ns" using at(2) by (auto simp: ms_def)
  have d: "distinct (map sn_id ms)" using ids assms(2) by simp
  have "map_of (table ms) k = map_of (table ns) k" for k
  proof (cases "map_of (table ns) k")
    case None
    then have "k \<notin> sn_id ` set ns" using map_of_table [OF assms(1)] by fastforce
    then have "map_of (table ms) k = None" using map_of_table_Some [of ms k] same by (cases "map_of (table ms) k") auto
    with None show ?thesis by simp
  next
    case (Some n)
    then have "n \<in> set ms" "sn_id n = k" using map_of_table_Some same by blast+
    with map_of_table [OF d] Some show ?thesis by fastforce
  qed
  then show maps: "map_of (table ms) = map_of (table ns)" by blast
  have "ms_has (table ms) = ms_has (table ns)" by (rule ext) (simp add: same)
  then show "input_edges (table ms) = input_edges (table ns)" by (intro ext) (simp only: input_edges_def maps)
qed

lemma version_of_Some: "version_of v = Some n \<longleftrightarrow> n \<in> {1, 2, 3} \<and> v = jnum (real n)"
  by (auto simp: version_of_def split: js_val.splits js_num.splits if_splits)

lemma accepted:
  assumes "normalizeTimelineComputation v = Some c"
  obtains ns where "tc_version c \<in> {1, 2, 3}" "id_ok (tc_root c)" "distinct (map sn_id ns)" "\<forall>n \<in> set ns. node_ok n"
    "one_origin ns" "one_owner ns" "inputs_exist ns ns" "tc_root c \<in> sn_id ` set ns"
    "dependencyOrder [tc_root c] (input_edges (table ns)) = Some (map sn_id (tc_nodes c))"
    "distinct (map sn_id (tc_nodes c))" "set (tc_nodes c) = set ns" "map_of (table (tc_nodes c)) = map_of (table ns)"
    "input_edges (table (tc_nodes c)) = input_edges (table ns)"
    "\<forall>us k vs. map sn_id (tc_nodes c) = us @ k # vs \<longrightarrow> set (input_edges (table ns) k) \<subseteq> Some ` set us"
    "\<forall>n \<in> set ns. reached (input_edges (table ns)) [tc_root c] (sn_id n)"
proof -
  from assms obtain raws byID origins owned ordered where
    c: "version_of (field (case asRecord v of Some fs \<Rightarrow> fs) ''version'') = Some (tc_version c)"
      "id_ok (tc_root c)" "fold add_node raws (Some ([], [])) = Some (byID, origins)" "ms_has byID (tc_root c)"
      "own_inputs byID = Some owned" "dependencyOrder [tc_root c] (input_edges byID) = Some ordered"
      "length ordered = length byID" "tc_nodes c = map (\<lambda>n. the (map_of byID n)) ordered"
    by (auto simp: normalizeTimelineComputation_def bind_eq_Some_conv identity_text_Some split: if_splits)
  have "\<exists>ms. map node_of raws = map Some ms \<and> byID = table ([] @ ms) \<and> distinct (map sn_id ([] @ ms)) \<and> origins_of ([] @ ms) origins"
    by (rule add_nodes [of "[]" "[]"]) (use c(3) in \<open>auto simp: origins_of_def\<close>)
  then obtain ns where ns: "map node_of raws = map Some ns" "byID = table ns" "distinct (map sn_id ns)" "origins_of ns origins"
    by auto
  have ok: "\<forall>n \<in> set ns. node_ok n"
  proof
    fix n assume "n \<in> set ns"
    then have "Some n \<in> set (map node_of raws)" using ns(1) by simp
    then show "node_ok n" using node_of_sound by (metis (no_types, lifting) imageE list.set_map)
  qed
  have own: "inputs_exist ns ns" "one_owner ns" using own_inputs_sound c(5) ns(2) by blast+
  have rt: "tc_root c \<in> sn_id ` set ns" using c(4) ns(2) by simp
  let ?U = "sn_id ` set ns"
  have g: "finite ?U" "closed_under (input_edges (table ns)) ?U" "set [tc_root c] \<subseteq> ?U"
    using edges_closed [OF own(1)] rt by auto
  note ord = dord.order_SomeD [OF g] dord.order_dependencies_first [OF g]
  have o: "distinct ordered" "set ordered = {n. reached (input_edges (table ns)) [tc_root c] n}"
    using ord(1,3) c(6) ns(2) by blast+
  have "set ordered \<subseteq> ?U"
    unfolding o(2)
  proof
    fix n assume "n \<in> {n. reached (input_edges (table ns)) [tc_root c] n}"
    then have "(edge (input_edges (table ns)))\<^sup>*\<^sup>* (tc_root c) n" by (simp add: reached_def)
    then show "n \<in> ?U"
    proof induction
      case (step y z)
      then show ?case using g(2) unfolding closed_under_def edge_def by blast
    qed (rule rt)
  qed
  moreover have "card (set ordered) = card ?U"
    using o(1) ns(2,3) c(7) by (simp add: distinct_card table_def) (metis distinct_card length_map set_map)
  ultimately have all: "set ordered = ?U" by (simp add: card_subset_eq)
  note re = reordered [OF ns(3) o(1) all, folded ns(2), folded c(8)]
  show thesis
  proof
    show "dependencyOrder [tc_root c] (input_edges (table ns)) = Some (map sn_id (tc_nodes c))"
      using c(6) ns(2) re(1) by simp
    show "\<forall>us k vs. map sn_id (tc_nodes c) = us @ k # vs \<longrightarrow> set (input_edges (table ns) k) \<subseteq> Some ` set us"
      using ord(4) c(6) ns(2) re(1) by simp
    show "\<forall>n \<in> set ns. reached (input_edges (table ns)) [tc_root c] (sn_id n)"
      using o(2) all by blast
  qed (use c(1,2) ns(2,3) ok origins_one [OF ns(4)] own rt o(1) re in \<open>simp_all add: version_of_Some\<close>)
qed

lemma accepted_dependencies_first:
  assumes edges: "\<forall>us k vs. map sn_id ns' = us @ k # vs \<longrightarrow> set (input_edges (table ns) k) \<subseteq> Some ` set us"
    and same: "set ns' = set ns" and d: "distinct (map sn_id ns)" and ex: "inputs_exist ns ns"
    and split: "ns' = us @ n # vs" and i: "i \<in> set (sn_inputs n)"
  shows "ti_id i \<in> sn_id ` set us"
proof -
  have "n \<in> set ns" using split same by auto
  then have "Some (ti_id i) \<in> set (input_edges (table ns) (sn_id n))"
    using i by (simp add: edges_exist [OF ex] map_of_table [OF d])
  moreover have "map sn_id ns' = map sn_id us @ sn_id n # map sn_id vs" by (simp add: split)
  ultimately show ?thesis using edges by fastforce
qed

lemma accepted_result:
  assumes "normalizeTimelineComputation v = Some c"
  shows "well_formed c"
    "dependencyOrder [tc_root c] (input_edges (table (tc_nodes c))) = Some (map sn_id (tc_nodes c))"
proof -
  obtain ns where ns: "tc_version c \<in> {1, 2, 3}" "id_ok (tc_root c)" "distinct (map sn_id ns)" "\<forall>n \<in> set ns. node_ok n"
    "one_origin ns" "one_owner ns" "inputs_exist ns ns" "tc_root c \<in> sn_id ` set ns"
    "dependencyOrder [tc_root c] (input_edges (table ns)) = Some (map sn_id (tc_nodes c))"
    "distinct (map sn_id (tc_nodes c))" "set (tc_nodes c) = set ns" "map_of (table (tc_nodes c)) = map_of (table ns)"
    "input_edges (table (tc_nodes c)) = input_edges (table ns)"
    "\<forall>us k vs. map sn_id (tc_nodes c) = us @ k # vs \<longrightarrow> set (input_edges (table ns) k) \<subseteq> Some ` set us"
    "\<forall>n \<in> set ns. reached (input_edges (table ns)) [tc_root c] (sn_id n)"
    by (rule accepted [OF assms]) (rule that)
  note first = accepted_dependencies_first [OF ns(14) ns(11,3,7)]
  have "one_origin (tc_nodes c)" "one_owner (tc_nodes c)"
    using ns(5,6) by (simp_all only: one_origin_def one_owner_def ns(11))
  moreover have "\<forall>n \<in> set (tc_nodes c). node_ok n" "tc_root c \<in> sn_id ` set (tc_nodes c)"
    "\<forall>n \<in> set (tc_nodes c). reached (input_edges (table (tc_nodes c))) [tc_root c] (sn_id n)"
    using ns(4,8,15) by (simp_all only: ns(11,13))
  ultimately show "well_formed c" unfolding well_formed_def using ns(1,2,10) first by blast
  show "dependencyOrder [tc_root c] (input_edges (table (tc_nodes c))) = Some (map sn_id (tc_nodes c))"
    using ns(9,13) by simp
qed

lemma well_formed_inputs: "well_formed c \<Longrightarrow> inputs_exist (tc_nodes c) (tc_nodes c)"
  unfolding inputs_exist_def
proof (intro ballI)
  fix n i
  assume wf: "well_formed c" and n: "n \<in> set (tc_nodes c)" "i \<in> set (sn_inputs n)"
  then obtain us vs where "tc_nodes c = us @ n # vs" by (meson split_list)
  moreover from this wf n(2) have "ti_id i \<in> sn_id ` set us" unfolding well_formed_def by blast
  ultimately show "ti_id i \<in> sn_id ` set (tc_nodes c)" by auto
qed

lemma raw_nodes:
  assumes "fold add_node (map node_value ms) (Some ([], [])) = Some (table ms, origins)" and "own_inputs (table ms) = Some owned"
    and "r \<in> sn_id ` set ms" and "dependencyOrder [r] (input_edges (table ms)) = Some (map sn_id ms)"
    and "version_of (jnum (real version)) = Some version" and "id_ok r" and "distinct (map sn_id ms)"
  shows "normalizeTimelineComputation (timeline_value \<lparr>tc_version = version, tc_root = r, tc_nodes = ms\<rparr>) =
    Some \<lparr>tc_version = version, tc_root = r, tc_nodes = ms\<rparr>"
proof -
  let ?fs = "[(''version'', jnum (real version)), (''root'', JStr r), (''nodes'', JArr (map node_value ms))]"
  have look: "asRecord (timeline_value \<lparr>tc_version = version, tc_root = r, tc_nodes = ms\<rparr>) = Some ?fs"
    "field ?fs ''version'' = jnum (real version)" "field ?fs ''root'' = JStr r" "field ?fs ''nodes'' = JArr (map node_value ms)"
    by (simp_all add: asRecord_def timeline_value_def array_value_def field_def)
  have root_text: "identity_text (JStr r) = Some r" using assms(6) by (simp add: identity_text_Some)
  have ne: "map node_value ms \<noteq> []" using assms(3) by auto
  have has: "ms_has (table ms) r" using assms(3) by simp
  have len: "length (map sn_id ms) = length (table ms)" by (simp add: table_def)
  have same_nodes: "map (\<lambda>k. the (map_of (table ms) k)) (map sn_id ms) = ms"
    using map_of_table [OF assms(7)] by (simp add: map_idI)
  show ?thesis
    unfolding normalizeTimelineComputation_def
    by (simp only: look root_text assms(1,2,4,5) ne has len same_nodes Option.bind.bind_lunit js_val.case if_True if_False
        not_False_eq_True simp_thms prod.case)
qed

definition sample_timeline :: js_val where
  "sample_timeline = JObj [(''version'', jnum 3), (''root'', JStr ''b''), (''nodes'', JArr [
     JObj [(''id'', JStr ''b''), (''clock'', JStr ''k''), (''startedAt'', jnum 0), (''completedAt'', jnum 1),
       (''inputs'', JArr [JObj [(''id'', JStr ''a''), (''owned'', JBool True)]])],
     JObj [(''id'', JStr ''a''), (''clock'', JStr ''k''), (''startedAt'', jnum 0), (''completedAt'', jnum 0)]])]"

definition sample_result :: timeline_computation where
  "sample_result = \<lparr>tc_version = 3, tc_root = ''b'', tc_nodes = [
     \<lparr>sn_id = ''a'', sn_clock = ''k'', sn_interval = \<lparr>startedAt = 0, completedAt = 0\<rparr>, sn_timeOrigin = None, sn_spans = None,
       sn_priorMs = None, sn_producer = None, sn_groups = [], sn_incomplete = False, sn_inputs = []\<rparr>,
     \<lparr>sn_id = ''b'', sn_clock = ''k'', sn_interval = \<lparr>startedAt = 0, completedAt = 1\<rparr>, sn_timeOrigin = None, sn_spans = None,
       sn_priorMs = None, sn_producer = None, sn_groups = [], sn_incomplete = False,
       sn_inputs = [\<lparr>ti_id = ''a'', ti_owned = True, ti_reused = False, ti_overhead = False, ti_uncertain = False, ti_shared = None\<rparr>]\<rparr>]\<rparr>"

lemma sample_accepted: "normalizeTimelineComputation sample_timeline = Some sample_result"
  by code_simp

subsection \<open>Properties\<close>

text \<open>C39. Whatever value is read back, an accepted timeline is complete telemetry: its identities, durations and
  intervals are valid and every calculation span lies in its node; node identities are distinct; a clock has one
  time origin; a node has at most one owner; dependencies come before the nodes that use them, so the graph has no
  cycle; and every node is reachable from the root.\<close>

theorem accepted_timelines_are_well_formed:
  assumes "normalizeTimelineComputation v = Some c"
  shows "well_formed c"
  using accepted_result(1) [OF assms] .

theorem accepted_timelines_are_well_formed_witness: "well_formed sample_result"
  by (rule accepted_timelines_are_well_formed [OF sample_accepted])

lemma normalized_again:
  assumes "normalizeTimelineComputation v = Some c"
  shows "normalizeTimelineComputation (timeline_value c) = Some c"
proof -
  note wf = accepted_result(1) [OF assms]
  let ?ms = "tc_nodes c"
  have ms: "one_origin ?ms" "one_owner ?ms" "\<forall>m \<in> set ?ms. node_ok m" "tc_root c \<in> sn_id ` set ?ms" "distinct (map sn_id ?ms)"
    using wf by (simp_all add: well_formed_def)
  obtain origins where read: "fold add_node (map node_value ?ms) (Some ([], [])) = Some (table ?ms, origins)"
    using add_nodes_accepts [of "[]" ?ms "[]"] ms(1,3,5) by (auto simp: origins_of_def)
  obtain owned where "own_inputs (table ?ms) = Some owned"
    using own_inputs_accepts [OF ms(2) well_formed_inputs [OF wf]] by blast
  from raw_nodes [OF read this ms(4) accepted_result(2) [OF assms] _ _ ms(5), of "tc_version c"] wf
  show ?thesis by (cases c) (simp add: well_formed_def version_of_Some)
qed

text \<open>Normalization is idempotent: the object it returns is accepted again, unchanged, with its nodes in the same
  order.\<close>

theorem normalization_is_idempotent:
  assumes "normalizeTimelineComputation v = Some c"
  shows "normalizeTimelineComputation (timeline_value c) = Some c"
  by (rule normalized_again [OF assms])

theorem normalization_is_idempotent_witness: "normalizeTimelineComputation (timeline_value sample_result) = Some sample_result"
  by (rule normalization_is_idempotent [OF sample_accepted])

end
