(* ===== verification/Task_Timing.thy ===== *)
theory Task_Timing
  imports Timeline_Intervals Timeline_Computation
begin

text \<open>
  The evidence graph of \<open>src/task-timing.ts\<close>: the \<open>TimelineInterval\<close> objects with the evidence attached to them,
  the dependencies they consume, their serialization, and what one settled call and one task report.

  Objects live in a store: an object is its index, \<open>cell_at\<close> its interval and its evidence (a \<open>WeakMap\<close> entry in
  the source, created on demand with every field undefined).  \<open>timing_env\<close> holds the process constants
  \<open>identityNamespace\<close> and \<open>performance.timeOrigin\<close>; the current time and the current collection are arguments.
  A key \<open>JSON.stringify([a, b])\<close> is the pair itself.  \<open>merged_producer\<close> distinguishes \<open>undefined\<close> from the
  \<open>null\<close> that marks conflicting producers.
\<close>

subsection \<open>Objects and their evidence\<close>

record dependency =
  td_computation :: nat
  td_owned :: bool
  td_reused :: bool
  td_overhead :: bool
  td_uncertain :: bool
  td_shared :: "nat list option"

record evidence =
  ev_interval :: interval
  ev_inputs :: "dependency list"
  ev_spans :: "nat list option"
  ev_owner :: "nat option"
  ev_producer :: "producer option"
  ev_id :: "string option"
  ev_clock :: "string option"
  ev_timeOrigin :: "real option"
  ev_priorMs :: "real option"
  ev_groups :: "string list"
  ev_published :: bool
  ev_incomplete :: bool

record store_heap =
  hp_nodes :: "evidence list"
  hp_nextIdentity :: nat

record timing_env =
  te_namespace :: string
  te_timeOrigin :: real

definition blank :: "interval \<Rightarrow> evidence" where
  "blank iv = \<lparr>ev_interval = iv, ev_inputs = [], ev_spans = None, ev_owner = None, ev_producer = None, ev_id = None,
     ev_clock = None, ev_timeOrigin = None, ev_priorMs = None, ev_groups = [], ev_published = False, ev_incomplete = False\<rparr>"

definition cell_at :: "store_heap \<Rightarrow> nat \<Rightarrow> evidence" where
  "cell_at h i = (if i < length (hp_nodes h) then hp_nodes h ! i else blank (span 0 0))"

definition set_cell :: "nat \<Rightarrow> (evidence \<Rightarrow> evidence) \<Rightarrow> store_heap \<Rightarrow> store_heap" where
  "set_cell i f h = h\<lparr>hp_nodes := (hp_nodes h)[i := f (cell_at h i)]\<rparr>"

fun decimal :: "nat \<Rightarrow> string" where
  "decimal n = (if n < 10 then [char_of (48 + n)] else decimal (n div 10) @ [char_of (48 + n mod 10)])"

declare decimal.simps [simp del]

definition computationIdentity :: "timing_env \<Rightarrow> nat \<Rightarrow> store_heap \<Rightarrow> string \<times> store_heap" where
  "computationIdentity env i h = (case ev_id (cell_at h i) of
     Some (c # s) \<Rightarrow> (c # s, h)
   | _ \<Rightarrow>
       let n = hp_nextIdentity h + 1; ident = ''timeline:'' @ te_namespace env @ '':'' @ decimal n in
       (ident, set_cell i (\<lambda>e. e\<lparr>ev_id := Some ident\<rparr>) (h\<lparr>hp_nextIdentity := n\<rparr>)))"

definition computationClock :: "timing_env \<Rightarrow> store_heap \<Rightarrow> nat \<Rightarrow> string" where
  "computationClock env h i = (case ev_clock (cell_at h i) of Some k \<Rightarrow> k | None \<Rightarrow> te_namespace env)"

definition computationTimeOrigin :: "timing_env \<Rightarrow> store_heap \<Rightarrow> nat \<Rightarrow> real option" where
  "computationTimeOrigin env h i =
     (if computationClock env h i = te_namespace env then Some (te_timeOrigin env) else ev_timeOrigin (cell_at h i))"

text \<open>The constructor.  The arguments are objects already, \<open>from\<close> makes one of a plain interval.\<close>

definition stored_input :: "dependency \<Rightarrow> dependency" where
  "stored_input d = d\<lparr>td_shared := Some (case td_shared d of
     Some parts \<Rightarrow> parts | None \<Rightarrow> if td_overhead d then [td_computation d] else [])\<rparr>"

definition own_computations :: "nat \<Rightarrow> dependency list \<Rightarrow> store_heap \<Rightarrow> store_heap" where
  "own_computations i ds h =
     fold (\<lambda>d h. if td_owned d then set_cell (td_computation d) (\<lambda>e. e\<lparr>ev_owner := Some i\<rparr>) h else h) ds h"

definition new_interval ::
  "js_num \<Rightarrow> js_num \<Rightarrow> dependency list \<Rightarrow> nat list option \<Rightarrow> producer option \<Rightarrow> store_heap \<Rightarrow> nat \<times> store_heap" where
  "new_interval s e inputs spans maker h =
     (let i = length (hp_nodes h);
          ds = map stored_input inputs;
          node = (blank (timeline_interval (JNum s) (JNum e)))\<lparr>ev_inputs := ds, ev_spans := spans, ev_producer := maker\<rparr> in
      (i, own_computations i ds (h\<lparr>hp_nodes := hp_nodes h @ [node]\<rparr>)))"

definition interval_from :: "interval \<Rightarrow> store_heap \<Rightarrow> nat \<times> store_heap" where
  "interval_from iv h = new_interval (Fin (startedAt iv)) (Fin (completedAt iv)) [] None None h"

fun intervals_from :: "interval list \<Rightarrow> store_heap \<Rightarrow> nat list \<times> store_heap" where
  "intervals_from [] h = ([], h)"
| "intervals_from (iv # ivs) h =
     (let (i, h1) = interval_from iv h; (is, h2) = intervals_from ivs h1 in (i # is, h2))"

text \<open>Ownership passes production provenance to children: the producer is that of the nearest owner that has one.\<close>

partial_function (option) producer_loop :: "store_heap \<Rightarrow> nat \<Rightarrow> producer option option" where
  "producer_loop h i = (case ev_producer (cell_at h i) of
     Some p \<Rightarrow> Some (Some p)
   | None \<Rightarrow> (case ev_owner (cell_at h i) of None \<Rightarrow> Some None | Some owner \<Rightarrow> producer_loop h owner))"

declare producer_loop.simps [code]

definition computationProducer :: "store_heap \<Rightarrow> nat \<Rightarrow> producer option" where
  "computationProducer h i = (case producer_loop h i of Some p \<Rightarrow> p | None \<Rightarrow> None)"

subsection \<open>Collections\<close>

text \<open>
  The inputs a collection has gathered: the first \<open>use\<close> of a computation counts, \<open>own\<close> and \<open>exclude\<close> replace its
  receipt.  \<open>None\<close> is a closed collection, or no collection at all.
\<close>

record receipt =
  rc_owned :: bool
  rc_reused :: bool
  rc_overhead :: bool
  rc_uncertain :: bool

definition no_receipt :: receipt where
  "no_receipt = \<lparr>rc_owned = False, rc_reused = False, rc_overhead = False, rc_uncertain = False\<rparr>"

type_synonym collection = "(nat, receipt) jsmap option"

definition use_computation :: "nat option \<Rightarrow> collection \<Rightarrow> collection" where
  "use_computation computation scope = (case (computation, scope) of
     (Some c, Some inputs) \<Rightarrow>
       if ms_has inputs c then scope else Some (ms_set c (no_receipt\<lparr>rc_reused := True\<rparr>) inputs)
   | _ \<Rightarrow> scope)"

definition own_computation :: "nat \<Rightarrow> collection \<Rightarrow> collection" where
  "own_computation c scope = map_option (ms_set c (no_receipt\<lparr>rc_owned := True\<rparr>)) scope"

definition exclude_computation :: "nat \<Rightarrow> bool \<Rightarrow> collection \<Rightarrow> collection" where
  "exclude_computation c uncertain scope =
     map_option (ms_set c (no_receipt\<lparr>rc_overhead := True, rc_uncertain := uncertain\<rparr>)) scope"

definition collected :: "(nat, receipt) jsmap \<Rightarrow> dependency list" where
  "collected inputs = map (\<lambda>(c, r). \<lparr>td_computation = c, td_owned = rc_owned r, td_reused = rc_reused r,
     td_overhead = rc_overhead r, td_uncertain = rc_uncertain r, td_shared = Some [c]\<rparr>) inputs"

text \<open>
  The end of \<open>measure\<close>: the clock has finished, the collection is complete, and the caller's own inputs
  are \<open>None\<close> when computing them failed.
\<close>

definition measured_computation ::
  "js_num \<Rightarrow> js_num \<Rightarrow> (nat, receipt) jsmap \<Rightarrow> dependency list option \<Rightarrow> nat list \<Rightarrow> producer option \<Rightarrow> store_heap
     \<Rightarrow> nat \<times> store_heap" where
  "measured_computation s e inputs caller_inputs clock_spans maker h = (case caller_inputs of
     Some ds \<Rightarrow> new_interval s e (collected inputs @ ds) (Some clock_spans) maker h
   | None \<Rightarrow> new_interval s e [] (Some clock_spans) maker h)"

subsection \<open>Provenance and retention\<close>

definition add_alias :: "string \<Rightarrow> string list \<Rightarrow> string list" where
  "add_alias g gs = (if g \<in> set gs then gs else gs @ [g])"

definition group_computation :: "timing_env \<Rightarrow> nat \<Rightarrow> nat \<Rightarrow> store_heap \<Rightarrow> store_heap" where
  "group_computation env computation owner h =
     (let (ident, h1) = computationIdentity env owner h in
      set_cell computation (\<lambda>e. e\<lparr>ev_groups := add_alias ident (ev_groups e)\<rparr>) h1)"

definition retained :: "timing_env \<Rightarrow> string \<Rightarrow> js_num \<Rightarrow> nat option \<Rightarrow> store_heap \<Rightarrow> nat \<times> store_heap" where
  "retained env ident durationMs original h =
     (let (i, h1) = (case original of Some i \<Rightarrow> (i, h) | None \<Rightarrow> new_interval (Fin 0) (Fin 0) [] None None h);
          (name, h2) = (if ev_published (cell_at h1 i) then computationIdentity env i h1 else (ident, h1));
          prior = (case original of
             Some _ \<Rightarrow> (case ev_priorMs (cell_at h2 i) of Some x \<Rightarrow> x | None \<Rightarrow> 0)
           | None \<Rightarrow> nonNegativeFinite (JNum durationMs)) in
      (i, set_cell i (\<lambda>e. e\<lparr>ev_id := Some name, ev_priorMs := Some prior\<rparr>) h2))"

definition unknownReuse :: "timing_env \<Rightarrow> string \<Rightarrow> store_heap \<Rightarrow> nat \<times> store_heap" where
  "unknownReuse env ident h = (let (i, h1) = retained env ident (Fin 0) None h in
     (i, set_cell i (\<lambda>e. e\<lparr>ev_incomplete := True\<rparr>) h1))"

definition producerID :: "timing_env \<Rightarrow> nat \<Rightarrow> string \<Rightarrow> store_heap \<Rightarrow> string \<times> store_heap" where
  "producerID env owner key h = (let (ident, h1) = computationIdentity env owner h in (ident @ '':'' @ key, h1))"

definition unproduced :: "store_heap \<Rightarrow> nat set" where
  "unproduced h = {i. i < length (hp_nodes h) \<and> ev_producer (cell_at h i) = None}"

lemma length_set_cell [simp]: "length (hp_nodes (set_cell i f h)) = length (hp_nodes h)"
  by (simp add: set_cell_def)

lemma cell_at_set_cell [simp]:
  "cell_at (set_cell i f h) j = (if i = j \<and> i < length (hp_nodes h) then f (cell_at h i) else cell_at h j)"
  by (simp add: set_cell_def cell_at_def nth_list_update)

lemma finite_unproduced [simp]: "finite (unproduced h)"
  by (simp add: unproduced_def)

function producedBy_loop :: "(nat \<times> producer) list \<Rightarrow> store_heap \<Rightarrow> store_heap" where
  "producedBy_loop [] h = h"
| "producedBy_loop ((current, maker) # pending) h =
     (if ev_producer (cell_at h current) \<noteq> None then producedBy_loop pending h
      else
        let p = (case computationProducer h current of Some q \<Rightarrow> q | None \<Rightarrow> maker);
            owned = filter td_owned (ev_inputs (cell_at h current)) in
        producedBy_loop (rev (map (\<lambda>d. (td_computation d, p)) owned) @ pending)
          (set_cell current (\<lambda>e. e\<lparr>ev_producer := Some p\<rparr>) h))"
  by pat_completeness auto

termination
proof (relation "measures [\<lambda>(pending, h). card (unproduced h), \<lambda>(pending, h). length pending]", goal_cases)
  case (3 current maker pending h p owned)
  show ?case
  proof (cases "current < length (hp_nodes h)")
    case True
    then have "unproduced (set_cell current (\<lambda>e. e\<lparr>ev_producer := Some p\<rparr>) h) = unproduced h - {current}"
      by (auto simp: unproduced_def)
    moreover have "current \<in> unproduced h" using 3(1) True by (simp add: unproduced_def)
    ultimately have "card (unproduced (set_cell current (\<lambda>e. e\<lparr>ev_producer := Some p\<rparr>) h)) < card (unproduced h)"
      by (simp only: card_Diff1_less [OF finite_unproduced])
    then show ?thesis by simp
  next
    case False
    then have "owned = []" using 3(3) by (simp add: cell_at_def blank_def)
    moreover have "unproduced (set_cell current (\<lambda>e. e\<lparr>ev_producer := Some p\<rparr>) h) = unproduced h"
      using False by (auto simp: unproduced_def)
    ultimately show ?thesis by simp
  qed
qed simp_all

declare producedBy_loop.simps [code]

definition producedBy :: "nat \<Rightarrow> producer \<Rightarrow> store_heap \<Rightarrow> store_heap" where
  "producedBy computation maker h = producedBy_loop [(computation, maker)] h"

subsection \<open>Groups\<close>

definition unseen :: "store_heap \<Rightarrow> nat list \<Rightarrow> nat set" where
  "unseen h visited = {i. i < length (hp_nodes h) \<and> i \<notin> set visited}"

lemma length_computationIdentity [simp]:
  "length (hp_nodes (snd (computationIdentity env i h))) = length (hp_nodes h)"
  by (auto simp: computationIdentity_def Let_def split: option.splits list.splits)

lemma finite_unseen [simp]: "finite (unseen h visited)"
  by (simp add: unseen_def)

lemma unseen_less:
  assumes "i < length (hp_nodes h)" and "i \<notin> set visited" and "length (hp_nodes h') = length (hp_nodes h)"
  shows "card (unseen h' (i # visited)) < card (unseen h visited)"
proof -
  have "unseen h' (i # visited) = unseen h visited - {i}" using assms(3) by (auto simp: unseen_def)
  moreover have "i \<in> unseen h visited" using assms(1,2) by (simp add: unseen_def)
  ultimately show ?thesis by (simp only: card_Diff1_less [OF finite_unseen])
qed

lemma unseen_out:
  assumes "\<not> i < length (hp_nodes h)" and "length (hp_nodes h') = length (hp_nodes h)"
  shows "unseen h' (i # visited) = unseen h visited"
  using assms by (auto simp: unseen_def)

definition own_alias :: "timing_env \<Rightarrow> nat option \<Rightarrow> string list \<Rightarrow> store_heap \<Rightarrow> string list \<times> store_heap" where
  "own_alias env owner groups h = (case owner of
     None \<Rightarrow> (groups, h)
   | Some i \<Rightarrow> (add_alias (fst (computationIdentity env i h)) groups, snd (computationIdentity env i h)))"

lemma length_own_alias [simp]: "length (hp_nodes (snd (own_alias env owner groups h))) = length (hp_nodes h)"
  by (simp add: own_alias_def split: option.splits)

definition publish_node :: "bool \<Rightarrow> nat \<Rightarrow> store_heap \<Rightarrow> store_heap" where
  "publish_node publish i h = (if publish then set_cell i (\<lambda>e. e\<lparr>ev_published := True\<rparr>) h else h)"

lemma length_publish_node [simp]: "length (hp_nodes (publish_node publish i h)) = length (hp_nodes h)"
  by (simp add: publish_node_def)

lemma cell_at_publish [simp]:
  "ev_owner (cell_at (publish_node publish i h) j) = ev_owner (cell_at h j)"
  "ev_inputs (cell_at (publish_node publish i h) j) = ev_inputs (cell_at h j)"
  "ev_groups (cell_at (publish_node publish i h) j) = ev_groups (cell_at h j)"
  "ev_producer (cell_at (publish_node publish i h) j) = ev_producer (cell_at h j)"
  by (simp_all add: publish_node_def)

text \<open>Ownership is followed only to obtain aliases.\<close>

function groups_loop ::
  "timing_env \<Rightarrow> bool \<Rightarrow> nat option \<Rightarrow> nat list \<Rightarrow> string list \<Rightarrow> store_heap \<Rightarrow> string list \<times> store_heap" where
  "groups_loop env publish None visited groups h = (groups, h)"
| "groups_loop env publish (Some i) visited groups h =
     (if i \<in> set visited then (groups, h)
      else
        let owner = ev_owner (cell_at h i);
            step = own_alias env owner (fold add_alias (ev_groups (cell_at h i)) groups) (publish_node publish i h) in
        groups_loop env publish owner (i # visited) (fst step) (snd step))"
  by pat_completeness auto

termination
proof (relation "measures [\<lambda>(env, publish, current, visited, groups, h). card (unseen h visited),
    \<lambda>(env, publish, current, visited, groups, h). case current of None \<Rightarrow> 0 | Some _ \<Rightarrow> 1]", goal_cases)
  case (2 env publish i visited groups h owner step)
  show ?case
  proof (cases "i < length (hp_nodes h)")
    case True
    then show ?thesis using 2 unseen_less [of i h visited "snd step"] by (simp add: case_prod_beta)
  next
    case False
    then have "owner = None" using 2(2) by (simp add: cell_at_def blank_def)
    with False show ?thesis using 2 unseen_out [of i h "snd step" visited] by (simp add: case_prod_beta)
  qed
qed simp

declare groups_loop.simps [code]

definition computationGroups :: "timing_env \<Rightarrow> nat \<Rightarrow> bool \<Rightarrow> store_heap \<Rightarrow> string list \<times> store_heap" where
  "computationGroups env computation publish h = groups_loop env publish (Some computation) [] [] h"

lemma length_groups_loop [simp]:
  "length (hp_nodes (snd (groups_loop env publish current visited groups h))) = length (hp_nodes h)"
  by (induction env publish current visited groups h rule: groups_loop.induct) (simp_all add: Let_def)

declare groups_loop.simps [simp del]

lemma length_computationGroups [simp]:
  "length (hp_nodes (snd (computationGroups env c publish h))) = length (hp_nodes h)"
  by (simp add: computationGroups_def)

text \<open>The union of concurrency identities of one call, with path compression.\<close>

type_synonym group_parents = "(string, string) jsmap"

partial_function (option) owner_walk :: "group_parents \<Rightarrow> string \<Rightarrow> string option" where
  "owner_walk parents owner = (case map_of parents owner of
     None \<Rightarrow> Some owner | Some parent \<Rightarrow> owner_walk parents parent)"

partial_function (option) compress_walk :: "string \<Rightarrow> string \<Rightarrow> group_parents \<Rightarrow> group_parents option" where
  "compress_walk owner ident parents = (case map_of parents ident of
     None \<Rightarrow> Some parents | Some parent \<Rightarrow> compress_walk owner parent (ms_set ident owner parents))"

declare owner_walk.simps [code] compress_walk.simps [code]

text \<open>\<open>None\<close>: a walk that does not end.\<close>

definition group_owner :: "string \<Rightarrow> group_parents \<Rightarrow> (string \<times> group_parents) option" where
  "group_owner ident parents = do {
     owner \<leftarrow> owner_walk parents ident;
     parents' \<leftarrow> compress_walk owner ident parents;
     Some (owner, parents') }"

definition group_join :: "string \<Rightarrow> string \<Rightarrow> group_parents \<Rightarrow> group_parents option" where
  "group_join left right parents = do {
     (a, parents1) \<leftarrow> group_owner left parents;
     (b, parents2) \<leftarrow> group_owner right parents1;
     Some (if a \<noteq> b then ms_set a b parents2 else parents2) }"

subsection \<open>Aliases of one computation\<close>

datatype merged_producer = Unassigned | Conflicting | Assigned producer

definition disagree :: "'a option \<Rightarrow> 'a option \<Rightarrow> bool" where
  "disagree a b \<longleftrightarrow> a \<noteq> None \<and> b \<noteq> None \<and> a \<noteq> b"

definition mergeProducers :: "merged_producer \<Rightarrow> producer option \<Rightarrow> merged_producer" where
  "mergeProducers previous current = (case (previous, current) of
     (Conflicting, _) \<Rightarrow> Conflicting
   | (Assigned p, Some q) \<Rightarrow>
       if pr_source p \<noteq> pr_source q \<or> disagree (pr_mode p) (pr_mode q) \<or> disagree (pr_id p) (pr_id q) then Conflicting
       else Assigned \<lparr>pr_source = pr_source q,
         pr_mode = (case pr_mode p of Some m \<Rightarrow> Some m | None \<Rightarrow> pr_mode q),
         pr_id = (case pr_id p of Some m \<Rightarrow> Some m | None \<Rightarrow> pr_id q)\<rparr>
   | (Assigned p, None) \<Rightarrow> Assigned p
   | (Unassigned, Some q) \<Rightarrow> Assigned q
   | (Unassigned, None) \<Rightarrow> Unassigned)"

definition took_time :: "store_heap \<Rightarrow> nat \<Rightarrow> bool" where
  "took_time h i \<longleftrightarrow> startedAt (ev_interval (cell_at h i)) < completedAt (ev_interval (cell_at h i))"

definition preferredComputation :: "store_heap \<Rightarrow> nat option \<Rightarrow> nat \<Rightarrow> nat" where
  "preferredComputation h previous current = (case previous of
     None \<Rightarrow> current
   | Some p \<Rightarrow>
       if ev_incomplete (cell_at h p) \<and> \<not> ev_incomplete (cell_at h current) then current
       else if ev_incomplete (cell_at h current) \<and> \<not> ev_incomplete (cell_at h p) then p
       else if \<not> took_time h p \<and> took_time h current then current else p)"

text \<open>
  \<open>attempted\<close> copies a computation and what it owns or joined, with every reused input excluded; \<open>None\<close> when the
  graph of the inputs has a cycle, which the source does not expect.
\<close>

definition kept_edges :: "store_heap \<Rightarrow> nat \<Rightarrow> nat option list" where
  "kept_edges h i = rev (map (\<lambda>d. Some (td_computation d)) (filter (\<lambda>d. \<not> td_reused d) (ev_inputs (cell_at h i))))"

definition attempted_input :: "(nat, nat) jsmap \<Rightarrow> dependency \<Rightarrow> dependency" where
  "attempted_input copies d =
     (if td_reused d then \<lparr>td_computation = td_computation d, td_owned = False, td_reused = False, td_overhead = True,
        td_uncertain = False, td_shared = td_shared d\<rparr>
      else d\<lparr>td_computation := (case map_of copies (td_computation d) of Some c \<Rightarrow> c | None \<Rightarrow> td_computation d)\<rparr>)"

definition attempted_copy :: "timing_env \<Rightarrow> nat \<Rightarrow> (nat, nat) jsmap \<times> store_heap \<Rightarrow> (nat, nat) jsmap \<times> store_heap" where
  "attempted_copy env current st = (case st of (copies, h) \<Rightarrow>
     let e = cell_at h current;
         (result, h1) = new_interval (Fin (startedAt (ev_interval e))) (Fin (completedAt (ev_interval e)))
           (map (attempted_input copies) (ev_inputs e)) (ev_spans e) (computationProducer h current) h;
         (ident, h2) = computationIdentity env current h1;
         h3 = set_cell result (\<lambda>r. r\<lparr>ev_id := Some ident, ev_clock := Some (computationClock env h2 current),
           ev_timeOrigin := computationTimeOrigin env h2 current, ev_priorMs := ev_priorMs e, ev_groups := ev_groups e\<rparr>) h2 in
     (ms_set current result copies, h3))"

definition attempted :: "timing_env \<Rightarrow> nat \<Rightarrow> store_heap \<Rightarrow> (nat \<times> store_heap) option" where
  "attempted env computation h = do {
     order \<leftarrow> dependencyOrder [computation] (kept_edges h);
     (copies, h') \<leftarrow> Some (fold (attempted_copy env) order ([], h));
     result \<leftarrow> map_of copies computation;
     Some (result, h') }"

subsection \<open>Serialization\<close>

record selection =
  se_computation :: nat
  se_groups :: "string list"
  se_producer :: merged_producer

definition select_one ::
  "timing_env \<Rightarrow> nat \<Rightarrow> (string, selection) jsmap \<Rightarrow> store_heap \<Rightarrow> (string, selection) jsmap \<times> store_heap" where
  "select_one env current selected h =
     (let ident = fst (computationIdentity env current h);
          h1 = snd (computationIdentity env current h);
          prior = map_of selected ident;
          gs = fst (computationGroups env current True h1);
          h2 = snd (computationGroups env current True h1) in
      (ms_set ident \<lparr>se_computation = preferredComputation h1 (map_option se_computation prior) current,
         se_groups = fold add_alias gs (case prior of Some s \<Rightarrow> se_groups s | None \<Rightarrow> []),
         se_producer = mergeProducers (case prior of Some s \<Rightarrow> se_producer s | None \<Rightarrow> Unassigned) (computationProducer h2 current)\<rparr>
         selected,
       publish_node True current h2))"

lemma length_select_one [simp]: "length (hp_nodes (snd (select_one env current selected h))) = length (hp_nodes h)"
  by (simp add: select_one_def Let_def)

function select_loop ::
  "timing_env \<Rightarrow> nat list \<Rightarrow> nat list \<Rightarrow> (string, selection) jsmap \<Rightarrow> store_heap \<Rightarrow> (string, selection) jsmap \<times> store_heap" where
  "select_loop env [] visited selected h = (selected, h)"
| "select_loop env (current # pending) visited selected h =
     (if current \<in> set visited then select_loop env pending visited selected h
      else
        let next_state = select_one env current selected h in
        select_loop env (map td_computation (ev_inputs (cell_at h current)) @ pending) (current # visited)
          (fst next_state) (snd next_state))"
  by pat_completeness auto

termination
proof (relation "measures [\<lambda>(env, pending, visited, selected, h). card (unseen h visited),
    \<lambda>(env, pending, visited, selected, h). length pending]", goal_cases)
  case (3 env current pending visited selected h next_state)
  show ?case
  proof (cases "current < length (hp_nodes h)")
    case True
    then show ?thesis using 3 unseen_less [of current h visited "snd next_state"] by (simp add: case_prod_beta)
  next
    case False
    then have "ev_inputs (cell_at h current) = []" by (simp add: cell_at_def blank_def)
    with False show ?thesis using 3 unseen_out [of current h "snd next_state" visited] by (simp add: case_prod_beta)
  qed
qed simp_all

declare select_loop.simps [code, simp del]

abbreviation ident_of :: "timing_env \<Rightarrow> store_heap \<Rightarrow> nat \<Rightarrow> string" where
  "ident_of env h i \<equiv> fst (computationIdentity env i h)"

definition shared_part :: "timing_env \<Rightarrow> store_heap \<Rightarrow> nat \<Rightarrow> js_val" where
  "shared_part env h i = JObj ((''clock'', JStr (computationClock env h i)) # interval_fields (ev_interval (cell_at h i)))"

definition input_part :: "timing_env \<Rightarrow> store_heap \<Rightarrow> nat \<Rightarrow> string \<Rightarrow> dependency \<Rightarrow> js_val" where
  "input_part env h current ident d =
     (let owner = (case ev_owner (cell_at h (td_computation d)) of Some i \<Rightarrow> i | None \<Rightarrow> current) in
      JObj [(''id'', JStr (ident_of env h (td_computation d))),
        (''owned'', JBool (td_owned d \<and> ident_of env h owner = ident)),
        (''reused'', JBool (td_reused d)), (''overhead'', JBool (td_overhead d)),
        (''computeUncertain'', JBool (td_uncertain d)),
        (''shared'', JArr (map (shared_part env h) (case td_shared d of Some parts \<Rightarrow> parts | None \<Rightarrow> [])))])"

text \<open>Every identity of the second pass was assigned by the first.\<close>

definition node_part :: "timing_env \<Rightarrow> store_heap \<Rightarrow> string \<Rightarrow> selection \<Rightarrow> js_val" where
  "node_part env h ident s =
     (let e = cell_at h (se_computation s) in
      JObj ([(''id'', JStr ident), (''clock'', JStr (computationClock env h (se_computation s)))] @ interval_fields (ev_interval e) @
        [(''timeOrigin'', optional jnum (computationTimeOrigin env h (se_computation s))),
         (''spans'', optional (array_value (\<lambda>i. JObj (interval_fields (ev_interval (cell_at h i))))) (ev_spans e)),
         (''priorMs'', case ev_priorMs e of Some x \<Rightarrow> if x \<noteq> 0 then jnum x else JUndef | None \<Rightarrow> JUndef),
         (''producer'', case se_producer s of Assigned p \<Rightarrow> producer_value p | _ \<Rightarrow> JUndef),
         (''groups'', array_value JStr (se_groups s)), (''incomplete'', flag_value (ev_incomplete e)),
         (''inputs'', array_value (input_part env h (se_computation s) ident) (ev_inputs e))]))"

function emit_loop ::
  "timing_env \<Rightarrow> store_heap \<Rightarrow> (string, selection) jsmap \<Rightarrow> string list \<Rightarrow> string list \<Rightarrow> js_val list option" where
  "emit_loop env h selected [] reachable = Some []"
| "emit_loop env h selected (ident # remaining) reachable =
     (if ident \<in> set reachable then emit_loop env h selected remaining reachable
      else case map_of selected ident of
        None \<Rightarrow> None
      | Some s \<Rightarrow> map_option (Cons (node_part env h ident s)) (emit_loop env h selected
          (rev (map (\<lambda>d. ident_of env h (td_computation d)) (ev_inputs (cell_at h (se_computation s)))) @ remaining)
          (ident # reachable)))"
  by pat_completeness auto

termination
proof (relation "measures [\<lambda>(env, h, selected, remaining, reachable). card (set (ms_keys selected) - set reachable),
    \<lambda>(env, h, selected, remaining, reachable). length remaining]", goal_cases)
  case (3 env h selected ident remaining reachable s)
  have "ident \<in> set (ms_keys selected) - set reachable"
    using 3 map_of_SomeD [of selected ident s] by force
  moreover have "set (ms_keys selected) - set (ident # reachable) = (set (ms_keys selected) - set reachable) - {ident}" by auto
  moreover have "finite (set (ms_keys selected) - set reachable)" by simp
  ultimately have "card (set (ms_keys selected) - set (ident # reachable)) < card (set (ms_keys selected) - set reachable)"
    by (simp only: card_Diff1_less)
  then show ?case by simp
qed simp_all

declare emit_loop.simps [code, simp del]

definition serialize_timeline :: "timing_env \<Rightarrow> nat \<Rightarrow> store_heap \<Rightarrow> timeline_computation option \<times> store_heap" where
  "serialize_timeline env computation h =
     (let (selected, h1) = select_loop env [computation] [] [] h in
      (Option.bind (emit_loop env h1 selected [ident_of env h1 computation] []) (\<lambda>nodes.
         normalizeTimelineComputation (JObj [(''version'', jnum 3), (''root'', JStr (ident_of env h1 computation)),
           (''nodes'', JArr nodes)])), h1))"


text \<open>Each restore is independent.  \<open>ambient\<close> is the producer of the collection in which it runs.\<close>

fun restore_shared :: "producer option \<Rightarrow> clocked_span list \<Rightarrow> store_heap \<Rightarrow> nat list \<times> store_heap" where
  "restore_shared ambient [] h = ([], h)"
| "restore_shared ambient (part # parts) h =
     (let (i, h1) = new_interval (Fin (startedAt (cs_interval part))) (Fin (completedAt (cs_interval part))) [] None ambient h;
          h2 = set_cell i (\<lambda>e. e\<lparr>ev_clock := Some (cs_clock part)\<rparr>) h1;
          (is, h3) = restore_shared ambient parts h2 in
      (i # is, h3))"

fun restore_inputs ::
  "producer option \<Rightarrow> (string, nat) jsmap \<Rightarrow> timeline_input list \<Rightarrow> store_heap \<Rightarrow> dependency list \<times> store_heap" where
  "restore_inputs ambient restored [] h = ([], h)"
| "restore_inputs ambient restored (input # inputs) h =
     (let (shared, h1) = (case ti_shared input of
            None \<Rightarrow> (None, h)
          | Some parts \<Rightarrow> (case restore_shared ambient parts h of (is, h1) \<Rightarrow> (Some is, h1)));
          d = \<lparr>td_computation = the (map_of restored (ti_id input)), td_owned = ti_owned input, td_reused = ti_reused input,
            td_overhead = ti_overhead input, td_uncertain = ti_uncertain input, td_shared = shared\<rparr>;
          (ds, h2) = restore_inputs ambient restored inputs h1 in
      (d # ds, h2))"

definition restore_node ::
  "producer option \<Rightarrow> timeline_node \<Rightarrow> (string, nat) jsmap \<times> store_heap \<Rightarrow> (string, nat) jsmap \<times> store_heap" where
  "restore_node ambient node st = (case st of (restored, h) \<Rightarrow>
     let (inputs, h1) = restore_inputs ambient restored (sn_inputs node) h;
         (spans, h2) = (case sn_spans node of
            None \<Rightarrow> (None, h1)
          | Some ivs \<Rightarrow> (case intervals_from ivs h1 of (is, h2) \<Rightarrow> (Some is, h2)));
         (i, h3) = new_interval (Fin (startedAt (sn_interval node))) (Fin (completedAt (sn_interval node))) inputs spans
            (sn_producer node) h2;
         h4 = set_cell i (\<lambda>e. e\<lparr>ev_id := Some (sn_id node), ev_published := True, ev_clock := Some (sn_clock node),
            ev_timeOrigin := sn_timeOrigin node, ev_priorMs := Some (case sn_priorMs node of Some x \<Rightarrow> x | None \<Rightarrow> 0),
            ev_groups := sn_groups node, ev_incomplete := sn_incomplete node\<rparr>) h3 in
     (ms_set (sn_id node) i restored, h4))"

definition restore_timeline :: "producer option \<Rightarrow> js_val \<Rightarrow> store_heap \<Rightarrow> nat option \<times> store_heap" where
  "restore_timeline ambient v h = (case normalizeTimelineComputation v of
     None \<Rightarrow> (None, h)
   | Some graph \<Rightarrow>
       let (restored, h1) = fold (restore_node ambient) (tc_nodes graph) ([], h) in
       (map_of restored (tc_root graph), h1))"

subsection \<open>Consumption\<close>

record consumed =
  cn_computation :: nat
  cn_direct :: bool
  cn_reused :: bool
  cn_producer :: merged_producer

record consumption =
  cs_selected :: "(string, consumed) jsmap"
  cs_parents :: "group_parents option"
  cs_complete :: bool
  cs_incomplete :: bool
  cs_heap :: store_heap

text \<open>\<open>cs_parents\<close> is \<open>None\<close> when a walk through the groups did not end.\<close>

definition consume_one :: "timing_env \<Rightarrow> nat \<Rightarrow> bool \<Rightarrow> consumption \<Rightarrow> consumption" where
  "consume_one env computation reused s =
     (let key = fst (computationIdentity env computation (cs_heap s));
          h1 = snd (computationIdentity env computation (cs_heap s));
          previous = map_of (cs_selected s) key;
          gs = fst (computationGroups env computation False h1);
          h2 = snd (computationGroups env computation False h1) in
      s\<lparr>cs_parents := fold (\<lambda>g ps. Option.bind ps (group_join key g)) gs (cs_parents s),
        cs_selected := ms_set key
          \<lparr>cn_computation = preferredComputation h2 (map_option cn_computation previous) computation,
           cn_direct = ((case previous of Some p \<Rightarrow> cn_direct p | None \<Rightarrow> False) \<or> \<not> reused),
           cn_reused = ((case previous of Some p \<Rightarrow> cn_reused p | None \<Rightarrow> False) \<or> reused),
           cn_producer = mergeProducers (case previous of Some p \<Rightarrow> cn_producer p | None \<Rightarrow> Unassigned) (computationProducer h2 computation)\<rparr>
          (cs_selected s),
        cs_heap := h2\<rparr>)"

lemma length_consume_one [simp]: "length (hp_nodes (cs_heap (consume_one env c reused s))) = length (hp_nodes (cs_heap s))"
  by (simp add: consume_one_def Let_def)

definition note_uncertain :: "dependency \<Rightarrow> bool \<Rightarrow> consumption \<Rightarrow> consumption" where
  "note_uncertain input inherited s =
     (if td_uncertain input then s\<lparr>cs_complete := False, cs_incomplete := cs_incomplete s \<or> inherited \<or> td_reused input\<rparr> else s)"

lemma note_uncertain_heap [simp]: "cs_heap (note_uncertain input inherited s) = cs_heap s"
  by (simp add: note_uncertain_def)

text \<open>The pairs of a computation and its flag that may still be visited.\<close>

definition unconsumed :: "store_heap \<Rightarrow> (nat \<times> bool) list \<Rightarrow> (nat \<times> bool) set" where
  "unconsumed h visited = ({..< length (hp_nodes h)} \<times> UNIV) - set visited"

lemma unconsumed_less:
  assumes "i < length (hp_nodes h)" and "(i, b) \<notin> set visited" and "length (hp_nodes h') = length (hp_nodes h)"
  shows "card (unconsumed h' ((i, b) # visited)) < card (unconsumed h visited)"
proof -
  have "unconsumed h' ((i, b) # visited) = unconsumed h visited - {(i, b)}" using assms(3) by (auto simp: unconsumed_def)
  moreover have "(i, b) \<in> unconsumed h visited" using assms(1,2) by (simp add: unconsumed_def)
  moreover have "finite (unconsumed h visited)" by (simp add: unconsumed_def)
  ultimately show ?thesis by (simp only: card_Diff1_less)
qed

lemma unconsumed_out:
  assumes "\<not> i < length (hp_nodes h)" and "length (hp_nodes h') = length (hp_nodes h)"
  shows "unconsumed h' ((i, b) # visited) = unconsumed h visited"
  using assms by (auto simp: unconsumed_def)

function consume_loop :: "timing_env \<Rightarrow> (dependency \<times> bool) list \<Rightarrow> (nat \<times> bool) list \<Rightarrow> consumption \<Rightarrow> consumption" where
  "consume_loop env [] visited s = s"
| "consume_loop env ((input, inherited) # pending) visited s =
     (let s1 = note_uncertain input inherited s;
          computation = td_computation input; reused = (inherited \<or> td_reused input) in
      if td_overhead input \<or> (computation, reused) \<in> set visited then consume_loop env pending visited s1
      else consume_loop env
        (map (\<lambda>d. (d, reused)) (ev_inputs (cell_at (cs_heap s) computation)) @ pending)
        ((computation, reused) # visited) (consume_one env computation reused s1))"
  by pat_completeness auto

termination
proof (relation "measures [\<lambda>(env, pending, visited, s). card (unconsumed (cs_heap s) visited),
    \<lambda>(env, pending, visited, s). length pending]", goal_cases)
  case (3 env input inherited pending visited s s1 computation reused)
  show ?case
  proof (cases "computation < length (hp_nodes (cs_heap s))")
    case True
    then show ?thesis
      using 3 unconsumed_less [of computation "cs_heap s" reused visited "cs_heap (consume_one env computation reused s1)"] by simp
  next
    case False
    then have "ev_inputs (cell_at (cs_heap s) computation) = []" by (simp add: cell_at_def blank_def)
    with False show ?thesis
      using 3 unconsumed_out [of computation "cs_heap s" "cs_heap (consume_one env computation reused s1)" reused visited] by simp
  qed
qed simp_all

declare consume_loop.simps [code, simp del]

definition consumedComputations :: "timing_env \<Rightarrow> dependency list \<Rightarrow> store_heap \<Rightarrow> consumption" where
  "consumedComputations env inputs h = consume_loop env (map (\<lambda>d. (d, False)) inputs) []
     \<lparr>cs_selected = [], cs_parents = Some [], cs_complete = True, cs_incomplete = False, cs_heap = h\<rparr>"

definition reusedProducers :: "timing_env \<Rightarrow> dependency list \<Rightarrow> store_heap \<Rightarrow> string list" where
  "reusedProducers env inputs h = uniq (concat (map (\<lambda>(k, c).
     if cn_reused c then (case cn_producer c of Assigned p \<Rightarrow> (case pr_id p of Some (x # xs) \<Rightarrow> [x # xs] | _ \<Rightarrow> []) | _ \<Rightarrow> [])
     else []) (cs_selected (consumedComputations env inputs h))))"

subsection \<open>One settled call\<close>

record call_timing =
  ct_toolComputeMs :: "real option"
  ct_hiddenComputeMs :: real
  ct_adoptionWaitMs :: "real option"
  ct_reused :: bool
  ct_hiddenIncomplete :: bool
  ct_hiddenByMode :: "(string \<times> string \<times> real) list"

type_synonym owner_key = "string \<times> string"

record call_state =
  ca_complete :: bool
  ca_hiddenIncomplete :: bool
  ca_adoptionComplete :: bool
  ca_observed :: "interval list"
  ca_grouped :: "(owner_key, interval list) jsmap"
  ca_attributed :: "(owner_key, (interval \<times> producer option) list) jsmap"
  ca_prior :: real
  ca_reused :: bool
  ca_parents :: group_parents

definition finite_value :: "js_num \<Rightarrow> real option" where
  "finite_value n = (case n of Fin x \<Rightarrow> Some x | _ \<Rightarrow> None)"

definition shift_num :: "real \<Rightarrow> js_num \<Rightarrow> js_num" where
  "shift_num d n = (case n of Fin x \<Rightarrow> Fin (x + d) | _ \<Rightarrow> n)"

definition shared_intervals :: "timing_env \<Rightarrow> store_heap \<Rightarrow> nat \<Rightarrow> interval list" where
  "shared_intervals env h computation =
     filter (\<lambda>iv. startedAt iv < completedAt iv) (concat (map (\<lambda>d. concat (map (\<lambda>part.
       if computationClock env h part \<noteq> computationClock env h computation then []
       else
         let p = ev_interval (cell_at h part); c = ev_interval (cell_at h (td_computation d)) in
         if computationClock env h part = computationClock env h (td_computation d)
         then [span (max (startedAt c) (startedAt p)) (min (completedAt c) (completedAt p))]
         else [span (startedAt p) (completedAt p)])
       (case td_shared d of Some parts \<Rightarrow> parts | None \<Rightarrow> []))) (ev_inputs (cell_at h computation))))"

definition calculation_intervals :: "timing_env \<Rightarrow> store_heap \<Rightarrow> nat \<Rightarrow> interval list" where
  "calculation_intervals env h computation =
     concat (map (\<lambda>i. exclusiveIntervals (ev_interval (cell_at h i)) (shared_intervals env h computation))
       (case ev_spans (cell_at h computation) of Some spans \<Rightarrow> spans | None \<Rightarrow> [computation]))"

definition cutoff_of :: "timing_env \<Rightarrow> store_heap \<Rightarrow> nat \<Rightarrow> js_num \<Rightarrow> js_num" where
  "cutoff_of env h computation issuedAt =
     (if computationClock env h computation = te_namespace env then issuedAt
      else case computationTimeOrigin env h computation of
        None \<Rightarrow> NaN | Some beginning \<Rightarrow> shift_num (te_timeOrigin env - beginning) issuedAt)"

definition has_mode :: "merged_producer \<Rightarrow> producer option" where
  "has_mode m = (case m of Assigned p \<Rightarrow> (case pr_mode p of Some (c # s) \<Rightarrow> Some p | _ \<Rightarrow> None) | _ \<Rightarrow> None)"

definition hidden_intervals :: "real \<Rightarrow> interval list \<Rightarrow> interval list" where
  "hidden_intervals cutoff ivs = map (\<lambda>iv. span (startedAt iv) (min (completedAt iv) cutoff)) (filter (\<lambda>iv. startedAt iv < cutoff) ivs)"

text \<open>One consumed computation.  \<open>None\<close>: a walk through the groups did not end.\<close>

definition record_one ::
  "timing_env \<Rightarrow> store_heap \<Rightarrow> js_num \<Rightarrow> string \<times> consumed \<Rightarrow> call_state option \<Rightarrow> call_state option" where
  "record_one env h issuedAt entry st = do {
     s \<leftarrow> st;
     let computation = cn_computation (snd entry);
     (owner, parents) \<leftarrow> group_owner (ident_of env h computation) (ca_parents s);
     let e = cell_at h computation;
     let reused = cn_reused (snd entry);
     let prior = (case ev_priorMs e of Some x \<Rightarrow> x | None \<Rightarrow> 0);
     let whole = calculation_intervals env h computation;
     let key = (owner, computationClock env h computation);
     let cutoff = finite_value (cutoff_of env h computation issuedAt);
     let unplaced = (0 < prior \<or> whole \<noteq> [] \<and> cutoff = None);
     let adoption = (ca_adoptionComplete s \<and> \<not> unplaced);
     let moved = (case (cutoff, finite_value issuedAt) of
       (Some c, Some t) \<Rightarrow> map (\<lambda>iv. span (startedAt iv + t - c) (completedAt iv + t - c)) whole | _ \<Rightarrow> []);
     let hidden = (case cutoff of Some c \<Rightarrow> if reused then hidden_intervals c whole else [] | None \<Rightarrow> []);
     Some (s\<lparr>ca_complete := ca_complete s \<and> \<not> ev_incomplete e,
       ca_hiddenIncomplete := ca_hiddenIncomplete s \<or> reused \<and> (ev_incomplete e \<or> unplaced),
       ca_adoptionComplete := adoption,
       ca_observed := ca_observed s @ (if adoption then moved else []),
       ca_grouped := ms_set key ((case map_of (ca_grouped s) key of Some g \<Rightarrow> g | None \<Rightarrow> []) @ whole) (ca_grouped s),
       ca_attributed := (if reused
         then ms_set key ((case map_of (ca_attributed s) key of Some g \<Rightarrow> g | None \<Rightarrow> []) @
           map (\<lambda>iv. (iv, has_mode (cn_producer (snd entry)))) hidden) (ca_attributed s)
         else ca_attributed s),
       ca_prior := ca_prior s + prior,
       ca_reused := ca_reused s \<or> reused,
       ca_parents := parents\<rparr>) }"

definition producerKey :: "producer \<Rightarrow> string \<times> string option" where
  "producerKey p = (pr_source p, pr_mode p)"

type_synonym mode_table = "(string \<times> string option, string \<times> string \<times> real) jsmap"

definition credit_mode :: "producer \<times> real \<Rightarrow> mode_table \<Rightarrow> mode_table" where
  "credit_mode c modes = (case c of (p, amount) \<Rightarrow>
     (case pr_mode p of
        Some (m # ms) \<Rightarrow>
          if amount \<le> 0 then modes
          else ms_set (producerKey p) (pr_source p, m # ms,
            (case map_of modes (producerKey p) of Some (_, _, x) \<Rightarrow> x | None \<Rightarrow> 0) + amount) modes
      | _ \<Rightarrow> modes))"

definition attribute_groups ::
  "(owner_key, (interval \<times> producer option) list) jsmap \<Rightarrow> real \<times> mode_table" where
  "attribute_groups attributed = fold (\<lambda>(k, spans) (total, modes).
     (total + fst (attributeUnion producerKey spans), fold credit_mode (snd (attributeUnion producerKey spans)) modes))
     attributed (0, [])"

definition total_union :: "(owner_key, interval list) jsmap \<Rightarrow> real" where
  "total_union grouped = sum_list (map (\<lambda>(k, ivs). unionDuration ivs) grouped)"

text \<open>The timeline of a task: \<open>None\<close> marks a quantity that is no longer known.\<close>

record task_timeline =
  tl_startedAt :: real
  tl_toolWaits :: "interval list"
  tl_adoptionWaits :: "interval list option"
  tl_toolComputeMs :: "real option"
  tl_hiddenComputeMs :: real
  tl_hiddenIncomplete :: bool

definition new_timeline :: "js_num \<Rightarrow> task_timeline" where
  "new_timeline s = \<lparr>tl_startedAt = nonNegativeFinite (JNum s), tl_toolWaits = [], tl_adoptionWaits = Some [],
     tl_toolComputeMs = Some 0, tl_hiddenComputeMs = 0, tl_hiddenIncomplete = False\<rparr>"

definition max_value :: real where "max_value = (2 ^ 53 - 1) * 2 ^ 971"

definition startToolWait :: "real \<Rightarrow> task_timeline \<Rightarrow> nat \<times> task_timeline" where
  "startToolWait s task = (length (tl_toolWaits task), task\<lparr>tl_toolWaits := tl_toolWaits task @ [span s max_value]\<rparr>)"

definition finishToolWait :: "nat \<Rightarrow> js_num \<Rightarrow> task_timeline \<Rightarrow> task_timeline" where
  "finishToolWait i e task = task\<lparr>tl_toolWaits := (tl_toolWaits task)[i := (tl_toolWaits task ! i)
     \<lparr>completedAt := min (completedAt (tl_toolWaits task ! i)) (nonNegativeFinite (JNum e))\<rparr>]\<rparr>"

definition recorded_timing :: "call_state \<Rightarrow> interval list option \<Rightarrow> call_timing" where
  "recorded_timing s adoption =
     \<lparr>ct_toolComputeMs = (if ca_complete s then Some (ca_prior s + total_union (ca_grouped s)) else None),
      ct_hiddenComputeMs = fst (attribute_groups (ca_attributed s)),
      ct_adoptionWaitMs = map_option unionDuration adoption, ct_reused = ca_reused s,
      ct_hiddenIncomplete = ca_hiddenIncomplete s,
      ct_hiddenByMode = map snd (snd (attribute_groups (ca_attributed s)))\<rparr>"

definition recordCall ::
  "timing_env \<Rightarrow> dependency list \<Rightarrow> js_num \<Rightarrow> js_num option \<Rightarrow> store_heap \<Rightarrow> task_timeline
     \<Rightarrow> (call_timing \<times> task_timeline \<times> store_heap) option" where
  "recordCall env inputs issuedAt endedAt h task = do {
     let c = consumedComputations env inputs h;
     parents \<leftarrow> cs_parents c;
     s \<leftarrow> fold (record_one env (cs_heap c) issuedAt) (cs_selected c) (Some
       \<lparr>ca_complete = cs_complete c, ca_hiddenIncomplete = (cs_incomplete c \<or> finite_value issuedAt = None),
        ca_adoptionComplete = (case (finite_value issuedAt, Option.bind endedAt finite_value) of
          (Some i, Some e) \<Rightarrow> i \<le> e | _ \<Rightarrow> False),
        ca_observed = [], ca_grouped = [], ca_attributed = [], ca_prior = 0, ca_reused = False, ca_parents = parents\<rparr>);
     let adoption = (if ca_complete s \<and> ca_adoptionComplete s
       then map_option (\<lambda>e. exclusiveIntervals (timeline_interval (JNum issuedAt) (JNum e)) (ca_observed s)) endedAt
       else None);
     let timing = recorded_timing s adoption;
     Some (timing, task\<lparr>
       tl_adoptionWaits := (case (adoption, tl_adoptionWaits task) of (Some ivs, Some waits) \<Rightarrow> Some (waits @ ivs) | _ \<Rightarrow> None),
       tl_toolComputeMs := (case (tl_toolComputeMs task, ct_toolComputeMs timing) of
         (Some a, Some b) \<Rightarrow> Some (a + b) | _ \<Rightarrow> None),
       tl_hiddenComputeMs := tl_hiddenComputeMs task + ct_hiddenComputeMs timing,
       tl_hiddenIncomplete := tl_hiddenIncomplete task \<or> ct_hiddenIncomplete timing\<rparr>, cs_heap c) }"

definition recordTool ::
  "timing_env \<Rightarrow> nat \<Rightarrow> bool \<Rightarrow> js_num \<Rightarrow> store_heap \<Rightarrow> task_timeline \<Rightarrow> (call_timing \<times> task_timeline \<times> store_heap) option" where
  "recordTool env computation reused issuedAt h task = recordCall env
     [\<lparr>td_computation = computation, td_owned = False, td_reused = reused, td_overhead = False, td_uncertain = False,
       td_shared = None\<rparr>] issuedAt None h task"

record task_measure =
  tm_startedAt :: real
  tm_completedAt :: real
  tm_toolComputeMs :: "real option"
  tm_hiddenComputeMs :: real
  tm_hiddenIncomplete :: bool
  tm_adoptionWaitMs :: "real option"
  tm_toolWaitMs :: real

definition clipped_duration :: "real \<Rightarrow> real \<Rightarrow> interval list \<Rightarrow> real" where
  "clipped_duration s e ivs = unionDuration (filter (\<lambda>iv. startedAt iv < completedAt iv)
     (map (\<lambda>iv. span (max s (nonNegativeFinite (jnum (startedAt iv)))) (min e (nonNegativeFinite (jnum (completedAt iv))))) ivs))"

definition measure_task :: "js_num \<Rightarrow> task_timeline \<Rightarrow> task_measure" where
  "measure_task endedAt task =
     (let s = tl_startedAt task; e = max s (nonNegativeFinite (JNum endedAt)) in
      \<lparr>tm_startedAt = s, tm_completedAt = e, tm_toolComputeMs = tl_toolComputeMs task,
       tm_hiddenComputeMs = tl_hiddenComputeMs task, tm_hiddenIncomplete = tl_hiddenIncomplete task,
       tm_adoptionWaitMs = map_option (clipped_duration s e) (tl_adoptionWaits task),
       tm_toolWaitMs = clipped_duration s e (tl_toolWaits task)\<rparr>)"

subsection \<open>Well-formed stores\<close>

text \<open>
  A computation consumes only older ones and is owned only by younger ones; intervals are ordered and durations are
  not negative.
\<close>

definition node_sound :: "nat \<Rightarrow> evidence \<Rightarrow> bool" where
  "node_sound i e \<longleftrightarrow> proper (ev_interval e) \<and> 0 \<le> startedAt (ev_interval e) \<and> pred_option (\<lambda>x. 0 \<le> x) (ev_priorMs e) \<and>
     (\<forall>d \<in> set (ev_inputs e). td_computation d < i) \<and> pred_option (\<lambda>owner. i < owner) (ev_owner e)"

definition heap_ok :: "store_heap \<Rightarrow> bool" where
  "heap_ok h \<longleftrightarrow> (\<forall>i < length (hp_nodes h). node_sound i (cell_at h i) \<and>
     pred_option (\<lambda>owner. owner < length (hp_nodes h)) (ev_owner (cell_at h i)))"

lemma heap_ok_set_cell:
  assumes "heap_ok h" and "i < length (hp_nodes h) \<Longrightarrow> node_sound i (cell_at h i) \<Longrightarrow> node_sound i (f (cell_at h i))"
    and "i < length (hp_nodes h) \<Longrightarrow> pred_option (\<lambda>owner. owner < length (hp_nodes h)) (ev_owner (cell_at h i)) \<Longrightarrow>
      pred_option (\<lambda>owner. owner < length (hp_nodes h)) (ev_owner (f (cell_at h i)))"
  shows "heap_ok (set_cell i f h)"
  using assms by (auto simp: heap_ok_def)

lemma node_sound_updates [simp]:
  "node_sound i (e\<lparr>ev_id := a\<rparr>) = node_sound i e" "node_sound i (e\<lparr>ev_clock := b\<rparr>) = node_sound i e"
  "node_sound i (e\<lparr>ev_timeOrigin := c\<rparr>) = node_sound i e" "node_sound i (e\<lparr>ev_groups := g\<rparr>) = node_sound i e"
  "node_sound i (e\<lparr>ev_published := p\<rparr>) = node_sound i e" "node_sound i (e\<lparr>ev_incomplete := q\<rparr>) = node_sound i e"
  "node_sound i (e\<lparr>ev_producer := r\<rparr>) = node_sound i e"
  by (simp_all add: node_sound_def)

lemma node_sound_prior: "node_sound i e \<Longrightarrow> pred_option (\<lambda>x. 0 \<le> x) p \<Longrightarrow> node_sound i (e\<lparr>ev_priorMs := p\<rparr>)"
  by (simp add: node_sound_def)

lemma heap_ok_counter [simp]: "heap_ok (h\<lparr>hp_nextIdentity := n\<rparr>) = heap_ok h"
  by (simp add: heap_ok_def cell_at_def)

lemma heap_ok_identity: "heap_ok h \<Longrightarrow> heap_ok (snd (computationIdentity env i h))"
  by (auto simp: computationIdentity_def Let_def split: option.splits list.splits intro!: heap_ok_set_cell)

lemma heap_ok_publish: "heap_ok h \<Longrightarrow> heap_ok (publish_node b i h)"
  unfolding publish_node_def by (auto intro: heap_ok_set_cell)

lemma heap_ok_alias: "heap_ok h \<Longrightarrow> heap_ok (snd (own_alias env owner gs h))"
  unfolding own_alias_def by (simp add: heap_ok_identity split: option.splits)

lemma heap_ok_groups: "heap_ok h \<Longrightarrow> heap_ok (snd (groups_loop env publish current visited gs h))"
proof (induction env publish current visited gs h rule: groups_loop.induct)
  case (2 env publish i visited groups h)
  then show ?case
    by (subst groups_loop.simps) (simp add: Let_def heap_ok_alias heap_ok_publish)
qed (simp add: groups_loop.simps)

lemma heap_ok_computationGroups: "heap_ok h \<Longrightarrow> heap_ok (snd (computationGroups env c publish h))"
  by (simp add: computationGroups_def heap_ok_groups)

lemma heap_ok_select: "heap_ok h \<Longrightarrow> heap_ok (snd (select_loop env pending visited selected h))"
proof (induction env pending visited selected h rule: select_loop.induct)
  case (2 env current pending visited selected h)
  have "heap_ok (snd (select_one env current selected h))"
    using 2(3) by (simp add: select_one_def Let_def heap_ok_publish heap_ok_computationGroups heap_ok_identity)
  with 2 show ?case by (subst select_loop.simps) (simp add: Let_def)
qed (simp add: select_loop.simps)

lemma heap_ok_serialize: "heap_ok h \<Longrightarrow> heap_ok (snd (serialize_timeline env c h))"
  by (simp add: serialize_timeline_def case_prod_beta heap_ok_select)

lemma heap_ok_consume_one: "heap_ok (cs_heap s) \<Longrightarrow> heap_ok (cs_heap (consume_one env c reused s))"
  by (simp add: consume_one_def Let_def heap_ok_computationGroups heap_ok_identity)

lemma heap_ok_consume: "heap_ok (cs_heap s) \<Longrightarrow> heap_ok (cs_heap (consume_loop env pending visited s))"
proof (induction env pending visited s rule: consume_loop.induct)
  case (2 env input inherited pending visited s)
  then show ?case by (subst consume_loop.simps) (simp add: Let_def heap_ok_consume_one)
qed (simp add: consume_loop.simps)

lemma heap_ok_producedBy_loop: "heap_ok h \<Longrightarrow> heap_ok (producedBy_loop pending h)"
proof (induction pending h rule: producedBy_loop.induct)
  case (2 current maker pending h)
  have "heap_ok (set_cell current (\<lambda>e. e\<lparr>ev_producer := Some p\<rparr>) h)" for p
    by (rule heap_ok_set_cell [OF 2(3)]) auto
  with 2 show ?case by (simp add: Let_def)
qed simp

lemma heap_ok_producedBy: "heap_ok h \<Longrightarrow> heap_ok (producedBy c p h)"
  by (simp add: producedBy_def heap_ok_producedBy_loop del: producedBy_loop.simps)

lemma length_own_computations [simp]: "length (hp_nodes (own_computations i ds h)) = length (hp_nodes h)"
  unfolding own_computations_def by (induction ds arbitrary: h) auto

lemma heap_ok_own_computations:
  assumes "heap_ok h" and "i < length (hp_nodes h)" and "\<forall>d \<in> set ds. td_computation d < i"
  shows "heap_ok (own_computations i ds h)"
  using assms
proof (induction ds arbitrary: h)
  case (Cons d ds)
  have "heap_ok (if td_owned d then set_cell (td_computation d) (\<lambda>e. e\<lparr>ev_owner := Some i\<rparr>) h else h)"
    using Cons.prems by (auto intro!: heap_ok_set_cell simp: node_sound_def)
  with Cons show ?case by (simp add: own_computations_def)
qed (simp add: own_computations_def)

lemma length_new_interval [simp]:
  "length (hp_nodes (snd (new_interval s e ds spans p h))) = Suc (length (hp_nodes h))"
  "fst (new_interval s e ds spans p h) = length (hp_nodes h)"
  by (simp_all add: new_interval_def Let_def)

lemma heap_ok_new_interval:
  assumes "heap_ok h" and "\<forall>d \<in> set ds. td_computation d < length (hp_nodes h)"
  shows "heap_ok (snd (new_interval s e ds spans p h))"
proof -
  let ?i = "length (hp_nodes h)"
  let ?node = "(blank (timeline_interval (JNum s) (JNum e)))\<lparr>ev_inputs := map stored_input ds, ev_spans := spans, ev_producer := p\<rparr>"
  have "node_sound ?i ?node" using assms(2) by (simp add: node_sound_def blank_def proper_def stored_input_def)
  moreover have "ev_owner ?node = None" by (simp add: blank_def)
  moreover have "pred_option (\<lambda>owner. owner < Suc n) x" if "pred_option (\<lambda>owner. owner < n) x" for n x
    using that by (cases x) auto
  ultimately have "heap_ok (h\<lparr>hp_nodes := hp_nodes h @ [?node]\<rparr>)"
    using assms(1) by (auto simp: heap_ok_def cell_at_def nth_append less_Suc_eq)
  then show ?thesis
    using assms(2) by (simp add: new_interval_def Let_def stored_input_def heap_ok_own_computations)
qed

lemma heap_ok_retained: "heap_ok h \<Longrightarrow> heap_ok (snd (retained env ident durationMs original h))"
proof -
  assume h: "heap_ok h"
  define i where "i = (case original of Some i \<Rightarrow> i | None \<Rightarrow> length (hp_nodes h))"
  define h1 where "h1 = (case original of Some _ \<Rightarrow> h | None \<Rightarrow> snd (new_interval (Fin 0) (Fin 0) [] None None h))"
  have first: "(case original of Some i \<Rightarrow> (i, h) | None \<Rightarrow> new_interval (Fin 0) (Fin 0) [] None None h) = (i, h1)"
    by (auto simp: i_def h1_def split: option.splits intro: prod_eqI)
  have h1: "heap_ok h1" using h heap_ok_new_interval [of h "[]"] by (simp add: h1_def split: option.splits)
  define nm where "nm = (if ev_published (cell_at h1 i) then computationIdentity env i h1 else (ident, h1))"
  have h2: "heap_ok (snd nm)" using h1 heap_ok_identity by (simp add: nm_def)
  define prior where "prior = (case original of
      Some _ \<Rightarrow> (case ev_priorMs (cell_at (snd nm) i) of Some x \<Rightarrow> x | None \<Rightarrow> 0) | None \<Rightarrow> nonNegativeFinite (JNum durationMs))"
  have prior: "0 \<le> prior" if "i < length (hp_nodes (snd nm))"
    using h2 that by (fastforce simp: prior_def heap_ok_def node_sound_def split: option.splits)
  have "heap_ok (set_cell i (\<lambda>e. e\<lparr>ev_id := Some (fst nm), ev_priorMs := Some prior\<rparr>) (snd nm))"
    by (rule heap_ok_set_cell [OF h2]) (use prior in \<open>auto simp: node_sound_def\<close>)
  moreover have "retained env ident durationMs original h =
      (i, set_cell i (\<lambda>e. e\<lparr>ev_id := Some (fst nm), ev_priorMs := Some prior\<rparr>) (snd nm))"
    unfolding retained_def Let_def first prior_def by (cases original) (simp_all add: nm_def case_prod_beta)
  ultimately show ?thesis by simp
qed


lemma heap_ok_incomplete: "heap_ok h \<Longrightarrow> heap_ok (set_cell i (\<lambda>e. e\<lparr>ev_incomplete := b\<rparr>) h)"
  by (rule heap_ok_set_cell) auto

lemma heap_ok_unknownReuse: "heap_ok h \<Longrightarrow> heap_ok (snd (unknownReuse env ident h))"
  by (simp add: unknownReuse_def case_prod_beta heap_ok_incomplete heap_ok_retained)

lemma heap_ok_group: "heap_ok h \<Longrightarrow> heap_ok (group_computation env c owner h)"
  unfolding group_computation_def case_prod_beta Let_def
  by (rule heap_ok_set_cell) (auto simp: heap_ok_identity)

text \<open>Attempted copies.\<close>

lemma in_ms_set: "e \<in> set (ms_set k v m) \<Longrightarrow> e \<in> set m \<or> e = (k, v)"
  by (induction k v m rule: ms_set.induct) (auto split: if_splits)

definition copies_ok :: "('k, nat) jsmap \<Rightarrow> store_heap \<Rightarrow> bool" where
  "copies_ok copies h \<longleftrightarrow> (\<forall>(c, r) \<in> set copies. r < length (hp_nodes h))"

lemma heap_ok_attempted_copy:
  assumes h: "heap_ok h" and c: "copies_ok copies h"
  shows "heap_ok (snd (attempted_copy env current (copies, h)))"
    "copies_ok (fst (attempted_copy env current (copies, h))) (snd (attempted_copy env current (copies, h)))"
proof -
  let ?n = "length (hp_nodes h)"
  let ?e = "cell_at h current"
  let ?ds = "map (attempted_input copies) (ev_inputs ?e)"
  let ?new = "new_interval (Fin (startedAt (ev_interval ?e))) (Fin (completedAt (ev_interval ?e))) ?ds (ev_spans ?e) (computationProducer h current) h"
  let ?h2 = "snd (computationIdentity env current (snd ?new))"
  have inputs: "td_computation d < ?n" if "d \<in> set (ev_inputs ?e)" for d
  proof (cases "current < ?n")
    case True
    then have "td_computation d < current" using h that by (auto simp: heap_ok_def node_sound_def)
    with True show ?thesis by simp
  next
    case False
    with that show ?thesis by (simp add: cell_at_def blank_def)
  qed
  have "td_computation (attempted_input copies d) < ?n" if "d \<in> set (ev_inputs ?e)" for d
    using inputs [OF that] c by (auto simp: attempted_input_def copies_ok_def split: option.splits dest!: map_of_SomeD)
  then have "heap_ok (snd ?new)" by (intro heap_ok_new_interval [OF h]) auto
  then have h2: "heap_ok ?h2" by (rule heap_ok_identity)
  have prior: "pred_option (\<lambda>x. 0 \<le> x) (ev_priorMs ?e)"
    using h by (cases "current < ?n") (auto simp: heap_ok_def node_sound_def cell_at_def blank_def)
  have eq: "attempted_copy env current (copies, h) = (ms_set current ?n copies,
      set_cell ?n (\<lambda>r. r\<lparr>ev_id := Some (fst (computationIdentity env current (snd ?new))),
        ev_clock := Some (computationClock env ?h2 current), ev_timeOrigin := computationTimeOrigin env ?h2 current,
        ev_priorMs := ev_priorMs ?e, ev_groups := ev_groups ?e\<rparr>) ?h2)"
    by (simp add: attempted_copy_def case_prod_beta Let_def)
  show "heap_ok (snd (attempted_copy env current (copies, h)))"
    unfolding eq snd_conv by (rule heap_ok_set_cell [OF h2]) (use prior in \<open>auto intro: node_sound_prior\<close>)
  have "e \<in> set copies \<or> e = (current, ?n)" if "e \<in> set (ms_set current ?n copies)" for e
    using in_ms_set [OF that] .
  with c show "copies_ok (fst (attempted_copy env current (copies, h))) (snd (attempted_copy env current (copies, h)))"
    unfolding eq by (fastforce simp: copies_ok_def)
qed

lemma heap_ok_attempted: "heap_ok h \<Longrightarrow> attempted env c h = Some (r, h') \<Longrightarrow> heap_ok h'"
proof -
  assume h: "heap_ok h" and "attempted env c h = Some (r, h')"
  then obtain order where "h' = snd (fold (attempted_copy env) order ([], h))"
    by (auto simp: attempted_def bind_eq_Some_conv case_prod_beta)
  moreover have "heap_ok (snd (fold (attempted_copy env) order st)) \<and> True" if "heap_ok (snd st)" "copies_ok (fst st) (snd st)" for order st
    using that
  proof (induction order arbitrary: st)
    case (Cons i order)
    with heap_ok_attempted_copy [of "snd st" "fst st" env i] show ?case by simp
  qed simp
  ultimately show ?thesis using h by (simp add: copies_ok_def)
qed

text \<open>Restored timelines.\<close>

lemma heap_ok_intervals_from:
  "heap_ok h \<Longrightarrow> heap_ok (snd (intervals_from ivs h)) \<and> length (hp_nodes h) \<le> length (hp_nodes (snd (intervals_from ivs h)))"
proof (induction ivs arbitrary: h)
  case (Cons iv ivs)
  have "heap_ok (snd (interval_from iv h))" using Cons.prems by (simp add: interval_from_def heap_ok_new_interval)
  moreover have "length (hp_nodes h) \<le> length (hp_nodes (snd (interval_from iv h)))" by (simp add: interval_from_def)
  ultimately show ?case using Cons.IH [of "snd (interval_from iv h)"] by (simp add: case_prod_beta)
qed simp

lemma heap_ok_restore_shared:
  "heap_ok h \<Longrightarrow> heap_ok (snd (restore_shared p parts h)) \<and> length (hp_nodes h) \<le> length (hp_nodes (snd (restore_shared p parts h)))"
proof (induction parts arbitrary: h)
  case (Cons part parts)
  let ?n = "new_interval (Fin (startedAt (cs_interval part))) (Fin (completedAt (cs_interval part))) [] None p h"
  have "heap_ok (set_cell (fst ?n) (\<lambda>e. e\<lparr>ev_clock := Some (cs_clock part)\<rparr>) (snd ?n))"
    by (rule heap_ok_set_cell) (use Cons.prems in \<open>auto intro: heap_ok_new_interval\<close>)
  from Cons.IH [OF this] show ?case by (simp add: case_prod_beta Let_def)
qed simp

definition inputs_ok :: "dependency list \<Rightarrow> store_heap \<Rightarrow> bool" where
  "inputs_ok ds h \<longleftrightarrow> (\<forall>d \<in> set ds. td_computation d < length (hp_nodes h))"

lemma heap_ok_restore_inputs:
  assumes "heap_ok h" and "\<forall>i \<in> set inputs. \<exists>c < length (hp_nodes h). map_of restored (ti_id i) = Some c"
  shows "heap_ok (snd (restore_inputs p restored inputs h)) \<and>
    length (hp_nodes h) \<le> length (hp_nodes (snd (restore_inputs p restored inputs h))) \<and>
    inputs_ok (fst (restore_inputs p restored inputs h)) h"
  using assms
proof (induction inputs arbitrary: h)
  case (Cons input inputs)
  let ?h1 = "(case ti_shared input of None \<Rightarrow> h | Some parts \<Rightarrow> snd (restore_shared p parts h))"
  have h1: "heap_ok ?h1" "length (hp_nodes h) \<le> length (hp_nodes ?h1)"
    using heap_ok_restore_shared [OF Cons.prems(1)] Cons.prems(1) by (simp_all split: option.splits)
  have "\<forall>i \<in> set inputs. \<exists>c < length (hp_nodes ?h1). map_of restored (ti_id i) = Some c"
    using Cons.prems(2) h1(2) by (meson less_le_trans list.set_intros(2))
  note IH = Cons.IH [OF h1(1) this]
  have all: "\<forall>d \<in> set (fst (restore_inputs p restored is h')). \<exists>i \<in> set is. td_computation d = the (map_of restored (ti_id i))" for "is" h'
    by (induction "is" arbitrary: h') (auto simp: case_prod_beta Let_def)
  have "inputs_ok (fst (restore_inputs p restored (input # inputs) h)) h"
    unfolding inputs_ok_def
  proof
    fix d assume "d \<in> set (fst (restore_inputs p restored (input # inputs) h))"
    with all [of "input # inputs" h] obtain i where i: "i \<in> set (input # inputs)" "td_computation d = the (map_of restored (ti_id i))"
      by blast
    from Cons.prems(2) i(1) obtain c where "c < length (hp_nodes h)" "map_of restored (ti_id i) = Some c" by blast
    with i(2) show "td_computation d < length (hp_nodes h)" by simp
  qed
  moreover have "snd (restore_inputs p restored (input # inputs) h) = snd (restore_inputs p restored inputs ?h1)"
    by (simp add: case_prod_beta Let_def split: option.splits)
  ultimately show ?case using IH h1(2) by simp
qed (simp add: inputs_ok_def)

lemma heap_ok_restore_node:
  assumes h: "heap_ok h" and r: "copies_ok restored h" and ok: "node_ok node"
    and inputs: "\<forall>i \<in> set (sn_inputs node). ti_id i \<in> set (ms_keys restored)"
  shows "heap_ok (snd (restore_node p node (restored, h))) \<and>
    copies_ok (fst (restore_node p node (restored, h))) (snd (restore_node p node (restored, h))) \<and>
    set (ms_keys (fst (restore_node p node (restored, h)))) = insert (sn_id node) (set (ms_keys restored))"
proof -
  let ?h1 = "snd (restore_inputs p restored (sn_inputs node) h)" and ?ds = "fst (restore_inputs p restored (sn_inputs node) h)"
  let ?h2 = "case sn_spans node of None \<Rightarrow> ?h1 | Some ivs \<Rightarrow> snd (intervals_from ivs ?h1)"
  let ?spans = "case sn_spans node of None \<Rightarrow> None | Some ivs \<Rightarrow> Some (fst (intervals_from ivs ?h1))"
  let ?new = "new_interval (Fin (startedAt (sn_interval node))) (Fin (completedAt (sn_interval node))) ?ds ?spans (sn_producer node) ?h2"
  have look: "\<exists>c < length (hp_nodes h). map_of restored (ti_id i) = Some c" if "i \<in> set (sn_inputs node)" for i
  proof -
    have "map_of restored (ti_id i) \<noteq> None" using inputs that ms_has_iff [of restored "ti_id i"] by (simp add: ms_has_def)
    then obtain c where "map_of restored (ti_id i) = Some c" by blast
    moreover then have "c < length (hp_nodes h)" using r by (auto simp: copies_ok_def dest!: map_of_SomeD)
    ultimately show ?thesis by blast
  qed
  have one: "heap_ok ?h1" "length (hp_nodes h) \<le> length (hp_nodes ?h1)" "inputs_ok ?ds h"
    using heap_ok_restore_inputs [OF h, of "sn_inputs node" restored p] look by blast+
  have two: "heap_ok ?h2" "length (hp_nodes ?h1) \<le> length (hp_nodes ?h2)"
    using heap_ok_intervals_from [OF one(1)] one(1) by (simp_all split: option.splits)
  have "\<forall>d \<in> set ?ds. td_computation d < length (hp_nodes ?h2)"
    using one(2,3) two(2) by (auto simp: inputs_ok_def)
  then have new: "heap_ok (snd ?new)" by (rule heap_ok_new_interval [OF two(1)])
  define set_all where "set_all = (\<lambda>e :: evidence. e\<lparr>ev_id := Some (sn_id node), ev_published := True, ev_clock := Some (sn_clock node),
    ev_timeOrigin := sn_timeOrigin node, ev_priorMs := Some (case sn_priorMs node of Some x \<Rightarrow> x | None \<Rightarrow> 0),
    ev_groups := sn_groups node, ev_incomplete := sn_incomplete node\<rparr>)"
  have eq: "restore_node p node (restored, h) = (ms_set (sn_id node) (length (hp_nodes ?h2)) restored,
      set_cell (length (hp_nodes ?h2)) set_all (snd ?new))"
    by (simp add: restore_node_def case_prod_beta Let_def set_all_def split: option.splits)
  have "node_sound i (set_all e)" if "node_sound i e" for i e
    using that ok by (auto simp: set_all_def node_sound_def node_ok_def duration_ok_def split: option.splits)
  then have "heap_ok (set_cell (length (hp_nodes ?h2)) set_all (snd ?new))"
    by (intro heap_ok_set_cell [OF new]) (auto simp: set_all_def)
  moreover have "copies_ok (ms_set (sn_id node) (length (hp_nodes ?h2)) restored) (set_cell (length (hp_nodes ?h2)) set_all (snd ?new))"
    unfolding copies_ok_def
  proof (safe)
    fix k c
    assume "(k, c) \<in> set (ms_set (sn_id node) (length (hp_nodes ?h2)) restored)"
    then have "(k, c) \<in> set restored \<or> c = length (hp_nodes ?h2)" using in_ms_set by fastforce
    moreover have "c < length (hp_nodes h)" if "(k, c) \<in> set restored" using r that by (auto simp: copies_ok_def)
    ultimately show "c < length (hp_nodes (set_cell (length (hp_nodes ?h2)) set_all (snd ?new)))"
      using one(2) two(2) by auto
  qed
  ultimately show ?thesis unfolding eq fst_conv snd_conv using jm.present_put_keys by metis
qed

lemma heap_ok_restore_nodes:
  assumes "heap_ok h" and "\<forall>n \<in> set ns. node_ok n"
    and "\<forall>us n vs. ns = us @ n # vs \<longrightarrow> (\<forall>i \<in> set (sn_inputs n). ti_id i \<in> sn_id ` set us)"
  shows "heap_ok (snd (fold (restore_node p) ns ([], h))) \<and>
    copies_ok (fst (fold (restore_node p) ns ([], h))) (snd (fold (restore_node p) ns ([], h))) \<and>
    set (ms_keys (fst (fold (restore_node p) ns ([], h)))) = sn_id ` set ns"
  using assms(2,3)
proof (induction ns rule: rev_induct)
  case Nil
  then show ?case using assms(1) by (simp add: copies_ok_def)
next
  case (snoc n ns)
  let ?st = "fold (restore_node p) ns ([], h)"
  have "\<forall>us m vs. ns = us @ m # vs \<longrightarrow> (\<forall>i \<in> set (sn_inputs m). ti_id i \<in> sn_id ` set us)"
    using snoc.prems(2) by (metis append.assoc append_Cons)
  with snoc have IH: "heap_ok (snd ?st)" "copies_ok (fst ?st) (snd ?st)" "set (ms_keys (fst ?st)) = sn_id ` set ns" by simp_all
  have "\<forall>i \<in> set (sn_inputs n). ti_id i \<in> sn_id ` set ns" using snoc.prems(2) by blast
  then have "\<forall>i \<in> set (sn_inputs n). ti_id i \<in> set (ms_keys (fst ?st))" by (simp only: IH(3))
  from heap_ok_restore_node [OF IH(1,2) _ this] snoc.prems(1) IH(3) show ?case by simp
qed

lemma heap_ok_restore: "heap_ok h \<Longrightarrow> heap_ok (snd (restore_timeline p v h))"
proof (cases "normalizeTimelineComputation v")
  case (Some graph)
  assume "heap_ok h"
  moreover have "well_formed graph" by (rule accepted_result(1) [OF Some])
  ultimately show ?thesis
    using heap_ok_restore_nodes [of h "tc_nodes graph" p] by (simp add: restore_timeline_def Some case_prod_beta well_formed_def)
qed (simp add: restore_timeline_def)

subsection \<open>Ownership chains end\<close>

lemma producer_loop_ends:
  assumes "heap_ok h"
  shows "\<exists>p. producer_loop h i = Some p"
proof (induction "length (hp_nodes h) - i" arbitrary: i rule: less_induct)
  case less
  show ?case
  proof (cases "i < length (hp_nodes h)")
    case True
    have "i < owner \<and> owner < length (hp_nodes h)" if "ev_owner (cell_at h i) = Some owner" for owner
      using assms True that by (force simp: heap_ok_def node_sound_def)
    then show ?thesis
      using less by (subst producer_loop.simps) (auto split: option.splits)
  next
    case False
    then show ?thesis by (subst producer_loop.simps) (simp add: cell_at_def blank_def)
  qed
qed

text \<open>The stores that the operations build.\<close>

inductive built :: "timing_env \<Rightarrow> store_heap \<Rightarrow> bool" for env where
  empty_store: "built env \<lparr>hp_nodes = [], hp_nextIdentity = 0\<rparr>"
| construct: "built env h \<Longrightarrow> \<forall>d \<in> set ds. td_computation d < length (hp_nodes h) \<Longrightarrow>
    built env (snd (new_interval s e ds spans p h))"
| identify: "built env h \<Longrightarrow> built env (snd (computationIdentity env i h))"
| attempt: "built env h \<Longrightarrow> attempted env c h = Some (r, h') \<Longrightarrow> built env h'"
| restore: "built env h \<Longrightarrow> built env (snd (restore_timeline p v h))"
| serialized: "built env h \<Longrightarrow> built env (snd (serialize_timeline env c h))"
| retain: "built env h \<Longrightarrow> built env (snd (retained env ident d original h))"
| unknown: "built env h \<Longrightarrow> built env (snd (unknownReuse env ident h))"
| grouped: "built env h \<Longrightarrow> built env (group_computation env c owner h)"
| produced: "built env h \<Longrightarrow> built env (producedBy c p h)"
| consume: "built env h \<Longrightarrow> built env (cs_heap (consumedComputations env inputs h))"

lemma built_ok: "built env h \<Longrightarrow> heap_ok h"
proof (induction rule: built.induct)
  case empty_store
  then show ?case by (simp add: heap_ok_def)
next
  case (consume h inputs)
  then show ?case by (simp add: consumedComputations_def heap_ok_consume)
qed (simp_all add: heap_ok_new_interval heap_ok_identity heap_ok_attempted heap_ok_restore heap_ok_serialize
    heap_ok_retained heap_ok_unknownReuse heap_ok_group heap_ok_producedBy)

text \<open>Attempted copies always exist.\<close>

lemma kept_edges_down:
  assumes "heap_ok h" and "x \<in> set (kept_edges h i)"
  shows "\<exists>d < i. x = Some d"
proof (cases "i < length (hp_nodes h)")
  case True
  then show ?thesis using assms by (auto simp: kept_edges_def heap_ok_def node_sound_def)
next
  case False
  then show ?thesis using assms(2) by (simp add: kept_edges_def cell_at_def blank_def)
qed

lemma attempted_exists:
  assumes "heap_ok h"
  shows "attempted env c h \<noteq> None"
proof -
  have down: "edge (kept_edges h) n d \<Longrightarrow> d < n" for n d
    using kept_edges_down [OF assms] by (fastforce simp: edge_def)
  have g: "finite {..c}" "closed_under (kept_edges h) {..c}" "set [c] \<subseteq> {..c}"
    using down by (auto simp: closed_under_def edge_def dest: less_imp_le intro: order_trans)
  have "(edge (kept_edges h))\<^sup>+\<^sup>+ n d \<Longrightarrow> d < n" for n d
    by (induction rule: tranclp_induct) (use down in \<open>auto dest: less_trans\<close>)
  then have "\<not> defective (kept_edges h) [c]"
    using kept_edges_down [OF assms] by (fastforce simp: defective_def)
  then obtain ord where ord: "dependencyOrder [c] (kept_edges h) = Some ord"
    using dord.order_exists_iff [OF g] by blast
  have c: "c \<in> set ord" using dord.order_roots [OF g ord] by simp
  have "set (ms_keys (fst (fold (attempted_copy env) is st))) = set (ms_keys (fst st)) \<union> set is" for "is" st
  proof (induction "is" arbitrary: st)
    case (Cons i "is")
    have "fst (attempted_copy env i st) = ms_set i (length (hp_nodes (snd st))) (fst st)"
      by (simp add: attempted_copy_def case_prod_beta Let_def)
    with Cons show ?case using jm.present_put_keys by (metis (no_types, lifting) Un_insert_left Un_insert_right comp_apply fold_simps(2) list.simps(15))
  qed simp
  then have "set (ms_keys (fst (fold (attempted_copy env) ord ([], h)))) = set ord" by (metis Un_empty_left fst_conv list.set(1) list.simps(8))
  then have "map_of (fst (fold (attempted_copy env) ord ([], h))) c \<noteq> None"
    using c ms_has_iff [of "fst (fold (attempted_copy env) ord ([], h))" c] by (simp only: ms_has_def)
  then show ?thesis by (auto simp: attempted_def ord case_prod_beta)
qed

subsection \<open>The groups of a call\<close>

definition parent_rel :: "group_parents \<Rightarrow> (string \<times> string) set" where
  "parent_rel ps = {(k, p). map_of ps k = Some p}"

definition parents_ok :: "group_parents \<Rightarrow> bool" where
  "parents_ok ps \<longleftrightarrow> acyclic (parent_rel ps)"

lemma finite_parent_rel: "finite (parent_rel ps)"
proof -
  have "parent_rel ps \<subseteq> set ps" by (auto simp: parent_rel_def dest: map_of_SomeD)
  then show ?thesis by (rule finite_subset) simp
qed

lemma parents_wf: "parents_ok ps \<Longrightarrow> wf ((parent_rel ps)\<inverse>)"
  unfolding parents_ok_def by (rule finite_acyclic_wf_converse [OF finite_parent_rel])

lemma owner_walk_ends:
  assumes "parents_ok ps"
  shows "\<exists>owner. owner_walk ps k = Some owner \<and> (k, owner) \<in> (parent_rel ps)\<^sup>* \<and> map_of ps owner = None"
  using parents_wf [OF assms]
proof (induction k rule: wf_induct_rule)
  case (less k)
  show ?case
  proof (cases "map_of ps k")
    case None
    then show ?thesis by (subst owner_walk.simps) simp
  next
    case (Some p)
    then have kp: "(k, p) \<in> parent_rel ps" by (simp add: parent_rel_def)
    with less obtain owner where "owner_walk ps p = Some owner" "(p, owner) \<in> (parent_rel ps)\<^sup>*" "map_of ps owner = None" by blast
    with kp Some show ?thesis by (subst owner_walk.simps) (auto intro: converse_rtrancl_into_rtrancl)
  qed
qed


definition agrees_above :: "string \<Rightarrow> group_parents \<Rightarrow> group_parents \<Rightarrow> bool" where
  "agrees_above k ps qs \<longleftrightarrow> (\<forall>x. (k, x) \<in> (parent_rel ps)\<^sup>* \<longrightarrow> map_of qs x = map_of ps x)"

lemma agrees_path: "(k, x) \<in> (parent_rel ps)\<^sup>* \<Longrightarrow> agrees_above k ps qs \<Longrightarrow> (k, x) \<in> (parent_rel qs)\<^sup>*"
proof (induction rule: rtrancl_induct)
  case (step y z)
  then have "map_of qs y = map_of ps y" by (simp add: agrees_above_def)
  with step show ?case by (auto simp: parent_rel_def intro: rtrancl_into_rtrancl)
qed simp

lemma shortcut_ok:
  assumes "parents_ok qs" and "(k, owner) \<in> (parent_rel qs)\<^sup>+"
  shows "parents_ok (ms_set k owner qs)"
proof -
  have "parent_rel (ms_set k owner qs) \<subseteq> (parent_rel qs)\<^sup>+"
    using assms(2) by (auto simp: parent_rel_def split: if_splits)
  with assms(1) show ?thesis unfolding parents_ok_def using acyclic_subset acyclic_def by (metis trancl_id trans_trancl)
qed

lemma compress_walk_ends:
  assumes "parents_ok ps" and "(k, owner) \<in> (parent_rel ps)\<^sup>*" and "parents_ok qs" and "map_of qs owner = None"
    and "agrees_above k ps qs"
  shows "\<exists>rs. compress_walk owner k qs = Some rs \<and> parents_ok rs \<and> (\<forall>x. map_of qs x = None \<longrightarrow> map_of rs x = None)"
  using parents_wf [OF assms(1)] assms(2-)
proof (induction k arbitrary: qs rule: wf_induct_rule)
  case (less k)
  have k: "map_of qs k = map_of ps k" using less.prems(4) by (simp add: agrees_above_def)
  show ?case
  proof (cases "map_of qs k")
    case None
    then show ?thesis using less.prems(2) by (subst compress_walk.simps) simp
  next
    case (Some p)
    then have kp: "(k, p) \<in> parent_rel ps" using k by (simp add: parent_rel_def)
    have "k \<noteq> owner" using Some less.prems(3) by auto
    moreover have "(k, owner) \<in> (parent_rel qs)\<^sup>*" using agrees_path less.prems(1,4) by blast
    ultimately have "(k, owner) \<in> (parent_rel qs)\<^sup>+" by (auto dest: rtranclD)
    then have ok: "parents_ok (ms_set k owner qs)" by (rule shortcut_ok [OF less.prems(2)])
    obtain p' where "(k, p') \<in> parent_rel ps" "(p', owner) \<in> (parent_rel ps)\<^sup>*"
      using less.prems(1) \<open>k \<noteq> owner\<close> by (metis converse_rtranclE)
    moreover from this(1) kp have "p' = p" by (simp add: parent_rel_def)
    ultimately have po: "(p, owner) \<in> (parent_rel ps)\<^sup>*" by simp
    have "(p, x) \<in> (parent_rel ps)\<^sup>* \<Longrightarrow> x \<noteq> k" for x
      using assms(1) kp unfolding parents_ok_def acyclic_def by (metis rtrancl_into_trancl2)
    then have agree: "agrees_above p ps (ms_set k owner qs)"
      using less.prems(4) kp by (auto simp: agrees_above_def intro: converse_rtrancl_into_rtrancl)
    have "map_of (ms_set k owner qs) owner = None" using less.prems(3) \<open>k \<noteq> owner\<close> by simp
    from less.IH [OF _ po ok this agree] kp obtain rs where
      rs: "compress_walk owner p (ms_set k owner qs) = Some rs" "parents_ok rs"
        "\<forall>x. map_of (ms_set k owner qs) x = None \<longrightarrow> map_of rs x = None" by blast
    have "map_of qs x = None \<Longrightarrow> x \<noteq> k" for x using Some by auto
    with rs Some show ?thesis by (subst compress_walk.simps) simp
  qed
qed

lemma group_owner_ends:
  assumes "parents_ok ps"
  shows "\<exists>owner qs. group_owner k ps = Some (owner, qs) \<and> parents_ok qs \<and> map_of qs owner = None \<and>
    (\<forall>x. map_of ps x = None \<longrightarrow> map_of qs x = None)"
proof -
  obtain owner where o: "owner_walk ps k = Some owner" "(k, owner) \<in> (parent_rel ps)\<^sup>*" "map_of ps owner = None"
    using owner_walk_ends [OF assms] by blast
  obtain rs where "compress_walk owner k ps = Some rs" "parents_ok rs" "\<forall>x. map_of ps x = None \<longrightarrow> map_of rs x = None"
    using compress_walk_ends [OF assms o(2) assms o(3)] by (auto simp: agrees_above_def)
  with o show ?thesis by (simp add: group_owner_def)
qed

lemma group_join_ends:
  assumes "parents_ok ps"
  shows "\<exists>qs. group_join l r ps = Some qs \<and> parents_ok qs"
proof -
  obtain a p1 where a: "group_owner l ps = Some (a, p1)" "parents_ok p1" "map_of p1 a = None"
    using group_owner_ends [OF assms] by blast
  obtain b p2 where b: "group_owner r p1 = Some (b, p2)" "parents_ok p2" "map_of p2 b = None" "map_of p2 a = None"
    using group_owner_ends [OF a(2), of r] a(3) by blast
  have "parents_ok (ms_set a b p2)" if "a \<noteq> b"
  proof -
    have "parent_rel (ms_set a b p2) = insert (a, b) (parent_rel p2)"
      using b(4) by (auto simp: parent_rel_def split: if_splits)
    moreover have "(b, a) \<notin> (parent_rel p2)\<^sup>*"
      using b(3) that by (auto simp: parent_rel_def elim: converse_rtranclE)
    ultimately show ?thesis using b(2) by (simp add: parents_ok_def acyclic_insert)
  qed
  with a(1) b(1,2) show ?thesis by (simp add: group_join_def)
qed

lemma joins_end: "parents_ok ps \<Longrightarrow> \<exists>qs. fold (\<lambda>g ps. Option.bind ps (group_join key g)) gs (Some ps) = Some qs \<and> parents_ok qs"
proof (induction gs arbitrary: ps)
  case (Cons g gs)
  from group_join_ends [OF Cons.prems, of key g] obtain qs where "group_join key g ps = Some qs" "parents_ok qs" by blast
  with Cons.IH [of qs] show ?case by simp
qed simp

definition consumption_ok :: "consumption \<Rightarrow> bool" where
  "consumption_ok s \<longleftrightarrow> pred_option parents_ok (cs_parents s) \<and> cs_parents s \<noteq> None"

lemma consume_parents: "consumption_ok s \<Longrightarrow> consumption_ok (consume_loop env pending visited s)"
proof (induction env pending visited s rule: consume_loop.induct)
  case (2 env input inherited pending visited s)
  have "consumption_ok (note_uncertain input inherited s)"
    using 2(3) by (simp add: consumption_ok_def note_uncertain_def)
  moreover have "consumption_ok (consume_one env c reused t)" if t: "consumption_ok t" for c reused t
  proof -
    obtain ps where "cs_parents t = Some ps" "parents_ok ps" using t by (auto simp: consumption_ok_def)
    note ps = this
    let ?key = "fst (computationIdentity env c (cs_heap t))"
    let ?gs = "fst (computationGroups env c False (snd (computationIdentity env c (cs_heap t))))"
    from joins_end [OF ps(2), of ?key ?gs] obtain qs
      where "fold (\<lambda>g ps. Option.bind ps (group_join ?key g)) ?gs (cs_parents t) = Some qs" "parents_ok qs"
      unfolding ps(1) by blast
    then show ?thesis by (simp add: consumption_ok_def consume_one_def Let_def)
  qed
  ultimately show ?case using 2 by (subst consume_loop.simps) (simp add: Let_def)
qed (simp add: consume_loop.simps)

subsection \<open>Bounds of a call\<close>

lemma credits_le_total:
  assumes "sw_credits s = [] \<or> sum_list (map snd (sw_credits s)) \<le> sw_total s" and "0 \<le> sw_total s"
    and "\<forall>(p, d) \<in> set (sw_credits s). 0 < d"
  shows "sum_list (map snd (sw_credits (fold (sweep_point f) ps s))) \<le> sw_total (fold (sweep_point f) ps s) \<and>
    (\<forall>(p, d) \<in> set (sw_credits (fold (sweep_point f) ps s)). 0 < d)"
  using assms
proof (induction ps arbitrary: s)
  case Nil
  then show ?case by auto
next
  case (Cons p ps)
  have le: "sum_list (map snd (sw_credits s)) \<le> sw_total s" using Cons.prems(1,2) by auto
  consider "sw_active s = []" | k q n where "sw_active s = [(k, q, n)]" | x y zs where "sw_active s = x # y # zs"
    by (metis list.exhaust surj_pair)
  then have "sum_list (map snd (sw_credits (sweep_gap (pt_at p) s))) \<le> sw_total (sweep_gap (pt_at p) s) \<and>
      0 \<le> sw_total (sweep_gap (pt_at p) s) \<and> (\<forall>(q, d) \<in> set (sw_credits (sweep_gap (pt_at p) s)). 0 < d)"
  proof cases
    case 2
    then show ?thesis using le Cons.prems(2,3) by (simp add: sweep_gap_def)
  qed (use le Cons.prems(2,3) in \<open>simp_all add: sweep_gap_def\<close>)
  then show ?case using Cons.IH [of "sweep_point f p s"] by simp
qed

lemma attribution_credits:
  "sum_list (map snd (snd (attributeUnion f spans))) \<le> fst (attributeUnion f spans) \<and>
   (\<forall>(p, d) \<in> set (snd (attributeUnion f spans)). 0 < d)"
  using credits_le_total [of new_sweep f "sweep_points spans"] by (simp add: attributeUnion_def Let_def new_sweep_def)

definition modes_sum :: "mode_table \<Rightarrow> real" where
  "modes_sum modes = sum_list (map (\<lambda>(k, s, m, x). x) modes)"

lemma modes_sum_parts: "modes_sum modes = sum_list (map (snd \<circ> snd) (map snd modes))"
  by (induction modes) (auto simp: modes_sum_def)

lemma modes_sum_set:
  "ms_wf modes \<Longrightarrow> modes_sum (ms_set k (a, b, (case map_of modes k of Some (_, _, x) \<Rightarrow> x | None \<Rightarrow> 0) + y) modes) = modes_sum modes + y"
proof (induction modes)
  case (Cons m modes)
  have "ms_wf modes" using Cons.prems by (simp add: ms_wf_def)
  with Cons show ?case by (cases m) (auto simp: modes_sum_def)
qed (simp add: modes_sum_def)

definition modes_ok :: "mode_table \<Rightarrow> bool" where
  "modes_ok modes \<longleftrightarrow> ms_wf modes \<and> (\<forall>(k, s, m, x) \<in> set modes. 0 < x)"

lemma credit_mode_ok:
  assumes "modes_ok modes" and "0 < d"
  shows "modes_ok (credit_mode (p, d) modes) \<and> modes_sum (credit_mode (p, d) modes) \<le> modes_sum modes + d"
proof (cases "pr_mode p")
  case None
  with assms show ?thesis by (simp add: credit_mode_def)
next
  case (Some m)
  show ?thesis
  proof (cases m)
    case Nil
    with Some assms show ?thesis by (simp add: credit_mode_def)
  next
    case (Cons c cs)
    let ?x = "case map_of modes (producerKey p) of Some (_, _, x) \<Rightarrow> x | None \<Rightarrow> 0"
    have eq: "credit_mode (p, d) modes = ms_set (producerKey p) (pr_source p, c # cs, ?x + d) modes"
      using Some Cons assms(2) by (simp add: credit_mode_def)
    have wf: "ms_wf modes" using assms(1) by (simp add: modes_ok_def)
    have "0 \<le> ?x" using assms(1) by (fastforce simp: modes_ok_def less_imp_le split: option.splits dest!: map_of_SomeD)
    then have "modes_ok (credit_mode (p, d) modes)"
      using assms wf unfolding eq modes_ok_def by (auto simp: set_ms_set)
    with modes_sum_set [OF wf] show ?thesis by (simp add: eq)
  qed
qed

lemma credit_modes_ok:
  assumes "modes_ok modes" and "\<forall>(p, d) \<in> set cs. 0 < d"
  shows "modes_ok (fold credit_mode cs modes) \<and> modes_sum (fold credit_mode cs modes) \<le> modes_sum modes + sum_list (map snd cs)"
  using assms
proof (induction cs arbitrary: modes)
  case (Cons c cs)
  obtain p d where c: "c = (p, d)" "0 < d" using Cons.prems(2) by (cases c) auto
  note one = credit_mode_ok [OF Cons.prems(1) c(2), of p]
  from Cons.IH [of "credit_mode (p, d) modes"] one Cons.prems(2) show ?case by (auto simp: c(1))
qed simp

lemma attribute_groups_modes:
  "modes_ok (snd (attribute_groups attributed)) \<and> modes_sum (snd (attribute_groups attributed)) \<le> fst (attribute_groups attributed)"
proof -
  have "modes_ok (snd st) \<Longrightarrow> modes_sum (snd st) \<le> fst st \<Longrightarrow>
    modes_ok (snd (fold (\<lambda>(k, spans) (total, modes). (total + fst (attributeUnion producerKey spans),
        fold credit_mode (snd (attributeUnion producerKey spans)) modes)) attributed st)) \<and>
    modes_sum (snd (fold (\<lambda>(k, spans) (total, modes). (total + fst (attributeUnion producerKey spans),
        fold credit_mode (snd (attributeUnion producerKey spans)) modes)) attributed st)) \<le>
      fst (fold (\<lambda>(k, spans) (total, modes). (total + fst (attributeUnion producerKey spans),
        fold credit_mode (snd (attributeUnion producerKey spans)) modes)) attributed st)" for st :: "real \<times> mode_table"
  proof (induction attributed arbitrary: st)
    case (Cons a attributed)
    obtain k spans total modes where "a = (k, spans)" "st = (total, modes)" by fastforce
    note a = this
    have "modes_ok modes" "modes_sum modes \<le> total" using Cons.prems by (simp_all add: a)
    from credit_modes_ok [OF this(1)] attribution_credits [of producerKey spans] this(2)
    have "modes_ok (fold credit_mode (snd (attributeUnion producerKey spans)) modes)"
      "modes_sum (fold credit_mode (snd (attributeUnion producerKey spans)) modes) \<le> total + fst (attributeUnion producerKey spans)"
      by fastforce+
    with Cons.IH [of "(total + fst (attributeUnion producerKey spans), fold credit_mode (snd (attributeUnion producerKey spans)) modes)"]
    show ?case by (simp add: a)
  qed simp
  from this [of "(0, [])"] show ?thesis by (simp add: attribute_groups_def modes_ok_def modes_sum_def)
qed

lemma attribute_groups_total:
  "fst (attribute_groups attributed) = sum_list (map (\<lambda>(k, spans). fst (attributeUnion producerKey spans)) attributed)"
proof -
  have "fst (fold (\<lambda>(k, spans) (total, modes). (total + fst (attributeUnion producerKey spans),
      fold credit_mode (snd (attributeUnion producerKey spans)) modes)) attributed st) =
    fst st + sum_list (map (\<lambda>(k, spans). fst (attributeUnion producerKey spans)) attributed)" for st :: "real \<times> mode_table"
    by (induction attributed arbitrary: st) (auto simp: case_prod_beta)
  then show ?thesis by (simp add: attribute_groups_def)
qed

definition placed :: "interval \<Rightarrow> bool" where
  "placed iv \<longleftrightarrow> proper iv \<and> 0 \<le> startedAt iv"

lemma node_placed: "heap_ok h \<Longrightarrow> placed (ev_interval (cell_at h i))"
  by (cases "i < length (hp_nodes h)") (auto simp: heap_ok_def node_sound_def placed_def cell_at_def blank_def proper_def)

lemma calculation_placed:
  assumes "heap_ok h" and "iv \<in> set (calculation_intervals env h c)"
  shows "placed iv"
proof -
  obtain i where i: "iv \<in> set (exclusiveIntervals (ev_interval (cell_at h i)) (shared_intervals env h c))"
    using assms(2) by (auto simp: calculation_intervals_def)
  have p: "proper (ev_interval (cell_at h i))" "0 \<le> startedAt (ev_interval (cell_at h i))"
    using node_placed [OF assms(1)] by (simp_all add: placed_def)
  have "\<forall>p \<in> set (shared_intervals env h c). proper p" by (auto simp: shared_intervals_def proper_def)
  from separated_intervals [OF exclusive_facts(1) [OF p(1) this] i] p(2) show ?thesis
    by (simp add: placed_def proper_def)
qed

lemma hidden_facts:
  assumes "\<forall>iv \<in> set ivs. placed iv"
  shows "\<forall>iv \<in> set (hidden_intervals t ivs). placed iv" "covered (hidden_intervals t ivs) \<subseteq> covered ivs"
  using assms by (auto simp: hidden_intervals_def placed_def proper_def covered_def instants_def)

definition call_ok :: "call_state \<Rightarrow> bool" where
  "call_ok s \<longleftrightarrow> 0 \<le> ca_prior s \<and> parents_ok (ca_parents s) \<and> ms_wf (ca_grouped s) \<and> ms_wf (ca_attributed s) \<and>
     (\<forall>k ivs. map_of (ca_grouped s) k = Some ivs \<longrightarrow> (\<forall>iv \<in> set ivs. placed iv)) \<and>
     (\<forall>k spans. map_of (ca_attributed s) k = Some spans \<longrightarrow> (\<forall>iv \<in> set (map fst spans). placed iv) \<and>
        (\<exists>ivs. map_of (ca_grouped s) k = Some ivs \<and> covered (map fst spans) \<subseteq> covered ivs))"

lemma call_grouped: "call_ok s \<Longrightarrow> map_of (ca_grouped s) k = Some ivs \<Longrightarrow> \<forall>iv \<in> set ivs. placed iv"
  unfolding call_ok_def by blast

lemma call_attributed: "call_ok s \<Longrightarrow> map_of (ca_attributed s) k = Some spans \<Longrightarrow> (\<forall>iv \<in> set (map fst spans). placed iv) \<and>
    (\<exists>ivs. map_of (ca_grouped s) k = Some ivs \<and> covered (map fst spans) \<subseteq> covered ivs)"
  unfolding call_ok_def by blast

lemma key_lookup: "k \<in> set (ms_keys m) \<Longrightarrow> \<exists>v. map_of m k = Some v"
  by (metis ms_has_def ms_has_iff not_None_eq)

lemma record_one_ok:
  assumes h: "heap_ok h" and s: "call_ok s"
  shows "\<exists>s'. record_one env h issuedAt e (Some s) = Some s' \<and> call_ok s'"
proof -
  define c where "c = cn_computation (snd e)"
  define whole where "whole = calculation_intervals env h c"
  define cutoff where "cutoff = finite_value (cutoff_of env h c issuedAt)"
  define hidden where "hidden = (case cutoff of Some t \<Rightarrow> if cn_reused (snd e) then hidden_intervals t whole else [] | None \<Rightarrow> [])"
  define new where "new = map (\<lambda>iv. (iv, has_mode (cn_producer (snd e)))) hidden"
  define prior where "prior = (case ev_priorMs (cell_at h c) of Some x \<Rightarrow> x | None \<Rightarrow> 0)"
  obtain owner ps where ps: "group_owner (ident_of env h c) (ca_parents s) = Some (owner, ps)" "parents_ok ps"
    using group_owner_ends s by (metis call_ok_def)
  define key where "key = (owner, computationClock env h c)"
  define g where "g = (case map_of (ca_grouped s) key of Some g \<Rightarrow> g | None \<Rightarrow> [])"
  define a where "a = (case map_of (ca_attributed s) key of Some g \<Rightarrow> g | None \<Rightarrow> [])"
  have whole: "\<forall>iv \<in> set whole. placed iv" using calculation_placed [OF h] by (simp add: whole_def)
  have hid: "\<forall>iv \<in> set (map fst new). placed iv" "covered (map fst new) \<subseteq> covered whole"
    using hidden_facts [OF whole] by (auto simp: new_def hidden_def comp_def split: option.splits)
  have prior: "0 \<le> prior"
    using h by (cases "c < length (hp_nodes h)") (auto simp: prior_def heap_ok_def node_sound_def cell_at_def blank_def split: option.splits)
  have old: "\<forall>iv \<in> set g. placed iv" "\<forall>iv \<in> set (map fst a). placed iv " "covered (map fst a) \<subseteq> covered g"
  proof -
    show "\<forall>iv \<in> set g. placed iv" using call_grouped [OF s] by (cases "map_of (ca_grouped s) key") (auto simp: g_def)
    have "(\<forall>iv \<in> set (map fst a). placed iv) \<and> covered (map fst a) \<subseteq> covered g"
    proof (cases "map_of (ca_attributed s) key")
      case (Some spans)
      then obtain ivs where "map_of (ca_grouped s) key = Some ivs" "covered (map fst spans) \<subseteq> covered ivs"
        "\<forall>iv \<in> set (map fst spans). placed iv" using call_attributed [OF s Some] by blast
      then show ?thesis by (simp add: a_def g_def Some)
    qed (simp add: a_def)
    then show "\<forall>iv \<in> set (map fst a). placed iv " "covered (map fst a) \<subseteq> covered g" by simp_all
  qed
  obtain s' where s': "record_one env h issuedAt e (Some s) = Some s'" "ca_parents s' = ps" "ca_prior s' = ca_prior s + prior"
    "ca_grouped s' = ms_set key (g @ whole) (ca_grouped s)"
    "ca_attributed s' = (if cn_reused (snd e) then ms_set key (a @ new) (ca_attributed s) else ca_attributed s)"
    using ps(1) by (cases "cn_reused (snd e)") (simp_all add: record_one_def Let_def c_def whole_def cutoff_def hidden_def new_def prior_def key_def g_def a_def cong: option.case_cong)
  have "\<exists>ivs. map_of (ca_grouped s') k = Some ivs \<and> covered (map fst spans) \<subseteq> covered ivs"
    if k: "map_of (ca_attributed s') k = Some spans" for k spans
  proof (cases "k = key \<and> cn_reused (snd e)")
    case True
    then show ?thesis using k hid(2) old(3) by (auto simp: s')
  next
    case False
    then have "map_of (ca_attributed s) k = Some spans" using k by (auto simp: s' split: if_splits)
    then obtain ivs where "map_of (ca_grouped s) k = Some ivs" "covered (map fst spans) \<subseteq> covered ivs"
      using s unfolding call_ok_def by blast
    then show ?thesis by (auto simp: s' g_def)
  qed
  moreover have "\<forall>iv \<in> set (map fst spans). placed iv" if "map_of (ca_attributed s') k = Some spans" for k spans
  proof (cases "k = key \<and> cn_reused (snd e)")
    case True
    then have "spans = a @ new" using that by (simp add: s')
    then have "set (map fst spans) = set (map fst a) \<union> set (map fst new)" by (simp add: image_Un)
    with hid(1) old(2) show ?thesis by blast
  next
    case False
    then have "map_of (ca_attributed s) k = Some spans" using that by (auto simp: s' split: if_splits)
    from call_attributed [OF s this] show ?thesis by blast
  qed
  moreover have "\<forall>iv \<in> set ivs. placed iv" if "map_of (ca_grouped s') k = Some ivs" for k ivs
  proof (cases "k = key")
    case True
    then have "ivs = g @ whole" using that by (simp add: s')
    with whole old(1) show ?thesis by auto
  next
    case False
    then have "map_of (ca_grouped s) k = Some ivs" using that by (simp add: s')
    from call_grouped [OF s this] show ?thesis .
  qed
  ultimately have "call_ok s'" using s prior ps(2) by (simp add: call_ok_def s'(2-5))
  with s'(1) show ?thesis by blast
qed

lemma record_all_ok:
  assumes "heap_ok h" and "call_ok s"
  shows "\<exists>s'. fold (record_one env h issuedAt) es (Some s) = Some s' \<and> call_ok s'"
  using assms(2)
proof (induction es arbitrary: s)
  case (Cons e es)
  from record_one_ok [OF assms(1) Cons.prems, of env issuedAt e] Cons.IH show ?case by fastforce
qed simp

lemma sum_over_keys:
  fixes f :: "'v \<Rightarrow> real"
  assumes "ms_wf m"
  shows "sum_list (map (\<lambda>(k, v). f v) m) = (\<Sum>k \<in> set (ms_keys m). f (the (map_of m k)))"
proof -
  have "map (\<lambda>(k, v). f v) m = map (\<lambda>k. f (the (map_of m k))) (ms_keys m)"
    using assms by (auto simp: ms_wf_def)
  moreover have "sum_list (map (\<lambda>k. f (the (map_of m k))) (ms_keys m)) = (\<Sum>k \<in> set (ms_keys m). f (the (map_of m k)))"
    using assms unfolding ms_wf_def by (rule sum_list_distinct_conv_sum_set)
  ultimately show ?thesis by (simp only:)
qed

lemma hidden_le_total:
  assumes "call_ok s"
  shows "fst (attribute_groups (ca_attributed s)) \<le> total_union (ca_grouped s)" "0 \<le> fst (attribute_groups (ca_attributed s))"
proof -
  let ?A = "ca_attributed s" and ?G = "ca_grouped s"
  have union_nonneg: "0 \<le> unionDuration ivs" if "\<forall>iv \<in> set ivs. placed iv" for ivs
    using that union_facts [of ivs] measured_nonneg by (auto simp: placed_def)
  have G: "0 \<le> unionDuration (the (map_of ?G k))" if k: "k \<in> set (ms_keys ?G)" for k
  proof -
    obtain ivs where "map_of ?G k = Some ivs" using key_lookup [OF k] by blast
    with union_nonneg [OF call_grouped [OF assms]] show ?thesis by simp
  qed
  have A: "k \<in> set (ms_keys ?G) \<and> 0 \<le> fst (attributeUnion producerKey (the (map_of ?A k))) \<and>
      fst (attributeUnion producerKey (the (map_of ?A k))) \<le> unionDuration (the (map_of ?G k))"
    if k: "k \<in> set (ms_keys ?A)" for k
  proof -
    obtain spans where spans: "map_of ?A k = Some spans" using key_lookup [OF k] by blast
    then obtain ivs where ivs: "map_of ?G k = Some ivs" "covered (map fst spans) \<subseteq> covered ivs" "\<forall>iv \<in> set ivs. placed iv"
      "\<forall>iv \<in> set (map fst spans). placed iv"
      using assms unfolding call_ok_def by blast
    have "\<forall>(iv, p) \<in> set spans. proper iv \<and> 0 \<le> startedAt iv" using ivs(4) by (auto simp: placed_def)
    then have m: "measured (covered (map fst spans)) (fst (attributeUnion producerKey spans))" by (rule attribute_facts(1))
    have "measured (covered ivs) (unionDuration ivs)" using ivs(3) by (intro union_facts) (auto simp: placed_def)
    with m ivs(2) have "fst (attributeUnion producerKey spans) \<le> unionDuration ivs" by (metis measured_mono)
    moreover have "k \<in> set (ms_keys ?G)" using ivs(1) ms_has_iff [of ?G k] by (simp add: ms_has_def)
    ultimately show ?thesis using spans ivs(1) measured_nonneg [OF m] by simp
  qed
  have wf: "ms_wf ?A" "ms_wf ?G" using assms by (simp_all add: call_ok_def)
  have "fst (attribute_groups ?A) = (\<Sum>k \<in> set (ms_keys ?A). fst (attributeUnion producerKey (the (map_of ?A k))))"
    unfolding attribute_groups_total by (rule sum_over_keys [OF wf(1)])
  also have "\<dots> \<le> (\<Sum>k \<in> set (ms_keys ?A). unionDuration (the (map_of ?G k)))" by (intro sum_mono) (use A in blast)
  also have "\<dots> \<le> (\<Sum>k \<in> set (ms_keys ?G). unionDuration (the (map_of ?G k)))"
    by (intro sum_mono2) (use A G in auto)
  also have "\<dots> = total_union ?G" unfolding total_union_def by (rule sum_over_keys [OF wf(2), symmetric])
  finally show "fst (attribute_groups ?A) \<le> total_union ?G" .
  show "0 \<le> fst (attribute_groups ?A)"
    unfolding attribute_groups_total sum_over_keys [OF wf(1)] by (intro sum_nonneg) (use A in blast)
qed

subsection \<open>Properties\<close>

text \<open>C32. In every store that the operations of the timing module build, computations consume only older ones and are
  owned only by younger ones, so the search for a producer through the owners returns, copying an attempted
  computation returns, and so does the union of a call's groups.\<close>

theorem ownership_chains_end:
  assumes "built env h"
  shows "heap_ok h \<and> (\<forall>i. \<exists>p. producer_loop h i = Some p) \<and> (\<forall>c. attempted env c h \<noteq> None) \<and>
    (\<forall>inputs. cs_parents (consumedComputations env inputs h) \<noteq> None)"
proof -
  note h = built_ok [OF assms]
  have "consumption_ok (consumedComputations env inputs h)" for inputs
    unfolding consumedComputations_def
    by (rule consume_parents) (simp add: consumption_ok_def parents_ok_def parent_rel_def acyclic_def)
  with h producer_loop_ends [OF h] attempted_exists [OF h] show ?thesis by (auto simp: consumption_ok_def)
qed

definition sample_env :: timing_env where
  "sample_env = \<lparr>te_namespace = ''n'', te_timeOrigin = 0\<rparr>"

definition sample_store :: store_heap where
  "sample_store = snd (new_interval (Fin 0) (Fin 4) [] None (Some \<lparr>pr_source = ''a'', pr_mode = Some ''m'', pr_id = None\<rparr>)
     \<lparr>hp_nodes = [], hp_nextIdentity = 0\<rparr>)"

lemma sample_built: "built sample_env sample_store"
  unfolding sample_store_def by (rule construct [OF empty_store]) simp

theorem ownership_chains_end_witness: "heap_ok sample_store \<and> attempted sample_env 0 sample_store \<noteq> None"
  using ownership_chains_end [OF sample_built] by blast

text \<open>C40. Recording a settled call always returns.  Its hidden time is not negative and, when the call's computation is
  known, at most that computation; the shares credited to modes are positive and add up to at most the hidden
  time; a speedup is at least one; and the totals of the task keep the same bounds.\<close>

theorem recorded_calls_are_bounded:
  assumes "built env h" and "0 \<le> tl_hiddenComputeMs task" and "pred_option ((\<le>) (tl_hiddenComputeMs task)) (tl_toolComputeMs task)"
  shows "\<exists>timing task' h'. recordCall env inputs issuedAt endedAt h task = Some (timing, task', h') \<and>
    0 \<le> ct_hiddenComputeMs timing \<and> pred_option ((\<le>) (ct_hiddenComputeMs timing)) (ct_toolComputeMs timing) \<and>
    (\<forall>(s, m, x) \<in> set (ct_hiddenByMode timing). 0 < x) \<and>
    sum_list (map (snd \<circ> snd) (ct_hiddenByMode timing)) \<le> ct_hiddenComputeMs timing \<and>
    pred_option ((\<le>) 1) (toolSpeedup (map_option Fin (ct_toolComputeMs timing)) (ct_hiddenComputeMs timing) (ct_hiddenIncomplete timing)) \<and>
    0 \<le> tl_hiddenComputeMs task' \<and> pred_option ((\<le>) (tl_hiddenComputeMs task')) (tl_toolComputeMs task')"
proof -
  define c where "c = consumedComputations env inputs h"
  have h: "heap_ok (cs_heap c)"
    using built_ok [OF assms(1)] by (simp add: c_def consumedComputations_def heap_ok_consume)
  have "consumption_ok c"
    unfolding c_def consumedComputations_def
    by (rule consume_parents) (simp add: consumption_ok_def parents_ok_def parent_rel_def acyclic_def)
  then obtain ps where ps: "cs_parents c = Some ps" "parents_ok ps" by (auto simp: consumption_ok_def)
  let ?s0 = "\<lparr>ca_complete = cs_complete c, ca_hiddenIncomplete = (cs_incomplete c \<or> finite_value issuedAt = None),
    ca_adoptionComplete = (case (finite_value issuedAt, Option.bind endedAt finite_value) of (Some i, Some e) \<Rightarrow> i \<le> e | _ \<Rightarrow> False),
    ca_observed = [], ca_grouped = [], ca_attributed = [], ca_prior = 0, ca_reused = False, ca_parents = ps\<rparr>"
  have "call_ok ?s0" using ps(2) by (simp add: call_ok_def)
  from record_all_ok [OF h this, of env issuedAt "cs_selected c"]
  obtain s where s: "fold (record_one env (cs_heap c) issuedAt) (cs_selected c) (Some ?s0) = Some s" "call_ok s" by blast
  obtain timing task' h' adoption where r: "recordCall env inputs issuedAt endedAt h task = Some (timing, task', h')"
    "timing = recorded_timing s adoption" "tl_hiddenComputeMs task' = tl_hiddenComputeMs task + ct_hiddenComputeMs timing"
    "tl_toolComputeMs task' = (case (tl_toolComputeMs task, ct_toolComputeMs timing) of (Some a, Some b) \<Rightarrow> Some (a + b) | _ \<Rightarrow> None)"
    using s(1) by (simp add: recordCall_def c_def [symmetric] ps(1) Let_def)
  note bounds = hidden_le_total [OF s(2)] attribute_groups_modes [of "ca_attributed s"]
  have prior: "0 \<le> ca_prior s" using s(2) by (simp add: call_ok_def)
  have hidden: "0 \<le> ct_hiddenComputeMs timing" "pred_option ((\<le>) (ct_hiddenComputeMs timing)) (ct_toolComputeMs timing)"
    using bounds(1,2) prior by (simp_all add: r(2) recorded_timing_def)
  have modes: "\<forall>(s, m, x) \<in> set (ct_hiddenByMode timing). 0 < x"
    "sum_list (map (snd \<circ> snd) (ct_hiddenByMode timing)) \<le> ct_hiddenComputeMs timing"
    using bounds(3) by (auto simp: r(2) recorded_timing_def modes_ok_def modes_sum_parts case_prod_beta)
  have "1 \<le> t / (t - x)" if "0 \<le> x" "x < t" for t x :: real using that by (simp add: le_divide_eq)
  then have "pred_option ((\<le>) 1) (toolSpeedup (map_option Fin (ct_toolComputeMs timing)) (ct_hiddenComputeMs timing) (ct_hiddenIncomplete timing))"
    by (cases "ct_toolComputeMs timing") (simp_all add: toolSpeedup_def)
  moreover have "0 \<le> tl_hiddenComputeMs task'" "pred_option ((\<le>) (tl_hiddenComputeMs task')) (tl_toolComputeMs task')"
    using assms(2,3) hidden by (auto simp: r(3,4) split: option.splits)
  ultimately show ?thesis using r(1) hidden modes by blast
qed

theorem recorded_calls_are_bounded_witness:
  "\<exists>timing task' h'. recordCall sample_env
      [\<lparr>td_computation = 0, td_owned = False, td_reused = True, td_overhead = False, td_uncertain = False, td_shared = None\<rparr>]
      (Fin 3) (Some (Fin 5)) sample_store (new_timeline (Fin 0)) = Some (timing, task', h') \<and>
    0 \<le> ct_hiddenComputeMs timing \<and> pred_option ((\<le>) (ct_hiddenComputeMs timing)) (ct_toolComputeMs timing)"
  using recorded_calls_are_bounded [OF sample_built, of "new_timeline (Fin 0)"
    "[\<lparr>td_computation = 0, td_owned = False, td_reused = True, td_overhead = False, td_uncertain = False, td_shared = None\<rparr>]"
    "Fin 3" "Some (Fin 5)"]
  by (auto simp: new_timeline_def)

end
