(* ===== verification/Content_Chunks.thy ===== *)
theory Content_Chunks
  imports Numbers "HOL-Library.Word"
begin

text \<open>
  Content as fixed-size blocks: \<open>src/artifact-reference.ts\<close>, the verified views \<open>ArtifactReadView\<close> of
  \<open>src/reuse-store.ts\<close> and \<open>src/content-chunks.ts\<close>.

  \<^item> A result is \<open>Inl\<close> the message of the error thrown, or \<open>Inr\<close> the value.
  \<^item> The hash function is a parameter \<open>H\<close> from bytes to digest texts; \<open>cas\<close> is the content of the files of the
    artifact directory.  An image and a sealed memory file are both the bytes they hold.
  \<^item> The loops that would not end on a full buffer or an empty block are \<open>partial_function\<close>s: \<open>None\<close> is a loop that
    does not return.
  \<^item> Cancellation signals, the object leases behind \<open>lend\<close> and the serialization of the lane are not modelled here.
\<close>

subsection \<open>Results\<close>

type_synonym 'a result = "string + 'a"

definition refuse :: "string \<Rightarrow> bool \<Rightarrow> 'a result \<Rightarrow> 'a result" where
  "refuse message bad k = (if bad then Inl message else k)"

fun and_then :: "'e + 'a \<Rightarrow> ('a \<Rightarrow> 'e + 'b) \<Rightarrow> 'e + 'b" where
  "and_then (Inl e) f = Inl e"
| "and_then (Inr x) f = f x"

lemma refuse_Inr [simp]: "refuse message bad k = Inr x \<longleftrightarrow> \<not> bad \<and> k = Inr x"
  by (simp add: refuse_def)

lemma and_then_Inr [simp]: "and_then r f = Inr y \<longleftrightarrow> (\<exists>x. r = Inr x \<and> f x = Inr y)"
  by (cases r) auto

subsection \<open>Artifacts and manifests\<close>

type_synonym bytes = "8 word list"

definition is_hex :: "char \<Rightarrow> bool" where
  "is_hex c \<longleftrightarrow> (let n = (of_char c :: nat) in 48 \<le> n \<and> n \<le> 57 \<or> 97 \<le> n \<and> n \<le> 102)"

definition isSha256Digest :: "string \<Rightarrow> bool" where
  "isSha256Digest s \<longleftrightarrow> take 7 s = ''sha256:'' \<and> length s = 71 \<and> list_all is_hex (drop 7 s)"

record artifact =
  ar_digest :: string
  ar_size :: js_num

type_synonym size_table = "(string, js_num) jsmap"

definition is_count :: "js_num \<Rightarrow> bool" where
  "is_count n \<longleftrightarrow> isSafeCount (JNum n) 0 max_safe"

definition validateArtifact :: "artifact \<Rightarrow> size_table \<Rightarrow> size_table result" where
  "validateArtifact r sizes =
     refuse ''invalid content artifact'' (\<not> isSha256Digest (ar_digest r) \<or> \<not> is_count (ar_size r))
       (refuse ''conflicting content artifact sizes''
         (case map_of sizes (ar_digest r) of Some previous \<Rightarrow> previous \<noteq> ar_size r | None \<Rightarrow> False)
         (Inr (ms_set (ar_digest r) (ar_size r) sizes)))"

definition chunk_length :: nat where "chunk_length = 1024 * 1024"

record manifest =
  mf_size :: js_num
  mf_digest :: string
  mf_chunks :: "artifact option list"

definition chunk_size :: "js_num \<Rightarrow> nat \<Rightarrow> js_num" where
  "chunk_size n index = (case n of
     Fin s \<Rightarrow> Fin (min (real chunk_length) (s - real index * real chunk_length)) | _ \<Rightarrow> n)"

definition chunk_count :: "js_num \<Rightarrow> int option" where
  "chunk_count n = (case n of Fin s \<Rightarrow> Some \<lceil>s / real chunk_length\<rceil> | _ \<Rightarrow> None)"

fun parse_chunks :: "js_num \<Rightarrow> nat \<Rightarrow> artifact option list \<Rightarrow> size_table \<Rightarrow> artifact option list result" where
  "parse_chunks n index [] sizes = Inr []"
| "parse_chunks n index (None # rs) sizes =
     and_then (parse_chunks n (index + 1) rs sizes) (\<lambda>cs. Inr (None # cs))"
| "parse_chunks n index (Some r # rs) sizes =
     and_then (validateArtifact r sizes) (\<lambda>sizes.
       refuse ''invalid content chunk size'' (ar_size r \<noteq> chunk_size n index)
         (and_then (parse_chunks n (index + 1) rs sizes) (\<lambda>cs. Inr (Some r # cs))))"

definition parseContentManifest :: "manifest \<Rightarrow> manifest result" where
  "parseContentManifest m =
     refuse ''invalid content manifest''
       (\<not> is_count (mf_size m) \<or> \<not> isSha256Digest (mf_digest m) \<or> 65536 < length (mf_chunks m) \<or>
        chunk_count (mf_size m) \<noteq> Some (int (length (mf_chunks m))))
       (and_then (parse_chunks (mf_size m) 0 (mf_chunks m) []) (\<lambda>cs.
         Inr \<lparr>mf_size = mf_size m, mf_digest = mf_digest m, mf_chunks = cs\<rparr>))"

text \<open>Reading a range from blocks: the buffer is filled from its start.\<close>

partial_function (option) range_loop ::
  "(nat \<Rightarrow> bytes result) \<Rightarrow> nat \<Rightarrow> nat \<Rightarrow> bytes \<Rightarrow> bytes result option" where
  "range_loop block offset count filled =
     (if count \<le> length filled then Some (Inr filled)
      else let position = offset + length filled; skip = position mod chunk_length in
        case block (position div chunk_length) of
          Inl e \<Rightarrow> Some (Inl e)
        | Inr b \<Rightarrow>
            if length b < skip then Some (Inl ''out of range'')
            else range_loop block offset count (filled @ take (min (count - length filled) (length b - skip)) (drop skip b)))"

declare range_loop.simps [code]

definition readChunkRange :: "nat \<Rightarrow> nat \<Rightarrow> (nat \<Rightarrow> bytes result) \<Rightarrow> bytes result option" where
  "readChunkRange offset count block = range_loop block offset count []"

subsection \<open>Verified views of stored artifacts\<close>

record stored =
  st_reference :: artifact
  st_image :: bytes

record view =
  vw_values :: "(string, stored) jsmap"
  vw_maxReadBytes :: nat
  vw_maxStoredBytes :: nat
  vw_maxOpenChunks :: nat
  vw_sealed :: bool

datatype provision = Unsupplied | Supplied artifact bytes | Shared view

definition num_add :: "js_num \<Rightarrow> js_num \<Rightarrow> js_num" where
  "num_add a b = (case (a, b) of
     (Fin x, Fin y) \<Rightarrow> Fin (x + y) | (NaN, _) \<Rightarrow> NaN | (_, NaN) \<Rightarrow> NaN
   | (PInf, NInf) \<Rightarrow> NaN | (NInf, PInf) \<Rightarrow> NaN | (Fin _, y) \<Rightarrow> y | (x, _) \<Rightarrow> x)"

definition num_less :: "js_num \<Rightarrow> js_num \<Rightarrow> bool" where
  "num_less a b = (case (a, b) of
     (Fin x, Fin y) \<Rightarrow> x < y | (NaN, _) \<Rightarrow> False | (_, NaN) \<Rightarrow> False
   | (NInf, y) \<Rightarrow> y \<noteq> NInf | (x, PInf) \<Rightarrow> x \<noteq> PInf | _ \<Rightarrow> False)"

definition count_num :: "nat \<Rightarrow> js_num" where "count_num n = Fin (real n)"

definition new_view :: "nat \<Rightarrow> nat \<Rightarrow> nat \<Rightarrow> view result" where
  "new_view maxRead maxStored maxOpen =
     refuse ''invalid artifact lease budget''
       ((\<exists>n \<in> {maxRead, maxStored, maxOpen}. \<not> is_count (count_num n)) \<or> 2 ^ 30 < maxRead \<or> 65536 < maxOpen)
       (Inr \<lparr>vw_values = [], vw_maxReadBytes = maxRead, vw_maxStoredBytes = maxStored, vw_maxOpenChunks = maxOpen,
         vw_sealed = False\<rparr>)"

definition view_bytes :: "view \<Rightarrow> js_num" where
  "view_bytes v = foldl (\<lambda>n s. num_add n (ar_size (st_reference s))) (Fin 0) (ms_vals (vw_values v))"

definition view_has :: "view \<Rightarrow> artifact \<Rightarrow> bool" where
  "view_has v r \<longleftrightarrow> (case map_of (vw_values v) (ar_digest r) of
     Some s \<Rightarrow> ar_size (st_reference s) = ar_size r | None \<Rightarrow> False)"

definition checkBudget :: "artifact \<Rightarrow> view \<Rightarrow> unit result" where
  "checkBudget r v = and_then (validateArtifact r []) (\<lambda>_.
     refuse ''artifact stored-byte or descriptor budget exceeded''
       (\<not> view_has v r \<and> (num_less (count_num (vw_maxStoredBytes v)) (num_add (view_bytes v) (ar_size r)) \<or>
         vw_maxOpenChunks v \<le> length (vw_values v)))
       (Inr ()))"

definition keep_stored :: "artifact \<Rightarrow> bytes \<Rightarrow> view \<Rightarrow> view" where
  "keep_stored r b v = v\<lparr>vw_values := ms_set (ar_digest r) \<lparr>st_reference = r, st_image = b\<rparr> (vw_values v)\<rparr>"

definition add_image :: "(bytes \<Rightarrow> string) \<Rightarrow> artifact \<Rightarrow> bytes option \<Rightarrow> view \<Rightarrow> (bool \<times> view) result" where
  "add_image H r found v = (case found of
     None \<Rightarrow> Inr (False, v)
   | Some b \<Rightarrow>
       refuse ''artifact integrity check failed: length'' (count_num (length b) \<noteq> ar_size r)
         (refuse (''artifact integrity check failed for '' @ ar_digest r) (H b \<noteq> ar_digest r)
           (Inr (True, keep_stored r b v))))"

definition view_add ::
  "(bytes \<Rightarrow> string) \<Rightarrow> (string \<Rightarrow> bytes option) \<Rightarrow> artifact \<Rightarrow> provision \<Rightarrow> view \<Rightarrow> (bool \<times> view) result" where
  "view_add H cas r source v =
     refuse ''execution lifetime is closed'' (vw_sealed v)
     (and_then (validateArtifact r []) (\<lambda>_.
       refuse ''artifact lease is closed'' (case source of Shared w \<Rightarrow> vw_sealed w | _ \<Rightarrow> False)
       (if ms_has (vw_values v) (ar_digest r)
        then refuse ''conflicting artifact size'' (\<not> view_has v r) (Inr (True, v))
        else and_then (checkBudget r v) (\<lambda>_. case source of
          Shared w \<Rightarrow>
            if view_has w r then Inr (True, v\<lparr>vw_values :=
              ms_set (ar_digest r) (the (map_of (vw_values w) (ar_digest r))) (vw_values v)\<rparr>)
            else add_image H r (cas (ar_digest r)) v
        | Supplied r' b \<Rightarrow> refuse ''artifact transfer identity mismatch'' (r' \<noteq> r) (add_image H r (Some b) v)
        | Unsupplied \<Rightarrow> add_image H r (cas (ar_digest r)) v))))"

fun collect_sizes :: "artifact list \<Rightarrow> size_table \<Rightarrow> size_table result" where
  "collect_sizes [] sizes = Inr sizes"
| "collect_sizes (r # rs) sizes = and_then (validateArtifact r sizes) (collect_sizes rs)"

text \<open>A source of transfers lists artifacts with their bytes; a view shares what it holds.\<close>

datatype transfers = No_transfers | View_transfers view | Listed "(artifact \<times> bytes) list"

fun restore_each ::
  "(bytes \<Rightarrow> string) \<Rightarrow> (string \<Rightarrow> bytes option) \<Rightarrow> transfers \<Rightarrow> size_table \<Rightarrow> view \<Rightarrow> (bool \<times> view) result" where
  "restore_each H cas source [] v = Inr (True, v)"
| "restore_each H cas source ((d, n) # sizes) v = (case source of
     Listed ts \<Rightarrow> (case map_of (rev (map (\<lambda>(r, b). (ar_digest r, (r, b))) ts)) d of
       None \<Rightarrow> Inr (False, v)
     | Some (r, b) \<Rightarrow> and_then (view_add H cas \<lparr>ar_digest = d, ar_size = n\<rparr> (Supplied r b) v) (\<lambda>(ok, v).
         if ok then restore_each H cas source sizes v else Inr (False, v)))
   | View_transfers w \<Rightarrow> and_then (view_add H cas \<lparr>ar_digest = d, ar_size = n\<rparr> (Shared w) v) (\<lambda>(ok, v).
       if ok then restore_each H cas source sizes v else Inr (False, v))
   | No_transfers \<Rightarrow> and_then (view_add H cas \<lparr>ar_digest = d, ar_size = n\<rparr> Unsupplied v) (\<lambda>(ok, v).
       if ok then restore_each H cas source sizes v else Inr (False, v)))"

definition view_restore ::
  "(bytes \<Rightarrow> string) \<Rightarrow> (string \<Rightarrow> bytes option) \<Rightarrow> artifact list \<Rightarrow> transfers \<Rightarrow> view \<Rightarrow> (bool \<times> view) result" where
  "view_restore H cas references source v =
     and_then (collect_sizes references []) (\<lambda>sizes.
       refuse ''duplicate artifact transfer''
         (case source of Listed ts \<Rightarrow> \<not> distinct (map (\<lambda>(r, b). ar_digest r) ts) | _ \<Rightarrow> False)
         (restore_each H cas source sizes v))"

definition view_value :: "artifact \<Rightarrow> view \<Rightarrow> stored result" where
  "view_value r v = (case map_of (vw_values v) (ar_digest r) of
     Some s \<Rightarrow> refuse (''artifact is outside the verified closure: '' @ ar_digest r)
       (ar_size (st_reference s) \<noteq> ar_size r) (Inr s)
   | None \<Rightarrow> Inl (''artifact is outside the verified closure: '' @ ar_digest r))"

definition readRange :: "artifact \<Rightarrow> nat \<Rightarrow> nat \<Rightarrow> view \<Rightarrow> bytes result" where
  "readRange r offset count v =
     refuse ''execution lifetime is closed'' (vw_sealed v)
     (and_then (view_value r v) (\<lambda>s.
       refuse ''artifact read budget exceeded''
         (\<not> is_count (count_num offset) \<or> \<not> is_count (count_num count) \<or>
          num_less (ar_size r) (count_num (offset + count)) \<or> vw_maxReadBytes v < count)
         (Inr (take count (drop offset (st_image s))))))"

subsection \<open>Capturing content\<close>

record 'v capturing =
  cp_chunks :: "artifact option list"
  cp_buffer :: bytes
  cp_size :: nat
  cp_hashed :: bytes
  cp_store :: 'v

type_synonym 'v put_block = "bytes \<Rightarrow> 'v \<Rightarrow> (artifact \<times> 'v) result"

definition flush :: "'v put_block \<Rightarrow> 'v capturing \<Rightarrow> 'v capturing result" where
  "flush put s =
     (if cp_buffer s = replicate (length (cp_buffer s)) 0
      then Inr (s\<lparr>cp_chunks := cp_chunks s @ [None], cp_buffer := []\<rparr>)
      else and_then (put (cp_buffer s) (cp_store s)) (\<lambda>(r, v).
        Inr (s\<lparr>cp_chunks := cp_chunks s @ [Some r], cp_buffer := [], cp_store := v\<rparr>)))"

partial_function (option) copy_loop :: "'v put_block \<Rightarrow> bytes \<Rightarrow> 'v capturing \<Rightarrow> 'v capturing result option" where
  "copy_loop put piece s =
     (if piece = [] then Some (Inr s)
      else let n = min (length piece) (chunk_length - length (cp_buffer s));
               s = s\<lparr>cp_buffer := cp_buffer s @ take n piece\<rparr> in
        if length (cp_buffer s) = chunk_length
        then (case flush put s of Inl e \<Rightarrow> Some (Inl e) | Inr s \<Rightarrow> copy_loop put (drop n piece) s)
        else copy_loop put (drop n piece) s)"

declare copy_loop.simps [code]

definition sink_piece :: "'v put_block \<Rightarrow> nat \<Rightarrow> bytes \<Rightarrow> 'v capturing \<Rightarrow> 'v capturing result option" where
  "sink_piece put maxBytes piece s =
     (if maxBytes < cp_size s + length piece then Some (Inl ''content logical budget exceeded'')
      else copy_loop put piece (s\<lparr>cp_size := cp_size s + length piece, cp_hashed := cp_hashed s @ piece\<rparr>))"

fun sink_all :: "'v put_block \<Rightarrow> nat \<Rightarrow> bytes list \<Rightarrow> 'v capturing \<Rightarrow> 'v capturing result option" where
  "sink_all put maxBytes [] s = Some (Inr s)"
| "sink_all put maxBytes (piece # pieces) s = (case sink_piece put maxBytes piece s of
     Some (Inr s) \<Rightarrow> sink_all put maxBytes pieces s | stopped \<Rightarrow> stopped)"

definition sealed_manifest :: "(bytes \<Rightarrow> string) \<Rightarrow> 'v put_block \<Rightarrow> nat \<Rightarrow> 'v capturing \<Rightarrow> (manifest \<times> 'v) result" where
  "sealed_manifest H put bytesRead s =
     and_then (if cp_buffer s \<noteq> [] then flush put s else Inr s) (\<lambda>s.
       refuse ''content capture size mismatch'' (cp_size s \<noteq> bytesRead)
         (and_then (parseContentManifest
            \<lparr>mf_size = count_num (cp_size s), mf_digest = H (cp_hashed s), mf_chunks = cp_chunks s\<rparr>)
          (\<lambda>m. Inr (m, cp_store s))))"

text \<open>\<open>pieces\<close> and \<open>bytesRead\<close> are what the reader passes to the sink and what it reports to have read.\<close>

definition captureContentBlocks ::
  "(bytes \<Rightarrow> string) \<Rightarrow> 'v put_block \<Rightarrow> nat \<Rightarrow> bytes list \<Rightarrow> nat \<Rightarrow> 'v \<Rightarrow> (manifest \<times> 'v) result option" where
  "captureContentBlocks H put maxBytes pieces bytesRead v =
     (case sink_all put maxBytes pieces
        \<lparr>cp_chunks = [], cp_buffer = [], cp_size = 0, cp_hashed = [], cp_store = v\<rparr> of
        None \<Rightarrow> None
      | Some (Inl e) \<Rightarrow> Some (Inl e)
      | Some (Inr s) \<Rightarrow> Some (sealed_manifest H put bytesRead s))"

subsection \<open>Pools\<close>

record pool =
  pl_view :: view
  pl_maxLogicalBytes :: nat

definition new_pool :: "nat \<Rightarrow> nat \<Rightarrow> nat \<Rightarrow> nat \<Rightarrow> pool result" where
  "new_pool maxLogical maxStored maxOpen maxRead =
     refuse ''invalid content chunk budget'' (\<not> is_count (count_num maxLogical) \<or> 65536 * chunk_length < maxLogical)
       (and_then (new_view maxRead maxStored maxOpen) (\<lambda>v. Inr \<lparr>pl_view = v, pl_maxLogicalBytes = maxLogical\<rparr>))"

definition pool_put :: "(bytes \<Rightarrow> string) \<Rightarrow> (string \<Rightarrow> bytes option) \<Rightarrow> view put_block" where
  "pool_put H cas b v =
     (let r = \<lparr>ar_digest = H b, ar_size = count_num (length b)\<rparr> in
      and_then (view_add H cas r (Supplied r b) v) (\<lambda>(_, v). Inr (r, v)))"

definition pool_capture ::
  "(bytes \<Rightarrow> string) \<Rightarrow> (string \<Rightarrow> bytes option) \<Rightarrow> bytes list \<Rightarrow> nat \<Rightarrow> pool \<Rightarrow> (manifest \<times> pool) result option" where
  "pool_capture H cas pieces bytesRead p =
     (if vw_sealed (pl_view p) then Some (Inl ''execution lifetime is closed'')
      else map_option (\<lambda>r. and_then r (\<lambda>(m, v). Inr (m, p\<lparr>pl_view := v\<rparr>)))
        (captureContentBlocks H (pool_put H cas) (pl_maxLogicalBytes p) pieces bytesRead (pl_view p)))"

definition size_nat :: "js_num \<Rightarrow> nat" where
  "size_nat n = (case n of Fin s \<Rightarrow> nat \<lfloor>s\<rfloor> | _ \<Rightarrow> 0)"

definition pool_block :: "manifest \<Rightarrow> pool \<Rightarrow> nat \<Rightarrow> bytes result" where
  "pool_block m p index =
     (let n = min chunk_length (size_nat (mf_size m) - index * chunk_length) in
      case (if index < length (mf_chunks m) then mf_chunks m ! index else None) of
        None \<Rightarrow> Inr (replicate n 0)
      | Some r \<Rightarrow> readRange r 0 n (pl_view p))"

definition pool_read :: "manifest \<Rightarrow> nat option \<Rightarrow> nat \<Rightarrow> pool \<Rightarrow> bytes result option" where
  "pool_read m maxBytes offset p =
     (let n = min (size_nat (mf_size m) - offset) (case maxBytes of Some n \<Rightarrow> n | None \<Rightarrow> size_nat (mf_size m)) in
      if vw_sealed (pl_view p) then Some (Inl ''execution lifetime is closed'')
      else if \<not> is_count (count_num offset) \<or> (case maxBytes of Some n \<Rightarrow> \<not> is_count (count_num n) | None \<Rightarrow> False)
      then Some (Inl ''invalid content read budget'')
      else if vw_maxReadBytes (pl_view p) < n
      then Some (Inl ''content read budget exceeded; request a bounded prefix'')
      else readChunkRange offset n (pool_block m p))"

fun all_blocks :: "(nat \<Rightarrow> bytes result) \<Rightarrow> nat list \<Rightarrow> bytes result" where
  "all_blocks block [] = Inr []"
| "all_blocks block (i # is) = and_then (block i) (\<lambda>b. and_then (all_blocks block is) (\<lambda>bs. Inr (b @ bs)))"

text \<open>\<open>verified\<close> says whether this manifest was already checked against its whole digest.\<close>

definition pool_restore ::
  "(bytes \<Rightarrow> string) \<Rightarrow> (string \<Rightarrow> bytes option) \<Rightarrow> bool \<Rightarrow> manifest \<Rightarrow> transfers \<Rightarrow> pool \<Rightarrow> (manifest \<times> pool) result" where
  "pool_restore H cas verified raw source p =
     refuse ''execution lifetime is closed'' (vw_sealed (pl_view p))
     (and_then (if verified then Inr raw else parseContentManifest raw) (\<lambda>m.
       refuse ''content lease is closed'' (case source of View_transfers w \<Rightarrow> vw_sealed w | _ \<Rightarrow> False)
       (refuse ''content logical budget exceeded'' (num_less (count_num (pl_maxLogicalBytes p)) (mf_size m))
       (and_then (view_restore H cas (List.map_filter id (mf_chunks m)) source (pl_view p)) (\<lambda>(ok, v).
         refuse ''content transfer is unavailable'' (\<not> ok)
         (if verified then Inr (m, p\<lparr>pl_view := v\<rparr>)
          else and_then (all_blocks (pool_block m (p\<lparr>pl_view := v\<rparr>)) [0..<length (mf_chunks m)]) (\<lambda>b.
            refuse ''content manifest integrity check failed'' (H b \<noteq> mf_digest m)
              (Inr (m, p\<lparr>pl_view := v\<rparr>)))))))))"

subsection \<open>Content versions\<close>

datatype content = Plain bytes | Chunked pool manifest

fun byte_length :: "content \<Rightarrow> nat" where
  "byte_length (Plain b) = length b"
| "byte_length (Chunked p m) = size_nat (mf_size m)"

fun contentDigest :: "(bytes \<Rightarrow> string) \<Rightarrow> content \<Rightarrow> string" where
  "contentDigest H (Plain b) = H b"
| "contentDigest H (Chunked p m) = mf_digest m"

definition sameContent :: "(bytes \<Rightarrow> string) \<Rightarrow> content option \<Rightarrow> content option \<Rightarrow> bool" where
  "sameContent H l r = (case (l, r) of
     (Some a, Some b) \<Rightarrow> byte_length a = byte_length b \<and> contentDigest H a = contentDigest H b
   | (None, None) \<Rightarrow> True | _ \<Rightarrow> False)"

fun contentMemory :: "content option \<Rightarrow> nat" where
  "contentMemory (Some (Chunked p m)) = 96 + length (mf_chunks m) * 112"
| "contentMemory (Some (Plain b)) = length b"
| "contentMemory None = 0"

fun readContent :: "content \<Rightarrow> nat \<Rightarrow> nat \<Rightarrow> bytes result option" where
  "readContent (Chunked p m) offset n = pool_read m (Some n) offset p"
| "readContent (Plain b) offset n = Some (Inr (take n (drop offset b)))"

fun manifest_of :: "content \<Rightarrow> manifest option" where
  "manifest_of (Chunked p m) = Some m"
| "manifest_of (Plain b) = None"

text \<open>A file is its bytes; writing past the end fills the gap with zeros.\<close>

definition truncate_file :: "nat \<Rightarrow> bytes \<Rightarrow> bytes" where
  "truncate_file n f = take n f @ replicate (n - length f) 0"

definition write_file :: "bytes \<Rightarrow> nat \<Rightarrow> bytes \<Rightarrow> bytes" where
  "write_file b offset f = (if b = [] then f
     else truncate_file offset f @ b @ drop (offset + length b) f)"

definition chunk_at :: "manifest \<Rightarrow> nat \<Rightarrow> artifact option" where
  "chunk_at m i = (if i < length (mf_chunks m) then mf_chunks m ! i else None)"

definition skips_block :: "content option \<Rightarrow> content \<Rightarrow> nat \<Rightarrow> nat \<Rightarrow> bool" where
  "skips_block before after offset n = (case manifest_of after of None \<Rightarrow> False | Some new \<Rightarrow>
     let index = offset div chunk_length in
     (case Option.bind before manifest_of of Some old \<Rightarrow>
        offset + n \<le> size_nat (mf_size old) \<and>
        map_option ar_digest (chunk_at new index) = map_option ar_digest (chunk_at old index)
      | None \<Rightarrow> False) \<or>
     (case before of None \<Rightarrow> chunk_at new index = None
      | Some b \<Rightarrow> byte_length b \<le> offset \<and> chunk_at new index = None))"

text \<open>
  \<open>accepted\<close> lists how many bytes each call of \<open>handle.write\<close> takes: none is an error, and calls beyond the list
  take everything that is left.
\<close>

fun write_loop :: "nat list \<Rightarrow> bytes \<Rightarrow> nat \<Rightarrow> bytes \<Rightarrow> (bytes \<times> nat list) result" where
  "write_loop [] b offset f = Inr (write_file b offset f, [])"
| "write_loop (k # ks) b offset f =
     (if b = [] then Inr (f, k # ks)
      else if k = 0 then Inl ''content write made no progress''
      else write_loop ks (drop k b) (offset + min k (length b)) (write_file (take k b) offset f))"

fun write_blocks ::
  "content option \<Rightarrow> content \<Rightarrow> nat list \<Rightarrow> nat list \<Rightarrow> bool \<Rightarrow> bytes \<Rightarrow> (bool \<times> bytes) result option" where
  "write_blocks before after [] accepted written f = Some (Inr (written, f))"
| "write_blocks before after (offset # offsets) accepted written f =
     (let n = min chunk_length (byte_length after - offset) in
      if skips_block before after offset n then write_blocks before after offsets accepted written f
      else case readContent after offset n of
        None \<Rightarrow> None
      | Some (Inl e) \<Rightarrow> Some (Inl e)
      | Some (Inr b) \<Rightarrow> (case write_loop accepted b offset f of
          Inl e \<Rightarrow> Some (Inl e)
        | Inr (f, accepted) \<Rightarrow> write_blocks before after offsets accepted True f))"

definition block_offsets :: "nat \<Rightarrow> nat list" where
  "block_offsets n = map (\<lambda>i. i * chunk_length) [0..<(n + chunk_length - 1) div chunk_length]"

definition writeContent :: "content \<Rightarrow> content option \<Rightarrow> nat list \<Rightarrow> bytes \<Rightarrow> bytes result option" where
  "writeContent after before accepted f =
     (let grows = (case before of None \<Rightarrow> True | Some b \<Rightarrow> byte_length b < byte_length after);
          f = (if grows then truncate_file (byte_length after) f else f) in
      case write_blocks before after (block_offsets (byte_length after)) accepted grows f of
        None \<Rightarrow> None
      | Some (Inl e) \<Rightarrow> Some (Inl e)
      | Some (Inr (written, f)) \<Rightarrow> Some (Inr
          (if \<not> written \<or> (case before of Some b \<Rightarrow> byte_length after < byte_length b | None \<Rightarrow> False)
           then truncate_file (byte_length after) f else f)))"

subsection \<open>Ranges of served content\<close>

definition block_of :: "bytes \<Rightarrow> nat \<Rightarrow> bytes" where
  "block_of c i = take chunk_length (drop (i * chunk_length) c)"

lemma chunk_length_pos [simp]: "0 < chunk_length" "chunk_length \<noteq> 0"
  by (simp_all add: chunk_length_def)

lemma length_block_of: "length (block_of c i) = min chunk_length (length c - i * chunk_length)"
  by (simp add: block_of_def)

lemma block_of_append: "(i + 1) * chunk_length \<le> length c \<Longrightarrow> block_of (c @ d) i = block_of c i"
  by (simp add: block_of_def)

definition serves :: "(nat \<Rightarrow> bytes result) \<Rightarrow> bytes \<Rightarrow> bool" where
  "serves block c \<longleftrightarrow> (\<forall>i. i * chunk_length < length c \<longrightarrow> block i = Inr (block_of c i))"

lemma range_loop_serves:
  assumes "serves block c" and "offset + n \<le> length c"
  shows "length filled \<le> n \<Longrightarrow> filled = take (length filled) (drop offset c) \<Longrightarrow>
    range_loop block offset n filled = Some (Inr (take n (drop offset c)))"
proof (induction "n - length filled" arbitrary: filled rule: less_induct)
  case less
  show ?case
  proof (cases "n \<le> length filled")
    case True
    then show ?thesis using less.prems by (subst range_loop.simps) simp
  next
    case False
    define pos where "pos = offset + length filled"
    define i where "i = pos div chunk_length"
    define skip where "skip = pos mod chunk_length"
    have pos: "pos = i * chunk_length + skip" "skip < chunk_length" by (simp_all add: i_def skip_def)
    have inside: "pos < length c" using False assms(2) by (simp add: pos_def)
    then have b: "block i = Inr (block_of c i)" using assms(1) pos by (simp add: serves_def)
    have rest: "drop skip (block_of c i) = take (chunk_length - skip) (drop pos c)"
      by (simp add: block_of_def drop_take pos(1) add.commute)
    have skip: "skip < length (block_of c i)" using inside pos by (simp add: length_block_of)
    define piece where "piece = take (min (n - length filled) (length (block_of c i) - skip)) (drop skip (block_of c i))"
    have piece: "0 < length piece" "length piece \<le> n - length filled"
      using False skip by (simp_all add: piece_def)
    have "piece = take (length piece) (drop pos c)"
    proof -
      have "piece = take (min (n - length filled) (length (block_of c i) - skip)) (take (chunk_length - skip) (drop pos c))"
        by (simp add: piece_def rest)
      then show ?thesis by (metis append_take_drop_id append_eq_conv_conj take_take)
    qed
    moreover have "drop pos c = drop (length filled) (drop offset c)" by (simp add: pos_def add.commute)
    ultimately have whole: "filled @ piece = take (length (filled @ piece)) (drop offset c)"
      using less.prems(2) by (metis take_add length_append)
    have "n - length (filled @ piece) < n - length filled" "length (filled @ piece) \<le> n"
      unfolding length_append using piece False by linarith+
    from less.hyps [OF this whole]
    have "range_loop block offset n (filled @ piece) = Some (Inr (take n (drop offset c)))" .
    then show ?thesis
      using False skip b by (subst range_loop.simps) (simp add: Let_def pos_def [symmetric] i_def [symmetric] skip_def [symmetric] piece_def [symmetric])
  qed
qed

lemma readChunkRange_serves:
  "serves block c \<Longrightarrow> offset + n \<le> length c \<Longrightarrow> readChunkRange offset n block = Some (Inr (take n (drop offset c)))"
  unfolding readChunkRange_def by (rule range_loop_serves) auto

subsection \<open>Capturing into a store\<close>

text \<open>What the chunker needs of the store it puts its blocks into: a block that was put can be loaded, up to the hash.\<close>

definition block_in :: "(bytes \<Rightarrow> string) \<Rightarrow> (artifact \<Rightarrow> 'v \<Rightarrow> bytes option) \<Rightarrow> artifact \<Rightarrow> bytes \<Rightarrow> 'v \<Rightarrow> bool" where
  "block_in H load r b v \<longleftrightarrow> ar_digest r = H b \<and> ar_size r = count_num (length b) \<and>
     (\<exists>b'. load r v = Some b' \<and> H b' = H b \<and> length b' = length b)"

locale block_store =
  fixes H :: "bytes \<Rightarrow> string"
    and put :: "bytes \<Rightarrow> 'v \<Rightarrow> (artifact \<times> 'v) result"
    and load :: "artifact \<Rightarrow> 'v \<Rightarrow> bytes option"
    and good :: "'v \<Rightarrow> bool"
  assumes put_good: "good v \<Longrightarrow> put b v = Inr (r, v') \<Longrightarrow> good v'"
    and put_loads: "good v \<Longrightarrow> put b v = Inr (r, v') \<Longrightarrow> block_in H load r b v'"
    and put_keeps: "good v \<Longrightarrow> put b v = Inr (r, v') \<Longrightarrow> load r0 v = Some b0 \<Longrightarrow> load r0 v' = Some b0"

definition chunk_matches :: "(bytes \<Rightarrow> string) \<Rightarrow> (artifact \<Rightarrow> 'v \<Rightarrow> bytes option) \<Rightarrow> 'v \<Rightarrow> bytes \<Rightarrow> artifact option \<Rightarrow> bool" where
  "chunk_matches H load v b slot = (case slot of
     None \<Rightarrow> b = replicate (length b) 0 | Some r \<Rightarrow> block_in H load r b v)"

definition copied :: "(bytes \<Rightarrow> string) \<Rightarrow> (artifact \<Rightarrow> 'v \<Rightarrow> bytes option) \<Rightarrow> 'v capturing \<Rightarrow> bytes \<Rightarrow> bool" where
  "copied H load s c \<longleftrightarrow> length (cp_chunks s) * chunk_length + length (cp_buffer s) = length c \<and>
     cp_buffer s = drop (length (cp_chunks s) * chunk_length) c \<and>
     (\<forall>i < length (cp_chunks s). chunk_matches H load (cp_store s) (block_of c i) (cp_chunks s ! i))"

definition reader_state :: "'v capturing \<Rightarrow> nat \<times> bytes" where
  "reader_state s = (cp_size s, cp_hashed s)"

lemma round_up:
  assumes "r < chunk_length"
  shows "(q * chunk_length + r + chunk_length - 1) div chunk_length = q + (if r = 0 then 0 else 1)"
proof (cases "r = 0")
  case True
  have "(q * chunk_length + chunk_length - 1) div chunk_length = q + (chunk_length - 1) div chunk_length"
    by (metis Nat.add_diff_assoc One_nat_def Suc_leI chunk_length_pos div_mult_self3 mult.commute)
  then show ?thesis using True by simp
next
  case False
  then have "q * chunk_length + r + chunk_length - 1 = (q + 1) * chunk_length + (r - 1)" by simp
  moreover have "((q + 1) * chunk_length + (r - 1)) div chunk_length = q + 1"
    using assms by (intro div_nat_eqI) auto
  ultimately show ?thesis using False by metis
qed

lemma parse_chunks_same: "parse_chunks n i rs sizes = Inr cs \<Longrightarrow> cs = rs"
  by (induction n i rs sizes arbitrary: cs rule: parse_chunks.induct) auto

lemma parse_same: "parseContentManifest m = Inr m' \<Longrightarrow> m' = m \<and> is_count (mf_size m)"
  by (auto simp: parseContentManifest_def dest: parse_chunks_same)

context block_store
begin

lemma chunk_matches_keeps:
  assumes "good v" "put b v = Inr (r, v')" "chunk_matches H load v c slot"
  shows "chunk_matches H load v' c slot"
  using assms put_keeps [OF assms(1,2)] by (fastforce simp: chunk_matches_def block_in_def split: option.splits)

lemma flush_chunk:
  assumes "good (cp_store s)" and "flush put s = Inr s'"
  shows "good (cp_store s') \<and> cp_buffer s' = [] \<and> reader_state s' = reader_state s \<and>
    (\<exists>slot. cp_chunks s' = cp_chunks s @ [slot] \<and> chunk_matches H load (cp_store s') (cp_buffer s) slot) \<and>
    (\<forall>b slot. chunk_matches H load (cp_store s) b slot \<longrightarrow> chunk_matches H load (cp_store s') b slot)"
proof (cases "cp_buffer s = replicate (length (cp_buffer s)) 0")
  case True
  then have "s' = s\<lparr>cp_chunks := cp_chunks s @ [None], cp_buffer := []\<rparr>" using assms(2) by (simp add: flush_def)
  then show ?thesis using assms(1) True by (simp add: chunk_matches_def reader_state_def)
next
  case False
  then obtain r v where p: "put (cp_buffer s) (cp_store s) = Inr (r, v)"
    and s': "s' = s\<lparr>cp_chunks := cp_chunks s @ [Some r], cp_buffer := [], cp_store := v\<rparr>"
    using assms(2) by (auto simp: flush_def)
  show ?thesis
    using put_good [OF assms(1) p] put_loads [OF assms(1) p] chunk_matches_keeps [OF assms(1) p]
    by (simp add: s' chunk_matches_def [where slot = "Some r"] reader_state_def)
qed

lemma flush_copied:
  assumes "good (cp_store s)" and "copied H load s c" and "flush put s = Inr s'" and "length (cp_buffer s) \<le> chunk_length"
  shows "good (cp_store s') \<and> cp_buffer s' = [] \<and> reader_state s' = reader_state s \<and>
    length (cp_chunks s') = length (cp_chunks s) + 1 \<and>
    (\<forall>i < length (cp_chunks s'). chunk_matches H load (cp_store s') (block_of c i) (cp_chunks s' ! i))"
proof -
  note c = assms(2) [unfolded copied_def]
  have "block_of c (length (cp_chunks s)) = cp_buffer s" using c assms(4) by (simp add: block_of_def)
  then show ?thesis using flush_chunk [OF assms(1,3)] c by (auto simp: nth_append less_Suc_eq)
qed

lemma copy_loop_copied:
  "good (cp_store s) \<Longrightarrow> copied H load s c \<Longrightarrow> length (cp_buffer s) < chunk_length \<Longrightarrow>
    \<exists>res. copy_loop put piece s = Some res \<and> (\<forall>s'. res = Inr s' \<longrightarrow> good (cp_store s') \<and>
      copied H load s' (c @ piece) \<and> length (cp_buffer s') < chunk_length \<and> reader_state s' = reader_state s)"
proof (induction "length piece" arbitrary: piece s c rule: less_induct)
  case less
  show ?case
  proof (cases "piece = []")
    case True
    then show ?thesis using less.prems by (subst copy_loop.simps) simp
  next
    case False
    define n where "n = min (length piece) (chunk_length - length (cp_buffer s))"
    define t where "t = s\<lparr>cp_buffer := cp_buffer s @ take n piece\<rparr>"
    have n: "0 < n" "length (drop n piece) < length piece" using False less.prems(3) by (auto simp: n_def)
    note c = less.prems(2) [unfolded copied_def]
    have sl: "i < length (cp_chunks s) \<Longrightarrow> block_of (c @ take n piece) i = block_of c i" for i
      using c mult_le_mono1 [of "i + 1" "length (cp_chunks s)" chunk_length] by (intro block_of_append) linarith
    have t: "good (cp_store t)" "copied H load t (c @ take n piece)" "reader_state t = reader_state s"
      "length (cp_buffer t) \<le> chunk_length"
      using less.prems c sl by (auto simp: t_def copied_def reader_state_def n_def)
    have step: "copy_loop put piece s = (if length (cp_buffer t) = chunk_length
        then (case flush put t of Inl e \<Rightarrow> Some (Inl e) | Inr s \<Rightarrow> copy_loop put (drop n piece) s)
        else copy_loop put (drop n piece) t)"
      using False by (subst copy_loop.simps) (simp only: Let_def n_def t_def if_False)
    show ?thesis
    proof (cases "length (cp_buffer t) = chunk_length")
      case full: True
      show ?thesis
      proof (cases "flush put t")
        case (Inl e)
        then show ?thesis using full by (simp add: step)
      next
        case (Inr u)
        note f = flush_copied [OF t(1,2) Inr t(4)]
        have "copied H load u (c @ take n piece)" "length (cp_buffer u) < chunk_length"
          using f t(2) full by (simp_all add: copied_def)
        from less.hyps [OF n(2) _ this] f
        show ?thesis using full Inr t(3) by (simp add: step)
      qed
    next
      case part: False
      then have "length (cp_buffer t) < chunk_length" using t(4) by simp
      from less.hyps [OF n(2) t(1,2) this] show ?thesis using part t(3) by (simp add: step)
    qed
  qed
qed

lemma sink_all_copied:
  "good (cp_store s) \<Longrightarrow> copied H load s (cp_hashed s) \<Longrightarrow> length (cp_buffer s) < chunk_length \<Longrightarrow>
    cp_size s = length (cp_hashed s) \<Longrightarrow> \<exists>res. sink_all put maxBytes pieces s = Some res \<and>
      (\<forall>s'. res = Inr s' \<longrightarrow> good (cp_store s') \<and> copied H load s' (cp_hashed s @ concat pieces) \<and>
        length (cp_buffer s') < chunk_length \<and>
        reader_state s' = (length (cp_hashed s @ concat pieces), cp_hashed s @ concat pieces))"
proof (induction pieces arbitrary: s)
  case Nil
  then show ?case by (simp add: reader_state_def)
next
  case (Cons piece pieces)
  let ?t = "s\<lparr>cp_size := cp_size s + length piece, cp_hashed := cp_hashed s @ piece\<rparr>"
  show ?case
  proof (cases "maxBytes < cp_size s + length piece")
    case True
    then show ?thesis by (simp add: sink_piece_def)
  next
    case False
    have "good (cp_store ?t)" "copied H load ?t (cp_hashed s)" "length (cp_buffer ?t) < chunk_length"
      using Cons.prems by (simp_all add: copied_def)
    from copy_loop_copied [OF this, of piece]
    obtain res where res: "sink_piece put maxBytes piece s = Some res"
      and ok: "\<And>u. res = Inr u \<Longrightarrow> good (cp_store u) \<and> copied H load u (cp_hashed s @ piece) \<and>
        length (cp_buffer u) < chunk_length \<and> reader_state u = reader_state ?t"
      using False by (auto simp: sink_piece_def)
    show ?thesis
    proof (cases res)
      case (Inl e)
      then show ?thesis by (simp add: res)
    next
      case (Inr u)
      have u: "cp_hashed u = cp_hashed s @ piece" "cp_size u = length (cp_hashed u)"
        using ok [OF Inr] Cons.prems(4) by (simp_all add: reader_state_def)
      from Cons.IH [of u] ok [OF Inr] u show ?thesis by (simp add: res Inr)
    qed
  qed
qed

lemma sealed_chunks:
  assumes "good (cp_store s)" and "copied H load s c" and "length (cp_buffer s) < chunk_length"
    and "(if cp_buffer s \<noteq> [] then flush put s else Inr s) = Inr s'"
  shows "good (cp_store s') \<and> reader_state s' = reader_state s \<and>
    length (cp_chunks s') = (length c + chunk_length - 1) div chunk_length \<and>
    (\<forall>i < length (cp_chunks s'). chunk_matches H load (cp_store s') (block_of c i) (cp_chunks s' ! i))"
proof -
  have n: "length c = length (cp_chunks s) * chunk_length + length (cp_buffer s)" using assms(2) by (simp add: copied_def)
  note up = round_up [OF assms(3), of "length (cp_chunks s)"]
  show ?thesis
  proof (cases "cp_buffer s = []")
    case True
    then show ?thesis using assms n up by (simp add: copied_def)
  next
    case False
    then show ?thesis using flush_copied [OF assms(1,2)] assms(3,4) up by (simp add: n)
  qed
qed

lemma capture_result:
  assumes "good v"
  shows "\<exists>res. captureContentBlocks H put maxBytes pieces bytesRead v = Some res \<and>
    (\<forall>m v'. res = Inr (m, v') \<longrightarrow> good v' \<and> mf_size m = count_num (length (concat pieces)) \<and>
      mf_digest m = H (concat pieces) \<and> is_count (mf_size m) \<and>
      length (mf_chunks m) = (length (concat pieces) + chunk_length - 1) div chunk_length \<and>
      (\<forall>i < length (mf_chunks m). chunk_matches H load v' (block_of (concat pieces) i) (mf_chunks m ! i)))"
proof -
  let ?c = "concat pieces"
  let ?s = "\<lparr>cp_chunks = [], cp_buffer = [], cp_size = 0, cp_hashed = [], cp_store = v\<rparr>"
  have "copied H load ?s (cp_hashed ?s)" by (simp add: copied_def)
  with sink_all_copied [of ?s maxBytes pieces] assms obtain res
    where res: "sink_all put maxBytes pieces ?s = Some res"
      and ok: "\<And>s. res = Inr s \<Longrightarrow> good (cp_store s) \<and> copied H load s ?c \<and> length (cp_buffer s) < chunk_length \<and>
        reader_state s = (length ?c, ?c)"
    by auto
  show ?thesis
  proof (cases res)
    case (Inl e)
    then show ?thesis by (simp add: captureContentBlocks_def res)
  next
    case (Inr s)
    have "good v' \<and> mf_size m = count_num (length ?c) \<and> mf_digest m = H ?c \<and> is_count (mf_size m) \<and>
        length (mf_chunks m) = (length ?c + chunk_length - 1) div chunk_length \<and>
        (\<forall>i < length (mf_chunks m). chunk_matches H load v' (block_of ?c i) (mf_chunks m ! i))"
      if r: "sealed_manifest H put bytesRead s = Inr (m, v')" for m v'
    proof -
      obtain t where t: "(if cp_buffer s \<noteq> [] then flush put s else Inr s) = Inr t"
        and m: "parseContentManifest \<lparr>mf_size = count_num (cp_size t), mf_digest = H (cp_hashed t), mf_chunks = cp_chunks t\<rparr> = Inr m"
        and v': "v' = cp_store t"
        using r unfolding sealed_manifest_def by auto
      have facts: "good (cp_store t) \<and> reader_state t = reader_state s \<and>
          length (cp_chunks t) = (length ?c + chunk_length - 1) div chunk_length \<and>
          (\<forall>i < length (cp_chunks t). chunk_matches H load (cp_store t) (block_of ?c i) (cp_chunks t ! i))"
        by (rule sealed_chunks) (use ok [OF Inr] t in auto)
      then have "cp_size t = length ?c" "cp_hashed t = ?c" using ok [OF Inr] by (simp_all add: reader_state_def)
      then show ?thesis using facts parse_same [OF m] v' by simp
    qed
    moreover have "captureContentBlocks H put maxBytes pieces bytesRead v = Some (sealed_manifest H put bytesRead s)"
      by (simp add: captureContentBlocks_def res Inr)
    ultimately show ?thesis by blast
  qed
qed

end

subsection \<open>Pools are block stores\<close>

definition view_load :: "artifact \<Rightarrow> view \<Rightarrow> bytes option" where
  "view_load r v = (case map_of (vw_values v) (ar_digest r) of
     Some s \<Rightarrow> if ar_size (st_reference s) = ar_size r then Some (st_image s) else None | None \<Rightarrow> None)"

definition view_verified :: "(bytes \<Rightarrow> string) \<Rightarrow> view \<Rightarrow> bool" where
  "view_verified H v \<longleftrightarrow> (\<forall>d s. map_of (vw_values v) d = Some s \<longrightarrow> H (st_image s) = d \<and>
     ar_digest (st_reference s) = d \<and> ar_size (st_reference s) = count_num (length (st_image s)))"

definition open_view :: "(bytes \<Rightarrow> string) \<Rightarrow> nat \<Rightarrow> view \<Rightarrow> bool" where
  "open_view H n v \<longleftrightarrow> view_verified H v \<and> \<not> vw_sealed v \<and> vw_maxReadBytes v = n"

lemma count_num_inject [simp]: "count_num m = count_num n \<longleftrightarrow> m = n"
  by (simp add: count_num_def)

lemma pool_put_cases:
  assumes "pool_put H cas b v = Inr (r, v')"
  shows "r = \<lparr>ar_digest = H b, ar_size = count_num (length b)\<rparr> \<and>
    (v' = v \<and> view_has v r \<or> map_of (vw_values v) (H b) = None \<and> v' = keep_stored r b v)"
  using assms
  by (auto simp: pool_put_def view_add_def Let_def add_image_def ms_has_iff split: if_splits)

interpretation pool_blocks: block_store H "pool_put H cas" view_load "open_view H n" for H cas n
proof
  fix v b r v'
  assume v: "open_view H n v" and p: "pool_put H cas b v = Inr (r, v')"
  note c = pool_put_cases [OF p]
  show "open_view H n v'"
    using v c by (auto simp: open_view_def view_verified_def keep_stored_def split: if_splits)
  show "block_in H view_load r b v'"
    using c
  proof (elim conjE disjE)
    assume r: "r = \<lparr>ar_digest = H b, ar_size = count_num (length b)\<rparr>" "v' = v" "view_has v r"
    then show ?thesis using v
      by (auto simp: block_in_def view_load_def view_has_def open_view_def view_verified_def split: option.splits)
  qed (simp add: block_in_def view_load_def keep_stored_def)
  show "view_load r0 v' = Some b0" if "view_load r0 v = Some b0" for r0 b0
    using that c by (auto simp: view_load_def keep_stored_def split: option.splits if_splits)
qed

subsection \<open>Reading back\<close>

fun holds :: "(bytes \<Rightarrow> string) \<Rightarrow> content \<Rightarrow> bytes \<Rightarrow> bool" where
  "holds H (Plain b) c = (b = c)"
| "holds H (Chunked p m) c = (open_view H (vw_maxReadBytes (pl_view p)) (pl_view p) \<and> chunk_length \<le> vw_maxReadBytes (pl_view p) \<and>
     mf_size m = count_num (length c) \<and> is_count (count_num (length c)) \<and>
     length (mf_chunks m) = (length c + chunk_length - 1) div chunk_length \<and>
     (\<forall>i < length (mf_chunks m). chunk_matches H view_load (pl_view p) (block_of c i) (mf_chunks m ! i)))"

definition blocks_of :: "bytes \<Rightarrow> bytes set" where
  "blocks_of c = range (block_of c)"

fun images_of :: "content \<Rightarrow> bytes set" where
  "images_of (Plain b) = {}"
| "images_of (Chunked p m) = st_image ` ran (map_of (vw_values (pl_view p)))"

text \<open>No two of the blocks involved have the same digest.\<close>

definition collision_free :: "(bytes \<Rightarrow> string) \<Rightarrow> content \<Rightarrow> bytes \<Rightarrow> bool" where
  "collision_free H x c \<longleftrightarrow> inj_on H (blocks_of c \<union> images_of x)"

lemma is_count_nat: "is_count (count_num k) \<longleftrightarrow> int k \<le> max_safe"
proof -
  have "\<bar>\<lfloor>real k\<rfloor>\<bar> = int k" by simp
  then show ?thesis by (auto simp: is_count_def count_num_def isSafeCount_def isSafeInteger_def)
qed

lemma size_nat_count [simp]: "size_nat (count_num k) = k"
  by (simp add: size_nat_def count_num_def)

lemma num_less_nat: "num_less (count_num j) (count_num k) \<longleftrightarrow> j < k"
  by (simp add: num_less_def count_num_def)

lemma block_loaded:
  assumes "chunk_matches H view_load (pl_view p) b (Some r)" and "inj_on H S" "b \<in> S" "images_of (Chunked p m) \<subseteq> S"
  shows "view_load r (pl_view p) = Some b"
proof -
  obtain b' where b': "view_load r (pl_view p) = Some b'" "H b' = H b"
    using assms(1) by (auto simp: chunk_matches_def block_in_def)
  then obtain s where s: "map_of (vw_values (pl_view p)) (ar_digest r) = Some s" "b' = st_image s"
    by (auto simp: view_load_def split: option.splits if_splits)
  have "s \<in> ran (map_of (vw_values (pl_view p)))" by (rule ranI) (rule s(1))
  then have "b' \<in> S" using assms(4) s(2) by auto
  with b' assms(2,3) show ?thesis by (auto dest: inj_onD)
qed

lemma block_index: "i * chunk_length < k \<Longrightarrow> i < (k + chunk_length - 1) div chunk_length"
proof -
  assume "i * chunk_length < k"
  then have "(i + 1) * chunk_length \<le> k + chunk_length - 1" by (simp add: algebra_simps)
  then have "i + 1 \<le> (k + chunk_length - 1) div chunk_length" by (simp add: less_eq_div_iff_mult_less_eq)
  then show ?thesis by simp
qed

lemma pool_serves:
  assumes h: "holds H (Chunked p m) c" and cf: "collision_free H (Chunked p m) c"
  shows "serves (pool_block m p) c"
  unfolding serves_def
proof (intro allI impI)
  fix i assume i: "i * chunk_length < length c"
  let ?n = "min chunk_length (length c - i * chunk_length)"
  have inside: "i < length (mf_chunks m)" using block_index [OF i] h by simp
  have match: "chunk_matches H view_load (pl_view p) (block_of c i) (mf_chunks m ! i)" using h inside by simp
  have size: "size_nat (mf_size m) = length c" using h by simp
  have n: "length (block_of c i) = ?n" by (rule length_block_of)
  show "pool_block m p i = Inr (block_of c i)"
  proof (cases "mf_chunks m ! i")
    case None
    then show ?thesis using match inside n size by (simp add: pool_block_def chunk_matches_def Let_def)
  next
    case (Some r)
    have load: "view_load r (pl_view p) = Some (block_of c i)"
      using match cf unfolding Some collision_free_def
      by (rule block_loaded) (auto simp: blocks_of_def)
    then obtain s where s: "map_of (vw_values (pl_view p)) (ar_digest r) = Some s" "st_image s = block_of c i"
      "ar_size (st_reference s) = ar_size r"
      by (auto simp: view_load_def split: option.splits if_splits)
    have r: "ar_size r = count_num ?n" using match n unfolding Some by (simp add: chunk_matches_def block_in_def)
    have cnt: "is_count (count_num ?n)" "is_count (count_num 0)" by (simp_all add: is_count_nat max_safe_def chunk_length_def)
    have "\<not> vw_sealed (pl_view p)" "\<not> vw_maxReadBytes (pl_view p) < ?n" using h by (auto simp: open_view_def)
    then have "readRange r 0 ?n (pl_view p) = Inr (block_of c i)"
      using s r cnt n by (simp add: readRange_def view_value_def refuse_def num_less_nat)
    then show ?thesis using inside size Some by (simp add: pool_block_def Let_def)
  qed
qed

lemma pool_read_holds:
  assumes h: "holds H (Chunked p m) c" and cf: "collision_free H (Chunked p m) c"
    and n: "n \<le> vw_maxReadBytes (pl_view p)" "offset + n \<le> length c"
  shows "pool_read m (Some n) offset p = Some (Inr (take n (drop offset c)))"
proof -
  have "int (length c) \<le> max_safe" using h by (simp add: is_count_nat)
  then have "is_count (count_num offset)" "is_count (count_num n)" using n(2) by (simp_all add: is_count_nat)
  moreover have "size_nat (mf_size m) = length c" "\<not> vw_sealed (pl_view p)" using h by (simp_all add: open_view_def)
  moreover have "min (length c - offset) n = n" using n(2) by simp
  ultimately show ?thesis
    using readChunkRange_serves [OF pool_serves [OF h cf] n(2)] n(1) by (simp add: pool_read_def Let_def)
qed

lemma readContent_holds:
  assumes "holds H x c" "collision_free H x c" "n \<le> chunk_length" "offset + n \<le> length c"
  shows "readContent x offset n = Some (Inr (take n (drop offset c)))"
proof (cases x)
  case (Chunked p m)
  have "n \<le> vw_maxReadBytes (pl_view p)" using assms(1,3) by (simp add: Chunked)
  moreover note h = assms(1,2) [unfolded Chunked]
  ultimately show ?thesis using pool_read_holds [OF h] assms(4) by (simp add: Chunked)
qed (use assms in simp)

text \<open>C15. Content captured in a pool, however it was cut into pieces, is read back exactly: capturing returns, and when
  it succeeds every range within the read budget of the manifest it gives is that range of the concatenated pieces, as
  long as no two of the blocks have the same digest.\<close>

theorem captured_content_reads_back:
  assumes "open_view H maxRead (pl_view p)" and "chunk_length \<le> maxRead"
  shows "\<exists>res. pool_capture H cas pieces bytesRead p = Some res \<and>
    (\<forall>m p' offset n. res = Inr (m, p') \<and> collision_free H (Chunked p' m) (concat pieces) \<and> n \<le> maxRead \<and>
        offset + n \<le> length (concat pieces) \<longrightarrow>
      pool_read m (Some n) offset p' = Some (Inr (take n (drop offset (concat pieces)))))"
proof -
  obtain res where r: "captureContentBlocks H (pool_put H cas) (pl_maxLogicalBytes p) pieces bytesRead (pl_view p) = Some res"
    and ok: "\<And>m v'. res = Inr (m, v') \<Longrightarrow> open_view H maxRead v' \<and> mf_size m = count_num (length (concat pieces)) \<and>
      mf_digest m = H (concat pieces) \<and> is_count (mf_size m) \<and>
      length (mf_chunks m) = (length (concat pieces) + chunk_length - 1) div chunk_length \<and>
      (\<forall>i < length (mf_chunks m). chunk_matches H view_load v' (block_of (concat pieces) i) (mf_chunks m ! i))"
    using pool_blocks.capture_result [OF assms(1)] by (metis (no_types, lifting))
  have c: "pool_capture H cas pieces bytesRead p = Some (and_then res (\<lambda>(m, v). Inr (m, p\<lparr>pl_view := v\<rparr>)))"
    using assms(1) r by (simp add: pool_capture_def open_view_def)
  have "pool_read m (Some n) offset p' = Some (Inr (take n (drop offset (concat pieces))))"
    if res: "res = Inr (m, v)" and p': "p' = p\<lparr>pl_view := v\<rparr>" and cf: "collision_free H (Chunked p' m) (concat pieces)"
      and n: "n \<le> maxRead" "offset + n \<le> length (concat pieces)" for m v p' offset n
  proof (rule pool_read_holds)
    show "holds H (Chunked p' m) (concat pieces)"
      using ok [OF res] assms(2) by (clarsimp simp: p' open_view_def)
    show "n \<le> vw_maxReadBytes (pl_view p')" using ok [OF res] n by (simp add: p' open_view_def)
  qed (use cf n in auto)
  with c show ?thesis by fastforce
qed

definition sample_hash :: "bytes \<Rightarrow> string" where
  "sample_hash b = ''sha256:'' @ replicate 64 (if b = [] then CHR ''0'' else CHR ''f'')"

definition sample_pool :: pool where
  "sample_pool = \<lparr>pl_view = \<lparr>vw_values = [], vw_maxReadBytes = 16 * chunk_length, vw_maxStoredBytes = 2 ^ 30,
     vw_maxOpenChunks = 1024, vw_sealed = False\<rparr>, pl_maxLogicalBytes = 2 ^ 31\<rparr>"

definition sample_artifact :: artifact where
  "sample_artifact = \<lparr>ar_digest = sample_hash [1], ar_size = count_num 3\<rparr>"

lemma copy_loop_small:
  assumes "length (cp_buffer s) + length piece < chunk_length"
  shows "copy_loop put piece s = Some (Inr (s\<lparr>cp_buffer := cp_buffer s @ piece\<rparr>))"
  using assms by (subst copy_loop.simps, subst copy_loop.simps) (auto simp: Let_def min_def)

lemma sample_sizes [simp]:
  "is_count (count_num 3)" "is_count (count_num 0)" "Suc (Suc 0) < chunk_length" "3 < chunk_length" "3 \<le> chunk_length"
  "Suc 0 < chunk_length" "Suc (Suc (Suc 0)) < chunk_length"
  by (simp_all add: is_count_nat max_safe_def chunk_length_def)

lemma sample_counts [simp]:
  "count_num (Suc (Suc (Suc 0))) = count_num 3" "chunk_count (count_num 3) = Some 1"
  "chunk_size (count_num 3) 0 = count_num 3" "num_add (Fin 0) (count_num k) = count_num k"
  by (simp_all add: count_num_def chunk_count_def chunk_size_def num_add_def chunk_length_def ceiling_eq_iff)

lemma digest_text: "isSha256Digest (''sha256:'' @ r) \<longleftrightarrow> length r = 64 \<and> list_all is_hex r"
proof -
  have "take (length ''sha256:'') (''sha256:'' @ r) = ''sha256:''" "drop (length ''sha256:'') (''sha256:'' @ r) = r"
    by (simp_all only: append_eq_conv_conj [symmetric] append_Nil2 take_append drop_append) simp_all
  then have "take 7 (''sha256:'' @ r) = ''sha256:''" "drop 7 (''sha256:'' @ r) = r" by simp_all
  then show ?thesis unfolding isSha256Digest_def by simp
qed

lemma sample_hashes [simp]: "isSha256Digest (sample_hash b)" "sample_hash [1, 2, 3] = sample_hash [1]"
  unfolding sample_hash_def digest_text by (simp_all add: list_all_iff is_hex_def)

lemma sample_capture:
  "pool_capture sample_hash (\<lambda>_. None) [[1, 2], [3]] 3 sample_pool =
     Some (Inr (\<lparr>mf_size = count_num 3, mf_digest = sample_hash [1], mf_chunks = [Some sample_artifact]\<rparr>,
       sample_pool\<lparr>pl_view := keep_stored sample_artifact [1, 2, 3] (pl_view sample_pool)\<rparr>))"
  by (simp add: pool_capture_def captureContentBlocks_def sink_piece_def copy_loop_small sample_pool_def sealed_manifest_def
    flush_def pool_put_def view_add_def validateArtifact_def checkBudget_def view_has_def view_bytes_def add_image_def refuse_def
    parseContentManifest_def ms_has_def num_less_nat Let_def sample_artifact_def)

definition sample_content :: content where
  "sample_content = Chunked (sample_pool\<lparr>pl_view := keep_stored sample_artifact [1, 2, 3] (pl_view sample_pool)\<rparr>)
     \<lparr>mf_size = count_num 3, mf_digest = sample_hash [1], mf_chunks = [Some sample_artifact]\<rparr>"

lemma sample_blocks: "blocks_of [1, 2, 3] \<subseteq> {[], [1, 2, 3]}" "inj_on sample_hash {[], [1, 2, 3]}"
proof -
  have "block_of [1, 2, 3] i \<in> {[], [1, 2, 3]}" for i
    by (cases i) (simp_all add: block_of_def chunk_length_def)
  then show "blocks_of [1, 2, 3] \<subseteq> {[], [1, 2, 3]}" by (auto simp: blocks_of_def)
qed (simp add: sample_hash_def)

lemma sample_collision_free: "collision_free sample_hash sample_content [1, 2, 3]"
proof -
  have "blocks_of [1, 2, 3] \<union> images_of sample_content \<subseteq> {[], [1, 2, 3]}"
    using sample_blocks(1) by (auto simp: sample_content_def sample_pool_def keep_stored_def ran_def split: if_splits)
  from inj_on_subset [OF sample_blocks(2) this] show ?thesis by (simp add: collision_free_def)
qed

theorem captured_content_reads_back_witness:
  "\<exists>m p'. pool_capture sample_hash (\<lambda>_. None) [[1, 2], [3]] 3 sample_pool = Some (Inr (m, p')) \<and>
    pool_read m (Some 2) 1 p' = Some (Inr [2, 3])"
  using captured_content_reads_back [of sample_hash "16 * chunk_length" sample_pool "\<lambda>_. None" "[[1, 2], [3]]" 3]
    sample_collision_free unfolding sample_capture sample_content_def
  by (auto simp: sample_pool_def open_view_def view_verified_def chunk_length_def intro!: exI)

subsection \<open>Writing\<close>

lemma length_truncate [simp]: "length (truncate_file n f) = n"
  by (simp add: truncate_file_def)

lemma write_inside:
  "offset + length b \<le> length f \<Longrightarrow> write_file b offset f = take offset f @ b @ drop (offset + length b) f"
  by (simp add: write_file_def truncate_file_def)

lemma write_split:
  assumes "offset + length b \<le> length f" and "k \<le> length b"
  shows "write_file (drop k b) (offset + k) (write_file (take k b) offset f) = write_file b offset f"
proof -
  let ?f = "take offset f @ take k b @ drop (offset + k) f"
  have len: "length (take offset f) = offset" "length (take k b) = k" "length ?f = length f" using assms by simp_all
  have one: "write_file (take k b) offset f = ?f" using assms by (subst write_inside) (simp_all add: len(2))
  have parts: "take (offset + k) ?f = take offset f @ take k b" "drop (offset + length b) ?f = drop (offset + length b) f"
    using assms by (simp_all add: len(1,2) add.commute)
  have "write_file (drop k b) (offset + k) ?f = take (offset + k) ?f @ drop k b @ drop (offset + k + length (drop k b)) ?f"
    by (rule write_inside) (use assms len(3) in simp)
  also have "offset + k + length (drop k b) = offset + length b" using assms(2) by simp
  also have "take (offset + k) ?f @ drop k b @ drop (offset + length b) ?f = take offset f @ b @ drop (offset + length b) f"
    unfolding parts by simp
  finally show ?thesis using write_inside [OF assms(1)] one by simp
qed

lemma write_loop_all:
  "offset + length b \<le> length f \<Longrightarrow> write_loop ks b offset f = Inr (g, rest) \<Longrightarrow> g = write_file b offset f"
proof (induction ks b offset f rule: write_loop.induct)
  case (2 k ks b offset f)
  show ?case
  proof (cases "b = []")
    case True
    then show ?thesis using 2 by (simp add: write_file_def)
  next
    case False
    let ?b = "take k b"
    have k: "k \<noteq> 0" using 2 False by (auto split: if_splits)
    have f: "write_file ?b offset f = take offset f @ ?b @ drop (offset + length ?b) f"
      using 2 by (intro write_inside) simp
    have len: "length (write_file ?b offset f) = length f" unfolding f using 2(2) by simp
    have "write_loop ks (drop k b) (offset + min k (length b)) (write_file ?b offset f) = Inr (g, rest)"
      using 2(3) False k by simp
    then have "g = write_file (drop k b) (offset + min k (length b)) (write_file ?b offset f)"
      using 2(1) [OF False k] 2(2) len by simp
    also have "\<dots> = write_file b offset f"
      using write_split [OF 2(2), of "min k (length b)"] by (cases "k \<le> length b") (simp_all add: min_def)
    finally show ?thesis .
  qed
qed simp

lemma write_loop_progress: "0 \<notin> set ks \<Longrightarrow> \<exists>g rest. write_loop ks b offset f = Inr (g, rest) \<and> 0 \<notin> set rest"
  by (induction ks b offset f rule: write_loop.induct) auto

text \<open>Up to an offset the file is already the new content, behind it still what it was.\<close>

definition half_written :: "bytes \<Rightarrow> bytes \<Rightarrow> nat \<Rightarrow> bytes \<Rightarrow> bool" where
  "half_written a f0 k f \<longleftrightarrow> length f = length f0 \<and> take k f = take k a \<and> drop k f = drop k f0"

definition same_blocks :: "(content option) \<Rightarrow> content \<Rightarrow> bytes \<Rightarrow> bytes \<Rightarrow> bool" where
  "same_blocks before after a f0 \<longleftrightarrow> (\<forall>i. i * chunk_length < length a \<longrightarrow>
     skips_block before after (i * chunk_length) (min chunk_length (length a - i * chunk_length)) \<longrightarrow>
     take (min chunk_length (length a - i * chunk_length)) (drop (i * chunk_length) f0) = block_of a i)"

lemma holds_length: "holds H x c \<Longrightarrow> byte_length x = length c"
  by (cases x) simp_all

lemma write_blocks_step:
  assumes h: "holds H after a" "collision_free H after a" and same: "same_blocks before after a f0"
    and long: "length a \<le> length f0"
  shows "i \<le> j \<Longrightarrow> j = (length a + chunk_length - 1) div chunk_length \<Longrightarrow> half_written a f0 (min (length a) (i * chunk_length)) f \<Longrightarrow>
    \<exists>res. write_blocks before after (map (\<lambda>i. i * chunk_length) [i..<j]) accepted written f = Some res \<and>
      (0 \<notin> set accepted \<longrightarrow> (\<exists>x. res = Inr x)) \<and>
      (\<forall>w g. res = Inr (w, g) \<longrightarrow> half_written a f0 (length a) g \<and> (written \<longrightarrow> w) \<and> (\<not> w \<longrightarrow> g = f))"
proof (induction "j - i" arbitrary: i f accepted written)
  case 0
  then have "length a \<le> i * chunk_length" using block_index [of i "length a"] by linarith
  with 0 show ?case by (simp add: min_def)
next
  case (Suc k)
  define n where "n = min chunk_length (length a - i * chunk_length)"
  have ij: "i < j" and rest: "k = j - (i + 1)" and up: "[i..<j] = i # [i + 1..<j]"
    using Suc.hyps(2) by (simp_all add: upt_rec)
  have inside: "i * chunk_length < length a"
  proof (rule ccontr)
    assume "\<not> ?thesis"
    then have "(length a + chunk_length - 1) div chunk_length \<le> (i * chunk_length + chunk_length - 1) div chunk_length"
      by (intro div_le_mono) simp
    then show False using round_up [of 0 i] ij Suc.prems(2) by simp
  qed
  have fi: "length f = length f0" "take (i * chunk_length) f = take (i * chunk_length) a" "drop (i * chunk_length) f = drop (i * chunk_length) f0"
    using Suc.prems(3) inside by (simp_all add: half_written_def min_def)
  have n: "n \<le> chunk_length" "i * chunk_length + n \<le> length a" "block_of a i = take n (drop (i * chunk_length) a)"
    "min (length a) ((i + 1) * chunk_length) = i * chunk_length + n"
    using inside by (auto simp: n_def block_of_def min_def)
  have next_ok: "half_written a f0 (min (length a) ((i + 1) * chunk_length)) g"
    if g: "g = take (i * chunk_length) f @ block_of a i @ drop (i * chunk_length + n) f" for g
  proof -
    have "length (block_of a i) = n" using n(2) by (simp add: n(3))
    moreover have "drop (i * chunk_length + n) f = drop (i * chunk_length + n) f0"
      using fi(3) by (metis add.commute drop_drop)
    moreover have "take (i * chunk_length) a @ block_of a i = take (i * chunk_length + n) a"
      by (simp add: n(3) take_add)
    ultimately show ?thesis
      using fi(1,2) n(2) long unfolding half_written_def n(4) g by simp
  qed
  have len: "byte_length after = length a" by (rule holds_length [OF h(1)])
  show ?case
  proof (cases "skips_block before after (i * chunk_length) n")
    case True
    then have "take n (drop (i * chunk_length) f) = block_of a i"
      using same inside fi(3) by (simp add: same_blocks_def n_def)
    then have "f = take (i * chunk_length) f @ block_of a i @ drop (i * chunk_length + n) f"
      by (metis add.commute append_take_drop_id drop_drop)
    from Suc.hyps(1) [OF _ _ Suc.prems(2) next_ok [OF this], of accepted written] ij Suc.hyps(2) True
    show ?thesis by (simp add: up Let_def len n_def [symmetric])
  next
    case False
    have r: "readContent after (i * chunk_length) n = Some (Inr (block_of a i))"
      using readContent_holds [OF h n(1,2)] by (simp add: n(3))
    show ?thesis
    proof (cases "write_loop accepted (block_of a i) (i * chunk_length) f")
      case (Inl e)
      then have "0 \<in> set accepted" using write_loop_progress by (metis old.sum.distinct(1))
      then show ?thesis using False r Inl by (simp add: up Let_def len n_def [symmetric])
    next
      case (Inr p)
      obtain g rest where p: "p = (g, rest)" by (cases p)
      have fit: "i * chunk_length + length (block_of a i) \<le> length f" using n(2,3) fi(1) long by simp
      have "g = write_file (block_of a i) (i * chunk_length) f"
        by (rule write_loop_all [OF fit Inr [unfolded p]])
      also have "\<dots> = take (i * chunk_length) f @ block_of a i @ drop (i * chunk_length + n) f"
        using write_inside [OF fit] n(2,3) by simp
      finally have g: "half_written a f0 (min (length a) ((i + 1) * chunk_length)) g" by (rule next_ok)
      have left: "0 \<notin> set accepted \<Longrightarrow> 0 \<notin> set rest"
        using write_loop_progress [of accepted "block_of a i" "i * chunk_length" f] Inr p by auto
      obtain res where res: "write_blocks before after (map (\<lambda>i. i * chunk_length) [i + 1..<j]) rest True g = Some res"
          "0 \<notin> set rest \<longrightarrow> (\<exists>x. res = Inr x)" "\<forall>w g. res = Inr (w, g) \<longrightarrow> half_written a f0 (length a) g \<and> w"
        using Suc.hyps(1) [OF rest _ Suc.prems(2) g, of rest True] ij by auto
      have "write_blocks before after (map (\<lambda>i. i * chunk_length) [i..<j]) accepted written f = Some res"
        using False r res(1) by (simp add: up Let_def len n_def [symmetric] Inr p)
      then show ?thesis using left res(2,3) by (intro exI [of _ res]) auto
    qed
  qed
qed

lemma chunk_at_holds:
  assumes "holds H (Chunked p m) c" and "i * chunk_length < length c"
  shows "chunk_matches H view_load (pl_view p) (block_of c i) (chunk_at m i)"
  using assms block_index [OF assms(2)] by (simp add: chunk_at_def)

lemma empty_chunk:
  "holds H (Chunked p m) c \<Longrightarrow> i * chunk_length < length c \<Longrightarrow> chunk_at m i = None \<Longrightarrow>
    block_of c i = replicate (length (block_of c i)) 0"
  using chunk_at_holds [of H p m c i] by (simp add: chunk_matches_def)

lemma manifest_of_Some: "manifest_of x = Some m \<Longrightarrow> \<exists>p. x = Chunked p m"
  by (cases x) auto

lemma drop_zeros: "length f \<le> k \<Longrightarrow> drop k (truncate_file n f) = replicate (n - k) 0"
  by (simp add: truncate_file_def)

lemma skipped_blocks_same:
  assumes a: "holds H after a" and inj: "inj_on H (blocks_of a \<union> blocks_of f)"
    and f: "case before of None \<Rightarrow> f = [] | Some x \<Rightarrow> holds H x f"
  shows "same_blocks before after a (if length f < length a \<or> before = None then truncate_file (length a) f else f)"
  unfolding same_blocks_def
proof (intro allI impI)
  let ?f0 = "if length f < length a \<or> before = None then truncate_file (length a) f else f"
  fix i
  let ?k = "i * chunk_length"
  let ?n = "min chunk_length (length a - ?k)"
  assume i: "?k < length a" and skip: "skips_block before after ?k ?n"
  then obtain p m where after: "after = Chunked p m"
    by (auto simp: skips_block_def split: option.splits dest: manifest_of_Some)
  have na: "length (block_of a i) = ?n" by (rule length_block_of)
  have index: "?k div chunk_length = i" by simp
  consider (old) q old where "before = Some (Chunked q old)" "?k + ?n \<le> length f"
      "map_option ar_digest (chunk_at m i) = map_option ar_digest (chunk_at old i)"
    | (zero) "chunk_at m i = None" "length f \<le> ?k"
    using skip f holds_length [of H _ f] unfolding skips_block_def after index Let_def
    by (auto split: option.splits dest!: manifest_of_Some)
  then show "take ?n (drop ?k ?f0) = block_of a i"
  proof cases
    case old
    have hf: "holds H (Chunked q old) f" using f old(1) by simp
    have kf: "?k < length f" using old(2) i chunk_length_pos(1) by linarith
    note mf = chunk_at_holds [OF hf kf]
    note ma = chunk_at_holds [OF a [unfolded after] i]
    have tail: "take ?n (drop ?k ?f0) = take ?n (block_of f i)"
      using old(1,2) by (simp add: truncate_file_def block_of_def)
    show ?thesis
    proof (cases "chunk_at m i")
      case None
      then have "block_of f i = replicate (length (block_of f i)) 0"
        using old(3) by (intro empty_chunk [OF hf kf]) simp
      moreover have "?n \<le> length (block_of f i)" using old(2) by (simp add: length_block_of)
      ultimately have "take ?n (block_of f i) = replicate ?n 0" by (metis min_absorb1 take_replicate)
      then show ?thesis using empty_chunk [OF a [unfolded after] i None] na tail by metis
    next
      case (Some r)
      then obtain s where "chunk_at old i = Some s" "ar_digest s = ar_digest r" using old(3) by (cases "chunk_at old i") auto
      then have "H (block_of f i) = H (block_of a i)" using mf ma Some by (simp add: chunk_matches_def block_in_def)
      then have "block_of f i = block_of a i" using inj by (auto simp: blocks_of_def dest: inj_onD)
      then show ?thesis using tail na by simp
    qed
  next
    case zero
    have f0: "?f0 = truncate_file (length a) f" using zero(2) i by simp
    have "take ?n (drop ?k ?f0) = replicate ?n 0"
      unfolding f0 drop_zeros [OF zero(2)] by simp
    then show ?thesis using empty_chunk [OF a [unfolded after] i zero(1)] na by metis
  qed
qed

text \<open>C31. Writing a version over a file that holds the version before it leaves exactly the new content: blocks are skipped
  only where the file already has the bytes.  Writing always returns, and fails only when a write makes no progress.\<close>

theorem writing_replaces_content:
  assumes "holds H after a" and "collision_free H after a" and "inj_on H (blocks_of a \<union> blocks_of f)"
    and "case before of None \<Rightarrow> f = [] | Some x \<Rightarrow> holds H x f"
  shows "\<exists>res. writeContent after before accepted f = Some res \<and> (\<forall>g. res = Inr g \<longrightarrow> g = a) \<and>
    (0 \<notin> set accepted \<longrightarrow> res = Inr a)"
proof -
  let ?grows = "case before of None \<Rightarrow> True | Some x \<Rightarrow> byte_length x < length a"
  define f0 where "f0 = (if length f < length a \<or> before = None then truncate_file (length a) f else f)"
  have la: "byte_length after = length a" by (rule holds_length [OF assms(1)])
  have lb: "before = Some x \<Longrightarrow> byte_length x = length f" for x using assms(4) holds_length by auto
  have grows: "?grows \<longleftrightarrow> length f < length a \<or> before = None" using la lb by (cases before) auto
  have long: "length a \<le> length f0" by (simp add: f0_def)
  have shrinks: "(case before of Some x \<Rightarrow> length a < byte_length x | None \<Rightarrow> False) \<longleftrightarrow> length a < length f0"
    using la lb by (cases before) (auto simp: f0_def)
  have start_ok: "half_written a f0 (min (length a) (0 * chunk_length)) f0" by (simp add: half_written_def)
  obtain res where res: "write_blocks before after (block_offsets (length a)) accepted ?grows f0 = Some res"
      "0 \<notin> set accepted \<longrightarrow> (\<exists>x. res = Inr x)"
      "\<And>w g. res = Inr (w, g) \<Longrightarrow> half_written a f0 (length a) g \<and> (?grows \<longrightarrow> w) \<and> (\<not> w \<longrightarrow> g = f0)"
    using write_blocks_step [OF assms(1,2) skipped_blocks_same [OF assms(1,3,4), folded f0_def] long le0 refl start_ok,
      of accepted ?grows] unfolding block_offsets_def by blast
  have exact: "(if \<not> w \<or> length a < length f0 then truncate_file (length a) g else g) = a" if "res = Inr (w, g)" for w g
    using res(3) [OF that] long by (auto simp: half_written_def truncate_file_def)
  have "writeContent after before accepted f = Some (case res of Inl e \<Rightarrow> Inl e | Inr (w, g) \<Rightarrow>
      Inr (if \<not> w \<or> length a < length f0 then truncate_file (length a) g else g))"
    unfolding writeContent_def Let_def la shrinks using res(1) by (simp add: grows f0_def split: sum.split)
  with res(2) exact show ?thesis by (cases res) auto
qed

theorem writing_replaces_content_witness:
  "writeContent sample_content None [2, 1] [] = Some (Inr [1, 2, 3])"
proof -
  have b: "block_of [1, 2, 3] 0 = [1, 2, 3]" by (simp add: block_of_def chunk_length_def)
  have up: "(length [1, 2, 3 :: 8 word] + chunk_length - 1) div chunk_length = 1" using round_up [of 3 0] by simp
  have h: "holds sample_hash sample_content [1, 2, 3]"
    unfolding sample_content_def holds.simps up
    by (simp add: b sample_pool_def keep_stored_def open_view_def view_verified_def chunk_matches_def block_in_def
        view_load_def sample_artifact_def)
  have "blocks_of [] = {[]}" by (simp add: blocks_of_def block_of_def)
  then have "blocks_of [1, 2, 3] \<union> blocks_of [] \<subseteq> {[], [1, 2, 3]}" using sample_blocks(1) by simp
  from inj_on_subset [OF sample_blocks(2) this]
  have "inj_on sample_hash (blocks_of [1, 2, 3] \<union> blocks_of [])" .
  from writing_replaces_content [OF h sample_collision_free this, of None "[2, 1]"] show ?thesis by simp
qed

end
