(* ===== verification/Certificates.thy ===== *)
theory Certificates
  imports Content_Chunks Json_Text Path_Utils Timeline_Computation
begin

text \<open>
  Provenance certificates (\<open>src/provenance-certificate.ts\<close>): the data of a completed process execution, its
  normalization, the keys derived from it, sealing and parsing.

  \<^item> Every field has its declared type; what a cast could smuggle in beyond the types (a kind outside the union, a
    field of another type) is not modelled, so checks that only such values fail do not appear.
  \<^item> A thrown error is \<open>Inl\<close> its message.  Freezing and copying do not change values, and the caches of values that are
    normalized already are left out: \<open>Certificate_Keys\<close> proves that normalizing again would change nothing.
  \<^item> \<open>hasher\<close> holds the text of a finite number, the SHA-256 digest text of a string and of bytes, as parameters.
  \<^item> The default task name cuts a string of ASCII characters at 15 bytes.
\<close>

subsection \<open>Process prototypes\<close>

datatype ofd_position = Position js_num | Cookie string

datatype fd_type = Closed_fd | Regular | Null_fd | Directory_fd | Pipe | Socket | Eventfd | Tty | Device | Other_fd

record environment_entry =
  en_name :: string
  en_present :: bool
  en_valueDigest :: "string option"

record descriptor =
  fd_number :: js_num
  fd_installed :: "bool option"
  fd_type :: fd_type
  fd_flagsDigest :: string
  fd_endpointDigest :: "string option"
  fd_contentDigest :: "string option"
  fd_offset :: "ofd_position option"
  fd_alias :: "js_num option"
  fd_object :: "js_num option"
  fd_resourcePath :: "string option"
  fd_resourceAliases :: "string list option"
  fd_eof :: "bool option"

record process_stdin =
  si_bytes :: bool
  si_digest :: "string option"
  si_eof :: bool

record prototype =
  pt_executablePath :: string
  pt_invocation :: "string list option"
  pt_executableDigest :: string
  pt_argvDigest :: string
  pt_logicalCwd :: string
  pt_environment :: "environment_entry list"
  pt_environmentComplete :: bool
  pt_umask :: js_num
  pt_contextDigest :: string
  pt_stdin :: process_stdin
  pt_tableComplete :: bool
  pt_inheritedFDs :: "descriptor list"
  pt_platform :: string

record hasher =
  hx_num :: "real \<Rightarrow> string"
  hx_text :: "string \<Rightarrow> string"
  hx_bytes :: "bytes \<Rightarrow> string"

definition in_range :: "js_num \<Rightarrow> int \<Rightarrow> int \<Rightarrow> bool" where
  "in_range n lo hi \<longleftrightarrow> isSafeCount (JNum n) lo hi"

definition num_key :: "js_num \<Rightarrow> real" where
  "num_key n = (case n of Fin x \<Rightarrow> x | _ \<Rightarrow> 0)"

definition isOFDPosition :: "ofd_position \<Rightarrow> bool" where
  "isOFDPosition p = (case p of
     Position n \<Rightarrow> is_count n
   | Cookie s \<Rightarrow> 16 \<le> length s \<and> length s \<le> 19 \<and> list_all is_digit s \<and> hd s \<noteq> CHR ''0'' \<and>
       max_safe < int (digits_value s) \<and> digits_value s \<le> 0x7fffffffffffffff)"

definition validLogicalPath :: "string \<Rightarrow> bool" where
  "validLogicalPath s \<longleftrightarrow> take 1 s = ''/'' \<and> CHR 0x00 \<notin> set s"

fun ascending :: "string list \<Rightarrow> bool" where
  "ascending (a # b # xs) = (a < b \<and> ascending (b # xs))"
| "ascending _ = True"

definition validAliases :: "string list \<Rightarrow> string \<Rightarrow> bool" where
  "validAliases aliases target \<longleftrightarrow> target \<in> set aliases \<and> list_all validLogicalPath aliases \<and> ascending aliases"

definition digestObject :: "hasher \<Rightarrow> js_val \<Rightarrow> string" where
  "digestObject hx v = hx_text hx (case stableStringify (hx_num hx) v of Some t \<Rightarrow> t | None \<Rightarrow> [])"

definition default_invocation :: "string \<Rightarrow> string list" where
  "default_invocation path = [path, take 15 (last (split_slash path))]"

fun normalize_environment :: "environment_entry list \<Rightarrow> string list \<Rightarrow> environment_entry list result" where
  "normalize_environment [] names = Inr []"
| "normalize_environment (e # es) names =
     (let digest = (if en_present e then en_valueDigest e else None) in
      refuse ''process prototype environment is incomplete''
        (en_name e = [] \<or> CHR ''='' \<in> set (en_name e) \<or> CHR 0x00 \<in> set (en_name e) \<or>
         (en_present e \<and> \<not> (case digest of Some d \<Rightarrow> isSha256Digest d | None \<Rightarrow> False)))
      (refuse (''duplicate semantic environment entry '' @ en_name e) (en_name e \<in> set names)
      (and_then (normalize_environment es (en_name e # names)) (\<lambda>rest.
        Inr (\<lparr>en_name = en_name e, en_present = en_present e, en_valueDigest = digest\<rparr> # rest)))))"

fun read_descriptors :: "descriptor list \<Rightarrow> (js_num, descriptor) jsmap \<Rightarrow> (js_num, descriptor) jsmap result" where
  "read_descriptors [] tbl = Inr tbl"
| "read_descriptors (d # ds) tbl =
     refuse ''process prototype descriptor table is invalid''
       (\<not> is_count (fd_number d) \<or> ms_has tbl (fd_number d) \<or> \<not> isSha256Digest (fd_flagsDigest d))
     (refuse ''invalid queued OFD projection''
       (case fd_installed d of None \<Rightarrow> False
        | Some b \<Rightarrow> b \<or> num_less (fd_number d) (Fin 3) \<or> fd_alias d \<noteq> Some (fd_number d))
     (refuse ''process descriptor digest is invalid''
       (\<not> pred_option isSha256Digest (fd_endpointDigest d) \<or> \<not> pred_option isSha256Digest (fd_contentDigest d))
       (read_descriptors ds (ms_set (fd_number d) d tbl))))"

definition stream_type :: "fd_type \<Rightarrow> bool" where
  "stream_type t \<longleftrightarrow> t \<in> {Pipe, Socket, Eventfd}"

definition has_digest :: "string option \<Rightarrow> bool" where
  "has_digest d = (case d of Some s \<Rightarrow> isSha256Digest s | None \<Rightarrow> False)"

definition bad_alias :: "hasher \<Rightarrow> (js_num, descriptor) jsmap \<Rightarrow> descriptor \<Rightarrow> js_num \<Rightarrow> bool" where
  "bad_alias hx tbl d a =
     (\<not> (fd_type d \<in> {Regular, Null_fd, Directory_fd} \<or> stream_type (fd_type d)) \<or>
      (case fd_offset d of None \<Rightarrow> True | Some p \<Rightarrow> \<not> isOFDPosition p) \<or>
      stream_type (fd_type d) \<and> (fd_offset d \<noteq> Some (Position (Fin 0)) \<or> \<not> has_digest (fd_contentDigest d)) \<or>
      fd_type d = Null_fd \<and> (fd_offset d \<noteq> Some (Position (Fin 0)) \<or> fd_contentDigest d \<noteq> Some (hx_text hx [])) \<or>
      fd_type d = Directory_fd \<and> \<not> has_digest (fd_contentDigest d) \<or>
      fd_type d = Directory_fd \<and> (fd_resourcePath d \<in> {None, Some []} \<or>
        fd_resourcePath d \<noteq> (case map_of tbl a of Some x \<Rightarrow> fd_resourcePath x | None \<Rightarrow> None)) \<or>
      (case map_of tbl a of None \<Rightarrow> True
       | Some x \<Rightarrow> num_less (fd_number d) (fd_number x) \<or> fd_alias x \<noteq> Some (fd_number x) \<or> fd_type x \<noteq> fd_type d \<or>
           fd_offset x \<noteq> fd_offset d \<or> fd_object x \<noteq> fd_object d \<or> fd_contentDigest x \<noteq> fd_contentDigest d) \<or>
      (case Option.bind (fd_object d) (map_of tbl) of None \<Rightarrow> True
       | Some x \<Rightarrow> num_less (fd_number d) (fd_number x) \<or> fd_object x \<noteq> Some (fd_number x) \<or> fd_type x \<noteq> fd_type d \<or>
           fd_contentDigest x \<noteq> fd_contentDigest d \<or> fd_endpointDigest x \<noteq> fd_endpointDigest d \<or>
           fd_resourcePath x \<noteq> fd_resourcePath d \<or> fd_resourceAliases x \<noteq> fd_resourceAliases d \<or> fd_eof x \<noteq> fd_eof d))"

fun check_descriptors :: "hasher \<Rightarrow> (js_num, descriptor) jsmap \<Rightarrow> descriptor list \<Rightarrow> unit result" where
  "check_descriptors hx tbl [] = Inr ()"
| "check_descriptors hx tbl (d # ds) =
     refuse ''invalid inherited descriptor path'' (\<not> pred_option validLogicalPath (fd_resourcePath d))
     (refuse ''invalid inherited descriptor aliases''
       (case fd_resourceAliases d of None \<Rightarrow> False
        | Some aliases \<Rightarrow> fd_type d \<noteq> Regular \<or> (case fd_resourcePath d of
            None \<Rightarrow> True | Some p \<Rightarrow> p = [] \<or> \<not> validAliases aliases p))
     (refuse ''invalid inherited OFD alias or object''
       (case fd_alias d of None \<Rightarrow> False | Some a \<Rightarrow> bad_alias hx tbl d a)
       (check_descriptors hx tbl ds)))"

definition normalizePrototype :: "hasher \<Rightarrow> prototype \<Rightarrow> prototype result" where
  "normalizePrototype hx p =
     (let invocation = (case pt_invocation p of Some i \<Rightarrow> i | None \<Rightarrow> default_invocation (pt_executablePath p)) in
      refuse ''invalid process invocation context''
        (length invocation \<noteq> 2 \<or> \<not> list_all (\<lambda>v. v \<noteq> [] \<and> CHR 0x00 \<notin> set v) invocation)
      (refuse ''process prototype requires a complete environment'' (\<not> pt_environmentComplete p)
      (refuse ''process prototype requires a complete descriptor table'' (\<not> pt_tableComplete p)
      (refuse ''process prototype identity is incomplete''
        (\<not> validLogicalPath (pt_executablePath p) \<or> \<not> validLogicalPath (pt_logicalCwd p) \<or> pt_platform p = [])
      (refuse ''process prototype umask is invalid'' (\<not> in_range (pt_umask p) 0 511)
      (refuse ''process prototype contains an invalid digest''
        (\<not> list_all isSha256Digest [pt_executableDigest p, pt_argvDigest p, pt_contextDigest p])
      (and_then (normalize_environment (pt_environment p) []) (\<lambda>environment.
       and_then (read_descriptors (pt_inheritedFDs p) []) (\<lambda>tbl.
       let descriptors = sort_key (num_key \<circ> fd_number) (pt_inheritedFDs p) in
       and_then (check_descriptors hx tbl descriptors) (\<lambda>_.
       refuse ''process stdin identity is invalid''
         ((si_bytes (pt_stdin p) \<and> \<not> has_digest (si_digest (pt_stdin p))) \<or>
          \<not> pred_option isSha256Digest (si_digest (pt_stdin p)))
         (Inr (p\<lparr>pt_invocation := Some invocation, pt_environment := sort_key en_name environment,
           pt_inheritedFDs := descriptors\<rparr>))))))))))))"

datatype process_argv = Arguments "string list" | Raw_arguments bytes

definition createExecPrototype ::
  "hasher \<Rightarrow> process_argv \<Rightarrow> (string \<times> string option) list \<Rightarrow> prototype \<Rightarrow> prototype result" where
  "createExecPrototype hx argv environment identity = normalizePrototype hx (identity\<lparr>
     pt_argvDigest := (case argv of Arguments as \<Rightarrow> digestObject hx (JArr (map JStr as)) | Raw_arguments b \<Rightarrow> hx_bytes hx b),
     pt_environmentComplete := True,
     pt_environment := map (\<lambda>(name, v). \<lparr>en_name = name, en_present = v \<noteq> None,
       en_valueDigest = map_option (hx_text hx) v\<rparr>) environment\<rparr>)"

subsection \<open>Producer proofs\<close>

record identity_proof =
  ip_provider :: string
  ip_fingerprint :: string

datatype execution_proof = Actor_execution | Speculative_execution identity_proof

record producer_proof =
  pp_observer :: identity_proof
  pp_execution :: execution_proof

definition validProvider :: "string \<Rightarrow> bool" where
  "validProvider s \<longleftrightarrow> s \<noteq> [] \<and> CHR 0x00 \<notin> set s"

definition proof_ok :: "identity_proof \<Rightarrow> bool" where
  "proof_ok i \<longleftrightarrow> validProvider (ip_provider i) \<and> isSha256Digest (ip_fingerprint i)"

definition normalizeProducerProof :: "producer_proof \<Rightarrow> producer_proof result" where
  "normalizeProducerProof p =
     refuse ''process producer proof is incomplete'' (\<not> proof_ok (pp_observer p))
       (case pp_execution p of
          Actor_execution \<Rightarrow> Inr p
        | Speculative_execution c \<Rightarrow>
            refuse ''speculative process producer requires confinement proof'' (\<not> proof_ok c) (Inr p))"

subsection \<open>Dynamic dependencies\<close>

datatype dependency_role = Input_role | Executable_role | Shared_object_role

datatype dynamic_dependency =
    Lock_dep string bool
  | File_dep string dependency_role string "string option" "string list option"
  | Directory_dep string "string option" "string option" "string list option"
  | Absence_dep string "string option" "string list option"
  | Symlink_dep string string string
  | Metadata_dep string bool string "string list option"
  | Fd_dep js_num string bool

fun dependency_kind :: "dynamic_dependency \<Rightarrow> string" where
  "dependency_kind (Lock_dep _ _) = ''lock''"
| "dependency_kind (File_dep _ _ _ _ _) = ''file''"
| "dependency_kind (Directory_dep _ _ _ _) = ''directory''"
| "dependency_kind (Absence_dep _ _ _) = ''absence''"
| "dependency_kind (Symlink_dep _ _ _) = ''symlink''"
| "dependency_kind (Metadata_dep _ _ _ _) = ''metadata''"
| "dependency_kind (Fd_dep _ _ _) = ''fd''"

fun dependency_path :: "dynamic_dependency \<Rightarrow> string" where
  "dependency_path (Lock_dep p _) = p"
| "dependency_path (File_dep p _ _ _ _) = p"
| "dependency_path (Directory_dep p _ _ _) = p"
| "dependency_path (Absence_dep p _ _) = p"
| "dependency_path (Symlink_dep p _ _) = p"
| "dependency_path (Metadata_dep p _ _ _) = p"
| "dependency_path (Fd_dep _ _ _) = []"

definition observation_fields :: "string list" where
  "observation_fields = [''dev'', ''ino'', ''mode'', ''nlink'', ''uid'', ''gid'', ''rdev'', ''size'', ''blksize'', ''blocks'',
     ''atimeNs'', ''mtimeNs'', ''ctimeNs'']"

definition optionalDigest :: "string option \<Rightarrow> bool" where
  "optionalDigest d \<longleftrightarrow> pred_option isSha256Digest d"

definition validExcludedEntries :: "string list option \<Rightarrow> bool" where
  "validExcludedEntries es \<longleftrightarrow> pred_option (list_all (\<lambda>e. e \<noteq> [] \<and> e \<noteq> ''.'' \<and> e \<noteq> ''..'' \<and>
     CHR ''/'' \<notin> set e \<and> CHR 0x00 \<notin> set e)) es"

fun validDependencyFields :: "dynamic_dependency \<Rightarrow> bool" where
  "validDependencyFields (Fd_dep fd digest _) = (is_count fd \<and> isSha256Digest digest)"
| "validDependencyFields (File_dep p _ digest metadata aliases) =
     (isSha256Digest digest \<and> optionalDigest metadata \<and> pred_option (\<lambda>as. validAliases as p) aliases)"
| "validDependencyFields (Directory_dep _ names metadata excluded) =
     ((case names of None \<Rightarrow> metadata \<noteq> None | Some d \<Rightarrow> isSha256Digest d) \<and> optionalDigest metadata \<and>
      validExcludedEntries excluded)"
| "validDependencyFields (Absence_dep _ names excluded) = (optionalDigest names \<and> validExcludedEntries excluded)"
| "validDependencyFields (Lock_dep _ _) = True"
| "validDependencyFields (Symlink_dep _ target digest) =
     (target \<noteq> [] \<and> CHR 0x00 \<notin> set target \<and> isSha256Digest digest)"
| "validDependencyFields (Metadata_dep _ _ digest fs) =
     (isSha256Digest digest \<and> pred_option (\<lambda>fs. fs \<noteq> [] \<and>
        join_with '','' fs = join_with '','' (filter (\<lambda>f. f \<in> set fs) observation_fields)) fs)"

definition validateDependency :: "dynamic_dependency \<Rightarrow> unit result" where
  "validateDependency d =
     refuse ''invalid dependency path'' (dependency_kind d \<noteq> ''fd'' \<and> \<not> validLogicalPath (dependency_path d))
     (refuse (''invalid '' @ (if dependency_kind d = ''fd'' then ''descriptor'' else
         if dependency_kind d = ''absence'' then ''negative'' else dependency_kind d) @ '' dependency'')
       (\<not> validDependencyFields d) (Inr ()))"

definition number_string :: "hasher \<Rightarrow> js_num \<Rightarrow> string" where
  "number_string hx n = (case n of Fin x \<Rightarrow> hx_num hx x | PInf \<Rightarrow> ''Infinity'' | NInf \<Rightarrow> ''-Infinity'' | NaN \<Rightarrow> ''NaN'')"

fun dynamicDependencyIdentity :: "hasher \<Rightarrow> dynamic_dependency \<Rightarrow> string" where
  "dynamicDependencyIdentity hx (Fd_dep fd _ _) = ''fd:'' @ number_string hx fd"
| "dynamicDependencyIdentity hx (Metadata_dep p follow _ fs) =
     ''metadata:'' @ (if follow then ''follow'' else ''nofollow'') @ '':'' @
     (case fs of Some fs \<Rightarrow> join_with '','' fs @ '':'' | None \<Rightarrow> []) @ p"
| "dynamicDependencyIdentity hx d = dependency_kind d @ '':'' @ dependency_path d"

definition strings_value :: "string list option \<Rightarrow> js_val" where
  "strings_value = optional (\<lambda>ss. JArr (map JStr ss))"

fun role_value :: "dependency_role \<Rightarrow> js_val" where
  "role_value Input_role = JStr ''input''"
| "role_value Executable_role = JStr ''executable''"
| "role_value Shared_object_role = JStr ''shared_object''"

fun dependency_fields :: "dynamic_dependency \<Rightarrow> (string \<times> js_val) list" where
  "dependency_fields (Lock_dep p e) = [(''path'', JStr p), (''exclusive'', JBool e)]"
| "dependency_fields (File_dep p r c m as) = [(''path'', JStr p), (''role'', role_value r), (''contentDigest'', JStr c),
     (''metadataDigest'', optional JStr m), (''aliases'', strings_value as)]"
| "dependency_fields (Directory_dep p e m x) = [(''path'', JStr p), (''entriesDigest'', optional JStr e),
     (''metadataDigest'', optional JStr m), (''excludedEntries'', strings_value x)]"
| "dependency_fields (Absence_dep p e x) = [(''path'', JStr p), (''parentEntriesDigest'', optional JStr e),
     (''parentExcludedEntries'', strings_value x)]"
| "dependency_fields (Symlink_dep p t d) = [(''path'', JStr p), (''target'', JStr t), (''targetDigest'', JStr d)]"
| "dependency_fields (Metadata_dep p f d fs) = [(''path'', JStr p), (''followSymlinks'', JBool f), (''digest'', JStr d),
     (''fields'', strings_value fs)]"
| "dependency_fields (Fd_dep fd c e) = [(''fd'', JNum fd), (''contentDigest'', JStr c), (''eof'', JBool e)]"

definition dependency_value :: "dynamic_dependency \<Rightarrow> js_val" where
  "dependency_value d = JObj ((''kind'', JStr (dependency_kind d)) # dependency_fields d)"

fun canonical_dependency :: "dynamic_dependency \<Rightarrow> dynamic_dependency" where
  "canonical_dependency (Directory_dep p e m x) = Directory_dep p e m (map_option (sort \<circ> uniq) x)"
| "canonical_dependency (Absence_dep p e x) = Absence_dep p e (map_option (sort \<circ> uniq) x)"
| "canonical_dependency d = d"

fun collect_dependencies ::
  "hasher \<Rightarrow> dynamic_dependency list \<Rightarrow> (string, dynamic_dependency) jsmap \<Rightarrow> (string, dynamic_dependency) jsmap result" where
  "collect_dependencies hx [] seen = Inr seen"
| "collect_dependencies hx (source # sources) seen =
     (let d = canonical_dependency source; name = dynamicDependencyIdentity hx d in
      and_then (validateDependency d) (\<lambda>_.
        refuse (''conflicting dependency evidence for '' @ name)
          (case map_of seen name of None \<Rightarrow> False
           | Some e \<Rightarrow> \<not> stableEqual (hx_num hx) (dependency_value e) (dependency_value d))
          (collect_dependencies hx sources (ms_set name d seen))))"

definition normalizeDependencies :: "hasher \<Rightarrow> dynamic_dependency list \<Rightarrow> dynamic_dependency list result" where
  "normalizeDependencies hx ds = and_then (collect_dependencies hx ds []) (\<lambda>seen.
     Inr (map (\<lambda>name. the (map_of seen name)) (sort (ms_keys seen))))"

definition pathset_fields :: "dynamic_dependency \<Rightarrow> (string \<times> js_val) list" where
  "pathset_fields d = (case d of
     Fd_dep fd _ _ \<Rightarrow> [(''kind'', JStr ''fd''), (''fd'', JNum fd)]
   | File_dep p r _ m as \<Rightarrow> [(''kind'', JStr ''file''), (''path'', JStr p), (''role'', role_value r),
       (''metadata'', JBool (m \<noteq> None))] @ (case as of Some as \<Rightarrow> [(''aliases'', JArr (map JStr as))] | None \<Rightarrow> [])
   | Directory_dep p e m x \<Rightarrow> [(''kind'', JStr ''directory''), (''path'', JStr p), (''metadata'', JBool (m \<noteq> None)),
       (''excludedEntries'', JArr (map JStr (case x of Some x \<Rightarrow> x | None \<Rightarrow> [])))] @
       (if e = None then [(''listed'', JBool False)] else [])
   | Absence_dep p e x \<Rightarrow> [(''kind'', JStr ''absence''), (''path'', JStr p), (''captureParent'', JBool (e \<noteq> None)),
       (''parentExcludedEntries'', JArr (map JStr (case x of Some x \<Rightarrow> x | None \<Rightarrow> [])))]
   | Symlink_dep p _ _ \<Rightarrow> [(''kind'', JStr ''symlink''), (''path'', JStr p)]
   | Lock_dep p e \<Rightarrow> [(''kind'', JStr ''lock''), (''path'', JStr p), (''exclusive'', JBool e)]
   | Metadata_dep p f _ fs \<Rightarrow> [(''kind'', JStr ''metadata''), (''path'', JStr p), (''followSymlinks'', JBool f)] @
       (case fs of Some fs \<Rightarrow> [(''fields'', JArr (map JStr fs))] | None \<Rightarrow> []))"

definition dependencyPathsetKey :: "hasher \<Rightarrow> dynamic_dependency list \<Rightarrow> string result" where
  "dependencyPathsetKey hx ds = and_then (normalizeDependencies hx ds) (\<lambda>ds.
     Inr (digestObject hx (JArr (map (JObj \<circ> pathset_fields) ds))))"

definition strong_key_value :: "string \<Rightarrow> dynamic_dependency list \<Rightarrow> js_val" where
  "strong_key_value weak ds = JObj [(''weakKey'', JStr weak), (''dependencies'', JArr (map dependency_value ds))]"

definition strong_key_of :: "hasher \<Rightarrow> string \<Rightarrow> dynamic_dependency list \<Rightarrow> string" where
  "strong_key_of hx weak ds = digestObject hx (strong_key_value weak ds)"

definition processStrongKey :: "hasher \<Rightarrow> string \<Rightarrow> dynamic_dependency list \<Rightarrow> string result" where
  "processStrongKey hx weak ds = and_then (normalizeDependencies hx ds) (\<lambda>ds. Inr (strong_key_of hx weak ds))"

subsection \<open>Results\<close>

datatype file_data = Whole artifact | Chunks manifest

datatype effect_state =
    Absent
  | File_state file_data js_num "string option"
  | Directory_state string js_num js_num js_num

record file_mutation =
  fm_operation :: "string option"
  fm_object :: "(string \<times> bool) option"
  fm_aliases :: "string list option"
  fm_afterAliases :: "string list option"

datatype effect_event =
    Output_event js_num js_num artifact
  | Workspace_event js_num string effect_state effect_state file_mutation

datatype exit_outcome = Exit_code js_num | Exit_signal js_num bool

record description_effect =
  de_id :: js_num
  de_position :: "(ofd_position \<times> ofd_position) option"
  de_flags :: "js_num option"

record object_effect =
  oe_id :: js_num
  oe_consumed :: "js_num option"
  oe_content :: "artifact option"

record resource_transition =
  rt_id :: js_num
  rt_kind :: string
  rt_data :: artifact
  rt_requested :: "js_num option"

record resource_effects =
  re_descriptions :: "description_effect list"
  re_objects :: "object_effect list"
  re_transitions :: "resource_transition list option"

record process_result =
  ps_replayProfile :: string
  ps_observedMs :: "js_num option"
  ps_computation :: js_val
  ps_journal :: "effect_event list"
  ps_resources :: "resource_effects option"
  ps_exit :: "exit_outcome option"
  ps_continuation :: "(string \<times> js_num) option"

definition resource_kinds :: "string list" where
  "resource_kinds = [''consume'', ''peek'', ''produce'', ''shutdown'', ''release'', ''ready'', ''flags'', ''failure'',
     ''receive_message'', ''peek_message'', ''send_message'', ''splice'', ''tee'', ''lock'']"

definition valid_time :: "string \<Rightarrow> bool" where
  "valid_time s \<longleftrightarrow> s \<noteq> [] \<and> list_all is_digit s \<and> (s = ''0'' \<or> hd s \<noteq> CHR ''0'' \<and> length s \<le> 20)"

fun check_references :: "artifact option list \<Rightarrow> size_table \<Rightarrow> size_table result" where
  "check_references [] sizes = Inr sizes"
| "check_references (None # rs) sizes = check_references rs sizes"
| "check_references (Some r # rs) sizes = and_then (validateArtifact r sizes) (check_references rs)"

fun normalizeWorkspaceEffectState :: "effect_state \<Rightarrow> size_table \<Rightarrow> (effect_state \<times> size_table) result" where
  "normalizeWorkspaceEffectState Absent sizes = Inr (Absent, sizes)"
| "normalizeWorkspaceEffectState (File_state data bits modified) sizes =
     refuse ''invalid workspace effect mode'' (\<not> in_range bits 0 511)
     (refuse ''invalid workspace effect time'' (\<not> pred_option valid_time modified)
       (case data of
          Chunks m \<Rightarrow> and_then (parseContentManifest m) (\<lambda>m. and_then (check_references (mf_chunks m) sizes) (\<lambda>sizes.
            Inr (File_state (Chunks m) bits modified, sizes)))
        | Whole r \<Rightarrow> and_then (validateArtifact r sizes) (\<lambda>sizes. Inr (File_state (Whole r) bits modified, sizes))))"
| "normalizeWorkspaceEffectState (Directory_state digest bits uid gid) sizes =
     refuse ''invalid workspace effect mode'' (\<not> in_range bits 0 511)
     (refuse ''invalid directory effect state'' (\<not> isSha256Digest digest \<or> \<not> is_count uid \<or> \<not> is_count gid)
       (Inr (Directory_state digest bits uid gid, sizes)))"

definition artifact_value :: "artifact \<Rightarrow> js_val" where
  "artifact_value r = JObj [(''digest'', JStr (ar_digest r)), (''size'', JNum (ar_size r))]"

definition slot_value :: "artifact option \<Rightarrow> js_val" where
  "slot_value r = (case r of Some r \<Rightarrow> artifact_value r | None \<Rightarrow> JNull)"

fun data_value :: "file_data \<Rightarrow> js_val" where
  "data_value (Whole r) = artifact_value r"
| "data_value (Chunks m) = JObj [(''size'', JNum (mf_size m)), (''digest'', JStr (mf_digest m)),
     (''chunks'', JArr (map slot_value (mf_chunks m)))]"

fun state_value :: "effect_state \<Rightarrow> js_val" where
  "state_value Absent = JObj [(''kind'', JStr ''absent'')]"
| "state_value (File_state d m t) = JObj [(''kind'', JStr ''file''), (''data'', data_value d), (''mode'', JNum m),
     (''modified'', optional JStr t)]"
| "state_value (Directory_state d m u g) = JObj [(''kind'', JStr ''directory''), (''entriesDigest'', JStr d),
     (''mode'', JNum m), (''uid'', JNum u), (''gid'', JNum g)]"

fun state_kind :: "effect_state \<Rightarrow> string" where
  "state_kind Absent = ''absent''"
| "state_kind (File_state _ _ _) = ''file''"
| "state_kind (Directory_state _ _ _ _) = ''directory''"

fun file_mode :: "effect_state \<Rightarrow> js_num option" where
  "file_mode (File_state _ m _) = Some m"
| "file_mode (Directory_state _ m _ _) = Some m"
| "file_mode Absent = None"

fun event_sequence :: "effect_event \<Rightarrow> js_num" where
  "event_sequence (Output_event s _ _) = s"
| "event_sequence (Workspace_event s _ _ _ _) = s"

definition find_workspace :: "string \<Rightarrow> effect_event list \<Rightarrow> (effect_state \<times> effect_state \<times> file_mutation) option" where
  "find_workspace path journal = (case List.map_filter (\<lambda>e. case e of
       Workspace_event _ p b a m \<Rightarrow> if p = path then Some (b, a, m) else None | _ \<Rightarrow> None) journal of
     [] \<Rightarrow> None | x # _ \<Rightarrow> Some x)"

definition bad_anchor :: "effect_event list \<Rightarrow> effect_state \<Rightarrow> file_mutation \<Rightarrow> bool" where
  "bad_anchor journal after m = (case fm_object m of
     None \<Rightarrow> False
   | Some (path, prestate) \<Rightarrow> \<not> validLogicalPath path \<or> (case find_workspace path journal of
       None \<Rightarrow> True
     | Some (b, a, anchor) \<Rightarrow> state_kind after \<noteq> ''file'' \<or> state_kind (if prestate then b else a) \<noteq> ''file'' \<or>
         (\<not> prestate \<and> fm_object anchor \<noteq> None)))"

definition predecessor_of :: "effect_event list \<Rightarrow> effect_state \<Rightarrow> file_mutation \<Rightarrow> effect_state" where
  "predecessor_of journal before m = (case fm_object m of
     Some (path, True) \<Rightarrow> (case find_workspace path journal of Some (b, _) \<Rightarrow> b | None \<Rightarrow> before)
   | _ \<Rightarrow> before)"

definition check_change ::
  "hasher \<Rightarrow> effect_event list \<Rightarrow> string \<Rightarrow> effect_state \<Rightarrow> effect_state \<Rightarrow> file_mutation \<Rightarrow> unit result" where
  "check_change hx journal path before after m =
     refuse ''invalid file object anchor'' (bad_anchor journal after m)
     (refuse ''invalid in-place file effect''
       (let old = predecessor_of journal before m in
        fm_operation m \<noteq> None \<and> (fm_operation m \<noteq> Some ''write_contents'' \<or> state_kind old \<noteq> ''file'' \<or>
          state_kind after \<noteq> ''file'' \<or> (fm_object m = None \<and> file_mode old \<noteq> file_mode after)))
     (refuse ''invalid effect alias set''
       ((case fm_aliases m of None \<Rightarrow> False | Some as \<Rightarrow> state_kind before \<noteq> ''file'' \<or> \<not> validAliases as path) \<or>
        (case fm_afterAliases m of None \<Rightarrow> False | Some as \<Rightarrow> state_kind after \<noteq> ''file'' \<or> \<not> validAliases as path))
     (refuse ''workspace effect does not change state''
       (fm_operation m \<in> {None, Some []} \<and> fm_object m = None \<and> state_kind before = state_kind after \<and>
        stableEqual (hx_num hx) (state_value before) (state_value after))
       (Inr ()))))"

fun journal_loop ::
  "hasher \<Rightarrow> effect_event list \<Rightarrow> effect_event list \<Rightarrow> size_table \<Rightarrow> effect_event list result" where
  "journal_loop hx done [] sizes = Inr done"
| "journal_loop hx done (e # rest) sizes =
     refuse ''invalid effect sequence'' (\<not> is_count (event_sequence e))
     (refuse ''duplicate effect sequence'' (done \<noteq> [] \<and> event_sequence e = event_sequence (last done))
       (case e of
          Output_event _ _ r \<Rightarrow> and_then (validateArtifact r sizes) (journal_loop hx (done @ [e]) rest)
        | Workspace_event s path before after m \<Rightarrow>
            refuse ''invalid effect path'' (\<not> validLogicalPath path)
            (and_then (normalizeWorkspaceEffectState before sizes) (\<lambda>(before, sizes).
             and_then (normalizeWorkspaceEffectState after sizes) (\<lambda>(after, sizes).
             and_then (check_change hx (done @ e # rest) path before after m) (\<lambda>_.
               journal_loop hx (done @ [Workspace_event s path before after m]) rest sizes))))))"

definition bad_description :: "description_effect \<Rightarrow> descriptor \<Rightarrow> bool" where
  "bad_description e d \<longleftrightarrow> de_id e \<noteq> fd_number d \<or>
     (if fd_type d \<in> {Regular, Directory_fd}
      then (case de_position e of None \<Rightarrow> True
        | Some (before, after) \<Rightarrow> Some before \<noteq> fd_offset d \<or> \<not> isOFDPosition after)
      else de_position e \<noteq> None) \<or>
     (case de_flags e of None \<Rightarrow> False | Some n \<Rightarrow> \<not> in_range n 0 0x7fffffff)"

fun check_objects :: "object_effect list \<Rightarrow> descriptor list \<Rightarrow> size_table \<Rightarrow> size_table result" where
  "check_objects (e # es) (d # ds) sizes =
     refuse ''invalid inherited OFD object transition''
       (oe_id e \<noteq> fd_number d \<or>
        (if fd_type d \<in> {Pipe, Socket} then (case oe_consumed e of None \<Rightarrow> True | Some n \<Rightarrow> \<not> is_count n)
         else oe_consumed e \<noteq> None) \<or>
        (oe_content e \<noteq> None \<and> fd_type d \<noteq> Regular))
     (and_then (case oe_content e of Some r \<Rightarrow> validateArtifact r sizes | None \<Rightarrow> Inr sizes) (check_objects es ds))"
| "check_objects _ _ sizes = Inr sizes"

definition ends_with :: "string \<Rightarrow> string \<Rightarrow> bool" where
  "ends_with s t \<longleftrightarrow> length t \<le> length s \<and> drop (length s - length t) s = t"

definition bad_transition :: "resource_transition \<Rightarrow> descriptor \<Rightarrow> bool" where
  "bad_transition e d \<longleftrightarrow> (let k = rt_kind e; n = ar_size (rt_data e); t = fd_type d in
     \<not> (if t = Regular then k = ''lock'' \<or> k = ''release'' else stream_type t \<and> k \<noteq> ''lock'') \<or>
     k \<notin> set resource_kinds \<or>
     (case rt_requested e of None \<Rightarrow> False
      | Some r \<Rightarrow> \<not> in_range r 0 (2 * 1024 * 1024) \<or> k = ''produce'' \<and> num_less r n) \<or>
     num_less (Fin (if k = ''produce'' then 4096 else 2 * 1024 * 1024)) n \<or>
     (k = ''shutdown'' \<or> k = ''release'') \<and> (n \<noteq> Fin 1 \<or> k = ''shutdown'' \<and> t \<noteq> Socket) \<or>
     ends_with k ''_message'' \<and> (t \<noteq> Socket \<or> num_less n (Fin 4)) \<or>
     (k = ''splice'' \<or> k = ''tee'') \<and> (t \<noteq> Pipe \<or> num_less n (Fin 4) \<or> num_less (Fin 4100) n) \<or>
     (if k = ''ready'' then n \<noteq> Fin 12
      else (k = ''flags'' \<or> k = ''failure'') \<and> n \<noteq> Fin 4 \<and> \<not> (t = Eventfd \<and> k = ''failure'' \<and> n = Fin 12)))"

fun check_transitions :: "resource_transition list \<Rightarrow> descriptor list \<Rightarrow> size_table \<Rightarrow> size_table result" where
  "check_transitions [] descriptions sizes = Inr sizes"
| "check_transitions (e # es) descriptions sizes =
     refuse ''invalid stream transition''
       (case find (\<lambda>d. fd_number d = rt_id e) descriptions of None \<Rightarrow> True | Some d \<Rightarrow> bad_transition e d)
     (and_then (validateArtifact (rt_data e) sizes) (check_transitions es descriptions))"

definition check_resources :: "descriptor list \<Rightarrow> resource_effects \<Rightarrow> size_table \<Rightarrow> size_table result" where
  "check_resources descriptors r sizes =
     (let descriptions = filter (\<lambda>d. fd_alias d = Some (fd_number d)) descriptors;
          objs = filter (\<lambda>d. fd_object d = Some (fd_number d)) descriptors in
      refuse ''incomplete inherited OFD resource effects''
        (length (re_descriptions r) \<noteq> length descriptions \<or> length (re_objects r) \<noteq> length objs)
      (refuse ''invalid inherited OFD state transition''
        (list_ex (\<lambda>(e, d). bad_description e d) (zip (re_descriptions r) descriptions))
      (and_then (check_objects (re_objects r) objs sizes) (\<lambda>sizes.
       refuse ''invalid stream journal'' (case re_transitions r of None \<Rightarrow> False | Some ts \<Rightarrow> 1024 < length ts)
         (check_transitions (case re_transitions r of Some ts \<Rightarrow> ts | None \<Rightarrow> []) descriptions sizes)))))"

definition normalizeResult :: "hasher \<Rightarrow> prototype \<Rightarrow> process_result \<Rightarrow> process_result result" where
  "normalizeResult hx p r =
     (let computation = (case normalizeTimelineComputation (ps_computation r) of
            Some c \<Rightarrow> timeline_value c | None \<Rightarrow> JUndef);
          journal = sort_key (num_key \<circ> event_sequence) (ps_journal r);
          descriptors = filter (\<lambda>d. fd_alias d \<noteq> None) (pt_inheritedFDs p);
          sizes = (case ps_continuation r of Some (digest, n) \<Rightarrow> [(digest, n)] | None \<Rightarrow> []) in
      refuse ''unsupported replay profile'' (ps_replayProfile r \<noteq> ''buffered_noninteractive'')
      (refuse ''invalid process continuation'' (case ps_continuation r of None \<Rightarrow> False
        | Some (digest, n) \<Rightarrow> ps_exit r \<noteq> None \<or> \<not> isSha256Digest digest \<or> \<not> in_range n 1 (65 * 1024 * 1024))
      (refuse ''process has neither exit nor continuation'' (ps_continuation r = None \<and> ps_exit r = None)
      (refuse ''invalid observed process duration''
        (case ps_observedMs r of None \<Rightarrow> False | Some (Fin x) \<Rightarrow> x < 0 | Some _ \<Rightarrow> True)
      (refuse ''missing inherited OFD resource effects'' (ps_resources r = None \<and> descriptors \<noteq> [])
      (and_then (case ps_resources r of Some e \<Rightarrow> check_resources descriptors e sizes | None \<Rightarrow> Inr sizes) (\<lambda>sizes.
       and_then (journal_loop hx [] journal sizes) (\<lambda>journal.
         Inr (r\<lparr>ps_computation := computation, ps_journal := journal,
           ps_exit := (if ps_continuation r = None then ps_exit r else None)\<rparr>)))))))))"

subsection \<open>Sealing and parsing\<close>

record dependency_certificate =
  dc_complete :: bool
  dc_dependencies :: "dynamic_dependency list"
  dc_taints :: "string list"

record certificate_input =
  ci_prototype :: prototype
  ci_producer :: producer_proof
  ci_evidence :: dependency_certificate
  ci_result :: process_result
  ci_createdAt :: "js_num option"

record certificate =
  ct_id :: string
  ct_weakKey :: string
  ct_strongKey :: string
  ct_prototype :: prototype
  ct_producer :: producer_proof
  ct_evidence :: dependency_certificate
  ct_result :: process_result
  ct_createdAt :: js_num

fun position_value :: "ofd_position \<Rightarrow> js_val" where
  "position_value (Position n) = JNum n"
| "position_value (Cookie s) = JStr s"

fun type_value :: "fd_type \<Rightarrow> js_val" where
  "type_value Closed_fd = JStr ''closed''"
| "type_value Regular = JStr ''regular''"
| "type_value Null_fd = JStr ''null''"
| "type_value Directory_fd = JStr ''directory''"
| "type_value Pipe = JStr ''pipe''"
| "type_value Socket = JStr ''socket''"
| "type_value Eventfd = JStr ''eventfd''"
| "type_value Tty = JStr ''tty''"
| "type_value Device = JStr ''device''"
| "type_value Other_fd = JStr ''other''"

definition entry_value :: "environment_entry \<Rightarrow> js_val" where
  "entry_value e = JObj [(''name'', JStr (en_name e)), (''present'', JBool (en_present e)),
     (''valueDigest'', optional JStr (en_valueDigest e))]"

definition descriptor_value :: "descriptor \<Rightarrow> js_val" where
  "descriptor_value d = JObj [(''fd'', JNum (fd_number d)), (''installed'', optional JBool (fd_installed d)),
     (''type'', type_value (fd_type d)), (''flagsDigest'', JStr (fd_flagsDigest d)),
     (''endpointDigest'', optional JStr (fd_endpointDigest d)), (''contentDigest'', optional JStr (fd_contentDigest d)),
     (''offset'', optional position_value (fd_offset d)), (''alias'', optional JNum (fd_alias d)),
     (''object'', optional JNum (fd_object d)), (''resourcePath'', optional JStr (fd_resourcePath d)),
     (''resourceAliases'', strings_value (fd_resourceAliases d)), (''eof'', optional JBool (fd_eof d))]"

definition stdin_value :: "process_stdin \<Rightarrow> js_val" where
  "stdin_value s = JObj [(''type'', JStr (if si_bytes s then ''bytes'' else ''closed'')),
     (''digest'', optional JStr (si_digest s)), (''eof'', JBool (si_eof s))]"

definition prototype_value :: "prototype \<Rightarrow> js_val" where
  "prototype_value p = JObj [(''executablePath'', JStr (pt_executablePath p)),
     (''invocation'', strings_value (pt_invocation p)), (''executableDigest'', JStr (pt_executableDigest p)),
     (''argvDigest'', JStr (pt_argvDigest p)), (''logicalCwd'', JStr (pt_logicalCwd p)),
     (''environment'', JArr (map entry_value (pt_environment p))),
     (''environmentComplete'', JBool (pt_environmentComplete p)), (''umask'', JNum (pt_umask p)),
     (''processContextDigest'', JStr (pt_contextDigest p)), (''stdin'', stdin_value (pt_stdin p)),
     (''fileDescriptorTableComplete'', JBool (pt_tableComplete p)),
     (''inheritedFDs'', JArr (map descriptor_value (pt_inheritedFDs p))),
     (''platformFingerprint'', JStr (pt_platform p))]"

definition weak_key_value :: "prototype \<Rightarrow> js_val" where
  "weak_key_value p = JObj [(''prototype'', prototype_value p)]"

definition weak_key_of :: "hasher \<Rightarrow> prototype \<Rightarrow> string" where
  "weak_key_of hx p = digestObject hx (weak_key_value p)"

definition processWeakKey :: "hasher \<Rightarrow> prototype \<Rightarrow> string result" where
  "processWeakKey hx p = and_then (normalizePrototype hx p) (\<lambda>p. Inr (weak_key_of hx p))"

definition proof_value :: "identity_proof \<Rightarrow> js_val" where
  "proof_value i = JObj [(''provider'', JStr (ip_provider i)), (''fingerprint'', JStr (ip_fingerprint i))]"

definition producer_proof_value :: "producer_proof \<Rightarrow> js_val" where
  "producer_proof_value p = JObj [(''observer'', proof_value (pp_observer p)), (''execution'', case pp_execution p of
     Actor_execution \<Rightarrow> JObj [(''authority'', JStr ''actor'')]
   | Speculative_execution c \<Rightarrow> JObj [(''authority'', JStr ''speculative''), (''confinement'', proof_value c)])]"

definition evidence_value :: "dependency_certificate \<Rightarrow> js_val" where
  "evidence_value c = JObj [(''complete'', JBool (dc_complete c)),
     (''dependencies'', JArr (map dependency_value (dc_dependencies c))), (''taints'', JArr (map JStr (dc_taints c)))]"

definition mutation_fields :: "file_mutation \<Rightarrow> (string \<times> js_val) list" where
  "mutation_fields m = [(''operation'', optional JStr (fm_operation m)),
     (''object'', optional (\<lambda>(p, b). JObj [(''path'', JStr p), (''before'', JBool b)]) (fm_object m)),
     (''aliases'', strings_value (fm_aliases m)), (''afterAliases'', strings_value (fm_afterAliases m))]"

fun event_value :: "effect_event \<Rightarrow> js_val" where
  "event_value (Output_event s fd r) = JObj [(''sequence'', JNum s), (''kind'', JStr ''output''), (''fd'', JNum fd),
     (''data'', artifact_value r)]"
| "event_value (Workspace_event s p b a m) = JObj ([(''sequence'', JNum s), (''kind'', JStr ''workspace''), (''path'', JStr p),
     (''before'', state_value b), (''after'', state_value a)] @ mutation_fields m)"

definition resources_value :: "resource_effects \<Rightarrow> js_val" where
  "resources_value r = JObj
     [(''descriptions'', JArr (map (\<lambda>e. JObj [(''id'', JNum (de_id e)),
        (''position'', optional (\<lambda>(b, a). JObj [(''before'', position_value b), (''after'', position_value a)]) (de_position e)),
        (''flags'', optional JNum (de_flags e))]) (re_descriptions r))),
      (''objects'', JArr (map (\<lambda>e. JObj [(''id'', JNum (oe_id e)), (''consumed'', optional JNum (oe_consumed e)),
        (''content'', optional artifact_value (oe_content e))]) (re_objects r))),
      (''transitions'', optional (\<lambda>ts. JArr (map (\<lambda>e. JObj [(''id'', JNum (rt_id e)), (''kind'', JStr (rt_kind e)),
        (''data'', artifact_value (rt_data e)), (''requested'', optional JNum (rt_requested e))]) ts)) (re_transitions r))]"

fun exit_value :: "exit_outcome \<Rightarrow> js_val" where
  "exit_value (Exit_code n) = JObj [(''kind'', JStr ''code''), (''code'', JNum n)]"
| "exit_value (Exit_signal n dumped) = JObj [(''kind'', JStr ''signal''), (''signal'', JNum n), (''coreDumped'', JBool dumped)]"

text \<open>The result without its timing.\<close>

definition semantic_result_value :: "process_result \<Rightarrow> js_val" where
  "semantic_result_value r = JObj [(''replayProfile'', JStr (ps_replayProfile r)),
     (''journal'', JArr (map event_value (ps_journal r))), (''resources'', optional resources_value (ps_resources r)),
     (''exit'', optional exit_value (ps_exit r)),
     (''continuation'', optional (\<lambda>(d, n). JObj [(''imageDigest'', JStr d), (''imageBytes'', JNum n)]) (ps_continuation r))]"

definition content_value :: "certificate \<Rightarrow> js_val" where
  "content_value c = JObj [(''weakKey'', JStr (ct_weakKey c)), (''strongKey'', JStr (ct_strongKey c)),
     (''prototype'', prototype_value (ct_prototype c)), (''producer'', producer_proof_value (ct_producer c)),
     (''dependencyCertificate'', evidence_value (ct_evidence c)), (''result'', semantic_result_value (ct_result c))]"

definition certificateContentKey :: "hasher \<Rightarrow> certificate \<Rightarrow> string" where
  "certificateContentKey hx c = digestObject hx (content_value c)"

definition sealProcessCertificate :: "hasher \<Rightarrow> js_num \<Rightarrow> certificate_input \<Rightarrow> certificate result" where
  "sealProcessCertificate hx now c =
     and_then (normalizePrototype hx (ci_prototype c)) (\<lambda>p.
     and_then (normalizeProducerProof (ci_producer c)) (\<lambda>producer.
     and_then (normalizeDependencies hx (dc_dependencies (ci_evidence c))) (\<lambda>ds.
     let evidence = \<lparr>dc_complete = dc_complete (ci_evidence c), dc_dependencies = ds,
           dc_taints = sort (uniq (dc_taints (ci_evidence c)))\<rparr> in
     and_then (normalizeResult hx p (ci_result c)) (\<lambda>r.
     let weak = weak_key_of hx p;
         body = \<lparr>ct_id = [], ct_weakKey = weak, ct_strongKey = strong_key_of hx weak ds, ct_prototype = p,
           ct_producer = producer, ct_evidence = evidence, ct_result = r,
           ct_createdAt = count_num (nonNegativeCount (JNum (case ci_createdAt c of Some t \<Rightarrow> t | None \<Rightarrow> now)))\<rparr> in
     Inr (body\<lparr>ct_id := certificateContentKey hx body\<rparr>)))))"

definition as_input :: "certificate \<Rightarrow> certificate_input" where
  "as_input c = \<lparr>ci_prototype = ct_prototype c, ci_producer = ct_producer c, ci_evidence = ct_evidence c,
     ci_result = ct_result c, ci_createdAt = Some (ct_createdAt c)\<rparr>"

definition parseProcessCertificate :: "hasher \<Rightarrow> js_num \<Rightarrow> certificate \<Rightarrow> certificate option" where
  "parseProcessCertificate hx now c =
     (if \<not> isSha256Digest (ct_id c) then None
      else case sealProcessCertificate hx now (as_input c) of
        Inl _ \<Rightarrow> None
      | Inr s \<Rightarrow> if ct_id s \<noteq> ct_id c \<or> ct_weakKey s \<noteq> ct_weakKey c \<or> ct_strongKey s \<noteq> ct_strongKey c
          then None else Some s)"

subsection \<open>Use of a certificate\<close>

definition put_reference :: "artifact \<Rightarrow> (string, artifact) jsmap \<Rightarrow> (string, artifact) jsmap" where
  "put_reference r m = ms_set (ar_digest r) r m"

fun state_references :: "effect_state \<Rightarrow> artifact list" where
  "state_references (File_state (Chunks m) _ _) = List.map_filter id (mf_chunks m)"
| "state_references (File_state (Whole r) _ _) = [r]"
| "state_references _ = []"

fun event_references :: "effect_event \<Rightarrow> artifact list" where
  "event_references (Output_event _ _ r) = [r]"
| "event_references (Workspace_event _ _ b a _) = state_references b @ state_references a"

definition result_references :: "process_result \<Rightarrow> artifact list" where
  "result_references r =
     (case ps_continuation r of Some (d, n) \<Rightarrow> [\<lparr>ar_digest = d, ar_size = n\<rparr>] | None \<Rightarrow> []) @
     concat (map event_references (ps_journal r)) @
     (case ps_resources r of None \<Rightarrow> [] | Some e \<Rightarrow> List.map_filter oe_content (re_objects e)) @
     (case ps_resources r of None \<Rightarrow> []
      | Some e \<Rightarrow> map rt_data (case re_transitions e of Some ts \<Rightarrow> ts | None \<Rightarrow> []))"

definition referencedArtifacts :: "process_result \<Rightarrow> artifact list" where
  "referencedArtifacts r = ms_vals (fold put_reference (result_references r) [])"

definition certificateReplayable :: "prototype \<Rightarrow> dependency_certificate \<Rightarrow> process_result \<Rightarrow> string list \<Rightarrow> bool" where
  "certificateReplayable p evidence r accepted =
     (let inp = find (\<lambda>d. fd_number d = Fin 0) (pt_inheritedFDs p); stdin = pt_stdin p;
          replayable = \<not> si_bytes stdin \<or> (has_digest (si_digest stdin) \<and> (si_eof stdin \<or>
            (case inp of None \<Rightarrow> False
             | Some d \<Rightarrow> fd_type d \<in> {Pipe, Socket} \<and> fd_eof d = Some False \<and> fd_contentDigest d = si_digest stdin \<and>
                 (case ps_resources r of None \<Rightarrow> False
                  | Some e \<Rightarrow> list_ex (\<lambda>x. Some (oe_id x) = fd_object d \<and> oe_consumed x \<noteq> None) (re_objects e))))) in
      dc_complete evidence \<and> list_all (\<lambda>t. t \<in> set accepted) (dc_taints evidence) \<and> pt_environmentComplete p \<and>
      pt_tableComplete p \<and> replayable)"

end
