(* ===== verification/Certificate_Keys.thy ===== *)
theory Certificate_Keys
  imports Certificates "HOL-Library.Multiset"
begin

text \<open>
  What the certificates of \<open>Certificates\<close> guarantee: normalization changes nothing the second time, so a sealed
  certificate is sealed and parsed as itself; dependency evidence is accepted exactly when it is valid and free of
  conflicts, whatever its order; and equal keys mean equal normal forms when the digests involved do not collide.
\<close>

subsection \<open>Sorting again\<close>

lemma sort_key_sorted: "sorted (map f xs) \<Longrightarrow> sort_key f xs = xs"
proof (induction xs)
  case (Cons x xs)
  then show ?case by (cases xs) (auto simp: insort_is_Cons)
qed simp

lemma sort_key_again [simp]: "sort_key f (sort_key f xs) = sort_key f xs"
  by (rule sort_key_sorted) simp

subsection \<open>Environments and descriptor tables\<close>

definition entry_ok :: "environment_entry \<Rightarrow> bool" where
  "entry_ok e \<longleftrightarrow> en_name e \<noteq> [] \<and> CHR ''='' \<notin> set (en_name e) \<and> CHR 0x00 \<notin> set (en_name e) \<and>
     (en_present e \<longrightarrow> has_digest (en_valueDigest e))"

definition canonical_entry :: "environment_entry \<Rightarrow> environment_entry" where
  "canonical_entry e = \<lparr>en_name = en_name e, en_present = en_present e,
     en_valueDigest = (if en_present e then en_valueDigest e else None)\<rparr>"

lemma environment_iff:
  "normalize_environment es names = Inr rs \<longleftrightarrow>
     list_all entry_ok es \<and> distinct (map en_name es) \<and> set (map en_name es) \<inter> set names = {} \<and> rs = map canonical_entry es"
proof (induction es names arbitrary: rs rule: normalize_environment.induct)
  case (2 e es names)
  let ?d = "if en_present e then en_valueDigest e else None"
  have "(en_name e = [] \<or> CHR ''='' \<in> set (en_name e) \<or> CHR 0x00 \<in> set (en_name e) \<or>
      (en_present e \<and> \<not> (case ?d of Some d \<Rightarrow> isSha256Digest d | None \<Rightarrow> False))) \<longleftrightarrow> \<not> entry_ok e"
    by (auto simp: entry_ok_def has_digest_def)
  moreover have "\<lparr>en_name = en_name e, en_present = en_present e, en_valueDigest = ?d\<rparr> = canonical_entry e"
    by (simp add: canonical_entry_def)
  ultimately show ?case
    unfolding normalize_environment.simps Let_def refuse_Inr and_then_Inr using 2 [OF refl] by auto
qed auto

lemma canonical_entry_simps [simp]:
  "en_name (canonical_entry e) = en_name e" "entry_ok (canonical_entry e) = entry_ok e"
  "canonical_entry (canonical_entry e) = canonical_entry e"
  by (simp_all add: canonical_entry_def entry_ok_def)

lemma environment_again:
  assumes "normalize_environment es [] = Inr rs"
  shows "normalize_environment (sort_key en_name rs) [] = Inr (sort_key en_name rs)"
proof -
  have rs: "rs = map canonical_entry es" "list_all entry_ok es" "distinct (map en_name es)" using assms by (simp_all add: environment_iff)
  have names: "map en_name rs = map en_name es" by (simp add: rs(1))
  have "distinct (map en_name (sort_key en_name rs))"
    using rs(3) unfolding names [symmetric] by (simp add: distinct_map)
  moreover have "\<forall>e \<in> set (sort_key en_name rs). entry_ok e \<and> canonical_entry e = e" using rs(1,2) by (auto simp: list_all_iff)
  ultimately show ?thesis unfolding environment_iff by (auto simp: list_all_iff intro: map_idI [symmetric])
qed

definition row_ok :: "descriptor \<Rightarrow> bool" where
  "row_ok d \<longleftrightarrow> is_count (fd_number d) \<and> isSha256Digest (fd_flagsDigest d) \<and>
     (case fd_installed d of None \<Rightarrow> True
      | Some b \<Rightarrow> \<not> b \<and> \<not> num_less (fd_number d) (Fin 3) \<and> fd_alias d = Some (fd_number d)) \<and>
     pred_option isSha256Digest (fd_endpointDigest d) \<and> pred_option isSha256Digest (fd_contentDigest d)"

lemma descriptors_iff:
  "read_descriptors ds tbl = Inr t \<longleftrightarrow> list_all row_ok ds \<and> distinct (map fd_number ds) \<and>
     set (map fd_number ds) \<inter> set (ms_keys tbl) = {} \<and> t = tbl @ map (\<lambda>d. (fd_number d, d)) ds"
proof (induction ds tbl arbitrary: t rule: read_descriptors.induct)
  case (2 d ds tbl)
  have row: "row_ok d \<longleftrightarrow> is_count (fd_number d) \<and> isSha256Digest (fd_flagsDigest d) \<and>
      \<not> (case fd_installed d of None \<Rightarrow> False | Some b \<Rightarrow> b \<or> num_less (fd_number d) (Fin 3) \<or> fd_alias d \<noteq> Some (fd_number d)) \<and>
      \<not> (\<not> pred_option isSha256Digest (fd_endpointDigest d) \<or> \<not> pred_option isSha256Digest (fd_contentDigest d))"
    by (auto simp: row_ok_def split: option.splits)
  show ?case
  proof (cases "ms_has tbl (fd_number d)")
    case True
    then show ?thesis by (auto simp: refuse_def ms_has_def)
  next
    case False
    then have new: "ms_set (fd_number d) d tbl = tbl @ [(fd_number d, d)]" by (simp add: ms_set_new ms_has_def)
    show ?thesis unfolding read_descriptors.simps refuse_Inr new 2 [unfolded new] using False row by (auto simp: ms_has_def)
  qed
qed auto

lemma bad_alias_cong: "map_of t = map_of u \<Longrightarrow> bad_alias hx t = bad_alias hx u"
  by (intro ext) (simp add: bad_alias_def)

lemma check_descriptors_cong:
  assumes "map_of t = map_of u"
  shows "check_descriptors hx t ds = check_descriptors hx u ds"
  by (induction ds) (simp_all add: bad_alias_cong [OF assms] cong: option.case_cong)

lemma descriptors_sorted:
  assumes "read_descriptors ds [] = Inr t"
  shows "\<exists>u. read_descriptors (sort_key f ds) [] = Inr u \<and> map_of u = map_of t"
proof -
  have ds: "list_all row_ok ds" "distinct (map fd_number ds)" "t = map (\<lambda>d. (fd_number d, d)) ds"
    using assms by (simp_all add: descriptors_iff)
  let ?u = "map (\<lambda>d. (fd_number d, d)) (sort_key f ds)"
  have d: "distinct (map fd_number (sort_key f ds))" using ds(2) by (simp add: distinct_map)
  then have "read_descriptors (sort_key f ds) [] = Inr ?u" using ds(1) by (simp add: descriptors_iff list_all_iff)
  moreover have "map_of ?u = map_of t"
    using d ds(2) by (subst map_of_inject_set) (simp_all add: comp_def ds(3))
  ultimately show ?thesis by blast
qed

lemma prototype_again:
  assumes "normalizePrototype hx p = Inr q"
  shows "normalizePrototype hx q = Inr q"
proof -
  let ?ds = "sort_key (num_key \<circ> fd_number) (pt_inheritedFDs p)"
  define invocation where "invocation = (case pt_invocation p of Some i \<Rightarrow> i | None \<Rightarrow> default_invocation (pt_executablePath p))"
  obtain env tbl where env: "normalize_environment (pt_environment p) [] = Inr env"
    and tbl: "read_descriptors (pt_inheritedFDs p) [] = Inr tbl" "check_descriptors hx tbl ?ds = Inr ()"
    and q: "q = p\<lparr>pt_invocation := Some invocation, pt_environment := sort_key en_name env, pt_inheritedFDs := ?ds\<rparr>"
    and ok: "length invocation = 2" "list_all (\<lambda>v. v \<noteq> [] \<and> CHR 0x00 \<notin> set v) invocation" "pt_environmentComplete p"
      "pt_tableComplete p" "validLogicalPath (pt_executablePath p)" "validLogicalPath (pt_logicalCwd p)" "pt_platform p \<noteq> []"
      "in_range (pt_umask p) 0 511" "list_all isSha256Digest [pt_executableDigest p, pt_argvDigest p, pt_contextDigest p]"
      "si_bytes (pt_stdin p) \<longrightarrow> has_digest (si_digest (pt_stdin p))" "pred_option isSha256Digest (si_digest (pt_stdin p))"
    using assms unfolding normalizePrototype_def Let_def invocation_def [symmetric] refuse_Inr and_then_Inr by auto
  obtain u where u: "read_descriptors ?ds [] = Inr u" "map_of u = map_of tbl"
    using descriptors_sorted [OF tbl(1)] by blast
  have "check_descriptors hx u ?ds = Inr ()" using check_descriptors_cong [OF u(2)] tbl(2) by metis
  then show ?thesis
    unfolding normalizePrototype_def Let_def refuse_Inr and_then_Inr
    using ok environment_again [OF env] u(1) by (simp add: q)
qed

lemma producer_again: "normalizeProducerProof p = Inr q \<Longrightarrow> q = p"
  by (auto simp: normalizeProducerProof_def split: execution_proof.splits)

subsection \<open>Texts of values\<close>

text \<open>Values with the same text have members with the same text.\<close>

definition same_text :: "(real \<Rightarrow> string) \<Rightarrow> js_val \<Rightarrow> js_val \<Rightarrow> bool" where
  "same_text num l r \<longleftrightarrow> tree num l = tree num r"

lemma same_text_member:
  assumes "same_text num (JObj fs) (JObj gs)"
  shows "same_text num (field fs k) (field gs k)"
proof -
  have "defined_members (map (\<lambda>(k, v). (k, tree num v)) fs) = defined_members (map (\<lambda>(k, v). (k, tree num v)) gs)"
    using assms by (simp add: same_text_def)
  then show ?thesis unfolding same_text_def field_member by (metis map_of_defined_members)
qed

lemma same_text_simps [simp]:
  "same_text num (JStr s) (JStr t) \<longleftrightarrow> s = t"
  "same_text num (JBool b) (JBool c) \<longleftrightarrow> b = c"
  "same_text num JUndef (JStr s) \<longleftrightarrow> False" "same_text num (JStr s) JUndef \<longleftrightarrow> False"
  "same_text num JUndef (JBool b) \<longleftrightarrow> False" "same_text num (JBool b) JUndef \<longleftrightarrow> False"
  "same_text num JUndef JUndef"
  by (auto simp: same_text_def)

lemma same_text_optional:
  assumes "\<And>x y. same_text num (f x) (f y) \<Longrightarrow> x = y" and "\<And>x. tree num (f x) \<noteq> None"
    and "same_text num (optional f a) (optional f b)"
  shows "a = b"
proof (cases a; cases b)
  fix x y assume "a = Some x" "b = Some y"
  then show ?thesis using assms(1,3) by (simp add: optional_def)
next
  fix x assume "a = Some x" "b = None"
  then show ?thesis using assms(2) [of x] assms(3) by (simp add: optional_def same_text_def)
next
  fix y assume "a = None" "b = Some y"
  then show ?thesis using assms(2) [of y] assms(3) by (simp add: optional_def same_text_def eq_commute [of None])
qed simp

lemma same_text_array:
  assumes "\<And>x y. x \<in> set xs \<Longrightarrow> y \<in> set ys \<Longrightarrow> same_text num (f x) (f y) \<Longrightarrow> x = y" and "\<And>x. tree num (f x) \<noteq> None"
    and "same_text num (JArr (map f xs)) (JArr (map f ys))"
  shows "xs = ys"
  using assms(1,3)
proof (induction xs arbitrary: ys)
  case (Cons x xs)
  then obtain y zs where ys: "ys = y # zs" by (cases ys) (auto simp: same_text_def)
  obtain s t where "tree num (f x) = Some s" "tree num (f y) = Some t" using assms(2) [of x] assms(2) [of y] by auto
  then have "same_text num (f x) (f y)" "same_text num (JArr (map f xs)) (JArr (map f zs))"
    using Cons.prems(2) by (auto simp: same_text_def ys or_null_tree_def)
  then show ?case using Cons.IH [of zs] Cons.prems(1) by (auto simp: ys)
qed (auto simp: same_text_def)

lemma tree_text [simp]: "tree num (JStr s) \<noteq> None" "tree num (JBool b) \<noteq> None" "tree num (JObj fs) \<noteq> None"
  "tree num (JArr vs) \<noteq> None"
  by simp_all

lemma number_text_exists [simp]: "\<exists>t. json_primitive num (JNum n) = Some t"
  by (cases n) simp_all

lemma same_text_strings:
  "same_text num (JArr (map JStr a)) (JArr (map JStr b)) \<Longrightarrow> a = b"
  by (rule same_text_array [where f = JStr]) auto

lemma same_text_strings_iff [simp]: "same_text num (JArr (map JStr a)) (JArr (map JStr b)) \<longleftrightarrow> a = b"
  using same_text_strings by (auto simp: same_text_def)

lemma same_text_option [simp]:
  "same_text num (optional JStr a) (optional JStr b) \<longleftrightarrow> a = b"
  "same_text num (optional JBool c) (optional JBool d) \<longleftrightarrow> c = d"
  by (cases a; cases b; simp add: optional_def) (cases c; cases d; simp add: optional_def)

lemma same_text_strings_value [simp]: "same_text num (strings_value a) (strings_value b) \<longleftrightarrow> a = b"
  by (cases a; cases b; simp add: strings_value_def optional_def) (simp_all add: same_text_def)

text \<open>The texts of different counts differ; the values below hold no other numbers.\<close>

definition count_text :: "(real \<Rightarrow> string) \<Rightarrow> bool" where
  "count_text num \<longleftrightarrow> (\<forall>j k :: nat. num (real j) = num (real k) \<longrightarrow> j = k)"

definition plain_num :: "js_num \<Rightarrow> bool" where
  "plain_num n \<longleftrightarrow> (\<exists>k. n = count_num k)"

lemma same_text_num [simp]:
  "count_text num \<Longrightarrow> plain_num m \<Longrightarrow> plain_num n \<Longrightarrow> same_text num (JNum m) (JNum n) \<longleftrightarrow> m = n"
  by (auto simp: plain_num_def same_text_def count_text_def count_num_def)

lemma range_plain: "0 \<le> lo \<Longrightarrow> in_range n lo hi \<Longrightarrow> plain_num n"
proof -
  assume "0 \<le> lo" "in_range n lo hi"
  then obtain x where x: "n = Fin x" "x = of_int \<lfloor>x\<rfloor>" "0 \<le> \<lfloor>x\<rfloor>"
    by (cases n) (auto simp: in_range_def isSafeCount_def isSafeInteger_def)
  then have "x = real (nat \<lfloor>x\<rfloor>)" by (metis of_nat_nat of_int_of_nat_eq)
  then show ?thesis unfolding x(1) plain_num_def count_num_def by blast
qed

lemma count_plain: "is_count n \<Longrightarrow> plain_num n"
  by (rule range_plain [of 0 n max_safe]) (simp_all add: is_count_def in_range_def)

subsection \<open>Values of prototypes and dependencies are distinct\<close>

lemma entry_same:
  assumes "same_text num (entry_value a) (entry_value b)"
  shows "a = b"
proof -
  note m = same_text_member [OF assms [unfolded entry_value_def]]
  show ?thesis
    using m [of "''name''"] m [of "''present''"] m [of "''valueDigest''"] by (cases a; cases b) (simp add: field_def)
qed

lemma type_same: "same_text num (type_value a) (type_value b) \<Longrightarrow> a = b"
  by (cases a; cases b) simp_all

fun plain_position :: "ofd_position \<Rightarrow> bool" where
  "plain_position (Position n) = plain_num n"
| "plain_position (Cookie s) = True"

lemma string_number_apart:
  assumes "number_text num"
  shows "num x \<noteq> json_string s"
proof
  assume eq: "num x = json_string s"
  have "CHR 0x22 \<in> set (num x)" unfolding eq by (simp add: json_string_def)
  moreover have "set (num x) \<subseteq> set ''0123456789+-.e''" using assms unfolding number_text_def by (rule allE [of _ x]) simp
  ultimately have "CHR 0x22 \<in> set ''0123456789+-.e''" by (rule subsetD [rotated])
  then show False by simp
qed

lemma position_same:
  assumes "count_text num" "number_text num" "plain_position a" "plain_position b" "same_text num (position_value a) (position_value b)"
  shows "a = b"
proof (cases a; cases b)
  fix m s assume "a = Position m" "b = Cookie s"
  then show ?thesis using assms string_number_apart [OF assms(2)] by (auto simp: plain_num_def count_num_def same_text_def)
next
  fix m s assume "a = Cookie s" "b = Position m"
  then show ?thesis using assms string_number_apart [OF assms(2), THEN not_sym] by (auto simp: plain_num_def count_num_def same_text_def)
qed (use assms in auto)

lemma optional_same:
  assumes "\<And>x y. P x \<Longrightarrow> P y \<Longrightarrow> same_text num (f x) (f y) \<Longrightarrow> x = y" and "\<And>x. tree num (f x) \<noteq> None"
    and "pred_option P a" "pred_option P b" and "same_text num (optional f a) (optional f b)"
  shows "a = b"
proof (cases a; cases b)
  fix x y assume "a = Some x" "b = Some y"
  then show ?thesis using assms(1,3,4,5) by (simp add: optional_def)
next
  fix x assume "a = Some x" "b = None"
  then show ?thesis using assms(2) [of x] assms(5) by (simp add: optional_def same_text_def)
next
  fix y assume "a = None" "b = Some y"
  then show ?thesis using assms(2) [of y] assms(5) by (simp add: optional_def same_text_def eq_commute [of None])
qed simp

lemma optional_num_same:
  assumes "count_text num" "pred_option plain_num a" "pred_option plain_num b" "same_text num (optional JNum a) (optional JNum b)"
  shows "a = b"
  using optional_same [of plain_num num JNum] assms by auto

definition plain_descriptor :: "descriptor \<Rightarrow> bool" where
  "plain_descriptor d \<longleftrightarrow> plain_num (fd_number d) \<and> pred_option plain_position (fd_offset d) \<and>
     pred_option plain_num (fd_alias d) \<and> pred_option plain_num (fd_object d)"

lemma tree_position: "tree num (position_value a) \<noteq> None"
  by (cases a) auto

lemma descriptor_same:
  assumes "count_text num" "number_text num" "plain_descriptor a" "plain_descriptor b"
    and same: "same_text num (descriptor_value a) (descriptor_value b)"
  shows "a = b"
proof -
  note m = same_text_member [OF same [unfolded descriptor_value_def]]
  have "fd_number a = fd_number b" using m [of "''fd''"] assms(1,3,4) by (simp add: field_def plain_descriptor_def)
  moreover have "fd_installed a = fd_installed b" using m [of "''installed''"] by (simp add: field_def)
  moreover have "fd_type a = fd_type b" using m [of "''type''"] by (auto simp: field_def intro: type_same)
  moreover have "fd_flagsDigest a = fd_flagsDigest b" using m [of "''flagsDigest''"] by (simp add: field_def)
  moreover have "fd_endpointDigest a = fd_endpointDigest b" using m [of "''endpointDigest''"] by (simp add: field_def)
  moreover have "fd_contentDigest a = fd_contentDigest b" using m [of "''contentDigest''"] by (simp add: field_def)
  moreover have "fd_offset a = fd_offset b"
    using m [of "''offset''"] assms(3,4) position_same [OF assms(1,2)]
    by (intro optional_same [of plain_position num position_value]) (auto simp: field_def plain_descriptor_def tree_position simp del: not_None_eq)
  moreover have "fd_alias a = fd_alias b" "fd_object a = fd_object b"
    using m [of "''alias''"] m [of "''object''"] assms(1,3,4)
    by (auto simp: field_def plain_descriptor_def intro: optional_num_same)
  moreover have "fd_resourcePath a = fd_resourcePath b" using m [of "''resourcePath''"] by (simp add: field_def)
  moreover have "fd_resourceAliases a = fd_resourceAliases b" using m [of "''resourceAliases''"] by (simp add: field_def)
  moreover have "fd_eof a = fd_eof b" using m [of "''eof''"] by (simp add: field_def)
  ultimately show ?thesis by simp
qed

lemma stdin_same:
  assumes "same_text num (stdin_value a) (stdin_value b)"
  shows "a = b"
proof -
  note m = same_text_member [OF assms [unfolded stdin_value_def]]
  show ?thesis
    using m [of "''type''"] m [of "''digest''"] m [of "''eof''"] by (cases a; cases b) (simp add: field_def split: if_splits)
qed

definition plain_prototype :: "prototype \<Rightarrow> bool" where
  "plain_prototype p \<longleftrightarrow> plain_num (pt_umask p) \<and> list_all plain_descriptor (pt_inheritedFDs p)"

lemma prototype_same:
  assumes "count_text num" "number_text num" "plain_prototype a" "plain_prototype b"
    and same: "same_text num (prototype_value a) (prototype_value b)"
  shows "a = b"
proof -
  note m = same_text_member [OF same [unfolded prototype_value_def]]
  have "pt_executablePath a = pt_executablePath b" using m [of "''executablePath''"] by (simp add: field_def)
  moreover have "pt_invocation a = pt_invocation b" using m [of "''invocation''"] by (simp add: field_def)
  moreover have "pt_executableDigest a = pt_executableDigest b" using m [of "''executableDigest''"] by (simp add: field_def)
  moreover have "pt_argvDigest a = pt_argvDigest b" using m [of "''argvDigest''"] by (simp add: field_def)
  moreover have "pt_logicalCwd a = pt_logicalCwd b" using m [of "''logicalCwd''"] by (simp add: field_def)
  moreover have "pt_environment a = pt_environment b"
    using m [of "''environment''"]
    by (intro same_text_array [of _ _ num entry_value]) (auto simp: field_def entry_same, simp add: entry_value_def)
  moreover have "pt_environmentComplete a = pt_environmentComplete b" using m [of "''environmentComplete''"] by (simp add: field_def)
  moreover have "pt_umask a = pt_umask b" using m [of "''umask''"] assms(1,3,4) by (simp add: field_def plain_prototype_def)
  moreover have "pt_contextDigest a = pt_contextDigest b" using m [of "''processContextDigest''"] by (simp add: field_def)
  moreover have "pt_stdin a = pt_stdin b" using m [of "''stdin''"] by (auto simp: field_def intro: stdin_same)
  moreover have "pt_tableComplete a = pt_tableComplete b" using m [of "''fileDescriptorTableComplete''"] by (simp add: field_def)
  moreover have "pt_inheritedFDs a = pt_inheritedFDs b"
    using m [of "''inheritedFDs''"] assms(3,4)
    by (intro same_text_array [of _ _ num descriptor_value])
      (auto simp: field_def plain_prototype_def list_all_iff intro: descriptor_same [OF assms(1,2)], simp add: descriptor_value_def)
  moreover have "pt_platform a = pt_platform b" using m [of "''platformFingerprint''"] by (simp add: field_def)
  ultimately show ?thesis by simp
qed

lemma role_same: "same_text num (role_value a) (role_value b) \<Longrightarrow> a = b"
  by (cases a; cases b) simp_all

fun plain_dependency :: "dynamic_dependency \<Rightarrow> bool" where
  "plain_dependency (Fd_dep fd _ _) = plain_num fd"
| "plain_dependency _ = True"

lemma kind_constructors:
  "dependency_kind d = ''lock'' \<Longrightarrow> \<exists>p e. d = Lock_dep p e"
  "dependency_kind d = ''file'' \<Longrightarrow> \<exists>p r c m as. d = File_dep p r c m as"
  "dependency_kind d = ''directory'' \<Longrightarrow> \<exists>p e m x. d = Directory_dep p e m x"
  "dependency_kind d = ''absence'' \<Longrightarrow> \<exists>p e x. d = Absence_dep p e x"
  "dependency_kind d = ''symlink'' \<Longrightarrow> \<exists>p t c. d = Symlink_dep p t c"
  "dependency_kind d = ''metadata'' \<Longrightarrow> \<exists>p f c fs. d = Metadata_dep p f c fs"
  "dependency_kind d = ''fd'' \<Longrightarrow> \<exists>fd c e. d = Fd_dep fd c e"
  by (cases d; simp)+

lemma dependency_same:
  assumes "count_text num" "plain_dependency a" "plain_dependency b"
    and same: "same_text num (dependency_value a) (dependency_value b)"
  shows "a = b"
proof -
  note m = same_text_member [OF same [unfolded dependency_value_def]]
  have kind: "dependency_kind a = dependency_kind b" using m [of "''kind''"] by (simp add: field_def)
  note p = m [of "''path''"]
  show ?thesis
  proof (cases a)
    case (Lock_dep x y)
    then show ?thesis using kind_constructors(1) [of b] kind p m [of "''exclusive''"] by (auto simp: field_def)
  next
    case (File_dep q r c d as)
    then show ?thesis
      using kind_constructors(2) [of b] kind p m [of "''role''"] m [of "''contentDigest''"] m [of "''metadataDigest''"] m [of "''aliases''"]
      by (auto simp: field_def dest: role_same)
  next
    case (Directory_dep q e d x)
    then show ?thesis
      using kind_constructors(3) [of b] kind p m [of "''entriesDigest''"] m [of "''metadataDigest''"] m [of "''excludedEntries''"]
      by (auto simp: field_def)
  next
    case (Absence_dep q e x)
    then show ?thesis
      using kind_constructors(4) [of b] kind p m [of "''parentEntriesDigest''"] m [of "''parentExcludedEntries''"]
      by (auto simp: field_def)
  next
    case (Symlink_dep q t d)
    then show ?thesis using kind_constructors(5) [of b] kind p m [of "''target''"] m [of "''targetDigest''"] by (auto simp: field_def)
  next
    case (Metadata_dep q f d fs)
    then show ?thesis
      using kind_constructors(6) [of b] kind p m [of "''followSymlinks''"] m [of "''digest''"] m [of "''fields''"]
      by (auto simp: field_def)
  next
    case (Fd_dep n c e)
    then show ?thesis
      using kind_constructors(7) [of b] kind m [of "''fd''"] m [of "''contentDigest''"] m [of "''eof''"] assms(1-3)
      by (auto simp: field_def)
  qed
qed

lemma dependency_keys:
  "key_order [''kind'', ''path'', ''exclusive'']"
  "key_order [''kind'', ''path'', ''role'', ''contentDigest'', ''metadataDigest'', ''aliases'']"
  "key_order [''kind'', ''path'', ''entriesDigest'', ''metadataDigest'', ''excludedEntries'']"
  "key_order [''kind'', ''path'', ''parentEntriesDigest'', ''parentExcludedEntries'']"
  "key_order [''kind'', ''path'', ''target'', ''targetDigest'']"
  "key_order [''kind'', ''path'', ''followSymlinks'', ''digest'', ''fields'']"
  "key_order [''kind'', ''fd'', ''contentDigest'', ''eof'']"
  by code_simp+

lemma data_ok_optional [simp]: "data_ok (optional JStr a)"
  by (cases a) (simp_all add: optional_def)

lemma data_ok_strings [simp]: "data_ok (strings_value b)"
  by (cases b) (simp_all add: strings_value_def optional_def list_all_iff)

lemma data_ok_role [simp]: "data_ok (role_value r)"
  by (cases r) simp_all

lemma dependency_data: "data_ok (dependency_value d)"
  by (cases d) (simp_all add: dependency_value_def dependency_keys)

lemma proto_free_optional [simp]: "proto_free (optional JStr a)"
  by (cases a) (simp_all add: optional_def)

lemma proto_free_strings [simp]: "proto_free (strings_value b)"
  by (cases b) (simp_all add: strings_value_def optional_def list_all_iff)

lemma proto_free_role [simp]: "proto_free (role_value r)"
  by (cases r) simp_all

lemma dependency_free: "proto_free (dependency_value d)"
  by (cases d) (simp_all add: dependency_value_def)

lemma dependency_equal:
  assumes "count_text num" "plain_dependency a" "plain_dependency b"
  shows "stableEqual num (dependency_value a) (dependency_value b) \<longleftrightarrow> a = b"
proof -
  have objects: "is_object (dependency_value d)" for d by (simp add: dependency_value_def)
  have "stableEqual num (dependency_value a) (dependency_value b) \<longleftrightarrow> same_text num (dependency_value a) (dependency_value b)"
    unfolding stableEqual_def same_text_def
    by (simp add: objects equalSlot_tree dependency_data dependency_free slot_tree_object)
  also have "\<dots> \<longleftrightarrow> a = b" using dependency_same [OF assms] by (auto simp: same_text_def)
  finally show ?thesis .
qed

subsection \<open>Dependency evidence\<close>

definition dependency_ok :: "dynamic_dependency \<Rightarrow> bool" where
  "dependency_ok d \<longleftrightarrow> validateDependency (canonical_dependency d) = Inr ()"

definition consistent :: "hasher \<Rightarrow> dynamic_dependency set \<Rightarrow> bool" where
  "consistent hx D \<longleftrightarrow> (\<forall>d \<in> D. \<forall>e \<in> D.
     dynamicDependencyIdentity hx (canonical_dependency d) = dynamicDependencyIdentity hx (canonical_dependency e) \<longrightarrow>
     canonical_dependency d = canonical_dependency e)"

lemma canonical_again [simp]: "canonical_dependency (canonical_dependency d) = canonical_dependency d"
proof -
  have "sort (uniq (sort (uniq xs))) = sort (uniq xs)" for xs :: "string list"
    by (simp add: uniq_distinct sorted_sort_id)
  then show ?thesis by (cases d rule: canonical_dependency.cases) (auto simp: option.map_comp comp_def)
qed

lemma dependency_ok_canonical [simp]: "dependency_ok (canonical_dependency d) = dependency_ok d"
  by (simp add: dependency_ok_def)

lemma dependency_ok_plain: "dependency_ok d \<Longrightarrow> plain_dependency (canonical_dependency d)"
  by (cases d rule: canonical_dependency.cases) (auto simp: dependency_ok_def validateDependency_def count_plain)

definition seen_ok :: "hasher \<Rightarrow> (string, dynamic_dependency) jsmap \<Rightarrow> bool" where
  "seen_ok hx seen \<longleftrightarrow> ms_wf seen \<and> (\<forall>n d. map_of seen n = Some d \<longrightarrow>
     dynamicDependencyIdentity hx d = n \<and> dependency_ok d \<and> canonical_dependency d = d)"

lemma collect_step:
  assumes "count_text (hx_num hx)" and "seen_ok hx seen"
  shows "collect_dependencies hx (s # ss) seen = Inr r \<longleftrightarrow>
    dependency_ok s \<and>
    (let d = canonical_dependency s; n = dynamicDependencyIdentity hx d in
      (\<forall>e. map_of seen n = Some e \<longrightarrow> e = d) \<and> collect_dependencies hx ss (ms_set n d seen) = Inr r)"
proof -
  have "stableEqual (hx_num hx) (dependency_value e) (dependency_value (canonical_dependency s)) \<longleftrightarrow> e = canonical_dependency s"
    if "dependency_ok s" "map_of seen (dynamicDependencyIdentity hx (canonical_dependency s)) = Some e" for e
    using that assms(2) dependency_ok_plain [of e] dependency_ok_plain [of s]
    by (intro dependency_equal [OF assms(1)]) (auto simp: seen_ok_def)
  then show ?thesis
    unfolding collect_dependencies.simps Let_def refuse_Inr and_then_Inr dependency_ok_def
    by (auto split: option.splits)
qed

lemma seen_ok_set:
  assumes "seen_ok hx seen" and "dependency_ok s"
  shows "seen_ok hx (ms_set (dynamicDependencyIdentity hx (canonical_dependency s)) (canonical_dependency s) seen)"
  using assms by (simp add: seen_ok_def)

lemma collect_iff:
  assumes "count_text (hx_num hx)"
  shows "seen_ok hx seen \<Longrightarrow>
    (\<exists>r. collect_dependencies hx ds seen = Inr r) \<longleftrightarrow> (\<forall>d \<in> set ds. dependency_ok d) \<and> consistent hx (set ds \<union> ran (map_of seen))"
proof (induction ds arbitrary: seen)
  case Nil
  have "consistent hx (ran (map_of seen))"
    unfolding consistent_def
  proof (intro ballI impI)
    fix d e assume de: "d \<in> ran (map_of seen)" "e \<in> ran (map_of seen)"
      and same: "dynamicDependencyIdentity hx (canonical_dependency d) = dynamicDependencyIdentity hx (canonical_dependency e)"
    from de obtain m n where "map_of seen m = Some d" "map_of seen n = Some e" by (auto simp: ran_def)
    moreover from this have "m = n" using Nil same by (auto simp: seen_ok_def)
    ultimately show "canonical_dependency d = canonical_dependency e" by simp
  qed
  then show ?case by simp
next
  case (Cons s ss)
  let ?d = "canonical_dependency s"
  let ?n = "dynamicDependencyIdentity hx ?d"
  show ?case
  proof (cases "dependency_ok s \<and> (\<forall>e. map_of seen ?n = Some e \<longrightarrow> e = ?d)")
    case True
    then have ok: "seen_ok hx (ms_set ?n ?d seen)" using seen_ok_set Cons.prems by blast
    have "ran (map_of (ms_set ?n ?d seen)) = insert ?d (ran (map_of seen))"
      using True by (auto simp: ran_def) metis
    then have same: "consistent hx (set ss \<union> ran (map_of (ms_set ?n ?d seen))) = consistent hx (set (s # ss) \<union> ran (map_of seen))"
      by (simp only: consistent_def ball_Un ball_simps list.set Un_insert_right Un_insert_left canonical_again)
    have "(\<exists>r. collect_dependencies hx (s # ss) seen = Inr r) \<longleftrightarrow> (\<exists>r. collect_dependencies hx ss (ms_set ?n ?d seen) = Inr r)"
      using collect_step [OF assms Cons.prems, of s ss] True by (auto simp: Let_def)
    then show ?thesis unfolding Cons.IH [OF ok] same using True by simp
  next
    case False
    consider "\<not> dependency_ok s" | e where "map_of seen ?n = Some e" "e \<noteq> ?d" using False by blast
    then have "\<not> ((\<forall>d \<in> set (s # ss). dependency_ok d) \<and> consistent hx (set (s # ss) \<union> ran (map_of seen)))"
    proof cases
      case 1
      then show ?thesis by simp
    next
      case (2 e)
      then have "dynamicDependencyIdentity hx (canonical_dependency e) = ?n" "canonical_dependency e = e" "e \<in> ran (map_of seen)"
        using Cons.prems by (auto simp: seen_ok_def intro: ranI)
      then have "\<not> consistent hx (set (s # ss) \<union> ran (map_of seen))" using 2(2) unfolding consistent_def by fastforce
      then show ?thesis by simp
    qed
    then show ?thesis using collect_step [OF assms Cons.prems, of s ss] False by (auto simp: Let_def)
  qed
qed

lemma seen_ok_Nil [simp]: "seen_ok hx []"
  by (simp add: seen_ok_def)

lemma collect_result:
  assumes "count_text (hx_num hx)"
  shows "seen_ok hx seen \<Longrightarrow> collect_dependencies hx ds seen = Inr r \<Longrightarrow>
    seen_ok hx r \<and> ran (map_of r) = canonical_dependency ` set ds \<union> ran (map_of seen)"
proof (induction ds arbitrary: seen)
  case (Cons s ss)
  let ?d = "canonical_dependency s"
  let ?n = "dynamicDependencyIdentity hx ?d"
  have step: "dependency_ok s" "\<forall>e. map_of seen ?n = Some e \<longrightarrow> e = ?d" "collect_dependencies hx ss (ms_set ?n ?d seen) = Inr r"
    using Cons.prems(2) collect_step [OF assms Cons.prems(1), of s ss r] by (simp_all add: Let_def)
  have grown: "ran (map_of (ms_set ?n ?d seen)) = insert ?d (ran (map_of seen))"
    using step(2) by (auto simp: ran_def) metis
  show ?case
    using Cons.IH [OF seen_ok_set [OF Cons.prems(1) step(1)] step(3)] unfolding grown by (simp only: list.set image_insert) blast
qed simp

lemma normalized_facts:
  assumes "count_text (hx_num hx)" and "normalizeDependencies hx ds = Inr rs"
  shows "set rs = canonical_dependency ` set ds \<and> sorted (map (dynamicDependencyIdentity hx) rs) \<and>
    distinct (map (dynamicDependencyIdentity hx) rs) \<and> (\<forall>d \<in> set rs. dependency_ok d \<and> canonical_dependency d = d)"
proof -
  obtain seen where seen: "collect_dependencies hx ds [] = Inr seen"
    and rs: "rs = map (\<lambda>name. the (map_of seen name)) (sort (ms_keys seen))"
    using assms(2) by (auto simp: normalizeDependencies_def)
  note ok = collect_result [OF assms(1) seen_ok_Nil seen]
  have keys: "\<forall>n \<in> set (sort (ms_keys seen)). \<exists>d. map_of seen n = Some d \<and> dynamicDependencyIdentity hx d = n \<and>
      dependency_ok d \<and> canonical_dependency d = d"
    using ok unfolding seen_ok_def by (metis (no_types, lifting) map_of_eq_None_iff not_None_eq set_map set_sort)
  have names: "map (dynamicDependencyIdentity hx) rs = map (\<lambda>n. n) (sort (ms_keys seen))"
    unfolding rs map_map comp_def using keys by (intro map_cong) auto
  have range: "set rs = ran (map_of seen)"
  proof -
    have wf: "distinct (map fst seen)" using ok by (simp add: seen_ok_def ms_wf_def)
    have "set rs = (\<lambda>e. the (map_of seen (fst e))) ` set seen" by (simp add: rs image_image)
    also have "\<dots> = snd ` set seen" using wf by (intro image_cong) (auto simp: map_of_is_SomeI)
    finally show ?thesis by (simp only: ran_distinct [OF wf])
  qed
  have "\<forall>d \<in> set rs. dependency_ok d \<and> canonical_dependency d = d"
    unfolding range using conjunct1 [OF ok] unfolding seen_ok_def ran_def by blast
  moreover have "sorted (map (dynamicDependencyIdentity hx) rs)" "distinct (map (dynamicDependencyIdentity hx) rs)"
    unfolding names using ok by (simp_all add: seen_ok_def ms_wf_def)
  moreover have "set rs = canonical_dependency ` set ds" unfolding range using ok by simp
  ultimately show ?thesis by blast
qed

lemma normalized_unique:
  assumes "count_text (hx_num hx)" and "normalizeDependencies hx ds = Inr rs" and "normalizeDependencies hx es = Inr qs"
    and "canonical_dependency ` set ds = canonical_dependency ` set es"
  shows "rs = qs"
proof -
  note r = normalized_facts [OF assms(1,2)] and q = normalized_facts [OF assms(1,3)]
  have same: "set rs = set qs" using r q assms(4) by metis
  have "distinct (map (dynamicDependencyIdentity hx) rs)" using r by blast
  then have "inj_on (dynamicDependencyIdentity hx) (set rs)" by (simp add: distinct_map)
  then have "inj_on (dynamicDependencyIdentity hx) (set rs \<union> set qs)" by (simp add: same)
  then show ?thesis
    by (rule map_sorted_distinct_set_unique) (use r q same in \<open>simp_all only:\<close>)
qed

lemma normalized_exists:
  assumes "count_text (hx_num hx)"
  shows "(\<exists>rs. normalizeDependencies hx ds = Inr rs) \<longleftrightarrow> (\<forall>d \<in> set ds. dependency_ok d) \<and> consistent hx (set ds)"
  using collect_iff [OF assms seen_ok_Nil, of ds] by (auto simp: normalizeDependencies_def)

lemma consistent_canonical: "canonical_dependency ` D = canonical_dependency ` E \<Longrightarrow> consistent hx D = consistent hx E"
proof -
  have "consistent hx D \<longleftrightarrow> (\<forall>d \<in> canonical_dependency ` D. \<forall>e \<in> canonical_dependency ` D.
      dynamicDependencyIdentity hx d = dynamicDependencyIdentity hx e \<longrightarrow> d = e)" for D
    by (auto simp: consistent_def)
  then show "canonical_dependency ` D = canonical_dependency ` E \<Longrightarrow> consistent hx D = consistent hx E"
    by (simp only:)
qed

lemma normalized_same_set:
  assumes "count_text (hx_num hx)" and "normalizeDependencies hx ds = Inr rs"
    and "canonical_dependency ` set ds = canonical_dependency ` set es"
  shows "normalizeDependencies hx es = Inr rs"
proof -
  have "(\<forall>d \<in> set ds. dependency_ok d) \<and> consistent hx (set ds)" using assms(2) normalized_exists [OF assms(1)] by blast
  moreover have "(\<forall>d \<in> set ds. dependency_ok d) = (\<forall>d \<in> set es. dependency_ok d)"
    using assms(3) by (metis (no_types, opaque_lifting) dependency_ok_canonical imageE imageI)
  ultimately obtain qs where "normalizeDependencies hx es = Inr qs"
    using normalized_exists [OF assms(1)] consistent_canonical [OF assms(3)] by metis
  with normalized_unique [OF assms(1,2) this assms(3)] show ?thesis by simp
qed

lemma dependencies_again:
  assumes "count_text (hx_num hx)" and "normalizeDependencies hx ds = Inr rs"
  shows "normalizeDependencies hx rs = Inr rs"
proof (rule normalized_same_set [OF assms])
  have "set rs = canonical_dependency ` set ds" using normalized_facts [OF assms] by blast
  then show "canonical_dependency ` set ds = canonical_dependency ` set rs" by (simp add: image_image)
qed

text \<open>C14. Dependency evidence is refused exactly when some dependency is invalid or two of them give different evidence for
  the same identity.  Accepted evidence keeps every dependency in canonical form, once and in the order of the identities,
  and does not depend on the order or the repetition of the list.\<close>

theorem evidence_accepted_iff_consistent:
  assumes "count_text (hx_num hx)"
  shows "((\<exists>rs. normalizeDependencies hx ds = Inr rs) \<longleftrightarrow> (\<forall>d \<in> set ds. dependency_ok d) \<and> consistent hx (set ds)) \<and>
    (\<forall>rs. normalizeDependencies hx ds = Inr rs \<longrightarrow> set rs = canonical_dependency ` set ds \<and>
      sorted (map (dynamicDependencyIdentity hx) rs) \<and> distinct (map (dynamicDependencyIdentity hx) rs) \<and>
      (\<forall>es. set es = set ds \<longrightarrow> normalizeDependencies hx es = Inr rs))"
proof -
  have "normalizeDependencies hx es = Inr rs" if "normalizeDependencies hx ds = Inr rs" "set es = set ds" for rs es
    by (rule normalized_same_set [OF assms that(1)]) (simp add: that(2))
  with normalized_exists [OF assms, of ds] normalized_facts [OF assms, of ds] show ?thesis by blast
qed

subsection \<open>Results and certificates again\<close>

lemma state_same: "normalizeWorkspaceEffectState s sizes = Inr (t, sizes') \<Longrightarrow> t = s"
  by (cases s) (auto split: file_data.splits dest: parse_same)

lemma journal_same: "journal_loop hx done rest sizes = Inr j \<Longrightarrow> j = done @ rest"
proof (induction rest arbitrary: "done" sizes)
  case (Cons e rest)
  show ?case
  proof (cases e)
    case (Output_event s fd r)
    then obtain sz where "journal_loop hx (done @ [e]) rest sz = Inr j" using Cons.prems by auto
    from Cons.IH [OF this] show ?thesis by simp
  next
    case (Workspace_event s p b a m)
    then obtain b' a' sz sz' where "normalizeWorkspaceEffectState b sizes = Inr (b', sz)"
      "normalizeWorkspaceEffectState a sz = Inr (a', sz')"
      and j: "journal_loop hx (done @ [Workspace_event s p b' a' m]) rest sz' = Inr j"
      using Cons.prems by auto
    then have "b' = b" "a' = a" by (auto dest: state_same)
    with Cons.IH [OF j] show ?thesis by (simp add: Workspace_event)
  qed
qed simp

lemma computation_again:
  "(case normalizeTimelineComputation (case normalizeTimelineComputation v of Some c \<Rightarrow> timeline_value c | None \<Rightarrow> JUndef) of
     Some c \<Rightarrow> timeline_value c | None \<Rightarrow> JUndef) =
   (case normalizeTimelineComputation v of Some c \<Rightarrow> timeline_value c | None \<Rightarrow> JUndef)"
proof (cases "normalizeTimelineComputation v")
  case None
  then show ?thesis by (simp add: normalizeTimelineComputation_def asRecord_def)
next
  case (Some c)
  then show ?thesis by (simp add: normalized_again)
qed

lemma result_again:
  assumes "normalizeResult hx p r = Inr s"
  shows "normalizeResult hx p s = Inr s"
proof -
  let ?sizes = "case ps_continuation r of Some (digest, n) \<Rightarrow> [(digest, n)] | None \<Rightarrow> []"
  let ?ds = "filter (\<lambda>d. fd_alias d \<noteq> None) (pt_inheritedFDs p)"
  obtain sizes journal where res: "(case ps_resources r of Some e \<Rightarrow> check_resources ?ds e ?sizes | None \<Rightarrow> Inr ?sizes) = Inr sizes"
    and journal: "journal_loop hx [] (sort_key (num_key \<circ> event_sequence) (ps_journal r)) sizes = Inr journal"
    and s: "s = r\<lparr>ps_computation := (case normalizeTimelineComputation (ps_computation r) of Some c \<Rightarrow> timeline_value c | None \<Rightarrow> JUndef),
      ps_journal := journal, ps_exit := (if ps_continuation r = None then ps_exit r else None)\<rparr>"
    and ok: "ps_replayProfile r = ''buffered_noninteractive''"
      "\<not> (case ps_continuation r of None \<Rightarrow> False
        | Some (digest, n) \<Rightarrow> ps_exit r \<noteq> None \<or> \<not> isSha256Digest digest \<or> \<not> in_range n 1 (65 * 1024 * 1024))"
      "\<not> (ps_continuation r = None \<and> ps_exit r = None)"
      "\<not> (case ps_observedMs r of None \<Rightarrow> False | Some (Fin x) \<Rightarrow> x < 0 | Some _ \<Rightarrow> True)"
      "\<not> (ps_resources r = None \<and> ?ds \<noteq> [])"
    using assms unfolding normalizeResult_def Let_def refuse_Inr and_then_Inr by fastforce
  note j = journal_same [OF journal, simplified]
  have cont: "\<not> (case ps_continuation r of None \<Rightarrow> False
        | Some (digest, n) \<Rightarrow> (if ps_continuation r = None then ps_exit r else None) \<noteq> None \<or> \<not> isSha256Digest digest \<or>
            \<not> in_range n 1 (65 * 1024 * 1024))"
    using ok(2) by (auto split: option.splits)
  show ?thesis
    unfolding normalizeResult_def Let_def refuse_Inr and_then_Inr
    using ok res journal cont
    by (intro conjI exI [of _ sizes] exI [of _ journal], simp_all add: s j computation_again cong: option.case_cong) auto
qed

lemma created_again: "nonNegativeCount (JNum (count_num n)) = n"
  by (simp add: nonNegativeCount_def count_num_def)

definition certificate_body ::
  "hasher \<Rightarrow> prototype \<Rightarrow> producer_proof \<Rightarrow> bool \<Rightarrow> dynamic_dependency list \<Rightarrow> string list \<Rightarrow> process_result \<Rightarrow> nat \<Rightarrow> certificate" where
  "certificate_body hx p producer finished ds taints r n =
     (let weak = weak_key_of hx p;
          body = \<lparr>ct_id = [], ct_weakKey = weak, ct_strongKey = strong_key_of hx weak ds, ct_prototype = p, ct_producer = producer,
            ct_evidence = \<lparr>dc_complete = finished, dc_dependencies = ds, dc_taints = taints\<rparr>, ct_result = r,
            ct_createdAt = count_num n\<rparr> in
      body\<lparr>ct_id := certificateContentKey hx body\<rparr>)"

text \<open>C30. Sealing is stable: a sealed certificate seals to itself whatever the time, so the cache of sealed records is sound;
  and parsing accepts it, unchanged, as soon as its id is a digest.\<close>

theorem sealed_certificates_parse_back:
  assumes "count_text (hx_num hx)" and "sealProcessCertificate hx now i = Inr c"
  shows "sealProcessCertificate hx later (as_input c) = Inr c \<and>
    (isSha256Digest (ct_id c) \<longrightarrow> parseProcessCertificate hx later c = Some c)"
proof -
  obtain p producer ds r where p: "normalizePrototype hx (ci_prototype i) = Inr p"
    and producer: "normalizeProducerProof (ci_producer i) = Inr producer"
    and ds: "normalizeDependencies hx (dc_dependencies (ci_evidence i)) = Inr ds"
    and r: "normalizeResult hx p (ci_result i) = Inr r"
    and c: "c = (certificate_body hx p producer (dc_complete (ci_evidence i)) ds (sort (uniq (dc_taints (ci_evidence i)))) r
        (nonNegativeCount (JNum (case ci_createdAt i of Some t \<Rightarrow> t | None \<Rightarrow> now))))"
    using assms(2) by (auto simp: sealProcessCertificate_def Let_def certificate_body_def)
  have taints: "sort (uniq (sort (uniq ts))) = sort (uniq ts)" for ts :: "string list"
    by (simp add: uniq_distinct sorted_sort_id)
  have producer': "normalizeProducerProof producer = Inr producer" using producer producer_again [OF producer] by metis
  have "sealProcessCertificate hx later (as_input c) = Inr c"
    using prototype_again [OF p] producer' dependencies_again [OF assms(1) ds] result_again [OF r]
    by (simp add: sealProcessCertificate_def as_input_def c certificate_body_def Let_def created_again taints)
  then show ?thesis by (simp add: parseProcessCertificate_def)
qed

definition hashed_values :: "certificate \<Rightarrow> js_val set" where
  "hashed_values c = {weak_key_value (ct_prototype c),
     strong_key_value (ct_weakKey c) (dc_dependencies (ct_evidence c)), content_value c}"

definition hashed_text :: "hasher \<Rightarrow> js_val \<Rightarrow> string" where
  "hashed_text hx v = (case stableStringify (hx_num hx) v of Some t \<Rightarrow> t | None \<Rightarrow> [])"

lemma digest_same:
  assumes "number_text (hx_num hx)" and "inj_on (hx_text hx) (hashed_text hx ` V)" and "v \<in> V" "w \<in> V"
    and "is_object v" "is_object w"
  shows "digestObject hx v = digestObject hx w \<longleftrightarrow> same_text (hx_num hx) v w"
proof -
  have printed: "\<exists>t. stableStringify (hx_num hx) u = Some t" if "is_object u" for u
    using that by (cases u) (simp_all add: stableStringify_def)
  have "digestObject hx v = digestObject hx w \<longleftrightarrow> hashed_text hx v = hashed_text hx w"
    using assms(2-4) by (auto simp: digestObject_def hashed_text_def [symmetric] dest: inj_onD)
  also have "\<dots> \<longleftrightarrow> stableStringify (hx_num hx) v = stableStringify (hx_num hx) w"
    using printed [OF assms(5)] printed [OF assms(6)] by (auto simp: hashed_text_def)
  finally show ?thesis by (simp add: stringify_tree [OF assms(1)] same_text_def)
qed

lemma values_objects [simp]: "is_object (weak_key_value p)" "is_object (strong_key_value k ds)" "is_object (content_value c)"
  by (simp_all add: weak_key_value_def strong_key_value_def content_value_def)

lemma strong_value_same:
  assumes "count_text num" and "list_all plain_dependency ds" "list_all plain_dependency es"
    and same: "same_text num (strong_key_value k ds) (strong_key_value l es)"
  shows "k = l \<and> ds = es"
proof -
  note m = same_text_member [OF same [unfolded strong_key_value_def]]
  have "ds = es"
    using m [of "''dependencies''"] assms(2,3)
    by (intro same_text_array [of _ _ num dependency_value])
      (auto simp: field_def list_all_iff intro: dependency_same [OF assms(1)], simp add: dependency_value_def)
  then show ?thesis using m [of "''weakKey''"] by (simp add: field_def)
qed

lemma proof_same: "same_text num (proof_value a) (proof_value b) \<Longrightarrow> a = b"
proof -
  assume same: "same_text num (proof_value a) (proof_value b)"
  note m = same_text_member [OF same [unfolded proof_value_def]]
  show "a = b" using m [of "''provider''"] m [of "''fingerprint''"] by (simp add: field_def)
qed

definition execution_value :: "execution_proof \<Rightarrow> js_val" where
  "execution_value e = (case e of Actor_execution \<Rightarrow> JObj [(''authority'', JStr ''actor'')]
    | Speculative_execution c \<Rightarrow> JObj [(''authority'', JStr ''speculative''), (''confinement'', proof_value c)])"

lemma producer_proof_same:
  assumes same: "same_text num (producer_proof_value a) (producer_proof_value b)"
  shows "a = b"
proof -
  note m = same_text_member [OF same [unfolded producer_proof_value_def]]
  have "pp_observer a = pp_observer b" using m [of "''observer''"] by (auto simp: field_def intro: proof_same)
  moreover have "pp_execution a = pp_execution b"
  proof -
    have e: "same_text num (execution_value (pp_execution a)) (execution_value (pp_execution b))"
      using m [of "''execution''"] by (simp add: field_def execution_value_def)
    show ?thesis
    proof (cases "pp_execution a"; cases "pp_execution b")
      fix c d assume s: "pp_execution a = Speculative_execution c" "pp_execution b = Speculative_execution d"
      have "same_text num (proof_value c) (proof_value d)"
        using same_text_member [OF e [unfolded s execution_value_def execution_proof.case], of "''confinement''"]
        by (simp add: field_def)
      then show ?thesis by (simp add: s proof_same [of num c d])
    qed (use e in \<open>auto simp: execution_value_def field_def dest!: same_text_member [where k = "''authority''"]\<close>)
  qed
  ultimately show ?thesis by simp
qed

lemma evidence_same:
  assumes "count_text num" and "list_all plain_dependency (dc_dependencies a)" "list_all plain_dependency (dc_dependencies b)"
    and same: "same_text num (evidence_value a) (evidence_value b)"
  shows "a = b"
proof -
  note m = same_text_member [OF same [unfolded evidence_value_def]]
  have "dc_dependencies a = dc_dependencies b"
    using m [of "''dependencies''"] assms(2,3)
    by (intro same_text_array [of _ _ num dependency_value])
      (auto simp: field_def list_all_iff intro: dependency_same [OF assms(1)], simp add: dependency_value_def)
  then show ?thesis using m [of "''complete''"] m [of "''taints''"] by (simp add: field_def)
qed

lemma sealed_parts:
  assumes "count_text (hx_num hx)" and "sealProcessCertificate hx now i = Inr c"
  shows "ct_weakKey c = digestObject hx (weak_key_value (ct_prototype c)) \<and>
    ct_strongKey c = digestObject hx (strong_key_value (ct_weakKey c) (dc_dependencies (ct_evidence c))) \<and>
    ct_id c = digestObject hx (content_value c) \<and> list_all plain_dependency (dc_dependencies (ct_evidence c))"
proof -
  obtain p producer ds r where ds: "normalizeDependencies hx (dc_dependencies (ci_evidence i)) = Inr ds"
    and c: "c = (certificate_body hx p producer (dc_complete (ci_evidence i)) ds (sort (uniq (dc_taints (ci_evidence i)))) r
        (nonNegativeCount (JNum (case ci_createdAt i of Some t \<Rightarrow> t | None \<Rightarrow> now))))"
    using assms(2) by (auto simp: sealProcessCertificate_def Let_def certificate_body_def)
  have "plain_dependency d" if "d \<in> set ds" for d
    using normalized_facts [OF assms(1) ds] that dependency_ok_plain [of d] by metis
  then have "list_all plain_dependency ds" by (simp add: list_all_iff)
  then show ?thesis
    by (simp add: c certificate_body_def Let_def weak_key_of_def strong_key_of_def certificateContentKey_def content_value_def)
qed

lemma content_same:
  assumes "count_text num" "number_text num" "plain_prototype (ct_prototype c)" "plain_prototype (ct_prototype d)"
    and "list_all plain_dependency (dc_dependencies (ct_evidence c))" "list_all plain_dependency (dc_dependencies (ct_evidence d))"
    and same: "same_text num (content_value c) (content_value d)"
  shows "ct_prototype c = ct_prototype d \<and> ct_producer c = ct_producer d \<and> ct_evidence c = ct_evidence d"
proof -
  note m = same_text_member [OF same [unfolded content_value_def]]
  have "same_text num (prototype_value (ct_prototype c)) (prototype_value (ct_prototype d))"
    "same_text num (producer_proof_value (ct_producer c)) (producer_proof_value (ct_producer d))"
    "same_text num (evidence_value (ct_evidence c)) (evidence_value (ct_evidence d))"
    using m [of "''prototype''"] m [of "''producer''"] m [of "''dependencyCertificate''"] by (simp_all add: field_def)
  with prototype_same [OF assms(1-4)] producer_proof_same evidence_same [OF assms(1,5,6)] show ?thesis by blast
qed

text \<open>C11. Among sealed certificates whose hashed texts do not collide, equal weak keys mean equal prototypes, equal strong
  keys mean equal prototypes and dependencies, and equal ids mean equal prototype, producer proof and evidence.\<close>

theorem keys_identify_executions:
  assumes "number_text (hx_num hx)" and "count_text (hx_num hx)"
    and "sealProcessCertificate hx now i = Inr c" and "sealProcessCertificate hx later j = Inr d"
    and "plain_prototype (ct_prototype c)" and "plain_prototype (ct_prototype d)"
    and "inj_on (hx_text hx) (hashed_text hx ` (hashed_values c \<union> hashed_values d))"
  shows "(ct_weakKey c = ct_weakKey d \<longleftrightarrow> ct_prototype c = ct_prototype d) \<and>
    (ct_strongKey c = ct_strongKey d \<longleftrightarrow>
      ct_prototype c = ct_prototype d \<and> dc_dependencies (ct_evidence c) = dc_dependencies (ct_evidence d)) \<and>
    (ct_id c = ct_id d \<longrightarrow>
      ct_prototype c = ct_prototype d \<and> ct_producer c = ct_producer d \<and> ct_evidence c = ct_evidence d)"
proof -
  let ?n = "hx_num hx" and ?ds = "dc_dependencies (ct_evidence c)" and ?es = "dc_dependencies (ct_evidence d)"
  let ?V = "hashed_values c \<union> hashed_values d"
  note p = sealed_parts [OF assms(2,3)] and q = sealed_parts [OF assms(2,4)]
  note digest = digest_same [OF assms(1,7)]
  have weak: "ct_weakKey c = ct_weakKey d \<longleftrightarrow> ct_prototype c = ct_prototype d"
  proof -
    have "ct_weakKey c = ct_weakKey d \<longleftrightarrow> same_text ?n (weak_key_value (ct_prototype c)) (weak_key_value (ct_prototype d))"
      using p q digest [of "weak_key_value (ct_prototype c)" "weak_key_value (ct_prototype d)"] by (simp add: hashed_values_def)
    moreover have "ct_prototype c = ct_prototype d" if "same_text ?n (weak_key_value (ct_prototype c)) (weak_key_value (ct_prototype d))"
      using same_text_member [OF that [unfolded weak_key_value_def], of "''prototype''"] prototype_same [OF assms(2,1,5,6)]
      by (simp add: field_def)
    ultimately show ?thesis by (auto simp: same_text_def)
  qed
  have strong: "ct_strongKey c = ct_strongKey d \<longleftrightarrow>
      same_text ?n (strong_key_value (ct_weakKey c) ?ds) (strong_key_value (ct_weakKey d) ?es)"
    using p q digest [of "strong_key_value (ct_weakKey c) ?ds" "strong_key_value (ct_weakKey d) ?es"] by (simp add: hashed_values_def)
  have deps: "list_all plain_dependency ?ds" "list_all plain_dependency ?es" using p q by simp_all
  have "ct_strongKey c = ct_strongKey d \<longleftrightarrow> ct_weakKey c = ct_weakKey d \<and> ?ds = ?es"
    unfolding strong using strong_value_same [OF assms(2) deps] by (auto simp: same_text_def)
  moreover have "same_text ?n (content_value c) (content_value d)" if "ct_id c = ct_id d"
    using p q that digest [of "content_value c" "content_value d"] by (simp add: hashed_values_def)
  ultimately show ?thesis using weak content_same [OF assms(2,1,5,6) deps] by blast
qed

subsection \<open>Concrete certificates\<close>

definition sample_hasher :: "(string \<Rightarrow> string) \<Rightarrow> hasher" where
  "sample_hasher h = \<lparr>hx_num = (\<lambda>x. nat_text (nat \<lfloor>x\<rfloor>)), hx_text = h, hx_bytes = sample_hash\<rparr>"

definition sample_prototype :: "nat \<Rightarrow> prototype" where
  "sample_prototype umask = \<lparr>pt_executablePath = ''/bin/ls'', pt_invocation = Some [''/bin/ls'', ''ls''],
     pt_executableDigest = sample_hash [], pt_argvDigest = sample_hash [1], pt_logicalCwd = ''/work'',
     pt_environment = [\<lparr>en_name = ''HOME'', en_present = True, en_valueDigest = Some (sample_hash [])\<rparr>],
     pt_environmentComplete = True, pt_umask = count_num umask, pt_contextDigest = sample_hash [],
     pt_stdin = \<lparr>si_bytes = False, si_digest = None, si_eof = True\<rparr>, pt_tableComplete = True,
     pt_inheritedFDs = [], pt_platform = ''linux''\<rparr>"

definition sample_execution :: "nat \<Rightarrow> certificate_input" where
  "sample_execution umask = \<lparr>ci_prototype = sample_prototype umask,
     ci_producer = \<lparr>pp_observer = \<lparr>ip_provider = ''strace'', ip_fingerprint = sample_hash []\<rparr>, pp_execution = Actor_execution\<rparr>,
     ci_evidence = \<lparr>dc_complete = True, dc_dependencies = [Lock_dep ''/work/lock'' True], dc_taints = []\<rparr>,
     ci_result = \<lparr>ps_replayProfile = ''buffered_noninteractive'', ps_observedMs = Some (Fin 5), ps_computation = JUndef,
       ps_journal = [], ps_resources = None, ps_exit = Some (Exit_code (Fin 0)), ps_continuation = None\<rparr>,
     ci_createdAt = None\<rparr>"

lemma nat_text_digits: "nat_text n \<noteq> [] \<and> set (nat_text n) \<subseteq> set ''0123456789''"
proof (induction n rule: nat_text.induct)
  case (1 n)
  have "list_all (\<lambda>k. digit_char k \<in> set ''0123456789'') [0..<10]" by code_simp
  then have digit: "digit_char k \<in> set ''0123456789''" if "k < 10" for k using that by (simp only: list_all_iff set_upt) auto
  show ?case
  proof (cases "n < 10")
    case True
    then have "nat_text n = [digit_char n]" by (simp add: nat_text.simps [of n])
    then show ?thesis using digit [OF True] by simp
  next
    case False
    then have "nat_text n = nat_text (n div 10) @ [digit_char (n mod 10)]" by (simp add: nat_text.simps [of n])
    moreover have "set (nat_text (n div 10)) \<subseteq> set ''0123456789''" using 1 False by blast
    ultimately show ?thesis using digit [of "n mod 10"] by (simp only: set_append Un_subset_iff list.set insert_subset) simp
  qed
qed

lemma sample_numbers: "number_text (hx_num (sample_hasher h))" "count_text (hx_num (sample_hasher h))"
proof -
  have digits: "set ''0123456789'' \<subseteq> set ''0123456789+-.e''" by simp
  have "nat_text n \<noteq> [] \<and> set (nat_text n) \<subseteq> set ''0123456789+-.e''" for n
    using nat_text_digits [of n] subset_trans [OF _ digits] by blast
  then show "number_text (hx_num (sample_hasher h))" by (simp only: sample_hasher_def number_text_def hasher.simps) blast
  show "count_text (hx_num (sample_hasher h))" by (simp add: sample_hasher_def count_text_def)
qed

lemma sample_prototype_accepted:
  assumes "umask \<le> 511"
  shows "normalizePrototype hx (sample_prototype umask) = Inr (sample_prototype umask)"
  using assms by (simp add: normalizePrototype_def sample_prototype_def validLogicalPath_def in_range_def isSafeCount_def
    isSafeInteger_def count_num_def has_digest_def max_safe_def)

lemma sample_seals:
  assumes "umask \<le> 511"
  shows "\<exists>c. sealProcessCertificate (sample_hasher h) now (sample_execution umask) = Inr c \<and>
    ct_prototype c = sample_prototype umask"
  using sample_prototype_accepted [OF assms, of "sample_hasher h"]
  by (simp add: sealProcessCertificate_def sample_execution_def normalizeProducerProof_def proof_ok_def validProvider_def
    normalizeDependencies_def validateDependency_def validLogicalPath_def normalizeResult_def sample_prototype_def
    normalizeTimelineComputation_def asRecord_def Let_def refuse_def)

theorem evidence_accepted_iff_consistent_witness:
  "\<exists>rs. normalizeDependencies (sample_hasher (\<lambda>s. s)) [Lock_dep ''/work/b'' True, Lock_dep ''/work/a'' False] = Inr rs"
proof -
  have "\<forall>d \<in> {Lock_dep ''/work/b'' True, Lock_dep ''/work/a'' False}. dependency_ok d"
    "consistent (sample_hasher (\<lambda>s. s)) {Lock_dep ''/work/b'' True, Lock_dep ''/work/a'' False}"
    by (simp_all add: consistent_def dependency_ok_def validateDependency_def validLogicalPath_def)
  then show ?thesis
    using evidence_accepted_iff_consistent [OF sample_numbers(2), of "\<lambda>s. s"
      "[Lock_dep ''/work/b'' True, Lock_dep ''/work/a'' False]", THEN conjunct1] by simp
qed

theorem sealed_certificates_parse_back_witness:
  "\<exists>c. sealProcessCertificate (sample_hasher (\<lambda>_. sample_hash [])) (Fin 3) (sample_execution 18) = Inr c \<and>
    parseProcessCertificate (sample_hasher (\<lambda>_. sample_hash [])) (Fin 7) c = Some c"
proof -
  obtain c where c: "sealProcessCertificate (sample_hasher (\<lambda>_. sample_hash [])) (Fin 3) (sample_execution 18) = Inr c"
    using sample_seals [of 18] by auto
  have "isSha256Digest (ct_id c)" using sealed_parts [OF sample_numbers(2) c] by (simp add: digestObject_def sample_hasher_def)
  with sealed_certificates_parse_back [OF sample_numbers(2) c] c show ?thesis by blast
qed

lemma sample_plain: "plain_prototype (sample_prototype umask)"
  by (auto simp: plain_prototype_def sample_prototype_def plain_num_def)

theorem keys_identify_executions_witness:
  "\<exists>c d. sealProcessCertificate (sample_hasher (\<lambda>s. s)) (Fin 3) (sample_execution 18) = Inr c \<and>
    sealProcessCertificate (sample_hasher (\<lambda>s. s)) (Fin 3) (sample_execution 0) = Inr d \<and>
    ct_weakKey c \<noteq> ct_weakKey d \<and> ct_strongKey c \<noteq> ct_strongKey d \<and> ct_id c \<noteq> ct_id d"
proof -
  obtain c where c: "sealProcessCertificate (sample_hasher (\<lambda>s. s)) (Fin 3) (sample_execution 18) = Inr c"
    "ct_prototype c = sample_prototype 18" using sample_seals [of 18] by auto
  obtain d where d: "sealProcessCertificate (sample_hasher (\<lambda>s. s)) (Fin 3) (sample_execution 0) = Inr d"
    "ct_prototype d = sample_prototype 0" using sample_seals [of 0] by auto
  have "sample_prototype 18 \<noteq> sample_prototype 0" by (simp add: sample_prototype_def count_num_def)
  with keys_identify_executions [OF sample_numbers c(1) d(1)] show ?thesis
    using c d sample_plain by (intro exI [of _ c] exI [of _ d]) (simp add: sample_hasher_def)
qed

end
