(* ===== verification/Runtime_Lifecycle.thy ===== *)
theory Runtime_Lifecycle
  imports Numbers
begin

text \<open>
  Lifecycle lanes (\<open>src/runtime-lifecycle.ts\<close>): serialized operations, tracked work, owned resources and the one close
  operation of a lane; first-event-wins waiting; scopes shared by several borrowers.

  \<^item> An operation is a call that runs to its first \<open>await\<close>, so it is one function on the state; what happens when awaited
    work settles is a step of \<open>lane_step\<close>.  Steps may come in every order, which includes every order of the event loop.
  \<^item> An operation on the lane has a number, and so has every tracked task and every owned resource.  The task of a
    serialized operation has the number of the operation.
  \<^item> \<open>ln_closing\<close> is what is left of the close operation once the lane is sealed.  It starts when all operations before
    it in the queue have settled; \<open>Body\<close> stands for one awaited section of the finalizer.
  \<^item> Rejections of queued operations and of disposals are swallowed by the lane, so success and failure are one step.
\<close>

subsection \<open>State and operations\<close>

datatype task = Task nat | Disposal nat

datatype 'b close_step = Drain | Release_owned | Body 'b

record ('o, 'b) lane =
  ln_queue :: "(nat \<times> 'o) list"
  ln_active :: "(nat \<times> 'o) option"
  ln_work :: "task list"
  ln_closing :: "'b close_step list option"
  ln_owned :: "nat list option"
  ln_released :: "nat list"

definition new_lane :: "('o, 'b) lane" where
  "new_lane = \<lparr>ln_queue = [], ln_active = None, ln_work = [], ln_closing = None, ln_owned = Some [], ln_released = []\<rparr>"

definition lane_sealed :: "('o, 'b) lane \<Rightarrow> bool" where
  "lane_sealed l \<longleftrightarrow> ln_closing l \<noteq> None"

definition track :: "task \<Rightarrow> ('o, 'b) lane \<Rightarrow> ('o, 'b) lane" where
  "track t l = (if t \<in> set (ln_work l) then l else l\<lparr>ln_work := ln_work l @ [t]\<rparr>)"

definition enqueue :: "nat \<Rightarrow> 'o \<Rightarrow> ('o, 'b) lane \<Rightarrow> ('o, 'b) lane" where
  "enqueue i q l = l\<lparr>ln_queue := ln_queue l @ [(i, q)]\<rparr>"

definition lane_run :: "nat \<Rightarrow> 'o \<Rightarrow> ('o, 'b) lane \<Rightarrow> ('o, 'b) lane" where
  "lane_run i q l = (if lane_sealed l then l else enqueue i q l)"

definition lane_close :: "'b close_step list \<Rightarrow> ('o, 'b) lane \<Rightarrow> ('o, 'b) lane" where
  "lane_close prog l = (if lane_sealed l then l else l\<lparr>ln_closing := Some (prog @ [Drain])\<rparr>)"

text \<open>\<open>None\<close> is the rejection by a closed lifetime.\<close>

definition lane_admit :: "nat \<Rightarrow> ('o, 'b) lane \<Rightarrow> ('o, 'b) lane option" where
  "lane_admit i l = (if lane_sealed l then None else Some (track (Task i) l))"

definition lane_serialize :: "nat \<Rightarrow> 'o \<Rightarrow> ('o, 'b) lane \<Rightarrow> ('o, 'b) lane option" where
  "lane_serialize i q l = (if lane_sealed l then None else Some (track (Task i) (enqueue i q l)))"

definition lane_release :: "nat \<Rightarrow> ('o, 'b) lane \<Rightarrow> ('o, 'b) lane" where
  "lane_release r l =
     (let l1 = l\<lparr>ln_owned := map_option (removeAll r) (ln_owned l)\<rparr> in
      if r \<in> set (ln_released l) then l1
      else track (Disposal r) (l1\<lparr>ln_released := ln_released l @ [r]\<rparr>))"

definition lane_own :: "nat \<Rightarrow> ('o, 'b) lane \<Rightarrow> ('o, 'b) lane" where
  "lane_own r l =
     (if r \<in> set (ln_released l) then l
      else case ln_owned l of
        Some os \<Rightarrow> l\<lparr>ln_owned := Some (if r \<in> set os then os else os @ [r])\<rparr>
      | None \<Rightarrow> lane_release r l)"

definition lane_dispose :: "'b list \<Rightarrow> ('o, 'b) lane \<Rightarrow> ('o, 'b) lane" where
  "lane_dispose body = lane_close ([Drain, Release_owned, Drain] @ map Body body)"

text \<open>The close operation takes the owned resources away from the lane and releases each.\<close>

definition release_owned :: "('o, 'b) lane \<Rightarrow> ('o, 'b) lane" where
  "release_owned l = fold lane_release (case ln_owned l of Some os \<Rightarrow> os | None \<Rightarrow> []) (l\<lparr>ln_owned := None\<rparr>)"

definition lane_idle :: "('o, 'b) lane \<Rightarrow> bool" where
  "lane_idle l \<longleftrightarrow> ln_queue l = [] \<and> ln_active l = None"

definition in_lane :: "nat \<Rightarrow> ('o, 'b) lane \<Rightarrow> bool" where
  "in_lane i l \<longleftrightarrow> i \<in> fst ` set (ln_queue l) \<or> (case ln_active l of Some (j, _) \<Rightarrow> i = j | None \<Rightarrow> False)"

definition lane_settle :: "task \<Rightarrow> ('o, 'b) lane \<Rightarrow> ('o, 'b) lane" where
  "lane_settle t l = l\<lparr>ln_work := removeAll t (ln_work l)\<rparr>"

inductive lane_step :: "('o, 'b) lane \<Rightarrow> ('o, 'b) lane \<Rightarrow> bool" where
  operation_starts: "ln_active l = None \<Longrightarrow> ln_queue l = q # qs \<Longrightarrow> lane_step l (l\<lparr>ln_queue := qs, ln_active := Some q\<rparr>)"
| operation_settles: "ln_active l = Some q \<Longrightarrow> lane_step l (l\<lparr>ln_active := None\<rparr>)"
| task_settles: "t \<in> set (ln_work l) \<Longrightarrow> (\<And>i. t = Task i \<Longrightarrow> \<not> in_lane i l) \<Longrightarrow> lane_step l (lane_settle t l)"
| drained: "ln_closing l = Some (Drain # p) \<Longrightarrow> lane_idle l \<Longrightarrow> ln_work l = [] \<Longrightarrow> lane_step l (l\<lparr>ln_closing := Some p\<rparr>)"
| releases: "ln_closing l = Some (Release_owned # p) \<Longrightarrow> lane_idle l \<Longrightarrow> lane_step l ((release_owned l)\<lparr>ln_closing := Some p\<rparr>)"
| body_settles: "ln_closing l = Some (Body b # p) \<Longrightarrow> lane_idle l \<Longrightarrow> lane_step l (l\<lparr>ln_closing := Some p\<rparr>)"

datatype ('o, 'b) lane_call =
    Run_call nat 'o | Admit_call nat | Serialize_call nat 'o | Own_call nat | Release_call nat | Dispose_call "'b list" | Track_call nat

fun lane_called :: "('o, 'b) lane_call \<Rightarrow> ('o, 'b) lane \<Rightarrow> ('o, 'b) lane" where
  "lane_called (Run_call i q) l = lane_run i q l"
| "lane_called (Admit_call i) l = (case lane_admit i l of Some m \<Rightarrow> m | None \<Rightarrow> l)"
| "lane_called (Serialize_call i q) l = (case lane_serialize i q l of Some m \<Rightarrow> m | None \<Rightarrow> l)"
| "lane_called (Own_call r) l = lane_own r l"
| "lane_called (Release_call r) l = lane_release r l"
| "lane_called (Dispose_call body) l = lane_dispose body l"
| "lane_called (Track_call i) l = track (Task i) l"

inductive lane_reachable :: "('o, 'b) lane \<Rightarrow> bool" where
  fresh: "lane_reachable new_lane"
| call: "lane_reachable l \<Longrightarrow> lane_reachable (lane_called c l)"
| internal: "lane_reachable l \<Longrightarrow> lane_step l m \<Longrightarrow> lane_reachable m"


subsection \<open>Resources\<close>

definition held :: "('o, 'b) lane \<Rightarrow> nat list" where
  "held l = (case ln_owned l of Some os \<Rightarrow> os | None \<Rightarrow> [])"

text \<open>No resource is disposed of twice, none is held once its disposal has begun, and a sealed lane that holds resources
  still has their release before it.\<close>

definition lane_ok :: "('o, 'b) lane \<Rightarrow> bool" where
  "lane_ok l \<longleftrightarrow> distinct (ln_released l) \<and> set (held l) \<inter> set (ln_released l) = {}"

lemma track_fields [simp]:
  "ln_queue (track t l) = ln_queue l" "ln_active (track t l) = ln_active l" "ln_closing (track t l) = ln_closing l"
  "ln_owned (track t l) = ln_owned l" "ln_released (track t l) = ln_released l"
  "set (ln_work (track t l)) = insert t (set (ln_work l))" "held (track t l) = held l"
  by (auto simp: track_def held_def)

lemma release_fields [simp]:
  "ln_queue (lane_release r l) = ln_queue l" "ln_active (lane_release r l) = ln_active l"
  "ln_closing (lane_release r l) = ln_closing l" "ln_owned (lane_release r l) = map_option (removeAll r) (ln_owned l)"
  "ln_released (lane_release r l) = (if r \<in> set (ln_released l) then ln_released l else ln_released l @ [r])"
  by (simp_all add: lane_release_def Let_def)

lemma held_simps [simp]:
  "held (lane_release r l) = removeAll r (held l)" "held (l\<lparr>ln_owned := None\<rparr>) = []"
  "held (l\<lparr>ln_closing := c\<rparr>) = held l" "held (l\<lparr>ln_queue := qs\<rparr>) = held l" "held (l\<lparr>ln_active := a\<rparr>) = held l"
  "held (l\<lparr>ln_work := w\<rparr>) = held l" "held (enqueue i q l) = held l"
  by (auto simp: held_def enqueue_def split: option.splits)

lemma released_by_fold [simp]:
  "ln_queue (fold lane_release rs l) = ln_queue l" "ln_active (fold lane_release rs l) = ln_active l"
  "ln_closing (fold lane_release rs l) = ln_closing l"
  "ln_owned (fold lane_release rs l) = None \<longleftrightarrow> ln_owned l = None"
  "set (ln_released (fold lane_release rs l)) = set rs \<union> set (ln_released l)"
  "distinct (ln_released l) \<Longrightarrow> distinct (ln_released (fold lane_release rs l))"
  by (induction rs arbitrary: l) auto

lemma release_owned_fields [simp]:
  "ln_queue (release_owned l) = ln_queue l" "ln_active (release_owned l) = ln_active l"
  "ln_owned (release_owned l) = None"
  "set (ln_released (release_owned l)) = set (held l) \<union> set (ln_released l)"
  "distinct (ln_released l) \<Longrightarrow> distinct (ln_released (release_owned l))"
  unfolding release_owned_def by (simp_all add: held_def)

lemma held_released [simp]: "held (release_owned l) = []"
  by (simp add: held_def)

lemma lane_ok_call: "lane_ok l \<Longrightarrow> lane_ok (lane_called c l)"
  by (cases c)
    (auto simp: lane_ok_def lane_run_def lane_admit_def lane_serialize_def lane_own_def lane_dispose_def lane_close_def
      enqueue_def held_def split: option.splits)

lemma lane_ok_step: "lane_step l m \<Longrightarrow> lane_ok l \<Longrightarrow> lane_ok m"
  by (induction rule: lane_step.induct) (auto simp: lane_ok_def lane_settle_def)

lemma lane_reachable_ok: "lane_reachable l \<Longrightarrow> lane_ok l"
proof (induction rule: lane_reachable.induct)
  case fresh
  show ?case by (simp add: lane_ok_def new_lane_def held_def)
qed (auto intro: lane_ok_call lane_ok_step)

subsection \<open>Closing\<close>

text \<open>How many steps are left at most: two for an operation that has not started, one for one that has, one for a task,
  one for the disposal of a held resource, one for each remaining section of the close operation.\<close>

definition lane_left :: "('o, 'b) lane \<Rightarrow> nat" where
  "lane_left l = 2 * length (ln_queue l) + (if ln_active l = None then 0 else 1) + length (ln_work l) +
     length (held l) + (case ln_closing l of Some p \<Rightarrow> length p | None \<Rightarrow> 0)"

lemma length_track: "length (ln_work (track t l)) \<le> Suc (length (ln_work l))"
  by (simp add: track_def)

lemma length_release: "length (ln_work (lane_release r l)) \<le> Suc (length (ln_work l))"
  using length_track [of "Disposal r" "(l\<lparr>ln_owned := map_option (removeAll r) (ln_owned l)\<rparr>)\<lparr>ln_released := ln_released l @ [r]\<rparr>"]
  by (simp add: lane_release_def Let_def)

lemma length_release_fold: "length (ln_work (fold lane_release rs l)) \<le> length rs + length (ln_work l)"
proof (induction rs arbitrary: l)
  case (Cons r rs)
  from Cons.IH [of "lane_release r l"] length_release [of r l] show ?case by simp
qed simp

lemma lane_step_shrinks: "lane_step l m \<Longrightarrow> lane_left m < lane_left l"
proof (induction rule: lane_step.induct)
  case (task_settles t l)
  then have "length (removeAll t (ln_work l)) < length (ln_work l)" by (simp add: length_removeAll_less)
  then show ?case by (simp add: lane_left_def lane_settle_def)
next
  case (releases l p)
  from length_release_fold [of "held l" "l\<lparr>ln_owned := None\<rparr>"]
  have "length (ln_work (release_owned l)) \<le> length (held l) + length (ln_work l)"
    by (simp add: release_owned_def held_def)
  then show ?case using releases by (simp add: lane_left_def)
qed (simp_all add: lane_left_def)

lemma lane_runs_bounded: "(lane_step ^^ n) l m \<Longrightarrow> n + lane_left m \<le> lane_left l"
proof (induction n arbitrary: m)
  case (Suc n)
  then obtain k where "(lane_step ^^ n) l k" "lane_step k m" by auto
  with Suc.IH [of k] lane_step_shrinks [of k m] show ?case by simp
qed simp

lemma lane_progress:
  assumes "ln_closing l = Some p" and "\<And>m. \<not> lane_step l m"
  shows "p = [] \<and> lane_idle l \<and> ln_work l = []"
proof -
  have active: "ln_active l = None" using assms(2) operation_settles [of l] by (cases "ln_active l") auto
  have queue: "ln_queue l = []" using assms(2) operation_starts [OF active] by (cases "ln_queue l") auto
  have idle: "lane_idle l" using active queue by (simp add: lane_idle_def)
  have work: "ln_work l = []"
  proof (cases "ln_work l")
    case (Cons t ts)
    then show ?thesis using assms(2) task_settles [of t l] active queue by (auto simp: in_lane_def)
  qed simp
  have "p = []"
  proof (cases p)
    case (Cons c q)
    then show ?thesis
      using assms drained [of l q] releases [of l q] body_settles [of l _ q] idle work by (cases c) auto
  qed simp
  with idle work show ?thesis by blast
qed

lemma sealed_stays: "lane_step l m \<Longrightarrow> ln_closing l \<noteq> None \<Longrightarrow> ln_closing m \<noteq> None"
  by (induction rule: lane_step.induct) (auto simp: lane_settle_def)

text \<open>What a disposed lane keeps on its way: resources held when it was sealed are held or released, and held resources
  still have their release ahead.\<close>

definition disposing :: "nat set \<Rightarrow> ('o, 'b) lane \<Rightarrow> bool" where
  "disposing R l \<longleftrightarrow> lane_ok l \<and> R \<subseteq> set (held l) \<union> set (ln_released l) \<and>
     (\<exists>p. ln_closing l = Some p \<and> (ln_owned l = None \<or> Release_owned \<in> set p))"

lemma disposing_step: "lane_step l m \<Longrightarrow> disposing R l \<Longrightarrow> disposing R m"
proof (induction rule: lane_step.induct)
  case (task_settles t l)
  then show ?case by (auto simp: disposing_def lane_ok_def lane_settle_def)
qed (auto simp: disposing_def lane_ok_def)

lemma disposing_run: "lane_step\<^sup>*\<^sup>* l m \<Longrightarrow> disposing R l \<Longrightarrow> disposing R m"
  by (induction rule: rtranclp_induct) (auto intro: disposing_step)

text \<open>C22. Disposing of a lane that is open brings it to a close, in whatever order its work settles: no run of internal steps
  is longer than the work that was left, and where no step is left the close operation has ended, no operation or task
  remains, and every resource the lane held has been disposed of, exactly once.\<close>

theorem disposed_lanes_close:
  assumes "lane_reachable l" and "\<not> lane_sealed l"
  shows "((lane_step ^^ n) (lane_dispose body l) m \<longrightarrow> n \<le> lane_left (lane_dispose body l)) \<and>
    (lane_step\<^sup>*\<^sup>* (lane_dispose body l) m \<and> (\<forall>x. \<not> lane_step m x) \<longrightarrow>
      ln_closing m = Some [] \<and> lane_idle m \<and> ln_work m = [] \<and> ln_owned m = None \<and>
      distinct (ln_released m) \<and> set (held l) \<subseteq> set (ln_released m))"
proof -
  have sealed: "disposing (set (held l)) (lane_dispose body l)"
    using lane_reachable_ok [OF assms(1)] assms(2) by (simp add: disposing_def lane_ok_def lane_dispose_def lane_close_def lane_sealed_def)
  have "ln_closing m = Some [] \<and> lane_idle m \<and> ln_work m = [] \<and> ln_owned m = None \<and>
      distinct (ln_released m) \<and> set (held l) \<subseteq> set (ln_released m)"
    if run: "lane_step\<^sup>*\<^sup>* (lane_dispose body l) m" and stuck: "\<forall>x. \<not> lane_step m x"
  proof -
    from disposing_run [OF run sealed] obtain p where d: "disposing (set (held l)) m" and p: "ln_closing m = Some p"
      by (auto simp: disposing_def)
    with lane_progress [OF p] stuck have "p = []" "lane_idle m" "ln_work m = []" by auto
    with d p show ?thesis by (auto simp: disposing_def lane_ok_def held_def)
  qed
  with lane_runs_bounded [of n "lane_dispose body l" m] show ?thesis by auto
qed

definition busy_lane :: "(string, string) lane" where
  "busy_lane = fold lane_called [Serialize_call 0 ''check'', Own_call 7, Own_call 7, Own_call 8] new_lane"

lemma busy_lane_reachable: "lane_reachable busy_lane"
  unfolding busy_lane_def by (simp add: lane_reachable.intros del: lane_called.simps)

theorem disposed_lanes_close_witness:
  "{n. \<exists>m. (lane_step ^^ n) (lane_dispose [''metadata''] busy_lane) m} \<subseteq> {..10}"
proof -
  have "lane_left (lane_dispose [''metadata''] busy_lane) = 10" "\<not> lane_sealed busy_lane"
    by (simp_all add: busy_lane_def lane_left_def lane_dispose_def lane_close_def lane_sealed_def lane_serialize_def
      lane_own_def enqueue_def track_def new_lane_def held_def)
  moreover have "n \<le> lane_left (lane_dispose [''metadata''] busy_lane)" if "(lane_step ^^ n) (lane_dispose [''metadata''] busy_lane) m" for n m
    using disposed_lanes_close [OF busy_lane_reachable \<open>\<not> lane_sealed busy_lane\<close>, of n "[''metadata'']" m] that by blast
  ultimately show ?thesis by auto
qed


subsection \<open>Waiting\<close>

datatype ('v, 'e) wait_event = Signal_aborts | Deadline_passes | Fulfilled 'v | Rejected 'e

datatype 'v wait_result = Completed 'v | Wait_aborted | Wait_deadline

text \<open>The signal says whether it was aborted before the call; the events come in the order of the event loop and \<open>None\<close> is
  a wait that has not ended.  Without a signal and a finite timeout only the promise is awaited.\<close>

definition awaited :: "bool option \<Rightarrow> js_num option \<Rightarrow> ('v, 'e) wait_event \<Rightarrow> bool" where
  "awaited signal timeout e = (case e of
     Signal_aborts \<Rightarrow> signal \<noteq> None
   | Deadline_passes \<Rightarrow> (case timeout of Some (Fin t) \<Rightarrow> True | _ \<Rightarrow> False)
   | _ \<Rightarrow> True)"

definition waitForCompletion ::
  "bool option \<Rightarrow> js_num option \<Rightarrow> ('v, 'e) wait_event list \<Rightarrow> ('e + 'v wait_result) option" where
  "waitForCompletion signal timeout events =
     (if signal = Some True then Some (Inr Wait_aborted)
      else case filter (awaited signal timeout) events of
        [] \<Rightarrow> None
      | Signal_aborts # _ \<Rightarrow> Some (Inr Wait_aborted)
      | Deadline_passes # _ \<Rightarrow> Some (Inr Wait_deadline)
      | Fulfilled v # _ \<Rightarrow> Some (Inr (Completed v))
      | Rejected e # _ \<Rightarrow> Some (Inl e))"

lemma wait_settles_once:
  "waitForCompletion signal timeout es = Some r \<Longrightarrow> waitForCompletion signal timeout (es @ fs) = Some r"
  by (cases "filter (awaited signal timeout) es") (auto simp: waitForCompletion_def split: if_splits)

lemma unbounded_wait_has_no_deadline: "waitForCompletion signal None es \<noteq> Some (Inr Wait_deadline)"
  by (auto simp: waitForCompletion_def awaited_def filter_eq_Cons_iff split: list.splits wait_event.splits)

subsection \<open>Shared abort scopes\<close>

record abort_scope =
  ab_borrowers :: "nat list"
  ab_aborted :: bool

definition scope_release :: "nat \<Rightarrow> abort_scope \<Rightarrow> abort_scope" where
  "scope_release b s = (if b \<notin> set (ab_borrowers s) then s
     else let bs = removeAll b (ab_borrowers s) in
       s\<lparr>ab_borrowers := bs, ab_aborted := ab_aborted s \<or> bs = []\<rparr>)"

definition scope_acquire :: "nat \<Rightarrow> bool \<Rightarrow> abort_scope \<Rightarrow> abort_scope" where
  "scope_acquire b signal_aborted s =
     (let s1 = s\<lparr>ab_borrowers := ab_borrowers s @ [b]\<rparr> in if signal_aborted then scope_release b s1 else s1)"

lemma borrowed_scope_lives:
  assumes "b \<in> set (ab_borrowers s)" and "\<not> ab_aborted s" and "c \<noteq> b"
  shows "b \<in> set (ab_borrowers (scope_release c s)) \<and> \<not> ab_aborted (scope_release c s)"
    and "b \<in> set (ab_borrowers (scope_acquire c a s)) \<and> \<not> ab_aborted (scope_acquire c a s)"
proof -
  have member: "b \<in> set (removeAll c bs) \<longleftrightarrow> b \<in> set bs" for bs using assms(3) by auto
  have nonempty: "removeAll c bs \<noteq> []" if "b \<in> set bs" for bs using that member [of bs] by (auto simp del: set_removeAll)
  show "b \<in> set (ab_borrowers (scope_release c s)) \<and> \<not> ab_aborted (scope_release c s)"
    using assms nonempty [of "ab_borrowers s"] by (auto simp: scope_release_def Let_def)
  show "b \<in> set (ab_borrowers (scope_acquire c a s)) \<and> \<not> ab_aborted (scope_acquire c a s)"
    using assms nonempty [of "ab_borrowers s @ [c]"] by (auto simp: scope_acquire_def scope_release_def Let_def)
qed

lemma last_release_aborts: "ab_borrowers s = [b] \<Longrightarrow> ab_aborted (scope_release b s)"
  by (simp add: scope_release_def)

end
