(* ===== verification/Effect_Transaction.thy ===== *)
theory Effect_Transaction
  imports Runtime_Lifecycle
begin

text \<open>
  Effect transactions (\<open>src/effect-transaction.ts\<close>): the attempt of a coordinator, and the transaction a sealed branch
  becomes, with its validation lane, its commit and its disposal.

  \<^item> Sections between two awaits are functions on the state; \<open>tx_step\<close> interleaves the sections that run when awaited work
    settles, \<open>tx_called\<close> the calls of clients.  Backend answers are part of the steps.
  \<^item> \<open>tx_log\<close> records what the backend was asked and answered; no operation reads it.
  \<^item> Values (outputs, causes, metrics, snapshots of the branch) are left out: only the status of a validation is read.
    Every proof settles, because \<open>validateWorldBranch\<close> turns a throwing backend into an indeterminate result.
  \<^item> A number names a tracked promise: a proof on the lane, a commit, a reconstruction or a transfer of inputs.
\<close>

subsection \<open>Attempts\<close>

datatype attempt_state = Begun | Executing | Sealing | Sealed | Validating | Validated | Committing | Committed
  | Aborting | Aborted | Effect_poisoned | Attempt_failed

text \<open>An attempt in another state than the expected one is refused with its state.\<close>

definition transition :: "attempt_state \<Rightarrow> attempt_state \<Rightarrow> attempt_state \<Rightarrow> attempt_state + attempt_state" where
  "transition expected successor es = (if es \<noteq> expected then Inl es else Inr successor)"

record branch_shape =
  br_inputsOnly :: bool
  br_output :: bool

definition seal_attempt :: "branch_shape \<Rightarrow> attempt_state \<Rightarrow> bool \<times> attempt_state" where
  "seal_attempt b es =
     (if br_inputsOnly b \<and> br_output b then (True, Attempt_failed)
      else case transition Sealing Sealed es of Inl _ \<Rightarrow> (True, Attempt_failed) | Inr es \<Rightarrow> (False, es))"

text \<open>The results tell whether the branch is disposed of; \<open>None\<close> is an executor that throws.\<close>

definition execute_begin :: "attempt_state \<Rightarrow> attempt_state + attempt_state" where
  "execute_begin = transition Begun Executing"

definition execute_return :: "branch_shape option \<Rightarrow> attempt_state \<Rightarrow> bool \<times> attempt_state" where
  "execute_return r es = (case r of
     None \<Rightarrow> (False, Attempt_failed)
   | Some b \<Rightarrow> (case transition Executing Sealing es of
        Inl _ \<Rightarrow> (False, Attempt_failed)
      | Inr es \<Rightarrow> seal_attempt b es))"

definition capture_begin :: "attempt_state \<Rightarrow> attempt_state + attempt_state" where
  "capture_begin = transition Begun Sealing"

definition capture_missing :: "bool \<Rightarrow> bool \<Rightarrow> bool \<Rightarrow> bool" where
  "capture_missing inputsOnly source given \<longleftrightarrow> \<not> inputsOnly \<and> \<not> source \<and> \<not> given"

definition capture_return :: "bool \<Rightarrow> bool \<Rightarrow> branch_shape option \<Rightarrow> attempt_state \<Rightarrow> bool \<times> attempt_state" where
  "capture_return inputsOnly given r es = (case r of
     None \<Rightarrow> (False, Attempt_failed)
   | Some b \<Rightarrow> if (inputsOnly \<or> \<not> given) \<and> \<not> br_inputsOnly b then (True, Attempt_failed) else seal_attempt b es)"

definition capture_dispose :: "attempt_state \<Rightarrow> attempt_state option" where
  "capture_dispose es = (if es \<noteq> Begun then None else Some Aborting)"

subsection \<open>Transactions\<close>

datatype vstatus = Valid | Stale | Indeterminate

datatype body = Dispose_queries | Await_queries | Dispose_branch | Branch_disposed

text \<open>The shared promise of the commit: absent, one of the awaits of its function, thrown but not yet reset, or kept.\<close>

datatype commit_state = No_commit | Requested nat | Awaiting nat "nat option" | In_effect nat | Refusing nat
  | Commit_done | Commit_poisoned

datatype backend_event = Proof vstatus | Commit_asked | Commit_succeeded | Commit_recoverable | Commit_unknown
  | Query_released nat | Inputs_given | Inputs_dropped | Disposed

record tx =
  tx_inputsOnly :: bool
  tx_es :: attempt_state
  tx_validation :: "vstatus option"
  tx_promise :: "nat option"
  tx_commit :: commit_state
  tx_attempt :: nat
  tx_lane :: "(bool, body) lane"
  tx_waiting :: "(nat \<times> bool) list"
  tx_next :: nat
  tx_asked :: "nat list"
  tx_queries :: "(nat \<times> bool) list"
  tx_transfer :: bool
  tx_moving :: "nat list"
  tx_log :: "backend_event list"

definition new_tx :: "bool \<Rightarrow> tx" where
  "new_tx inputsOnly = \<lparr>tx_inputsOnly = inputsOnly, tx_es = Sealed, tx_validation = None, tx_promise = None,
     tx_commit = No_commit, tx_attempt = 0, tx_lane = new_lane, tx_waiting = [], tx_next = 0, tx_asked = [],
     tx_queries = [], tx_transfer = False, tx_moving = [], tx_log = []\<rparr>"

definition tx_sealed :: "tx \<Rightarrow> bool" where
  "tx_sealed s \<longleftrightarrow> lane_sealed (tx_lane s)"

fun commit_number :: "commit_state \<Rightarrow> nat option" where
  "commit_number (Requested i) = Some i"
| "commit_number (Awaiting i _) = Some i"
| "commit_number (In_effect i) = Some i"
| "commit_number (Refusing i) = Some i"
| "commit_number _ = None"

subsection \<open>Calls\<close>

text \<open>A proof of the transaction is \<open>True\<close>, a proof of a query \<open>False\<close>.\<close>

definition validate_enter :: "bool \<Rightarrow> tx \<Rightarrow> tx" where
  "validate_enter own s =
     (if tx_sealed s \<or> tx_es s \<in> {Aborted, Aborting, Effect_poisoned, Attempt_failed} then s
      else case lane_serialize (tx_next s) own (tx_lane s) of
        None \<Rightarrow> s
      | Some l \<Rightarrow> s\<lparr>tx_lane := l, tx_promise := Some (tx_next s), tx_next := Suc (tx_next s)\<rparr>)"

definition validate_call :: "bool \<Rightarrow> tx \<Rightarrow> tx" where
  "validate_call own s =
     (if \<not> tx_sealed s \<and> tx_commit s \<noteq> No_commit \<and> tx_es s \<noteq> Committed
      then s\<lparr>tx_waiting := tx_waiting s @ [(tx_attempt s, own)]\<rparr>
      else validate_enter own s)"

datatype commit_answer = Input_only | Joined | Retired | Validation_required | Started

definition commit_call :: "tx \<Rightarrow> commit_answer \<times> tx" where
  "commit_call s =
     (if tx_inputsOnly s then (Input_only, s)
      else if tx_commit s \<noteq> No_commit then (Joined, s)
      else if tx_sealed s then (Retired, s)
      else if tx_promise s = None \<and> tx_validation s \<noteq> Some Valid then (Validation_required, s)
      else (Started, s\<lparr>tx_commit := Requested (tx_next s), tx_attempt := Suc (tx_attempt s),
        tx_lane := track (Task (tx_next s)) (tx_lane s), tx_next := Suc (tx_next s)\<rparr>))"

definition abort_call :: "tx \<Rightarrow> tx" where
  "abort_call s = s\<lparr>
     tx_es := (if \<not> tx_sealed s \<and> tx_es s \<notin> {Committed, Effect_poisoned} \<and> tx_commit s = No_commit then Aborting else tx_es s),
     tx_lane := lane_dispose [Dispose_queries, Await_queries, Dispose_branch, Branch_disposed] (tx_lane s)\<rparr>"

definition reconstruct_call :: "tx \<Rightarrow> tx" where
  "reconstruct_call s =
     (if tx_sealed s \<or> tx_es s \<notin> {Sealed, Validating, Validated, Committed} then s
      else s\<lparr>tx_asked := tx_asked s @ [tx_next s], tx_lane := track (Task (tx_next s)) (tx_lane s), tx_next := Suc (tx_next s)\<rparr>)"

definition query_dispose_call :: "nat \<Rightarrow> tx \<Rightarrow> tx" where
  "query_dispose_call i s =
     (if (i, False) \<notin> set (tx_queries s) then s
      else s\<lparr>tx_queries := map (\<lambda>q. if q = (i, False) then (i, True) else q) (tx_queries s),
        tx_log := tx_log s @ [Query_released i]\<rparr>)"

definition takeCommittedInputs_call :: "tx \<Rightarrow> tx" where
  "takeCommittedInputs_call s =
     (if tx_sealed s \<or> tx_es s \<noteq> Committed \<or> tx_transfer s then s
      else s\<lparr>tx_transfer := True, tx_moving := tx_moving s @ [tx_next s],
        tx_lane := track (Task (tx_next s)) (tx_lane s), tx_next := Suc (tx_next s)\<rparr>)"

datatype tx_call = Validate_call bool | Commit_call | Abort_call | Reconstruct_call | Query_dispose_call nat | Take_inputs_call

fun tx_called :: "tx_call \<Rightarrow> tx \<Rightarrow> tx" where
  "tx_called (Validate_call own) s = validate_call own s"
| "tx_called Commit_call s = snd (commit_call s)"
| "tx_called Abort_call s = abort_call s"
| "tx_called Reconstruct_call s = reconstruct_call s"
| "tx_called (Query_dispose_call i) s = query_dispose_call i s"
| "tx_called Take_inputs_call s = takeCommittedInputs_call s"

subsection \<open>Sections of the operations\<close>

definition log_event :: "backend_event \<Rightarrow> tx \<Rightarrow> tx" where
  "log_event e s = s\<lparr>tx_log := tx_log s @ [e]\<rparr>"

definition proof_start :: "nat \<times> bool \<Rightarrow> (nat \<times> bool) list \<Rightarrow> tx \<Rightarrow> tx" where
  "proof_start q qs s = s\<lparr>tx_lane := (tx_lane s)\<lparr>ln_queue := qs, ln_active := Some q\<rparr>,
     tx_es := (if snd q \<and> tx_es s \<in> {Sealed, Validated} then Validating else tx_es s)\<rparr>"

definition proof_return :: "bool \<Rightarrow> vstatus \<Rightarrow> tx \<Rightarrow> tx" where
  "proof_return own r s =
     (let s1 = s\<lparr>tx_lane := (tx_lane s)\<lparr>ln_active := None\<rparr>\<rparr> in
      if own then log_event (Proof r) (s1\<lparr>tx_validation := Some r,
        tx_es := (if tx_es s = Validating then if r = Valid then Validated else Sealed else tx_es s)\<rparr>)
      else s1)"

definition commit_refused :: "nat \<Rightarrow> tx \<Rightarrow> tx" where
  "commit_refused i s = s\<lparr>tx_es := Sealed, tx_validation := None, tx_commit := Refusing i\<rparr>"

definition commit_resume :: "nat \<Rightarrow> tx \<Rightarrow> tx" where
  "commit_resume i s =
     (if tx_validation s \<noteq> Some Valid \<or> tx_es s \<noteq> Validated then commit_refused i s
      else log_event Commit_asked (s\<lparr>tx_es := Committing, tx_commit := In_effect i\<rparr>))"

text \<open>\<open>None\<close> is success; \<open>Some True\<close> a failure the backend proved to be recoverable.\<close>

definition commit_return :: "nat \<Rightarrow> bool option \<Rightarrow> tx \<Rightarrow> tx" where
  "commit_return i failure s = (case failure of
     None \<Rightarrow> log_event Commit_succeeded (s\<lparr>tx_es := Committed, tx_commit := Commit_done\<rparr>)
   | Some True \<Rightarrow> log_event Commit_recoverable (commit_refused i s)
   | Some False \<Rightarrow> log_event Commit_unknown
       (s\<lparr>tx_es := Effect_poisoned, tx_validation := None, tx_commit := Commit_poisoned\<rparr>))"

definition attempt_settled :: "nat \<Rightarrow> tx \<Rightarrow> bool" where
  "attempt_settled k s \<longleftrightarrow> k < tx_attempt s \<or> commit_number (tx_commit s) = None"

definition unsettled :: "nat \<Rightarrow> tx \<Rightarrow> bool" where
  "unsettled i s \<longleftrightarrow> in_lane i (tx_lane s) \<or> i \<in> set (tx_asked s) \<or> i \<in> set (tx_moving s) \<or> commit_number (tx_commit s) = Some i"

definition dispose_queries :: "tx \<Rightarrow> tx" where
  "dispose_queries s = s\<lparr>tx_queries := map (\<lambda>(i, _). (i, True)) (tx_queries s),
     tx_log := tx_log s @ map (\<lambda>(i, _). Query_released i) (filter (\<lambda>(i, released). \<not> released) (tx_queries s))\<rparr>"

definition branch_disposed :: "tx \<Rightarrow> tx" where
  "branch_disposed s = s\<lparr>tx_es := (if tx_es s \<in> {Committed, Effect_poisoned} then tx_es s else Aborted)\<rparr>"

fun body_section :: "body \<Rightarrow> tx \<Rightarrow> tx" where
  "body_section Dispose_queries s = dispose_queries s"
| "body_section Await_queries s = s"
| "body_section Dispose_branch s = log_event Disposed s"
| "body_section Branch_disposed s = branch_disposed s"

definition close_next :: "body close_step list \<Rightarrow> tx \<Rightarrow> tx" where
  "close_next p s = s\<lparr>tx_lane := (tx_lane s)\<lparr>ln_closing := Some p\<rparr>\<rparr>"

inductive tx_step :: "tx \<Rightarrow> tx \<Rightarrow> bool" where
  proof_starts: "ln_active (tx_lane s) = None \<Longrightarrow> ln_queue (tx_lane s) = q # qs \<Longrightarrow> tx_step s (proof_start q qs s)"
| proof_returns: "ln_active (tx_lane s) = Some (i, own) \<Longrightarrow> tx_step s (proof_return own r s)"
| promise_clears: "tx_promise s = Some i \<Longrightarrow> \<not> in_lane i (tx_lane s) \<Longrightarrow> tx_step s (s\<lparr>tx_promise := None\<rparr>)"
| validate_resumes: "tx_waiting s = xs @ (k, own) # ys \<Longrightarrow> attempt_settled k s \<Longrightarrow>
    tx_step s (validate_enter own (s\<lparr>tx_waiting := xs @ ys\<rparr>))"
| commit_begins: "tx_commit s = Requested i \<Longrightarrow> tx_step s (s\<lparr>tx_commit := Awaiting i (tx_promise s)\<rparr>)"
| commit_resumes: "tx_commit s = Awaiting i p \<Longrightarrow> (\<And>j. p = Some j \<Longrightarrow> \<not> in_lane j (tx_lane s)) \<Longrightarrow> tx_step s (commit_resume i s)"
| commit_returns: "tx_commit s = In_effect i \<Longrightarrow> tx_step s (commit_return i failure s)"
| commit_resets: "tx_commit s = Refusing i \<Longrightarrow> tx_step s (s\<lparr>tx_commit := No_commit\<rparr>)"
| query_returns: "tx_asked s = xs @ i # ys \<Longrightarrow>
    tx_step s (s\<lparr>tx_asked := xs @ ys, tx_queries := tx_queries s @ (if keeps then [(i, False)] else [])\<rparr>)"
| query_disposed: "tx_queries s = xs @ (i, True) # ys \<Longrightarrow> tx_step s (s\<lparr>tx_queries := xs @ ys\<rparr>)"
| inputs_arrive: "tx_moving s = xs @ i # ys \<Longrightarrow>
    tx_step s (log_event (if tx_sealed s then Inputs_dropped else Inputs_given) (s\<lparr>tx_moving := xs @ ys\<rparr>))"
| task_settles: "t \<in> set (ln_work (tx_lane s)) \<Longrightarrow> (\<And>i. t = Task i \<Longrightarrow> \<not> unsettled i s) \<Longrightarrow>
    tx_step s (s\<lparr>tx_lane := lane_settle t (tx_lane s)\<rparr>)"
| close_drained: "ln_closing (tx_lane s) = Some (Drain # p) \<Longrightarrow> lane_idle (tx_lane s) \<Longrightarrow> ln_work (tx_lane s) = [] \<Longrightarrow>
    tx_step s (close_next p s)"
| close_releases: "ln_closing (tx_lane s) = Some (Release_owned # p) \<Longrightarrow> lane_idle (tx_lane s) \<Longrightarrow>
    tx_step s (close_next p (s\<lparr>tx_lane := release_owned (tx_lane s)\<rparr>))"
| close_body: "ln_closing (tx_lane s) = Some (Body b # p) \<Longrightarrow> lane_idle (tx_lane s) \<Longrightarrow>
    (b = Await_queries \<Longrightarrow> tx_queries s = []) \<Longrightarrow> tx_step s (close_next p (body_section b s))"

inductive tx_reachable :: "tx \<Rightarrow> bool" where
  sealed_branch: "tx_reachable (new_tx inputsOnly)"
| call: "tx_reachable s \<Longrightarrow> tx_reachable (tx_called c s)"
| internal: "tx_reachable s \<Longrightarrow> tx_step s t \<Longrightarrow> tx_reachable t"


subsection \<open>The protocol of a branch\<close>

text \<open>
  What a backend may rely on, as an automaton over the log: an effect is asked for only with a fresh valid proof, one at a
  time and never again once it has succeeded or is in doubt; the branch is disposed of once, after everything else.
\<close>

datatype phase = Unproved | Proved | Effect | Settled_effect | Broken

fun advances :: "backend_event \<Rightarrow> phase \<times> bool \<Rightarrow> (phase \<times> bool) option" where
  "advances e (p, True) = None"
| "advances (Proof r) (p, False) = Some (if p = Unproved \<or> p = Proved then if r = Valid then Proved else Unproved else p, False)"
| "advances Commit_asked (p, False) = (if p = Proved then Some (Effect, False) else None)"
| "advances Commit_succeeded (p, False) = (if p = Effect then Some (Settled_effect, False) else None)"
| "advances Commit_recoverable (p, False) = (if p = Effect then Some (Unproved, False) else None)"
| "advances Commit_unknown (p, False) = (if p = Effect then Some (Broken, False) else None)"
| "advances Inputs_given (p, False) = (if p = Settled_effect then Some (p, False) else None)"
| "advances Inputs_dropped (p, False) = (if p = Settled_effect then Some (p, False) else None)"
| "advances (Query_released i) (p, False) = Some (p, False)"
| "advances Disposed (p, False) = (if p = Effect then None else Some (p, True))"

definition protocol :: "backend_event list \<Rightarrow> (phase \<times> bool) option" where
  "protocol es = fold (\<lambda>e s. Option.bind s (advances e)) es (Some (Unproved, False))"

lemma protocol_Nil [simp]: "protocol [] = Some (Unproved, False)"
  by (simp add: protocol_def)

lemma protocol_snoc [simp]: "protocol (es @ [e]) = Option.bind (protocol es) (advances e)"
  by (simp add: protocol_def)

lemma protocol_released: "protocol es = Some (p, False) \<Longrightarrow> protocol (es @ map (\<lambda>(i, _). Query_released i) qs) = Some (p, False)"
proof (induction qs rule: rev_induct)
  case (snoc q qs)
  then show ?case by (cases q) (simp add: append_assoc [symmetric] del: append_assoc)
qed simp

subsection \<open>The invariant\<close>

definition close_program :: "body close_step list" where
  "close_program = [Drain, Release_owned, Drain, Body Dispose_queries, Body Await_queries, Body Dispose_branch,
     Body Branch_disposed, Drain]"

text \<open>How much of the close operation is left; an open lane has one more.\<close>

definition close_left :: "tx \<Rightarrow> nat" where
  "close_left s = (case ln_closing (tx_lane s) of None \<Rightarrow> 9 | Some p \<Rightarrow> length p)"

definition effect_phase :: "commit_state \<Rightarrow> phase option" where
  "effect_phase c = (case c of In_effect _ \<Rightarrow> Some Effect | Commit_done \<Rightarrow> Some Settled_effect
     | Commit_poisoned \<Rightarrow> Some Broken | _ \<Rightarrow> None)"

definition effect_state_of :: "phase \<Rightarrow> attempt_state option" where
  "effect_state_of p = (case p of Effect \<Rightarrow> Some Committing | Settled_effect \<Rightarrow> Some Committed
     | Broken \<Rightarrow> Some Effect_poisoned | _ \<Rightarrow> None)"

definition own_proof :: "tx \<Rightarrow> bool" where
  "own_proof s \<longleftrightarrow> (\<exists>i. ln_active (tx_lane s) = Some (i, True))"

definition close_ok :: "tx \<Rightarrow> bool" where
  "close_ok s \<longleftrightarrow> (\<forall>p. ln_closing (tx_lane s) = Some p \<longrightarrow> (\<exists>k. p = drop k close_program)) \<and>
     (close_left s < 8 \<longrightarrow> lane_idle (tx_lane s)) \<and>
     (close_left s < 6 \<longrightarrow> ln_work (tx_lane s) = []) \<and>
     (close_left s < 5 \<longrightarrow> list_all snd (tx_queries s)) \<and>
     (close_left s < 4 \<longrightarrow> tx_queries s = []) \<and>
     (close_left s < 2 \<longrightarrow> tx_es s \<in> {Committed, Effect_poisoned, Aborted})"

definition tasks_ok :: "tx \<Rightarrow> bool" where
  "tasks_ok s \<longleftrightarrow> (\<forall>i. i \<in> set (tx_asked s) \<or> i \<in> set (tx_moving s) \<or> commit_number (tx_commit s) = Some i \<longrightarrow>
     Task i \<in> set (ln_work (tx_lane s))) \<and> (tx_moving s \<noteq> [] \<longrightarrow> tx_es s = Committed)"

definition phase_ok :: "phase \<Rightarrow> tx \<Rightarrow> bool" where
  "phase_ok p s \<longleftrightarrow>
     (case effect_phase (tx_commit s) of
        Some q \<Rightarrow> p = q \<and> Some (tx_es s) = effect_state_of q
      | None \<Rightarrow> p \<in> {Unproved, Proved} \<and> (tx_validation s = Some Valid \<longrightarrow> p = Proved) \<and>
          tx_es s \<in> {Sealed, Validating, Validated, Aborting, Aborted} \<and>
          (tx_es s \<in> {Aborting, Aborted} \<longrightarrow> tx_sealed s \<and> tx_commit s = No_commit) \<and>
          (tx_es s = Validating \<longrightarrow> own_proof s) \<and>
          (tx_es s = Validated \<longrightarrow> tx_validation s = Some Valid \<and> \<not> own_proof s))"

definition tx_ok :: "tx \<Rightarrow> bool" where
  "tx_ok s \<longleftrightarrow> close_ok s \<and> tasks_ok s \<and> (\<exists>p. protocol (tx_log s) = Some (p, close_left s < 3) \<and> phase_ok p s)"

lemma new_tx_ok: "tx_ok (new_tx b)"
  by (simp add: tx_ok_def new_tx_def close_ok_def close_left_def tasks_ok_def phase_ok_def effect_phase_def new_lane_def)


lemmas tx_ok_defs = close_ok_def close_left_def tasks_ok_def phase_ok_def effect_phase_def effect_state_of_def own_proof_def

lemma tx_okI:
  assumes "close_ok s" and "tasks_ok s" and "protocol (tx_log s) = Some (p, close_left s < 3)" and "phase_ok p s"
  shows "tx_ok s"
  using assms by (auto simp: tx_ok_def)

lemma tx_okE:
  assumes "tx_ok s"
  obtains p where "close_ok s" "tasks_ok s" "protocol (tx_log s) = Some (p, close_left s < 3)" "phase_ok p s"
  using assms by (auto simp: tx_ok_def)

lemma open_close_left: "\<not> tx_sealed s \<Longrightarrow> close_left s = 9"
  by (simp add: tx_sealed_def lane_sealed_def close_left_def split: option.splits)

lemma working: "close_ok s \<Longrightarrow> ln_work (tx_lane s) \<noteq> [] \<Longrightarrow> 6 \<le> close_left s"
  by (auto simp: close_ok_def)

lemma busy: "close_ok s \<Longrightarrow> \<not> lane_idle (tx_lane s) \<Longrightarrow> 8 \<le> close_left s"
  by (auto simp: close_ok_def)

lemma committing_works:
  assumes "tx_ok s" and "commit_number (tx_commit s) = Some i"
  shows "6 \<le> close_left s"
proof -
  from assms have "Task i \<in> set (ln_work (tx_lane s))" by (auto elim!: tx_okE simp: tasks_ok_def)
  with assms(1) show ?thesis by (auto elim!: tx_okE intro: working)
qed

text \<open>Operations that touch only what the invariant does not read.\<close>

lemma tx_ok_frame:
  assumes "tx_ok s" and "tx_es t = tx_es s" and "tx_validation t = tx_validation s" and "tx_commit t = tx_commit s"
    and "ln_active (tx_lane t) = ln_active (tx_lane s)" and "ln_closing (tx_lane t) = ln_closing (tx_lane s)"
    and "close_ok t" and "tasks_ok t" and "protocol (tx_log t) = protocol (tx_log s)"
  shows "tx_ok t"
  using assms by (auto simp: tx_ok_def phase_ok_def own_proof_def tx_sealed_def lane_sealed_def close_left_def split: option.splits)

lemma serialize_fields [simp]:
  "lane_serialize i q l = (if ln_closing l = None then
     Some (track (Task i) (l\<lparr>ln_queue := ln_queue l @ [(i, q)]\<rparr>)) else None)"
  by (simp add: lane_serialize_def lane_sealed_def enqueue_def)

lemma validate_enter_ok: "tx_ok s \<Longrightarrow> tx_ok (validate_enter own s)"
proof (cases "validate_enter own s = s")
  case False
  assume ok: "tx_ok s"
  from False have o: "\<not> tx_sealed s" by (auto simp: validate_enter_def)
  show ?thesis
    by (rule tx_ok_frame [OF ok])
      (use ok o in \<open>auto elim!: tx_okE simp: validate_enter_def tx_sealed_def lane_sealed_def close_ok_def close_left_def tasks_ok_def\<close>)
qed simp

lemma tx_called_ok: "tx_ok s \<Longrightarrow> tx_ok (tx_called c s)"
proof (cases c)
  case (Validate_call own)
  assume ok: "tx_ok s"
  have "tx_ok (s\<lparr>tx_waiting := w\<rparr>)" for w
    by (rule tx_ok_frame [OF ok]) (use ok in \<open>auto elim!: tx_okE simp: close_ok_def close_left_def tasks_ok_def\<close>)
  with validate_enter_ok [OF ok] show ?thesis by (simp add: Validate_call validate_call_def)
next
  case Commit_call
  assume ok: "tx_ok s"
  show ?thesis
  proof (cases "fst (commit_call s) = Started")
    case True
    then have o: "\<not> tx_sealed s" "tx_commit s = No_commit" by (auto simp: commit_call_def split: if_splits)
    from ok obtain p where "close_ok s" "tasks_ok s" "protocol (tx_log s) = Some (p, close_left s < 3)" "phase_ok p s" by (rule tx_okE)
    then show ?thesis
      using True o
      by (intro tx_okI [of _ p])
        (auto simp: Commit_call commit_call_def close_ok_def close_left_def tasks_ok_def phase_ok_def effect_phase_def
          own_proof_def tx_sealed_def lane_sealed_def split: if_splits)
  qed (use ok in \<open>auto simp: Commit_call commit_call_def split: if_splits\<close>)
next
  case Abort_call
  assume ok: "tx_ok s"
  then obtain p where p: "close_ok s" "tasks_ok s" "protocol (tx_log s) = Some (p, close_left s < 3)" "phase_ok p s" by (rule tx_okE)
  show ?thesis
  proof (cases "tx_sealed s")
    case True
    then have "abort_call s = s" by (simp add: abort_call_def tx_sealed_def lane_dispose_def lane_close_def)
    with ok show ?thesis by (simp add: Abort_call)
  next
    case False
    let ?t = "abort_call s"
    have c: "ln_closing (tx_lane ?t) = Some close_program"
      using False by (simp add: abort_call_def tx_sealed_def lane_dispose_def lane_close_def close_program_def)
    have l: "ln_active (tx_lane ?t) = ln_active (tx_lane s)" "ln_work (tx_lane ?t) = ln_work (tx_lane s)" "tx_sealed ?t"
      using c False by (simp_all add: abort_call_def tx_sealed_def lane_dispose_def lane_close_def lane_sealed_def)
    have f: "tx_log ?t = tx_log s" "tx_commit ?t = tx_commit s" "tx_validation ?t = tx_validation s" "tx_asked ?t = tx_asked s"
      "tx_moving ?t = tx_moving s" "tx_queries ?t = tx_queries s"
      "tx_es ?t = (if tx_es s \<notin> {Committed, Effect_poisoned} \<and> tx_commit s = No_commit then Aborting else tx_es s)"
      using False by (simp_all add: abort_call_def)
    have left: "close_left ?t = 8" by (simp add: close_left_def c close_program_def)
    have "tx_ok ?t"
    proof (rule tx_okI [of _ p])
      show "close_ok ?t" using c left by (auto simp: close_ok_def intro: exI [of _ 0])
      show "tasks_ok ?t" using p(2,4) by (auto simp: tasks_ok_def l f phase_ok_def effect_phase_def effect_state_of_def split: commit_state.splits)
      show "protocol (tx_log ?t) = Some (p, close_left ?t < 3)" using p(3) open_close_left [OF False] by (simp add: f left)
      show "phase_ok p ?t"
        using p(4) l by (auto simp: phase_ok_def f own_proof_def effect_phase_def effect_state_of_def split: commit_state.splits)
    qed
    then show ?thesis by (simp add: Abort_call)
  qed
next
  case Reconstruct_call
  assume ok: "tx_ok s"
  show ?thesis unfolding Reconstruct_call tx_called.simps
    by (rule tx_ok_frame [OF ok])
      (use ok in \<open>auto elim!: tx_okE simp: reconstruct_call_def tx_sealed_def lane_sealed_def close_ok_def close_left_def tasks_ok_def\<close>)
next
  case (Query_dispose_call i)
  assume ok: "tx_ok s"
  then obtain p where p: "close_ok s" "protocol (tx_log s) = Some (p, close_left s < 3)" by (rule tx_okE)
  show ?thesis
  proof (cases "(i, False) \<in> set (tx_queries s)")
    case True
    then have "\<not> list_all snd (tx_queries s)" by (force simp: list_all_iff)
    with p(1) have early: "5 \<le> close_left s" by (auto simp: close_ok_def)
    have same: "close_left (query_dispose_call i s) = close_left s" by (simp add: query_dispose_call_def close_left_def)
    show ?thesis unfolding Query_dispose_call tx_called.simps
    proof (rule tx_ok_frame [OF ok])
      show "close_ok (query_dispose_call i s)" "tasks_ok (query_dispose_call i s)"
        using ok early same by (auto elim!: tx_okE simp: query_dispose_call_def close_ok_def tasks_ok_def)
      show "protocol (tx_log (query_dispose_call i s)) = protocol (tx_log s)"
        using p(2) early by (simp add: query_dispose_call_def)
    qed (simp_all add: query_dispose_call_def)
  qed (use ok in \<open>simp add: Query_dispose_call query_dispose_call_def\<close>)
next
  case Take_inputs_call
  assume ok: "tx_ok s"
  show ?thesis unfolding Take_inputs_call tx_called.simps
    by (rule tx_ok_frame [OF ok])
      (use ok in \<open>auto elim!: tx_okE simp: takeCommittedInputs_call_def tx_sealed_def lane_sealed_def close_ok_def close_left_def tasks_ok_def\<close>)
qed


lemma drop_next: "drop k xs = y # ys \<Longrightarrow> ys = drop (Suc k) xs"
  by (metis drop_Suc list.sel(3) tl_drop)

lemma program_steps:
  assumes "drop k close_program = c # p"
  shows "(length p = 7 \<or> length p = 5 \<or> length p = 0) \<and> c = Drain \<or> length p = 6 \<and> c = Release_owned \<or>
    length p = 4 \<and> c = Body Dispose_queries \<or> length p = 3 \<and> c = Body Await_queries \<or>
    length p = 2 \<and> c = Body Dispose_branch \<or> length p = 1 \<and> c = Body Branch_disposed"
proof -
  have "k < length close_program" using assms by (metis drop_eq_Nil2 leI list.distinct(1))
  then have "k < 8" by (simp add: close_program_def)
  then consider "k = 0" | "k = 1" | "k = 2" | "k = 3" | "k = 4" | "k = 5" | "k = 6" | "k = 7" by linarith
  then show ?thesis using assms by cases (auto simp: close_program_def)
qed

lemma closing_step:
  assumes "close_ok s" and "ln_closing (tx_lane s) = Some (c # p)"
  shows "close_left s = Suc (length p)" and "\<exists>k. p = drop k close_program"
    and "(length p = 7 \<or> length p = 5 \<or> length p = 0) \<and> c = Drain \<or> length p = 6 \<and> c = Release_owned \<or>
      length p = 4 \<and> c = Body Dispose_queries \<or> length p = 3 \<and> c = Body Await_queries \<or>
      length p = 2 \<and> c = Body Dispose_branch \<or> length p = 1 \<and> c = Body Branch_disposed"
proof -
  obtain k where k: "c # p = drop k close_program" using assms by (auto simp: close_ok_def)
  show "close_left s = Suc (length p)" using assms(2) by (simp add: close_left_def)
  show "\<exists>k. p = drop k close_program" using drop_next [OF k [symmetric]] by blast
  show "(length p = 7 \<or> length p = 5 \<or> length p = 0) \<and> c = Drain \<or> length p = 6 \<and> c = Release_owned \<or>
      length p = 4 \<and> c = Body Dispose_queries \<or> length p = 3 \<and> c = Body Await_queries \<or>
      length p = 2 \<and> c = Body Dispose_branch \<or> length p = 1 \<and> c = Body Branch_disposed"
    by (rule program_steps [OF k [symmetric]])
qed

lemma close_next_left [simp]: "close_left (close_next p s) = length p"
  by (simp add: close_left_def close_next_def)

lemma close_next_fields [simp]:
  "tx_log (close_next p s) = tx_log s" "tx_es (close_next p s) = tx_es s" "tx_commit (close_next p s) = tx_commit s"
  "tx_validation (close_next p s) = tx_validation s" "tx_queries (close_next p s) = tx_queries s"
  "tx_asked (close_next p s) = tx_asked s" "tx_moving (close_next p s) = tx_moving s"
  "ln_closing (tx_lane (close_next p s)) = Some p" "ln_work (tx_lane (close_next p s)) = ln_work (tx_lane s)"
  "lane_idle (tx_lane (close_next p s)) = lane_idle (tx_lane s)" "own_proof (close_next p s) = own_proof s"
  "tx_sealed (close_next p s)" "tasks_ok (close_next p s) = tasks_ok s"
  by (simp_all add: close_next_def lane_idle_def own_proof_def tx_sealed_def lane_sealed_def tasks_ok_def)

lemma phase_close_next [simp]: "phase_ok p s \<Longrightarrow> phase_ok p (close_next q s)"
  by (auto simp: phase_ok_def split: option.splits)

lemma body_fields [simp]:
  "tx_lane (body_section b s) = tx_lane s" "tx_commit (body_section b s) = tx_commit s"
  "tx_validation (body_section b s) = tx_validation s" "tx_asked (body_section b s) = tx_asked s"
  "tx_moving (body_section b s) = tx_moving s" "own_proof (body_section b s) = own_proof s"
  by (cases b; simp add: dispose_queries_def branch_disposed_def log_event_def own_proof_def)+

lemma idle_tasks:
  assumes "tasks_ok s" and "ln_work (tx_lane s) = []"
  shows "tx_asked s = [] \<and> tx_moving s = [] \<and> commit_number (tx_commit s) = None"
proof -
  have "\<not> (i \<in> set (tx_asked s) \<or> i \<in> set (tx_moving s) \<or> commit_number (tx_commit s) = Some i)" for i
    using assms by (auto simp: tasks_ok_def)
  then show ?thesis by (metis all_not_in_conv list.set_intros(1) neq_Nil_conv not_None_eq)
qed

lemma close_body_ok:
  assumes "tx_ok s" and c: "ln_closing (tx_lane s) = Some (Body b # p)" and idle: "lane_idle (tx_lane s)"
    and queries: "b = Await_queries \<Longrightarrow> tx_queries s = []"
  shows "tx_ok (close_next p (body_section b s))"
proof -
  obtain q where ok: "close_ok s" "tasks_ok s" "protocol (tx_log s) = Some (q, close_left s < 3)" "phase_ok q s"
    using assms(1) by (rule tx_okE)
  note p = closing_step [OF ok(1) c]
  have work: "ln_work (tx_lane s) = []" using ok(1) p(1,3) by (auto simp: close_ok_def)
  note tasks = idle_tasks [OF ok(2) work]
  have queries_done: "tx_queries (body_section b s) = []" if "length p < 4"
    using that p(1,3) ok(1) queries by (auto simp: close_ok_def log_event_def branch_disposed_def)
  have released: "list_all snd (tx_queries (body_section b s))" if "length p < 5"
    using that p(1,3) ok(1) queries by (auto simp: close_ok_def dispose_queries_def log_event_def branch_disposed_def list_all_iff)
  have final: "tx_es (body_section b s) \<in> {Committed, Effect_poisoned, Aborted}" if "length p < 2"
    using that p(3) by (auto simp: branch_disposed_def)
  have log: "protocol (tx_log (body_section b s)) = Some (q, length p < 3)"
  proof (cases b)
    case Dispose_queries
    with p(1,3) ok(3) have "protocol (tx_log s) = Some (q, False)" by auto
    with p(3) Dispose_queries show ?thesis by (auto simp: dispose_queries_def protocol_released)
  next
    case Dispose_branch
    with p(1,3) ok(3) have "protocol (tx_log s) = Some (q, False)" by auto
    moreover have "q \<noteq> Effect" using ok(4) tasks by (auto simp: phase_ok_def effect_phase_def split: commit_state.splits)
    ultimately show ?thesis using p(3) Dispose_branch by (auto simp: log_event_def)
  qed (use p(1,3) ok(3) in \<open>auto simp: branch_disposed_def\<close>)
  have "tx_es s \<noteq> Committing" using ok(4) tasks
    by (auto simp: phase_ok_def effect_phase_def effect_state_of_def split: commit_state.splits)
  then have phase: "phase_ok q (body_section b s)" if "b = Branch_disposed"
    using ok(4) idle tasks c that
    by (auto simp: phase_ok_def branch_disposed_def tx_sealed_def lane_sealed_def own_proof_def lane_idle_def
        effect_phase_def effect_state_of_def split: commit_state.splits)
  have phase': "phase_ok q (body_section b s)" if "b \<noteq> Branch_disposed"
  proof -
    have "tx_es (body_section b s) = tx_es s" using that by (cases b) (auto simp: dispose_queries_def log_event_def)
    with ok(4) show ?thesis by (auto simp: phase_ok_def tx_sealed_def split: option.splits)
  qed
  show ?thesis
  proof (rule tx_okI [of _ q])
    show "close_ok (close_next p (body_section b s))"
      using p(2) idle work queries_done released final by (simp add: close_ok_def)
    show "tasks_ok (close_next p (body_section b s))" using tasks by (simp add: tasks_ok_def)
    show "protocol (tx_log (close_next p (body_section b s))) = Some (q, close_left (close_next p (body_section b s)) < 3)"
      using log by simp
    show "phase_ok q (close_next p (body_section b s))" using phase phase' by (cases "b = Branch_disposed") simp_all
  qed
qed


lemma settle_left [simp]: "close_left (s\<lparr>tx_lane := lane_settle t (tx_lane s)\<rparr>) = close_left s"
  by (simp add: close_left_def lane_settle_def)

lemma proof_start_ok:
  assumes "tx_ok s" and "ln_active (tx_lane s) = None" and "ln_queue (tx_lane s) = q # qs"
  shows "tx_ok (proof_start q qs s)"
proof -
  obtain p where ok: "close_ok s" "tasks_ok s" "protocol (tx_log s) = Some (p, close_left s < 3)" "phase_ok p s"
    using assms(1) by (rule tx_okE)
  have left: "8 \<le> close_left s" using busy [OF ok(1)] assms(3) by (simp add: lane_idle_def)
  have same: "close_left (proof_start q qs s) = close_left s" by (simp add: close_left_def proof_start_def)
  have "\<not> own_proof s" using assms(2) by (simp add: own_proof_def)
  then have "phase_ok p (proof_start q qs s)" using ok(4) assms(2)
    by (cases q) (auto simp: phase_ok_def proof_start_def own_proof_def effect_phase_def effect_state_of_def
      tx_sealed_def lane_sealed_def split: commit_state.splits)
  then show ?thesis
    using ok left same by (intro tx_okI [of _ p]) (auto simp: close_ok_def tasks_ok_def proof_start_def)
qed

lemma proof_return_ok:
  assumes "tx_ok s" and "ln_active (tx_lane s) = Some (i, own)"
  shows "tx_ok (proof_return own r s)"
proof -
  obtain p where ok: "close_ok s" "tasks_ok s" "protocol (tx_log s) = Some (p, close_left s < 3)" "phase_ok p s"
    using assms(1) by (rule tx_okE)
  have left: "8 \<le> close_left s" using busy [OF ok(1)] assms(2) by (simp add: lane_idle_def)
  have same: "close_left (proof_return own r s) = close_left s"
    by (simp add: close_left_def proof_return_def Let_def log_event_def)
  have rest: "close_ok (proof_return own r s)" "tasks_ok (proof_return own r s)"
    using ok(1,2) left same
    by (auto simp: close_ok_def tasks_ok_def proof_return_def Let_def log_event_def)
  show ?thesis
  proof (cases own)
    case False
    then have "phase_ok p (proof_return own r s)" using ok(4) assms(2)
      by (auto simp: phase_ok_def proof_return_def Let_def own_proof_def tx_sealed_def lane_sealed_def split: option.splits)
    with rest ok(3) same False show ?thesis by (intro tx_okI [of _ p]) (auto simp: proof_return_def Let_def)
  next
    case True
    let ?q = "if p = Unproved \<or> p = Proved then if r = Valid then Proved else Unproved else p"
    have "phase_ok ?q (proof_return own r s)" using ok(4) True assms(2)
      by (auto simp: phase_ok_def proof_return_def Let_def log_event_def own_proof_def effect_phase_def effect_state_of_def
        tx_sealed_def lane_sealed_def split: commit_state.splits)
    moreover have "protocol (tx_log (proof_return own r s)) = Some (?q, close_left (proof_return own r s) < 3)"
      using ok(3) left same True by (auto simp: proof_return_def Let_def log_event_def)
    ultimately show ?thesis using rest by (intro tx_okI)
  qed
qed

lemma commit_resume_ok:
  assumes "tx_ok s" and "tx_commit s = Awaiting i j"
  shows "tx_ok (commit_resume i s)"
proof -
  obtain p where ok: "close_ok s" "tasks_ok s" "protocol (tx_log s) = Some (p, close_left s < 3)" "phase_ok p s"
    using assms(1) by (rule tx_okE)
  have left: "6 \<le> close_left s" using committing_works [OF assms(1)] assms(2) by simp
  have same: "close_left (commit_resume i s) = close_left s"
    by (simp add: close_left_def commit_resume_def commit_refused_def log_event_def)
  have p: "p \<in> {Unproved, Proved}" "tx_validation s = Some Valid \<Longrightarrow> p = Proved"
    using ok(4) assms(2) by (auto simp: phase_ok_def effect_phase_def)
  have rest: "close_ok (commit_resume i s)" "tasks_ok (commit_resume i s)"
    using ok(1,2,4) left same assms(2)
    by (auto simp: close_ok_def tasks_ok_def commit_resume_def commit_refused_def log_event_def phase_ok_def effect_phase_def)
  show ?thesis
  proof (cases "tx_validation s \<noteq> Some Valid \<or> tx_es s \<noteq> Validated")
    case True
    then have "phase_ok p (commit_resume i s)" "tx_log (commit_resume i s) = tx_log s" using p
      by (auto simp: commit_resume_def commit_refused_def phase_ok_def effect_phase_def)
    with rest ok(3) same show ?thesis by (intro tx_okI [of _ p]) auto
  next
    case False
    then have "phase_ok Effect (commit_resume i s)" "tx_log (commit_resume i s) = tx_log s @ [Commit_asked]"
      by (auto simp: commit_resume_def log_event_def phase_ok_def effect_phase_def effect_state_of_def)
    with rest ok(3) same left False p show ?thesis by (intro tx_okI [of _ Effect]) auto
  qed
qed

lemma commit_return_ok:
  assumes "tx_ok s" and "tx_commit s = In_effect i"
  shows "tx_ok (commit_return i failure s)"
proof -
  obtain p where ok: "close_ok s" "tasks_ok s" "protocol (tx_log s) = Some (p, close_left s < 3)" "phase_ok p s"
    using assms(1) by (rule tx_okE)
  have left: "6 \<le> close_left s" using committing_works [OF assms(1)] assms(2) by simp
  have es: "p = Effect" "tx_es s = Committing" using ok(4) assms(2) by (auto simp: phase_ok_def effect_phase_def effect_state_of_def)
  have same: "close_left (commit_return i failure s) = close_left s"
    by (simp add: close_left_def commit_return_def commit_refused_def log_event_def split: option.splits bool.splits)
  have "close_ok (commit_return i failure s)" "tasks_ok (commit_return i failure s)"
    using ok(1,2) left same assms(2) es
    by (auto simp: close_ok_def tasks_ok_def commit_return_def commit_refused_def log_event_def split: option.splits bool.splits)
  moreover have "\<exists>q. protocol (tx_log (commit_return i failure s)) = Some (q, close_left s < 3) \<and>
      phase_ok q (commit_return i failure s)"
    using ok(3) left es
    by (cases failure; cases "failure = Some True")
      (auto simp: commit_return_def commit_refused_def log_event_def phase_ok_def effect_phase_def effect_state_of_def)
  ultimately show ?thesis using same by (auto intro: tx_okI)
qed

lemma tx_step_ok: "tx_step s t \<Longrightarrow> tx_ok s \<Longrightarrow> tx_ok t"
proof (induction rule: tx_step.induct)
  case (promise_clears s i)
  show ?case
    by (rule tx_ok_frame [OF promise_clears(3)])
      (use promise_clears(3) in \<open>auto elim!: tx_okE simp: close_ok_def close_left_def tasks_ok_def\<close>)
next
  case (validate_resumes s xs k own ys)
  have "tx_ok (s\<lparr>tx_waiting := xs @ ys\<rparr>)"
    by (rule tx_ok_frame [OF validate_resumes(3)])
      (use validate_resumes(3) in \<open>auto elim!: tx_okE simp: close_ok_def close_left_def tasks_ok_def\<close>)
  then show ?case by (rule validate_enter_ok)
next
  case (commit_begins s i)
  then show ?case
    by (auto elim!: tx_okE intro!: tx_okI simp: close_ok_def close_left_def tasks_ok_def phase_ok_def effect_phase_def
      own_proof_def tx_sealed_def)
next
  case (commit_resets s i)
  then show ?case
    by (auto elim!: tx_okE intro!: tx_okI simp: close_ok_def close_left_def tasks_ok_def phase_ok_def effect_phase_def
      own_proof_def tx_sealed_def)
next
  case (query_returns s xs i ys keeps)
  have "Task i \<in> set (ln_work (tx_lane s))" using query_returns by (auto elim!: tx_okE simp: tasks_ok_def)
  then have "6 \<le> close_left s" using query_returns(2) by (auto elim!: tx_okE intro: working)
  then show ?case
    by (intro tx_ok_frame [OF query_returns(2)])
      (use query_returns in \<open>auto elim!: tx_okE simp: close_ok_def close_left_def tasks_ok_def\<close>)
next
  case (query_disposed s xs i ys)
  show ?case
    by (rule tx_ok_frame [OF query_disposed(2)])
      (use query_disposed in \<open>auto elim!: tx_okE simp: close_ok_def close_left_def tasks_ok_def\<close>)
next
  case (inputs_arrive s xs i ys)
  obtain p where ok: "close_ok s" "tasks_ok s" "protocol (tx_log s) = Some (p, close_left s < 3)" "phase_ok p s"
    using inputs_arrive(2) by (rule tx_okE)
  have "Task i \<in> set (ln_work (tx_lane s))" and es: "tx_es s = Committed" using ok(2) inputs_arrive(1) by (auto simp: tasks_ok_def)
  then have left: "6 \<le> close_left s" using ok(1) by (auto intro: working)
  have p: "p = Settled_effect" "tx_commit s = Commit_done" using ok(4) es
    by (auto simp: phase_ok_def effect_phase_def effect_state_of_def split: commit_state.splits)
  then show ?case
    using ok left inputs_arrive(1) es p
    by (intro tx_okI [of _ p])
      (auto simp: close_ok_def close_left_def tasks_ok_def phase_ok_def log_event_def effect_phase_def effect_state_of_def)
next
  case (task_settles t s)
  show ?case
    by (rule tx_ok_frame [OF task_settles(3)])
      (use task_settles in \<open>auto elim!: tx_okE simp: close_ok_def tasks_ok_def lane_settle_def lane_idle_def unsettled_def close_left_def\<close>)
next
  case (close_drained s p)
  obtain q where ok: "close_ok s" "tasks_ok s" "protocol (tx_log s) = Some (q, close_left s < 3)" "phase_ok q s"
    using close_drained(4) by (rule tx_okE)
  note p = closing_step [OF ok(1) close_drained(1)]
  from p(1,3) ok(1) have "close_ok (close_next p s)" using p(2) close_drained(2,3) by (auto simp: close_ok_def)
  moreover have "length p < 3 \<longleftrightarrow> close_left s < 3" using p(1,3) by auto
  ultimately show ?case using ok by (intro tx_okI [of _ q]) simp_all
next
  case (close_releases s p)
  obtain q where ok: "close_ok s" "tasks_ok s" "protocol (tx_log s) = Some (q, close_left s < 3)" "phase_ok q s"
    using close_releases(3) by (rule tx_okE)
  note p = closing_step [OF ok(1) close_releases(1)]
  have len: "length p = 6" "close_left s = 7" using p(1,3) by auto
  let ?s = "s\<lparr>tx_lane := release_owned (tx_lane s)\<rparr>"
  have idle: "lane_idle (tx_lane ?s)" using close_releases(2) by (simp add: lane_idle_def)
  have "ln_closing (release_owned (tx_lane s)) = ln_closing (tx_lane s)" by (simp add: release_owned_def)
  then have sealed: "tx_sealed ?s = tx_sealed s" by (simp add: tx_sealed_def lane_sealed_def)
  have work: "set (ln_work (tx_lane s)) \<subseteq> set (ln_work (release_owned (tx_lane s)))"
  proof -
    have "set (ln_work l) \<subseteq> set (ln_work (fold lane_release rs l))" for rs and l :: "(bool, body) lane"
    proof (induction rs arbitrary: l)
      case (Cons r rs)
      have "set (ln_work l) \<subseteq> set (ln_work (lane_release r l))" by (auto simp: lane_release_def Let_def)
      with Cons.IH [of "lane_release r l"] show ?case by simp
    qed simp
    from this [of "(tx_lane s)\<lparr>ln_owned := None\<rparr>"] show ?thesis unfolding release_owned_def by simp
  qed
  have "tasks_ok ?s" using ok(2) work by (auto simp: tasks_ok_def)
  moreover have "phase_ok q ?s" using ok(4) sealed by (auto simp: phase_ok_def own_proof_def split: option.splits)
  moreover have "close_ok (close_next p ?s)" using p(2) idle len by (auto simp: close_ok_def)
  ultimately show ?case using ok(3) len by (intro tx_okI [of _ q]) simp_all
qed (auto intro: proof_start_ok proof_return_ok commit_resume_ok commit_return_ok close_body_ok)

lemma tx_reachable_ok: "tx_reachable s \<Longrightarrow> tx_ok s"
proof (induction rule: tx_reachable.induct)
  case (sealed_branch b)
  show ?case by (rule new_tx_ok)
qed (auto intro: tx_called_ok tx_step_ok)


subsection \<open>Safety\<close>

lemma protocol_disposed: "protocol es = Some (p, d) \<Longrightarrow> d \<longleftrightarrow> Disposed \<in> set es"
proof (induction es arbitrary: p d rule: rev_induct)
  case (snoc e es)
  then obtain q b where q: "protocol es = Some (q, b)" "advances e (q, b) = Some (p, d)"
    by (auto simp: bind_eq_Some_conv)
  from snoc.IH [OF q(1)] q(2) show ?case by (cases b; cases e) (auto split: if_splits)
qed simp

text \<open>C1. Whatever clients call and in whatever order awaited work settles, the backend sees the protocol: an effect is asked
  for only with a valid proof obtained since the last attempt, one at a time, never again once it has succeeded or is in
  doubt, and never after the branch was disposed of, which happens once and with nothing in flight.  The state of the
  transaction tells the phase of the protocol.\<close>

theorem backends_see_the_protocol:
  assumes "tx_reachable s"
  shows "\<exists>p. protocol (tx_log s) = Some (p, Disposed \<in> set (tx_log s)) \<and>
    (tx_es s = Committing \<longleftrightarrow> p = Effect) \<and> (tx_es s = Committed \<longleftrightarrow> p = Settled_effect) \<and>
    (tx_es s = Effect_poisoned \<longleftrightarrow> p = Broken) \<and> (tx_es s = Validated \<longrightarrow> p = Proved)"
proof -
  obtain p where p: "protocol (tx_log s) = Some (p, close_left s < 3)" "phase_ok p s"
    using tx_reachable_ok [OF assms] by (rule tx_okE)
  have "(tx_es s = Committing \<longleftrightarrow> p = Effect) \<and> (tx_es s = Committed \<longleftrightarrow> p = Settled_effect) \<and>
      (tx_es s = Effect_poisoned \<longleftrightarrow> p = Broken) \<and> (tx_es s = Validated \<longrightarrow> p = Proved)"
    using p(2) by (cases "tx_commit s") (auto simp: phase_ok_def effect_phase_def effect_state_of_def)
  with p(1) protocol_disposed [OF p(1)] show ?thesis by (intro exI [of _ p]) simp
qed

text \<open>The edges of the life cycle of a sealed transaction.\<close>

definition edges :: "(attempt_state \<times> attempt_state) set" where
  "edges = {(Sealed, Validating), (Validated, Validating), (Validating, Validated), (Validating, Sealed), (Validated, Sealed),
     (Validated, Committing), (Committing, Committed), (Committing, Sealed), (Committing, Effect_poisoned),
     (Sealed, Aborting), (Validating, Aborting), (Validated, Aborting), (Sealed, Aborted), (Validated, Aborted),
     (Aborting, Aborted)}"

text \<open>C26. Every call and every step moves a transaction along an edge of its life cycle or leaves its state alone; committed,
  poisoned and aborted are final.\<close>

theorem transactions_follow_the_life_cycle:
  assumes "tx_reachable s" and "t = tx_called c s \<or> tx_step s t"
  shows "(tx_es t = tx_es s \<or> (tx_es s, tx_es t) \<in> edges) \<and>
    (tx_es s \<in> {Committed, Effect_poisoned, Aborted} \<longrightarrow> tx_es t = tx_es s)"
proof -
  obtain p where p: "phase_ok p s" "close_ok s" "tasks_ok s" using tx_reachable_ok [OF assms(1)] by (rule tx_okE)
  have enter: "tx_es (validate_enter own u) = tx_es u" for own u by (simp add: validate_enter_def)
  have "tx_es t = tx_es s \<or> (tx_es s, tx_es t) \<in> edges"
    using assms(2)
  proof
    assume "t = tx_called c s"
    then show ?thesis using p(1)
      by (cases c) (auto simp: validate_call_def enter commit_call_def abort_call_def reconstruct_call_def query_dispose_call_def
        takeCommittedInputs_call_def edges_def phase_ok_def effect_phase_def effect_state_of_def split: commit_state.splits)
  next
    assume "tx_step s t"
    then show ?thesis using p
    proof (induction rule: tx_step.induct)
      case (close_body s b q)
      have "ln_work (tx_lane s) = []"
        using closing_step(1,3) [OF close_body(5,1)] close_body(5) by (auto simp: close_ok_def)
      with idle_tasks [OF close_body(6)] have "commit_number (tx_commit s) = None" by simp
      then show ?case using close_body
        by (cases b) (auto simp: dispose_queries_def branch_disposed_def log_event_def edges_def phase_ok_def effect_phase_def
          effect_state_of_def own_proof_def lane_idle_def split: commit_state.splits)
    qed (auto simp: proof_start_def proof_return_def Let_def log_event_def enter commit_resume_def commit_refused_def commit_return_def
        edges_def phase_ok_def effect_phase_def effect_state_of_def split: option.splits bool.splits)
  qed
  then show ?thesis by (auto simp: edges_def)
qed


subsection \<open>Liveness\<close>

fun commit_left :: "commit_state \<Rightarrow> nat" where
  "commit_left (Requested _) = 4"
| "commit_left (Awaiting _ _) = 3"
| "commit_left (In_effect _) = 2"
| "commit_left (Refusing _) = 1"
| "commit_left _ = 0"

definition queries_left :: "(nat \<times> bool) list \<Rightarrow> nat" where
  "queries_left qs = sum_list (map (\<lambda>(_, released). if released then 1 else 2) qs)"

text \<open>How many steps are left at most.  A call that waits for a commit may still enter the lane, a reconstruction may leave
  a query to release.\<close>

definition tx_left :: "tx \<Rightarrow> nat" where
  "tx_left s = lane_left (tx_lane s) + 5 * length (tx_waiting s) + (if tx_promise s = None then 0 else 1) +
     3 * length (tx_asked s) + length (tx_moving s) + queries_left (tx_queries s) + commit_left (tx_commit s)"

lemma queries_left_simps [simp]:
  "queries_left [] = 0" "queries_left (xs @ ys) = queries_left xs + queries_left ys"
  "queries_left ((i, r) # ys) = (if r then 1 else 2) + queries_left ys"
  by (simp_all add: queries_left_def)

lemma queries_left_released: "queries_left (map (\<lambda>(i, _). (i, True)) qs) \<le> queries_left qs"
  by (induction qs) auto

lemma queries_left_release: "queries_left (map (\<lambda>q. if q = (i, False) then (i, True) else q) qs) \<le> queries_left qs"
proof (induction qs)
  case (Cons q qs)
  then show ?case by (cases q) auto
qed simp

lemma lane_left_track: "lane_left (track t l) \<le> Suc (lane_left l)"
  using length_track [of t l] by (simp add: lane_left_def)

lemma validate_enter_left: "tx_left (validate_enter own s) \<le> tx_left s + 4"
proof (cases "validate_enter own s = s")
  case False
  let ?l = "tx_lane s\<lparr>ln_queue := ln_queue (tx_lane s) @ [(tx_next s, own)]\<rparr>"
  from False have "validate_enter own s = s\<lparr>tx_lane := track (Task (tx_next s)) ?l, tx_promise := Some (tx_next s), tx_next := Suc (tx_next s)\<rparr>"
    by (auto simp: validate_enter_def split: if_splits)
  moreover have "lane_left (track (Task (tx_next s)) ?l) \<le> lane_left (tx_lane s) + 3"
    using lane_left_track [of "Task (tx_next s)" ?l] by (simp add: lane_left_def)
  ultimately show ?thesis by (simp add: tx_left_def)
qed simp

lemma tx_step_shrinks: "tx_step s t \<Longrightarrow> tx_left t < tx_left s"
proof (induction rule: tx_step.induct)
  case (proof_starts s q qs)
  from lane_step_shrinks [OF lane_step.operation_starts [OF proof_starts]] show ?case
    by (simp add: tx_left_def proof_start_def)
next
  case (proof_returns s i own r)
  from lane_step_shrinks [OF lane_step.operation_settles [OF proof_returns]] show ?case
    by (simp add: tx_left_def proof_return_def Let_def log_event_def)
next
  case (validate_resumes s xs k own ys)
  have "tx_left (s\<lparr>tx_waiting := xs @ ys\<rparr>) + 5 = tx_left s" by (simp add: tx_left_def validate_resumes(1))
  with validate_enter_left [of own "s\<lparr>tx_waiting := xs @ ys\<rparr>"] show ?case by simp
next
  case (task_settles t s)
  have "lane_left (lane_settle t (tx_lane s)) < lane_left (tx_lane s)"
    by (rule lane_step_shrinks, rule lane_step.task_settles) (use task_settles in \<open>auto simp: unsettled_def\<close>)
  then show ?case by (simp add: tx_left_def)
next
  case (close_drained s p)
  from lane_step_shrinks [OF lane_step.drained [OF close_drained]] show ?case by (simp add: tx_left_def close_next_def)
next
  case (close_releases s p)
  from lane_step_shrinks [OF lane_step.releases [OF close_releases]] show ?case by (simp add: tx_left_def close_next_def)
next
  case (close_body s b p)
  from lane_step_shrinks [OF lane_step.body_settles [OF close_body(1,2)]] queries_left_released [of "tx_queries s"]
  show ?case by (cases b) (simp_all add: tx_left_def close_next_def dispose_queries_def branch_disposed_def log_event_def)
qed (auto simp: tx_left_def commit_resume_def commit_refused_def commit_return_def log_event_def split: option.splits bool.splits)

lemma sealed_call_left: "tx_sealed s \<Longrightarrow> tx_left (tx_called c s) \<le> tx_left s"
proof (cases c)
  case (Query_dispose_call i)
  then show ?thesis using queries_left_release [of i "tx_queries s"] by (simp add: query_dispose_call_def tx_left_def)
qed (auto simp: validate_call_def validate_enter_def commit_call_def abort_call_def reconstruct_call_def
  takeCommittedInputs_call_def tx_sealed_def lane_dispose_def lane_close_def)

text \<open>Runs with a number of internal steps and calls in between.\<close>

inductive tx_run :: "nat \<Rightarrow> tx \<Rightarrow> tx \<Rightarrow> bool" where
  here: "tx_run 0 s s"
| then_call: "tx_run n s t \<Longrightarrow> tx_run n s (tx_called c t)"
| then_step: "tx_run n s t \<Longrightarrow> tx_step t u \<Longrightarrow> tx_run (Suc n) s u"

lemma called_sealed: "tx_sealed s \<Longrightarrow> tx_sealed (tx_called c s)"
  by (cases c) (auto simp: validate_call_def validate_enter_def commit_call_def abort_call_def reconstruct_call_def
    query_dispose_call_def takeCommittedInputs_call_def tx_sealed_def lane_sealed_def lane_dispose_def lane_close_def)

lemma step_sealed: "tx_step s t \<Longrightarrow> tx_sealed s \<Longrightarrow> tx_sealed t"
  by (induction rule: tx_step.induct)
    (auto simp: proof_start_def proof_return_def Let_def log_event_def validate_enter_def commit_resume_def commit_refused_def
      commit_return_def tx_sealed_def lane_sealed_def lane_settle_def close_next_def split: option.splits bool.splits)

lemma run_keeps: "tx_run n s t \<Longrightarrow> tx_reachable s \<Longrightarrow> tx_sealed s \<Longrightarrow> tx_reachable t \<and> tx_sealed t \<and> n + tx_left t \<le> tx_left s"
proof (induction rule: tx_run.induct)
  case (then_call n s t c)
  with sealed_call_left [of t c] called_sealed [of t c] show ?case by (fastforce intro: tx_reachable.call)
next
  case (then_step n s t u)
  with tx_step_shrinks [of t u] step_sealed [of t u] show ?case by (fastforce intro: tx_reachable.internal)
qed simp

lemma tx_progress:
  assumes ok: "tx_ok s" and "tx_sealed s" and stuck: "\<And>t. \<not> tx_step s t"
  shows "ln_closing (tx_lane s) = Some [] \<and> tx_waiting s = [] \<and> tx_promise s = None"
proof -
  let ?l = "tx_lane s"
  obtain q where c: "close_ok s" "tasks_ok s" using ok by (rule tx_okE)
  have active: "ln_active ?l = None"
    using stuck proof_returns [of s] by (cases "ln_active ?l") auto
  have queue: "ln_queue ?l = []" using stuck proof_starts [OF active] by (cases "ln_queue ?l") auto
  have idle: "lane_idle ?l" and out: "\<And>i. \<not> in_lane i ?l" using active queue by (auto simp: lane_idle_def in_lane_def)
  have promise: "tx_promise s = None" using stuck promise_clears [of s] out by (cases "tx_promise s") auto
  have asked: "tx_asked s = []" using stuck query_returns [of s "[]"] by (cases "tx_asked s") auto
  have moving: "tx_moving s = []" using stuck inputs_arrive [of s "[]"] by (cases "tx_moving s") auto
  have commit: "commit_number (tx_commit s) = None"
    using stuck commit_begins [of s] commit_resumes [of s] commit_returns [of s] commit_resets [of s] out
    by (cases "tx_commit s") auto
  have waiting: "tx_waiting s = []"
  proof (cases "tx_waiting s")
    case (Cons w ws)
    then show ?thesis using stuck validate_resumes [of s "[]" "fst w" "snd w" ws] commit
      by (auto simp: attempt_settled_def)
  qed simp
  have work: "ln_work ?l = []"
  proof (cases "ln_work ?l")
    case (Cons t ts)
    then show ?thesis using stuck task_settles [of t s] out asked moving commit by (auto simp: unsettled_def)
  qed simp
  obtain p where p: "ln_closing ?l = Some p" using assms(2) by (auto simp: tx_sealed_def lane_sealed_def)
  have "p = []"
  proof (rule ccontr)
    assume "p \<noteq> []"
    then obtain d ds where d: "p = d # ds" by (cases p) auto
    note s = closing_step [OF c(1) p [unfolded d]]
    show False
    proof (cases "d = Body Await_queries \<and> tx_queries s \<noteq> []")
      case True
      then have "list_all snd (tx_queries s)" using s(1,3) c(1) d by (auto simp: close_ok_def)
      with True obtain i qs where "tx_queries s = (i, True) # qs" by (cases "tx_queries s") auto
      with stuck query_disposed [of s "[]"] show ?thesis by auto
    next
      case False
      then show ?thesis
        using stuck close_drained [of s ds] close_releases [of s ds] close_body [of s _ ds] p d idle work by (cases d) auto
    qed
  qed
  with p waiting promise show ?thesis by simp
qed


text \<open>C13. Once a transaction is retired it comes to rest: the number of internal steps is bounded whatever clients still call,
  and where none is left the close operation has ended, every query is released, the branch is disposed of, no caller waits,
  and the state is committed, poisoned or aborted.\<close>

theorem retired_transactions_close:
  assumes "tx_reachable s" and "tx_sealed s"
  shows "(tx_run n s t \<longrightarrow> n \<le> tx_left s) \<and>
    (tx_run n s t \<and> (\<forall>u. \<not> tx_step t u) \<longrightarrow>
      ln_closing (tx_lane t) = Some [] \<and> tx_es t \<in> {Committed, Effect_poisoned, Aborted} \<and>
      Disposed \<in> set (tx_log t) \<and> tx_queries t = [] \<and> tx_waiting t = [])"
proof -
  have "ln_closing (tx_lane t) = Some [] \<and> tx_es t \<in> {Committed, Effect_poisoned, Aborted} \<and>
      Disposed \<in> set (tx_log t) \<and> tx_queries t = [] \<and> tx_waiting t = []"
    if run: "tx_run n s t" and stuck: "\<forall>u. \<not> tx_step t u"
  proof -
    from run_keeps [OF run assms] have r: "tx_reachable t" "tx_sealed t" by simp_all
    note ok = tx_reachable_ok [OF r(1)]
    from tx_progress [OF ok r(2)] stuck have c: "ln_closing (tx_lane t) = Some []" "tx_waiting t = []" by auto
    then have left: "close_left t = 0" by (simp add: close_left_def)
    from ok obtain p where p: "close_ok t" "protocol (tx_log t) = Some (p, close_left t < 3)" by (rule tx_okE)
    from protocol_disposed [OF p(2)] left p(1) c show ?thesis by (simp add: close_ok_def)
  qed
  moreover have "n \<le> tx_left s" if "tx_run n s t" using run_keeps [OF that assms] by simp
  ultimately show ?thesis by blast
qed

subsection \<open>A run\<close>

definition proved_tx :: tx where
  "proved_tx = proof_return True Valid (proof_start (0, True) [] (tx_called (Validate_call True) (new_tx False)))"

definition committed_tx :: tx where
  "committed_tx = (let s = tx_called Commit_call proved_tx in
     commit_return 1 None (commit_resume 1 (s\<lparr>tx_commit := Awaiting 1 (tx_promise s)\<rparr>)))"

lemmas run_defs = new_tx_def new_lane_def validate_call_def validate_enter_def tx_sealed_def lane_sealed_def track_def
  proof_start_def proof_return_def Let_def log_event_def

lemma proved_tx_eq: "proved_tx = (new_tx False)\<lparr>tx_es := Validated, tx_validation := Some Valid, tx_promise := Some 0,
    tx_lane := new_lane\<lparr>ln_work := [Task 0]\<rparr>, tx_next := 1, tx_log := [Proof Valid]\<rparr>"
  by (simp add: proved_tx_def run_defs)

lemma proved_tx_reachable: "tx_reachable proved_tx"
proof -
  let ?a = "tx_called (Validate_call True) (new_tx False)"
  have "tx_reachable ?a" by (intro tx_reachable.call tx_reachable.sealed_branch)
  moreover have "tx_step ?a (proof_start (0, True) [] ?a)" by (rule tx_step.proof_starts) (simp_all add: run_defs)
  moreover have "tx_step (proof_start (0, True) [] ?a) proved_tx" unfolding proved_tx_def
    by (rule tx_step.proof_returns) (simp add: proof_start_def)
  ultimately show ?thesis by (metis tx_reachable.internal)
qed

lemma committed_tx_eq: "tx_es committed_tx = Committed \<and> tx_log committed_tx = [Proof Valid, Commit_asked, Commit_succeeded] \<and> \<not> tx_sealed committed_tx"
  by (simp add: committed_tx_def proved_tx_eq commit_call_def commit_resume_def commit_return_def run_defs)

lemma committed_tx_reachable: "tx_reachable committed_tx"
proof -
  let ?a = "tx_called Commit_call proved_tx"
  let ?b = "?a\<lparr>tx_commit := Awaiting 1 (tx_promise ?a)\<rparr>"
  let ?c = "commit_resume 1 ?b"
  have c: "tx_commit ?a = Requested 1" "\<not> in_lane 0 (tx_lane ?a)" "tx_promise ?a = Some 0"
    by (simp_all add: proved_tx_eq commit_call_def run_defs in_lane_def)
  have "tx_reachable ?a" by (intro tx_reachable.call proved_tx_reachable)
  moreover have "tx_step ?a ?b" by (rule tx_step.commit_begins [OF c(1)])
  moreover have "tx_step ?b ?c" by (rule tx_step.commit_resumes [of _ _ "Some 0"]) (use c in simp_all)
  moreover have "tx_commit ?c = In_effect 1" by (simp add: proved_tx_eq commit_call_def commit_resume_def run_defs)
  then have "tx_step ?c committed_tx" unfolding committed_tx_def Let_def by (rule tx_step.commit_returns)
  ultimately show ?thesis by (metis tx_reachable.internal)
qed

theorem backends_see_the_protocol_witness:
  "tx_es committed_tx = Committed \<and> protocol (tx_log committed_tx) = Some (Settled_effect, False)"
  using backends_see_the_protocol [OF committed_tx_reachable] committed_tx_eq by auto

theorem transactions_follow_the_life_cycle_witness:
  "(tx_es proved_tx, tx_es (tx_called Abort_call proved_tx)) \<in> edges"
  using transactions_follow_the_life_cycle [OF proved_tx_reachable, of "tx_called Abort_call proved_tx" Abort_call]
  by (simp add: proved_tx_eq abort_call_def new_tx_def tx_sealed_def lane_sealed_def new_lane_def edges_def)

theorem retired_transactions_close_witness:
  "{n. \<exists>t. tx_run n (tx_called Abort_call committed_tx) t} \<subseteq> {..tx_left (tx_called Abort_call committed_tx)} \<and>
    tx_run 0 (tx_called Abort_call committed_tx) (tx_called Abort_call committed_tx)"
proof -
  have "tx_sealed (tx_called Abort_call committed_tx)"
    by (simp add: abort_call_def tx_sealed_def lane_sealed_def lane_dispose_def lane_close_def)
  with retired_transactions_close [OF tx_reachable.call [OF committed_tx_reachable], of Abort_call] tx_run.here show ?thesis by blast
qed

end
