(* ===== verification/Drafter_Budget.thy ===== *)
theory Drafter_Budget
  imports Numbers
begin

text \<open>
  Requests of the drafter: their settings and temperatures (\<open>src/common.ts\<close>) and the budget one user task shares
  among them (\<open>src/drafter-budget.ts\<close>).

  \<^item> Numbers are reals; a proposal index is finite.  Token estimates of the agent package are parameters.
  \<^item> A run keeps the usage object of the task it began in, also when another task has replaced it meanwhile; so usage
    objects are numbered in a list and the budget knows the current one.
\<close>

subsection \<open>Settings and temperatures\<close>

definition number_setting :: "js_val \<Rightarrow> real \<Rightarrow> real" where
  "number_setting v d = nonNegativeNumber v d id"

definition drafter_fields :: "real setting_field list" where
  "drafter_fields =
    [(''drafterMaxDepth'', 3, int_setting nonNegativeInteger),
     (''drafterMaxTokens'', 4096, int_setting positiveInteger),
     (''drafterTaskMaxRequests'', 32, int_setting positiveInteger),
     (''drafterTaskMaxTokens'', 262144, int_setting positiveInteger),
     (''drafterDeterministicCandidates'', 1, int_setting nonNegativeInteger),
     (''drafterTemperatureMin'', 7 / 10, number_setting),
     (''drafterTemperatureMax'', 7 / 10, number_setting)]"

record drafter_settings =
  ds_numbers :: "(string, real) jsmap"
  ds_patternHints :: bool

definition drafter_number :: "drafter_settings \<Rightarrow> string \<Rightarrow> real" where
  "drafter_number s k = (case map_of (ds_numbers s) k of Some x \<Rightarrow> x | None \<Rightarrow> 0)"

definition parseDrafterSettings :: "(string \<rightharpoonup> js_val) \<Rightarrow> drafter_settings" where
  "parseDrafterSettings input = \<lparr>ds_numbers = settings_parse drafter_fields input,
     ds_patternHints = booleanOr (case input ''drafterPatternHints'' of Some v \<Rightarrow> v | None \<Rightarrow> JUndef) False\<rparr>"

definition normalizeDrafterRequestSettings :: "js_val \<Rightarrow> drafter_settings" where
  "normalizeDrafterRequestSettings v =
     (let result = parseDrafterSettings (case v of JObj fs \<Rightarrow> map_of fs | _ \<Rightarrow> Map.empty);
          lower = drafter_number result ''drafterTemperatureMin''; upper = drafter_number result ''drafterTemperatureMax'' in
      result\<lparr>ds_numbers := ms_set ''drafterTemperatureMax'' (max lower upper)
        (ms_set ''drafterTemperatureMin'' (min lower upper) (ds_numbers result))\<rparr>)"

definition drafterRequestTemperature :: "real \<Rightarrow> js_num \<Rightarrow> drafter_settings \<Rightarrow> real" where
  "drafterRequestTemperature proposalIndex proposalCount s =
     (let count = real (positiveCount (JNum proposalCount));
          index = max 0 (min (count - 1) (of_int \<lfloor>proposalIndex\<rfloor>));
          deterministic = min count (drafter_number s ''drafterDeterministicCandidates'');
          stochastic = count - deterministic;
          low = drafter_number s ''drafterTemperatureMin''; high = drafter_number s ''drafterTemperatureMax'' in
      if index < deterministic then 0
      else if stochastic = 1 then (low + high) / 2
      else low + (high - low) * (index - deterministic) / (stochastic - 1))"

subsection \<open>The budget of a task\<close>

record task_use =
  tu_requests :: nat
  tu_reported :: real
  tu_unreported :: real
  tu_reserved :: real
  tu_skipped :: nat

definition empty_use :: task_use where
  "empty_use = \<lparr>tu_requests = 0, tu_reported = 0, tu_unreported = 0, tu_reserved = 0, tu_skipped = 0\<rparr>"

definition spent :: "task_use \<Rightarrow> real" where
  "spent u = tu_reported u + tu_unreported u + tu_reserved u"

record task_budget =
  tb_uses :: "task_use list"
  tb_finished :: bool

text \<open>The current usage object is the newest one.\<close>

definition new_budget :: task_budget where
  "new_budget = \<lparr>tb_uses = [empty_use], tb_finished = False\<rparr>"

definition current_use :: "task_budget \<Rightarrow> task_use" where
  "current_use b = last (tb_uses b)"

definition change_current :: "(task_use \<Rightarrow> task_use) \<Rightarrow> task_budget \<Rightarrow> task_budget" where
  "change_current f b = b\<lparr>tb_uses := butlast (tb_uses b) @ [f (current_use b)]\<rparr>"

record budget_policy =
  bp_requests :: nat
  bp_tokens :: nat

datatype suppression = Request_limit | Token_limit | Context_limit

definition skip :: "task_budget \<Rightarrow> task_budget" where
  "skip = change_current (\<lambda>u. u\<lparr>tu_skipped := Suc (tu_skipped u)\<rparr>)"

definition available :: "budget_policy \<Rightarrow> task_budget \<Rightarrow> suppression option \<times> task_budget" where
  "available p b =
     (let b = (if tb_finished b then \<lparr>tb_uses = tb_uses b @ [empty_use], tb_finished = False\<rparr> else b); u = current_use b in
      if tu_requests u < bp_requests p \<and> spent u < real (bp_tokens p) then (None, b)
      else (Some (if bp_requests p \<le> tu_requests u then Request_limit else Token_limit), skip b))"

record draft_model =
  dm_maxTokens :: real
  dm_contextWindow :: real

datatype admitted_run = Skipped_run suppression | Reserved_run nat real real

text \<open>A reserved run carries the number of its usage object, its reservation and the output tokens it may ask for.\<close>

definition run_begin ::
  "budget_policy \<Rightarrow> draft_model \<Rightarrow> real \<Rightarrow> real option \<Rightarrow> real option \<Rightarrow> task_budget \<Rightarrow> admitted_run \<times> task_budget" where
  "run_begin p m contextTokens inputTokens maxOption b = (case available p b of
     (Some reason, b) \<Rightarrow> (Skipped_run reason, b)
   | (None, b) \<Rightarrow>
       let prompt = max contextTokens (case inputTokens of Some n \<Rightarrow> n | None \<Rightarrow> 0);
           remaining = real (bp_tokens p) - spent (current_use b);
           output = min (min (case maxOption of Some n \<Rightarrow> n | None \<Rightarrow> dm_maxTokens m) (dm_maxTokens m)) (dm_contextWindow m - prompt);
           maxTokens = of_int \<lfloor>min output (remaining - prompt)\<rfloor>;
           reservation = prompt + maxTokens in
       if \<not> 0 < maxTokens
       then (Skipped_run (if dm_contextWindow m \<le> prompt then Context_limit else Token_limit), skip b)
       else (Reserved_run (length (tb_uses b) - 1) reservation maxTokens,
         change_current (\<lambda>u. u\<lparr>tu_requests := Suc (tu_requests u), tu_reserved := tu_reserved u + reservation\<rparr>) b))"

text \<open>What the provider reported: nothing when the request threw, else tokens and the reason it stopped.\<close>

definition reported_tokens :: "(js_num \<times> string) option \<Rightarrow> real option" where
  "reported_tokens outcome = (case outcome of
     Some (Fin t, stop) \<Rightarrow> if 0 \<le> t \<and> (0 < t \<or> stop \<notin> {''error'', ''aborted''}) then Some t else None
   | _ \<Rightarrow> None)"

definition run_settle :: "nat \<Rightarrow> real \<Rightarrow> (js_num \<times> string) option \<Rightarrow> task_budget \<Rightarrow> task_budget" where
  "run_settle k reservation outcome b =
     (let u = tb_uses b ! k; u1 = u\<lparr>tu_reserved := tu_reserved u - reservation\<rparr> in
      b\<lparr>tb_uses := (tb_uses b)[k := (case reported_tokens outcome of
          Some t \<Rightarrow> u1\<lparr>tu_reported := tu_reported u + t\<rparr>
        | None \<Rightarrow> u1\<lparr>tu_unreported := tu_unreported u + reservation\<rparr>)]\<rparr>)"

definition finishTask :: "task_budget \<Rightarrow> task_budget" where
  "finishTask b = b\<lparr>tb_finished := True\<rparr>"

definition budget_snapshot :: "task_budget \<Rightarrow> task_use" where
  "budget_snapshot = current_use"

record context_estimate =
  ce_tokens :: real
  ce_lastUsageIndex :: "nat option"

definition drafterInputTokens :: "context_estimate \<Rightarrow> nat \<Rightarrow> nat \<Rightarrow> real" where
  "drafterInputTokens e systemPrompt toolsText = ce_tokens e +
     (if ce_lastUsageIndex e = None then of_int \<lceil>real (systemPrompt + toolsText) / 4\<rceil> else 0)"

subsection \<open>Concurrent runs\<close>

text \<open>Open runs are the reservations that have not settled; a settlement names an open run by its position.\<close>

datatype budget_event =
    Begin_run draft_model real "real option" "real option"
  | Settle_run nat "(js_num \<times> string) option"
  | Check_available
  | Finish_task

fun budget_step :: "budget_policy \<Rightarrow> budget_event \<Rightarrow> task_budget \<times> (nat \<times> real) list \<Rightarrow> task_budget \<times> (nat \<times> real) list" where
  "budget_step p (Begin_run m c i o1) (b, runs) = (case run_begin p m c i o1 b of
     (Reserved_run k r n, b) \<Rightarrow> (b, runs @ [(k, r)])
   | (Skipped_run reason, b) \<Rightarrow> (b, runs))"
| "budget_step p (Settle_run j outcome) (b, runs) =
     (if j < length runs then (run_settle (fst (runs ! j)) (snd (runs ! j)) outcome b, take j runs @ drop (Suc j) runs) else (b, runs))"
| "budget_step p Check_available (b, runs) = (snd (available p b), runs)"
| "budget_step p Finish_task (b, runs) = (finishTask b, runs)"


text \<open>By how much the report of a settled run exceeds its reservation, charged to the usage object of the run.\<close>

fun overrun :: "budget_event \<Rightarrow> task_budget \<times> (nat \<times> real) list \<Rightarrow> nat \<Rightarrow> real" where
  "overrun (Settle_run j outcome) (b, runs) k =
     (if j < length runs \<and> k = fst (runs ! j)
      then case reported_tokens outcome of Some t \<Rightarrow> max 0 (t - snd (runs ! j)) | None \<Rightarrow> 0 else 0)"
| "overrun _ _ k = 0"

fun budget_run ::
  "budget_policy \<Rightarrow> budget_event list \<Rightarrow> task_budget \<times> (nat \<times> real) list \<Rightarrow> (nat \<Rightarrow> real) \<Rightarrow>
     (task_budget \<times> (nat \<times> real) list) \<times> (nat \<Rightarrow> real)" where
  "budget_run p [] st extra = (st, extra)"
| "budget_run p (e # es) st extra = budget_run p es (budget_step p e st) (\<lambda>k. extra k + overrun e st k)"

definition reserved_by :: "nat \<Rightarrow> (nat \<times> real) list \<Rightarrow> real" where
  "reserved_by k runs = sum_list (map (\<lambda>(i, r). if i = k then r else 0) runs)"

lemma reserved_by_simps [simp]:
  "reserved_by k [] = 0" "reserved_by k (xs @ ys) = reserved_by k xs + reserved_by k ys"
  "reserved_by k ((i, r) # ys) = (if i = k then r else 0) + reserved_by k ys"
  by (simp_all add: reserved_by_def)

lemma reserved_by_removed:
  assumes "j < length runs"
  shows "reserved_by k runs = (if fst (runs ! j) = k then snd (runs ! j) else 0) + reserved_by k (take j runs @ drop (Suc j) runs)"
proof -
  have "runs = take j runs @ (fst (runs ! j), snd (runs ! j)) # drop (Suc j) runs" using assms by (simp add: id_take_nth_drop [symmetric])
  then have "reserved_by k runs = reserved_by k (take j runs @ (fst (runs ! j), snd (runs ! j)) # drop (Suc j) runs)" by (rule arg_cong)
  then show ?thesis by (simp only: reserved_by_simps add.left_commute)
qed

definition use_ok :: "budget_policy \<Rightarrow> real \<Rightarrow> real \<Rightarrow> task_use \<Rightarrow> bool" where
  "use_ok p extra reserved u \<longleftrightarrow> tu_requests u \<le> bp_requests p \<and> tu_reserved u = reserved \<and>
     spent u \<le> real (bp_tokens p) + extra \<and> 0 \<le> extra"

definition budget_ok :: "budget_policy \<Rightarrow> (task_budget \<times> (nat \<times> real) list) \<times> (nat \<Rightarrow> real) \<Rightarrow> bool" where
  "budget_ok p st \<longleftrightarrow> (case st of ((b, runs), extra) \<Rightarrow> tb_uses b \<noteq> [] \<and> list_all (\<lambda>r. fst r < length (tb_uses b)) runs \<and>
     (\<forall>k. 0 \<le> extra k) \<and>
     (\<forall>k < length (tb_uses b). use_ok p (extra k) (reserved_by k runs) (tb_uses b ! k)))"

lemma change_current_nth:
  assumes "tb_uses b \<noteq> []"
  shows "length (tb_uses (change_current f b)) = length (tb_uses b)" "tb_uses (change_current f b) \<noteq> []"
    and "k < length (tb_uses b) \<Longrightarrow> tb_uses (change_current f b) ! k =
      (if k = length (tb_uses b) - 1 then f (tb_uses b ! k) else tb_uses b ! k)"
proof -
  show "length (tb_uses (change_current f b)) = length (tb_uses b)" "tb_uses (change_current f b) \<noteq> []"
    using assms by (simp_all add: change_current_def)
  show "k < length (tb_uses b) \<Longrightarrow> tb_uses (change_current f b) ! k =
      (if k = length (tb_uses b) - 1 then f (tb_uses b ! k) else tb_uses b ! k)"
    using assms by (auto simp: change_current_def current_use_def nth_append nth_butlast last_conv_nth)
qed

lemma skip_ok: "budget_ok p ((b, runs), extra) \<Longrightarrow> budget_ok p ((skip b, runs), extra)"
proof -
  assume ok: "budget_ok p ((b, runs), extra)"
  let ?k = "length (tb_uses b) - 1"
  have "?k < length (tb_uses b)" using ok by (auto simp: budget_ok_def)
  then have "use_ok p (extra ?k) (reserved_by ?k runs) (tb_uses b ! ?k)" using ok by (simp add: budget_ok_def)
  then show ?thesis using ok by (auto simp: budget_ok_def skip_def change_current_nth use_ok_def spent_def)
qed

lemma reserved_by_fresh: "list_all (\<lambda>r. fst r < k) runs \<Longrightarrow> reserved_by k runs = 0"
  by (induction runs) auto

lemma fresh_ok: "budget_ok p ((b, runs), extra) \<Longrightarrow> budget_ok p ((b\<lparr>tb_uses := tb_uses b @ [empty_use], tb_finished := False\<rparr>, runs), extra)"
  by (auto simp: budget_ok_def nth_append use_ok_def empty_use_def spent_def reserved_by_fresh less_Suc_eq list_all_iff)

lemma available_ok:
  assumes "budget_ok p ((b, runs), extra)"
  shows "budget_ok p ((snd (available p b), runs), extra)"
    and "fst (available p b) = None \<Longrightarrow> tu_requests (current_use (snd (available p b))) < bp_requests p"
proof -
  let ?b = "if tb_finished b then \<lparr>tb_uses = tb_uses b @ [empty_use], tb_finished = False\<rparr> else b"
  have b: "?b = b \<or> ?b = b\<lparr>tb_uses := tb_uses b @ [empty_use], tb_finished := False\<rparr>" by simp
  then have ok: "budget_ok p ((?b, runs), extra)" using assms fresh_ok [OF assms] by metis
  have eq: "available p b = (if tu_requests (current_use ?b) < bp_requests p \<and> spent (current_use ?b) < real (bp_tokens p)
      then (None, ?b) else (Some (if bp_requests p \<le> tu_requests (current_use ?b) then Request_limit else Token_limit), skip ?b))"
    by (simp only: available_def Let_def)
  show "budget_ok p ((snd (available p b), runs), extra)" unfolding eq using ok skip_ok [OF ok] by (simp split: if_splits)
  show "fst (available p b) = None \<Longrightarrow> tu_requests (current_use (snd (available p b))) < bp_requests p"
    unfolding eq by (simp split: if_splits)
qed

lemma reserve_ok:
  assumes "budget_ok p ((b, runs), extra)" and "tu_requests (current_use b) < bp_requests p"
    and "spent (current_use b) + r \<le> real (bp_tokens p)"
  shows "budget_ok p ((change_current (\<lambda>u. u\<lparr>tu_requests := Suc (tu_requests u), tu_reserved := tu_reserved u + r\<rparr>) b,
    runs @ [(length (tb_uses b) - 1, r)]), extra)"
proof -
  have ne: "tb_uses b \<noteq> []" using assms(1) by (simp add: budget_ok_def)
  have cur: "current_use b = tb_uses b ! (length (tb_uses b) - 1)" using ne by (simp add: current_use_def last_conv_nth)
  have e: "0 \<le> extra (length (tb_uses b) - 1)" using assms(1) by (simp add: budget_ok_def)
  have fits: "spent (current_use b) + r \<le> real (bp_tokens p) + extra (length (tb_uses b) - 1)" using assms(3) e by linarith
  show ?thesis
    using assms(1,2) ne fits unfolding cur
    by (auto simp: budget_ok_def change_current_nth use_ok_def spent_def list_all_iff)
qed

lemma begin_ok:
  assumes "budget_ok p ((b, runs), extra)"
  shows "budget_ok p ((case run_begin p m c i o1 b of
     (Reserved_run k r n, b) \<Rightarrow> (b, runs @ [(k, r)]) | (Skipped_run reason, b) \<Rightarrow> (b, runs)), extra)"
proof -
  obtain a b1 where a: "available p b = (a, b1)" by force
  note ok = available_ok [OF assms, unfolded a snd_conv fst_conv]
  show ?thesis
  proof (cases a)
    case None
    let ?prompt = "max c (case i of Some n \<Rightarrow> n | None \<Rightarrow> 0)"
    let ?limit = "min (min (min (case o1 of Some n \<Rightarrow> n | None \<Rightarrow> dm_maxTokens m) (dm_maxTokens m)) (dm_contextWindow m - ?prompt))
      (real (bp_tokens p) - spent (current_use b1) - ?prompt)"
    have "spent (current_use b1) + (?prompt + of_int \<lfloor>?limit\<rfloor>) \<le> real (bp_tokens p)"
      using of_int_floor_le [of ?limit] by linarith
    from reserve_ok [OF ok(1) ok(2) [OF None] this] skip_ok [OF ok(1)] show ?thesis
      by (auto simp: run_begin_def a None Let_def)
  qed (use ok in \<open>simp add: run_begin_def a\<close>)
qed

lemma settle_ok:
  assumes "budget_ok p ((b, runs), extra)" and "j < length runs"
  shows "budget_ok p ((run_settle (fst (runs ! j)) (snd (runs ! j)) outcome b, take j runs @ drop (Suc j) runs),
    \<lambda>k. extra k + overrun (Settle_run j outcome) (b, runs) k)"
proof -
  obtain k r where kr: "runs ! j = (k, r)" by force
  have k: "k < length (tb_uses b)" using assms kr by (auto simp: budget_ok_def list_all_length)
  have rest: "reserved_by i runs = (if k = i then r else 0) + reserved_by i (take j runs @ drop (Suc j) runs)" for i
    using reserved_by_removed [OF assms(2), of i] by (simp add: kr)
  have sub: "list_all (\<lambda>r. fst r < length (tb_uses b)) (take j runs @ drop (Suc j) runs)"
    using assms(1) by (auto simp: budget_ok_def list_all_iff dest: in_set_takeD in_set_dropD)
  show ?thesis
    unfolding budget_ok_def prod.case
  proof (intro conjI allI impI)
    show "tb_uses (run_settle (fst (runs ! j)) (snd (runs ! j)) outcome b) \<noteq> []"
      "list_all (\<lambda>s. fst s < length (tb_uses (run_settle (fst (runs ! j)) (snd (runs ! j)) outcome b))) (take j runs @ drop (Suc j) runs)"
      using assms(1) sub by (simp_all add: budget_ok_def run_settle_def Let_def)
    show "0 \<le> extra i + overrun (Settle_run j outcome) (b, runs) i" for i
      using assms(1) by (auto simp: budget_ok_def add_nonneg_nonneg split: option.splits)
    fix i assume i: "i < length (tb_uses (run_settle (fst (runs ! j)) (snd (runs ! j)) outcome b))"
    then have u: "use_ok p (extra i) (reserved_by i runs) (tb_uses b ! i)" using assms(1) by (simp add: budget_ok_def run_settle_def Let_def)
    show "use_ok p (extra i + overrun (Settle_run j outcome) (b, runs) i) (reserved_by i (take j runs @ drop (Suc j) runs))
        (tb_uses (run_settle (fst (runs ! j)) (snd (runs ! j)) outcome b) ! i)"
    proof (cases "i = k")
      case True
      then show ?thesis using u k assms(2) rest [of i]
        by (cases "reported_tokens outcome") (auto simp: kr run_settle_def Let_def use_ok_def spent_def)
    qed (use u k assms(2) rest [of i] in \<open>auto simp: kr run_settle_def Let_def use_ok_def\<close>)
  qed
qed

lemma budget_step_ok: "budget_ok p (st, extra) \<Longrightarrow> budget_ok p (budget_step p e st, \<lambda>k. extra k + overrun e st k)"
proof (cases e)
  case (Begin_run m c i o1)
  assume "budget_ok p (st, extra)"
  then show ?thesis using begin_ok [of p "fst st" "snd st" extra m c i o1] by (cases st) (simp add: Begin_run split: prod.splits admitted_run.splits)
next
  case (Settle_run j outcome)
  assume ok: "budget_ok p (st, extra)"
  obtain b runs where st: "st = (b, runs)" by force
  show ?thesis
  proof (cases "j < length runs")
    case True
    from settle_ok [OF ok [unfolded st] True, of outcome] show ?thesis using True by (simp only: Settle_run st budget_step.simps if_True)
  qed (use ok in \<open>simp add: Settle_run st\<close>)
next
  case Check_available
  assume "budget_ok p (st, extra)"
  then show ?thesis using available_ok(1) [of p "fst st" "snd st" extra] by (cases st) (simp add: Check_available)
next
  case Finish_task
  assume "budget_ok p (st, extra)"
  then show ?thesis by (cases st) (simp add: Finish_task finishTask_def budget_ok_def)
qed

lemma budget_run_ok: "budget_ok p (st, extra) \<Longrightarrow> budget_ok p (budget_run p es st extra)"
proof (induction es arbitrary: st extra)
  case (Cons e es)
  from Cons.IH [OF budget_step_ok [OF Cons.prems, of e]] show ?case by simp
qed simp

text \<open>C19. However the runs of one task and its successors overlap, every usage object holds exactly the reservations of its
  open runs, never more requests than the policy allows, and never spends more than the policy's tokens except by what
  providers reported beyond their reservations.\<close>

theorem drafter_budget_is_kept:
  "case budget_run p es (new_budget, []) (\<lambda>_. 0) of ((b, runs), extra) \<Rightarrow>
    \<forall>k < length (tb_uses b). tu_requests (tb_uses b ! k) \<le> bp_requests p \<and>
      tu_reserved (tb_uses b ! k) = reserved_by k runs \<and> spent (tb_uses b ! k) \<le> real (bp_tokens p) + extra k"
proof -
  have "budget_ok p ((new_budget, []), \<lambda>_. 0)"
    by (simp add: budget_ok_def new_budget_def use_ok_def empty_use_def spent_def)
  from budget_run_ok [OF this, of es] show ?thesis by (auto simp: budget_ok_def use_ok_def split: prod.splits)
qed

theorem drafter_budget_is_kept_witness:
  "\<exists>b runs extra. budget_run \<lparr>bp_requests = 2, bp_tokens = 60\<rparr>
      [Begin_run \<lparr>dm_maxTokens = 100, dm_contextWindow = 1000\<rparr> 10 None None,
       Begin_run \<lparr>dm_maxTokens = 100, dm_contextWindow = 1000\<rparr> 10 None None] (new_budget, []) (\<lambda>_. 0) = ((b, runs), extra) \<and>
    tu_requests (tb_uses b ! 0) = 1 \<and> tu_skipped (tb_uses b ! 0) = 1 \<and> spent (tb_uses b ! 0) \<le> 60 \<and> extra 0 = 0"
proof -
  let ?p = "\<lparr>bp_requests = 2, bp_tokens = 60\<rparr>"
  let ?es = "[Begin_run \<lparr>dm_maxTokens = 100, dm_contextWindow = 1000\<rparr> 10 None None,
       Begin_run \<lparr>dm_maxTokens = 100, dm_contextWindow = 1000\<rparr> 10 None None]"
  obtain b runs extra where r: "budget_run ?p ?es (new_budget, []) (\<lambda>_. 0) = ((b, runs), extra)" by (metis prod.collapse)
  moreover have "length (tb_uses b) = 1 \<and> tu_requests (tb_uses b ! 0) = 1 \<and> tu_skipped (tb_uses b ! 0) = 1 \<and> extra 0 = 0"
    using r by (auto simp: run_begin_def available_def new_budget_def current_use_def change_current_def empty_use_def spent_def skip_def Let_def)
  moreover from this have "spent (tb_uses b ! 0) \<le> 60"
    using drafter_budget_is_kept [of ?p ?es] r by (simp add: all_conj_distrib)
  ultimately show ?thesis by blast
qed


subsection \<open>Temperatures\<close>

lemma drafter_number_set [simp]:
  "drafter_number (s\<lparr>ds_numbers := ms_set k x m\<rparr>) j = (if j = k then x else drafter_number (s\<lparr>ds_numbers := m\<rparr>) j)"
  by (simp add: drafter_number_def)

lemma drafter_settings_ordered:
  "drafter_number (normalizeDrafterRequestSettings v) ''drafterTemperatureMin'' \<le>
     drafter_number (normalizeDrafterRequestSettings v) ''drafterTemperatureMax''"
  "0 \<le> drafter_number (normalizeDrafterRequestSettings v) ''drafterTemperatureMin''"
proof -
  have "0 \<le> number_setting u (7 / 10)" for u
    by (auto simp: number_setting_def nonNegativeNumber_def split: js_val.splits js_num.splits)
  then show "drafter_number (normalizeDrafterRequestSettings v) ''drafterTemperatureMin'' \<le>
      drafter_number (normalizeDrafterRequestSettings v) ''drafterTemperatureMax''"
    "0 \<le> drafter_number (normalizeDrafterRequestSettings v) ''drafterTemperatureMin''"
    by (simp_all add: normalizeDrafterRequestSettings_def Let_def,
      simp add: drafter_number_def parseDrafterSettings_def settings_parse_def drafter_fields_def)
qed

lemma deterministic_setting:
  "\<exists>n :: nat. drafter_number (normalizeDrafterRequestSettings v) ''drafterDeterministicCandidates'' = real n"
proof -
  have "\<exists>n :: nat. int_setting nonNegativeInteger u 1 = real n" for u
  proof -
    have "0 \<le> nonNegativeInteger u \<lfloor>1 :: real\<rfloor>"
      by (auto simp: nonNegativeInteger_def split: js_val.splits js_num.splits)
    then show ?thesis unfolding int_setting_def by (metis of_int_of_nat_eq zero_le_imp_eq_int)
  qed
  then show ?thesis
    by (simp add: normalizeDrafterRequestSettings_def Let_def)
      (simp add: drafter_number_def parseDrafterSettings_def settings_parse_def drafter_fields_def)
qed

text \<open>The temperatures of \<open>count\<close> requests under normalized settings: the leading deterministic ones are zero, the
  others rise evenly from the lower bound to the upper bound, and a single one takes the middle.\<close>

theorem temperatures_are_stratified:
  fixes v n
  defines "s \<equiv> normalizeDrafterRequestSettings v" and "count \<equiv> positiveCount (JNum n)"
  defines "low \<equiv> drafter_number s ''drafterTemperatureMin''" and "high \<equiv> drafter_number s ''drafterTemperatureMax''"
    and "lead \<equiv> drafter_number s ''drafterDeterministicCandidates''"
  assumes "i < count"
  shows "drafterRequestTemperature (real i) n s =
      (if real i < lead then 0
       else if real count = lead + 1 then (low + high) / 2
       else low + (high - low) * ((real i - lead) / (real count - lead - 1))) \<and>
    (lead \<le> real i \<longrightarrow> low \<le> drafterRequestTemperature (real i) n s \<and> drafterRequestTemperature (real i) n s \<le> high)"
proof -
  have i: "max 0 (min (real count - 1) (of_int \<lfloor>real i\<rfloor>)) = real i" using assms(6) by (simp add: min_def)
  have min_lead: "min (real count) lead = (if lead \<le> real count then lead else real count)" by (simp add: min_def)
  let ?t = "drafterRequestTemperature (real i) n s"
  have t: "?t = (if real i < min (real count) lead then 0
      else if real count - min (real count) lead = 1 then (low + high) / 2
      else low + (high - low) * (real i - min (real count) lead) / (real count - min (real count) lead - 1))"
    unfolding drafterRequestTemperature_def Let_def count_def [symmetric] i low_def high_def lead_def ..
  have eq: "?t = (if real i < lead then 0
       else if real count = lead + 1 then (low + high) / 2
       else low + (high - low) * ((real i - lead) / (real count - lead - 1)))"
    unfolding t min_lead using assms(6) by auto
  have range: "low \<le> ?t \<and> ?t \<le> high" if l: "lead \<le> real i"
  proof (cases "real count = lead + 1")
    case True
    with eq l drafter_settings_ordered(1) [of v] show ?thesis by (simp add: low_def high_def s_def)
  next
    case False
    obtain k :: nat where k: "lead = real k" using deterministic_setting [of v] by (auto simp: lead_def s_def)
    have gap: "0 < real count - lead - 1" and top: "real i - lead \<le> real count - lead - 1"
      using False l assms(6) k by linarith+
    let ?q = "(real i - lead) / (real count - lead - 1)"
    have q: "0 \<le> ?q" "?q \<le> 1" using gap top l by simp_all
    have span: "0 \<le> high - low" using drafter_settings_ordered(1) [of v] by (simp add: low_def high_def s_def)
    have "0 \<le> (high - low) * ?q" by (rule mult_nonneg_nonneg [OF span q(1)])
    moreover have "(high - low) * ?q \<le> high - low" using mult_left_mono [OF q(2) span] by (simp only: mult_1_right)
    moreover have "?t = low + (high - low) * ?q" unfolding eq using False l by simp
    ultimately show ?thesis by linarith
  qed
  with eq show ?thesis by blast
qed

definition sample_settings :: js_val where
  "sample_settings = JObj [(''drafterTemperatureMin'', jnum 1), (''drafterTemperatureMax'', jnum 0)]"

theorem temperatures_are_stratified_witness:
  "drafterRequestTemperature 2 (Fin 4) (normalizeDrafterRequestSettings sample_settings) = 1 / 2"
proof -
  have "drafter_number (normalizeDrafterRequestSettings sample_settings) ''drafterTemperatureMin'' = 0"
    "drafter_number (normalizeDrafterRequestSettings sample_settings) ''drafterTemperatureMax'' = 1"
    "drafter_number (normalizeDrafterRequestSettings sample_settings) ''drafterDeterministicCandidates'' = 1"
    by (simp_all add: normalizeDrafterRequestSettings_def Let_def)
      (simp_all add: drafter_number_def parseDrafterSettings_def settings_parse_def drafter_fields_def sample_settings_def
        number_setting_def nonNegativeNumber_def int_setting_def nonNegativeInteger_def)
  with temperatures_are_stratified [of 2 "Fin 4" sample_settings] show ?thesis by (simp add: positiveCount_def)
qed

end
