(* ===== verification/Event_Delivery.thy ===== *)
theory Event_Delivery
  imports Numbers "HOL-Library.Sublist"
begin

text \<open>
  Ordered delivery to optional observers (\<open>src/post-settlement.ts\<close>): the bounded event queue with its drain, flush and
  close, the lossless queue on top of it, and subscriptions.

  \<^item> The first pending event is the one whose delivery was called and has not settled: the drain calls it when the queue
    was empty, or when the event before it settles.  A delivery that throws settles like one that returns.
  \<^item> \<open>eq_accepted\<close> and \<open>eq_called\<close> record the events that were taken and those whose delivery was called; \<open>eq_waiting\<close>
    counts callers of \<open>flush\<close> that wait for the idle promise.  No operation reads them.
\<close>

record 'e event_queue =
  eq_capacity :: int
  eq_pending :: "'e list"
  eq_closed :: bool
  eq_waiting :: nat
  eq_accepted :: "'e list"
  eq_called :: "'e list"

definition new_queue :: "js_val \<Rightarrow> string + 'e event_queue" where
  "new_queue capacity =
     (if \<not> isSafeCount capacity 1 max_safe then Inl ''event queue capacity must be positive''
      else Inr \<lparr>eq_capacity = (case capacity of JNum (Fin x) \<Rightarrow> \<lfloor>x\<rfloor> | _ \<Rightarrow> 0), eq_pending = [], eq_closed = False,
        eq_waiting = 0, eq_accepted = [], eq_called = []\<rparr>)"

definition call_first :: "'e event_queue \<Rightarrow> 'e event_queue" where
  "call_first q = (case eq_pending q of [] \<Rightarrow> q\<lparr>eq_waiting := 0\<rparr> | e # _ \<Rightarrow> q\<lparr>eq_called := eq_called q @ [e]\<rparr>)"

definition enqueue_event :: "'e \<Rightarrow> 'e event_queue \<Rightarrow> bool \<times> 'e event_queue" where
  "enqueue_event e q =
     (if eq_closed q then (False, q)
      else if eq_capacity q \<le> int (length (eq_pending q)) then (False, q)
      else let q1 = q\<lparr>eq_pending := eq_pending q @ [e], eq_accepted := eq_accepted q @ [e]\<rparr> in
        (True, if length (eq_pending q1) = 1 then call_first q1 else q1))"

text \<open>The delivery of the first event settles; the drain goes on or ends by resolving the idle promise.\<close>

definition delivery_settles :: "'e event_queue \<Rightarrow> 'e event_queue" where
  "delivery_settles q = (case eq_pending q of [] \<Rightarrow> q | _ # es \<Rightarrow> call_first (q\<lparr>eq_pending := es\<rparr>))"

definition flush_queue :: "'e event_queue \<Rightarrow> 'e event_queue" where
  "flush_queue q = (if eq_pending q = [] then q else q\<lparr>eq_waiting := Suc (eq_waiting q)\<rparr>)"

definition close_queue :: "bool \<Rightarrow> 'e event_queue \<Rightarrow> 'e event_queue" where
  "close_queue drain q = (let q = q\<lparr>eq_closed := True\<rparr> in if drain then flush_queue q else q)"

definition new_post_settlement :: "'e event_queue" where
  "new_post_settlement = projr (new_queue (JNum (Fin (of_int max_safe))))"

datatype 'e queue_op = Enqueue_op 'e | Settle_op | Flush_op | Close_op bool

fun queue_apply :: "'e queue_op \<Rightarrow> 'e event_queue \<Rightarrow> 'e event_queue" where
  "queue_apply (Enqueue_op e) q = snd (enqueue_event e q)"
| "queue_apply Settle_op q = delivery_settles q"
| "queue_apply Flush_op q = flush_queue q"
| "queue_apply (Close_op drain) q = close_queue drain q"

definition queue_ok :: "'e event_queue \<Rightarrow> bool" where
  "queue_ok q \<longleftrightarrow> 1 \<le> eq_capacity q \<and> int (length (eq_pending q)) \<le> eq_capacity q \<and>
     (\<exists>settled. eq_accepted q = settled @ eq_pending q \<and> eq_called q = settled @ take 1 (eq_pending q)) \<and>
     (eq_pending q = [] \<longrightarrow> eq_waiting q = 0)"

lemma new_queue_ok: "new_queue capacity = Inr q \<Longrightarrow> queue_ok q"
  by (auto simp: new_queue_def queue_ok_def isSafeCount_def isSafeInteger_def le_floor_iff split: if_splits js_val.splits js_num.splits)

lemma enqueue_ok: "queue_ok q \<Longrightarrow> queue_ok (snd (enqueue_event e q))"
  by (cases "eq_pending q") (auto simp: queue_ok_def enqueue_event_def call_first_def)

lemma settles_ok: "queue_ok q \<Longrightarrow> queue_ok (delivery_settles q)"
proof (cases "eq_pending q")
  case (Cons e es)
  assume ok: "queue_ok q"
  then obtain settled where s: "eq_accepted q = settled @ e # es" "eq_called q = settled @ [e]"
    by (auto simp: queue_ok_def Cons)
  show ?thesis using ok s
    by (cases es) (auto simp: queue_ok_def delivery_settles_def call_first_def Cons intro: exI [of _ "settled @ [e]"])
qed (simp add: delivery_settles_def)

lemma queue_apply_ok: "queue_ok q \<Longrightarrow> queue_ok (queue_apply c q)"
proof (cases c)
  case (Enqueue_op e)
  assume "queue_ok q"
  then show ?thesis using enqueue_ok [of q e] by (simp add: Enqueue_op)
next
  case Settle_op
  assume "queue_ok q"
  then show ?thesis by (simp add: Settle_op settles_ok)
qed (auto simp: queue_ok_def flush_queue_def close_queue_def Let_def)

lemma queue_ops_ok: "queue_ok q \<Longrightarrow> queue_ok (fold queue_apply cs q)"
  by (induction cs arbitrary: q) (auto intro: queue_apply_ok)

lemma drains:
  assumes "length (eq_pending q) \<le> n"
  shows "eq_pending ((delivery_settles ^^ n) q) = [] \<and> eq_accepted ((delivery_settles ^^ n) q) = eq_accepted q"
  using assms
proof (induction n arbitrary: q)
  case (Suc n)
  have "length (eq_pending (delivery_settles q)) \<le> n \<and> eq_accepted (delivery_settles q) = eq_accepted q"
    using Suc.prems by (auto simp: delivery_settles_def call_first_def split: list.splits)
  with Suc.IH [of "delivery_settles q"] show ?case by (simp add: funpow_swap1)
qed simp

text \<open>C20. Whatever is enqueued, flushed and closed, and however deliveries settle in between: deliveries are called in the
  order of acceptance, each event once, one at a time, with a backlog within the capacity; and once nothing more is
  enqueued, as many settlements as events are pending deliver every accepted event and leave no caller of flush waiting.\<close>

theorem events_are_delivered_in_order:
  fixes cs :: "'e queue_op list"
  assumes "new_queue capacity = Inr q0"
  defines "q \<equiv> fold queue_apply cs q0"
  shows "prefix (eq_called q) (eq_accepted q) \<and> int (length (eq_pending q)) \<le> eq_capacity q \<and>
    length (eq_called q) + length (eq_pending q) = length (eq_accepted q) + (if eq_pending q = [] then 0 else 1) \<and>
    (let r = (delivery_settles ^^ length (eq_pending q)) q in eq_called r = eq_accepted q \<and> eq_waiting r = 0)"
proof -
  have ok: "queue_ok q" unfolding q_def by (rule queue_ops_ok [OF new_queue_ok [OF assms(1)]])
  then obtain settled where s: "eq_accepted q = settled @ eq_pending q" "eq_called q = settled @ take 1 (eq_pending q)"
    by (auto simp: queue_ok_def)
  let ?r = "(delivery_settles ^^ length (eq_pending q)) q"
  have "queue_ok ((delivery_settles ^^ n) q)" for n by (induction n) (simp_all add: ok settles_ok)
  then have "queue_ok ?r" .
  moreover have "eq_pending ?r = []" "eq_accepted ?r = eq_accepted q" using drains [of q "length (eq_pending q)"] by simp_all
  ultimately have "eq_called ?r = eq_accepted q \<and> eq_waiting ?r = 0" by (auto simp: queue_ok_def)
  then show ?thesis using ok s by (cases "eq_pending q") (auto simp: queue_ok_def Let_def prefix_def)
qed

theorem events_are_delivered_in_order_witness:
  "\<exists>q0. new_queue (jnum 2) = Inr q0 \<and>
    eq_called ((delivery_settles ^^ 2) (fold queue_apply [Enqueue_op ''a'', Enqueue_op ''b'', Enqueue_op ''c'', Flush_op] q0)) = [''a'', ''b'']"
proof -
  obtain q0 :: "string event_queue" where q0: "new_queue (jnum 2) = Inr q0"
    by (simp add: new_queue_def isSafeCount_def isSafeInteger_def max_safe_def)
  have q: "q0 = \<lparr>eq_capacity = 2, eq_pending = [], eq_closed = False, eq_waiting = 0, eq_accepted = [], eq_called = []\<rparr>"
    using q0 by (simp add: new_queue_def split: if_splits)
  have "eq_pending (fold queue_apply [Enqueue_op ''a'', Enqueue_op ''b'', Enqueue_op ''c'', Flush_op] q0) = [''a'', ''b'']"
    "eq_accepted (fold queue_apply [Enqueue_op ''a'', Enqueue_op ''b'', Enqueue_op ''c'', Flush_op] q0) = [''a'', ''b'']"
    by (simp_all add: q enqueue_event_def call_first_def flush_queue_def)
  with events_are_delivered_in_order [OF q0, of "[Enqueue_op ''a'', Enqueue_op ''b'', Enqueue_op ''c'', Flush_op]"] q0
  show ?thesis by (simp add: Let_def numeral_2_eq_2)
qed

subsection \<open>Subscriptions\<close>

text \<open>A listener is a number and the event types it handles; a handler may change the subscriptions.\<close>

type_synonym listeners = "(nat \<times> string list) list"

definition subscribe :: "nat \<Rightarrow> string list \<Rightarrow> listeners \<Rightarrow> listeners" where
  "subscribe i types ls = ls @ [(i, types)]"

definition unsubscribe :: "nat \<Rightarrow> listeners \<Rightarrow> listeners" where
  "unsubscribe i ls = filter (\<lambda>l. fst l \<noteq> i) ls"

definition has_listener :: "string \<Rightarrow> listeners \<Rightarrow> bool" where
  "has_listener t ls = list_ex (\<lambda>l. t \<in> set (snd l)) ls"

fun publish_loop :: "(nat \<Rightarrow> listeners \<Rightarrow> listeners) \<Rightarrow> string \<Rightarrow> listeners \<Rightarrow> listeners \<Rightarrow> nat list \<times> listeners" where
  "publish_loop handler t [] ls = ([], ls)"
| "publish_loop handler t ((i, types) # rest) ls =
     (if (i, types) \<in> set ls \<and> t \<in> set types
      then (let (called, ls) = publish_loop handler t rest (handler i ls) in (i # called, ls))
      else publish_loop handler t rest ls)"

definition publish :: "(nat \<Rightarrow> listeners \<Rightarrow> listeners) \<Rightarrow> string \<Rightarrow> listeners \<Rightarrow> nat list \<times> listeners" where
  "publish handler t ls = publish_loop handler t ls ls"

lemma publish_calls_subscribers: "i \<in> set (fst (publish_loop handler t ms ls)) \<Longrightarrow> \<exists>types. (i, types) \<in> set ms \<and> t \<in> set types"
  by (induction handler t ms ls rule: publish_loop.induct) (auto split: prod.splits if_splits)

lemma undisturbed_publish: "fst (publish (\<lambda>_ ls. ls) t ls) = map fst (filter (\<lambda>l. t \<in> set (snd l)) ls)"
proof -
  have "set ms \<subseteq> set ls \<Longrightarrow> fst (publish_loop (\<lambda>_ ls. ls) t ms ls) = map fst (filter (\<lambda>l. t \<in> set (snd l)) ms)" for ms
    by (induction ms) (auto split: prod.splits)
  then show ?thesis by (simp add: publish_def)
qed

end
