(* ===== verification/Execution_Routing.thy ===== *)
theory Execution_Routing
  imports Effect_Model Action_Semantics
begin

text \<open>
  Routing of executions to execution worlds (\<open>src/execution-world.ts\<close>): registration and qualification of worlds, the
  choice of a route, forks, authoritative captures and diagnostics.

  \<^item> What a backend answers is a field of its world: a fingerprint, a preparation, a qualification probe, a diagnostic
    report, each of which may throw (\<open>Inl\<close> the message).  Asking it has no other effect here.
  \<^item> A router keeps the worlds by id in the order of their registration, and what it observed of each route.
    The lifecycle lane that admits its operations is modelled in \<open>Runtime_Lifecycle\<close>.
  \<^item> A checkpoint is a value of type \<open>'c\<close>; \<open>admission\<close> and \<open>enabled\<close> are the routing policy of the client.
\<close>

subsection \<open>Worlds\<close>

datatype world_entry = Speculation | Observed_execution | Operations

datatype world_scope = Runtime_scope | Fallback_scope

datatype isolation = Runtime_sandbox | Resource_snapshot_isolation | Workspace_branch

datatype reuse_strategy = Shared_result | Exclusive_branch

record 'c world_request =
  rq_backend :: "string option"
  rq_parent :: "'c option"
  rq_effect :: action_effect
  rq_requirements :: effect_requirements
  rq_tool :: "string option"
  rq_action :: "action_key option"

datatype health = Registered | Ready | Unavailable

record health_report =
  hr_state :: health
  hr_detail :: string

record 'c world_operation =
  wo_capabilities :: effect_capabilities
  wo_tools :: "string list option"
  wo_fingerprint :: "'c world_request \<Rightarrow> string + string option"
  wo_prepare :: "(string + unit) option"
  wo_diagnostics :: "(string + health_report) option"

record qualification =
  ql_operations :: "world_entry list"
  ql_active :: bool
  ql_verify :: "world_entry \<Rightarrow> string + (string \<times> bool)"

record 'c world =
  wd_id :: string
  wd_scope :: world_scope
  wd_isolation :: isolation
  wd_speculation :: "'c world_operation option"
  wd_accepts :: "('c \<Rightarrow> bool) option"
  wd_observation :: "'c world_operation option"
  wd_inputsOnly :: "('c world_request \<Rightarrow> bool) option"
  wd_observes :: bool
  wd_qualification :: "qualification option"

record route =
  rt_isolation :: isolation
  rt_reuse :: reuse_strategy
  rt_scope :: world_scope
  rt_backend :: string
  rt_fingerprint :: string
  rt_qualified :: "string option"

definition sameSpeculativeExecutionRoute :: "route \<Rightarrow> route \<Rightarrow> bool" where
  "sameSpeculativeExecutionRoute l r \<longleftrightarrow> rt_isolation l = rt_isolation r \<and> rt_reuse l = rt_reuse r \<and>
     rt_scope l = rt_scope r \<and> rt_backend l = rt_backend r \<and> rt_fingerprint l = rt_fingerprint r"

definition blank :: "string \<Rightarrow> bool" where
  "blank s \<longleftrightarrow> js_trim s = []"

definition supportsTool :: "string list option \<Rightarrow> string option \<Rightarrow> bool" where
  "supportsTool tools tool = (case (tool, tools) of (Some t, Some ts) \<Rightarrow> t \<in> set ts | _ \<Rightarrow> True)"

definition world_operation :: "'c world \<Rightarrow> world_entry \<Rightarrow> 'c world_operation option" where
  "world_operation w kind = (case kind of
     Speculation \<Rightarrow> wd_speculation w
   | Observed_execution \<Rightarrow> wd_observation w
   | Operations \<Rightarrow> if wd_observes w then Some \<lparr>wo_capabilities = Provided [], wo_tools = None, wo_fingerprint = (\<lambda>_. Inr None),
       wo_prepare = None, wo_diagnostics = None\<rparr> else None)"

text \<open>Registration names concrete entries the world has; it makes a new active qualification.\<close>

definition registerExecutionWorld ::
  "'c world \<Rightarrow> world_entry list \<Rightarrow> (world_entry \<Rightarrow> string + (string \<times> bool)) \<Rightarrow> string + 'c world" where
  "registerExecutionWorld w ops verify =
     (if uniq ops = [] \<or> list_ex (\<lambda>k. world_operation w k = None) (uniq ops)
      then Inl ''execution world qualification requires concrete entries and a provider probe''
      else Inr (w\<lparr>wd_qualification := Some \<lparr>ql_operations = uniq ops, ql_active = True, ql_verify = verify\<rparr>\<rparr>))"

definition isRegisteredExecutionWorld :: "'c world \<Rightarrow> world_entry \<Rightarrow> bool" where
  "isRegisteredExecutionWorld w k = (case wd_qualification w of None \<Rightarrow> False | Some q \<Rightarrow> ql_active q \<and> k \<in> set (ql_operations q))"

definition qualifyExecutionWorld :: "'c world \<Rightarrow> world_entry \<Rightarrow> string + string option" where
  "qualifyExecutionWorld w k = (case wd_qualification w of
     None \<Rightarrow> Inr None
   | Some q \<Rightarrow>
       if \<not> isRegisteredExecutionWorld w k then Inl ''execution world entry is not registered or has been retired''
       else (case ql_verify q k of
          Inl e \<Rightarrow> Inl e
        | Inr (fingerprint, excluded) \<Rightarrow>
            if \<not> excluded \<or> blank fingerprint then Inl ''execution world qualification failed'' else Inr (Some fingerprint)))"

subsection \<open>Routers\<close>

type_synonym route_observations = "(string, health_report \<times> string) jsmap"

record 'c router =
  ro_worlds :: "'c world list"
  ro_observations :: route_observations

fun add_worlds :: "'c world list \<Rightarrow> 'c world list \<Rightarrow> string + 'c world list" where
  "add_worlds [] known = Inr known"
| "add_worlds (w # ws) known =
     (if blank (wd_id w) then Inl ''execution world id must not be empty''
      else if wd_speculation w = None \<and> wd_observation w = None \<and> \<not> wd_observes w
      then Inl (''execution world '' @ wd_id w @ '' provides no operation'')
      else if list_ex (\<lambda>k. wd_id k = wd_id w) known then Inl (''duplicate execution world '' @ wd_id w)
      else add_worlds ws (known @ [w]))"

text \<open>The worlds come with their object identities: the same object passed twice is added once.\<close>

definition new_router :: "(nat \<times> 'c world) list \<Rightarrow> string + 'c router" where
  "new_router ws = (case add_worlds (map snd (uniq_on fst ws)) [] of
     Inl e \<Rightarrow> Inl e | Inr known \<Rightarrow> Inr \<lparr>ro_worlds = known, ro_observations = []\<rparr>)"

primrec entry_name :: "world_entry \<Rightarrow> string" where
  "entry_name Speculation = ''speculation''"
| "entry_name Observed_execution = ''observation''"
| "entry_name Operations = ''observeOperations''"

primrec isolation_name :: "isolation \<Rightarrow> string" where
  "isolation_name Runtime_sandbox = ''runtime_sandbox''"
| "isolation_name Resource_snapshot_isolation = ''resource_snapshot''"
| "isolation_name Workspace_branch = ''workspace_branch''"

definition observeRoute ::
  "string \<Rightarrow> world_entry \<Rightarrow> string \<Rightarrow> health \<Rightarrow> string \<Rightarrow> route_observations \<Rightarrow> route_observations" where
  "observeRoute i kind cwd state detail = ms_set (i @ '':'' @ entry_name kind) (\<lparr>hr_state = state, hr_detail = detail\<rparr>, cwd)"

record 'c routing_policy =
  po_admission :: "'c world \<Rightarrow> world_entry \<Rightarrow> string option"
  po_enabled :: "string \<Rightarrow> bool"

text \<open>Worlds that are passed over without being asked.\<close>

definition passed_over :: "'c routing_policy \<Rightarrow> world_entry \<Rightarrow> 'c world_request \<Rightarrow> world_scope \<Rightarrow> 'c world \<Rightarrow> bool" where
  "passed_over po kind rq scope w \<longleftrightarrow> po_admission po w kind \<noteq> None \<or> wd_scope w \<noteq> scope \<or>
     (rq_backend rq \<noteq> None \<and> rq_backend rq \<noteq> Some (wd_id w)) \<or> (kind = Speculation \<and> \<not> po_enabled po (wd_id w))"

definition requested_tool :: "'c world_request \<Rightarrow> string option" where
  "requested_tool rq = (case rq_action rq of Some a \<Rightarrow> Some (ak_tool a) | None \<Rightarrow> rq_tool rq)"

definition accepts_checkpoint :: "world_entry \<Rightarrow> 'c world_request \<Rightarrow> 'c world \<Rightarrow> bool" where
  "accepts_checkpoint kind rq w = (case rq_parent rq of
     None \<Rightarrow> True
   | Some c \<Rightarrow> kind = Speculation \<and> (case (wd_speculation w, wd_accepts w) of (Some _, Some f) \<Rightarrow> f c | _ \<Rightarrow> False))"

definition serves :: "world_entry \<Rightarrow> 'c world_request \<Rightarrow> 'c world \<Rightarrow> 'c world_operation \<Rightarrow> bool" where
  "serves kind rq w wo \<longleftrightarrow> supportsTool (wo_tools wo) (requested_tool rq) \<and> accepts_checkpoint kind rq w \<and>
     (effectCapabilitiesCover (wo_capabilities wo) (rq_requirements rq) \<or>
      kind = Observed_execution \<and> (case wd_inputsOnly w of Some f \<Rightarrow> f rq | None \<Rightarrow> False))"

definition route_reuse :: "'c world_request \<Rightarrow> reuse_strategy" where
  "route_reuse rq = (if rq_effect rq = action_effect.Observation \<and> rq_parent rq = None then Shared_result else Exclusive_branch)"

definition route_fingerprint :: "'c world \<Rightarrow> string option \<Rightarrow> string option \<Rightarrow> string" where
  "route_fingerprint w qualified identity =
     (let i = (case identity of Some f \<Rightarrow> f | None \<Rightarrow> wd_id w @ '':'' @ isolation_name (wd_isolation w)) in
      case qualified of None \<Rightarrow> i | Some q \<Rightarrow> ''['' @ json_string q @ '','' @ json_string i @ '']'')"

definition prepare_route :: "world_entry \<Rightarrow> 'c world_request \<Rightarrow> 'c world \<Rightarrow> 'c world_operation \<Rightarrow> string + route" where
  "prepare_route kind rq w wo = (case qualifyExecutionWorld w kind of
     Inl e \<Rightarrow> Inl e
   | Inr qualified \<Rightarrow> (case wo_fingerprint wo rq of
       Inl e \<Rightarrow> Inl e
     | Inr identity \<Rightarrow> (case wo_prepare wo of
         Some (Inl e) \<Rightarrow> Inl e
       | _ \<Rightarrow> Inr \<lparr>rt_isolation = wd_isolation w, rt_reuse = route_reuse rq, rt_scope = wd_scope w, rt_backend = wd_id w,
           rt_fingerprint = route_fingerprint w qualified identity, rt_qualified = qualified\<rparr>)))"

text \<open>What one world answers: a selected value, nothing, or an error that ends the search only when the caller has aborted.\<close>

definition visit ::
  "'c routing_policy \<Rightarrow> world_entry \<Rightarrow> 'c world_request \<Rightarrow> string \<Rightarrow> ('c world \<Rightarrow> route \<Rightarrow> string + 'a option) \<Rightarrow>
     world_scope \<Rightarrow> 'c world \<Rightarrow> route_observations \<Rightarrow> (string + 'a option) \<times> route_observations" where
  "visit po kind rq cwd pick scope w obs =
     (if passed_over po kind rq scope w then (Inr None, obs)
      else case world_operation w kind of
        None \<Rightarrow> (Inr None, obs)
      | Some wo \<Rightarrow>
          if \<not> serves kind rq w wo then (Inr None, obs)
          else (case prepare_route kind rq w wo of
            Inl e \<Rightarrow> (Inl e, obs)
          | Inr r \<Rightarrow> (pick w r, observeRoute (wd_id w) kind cwd Ready ''Route prepared successfully'' obs)))"

fun visit_all ::
  "(world_scope \<Rightarrow> 'c world \<Rightarrow> route_observations \<Rightarrow> (string + 'a option) \<times> route_observations) \<Rightarrow>
     ('c world \<Rightarrow> string \<Rightarrow> route_observations \<Rightarrow> route_observations) \<Rightarrow> bool \<Rightarrow> (world_scope \<times> 'c world) list \<Rightarrow> route_observations \<Rightarrow> (string + 'a option) \<times> route_observations" where
  "visit_all ask failed aborted [] obs = (Inr None, obs)"
| "visit_all ask failed aborted ((scope, w) # ws) obs = (case ask scope w obs of
     (Inr (Some x), obs) \<Rightarrow> (Inr (Some x), obs)
   | (Inr None, obs) \<Rightarrow> visit_all ask failed aborted ws obs
   | (Inl e, obs) \<Rightarrow> if aborted then (Inl e, obs) else visit_all ask failed aborted ws (failed w e obs))"

text \<open>The runtime worlds first, then the fallbacks.  \<open>aborted\<close> says whether the caller's signal is aborted when a world fails.\<close>

definition select ::
  "'c routing_policy \<Rightarrow> world_entry \<Rightarrow> 'c world_request \<Rightarrow> string \<Rightarrow> bool \<Rightarrow> ('c world \<Rightarrow> route \<Rightarrow> string + 'a option) \<Rightarrow>
     'c router \<Rightarrow> (string + 'a option) \<times> 'c router" where
  "select po kind rq cwd aborted pick ro =
     (let (r, obs) = visit_all (visit po kind rq cwd pick) (\<lambda>w. observeRoute (wd_id w) kind cwd Unavailable) aborted
        (map (Pair Runtime_scope) (ro_worlds ro) @ map (Pair Fallback_scope) (ro_worlds ro)) (ro_observations ro) in
      (r, ro\<lparr>ro_observations := obs\<rparr>))"

definition resolve_route ::
  "'c routing_policy \<Rightarrow> 'c world_request \<Rightarrow> string \<Rightarrow> bool \<Rightarrow> 'c router \<Rightarrow> (string + route option) \<times> 'c router" where
  "resolve_route po rq cwd aborted = select po Speculation rq cwd aborted (\<lambda>w r. Inr (Some r))"

text \<open>A fork checks the route against the registered world and the qualification again; \<open>None\<close> lets the world execute.\<close>

definition fork_refusal :: "'c routing_policy \<Rightarrow> route \<Rightarrow> 'c router \<Rightarrow> string option" where
  "fork_refusal po r ro = (case find (\<lambda>w. wd_id w = rt_backend r) (ro_worlds ro) of
     None \<Rightarrow> Some ''unavailable''
   | Some w \<Rightarrow>
       if wd_scope w \<noteq> rt_scope r \<or> wd_isolation w \<noteq> rt_isolation r then Some ''unavailable''
       else (case po_admission po w Speculation of
         Some e \<Rightarrow> Some e
       | None \<Rightarrow>
           if \<not> po_enabled po (wd_id w) then Some ''disabled by routing policy''
           else if wd_speculation w = None then Some ''does not provide speculative execution''
           else if wd_qualification w \<noteq> None \<and>
             (rt_qualified r = None \<or> qualifyExecutionWorld w Speculation \<noteq> Inr (rt_qualified r))
           then Some ''execution world qualification changed before execution''
           else None))"

text \<open>Captures: a world answers whether its capture retains inputs only, or throws.\<close>

record captured_result =
  cr_route :: route
  cr_inputsOnly :: bool

definition capture_from ::
  "('c world \<Rightarrow> string + bool) \<Rightarrow> 'c world_request \<Rightarrow> 'c world \<Rightarrow> route \<Rightarrow> string + captured_result option" where
  "capture_from capture rq w r = (case capture w of
     Inl e \<Rightarrow> Inl e
   | Inr inputsOnly \<Rightarrow>
       if (rq_action rq = None \<or> \<not> (case wd_observation w of
             Some wo \<Rightarrow> effectCapabilitiesCover (wo_capabilities wo) (rq_requirements rq) | None \<Rightarrow> False)) \<and> \<not> inputsOnly
       then Inl ''input_only_capture_required''
       else Inr (Some \<lparr>cr_route = (if inputsOnly then r\<lparr>rt_reuse := Shared_result\<rparr> else r), cr_inputsOnly = inputsOnly\<rparr>))"

definition captureAuthoritativeResult ::
  "'c routing_policy \<Rightarrow> ('c world \<Rightarrow> string + bool) \<Rightarrow> 'c world_request \<Rightarrow> string \<Rightarrow> bool \<Rightarrow> 'c router \<Rightarrow>
     (string + captured_result option) \<times> 'c router" where
  "captureAuthoritativeResult po capture rq cwd aborted = select po Observed_execution rq cwd aborted (capture_from capture rq)"

text \<open>The worlds that observe one native call, the outermost first.\<close>

definition observing_worlds :: "'c routing_policy \<Rightarrow> 'c router \<Rightarrow> 'c world list" where
  "observing_worlds po ro = rev (filter (\<lambda>w. (\<exists>q. qualifyExecutionWorld w Operations = Inr q))
     (filter (\<lambda>w. wd_observes w \<and> po_admission po w Operations = None) (ro_worlds ro)))"


subsection \<open>Diagnostics\<close>

record operation_diagnostic =
  od_capabilities :: effect_capabilities
  od_tools :: "string list option"
  od_report :: health_report

definition unavailable_report :: "string \<Rightarrow> health_report" where
  "unavailable_report e = \<lparr>hr_state = Unavailable, hr_detail = e\<rparr>"

definition ready_report :: "string \<Rightarrow> health_report" where
  "ready_report e = \<lparr>hr_state = Ready, hr_detail = e\<rparr>"

text \<open>The report of one entry: the provider's own, else what a refresh finds out.\<close>

definition entry_report :: "bool \<Rightarrow> 'c world \<Rightarrow> world_entry \<Rightarrow> 'c world_operation \<Rightarrow> health_report option" where
  "entry_report refresh w kind wo =
     (case (if refresh then qualifyExecutionWorld w kind else Inr None) of
        Inl e \<Rightarrow> Some (unavailable_report e)
      | Inr qualified \<Rightarrow> (case wo_diagnostics wo of
          Some (Inl e) \<Rightarrow> Some (unavailable_report e)
        | Some (Inr report) \<Rightarrow> Some report
        | None \<Rightarrow>
            if qualified \<noteq> None then Some (ready_report ''Provider qualification succeeded'')
            else if refresh then (case wo_prepare wo of
                None \<Rightarrow> None
              | Some (Inl e) \<Rightarrow> Some (unavailable_report e)
              | Some (Inr _) \<Rightarrow> Some (ready_report ''Route prepared successfully''))
            else None))"

definition diagnose ::
  "'c routing_policy \<Rightarrow> bool \<Rightarrow> string \<Rightarrow> world_entry \<Rightarrow> 'c world \<Rightarrow> route_observations \<Rightarrow>
     operation_diagnostic option \<times> route_observations" where
  "diagnose po refresh cwd kind w obs = (case world_operation w kind of
     None \<Rightarrow> (None, obs)
   | Some wo \<Rightarrow>
       (case (case po_admission po w kind of
          Some e \<Rightarrow> Some e
        | None \<Rightarrow> if kind = Speculation \<and> \<not> po_enabled po (wd_id w) then Some ''Pre-execution disabled by routing policy'' else None) of
        Some rejected \<Rightarrow> (Some \<lparr>od_capabilities = Provided [], od_tools = None, od_report = unavailable_report rejected\<rparr>, obs)
      | None \<Rightarrow>
          let key = wd_id w @ '':'' @ entry_name kind;
              report = entry_report refresh w kind wo;
              obs = (if refresh then ms_del key obs else obs);
              obs = (case report of Some r \<Rightarrow> if refresh then ms_set key (r, cwd) obs else obs | None \<Rightarrow> obs);
              seen = (case map_of obs key of Some (r, c) \<Rightarrow> if c = cwd then Some r else None | None \<Rightarrow> None);
              report = (case seen of Some r \<Rightarrow> if hr_state r = Unavailable then Some r else report | None \<Rightarrow> report) in
          (Some \<lparr>od_capabilities = wo_capabilities wo, od_tools = wo_tools wo, od_report = (case report of
              Some r \<Rightarrow> r
            | None \<Rightarrow> (case seen of
                Some r \<Rightarrow> r
              | None \<Rightarrow> \<lparr>hr_state = Registered, hr_detail = ''Registered; availability is checked during route preparation''\<rparr>))\<rparr>, obs)))"

record world_diagnostic =
  wg_id :: string
  wg_scope :: world_scope
  wg_primary :: operation_diagnostic
  wg_observation :: "operation_diagnostic option"

text \<open>The diagnostic of the entry a caller asks for, with the fields of the world.\<close>

definition capability_candidates ::
  "effect_requirements \<Rightarrow> world_diagnostic list \<Rightarrow> bool \<Rightarrow> string option \<Rightarrow> (string \<times> operation_diagnostic) list" where
  "capability_candidates required worlds speculation tool =
     concat (map (\<lambda>scope. concat (map (\<lambda>w.
       if wg_scope w \<noteq> scope then []
       else case (if speculation then Some (wg_primary w) else wg_observation w) of
         None \<Rightarrow> []
       | Some d \<Rightarrow> if supportsTool (od_tools d) tool \<and> effectCapabilitiesCover (od_capabilities d) required
           then [(wg_id w, d)] else []) worlds)) [Runtime_scope, Fallback_scope])"

definition primary_candidate :: "(string \<times> operation_diagnostic) list \<Rightarrow> (string \<times> operation_diagnostic) option" where
  "primary_candidate cs = (case find (\<lambda>c. hr_state (od_report (snd c)) = Ready) cs of
     Some c \<Rightarrow> Some c
   | None \<Rightarrow> (case find (\<lambda>c. hr_state (od_report (snd c)) = Registered) cs of
       Some c \<Rightarrow> Some c | None \<Rightarrow> (case cs of [] \<Rightarrow> None | c # _ \<Rightarrow> Some c)))"

definition executionCapabilityStatus ::
  "effect_requirements \<Rightarrow> world_diagnostic list \<Rightarrow> bool \<Rightarrow> string option \<Rightarrow>
     health \<times> (string \<times> operation_diagnostic) option \<times> (string \<times> operation_diagnostic) list" where
  "executionCapabilityStatus required worlds speculation tool =
     (let cs = capability_candidates required worlds speculation tool; p = primary_candidate cs in
      (case p of Some (i, d) \<Rightarrow> hr_state (od_report d) | None \<Rightarrow> Unavailable, p, cs))"

subsection \<open>What a route authorizes\<close>

definition authorized ::
  "'c routing_policy \<Rightarrow> world_entry \<Rightarrow> 'c world_request \<Rightarrow> world_scope \<Rightarrow> 'c world \<Rightarrow> route \<Rightarrow> bool" where
  "authorized po kind rq scope w r \<longleftrightarrow> \<not> passed_over po kind rq scope w \<and>
     (\<exists>wo. world_operation w kind = Some wo \<and> serves kind rq w wo \<and> prepare_route kind rq w wo = Inr r)"

lemma visit_selects:
  "fst (visit po kind rq cwd pick scope w obs) = Inr (Some x) \<longleftrightarrow>
     (\<exists>r. authorized po kind rq scope w r \<and> pick w r = Inr (Some x))"
  by (auto simp: visit_def authorized_def Let_def split: option.splits sum.splits)

definition declines ::
  "'c routing_policy \<Rightarrow> world_entry \<Rightarrow> 'c world_request \<Rightarrow> ('c world \<Rightarrow> route \<Rightarrow> string + 'a option) \<Rightarrow> world_scope \<times> 'c world \<Rightarrow> bool" where
  "declines po kind rq pick sw \<longleftrightarrow> (\<forall>r x. authorized po kind rq (fst sw) (snd sw) r \<longrightarrow> pick (snd sw) r \<noteq> Inr (Some x))"

lemma visit_all_first:
  assumes "fst (visit_all (visit po kind rq cwd pick) failed aborted ws obs) = Inr (Some x)"
  shows "\<exists>pre scope w post r. ws = pre @ (scope, w) # post \<and> list_all (declines po kind rq pick) pre \<and>
    authorized po kind rq scope w r \<and> pick w r = Inr (Some x)"
  using assms
proof (induction ws arbitrary: obs)
  case (Cons sw ws)
  obtain scope w where sw: "sw = (scope, w)" by force
  obtain a obs1 where v: "visit po kind rq cwd pick scope w obs = (a, obs1)" by force
  show ?case
  proof (cases "\<exists>y. a = Inr (Some y)")
    case True
    then have "a = Inr (Some x)" using Cons.prems by (auto simp: sw v)
    then have "\<exists>r. authorized po kind rq scope w r \<and> pick w r = Inr (Some x)"
      using visit_selects [of po kind rq cwd pick scope w obs x] by (simp add: v)
    then show ?thesis unfolding sw by (metis append_Nil list.pred_inject(1))
  next
    case False
    then have no: "declines po kind rq pick sw"
      using visit_selects [of po kind rq cwd pick scope w obs] by (auto simp: declines_def sw v)
    have "\<exists>obs. fst (visit_all (visit po kind rq cwd pick) failed aborted ws obs) = Inr (Some x)"
      using Cons.prems False by (auto simp: sw v split: sum.splits option.splits if_splits)
    then obtain pre scope' w' post r where "ws = pre @ (scope', w') # post" "list_all (declines po kind rq pick) pre"
      "authorized po kind rq scope' w' r" "pick w' r = Inr (Some x)"
      using Cons.IH by metis
    with no show ?thesis by (metis append_Cons list.pred_inject(2))
  qed
qed simp

lemma visit_all_none:
  assumes "fst (visit_all (visit po kind rq cwd pick) failed False ws obs) \<noteq> Inr None"
  shows "\<exists>x. fst (visit_all (visit po kind rq cwd pick) failed False ws obs) = Inr (Some x)"
  using assms
proof (induction ws arbitrary: obs)
  case (Cons sw ws)
  then show ?case by (cases sw) (auto split: prod.splits sum.splits option.splits)
qed simp

lemma authorized_facts:
  assumes "authorized po kind rq scope w r"
  shows "po_admission po w kind = None \<and> (kind = Speculation \<longrightarrow> po_enabled po (wd_id w)) \<and>
    (\<exists>wo. world_operation w kind = Some wo \<and> supportsTool (wo_tools wo) (requested_tool rq) \<and>
       (effectCapabilitiesCover (wo_capabilities wo) (rq_requirements rq) \<or>
        kind = Observed_execution \<and> wd_inputsOnly w \<noteq> None)) \<and>
    rt_backend r = wd_id w \<and> rt_scope r = scope \<and> rt_isolation r = wd_isolation w \<and>
    (rt_reuse r = Shared_result \<longleftrightarrow> rq_effect rq = action_effect.Observation \<and> rq_parent rq = None) \<and>
    (wd_qualification w \<noteq> None \<longrightarrow> isRegisteredExecutionWorld w kind \<and> rt_qualified r \<noteq> None)"
proof -
  from assms obtain wo where wo: "\<not> passed_over po kind rq scope w" "world_operation w kind = Some wo" "serves kind rq w wo"
    "prepare_route kind rq w wo = Inr r"
    by (auto simp: authorized_def)
  then obtain q where q: "qualifyExecutionWorld w kind = Inr q" and r: "rt_backend r = wd_id w" "rt_scope r = wd_scope w"
    "rt_isolation r = wd_isolation w" "rt_reuse r = route_reuse rq" "rt_qualified r = q"
    by (auto simp: prepare_route_def split: sum.splits option.splits)
  from q have "wd_qualification w \<noteq> None \<longrightarrow> isRegisteredExecutionWorld w kind \<and> q \<noteq> None"
    by (auto simp: qualifyExecutionWorld_def split: option.splits if_splits sum.splits)
  with wo r show ?thesis
    by (auto simp: passed_over_def serves_def route_reuse_def split: option.splits)
qed

lemma authorized_unqualified: "authorized po kind rq scope w r \<Longrightarrow> wd_qualification w = None \<Longrightarrow> rt_qualified r = None"
proof -
  assume "authorized po kind rq scope w r" "wd_qualification w = None"
  then obtain wo where "prepare_route kind rq w wo = Inr r" "qualifyExecutionWorld w kind = Inr None"
    by (auto simp: authorized_def qualifyExecutionWorld_def)
  then show ?thesis by (auto simp: prepare_route_def split: sum.split_asm option.split_asm)
qed

lemma visit_all_asks:
  assumes "fst (visit_all (visit po kind rq cwd (\<lambda>w r. Inr (Some r))) failed False ws obs) = Inr None" and "y \<in> set ws"
  shows "\<not> authorized po kind rq (fst y) (snd y) q"
  using assms
proof (induction ws arbitrary: obs)
  case (Cons sw ws)
  obtain scope w where sw: "sw = (scope, w)" by force
  obtain a obs1 where v: "visit po kind rq cwd (\<lambda>w r. Inr (Some r)) scope w obs = (a, obs1)" by force
  have "a \<noteq> Inr (Some q)" using Cons.prems(1) by (auto simp: sw v)
  then have "\<not> authorized po kind rq scope w q"
    using visit_selects [of po kind rq cwd "\<lambda>w r. Inr (Some r)" scope w obs q] by (simp add: v)
  moreover have "\<exists>obs. fst (visit_all (visit po kind rq cwd (\<lambda>w r. Inr (Some r))) failed False ws obs) = Inr None"
    using Cons.prems(1) by (auto simp: sw v split: sum.splits option.splits)
  ultimately show ?case using Cons.IH Cons.prems(2) by (auto simp: sw)
qed simp

text \<open>What it takes to run a request speculatively, on the fields of the world, the policy and the request.\<close>

definition can_run :: "'c routing_policy \<Rightarrow> 'c world_request \<Rightarrow> world_scope \<times> 'c world \<Rightarrow> bool" where
  "can_run po rq = (\<lambda>(scope, w). po_admission po w Speculation = None \<and> po_enabled po (wd_id w) \<and> wd_scope w = scope \<and>
     rq_backend rq \<in> {None, Some (wd_id w)} \<and>
     (case wd_speculation w of
        None \<Rightarrow> False
      | Some wo \<Rightarrow>
          (case (wo_tools wo, requested_tool rq) of (Some ts, Some t) \<Rightarrow> t \<in> set ts | _ \<Rightarrow> True) \<and>
          (case rq_parent rq of None \<Rightarrow> True | Some c \<Rightarrow> (case wd_accepts w of Some f \<Rightarrow> f c | None \<Rightarrow> False)) \<and>
          (case wo_capabilities wo of All_effects \<Rightarrow> True | Provided cs \<Rightarrow> set (capabilities (rq_requirements rq)) \<subseteq> set cs) \<and>
          (case wo_fingerprint wo rq of Inr _ \<Rightarrow> True | Inl _ \<Rightarrow> False) \<and> (case wo_prepare wo of Some (Inl _) \<Rightarrow> False | _ \<Rightarrow> True)) \<and>
     (case wd_qualification w of
        None \<Rightarrow> True
      | Some q \<Rightarrow> ql_active q \<and> Speculation \<in> set (ql_operations q) \<and>
          (case ql_verify q Speculation of Inr (f, excluded) \<Rightarrow> excluded \<and> \<not> blank f | Inl _ \<Rightarrow> False)))"

lemma qualified_iff: "(\<exists>f. qualifyExecutionWorld w k = Inr f) \<longleftrightarrow> (case wd_qualification w of
    None \<Rightarrow> True
  | Some q \<Rightarrow> ql_active q \<and> k \<in> set (ql_operations q) \<and> (case ql_verify q k of Inr (f, excluded) \<Rightarrow> excluded \<and> \<not> blank f | Inl _ \<Rightarrow> False))"
  by (auto simp: qualifyExecutionWorld_def isRegisteredExecutionWorld_def split: option.split sum.split)

lemma prepared_iff: "(\<exists>r. prepare_route kind rq w wo = Inr r) \<longleftrightarrow> (\<exists>f. qualifyExecutionWorld w kind = Inr f) \<and>
    (case wo_fingerprint wo rq of Inr _ \<Rightarrow> True | Inl _ \<Rightarrow> False) \<and> (case wo_prepare wo of Some (Inl _) \<Rightarrow> False | _ \<Rightarrow> True)"
  by (cases "qualifyExecutionWorld w kind"; cases "wo_fingerprint wo rq"; cases "wo_prepare wo"; cases "the (wo_prepare wo)")
    (simp_all add: prepare_route_def)

lemma serves_iff:
  assumes "wd_speculation w = Some wo"
  shows "serves Speculation rq w wo \<longleftrightarrow> (case (wo_tools wo, requested_tool rq) of (Some ts, Some t) \<Rightarrow> t \<in> set ts | _ \<Rightarrow> True) \<and>
    (case rq_parent rq of None \<Rightarrow> True | Some c \<Rightarrow> (case wd_accepts w of Some f \<Rightarrow> f c | None \<Rightarrow> False)) \<and>
    (case wo_capabilities wo of All_effects \<Rightarrow> True | Provided cs \<Rightarrow> set (capabilities (rq_requirements rq)) \<subseteq> set cs)"
proof -
  have "supportsTool (wo_tools wo) (requested_tool rq) \<longleftrightarrow> (case (wo_tools wo, requested_tool rq) of (Some ts, Some t) \<Rightarrow> t \<in> set ts | _ \<Rightarrow> True)"
    by (cases "wo_tools wo"; cases "requested_tool rq") (simp_all add: supportsTool_def)
  then show ?thesis
    using assms by (cases "rq_parent rq") (simp_all add: serves_def accepts_checkpoint_def cover_iff)
qed

lemma authorized_can_run: "(\<exists>r. authorized po Speculation rq scope w r) \<longleftrightarrow> can_run po rq (scope, w)"
proof (cases "wd_speculation w")
  case None
  then show ?thesis by (simp add: authorized_def can_run_def world_operation_def)
next
  case (Some wo)
  have "(\<exists>r. authorized po Speculation rq scope w r) \<longleftrightarrow> \<not> passed_over po Speculation rq scope w \<and> serves Speculation rq w wo \<and>
      (\<exists>r. prepare_route Speculation rq w wo = Inr r)"
    by (simp add: authorized_def world_operation_def Some)
  then show ?thesis
    unfolding serves_iff [OF Some] prepared_iff qualified_iff
    by (auto simp: can_run_def passed_over_def Some)
qed

lemma find_first: "list_all (\<lambda>y. \<not> P y) pre \<Longrightarrow> P x \<Longrightarrow> find P (pre @ x # post) = Some x"
  by (induction pre) simp_all

text \<open>C6. A route that is resolved belongs to the first world, runtime worlds before fallbacks in the order of
  registration, that can run the request: it is admitted, enabled and not another than the one asked for; its tools and
  checkpoints fit, its capabilities contain every required effect, its fingerprint, qualification and preparation
  succeed at that moment.  The route names that world and its qualification, and shares results only for observations without a
  parent checkpoint.  Unless the caller aborts, a request that some world can run gets a route.\<close>

theorem resolved_routes_are_authorized:
  fixes ro :: "'c router"
  defines "ws \<equiv> map (Pair Runtime_scope) (ro_worlds ro) @ map (Pair Fallback_scope) (ro_worlds ro)"
  shows "(fst (resolve_route po rq cwd aborted ro) = Inr (Some r) \<longrightarrow> (\<exists>w. find (can_run po rq) ws = Some (wd_scope w, w) \<and>
      rt_backend r = wd_id w \<and> rt_scope r = wd_scope w \<and> rt_isolation r = wd_isolation w \<and>
      (rt_reuse r = Shared_result \<longleftrightarrow> rq_effect rq = action_effect.Observation \<and> rq_parent rq = None) \<and>
      (rt_qualified r = None \<longleftrightarrow> wd_qualification w = None))) \<and>
    (fst (resolve_route po rq cwd False ro) = Inr None \<longleftrightarrow> find (can_run po rq) ws = None)"
proof -
  let ?pick = "\<lambda>w r. Inr (Some r)"
  let ?run = "\<lambda>aborted. visit_all (visit po Speculation rq cwd ?pick) (\<lambda>w. observeRoute (wd_id w) Speculation cwd Unavailable) aborted
      ws (ro_observations ro)"
  have run: "fst (resolve_route po rq cwd aborted ro) = fst (?run aborted)" for aborted
    by (simp add: resolve_route_def select_def ws_def split: prod.splits)
  have first: "\<exists>w. find (can_run po rq) ws = Some (wd_scope w, w) \<and> authorized po Speculation rq (wd_scope w) w r"
    if "fst (?run aborted) = Inr (Some r)" for aborted r
  proof -
    obtain pre scope w post where w: "ws = pre @ (scope, w) # post" "list_all (declines po Speculation rq ?pick) pre"
      "authorized po Speculation rq scope w r"
      using visit_all_first [OF \<open>fst (?run aborted) = Inr (Some r)\<close>] by auto
    have "list_all (\<lambda>y. \<not> can_run po rq y) pre"
      using w(2) authorized_can_run [of po rq] by (fastforce simp: list_all_iff declines_def)
    moreover have "can_run po rq (scope, w)" using w(3) authorized_can_run by blast
    ultimately have "find (can_run po rq) ws = Some (scope, w)" "wd_scope w = scope"
      using w(1) by (auto simp: find_first can_run_def)
    then show ?thesis using w(3) by blast
  qed
  have "fst (?run aborted) = Inr (Some r) \<Longrightarrow> \<exists>w. find (can_run po rq) ws = Some (wd_scope w, w) \<and>
      rt_backend r = wd_id w \<and> rt_scope r = wd_scope w \<and> rt_isolation r = wd_isolation w \<and>
      (rt_reuse r = Shared_result \<longleftrightarrow> rq_effect rq = action_effect.Observation \<and> rq_parent rq = None) \<and>
      (rt_qualified r = None \<longleftrightarrow> wd_qualification w = None)"
    using first [of aborted r] authorized_facts authorized_unqualified by blast
  moreover have "fst (?run False) = Inr None \<longleftrightarrow> find (can_run po rq) ws = None"
  proof
    assume none: "fst (?run False) = Inr None"
    have "\<not> can_run po rq y" if "y \<in> set ws" for y
    proof
      assume "can_run po rq y"
      then obtain q where "authorized po Speculation rq (fst y) (snd y) q" using authorized_can_run [of po rq "fst y" "snd y"] by auto
      then show False using visit_all_asks [OF none that] by auto
    qed
    then show "find (can_run po rq) ws = None" by (simp add: find_None_iff)
  next
    assume "find (can_run po rq) ws = None"
    then show "fst (?run False) = Inr None" using first [of False] visit_all_none by fastforce
  qed
  ultimately show ?thesis by (simp add: run)
qed

text \<open>C21. A captured execution whose output may be reused comes from a world whose observation covers every required effect of
  a concrete action; any other capture retains inputs only, and is shared.\<close>

theorem captures_cover_the_effects:
  assumes "fst (captureAuthoritativeResult po capture rq cwd aborted ro) = Inr (Some c)"
  shows "\<exists>w wo. w \<in> set (ro_worlds ro) \<and> wd_observation w = Some wo \<and> rt_backend (cr_route c) = wd_id w \<and>
    supportsTool (wo_tools wo) (requested_tool rq) \<and> po_admission po w Observed_execution = None \<and>
    (if cr_inputsOnly c then rt_reuse (cr_route c) = Shared_result
     else rq_action rq \<noteq> None \<and> effectCapabilitiesCover (wo_capabilities wo) (rq_requirements rq))"
proof -
  let ?ws = "map (Pair Runtime_scope) (ro_worlds ro) @ map (Pair Fallback_scope) (ro_worlds ro)"
  have "fst (visit_all (visit po Observed_execution rq cwd (capture_from capture rq))
      (\<lambda>w. observeRoute (wd_id w) Observed_execution cwd Unavailable) aborted ?ws (ro_observations ro)) = Inr (Some c)"
    using assms by (simp add: captureAuthoritativeResult_def select_def split: prod.splits)
  from visit_all_first [OF this] obtain pre scope w post r where w: "?ws = pre @ (scope, w) # post"
    "authorized po Observed_execution rq scope w r" "capture_from capture rq w r = Inr (Some c)" by auto
  have "(scope, w) \<in> set ?ws" unfolding w(1) by simp
  then have "w \<in> set (ro_worlds ro)" by auto
  with w(3) authorized_facts [OF w(2)] show ?thesis
    by (auto simp: world_operation_def capture_from_def split: sum.splits if_splits option.splits)
qed

subsection \<open>A router with two worlds\<close>

definition sample_operation :: "effect_capabilities \<Rightarrow> nat world_operation" where
  "sample_operation cs = \<lparr>wo_capabilities = cs, wo_tools = None, wo_fingerprint = (\<lambda>_. Inr (Some ''v1'')), wo_prepare = None,
     wo_diagnostics = None\<rparr>"

definition sample_world :: "string \<Rightarrow> world_scope \<Rightarrow> effect_capabilities \<Rightarrow> nat world" where
  "sample_world i scope cs = \<lparr>wd_id = i, wd_scope = scope, wd_isolation = Runtime_sandbox,
     wd_speculation = Some (sample_operation cs), wd_accepts = None, wd_observation = Some (sample_operation cs),
     wd_inputsOnly = None, wd_observes = False, wd_qualification = None\<rparr>"

definition sample_router :: "nat router" where
  "sample_router = \<lparr>ro_worlds = [sample_world ''local'' Fallback_scope All_effects,
     sample_world ''sandbox'' Runtime_scope (Provided [Filesystem_read])], ro_observations = []\<rparr>"

definition sample_policy :: "nat routing_policy" where
  "sample_policy = \<lparr>po_admission = (\<lambda>_ _. None), po_enabled = (\<lambda>_. True)\<rparr>"

definition sample_key :: action_key where
  "sample_key = \<lparr>ak_key = [], ak_hash = [], ak_tool = ''read'', ak_input = JNull, ak_resources = [], ak_root = None,
     ak_epoch = [], ak_schema = [], ak_fingerprint = [], ak_context = None, ak_semantics = None\<rparr>"

definition sample_route_request :: "nat world_request" where
  "sample_route_request = \<lparr>rq_backend = None, rq_parent = None, rq_effect = action_effect.Observation,
     rq_requirements = \<lparr>capabilities = [Filesystem_read]\<rparr>, rq_tool = None, rq_action = Some sample_key\<rparr>"

lemmas sample_routing_defs = resolve_route_def captureAuthoritativeResult_def select_def visit_def sample_router_def sample_world_def
  sample_operation_def sample_policy_def sample_route_request_def passed_over_def world_operation_def serves_def supportsTool_def
  requested_tool_def accepts_checkpoint_def effectCapabilitiesCover_def prepare_route_def qualifyExecutionWorld_def
  route_fingerprint_def route_reuse_def capture_from_def

definition checkpoint_request :: "nat world_request" where
  "checkpoint_request = sample_route_request\<lparr>rq_parent := Some 7\<rparr>"

lemma sample_router_made: "new_router [(0, sample_world ''local'' Fallback_scope All_effects),
    (1, sample_world ''sandbox'' Runtime_scope (Provided [Filesystem_read])), (0, sample_world ''local'' Fallback_scope All_effects)] =
  Inr sample_router"
  by (simp add: new_router_def sample_router_def sample_world_def sample_operation_def blank_def js_trim_def js_space_def)

theorem resolved_routes_are_authorized_witness:
  "\<exists>r. fst (resolve_route sample_policy sample_route_request ''/w'' False sample_router) = Inr (Some r) \<and>
    rt_backend r = ''sandbox'' \<and> rt_reuse r = Shared_result \<and>
    fst (resolve_route sample_policy checkpoint_request ''/w'' False sample_router) = Inr None"
proof -
  obtain r where r: "fst (resolve_route sample_policy sample_route_request ''/w'' False sample_router) = Inr (Some r)"
    and b: "rt_backend r = ''sandbox''"
    by (simp add: sample_routing_defs)
  have "find (can_run sample_policy checkpoint_request)
      (map (Pair Runtime_scope) (ro_worlds sample_router) @ map (Pair Fallback_scope) (ro_worlds sample_router)) = None"
    by (simp add: can_run_def checkpoint_request_def sample_routing_defs)
  then show ?thesis
    using resolved_routes_are_authorized [of sample_policy sample_route_request "''/w''" False sample_router r]
      resolved_routes_are_authorized [of sample_policy checkpoint_request "''/w''" False sample_router] r b
    by (auto simp: sample_route_request_def)
qed

theorem captures_cover_the_effects_witness:
  "\<exists>c. fst (captureAuthoritativeResult sample_policy (\<lambda>_. Inr False) sample_route_request ''/w'' False sample_router) = Inr (Some c) \<and>
    \<not> cr_inputsOnly c \<and> rt_backend (cr_route c) \<in> {''local'', ''sandbox''}"
proof -
  obtain c where c: "fst (captureAuthoritativeResult sample_policy (\<lambda>_. Inr False) sample_route_request ''/w'' False sample_router) = Inr (Some c)"
    and i: "\<not> cr_inputsOnly c"
    by (simp add: sample_routing_defs)
  from captures_cover_the_effects [OF c] c i show ?thesis
    by (auto simp: sample_router_def sample_world_def)
qed

end
