(* ===== verification/Reuse_Planner.thy ===== *)
theory Reuse_Planner
  imports Certificate_Keys
begin

text \<open>
  Finding a process certificate that can be reused now: validation of dependency evidence against the current world
  (\<open>src/provenance-validation.ts\<close>) and the lookup over candidate certificates (\<open>src/reuse-planner.ts\<close>).

  \<^item> The current world is a record of what the validation asks of it: the inherited descriptors, the mapping of logical
    paths, what a capture of one dependency at a physical path finds, what it cost, and whether the filesystem view held.
  \<^item> Candidates are the certificates the store yields, in its order; loading artifacts is a parameter.
  \<^item> A lookup that the caller aborts ends with that error at the next check, and is not modelled.
  \<^item> Arrays are compared by identity in the source; the capture hands on the array it was given or none, so comparing
    their values decides the same.
\<close>

subsection \<open>Observation of dependencies\<close>

text \<open>A capture finds a dependency, or that there is none like the expected one any more, or fails with a message.\<close>

datatype capture_result = Captured dynamic_dependency | Gone | Capture_error string

record current_world =
  cw_fds :: "js_num \<Rightarrow> (string \<times> bool) option"
  cw_resolve :: "string \<Rightarrow> string option"
  cw_capture :: "string \<Rightarrow> dynamic_dependency \<Rightarrow> capture_result"
  cw_cost :: "dynamic_dependency \<Rightarrow> nat \<times> nat"
  cw_view_error :: "string option"

definition dependency_name :: "hasher \<Rightarrow> dynamic_dependency \<Rightarrow> string" where
  "dependency_name hx d = (case d of Fd_dep fd _ _ \<Rightarrow> ''fd:'' @ number_string hx fd | _ \<Rightarrow> dependency_path d)"

text \<open>\<open>Inl\<close> is a check that cannot decide.\<close>

definition check_dependency :: "hasher \<Rightarrow> current_world \<Rightarrow> dynamic_dependency \<Rightarrow> string + dynamic_dependency option" where
  "check_dependency hx w expected = (case expected of
     Fd_dep fd _ _ \<Rightarrow> (case cw_fds w fd of
       Some (content, eof) \<Rightarrow> Inr (Some (Fd_dep fd content eof))
     | None \<Rightarrow> Inl (''fd_unavailable:'' @ number_string hx fd))
   | _ \<Rightarrow> (case cw_resolve w (dependency_path expected) of
       None \<Rightarrow> Inl (''path_unmapped:'' @ dependency_path expected)
     | Some [] \<Rightarrow> Inl (''path_unmapped:'' @ dependency_path expected)
     | Some physical \<Rightarrow> (case cw_capture w physical expected of
         Captured d \<Rightarrow> Inr (Some d)
       | Gone \<Rightarrow> Inr None
       | Capture_error e \<Rightarrow> Inl (''validation_error:'' @ dependency_path expected @ '':'' @ e))))"

definition compared_fields :: "string list" where
  "compared_fields = [''contentDigest'', ''metadataDigest'', ''aliases'', ''entriesDigest'', ''parentEntriesDigest'', ''targetDigest'',
     ''target'', ''digest'', ''eof'', ''exclusive'']"

definition differs :: "dynamic_dependency \<Rightarrow> dynamic_dependency \<Rightarrow> bool" where
  "differs observed expected \<longleftrightarrow>
     list_ex (\<lambda>k. field (dependency_fields observed) k \<noteq> field (dependency_fields expected) k) compared_fields"

fun settle_checks ::
  "hasher \<Rightarrow> (dynamic_dependency \<Rightarrow> string + dynamic_dependency option) \<Rightarrow> dynamic_dependency list \<Rightarrow>
     string + dynamic_dependency list \<times> string list" where
  "settle_checks hx check [] = Inr ([], [])"
| "settle_checks hx check (expected # ds) = (case check expected of
     Inl reason \<Rightarrow> Inl reason
   | Inr observed \<Rightarrow> and_then (settle_checks hx check ds) (\<lambda>(current, changed). Inr
       ((case observed of Some d \<Rightarrow> [d] | None \<Rightarrow> []) @ current,
        (if (case observed of None \<Rightarrow> True | Some d \<Rightarrow> differs d expected) then [dependency_name hx expected] else []) @ changed)))"

datatype dependency_validation =
    Current "dynamic_dependency list"
  | Stale_dependencies "string list" "dynamic_dependency list"
  | Indeterminate_validation string

record validation_result =
  vr_status :: dependency_validation
  vr_filesRead :: nat
  vr_bytesRead :: nat

definition unread :: "string \<Rightarrow> validation_result" where
  "unread reason = \<lparr>vr_status = Indeterminate_validation reason, vr_filesRead = 0, vr_bytesRead = 0\<rparr>"

definition validateDynamicDependencyCertificate ::
  "hasher \<Rightarrow> current_world \<Rightarrow> string list \<Rightarrow> dependency_certificate \<Rightarrow> validation_result" where
  "validateDynamicDependencyCertificate hx w accepted c =
     (let blocking = filter (\<lambda>t. t \<notin> set accepted) (dc_taints c) in
      if \<not> dc_complete c then unread ''trace_incomplete''
      else if blocking \<noteq> [] then unread (''tainted:'' @ join_with '','' blocking)
      else \<lparr>vr_status = (case settle_checks hx (check_dependency hx w) (dc_dependencies c) of
            Inl reason \<Rightarrow> Indeterminate_validation reason
          | Inr (current, changed) \<Rightarrow> (case cw_view_error w of
              Some e \<Rightarrow> Indeterminate_validation (''validation_error:filesystem_view:'' @ e)
            | None \<Rightarrow> if changed \<noteq> [] then Stale_dependencies (uniq changed) current else Current current)),
        vr_filesRead = sum_list (map (fst \<circ> cw_cost w) (dc_dependencies c)),
        vr_bytesRead = sum_list (map (snd \<circ> cw_cost w) (dc_dependencies c))\<rparr>)"

text \<open>A certificate is valid with its strong key, or why it is not.\<close>

definition validateProcessCertificate ::
  "hasher \<Rightarrow> current_world \<Rightarrow> string list \<Rightarrow> certificate \<Rightarrow> (dependency_validation \<times> string option) result" where
  "validateProcessCertificate hx w accepted c =
     (case vr_status (validateDynamicDependencyCertificate hx w accepted (ct_evidence c)) of
        Current ds \<Rightarrow> and_then (processStrongKey hx (ct_weakKey c) ds) (\<lambda>k. Inr
          (if k \<noteq> ct_strongKey c then (Stale_dependencies [''strong_key''] ds, None) else (Current ds, Some k)))
      | v \<Rightarrow> Inr (v, None))"

subsection \<open>Lookup\<close>

datatype sink = Buffered | Pipe_sink | Tty_sink | Interactive

record observation_contract =
  oc_sink :: sink
  oc_orderedJournal :: bool
  oc_transactionalEffects :: bool
  oc_continuation :: bool

definition contractCompatible :: "observation_contract \<Rightarrow> certificate \<Rightarrow> bool" where
  "contractCompatible k c \<longleftrightarrow> oc_orderedJournal k \<and> oc_transactionalEffects k \<and> oc_sink k = Buffered \<and>
     ps_replayProfile (ct_result c) = ''buffered_noninteractive'' \<and>
     (ps_continuation (ct_result c) = None \<or> oc_continuation k \<and>
       \<not> list_ex (\<lambda>t. t = ''pid_observation'' \<or> t = ''descriptor_observation'') (dc_taints (ct_evidence c)))"

datatype miss_reason = No_candidate_pathset | Certificate_tainted | Producer_guarantee_incompatible | Dependency_changed
  | Validation_indeterminate | Artifact_missing | Artifact_unreadable | Observation_contract_incompatible

datatype loaded_artifacts = Loaded nat nat | Missing_artifact | Unreadable_artifact

record reuse_request =
  rr_weakKey :: string
  rr_contract :: observation_contract
  rr_acceptedTaints :: "string list"
  rr_acceptProducer :: "(producer_proof \<Rightarrow> bool) option"
  rr_live :: "(certificate list \<times> string list) option"

text \<open>What one lookup has counted and observed; \<open>lk_inputs\<close> shares observations of one pathset under one set of taints.\<close>

record reuse_lookup =
  lm_candidates :: nat
  lm_eligible :: nat
  lm_pathsets :: nat
  lm_filesRead :: nat
  lm_bytesRead :: nat
  lm_artifacts :: nat
  lm_artifactBytes :: nat
  lm_reasons :: "miss_reason list"
  lm_changed :: "string list"
  lm_inputs :: "(string, string option) jsmap"

definition new_lookup :: reuse_lookup where
  "new_lookup = \<lparr>lm_candidates = 0, lm_eligible = 0, lm_pathsets = 0, lm_filesRead = 0, lm_bytesRead = 0, lm_artifacts = 0,
     lm_artifactBytes = 0, lm_reasons = [], lm_changed = [], lm_inputs = []\<rparr>"

definition add_reason :: "miss_reason \<Rightarrow> reuse_lookup \<Rightarrow> reuse_lookup" where
  "add_reason r s = s\<lparr>lm_reasons := (if r \<in> set (lm_reasons s) then lm_reasons s else lm_reasons s @ [r])\<rparr>"

definition observed_dependencies :: "dependency_validation \<Rightarrow> dynamic_dependency list option" where
  "observed_dependencies v = (case v of Current ds \<Rightarrow> Some ds | Stale_dependencies _ ds \<Rightarrow> Some ds | Indeterminate_validation _ \<Rightarrow> None)"

text \<open>The strong key the current inputs give; \<open>None\<close> when they cannot be observed.\<close>

definition observe_inputs ::
  "hasher \<Rightarrow> current_world \<Rightarrow> string list \<Rightarrow> string \<Rightarrow> dependency_certificate \<Rightarrow> reuse_lookup \<Rightarrow>
     (string option \<times> reuse_lookup) result" where
  "observe_inputs hx w accepted weak e s =
     (if \<not> dc_complete e then Inr (None, s)
      else and_then (dependencyPathsetKey hx (dc_dependencies e)) (\<lambda>pathset.
        let key = join_with '','' (dc_taints e) @ '':'' @ pathset in
        case map_of (lm_inputs s) key of
          Some k \<Rightarrow> Inr (k, s)
        | None \<Rightarrow>
            let v = validateDynamicDependencyCertificate hx w accepted e;
                s = s\<lparr>lm_pathsets := Suc (lm_pathsets s), lm_filesRead := lm_filesRead s + vr_filesRead v,
                  lm_bytesRead := lm_bytesRead s + vr_bytesRead v,
                  lm_changed := uniq (lm_changed s @ (case vr_status v of Stale_dependencies changed _ \<Rightarrow> changed | _ \<Rightarrow> []))\<rparr> in
            and_then (case observed_dependencies (vr_status v) of
                None \<Rightarrow> Inr None | Some ds \<Rightarrow> and_then (processStrongKey hx weak ds) (\<lambda>k. Inr (Some k))) (\<lambda>k.
              Inr (k, s\<lparr>lm_inputs := ms_set key k (lm_inputs s)\<rparr>))))"

datatype reuse_plan =
    Ready_plan bool bool certificate nat nat
  | Miss_plan "miss_reason list" "string list"

text \<open>\<open>Ready_plan\<close> says whether it resumes a running process and whether its certificate is live.\<close>

definition live_certificates :: "reuse_request \<Rightarrow> certificate list" where
  "live_certificates q = (case rr_live q of None \<Rightarrow> [] | Some (cs, _) \<Rightarrow> filter (\<lambda>c. ct_weakKey c = rr_weakKey q) cs)"

definition lookup_taints :: "reuse_request \<Rightarrow> string list" where
  "lookup_taints q = uniq (rr_acceptedTaints q @ (case rr_live q of
     Some (_, ts) \<Rightarrow> if live_certificates q = [] then [] else ts | None \<Rightarrow> []))"

definition refused_early :: "reuse_request \<Rightarrow> certificate \<Rightarrow> miss_reason option" where
  "refused_early q c =
     (if (case rr_acceptProducer q of Some f \<Rightarrow> \<not> f (ct_producer c) | None \<Rightarrow> False) then Some Producer_guarantee_incompatible
      else if \<not> certificateReplayable (ct_prototype c) (ct_evidence c) (ct_result c) (lookup_taints q) then Some Certificate_tainted
      else if \<not> contractCompatible (rr_contract q) c \<or> ps_continuation (ct_result c) \<noteq> None \<and> c \<notin> set (live_certificates q)
      then Some Observation_contract_incompatible
      else None)"

fun lookup_loop ::
  "hasher \<Rightarrow> current_world \<Rightarrow> (certificate \<Rightarrow> loaded_artifacts) \<Rightarrow> reuse_request \<Rightarrow> certificate list \<Rightarrow> reuse_lookup \<Rightarrow>
     (reuse_plan \<times> reuse_lookup) result" where
  "lookup_loop hx w load q [] s =
     Inr (Miss_plan (if lm_reasons s = [] then [No_candidate_pathset] else lm_reasons s) (sort (lm_changed s)), s)"
| "lookup_loop hx w load q (c # cs) s =
     (let s = s\<lparr>lm_candidates := Suc (lm_candidates s)\<rparr> in
      case refused_early q c of
        Some r \<Rightarrow> lookup_loop hx w load q cs (add_reason r s)
      | None \<Rightarrow>
          and_then (observe_inputs hx w (lookup_taints q) (rr_weakKey q) (ct_evidence c) (s\<lparr>lm_eligible := Suc (lm_eligible s)\<rparr>)) (\<lambda>(key, s).
            case key of
              None \<Rightarrow> lookup_loop hx w load q cs (add_reason Validation_indeterminate s)
            | Some k \<Rightarrow>
                if ct_strongKey c \<noteq> k then lookup_loop hx w load q cs (add_reason Dependency_changed s)
                else (case load c of
                    Unreadable_artifact \<Rightarrow> lookup_loop hx w load q cs (add_reason Artifact_unreadable s)
                  | Missing_artifact \<Rightarrow> lookup_loop hx w load q cs (add_reason Artifact_missing s)
                  | Loaded n bytes \<Rightarrow> Inr (Ready_plan (ps_continuation (ct_result c) \<noteq> None) (live_certificates q \<noteq> []) c n bytes,
                      s\<lparr>lm_artifacts := lm_artifacts s + n, lm_artifactBytes := lm_artifactBytes s + bytes\<rparr>))))"

definition plan_reuse ::
  "hasher \<Rightarrow> current_world \<Rightarrow> (certificate \<Rightarrow> loaded_artifacts) \<Rightarrow> reuse_request \<Rightarrow> certificate list \<Rightarrow>
     (reuse_plan \<times> reuse_lookup) result" where
  "plan_reuse hx w load q stored =
     refuse ''invalid process weak key'' (\<not> isSha256Digest (rr_weakKey q))
       (lookup_loop hx w load q (if live_certificates q \<noteq> [] then live_certificates q else stored) new_lookup)"

definition publishCompleted :: "certificate \<Rightarrow> string list \<Rightarrow> (certificate \<Rightarrow> bool) \<Rightarrow> bool" where
  "publishCompleted c accepted put \<longleftrightarrow> ps_continuation (ct_result c) = None \<and>
     certificateReplayable (ct_prototype c) (ct_evidence c) (ct_result c) accepted \<and> put c"

subsection \<open>What a plan promises\<close>

text \<open>The observation that a lookup shares between certificates of one key.\<close>

definition observation_key :: "hasher \<Rightarrow> dependency_certificate \<Rightarrow> string result" where
  "observation_key hx e = and_then (dependencyPathsetKey hx (dc_dependencies e)) (\<lambda>pathset. Inr (join_with '','' (dc_taints e) @ '':'' @ pathset))"

definition observed_now :: "hasher \<Rightarrow> current_world \<Rightarrow> string list \<Rightarrow> dependency_certificate \<Rightarrow> dynamic_dependency list \<Rightarrow> bool" where
  "observed_now hx w accepted e ds \<longleftrightarrow> dc_complete e \<and> set (dc_taints e) \<subseteq> set accepted \<and> cw_view_error w = None \<and>
     (\<forall>x \<in> set (dc_dependencies e). \<exists>o'. check_dependency hx w x = Inr o') \<and>
     ds = concat (map (\<lambda>x. case check_dependency hx w x of Inr (Some d) \<Rightarrow> [d] | _ \<Rightarrow> []) (dc_dependencies e))"

text \<open>What the strong keys of a lookup hash.\<close>

definition observed_values :: "hasher \<Rightarrow> current_world \<Rightarrow> string list \<Rightarrow> string \<Rightarrow> certificate list \<Rightarrow> js_val set" where
  "observed_values hx w accepted weak cs = {strong_key_value weak rs | c ds rs. c \<in> set cs \<and>
     observed_now hx w accepted (ct_evidence c) ds \<and> normalizeDependencies hx ds = Inr rs}"

lemma settle_checks_ok:
  "settle_checks hx check es = Inr (ds, changed) \<Longrightarrow> (\<forall>x \<in> set es. \<exists>o'. check x = Inr o') \<and>
     ds = concat (map (\<lambda>x. case check x of Inr (Some d) \<Rightarrow> [d] | _ \<Rightarrow> []) es)"
  by (induction es arbitrary: ds changed) (auto split: sum.splits option.splits)

lemma observed_validation:
  assumes "observed_dependencies (vr_status (validateDynamicDependencyCertificate hx w accepted e)) = Some ds"
  shows "observed_now hx w accepted e ds"
proof -
  have "dc_complete e" "set (dc_taints e) \<subseteq> set accepted"
    using assms by (auto simp: validateDynamicDependencyCertificate_def observed_dependencies_def unread_def Let_def filter_empty_conv
      split: if_splits)
  moreover from this have none: "filter (\<lambda>t. t \<notin> set accepted) (dc_taints e) = []" by (auto simp: filter_empty_conv)
  obtain changed where "settle_checks hx (check_dependency hx w) (dc_dependencies e) = Inr (ds, changed)" "cw_view_error w = None"
    using assms \<open>dc_complete e\<close> none
    by (auto simp: validateDynamicDependencyCertificate_def observed_dependencies_def split: sum.splits prod.splits option.splits if_splits)
  ultimately show ?thesis using settle_checks_ok unfolding observed_now_def by metis
qed

definition observed_key :: "hasher \<Rightarrow> current_world \<Rightarrow> string list \<Rightarrow> string \<Rightarrow> certificate list \<Rightarrow> string \<Rightarrow> string \<Rightarrow> bool" where
  "observed_key hx w accepted weak cs key k \<longleftrightarrow> (\<exists>c \<in> set cs. \<exists>ds. observation_key hx (ct_evidence c) = Inr key \<and>
     observed_now hx w accepted (ct_evidence c) ds \<and> processStrongKey hx weak ds = Inr k)"

definition memo_ok :: "hasher \<Rightarrow> current_world \<Rightarrow> string list \<Rightarrow> string \<Rightarrow> certificate list \<Rightarrow> reuse_lookup \<Rightarrow> bool" where
  "memo_ok hx w accepted weak cs s \<longleftrightarrow>
     (\<forall>key k. map_of (lm_inputs s) key = Some (Some k) \<longrightarrow> observed_key hx w accepted weak cs key k)"

lemma add_reason_memo [simp]: "memo_ok hx w accepted weak cs (add_reason r s) = memo_ok hx w accepted weak cs s"
  by (simp add: memo_ok_def add_reason_def)

lemma observe_inputs_memo:
  assumes "memo_ok hx w accepted weak cs s" and "c \<in> set cs"
    and "observe_inputs hx w accepted weak (ct_evidence c) s = Inr (answer, s')"
  shows "memo_ok hx w accepted weak cs s' \<and>
    (\<forall>k. answer = Some k \<longrightarrow> (\<exists>key. observation_key hx (ct_evidence c) = Inr key \<and> observed_key hx w accepted weak cs key k))"
proof (cases "dc_complete (ct_evidence c)")
  case False
  then show ?thesis using assms by (simp add: observe_inputs_def)
next
  case True
  obtain pathset where p: "dependencyPathsetKey hx (dc_dependencies (ct_evidence c)) = Inr pathset"
    using assms(3) True by (auto simp: observe_inputs_def)
  define key where "key = join_with '','' (dc_taints (ct_evidence c)) @ '':'' @ pathset"
  have key: "observation_key hx (ct_evidence c) = Inr key" by (simp add: observation_key_def p key_def)
  show ?thesis
  proof (cases "map_of (lm_inputs s) key")
    case (Some k)
    then have "answer = k \<and> s' = s" using assms(3) True p by (auto simp: observe_inputs_def Let_def key_def)
    then show ?thesis using Some assms(1) key by (auto simp: memo_ok_def)
  next
    case None
    let ?v = "vr_status (validateDynamicDependencyCertificate hx w accepted (ct_evidence c))"
    have answer: "(case observed_dependencies ?v of None \<Rightarrow> Inr None
        | Some ds \<Rightarrow> and_then (processStrongKey hx weak ds) (\<lambda>k. Inr (Some k))) = Inr answer"
      and inputs: "lm_inputs s' = ms_set key answer (lm_inputs s)"
      using assms(3) True p None by (auto simp: observe_inputs_def Let_def key_def)
    have found: "observed_key hx w accepted weak cs key k" if "answer = Some k" for k
      using answer that assms(2) key observed_validation [of hx w accepted "ct_evidence c"]
      by (auto simp: observed_key_def split: option.splits)
    then show ?thesis using assms(1) key by (auto simp: memo_ok_def inputs split: if_splits)
  qed
qed

lemma lookup_ready:
  assumes "lookup_loop hx w load q cs s = Inr (Ready_plan resumes live c n bytes, st)"
    and "memo_ok hx w (lookup_taints q) (rr_weakKey q) certs s" and "set cs \<subseteq> set certs"
  shows "c \<in> set cs \<and> refused_early q c = None \<and> load c = Loaded n bytes \<and> resumes = (ps_continuation (ct_result c) \<noteq> None) \<and>
    live = (live_certificates q \<noteq> []) \<and>
    (\<exists>key. observation_key hx (ct_evidence c) = Inr key \<and>
      observed_key hx w (lookup_taints q) (rr_weakKey q) certs key (ct_strongKey c))"
  using assms
proof (induction cs arbitrary: s)
  case (Cons d cs)
  let ?s = "s\<lparr>lm_candidates := Suc (lm_candidates s)\<rparr>"
  have memo: "memo_ok hx w (lookup_taints q) (rr_weakKey q) certs ?s" using Cons.prems(2) by (simp add: memo_ok_def)
  have later: "lookup_loop hx w load q cs t = Inr (Ready_plan resumes live c n bytes, st) \<Longrightarrow>
      memo_ok hx w (lookup_taints q) (rr_weakKey q) certs t \<Longrightarrow> ?case" for t
    using Cons.IH [of t] Cons.prems(3) by auto
  show ?case
  proof (cases "refused_early q d")
    case (Some r)
    then show ?thesis using Cons.prems(1) memo by (intro later [of "add_reason r ?s"]) (simp_all add: Let_def)
  next
    case None
    let ?t = "?s\<lparr>lm_eligible := Suc (lm_eligible ?s)\<rparr>"
    have t: "memo_ok hx w (lookup_taints q) (rr_weakKey q) certs ?t" using memo by (simp add: memo_ok_def)
    obtain answer u where obs: "observe_inputs hx w (lookup_taints q) (rr_weakKey q) (ct_evidence d) ?t = Inr (answer, u)"
      using Cons.prems(1) None by (auto simp: Let_def)
    note seen = observe_inputs_memo [OF t _ obs]
    have d: "d \<in> set certs" using Cons.prems(3) by simp
    note step = Cons.prems(1) [unfolded lookup_loop.simps Let_def None option.case obs and_then.simps prod.case]
    show ?thesis
    proof (cases answer)
      case None
      then show ?thesis using step seen [OF d] by (intro later [of "add_reason Validation_indeterminate u"]) simp_all
    next
      case (Some k)
      show ?thesis
      proof (cases "ct_strongKey d = k")
        case False
        then show ?thesis using step seen [OF d] Some by (intro later [of "add_reason Dependency_changed u"]) simp_all
      next
        case True
        show ?thesis
        proof (cases "load d")
          case (Loaded m b)
          then have "c = d \<and> m = n \<and> b = bytes \<and> resumes = (ps_continuation (ct_result d) \<noteq> None) \<and> live = (live_certificates q \<noteq> [])"
            using step Some True by auto
          then show ?thesis using Loaded seen [OF d] Some True None \<open>refused_early q d = None\<close> by auto
        next
          case Missing_artifact
          then show ?thesis using step seen [OF d] Some True by (intro later [of "add_reason Artifact_missing u"]) simp_all
        next
          case Unreadable_artifact
          then show ?thesis using step seen [OF d] Some True by (intro later [of "add_reason Artifact_unreadable u"]) simp_all
        qed
      qed
    qed
  qed
qed simp

definition planned_from :: "reuse_request \<Rightarrow> certificate list \<Rightarrow> certificate list" where
  "planned_from q stored = (if live_certificates q \<noteq> [] then live_certificates q else stored)"

text \<open>C3. A lookup that answers with a certificate has not refused it: its producer is accepted, its evidence may be
  replayed and the contract allows its result, a continuation only of a live certificate.  When the certificate was sealed
  for the requested invocation and the strong keys of the lookup do not collide, the dependencies it records are the ones
  that observing some candidate of the same pathset finds now, completely and through a filesystem view that held.\<close>

theorem planned_reuse_is_current:
  assumes "number_text (hx_num hx)" and "count_text (hx_num hx)"
    and "plan_reuse hx w load q stored = Inr (Ready_plan resumes live c n bytes, st)"
    and "sealProcessCertificate hx now i = Inr c" and "ct_weakKey c = rr_weakKey q"
    and "inj_on (hx_text hx) (hashed_text hx ` (hashed_values c \<union>
      observed_values hx w (lookup_taints q) (rr_weakKey q) (planned_from q stored)))"
  shows "c \<in> set (planned_from q stored) \<and> refused_early q c = None \<and> load c = Loaded n bytes \<and>
    resumes = (ps_continuation (ct_result c) \<noteq> None) \<and> live = (live_certificates q \<noteq> []) \<and>
    (\<exists>e \<in> set (planned_from q stored). \<exists>ds. observation_key hx (ct_evidence e) = observation_key hx (ct_evidence c) \<and>
      observed_now hx w (lookup_taints q) (ct_evidence e) ds \<and>
      set (dc_dependencies (ct_evidence c)) = canonical_dependency ` set ds)"
proof -
  have loop: "lookup_loop hx w load q (planned_from q stored) new_lookup = Inr (Ready_plan resumes live c n bytes, st)"
    using assms(3) unfolding plan_reuse_def planned_from_def by (simp only: refuse_Inr)
  have start: "memo_ok hx w (lookup_taints q) (rr_weakKey q) (planned_from q stored) new_lookup"
    by (simp add: memo_ok_def new_lookup_def)
  note ready = lookup_ready [OF loop start subset_refl]
  obtain key e ds where e: "observation_key hx (ct_evidence c) = Inr key" "e \<in> set (planned_from q stored)"
      "observation_key hx (ct_evidence e) = Inr key" "observed_now hx w (lookup_taints q) (ct_evidence e) ds"
      "processStrongKey hx (rr_weakKey q) ds = Inr (ct_strongKey c)"
    using ready unfolding observed_key_def by blast
  obtain rs where rs: "normalizeDependencies hx ds = Inr rs" "strong_key_of hx (rr_weakKey q) rs = ct_strongKey c"
    using e(5) by (auto simp: processStrongKey_def)
  note p = sealed_parts [OF assms(2,4)] and facts = normalized_facts [OF assms(2) rs(1)]
  have plain: "list_all plain_dependency rs"
    using facts dependency_ok_plain unfolding list_all_iff by metis
  have "digestObject hx (strong_key_value (rr_weakKey q) rs) = digestObject hx (strong_key_value (ct_weakKey c) (dc_dependencies (ct_evidence c)))"
    using p rs(2) by (simp add: strong_key_of_def)
  moreover have "strong_key_value (rr_weakKey q) rs \<in> observed_values hx w (lookup_taints q) (rr_weakKey q) (planned_from q stored)"
    using e(2,4) rs(1) by (auto simp: observed_values_def)
  ultimately have "same_text (hx_num hx) (strong_key_value (rr_weakKey q) rs) (strong_key_value (ct_weakKey c) (dc_dependencies (ct_evidence c)))"
    by (subst digest_same [OF assms(1,6), symmetric]) (simp_all add: hashed_values_def)
  then have "rs = dc_dependencies (ct_evidence c)" using strong_value_same [OF assms(2) plain] p by blast
  then show ?thesis using ready e facts by metis
qed

subsection \<open>A concrete lookup\<close>

definition sample_evidence :: dependency_certificate where
  "sample_evidence = \<lparr>dc_complete = True, dc_dependencies = [Lock_dep ''/work/lock'' True], dc_taints = []\<rparr>"

definition sample_world :: current_world where
  "sample_world = \<lparr>cw_fds = (\<lambda>_. None), cw_resolve = Some, cw_capture = (\<lambda>_ d. Captured d), cw_cost = (\<lambda>_. (0, 0)), cw_view_error = None\<rparr>"

definition sample_request :: "string \<Rightarrow> reuse_request" where
  "sample_request weak = \<lparr>rr_weakKey = weak, rr_contract = \<lparr>oc_sink = Buffered, oc_orderedJournal = True, oc_transactionalEffects = True,
     oc_continuation = False\<rparr>, rr_acceptedTaints = [], rr_acceptProducer = None, rr_live = None\<rparr>"

definition sample_key :: "char \<Rightarrow> string" where
  "sample_key d = ''sha256:'' @ replicate 64 d"

lemma sample_key_digest: "is_hex d \<Longrightarrow> isSha256Digest (sample_key d)"
  by (simp add: sample_key_def isSha256Digest_def list_all_iff)

lemma sample_key_same [simp]: "sample_key d = sample_key e \<longleftrightarrow> d = e"
  by (simp add: sample_key_def)

text \<open>A digest without collisions on the three values that identify the sample execution.\<close>

definition weak_text :: string where
  "weak_text = hashed_text (sample_hasher id) (weak_key_value (sample_prototype 18))"

definition strong_text :: string where
  "strong_text = hashed_text (sample_hasher id) (strong_key_value (sample_key CHR ''1'') (dc_dependencies sample_evidence))"

definition sample_digest :: "string \<Rightarrow> string" where
  "sample_digest t = (if t = weak_text then sample_key CHR ''1'' else if t = strong_text then sample_key CHR ''2'' else sample_key CHR ''3'')"

lemma sample_certificate:
  "\<exists>c. sealProcessCertificate (sample_hasher h) now (sample_execution 18) = Inr c \<and> ct_prototype c = sample_prototype 18 \<and>
    ct_evidence c = sample_evidence \<and> ps_continuation (ct_result c) = None \<and>
    ps_replayProfile (ct_result c) = ''buffered_noninteractive''"
  using sample_prototype_accepted [of 18 "sample_hasher h"]
  by (simp add: sealProcessCertificate_def sample_execution_def normalizeProducerProof_def proof_ok_def validProvider_def
    normalizeDependencies_def validateDependency_def validLogicalPath_def normalizeResult_def sample_prototype_def
    normalizeTimelineComputation_def asRecord_def Let_def refuse_def sample_evidence_def uniq_def)

lemma text_same: "is_object v \<Longrightarrow> is_object w \<Longrightarrow> hashed_text (sample_hasher h) v = hashed_text (sample_hasher k) w \<Longrightarrow>
    same_text (hx_num (sample_hasher h)) v w"
  using digest_same [OF sample_numbers(1), of id "{v, w}" v w]
  by (simp add: digestObject_def hashed_text_def sample_hasher_def)

lemma apart: "is_object v \<Longrightarrow> is_object w \<Longrightarrow> \<not> same_text (hx_num (sample_hasher h)) v w \<Longrightarrow>
    hashed_text (sample_hasher h) v \<noteq> hashed_text (sample_hasher k) w"
  using text_same by metis

lemma texts_differ:
  "weak_text \<noteq> strong_text" "hashed_text (sample_hasher h) (content_value c) \<noteq> weak_text"
  "hashed_text (sample_hasher h) (content_value c) \<noteq> strong_text"
proof -
  show "weak_text \<noteq> strong_text"
    unfolding weak_text_def strong_text_def
    by (rule apart, simp_all) (auto simp: weak_key_value_def strong_key_value_def field_def dest!: same_text_member [where k = "''weakKey''"])
  show "hashed_text (sample_hasher h) (content_value c) \<noteq> weak_text"
    unfolding weak_text_def
    by (rule apart, simp_all) (auto simp: weak_key_value_def content_value_def field_def dest!: same_text_member [where k = "''weakKey''"])
  show "hashed_text (sample_hasher h) (content_value c) \<noteq> strong_text"
    unfolding strong_text_def
    by (rule apart, simp_all) (auto simp: strong_key_value_def content_value_def field_def dest!: same_text_member [where k = "''strongKey''"])
qed

lemma sample_observed:
  assumes "ct_evidence c = sample_evidence"
  shows "observed_values (sample_hasher h) sample_world [] weak [c] \<subseteq> {strong_key_value weak (dc_dependencies sample_evidence)}"
  using assms by (auto simp: observed_values_def observed_now_def sample_evidence_def sample_world_def check_dependency_def
    normalizeDependencies_def validateDependency_def validLogicalPath_def refuse_def Let_def)

theorem planned_reuse_is_current_witness:
  "\<exists>c st. plan_reuse (sample_hasher sample_digest) sample_world (\<lambda>_. Loaded 1 5) (sample_request (sample_key CHR ''1'')) [c] =
      Inr (Ready_plan False False c 1 5, st) \<and>
    (\<exists>ds. observed_now (sample_hasher sample_digest) sample_world [] sample_evidence ds \<and>
      set (dc_dependencies sample_evidence) = canonical_dependency ` set ds)"
proof -
  let ?hx = "sample_hasher sample_digest" and ?q = "sample_request (sample_key CHR ''1'')"
  obtain c where c: "sealProcessCertificate ?hx (Fin 3) (sample_execution 18) = Inr c"
    "ct_prototype c = sample_prototype 18" "ct_evidence c = sample_evidence" "ps_continuation (ct_result c) = None"
    "ps_replayProfile (ct_result c) = ''buffered_noninteractive''"
    using sample_certificate by blast
  note p = sealed_parts [OF sample_numbers(2) c(1)]
  have printed: "hashed_text (sample_hasher h) v = hashed_text (sample_hasher id) v" for h v
    by (simp add: hashed_text_def sample_hasher_def)
  have digest: "digestObject (sample_hasher h) v = h (hashed_text (sample_hasher id) v)" for h v
    by (simp add: digestObject_def hashed_text_def sample_hasher_def)
  have weak: "ct_weakKey c = sample_key CHR ''1''"
    using p c(2) by (simp add: digest sample_digest_def weak_text_def)
  have strong: "ct_strongKey c = sample_key CHR ''2''"
    using p c(3) weak texts_differ(1) by (simp add: digest sample_digest_def strong_text_def [symmetric])
  have q: "live_certificates ?q = []" "lookup_taints ?q = []" "rr_weakKey ?q = sample_key CHR ''1''"
    by (simp_all add: live_certificates_def lookup_taints_def sample_request_def uniq_def)
  have early: "refused_early ?q c = None"
    unfolding refused_early_def q using c by (simp add: sample_request_def certificateReplayable_def contractCompatible_def
      sample_evidence_def sample_prototype_def Let_def)
  have normal: "normalizeDependencies ?hx (dc_dependencies sample_evidence) = Inr (dc_dependencies sample_evidence)"
    by (simp add: sample_evidence_def normalizeDependencies_def validateDependency_def validLogicalPath_def refuse_def Let_def)
  have valid: "validateDynamicDependencyCertificate ?hx sample_world [] sample_evidence =
      \<lparr>vr_status = Current (dc_dependencies sample_evidence), vr_filesRead = 0, vr_bytesRead = 0\<rparr>"
    by (simp add: validateDynamicDependencyCertificate_def sample_evidence_def sample_world_def check_dependency_def differs_def compared_fields_def)
  have key: "processStrongKey ?hx (sample_key CHR ''1'') (dc_dependencies sample_evidence) = Inr (sample_key CHR ''2'')"
    using p strong weak c(3) normal by (simp add: processStrongKey_def strong_key_of_def)
  obtain pathset where "dependencyPathsetKey ?hx (dc_dependencies sample_evidence) = Inr pathset"
    using normal by (simp add: dependencyPathsetKey_def)
  moreover have "dc_complete sample_evidence" by (simp add: sample_evidence_def)
  ultimately obtain u where u: "observe_inputs ?hx sample_world [] (sample_key CHR ''1'') sample_evidence
      (new_lookup\<lparr>lm_candidates := Suc 0, lm_eligible := Suc 0\<rparr>) = Inr (Some (sample_key CHR ''2''), u)"
    by (simp add: observe_inputs_def valid key observed_dependencies_def new_lookup_def Let_def)
  obtain st where plan: "plan_reuse ?hx sample_world (\<lambda>_. Loaded 1 5) ?q [c] = Inr (Ready_plan False False c 1 5, st)"
    using u early strong c(3,4) sample_key_digest [of "CHR ''1''"] unfolding plan_reuse_def refuse_def
    by (simp add: q Let_def new_lookup_def is_hex_def)
  have "inj_on sample_digest {weak_text, strong_text, hashed_text (sample_hasher id) (content_value c)}"
    using texts_differ by (auto simp: inj_on_def sample_digest_def)
  moreover have "hashed_text ?hx ` hashed_values c = {weak_text, strong_text, hashed_text (sample_hasher id) (content_value c)}"
    using c weak by (simp add: hashed_values_def printed [of sample_digest] weak_text_def strong_text_def)
  moreover have "observed_values ?hx sample_world [] (sample_key CHR ''1'') [c] \<subseteq> hashed_values c"
    using sample_observed [OF c(3)] c weak by (auto simp: hashed_values_def)
  ultimately have apart: "inj_on (hx_text ?hx) (hashed_text ?hx ` (hashed_values c \<union>
      observed_values ?hx sample_world (lookup_taints ?q) (rr_weakKey ?q) (planned_from ?q [c])))"
    by (simp add: Un_absorb2 q planned_from_def sample_hasher_def)
  show ?thesis
    using planned_reuse_is_current [OF sample_numbers plan c(1) _ apart] plan weak c(3) by (auto simp: q planned_from_def)
qed

end
