(* ===== verification/Pattern_Values.thy ===== *)
theory Pattern_Values
  imports Path_Utils Stable_Json
begin

text \<open>
  Values, paths and names as the pattern analysis of \<open>src/pattern-aware.ts\<close> uses them: the paths into a value and its
  leaves, reading and writing at a path, and the rewriting of file names by directory, stem, rebase and join.

  \<^item> A path is a list of object keys and array indices; an object has its own members only, and arrays additionally
    answer to \<open>length\<close> and to indices written as text.  A hole of an array is \<open>JUndef\<close>.
  \<^item> File paths are POSIX paths; \<open>cwd\<close> is the working directory that \<open>path.posix.relative\<close> consults.
  \<^item> The bounded caches in front of the path functions return what the functions compute, and are left out.
\<close>

subsection \<open>Paths into values\<close>

datatype segment = Key string | Index nat

type_synonym value_path = "segment list"

definition own_member :: "js_val \<Rightarrow> string \<Rightarrow> js_val option" where
  "own_member v k = (case v of
     JObj fs \<Rightarrow> map_of fs k
   | JArr xs \<Rightarrow> (case find (\<lambda>i. nat_text i = k) [0..<length xs] of
       Some i \<Rightarrow> Some (xs ! i) | None \<Rightarrow> if k = ''length'' then Some (jnum (real (length xs))) else None)
   | _ \<Rightarrow> None)"

fun getPath :: "js_val \<Rightarrow> value_path \<Rightarrow> js_val option" where
  "getPath v [] = Some v"
| "getPath v (Index i # p) = (case v of JArr xs \<Rightarrow> if i < length xs then getPath (xs ! i) p else None | _ \<Rightarrow> None)"
| "getPath v (Key k # p) = (case own_member v k of Some x \<Rightarrow> getPath x p | None \<Rightarrow> None)"

text \<open>What optional access by a segment reads; nothing is \<open>JUndef\<close>.\<close>

definition child_of :: "js_val \<Rightarrow> segment \<Rightarrow> js_val" where
  "child_of v s = (case s of
     Key k \<Rightarrow> (case own_member v k of Some x \<Rightarrow> x | None \<Rightarrow> JUndef)
   | Index i \<Rightarrow> (case v of
       JArr xs \<Rightarrow> if i < length xs then xs ! i else JUndef
     | JObj fs \<Rightarrow> field fs (nat_text i)
     | JStr t \<Rightarrow> if i < length t then JStr [t ! i] else JUndef
     | _ \<Rightarrow> JUndef))"

definition set_item :: "js_val list \<Rightarrow> nat \<Rightarrow> js_val \<Rightarrow> js_val list" where
  "set_item xs i x = (if i < length xs then xs[i := x] else xs @ replicate (i - length xs) JUndef @ [x])"

fun withPath :: "js_val \<Rightarrow> value_path \<Rightarrow> js_val \<Rightarrow> js_val" where
  "withPath v [] x = x"
| "withPath v (Index i # p) x =
     JArr (set_item (case v of JArr xs \<Rightarrow> xs | _ \<Rightarrow> []) i (withPath (child_of v (Index i)) p x))"
| "withPath v (Key k # p) x =
     JObj (ms_set k (withPath (child_of v (Key k)) p x) (case v of JObj fs \<Rightarrow> fs | _ \<Rightarrow> []))"

lemma size_entry: "(k, v) \<in> set fs \<Longrightarrow> size v < Suc (size_list (size_prod (\<lambda>_. 0) size) fs)"
  using size_list_estimation' [of "(k, v)" fs "size v" "size_prod (\<lambda>_. 0) size"] by simp

lemma size_indexed: "(i, v) \<in> set (enumerate n xs) \<Longrightarrow> size v < Suc (size_list size xs)"
  by (auto simp: in_set_enumerate_eq size_nth)

function leaves :: "js_val \<Rightarrow> (value_path \<times> js_val) list" where
  "leaves v = (case v of
     JArr xs \<Rightarrow> if xs = [] then [([], v)]
       else concat (map (\<lambda>(i, x). map (\<lambda>(p, l). (Index i # p, l)) (leaves x)) (enumerate 0 xs))
   | JObj fs \<Rightarrow> if fs = [] then [([], v)]
       else concat (map (\<lambda>(k, x). map (\<lambda>(p, l). (Key k # p, l)) (leaves x)) fs)
   | _ \<Rightarrow> [([], v)])"
  by pat_completeness auto

termination
  by (relation "measure size") (auto simp: size_indexed size_entry)

declare leaves.simps [simp del]

lemma leaves_simps [simp]:
  "leaves JUndef = [([], JUndef)]" "leaves JNull = [([], JNull)]" "leaves (JBool b) = [([], JBool b)]"
  "leaves (JNum n) = [([], JNum n)]" "leaves (JStr t) = [([], JStr t)]" "leaves (JArr []) = [([], JArr [])]"
  "leaves (JObj []) = [([], JObj [])]"
  "xs \<noteq> [] \<Longrightarrow> leaves (JArr xs) = concat (map (\<lambda>(i, x). map (\<lambda>(p, l). (Index i # p, l)) (leaves x)) (enumerate 0 xs))"
  "fs \<noteq> [] \<Longrightarrow> leaves (JObj fs) = concat (map (\<lambda>(k, x). map (\<lambda>(p, l). (Key k # p, l)) (leaves x)) fs)"
  by (simp_all add: leaves.simps)

subsection \<open>Names of files\<close>

text \<open>\<open>path.normalize\<close> with backslashes shown as slashes.\<close>

definition normalizePath :: "string \<Rightarrow> string" where
  "normalizePath v = map (\<lambda>c. if c = CHR 0x5C then slash_char else c) (posix_normalize v)"

definition strip_end :: "(char \<Rightarrow> bool) \<Rightarrow> string \<Rightarrow> string" where
  "strip_end P t = rev (dropWhile P (rev t))"

text \<open>\<open>path.dirname\<close> and \<open>path.basename\<close> of POSIX: trailing slashes do not count.\<close>

definition dirname :: "string \<Rightarrow> string" where
  "dirname p = (case p of [] \<Rightarrow> ''.''
     | h # t \<Rightarrow>
         let d = strip_end (\<lambda>c. c \<noteq> slash_char) (strip_end (\<lambda>c. c = slash_char) t) in
         if d = [] then (if h = slash_char then ''/'' else ''.'')
         else if h = slash_char \<and> length d = 1 then ''//''
         else h # butlast d)"

definition basename :: "string \<Rightarrow> string" where
  "basename p = rev (takeWhile (\<lambda>c. c \<noteq> slash_char) (dropWhile (\<lambda>c. c = slash_char) (rev p)))"

datatype path_transform = Dirname | Basename | Normalize_path | Stem | Strip_extension

definition line_end :: "char \<Rightarrow> bool" where
  "line_end c \<longleftrightarrow> c = CHR 0x0A \<or> c = CHR 0x0D"

text \<open>A name up to its first dot after the leading ones; the cut part must not contain a line break.\<close>

definition stem_of :: "string \<Rightarrow> string" where
  "stem_of name =
     (let dots = takeWhile (\<lambda>c. c = CHR ''.'') name; r = drop (length dots) name;
          body = takeWhile (\<lambda>c. c \<noteq> CHR ''.'') r; rest = drop (length body) r in
      if body \<noteq> [] \<and> rest \<noteq> [] \<and> \<not> list_ex line_end rest then dots @ body else name)"

definition transform :: "path_transform \<Rightarrow> string \<Rightarrow> string" where
  "transform operation v = (case operation of
     Dirname \<Rightarrow> dirname v
   | Basename \<Rightarrow> basename v
   | Normalize_path \<Rightarrow> normalizePath v
   | Stem \<Rightarrow> stem_of (basename v)
   | Strip_extension \<Rightarrow> take (length v - length (basename v)) v @ stem_of (basename v))"

text \<open>The directory swap from one path to another that ends in the same segments.\<close>

fun shared_end :: "string list \<Rightarrow> string list \<Rightarrow> nat" where
  "shared_end (a # as) (b # bs) = (if a = b then Suc (shared_end as bs) else 0)"
| "shared_end _ _ = 0"

definition rebaseBetween :: "string \<Rightarrow> string \<Rightarrow> (string \<times> string) option" where
  "rebaseBetween source target =
     (let l = split_slash (normalizePath source); r = split_slash (normalizePath target);
          shared = shared_end (rev l) (rev r);
          from = join_slash (take (length l - shared) l); to = join_slash (take (length r - shared) r) in
      if shared \<noteq> 0 \<and> from \<noteq> to then Some (from, to) else None)"

definition rebase :: "string \<Rightarrow> string \<Rightarrow> string \<Rightarrow> string option" where
  "rebase v from to =
     (let n = normalizePath v;
          rest = (if from = [] then n else if prefix (from @ ''/'') n then drop (Suc (length from)) n else []) in
      if rest = [] then None else Some (if to = [] then rest else to @ ''/'' @ rest))"

definition joinPath :: "string \<Rightarrow> string \<Rightarrow> string \<Rightarrow> string" where
  "joinPath cwd left right =
     (let root = normalizePath left; output = normalizePath right in
      if containsLogicalPath cwd root output then output
      else if basename root = output then root
      else normalizePath (posix_normalize (root @ ''/'' @ output)))"

end
