(* ===== verification/Pattern_Bindings.thy ===== *)
theory Pattern_Bindings
  imports Pattern_Values Numbers "HOL-Library.Multiset"
begin

text \<open>
  Bindings of an action's arguments to earlier events (\<open>PatternBindingAnalysis\<close> of \<open>src/pattern-aware.ts\<close>): what a
  binding evaluates to in a context, how the rows of several bindings join, and the ranked inputs they propose.

  \<^item> A row carries its values and, for every collection it picked from, the index it picked; the collection is named by
    event, field and path, which the source writes as one JSON text.
  \<^item> The bindings of an action are listed by target path in the order of the source's record, with the counts of the
    observed variants.  A context is the list of its events, the oldest first.
  \<^item> The analysis memoizes by identity what it computes; the memo is left out.
\<close>

subsection \<open>Bindings\<close>

datatype event_field = Input_field | Output_field | Paths_field | Locations_field

record event =
  ev_session :: string
  ev_turn :: string
  ev_tool :: string
  ev_input :: js_val
  ev_success :: bool
  ev_output :: js_val
  ev_paths :: js_val
  ev_locations :: js_val
  ev_errorClass :: "string option"
  ev_operation :: "string option"
  ev_schemaHash :: "string option"
  ev_learnTarget :: bool
  ev_sequence :: real
  ev_batch :: "(string \<times> nat \<times> nat) option"

definition event_value :: "event \<Rightarrow> event_field \<Rightarrow> js_val" where
  "event_value e f = (case f of Input_field \<Rightarrow> ev_input e | Output_field \<Rightarrow> ev_output e
     | Paths_field \<Rightarrow> ev_paths e | Locations_field \<Rightarrow> ev_locations e)"

datatype binding =
    Event_binding int event_field value_path
  | Each_binding int event_field value_path value_path
  | Constant_binding js_val
  | Transform_binding path_transform binding
  | Coalesce_binding "binding list"
  | Template_binding binding string string
  | Splice_binding "binding list" "string list"
  | Rebase_binding binding string string
  | Near_binding binding real
  | Join_binding binding binding

definition bindingChildren :: "binding \<Rightarrow> binding list" where
  "bindingChildren b = (case b of
     Event_binding _ _ _ \<Rightarrow> [] | Each_binding _ _ _ _ \<Rightarrow> [] | Constant_binding _ \<Rightarrow> []
   | Coalesce_binding bs \<Rightarrow> bs | Splice_binding bs _ \<Rightarrow> bs | Join_binding l r \<Rightarrow> [l, r]
   | Transform_binding _ s \<Rightarrow> [s] | Template_binding s _ _ \<Rightarrow> [s] | Rebase_binding s _ _ \<Rightarrow> [s] | Near_binding s _ \<Rightarrow> [s])"

subsection \<open>Rows\<close>

type_synonym source_key = "int \<times> event_field \<times> value_path"

record row =
  rw_values :: "js_val list"
  rw_sources :: "(source_key, nat) jsmap"

definition plain_row :: "js_val \<Rightarrow> row" where
  "plain_row v = \<lparr>rw_values = [v], rw_sources = []\<rparr>"

definition clashes :: "row \<Rightarrow> row \<Rightarrow> bool" where
  "clashes r q \<longleftrightarrow> list_ex (\<lambda>(k, i). case map_of (rw_sources r) k of Some j \<Rightarrow> j \<noteq> i | None \<Rightarrow> False) (rw_sources q)"

definition merge_rows :: "row \<Rightarrow> row \<Rightarrow> row" where
  "merge_rows r q = \<lparr>rw_values = rw_values r @ rw_values q, rw_sources = fold (\<lambda>(k, i). ms_set k i) (rw_sources q) (rw_sources r)\<rparr>"

text \<open>The depth-first search with its explicit stack: rows of the remaining groups extend a row that they do not clash with.\<close>

fun join_work :: "row list list \<Rightarrow> nat" where
  "join_work [] = 1"
| "join_work (g # gs) = Suc (length g * join_work gs)"

definition extensions :: "row list \<Rightarrow> row list list \<Rightarrow> row \<Rightarrow> (row list list \<times> row) list" where
  "extensions choices rest r = map (\<lambda>q. (rest, merge_rows r q)) (filter (\<lambda>q. \<not> clashes r q) choices)"

lemma extensions_work: "(\<Sum>(gs, r) \<leftarrow> extensions choices rest r. join_work gs) \<le> length choices * join_work rest"
  by (induction choices) (auto simp: extensions_def)

function join_loop :: "(row list list \<times> row) list \<Rightarrow> row list" where
  "join_loop [] = []"
| "join_loop (([], r) # pending) = r # join_loop pending"
| "join_loop ((g # gs, r) # pending) = join_loop (extensions g gs r @ pending)"
  by pat_completeness auto

termination
proof (relation "measure (\<lambda>pending. \<Sum>(gs, r) \<leftarrow> pending. join_work gs)")
  fix g gs r pending
  show "(extensions g gs r @ pending, (g # gs, r) # pending) \<in> measure (\<lambda>pending. \<Sum>(gs, r) \<leftarrow> pending. join_work gs)"
    using extensions_work [where rest = gs and r = r and choices = g] by (simp add: le_imp_less_Suc)
qed simp_all

definition empty_row :: row where
  "empty_row = \<lparr>rw_values = [], rw_sources = []\<rparr>"

definition joinBindingRows :: "row list list \<Rightarrow> row list" where
  "joinBindingRows groups = join_loop [(groups, empty_row)]"

subsection \<open>Evaluation\<close>

definition event_at :: "event list \<Rightarrow> int \<Rightarrow> event option" where
  "event_at ctx k = (let i = int (length ctx) + k in
     if 0 \<le> i \<and> i < int (length ctx) then Some (ctx ! nat i) else None)"

definition each_row :: "source_key \<Rightarrow> value_path \<Rightarrow> nat \<times> js_val \<Rightarrow> row list" where
  "each_row key item = (\<lambda>(i, x). case getPath x item of
     None \<Rightarrow> [] | Some v \<Rightarrow> [\<lparr>rw_values = [v], rw_sources = [(key, i)]\<rparr>])"

fun row_texts :: "js_val list \<Rightarrow> string list option" where
  "row_texts [] = Some []"
| "row_texts (JStr t # vs) = map_option (Cons t) (row_texts vs)"
| "row_texts (_ # vs) = None"

fun splice_text :: "string list \<Rightarrow> string list \<Rightarrow> string" where
  "splice_text (v # vs) (part # parts) = v @ part @ splice_text vs parts"
| "splice_text _ _ = []"

text \<open>The text a composite binding makes of its parts' values; \<open>None\<close> when a rebased path is not under the directory.\<close>

definition composed :: "string \<Rightarrow> binding \<Rightarrow> string list \<Rightarrow> string option" where
  "composed cwd b ts = (case b of
     Join_binding _ _ \<Rightarrow> Some (joinPath cwd (ts ! 0) (ts ! 1))
   | Splice_binding _ parts \<Rightarrow> Some (hd parts @ splice_text ts (tl parts))
   | Rebase_binding _ from to \<Rightarrow> rebase (ts ! 0) from to
   | Template_binding _ pre suf \<Rightarrow> Some (pre @ ts ! 0 @ suf)
   | Transform_binding operation _ \<Rightarrow> Some (transform operation (ts ! 0))
   | _ \<Rightarrow> None)"

definition composed_rows :: "string \<Rightarrow> binding \<Rightarrow> row list list \<Rightarrow> row list" where
  "composed_rows cwd b children = concat (map (\<lambda>r. case row_texts (rw_values r) of
     None \<Rightarrow> []
   | Some ts \<Rightarrow> (case composed cwd b ts of None \<Rightarrow> [] | Some t \<Rightarrow> [\<lparr>rw_values = [JStr t], rw_sources = rw_sources r\<rparr>]))
     (joinBindingRows children))"

fun bindingRows :: "string \<Rightarrow> event list \<Rightarrow> binding \<Rightarrow> row list" where
  "bindingRows cwd ctx (Constant_binding v) = [plain_row v]"
| "bindingRows cwd ctx (Event_binding k f p) = (case event_at ctx k of
     None \<Rightarrow> []
   | Some e \<Rightarrow> (case getPath (event_value e f) p of None \<Rightarrow> [] | Some v \<Rightarrow> [plain_row v]))"
| "bindingRows cwd ctx (Each_binding k f p item) = (case event_at ctx k of
     None \<Rightarrow> []
   | Some e \<Rightarrow> (case getPath (event_value e f) p of
       Some (JArr xs) \<Rightarrow> concat (map (each_row (k, f, p) item) (enumerate 0 xs)) | _ \<Rightarrow> []))"
| "bindingRows cwd ctx (Coalesce_binding bs) = hd (filter (\<lambda>rs. rs \<noteq> []) (map (bindingRows cwd ctx) bs) @ [[]])"
| "bindingRows cwd ctx (Near_binding b tolerance) = bindingRows cwd ctx b"
| "bindingRows cwd ctx (Transform_binding operation b) =
     composed_rows cwd (Transform_binding operation b) [bindingRows cwd ctx b]"
| "bindingRows cwd ctx (Template_binding b pre suf) = composed_rows cwd (Template_binding b pre suf) [bindingRows cwd ctx b]"
| "bindingRows cwd ctx (Rebase_binding b from to) = composed_rows cwd (Rebase_binding b from to) [bindingRows cwd ctx b]"
| "bindingRows cwd ctx (Splice_binding bs parts) = composed_rows cwd (Splice_binding bs parts) (map (bindingRows cwd ctx) bs)"
| "bindingRows cwd ctx (Join_binding l r) = composed_rows cwd (Join_binding l r) [bindingRows cwd ctx l, bindingRows cwd ctx r]"

fun unique_from :: "'k list \<Rightarrow> ('a \<Rightarrow> 'k) \<Rightarrow> 'a list \<Rightarrow> 'a list" where
  "unique_from seen f [] = []"
| "unique_from seen f (x # xs) = (if f x \<in> set seen then unique_from seen f xs else x # unique_from (f x # seen) f xs)"

definition uniqueBy :: "('a \<Rightarrow> 'k) \<Rightarrow> 'a list \<Rightarrow> 'a list" where
  "uniqueBy f xs = unique_from [] f xs"

definition bindingValues :: "(real \<Rightarrow> string) \<Rightarrow> string \<Rightarrow> event list \<Rightarrow> binding \<Rightarrow> js_val list" where
  "bindingValues num cwd ctx b = uniqueBy (stableStringify num) (map (\<lambda>r. rw_values r ! 0) (bindingRows cwd ctx b))"

definition bindingValueMatches :: "(real \<Rightarrow> string) \<Rightarrow> binding \<Rightarrow> js_val \<Rightarrow> js_val option \<Rightarrow> bool" where
  "bindingValueMatches num b v target = (case b of
     Near_binding _ tolerance \<Rightarrow> (case (v, target) of (JNum (Fin x), Some (JNum (Fin y))) \<Rightarrow> \<bar>x - y\<bar> \<le> tolerance | _ \<Rightarrow> False)
   | _ \<Rightarrow> (case target of None \<Rightarrow> False | Some t \<Rightarrow> stableEqual num v t))"

type_synonym binding_map = "(value_path, binding \<times> (nat, js_val) jsmap option) jsmap"

definition bindingMatches :: "(real \<Rightarrow> string) \<Rightarrow> string \<Rightarrow> binding_map \<Rightarrow> event list \<Rightarrow> js_val \<Rightarrow> bool" where
  "bindingMatches num cwd bs ctx target \<longleftrightarrow> joinBindingRows (map (\<lambda>(p, b, _).
     filter (\<lambda>r. bindingValueMatches num b (rw_values r ! 0) (getPath target p)) (bindingRows cwd ctx b)) bs) \<noteq> []"

subsection \<open>Proposed inputs\<close>

text \<open>Bindings that pick from a common collection form one unit, connected through their sources.\<close>

record member_rows =
  me_path :: value_path
  me_binding :: binding
  me_counts :: "(nat, js_val) jsmap option"
  me_rows :: "row list"

type_synonym unit_group = "source_key list \<times> member_rows list"

definition member_sources :: "member_rows \<Rightarrow> source_key list" where
  "member_sources m = concat (map (\<lambda>r. map fst (rw_sources r)) (me_rows m))"

definition touches :: "source_key list \<Rightarrow> unit_group \<Rightarrow> bool" where
  "touches sources g \<longleftrightarrow> list_ex (\<lambda>k. k \<in> set (fst g)) sources"

definition add_member :: "member_rows \<Rightarrow> unit_group list \<Rightarrow> unit_group list" where
  "add_member m groups =
     (let sources = member_sources m; near = filter (touches sources) groups in
      if near = [] then groups @ [(sources, [m])]
      else takeWhile (\<lambda>g. \<not> touches sources g) groups @
        [(concat (map fst near) @ sources, concat (map snd near) @ [m])] @
        filter (\<lambda>g. \<not> touches sources g) (dropWhile (\<lambda>g. \<not> touches sources g) groups))"

definition variantCount :: "(nat, js_val) jsmap \<Rightarrow> nat option \<Rightarrow> real" where
  "variantCount counts i = nonNegativeFinite (case i of
     None \<Rightarrow> JUndef | Some i \<Rightarrow> (case map_of counts i of Some v \<Rightarrow> v | None \<Rightarrow> JUndef))"

definition index_of :: "'a list \<Rightarrow> 'a \<Rightarrow> nat option" where
  "index_of xs x = find (\<lambda>i. xs ! i = x) [0..<length xs]"

text \<open>The counts of a unit's choices, from members whose values tell the choices apart, when those agree.\<close>

definition member_evidence ::
  "(real \<Rightarrow> string) \<Rightarrow> string \<Rightarrow> event list \<Rightarrow> nat \<Rightarrow> js_val list list \<Rightarrow> nat \<times> member_rows \<Rightarrow> real list list" where
  "member_evidence num cwd ctx members vals = (\<lambda>(i, m). case me_counts m of
     None \<Rightarrow> []
   | Some counts \<Rightarrow>
       if members > 1 \<and> (case me_binding m of Near_binding _ _ \<Rightarrow> True | _ \<Rightarrow> False) then []
       else let keys = map (\<lambda>v. stableStringify num (v ! i)) vals in
         if \<not> distinct keys then []
         else [map (\<lambda>k. variantCount counts (index_of (map (stableStringify num) (bindingValues num cwd ctx (me_binding m))) k)) keys])"

record binding_unit =
  bu_paths :: "value_path list"
  bu_values :: "js_val list list"
  bu_counts :: "real list option"

definition binding_unit_of :: "(real \<Rightarrow> string) \<Rightarrow> string \<Rightarrow> event list \<Rightarrow> member_rows list \<Rightarrow> binding_unit" where
  "binding_unit_of num cwd ctx members =
     (let vals = uniqueBy (\<lambda>v. stableStringify num (JArr v)) (map rw_values (joinBindingRows (map me_rows members)));
          evidence = concat (map (member_evidence num cwd ctx (length members) vals) (enumerate 0 members)) in
      \<lparr>bu_paths = map me_path members, bu_values = vals,
       bu_counts = (case evidence of [] \<Rightarrow> None | c # cs \<Rightarrow> if list_all (\<lambda>d. d = c) cs then Some c else None)\<rparr>)"

definition member_of_binding :: "string \<Rightarrow> event list \<Rightarrow> value_path \<times> binding \<times> (nat, js_val) jsmap option \<Rightarrow> member_rows" where
  "member_of_binding cwd ctx = (\<lambda>(p, b, counts). \<lparr>me_path = p, me_binding = b, me_counts = counts, me_rows = bindingRows cwd ctx b\<rparr>)"

definition bindingUnits :: "(real \<Rightarrow> string) \<Rightarrow> string \<Rightarrow> binding_map \<Rightarrow> event list \<Rightarrow> binding_unit list" where
  "bindingUnits num cwd bs ctx = map (\<lambda>g. binding_unit_of num cwd ctx (snd g)) (fold add_member (map (member_of_binding cwd ctx) bs) [])"

definition unsafePathSegment :: "segment \<Rightarrow> bool" where
  "unsafePathSegment s \<longleftrightarrow> s \<in> {Key ''__proto__'', Key ''prototype'', Key ''constructor''}"

definition unsafe_unit :: "binding_unit \<Rightarrow> bool" where
  "unsafe_unit u \<longleftrightarrow> list_ex (\<lambda>p. p = [] \<or> list_ex unsafePathSegment p) (bu_paths u)"

fun assign :: "value_path list \<Rightarrow> js_val list \<Rightarrow> js_val \<Rightarrow> js_val" where
  "assign (p # ps) (v # vs) input = assign ps vs (withPath input p v)"
| "assign _ _ input = input"

definition choice_probabilities :: "binding_unit \<Rightarrow> real list" where
  "choice_probabilities u = (let n = length (bu_values u) in case bu_counts u of
     None \<Rightarrow> replicate n (1 / real n)
   | Some counts \<Rightarrow> map (\<lambda>i. (counts ! i + 1 / 2) / (sum_list (map ((!) counts) [0..<n]) + 1 / 2 * real n)) [0..<n])"

definition ranked :: "nat \<Rightarrow> ('a \<times> real) list \<Rightarrow> ('a \<times> real) list" where
  "ranked n xs = take n (sort_key (\<lambda>(x, p). - p) xs)"

definition expand_variants :: "int \<Rightarrow> binding_unit \<Rightarrow> (js_val \<times> real) list \<Rightarrow> (js_val \<times> real) list" where
  "expand_variants limit u variants =
     (let retained = nat (if limit < 0 then int (length variants * length (bu_values u)) + limit else limit);
          expand = (\<lambda>(input, p). map (\<lambda>(v, q). ((input, v), p * q)) (zip (bu_values u) (choice_probabilities u)));
          row = (\<lambda>xs. if length xs \<le> retained then xs else ranked retained xs) in
      map (\<lambda>(x, p). (assign (bu_paths u) (snd x) (fst x), p)) (ranked retained (concat (map (row \<circ> expand) variants))))"

fun apply_units :: "int \<Rightarrow> binding_unit list \<Rightarrow> (js_val \<times> real) list \<Rightarrow> (js_val \<times> real) list" where
  "apply_units limit [] variants = variants"
| "apply_units limit (u # us) variants =
     (if unsafe_unit u \<or> bu_values u = [] then []
      else if length (bu_values u) = 1
      then apply_units limit us (map (\<lambda>(input, p). (assign (bu_paths u) (hd (bu_values u)) input, p)) variants)
      else apply_units limit us (expand_variants limit u variants))"

definition max_variants :: int where "max_variants = 32"

definition applyWeightedBindings ::
  "(real \<Rightarrow> string) \<Rightarrow> string \<Rightarrow> binding_map \<Rightarrow> event list \<Rightarrow> int \<Rightarrow> (js_val \<times> real) list" where
  "applyWeightedBindings num cwd bs ctx limit = apply_units limit (bindingUnits num cwd bs ctx) [(JObj [], 1)]"

definition applyBindingsVariants :: "(real \<Rightarrow> string) \<Rightarrow> string \<Rightarrow> binding_map \<Rightarrow> event list \<Rightarrow> int \<Rightarrow> js_val list" where
  "applyBindingsVariants num cwd bs ctx limit = map fst (applyWeightedBindings num cwd bs ctx limit)"


subsection \<open>Joining rows\<close>

definition row_wf :: "row \<Rightarrow> bool" where
  "row_wf r \<longleftrightarrow> ms_wf (rw_sources r)"

text \<open>One assignment of indices to collections that all rows of a choice follow.\<close>

definition one_pick :: "row list \<Rightarrow> bool" where
  "one_pick rs \<longleftrightarrow> (\<exists>pick. \<forall>r \<in> set rs. \<forall>(k, i) \<in> set (rw_sources r). pick k = Some i)"

fun coherent :: "row \<Rightarrow> row list \<Rightarrow> bool" where
  "coherent r [] = True"
| "coherent r (q # qs) \<longleftrightarrow> \<not> clashes r q \<and> coherent (merge_rows r q) qs"

lemma join_loop_choices:
  "join_loop pending = concat (map (\<lambda>(gs, r). map (foldl merge_rows r) (filter (coherent r) (product_lists gs))) pending)"
proof (induction pending rule: join_loop.induct)
  case (3 g gs r pending)
  have "concat (map (\<lambda>(gs, r). map (foldl merge_rows r) (filter (coherent r) (product_lists gs))) (extensions choices gs r)) =
      map (foldl merge_rows r) (filter (coherent r) (concat (map (\<lambda>x. map (Cons x) (product_lists gs)) choices)))" for choices
    by (induction choices) (simp_all add: extensions_def filter_map comp_def)
  then show ?case by (simp add: 3)
qed simp_all

lemma merge_sources:
  assumes "row_wf r" and "row_wf q"
  shows "row_wf (merge_rows r q)" and "map_of (rw_sources (merge_rows r q)) = map_of (rw_sources r) ++ map_of (rw_sources q)"
proof -
  have "ms_wf (fold (\<lambda>(k, i). ms_set k i) xs m) \<and>
      map_of (fold (\<lambda>(k, i). ms_set k i) xs m) = map_of m ++ map_of xs" if "ms_wf m" "ms_wf xs" for xs m :: "(source_key, nat) jsmap"
    using that
  proof (induction xs arbitrary: m)
    case (Cons x xs)
    obtain k i where x: "x = (k, i)" by (cases x)
    have new: "k \<notin> set (map fst xs)" "ms_wf xs" using Cons.prems(2) by (auto simp: x ms_wf_def)
    have "(map_of m)(k \<mapsto> i) ++ map_of xs = map_of m ++ (map_of xs)(k \<mapsto> i)"
    proof (rule ext)
      fix j show "((map_of m)(k \<mapsto> i) ++ map_of xs) j = (map_of m ++ (map_of xs)(k \<mapsto> i)) j"
        using new(1) by (cases "j = k") (auto simp: map_add_def map_of_eq_None_iff [symmetric] split: option.splits)
    qed
    moreover have "map_of (ms_set k i m) = (map_of m)(k \<mapsto> i)" by (rule ext) simp
    moreover have "map_of (x # xs) = (map_of xs)(k \<mapsto> i)" by (simp add: x)
    moreover have "fold (\<lambda>(k, i). ms_set k i) (x # xs) m = fold (\<lambda>(k, i). ms_set k i) xs (ms_set k i m)" by (simp add: x)
    moreover have "ms_wf (ms_set k i m)" using Cons.prems(1) by simp
    ultimately show ?case using Cons.IH [of "ms_set k i m"] new(2) by presburger
  qed simp
  then show "row_wf (merge_rows r q)" "map_of (rw_sources (merge_rows r q)) = map_of (rw_sources r) ++ map_of (rw_sources q)"
    using assms by (simp_all add: row_wf_def merge_rows_def)
qed

lemma follows_map:
  assumes "row_wf r"
  shows "(\<forall>(k, i) \<in> set (rw_sources r). pick k = Some i) \<longleftrightarrow> map_of (rw_sources r) \<subseteq>\<^sub>m pick"
  using assms by (fastforce simp: map_le_def row_wf_def ms_wf_def dom_def dest: map_of_SomeD intro: map_of_is_SomeI)

lemma clashes_map:
  assumes "row_wf r" and "row_wf q"
  shows "\<not> clashes r q \<longleftrightarrow> (\<exists>pick. map_of (rw_sources r) \<subseteq>\<^sub>m pick \<and> map_of (rw_sources q) \<subseteq>\<^sub>m pick)"
proof
  assume no: "\<not> clashes r q"
  have "map_of (rw_sources r) \<subseteq>\<^sub>m map_of (rw_sources r) ++ map_of (rw_sources q)"
    unfolding map_le_def
  proof
    fix k assume "k \<in> dom (map_of (rw_sources r))"
    then obtain i where i: "map_of (rw_sources r) k = Some i" by blast
    show "map_of (rw_sources r) k = (map_of (rw_sources r) ++ map_of (rw_sources q)) k"
    proof (cases "map_of (rw_sources q) k")
      case None
      then show ?thesis by (simp add: map_add_def)
    next
      case (Some j)
      then have "(k, j) \<in> set (rw_sources q)" by (rule map_of_SomeD)
      with no i have "i = j" by (fastforce simp: clashes_def list_ex_iff)
      then show ?thesis using i Some by (simp add: map_add_def)
    qed
  qed
  then show "\<exists>pick. map_of (rw_sources r) \<subseteq>\<^sub>m pick \<and> map_of (rw_sources q) \<subseteq>\<^sub>m pick" by (meson map_le_map_add)
next
  assume "\<exists>pick. map_of (rw_sources r) \<subseteq>\<^sub>m pick \<and> map_of (rw_sources q) \<subseteq>\<^sub>m pick"
  then obtain pick where p: "map_of (rw_sources r) \<subseteq>\<^sub>m pick" "map_of (rw_sources q) \<subseteq>\<^sub>m pick" by blast
  have "j = i" if "(k, i) \<in> set (rw_sources q)" "map_of (rw_sources r) k = Some j" for k i j
  proof -
    have "map_of (rw_sources q) k = Some i" using that(1) assms(2) by (simp add: row_wf_def ms_wf_def)
    with p that(2) show ?thesis by (metis domI map_le_def option.inject)
  qed
  then show "\<not> clashes r q" by (auto simp: clashes_def list_ex_iff split: option.splits)
qed

lemma compatible_add: "f \<subseteq>\<^sub>m common \<Longrightarrow> g \<subseteq>\<^sub>m common \<Longrightarrow> f ++ g = g ++ f"
proof (rule ext)
  fix k assume "f \<subseteq>\<^sub>m common" "g \<subseteq>\<^sub>m common"
  then show "(f ++ g) k = (g ++ f) k"
    by (cases "f k"; cases "g k") (force simp: map_add_def map_le_def dom_def)+
qed

lemma coherent_pick:
  assumes "row_wf r" and "\<forall>q \<in> set qs. row_wf q"
  shows "coherent r qs \<longleftrightarrow> (\<exists>pick. map_of (rw_sources r) \<subseteq>\<^sub>m pick \<and> (\<forall>q \<in> set qs. map_of (rw_sources q) \<subseteq>\<^sub>m pick))"
  using assms
proof (induction qs arbitrary: r)
  case Nil
  then show ?case by (auto intro: map_le_refl)
next
  case (Cons q qs)
  let ?R = "map_of (rw_sources r)" and ?Q = "map_of (rw_sources q)"
  have wf: "row_wf q" "row_wf (merge_rows r q)" using Cons.prems merge_sources by simp_all
  have IH: "coherent (merge_rows r q) qs \<longleftrightarrow> (\<exists>pick. ?R ++ ?Q \<subseteq>\<^sub>m pick \<and> (\<forall>q \<in> set qs. map_of (rw_sources q) \<subseteq>\<^sub>m pick))"
    using Cons.IH [OF wf(2)] Cons.prems merge_sources(2) [OF Cons.prems(1) wf(1)] by simp
  have both: "?R ++ ?Q \<subseteq>\<^sub>m pick \<longleftrightarrow> ?R \<subseteq>\<^sub>m pick \<and> ?Q \<subseteq>\<^sub>m pick" if free: "\<not> clashes r q" for pick
  proof
    obtain common where c: "?R \<subseteq>\<^sub>m common" "?Q \<subseteq>\<^sub>m common" using free clashes_map [OF Cons.prems(1) wf(1)] by blast
    then have "?R ++ ?Q = ?Q ++ ?R"
      by (rule compatible_add)
    then show "?R ++ ?Q \<subseteq>\<^sub>m pick \<Longrightarrow> ?R \<subseteq>\<^sub>m pick \<and> ?Q \<subseteq>\<^sub>m pick" by (metis map_le_map_add map_le_trans)
  next
    show "?R \<subseteq>\<^sub>m pick \<and> ?Q \<subseteq>\<^sub>m pick \<Longrightarrow> ?R ++ ?Q \<subseteq>\<^sub>m pick" by (simp add: map_add_le_mapI)
  qed
  show ?case
  proof (cases "clashes r q")
    case True
    then show ?thesis using clashes_map [OF Cons.prems(1) wf(1)] by auto
  next
    case False
    then show ?thesis using IH both [OF False] by auto
  qed
qed

lemma joined_choices:
  assumes "\<forall>g \<in> set groups. \<forall>r \<in> set g. row_wf r"
  shows "joinBindingRows groups = map (foldl merge_rows empty_row) (filter one_pick (product_lists groups))"
proof -
  have "coherent empty_row qs = one_pick qs" if "qs \<in> set (product_lists groups)" for qs
  proof -
    have "list_all2 (\<lambda>x g. x \<in> set g) qs groups" using that by (simp add: product_lists_set)
    then have wf: "\<forall>q \<in> set qs. row_wf q" using assms by (metis in_set_conv_nth list_all2_conv_all_nth)
    have "row_wf empty_row" by (simp add: row_wf_def empty_row_def)
    from coherent_pick [OF this wf] show ?thesis
      using wf follows_map by (auto simp: one_pick_def empty_row_def map_le_def)
  qed
  then show ?thesis by (simp add: joinBindingRows_def join_loop_choices cong: filter_cong)
qed

lemma merged_values: "rw_values (foldl merge_rows r qs) = rw_values r @ concat (map rw_values qs)"
  by (induction qs arbitrary: r) (simp_all add: merge_rows_def)

lemma merged_wf: "row_wf r \<Longrightarrow> \<forall>q \<in> set qs. row_wf q \<Longrightarrow> row_wf (foldl merge_rows r qs)"
  by (induction qs arbitrary: r) (simp_all add: merge_sources)

lemma empty_row_wf [simp]: "row_wf empty_row"
  by (simp add: row_wf_def empty_row_def)

lemma joined_row:
  assumes "\<forall>g \<in> set groups. \<forall>r \<in> set g. row_wf r" and "q \<in> set (joinBindingRows groups)"
  shows "\<exists>choice. list_all2 (\<lambda>r g. r \<in> set g) choice groups \<and> one_pick choice \<and>
    rw_values q = concat (map rw_values choice) \<and> row_wf q"
proof -
  obtain choice where c: "choice \<in> set (product_lists groups)" "one_pick choice" "q = foldl merge_rows empty_row choice"
    using assms(2) unfolding joined_choices [OF assms(1)] by auto
  have all: "list_all2 (\<lambda>r g. r \<in> set g) choice groups" using c(1) by (simp add: product_lists_set)
  then have "\<forall>r \<in> set choice. row_wf r" using assms(1) by (metis in_set_conv_nth list_all2_conv_all_nth)
  then have "row_wf q" unfolding c(3) by (intro merged_wf) simp_all
  moreover have "rw_values q = concat (map rw_values choice)" by (simp add: c(3) merged_values empty_row_def)
  ultimately show ?thesis using c(2) all by blast
qed

lemma composed_rows_ok:
  assumes "\<forall>g \<in> set children. \<forall>r \<in> set g. row_wf r" and "r \<in> set (composed_rows cwd b children)"
  shows "row_wf r \<and> length (rw_values r) = 1"
proof -
  obtain q t where "q \<in> set (joinBindingRows children)" "r = \<lparr>rw_values = [JStr t], rw_sources = rw_sources q\<rparr>"
    using assms(2) by (auto simp: composed_rows_def split: option.splits)
  with joined_row [OF assms(1)] show ?thesis by (auto simp: row_wf_def)
qed

lemma bindingRows_ok: "r \<in> set (bindingRows cwd ctx b) \<Longrightarrow> row_wf r \<and> length (rw_values r) = 1"
proof (induction cwd ctx b arbitrary: r rule: bindingRows.induct)
  case (3 cwd ctx k f p item)
  then show ?case by (auto simp: each_row_def row_wf_def ms_wf_def split: option.splits js_val.splits)
next
  case (4 cwd ctx bs)
  show ?case
  proof (cases "filter (\<lambda>rs. rs \<noteq> []) (map (bindingRows cwd ctx) bs)")
    case (Cons rs rest)
    then have "rs \<in> set (filter (\<lambda>rs. rs \<noteq> []) (map (bindingRows cwd ctx) bs))" by (metis list.set_intros(1))
    then obtain b where "b \<in> set bs" "rs = bindingRows cwd ctx b" by auto
    then show ?thesis using 4 Cons by auto
  qed (use 4 in simp)
qed (auto simp: plain_row_def row_wf_def ms_wf_def dest!: composed_rows_ok [rotated] split: option.splits)

lemma unique_from_set: "f ` set xs \<subseteq> set seen \<union> f ` set (unique_from seen f xs) \<and> set (unique_from seen f xs) \<subseteq> set xs"
  by (induction seen f xs rule: unique_from.induct) auto

lemma uniqueBy_set: "set (uniqueBy f xs) \<subseteq> set xs" "f ` set (uniqueBy f xs) = f ` set xs"
  using unique_from_set [of f xs "[]"] by (auto simp: uniqueBy_def)

lemma uniqueBy_empty [simp]: "uniqueBy f xs = [] \<longleftrightarrow> xs = []"
  using uniqueBy_set(2) [of f xs] by (metis empty_set image_is_empty set_empty)

subsection \<open>Writing at paths\<close>

fun apart :: "value_path \<Rightarrow> value_path \<Rightarrow> bool" where
  "apart (Key a # p) (Key b # q) \<longleftrightarrow> a \<noteq> b \<or> apart p q"
| "apart (Index i # p) (Index j # q) \<longleftrightarrow> i \<noteq> j \<or> apart p q"
| "apart _ _ \<longleftrightarrow> False"

fun written :: "js_val \<Rightarrow> value_path \<Rightarrow> js_val \<Rightarrow> bool" where
  "written v [] y \<longleftrightarrow> v = y"
| "written (JArr xs) (Index i # p) y \<longleftrightarrow> i < length xs \<and> written (xs ! i) p y"
| "written (JObj fs) (Key k # p) y \<longleftrightarrow> (case map_of fs k of Some x \<Rightarrow> written x p y | None \<Rightarrow> False)"
| "written _ _ _ \<longleftrightarrow> False"

lemma written_getPath: "written v p y \<Longrightarrow> getPath v p = Some y"
  by (induction v p y rule: written.induct) (auto simp: own_member_def split: option.splits)

lemma set_item_nth:
  "length (set_item xs i x) = max (length xs) (Suc i)" "set_item xs i x ! i = x"
  "j < length xs \<Longrightarrow> j \<noteq> i \<Longrightarrow> set_item xs i x ! j = xs ! j"
  by (auto simp: set_item_def nth_append)

lemma written_withPath: "written (withPath v p x) p x"
  by (induction v p x rule: withPath.induct) (simp_all add: set_item_nth)

lemma written_apart: "apart p q \<Longrightarrow> written v q y \<Longrightarrow> written (withPath v p x) q y"
proof (induction p q arbitrary: v rule: apart.induct)
  case (1 a p b q)
  then show ?case by (cases v) (auto simp: child_of_def own_member_def split: option.splits)
next
  case (2 i p j q)
  from 2(3) obtain xs where v: "v = JArr xs" "j < length xs" "written (xs ! j) q y" by (cases v) auto
  show ?case using 2 v by (cases "i = j") (auto simp: child_of_def set_item_nth)
qed simp_all

lemma apart_sym: "apart p q \<Longrightarrow> apart q p"
  by (induction p q rule: apart.induct) auto

lemma assign_apart: "\<forall>p \<in> set ps. apart p q \<Longrightarrow> written v q y \<Longrightarrow> written (assign ps vs v) q y"
  by (induction ps vs v rule: assign.induct) (auto intro: written_apart)

lemma assign_written:
  assumes "length vs = length ps" and "sorted_wrt apart ps"
  shows "list_all2 (written (assign ps vs v)) ps vs"
  using assms
proof (induction ps vs v rule: assign.induct)
  case (1 p ps x vs v)
  have "written (assign ps vs (withPath v p x)) p x"
    by (rule assign_apart) (use 1 in \<open>auto intro: apart_sym written_withPath\<close>)
  then show ?case using 1 by simp
qed auto

subsection \<open>Units\<close>

definition groups_ok :: "unit_group list \<Rightarrow> bool" where
  "groups_ok gs \<longleftrightarrow> sorted_wrt (\<lambda>g h. set (fst g) \<inter> set (fst h) = {}) gs \<and>
     (\<forall>g \<in> set gs. set (fst g) = (\<Union>m \<in> set (snd g). set (member_sources m)))"

lemma sorted_wrt_pair:
  assumes "sorted_wrt R xs" and "\<And>x y. R x y \<Longrightarrow> R y x" and "x \<in> set xs" and "y \<in> set xs" and "x \<noteq> y"
  shows "R x y"
  using assms by (induction xs) auto

lemma filter_around: "takeWhile (\<lambda>x. \<not> P x) xs @ filter (\<lambda>x. \<not> P x) (dropWhile (\<lambda>x. \<not> P x) xs) = filter (\<lambda>x. \<not> P x) xs"
  by (induction xs) auto

lemma members_split: "mset (concat (map snd gs)) = mset (concat (map snd (filter P gs))) + mset (concat (map snd (filter (\<lambda>g. \<not> P g) gs)))"
  by (induction gs) (auto simp: ac_simps)

lemma touches_iff: "touches sources g \<longleftrightarrow> set sources \<inter> set (fst g) \<noteq> {}"
  by (auto simp: touches_def list_ex_iff)

lemma add_member_ok:
  assumes "groups_ok gs"
  shows "groups_ok (add_member m gs) \<and> mset (concat (map snd (add_member m gs))) = add_mset m (mset (concat (map snd gs)))"
proof -
  let ?s = "member_sources m" and ?R = "\<lambda>g h :: unit_group. set (fst g) \<inter> set (fst h) = {}"
  let ?near = "filter (touches ?s) gs" and ?A = "takeWhile (\<lambda>g. \<not> touches ?s g) gs"
    and ?C = "filter (\<lambda>g. \<not> touches ?s g) (dropWhile (\<lambda>g. \<not> touches ?s g) gs)"
  have pairs: "?R g h" if "g \<in> set gs" "h \<in> set gs" "g \<noteq> h" for g h
  proof (rule sorted_wrt_pair [where R = ?R and xs = gs])
    show "sorted_wrt ?R gs" using assms unfolding groups_ok_def by (rule conjunct1)
  qed (use that in blast)+
  have own: "set (fst g) = (\<Union>m \<in> set (snd g). set (member_sources m))" if "g \<in> set gs" for g
    using assms that by (simp add: groups_ok_def)
  show ?thesis
  proof (cases "?near = []")
    case True
    then have "?R g (?s, [m])" if "g \<in> set gs" for g using that by (auto simp: touches_iff filter_empty_conv)
    moreover have "add_member m gs = gs @ [(?s, [m])]" using True by (simp add: add_member_def Let_def)
    ultimately show ?thesis using assms by (auto simp: groups_ok_def sorted_wrt_append)
  next
    case False
    let ?N = "(concat (map fst ?near) @ ?s, concat (map snd ?near) @ [m])"
    have added: "add_member m gs = ?A @ [?N] @ ?C" using False by (simp add: add_member_def Let_def)
    have rest: "?A @ ?C = filter (\<lambda>g. \<not> touches ?s g) gs" by (rule filter_around)
    then have "set ?A \<union> set ?C = set (filter (\<lambda>g. \<not> touches ?s g) gs)" by (metis set_append)
    then have far: "g \<in> set gs \<and> \<not> touches ?s g" if "g \<in> set ?A \<union> set ?C" for g
      using that by (simp only:) simp
    have apart: "?R g ?N" "?R ?N g" if g: "g \<in> set ?A \<union> set ?C" for g
    proof -
      have "?R g h" if "h \<in> set ?near" for h using pairs [of g h] far [OF g] that by auto
      moreover have "set (fst g) \<inter> set ?s = {}" using far [OF g] touches_iff by blast
      moreover have "set (fst ?N) = (\<Union>h \<in> set ?near. set (fst h)) \<union> set ?s" by simp
      ultimately show "?R g ?N" "?R ?N g" by blast+
    qed
    have "sorted_wrt ?R (?A @ ?C)" unfolding rest using assms by (simp add: groups_ok_def sorted_wrt_filter)
    then have AC: "sorted_wrt ?R ?A" "sorted_wrt ?R ?C" "\<forall>g \<in> set ?A. \<forall>h \<in> set ?C. ?R g h"
      unfolding sorted_wrt_append by blast+
    have "sorted_wrt ?R (?A @ [?N] @ ?C)"
      unfolding sorted_wrt_append using AC apart by (simp only: sorted_wrt.simps set_append list.set Un_iff) blast
    moreover have "set (fst ?N) = (\<Union>m \<in> set (snd ?N). set (member_sources m))"
    proof -
      have "set (fst ?N) = (\<Union>g \<in> set ?near. set (fst g)) \<union> set ?s" by simp
      also have "(\<Union>g \<in> set ?near. set (fst g)) = (\<Union>g \<in> set ?near. \<Union>m \<in> set (snd g). set (member_sources m))"
        by (rule SUP_cong [OF refl]) (rule own, simp)
      finally show ?thesis by (simp add: Un_commute)
    qed
    moreover have "set (fst g) = (\<Union>m \<in> set (snd g). set (member_sources m))" if "g \<in> set ?A \<union> set ?C" for g
      using own far [OF that] by blast
    ultimately have "groups_ok (add_member m gs)" unfolding added groups_ok_def by (simp only: set_append list.set Un_iff) blast
    moreover have "mset (concat (map snd (?A @ ?C))) + mset (concat (map snd ?near)) = mset (concat (map snd gs))"
      unfolding rest by (subst members_split [of gs "touches ?s"]) simp
    then have "mset (concat (map snd (?A @ [?N] @ ?C))) = add_mset m (mset (concat (map snd gs)))" by (auto simp: ac_simps)
    ultimately show ?thesis by (simp add: added)
  qed
qed

lemma add_members_ok:
  "groups_ok gs \<Longrightarrow> groups_ok (fold add_member ms gs) \<and>
    mset (concat (map snd (fold add_member ms gs))) = mset ms + mset (concat (map snd gs))"
  by (induction ms arbitrary: gs) (use add_member_ok in \<open>auto simp: ac_simps\<close>)

lemma unit_values:
  assumes "\<forall>m \<in> set ms. \<forall>r \<in> set (me_rows m). row_wf r \<and> length (rw_values r) = 1"
    and "v \<in> set (bu_values (binding_unit_of num cwd ctx ms))"
  shows "\<exists>choice. list_all2 (\<lambda>r m. r \<in> set (me_rows m)) choice ms \<and> one_pick choice \<and> v = map (\<lambda>r. rw_values r ! 0) choice"
proof -
  obtain q where q: "q \<in> set (joinBindingRows (map me_rows ms))" "v = rw_values q"
    using assms(2) uniqueBy_set(1) by (fastforce simp: binding_unit_of_def Let_def)
  obtain choice where c: "list_all2 (\<lambda>r g. r \<in> set g) choice (map me_rows ms)" "one_pick choice" "rw_values q = concat (map rw_values choice)"
    using joined_row [OF _ q(1)] assms(1) by auto
  have members: "list_all2 (\<lambda>r m. r \<in> set (me_rows m)) choice ms" using c(1) by (simp add: list_all2_map2)
  then have "\<forall>r \<in> set choice. length (rw_values r) = 1" using assms(1) by (metis in_set_conv_nth list_all2_conv_all_nth)
  then have "concat (map rw_values choice) = map (\<lambda>r. rw_values r ! 0) choice" by (induction choice) (auto simp: length_Suc_conv)
  then show ?thesis using c(2,3) q(2) members by auto
qed

definition realized :: "member_rows list \<Rightarrow> js_val \<Rightarrow> bool" where
  "realized ms v \<longleftrightarrow> (\<exists>row pick. \<forall>m \<in> set ms. row (me_path m) \<in> set (me_rows m) \<and>
     written v (me_path m) (rw_values (row (me_path m)) ! 0) \<and> (\<forall>(k, i) \<in> set (rw_sources (row (me_path m))). pick k = Some i))"

lemma realized_more:
  assumes "realized done v" and "list_all2 (\<lambda>r m. r \<in> set (me_rows m)) choice ms" and "one_pick choice"
    and "sorted_wrt apart (map me_path (done @ ms))"
    and "\<forall>d \<in> set done. \<forall>m \<in> set ms. set (member_sources d) \<inter> set (member_sources m) = {}"
  shows "realized (done @ ms) (assign (map me_path ms) (map (\<lambda>r. rw_values r ! 0) choice) v)"
proof -
  let ?ps = "map me_path ms" and ?w = "assign (map me_path ms) (map (\<lambda>r. rw_values r ! 0) choice) v"
  obtain row pick where old: "\<forall>m \<in> set done. row (me_path m) \<in> set (me_rows m) \<and>
      written v (me_path m) (rw_values (row (me_path m)) ! 0) \<and> (\<forall>(k, i) \<in> set (rw_sources (row (me_path m))). pick k = Some i)"
    using assms(1) by (auto simp: realized_def)
  obtain pick' where pick': "\<forall>r \<in> set choice. \<forall>(k, i) \<in> set (rw_sources r). pick' k = Some i" using assms(3) by (auto simp: one_pick_def)
  have len: "length choice = length ms" using assms(2) by (rule list_all2_lengthD)
  have irrefl: "\<not> apart p p" for p by (induction p) (metis apart.simps(1,2,3) segment.exhaust)+
  have sorted: "sorted_wrt apart ?ps" "\<forall>d \<in> set done. \<forall>m \<in> set ms. apart (me_path d) (me_path m)"
    using assms(4) by (auto simp: sorted_wrt_append)
  then have distinct: "distinct ?ps" using irrefl by (induction ms) auto
  define row' where "row' p = (if p \<in> set ?ps then the (map_of (zip ?ps choice) p) else row p)" for p
  define K where "K = (\<Union>m \<in> set ms. set (member_sources m))"
  have chosen: "row' (me_path (ms ! i)) = choice ! i" if "i < length ms" for i
  proof -
    have "map_of (zip ?ps choice) (?ps ! i) = Some (choice ! i)"
      using that len distinct by (intro map_of_zip_nth) auto
    then show ?thesis using that by (simp add: row'_def)
  qed
  have kept: "row' (me_path d) = row (me_path d)" if "d \<in> set done" for d
  proof -
    have "me_path d \<notin> set ?ps" using that sorted(2) irrefl by (metis (no_types, lifting) imageE set_map)
    then show ?thesis by (simp add: row'_def)
  qed
  have new: "list_all2 (written ?w) ?ps (map (\<lambda>r. rw_values r ! 0) choice)"
    by (rule assign_written) (use len sorted in simp_all)
  have "row' (me_path m) \<in> set (me_rows m) \<and> written ?w (me_path m) (rw_values (row' (me_path m)) ! 0) \<and>
      (\<forall>(k, i) \<in> set (rw_sources (row' (me_path m))). (if k \<in> K then pick' k else pick k) = Some i)" if m: "m \<in> set (done @ ms)" for m
  proof (cases "m \<in> set ms")
    case True
    then obtain i where i: "i < length ms" "m = ms ! i" by (metis in_set_conv_nth)
    then have r: "row' (me_path m) = choice ! i" "choice ! i \<in> set (me_rows m)" using chosen assms(2) by (auto simp: list_all2_conv_all_nth)
    have "written ?w (me_path m) (rw_values (choice ! i) ! 0)" using new i len by (simp add: list_all2_conv_all_nth)
    moreover have "k \<in> K" if "(k, j) \<in> set (rw_sources (choice ! i))" for k j
      using that r(2) True by (force simp: K_def member_sources_def)
    moreover have "choice ! i \<in> set choice" using i len by simp
    moreover have "\<forall>(k, j) \<in> set (rw_sources (choice ! i)). pick' k = Some j" using pick' calculation(3) by blast
    ultimately show ?thesis unfolding r(1) using r(2) by auto
  next
    case False
    then have d: "m \<in> set done" using m by simp
    have "written ?w (me_path m) (rw_values (row (me_path m)) ! 0)"
      using old d sorted(2) by (intro assign_apart) (auto intro: apart_sym)
    moreover have "k \<notin> K" if "(k, j) \<in> set (rw_sources (row (me_path m)))" for k j
    proof -
      have "k \<in> set (member_sources m)" using that old d by (force simp: member_sources_def)
      then show ?thesis using assms(5) d by (auto simp: K_def)
    qed
    ultimately show ?thesis using old d kept [OF d] by fastforce
  qed
  then show ?thesis unfolding realized_def by (intro exI [of _ row'] exI [of _ "\<lambda>k. if k \<in> K then pick' k else pick k"]) blast
qed

subsection \<open>Ranked inputs\<close>

lemma ranked_facts:
  assumes "\<forall>x \<in> set xs. 0 < snd x"
  shows "set (ranked n xs) \<subseteq> set xs" "length (ranked n xs) \<le> n" "sorted_wrt (\<lambda>x y. snd y \<le> snd x) (ranked n xs)"
    "sum_list (map snd (ranked n xs)) \<le> sum_list (map snd xs)"
proof -
  let ?s = "sort_key (\<lambda>(x, p). - p) xs"
  show "set (ranked n xs) \<subseteq> set xs" using set_take_subset [of n ?s] by (simp add: ranked_def)
  show "length (ranked n xs) \<le> n" by (simp add: ranked_def)
  have "sorted (map (\<lambda>(x, p). - p) ?s)" by (rule sorted_sort_key)
  then have "sorted_wrt (\<lambda>x y. snd y \<le> snd x) ?s" by (simp add: sorted_wrt_map case_prod_beta)
  then show "sorted_wrt (\<lambda>x y. snd y \<le> snd x) (ranked n xs)" unfolding ranked_def by (rule sorted_wrt_take)
  have "mset (map snd ?s) = mset (map snd xs)" by (simp only: mset_map mset_sort)
  then have "sum_list (map snd ?s) = sum_list (map snd xs)" by (metis sum_mset_sum_list)
  moreover have "sum_list (map snd ?s) = sum_list (map snd (take n ?s)) + sum_list (map snd (drop n ?s))"
    by (metis append_take_drop_id map_append sum_list.append)
  moreover have "0 \<le> sum_list (map snd (drop n ?s))"
    using assms by (intro sum_list_nonneg) (auto dest!: in_set_dropD intro: less_imp_le)
  ultimately show "sum_list (map snd (ranked n xs)) \<le> sum_list (map snd xs)" by (simp add: ranked_def)
qed

definition unit_counts_ok :: "binding_unit \<Rightarrow> bool" where
  "unit_counts_ok u \<longleftrightarrow> (\<forall>c. bu_counts u = Some c \<longrightarrow> length c = length (bu_values u) \<and> (\<forall>x \<in> set c. 0 \<le> x))"

lemma evidence_ok:
  assumes "c \<in> set (member_evidence num cwd ctx n vals im)"
  shows "length c = length vals \<and> (\<forall>x \<in> set c. 0 \<le> x)"
  using assms nonNegativeFinite_nonneg
  by (auto simp: member_evidence_def variantCount_def Let_def split: prod.splits option.splits if_splits)

lemma unit_counts: "unit_counts_ok (binding_unit_of num cwd ctx ms)"
proof -
  define vals where "vals = uniqueBy (\<lambda>v. stableStringify num (JArr v)) (map rw_values (joinBindingRows (map me_rows ms)))"
  define evidence where "evidence = concat (map (member_evidence num cwd ctx (length ms) vals) (enumerate 0 ms))"
  have ok: "length c = length vals \<and> (\<forall>x \<in> set c. 0 \<le> x)" if "c \<in> set evidence" for c
    using that evidence_ok by (fastforce simp: evidence_def)
  show ?thesis
    unfolding unit_counts_ok_def binding_unit_of_def Let_def vals_def [symmetric] evidence_def [symmetric]
    using ok by (cases evidence) auto
qed

lemma probabilities:
  assumes "unit_counts_ok u" and "bu_values u \<noteq> []"
  shows "length (choice_probabilities u) = length (bu_values u)" "\<forall>p \<in> set (choice_probabilities u). 0 < p"
    "sum_list (choice_probabilities u) = 1"
proof -
  let ?n = "length (bu_values u)"
  have n: "0 < ?n" using assms(2) by simp
  show "length (choice_probabilities u) = ?n" by (simp add: choice_probabilities_def Let_def split: option.splits)
  have "sum_list (choice_probabilities u) = 1 \<and> (\<forall>p \<in> set (choice_probabilities u). 0 < p)"
  proof (cases "bu_counts u")
    case None
    then show ?thesis using n by (simp add: choice_probabilities_def Let_def sum_list_replicate)
  next
    case (Some c)
    let ?d = "sum_list (map ((!) c) [0..<?n]) + 1 / 2 * real ?n"
    have c: "\<forall>i < ?n. 0 \<le> c ! i" using assms(1) Some by (simp add: unit_counts_ok_def)
    then have "0 \<le> sum_list (map ((!) c) [0..<?n])" by (intro sum_list_nonneg) auto
    then have d: "0 < ?d" using n by (simp add: add_nonneg_pos)
    have chosen: "choice_probabilities u = map (\<lambda>i. (c ! i + 1 / 2) / ?d) [0..<?n]"
      by (simp add: choice_probabilities_def Let_def Some)
    have "sum_list (map (\<lambda>i. (c ! i + 1 / 2) / ?d) [0..<?n]) = (\<Sum>i \<leftarrow> [0..<?n]. c ! i + 1 / 2) / ?d"
      by (simp only: divide_inverse sum_list_mult_const)
    also have "(\<Sum>i \<leftarrow> [0..<?n]. c ! i + 1 / 2) = ?d" by (simp add: sum_list_addf sum_list_triv comp_def)
    finally have "sum_list (choice_probabilities u) = 1" unfolding chosen using d by simp
    moreover have "\<forall>p \<in> set (choice_probabilities u). 0 < p"
      unfolding chosen using c d by (auto intro!: divide_pos_pos add_nonneg_pos)
    ultimately show ?thesis by blast
  qed
  then show "sum_list (choice_probabilities u) = 1" "\<forall>p \<in> set (choice_probabilities u). 0 < p" by simp_all
qed

definition beam_ok :: "nat \<Rightarrow> ('a \<times> real) list \<Rightarrow> bool" where
  "beam_ok n vs \<longleftrightarrow> length vs \<le> n \<and> sorted_wrt (\<lambda>x y. snd y \<le> snd x) vs \<and> (\<forall>v \<in> set vs. 0 < snd v) \<and> sum_list (map snd vs) \<le> 1"

lemma beam_written:
  assumes "\<And>x. snd (f x) = snd x"
  shows "beam_ok n (map f vs) = beam_ok n vs"
  by (simp add: beam_ok_def sorted_wrt_map assms comp_def)

lemma expand_row:
  assumes "length qs = length vals" and "sum_list qs = 1" and "\<forall>q \<in> set qs. 0 < q" and "(0 :: real) < p"
  shows "(\<forall>x \<in> set (map (\<lambda>(v, q). ((input, v), p * q)) (zip vals qs)). 0 < snd x \<and> fst (fst x) = input \<and> snd (fst x) \<in> set vals)"
    and "sum_list (map snd (map (\<lambda>(v, q). ((input, v), p * q)) (zip vals qs))) = p"
proof -
  show "\<forall>x \<in> set (map (\<lambda>(v, q). ((input, v), p * q)) (zip vals qs)). 0 < snd x \<and> fst (fst x) = input \<and> snd (fst x) \<in> set vals"
    using assms by (auto dest: set_zip_leftD set_zip_rightD)
  have "map snd (map (\<lambda>(v, q). ((input, v), p * q)) (zip vals qs)) = map ((*) p) qs"
  proof -
    have "map snd (map (\<lambda>(v, q). ((input, v), p * q)) (zip vals qs)) = map ((*) p) (map snd (zip vals qs))"
      unfolding map_map by (rule map_cong [OF refl]) auto
    then show ?thesis using assms(1) by simp
  qed
  then show "sum_list (map snd (map (\<lambda>(v, q). ((input, v), p * q)) (zip vals qs))) = p" using assms(2) by (simp add: sum_list_const_mult)
qed

lemma expand_beam:
  assumes "unit_counts_ok u" and "bu_values u \<noteq> []" and "beam_ok n vs" and "0 \<le> limit" and "nat limit \<le> n"
  shows "beam_ok n (expand_variants limit u vs)"
    and "(w, r) \<in> set (expand_variants limit u vs) \<Longrightarrow> \<exists>input p v. (input, p) \<in> set vs \<and> v \<in> set (bu_values u) \<and> w = assign (bu_paths u) v input"
proof -
  let ?k = "nat limit"
  define expand where "expand = (\<lambda>(input :: js_val, p). map (\<lambda>(v, q). ((input, v), p * q)) (zip (bu_values u) (choice_probabilities u)))"
  define row where "row = (\<lambda>xs :: ((js_val \<times> js_val list) \<times> real) list. if length xs \<le> ?k then xs else ranked ?k xs)"
  let ?all = "concat (map (row \<circ> expand) vs)"
  note pr = probabilities [OF assms(1,2)]
  have out: "expand_variants limit u vs = map (\<lambda>(x, p). (assign (bu_paths u) (snd x) (fst x), p)) (ranked ?k ?all)"
    using assms(4) by (simp add: expand_variants_def Let_def expand_def row_def)
  have one: "(\<forall>x \<in> set (row (expand w)). 0 < snd x \<and> fst (fst x) = fst w \<and> snd (fst x) \<in> set (bu_values u)) \<and>
      sum_list (map snd (row (expand w))) \<le> snd w" if w: "w \<in> set vs" for w
  proof -
    have "0 < snd w" using assms(3) w by (simp add: beam_ok_def)
    note e = expand_row [OF pr(1,3,2) this, of "fst w"]
    have x: "expand w = map (\<lambda>(v, q). ((fst w, v), snd w * q)) (zip (bu_values u) (choice_probabilities u))"
      by (simp add: expand_def case_prod_beta)
    have "\<forall>x \<in> set (expand w). 0 < snd x" using e(1) unfolding x by blast
    note k = ranked_facts [OF this, of ?k]
    show ?thesis
    proof (cases "length (expand w) \<le> ?k")
      case True
      then show ?thesis using e unfolding row_def x by simp
    next
      case False
      then have "row (expand w) = ranked ?k (expand w)" by (simp add: row_def)
      then show ?thesis using e k(1,4) unfolding x by auto
    qed
  qed
  have all: "\<forall>x \<in> set ?all. 0 < snd x \<and> (\<exists>w \<in> set vs. fst (fst x) = fst w) \<and> snd (fst x) \<in> set (bu_values u)"
  proof
    fix x assume "x \<in> set ?all"
    then obtain w where "w \<in> set vs" "x \<in> set (row (expand w))" by auto
    then show "0 < snd x \<and> (\<exists>w \<in> set vs. fst (fst x) = fst w) \<and> snd (fst x) \<in> set (bu_values u)" using one by blast
  qed
  then have "\<forall>x \<in> set ?all. 0 < snd x" by blast
  note k = ranked_facts [OF this, of ?k]
  have "sum_list (map snd (concat (map (row \<circ> expand) ws))) \<le> sum_list (map snd ws)" if "set ws \<subseteq> set vs" for ws
    using that
  proof (induction ws)
    case (Cons w ws)
    then show ?case using one [of w] by (auto intro: add_mono)
  qed simp
  then have "sum_list (map snd ?all) \<le> 1" using assms(3) unfolding beam_ok_def by (meson order_refl order_trans)
  then have "beam_ok n (ranked ?k ?all)" using k all assms(5) unfolding beam_ok_def by (meson in_mono order_trans)
  then show "beam_ok n (expand_variants limit u vs)" unfolding out by (subst beam_written) auto
  show "\<exists>input p v. (input, p) \<in> set vs \<and> v \<in> set (bu_values u) \<and> w = assign (bu_paths u) v input"
    if w: "(w, r) \<in> set (expand_variants limit u vs)"
  proof -
    have "\<exists>x \<in> set (ranked ?k ?all). (w, r) = (case x of (x, p) \<Rightarrow> (assign (bu_paths u) (snd x) (fst x), p))"
      using w unfolding out by (simp only: set_map image_iff)
    then obtain x where x: "x \<in> set (ranked ?k ?all)" and e: "(w, r) = (case x of (x, p) \<Rightarrow> (assign (bu_paths u) (snd x) (fst x), p))"
      by (rule bexE)
    obtain input v p where p: "x = ((input, v), p)" by (metis prod.collapse)
    have "x \<in> set ?all" using x k(1) by blast
    then have "(\<exists>w \<in> set vs. fst (fst x) = fst w) \<and> snd (fst x) \<in> set (bu_values u)" using all by blast
    then obtain y where "y \<in> set vs" "input = fst y" "v \<in> set (bu_values u)" unfolding p fst_conv snd_conv by blast
    then show ?thesis using e p by (intro exI [of _ input] exI [of _ "snd y"] exI [of _ v]) simp
  qed
qed

lemma apart_irrefl [simp]: "\<not> apart p p"
  by (induction p) (metis apart.simps(1,2,3) segment.exhaust)+

lemma sorted_wrt_apart: "sorted_wrt apart ps \<longleftrightarrow> distinct ps \<and> (\<forall>p \<in> set ps. \<forall>q \<in> set ps. p \<noteq> q \<longrightarrow> apart p q)"
proof
  assume s: "sorted_wrt apart ps"
  then have "distinct ps" by (induction ps) auto
  with sorted_wrt_pair [OF s] apart_sym show "distinct ps \<and> (\<forall>p \<in> set ps. \<forall>q \<in> set ps. p \<noteq> q \<longrightarrow> apart p q)" by blast
qed (induction ps, auto)

lemma apply_units_sound:
  assumes "groups_ok gs" and "0 \<le> limit" and "nat limit \<le> n"
    and "\<forall>m \<in> set (concat (map snd gs)). \<forall>r \<in> set (me_rows m). row_wf r \<and> length (rw_values r) = 1"
    and "sorted_wrt apart (map me_path (past @ concat (map snd gs)))"
    and "\<forall>d \<in> set past. \<forall>g \<in> set gs. set (member_sources d) \<inter> set (fst g) = {}"
    and "beam_ok n vs" and "\<forall>w \<in> set vs. realized past (fst w)"
  shows "beam_ok n (apply_units limit (map (\<lambda>g. binding_unit_of num cwd ctx (snd g)) gs) vs) \<and>
    (\<forall>w \<in> set (apply_units limit (map (\<lambda>g. binding_unit_of num cwd ctx (snd g)) gs) vs). realized (past @ concat (map snd gs)) (fst w))"
  using assms
proof (induction gs arbitrary: past vs)
  case (Cons g gs)
  let ?u = "binding_unit_of num cwd ctx (snd g)"
  have paths: "bu_paths ?u = map me_path (snd g)" by (simp add: binding_unit_of_def Let_def)
  have groups: "groups_ok gs" "\<forall>h \<in> set gs. set (fst g) \<inter> set (fst h) = {}"
    "set (fst g) = (\<Union>m \<in> set (snd g). set (member_sources m))"
  proof -
    note g = Cons.prems(1) [unfolded groups_ok_def sorted_wrt.simps]
    show "groups_ok gs" unfolding groups_ok_def using conjunct1 [OF g] conjunct2 [OF g] by simp
    show "\<forall>h \<in> set gs. set (fst g) \<inter> set (fst h) = {}" by (rule conjunct1 [OF conjunct1 [OF g]])
    show "set (fst g) = (\<Union>m \<in> set (snd g). set (member_sources m))" by (rule bspec [OF conjunct2 [OF g]]) simp
  qed
  have more: "realized (past @ snd g) (assign (bu_paths ?u) v (fst w))" if "w \<in> set vs" "v \<in> set (bu_values ?u)" for v w
  proof -
    have "\<forall>m \<in> set (snd g). \<forall>r \<in> set (me_rows m). row_wf r \<and> length (rw_values r) = 1"
      using Cons.prems(4) unfolding list.map concat.simps set_append by blast
    from unit_values [OF this that(2)] obtain choice where
      c: "list_all2 (\<lambda>r m. r \<in> set (me_rows m)) choice (snd g)" "one_pick choice" "v = map (\<lambda>r. rw_values r ! 0) choice" by blast
    have "sorted_wrt apart (map me_path (past @ snd g))" using Cons.prems(5) by (simp add: sorted_wrt_append)
    moreover have "\<forall>d \<in> set past. \<forall>m \<in> set (snd g). set (member_sources d) \<inter> set (member_sources m) = {}"
      using Cons.prems(6) groups(3) by fastforce
    ultimately show ?thesis unfolding paths c(3) using Cons.prems(8) that(1) c(1,2) by (intro realized_more) simp_all
  qed
  have rest: "beam_ok n (apply_units limit (map (\<lambda>g. binding_unit_of num cwd ctx (snd g)) gs) us) \<and>
      (\<forall>w \<in> set (apply_units limit (map (\<lambda>g. binding_unit_of num cwd ctx (snd g)) gs) us). realized (past @ concat (map snd (g # gs))) (fst w))"
    if "beam_ok n us" "\<forall>w \<in> set us. realized (past @ snd g) (fst w)" for us
  proof -
    have "\<forall>d \<in> set (past @ snd g). \<forall>h \<in> set gs. set (member_sources d) \<inter> set (fst h) = {}"
    proof (intro ballI)
      fix d h assume "d \<in> set (past @ snd g)" "h \<in> set gs"
      then show "set (member_sources d) \<inter> set (fst h) = {}" using Cons.prems(6) groups(2,3) by fastforce
    qed
    moreover have "\<forall>m \<in> set (concat (map snd gs)). \<forall>r \<in> set (me_rows m). row_wf r \<and> length (rw_values r) = 1"
      using Cons.prems(4) unfolding list.map concat.simps set_append by blast
    moreover have "sorted_wrt apart (map me_path ((past @ snd g) @ concat (map snd gs)))" using Cons.prems(5) by simp
    ultimately show ?thesis using Cons.IH [OF groups(1) Cons.prems(2,3) _ _ _ that] by (simp add: comp_def)
  qed
  show ?case
  proof (cases "unsafe_unit ?u \<or> bu_values ?u = []")
    case True
    then have none: "apply_units limit (map (\<lambda>g. binding_unit_of num cwd ctx (snd g)) (g # gs)) vs = []" by auto
    show ?thesis unfolding none by (simp add: beam_ok_def)
  next
    case ok: False
    show ?thesis
    proof (cases "length (bu_values ?u) = 1")
      case True
      let ?us = "map (\<lambda>(input, p). (assign (bu_paths ?u) (hd (bu_values ?u)) input, p)) vs"
      have "hd (bu_values ?u) \<in> set (bu_values ?u)" using ok by (intro hd_in_set) simp
      then have "\<forall>w \<in> set ?us. realized (past @ snd g) (fst w)" using more by fastforce
      moreover have "beam_ok n ?us" by (subst beam_written) (use Cons.prems(7) in auto)
      ultimately show ?thesis using rest [of ?us] ok True by simp
    next
      case False
      let ?us = "expand_variants limit ?u vs"
      have "bu_values ?u \<noteq> []" using ok by blast
      note e = expand_beam [OF unit_counts this Cons.prems(7,2,3)]
      have "\<forall>w \<in> set ?us. realized (past @ snd g) (fst w)" using e(2) more by fastforce
      then show ?thesis using rest [of ?us] e(1) ok False by simp
    qed
  qed
qed simp

text \<open>C9.
  The inputs that bindings propose in a context are ranked by probability, at most as many as the limit, with
  positive probabilities that sum to at most one.  Every one of them is realized by one row per binding: the rows
  are evaluations of the bindings in that context, rows from a common collection pick the same item of it, and the
  input holds each row's value at the binding's target path.\<close>

theorem proposed_inputs_are_realized:
  assumes "sorted_wrt apart (map fst bs)" and "1 \<le> limit"
  shows "length (applyWeightedBindings num cwd bs ctx limit) \<le> nat limit \<and>
    sorted_wrt (\<lambda>x y. snd y \<le> snd x) (applyWeightedBindings num cwd bs ctx limit) \<and>
    (\<forall>x \<in> set (applyWeightedBindings num cwd bs ctx limit). 0 < snd x) \<and>
    sum_list (map snd (applyWeightedBindings num cwd bs ctx limit)) \<le> 1 \<and>
    (\<forall>x \<in> set (applyWeightedBindings num cwd bs ctx limit). \<exists>row. one_pick (map (row \<circ> fst) bs) \<and>
      (\<forall>(p, b, counts) \<in> set bs. row p \<in> set (bindingRows cwd ctx b) \<and> getPath (fst x) p = Some (rw_values (row p) ! 0)))"
proof -
  let ?ms = "map (member_of_binding cwd ctx) bs" and ?R = "applyWeightedBindings num cwd bs ctx limit"
  let ?gs = "fold add_member ?ms []"
  have "groups_ok []" by (simp add: groups_ok_def)
  from add_members_ok [OF this, of ?ms] have gs: "groups_ok ?gs" "mset (concat (map snd ?gs)) = mset ?ms" by simp_all
  have ids: "map me_path ?ms = map fst bs" by (auto simp: member_of_binding_def)
  have "set (concat (map snd ?gs)) = set ?ms" using gs(2) by (metis set_mset_mset)
  then have rows: "\<forall>m \<in> set (concat (map snd ?gs)). \<forall>r \<in> set (me_rows m). row_wf r \<and> length (rw_values r) = 1"
    using bindingRows_ok by (fastforce simp: member_of_binding_def)
  have "mset (map me_path (concat (map snd ?gs))) = mset (map fst bs)" using gs(2) ids by (metis mset_map)
  have apart: "sorted_wrt apart (map me_path (concat (map snd ?gs)))"
    using assms(1) \<open>mset (map me_path (concat (map snd ?gs))) = mset (map fst bs)\<close>
    unfolding sorted_wrt_apart by (metis mset_eq_imp_distinct_iff mset_eq_setD)
  have "beam_ok (nat limit) [(JObj [], 1)]" using assms(2) by (simp add: beam_ok_def)
  moreover have "realized [] v" for v by (simp add: realized_def)
  ultimately have "beam_ok (nat limit) ?R \<and> (\<forall>w \<in> set ?R. realized (concat (map snd ?gs)) (fst w))"
    using apply_units_sound [OF gs(1) _ order_refl rows, of limit "[]" "[(JObj [], 1)]" num cwd ctx] assms(2) apart
    by (simp add: applyWeightedBindings_def bindingUnits_def)
  moreover have "\<exists>row. one_pick (map (row \<circ> fst) bs) \<and>
      (\<forall>(p, b, counts) \<in> set bs. row p \<in> set (bindingRows cwd ctx b) \<and> getPath v p = Some (rw_values (row p) ! 0))"
    if v: "realized (concat (map snd ?gs)) v" for v
  proof -
    obtain row pick where r: "\<forall>m \<in> set ?ms. row (me_path m) \<in> set (me_rows m) \<and>
        written v (me_path m) (rw_values (row (me_path m)) ! 0) \<and> (\<forall>(k, i) \<in> set (rw_sources (row (me_path m))). pick k = Some i)"
      using v \<open>set (concat (map snd ?gs)) = set ?ms\<close> unfolding realized_def by metis
    have "row p \<in> set (bindingRows cwd ctx b) \<and> written v p (rw_values (row p) ! 0) \<and> (\<forall>(k, i) \<in> set (rw_sources (row p)). pick k = Some i)"
      if "(p, b, counts) \<in> set bs" for p b counts
    proof -
      have "member_of_binding cwd ctx (p, b, counts) \<in> set ?ms" using that by simp
      from bspec [OF r this] show ?thesis by (simp add: member_of_binding_def)
    qed
    then have "\<forall>(p, b, counts) \<in> set bs. row p \<in> set (bindingRows cwd ctx b) \<and> getPath v p = Some (rw_values (row p) ! 0)"
      and "\<forall>r \<in> set (map (row \<circ> fst) bs). \<forall>(k, i) \<in> set (rw_sources r). pick k = Some i"
      using written_getPath by fastforce+
    then show ?thesis unfolding one_pick_def by blast
  qed
  ultimately show ?thesis unfolding beam_ok_def by blast
qed

definition sample_read :: event where
  "sample_read = \<lparr>ev_session = ''s'', ev_turn = ''t'', ev_tool = ''grep'', ev_input = JUndef, ev_success = True, ev_output = JUndef,
    ev_paths = JUndef, ev_locations = JArr [JObj [(''path'', JStr ''a.ts''), (''line'', jnum 7)], JObj [(''path'', JStr ''b.ts''), (''line'', jnum 9)]],
    ev_errorClass = None, ev_operation = None, ev_schemaHash = None, ev_learnTarget = True, ev_sequence = 0, ev_batch = None\<rparr>"

definition sample_bindings :: binding_map where
  "sample_bindings = [([Key ''path''], Each_binding (-1) Locations_field [] [Key ''path''], None),
    ([Key ''offset''], Each_binding (-1) Locations_field [] [Key ''line''], None)]"

theorem proposed_inputs_are_realized_witness:
  "map fst (applyWeightedBindings (\<lambda>x. if x < 8 then ''7'' else ''9'') ''/w'' sample_bindings [sample_read] 32) =
     [JObj [(''path'', JStr ''a.ts''), (''offset'', jnum 7)], JObj [(''path'', JStr ''b.ts''), (''offset'', jnum 9)]] \<and>
   sum_list (map snd (applyWeightedBindings (\<lambda>x. if x < 8 then ''7'' else ''9'') ''/w'' sample_bindings [sample_read] 32)) \<le> 1"
  (is "?inputs \<and> ?total")
proof
  show ?inputs by code_simp
  have "sorted_wrt apart (map fst sample_bindings)" by code_simp
  then show ?total using proposed_inputs_are_realized by simp
qed

end
