(* ===== verification/Pattern_Inference.thy ===== *)
theory Pattern_Inference
  imports Pattern_Bindings Json_Text "HOL-Library.Sublist"
begin

text \<open>
  Inference of bindings from one observed action and its context (\<open>PatternBindingAnalysis\<close> of
  \<open>src/pattern-aware.ts\<close>): the candidates that could have produced a value, from the same value elsewhere, rewritten and
  joined paths, templates, splices of several sources and lines nearby.

  \<^item> A generator is the list of what it yields.  Candidate sources are bounded lists, an entry is identified by its
    position.
  \<^item> Candidates are told apart by their structure; regular expressions are written out over code units below 256.
\<close>

subsection \<open>Names of fields and words\<close>

definition lower :: "string \<Rightarrow> string" where
  "lower = map (\<lambda>c. let n = (of_char c :: nat) in if 65 \<le> n \<and> n \<le> 90 then char_of (n + 32) else c)"

definition segment_text :: "segment \<Rightarrow> string" where
  "segment_text s = (case s of Key k \<Rightarrow> k | Index i \<Rightarrow> nat_text i)"

definition last_name :: "value_path \<Rightarrow> string" where
  "last_name p = (if p = [] then [] else segment_text (last p))"

definition isPathField :: "string \<Rightarrow> bool" where
  "isPathField key \<longleftrightarrow> (let n = lower key in suffix ''path'' n \<or> suffix ''paths'' n \<or>
     n \<in> {''file'', ''files'', ''filename'', ''directory'', ''cwd'', ''root'', ''uri''})"

definition isLineField :: "value_path \<Rightarrow> bool" where
  "isLineField p \<longleftrightarrow> p = [Key ''offset'']"

definition separator :: "char \<Rightarrow> bool" where
  "separator c \<longleftrightarrow> c = slash_char \<or> c = CHR 0x5C"

definition isPathSource :: "event_field \<Rightarrow> value_path \<Rightarrow> string \<Rightarrow> bool" where
  "isPathSource f p v \<longleftrightarrow> f = Paths_field \<or>
     v \<noteq> [] \<and> \<not> list_ex (\<lambda>c. c \<in> {CHR 0x0D, CHR 0x0A, CHR 0x22, CHR 0x27, CHR ''|'', CHR ''&'', CHR ''<'', CHR ''>''}) v \<and>
     (let key = lower (last_name p) in
      \<not> (f = Output_field \<and> key \<in> {''content'', ''diff'', ''message'', ''output'', ''preview'', ''stderr'', ''stdout'', ''text''}) \<and>
      (sublist ''path'' key \<or> sublist ''file'' key \<or> sublist ''dir'' key \<or> key \<in> {''cwd'', ''root'', ''name''} \<or> list_ex separator v))"

definition requiresProvenance :: "value_path \<Rightarrow> js_val \<Rightarrow> bool" where
  "requiresProvenance p v \<longleftrightarrow>
     (let key = filter (\<lambda>c. c \<noteq> CHR ''_'') (lower (last_name p)) in
      isPathField key \<or> (case v of JStr _ \<Rightarrow> list_ex (\<lambda>w. suffix w key)
        [''command'', ''content'', ''newstring'', ''oldstring'', ''patch'', ''pattern'', ''query'', ''replacement'', ''script'', ''text'', ''url''] | _ \<Rightarrow> False))"

definition index_from :: "string \<Rightarrow> string \<Rightarrow> nat \<Rightarrow> nat option" where
  "index_from text needle start = find (\<lambda>i. prefix needle (drop i text)) [start..<Suc (length text)]"

definition letter :: "char \<Rightarrow> bool" where
  "letter c \<longleftrightarrow> (let n = (of_char c :: nat) in 65 \<le> n \<and> n \<le> 90 \<or> 97 \<le> n \<and> n \<le> 122)"

definition word_char :: "char \<Rightarrow> bool" where
  "word_char c \<longleftrightarrow> letter c \<or> is_digit c \<or> c = CHR ''_''"

fun split_on :: "(char \<Rightarrow> bool) \<Rightarrow> string \<Rightarrow> string list" where
  "split_on P [] = [[]]"
| "split_on P (c # cs) = (if P c then [] # split_on P cs
     else case split_on P cs of [] \<Rightarrow> [[c]] | s # ss \<Rightarrow> (c # s) # ss)"

definition word_break :: "char \<Rightarrow> bool" where
  "word_break c \<longleftrightarrow> js_space c \<or> c \<in> {CHR 0x22, CHR 0x27, CHR 0x60, CHR ''='', CHR '','', CHR '';'', CHR ''('', CHR '')'', CHR ''<'', CHR ''>'', CHR ''|'', CHR ''&''}"

text \<open>A name in a directory with an extension; pieces between adjoining breaks are empty and no such names.\<close>

definition names_file :: "string \<Rightarrow> bool" where
  "names_file token \<longleftrightarrow> slash_char \<in> set token \<and>
     (let base = last (split_slash token) in
      list_ex (\<lambda>i. base ! i = CHR ''.'' \<and> (case drop (Suc i) base of [] \<Rightarrow> False | c # cs \<Rightarrow> letter c \<and> list_all word_char cs)) [0..<length base])"

definition max_path_sources :: nat where "max_path_sources = 24"

definition pathTokens :: "string \<Rightarrow> string list" where
  "pathTokens text = take max_path_sources (uniq (filter (\<lambda>t. names_file t \<and> normalizePath t = t) (split_on word_break text)))"

subsection \<open>Candidate bindings\<close>

definition path_item :: "value_path \<Rightarrow> (value_path \<times> value_path) option" where
  "path_item p = (case dropWhile (\<lambda>s. case s of Key _ \<Rightarrow> True | Index _ \<Rightarrow> False) p of
     [] \<Rightarrow> None | _ # item \<Rightarrow> Some (takeWhile (\<lambda>s. case s of Key _ \<Rightarrow> True | Index _ \<Rightarrow> False) p, item))"

definition collectionBinding :: "int \<Rightarrow> event_field \<Rightarrow> value_path \<Rightarrow> binding option" where
  "collectionBinding k f p = map_option (\<lambda>(path, item). Each_binding k f path item) (path_item p)"

definition reverseContextFields :: "event list \<Rightarrow> (int \<times> event_field \<times> js_val) list" where
  "reverseContextFields ctx = concat (map (\<lambda>i. let e = ctx ! i; k = int i - int (length ctx) in
     [(k, Input_field, ev_input e), (k, Output_field, ev_output e)] @
     (if ev_locations e = JUndef then [] else [(k, Locations_field, ev_locations e)]) @
     [(k, Paths_field, ev_paths e)]) (rev [0..<length ctx]))"

definition near_tolerance :: real where "near_tolerance = 150"

definition path_transforms :: "path_transform list" where
  "path_transforms = [Dirname, Basename, Normalize_path, Stem, Strip_extension]"

type_synonym text_source = "binding \<times> string"

text \<open>Whether a value may serve as the source of a target that is a path.\<close>

definition path_allows :: "bool \<Rightarrow> js_val \<Rightarrow> event_field \<Rightarrow> value_path \<Rightarrow> bool" where
  "path_allows targetIsPath target f p \<longleftrightarrow> (case target of JStr t \<Rightarrow> targetIsPath \<longrightarrow> isPathSource f p t | _ \<Rightarrow> True)"

definition indexed :: "(real \<Rightarrow> string) \<Rightarrow> js_val \<Rightarrow> js_val \<Rightarrow> value_path list" where
  "indexed num v target = map fst (filter (\<lambda>(p, l). stableStringify num l = stableStringify num target) (leaves v))"

definition collections :: "(real \<Rightarrow> string) \<Rightarrow> bool \<Rightarrow> js_val \<Rightarrow> int \<times> event_field \<times> js_val \<Rightarrow> binding list" where
  "collections num targetIsPath target = (\<lambda>(k, f, v). concat (map (\<lambda>p. case path_item p of
       None \<Rightarrow> []
     | Some (path, item) \<Rightarrow> if path_allows targetIsPath target f (path @ item) then [Each_binding k f path item] else [])
     (indexed num v target)))"

text \<open>Templates whose literal text surrounds a source; a rewritten path renames only the file's tail.\<close>

definition templates :: "bool \<Rightarrow> string \<Rightarrow> text_source list \<Rightarrow> binding list" where
  "templates targetIsPath t sources = concat (map (\<lambda>(b, v). case (if length v < 3 then None else index_from t v 0) of
     None \<Rightarrow> []
   | Some offset \<Rightarrow> let tail = drop (offset + length v) t in
       if targetIsPath \<and> (list_ex separator tail \<or>
         0 < offset \<and> (case b of Transform_binding Strip_extension _ \<Rightarrow> True | _ \<Rightarrow> False)) then []
       else [Template_binding b (take offset t) tail]) sources)"

definition push_bounded :: "text_source list \<Rightarrow> text_source list \<Rightarrow> text_source list" where
  "push_bounded new xs = xs @ take (max_path_sources - length xs) new"

text \<open>The path sources and the splice sources gathered so far.\<close>

type_synonym gathered = "text_source list \<times> text_source list"

definition path_candidates ::
  "bool \<Rightarrow> string list \<Rightarrow> binding \<Rightarrow> string \<Rightarrow> string \<Rightarrow> gathered \<Rightarrow> binding list \<times> text_source list \<times> gathered" where
  "path_candidates targetIsPath tokens direct s t = (\<lambda>(paths, splices).
     (let moved = (if targetIsPath then (case rebaseBetween s t of None \<Rightarrow> [] | Some (from, to) \<Rightarrow> [Rebase_binding direct from to]) else []);
          rebased = concat (map (\<lambda>token. case rebaseBetween s token of
            None \<Rightarrow> [] | Some (from, to) \<Rightarrow> [(Rebase_binding direct from to, token)]) tokens);
          renamed = (transform Strip_extension s \<noteq> s);
          rewrite = (\<lambda>operation. operation \<in> {Stem, Strip_extension});
          values = map (\<lambda>operation. (operation, Transform_binding operation direct, transform operation s)) path_transforms in
      (moved @ map (fst \<circ> snd) (filter (\<lambda>(operation, b, v). v = t) values),
       rebased @ map snd (filter (\<lambda>(operation, b, v).
         if targetIsPath then rewrite operation \<and> renamed else operation \<notin> {Basename, Stem}) values),
       push_bounded ((direct, s) # map snd (filter (\<lambda>(operation, b, v). \<not> rewrite operation) values)) paths,
       push_bounded rebased splices)))"

definition near_candidate :: "bool \<Rightarrow> int \<Rightarrow> event_field \<Rightarrow> value_path \<Rightarrow> js_val \<Rightarrow> js_val \<Rightarrow> binding list" where
  "near_candidate targetIsLine k f p source target = (case (source, target) of
     (JNum (Fin x), JNum (Fin y)) \<Rightarrow>
       if targetIsLine \<and> f = Locations_field \<and> p \<noteq> [] \<and> last p = Key ''line'' \<and> x \<noteq> y \<and> \<bar>x - y\<bar> \<le> near_tolerance
       then (case collectionBinding k f p of None \<Rightarrow> [] | Some b \<Rightarrow> [Near_binding b near_tolerance]) else []
   | _ \<Rightarrow> [])"

definition leaf_candidates ::
  "(real \<Rightarrow> string) \<Rightarrow> bool \<Rightarrow> bool \<Rightarrow> js_val \<Rightarrow> string list \<Rightarrow> int \<Rightarrow> event_field \<Rightarrow> value_path \<times> js_val \<Rightarrow> gathered \<Rightarrow>
     binding list \<times> gathered" where
  "leaf_candidates num targetIsPath targetIsLine target tokens k f = (\<lambda>(p, source) g.
     (let direct = Event_binding k f p;
          pathSource = (case source of JStr s \<Rightarrow> isPathSource f p s | _ \<Rightarrow> False);
          same = (if stableEqual num source target \<and> (\<not> targetIsPath \<or> pathSource) then [direct] else []);
          near = near_candidate targetIsLine k f p source target in
      case (source, target) of
        (JStr s, JStr t) \<Rightarrow>
          let own = (if targetIsPath then [] else [(direct, s)]);
              (found, sources, (paths, splices)) = (if pathSource then path_candidates targetIsPath tokens direct s t g else ([], [], g));
              splices = (if \<not> targetIsPath \<and> 3 \<le> length s \<and> sublist s t then push_bounded [(direct, s)] splices else splices) in
          (same @ near @ found @ templates targetIsPath t (own @ sources), (paths, splices))
      | _ \<Rightarrow> (same @ near, g)))"

fun gather :: "('a \<Rightarrow> gathered \<Rightarrow> binding list \<times> gathered) \<Rightarrow> 'a list \<Rightarrow> gathered \<Rightarrow> binding list \<times> gathered" where
  "gather step [] g = ([], g)"
| "gather step (x # xs) g = (let (bs, g) = step x g; (cs, g) = gather step xs g in (bs @ cs, g))"

definition field_candidates ::
  "(real \<Rightarrow> string) \<Rightarrow> bool \<Rightarrow> bool \<Rightarrow> bool \<Rightarrow> js_val \<Rightarrow> string list \<Rightarrow> int \<times> event_field \<times> js_val \<Rightarrow> gathered \<Rightarrow> binding list \<times> gathered" where
  "field_candidates num composites targetIsPath targetIsLine target tokens = (\<lambda>(k, f, v) g.
     (let items = collections num targetIsPath target (k, f, v);
          (own, g) = (if composites then gather (leaf_candidates num targetIsPath targetIsLine target tokens k f) (leaves v) g
            else (map (Event_binding k f) (filter (path_allows targetIsPath target f) (indexed num v target)), g)) in
      ((if f = Locations_field then items @ own else own @ items), g)))"

text \<open>Splices of two to four sources found one after another; a longer chain takes the source found soonest.\<close>

definition splice_of :: "string \<Rightarrow> (nat \<times> nat) list \<Rightarrow> text_source list \<Rightarrow> binding" where
  "splice_of t chain sources =
     Splice_binding (map (\<lambda>(i, pos). fst (sources ! i)) chain)
       (take (snd (hd chain)) t # map (\<lambda>j. let (i, pos) = chain ! j; from = pos + length (snd (sources ! i)) in
          take ((if Suc j < length chain then snd (chain ! Suc j) else length t) - from) (drop from t)) [0..<length chain])"

definition following :: "string \<Rightarrow> (nat \<times> nat) list \<Rightarrow> text_source list \<Rightarrow> (nat \<times> nat) option" where
  "following t chain sources =
     (let stop = snd (last chain) + length (snd (sources ! fst (last chain))) in
      fold (\<lambda>i found. if i \<in> fst ` set chain then found
        else (case index_from t (snd (sources ! i)) stop of
          None \<Rightarrow> found
        | Some offset \<Rightarrow> (case found of Some (j, best) \<Rightarrow> if offset < best then Some (i, offset) else found | None \<Rightarrow> Some (i, offset))))
        [0..<length sources] None)"

fun chain_splices :: "nat \<Rightarrow> string \<Rightarrow> (nat \<times> nat) list \<Rightarrow> text_source list \<Rightarrow> binding list" where
  "chain_splices 0 t chain sources = [splice_of t chain sources]"
| "chain_splices (Suc n) t chain sources = splice_of t chain sources # (case following t chain sources of
     None \<Rightarrow> [] | Some x \<Rightarrow> chain_splices n t (chain @ [x]) sources)"

definition splices :: "string \<Rightarrow> text_source list \<Rightarrow> binding list" where
  "splices t sources = concat (map (\<lambda>i. concat (map (\<lambda>j.
     case index_from t (snd (sources ! i)) 0 of
       None \<Rightarrow> []
     | Some pos \<Rightarrow> (case index_from t (snd (sources ! j)) (pos + length (snd (sources ! i))) of
         None \<Rightarrow> []
       | Some later \<Rightarrow> if i = j then [] else chain_splices 2 t [(i, pos), (j, later)] sources)) [0..<length sources])) [0..<length sources])"

definition joins :: "string \<Rightarrow> string \<Rightarrow> text_source list \<Rightarrow> binding list" where
  "joins cwd t sources = concat (map (\<lambda>i. concat (map (\<lambda>j.
     if i \<noteq> j \<and> joinPath cwd (snd (sources ! i)) (snd (sources ! j)) = normalizePath t
     then [Join_binding (fst (sources ! i)) (fst (sources ! j))] else []) [0..<length sources])) [0..<length sources])"

definition inferCandidateBindings ::
  "(real \<Rightarrow> string) \<Rightarrow> string \<Rightarrow> event list \<Rightarrow> js_val \<Rightarrow> bool \<Rightarrow> bool \<Rightarrow> bool \<Rightarrow> binding list" where
  "inferCandidateBindings num cwd ctx target composites targetIsPath targetIsLine =
     (let tokens = (case target of JStr t \<Rightarrow> if composites \<and> \<not> targetIsPath then pathTokens t else [] | _ \<Rightarrow> []);
          (bs, (paths, spliced)) = gather (field_candidates num composites targetIsPath targetIsLine target tokens)
            (reverseContextFields ctx) ([], []) in
      bs @ (case target of JStr t \<Rightarrow> splices t spliced @ (if composites \<and> targetIsPath then joins cwd t paths else []) | _ \<Rightarrow> []))"


subsection \<open>What a binding gives\<close>

text \<open>A binding gives a text when one of its rows holds it and picks from no collection: such rows never clash.\<close>

definition is_near :: "binding \<Rightarrow> bool" where
  "is_near b \<longleftrightarrow> (case b of Near_binding _ _ \<Rightarrow> True | _ \<Rightarrow> False)"

definition gives :: "string \<Rightarrow> event list \<Rightarrow> binding \<Rightarrow> string \<Rightarrow> bool" where
  "gives cwd ctx b t \<longleftrightarrow> \<not> is_near b \<and> plain_row (JStr t) \<in> set (bindingRows cwd ctx b)"

lemma row_texts_strings [simp]: "row_texts (map JStr ts) = Some ts"
  by (induction ts) simp_all

lemma merged_sources: "\<forall>q \<in> set qs. rw_sources q = [] \<Longrightarrow> rw_sources (foldl merge_rows r qs) = rw_sources r"
  by (induction qs arbitrary: r) (simp_all add: merge_rows_def)

lemma composed_given:
  assumes "list_all2 (gives cwd ctx) bs ts" and "composed cwd c ts = Some t"
  shows "plain_row (JStr t) \<in> set (composed_rows cwd c (map (bindingRows cwd ctx) bs))"
proof -
  let ?rows = "map (\<lambda>t. plain_row (JStr t)) ts"
  have wf: "\<forall>g \<in> set (map (bindingRows cwd ctx) bs). \<forall>r \<in> set g. row_wf r" using bindingRows_ok by auto
  have "?rows \<in> set (product_lists (map (bindingRows cwd ctx) bs))"
    using assms(1) by (auto simp: product_lists_set list_all2_conv_all_nth gives_def)
  moreover have "one_pick ?rows" by (auto simp: one_pick_def plain_row_def)
  ultimately have "foldl merge_rows empty_row ?rows \<in> set (joinBindingRows (map (bindingRows cwd ctx) bs))"
    unfolding joined_choices [OF wf] by auto
  moreover have "rw_values (foldl merge_rows empty_row ?rows) = map JStr ts"
    by (simp add: merged_values empty_row_def plain_row_def comp_def)
  moreover have "rw_sources (foldl merge_rows empty_row ?rows) = []"
    by (subst merged_sources) (auto simp: plain_row_def empty_row_def)
  ultimately show ?thesis using assms(2) by (force simp: composed_rows_def plain_row_def)
qed

lemma gives_transform: "gives cwd ctx b s \<Longrightarrow> gives cwd ctx (Transform_binding operation b) (transform operation s)"
  using composed_given [of cwd ctx "[b]" "[s]" "Transform_binding operation b"] by (simp add: gives_def is_near_def composed_def)

lemma gives_template: "gives cwd ctx b s \<Longrightarrow> gives cwd ctx (Template_binding b pre suf) (pre @ s @ suf)"
  using composed_given [of cwd ctx "[b]" "[s]" "Template_binding b pre suf"] by (simp add: gives_def is_near_def composed_def)

lemma gives_rebase: "gives cwd ctx b s \<Longrightarrow> rebase s from to = Some t \<Longrightarrow> gives cwd ctx (Rebase_binding b from to) t"
  using composed_given [of cwd ctx "[b]" "[s]" "Rebase_binding b from to"] by (simp add: gives_def is_near_def composed_def)

lemma gives_join: "gives cwd ctx l s \<Longrightarrow> gives cwd ctx r t \<Longrightarrow> gives cwd ctx (Join_binding l r) (joinPath cwd s t)"
  using composed_given [of cwd ctx "[l, r]" "[s, t]" "Join_binding l r"] by (simp add: gives_def is_near_def composed_def)

lemma gives_splice: "list_all2 (gives cwd ctx) bs ts \<Longrightarrow> gives cwd ctx (Splice_binding bs parts) (hd parts @ splice_text ts (tl parts))"
  using composed_given [of cwd ctx bs ts "Splice_binding bs parts"] by (simp add: gives_def is_near_def composed_def)

subsection \<open>The directory swap\<close>

text \<open>Directories are swapped by their text, which is empty for no directory and for the root alike, and only when
  something is left after the directory: a swap is lost when one of the two paths has only the root before the
  shared end, or when they share nothing but a closing slash.\<close>

definition lost_swap :: "string \<Rightarrow> string \<Rightarrow> bool" where
  "lost_swap s t \<longleftrightarrow>
     (let l = split_slash (normalizePath s); r = split_slash (normalizePath t); k = shared_end (rev l) (rev r) in
      k \<noteq> 0 \<and> (take (length l - k) l = [[]] \<or> take (length r - k) r = [[]] \<or> drop (length r - k) r = [[]]))"

lemma shared_end_take: "take (shared_end xs ys) xs = take (shared_end xs ys) ys \<and> shared_end xs ys \<le> length xs \<and> shared_end xs ys \<le> length ys"
  by (induction xs ys rule: shared_end.induct) auto

lemma shared_tail:
  assumes "k = shared_end (rev l) (rev r)"
  shows "drop (length l - k) l = drop (length r - k) r" and "k \<le> length l" and "k \<le> length r"
proof -
  have "take k (rev l) = take k (rev r)" "k \<le> length (rev l)" "k \<le> length (rev r)" using shared_end_take assms by blast+
  then show "drop (length l - k) l = drop (length r - k) r" "k \<le> length l" "k \<le> length r" by (simp_all add: take_rev)
qed

lemma join_slash_Nil: "join_slash xs = [] \<longleftrightarrow> xs = [] \<or> xs = [[]]"
  by (cases xs rule: list.exhaust; cases "tl xs") auto

lemma join_slash_two: "xs \<noteq> [] \<Longrightarrow> ys \<noteq> [] \<Longrightarrow> join_slash (xs @ ys) = join_slash xs @ ''/'' @ join_slash ys"
proof (induction xs)
  case (Cons x xs)
  then show ?case by (cases "xs = []") (simp_all add: join_slash_Cons slash_char_def)
qed simp

lemma rebase_back:
  assumes "rebaseBetween s t = Some (from, to)" and "\<not> lost_swap s t"
  shows "rebase s from to = Some (normalizePath t)"
proof -
  define l r k where "l = split_slash (normalizePath s)" and "r = split_slash (normalizePath t)" and "k = shared_end (rev l) (rev r)"
  define a b c where "a = take (length l - k) l" and "b = take (length r - k) r" and "c = drop (length r - k) r"
  have k: "k \<noteq> 0" "from = join_slash a" "to = join_slash b"
    using assms(1) by (auto simp: rebaseBetween_def Let_def l_def r_def k_def a_def b_def split: if_splits)
  have lost: "a \<noteq> [[]]" "b \<noteq> [[]]" "c \<noteq> [[]]"
    using assms(2) k(1) by (auto simp: lost_swap_def Let_def l_def r_def k_def a_def b_def c_def)
  then have blank: "from = [] \<longleftrightarrow> a = []" "to = [] \<longleftrightarrow> b = []" by (simp_all add: k join_slash_Nil)
  note tail = shared_tail [OF k_def]
  have "l = a @ c" "r = b @ c" using tail(1) by (metis append_take_drop_id a_def b_def c_def)+
  then have n: "normalizePath s = join_slash (a @ c)" and t: "normalizePath t = join_slash (b @ c)" by (metis join_split l_def r_def)+
  have c: "c \<noteq> []" using k(1) tail(3) by (auto simp: c_def)
  then have "join_slash c \<noteq> []" using lost(3) by (simp add: join_slash_Nil)
  moreover have "normalizePath s = (if a = [] then join_slash c else from @ ''/'' @ join_slash c)"
    using c by (simp add: n k join_slash_two)
  moreover have "normalizePath t = (if b = [] then join_slash c else to @ ''/'' @ join_slash c)"
    using c by (simp add: t k join_slash_two)
  ultimately show ?thesis using blank by (auto simp: rebase_def Let_def)
qed

text \<open>The bindings that a lost swap was made into, and those built from one.\<close>

definition swap_lost :: "string \<Rightarrow> event list \<Rightarrow> string list \<Rightarrow> binding \<Rightarrow> bool" where
  "swap_lost cwd ctx texts b \<longleftrightarrow> (\<exists>c from to s t. b = Rebase_binding c from to \<and> gives cwd ctx c s \<and> t \<in> set texts \<and>
     rebaseBetween s t = Some (from, to) \<and> lost_swap s t)"

definition ingredients :: "binding \<Rightarrow> binding list" where
  "ingredients b = (case b of Template_binding c _ _ \<Rightarrow> [c] | Splice_binding cs _ \<Rightarrow> cs | _ \<Rightarrow> [b])"

definition uses_lost_swap :: "string \<Rightarrow> event list \<Rightarrow> string list \<Rightarrow> binding \<Rightarrow> bool" where
  "uses_lost_swap cwd ctx texts b \<longleftrightarrow> (\<exists>c \<in> set (ingredients b). swap_lost cwd ctx texts c)"

lemma swap_gives:
  assumes "gives cwd ctx b s" and "rebaseBetween s t = Some (from, to)" and "t \<in> set texts"
  shows "gives cwd ctx (Rebase_binding b from to) (normalizePath t) \<or> swap_lost cwd ctx texts (Rebase_binding b from to)"
proof (cases "lost_swap s t")
  case True
  then show ?thesis using assms unfolding swap_lost_def by blast
next
  case False
  from gives_rebase [OF assms(1) rebase_back [OF assms(2) False]] show ?thesis ..
qed


subsection \<open>Sources in the context\<close>

lemma leaf_at: "data_ok v \<Longrightarrow> (p, l) \<in> set (leaves v) \<Longrightarrow> getPath v p = Some l"
proof (induction v arbitrary: p rule: leaves.induct)
  case (1 v)
  consider (arr) xs where "v = JArr xs" "xs \<noteq> []" | (obj) fs where "v = JObj fs" "fs \<noteq> []" | (end_of) "leaves v = [([], v)]"
    by (cases v; simp) (metis leaves_simps(6,7))+
  then show ?case
  proof cases
    case arr
    then obtain i x q where i: "(i, x) \<in> set (enumerate 0 xs)" "p = Index i # q" "(q, l) \<in> set (leaves x)" using 1(4) by auto
    then have "i < length xs" "x = xs ! i" by (auto simp: in_set_enumerate_eq)
    moreover from this have "data_ok x" using 1(3) arr by (auto simp: list_all_iff)
    ultimately show ?thesis using 1(1) [OF arr(1) _ i(1)] i(2,3) arr by simp
  next
    case obj
    then obtain k x q where k: "(k, x) \<in> set fs" "p = Key k # q" "(q, l) \<in> set (leaves x)" using 1(4) by auto
    then have "map_of fs k = Some x" "data_ok x" using 1(3) obj by (auto simp: key_order_def list_all_iff)
    then show ?thesis using 1(2) [OF obj(1) _ k(1)] k(2,3) obj by (simp add: own_member_def)
  next
    case end_of
    then show ?thesis using 1(4) by simp
  qed
qed

lemma leaf_primitive_or_empty: "(p, l) \<in> set (leaves v) \<Longrightarrow> is_object l \<Longrightarrow> l = JArr [] \<or> l = JObj []"
proof (induction v arbitrary: p rule: leaves.induct)
  case (1 v)
  consider (arr) xs where "v = JArr xs" "xs \<noteq> []" | (obj) fs where "v = JObj fs" "fs \<noteq> []"
    | (end_of) "leaves v = [([], v)]" "is_object v \<Longrightarrow> v = JArr [] \<or> v = JObj []"
    by (cases v; simp) (metis leaves_simps(6,7))+
  then show ?case
  proof cases
    case arr
    then obtain i x q where "(i, x) \<in> set (enumerate 0 xs)" "(q, l) \<in> set (leaves x)" using 1(3) by auto
    then show ?thesis using 1(1) [OF arr(1)] arr(2) 1(4) by blast
  next
    case obj
    then obtain k x q where "(k, x) \<in> set fs" "(q, l) \<in> set (leaves x)" using 1(3) by auto
    then show ?thesis using 1(2) [OF obj(1)] obj(2) 1(4) by blast
  next
    case end_of
    then show ?thesis using 1(3,4) by simp
  qed
qed

lemma reversed_field:
  assumes "(k, f, v) \<in> set (reverseContextFields ctx)"
  shows "\<exists>e \<in> set ctx. event_at ctx k = Some e \<and> event_value e f = v"
proof -
  obtain i where i: "i < length ctx" "k = int i - int (length ctx)" "event_value (ctx ! i) f = v"
    using assms by (auto simp: reverseContextFields_def Let_def event_value_def split: if_splits)
  then have "event_at ctx k = Some (ctx ! i)" by (auto simp: event_at_def Let_def)
  then show ?thesis using i by auto
qed

lemma path_item_split: "path_item p = Some (q, item) \<Longrightarrow> \<exists>i. p = q @ Index i # item"
proof (induction p arbitrary: q)
  case (Cons s p)
  show ?case
  proof (cases s)
    case (Key x)
    then obtain q' where "path_item p = Some (q', item)" "q = s # q'" using Cons.prems by (auto simp: path_item_def split: list.splits)
    with Cons.IH show ?thesis by auto
  qed (use Cons.prems in \<open>auto simp: path_item_def\<close>)
qed (simp add: path_item_def)

lemma getPath_append: "getPath v (p @ q) = (case getPath v p of None \<Rightarrow> None | Some x \<Rightarrow> getPath x q)"
  by (induction v p rule: getPath.induct) (auto split: js_val.splits option.splits)

text \<open>An event's values are data without \<open>NaN\<close> and infinities, its numbers told apart from a target by their texts.\<close>

definition told_apart :: "(real \<Rightarrow> string) \<Rightarrow> js_val \<Rightarrow> js_val \<Rightarrow> bool" where
  "told_apart num target l \<longleftrightarrow> (case (l, target) of (JNum (Fin x), JNum (Fin y)) \<Rightarrow> x = y \<or> num x \<noteq> num y | _ \<Rightarrow> True)"

definition every_leaf :: "(js_val \<Rightarrow> bool) \<Rightarrow> event \<Rightarrow> bool" where
  "every_leaf P e \<longleftrightarrow> list_all (\<lambda>f. list_all (\<lambda>(p, l). P l) (leaves (event_value e f))) [Input_field, Output_field, Paths_field, Locations_field]"

definition fields_ok :: "(real \<Rightarrow> string) \<Rightarrow> js_val \<Rightarrow> event \<Rightarrow> bool" where
  "fields_ok num target e \<longleftrightarrow> list_all (\<lambda>f. data_ok (event_value e f)) [Input_field, Output_field, Paths_field, Locations_field] \<and>
     every_leaf (\<lambda>l. immutable_leaf l \<and> told_apart num target l) e"

lemma every_leafD: "every_leaf P e \<Longrightarrow> (p, l) \<in> set (leaves (event_value e f)) \<Longrightarrow> P l"
  by (cases f) (auto simp: every_leaf_def list_all_iff)

lemma fields_okD: "fields_ok num target e \<Longrightarrow> data_ok (event_value e f)"
  by (cases f) (auto simp: fields_ok_def)

lemma event_row:
  assumes "list_all (fields_ok num target) ctx" and "(k, f, v) \<in> set (reverseContextFields ctx)" and "(p, l) \<in> set (leaves v)"
  shows "bindingRows cwd ctx (Event_binding k f p) = [plain_row l]" and "immutable_leaf l \<and> told_apart num target l"
    and "collectionBinding k f p = Some b \<Longrightarrow> \<exists>r \<in> set (bindingRows cwd ctx b). rw_values r = [l]"
    and "path_item p = Some (q, item) \<Longrightarrow> \<exists>r \<in> set (bindingRows cwd ctx (Each_binding k f q item)). rw_values r = [l]"
proof -
  obtain e where e: "e \<in> set ctx" "event_at ctx k = Some e" "event_value e f = v" using reversed_field [OF assms(2)] by blast
  then have ok: "fields_ok num target e" using assms(1) by (simp add: list_all_iff)
  then have "data_ok v" using fields_okD e(3) by blast
  then have at: "getPath v p = Some l" using leaf_at assms(3) by blast
  show "bindingRows cwd ctx (Event_binding k f p) = [plain_row l]" using e at by simp
  show "immutable_leaf l \<and> told_apart num target l"
    using ok every_leafD [where l = l] assms(3) e(3) unfolding fields_ok_def by blast
  have each: "\<exists>r \<in> set (bindingRows cwd ctx (Each_binding k f q item)). rw_values r = [l]"
    if split: "path_item p = Some (q, item)" for q item
  proof -
    obtain i where p: "p = q @ Index i # item" using path_item_split [OF split] by blast
    then obtain xs where xs: "getPath v q = Some (JArr xs)" "i < length xs" "getPath (xs ! i) item = Some l"
      using at by (auto simp: getPath_append split: option.splits js_val.splits if_splits)
    then have "(i, xs ! i) \<in> set (enumerate 0 xs)" by (simp add: in_set_enumerate_eq)
    moreover have "each_row (k, f, q) item (i, xs ! i) = [\<lparr>rw_values = [l], rw_sources = [((k, f, q), i)]\<rparr>]"
      using xs by (simp add: each_row_def)
    ultimately show ?thesis using e xs by force
  qed
  then show "path_item p = Some (q, item) \<Longrightarrow> \<exists>r \<in> set (bindingRows cwd ctx (Each_binding k f q item)). rw_values r = [l]" .
  show "\<exists>r \<in> set (bindingRows cwd ctx b). rw_values r = [l]" if "collectionBinding k f p = Some b"
    using that each by (auto simp: collectionBinding_def simp del: bindingRows.simps)
qed

subsection \<open>Equal texts of leaves\<close>

lemma number_apart:
  assumes "number_text num"
  shows "num x \<noteq> ''null''" "num x \<noteq> ''true''" "num x \<noteq> ''false''" "num x \<noteq> json_string s"
  using assms [unfolded number_text_def, rule_format, of x] by (auto simp: json_string_def)

lemma string_apart:
  "json_string s \<noteq> ''null''" "json_string s \<noteq> ''true''" "json_string s \<noteq> ''false''"
  "''null'' \<noteq> json_string s" "''true'' \<noteq> json_string s" "''false'' \<noteq> json_string s"
  by (simp_all add: json_string_def)

lemma primitive_inject:
  assumes "number_text num" and "told_apart num t l" and "immutable_leaf l" and "immutable_leaf t" and "\<not> is_object l" and "\<not> is_object t"
    and "json_primitive num l = json_primitive num t"
  shows "l = t"
proof -
  have num: "\<exists>y. v = JNum (Fin y)" if "immutable_leaf v" "v = JNum x" for v x using that by (cases x) auto
  from assms(2-7) show ?thesis unfolding told_apart_def
    by (cases l; cases t) (auto dest!: num simp: number_apart [OF assms(1)] number_apart [OF assms(1), THEN not_sym] string_apart split: if_splits)
qed

lemma same_text_equal:
  assumes "number_text num" and "told_apart num target l" and "is_object l \<Longrightarrow> l = JArr [] \<or> l = JObj []" and "immutable_leaf l"
    and "data_ok target" and "immutable_leaf target" and "proto_free target" and "stableStringify num l = stableStringify num target"
  shows "stableEqual num l target"
proof -
  have tree: "tree num l = tree num target" using assms(1,8) by (simp add: stringify_tree)
  show ?thesis
  proof (cases "is_object l")
    case True
    then obtain j where "tree num l = Some j" "\<forall>t. j \<noteq> JT t" using tree_object by blast
    then have "is_object target" using tree tree_primitive [of target num] by (cases "is_object target") auto
    moreover have "data_ok l" "proto_free l" using assms(3) [OF True] by (auto simp: key_order_def)
    ultimately show ?thesis using True tree equalSlot_tree [OF _ assms(5) _ assms(7), of l num False]
      by (simp add: stableEqual_def slot_tree_object)
  next
    case False
    then have target: "\<not> is_object target" using tree tree_object [of target num] tree_primitive [of l num] by (cases "is_object target") auto
    then have "json_primitive num l = json_primitive num target"
      using False tree by (cases "json_primitive num l"; cases "json_primitive num target") (simp_all add: tree_primitive)
    then have "l = target" "l \<noteq> JNum NaN" using primitive_inject assms(1,2,4,6) False target by auto
    then show ?thesis using False by (simp add: stableEqual_def)
  qed
qed


subsection \<open>Sources found in a text\<close>

lemma found_satisfies: "find P xs = Some x \<Longrightarrow> x \<in> set xs \<and> P x"
  by (induction xs) (auto split: if_splits)

lemma index_from_found: "index_from t v start = Some i \<Longrightarrow> start \<le> i \<and> i \<le> length t \<and> drop i t = v @ drop (i + length v) t"
proof -
  assume "index_from t v start = Some i"
  then have i: "start \<le> i" "i \<le> length t" "prefix v (drop i t)" by (auto simp: index_from_def less_Suc_eq_le simp del: upt_Suc dest!: found_satisfies)
  then obtain z where z: "drop i t = v @ z" by (auto simp: prefix_def)
  have "drop (i + length v) t = drop (length v) (drop i t)" by (simp add: add.commute)
  then show ?thesis using i z by simp
qed

lemma found_inside: "index_from t v start = Some i \<Longrightarrow> i + length v \<le> length t"
  using index_from_found [of t v start i] by (metis append_take_drop_id drop_append length_append length_drop
    le_add_diff_inverse le_add1 add.assoc)

text \<open>Gathered sources give their texts, up to lost swaps.\<close>

definition all_given :: "string \<Rightarrow> event list \<Rightarrow> string list \<Rightarrow> text_source list \<Rightarrow> bool" where
  "all_given cwd ctx texts sources \<longleftrightarrow> (\<forall>(b, v) \<in> set sources. gives cwd ctx b v \<or> swap_lost cwd ctx texts b)"

definition gives_or_lost :: "string \<Rightarrow> event list \<Rightarrow> string list \<Rightarrow> binding \<Rightarrow> string \<Rightarrow> bool" where
  "gives_or_lost cwd ctx texts b t \<longleftrightarrow> gives cwd ctx b t \<or> uses_lost_swap cwd ctx texts b"

lemma all_given_simps [simp]:
  "all_given cwd ctx texts []"
  "all_given cwd ctx texts ((b, v) # xs) \<longleftrightarrow> (gives cwd ctx b v \<or> swap_lost cwd ctx texts b) \<and> all_given cwd ctx texts xs"
  "all_given cwd ctx texts (xs @ ys) \<longleftrightarrow> all_given cwd ctx texts xs \<and> all_given cwd ctx texts ys"
  by (auto simp: all_given_def)

lemma all_given_pushed:
  "all_given cwd ctx texts new \<Longrightarrow> all_given cwd ctx texts xs \<Longrightarrow> all_given cwd ctx texts (push_bounded new xs)"
  by (auto simp: all_given_def push_bounded_def dest: in_set_takeD)

lemma all_given_nth:
  "all_given cwd ctx texts sources \<Longrightarrow> i < length sources \<Longrightarrow>
    gives cwd ctx (fst (sources ! i)) (snd (sources ! i)) \<or> swap_lost cwd ctx texts (fst (sources ! i))"
  unfolding all_given_def using nth_mem by fastforce

lemma templates_given:
  "all_given cwd ctx texts sources \<Longrightarrow> b \<in> set (templates path t sources) \<Longrightarrow> gives_or_lost cwd ctx texts b t"
proof (induction sources)
  case (Cons x xs)
  obtain s v where x: "x = (s, v)" by (cases x)
  show ?case
  proof (cases "b \<in> set (templates path t xs)")
    case False
    then obtain offset where o: "index_from t v 0 = Some offset" and b: "b = Template_binding s (take offset t) (drop (offset + length v) t)"
      using Cons.prems(2) by (cases "index_from t v 0") (auto simp: x templates_def Let_def split: if_splits)
    have "take offset t @ v @ drop (offset + length v) t = t" using index_from_found [OF o] by (metis append_take_drop_id)
    moreover have "gives cwd ctx s v \<or> swap_lost cwd ctx texts s" using Cons.prems(1) by (simp add: x)
    moreover have "gives cwd ctx (Template_binding s (take offset t) (drop (offset + length v) t)) (take offset t @ v @ drop (offset + length v) t)"
      if "gives cwd ctx s v" using that by (rule gives_template)
    ultimately show ?thesis by (auto simp: b gives_or_lost_def uses_lost_swap_def ingredients_def)
  qed (use Cons in \<open>simp add: x\<close>)
qed (simp add: templates_def)

text \<open>A chain holds sources that occur in the text one after another.\<close>

definition occurs :: "string \<Rightarrow> text_source list \<Rightarrow> nat \<times> nat \<Rightarrow> bool" where
  "occurs t sources = (\<lambda>(i, pos). i < length sources \<and> drop pos t = snd (sources ! i) @ drop (pos + length (snd (sources ! i))) t)"

definition stop_of :: "text_source list \<Rightarrow> nat \<times> nat \<Rightarrow> nat" where
  "stop_of sources = (\<lambda>(i, pos). pos + length (snd (sources ! i)))"

fun chained :: "string \<Rightarrow> text_source list \<Rightarrow> (nat \<times> nat) list \<Rightarrow> bool" where
  "chained t sources [] = True"
| "chained t sources (x # xs) \<longleftrightarrow> occurs t sources x \<and> (xs \<noteq> [] \<longrightarrow> stop_of sources x \<le> snd (hd xs)) \<and> chained t sources xs"

lemma chained_snoc:
  "chained t sources (xs @ [x]) \<longleftrightarrow> chained t sources xs \<and> occurs t sources x \<and> (xs \<noteq> [] \<longrightarrow> stop_of sources (last xs) \<le> snd x)"
  by (induction xs) (auto simp: hd_append)

lemma spliced_text:
  assumes "chained t sources chain" and "chain \<noteq> []"
  shows "splice_text (map (\<lambda>(i, pos). snd (sources ! i)) chain)
    (map (\<lambda>j. let (i, pos) = chain ! j; from = pos + length (snd (sources ! i)) in
      take ((if Suc j < length chain then snd (chain ! Suc j) else length t) - from) (drop from t)) [0..<length chain]) =
    drop (snd (hd chain)) t"
  using assms
proof (induction chain)
  case (Cons x xs)
  obtain i pos where x: "x = (i, pos)" by (cases x)
  let ?stop = "pos + length (snd (sources ! i))"
  have here: "drop pos t = snd (sources ! i) @ drop ?stop t" using Cons.prems by (simp add: x occurs_def)
  have up: "[0..<length (x # xs)] = 0 # map Suc [0..<length xs]" by (simp add: upt_conv_Cons map_Suc_upt del: upt_Suc)
  show ?case
  proof (cases "xs = []")
    case True
    then show ?thesis using here by (simp add: x)
  next
    case False
    then have "?stop \<le> snd (hd xs)" using Cons.prems by (simp add: x stop_of_def)
    then have "drop ?stop t = take (snd (hd xs) - ?stop) (drop ?stop t) @ drop (snd (hd xs)) t"
      by (metis append_take_drop_id drop_drop le_add_diff_inverse2)
    with here have "drop pos t = snd (sources ! i) @ take (snd (hd xs) - ?stop) (drop ?stop t) @ drop (snd (hd xs)) t" by simp
    moreover have "hd xs = xs ! 0" "0 < length xs" using False by (simp_all add: hd_conv_nth)
    ultimately show ?thesis using Cons.IH Cons.prems False unfolding up by (simp add: x comp_def Let_def case_prod_beta del: upt_Suc cong: if_cong)
  qed
qed simp

lemma splice_given:
  assumes "all_given cwd ctx texts sources" and "chained t sources chain" and "chain \<noteq> []"
  shows "gives_or_lost cwd ctx texts (splice_of t chain sources) t"
proof -
  let ?bs = "map (\<lambda>(i, pos). fst (sources ! i)) chain" and ?vs = "map (\<lambda>(i, pos). snd (sources ! i)) chain"
  have in_range: "\<forall>x \<in> set chain. fst x < length sources" using assms(2) by (induction chain) (auto simp: occurs_def)
  show ?thesis
  proof (cases "\<exists>c \<in> set ?bs. swap_lost cwd ctx texts c")
    case True
    then show ?thesis by (simp add: gives_or_lost_def uses_lost_swap_def ingredients_def splice_of_def)
  next
    case False
    have "gives cwd ctx (?bs ! n) (?vs ! n)" if n: "n < length chain" for n
    proof -
      have "?bs ! n \<in> set ?bs" by (rule nth_mem) (simp add: n)
      with False have "\<not> swap_lost cwd ctx texts (?bs ! n)" by blast
      then show ?thesis using all_given_nth [OF assms(1), of "fst (chain ! n)"] in_range n by (simp add: case_prod_beta)
    qed
    then have "list_all2 (gives cwd ctx) ?bs ?vs" by (simp add: list_all2_conv_all_nth)
    from gives_splice [OF this, of "take (snd (hd chain)) t # map (\<lambda>j. let (i, pos) = chain ! j; from = pos + length (snd (sources ! i)) in
        take ((if Suc j < length chain then snd (chain ! Suc j) else length t) - from) (drop from t)) [0..<length chain]"]
    show ?thesis unfolding splice_of_def list.sel spliced_text [OF assms(2,3)] gives_or_lost_def by simp
  qed
qed

lemma following_found:
  assumes "following t chain sources = Some x"
  shows "occurs t sources x \<and> stop_of sources (last chain) \<le> snd x"
proof -
  let ?stop = "snd (last chain) + length (snd (sources ! fst (last chain)))"
  let ?ok = "\<lambda>x. occurs t sources x \<and> ?stop \<le> snd x"
  define f where "f = (\<lambda>i found. if i \<in> fst ` set chain then found else (case index_from t (snd (sources ! i)) ?stop of
      None \<Rightarrow> found | Some offset \<Rightarrow> (case found of Some (j, best) \<Rightarrow> if offset < best then Some (i, offset) else found | None \<Rightarrow> Some (i, offset))))"
  have one: "\<forall>y. f i found = Some y \<longrightarrow> ?ok y" if "\<forall>y. found = Some y \<longrightarrow> ?ok y" "i < length sources" for i found
    using that index_from_found [of t "snd (sources ! i)" ?stop]
    by (cases "index_from t (snd (sources ! i)) ?stop") (auto simp: f_def occurs_def split: option.splits)
  have "\<forall>y. fold f is found = Some y \<longrightarrow> ?ok y" if "\<forall>y. found = Some y \<longrightarrow> ?ok y" "\<forall>i \<in> set is. i < length sources" for "is" found
    using that
  proof (induction "is" arbitrary: found)
    case (Cons i "is")
    have i: "i < length sources" using Cons.prems(2) by simp
    from Cons.IH [OF one [OF Cons.prems(1) i]] show ?case using Cons.prems(2) by simp
  qed simp
  moreover have "fold f [0..<length sources] None = Some x" using assms by (simp add: following_def Let_def f_def)
  ultimately have "?ok x" by (metis atLeastLessThan_iff option.distinct(1) set_upt)
  then show ?thesis by (simp add: stop_of_def case_prod_beta)
qed

lemma chain_splices_given:
  "all_given cwd ctx texts sources \<Longrightarrow> chained t sources chain \<Longrightarrow> chain \<noteq> [] \<Longrightarrow> b \<in> set (chain_splices n t chain sources) \<Longrightarrow>
    gives_or_lost cwd ctx texts b t"
proof (induction n t chain sources rule: chain_splices.induct)
  case (1 t chain sources)
  then show ?case using splice_given by simp
next
  case (2 n t chain sources)
  show ?case
  proof (cases "following t chain sources")
    case None
    then show ?thesis using 2 splice_given by simp
  next
    case (Some x)
    then have "chained t sources (chain @ [x])" using following_found 2(3,4) by (simp add: chained_snoc)
    then show ?thesis using 2 Some splice_given [OF 2(2,3,4)] by auto
  qed
qed


subsection \<open>Candidates reproduce the target\<close>

definition reproduces :: "(real \<Rightarrow> string) \<Rightarrow> string \<Rightarrow> event list \<Rightarrow> js_val \<Rightarrow> binding \<Rightarrow> bool" where
  "reproduces num cwd ctx target b \<longleftrightarrow>
     list_ex (\<lambda>r. bindingValueMatches num b (rw_values r ! 0) (Some target)) (bindingRows cwd ctx b)"

lemma gives_reproduces: "gives cwd ctx b t \<Longrightarrow> reproduces num cwd ctx (JStr t) b"
proof -
  assume g: "gives cwd ctx b t"
  then have "bindingValueMatches num b (JStr t) (Some (JStr t))"
    by (cases b) (simp_all add: gives_def is_near_def bindingValueMatches_def stableEqual_def)
  with g show ?thesis by (force simp: reproduces_def gives_def list_ex_iff plain_row_def)
qed

lemma row_reproduces:
  assumes "r \<in> set (bindingRows cwd ctx b)" and "rw_values r = [l]" and "\<not> is_near b" and "stableEqual num l target"
  shows "reproduces num cwd ctx target b"
proof -
  have "bindingValueMatches num b l (Some target)"
    using assms(3,4) by (cases b) (simp_all add: is_near_def bindingValueMatches_def)
  then show ?thesis using assms(1,2) by (force simp: reproduces_def list_ex_iff)
qed

definition gathered_given :: "string \<Rightarrow> event list \<Rightarrow> string list \<Rightarrow> gathered \<Rightarrow> bool" where
  "gathered_given cwd ctx texts g \<longleftrightarrow> (\<forall>(b, v) \<in> set (fst g). gives cwd ctx b v) \<and> all_given cwd ctx texts (snd g)"

lemma path_candidates_given:
  assumes "gives cwd ctx direct s" and "path \<Longrightarrow> t \<in> set texts" and "\<forall>token \<in> set tokens. token \<in> set texts \<and> normalizePath token = token"
    and "gathered_given cwd ctx texts g" and "path_candidates path tokens direct s t g = (found, sources, g')"
  shows "(\<forall>b \<in> set found. gives_or_lost cwd ctx texts b t \<or> path \<and> gives cwd ctx b (normalizePath t)) \<and>
    all_given cwd ctx texts sources \<and> gathered_given cwd ctx texts g'"
proof -
  obtain paths spliced where g: "g = (paths, spliced)" by (cases g)
  define rebased where "rebased = concat (map (\<lambda>token. case rebaseBetween s token of
    None \<Rightarrow> [] | Some (from, to) \<Rightarrow> [(Rebase_binding direct from to, token)]) tokens)"
  define vals where "vals = map (\<lambda>operation. (operation, Transform_binding operation direct, transform operation s)) path_transforms"
  have rebased: "all_given cwd ctx texts rebased"
    unfolding all_given_def
  proof (intro ballI, clarify)
    fix b v assume "(b, v) \<in> set rebased" and keep: "\<not> swap_lost cwd ctx texts b"
    then obtain token d e where "token \<in> set tokens" "rebaseBetween s token = Some (d, e)"
      "b = Rebase_binding direct d e" "v = token"
      unfolding rebased_def by (fastforce split: option.splits)
    with swap_gives [OF assms(1), of token d e texts] assms(3) keep show "gives cwd ctx b v" by auto
  qed
  have vals: "gives cwd ctx b v" if "(operation, b, v) \<in> set vals" for operation b v
    using that gives_transform [OF assms(1)] by (auto simp: vals_def)
  have moved: "gives cwd ctx b (normalizePath t) \<or> gives_or_lost cwd ctx texts b t"
    if "path" "b \<in> set (case rebaseBetween s t of None \<Rightarrow> [] | Some (from, to) \<Rightarrow> [Rebase_binding direct from to])" for b
  proof -
    note m = that
    obtain d e where swap: "rebaseBetween s t = Some (d, e)" and b: "b = Rebase_binding direct d e"
      using m(2) by (cases "rebaseBetween s t") auto
    show ?thesis
      using swap_gives [OF assms(1) swap assms(2) [OF m(1)]]
      by (auto simp: b gives_or_lost_def uses_lost_swap_def ingredients_def)
  qed
  have picked: "all_given cwd ctx texts (map snd (filter P vals))" "\<forall>(b, v) \<in> set (map snd (filter P vals)). gives cwd ctx b v" for P
    using vals by (auto simp: all_given_def)
  have eqs: "found = (if path then case rebaseBetween s t of None \<Rightarrow> [] | Some (from, to) \<Rightarrow> [Rebase_binding direct from to] else []) @
      map (fst \<circ> snd) (filter (\<lambda>(operation, b, v). v = t) vals)"
    "sources = rebased @ map snd (filter (\<lambda>(operation, b, v). if path then operation \<in> {Stem, Strip_extension} \<and> transform Strip_extension s \<noteq> s
      else operation \<notin> {Basename, Stem}) vals)"
    "g' = (push_bounded ((direct, s) # map snd (filter (\<lambda>(operation, b, v). operation \<notin> {Stem, Strip_extension}) vals)) paths, push_bounded rebased spliced)"
    using assms(5) [symmetric] unfolding path_candidates_def Let_def g prod.case rebased_def [symmetric] vals_def [symmetric] prod.inject
    by (simp_all only:)
  have "\<forall>(b, v) \<in> set (fst g'). gives cwd ctx b v"
    using assms(1,4) picked(2) unfolding eqs(3) g gathered_given_def fst_conv push_bounded_def
    by (auto dest!: in_set_takeD)
  then have "gathered_given cwd ctx texts g'"
    using assms(4) rebased unfolding gathered_given_def eqs(3) g by (simp add: all_given_pushed)
  moreover have "all_given cwd ctx texts sources" using picked(1) rebased by (simp add: eqs(2))
  moreover have "gives_or_lost cwd ctx texts b t \<or> path \<and> gives cwd ctx b (normalizePath t)" if found: "b \<in> set found" for b
  proof (cases "b \<in> set (map (fst \<circ> snd) (filter (\<lambda>(operation, b, v). v = t) vals))")
    case True
    then show ?thesis using vals by (auto simp: gives_or_lost_def)
  next
    case False
    from False found have "b \<in> set (if path then case rebaseBetween s t of None \<Rightarrow> [] | Some (from, to) \<Rightarrow> [Rebase_binding direct from to] else [])"
      unfolding eqs(1) set_append by (elim UnE) (assumption, erule notE)
    then show ?thesis using moved by (cases path) auto
  qed
  ultimately show ?thesis by blast
qed


text \<open>What the search relies on: the values are data, the target without members named \<open>__proto__\<close> and the numbers of
  the context told apart from it by their texts.\<close>

definition searchable :: "(real \<Rightarrow> string) \<Rightarrow> event list \<Rightarrow> js_val \<Rightarrow> bool" where
  "searchable num ctx target \<longleftrightarrow>
     data_ok target \<and> immutable_leaf target \<and> proto_free target \<and> list_all (fields_ok num target) ctx"

text \<open>The texts to which directories are swapped: a path target itself, else the file names in a text target.\<close>

definition swap_texts :: "bool \<Rightarrow> bool \<Rightarrow> js_val \<Rightarrow> string list" where
  "swap_texts composites path target = (case target of
     JStr t \<Rightarrow> if \<not> composites then [] else if path then [t] else pathTokens t | _ \<Rightarrow> [])"

text \<open>What a candidate does: it reproduces the target, or the normal form of a path target, or has lost a swap.\<close>

definition accounted ::
  "(real \<Rightarrow> string) \<Rightarrow> string \<Rightarrow> event list \<Rightarrow> js_val \<Rightarrow> bool \<Rightarrow> bool \<Rightarrow> binding \<Rightarrow> bool" where
  "accounted num cwd ctx target composites path b \<longleftrightarrow> reproduces num cwd ctx target b \<or>
     (\<exists>t. target = JStr t \<and> composites \<and> path \<and> reproduces num cwd ctx (JStr (normalizePath t)) b) \<or>
     uses_lost_swap cwd ctx (swap_texts composites path target) b"

lemma accounted_text:
  assumes "gives_or_lost cwd ctx (swap_texts composites path (JStr t)) b t \<or> composites \<and> path \<and> gives cwd ctx b (normalizePath t)"
  shows "accounted num cwd ctx (JStr t) composites path b"
  using assms gives_reproduces [of cwd ctx b _ num] unfolding accounted_def gives_or_lost_def by blast

lemma collections_reproduce:
  assumes "searchable num ctx target" and "number_text num" and "(k, f, v) \<in> set (reverseContextFields ctx)"
  shows "b \<in> set (collections num path' target (k, f, v)) \<Longrightarrow> reproduces num cwd ctx target b"
    and "p \<in> set (indexed num v target) \<Longrightarrow> reproduces num cwd ctx target (Event_binding k f p)"
proof -
  have ctx: "list_all (fields_ok num target) ctx" and target: "data_ok target" "immutable_leaf target" "proto_free target"
    using assms(1) by (simp_all add: searchable_def)
  have leaf: "\<exists>l. (p, l) \<in> set (leaves v) \<and> stableEqual num l target" if p: "p \<in> set (indexed num v target)" for p
  proof -
    obtain l where l: "(p, l) \<in> set (leaves v)" "stableStringify num l = stableStringify num target"
      using p by (auto simp: indexed_def)
    have "stableEqual num l target"
      using same_text_equal [OF assms(2) _ _ _ target l(2)] event_row(2) [OF ctx assms(3) l(1)]
        leaf_primitive_or_empty [OF l(1)] by blast
    then show ?thesis using l(1) by blast
  qed
  show "reproduces num cwd ctx target (Event_binding k f p)" if p: "p \<in> set (indexed num v target)"
  proof -
    obtain l where l: "(p, l) \<in> set (leaves v)" "stableEqual num l target" using leaf [OF p] by blast
    have "plain_row l \<in> set (bindingRows cwd ctx (Event_binding k f p))" using event_row(1) [OF ctx assms(3) l(1)] by simp
    then show ?thesis by (rule row_reproduces) (use l(2) in \<open>simp_all add: plain_row_def is_near_def\<close>)
  qed
  show "reproduces num cwd ctx target b" if b: "b \<in> set (collections num path' target (k, f, v))"
  proof -
    obtain p q item where p: "p \<in> set (indexed num v target)" "path_item p = Some (q, item)" "b = Each_binding k f q item"
    proof -
      obtain p where p: "p \<in> set (indexed num v target)" "b \<in> set (case path_item p of None \<Rightarrow> []
          | Some (path, item) \<Rightarrow> if path_allows path' target f (path @ item) then [Each_binding k f path item] else [])"
        using b by (auto simp: collections_def)
      then show ?thesis using that by (cases "path_item p") (auto split: if_splits)
    qed
    obtain l where l: "(p, l) \<in> set (leaves v)" "stableEqual num l target" using leaf [OF p(1)] by blast
    obtain r where "r \<in> set (bindingRows cwd ctx b)" "rw_values r = [l]"
      using event_row(4) [OF ctx assms(3) l(1) p(2)] p(3) by blast
    then show ?thesis by (rule row_reproduces) (use l(2) p(3) in \<open>simp_all add: is_near_def\<close>)
  qed
qed

lemma listed_if: "b \<in> set (if P then xs else []) \<Longrightarrow> P \<and> b \<in> set xs"
  by (simp split: if_splits)

lemma near_reproduces:
  assumes "list_all (fields_ok num target) ctx" and "(k, f, v) \<in> set (reverseContextFields ctx)" and "(p, l) \<in> set (leaves v)"
    and "b \<in> set (near_candidate line k f p l target)"
  shows "reproduces num cwd ctx target b"
proof -
  obtain x y c where c: "l = jnum x" "target = jnum y" "\<bar>x - y\<bar> \<le> near_tolerance" "collectionBinding k f p = Some c"
    "b = Near_binding c near_tolerance"
  proof -
    note number = assms(4) [unfolded near_candidate_def prod.case]
    obtain n where n: "l = JNum n" using number by (cases l) (simp_all only: js_val.case list.set empty_iff)
    obtain x where x: "l = jnum x" using number n by (cases n) (simp_all only: js_val.case js_num.case list.set empty_iff)
    obtain m where m: "target = JNum m" using number x by (cases target) (simp_all only: js_val.case js_num.case list.set empty_iff)
    obtain y where "target = jnum y" using number x m by (cases m) (simp_all only: js_val.case js_num.case list.set empty_iff)
    then have xy: "l = jnum x" "target = jnum y" using x by simp_all
    have "b \<in> set (if line \<and> f = Locations_field \<and> p \<noteq> [] \<and> last p = Key ''line'' \<and> x \<noteq> y \<and> \<bar>x - y\<bar> \<le> near_tolerance
        then (case collectionBinding k f p of None \<Rightarrow> [] | Some b \<Rightarrow> [Near_binding b near_tolerance]) else [])"
      using assms(4) unfolding xy near_candidate_def prod.case js_val.case js_num.case .
    from listed_if [OF this] have "\<bar>x - y\<bar> \<le> near_tolerance" "b \<in> set (case collectionBinding k f p of None \<Rightarrow> [] | Some b \<Rightarrow> [Near_binding b near_tolerance])"
      by blast+
    then show ?thesis using xy that by (cases "collectionBinding k f p") auto
  qed
  obtain r where "r \<in> set (bindingRows cwd ctx c)" "rw_values r = [l]"
    using event_row(3) [OF assms(1-3) c(4)] by blast
  then show ?thesis using c by (force simp: reproduces_def list_ex_iff bindingValueMatches_def)
qed

lemma leaf_candidates_reproduce:
  assumes "searchable num ctx target" and "(k, f, v) \<in> set (reverseContextFields ctx)" and "(p, l) \<in> set (leaves v)"
    and "tokens = (case target of JStr t \<Rightarrow> if \<not> path then pathTokens t else [] | _ \<Rightarrow> [])"
    and "gathered_given cwd ctx (swap_texts True path target) g"
  shows "(\<forall>b \<in> set (fst (leaf_candidates num path line target tokens k f (p, l) g)). accounted num cwd ctx target True path b) \<and>
    gathered_given cwd ctx (swap_texts True path target) (snd (leaf_candidates num path line target tokens k f (p, l) g))"
proof -
  let ?direct = "Event_binding k f p" and ?near = "near_candidate line k f p l target"
  define same where "same = (if stableEqual num l target \<and> (\<not> path \<or> (case l of JStr s \<Rightarrow> isPathSource f p s | _ \<Rightarrow> False)) then [?direct] else [])"
  have ctx: "list_all (fields_ok num target) ctx" using assms(1) by (simp add: searchable_def)
  have row: "bindingRows cwd ctx ?direct = [plain_row l]" by (rule event_row(1) [OF ctx assms(2,3)])
  let ?texts = "swap_texts True path target"
  have same: "reproduces num cwd ctx target b" if "b \<in> set same" for b
    using that row_reproduces [of "plain_row l" cwd ctx ?direct l num target] row
    by (auto simp: same_def plain_row_def is_near_def simp del: bindingRows.simps split: if_splits)
  have near: "reproduces num cwd ctx target b" if "b \<in> set ?near" for b by (rule near_reproduces [OF ctx assms(2,3) that])
  show ?thesis
  proof (cases "\<exists>s t. l = JStr s \<and> target = JStr t")
    case False
    then have "leaf_candidates num path line target tokens k f (p, l) g = (same @ ?near, g)"
      by (cases l; cases target) (auto simp: leaf_candidates_def same_def Let_def)
    then show ?thesis using same near assms(5) by (auto simp: accounted_def)
  next
    case True
    then obtain s t where st: "l = JStr s" "target = JStr t" by blast
    obtain paths spliced where g: "g = (paths, spliced)" by (cases g)
    let ?found = "if isPathSource f p s then path_candidates path tokens ?direct s t g else ([], [], g)"
    obtain found sources paths' spliced' where f: "?found = (found, sources, (paths', spliced'))" by (metis prod.exhaust)
    have direct: "gives cwd ctx ?direct s" using row by (simp add: st gives_def is_near_def del: bindingRows.simps)
    have texts: "path \<Longrightarrow> t \<in> set ?texts" "\<forall>token \<in> set tokens. token \<in> set ?texts \<and> normalizePath token = token"
      by (auto simp: assms(4) st swap_texts_def pathTokens_def dest: in_set_takeD)
    have facts: "(\<forall>b \<in> set found. gives_or_lost cwd ctx ?texts b t \<or> path \<and> gives cwd ctx b (normalizePath t)) \<and>
        all_given cwd ctx ?texts sources \<and> gathered_given cwd ctx ?texts (paths', spliced')"
    proof (cases "isPathSource f p s")
      case True
      then show ?thesis using f by (intro path_candidates_given [OF direct texts assms(5)]) simp_all
    next
      case False
      then show ?thesis using f assms(5) by (simp add: all_given_def)
    qed
    define own where "own = (if path then [] else [(?direct, s)])"
    define spliced'' where "spliced'' = (if \<not> path \<and> 3 \<le> length s \<and> sublist s t then push_bounded [(?direct, s)] spliced' else spliced')"
    have "leaf_candidates num path line target tokens k f (p, l) g =
        (same @ ?near @ found @ templates path t (own @ sources), (paths', spliced''))"
      using f by (simp add: leaf_candidates_def Let_def st same_def own_def spliced''_def split: if_splits)
    moreover have all: "all_given cwd ctx ?texts (own @ sources)" and "gathered_given cwd ctx ?texts (paths', spliced'')"
      using facts direct by (cases path; simp add: own_def spliced''_def gathered_given_def all_given_pushed)+
    moreover have "accounted num cwd ctx target True path b"
      if "gives_or_lost cwd ctx ?texts b t \<or> path \<and> gives cwd ctx b (normalizePath t)" for b
      using that unfolding st(2) by (intro accounted_text) simp
    moreover have "accounted num cwd ctx target True path b" if "reproduces num cwd ctx target b" for b
      using that by (simp add: accounted_def)
    ultimately show ?thesis using same near facts templates_given [OF all] by auto
  qed
qed


lemma gather_sound:
  assumes "\<And>x g. x \<in> set xs \<Longrightarrow> Q g \<Longrightarrow> (\<forall>b \<in> set (fst (step x g)). P b) \<and> Q (snd (step x g))" and "Q g"
  shows "(\<forall>b \<in> set (fst (gather step xs g)). P b) \<and> Q (snd (gather step xs g))"
  using assms
proof (induction xs arbitrary: g)
  case (Cons x xs)
  obtain bs h where h: "step x g = (bs, h)" by (cases "step x g")
  obtain cs h' where h': "gather step xs h = (cs, h')" by (cases "gather step xs h")
  have "(\<forall>b \<in> set bs. P b) \<and> Q h" using Cons.prems(1) [of x g] Cons.prems(2) h by simp
  moreover have "(\<forall>b \<in> set cs. P b) \<and> Q h'" if "Q h"
  proof -
    have "(\<forall>b \<in> set (fst (gather step xs h)). P b) \<and> Q (snd (gather step xs h))"
      by (rule Cons.IH [OF _ that]) (use Cons.prems(1) in auto)
    then show ?thesis by (simp add: h')
  qed
  ultimately show ?case using h h' by auto
qed simp

lemma field_candidates_reproduce:
  assumes "searchable num ctx target" and "number_text num" and "x \<in> set (reverseContextFields ctx)"
    and "composites \<Longrightarrow> tokens = (case target of JStr t \<Rightarrow> if \<not> path then pathTokens t else [] | _ \<Rightarrow> [])"
    and "gathered_given cwd ctx (swap_texts composites path target) g"
  shows "(\<forall>b \<in> set (fst (field_candidates num composites path line target tokens x g)). accounted num cwd ctx target composites path b) \<and>
    gathered_given cwd ctx (swap_texts composites path target) (snd (field_candidates num composites path line target tokens x g))"
proof -
  let ?texts = "swap_texts composites path target"
  obtain k f v where x: "x = (k, f, v)" by (cases x)
  note field = assms(3) [unfolded x]
  obtain own h where own: "(if composites then gather (leaf_candidates num path line target tokens k f) (leaves v) g
    else (map (Event_binding k f) (filter (path_allows path target f) (indexed num v target)), g)) = (own, h)"
    by (metis prod.exhaust)
  have "(\<forall>b \<in> set own. accounted num cwd ctx target composites path b) \<and> gathered_given cwd ctx ?texts h"
  proof (cases composites)
    case True
    have "(\<forall>b \<in> set (fst (gather (leaf_candidates num path line target tokens k f) (leaves v) g)). accounted num cwd ctx target composites path b) \<and>
        gathered_given cwd ctx ?texts (snd (gather (leaf_candidates num path line target tokens k f) (leaves v) g))"
    proof (rule gather_sound [where Q = "gathered_given cwd ctx ?texts", OF _ assms(5)])
      fix y h assume y: "y \<in> set (leaves v)" "gathered_given cwd ctx ?texts h"
      show "(\<forall>b \<in> set (fst (leaf_candidates num path line target tokens k f y h)). accounted num cwd ctx target composites path b) \<and>
          gathered_given cwd ctx ?texts (snd (leaf_candidates num path line target tokens k f y h))"
        using leaf_candidates_reproduce [OF assms(1) field _ assms(4) [OF True], where cwd = cwd and g = h] y True by (cases y) simp
    qed
    then show ?thesis using own True by simp
  next
    case False
    then show ?thesis using own assms(5) collections_reproduce(2) [OF assms(1,2) field] by (auto simp: accounted_def)
  qed
  moreover have "accounted num cwd ctx target composites path b" if "reproduces num cwd ctx target b" for b
    using that by (simp add: accounted_def)
  moreover have "field_candidates num composites path line target tokens x g =
      ((if f = Locations_field then collections num path target (k, f, v) @ own else own @ collections num path target (k, f, v)), h)"
    using own by (simp add: field_candidates_def x)
  ultimately show ?thesis using collections_reproduce(1) [OF assms(1,2) field] by auto
qed

lemma splices_given: "all_given cwd ctx texts sources \<Longrightarrow> b \<in> set (splices t sources) \<Longrightarrow> gives_or_lost cwd ctx texts b t"
proof -
  assume given: "all_given cwd ctx texts sources" and b: "b \<in> set (splices t sources)"
  define F where "F = (\<lambda>i j. case index_from t (snd (sources ! i)) 0 of None \<Rightarrow> [] | Some pos \<Rightarrow>
      (case index_from t (snd (sources ! j)) (pos + length (snd (sources ! i))) of None \<Rightarrow> []
       | Some later \<Rightarrow> if i = j then [] else chain_splices 2 t [(i, pos), (j, later)] sources))"
  have "splices t sources = concat (map (\<lambda>i. concat (map (F i) [0..<length sources])) [0..<length sources])"
    by (simp add: splices_def F_def)
  then obtain i j where ij: "i < length sources" "j < length sources" and b: "b \<in> set (F i j)" using b by auto
  note b = b [unfolded F_def]
  obtain pos where pos: "index_from t (snd (sources ! i)) 0 = Some pos" using b by (cases "index_from t (snd (sources ! i)) 0") simp_all
  obtain later where later: "index_from t (snd (sources ! j)) (pos + length (snd (sources ! i))) = Some later"
    using b pos by (cases "index_from t (snd (sources ! j)) (pos + length (snd (sources ! i)))") simp_all
  have chained: "chained t sources [(i, pos), (j, later)]"
    using index_from_found [OF pos] index_from_found [OF later] ij by (simp add: occurs_def stop_of_def)
  have "b \<in> set (chain_splices 2 t [(i, pos), (j, later)] sources)" using b pos later by (simp split: if_splits)
  from chain_splices_given [OF given chained _ this] show ?thesis by simp
qed

lemma joins_given:
  assumes "\<forall>(b, v) \<in> set sources. gives cwd ctx b v" and "b \<in> set (joins cwd t sources)"
  shows "gives cwd ctx b (normalizePath t)"
proof -
  have "gives cwd ctx (fst (sources ! i)) (snd (sources ! i))" if "i < length sources" for i
    using assms(1) nth_mem [OF that] by (simp add: case_prod_beta)
  then show ?thesis using assms(2) gives_join unfolding joins_def by (fastforce split: if_splits)
qed




definition sample_edit :: event where
  "sample_edit = \<lparr>ev_session = ''s'', ev_turn = ''t'', ev_tool = ''edit'', ev_input = JObj [(''path'', JStr ''lib/a.ts'')],
    ev_success = True, ev_output = JUndef, ev_paths = JUndef, ev_locations = JUndef, ev_errorClass = None, ev_operation = None,
    ev_schemaHash = None, ev_learnTarget = True, ev_sequence = 0, ev_batch = None\<rparr>"


text \<open>Both exceptions occur: the swap of a target that is not normalized gives its normal form, a swap that leaves only
  the root of a path is found, but does not give the path back, and one that shares only a closing slash gives nothing.\<close>

lemma swap_at_the_root_misses:
  "rebaseBetween ''/a.ts'' ''lib/a.ts'' = Some ([], ''lib'') \<and> rebase ''/a.ts'' [] ''lib'' = Some ''lib//a.ts''"
  by code_simp

lemma swap_of_directories_misses:
  "rebaseBetween ''lib/'' ''src/'' = Some (''lib'', ''src'') \<and> rebase ''lib/'' ''lib'' ''src'' = None"
  by code_simp

lemma swap_normalizes:
  "rebaseBetween ''lib/a.ts'' ''./src/a.ts'' = Some (''lib'', ''src'') \<and> rebase ''lib/a.ts'' ''lib'' ''src'' = Some ''src/a.ts''"
  by code_simp

end
