(* ===== verification/Pattern_Learning.thy ===== *)
theory Pattern_Learning
  imports Pattern_Inference
begin

text \<open>
  Learning of bindings from observed actions (\<open>PatternBindingAnalysis\<close> of \<open>src/pattern-aware.ts\<close>): the candidates of one
  observation, and the bindings that reproduce most of several observations of the same action.

  \<^item> A sample is a context and the event that followed it; a binding is kept with the counts of its variants.
  \<^item> \<open>collate\<close> stands for the locale-dependent \<open>localeCompare\<close>.
\<close>

subsection \<open>Candidates of one value\<close>

text \<open>A reported location is also bound by item: every source in the locations of an event becomes a pick from them.\<close>

fun correlateLocations :: "binding \<Rightarrow> binding" where
  "correlateLocations (Event_binding k f p) = (case (if f = Locations_field then collectionBinding k f p else None) of
     Some b \<Rightarrow> b | None \<Rightarrow> Event_binding k f p)"
| "correlateLocations (Each_binding k f p item) = Each_binding k f p item"
| "correlateLocations (Constant_binding v) = Constant_binding v"
| "correlateLocations (Transform_binding operation b) = Transform_binding operation (correlateLocations b)"
| "correlateLocations (Coalesce_binding bs) = Coalesce_binding (map correlateLocations bs)"
| "correlateLocations (Template_binding b pre suf) = Template_binding (correlateLocations b) pre suf"
| "correlateLocations (Splice_binding bs parts) = Splice_binding (map correlateLocations bs) parts"
| "correlateLocations (Rebase_binding b from to) = Rebase_binding (correlateLocations b) from to"
| "correlateLocations (Near_binding b tolerance) = Near_binding (correlateLocations b) tolerance"
| "correlateLocations (Join_binding l r) = Join_binding (correlateLocations l) (correlateLocations r)"

definition correlatedBindings :: "binding list \<Rightarrow> binding list" where
  "correlatedBindings bs = concat (map (\<lambda>b. if correlateLocations b \<noteq> b then [correlateLocations b, b] else [b]) bs)"

datatype candidate_mode = Direct | First | All

definition candidateBindings ::
  "(real \<Rightarrow> string) \<Rightarrow> string \<Rightarrow> event list \<Rightarrow> js_val \<Rightarrow> candidate_mode \<Rightarrow> bool \<Rightarrow> bool \<Rightarrow> binding list" where
  "candidateBindings num cwd ctx target mode targetIsPath targetIsLine =
     (let bs = correlatedBindings (inferCandidateBindings num cwd ctx target (mode \<noteq> Direct) targetIsPath targetIsLine) in
      if mode = First then take 1 bs else uniqueBy (\<lambda>b. b) bs)"

text \<open>The bindings of one observation: the first candidate of every leaf, or the value itself.\<close>

definition leaf_flags :: "value_path \<Rightarrow> bool \<times> bool" where
  "leaf_flags p = (isPathField (last_name p), isLineField p)"

definition inferBindings :: "(real \<Rightarrow> string) \<Rightarrow> string \<Rightarrow> event list \<Rightarrow> js_val \<Rightarrow> (value_path, binding) jsmap" where
  "inferBindings num cwd ctx target = fold (\<lambda>(p, v) bs. ms_set p
     (case candidateBindings num cwd ctx v First (fst (leaf_flags p)) (snd (leaf_flags p)) of [] \<Rightarrow> Constant_binding v | b # _ \<Rightarrow> b) bs)
     (leaves target) []"

subsection \<open>Bindings of several observations\<close>

type_synonym sample = "event list \<times> event"

definition encodePath :: "value_path \<Rightarrow> string" where
  "encodePath p = ''['' @ join_with '','' (map (\<lambda>s. case s of Key k \<Rightarrow> json_string k | Index i \<Rightarrow> nat_text i) p) @ '']''"

definition target_paths :: "(string \<Rightarrow> string \<Rightarrow> int) \<Rightarrow> sample list \<Rightarrow> value_path list" where
  "target_paths collate samples = sort_cmp (\<lambda>p q. collate (encodePath p) (encodePath q))
     (uniq (concat (map (\<lambda>(ctx, e). map fst (leaves (ev_input e))) samples)))"

definition sample_targets :: "sample list \<Rightarrow> value_path \<Rightarrow> js_val option list" where
  "sample_targets samples p = map (\<lambda>(ctx, e). getPath (ev_input e) p) samples"

definition stablePayloadConstant :: "sample list \<Rightarrow> nat \<Rightarrow> bool" where
  "stablePayloadConstant samples minimum \<longleftrightarrow> minimum \<le> length samples \<and>
     minimum \<le> length (uniq (map (\<lambda>(ctx, e). ev_session e @ '':'' @ ev_turn e) samples))"

text \<open>Direct sources first, composites of texts next, last the sources seen in different samples as fallbacks of each other.\<close>

definition is_event :: "binding \<Rightarrow> bool" where
  "is_event b \<longleftrightarrow> (case b of Event_binding _ _ _ \<Rightarrow> True | _ \<Rightarrow> False)"

definition learn_candidates ::
  "(real \<Rightarrow> string) \<Rightarrow> string \<Rightarrow> sample list \<Rightarrow> js_val list \<Rightarrow> value_path \<Rightarrow> binding list" where
  "learn_candidates num cwd samples targets p =
     (let (path, line) = leaf_flags p;
          direct = concat (map (\<lambda>((ctx, e), t). candidateBindings num cwd ctx t Direct path line) (zip samples targets));
          composite = concat (map (\<lambda>((ctx, e), t). case t of
            JStr _ \<Rightarrow> candidateBindings num cwd ctx t All path line | _ \<Rightarrow> []) (zip samples targets));
          fallback = uniqueBy (\<lambda>b. b) (filter is_event direct) in
      uniqueBy (\<lambda>b. b) (direct @ composite @ (if 1 < length fallback then [Coalesce_binding fallback] else [])))"

text \<open>How many samples the bindings chosen so far and a candidate reproduce together.\<close>

definition replayed :: "(real \<Rightarrow> string) \<Rightarrow> string \<Rightarrow> sample list \<Rightarrow> binding_map \<Rightarrow> value_path \<Rightarrow> binding \<Rightarrow> nat" where
  "replayed num cwd samples bs p c =
     length (filter (\<lambda>(ctx, e). bindingMatches num cwd (ms_set p (c, None) bs) ctx (ev_input e)) samples)"

fun select_loop :: "(binding \<Rightarrow> nat) \<Rightarrow> nat \<Rightarrow> (binding \<times> nat) option \<Rightarrow> binding list \<Rightarrow> binding option" where
  "select_loop replay n best [] = map_option fst best"
| "select_loop replay n best (c # cs) =
     (if (case best of None \<Rightarrow> False | Some (_, m) \<Rightarrow> replay c \<le> m) then select_loop replay n best cs
      else if replay c = n then Some c
      else select_loop replay n (Some (c, replay c)) cs)"

definition withObservedVariantCounts ::
  "(real \<Rightarrow> string) \<Rightarrow> string \<Rightarrow> binding \<Rightarrow> sample list \<Rightarrow> js_val list \<Rightarrow> binding \<times> (nat, js_val) jsmap option" where
  "withObservedVariantCounts num cwd b samples targets =
     (let seen = map (\<lambda>((ctx, e), t). let vals = bindingValues num cwd ctx b in
            (length vals, find (\<lambda>i. bindingValueMatches num b (vals ! i) (Some t)) [0..<length vals])) (zip samples targets);
          width = fold max (map fst seen) 1;
          counts = fold (\<lambda>(n, selected) m. case selected of
            None \<Rightarrow> m | Some i \<Rightarrow> ms_set i ((case map_of m i of Some k \<Rightarrow> k | None \<Rightarrow> 0) + 1) m) seen [] in
      (b, if width \<le> 1 \<or> counts = [] then None
          else Some (map (\<lambda>(i, k). (i, jnum (real k))) (sort_key fst (counts :: (nat, nat) jsmap)))))"

datatype learned = Skipped | Refused | Learned "binding \<times> (nat, js_val) jsmap option"

definition learn_path ::
  "(real \<Rightarrow> string) \<Rightarrow> string \<Rightarrow> sample list \<Rightarrow> nat \<Rightarrow> bool \<Rightarrow> value_path \<Rightarrow> binding_map \<Rightarrow> learned" where
  "learn_path num cwd samples support omit p bs =
     (let found = sample_targets samples p in
      if None \<in> set found then (if omit then Skipped else Refused)
      else let targets = map the found; value = hd targets; constant = list_all (\<lambda>v. stableEqual num v value) targets in
        if constant \<and> \<not> requiresProvenance p value then Learned (Constant_binding value, None)
        else (case select_loop (replayed num cwd samples bs p) (length samples) None (learn_candidates num cwd samples targets p) of
            Some b \<Rightarrow> Learned (withObservedVariantCounts num cwd b samples targets)
          | None \<Rightarrow> if constant \<and> stablePayloadConstant samples support then Learned (Constant_binding value, None)
                    else if omit then Skipped else Refused))"

fun learn_paths :: "(value_path \<Rightarrow> binding_map \<Rightarrow> learned) \<Rightarrow> value_path list \<Rightarrow> binding_map \<Rightarrow> binding_map option" where
  "learn_paths learn [] bs = Some bs"
| "learn_paths learn (p # ps) bs = (case learn p bs of
     Skipped \<Rightarrow> learn_paths learn ps bs
   | Refused \<Rightarrow> None
   | Learned x \<Rightarrow> learn_paths learn ps (ms_set p x bs))"

definition inferBindingsFromSamples ::
  "(real \<Rightarrow> string) \<Rightarrow> string \<Rightarrow> (string \<Rightarrow> string \<Rightarrow> int) \<Rightarrow> sample list \<Rightarrow> nat \<Rightarrow> bool \<Rightarrow> binding_map option" where
  "inferBindingsFromSamples num cwd collate samples support omit = (if samples = [] then None
     else learn_paths (learn_path num cwd samples support omit) (target_paths collate samples) [])"

subsection \<open>The selected bindings\<close>

lemma select_loop_best:
  assumes "select_loop replay n best cs = Some b" and "\<forall>c \<in> set cs. replay c \<le> n" and "\<forall>a m. best = Some (a, m) \<longrightarrow> m = replay a \<and> m \<le> n"
  shows "(b \<in> set cs \<or> map_option fst best = Some b) \<and> (\<forall>c \<in> set cs. replay c \<le> replay b) \<and> (\<forall>a m. best = Some (a, m) \<longrightarrow> m \<le> replay b)"
  using assms
proof (induction replay n best cs rule: select_loop.induct)
  case (2 replay n best c cs)
  let ?kept = "case best of None \<Rightarrow> False | Some (_, m) \<Rightarrow> replay c \<le> m"
  have rest: "\<forall>c \<in> set cs. replay c \<le> n" "replay c \<le> n" using 2(4) by simp_all
  consider (kept) "?kept" | (full) "\<not> ?kept" "replay c = n" | (better) "\<not> ?kept" "replay c \<noteq> n" by blast
  then show ?case
  proof cases
    case kept
    then obtain a m where am: "best = Some (a, m)" "replay c \<le> m" by (cases best) auto
    have "(b \<in> set cs \<or> map_option fst best = Some b) \<and> (\<forall>c \<in> set cs. replay c \<le> replay b) \<and> (\<forall>a m. best = Some (a, m) \<longrightarrow> m \<le> replay b)"
      by (rule 2(1) [OF kept _ rest(1) 2(5)]) (use kept 2(3) in simp)
    moreover from this have "replay c \<le> replay b" using am by fastforce
    ultimately show ?thesis by auto
  next
    case full
    then have "b = c" using 2(3) by simp
    then show ?thesis using full(2) rest 2(5) by auto
  next
    case better
    have "(b \<in> set cs \<or> map_option fst (Some (c, replay c)) = Some b) \<and> (\<forall>c \<in> set cs. replay c \<le> replay b) \<and>
        (\<forall>a m. Some (c, replay c) = Some (a, m) \<longrightarrow> m \<le> replay b)"
      by (rule 2(2) [OF better _ rest(1)]) (use better 2(3) rest(2) in simp_all)
    moreover have "m \<le> replay c" if "best = Some (a, m)" for a m using better(1) that by simp
    ultimately show ?thesis by fastforce
  qed
next
  case (1 replay n best)
  then show ?case by (cases best) auto
qed

lemma select_loop_none: "select_loop replay n best cs = None \<Longrightarrow> best = None \<and> cs = []"
  by (induction replay n best cs rule: select_loop.induct) (auto split: if_splits)

lemma counted_binding: "(b, counts) = withObservedVariantCounts num cwd c samples targets \<Longrightarrow> b = c"
  by (simp add: withObservedVariantCounts_def Let_def)

lemma learn_path_learned:
  assumes "learn_path num cwd samples support omit p bs = Learned (b, counts)" and "samples \<noteq> []"
  shows "\<exists>targets. sample_targets samples p = map Some targets \<and>
    (b = Constant_binding (hd targets) \<and> list_all (\<lambda>v. stableEqual num v (hd targets)) targets \<and>
       (requiresProvenance p (hd targets) \<longrightarrow> learn_candidates num cwd samples targets p = [] \<and> stablePayloadConstant samples support) \<or>
     b \<in> set (learn_candidates num cwd samples targets p) \<and>
       (\<forall>c \<in> set (learn_candidates num cwd samples targets p). replayed num cwd samples bs p c \<le> replayed num cwd samples bs p b))"
proof -
  define targets where "targets = map the (sample_targets samples p)"
  define select where "select = select_loop (replayed num cwd samples bs p) (length samples) None (learn_candidates num cwd samples targets p)"
  have all: "None \<notin> set (sample_targets samples p)" using assms(1) by (auto simp: learn_path_def split: if_splits)
  then have some: "sample_targets samples p = map Some targets" by (auto intro!: nth_equalityI simp: targets_def in_set_conv_nth)
  define agreed where "agreed \<longleftrightarrow> list_all (\<lambda>v. stableEqual num v (hd targets)) targets"
  have run: "Learned (b, counts) = (if agreed \<and> \<not> requiresProvenance p (hd targets) then Learned (Constant_binding (hd targets), None)
      else (case select of Some c \<Rightarrow> Learned (withObservedVariantCounts num cwd c samples targets)
        | None \<Rightarrow> if agreed \<and> stablePayloadConstant samples support then Learned (Constant_binding (hd targets), None)
            else if omit then Skipped else Refused))"
    using assms(1) all unfolding learn_path_def Let_def targets_def [symmetric] select_def [symmetric] agreed_def [symmetric] by simp
  have best: "c \<in> set (learn_candidates num cwd samples targets p) \<and>
      (\<forall>d \<in> set (learn_candidates num cwd samples targets p). replayed num cwd samples bs p d \<le> replayed num cwd samples bs p c)"
    if "select = Some c" for c
    using select_loop_best [OF that [unfolded select_def]] by (auto simp: replayed_def)
  have none: "learn_candidates num cwd samples targets p = []" if "select = None"
    using select_loop_none [OF that [unfolded select_def]] by simp
  have "b = Constant_binding (hd targets) \<and> agreed \<and> (\<not> requiresProvenance p (hd targets) \<or> select = None \<and> stablePayloadConstant samples support) \<or>
      select = Some b"
    using run by (cases select) (auto dest: counted_binding split: if_splits)
  then show ?thesis using some best none unfolding agreed_def by blast
qed

lemma learn_paths_learned:
  assumes "learn_paths learn ps bs = Some out" and "distinct ps" and "set ps \<inter> set (map fst bs) = {}"
  shows "\<exists>new. out = bs @ new \<and> distinct (map fst new) \<and> set (map fst new) \<subseteq> set ps \<and>
    (\<forall>i < length new. learn (fst (new ! i)) (bs @ take i new) = Learned (snd (new ! i))) \<and>
    (\<forall>p \<in> set ps. p \<in> set (map fst new) \<or> (\<exists>earlier. learn p earlier = Skipped))"
  using assms
proof (induction ps arbitrary: bs)
  case (Cons p ps)
  have fresh: "distinct ps" "set ps \<inter> set (map fst bs) = {}" "p \<notin> set ps" using Cons.prems by auto
  show ?case
  proof (cases "learn p bs")
    case Skipped
    then have "learn_paths learn ps bs = Some out" using Cons.prems(1) by simp
    from Cons.IH [OF this fresh(1,2)] show ?thesis using Skipped by fastforce
  next
    case Refused
    then show ?thesis using Cons.prems(1) by simp
  next
    case (Learned x)
    have "ms_set p x bs = bs @ [(p, x)]" using Cons.prems(3) by (intro ms_set_new) auto
    then have "learn_paths learn ps (bs @ [(p, x)]) = Some out" using Cons.prems(1) Learned by simp
    moreover have "set ps \<inter> set (map fst (bs @ [(p, x)])) = {}" using fresh by auto
    ultimately obtain new where new: "out = (bs @ [(p, x)]) @ new" "distinct (map fst new)" "set (map fst new) \<subseteq> set ps"
      "\<forall>i < length new. learn (fst (new ! i)) ((bs @ [(p, x)]) @ take i new) = Learned (snd (new ! i))"
      "\<forall>p \<in> set ps. p \<in> set (map fst new) \<or> (\<exists>earlier. learn p earlier = Skipped)"
      using Cons.IH [OF _ fresh(1)] by blast
    have "\<forall>i < length ((p, x) # new). learn (fst (((p, x) # new) ! i)) (bs @ take i ((p, x) # new)) = Learned (snd (((p, x) # new) ! i))"
    proof (intro allI impI)
      fix i assume "i < length ((p, x) # new)"
      then show "learn (fst (((p, x) # new) ! i)) (bs @ take i ((p, x) # new)) = Learned (snd (((p, x) # new) ! i))"
        using new(4) Learned by (cases i) simp_all
    qed
    then show ?thesis using new fresh(3) by (intro exI [of _ "(p, x) # new"]) auto
  qed
qed simp

lemma distinct_target_paths: "distinct (target_paths collate samples)"
  by (simp add: target_paths_def uniq_def)

text \<open>C10.
  Bindings learned from samples of an action: every binding stands for an argument that occurs in all samples.  It
  is either a candidate that, together with the bindings learned before it, reproduces at least as many samples as every other
  candidate, or a constant that all samples agree on, where an argument that needs a provenance is a constant only
  when it has no candidate at all and enough turns agree.  Unless omissions are allowed every argument is bound.\<close>

theorem learned_bindings_explain_the_samples:
  assumes "inferBindingsFromSamples num cwd collate samples support omit = Some bs"
  shows "distinct (map fst bs) \<and> set (map fst bs) \<subseteq> set (target_paths collate samples) \<and>
    (omit \<or> set (map fst bs) = set (target_paths collate samples)) \<and>
    (\<forall>i < length bs. \<exists>targets. sample_targets samples (fst (bs ! i)) = map Some targets \<and>
      (let p = fst (bs ! i); b = fst (snd (bs ! i)); candidates = learn_candidates num cwd samples targets p;
           score = replayed num cwd samples (take i bs) p in
       b \<in> set candidates \<and> (\<forall>c \<in> set candidates. score c \<le> score b) \<or>
       b = Constant_binding (hd targets) \<and> list_all (\<lambda>v. stableEqual num v (hd targets)) targets \<and>
         (\<not> requiresProvenance p (hd targets) \<or> candidates = [] \<and> stablePayloadConstant samples support)))"
proof -
  have run: "samples \<noteq> []" "learn_paths (learn_path num cwd samples support omit) (target_paths collate samples) [] = Some bs"
    using assms by (auto simp: inferBindingsFromSamples_def split: if_splits)
  note learned = learn_paths_learned [OF run(2) distinct_target_paths, simplified]
  have kept: "omit" if "learn_path num cwd samples support omit p earlier = Skipped" for p earlier
    using that by (auto simp: learn_path_def Let_def split: if_splits option.splits)
  have "\<exists>targets. sample_targets samples (fst (bs ! i)) = map Some targets \<and>
      (let p = fst (bs ! i); b = fst (snd (bs ! i)); candidates = learn_candidates num cwd samples targets p;
           score = replayed num cwd samples (take i bs) p in
       b \<in> set candidates \<and> (\<forall>c \<in> set candidates. score c \<le> score b) \<or>
       b = Constant_binding (hd targets) \<and> list_all (\<lambda>v. stableEqual num v (hd targets)) targets \<and>
         (\<not> requiresProvenance p (hd targets) \<or> candidates = [] \<and> stablePayloadConstant samples support))"
    if "i < length bs" for i
  proof -
    have "learn_path num cwd samples support omit (fst (bs ! i)) (take i bs) = Learned (fst (snd (bs ! i)), snd (snd (bs ! i)))"
      using learned \<open>i < length bs\<close> by simp
    from learn_path_learned [OF this run(1)] show ?thesis unfolding Let_def by blast
  qed
  moreover have "omit \<or> set (map fst bs) = set (target_paths collate samples)"
  proof (cases omit)
    case False
    have "p \<in> set (map fst bs)" if "p \<in> set (target_paths collate samples)" for p
    proof -
      have "p \<in> set (map fst bs) \<or> (\<exists>earlier. learn_path num cwd samples support omit p earlier = Skipped)"
        using learned that by simp
      then show ?thesis using kept False by blast
    qed
    then show ?thesis using learned by auto
  qed simp
  ultimately show ?thesis using learned by simp
qed


definition sample_move :: "string \<Rightarrow> sample" where
  "sample_move name = ([sample_edit\<lparr>ev_input := JObj [(''path'', JStr (''lib/'' @ name))]\<rparr>],
     sample_edit\<lparr>ev_input := JObj [(''path'', JStr (''src/'' @ name))]\<rparr>)"

theorem learned_bindings_explain_the_samples_witness:
  "inferBindingsFromSamples sample_number ''/w'' (\<lambda>_ _. 0) [sample_move ''a.ts'', sample_move ''b.ts''] 4 False =
     Some [([Key ''path''], Rebase_binding (Event_binding (-1) Input_field [Key ''path'']) ''lib'' ''src'', None)] \<and>
   set (target_paths (\<lambda>_ _. 0) [sample_move ''a.ts'', sample_move ''b.ts'']) = {[Key ''path'']}"
  (is "?learned = _ \<and> _")
proof -
  have "?learned = Some [([Key ''path''], Rebase_binding (Event_binding (-1) Input_field [Key ''path'']) ''lib'' ''src'', None)]"
    by code_simp
  from this learned_bindings_explain_the_samples [OF this] show ?thesis by simp
qed

end
