(* ===== verification/Spec2Isabelle.thy ===== *)
theory Spec2Isabelle
  imports Scheduler Plan_Updates Candidate_Execution Candidate_Stores Ppm_Trie Task_Timing Certificate_Keys Effect_Transaction Drafter_Budget Event_Delivery Execution_Routing Reuse_Planner Pattern_Learning
begin

text \<open>
  A verification library for the decision logic of pi-speculative-action, an extension that executes probable tool calls
  of a coding agent (the Actor) ahead of time and reuses what earlier executions left behind.

  The program and its parts:

  \<^item> Sources predict calls.  The pattern source learns from events how arguments derive from earlier ones; the suffix trie
    ranks the tools that may follow; the drafter asks a model within a budget per task.
  \<^item> Predictions become plans: graphs of actions with dependencies, time windows and executions.  The scheduler admits
    their executions within the hardware that is free; candidates hold what an execution produces, under their keys.
  \<^item> A call of the Actor is matched with candidates by its key, or with certificates of completed processes by their
    evidence.  What is adopted is validated against the current world and its effects are committed once.
  \<^item> Around them: routing to isolated execution worlds, effect transactions, lifecycle lanes, content storage, the
    accounting of time, delivery of events to observers.

  The theories, each with the files of \<open>src/\<close> it models; within a theory the definitions follow the order of the code.

  \<^item> \<open>Prelude\<close>: JavaScript values, insertion-ordered maps (the locale \<open>keyed_map\<close>, interpreted as \<open>jm\<close>), comparison
    sorts, shared lemmas.
  \<^item> \<open>Numbers\<close> (\<open>number-utils.ts\<close>, \<open>setting-input.ts\<close>, \<open>scheduling-settings.ts\<close>), \<open>Stable_Json\<close> and \<open>Json_Text\<close>
    (\<open>stable-json.ts\<close>), \<open>Path_Utils\<close> (\<open>path-utils.ts\<close>), \<open>Recency_Map\<close> (\<open>bounded-recency-map.ts\<close>, locale
    \<open>lossy_cache\<close>), \<open>Dependency_Order\<close> (\<open>dependency-order.ts\<close>, locale \<open>dependency_ordering\<close>): what every part builds on.
    The canonical text of a value is shown unambiguous by a decoder; equality of values, which reads members through the
    prototype, agrees with it for objects without own members named \<open>__proto__\<close>; containment of paths is decided on segments; the
    cache is exactly the most recent keys; the traversal returns an order or names a cycle.
  \<^item> \<open>Settlement\<close> (\<open>settlement.ts\<close>), \<open>Prediction_Opportunity\<close>, \<open>Plan_Actions\<close>, \<open>Plan_Runtime\<close>, \<open>Plan_Graph\<close>,
    \<open>Plan_Commit\<close>, \<open>Plan_Windows\<close>, \<open>Plan_Readiness\<close>, \<open>Plan_Updates\<close> (\<open>plan-proposal.ts\<close>, \<open>plan-runtime.ts\<close>): plans.  The
    state is the record of materialized plans with their joined graph.  The graph is acyclic after every operation, so
    an update never fails to order it and renews exactly the nodes whose action changed or that depend on a renewed one;
    windows are the fixpoint over that order; readiness decides its condition on all
    ancestors; a prediction is settled exactly once.
  \<^item> \<open>Effect_Model\<close> (\<open>effect-model.ts\<close>), \<open>Action_Semantics\<close> (\<open>action-semantics.ts\<close>, \<open>action-key-projection.ts\<close>, locale
    \<open>indexed_projections\<close>, interpreted on the stock projectors), \<open>Candidate_Execution\<close> (\<open>candidate-execution.ts\<close>),
    \<open>Candidate_Stores\<close> (\<open>candidate-stores.ts\<close>): keys, their projections and the indexed stores.  Keys identify actions;
    a lookup finds exactly what matches; the index agrees with its partitions after every operation; a terminal execution
    stays as it is; exclusive candidates are leased once.
  \<^item> \<open>Scheduler\<close> (\<open>scheduler.ts\<close>), \<open>Drafter_Budget\<close> (\<open>common.ts\<close>, \<open>drafter-budget.ts\<close>), \<open>Event_Delivery\<close>
    (\<open>post-settlement.ts\<close>), \<open>Runtime_Lifecycle\<close> (\<open>runtime-lifecycle.ts\<close>): admission within capacity, preemption, budgets
    under overlapping requests, ordered delivery, and lanes that close once everything tracked has settled.
  \<^item> \<open>Effect_Transaction\<close> (\<open>effect-transaction.ts\<close>), \<open>Execution_Routing\<close> (\<open>execution-world.ts\<close>): the transaction of a
    sealed branch as a step relation over all interleavings of calls and settled work, with the protocol its backend sees
    as the abstract specification; a request goes to the first world that can run it; captures.
  \<^item> \<open>Content_Chunks\<close> (\<open>artifact-reference.ts\<close>, \<open>stable-value-hash.ts\<close>, \<open>content-chunks.ts\<close>, parts of \<open>reuse-store.ts\<close>, locale
    \<open>block_store\<close>, interpreted on the pool), \<open>Certificates\<close> and \<open>Certificate_Keys\<close> (\<open>provenance-certificate.ts\<close>),
    \<open>Reuse_Planner\<close> (\<open>provenance-validation.ts\<close>, \<open>reuse-planner.ts\<close>): what a completed process leaves behind.  Captured
    content reads back; evidence is refused exactly when it conflicts; keys identify executions; a planned reuse is
    current.
  \<^item> \<open>Timeline_Intervals\<close>, \<open>Timeline_Computation\<close>, \<open>Task_Timing\<close> (\<open>timeline-computation.ts\<close>, \<open>task-timing.ts\<close>): interval
    arithmetic, telemetry that may be handed over, the evidence graph and the savings attributed to a call.
  \<^item> \<open>Ppm_Trie\<close> (\<open>ppm-count-trie.ts\<close>), \<open>Pattern_Values\<close>, \<open>Pattern_Bindings\<close>, \<open>Pattern_Inference\<close>, \<open>Pattern_Learning\<close>
    (\<open>pattern-aware.ts\<close>): prediction.  The distribution is interpolated PPM; bindings inferred for a value reproduce it,
    up to path normal forms and the directory swaps that \<open>rebase\<close> loses; the inputs bindings propose are realized by consistent rows; learned bindings are the best candidates.

  Conventions:

  \<^item> State is passed explicitly, objects with identity live in stores of the state.  Every throw and early return is a
    value of an option or sum type.  Where several calls overlap, one call is the sequence of its sections between
    awaits, and the operations or steps may interleave in any order; liveness bounds the number of steps to the end.
  \<^item> Loops are recursive functions with their measure; a traversal that follows references that could be cyclic carries
    fuel (the number of objects), and the theorems show that the stores the operations build never exhaust it.
  \<^item> Numbers are reals with \<open>NaN\<close> and infinities, counts are naturals or integers within the safe range; rounding of
    doubles and the sign of zero are not modelled.  Strings are lists of code units below 256.
  \<^item> Parameters stand for code outside the repository: the text of a number, SHA-256 as an arbitrary function (identity
    theorems carry the hypothesis that the texts at hand do not collide), \<open>localeCompare\<close>, the working directory, clocks
    as readings, path resolution of the agent package, and the answers of backends, worlds and hosts as arguments of
    steps.

  Not modelled: file system, process and database access and the native helpers, the host and model interfaces, the
  promise plumbing of the runtime engine between the parts above, Windows paths, proxies and accessors of values, memo
  caches keyed by identity, asynchronous context tracking, cancellation inside content I/O, and diagnostics.
\<close>

end
